(* ===== verification/Prelude.thy ===== *)
theory Prelude
  imports Main "HOL-Library.Word"
begin

text \<open>
  What every component of the development shares: the machine types of the target (64-bit
  little-endian Apple platforms), the shape of a C function that returns \<open>bool\<close> and works on
  a struct through a pointer, the little-endian byte layout of words, and lemmas on lists and
  words.

  A C function \<open>bool f(S *s, ..., T *out)\<close> is modelled as an action \<open>('s, 'a) act\<close>: a function of
  the struct's contents. \<open>None\<close> is an execution with no defined result (undefined behaviour, or
  a loop that does not end); \<open>Some (None, s')\<close> is a return of \<open>false\<close> with the struct left as
  \<open>s'\<close>; \<open>Some (Some x, s')\<close> is a return of \<open>true\<close> with the out-parameter set to \<open>x\<close>.
\<close>

unbundle bit_operations_syntax

type_synonym byte = "8 word"
type_synonym u16 = "16 word"
type_synonym u32 = "32 word"
type_synonym u64 = "64 word"

named_theorems act_simps \<open>evaluation of actions\<close>
named_theorems le_simps \<open>little-endian byte layout\<close>

section \<open>Actions\<close>

type_synonym ('s, 'a) act = "'s \<Rightarrow> ('a option \<times> 's) option"

definition ret :: "'a \<Rightarrow> ('s, 'a) act" where
  "ret x = (\<lambda>s. Some (Some x, s))"

definition ret_false :: "('s, 'a) act" where
  "ret_false = (\<lambda>s. Some (None, s))"

definition undefined_behaviour :: "('s, 'a) act" where
  "undefined_behaviour = (\<lambda>s. None)"

text \<open>\<open>if (!f(s, &x)) return false; g(s, x)\<close>\<close>

definition bnd :: "('s, 'a) act \<Rightarrow> ('a \<Rightarrow> ('s, 'b) act) \<Rightarrow> ('s, 'b) act" where
  "bnd f g = (\<lambda>s. case f s of
      None \<Rightarrow> None
    | Some (None, s') \<Rightarrow> Some (None, s')
    | Some (Some x, s') \<Rightarrow> g x s')"

text \<open>\<open>return status;\<close>\<close>

definition return_status :: "bool \<Rightarrow> ('s, unit) act" where
  "return_status b = (if b then ret () else ret_false)"

text \<open>\<open>status = f(...)\<close>: the result is kept and the caller goes on.\<close>

definition status_of :: "('s, unit) act \<Rightarrow> ('s, bool) act" where
  "status_of f = (\<lambda>s. case f s of None \<Rightarrow> None | Some (r, s') \<Rightarrow> Some (Some (r \<noteq> None), s'))"

lemma ret_apply [simp, act_simps]: "ret x s = Some (Some x, s)"
  by (simp add: ret_def)

lemma ret_false_apply [simp, act_simps]: "ret_false s = Some (None, s)"
  by (simp add: ret_false_def)

lemma undefined_behaviour_apply [simp, act_simps]: "undefined_behaviour s = None"
  by (simp add: undefined_behaviour_def)

lemma bnd_true [act_simps]: "f s = Some (Some x, s') \<Longrightarrow> bnd f g s = g x s'"
  by (simp add: bnd_def)

lemma bnd_false [act_simps]: "f s = Some (None, s') \<Longrightarrow> bnd f g s = Some (None, s')"
  by (simp add: bnd_def)

lemma bnd_undefined [act_simps]: "f s = None \<Longrightarrow> bnd f g s = None"
  by (simp add: bnd_def)

lemma bnd_ret [simp]: "bnd (ret x) g = g x"
  by (rule ext) (simp add: bnd_def)

lemma bnd_assoc: "bnd (bnd f g) h = bnd f (\<lambda>x. bnd (g x) h)"
  by (rule ext) (simp add: bnd_def split: option.splits prod.splits)

lemma bnd_eq_Some_Some:
  "bnd f g s = Some (Some y, t) \<longleftrightarrow> (\<exists>x s'. f s = Some (Some x, s') \<and> g x s' = Some (Some y, t))"
  by (auto simp: bnd_def split: option.splits)

lemma bnd_eq_Some_None:
  "bnd f g s = Some (None, t) \<longleftrightarrow>
     f s = Some (None, t) \<or> (\<exists>x s'. f s = Some (Some x, s') \<and> g x s' = Some (None, t))"
  by (auto simp: bnd_def split: option.splits)

lemma bnd_eq_None:
  "bnd f g s = None \<longleftrightarrow> f s = None \<or> (\<exists>x s'. f s = Some (Some x, s') \<and> g x s' = None)"
  by (auto simp: bnd_def split: option.splits)

lemma bnd_cong [fundef_cong]:
  assumes "s = s'" and "f s' = f' s'"
    and "\<And>x t. f' s' = Some (Some x, t) \<Longrightarrow> g x t = g' x t"
  shows "bnd f g s = bnd f' g' s'"
  using assms by (auto simp: bnd_def split: option.splits)

text \<open>
  A relation between the states before and after, kept by every way an action can return. Used
  for facts of the form ``a reader only consumes its input''.
\<close>

definition act_rel :: "('s \<Rightarrow> 's \<Rightarrow> bool) \<Rightarrow> ('s, 'a) act \<Rightarrow> bool" where
  "act_rel R f \<longleftrightarrow> (\<forall>s r s'. f s = Some (r, s') \<longrightarrow> R s s')"

lemma act_relI: "(\<And>s r s'. f s = Some (r, s') \<Longrightarrow> R s s') \<Longrightarrow> act_rel R f"
  by (auto simp: act_rel_def)

lemma act_relD: "act_rel R f \<Longrightarrow> f s = Some (r, s') \<Longrightarrow> R s s'"
  by (auto simp: act_rel_def)

lemma act_rel_ret: "(\<And>s. R s s) \<Longrightarrow> act_rel R (ret x)"
  by (auto simp: act_rel_def)

lemma act_rel_bnd:
  assumes "act_rel R f" and "\<And>x. act_rel R (g x)" and "\<And>a b c. R a b \<Longrightarrow> R b c \<Longrightarrow> R a c"
  shows "act_rel R (bnd f g)"
proof (rule act_relI)
  fix s r s'
  assume eq: "bnd f g s = Some (r, s')"
  show "R s s'"
  proof (cases "f s")
    case None
    with eq show ?thesis by (simp add: bnd_def)
  next
    case (Some p)
    obtain o' t where p: "p = (o', t)" by (cases p)
    with Some assms(1) have st: "R s t" by (auto dest: act_relD)
    show ?thesis
    proof (cases o')
      case None
      with Some p eq st show ?thesis by (simp add: bnd_def)
    next
      case (Some x)
      with \<open>f s = Some p\<close> p eq have "g x t = Some (r, s')" by (simp add: bnd_def)
      with assms(2) have "R t s'" by (auto dest: act_relD)
      with st assms(3) show ?thesis by blast
    qed
  qed
qed

text \<open>Actions may stand in the body of a loop that is not known to end.\<close>

lemma bnd_mono [partial_function_mono]:
  assumes "mono_option (\<lambda>F. f F s)" and "\<And>x t. mono_option (\<lambda>F. g F x t)"
  shows "mono_option (\<lambda>F. bnd (f F) (g F) s)"
proof -
  have eq: "(\<lambda>F. bnd (f F) (g F) s) =
    (\<lambda>F. Option.bind (f F s) (\<lambda>p. case p of (None, t) \<Rightarrow> Some (None, t) | (Some x, t) \<Rightarrow> g F x t))"
    by (rule ext) (simp add: bnd_def split: option.splits prod.splits)
  have "mono_option (\<lambda>F. case p of (None, t) \<Rightarrow> Some (None, t) | (Some x, t) \<Rightarrow> g F x t)" for p
  proof (cases p)
    case (Pair r t)
    show ?thesis
    proof (cases r)
      case None
      with Pair show ?thesis by (simp add: option.const_mono)
    next
      case (Some x)
      with Pair assms(2) show ?thesis by simp
    qed
  qed
  with assms(1) show ?thesis unfolding eq by (rule bind_mono)
qed

section \<open>Words and their value\<close>

lemma unat_lt_8: "unat (b :: byte) < 256"
  using unsigned_less [of b] by simp

lemma unat_lt_32: "unat (x :: u32) < 4294967296"
  using unsigned_less [of x] by simp

lemma unat_lt_64: "unat (x :: u64) < 18446744073709551616"
  using unsigned_less [of x] by simp

lemma unat_and_mask7: "unat ((b :: 'a::len word) AND 127) = unat b mod 128"
proof -
  have "b AND 127 = take_bit 7 b"
    by (simp add: take_bit_eq_mask mask_eq_exp_minus_1)
  then have "unat (b AND 127) = take_bit 7 (unat b)"
    by (simp add: unsigned_take_bit_eq)
  then show ?thesis
    by (simp add: take_bit_eq_mod)
qed

lemma unat_or_disjoint:
  fixes a b :: "'a::len word"
  assumes "unat a < 2 ^ k" and "2 ^ k dvd unat b"
  shows "unat (a OR b) = unat a + unat b"
proof -
  have "take_bit k (unat a) = unat a" using assms(1) by (rule take_bit_nat_eq_self)
  have "a AND b = 0"
  proof (rule bit_eqI)
    fix n
    show "bit (a AND b) n \<longleftrightarrow> bit (0 :: 'a word) n"
    proof (cases "n < k")
      case True
      from assms(2) have "take_bit k (unat b) = 0" by (simp add: take_bit_eq_mod mod_0_imp_dvd)
      then have "\<not> bit (take_bit k (unat b)) n" by simp
      with True have "\<not> bit (unat b) n" by (simp add: bit_take_bit_iff)
      then show ?thesis by (auto simp: bit_and_iff bit_unsigned_iff bit_imp_le_length)
    next
      case False
      have "\<not> bit (take_bit k (unat a)) n" using False by (simp add: bit_take_bit_iff)
      with \<open>take_bit k (unat a) = unat a\<close> have "\<not> bit (unat a) n" by simp
      then show ?thesis by (auto simp: bit_and_iff bit_unsigned_iff bit_imp_le_length)
    qed
  qed
  then have "unat a AND unat b = 0"
    by (metis unsigned_and_eq unsigned_0)
  then have "unat a OR unat b = unat a + unat b"
    by (simp add: disjunctive_add_eq_or)
  then show ?thesis by (simp add: unsigned_or_eq)
qed

lemma unat_ucast_up: "LENGTH('a) \<le> LENGTH('b) \<Longrightarrow> unat (ucast (x :: 'a::len word) :: 'b::len word) = unat x"
proof -
  assume le: "LENGTH('a) \<le> LENGTH('b)"
  have "unat x < 2 ^ LENGTH('a)" by (rule unsigned_less)
  also have "(2::nat) ^ LENGTH('a) \<le> 2 ^ LENGTH('b)" using le by (simp add: power_increasing)
  finally show ?thesis by (simp add: unsigned_ucast_eq take_bit_nat_eq_self)
qed

lemma unat_push_bit:
  fixes x :: "'a::len word"
  assumes "unat x * 2 ^ k < 2 ^ LENGTH('a)"
  shows "unat (push_bit k x) = unat x * 2 ^ k"
proof -
  have "unat (push_bit k x) = take_bit LENGTH('a) (push_bit k (unat x))"
    by (simp only: unsigned_push_bit_eq)
  also have "push_bit k (unat x) = unat x * 2 ^ k" by (rule push_bit_eq_mult)
  also have "take_bit LENGTH('a) (unat x * 2 ^ k) = unat x * 2 ^ k"
    using assms by (rule take_bit_nat_eq_self)
  finally show ?thesis .
qed

lemma unat_drop_bit: "unat (drop_bit k (x :: 'a::len word)) = unat x div 2 ^ k"
  using drop_bit_eq_div [of k "unat x"] by (simp only: unat_drop_bit_eq)

lemma unat_and_mask8: "unat ((b :: 'a::len word) AND 255) = unat b mod 256"
proof -
  have "b AND 255 = take_bit 8 b"
    by (simp add: take_bit_eq_mask mask_eq_exp_minus_1)
  then have "unat (b AND 255) = take_bit 8 (unat b)"
    by (simp add: unsigned_take_bit_eq)
  then show ?thesis
    by (simp add: take_bit_eq_mod)
qed

lemma unat_and_mask3: "unat ((b :: 'a::len word) AND 7) = unat b mod 8"
proof -
  have "b AND 7 = take_bit 3 b"
    by (simp add: take_bit_eq_mask mask_eq_exp_minus_1)
  then have "unat (b AND 7) = take_bit 3 (unat b)"
    by (simp add: unsigned_take_bit_eq)
  then show ?thesis
    by (simp add: take_bit_eq_mod)
qed

lemma ucast_of_nat_unat: "ucast x = of_nat (unat x)"
  by simp

section \<open>Little-endian bytes\<close>

text \<open>The \<open>n\<close> low bytes of a number, and the number a list of bytes stands for.\<close>

fun le_bytes :: "nat \<Rightarrow> nat \<Rightarrow> byte list" where
  "le_bytes 0 v = []"
| "le_bytes (Suc n) v = of_nat (v mod 256) # le_bytes n (v div 256)"

fun le_val :: "byte list \<Rightarrow> nat" where
  "le_val [] = 0"
| "le_val (b # bs) = unat b + 256 * le_val bs"

lemma length_le_bytes [simp]: "length (le_bytes n v) = n"
  by (induction n arbitrary: v) auto

lemma unat_of_nat_mod_256 [simp]: "unat (of_nat (v mod 256) :: byte) = v mod 256"
  by (simp add: unsigned_of_nat take_bit_nat_eq_self)

lemma le_val_bytes [le_simps]: "le_val (le_bytes n v) = v mod 256 ^ n"
proof (induction n arbitrary: v)
  case (Suc n)
  have "v mod 256 + 256 * (v div 256 mod 256 ^ n) = v mod (256 * 256 ^ n)"
    by (simp add: mod_mult2_eq)
  with Suc show ?case by simp
qed simp

lemma le_val_lt: "le_val bs < 256 ^ length bs"
proof (induction bs)
  case (Cons b bs)
  with unat_lt_8 [of b] show ?case by simp
qed simp

lemma le_bytes_val [le_simps]: "length bs = n \<Longrightarrow> le_bytes n (le_val bs) = bs"
proof (induction bs arbitrary: n)
  case (Cons b bs)
  with unat_lt_8 [of b] show ?case by (cases n) auto
qed simp

lemma le_val_bytes_32: "le_val (le_bytes 4 (unat (v :: u32))) = unat v"
  using unat_lt_32 [of v] by (simp add: le_val_bytes)

lemma le_val_bytes_64: "le_val (le_bytes 8 (unat (v :: u64))) = unat v"
  using unat_lt_64 [of v] by (simp add: le_val_bytes)

lemma le_bytes_4: "le_bytes 4 v =
  [of_nat (v mod 256), of_nat (v div 256 mod 256), of_nat (v div 65536 mod 256),
   of_nat (v div 16777216 mod 256)]"
proof -
  have "(4 :: nat) = Suc (Suc (Suc (Suc 0)))" by simp
  then show ?thesis by (simp only: le_bytes.simps) (simp add: div_mult2_eq [symmetric])
qed

lemma le_bytes_8: "le_bytes 8 v =
  [of_nat (v mod 256), of_nat (v div 256 mod 256), of_nat (v div 65536 mod 256),
   of_nat (v div 16777216 mod 256), of_nat (v div 4294967296 mod 256),
   of_nat (v div 1099511627776 mod 256), of_nat (v div 281474976710656 mod 256),
   of_nat (v div 72057594037927936 mod 256)]"
proof -
  have "(8 :: nat) = Suc (Suc (Suc (Suc (Suc (Suc (Suc (Suc 0)))))))" by simp
  then show ?thesis by (simp only: le_bytes.simps) (simp add: div_mult2_eq [symmetric])
qed

text \<open>Bytes put together with shifts and ORs, as C code does it.\<close>

fun or_bytes :: "nat \<Rightarrow> byte list \<Rightarrow> 'a::len word" where
  "or_bytes k [] = 0"
| "or_bytes k (b # bs) = push_bit k (ucast b) OR or_bytes (k + 8) bs"

lemma bit_or_bytes: "bit (or_bytes k bs) n \<Longrightarrow> k \<le> n"
proof (induction bs arbitrary: k)
  case (Cons b bs)
  from Cons.prems have "k \<le> n \<or> bit (or_bytes (k + 8) bs :: 'a word) n"
    by (auto simp: bit_or_iff bit_push_bit_iff)
  with Cons.IH [of "k + 8"] show ?case by auto
qed simp

lemma or_bytes_le_val: "or_bytes k bs = (of_nat (2 ^ k * le_val bs) :: 'a::len word)"
proof (induction bs arbitrary: k)
  case (Cons b bs)
  have "(push_bit k (ucast b) :: 'a word) AND or_bytes (k + 8) bs = 0"
  proof (rule bit_eqI)
    fix n
    have "n < k + 8" if "bit (push_bit k (ucast b) :: 'a word) n"
      using that by (auto simp: bit_push_bit_iff bit_unsigned_iff dest: bit_imp_le_length)
    then show "bit ((push_bit k (ucast b) :: 'a word) AND or_bytes (k + 8) bs) n = bit (0 :: 'a word) n"
      by (auto simp: bit_and_iff dest: bit_or_bytes)
  qed
  then have "(push_bit k (ucast b) :: 'a word) OR or_bytes (k + 8) bs =
    push_bit k (ucast b) + or_bytes (k + 8) bs"
    by (simp add: disjunctive_add_eq_or)
  moreover have "(push_bit k (ucast b) :: 'a word) = of_nat (2 ^ k * unat b)"
    by (simp add: push_bit_eq_mult mult.commute)
  ultimately show ?case
    by (simp add: Cons.IH power_add algebra_simps)
qed simp

lemma length_4_conv: "length bs = 4 \<longleftrightarrow> (\<exists>a b c d. bs = [a, b, c, d])"
  by (auto simp: numeral_eq_Suc length_Suc_conv)

lemma length_8_conv: "length bs = 8 \<longleftrightarrow> (\<exists>a b c d e f g h. bs = [a, b, c, d, e, f, g, h])"
  by (auto simp: numeral_eq_Suc length_Suc_conv)

lemma or_4_bytes:
  assumes "length bs = 4"
  shows "push_bit 0 (ucast (bs ! 0)) OR push_bit 8 (ucast (bs ! 1)) OR push_bit 16 (ucast (bs ! 2)) OR
    push_bit 24 (ucast (bs ! 3)) = (of_nat (le_val bs) :: u32)"
proof -
  have "(of_nat (le_val bs) :: u32) = or_bytes 0 bs" by (simp add: or_bytes_le_val)
  with assms show ?thesis by (auto simp: length_4_conv)
qed

lemma or_8_bytes:
  assumes "length bs = 8"
  shows "push_bit 0 (ucast (bs ! 0)) OR push_bit 8 (ucast (bs ! 1)) OR push_bit 16 (ucast (bs ! 2)) OR
    push_bit 24 (ucast (bs ! 3)) OR push_bit 32 (ucast (bs ! 4)) OR push_bit 40 (ucast (bs ! 5)) OR
    push_bit 48 (ucast (bs ! 6)) OR push_bit 56 (ucast (bs ! 7)) = (of_nat (le_val bs) :: u64)"
proof -
  have "(of_nat (le_val bs) :: u64) = or_bytes 0 bs" by (simp add: or_bytes_le_val)
  with assms show ?thesis by (auto simp: length_8_conv)
qed

lemma byte_of_word: "(ucast (drop_bit k (v :: 'a::len word) AND 255) :: byte) = of_nat (unat v div 2 ^ k mod 256)"
proof -
  have "(ucast (drop_bit k v AND 255) :: byte) = of_nat (unat (drop_bit k v AND 255))" by simp
  then show ?thesis by (simp only: unat_and_mask8 unat_drop_bit)
qed

end
