(* ===== verification/Pb_Istream.thy ===== *)
theory Pb_Istream
  imports Prelude
begin

text \<open>
  The input streams of nanopb (\<open>pb_decode.c\<close>, \<open>pb_decode.h\<close>): the stream struct, reading bytes,
  varints, tags and fixed-width integers, skipping fields and length-limited substreams.
\<close>

section \<open>The stream struct\<close>

text \<open>
  The \<open>callback\<close> pointer is either the library's own \<open>buf_read\<close> or a function of the user, which
  the model knows by a number. The \<open>state\<close> pointer of a buffer stream is the contents of the
  caller's buffer from that pointer on; for a user callback it is whatever the callback keeps
  there. \<open>errmsg\<close> is \<open>None\<close> for the null pointer.
\<close>

datatype in_callback = Buf_read | User_read nat

record pb_istream =
  icallback :: in_callback
  istate :: "byte list"
  bytes_left :: u64
  ierrmsg :: "string option"

type_synonym 'a rd = "(pb_istream, 'a) act"

text \<open>
  User callbacks are a parameter: number, stream and count to success flag, bytes stored to the
  buffer and stream.
\<close>

type_synonym read_env = "nat \<Rightarrow> pb_istream \<Rightarrow> u64 \<Rightarrow> (bool \<times> byte list \<times> pb_istream) option"

text \<open>\<open>PB_SET_ERROR\<close> keeps the first message; \<open>PB_RETURN_ERROR\<close> also returns false.\<close>

definition pb_set_error :: "string \<Rightarrow> pb_istream \<Rightarrow> pb_istream" where
  "pb_set_error msg s = s\<lparr>ierrmsg := (case ierrmsg s of None \<Rightarrow> Some msg | Some e \<Rightarrow> Some e)\<rparr>"

definition pb_return_error :: "string \<Rightarrow> 'a rd" where
  "pb_return_error msg = (\<lambda>s. Some (None, pb_set_error msg s))"

definition pb_istream_from_buffer :: "byte list \<Rightarrow> u64 \<Rightarrow> pb_istream" where
  "pb_istream_from_buffer buf bufsize =
     \<lparr>icallback = Buf_read, istate = buf, bytes_left = bufsize, ierrmsg = None\<rparr>"

section \<open>Reading bytes\<close>

text \<open>Moving the pointer past the end of the buffer, or reading there, is undefined.\<close>

definition buf_read :: "u64 \<Rightarrow> pb_istream \<Rightarrow> (bool \<times> byte list \<times> pb_istream) option" where
  "buf_read count s =
     (if unat count \<le> length (istate s)
      then Some (True, take (unat count) (istate s), s\<lparr>istate := drop (unat count) (istate s)\<rparr>)
      else None)"

text \<open>
  \<open>stream->callback(stream, buf, count)\<close>. A user callback that stores more than \<open>count\<close> bytes
  overflows the buffer, and one that returns true with fewer leaves bytes of it undefined.
\<close>

definition call_read :: "read_env \<Rightarrow> u64 \<Rightarrow> pb_istream \<Rightarrow> (bool \<times> byte list \<times> pb_istream) option" where
  "call_read E count s =
     (case icallback s of
        Buf_read \<Rightarrow> buf_read count s
      | User_read i \<Rightarrow>
          (case E i s count of
             None \<Rightarrow> None
           | Some (ok, bs, s') \<Rightarrow>
               (if length bs \<le> unat count \<and> (ok \<longrightarrow> length bs = unat count)
                then Some (ok, bs, s') else None)))"

text \<open>
  \<open>pb_read\<close> from the check of \<open>bytes_left\<close> on: success flag, the bytes now in the buffer and
  the stream.
\<close>

definition pb_read_into :: "read_env \<Rightarrow> u64 \<Rightarrow> pb_istream \<Rightarrow> (bool \<times> byte list \<times> pb_istream) option" where
  "pb_read_into E count s =
     (if bytes_left s < count then Some (False, [], pb_set_error ''end-of-stream'' s)
      else case call_read E count s of
        None \<Rightarrow> None
      | Some (ok, bs, s') \<Rightarrow>
          (if \<not> ok then Some (False, bs, pb_set_error ''io error'' s')
           else Some (True, bs, s'\<lparr>bytes_left := bytes_left s' - count\<rparr>)))"

text \<open>\<open>pb_read\<close> into a local array, whose contents matter only on success.\<close>

definition pb_read :: "read_env \<Rightarrow> u64 \<Rightarrow> byte list rd" where
  "pb_read E count s =
     (case pb_read_into E count s of
        None \<Rightarrow> None
      | Some (ok, bs, s') \<Rightarrow> Some (if ok then Some bs else None, s'))"

text \<open>\<open>pb_read\<close> with a null buffer: a user callback is drained in blocks of 16 bytes.\<close>

function pb_read_blocks :: "read_env \<Rightarrow> u64 \<Rightarrow> unit rd" where
  "pb_read_blocks E count =
     (if 16 < count then bnd (pb_read E 16) (\<lambda>_. pb_read_blocks E (count - 16))
      else bnd (pb_read E count) (\<lambda>_. ret ()))"
  by pat_completeness auto
termination
  by (relation "measure (\<lambda>(E, count). unat count)") (auto simp: unat_sub word_less_nat_alt word_le_nat_alt)

declare pb_read_blocks.simps [simp del]

definition pb_read_null :: "read_env \<Rightarrow> u64 \<Rightarrow> unit rd" where
  "pb_read_null E count s =
     (if icallback s \<noteq> Buf_read then pb_read_blocks E count s
      else bnd (pb_read E count) (\<lambda>_. ret ()) s)"

definition pb_readbyte :: "read_env \<Rightarrow> byte rd" where
  "pb_readbyte E s =
     (if bytes_left s = 0 then pb_return_error ''end-of-stream'' s
      else case call_read E 1 s of
        None \<Rightarrow> None
      | Some (ok, bs, s') \<Rightarrow>
          (if \<not> ok then pb_return_error ''io error'' s'
           else Some (Some (hd bs), s'\<lparr>bytes_left := bytes_left s' - 1\<rparr>)))"

section \<open>Varints, tags and fixed-width integers\<close>

function varint32_loop :: "read_env \<Rightarrow> nat \<Rightarrow> u32 \<Rightarrow> u32 rd" where
  "varint32_loop E bitpos result =
     (if 32 \<le> bitpos then pb_return_error ''varint overflow''
      else bnd (pb_readbyte E) (\<lambda>b.
        let result' = result OR push_bit bitpos (ucast (b AND 0x7F)); bitpos' = bitpos + 7
        in if b AND 0x80 \<noteq> 0 then varint32_loop E bitpos' result' else ret result'))"
  by pat_completeness auto
termination
  by (relation "measure (\<lambda>(E, bitpos, result). 32 - bitpos)") auto

declare varint32_loop.simps [simp del]

definition pb_decode_varint32 :: "read_env \<Rightarrow> u32 rd" where
  "pb_decode_varint32 E = bnd (pb_readbyte E) (\<lambda>b.
     if b AND 0x80 = 0 then ret (ucast b) else varint32_loop E 7 (ucast (b AND 0x7F)))"

function varint_loop :: "read_env \<Rightarrow> nat \<Rightarrow> u64 \<Rightarrow> u64 rd" where
  "varint_loop E bitpos result =
     (if 64 \<le> bitpos then pb_return_error ''varint overflow''
      else bnd (pb_readbyte E) (\<lambda>b.
        let result' = result OR push_bit bitpos (ucast (b AND 0x7F)); bitpos' = bitpos + 7
        in if b AND 0x80 \<noteq> 0 then varint_loop E bitpos' result' else ret result'))"
  by pat_completeness auto
termination
  by (relation "measure (\<lambda>(E, bitpos, result). 64 - bitpos)") auto

declare varint_loop.simps [simp del]

definition pb_decode_varint :: "read_env \<Rightarrow> u64 rd" where
  "pb_decode_varint E = varint_loop E 0 0"

text \<open>Signed integers are kept as the two's complement word, read with \<open>sint\<close>.\<close>

definition pb_decode_svarint :: "read_env \<Rightarrow> u64 rd" where
  "pb_decode_svarint E = bnd (pb_decode_varint E) (\<lambda>value.
     if value AND 1 \<noteq> 0 then ret (NOT (drop_bit 1 value)) else ret (drop_bit 1 value))"

definition pb_decode_fixed32 :: "read_env \<Rightarrow> u32 rd" where
  "pb_decode_fixed32 E = bnd (pb_read E 4) (\<lambda>bytes. ret
     (push_bit 0 (ucast (bytes ! 0)) OR push_bit 8 (ucast (bytes ! 1)) OR
      push_bit 16 (ucast (bytes ! 2)) OR push_bit 24 (ucast (bytes ! 3))))"

definition pb_decode_fixed64 :: "read_env \<Rightarrow> u64 rd" where
  "pb_decode_fixed64 E = bnd (pb_read E 8) (\<lambda>bytes. ret
     (push_bit 0 (ucast (bytes ! 0)) OR push_bit 8 (ucast (bytes ! 1)) OR
      push_bit 16 (ucast (bytes ! 2)) OR push_bit 24 (ucast (bytes ! 3)) OR
      push_bit 32 (ucast (bytes ! 4)) OR push_bit 40 (ucast (bytes ! 5)) OR
      push_bit 48 (ucast (bytes ! 6)) OR push_bit 56 (ucast (bytes ! 7))))"

text \<open>
  \<open>pb_decode_tag\<close> sets its out-parameters on every path: \<open>Tag wire_type tag\<close> is a return of
  true, \<open>No_tag eof\<close> a return of false with the wire type and the tag zero.
\<close>

datatype tag_result = Tag u32 u32 | No_tag bool

definition pb_decode_tag :: "read_env \<Rightarrow> pb_istream \<Rightarrow> (tag_result \<times> pb_istream) option" where
  "pb_decode_tag E s =
     (case pb_decode_varint32 E s of
        None \<Rightarrow> None
      | Some (None, s') \<Rightarrow> Some (No_tag (bytes_left s' = 0), s')
      | Some (Some temp, s') \<Rightarrow>
          (if temp = 0 then Some (No_tag True, s')
           else Some (Tag (temp AND 7) (drop_bit 3 temp), s')))"

section \<open>Skipping and raw values\<close>

abbreviation (input) PB_WT_VARINT :: u32 where "PB_WT_VARINT \<equiv> 0"
abbreviation (input) PB_WT_64BIT :: u32 where "PB_WT_64BIT \<equiv> 1"
abbreviation (input) PB_WT_STRING :: u32 where "PB_WT_STRING \<equiv> 2"
abbreviation (input) PB_WT_32BIT :: u32 where "PB_WT_32BIT \<equiv> 5"

partial_function (option) pb_skip_varint ::
  "read_env \<Rightarrow> pb_istream \<Rightarrow> (unit option \<times> pb_istream) option" where
  [code]: "pb_skip_varint E s = bnd (pb_read E 1) (\<lambda>bs t.
     if hd bs AND 0x80 \<noteq> 0 then pb_skip_varint E t else Some (Some (), t)) s"

definition pb_skip_string :: "read_env \<Rightarrow> unit rd" where
  "pb_skip_string E = bnd (pb_decode_varint32 E) (\<lambda>length. pb_read_null E (ucast length))"

definition pb_skip_field :: "read_env \<Rightarrow> u32 \<Rightarrow> unit rd" where
  "pb_skip_field E wire_type =
     (if wire_type = PB_WT_VARINT then pb_skip_varint E
      else if wire_type = PB_WT_64BIT then pb_read_null E 8
      else if wire_type = PB_WT_STRING then pb_skip_string E
      else if wire_type = PB_WT_32BIT then pb_read_null E 4
      else pb_return_error ''invalid wire_type'')"

text \<open>\<open>sz\<close> counts the bytes read before this one; \<open>buf\<close> holds them.\<close>

function read_raw_varint :: "read_env \<Rightarrow> nat \<Rightarrow> nat \<Rightarrow> byte list \<Rightarrow> byte list rd" where
  "read_raw_varint E max_size sz buf =
     (if max_size < Suc sz then ret_false
      else bnd (pb_read E 1) (\<lambda>bs.
        if hd bs AND 0x80 \<noteq> 0 then read_raw_varint E max_size (Suc sz) (buf @ [hd bs])
        else ret (buf @ [hd bs])))"
  by pat_completeness auto
termination
  by (relation "measure (\<lambda>(E, max_size, sz, buf). max_size - sz)") auto

declare read_raw_varint.simps [simp del]

definition read_raw_value :: "read_env \<Rightarrow> u32 \<Rightarrow> nat \<Rightarrow> byte list rd" where
  "read_raw_value E wire_type max_size =
     (if wire_type = PB_WT_VARINT then read_raw_varint E max_size 0 []
      else if wire_type = PB_WT_64BIT then pb_read E 8
      else if wire_type = PB_WT_32BIT then pb_read E 4
      else pb_return_error ''invalid wire_type'')"

section \<open>Substreams\<close>

definition pb_make_string_substream :: "read_env \<Rightarrow> pb_istream rd" where
  "pb_make_string_substream E = bnd (pb_decode_varint32 E) (\<lambda>size s.
     if bytes_left s < ucast size then pb_return_error ''parent stream too short'' s
     else Some (Some (s\<lparr>bytes_left := ucast size\<rparr>), s\<lparr>bytes_left := bytes_left s - ucast size\<rparr>))"

text \<open>The substream is dead afterwards, so only the parent stream is returned.\<close>

definition pb_close_string_substream :: "read_env \<Rightarrow> pb_istream \<Rightarrow> unit rd" where
  "pb_close_string_substream E substream s =
     (case (if bytes_left substream \<noteq> 0 then pb_read_null E (bytes_left substream) substream
            else Some (Some (), substream)) of
        None \<Rightarrow> None
      | Some (None, substream') \<Rightarrow> Some (None, s)
      | Some (Some _, substream') \<Rightarrow>
          Some (Some (), s\<lparr>istate := istate substream', ierrmsg := ierrmsg substream'\<rparr>))"

end
