(* ===== verification/Varint.thy ===== *)
theory Varint
  imports Prelude
begin

text \<open>
  Base-128 varints, the integer format that nanopb's streams and leveldb's \<open>util/coding.cc\<close> share:
  seven bits of the value per byte, least significant group first, the top bit set on every byte
  but the last. This theory is the reference both implementations are proved against.
\<close>

fun varint_bytes :: "nat \<Rightarrow> byte list" where
  "varint_bytes n = (if n < 128 then [of_nat n] else of_nat (n mod 128 + 128) # varint_bytes (n div 128))"

declare varint_bytes.simps [simp del]

fun varint_val :: "byte list \<Rightarrow> nat" where
  "varint_val [] = 0"
| "varint_val (b # bs) = unat b mod 128 + 128 * varint_val bs"

text \<open>One varint: every byte but the last is a continuation byte. It need not be the shortest one.\<close>

fun is_varint :: "byte list \<Rightarrow> bool" where
  "is_varint [] = False"
| "is_varint [b] = (unat b < 128)"
| "is_varint (b # bs) = (128 \<le> unat b \<and> is_varint bs)"

lemma is_varint_Cons: "is_varint (b # bs) \<longleftrightarrow> (if bs = [] then unat b < 128 else 128 \<le> unat b \<and> is_varint bs)"
  by (cases bs) auto

lemma div_mod_odd_128:
  assumes "n < (256 :: nat)"
  shows "odd (n div 128) \<longleftrightarrow> 128 \<le> n"
proof (cases "128 \<le> n")
  case True
  with assms have "n div 128 = 1" by (simp add: div_nat_eqI)
  with True show ?thesis by simp
next
  case False
  then show ?thesis by simp
qed

lemma continuation_bit: "(b :: byte) AND 128 \<noteq> 0 \<longleftrightarrow> 128 \<le> unat b"
proof -
  have "(b AND 128 = 0) = (b AND 2 ^ 7 = 0)" by simp
  also have "\<dots> = (\<not> bit b 7)" by (rule and_exp_eq_0_iff_not_bit)
  also have "bit b 7 = bit (unat b) 7" by (simp add: bit_unsigned_iff)
  also have "\<dots> = odd (unat b div 2 ^ 7)" by (rule bit_iff_odd)
  also have "(2 :: nat) ^ 7 = 128" by simp
  also have "odd (unat b div 128) = (128 \<le> unat b)" by (rule div_mod_odd_128 [OF unat_lt_8])
  finally show ?thesis by blast
qed

lemma continuation_bit_0: "(b :: byte) AND 128 = 0 \<longleftrightarrow> unat b < 128"
  using continuation_bit [of b] by auto

lemma unat_of_nat_byte: "n < 256 \<Longrightarrow> unat (of_nat n :: byte) = n"
  by (simp add: unsigned_of_nat take_bit_nat_eq_self)

lemma unat_continuation_byte: "unat (of_nat (n mod 128) + 128 :: byte) = n mod 128 + 128"
  using unat_of_nat_byte [of "n mod 128 + 128"] by simp

lemma varint_bytes_small: "n < 128 \<Longrightarrow> varint_bytes n = [of_nat n]"
  by (simp add: varint_bytes.simps)

lemma varint_bytes_large: "128 \<le> n \<Longrightarrow> varint_bytes n = of_nat (n mod 128 + 128) # varint_bytes (n div 128)"
  by (subst varint_bytes.simps) simp

lemma varint_bytes_nonempty [simp]: "varint_bytes n \<noteq> []"
  by (subst varint_bytes.simps) simp

lemma is_varint_bytes: "is_varint (varint_bytes n)"
proof (induction n rule: varint_bytes.induct)
  case (1 n)
  then show ?case
    by (cases "n < 128") (simp_all add: varint_bytes_small varint_bytes_large is_varint_Cons unat_of_nat_byte unat_continuation_byte)
qed

lemma varint_val_bytes: "varint_val (varint_bytes n) = n"
proof (induction n rule: varint_bytes.induct)
  case (1 n)
  show ?case
  proof (cases "n < 128")
    case True
    then show ?thesis by (simp add: varint_bytes_small unat_of_nat_byte)
  next
    case False
    with 1 show ?thesis by (simp add: varint_bytes_large unat_continuation_byte)
  qed
qed

lemma varint_val_lt: "varint_val bs < 128 ^ length bs"
proof (induction bs)
  case (Cons b bs)
  have "unat b mod 128 < 128" by simp
  with Cons show ?case by simp
qed simp

text \<open>The shortest varint of a value has one byte for each started group of seven bits.\<close>

lemma length_varint_bytes_le: "n < 128 ^ Suc k \<Longrightarrow> length (varint_bytes n) \<le> Suc k"
proof (induction k arbitrary: n)
  case 0
  then show ?case by (simp add: varint_bytes_small)
next
  case (Suc k)
  show ?case
  proof (cases "n < 128")
    case True
    then show ?thesis by (simp add: varint_bytes_small)
  next
    case False
    have "n div 128 < 128 ^ Suc k" using Suc.prems by (simp add: less_mult_imp_div_less mult.commute)
    with Suc.IH False show ?thesis by (simp add: varint_bytes_large)
  qed
qed

lemma length_varint_bytes_ge: "128 ^ k \<le> n \<Longrightarrow> Suc k \<le> length (varint_bytes n)"
proof (induction k arbitrary: n)
  case 0
  then show ?case by (simp add: Suc_le_eq)
next
  case (Suc k)
  then have "128 \<le> n" by (meson le_trans one_le_power self_le_power zero_less_Suc one_le_numeral)
  moreover have "128 ^ k \<le> n div 128" using Suc.prems by (simp add: less_eq_div_iff_mult_less_eq mult.commute)
  ultimately show ?case using Suc.IH by (simp add: varint_bytes_large)
qed

lemma length_varint_bytes_32: "length (varint_bytes (unat (v :: u32))) \<le> 5"
  using length_varint_bytes_le [of "unat v" 4] unat_lt_32 [of v] by simp

lemma length_varint_bytes_64: "length (varint_bytes (unat (v :: u64))) \<le> 10"
  using length_varint_bytes_le [of "unat v" 9] unat_lt_64 [of v] by simp

text \<open>No varint is a proper prefix of another, so a varint is parsed from the front in one way.\<close>

lemma is_varint_prefix_unique:
  "is_varint xs \<Longrightarrow> is_varint ys \<Longrightarrow> xs @ rs = ys @ rt \<Longrightarrow> xs = ys \<and> rs = rt"
proof (induction xs arbitrary: ys)
  case (Cons x xs)
  then obtain y ys' where ys: "ys = y # ys'" by (cases ys) auto
  from Cons show ?case
    by (cases "xs = []"; cases "ys' = []") (auto simp: ys is_varint_Cons)
qed simp

lemma varint_bytes_inject [simp]: "varint_bytes m = varint_bytes n \<longleftrightarrow> m = n"
  by (metis varint_val_bytes)

text \<open>
  One step of a decoder: seven more bits are placed above those already collected.
\<close>

lemma or_push_bit_7:
  fixes r :: "'a::len word"
  assumes "\<And>n. bit r n \<Longrightarrow> n < k"
  shows "r OR push_bit k (ucast ((b :: byte) AND 127)) = r + of_nat (2 ^ k * (unat b mod 128))"
proof -
  have "r AND push_bit k (ucast (b AND 127)) = 0"
    by (rule bit_eqI) (auto simp: bit_simps dest!: assms)
  then have "r OR push_bit k (ucast (b AND 127)) = r + push_bit k (ucast (b AND 127))"
    by (simp add: disjunctive_add_eq_or)
  moreover have "push_bit k (ucast (b AND 127) :: 'a word) = of_nat (2 ^ k * (unat b mod 128))"
  proof -
    have "ucast (b AND 127) = (of_nat (unat (b AND 127)) :: 'a word)" by simp
    then show ?thesis
      by (simp only: push_bit_eq_mult unat_and_mask7 of_nat_mult of_nat_power of_nat_numeral mult.commute)
  qed
  ultimately show ?thesis by simp
qed

lemma bit_or_push_bit_7:
  fixes r :: "'a::len word"
  assumes "\<And>n. bit r n \<Longrightarrow> n < k" and "bit (r OR push_bit k (ucast ((b :: byte) AND 127))) n"
  shows "n < k + 7"
proof -
  have "(127 :: byte) = mask 7" by (simp add: mask_eq_exp_minus_1)
  then have "i < 7" if "bit (b AND 127) i" for i
    using that by (metis bit_and_iff bit_mask_iff)
  moreover from assms(2) have "bit r n \<or> k \<le> n \<and> bit (b AND 127) (n - k)"
    by (auto simp: bit_or_iff bit_push_bit_iff bit_unsigned_iff)
  ultimately show ?thesis
    using assms(1) by fastforce
qed

end
