(* ===== verification/Pb_Reader.thy ===== *)
theory Pb_Reader
  imports Pb_Istream Varint
begin

text \<open>
  What reading from a memory buffer promises. \<open>buffer_reader\<close> is the contract every reading
  operation of \<open>pb_decode.c\<close> keeps on a stream made by \<open>pb_istream_from_buffer\<close>: it returns (no
  undefined access, no endless loop) and all it does to the stream is to consume some of the
  bytes the stream may still deliver. \<open>pb_codec\<close> relates a reading operation to the bytes that
  encode a value.
\<close>

section \<open>Buffer streams\<close>

definition buf_stream :: "pb_istream \<Rightarrow> bool" where
  "buf_stream s \<longleftrightarrow> icallback s = Buf_read \<and> unat (bytes_left s) \<le> length (istate s)"

text \<open>The bytes the stream may still deliver.\<close>

definition avail :: "pb_istream \<Rightarrow> byte list" where
  "avail s = take (unat (bytes_left s)) (istate s)"

definition advance :: "nat \<Rightarrow> pb_istream \<Rightarrow> pb_istream" where
  "advance k s = s\<lparr>istate := drop k (istate s), bytes_left := bytes_left s - of_nat k\<rparr>"

definition consumed :: "pb_istream \<Rightarrow> pb_istream \<Rightarrow> bool" where
  "consumed s s' \<longleftrightarrow> icallback s' = icallback s \<and>
     (\<exists>k \<le> unat (bytes_left s). istate s' = drop k (istate s) \<and> unat (bytes_left s') = unat (bytes_left s) - k)"

lemma buf_stream_from_buffer: "unat n \<le> length buf \<Longrightarrow> buf_stream (pb_istream_from_buffer buf n)"
  by (simp add: buf_stream_def pb_istream_from_buffer_def)

lemma avail_from_buffer: "avail (pb_istream_from_buffer buf n) = take (unat n) buf"
  by (simp add: avail_def pb_istream_from_buffer_def)

lemma length_avail [simp]: "buf_stream s \<Longrightarrow> length (avail s) = unat (bytes_left s)"
  by (simp add: avail_def buf_stream_def)

lemma unat_bytes_left_minus: "k \<le> unat (b :: u64) \<Longrightarrow> unat (b - of_nat k) = unat b - k"
proof -
  assume k: "k \<le> unat b"
  then have *: "unat (of_nat k :: u64) = k"
    using unat_lt_64 [of b] by (simp add: unsigned_of_nat take_bit_nat_eq_self)
  with k have "of_nat k \<le> b" by (simp add: word_le_nat_alt)
  with * show ?thesis by (simp add: unat_sub)
qed

lemma avail_advance: "buf_stream s \<Longrightarrow> k \<le> unat (bytes_left s) \<Longrightarrow> avail (advance k s) = drop k (avail s)"
  by (simp add: avail_def advance_def unat_bytes_left_minus take_drop)

lemma buf_stream_advance: "buf_stream s \<Longrightarrow> k \<le> unat (bytes_left s) \<Longrightarrow> buf_stream (advance k s)"
  by (auto simp: buf_stream_def advance_def unat_bytes_left_minus diff_le_mono)

lemma advance_0 [simp]: "advance 0 s = s"
  by (simp add: advance_def)

lemma advance_advance: "advance k (advance j s) = advance (j + k) s"
  by (simp add: advance_def diff_diff_eq add.commute)

lemma consumed_advance: "k \<le> unat (bytes_left s) \<Longrightarrow> consumed s (advance k s)"
  by (auto simp: consumed_def advance_def unat_bytes_left_minus)

lemma consumed_refl [simp]: "consumed s s"
  by (auto simp: consumed_def intro: exI [of _ 0])

lemma consumed_trans:
  assumes "consumed a b" and "consumed b c"
  shows "consumed a c"
proof -
  from assms(1) obtain j where j: "j \<le> unat (bytes_left a)" "istate b = drop j (istate a)"
    "unat (bytes_left b) = unat (bytes_left a) - j" "icallback b = icallback a"
    by (auto simp: consumed_def)
  from assms(2) obtain k where k: "k \<le> unat (bytes_left b)" "istate c = drop k (istate b)"
    "unat (bytes_left c) = unat (bytes_left b) - k" "icallback c = icallback b"
    by (auto simp: consumed_def)
  from j k have "j + k \<le> unat (bytes_left a)" "istate c = drop (j + k) (istate a)"
    "unat (bytes_left c) = unat (bytes_left a) - (j + k)"
    by (auto simp: add.commute)
  with j k show ?thesis by (auto simp: consumed_def)
qed

lemma consumed_set_error [simp]: "consumed s (pb_set_error msg s)"
  by (auto simp: consumed_def pb_set_error_def intro: exI [of _ 0])

lemma consumed_buf_stream: "consumed s s' \<Longrightarrow> buf_stream s \<Longrightarrow> buf_stream s'"
  by (auto simp: consumed_def buf_stream_def)

lemma consumed_bytes_left: "consumed s s' \<Longrightarrow> unat (bytes_left s') \<le> unat (bytes_left s)"
  by (auto simp: consumed_def)

lemma consumed_avail:
  assumes "buf_stream s" and "consumed s s'"
  shows "\<exists>k. avail s' = drop k (avail s)"
  using assms by (auto simp: consumed_def avail_def buf_stream_def take_drop)

section \<open>The contract of a reading operation\<close>

locale buffer_reader =
  fixes rd :: "'a rd"
  assumes returns: "buf_stream s \<Longrightarrow> rd s \<noteq> None"
    and consumes: "buf_stream s \<Longrightarrow> rd s = Some (r, s') \<Longrightarrow> consumed s s'"
begin

lemma keeps_buffer: "buf_stream s \<Longrightarrow> rd s = Some (r, s') \<Longrightarrow> buf_stream s'"
  using consumes consumed_buf_stream by blast

lemma result: "buf_stream s \<Longrightarrow> \<exists>r s'. rd s = Some (r, s') \<and> consumed s s' \<and> buf_stream s'"
  using returns consumes keeps_buffer by fastforce

lemma never_grows: "buf_stream s \<Longrightarrow> rd s = Some (r, s') \<Longrightarrow> unat (bytes_left s') \<le> unat (bytes_left s)"
  using consumes consumed_bytes_left by blast

end

lemma buffer_readerI:
  assumes "\<And>s. buf_stream s \<Longrightarrow> \<exists>r s'. rd s = Some (r, s') \<and> consumed s s'"
  shows "buffer_reader rd"
  by unfold_locales (use assms in fastforce)+

named_theorems reader_intros \<open>which operations are buffer readers\<close>

lemma reader_ret [reader_intros]: "buffer_reader (ret x)"
  by (rule buffer_readerI) simp

lemma reader_error [reader_intros]: "buffer_reader (pb_return_error msg)"
  by (rule buffer_readerI) (simp add: pb_return_error_def)

lemma reader_ret_false [reader_intros]: "buffer_reader ret_false"
  by (rule buffer_readerI) simp

lemma reader_if [reader_intros]: "(c \<Longrightarrow> buffer_reader f) \<Longrightarrow> (\<not> c \<Longrightarrow> buffer_reader g) \<Longrightarrow> buffer_reader (if c then f else g)"
  by simp

lemma reader_if_state:
  assumes "buffer_reader f" and "buffer_reader g"
  shows "buffer_reader (\<lambda>s. if c s then f s else g s)"
proof (rule buffer_readerI)
  fix s
  assume "buf_stream s"
  with assms show "\<exists>r s'. (if c s then f s else g s) = Some (r, s') \<and> consumed s s'"
    by (auto dest: buffer_reader.result)
qed

lemma reader_bnd [reader_intros]:
  assumes f: "buffer_reader f" and g: "\<And>x. buffer_reader (g x)"
  shows "buffer_reader (bnd f g)"
proof (rule buffer_readerI)
  fix s
  assume s: "buf_stream s"
  obtain r t where ft: "f s = Some (r, t)" "consumed s t" "buf_stream t"
    using buffer_reader.result [OF f s] by blast
  show "\<exists>r s'. bnd f g s = Some (r, s') \<and> consumed s s'"
  proof (cases r)
    case None
    with ft show ?thesis by (simp add: bnd_false)
  next
    case (Some x)
    obtain q u where "g x t = Some (q, u)" "consumed t u"
      using buffer_reader.result [OF g ft(3)] by blast
    with Some ft show ?thesis by (auto simp: bnd_true intro: consumed_trans)
  qed
qed

section \<open>Reading bytes from a buffer\<close>

lemma pb_read_buffer:
  assumes "buf_stream s" and "count \<le> bytes_left s"
  shows "pb_read E count s = Some (Some (take (unat count) (avail s)), advance (unat count) s)"
  using assms
  by (auto simp: pb_read_def pb_read_into_def call_read_def buf_read_def buf_stream_def avail_def
      advance_def word_le_nat_alt word_less_nat_alt min_def)

lemma pb_read_short:
  assumes "bytes_left s < count"
  shows "pb_read E count s = Some (None, pb_set_error ''end-of-stream'' s)"
  using assms by (simp add: pb_read_def pb_read_into_def)

lemma pb_read_null_buffer:
  assumes "buf_stream s"
  shows "pb_read_null E count s = bnd (pb_read E count) (\<lambda>_. ret ()) s"
  using assms by (simp add: pb_read_null_def buf_stream_def)

lemma pb_readbyte_buffer:
  assumes "buf_stream s" and "avail s = b # bs"
  shows "pb_readbyte E s = Some (Some b, advance 1 s)"
proof -
  have n: "unat (bytes_left s) \<noteq> 0" using length_avail [OF assms(1)] assms(2) by simp
  with assms(1) have "1 \<le> length (istate s)" by (auto simp: buf_stream_def)
  moreover from n have "bytes_left s \<noteq> 0" by auto
  ultimately
  obtain c cs where c: "istate s = c # cs" by (cases "istate s") auto
  with assms(2) n have "c = b" by (cases "unat (bytes_left s)") (auto simp: avail_def)
  with assms(1) n c \<open>bytes_left s \<noteq> 0\<close> show ?thesis
    by (simp add: pb_readbyte_def call_read_def buf_read_def buf_stream_def advance_def)
qed

lemma pb_readbyte_empty:
  assumes "buf_stream s" and "avail s = []"
  shows "pb_readbyte E s = Some (None, pb_set_error ''end-of-stream'' s)"
proof -
  have "unat (bytes_left s) = 0" using length_avail [OF assms(1)] assms(2) by simp
  then show ?thesis by (simp add: pb_readbyte_def pb_return_error_def unat_eq_0)
qed

lemma reader_pb_read [reader_intros]: "buffer_reader (pb_read E count)"
proof (rule buffer_readerI)
  fix s
  assume "buf_stream s"
  then show "\<exists>r s'. pb_read E count s = Some (r, s') \<and> consumed s s'"
    by (cases "count \<le> bytes_left s")
      (auto simp: pb_read_buffer pb_read_short not_le intro!: consumed_advance iffD1 [OF word_le_nat_alt])
qed

lemma reader_pb_read_null [reader_intros]: "buffer_reader (pb_read_null E count)"
proof -
  have "buffer_reader (bnd (pb_read E count) (\<lambda>_. ret ()))" by (intro reader_intros)
  then show ?thesis
    by (auto intro!: buffer_readerI simp: pb_read_null_buffer dest: buffer_reader.result)
qed

lemma reader_pb_readbyte [reader_intros]: "buffer_reader (pb_readbyte E)"
proof (rule buffer_readerI)
  fix s
  assume s: "buf_stream s"
  show "\<exists>r s'. pb_readbyte E s = Some (r, s') \<and> consumed s s'"
  proof (cases "avail s")
    case Nil
    with s show ?thesis by (simp add: pb_readbyte_empty)
  next
    case (Cons b bs)
    then have "unat (bytes_left s) \<noteq> 0" using length_avail [OF s] by simp
    then have "consumed s (advance 1 s)" by (intro consumed_advance) simp
    with s Cons show ?thesis by (simp add: pb_readbyte_buffer)
  qed
qed

end
