(* ===== verification/Pb_Input.thy ===== *)
theory Pb_Input
  imports Pb_Reader
begin

text \<open>
  The reading operations of \<open>pb_decode.c\<close> on buffer streams: each one is a \<open>buffer_reader\<close>, and
  the varint, tag, string and fixed-width readers return the value their bytes encode.
\<close>

section \<open>Every reading operation keeps the reader contract\<close>

lemma reader_varint32_loop [reader_intros]: "buffer_reader (varint32_loop E bitpos result)"
proof (induction E bitpos result rule: varint32_loop.induct)
  case (1 E bitpos result)
  then show ?case
    by (subst varint32_loop.simps) (auto intro!: reader_intros simp: Let_def)
qed

lemma reader_pb_decode_varint32 [reader_intros]: "buffer_reader (pb_decode_varint32 E)"
  unfolding pb_decode_varint32_def by (intro reader_intros)

lemma reader_varint_loop [reader_intros]: "buffer_reader (varint_loop E bitpos result)"
proof (induction E bitpos result rule: varint_loop.induct)
  case (1 E bitpos result)
  then show ?case
    by (subst varint_loop.simps) (auto intro!: reader_intros simp: Let_def)
qed

lemma reader_pb_decode_varint [reader_intros]: "buffer_reader (pb_decode_varint E)"
  unfolding pb_decode_varint_def by (intro reader_intros)

lemma reader_pb_decode_svarint [reader_intros]: "buffer_reader (pb_decode_svarint E)"
  unfolding pb_decode_svarint_def by (intro reader_intros)

lemma reader_pb_decode_fixed32 [reader_intros]: "buffer_reader (pb_decode_fixed32 E)"
  unfolding pb_decode_fixed32_def by (intro reader_intros)

lemma reader_pb_decode_fixed64 [reader_intros]: "buffer_reader (pb_decode_fixed64 E)"
  unfolding pb_decode_fixed64_def by (intro reader_intros)

lemma reader_pb_skip_string [reader_intros]: "buffer_reader (pb_skip_string E)"
  unfolding pb_skip_string_def by (intro reader_intros)

lemma reader_read_raw_varint [reader_intros]: "buffer_reader (read_raw_varint E max_size sz buf)"
proof (induction E max_size sz buf rule: read_raw_varint.induct)
  case (1 E max_size sz buf)
  then show ?case
    by (subst read_raw_varint.simps) (auto intro!: reader_intros)
qed

lemma reader_read_raw_value [reader_intros]: "buffer_reader (read_raw_value E wire_type max_size)"
  unfolding read_raw_value_def by (intro reader_intros)

text \<open>\<open>pb_skip_varint\<close> loops as long as continuation bytes come: the stream gets shorter each time.\<close>

lemma pb_read_1_buffer:
  assumes "buf_stream s" and "avail s = b # bs"
  shows "pb_read E 1 s = Some (Some [b], advance 1 s)"
proof -
  have "1 \<le> bytes_left s" using length_avail [OF assms(1)] assms(2) by (simp add: word_le_nat_alt)
  with assms show ?thesis by (simp add: pb_read_buffer)
qed

lemma pb_read_1_empty:
  assumes "buf_stream s" and "avail s = []"
  shows "pb_read E 1 s = Some (None, pb_set_error ''end-of-stream'' s)"
  using length_avail [OF assms(1)] assms(2) by (intro pb_read_short) (simp add: word_less_nat_alt)

lemma bnd_readbyte:
  "buf_stream s \<Longrightarrow> avail s = b # bs \<Longrightarrow> bnd (pb_readbyte E) g s = g b (advance 1 s)"
  by (rule bnd_true) (rule pb_readbyte_buffer)

lemma bnd_readbyte_empty:
  "buf_stream s \<Longrightarrow> avail s = [] \<Longrightarrow>
   bnd (pb_readbyte E) g s = Some (None, pb_set_error ''end-of-stream'' s)"
  by (rule bnd_false) (rule pb_readbyte_empty)

lemma bnd_read_1:
  "buf_stream s \<Longrightarrow> avail s = b # bs \<Longrightarrow> bnd (pb_read E 1) g s = g [b] (advance 1 s)"
  by (rule bnd_true) (rule pb_read_1_buffer)

lemma bnd_read_1_empty:
  "buf_stream s \<Longrightarrow> avail s = [] \<Longrightarrow>
   bnd (pb_read E 1) g s = Some (None, pb_set_error ''end-of-stream'' s)"
  by (rule bnd_false) (rule pb_read_1_empty)

lemma avail_Cons_advance:
  assumes "buf_stream s" and "avail s = b # bs"
  shows "avail (advance 1 s) = bs" and "buf_stream (advance 1 s)" and "consumed s (advance 1 s)"
proof -
  have *: "1 \<le> unat (bytes_left s)" using length_avail [OF assms(1)] assms(2) by simp
  then show "avail (advance 1 s) = bs" using assms by (simp add: avail_advance)
  show "buf_stream (advance 1 s)" using assms(1) * by (rule buf_stream_advance)
  show "consumed s (advance 1 s)" using * by (rule consumed_advance)
qed

lemma pb_skip_varint_Cons:
  assumes "buf_stream s" and "avail s = b # bs"
  shows "pb_skip_varint E s =
    (if 128 \<le> unat b then pb_skip_varint E (advance 1 s) else Some (Some (), advance 1 s))"
  by (subst pb_skip_varint.simps)
    (use continuation_bit [of b] in \<open>simp add: bnd_read_1 [OF assms]\<close>)

lemma reader_pb_skip_varint [reader_intros]: "buffer_reader (pb_skip_varint E)"
proof (rule buffer_readerI)
  fix s
  assume "buf_stream s"
  then show "\<exists>r s'. pb_skip_varint E s = Some (r, s') \<and> consumed s s'"
  proof (induction "avail s" arbitrary: s)
    case Nil
    then show ?case by (subst pb_skip_varint.simps) (simp add: bnd_read_1_empty)
  next
    case (Cons b bs)
    note next_s = avail_Cons_advance [OF Cons.prems Cons.hyps(2) [symmetric]]
    show ?case
    proof (cases "128 \<le> unat b")
      case True
      with Cons.hyps(1) next_s obtain r t where
        "pb_skip_varint E (advance 1 s) = Some (r, t)" "consumed (advance 1 s) t" by blast
      with True next_s(3) show ?thesis
        using pb_skip_varint_Cons [OF Cons.prems Cons.hyps(2) [symmetric]] by (auto intro: consumed_trans)
    next
      case False
      with next_s(3) show ?thesis
        using pb_skip_varint_Cons [OF Cons.prems Cons.hyps(2) [symmetric]] by simp
    qed
  qed
qed

lemma reader_pb_skip_field [reader_intros]: "buffer_reader (pb_skip_field E wire_type)"
  unfolding pb_skip_field_def by (intro reader_intros)

section \<open>Decoding a varint\<close>

lemma varint_loop_step:
  assumes "buf_stream s" and "avail s = b # bs" and "bitpos < 64"
  shows "varint_loop E bitpos result s =
    (let result' = result OR push_bit bitpos (ucast (b AND 127))
     in if 128 \<le> unat b then varint_loop E (bitpos + 7) result' (advance 1 s)
        else Some (Some result', advance 1 s))"
  using assms(3) continuation_bit [of b]
  by (subst varint_loop.simps) (simp add: bnd_readbyte [OF assms(1,2)] Let_def)

lemma varint_loop_value:
  assumes "is_varint bs" and "buf_stream s" and "avail s = bs @ rest"
    and "bitpos + 7 * (length bs - 1) < 64" and "\<And>n. bit result n \<Longrightarrow> n < bitpos"
  shows "varint_loop E bitpos result s =
    Some (Some (result + of_nat (2 ^ bitpos * varint_val bs)), advance (length bs) s)"
  using assms
proof (induction bs arbitrary: s bitpos result)
  case Nil
  then show ?case by simp
next
  case (Cons b bs)
  let ?r = "result OR push_bit bitpos (ucast (b AND 127))"
  have av: "avail s = b # bs @ rest" using Cons.prems(3) by simp
  note adv = avail_Cons_advance [OF Cons.prems(2) av]
  have r: "?r = result + of_nat (2 ^ bitpos * (unat b mod 128))"
    using Cons.prems(5) by (rule or_push_bit_7)
  have step: "varint_loop E bitpos result s =
    (if 128 \<le> unat b then varint_loop E (bitpos + 7) ?r (advance 1 s) else Some (Some ?r, advance 1 s))"
    using varint_loop_step [OF Cons.prems(2) av, of bitpos E result] Cons.prems(4) by (simp add: Let_def)
  show ?case
  proof (cases "bs = []")
    case True
    with Cons.prems(1) step r show ?thesis by simp
  next
    case False
    with Cons.prems(1) have cont: "128 \<le> unat b" "is_varint bs" by (auto simp: is_varint_Cons)
    have len: "bitpos + 7 + 7 * (length bs - 1) < 64"
      using Cons.prems(4) False by (cases bs) auto
    have "varint_loop E (bitpos + 7) ?r (advance 1 s) =
      Some (Some (?r + of_nat (2 ^ (bitpos + 7) * varint_val bs)), advance (length bs) (advance 1 s))"
      using cont(2) adv(2,1) len by (rule Cons.IH) (rule bit_or_push_bit_7 [OF Cons.prems(5)])
    with step cont(1) have "varint_loop E bitpos result s =
      Some (Some (?r + of_nat (2 ^ (bitpos + 7) * varint_val bs)), advance (length (b # bs)) s)"
      by (simp add: advance_advance)
    moreover have "?r + of_nat (2 ^ (bitpos + 7) * varint_val bs) =
      result + of_nat (2 ^ bitpos * varint_val (b # bs))"
      by (simp add: r power_add algebra_simps)
    ultimately show ?thesis by simp
  qed
qed

lemma pb_decode_varint_value:
  assumes "is_varint bs" and "length bs \<le> 10" and "buf_stream s" and "avail s = bs @ rest"
  shows "pb_decode_varint E s = Some (Some (of_nat (varint_val bs)), advance (length bs) s)"
  using varint_loop_value [OF assms(1,3,4), of 0 0 E] assms(2) by (simp add: pb_decode_varint_def)

text \<open>Ten continuation bytes are one too many; fewer, and then the end of the stream, is a short read.\<close>

lemma varint_loop_overflow:
  assumes "\<And>b. b \<in> set bs \<Longrightarrow> 128 \<le> unat b" and "buf_stream s" and "avail s = bs @ rest"
    and "64 \<le> bitpos + 7 * length bs" and "bitpos + 7 * length bs < 71"
  shows "varint_loop E bitpos result s =
    Some (None, pb_set_error ''varint overflow'' (advance (length bs) s))"
  using assms
proof (induction bs arbitrary: s bitpos result)
  case Nil
  then show ?case
    by (simp add: varint_loop.simps [of E bitpos result] pb_return_error_def)
next
  case (Cons b bs)
  have av: "avail s = b # bs @ rest" using Cons.prems(3) by simp
  note adv = avail_Cons_advance [OF Cons.prems(2) av]
  have "bitpos < 64" using Cons.prems(5) by simp
  with Cons.prems(1) [of b] have "varint_loop E bitpos result s =
      varint_loop E (bitpos + 7) (result OR push_bit bitpos (ucast (b AND 127))) (advance 1 s)"
    by (simp add: varint_loop_step [OF Cons.prems(2) av] Let_def)
  also have "\<dots> = Some (None, pb_set_error ''varint overflow'' (advance (length bs) (advance 1 s)))"
    using Cons.prems adv by (intro Cons.IH) auto
  finally show ?case by (simp add: advance_advance)
qed

lemma varint_loop_truncated:
  assumes "\<And>b. b \<in> set bs \<Longrightarrow> 128 \<le> unat b" and "buf_stream s" and "avail s = bs"
    and "bitpos + 7 * length bs < 64"
  shows "varint_loop E bitpos result s =
    Some (None, pb_set_error ''end-of-stream'' (advance (length bs) s))"
  using assms
proof (induction bs arbitrary: s bitpos result)
  case Nil
  then show ?case
    by (simp add: varint_loop.simps [of E bitpos result] bnd_readbyte_empty)
next
  case (Cons b bs)
  note adv = avail_Cons_advance [OF Cons.prems(2,3)]
  have "bitpos < 64" using Cons.prems(4) by simp
  with Cons.prems(1) [of b] have "varint_loop E bitpos result s =
      varint_loop E (bitpos + 7) (result OR push_bit bitpos (ucast (b AND 127))) (advance 1 s)"
    by (simp add: varint_loop_step [OF Cons.prems(2,3)] Let_def)
  also have "\<dots> = Some (None, pb_set_error ''end-of-stream'' (advance (length bs) (advance 1 s)))"
    using Cons.prems adv by (intro Cons.IH) auto
  finally show ?case by (simp add: advance_advance)
qed

section \<open>Decoding a 32-bit varint\<close>

lemma varint32_loop_step:
  assumes "buf_stream s" and "avail s = b # bs" and "bitpos < 32"
  shows "varint32_loop E bitpos result s =
    (let result' = result OR push_bit bitpos (ucast (b AND 127))
     in if 128 \<le> unat b then varint32_loop E (bitpos + 7) result' (advance 1 s)
        else Some (Some result', advance 1 s))"
  using assms(3) continuation_bit [of b]
  by (subst varint32_loop.simps) (simp add: bnd_readbyte [OF assms(1,2)] Let_def)

lemma varint32_loop_value:
  assumes "is_varint bs" and "buf_stream s" and "avail s = bs @ rest"
    and "bitpos + 7 * (length bs - 1) < 32" and "\<And>n. bit result n \<Longrightarrow> n < bitpos"
  shows "varint32_loop E bitpos result s =
    Some (Some (result + of_nat (2 ^ bitpos * varint_val bs)), advance (length bs) s)"
  using assms
proof (induction bs arbitrary: s bitpos result)
  case Nil
  then show ?case by simp
next
  case (Cons b bs)
  let ?r = "result OR push_bit bitpos (ucast (b AND 127))"
  have av: "avail s = b # bs @ rest" using Cons.prems(3) by simp
  note adv = avail_Cons_advance [OF Cons.prems(2) av]
  have r: "?r = result + of_nat (2 ^ bitpos * (unat b mod 128))"
    using Cons.prems(5) by (rule or_push_bit_7)
  have step: "varint32_loop E bitpos result s =
    (if 128 \<le> unat b then varint32_loop E (bitpos + 7) ?r (advance 1 s) else Some (Some ?r, advance 1 s))"
    using varint32_loop_step [OF Cons.prems(2) av, of bitpos E result] Cons.prems(4) by (simp add: Let_def)
  show ?case
  proof (cases "bs = []")
    case True
    with Cons.prems(1) step r show ?thesis by simp
  next
    case False
    with Cons.prems(1) have cont: "128 \<le> unat b" "is_varint bs" by (auto simp: is_varint_Cons)
    have len: "bitpos + 7 + 7 * (length bs - 1) < 32"
      using Cons.prems(4) False by (cases bs) auto
    have "varint32_loop E (bitpos + 7) ?r (advance 1 s) =
      Some (Some (?r + of_nat (2 ^ (bitpos + 7) * varint_val bs)), advance (length bs) (advance 1 s))"
      using cont(2) adv(2,1) len by (rule Cons.IH) (rule bit_or_push_bit_7 [OF Cons.prems(5)])
    moreover have "?r + of_nat (2 ^ (bitpos + 7) * varint_val bs) =
      result + of_nat (2 ^ bitpos * varint_val (b # bs))"
      by (simp add: r power_add algebra_simps)
    ultimately show ?thesis using step cont(1) by (simp add: advance_advance)
  qed
qed

lemma pb_decode_varint32_value:
  assumes "is_varint bs" and "length bs \<le> 5" and "buf_stream s" and "avail s = bs @ rest"
  shows "pb_decode_varint32 E s = Some (Some (of_nat (varint_val bs)), advance (length bs) s)"
proof -
  obtain b bs' where bs: "bs = b # bs'" using assms(1) by (cases bs) auto
  have av: "avail s = b # bs' @ rest" using assms(4) bs by simp
  note adv = avail_Cons_advance [OF assms(3) av]
  have first: "pb_decode_varint32 E s =
    (if unat b < 128 then Some (Some (ucast b), advance 1 s)
     else varint32_loop E 7 (ucast (b AND 127)) (advance 1 s))"
    by (simp add: pb_decode_varint32_def bnd_readbyte [OF assms(3) av] continuation_bit_0)
  have low: "ucast (b AND 127) = (of_nat (unat b mod 128) :: u32)"
    using or_push_bit_7 [of "0 :: u32" 0 b] by simp
  show ?thesis
  proof (cases "bs' = []")
    case True
    with assms(1) bs have "unat b < 128" by simp
    with True bs first show ?thesis by simp
  next
    case False
    with assms(1) bs have cont: "128 \<le> unat b" "is_varint bs'" by (auto simp: is_varint_Cons)
    have "n < 7" if "bit (ucast (b AND 127) :: u32) n" for n
      using bit_or_push_bit_7 [of "0 :: u32" 0 b n] that by simp
    moreover have "7 + 7 * (length bs' - 1) < 32" using assms(2) bs False by (cases bs') auto
    ultimately have "varint32_loop E 7 (ucast (b AND 127)) (advance 1 s) =
      Some (Some (ucast (b AND 127) + of_nat (2 ^ 7 * varint_val bs')), advance (length bs') (advance 1 s))"
      using cont(2) adv(1,2) by (intro varint32_loop_value) auto
    with first cont(1) bs show ?thesis
      by (simp add: advance_advance low algebra_simps)
  qed
qed


section \<open>Skipping a value\<close>

text \<open>The bytes of one value of each wire type.\<close>

definition wire_value :: "u32 \<Rightarrow> byte list \<Rightarrow> bool" where
  "wire_value wt bs \<longleftrightarrow>
     wt = PB_WT_VARINT \<and> is_varint bs \<or> wt = PB_WT_64BIT \<and> length bs = 8 \<or>
     wt = PB_WT_32BIT \<and> length bs = 4 \<or>
     wt = PB_WT_STRING \<and> (\<exists>ls ds. bs = ls @ ds \<and> is_varint ls \<and> length ls \<le> 5 \<and>
       varint_val ls = length ds \<and> length ds < 2 ^ 32)"

lemma pb_skip_varint_value:
  assumes "is_varint bs" and "buf_stream s" and "avail s = bs @ rest"
  shows "pb_skip_varint E s = Some (Some (), advance (length bs) s)"
  using assms
proof (induction bs arbitrary: s)
  case (Cons b bs)
  have av: "avail s = b # bs @ rest" using Cons.prems(3) by simp
  note adv = avail_Cons_advance [OF Cons.prems(2) av]
  show ?case
  proof (cases "bs = []")
    case True
    with Cons.prems(1) show ?thesis by (simp add: pb_skip_varint_Cons [OF Cons.prems(2) av])
  next
    case False
    with Cons.prems(1) have "128 \<le> unat b" "is_varint bs" by (auto simp: is_varint_Cons)
    with Cons.IH [OF _ adv(2,1)] show ?thesis
      by (simp add: pb_skip_varint_Cons [OF Cons.prems(2) av] advance_advance)
  qed
qed simp

lemma pb_read_null_exact:
  assumes "buf_stream s" and "unat count \<le> length (avail s)"
  shows "pb_read_null E count s = Some (Some (), advance (unat count) s)"
proof -
  have "count \<le> bytes_left s" using assms by (simp add: word_le_nat_alt)
  with assms(1) show ?thesis by (simp add: pb_read_null_buffer bnd_def pb_read_buffer)
qed

lemma pb_skip_field_value:
  assumes v: "wire_value wt bs" and s: "buf_stream s" and av: "avail s = bs @ rest"
  shows "pb_skip_field E wt s = Some (Some (), advance (length bs) s)"
proof -
  from v consider "wt = PB_WT_VARINT" "is_varint bs" | "wt = PB_WT_64BIT" "length bs = 8"
    | "wt = PB_WT_32BIT" "length bs = 4"
    | ls ds where "wt = PB_WT_STRING" "bs = ls @ ds" "is_varint ls" "length ls \<le> 5" "varint_val ls = length ds"
        "length ds < 2 ^ 32"
    unfolding wire_value_def by blast
  then show ?thesis
  proof cases
    case 1
    with pb_skip_varint_value [OF _ s av] show ?thesis by (simp add: pb_skip_field_def)
  next
    case 2
    with av pb_read_null_exact [OF s, of 8] show ?thesis by (simp add: pb_skip_field_def)
  next
    case 3
    with av pb_read_null_exact [OF s, of 4] show ?thesis by (simp add: pb_skip_field_def)
  next
    case 4
    have len: "unat (ucast (of_nat (length ds) :: u32) :: u64) = length ds"
      using 4(6) by (simp add: unat_ucast_up unsigned_of_nat take_bit_nat_eq_self)
    have av4: "avail s = ls @ (ds @ rest)" using av 4(2) by simp
    have k: "length ls \<le> unat (bytes_left s)" using length_avail [OF s] av4 by simp
    have "pb_decode_varint32 E s = Some (Some (of_nat (length ds)), advance (length ls) s)"
      using pb_decode_varint32_value [OF 4(3,4) s av4, of E] 4(5) by simp
    moreover have "pb_read_null E (ucast (of_nat (length ds) :: u32)) (advance (length ls) s) =
        Some (Some (), advance (length ds) (advance (length ls) s))"
      using pb_read_null_exact [OF buf_stream_advance [OF s k], of "ucast (of_nat (length ds) :: u32)" E]
        avail_advance [OF s k] av4 by (simp add: len del: of_nat_eq_id)
    ultimately show ?thesis
      using 4(1,2) by (simp add: pb_skip_field_def pb_skip_string_def bnd_def advance_advance)
  qed
qed


section \<open>A varint cut short\<close>

lemma varint32_loop_truncated:
  assumes "\<And>b. b \<in> set bs \<Longrightarrow> 128 \<le> unat b" and "buf_stream s" and "avail s = bs"
    and "bitpos + 7 * length bs < 32"
  shows "varint32_loop E bitpos result s =
    Some (None, pb_set_error ''end-of-stream'' (advance (length bs) s))"
  using assms
proof (induction bs arbitrary: s bitpos result)
  case Nil
  then show ?case
    by (simp add: varint32_loop.simps [of E bitpos result] bnd_readbyte_empty)
next
  case (Cons b bs)
  note adv = avail_Cons_advance [OF Cons.prems(2,3)]
  have "bitpos < 32" using Cons.prems(4) by simp
  with Cons.prems(1) [of b] have "varint32_loop E bitpos result s =
      varint32_loop E (bitpos + 7) (result OR push_bit bitpos (ucast (b AND 127))) (advance 1 s)"
    by (simp add: varint32_loop_step [OF Cons.prems(2,3)] Let_def)
  also have "\<dots> = Some (None, pb_set_error ''end-of-stream'' (advance (length bs) (advance 1 s)))"
    using Cons.prems adv by (intro Cons.IH) auto
  finally show ?case by (simp add: advance_advance)
qed

lemma truncated_varint32:
  assumes s: "buf_stream s" and av: "avail s = bs" and "bs \<noteq> []" and "length bs \<le> 4"
    and cont: "\<And>b. b \<in> set bs \<Longrightarrow> 128 \<le> unat b"
  shows "\<exists>s'. pb_decode_varint32 E s = Some (None, s') \<and> bytes_left s' = 0"
proof -
  obtain b cs where bs: "bs = b # cs" using assms(3) by (cases bs) auto
  note adv = avail_Cons_advance [OF s av [unfolded bs]]
  have "pb_decode_varint32 E s = varint32_loop E 7 (ucast (b AND 127)) (advance 1 s)"
    using cont [of b] bs by (simp add: pb_decode_varint32_def bnd_readbyte [OF s av [unfolded bs]] continuation_bit_0)
  also have "\<dots> = Some (None, pb_set_error ''end-of-stream'' (advance (length cs) (advance 1 s)))"
    using cont bs assms(4) adv by (intro varint32_loop_truncated) auto
  finally have run: "pb_decode_varint32 E s = Some (None, pb_set_error ''end-of-stream'' (advance (length bs) s))"
    by (simp add: bs advance_advance)
  have "length bs = unat (bytes_left s)" using length_avail [OF s] av by simp
  then have "bytes_left (advance (length bs) s) = 0" by (simp add: advance_def)
  with run show ?thesis by (simp add: pb_set_error_def)
qed

end
