(* ===== verification/Pb_Ostream.thy ===== *)
theory Pb_Ostream
  imports Varint
begin

text \<open>
  The output streams of nanopb (\<open>pb_encode.c\<close>, \<open>pb_encode.h\<close>): the stream struct, writing bytes,
  and the encoders of varints, tags, fixed-width integers and strings.
\<close>

section \<open>The stream struct\<close>

text \<open>
  A null callback makes a sizing stream, which only counts. For a buffer stream the \<open>state\<close>
  pointer splits the caller's buffer in the bytes before it (\<open>odone\<close>) and the room from it on
  (\<open>oroom\<close>). A user callback is known by a number and may use both fields as it likes.
\<close>

datatype out_callback = No_callback | Buf_write | User_write nat

record pb_ostream =
  ocallback :: out_callback
  odone :: "byte list"
  oroom :: "byte list"
  max_size :: u64
  bytes_written :: u64
  oerrmsg :: "string option"

type_synonym 'a wr = "(pb_ostream, 'a) act"

type_synonym write_env = "nat \<Rightarrow> pb_ostream \<Rightarrow> byte list \<Rightarrow> (bool \<times> pb_ostream) option"

definition pb_oset_error :: "string \<Rightarrow> pb_ostream \<Rightarrow> pb_ostream" where
  "pb_oset_error msg s = s\<lparr>oerrmsg := (case oerrmsg s of None \<Rightarrow> Some msg | Some e \<Rightarrow> Some e)\<rparr>"

definition pb_oreturn_error :: "string \<Rightarrow> 'a wr" where
  "pb_oreturn_error msg = (\<lambda>s. Some (None, pb_oset_error msg s))"

definition pb_ostream_from_buffer :: "byte list \<Rightarrow> u64 \<Rightarrow> pb_ostream" where
  "pb_ostream_from_buffer buf bufsize =
     \<lparr>ocallback = Buf_write, odone = [], oroom = buf, max_size = bufsize, bytes_written = 0,
      oerrmsg = None\<rparr>"

definition PB_OSTREAM_SIZING :: pb_ostream where
  "PB_OSTREAM_SIZING =
     \<lparr>ocallback = No_callback, odone = [], oroom = [], max_size = 0, bytes_written = 0,
      oerrmsg = None\<rparr>"

section \<open>Writing bytes\<close>

definition buf_write :: "byte list \<Rightarrow> pb_ostream \<Rightarrow> (bool \<times> pb_ostream) option" where
  "buf_write bs s =
     (if length bs \<le> length (oroom s)
      then Some (True, s\<lparr>odone := odone s @ bs, oroom := drop (length bs) (oroom s)\<rparr>)
      else None)"

text \<open>
  \<open>stream->callback(stream, buf, count)\<close>; \<open>None\<close> for \<open>buf\<close> is the null pointer, from which only
  zero bytes can be read.
\<close>

definition call_write :: "write_env \<Rightarrow> byte list option \<Rightarrow> u64 \<Rightarrow> pb_ostream \<Rightarrow> (bool \<times> pb_ostream) option" where
  "call_write W buf count s =
     (let bs = (case buf of None \<Rightarrow> [] | Some bs \<Rightarrow> bs) in
      if length bs < unat count then None
      else case ocallback s of
        No_callback \<Rightarrow> None
      | Buf_write \<Rightarrow> buf_write (take (unat count) bs) s
      | User_write i \<Rightarrow> W i s (take (unat count) bs))"

definition pb_write :: "write_env \<Rightarrow> byte list option \<Rightarrow> u64 \<Rightarrow> unit wr" where
  "pb_write W buf count s =
     (if ocallback s \<noteq> No_callback then
        (if max_size s < bytes_written s + count then pb_oreturn_error ''stream full'' s
         else case call_write W buf count s of
           None \<Rightarrow> None
         | Some (ok, s') \<Rightarrow>
             (if \<not> ok then pb_oreturn_error ''io error'' s'
              else Some (Some (), s'\<lparr>bytes_written := bytes_written s' + count\<rparr>)))
      else Some (Some (), s\<lparr>bytes_written := bytes_written s + count\<rparr>))"

section \<open>Encoding integers, tags and strings\<close>

text \<open>The groups of seven bits that the loop of \<open>pb_encode_varint\<close> puts into its buffer.\<close>

function varint_groups :: "u64 \<Rightarrow> byte list" where
  "varint_groups value =
     (if value = 0 then []
      else (ucast (value AND 0x7F) OR 0x80) # varint_groups (drop_bit 7 value))"
  by pat_completeness auto
termination
  by (relation "measure unat") (auto simp: unat_drop_bit unat_gt_0 div_less_dividend)

declare varint_groups.simps [simp del]

definition pb_encode_varint :: "write_env \<Rightarrow> u64 \<Rightarrow> unit wr" where
  "pb_encode_varint W value =
     (if value \<le> 0x7F then pb_write W (Some [ucast value]) 1
      else let buffer = varint_groups value; i = length buffer in
        if 10 < i then undefined_behaviour
        else pb_write W (Some (buffer[i - 1 := buffer ! (i - 1) AND 0x7F])) (of_nat i))"

definition pb_encode_svarint :: "write_env \<Rightarrow> u64 \<Rightarrow> unit wr" where
  "pb_encode_svarint W value =
     pb_encode_varint W (if sint value < 0 then NOT (push_bit 1 value) else push_bit 1 value)"

definition fixed32_bytes :: "u32 \<Rightarrow> byte list" where
  "fixed32_bytes val =
     [ucast (val AND 0xFF), ucast (drop_bit 8 val AND 0xFF),
      ucast (drop_bit 16 val AND 0xFF), ucast (drop_bit 24 val AND 0xFF)]"

definition pb_encode_fixed32 :: "write_env \<Rightarrow> u32 \<Rightarrow> unit wr" where
  "pb_encode_fixed32 W val = pb_write W (Some (fixed32_bytes val)) 4"

definition fixed64_bytes :: "u64 \<Rightarrow> byte list" where
  "fixed64_bytes val =
     [ucast (val AND 0xFF), ucast (drop_bit 8 val AND 0xFF),
      ucast (drop_bit 16 val AND 0xFF), ucast (drop_bit 24 val AND 0xFF),
      ucast (drop_bit 32 val AND 0xFF), ucast (drop_bit 40 val AND 0xFF),
      ucast (drop_bit 48 val AND 0xFF), ucast (drop_bit 56 val AND 0xFF)]"

definition pb_encode_fixed64 :: "write_env \<Rightarrow> u64 \<Rightarrow> unit wr" where
  "pb_encode_fixed64 W val = pb_write W (Some (fixed64_bytes val)) 8"

definition pb_encode_tag :: "write_env \<Rightarrow> u32 \<Rightarrow> u32 \<Rightarrow> unit wr" where
  "pb_encode_tag W wiretype field_number =
     pb_encode_varint W (push_bit 3 (ucast field_number) OR ucast wiretype)"

definition pb_encode_string :: "write_env \<Rightarrow> byte list option \<Rightarrow> u64 \<Rightarrow> unit wr" where
  "pb_encode_string W buffer count = bnd (pb_encode_varint W count) (\<lambda>_. pb_write W buffer count)"

section \<open>The contract of a writing operation\<close>

text \<open>A buffer stream that has not failed, with its limit inside the buffer.\<close>

definition out_buffer :: "pb_ostream \<Rightarrow> bool" where
  "out_buffer s \<longleftrightarrow> ocallback s = Buf_write \<and> oerrmsg s = None \<and>
     unat (bytes_written s) \<le> unat (max_size s) \<and>
     unat (max_size s) - unat (bytes_written s) \<le> length (oroom s)"

definition put :: "byte list \<Rightarrow> pb_ostream \<Rightarrow> pb_ostream" where
  "put bs s = s\<lparr>odone := odone s @ bs, oroom := drop (length bs) (oroom s),
     bytes_written := bytes_written s + of_nat (length bs)\<rparr>"

definition count_up :: "nat \<Rightarrow> pb_ostream \<Rightarrow> pb_ostream" where
  "count_up n s = s\<lparr>bytes_written := bytes_written s + of_nat n\<rparr>"

definition fits :: "nat \<Rightarrow> pb_ostream \<Rightarrow> bool" where
  "fits n s \<longleftrightarrow> unat (bytes_written s) + n \<le> unat (max_size s)"

text \<open>
  An operation that writes the bytes \<open>bs\<close>: a sizing stream counts them, a buffer with enough
  room gets all of them, and a buffer that is too small gets an initial part, never a byte more
  than \<open>max_size\<close>, and the error ``stream full''.
\<close>

locale pure_writer =
  fixes wr :: "unit wr" and bs :: "byte list"
  assumes sizing: "ocallback s = No_callback \<Longrightarrow> wr s = Some (Some (), count_up (length bs) s)"
    and writes: "out_buffer s \<Longrightarrow> fits (length bs) s \<Longrightarrow> wr s = Some (Some (), put bs s)"
    and too_long: "out_buffer s \<Longrightarrow> \<not> fits (length bs) s \<Longrightarrow>
      unat (bytes_written s) + length bs < 2 ^ 64 \<Longrightarrow>
      \<exists>k \<le> length bs. fits k s \<and> wr s = Some (None, pb_oset_error ''stream full'' (put (take k bs) s))"

named_theorems writer_intros \<open>which operations write which bytes\<close>

lemma unat_plus_of_nat:
  "unat (b :: u64) + n < 2 ^ 64 \<Longrightarrow> unat (b + of_nat n) = unat b + n"
  by (simp add: unsigned_of_nat unat_word_ariths take_bit_nat_eq_self)

lemma fits_less: "fits n s \<Longrightarrow> unat (bytes_written s) + n < 2 ^ 64"
  using unat_lt_64 [of "max_size s"] by (simp add: fits_def)

lemma out_buffer_put:
  assumes "out_buffer s" and "fits (length bs) s"
  shows "out_buffer (put bs s)" and "fits n (put bs s) \<longleftrightarrow> fits (length bs + n) s"
    and "unat (bytes_written (put bs s)) = unat (bytes_written s) + length bs"
proof -
  show bw: "unat (bytes_written (put bs s)) = unat (bytes_written s) + length bs"
    using fits_less [OF assms(2)] by (simp add: put_def unat_plus_of_nat)
  with assms show "out_buffer (put bs s)"
    by (auto simp: out_buffer_def put_def fits_def)
  from bw show "fits n (put bs s) \<longleftrightarrow> fits (length bs + n) s"
    by (simp add: fits_def put_def add.assoc)
qed

lemma put_put: "put b (put a s) = put (a @ b) s"
  by (simp add: put_def add.commute add.left_commute)

lemma put_Nil [simp]: "put [] s = s"
  by (simp add: put_def)

lemma count_up_count_up: "count_up n (count_up m s) = count_up (m + n) s"
  by (simp add: count_up_def add.assoc)

lemma writer_ret [writer_intros]: "pure_writer (ret ()) []"
  by unfold_locales (auto simp: count_up_def fits_def out_buffer_def)

lemma writer_bnd [writer_intros]:
  assumes f: "pure_writer f a" and g: "pure_writer g b"
  shows "pure_writer (bnd f (\<lambda>_. g)) (a @ b)"
proof unfold_locales
  fix s :: pb_ostream
  assume "ocallback s = No_callback"
  moreover from this have "ocallback (count_up (length a) s) = No_callback" by (simp add: count_up_def)
  ultimately show "bnd f (\<lambda>_. g) s = Some (Some (), count_up (length (a @ b)) s)"
    by (simp add: bnd_def pure_writer.sizing [OF f] pure_writer.sizing [OF g] count_up_count_up)
next
  fix s :: pb_ostream
  assume s: "out_buffer s" "fits (length (a @ b)) s"
  then have fa: "fits (length a) s" by (simp add: fits_def)
  with s show "bnd f (\<lambda>_. g) s = Some (Some (), put (a @ b) s)"
    by (simp add: bnd_def pure_writer.writes [OF f] pure_writer.writes [OF g] out_buffer_put put_put)
next
  fix s :: pb_ostream
  assume s: "out_buffer s" "\<not> fits (length (a @ b)) s"
    "unat (bytes_written s) + length (a @ b) < 2 ^ 64"
  show "\<exists>k \<le> length (a @ b). fits k s \<and>
    bnd f (\<lambda>_. g) s = Some (None, pb_oset_error ''stream full'' (put (take k (a @ b)) s))"
  proof (cases "fits (length a) s")
    case True
    note p = out_buffer_put [OF s(1) True]
    have nf: "\<not> fits (length b) (put a s)" using s(2) p(2) by simp
    have "unat (bytes_written (put a s)) + length b < 2 ^ 64" using s(3) p(3) by simp
    from pure_writer.too_long [OF g p(1) nf this] obtain k where k: "k \<le> length b" "fits k (put a s)"
      "g (put a s) = Some (None, pb_oset_error ''stream full'' (put (take k b) (put a s)))" by blast
    then have "bnd f (\<lambda>_. g) s = Some (None, pb_oset_error ''stream full'' (put (take (length a + k) (a @ b)) s))"
      by (simp add: bnd_def pure_writer.writes [OF f s(1) True] put_put)
    with k p(2) show ?thesis by (intro exI [of _ "length a + k"]) simp
  next
    case False
    have "unat (bytes_written s) + length a < 2 ^ 64" using s(3) by simp
    from pure_writer.too_long [OF f s(1) False this] obtain k where k: "k \<le> length a" "fits k s"
      "f s = Some (None, pb_oset_error ''stream full'' (put (take k a) s))" by blast
    then show ?thesis by (intro exI [of _ k]) (simp add: bnd_false)
  qed
qed

lemma writer_pb_write [writer_intros]:
  assumes "length bs < 2 ^ 64" and "count = of_nat (length bs)"
  shows "pure_writer (pb_write W (Some bs) count) bs"
proof -
  have n: "unat count = length bs"
    using assms by (simp add: unsigned_of_nat take_bit_nat_eq_self)
  show ?thesis
  proof unfold_locales
    fix s :: pb_ostream
    assume "ocallback s = No_callback"
    then show "pb_write W (Some bs) count s = Some (Some (), count_up (length bs) s)"
      using assms(2) by (simp add: pb_write_def count_up_def)
  next
    fix s :: pb_ostream
    assume s: "out_buffer s" "fits (length bs) s"
    then have "unat (bytes_written s + count) \<le> unat (max_size s)"
      using fits_less [OF s(2)] assms(2) by (simp add: unat_plus_of_nat fits_def)
    with s n assms(2) show "pb_write W (Some bs) count s = Some (Some (), put bs s)"
      by (auto simp: pb_write_def call_write_def buf_write_def put_def out_buffer_def fits_def
          word_less_nat_alt)
  next
    fix s :: pb_ostream
    assume s: "out_buffer s" "\<not> fits (length bs) s" "unat (bytes_written s) + length bs < 2 ^ 64"
    then have "max_size s < bytes_written s + count"
      using assms(2) by (simp add: unat_plus_of_nat fits_def word_less_nat_alt)
    with s have "pb_write W (Some bs) count s = Some (None, pb_oset_error ''stream full'' (put (take 0 bs) s))"
      by (simp add: pb_write_def pb_oreturn_error_def out_buffer_def)
    with s(1) show "\<exists>k \<le> length bs. fits k s \<and>
      pb_write W (Some bs) count s = Some (None, pb_oset_error ''stream full'' (put (take k bs) s))"
      by (intro exI [of _ 0]) (simp add: fits_def out_buffer_def)
  qed
qed


text \<open>What a pure writer does on the two kinds of stream a caller makes.\<close>

lemma pure_writer_sizing:
  assumes "pure_writer f bs"
  shows "\<exists>os. f PB_OSTREAM_SIZING = Some (Some (), os) \<and> bytes_written os = of_nat (length bs)"
  using pure_writer.sizing [OF assms, of PB_OSTREAM_SIZING]
  by (simp add: PB_OSTREAM_SIZING_def count_up_def)

lemma pure_writer_buffer:
  assumes f: "pure_writer f bs" and len: "length bs < 2 ^ 64" and n: "unat n \<le> length buf"
  shows "\<exists>r os. f (pb_ostream_from_buffer buf n) = Some (r, os) \<and>
    length (odone os) \<le> unat n \<and> oroom os = drop (length (odone os)) buf \<and>
    (if length bs \<le> unat n then r = Some () \<and> odone os = bs
     else r = None \<and> oerrmsg os = Some ''stream full'' \<and> odone os = take (length (odone os)) bs)"
proof -
  let ?o = "pb_ostream_from_buffer buf n"
  have o: "out_buffer ?o" "fits k ?o \<longleftrightarrow> k \<le> unat n" for k
    using n by (simp_all add: out_buffer_def fits_def pb_ostream_from_buffer_def)
  show ?thesis
  proof (cases "length bs \<le> unat n")
    case True
    with pure_writer.writes [OF f o(1)] o(2) show ?thesis
      by (simp add: put_def pb_ostream_from_buffer_def)
  next
    case False
    have "unat (bytes_written ?o) + length bs < 2 ^ 64" using len by (simp add: pb_ostream_from_buffer_def)
    from pure_writer.too_long [OF f o(1) _ this] False o(2) obtain k where k: "k \<le> length bs" "k \<le> unat n"
      "f ?o = Some (None, pb_oset_error ''stream full'' (put (take k bs) ?o))" by auto
    with False show ?thesis
      by (simp add: put_def pb_oset_error_def pb_ostream_from_buffer_def min_def)
  qed
qed

end
