(* ===== verification/Pb_Wire.thy ===== *)
theory Pb_Wire
  imports Pb_Input Pb_Ostream
begin

text \<open>
  The wire format of nanopb: the bytes each encoder of \<open>pb_encode.c\<close> writes, and that the
  decoder of \<open>pb_decode.c\<close> of the same name reads the value back from them, on a stream that may
  hold more.
\<close>

section \<open>What the encoders write\<close>

lemma group_byte: "(ucast ((v :: u64) AND 127) :: byte) = of_nat (unat v mod 128)"
proof -
  have "(ucast (v AND 127) :: byte) = of_nat (unat (v AND 127))" by simp
  then show ?thesis by (simp only: unat_and_mask7)
qed

lemma unat_group_byte: "unat (ucast ((v :: u64) AND 127) :: byte) = unat v mod 128"
  by (simp only: group_byte) (rule unat_of_nat_byte, simp)

lemma continuation_byte: "(ucast ((v :: u64) AND 127) OR 128 :: byte) = of_nat (unat v mod 128 + 128)"
proof -
  have "unat (ucast (v AND 127) OR 128 :: byte) = unat (ucast (v AND 127) :: byte) + unat (128 :: byte)"
    by (rule unat_or_disjoint [where k = 7]) (simp_all add: unat_group_byte)
  then have "unat (ucast (v AND 127) OR 128 :: byte) = unat (of_nat (unat v mod 128 + 128) :: byte)"
    by (simp add: unat_group_byte unat_continuation_byte)
  then show ?thesis by (simp only: word_unat_eq_iff)
qed

lemma last_byte: "(ucast ((v :: u64) AND 127) OR 128 :: byte) AND 127 = of_nat (unat v mod 128)"
proof -
  have "unat ((ucast (v AND 127) OR 128 :: byte) AND 127) = unat (of_nat (unat v mod 128 + 128) :: byte) mod 128"
    by (simp only: unat_and_mask7 continuation_byte)
  also have "\<dots> = unat (of_nat (unat v mod 128) :: byte)"
    by (simp add: unat_continuation_byte unat_of_nat_byte)
  finally show ?thesis by (simp only: word_unat_eq_iff)
qed

lemma varint_groups_nonempty: "v \<noteq> 0 \<Longrightarrow> varint_groups v \<noteq> []"
  by (subst varint_groups.simps) simp

lemma varint_groups_bytes:
  "v \<noteq> 0 \<Longrightarrow>
   (varint_groups v)[length (varint_groups v) - 1 := varint_groups v ! (length (varint_groups v) - 1) AND 127]
     = varint_bytes (unat v)"
proof (induction v rule: varint_groups.induct)
  case (1 v)
  let ?b = "ucast (v AND 127) OR 128 :: byte" and ?w = "drop_bit 7 v"
  have eq: "varint_groups v = ?b # varint_groups ?w"
    using 1(2) by (subst varint_groups.simps) simp
  have w: "unat ?w = unat v div 128" by (simp add: unat_drop_bit)
  show ?case
  proof (cases "?w = 0")
    case True
    then have "varint_groups ?w = []" by (simp add: varint_groups.simps)
    moreover have "unat v < 128" using True w by (simp add: div_eq_0_iff)
    ultimately show ?thesis using eq last_byte [of v] by (simp add: varint_bytes_small)
  next
    case False
    then have ne: "varint_groups ?w \<noteq> []" by (rule varint_groups_nonempty)
    have "128 \<le> unat v" using False w by (metis div_less not_le unat_eq_0)
    then have r: "varint_bytes (unat v) = ?b # varint_bytes (unat ?w)"
      by (simp only: varint_bytes_large continuation_byte w)
    from ne obtain c cs where c: "varint_groups ?w = c # cs" by (cases "varint_groups ?w") auto
    have "(c # cs)[length cs := (c # cs) ! length cs AND 127] = varint_bytes (unat ?w)"
      using 1(1) [OF 1(2) False] by (simp only: c) simp
    then show ?thesis by (simp only: eq c r) simp
  qed
qed

lemma length_varint_groups: "v \<noteq> 0 \<Longrightarrow> length (varint_groups v) = length (varint_bytes (unat v))"
  by (subst varint_groups_bytes [symmetric]) simp_all

lemma writer_pb_encode_varint [writer_intros]:
  "pure_writer (pb_encode_varint W v) (varint_bytes (unat v))"
proof (cases "v \<le> 127")
  case True
  then have n: "unat v < 128" by (simp add: word_le_nat_alt)
  have "ucast v = (of_nat (unat v) :: byte)" by simp
  moreover have "pure_writer (pb_write W (Some [ucast v]) 1) [ucast v]"
    by (rule writer_pb_write) simp_all
  ultimately show ?thesis using True n by (simp add: pb_encode_varint_def varint_bytes_small)
next
  case False
  then have v: "v \<noteq> 0" by auto
  then have len: "length (varint_groups v) \<le> 10"
    using length_varint_groups length_varint_bytes_64 by simp
  have "pure_writer (pb_write W (Some (varint_bytes (unat v))) (of_nat (length (varint_groups v))))
      (varint_bytes (unat v))"
    using length_varint_bytes_64 [of v] by (intro writer_pb_write) (simp_all add: length_varint_groups v)
  with False len show ?thesis
    by (simp add: pb_encode_varint_def Let_def varint_groups_bytes [OF v, simplified])
qed

lemma fixed32_bytes_le: "fixed32_bytes v = le_bytes 4 (unat v)"
proof -
  have "(ucast (v AND 255) :: byte) = of_nat (unat v mod 256)"
    using byte_of_word [of 0 v] by simp
  then show ?thesis
    by (simp add: fixed32_bytes_def byte_of_word le_bytes_4)
qed

lemma fixed64_bytes_le: "fixed64_bytes v = le_bytes 8 (unat v)"
proof -
  have "(ucast (v AND 255) :: byte) = of_nat (unat v mod 256)"
    using byte_of_word [of 0 v] by simp
  then show ?thesis
    by (simp add: fixed64_bytes_def byte_of_word le_bytes_8)
qed

lemma writer_pb_encode_fixed32 [writer_intros]: "pure_writer (pb_encode_fixed32 W v) (le_bytes 4 (unat v))"
  unfolding pb_encode_fixed32_def fixed32_bytes_le by (rule writer_pb_write) simp_all

lemma writer_pb_encode_fixed64 [writer_intros]: "pure_writer (pb_encode_fixed64 W v) (le_bytes 8 (unat v))"
  unfolding pb_encode_fixed64_def fixed64_bytes_le by (rule writer_pb_write) simp_all

lemma zigzag_svarint [writer_intros]:
  "pure_writer (pb_encode_svarint W v)
     (varint_bytes (unat (if sint v < 0 then NOT (push_bit 1 v) else push_bit 1 v)))"
  unfolding pb_encode_svarint_def by (rule writer_pb_encode_varint)

lemma writer_pb_encode_string [writer_intros]:
  assumes "length bs < 2 ^ 64"
  shows "pure_writer (pb_encode_string W (Some bs) (of_nat (length bs))) (varint_bytes (length bs) @ bs)"
proof -
  have "unat (of_nat (length bs) :: u64) = length bs"
    using assms by (simp add: unsigned_of_nat take_bit_nat_eq_self)
  then have "pure_writer (pb_encode_varint W (of_nat (length bs))) (varint_bytes (length bs))"
    using writer_pb_encode_varint [of W "of_nat (length bs)"] by simp
  then show ?thesis
    unfolding pb_encode_string_def by (rule writer_bnd) (rule writer_pb_write [OF assms refl])
qed

lemma tag_value:
  fixes fn wt :: u32
  assumes "unat fn < 2 ^ 29" and "unat wt < 8"
  shows "unat (push_bit 3 (ucast fn) OR ucast wt :: u64) = 8 * unat fn + unat wt"
proof -
  have f: "unat (ucast fn :: u64) = unat fn" and w: "unat (ucast wt :: u64) = unat wt"
    by (simp_all add: unat_ucast_up)
  have p: "unat (push_bit 3 (ucast fn) :: u64) = unat fn * 2 ^ 3"
    using assms(1) f by (subst unat_push_bit) simp_all
  have "unat (ucast wt OR push_bit 3 (ucast fn) :: u64) = unat wt + unat fn * 2 ^ 3"
    using unat_or_disjoint [where k = 3 and a = "ucast wt :: u64" and b = "push_bit 3 (ucast fn)"] assms(2) p w
    by simp
  then show ?thesis by (simp add: or.commute)
qed

lemma writer_pb_encode_tag [writer_intros]:
  assumes "unat fn < 2 ^ 29" and "unat wt < 8"
  shows "pure_writer (pb_encode_tag W wt fn) (varint_bytes (8 * unat fn + unat wt))"
  using writer_pb_encode_varint [of W "push_bit 3 (ucast fn) OR ucast wt"]
  by (simp add: pb_encode_tag_def tag_value [OF assms])

section \<open>What the decoders read\<close>

lemma pb_decode_varint_encoded:
  assumes "buf_stream s" and "avail s = varint_bytes (unat (v :: u64)) @ rest"
  shows "pb_decode_varint E s = Some (Some v, advance (length (varint_bytes (unat v))) s)"
  using pb_decode_varint_value [OF is_varint_bytes length_varint_bytes_64 assms]
  by (simp add: varint_val_bytes)

lemma pb_decode_varint32_encoded:
  assumes "buf_stream s" and "avail s = varint_bytes n @ rest" and "n < 2 ^ 32"
  shows "pb_decode_varint32 E s = Some (Some (of_nat n), advance (length (varint_bytes n)) s)"
proof -
  have "length (varint_bytes n) \<le> 5" using length_varint_bytes_le [of n 4] assms(3) by simp
  from pb_decode_varint32_value [OF is_varint_bytes this assms(1,2)] show ?thesis
    by (simp add: varint_val_bytes)
qed

lemma zigzag_inverse:
  fixes v :: u64
  defines "z \<equiv> (if sint v < 0 then NOT (push_bit 1 v) else push_bit 1 v)"
  shows "(if z AND 1 \<noteq> 0 then NOT (drop_bit 1 z) else drop_bit 1 z) = v"
proof -
  define p where "p = push_bit 1 v"
  have p: "bit p n \<longleftrightarrow> 1 \<le> n \<and> n < 64 \<and> bit v (n - 1)" for n
    by (simp only: p_def bit_push_bit_iff) simp
  have z: "z = (if sint v < 0 then NOT p else p)" by (simp only: z_def p_def)
  have neg: "sint v < 0 \<longleftrightarrow> bit v 63" using bit_last_iff [of v] by simp
  have low: "z AND 1 \<noteq> 0 \<longleftrightarrow> bit z 0"
    using and_exp_eq_0_iff_not_bit [of z 0] by simp
  have "bit z 0 \<longleftrightarrow> sint v < 0" by (simp add: z p bit_not_iff)
  moreover have "NOT (drop_bit 1 z) = v" if "sint v < 0"
  proof (rule bit_eqI)
    fix n
    assume "possible_bit TYPE(u64) n"
    then consider "n < 63" | "n = 63" by fastforce
    then show "bit (NOT (drop_bit 1 z)) n = bit v n"
      using that neg by cases (auto simp: z p bit_not_iff bit_drop_bit_eq)
  qed
  moreover have "drop_bit 1 z = v" if "\<not> sint v < 0"
  proof (rule bit_eqI)
    fix n
    assume "possible_bit TYPE(u64) n"
    then consider "n < 63" | "n = 63" by fastforce
    then show "bit (drop_bit 1 z) n = bit v n"
      using that neg by cases (auto simp: z p bit_drop_bit_eq)
  qed
  ultimately show ?thesis using low by (cases "sint v < 0") auto
qed

lemma pb_decode_svarint_encoded:
  assumes "buf_stream s"
    and "avail s = varint_bytes (unat (if sint v < 0 then NOT (push_bit 1 v) else push_bit 1 v)) @ rest"
  shows "pb_decode_svarint E s = Some (Some v,
    advance (length (varint_bytes (unat (if sint v < 0 then NOT (push_bit 1 v) else push_bit 1 v)))) s)"
  using pb_decode_varint_encoded [OF assms, of E] zigzag_inverse [of v]
  by (simp add: pb_decode_svarint_def bnd_def split: if_splits)

lemma pb_read_encoded:
  assumes "buf_stream s" and "avail s = bs @ rest"
  shows "pb_read E (of_nat (length bs)) s = Some (Some bs, advance (length bs) s)"
proof -
  have len: "length bs \<le> unat (bytes_left s)" using length_avail [OF assms(1)] assms(2) by simp
  then have n: "unat (of_nat (length bs) :: u64) = length bs"
    using unat_lt_64 [of "bytes_left s"] by (simp add: unsigned_of_nat take_bit_nat_eq_self)
  with len have "of_nat (length bs) \<le> bytes_left s" by (simp add: word_le_nat_alt)
  from pb_read_buffer [OF assms(1) this] show ?thesis by (simp add: n assms(2))
qed

lemma pb_decode_fixed32_encoded:
  assumes "buf_stream s" and "avail s = le_bytes 4 (unat v) @ rest"
  shows "pb_decode_fixed32 E s = Some (Some v, advance 4 s)"
  using pb_read_encoded [OF assms, of E]
  by (simp add: pb_decode_fixed32_def bnd_def or_4_bytes [simplified] le_val_bytes_32)

lemma pb_decode_fixed64_encoded:
  assumes "buf_stream s" and "avail s = le_bytes 8 (unat v) @ rest"
  shows "pb_decode_fixed64 E s = Some (Some v, advance 8 s)"
  using pb_read_encoded [OF assms, of E]
  by (simp add: pb_decode_fixed64_def bnd_def or_8_bytes [simplified] le_val_bytes_64)

lemma pb_decode_tag_encoded:
  assumes "buf_stream s" and "avail s = varint_bytes (8 * unat fn + unat wt) @ rest"
    and "0 < unat fn" and "unat fn < 2 ^ 29" and "unat wt < 8"
  shows "pb_decode_tag E s = Some (Tag wt fn, advance (length (varint_bytes (8 * unat fn + unat wt))) s)"
proof -
  define t :: u32 where "t = of_nat (8 * unat fn + unat wt)"
  have lt: "8 * unat fn + unat wt < 2 ^ 32" using assms(4,5) by simp
  then have t: "unat t = 8 * unat fn + unat wt"
    unfolding t_def by (simp add: unsigned_of_nat take_bit_nat_eq_self del: of_nat_add of_nat_mult)
  have ne: "t \<noteq> 0" using t assms(3) by (metis add_is_0 mult_is_0 neq0_conv unsigned_0 zero_neq_numeral)
  have "unat (t AND 7) = unat wt"
    using assms(5) by (simp only: unat_and_mask3 t) simp
  then have wt: "t AND 7 = wt" by (simp only: word_unat_eq_iff)
  have "unat (drop_bit 3 t) = unat fn"
    using assms(5) by (simp only: unat_drop_bit t) simp
  then have fn: "drop_bit 3 t = fn" by (simp only: word_unat_eq_iff)
  show ?thesis
    using pb_decode_varint32_encoded [OF assms(1,2) lt, of E, folded t_def] ne
    by (simp only: pb_decode_tag_def option.case prod.case if_False wt fn)
qed

section \<open>Codecs\<close>

text \<open>
  A writer and a reader of the same values. What follows from the two contracts: a value written
  to a buffer is read back from the bytes the buffer then holds, with nothing left over.
\<close>

locale pb_codec =
  fixes wr :: "write_env \<Rightarrow> 'a \<Rightarrow> unit wr"
    and rd :: "read_env \<Rightarrow> 'a rd"
    and enc :: "'a \<Rightarrow> byte list"
  assumes written: "pure_writer (wr W x) (enc x)"
    and read_back: "buf_stream s \<Longrightarrow> avail s = enc x @ rest \<Longrightarrow> rd E s = Some (Some x, advance (length (enc x)) s)"
    and short: "length (enc x) < 2 ^ 64"
begin

lemma write_then_read:
  assumes "length (enc x) \<le> unat n" and "unat n \<le> length buf"
  shows "\<exists>os. wr W x (pb_ostream_from_buffer buf n) = Some (Some (), os) \<and>
    odone os = enc x \<and> bytes_written os = of_nat (length (enc x)) \<and>
    (\<exists>s'. rd E (pb_istream_from_buffer (odone os) (bytes_written os)) = Some (Some x, s') \<and>
      bytes_left s' = 0)"
proof -
  let ?o = "pb_ostream_from_buffer buf n"
  have "out_buffer ?o" "fits (length (enc x)) ?o"
    using assms by (auto simp: out_buffer_def fits_def pb_ostream_from_buffer_def)
  then have w: "wr W x ?o = Some (Some (), put (enc x) ?o)"
    by (rule pure_writer.writes [OF written])
  let ?s = "pb_istream_from_buffer (enc x) (of_nat (length (enc x)))"
  have n: "unat (of_nat (length (enc x)) :: u64) = length (enc x)"
    using short [of x] by (simp add: unsigned_of_nat take_bit_nat_eq_self)
  then have "buf_stream ?s" "avail ?s = enc x @ []"
    by (simp_all add: buf_stream_from_buffer avail_from_buffer)
  then have "rd E ?s = Some (Some x, advance (length (enc x)) ?s)"
    by (rule read_back)
  then show ?thesis using w
    by (simp add: put_def pb_ostream_from_buffer_def advance_def pb_istream_from_buffer_def)
qed

lemma enc_inject:
  assumes "enc x = enc y"
  shows "x = y"
proof -
  let ?s = "pb_istream_from_buffer (enc x) (of_nat (length (enc x)))"
  have n: "unat (of_nat (length (enc x)) :: u64) = length (enc x)"
    using short [of x] by (simp add: unsigned_of_nat take_bit_nat_eq_self)
  then have s: "buf_stream ?s" "avail ?s = enc x @ []"
    by (simp_all add: buf_stream_from_buffer avail_from_buffer)
  from read_back [OF s] read_back [OF s(1), of y] s(2) assms show ?thesis by simp
qed

end

lemma varint_short: "length (varint_bytes (unat (v :: u64))) < 2 ^ 64"
  using length_varint_bytes_64 [of v] by simp

interpretation varint: pb_codec pb_encode_varint pb_decode_varint "\<lambda>v. varint_bytes (unat v)"
  by (rule pb_codec.intro) (rule writer_pb_encode_varint, erule pb_decode_varint_encoded, assumption,
    rule varint_short)

interpretation svarint: pb_codec pb_encode_svarint pb_decode_svarint
  "\<lambda>v. varint_bytes (unat (if sint v < 0 then NOT (push_bit 1 v) else push_bit 1 v))"
  by (rule pb_codec.intro) (rule zigzag_svarint, erule pb_decode_svarint_encoded, assumption,
    rule varint_short)

interpretation fixed32: pb_codec pb_encode_fixed32 pb_decode_fixed32 "\<lambda>v. le_bytes 4 (unat v)"
  by (rule pb_codec.intro) (auto intro: writer_intros simp: pb_decode_fixed32_encoded)

interpretation fixed64: pb_codec pb_encode_fixed64 pb_decode_fixed64 "\<lambda>v. le_bytes 8 (unat v)"
  by (rule pb_codec.intro) (auto intro: writer_intros simp: pb_decode_fixed64_encoded)

end
