(* ===== verification/Pb_Types.thy ===== *)
theory Pb_Types
  imports Prelude
begin

text \<open>
  The common part of nanopb: the constants and field descriptors of \<open>pb.h\<close> and the field
  iterator of \<open>pb_common.c\<close>. The build defines \<open>PB_FIELD_32BIT\<close>, so \<open>pb_size_t\<close> and
  \<open>pb_ssize_t\<close> are 32 bits wide; it does not define \<open>PB_ENABLE_MALLOC\<close> or \<open>PB_BUFFER_ONLY\<close>.

  Addresses are integers and a \<open>void *\<close> has 8 bytes. A descriptor array is the list of its
  fields; reading it past the end gives \<open>PB_LAST_FIELD\<close>, the terminator the macros put there.
  The \<open>ptr\<close> member is null, the descriptor array of a submessage or the bytes of a default value.
\<close>

section \<open>Field types\<close>

abbreviation (input) PB_LTYPE_VARINT :: byte where "PB_LTYPE_VARINT \<equiv> 0x00"
abbreviation (input) PB_LTYPE_UVARINT :: byte where "PB_LTYPE_UVARINT \<equiv> 0x01"
abbreviation (input) PB_LTYPE_SVARINT :: byte where "PB_LTYPE_SVARINT \<equiv> 0x02"
abbreviation (input) PB_LTYPE_FIXED32 :: byte where "PB_LTYPE_FIXED32 \<equiv> 0x03"
abbreviation (input) PB_LTYPE_FIXED64 :: byte where "PB_LTYPE_FIXED64 \<equiv> 0x04"
abbreviation (input) PB_LTYPE_LAST_PACKABLE :: byte where "PB_LTYPE_LAST_PACKABLE \<equiv> 0x04"
abbreviation (input) PB_LTYPE_BYTES :: byte where "PB_LTYPE_BYTES \<equiv> 0x05"
abbreviation (input) PB_LTYPE_STRING :: byte where "PB_LTYPE_STRING \<equiv> 0x06"
abbreviation (input) PB_LTYPE_SUBMESSAGE :: byte where "PB_LTYPE_SUBMESSAGE \<equiv> 0x07"
abbreviation (input) PB_LTYPE_EXTENSION :: byte where "PB_LTYPE_EXTENSION \<equiv> 0x08"
abbreviation (input) PB_LTYPE_FIXED_LENGTH_BYTES :: byte where "PB_LTYPE_FIXED_LENGTH_BYTES \<equiv> 0x09"

abbreviation (input) PB_HTYPE_REQUIRED :: byte where "PB_HTYPE_REQUIRED \<equiv> 0x00"
abbreviation (input) PB_HTYPE_OPTIONAL :: byte where "PB_HTYPE_OPTIONAL \<equiv> 0x10"
abbreviation (input) PB_HTYPE_REPEATED :: byte where "PB_HTYPE_REPEATED \<equiv> 0x20"
abbreviation (input) PB_HTYPE_ONEOF :: byte where "PB_HTYPE_ONEOF \<equiv> 0x30"

abbreviation (input) PB_ATYPE_STATIC :: byte where "PB_ATYPE_STATIC \<equiv> 0x00"
abbreviation (input) PB_ATYPE_POINTER :: byte where "PB_ATYPE_POINTER \<equiv> 0x80"
abbreviation (input) PB_ATYPE_CALLBACK :: byte where "PB_ATYPE_CALLBACK \<equiv> 0x40"

definition PB_ATYPE :: "byte \<Rightarrow> byte" where "PB_ATYPE x = x AND 0xC0"
definition PB_HTYPE :: "byte \<Rightarrow> byte" where "PB_HTYPE x = x AND 0x30"
definition PB_LTYPE :: "byte \<Rightarrow> byte" where "PB_LTYPE x = x AND 0x0F"

abbreviation (input) PB_SIZE_MAX :: u32 where "PB_SIZE_MAX \<equiv> 0xFFFFFFFF"

section \<open>Field descriptors\<close>

text \<open>\<open>size_offset\<close> is a signed \<open>int32_t\<close>, kept as a word and read with \<open>sint\<close>.\<close>

datatype pb_field =
    Pb_Field (tag: u32) (field_type: byte) (data_offset: u32) (size_offset: u32)
      (data_size: u32) (array_size: u32) (field_ptr: pb_ptr)
and pb_ptr = Ptr_null | Ptr_submsg "pb_field list" | Ptr_default "byte list"

definition PB_LAST_FIELD :: pb_field where
  "PB_LAST_FIELD = Pb_Field 0 0 0 0 0 0 Ptr_null"

definition field_at :: "pb_field list \<Rightarrow> nat \<Rightarrow> pb_field" where
  "field_at fs i = (if i < length fs then fs ! i else PB_LAST_FIELD)"

section \<open>The field iterator\<close>

record pb_field_iter =
  start :: "pb_field list"
  pos :: nat
  required_field_index :: u32
  dest_struct :: int
  pData :: int
  pSize :: int

definition cur :: "pb_field_iter \<Rightarrow> pb_field" where
  "cur iter = field_at (start iter) (pos iter)"

abbreviation ltype :: "pb_field \<Rightarrow> byte" where "ltype f \<equiv> PB_LTYPE (field_type f)"
abbreviation htype :: "pb_field \<Rightarrow> byte" where "htype f \<equiv> PB_HTYPE (field_type f)"
abbreviation atype :: "pb_field \<Rightarrow> byte" where "atype f \<equiv> PB_ATYPE (field_type f)"

definition pb_field_iter_begin :: "pb_field list \<Rightarrow> int \<Rightarrow> bool \<times> pb_field_iter" where
  "pb_field_iter_begin fs dest =
     (let f = field_at fs 0;
          d = dest + int (unat (data_offset f))
      in (tag f \<noteq> 0,
          \<lparr>start = fs, pos = 0, required_field_index = 0, dest_struct = dest,
           pData = d, pSize = d + sint (size_offset f)\<rparr>))"

definition prev_size :: "pb_field \<Rightarrow> nat" where
  "prev_size prev =
     (if atype prev = PB_ATYPE_STATIC \<and> htype prev = PB_HTYPE_REPEATED
      then unat (data_size prev) * unat (array_size prev)
      else if atype prev = PB_ATYPE_POINTER then 8
      else unat (data_size prev))"

definition pb_field_iter_next :: "pb_field_iter \<Rightarrow> bool \<times> pb_field_iter" where
  "pb_field_iter_next iter =
     (let prev = cur iter; f = field_at (start iter) (Suc (pos iter)) in
      if tag prev = 0 then (False, iter)
      else if tag f = 0 then (False, snd (pb_field_iter_begin (start iter) (dest_struct iter)))
      else if htype prev = PB_HTYPE_ONEOF \<and> htype f = PB_HTYPE_ONEOF \<and> data_offset f = PB_SIZE_MAX
      then (True, iter\<lparr>pos := Suc (pos iter)\<rparr>)
      else let d = pData iter + int (prev_size prev) + int (unat (data_offset f)) in
        (True, iter\<lparr>pos := Suc (pos iter),
           required_field_index := (if htype prev = PB_HTYPE_REQUIRED
             then required_field_index iter + 1 else required_field_index iter),
           pData := d, pSize := d + sint (size_offset f)\<rparr>))"

text \<open>
  The loop \<open>do { if (matches) return true; (void)next; } while (pos != start)\<close> of
  \<open>pb_field_iter_find\<close> and \<open>find_extension_field\<close>; \<open>start_pos\<close> is where it began.
\<close>

partial_function (option) iter_search ::
  "(pb_field \<Rightarrow> bool) \<Rightarrow> nat \<Rightarrow> pb_field_iter \<Rightarrow> (bool \<times> pb_field_iter) option" where
  [code]: "iter_search matches start_pos iter =
     (if matches (cur iter) then Some (True, iter)
      else let iter' = snd (pb_field_iter_next iter) in
        if pos iter' = start_pos then Some (False, iter') else iter_search matches start_pos iter')"

definition field_has_tag :: "u32 \<Rightarrow> pb_field \<Rightarrow> bool" where
  "field_has_tag t f \<longleftrightarrow> tag f = t \<and> ltype f \<noteq> PB_LTYPE_EXTENSION"

definition pb_field_iter_find :: "pb_field_iter \<Rightarrow> u32 \<Rightarrow> (bool \<times> pb_field_iter) option" where
  "pb_field_iter_find iter t = iter_search (field_has_tag t) (pos iter) iter"

text \<open>\<open>do { g(iter) } while (pb_field_iter_next(iter))\<close>\<close>

lemma next_True_pos:
  "fst (pb_field_iter_next iter) \<Longrightarrow>
   Suc (pos iter) < length (start iter) \<and> pos (snd (pb_field_iter_next iter)) = Suc (pos iter) \<and>
   start (snd (pb_field_iter_next iter)) = start iter"
  by (auto simp: pb_field_iter_next_def Let_def field_at_def PB_LAST_FIELD_def split: if_splits)

function for_each_field :: "(pb_field_iter \<Rightarrow> ('s, unit) act) \<Rightarrow> pb_field_iter \<Rightarrow> ('s, unit) act" where
  "for_each_field g iter =
     bnd (g iter) (\<lambda>_. if fst (pb_field_iter_next iter)
       then for_each_field g (snd (pb_field_iter_next iter)) else ret ())"
  by pat_completeness auto
termination
  by (relation "measure (\<lambda>(g, iter). length (start iter) - pos iter)") (simp, drule next_True_pos, simp, arith)

declare for_each_field.simps [simp del]

section \<open>Where the iterator can be\<close>

text \<open>The number of fields before the terminator, and the iterator after \<open>i\<close> steps from the first field.\<close>

definition n_fields :: "pb_field list \<Rightarrow> nat" where
  "n_fields fs = length (takeWhile (\<lambda>f. tag f \<noteq> 0) fs)"

fun iter_at :: "pb_field list \<Rightarrow> int \<Rightarrow> nat \<Rightarrow> pb_field_iter" where
  "iter_at fs dest 0 = snd (pb_field_iter_begin fs dest)"
| "iter_at fs dest (Suc i) = snd (pb_field_iter_next (iter_at fs dest i))"

declare iter_at.simps(2) [simp del]

lemma tag_field_at: "tag (field_at fs i) \<noteq> 0 \<Longrightarrow> i < length fs"
  by (auto simp: field_at_def PB_LAST_FIELD_def split: if_splits)

lemma tag_below_n_fields:
  assumes "i < n_fields fs"
  shows "tag (field_at fs i) \<noteq> 0"
proof -
  let ?w = "takeWhile (\<lambda>f. tag f \<noteq> 0) fs"
  have i: "i < length ?w" using assms by (simp add: n_fields_def)
  then have "tag (?w ! i) \<noteq> 0" using nth_mem [OF i] by (blast dest: set_takeWhileD)
  moreover have "?w ! i = fs ! i" using i by (rule takeWhile_nth)
  moreover have "i < length fs" using i length_takeWhile_le order_less_le_trans by blast
  ultimately show ?thesis by (simp add: field_at_def)
qed

lemma tag_at_n_fields: "tag (field_at fs (n_fields fs)) = 0"
  using nth_length_takeWhile [of "\<lambda>f. tag f \<noteq> 0" fs]
  by (auto simp: n_fields_def field_at_def PB_LAST_FIELD_def)

lemma begin_simps [simp]:
  "start (snd (pb_field_iter_begin fs dest)) = fs"
  "pos (snd (pb_field_iter_begin fs dest)) = 0"
  "dest_struct (snd (pb_field_iter_begin fs dest)) = dest"
  by (simp_all add: pb_field_iter_begin_def Let_def)

lemma begin_True: "fst (pb_field_iter_begin fs dest) \<longleftrightarrow> 0 < n_fields fs"
proof -
  have "tag (field_at fs 0) \<noteq> 0 \<longleftrightarrow> 0 < n_fields fs"
    using tag_below_n_fields [of 0 fs] tag_at_n_fields [of fs] by (cases "n_fields fs") auto
  then show ?thesis by (simp add: pb_field_iter_begin_def Let_def)
qed

lemma iter_at_simps:
  assumes "i < n_fields fs"
  shows "start (iter_at fs dest i) = fs" and "pos (iter_at fs dest i) = i"
    and "dest_struct (iter_at fs dest i) = dest"
proof -
  have "start (iter_at fs dest i) = fs \<and> pos (iter_at fs dest i) = i \<and>
    dest_struct (iter_at fs dest i) = dest"
    using assms
  proof (induction i)
    case (Suc i)
    then have IH: "start (iter_at fs dest i) = fs" "pos (iter_at fs dest i) = i"
      "dest_struct (iter_at fs dest i) = dest" by simp_all
    have "tag (field_at fs i) \<noteq> 0" "tag (field_at fs (Suc i)) \<noteq> 0"
      using Suc.prems tag_below_n_fields by simp_all
    with IH show ?case by (simp add: iter_at.simps(2) pb_field_iter_next_def Let_def cur_def)
  qed simp
  then show "start (iter_at fs dest i) = fs" and "pos (iter_at fs dest i) = i"
    and "dest_struct (iter_at fs dest i) = dest" by simp_all
qed

lemma cur_iter_at: "i < n_fields fs \<Longrightarrow> cur (iter_at fs dest i) = field_at fs i"
  by (simp add: cur_def iter_at_simps)

lemma next_iter_at:
  assumes "i < n_fields fs"
  shows "pb_field_iter_next (iter_at fs dest i) =
    (if Suc i < n_fields fs then (True, iter_at fs dest (Suc i)) else (False, iter_at fs dest 0))"
proof (cases "Suc i < n_fields fs")
  case True
  have "tag (field_at fs i) \<noteq> 0" "tag (field_at fs (Suc i)) \<noteq> 0"
    using assms True tag_below_n_fields by simp_all
  then have "fst (pb_field_iter_next (iter_at fs dest i))"
    by (simp add: pb_field_iter_next_def Let_def cur_iter_at [OF assms] iter_at_simps [OF assms])
  with True show ?thesis by (simp add: prod_eq_iff iter_at.simps(2))
next
  case False
  with assms have "Suc i = n_fields fs" by simp
  then have "tag (field_at fs (Suc i)) = 0" using tag_at_n_fields by metis
  with False tag_below_n_fields [OF assms] show ?thesis
    by (simp add: pb_field_iter_next_def Let_def cur_iter_at [OF assms] iter_at_simps [OF assms])
qed

text \<open>The loop over all fields visits \<open>iter_at fs dest 0\<close>, \<open>iter_at fs dest 1\<close>, and so on.\<close>

lemma for_each_field_at:
  assumes "i < n_fields fs"
  shows "for_each_field g (iter_at fs dest i) =
    (if Suc i < n_fields fs then bnd (g (iter_at fs dest i)) (\<lambda>_. for_each_field g (iter_at fs dest (Suc i)))
     else bnd (g (iter_at fs dest i)) (\<lambda>_. ret ()))"
  using assms by (subst for_each_field.simps) (simp add: next_iter_at)

lemma for_each_field_induct:
  assumes last: "P (ret ())"
    and step: "\<And>i h. i < n_fields fs \<Longrightarrow> P h \<Longrightarrow> P (bnd (g (iter_at fs dest i)) (\<lambda>_. h))"
    and i: "i < n_fields fs"
  shows "P (for_each_field g (iter_at fs dest i))"
  using i
proof (induction "n_fields fs - i" arbitrary: i)
  case 0
  then show ?case by simp
next
  case (Suc k)
  show ?case
  proof (cases "Suc i < n_fields fs")
    case True
    with Suc have "P (for_each_field g (iter_at fs dest (Suc i)))" by simp
    with Suc.prems True step show ?thesis by (simp only: for_each_field_at if_True)
  next
    case False
    with Suc.prems last step show ?thesis by (simp only: for_each_field_at if_False)
  qed
qed

section \<open>Finding a field by its tag\<close>

lemma iter_search_result:
  assumes "p < n_fields fs" and "k < n_fields fs"
    and "\<And>j. j < k \<Longrightarrow> \<not> P (field_at fs ((p + j) mod n_fields fs))"
  shows "(\<exists>i < n_fields fs. P (field_at fs i) \<and>
       iter_search P p (iter_at fs dest ((p + k) mod n_fields fs)) = Some (True, iter_at fs dest i)) \<or>
    (\<forall>i < n_fields fs. \<not> P (field_at fs i)) \<and>
       iter_search P p (iter_at fs dest ((p + k) mod n_fields fs)) = Some (False, iter_at fs dest p)"
  using assms(2,3)
proof (induction "n_fields fs - k" arbitrary: k)
  case 0
  then show ?case by simp
next
  case (Suc d)
  let ?n = "n_fields fs"
  let ?c = "(p + k) mod ?n"
  have c: "?c < ?n" using assms(1) by simp
  show ?case
  proof (cases "P (field_at fs ?c)")
    case True
    with c have "iter_search P p (iter_at fs dest ?c) = Some (True, iter_at fs dest ?c)"
      by (subst iter_search.simps) (simp add: cur_iter_at)
    with True c show ?thesis by blast
  next
    case False
    define q where "q = (p + Suc k) mod ?n"
    have q: "q < ?n" using assms(1) by (simp add: q_def)
    have "q = (if Suc ?c < ?n then Suc ?c else 0)"
      using c by (simp add: q_def mod_Suc)
    then have nxt: "snd (pb_field_iter_next (iter_at fs dest ?c)) = iter_at fs dest q"
      using c by (simp add: next_iter_at)
    have step: "iter_search P p (iter_at fs dest ?c) =
      (if q = p then Some (False, iter_at fs dest p) else iter_search P p (iter_at fs dest q))"
    proof -
      have "\<not> P (cur (iter_at fs dest ?c))"
        using False by (simp add: cur_iter_at [OF c])
      then show ?thesis
        by (subst iter_search.simps)
          (simp only: if_False nxt Let_def iter_at_simps(2) [OF q], cases "q = p", simp_all)
    qed
    have nomatch: "\<not> P (field_at fs ((p + j) mod ?n))" if "j < Suc k" for j
      using that False Suc.prems(2) by (auto simp: less_Suc_eq)
    show ?thesis
    proof (cases "Suc k < ?n")
      case True
      have "q \<noteq> p"
      proof (cases "p + Suc k < ?n")
        case True
        then show ?thesis by (simp add: q_def)
      next
        case False
        then have "q = p + Suc k - ?n"
          using assms(1) \<open>Suc k < ?n\<close> by (simp add: q_def mod_if)
        with False \<open>Suc k < ?n\<close> show ?thesis by simp
      qed
      moreover have "?n - Suc k < ?n - k" "d = ?n - Suc k" using Suc.hyps(2) True by simp_all
      ultimately show ?thesis using step Suc.hyps(1) [OF _ True nomatch] by (simp only: q_def if_False)
    next
      case False
      with Suc.prems(1) have k: "Suc k = ?n" by simp
      have "\<not> P (field_at fs i)" if "i < ?n" for i
      proof -
        have "(p + (i + ?n - p) mod ?n) mod ?n = (p + (i + ?n - p)) mod ?n" by (rule mod_add_right_eq)
        also have "p + (i + ?n - p) = i + ?n" using that assms(1) by linarith
        also have "(i + ?n) mod ?n = i" using that by simp
        finally have "i = (p + (i + ?n - p) mod ?n) mod ?n" by (rule sym)
        moreover have "(i + ?n - p) mod ?n < Suc k" using that k by simp
        ultimately show ?thesis using nomatch by metis
      qed
      moreover have "q = p" using k assms(1) by (simp add: q_def)
      ultimately show ?thesis using step by simp
    qed
  qed
qed

lemma iter_search_from:
  assumes "p < n_fields fs"
  shows "(\<exists>i < n_fields fs. P (field_at fs i) \<and>
       iter_search P p (iter_at fs dest p) = Some (True, iter_at fs dest i)) \<or>
    (\<forall>i < n_fields fs. \<not> P (field_at fs i)) \<and>
       iter_search P p (iter_at fs dest p) = Some (False, iter_at fs dest p)"
  using iter_search_result [OF assms, of 0 P dest] assms by simp

lemma pb_field_iter_find_result:
  assumes "p < n_fields fs"
  shows "(\<exists>i < n_fields fs. field_has_tag t (field_at fs i) \<and>
       pb_field_iter_find (iter_at fs dest p) t = Some (True, iter_at fs dest i)) \<or>
    (\<forall>i < n_fields fs. \<not> field_has_tag t (field_at fs i)) \<and>
       pb_field_iter_find (iter_at fs dest p) t = Some (False, iter_at fs dest p)"
  using iter_search_from [OF assms, of "field_has_tag t" dest]
  by (simp add: pb_field_iter_find_def iter_at_simps [OF assms])

end
