(* ===== verification/Pb_Stream_Props.thy ===== *)
theory Pb_Stream_Props
  imports Pb_Wire Pb_Types
begin

text \<open>
  The properties of nanopb's streams, wire format and field iterator, from the contracts of
  \<open>Pb_Reader\<close>, \<open>Pb_Ostream\<close> and \<open>Pb_Wire\<close> and their interpretations on the operations of
  \<open>pb_decode.c\<close> and \<open>pb_encode.c\<close>.
\<close>

interpretation skip_field: buffer_reader "pb_skip_field E wire_type" for E wire_type
  by (rule reader_pb_skip_field)

interpretation raw_value: buffer_reader "read_raw_value E wire_type max_len" for E wire_type max_len
  by (rule reader_read_raw_value)

interpretation varint_in: buffer_reader "pb_decode_varint E" for E
  by (rule reader_pb_decode_varint)

interpretation varint_out: pure_writer "pb_encode_varint W v" "varint_bytes (unat v)" for W v
  by (rule writer_pb_encode_varint)

text \<open>Streams without user callbacks, for concrete runs.\<close>

abbreviation (input) no_reads :: read_env where "no_reads \<equiv> \<lambda>_ _ _. None"
abbreviation (input) no_writes :: write_env where "no_writes \<equiv> \<lambda>_ _ _. None"

section \<open>Properties\<close>

text \<open>C6: a varint that \<open>pb_encode_varint\<close> writes to a buffer with room for it is read back by
  \<open>pb_decode_varint\<close> from the bytes written, all of which are used up.\<close>
theorem varint_roundtrip:
  assumes "length (varint_bytes (unat v)) \<le> unat n" and "unat n \<le> length buf"
  shows "\<exists>os s'. pb_encode_varint W v (pb_ostream_from_buffer buf n) = Some (Some (), os) \<and>
    length (odone os) \<le> 10 \<and> bytes_written os = of_nat (length (odone os)) \<and>
    pb_decode_varint E (pb_istream_from_buffer (odone os) (bytes_written os)) = Some (Some v, s') \<and>
    bytes_left s' = 0"
  using varint.write_then_read [OF assms, of W E] length_varint_bytes_64 [of v] by auto

lemma varint_roundtrip_witness:
  "\<exists>os s'. pb_encode_varint no_writes 300 (pb_ostream_from_buffer (replicate 10 0) 10) = Some (Some (), os) \<and>
    length (odone os) \<le> 10 \<and> bytes_written os = of_nat (length (odone os)) \<and>
    pb_decode_varint no_reads (pb_istream_from_buffer (odone os) (bytes_written os)) = Some (Some 300, s') \<and>
    bytes_left s' = 0"
  by (rule varint_roundtrip) (use length_varint_bytes_64 [of 300] in simp_all)


text \<open>Signed numbers, which \<open>pb_encode_svarint\<close> writes in zigzag form.\<close>
theorem svarint_roundtrip:
  assumes "10 \<le> unat n" and "unat n \<le> length buf"
  shows "\<exists>os s'. pb_encode_svarint W v (pb_ostream_from_buffer buf n) = Some (Some (), os) \<and>
    pb_decode_svarint E (pb_istream_from_buffer (odone os) (bytes_written os)) = Some (Some v, s') \<and>
    bytes_left s' = 0"
proof -
  let ?z = "if sint v < 0 then NOT (push_bit 1 v) else push_bit 1 v"
  have "length (varint_bytes (unat ?z)) \<le> unat n"
    using length_varint_bytes_64 [of ?z] assms(1) by linarith
  from svarint.write_then_read [OF this assms(2), of W E] show ?thesis by auto
qed

lemma svarint_roundtrip_witness:
  "\<exists>os s'. pb_encode_svarint no_writes (-3) (pb_ostream_from_buffer (replicate 10 0) 10) = Some (Some (), os) \<and>
    pb_decode_svarint no_reads (pb_istream_from_buffer (odone os) (bytes_written os)) = Some (Some (-3), s') \<and>
    bytes_left s' = 0"
  by (rule svarint_roundtrip) simp_all

text \<open>Fixed-width numbers are written in little-endian order and read back unchanged.\<close>
theorem fixed_roundtrip:
  assumes "8 \<le> unat n" and "unat n \<le> length buf"
  shows "(\<exists>os s'. pb_encode_fixed32 W v (pb_ostream_from_buffer buf n) = Some (Some (), os) \<and>
      odone os = le_bytes 4 (unat v) \<and>
      pb_decode_fixed32 E (pb_istream_from_buffer (odone os) (bytes_written os)) = Some (Some v, s') \<and>
      bytes_left s' = 0) \<and>
    (\<exists>os s'. pb_encode_fixed64 W w (pb_ostream_from_buffer buf n) = Some (Some (), os) \<and>
      odone os = le_bytes 8 (unat w) \<and>
      pb_decode_fixed64 E (pb_istream_from_buffer (odone os) (bytes_written os)) = Some (Some w, s') \<and>
      bytes_left s' = 0)"
  using fixed32.write_then_read [of v n buf W E] fixed64.write_then_read [of w n buf W E] assms by auto

lemma fixed_roundtrip_witness:
  "\<exists>os s'. pb_encode_fixed32 no_writes 258 (pb_ostream_from_buffer (replicate 8 0) 8) = Some (Some (), os) \<and>
      odone os = le_bytes 4 (unat (258 :: u32)) \<and>
      pb_decode_fixed32 no_reads (pb_istream_from_buffer (odone os) (bytes_written os)) = Some (Some 258, s') \<and>
      bytes_left s' = 0"
  using fixed_roundtrip [of 8 "replicate 8 0" no_writes 258 no_reads] by simp

text \<open>A field's tag is read back as the wire type and the field number it was written with,
  and the bytes after it are left on the stream.\<close>
theorem tag_roundtrip:
  assumes "0 < unat fn" and "unat fn < 2 ^ 29" and "unat wt < 8" and "10 \<le> unat n" and "unat n \<le> length buf"
    and "length rest < 2 ^ 63"
  shows "\<exists>os s'. pb_encode_tag W wt fn (pb_ostream_from_buffer buf n) = Some (Some (), os) \<and>
    pb_decode_tag E (pb_istream_from_buffer (odone os @ rest) (of_nat (length (odone os @ rest)))) = Some (Tag wt fn, s') \<and>
    istate s' = rest \<and> unat (bytes_left s') = length rest"
proof -
  let ?bs = "varint_bytes (8 * unat fn + unat wt)" and ?o = "pb_ostream_from_buffer buf n"
  have "8 * unat fn + unat wt < 2 ^ 63" using assms(2,3) by simp
  then have len: "length ?bs \<le> 10" using length_varint_bytes_le [of "8 * unat fn + unat wt" 9] by simp
  then have "out_buffer ?o" "fits (length ?bs) ?o"
    using assms(4,5) by (auto simp: out_buffer_def fits_def pb_ostream_from_buffer_def)
  then have w: "pb_encode_tag W wt fn ?o = Some (Some (), put ?bs ?o)"
    by (rule pure_writer.writes [OF writer_pb_encode_tag [OF assms(2,3)]])
  let ?k = "length ?bs + length rest"
  let ?s = "pb_istream_from_buffer (?bs @ rest) (of_nat ?k)"
  have k: "unat (of_nat ?k :: u64) = ?k"
    using len assms(6) by (simp add: unsigned_of_nat take_bit_nat_eq_self del: of_nat_add)
  then have s: "buf_stream ?s" "avail ?s = ?bs @ rest"
    by (simp_all add: buf_stream_from_buffer avail_from_buffer)
  have "pb_decode_tag E ?s = Some (Tag wt fn, advance (length ?bs) ?s)"
    using s assms(1-3) by (rule pb_decode_tag_encoded)
  moreover have "unat (bytes_left (advance (length ?bs) ?s)) = length rest"
    using k by (simp add: advance_def pb_istream_from_buffer_def unat_bytes_left_minus del: of_nat_add)
  moreover have "istate (advance (length ?bs) ?s) = rest" by (simp add: advance_def pb_istream_from_buffer_def)
  ultimately show ?thesis
    using w by (simp add: put_def pb_ostream_from_buffer_def del: of_nat_add)
qed

lemma tag_roundtrip_witness:
  "\<exists>os s'. pb_encode_tag no_writes 2 1000 (pb_ostream_from_buffer (replicate 10 0) 10) = Some (Some (), os) \<and>
    pb_decode_tag no_reads (pb_istream_from_buffer (odone os @ [7]) (of_nat (length (odone os @ [7])))) = Some (Tag 2 1000, s') \<and>
    istate s' = [7] \<and> unat (bytes_left s') = length [7 :: byte]"
  by (rule tag_roundtrip) simp_all

text \<open>C7: malformed varints are errors: ten continuation bytes are ``varint overflow'', and fewer
  at the end of the stream are ``end-of-stream''; in both cases exactly those bytes are used up.\<close>
theorem varint_errors:
  assumes "buf_stream s" and "\<And>b. b \<in> set bs \<Longrightarrow> 128 \<le> unat b" and "ierrmsg s = None"
    and "avail s = bs @ rest" and "length bs \<le> 10" and "length bs < 10 \<Longrightarrow> rest = []"
  shows "pb_decode_varint E s = Some (None, (advance (length bs) s)\<lparr>ierrmsg :=
    Some (if length bs = 10 then ''varint overflow'' else ''end-of-stream'')\<rparr>)"
  using varint_loop_overflow [of bs s rest 0 E 0] varint_loop_truncated [of bs s 0 E 0] assms
  by (cases "length bs = 10") (simp_all add: pb_decode_varint_def pb_set_error_def advance_def)

lemma varint_errors_witness:
  "pb_decode_varint no_reads (pb_istream_from_buffer (replicate 10 255 @ [1]) 11) =
     Some (None, (advance 10 (pb_istream_from_buffer (replicate 10 255 @ [1]) 11))\<lparr>ierrmsg := Some ''varint overflow''\<rparr>)"
  using varint_errors [of "pb_istream_from_buffer (replicate 10 255 @ [1]) 11" "replicate 10 255" "[1]" no_reads]
  by (simp add: buf_stream_from_buffer avail_from_buffer pb_istream_from_buffer_def buf_stream_def avail_def)

text \<open>\<open>pb_decode_varint32\<close> reads varints of up to five bytes; the bits of the value from 32 on
  are dropped without an error.\<close>
theorem varint32_value:
  assumes "is_varint bs" and "length bs \<le> 5" and "buf_stream s" and "avail s = bs @ rest"
  shows "\<exists>v. pb_decode_varint32 E s = Some (Some v, advance (length bs) s) \<and> unat v = varint_val bs mod 2 ^ 32"
  using pb_decode_varint32_value [OF assms] by (simp add: unsigned_of_nat take_bit_eq_mod)

lemma varint32_value_witness:
  "\<exists>v. pb_decode_varint32 no_reads (pb_istream_from_buffer [0x81, 0x80, 0x80, 0x80, 0x10] 5) =
     Some (Some v, advance (length [0x81 :: byte, 0x80, 0x80, 0x80, 0x10]) (pb_istream_from_buffer [0x81, 0x80, 0x80, 0x80, 0x10] 5)) \<and>
     unat v = varint_val [0x81 :: byte, 0x80, 0x80, 0x80, 0x10] mod 2 ^ 32"
  by (rule varint32_value [where rest = "[]"])
    (simp_all add: buf_stream_from_buffer avail_from_buffer is_varint_Cons)


text \<open>C8: \<open>pb_skip_field\<close> skips exactly the value that follows a tag of its wire type: a varint of
  any length, eight or four bytes, or a length and as many bytes; any other wire type is an error
  that leaves the stream where it was.\<close>
theorem skip_field_exact:
  assumes "buf_stream s"
  shows "(wire_value wt bs \<longrightarrow> avail s = bs @ rest \<longrightarrow>
      pb_skip_field E wt s = Some (Some (), advance (length bs) s)) \<and>
    (wt \<notin> {PB_WT_VARINT, PB_WT_64BIT, PB_WT_STRING, PB_WT_32BIT} \<longrightarrow>
      pb_skip_field E wt s = Some (None, pb_set_error ''invalid wire_type'' s))"
  using pb_skip_field_value [OF _ assms, of wt bs rest E]
  by (auto simp: pb_skip_field_def pb_return_error_def)

lemma skip_field_exact_witness:
  "pb_skip_field no_reads PB_WT_STRING (pb_istream_from_buffer [2, 65, 66, 9] 4) =
    Some (Some (), advance 3 (pb_istream_from_buffer [2, 65, 66, 9] 4))"
proof -
  have "wire_value PB_WT_STRING [2, 65, 66]"
    unfolding wire_value_def
    by (rule disjI2, rule disjI2, rule disjI2, rule conjI [OF refl], rule exI [of _ "[2]"], rule exI [of _ "[65, 66]"]) simp
  with skip_field_exact [of "pb_istream_from_buffer [2, 65, 66, 9] 4" PB_WT_STRING "[2, 65, 66]" "[9]" no_reads]
  show ?thesis by (simp add: buf_stream_from_buffer avail_from_buffer numeral_3_eq_3)
qed

text \<open>C9: whatever the input, skipping a field returns (the loop over continuation bytes ends), and
  all it does to a buffer stream is to consume some of the bytes it may deliver.\<close>
theorem skip_field_total:
  assumes "buf_stream s"
  shows "\<exists>r s'. pb_skip_field E wire_type s = Some (r, s') \<and> buf_stream s' \<and>
    (\<exists>k \<le> unat (bytes_left s). istate s' = drop k (istate s) \<and> unat (bytes_left s') = unat (bytes_left s) - k)"
  using skip_field.result [OF assms, of E wire_type] by (auto simp: consumed_def)

lemma skip_field_total_witness:
  "\<exists>r s'. pb_skip_field no_reads 0 (pb_istream_from_buffer [200, 200] 2) = Some (r, s') \<and> buf_stream s' \<and>
    (\<exists>k \<le> unat (bytes_left (pb_istream_from_buffer [200, 200] 2)).
      istate s' = drop k (istate (pb_istream_from_buffer [200, 200] 2)) \<and>
      unat (bytes_left s') = unat (bytes_left (pb_istream_from_buffer [200, 200] 2)) - k)"
  by (rule skip_field_total) (simp add: buf_stream_from_buffer)

text \<open>C5: \<open>pb_field_iter_find\<close> returns wherever it starts in the message; it finds a field with the
  tag that is no extension field if there is one, and otherwise says so and is back where it
  started.\<close>
theorem iter_find_correct:
  assumes "p < n_fields fs"
  shows "\<exists>found i. pb_field_iter_find (iter_at fs dest p) t = Some (found, iter_at fs dest i) \<and> i < n_fields fs \<and>
    (found \<longleftrightarrow> (\<exists>j < n_fields fs. field_has_tag t (field_at fs j))) \<and>
    (if found then field_has_tag t (cur (iter_at fs dest i)) else i = p)"
  using pb_field_iter_find_result [OF assms, of t dest]
proof
  assume "\<exists>i < n_fields fs. field_has_tag t (field_at fs i) \<and>
    pb_field_iter_find (iter_at fs dest p) t = Some (True, iter_at fs dest i)"
  then obtain i where "i < n_fields fs" "field_has_tag t (field_at fs i)"
    "pb_field_iter_find (iter_at fs dest p) t = Some (True, iter_at fs dest i)" by blast
  then show ?thesis by (intro exI [of _ True] exI [of _ i]) (auto simp: cur_iter_at)
next
  assume "(\<forall>i < n_fields fs. \<not> field_has_tag t (field_at fs i)) \<and>
    pb_field_iter_find (iter_at fs dest p) t = Some (False, iter_at fs dest p)"
  with assms show ?thesis by (intro exI [of _ False] exI [of _ p]) simp
qed

lemma iter_find_correct_witness:
  "\<exists>found i. pb_field_iter_find (iter_at [Pb_Field 1 0 0 0 4 0 Ptr_null, Pb_Field 2 0 0 0 4 0 Ptr_null] 0 1) 1 =
      Some (found, iter_at [Pb_Field 1 0 0 0 4 0 Ptr_null, Pb_Field 2 0 0 0 4 0 Ptr_null] 0 i) \<and>
    i < n_fields [Pb_Field 1 0 0 0 4 0 Ptr_null, Pb_Field 2 0 0 0 4 0 Ptr_null] \<and>
    (found \<longleftrightarrow> (\<exists>j < n_fields [Pb_Field 1 0 0 0 4 0 Ptr_null, Pb_Field 2 0 0 0 4 0 Ptr_null].
      field_has_tag 1 (field_at [Pb_Field 1 0 0 0 4 0 Ptr_null, Pb_Field 2 0 0 0 4 0 Ptr_null] j))) \<and>
    (if found then field_has_tag 1 (cur (iter_at [Pb_Field 1 0 0 0 4 0 Ptr_null, Pb_Field 2 0 0 0 4 0 Ptr_null] 0 i)) else i = 1)"
  by (rule iter_find_correct) (simp add: n_fields_def)

text \<open>C10: \<open>pb_encode_string\<close> writes the length and the bytes, or fails with ``stream full'' having
  written only an initial part of them, never more than the buffer's size; a sizing stream counts
  the same number.\<close>
theorem encode_string_bounds:
  assumes "length bs < 2 ^ 63" and "unat n \<le> length buf"
  shows "(\<exists>os. pb_encode_string W (Some bs) (of_nat (length bs)) PB_OSTREAM_SIZING = Some (Some (), os) \<and>
      bytes_written os = of_nat (length (varint_bytes (length bs) @ bs))) \<and>
    (\<exists>r os. pb_encode_string W (Some bs) (of_nat (length bs)) (pb_ostream_from_buffer buf n) = Some (r, os) \<and>
      length (odone os) \<le> unat n \<and> oroom os = drop (length (odone os)) buf \<and>
      (if length (varint_bytes (length bs) @ bs) \<le> unat n
       then r = Some () \<and> odone os = varint_bytes (length bs) @ bs
       else r = None \<and> oerrmsg os = Some ''stream full'' \<and>
         odone os = take (length (odone os)) (varint_bytes (length bs) @ bs)))"
proof -
  let ?f = "pb_encode_string W (Some bs) (of_nat (length bs))" and ?bs = "varint_bytes (length bs) @ bs"
  have w: "pure_writer ?f ?bs" using assms(1) by (intro writer_pb_encode_string) simp
  have len: "length ?bs < 2 ^ 64"
    using length_varint_bytes_le [of "length bs" 9] assms(1) by simp
  show ?thesis
    using pure_writer_sizing [OF w] pure_writer_buffer [OF w len assms(2)] by blast
qed

lemma encode_string_bounds_witness:
  "(\<exists>os. pb_encode_string no_writes (Some [65, 66]) (of_nat (length [65 :: byte, 66])) PB_OSTREAM_SIZING = Some (Some (), os) \<and>
      bytes_written os = of_nat (length (varint_bytes (length [65 :: byte, 66]) @ [65 :: byte, 66]))) \<and>
    (\<exists>r os. pb_encode_string no_writes (Some [65, 66]) (of_nat (length [65 :: byte, 66])) (pb_ostream_from_buffer [0, 0] 2) = Some (r, os) \<and>
      length (odone os) \<le> unat (2 :: u64) \<and> oroom os = drop (length (odone os)) [0, 0] \<and>
      (if length (varint_bytes (length [65 :: byte, 66]) @ [65 :: byte, 66]) \<le> unat (2 :: u64)
       then r = Some () \<and> odone os = varint_bytes (length [65 :: byte, 66]) @ [65, 66]
       else r = None \<and> oerrmsg os = Some ''stream full'' \<and>
         odone os = take (length (odone os)) (varint_bytes (length [65 :: byte, 66]) @ [65, 66])))"
  by (rule encode_string_bounds) simp_all

end
