(* ===== verification/Pb_Memory.thy ===== *)
theory Pb_Memory
  imports Prelude Pb_Types
begin

text \<open>
  The memory in which message structs live: a partial map from addresses to bytes. Reading or
  writing an address outside the map is an access to memory the program does not own, and has no
  defined result.
\<close>

type_synonym mem = "int \<Rightarrow> byte option"

fun load_bytes :: "mem \<Rightarrow> int \<Rightarrow> nat \<Rightarrow> byte list option" where
  "load_bytes m a 0 = Some []"
| "load_bytes m a (Suc n) =
     (case m a of None \<Rightarrow> None | Some b \<Rightarrow> map_option (\<lambda>bs. b # bs) (load_bytes m (a + 1) n))"

fun store_bytes :: "mem \<Rightarrow> int \<Rightarrow> byte list \<Rightarrow> mem option" where
  "store_bytes m a [] = Some m"
| "store_bytes m a (b # bs) = (if m a = None then None else store_bytes (m(a \<mapsto> b)) (a + 1) bs)"

text \<open>Loads and stores as actions on the memory.\<close>

definition load :: "int \<Rightarrow> nat \<Rightarrow> (mem, byte list) act" where
  "load a n = (\<lambda>m. case load_bytes m a n of None \<Rightarrow> None | Some bs \<Rightarrow> Some (Some bs, m))"

definition store :: "int \<Rightarrow> byte list \<Rightarrow> (mem, unit) act" where
  "store a bs = (\<lambda>m. case store_bytes m a bs of None \<Rightarrow> None | Some m' \<Rightarrow> Some (Some (), m'))"

text \<open>A region the program owns, and memories that differ only inside a region.\<close>

definition owned :: "mem \<Rightarrow> int \<Rightarrow> nat \<Rightarrow> bool" where
  "owned m a n \<longleftrightarrow> (\<forall>x. a \<le> x \<and> x < a + int n \<longrightarrow> m x \<noteq> None)"

definition same_outside :: "int \<Rightarrow> nat \<Rightarrow> mem \<Rightarrow> mem \<Rightarrow> bool" where
  "same_outside a n m m' \<longleftrightarrow> dom m' = dom m \<and> (\<forall>x. x < a \<or> a + int n \<le> x \<longrightarrow> m' x = m x)"

lemma same_outside_refl [simp]: "same_outside a n m m"
  by (simp add: same_outside_def)

lemma same_outside_trans: "same_outside a n m m' \<Longrightarrow> same_outside a n m' m'' \<Longrightarrow> same_outside a n m m''"
  by (simp add: same_outside_def)

lemma same_outside_mono:
  "same_outside a n m m' \<Longrightarrow> b \<le> a \<Longrightarrow> a + int n \<le> b + int k \<Longrightarrow> same_outside b k m m'"
  by (auto simp: same_outside_def)

lemma same_outside_owned: "same_outside a n m m' \<Longrightarrow> owned m b k \<Longrightarrow> owned m' b k"
  unfolding same_outside_def owned_def by (metis domIff)

lemma owned_sub: "owned m a n \<Longrightarrow> a \<le> b \<Longrightarrow> b + int k \<le> a + int n \<Longrightarrow> owned m b k"
  by (auto simp: owned_def)

lemma load_bytes_owned: "owned m a n \<Longrightarrow> \<exists>bs. load_bytes m a n = Some bs \<and> length bs = n"
proof (induction n arbitrary: a)
  case (Suc n)
  from Suc.prems have "owned m (a + 1) n" by (auto simp: owned_def)
  with Suc.IH obtain bs where "load_bytes m (a + 1) n = Some bs" "length bs = n" by blast
  moreover from Suc.prems obtain b where "m a = Some b" by (auto simp: owned_def)
  ultimately show ?case by auto
qed simp

lemma load_bytes_length: "load_bytes m a n = Some bs \<Longrightarrow> length bs = n"
  by (induction n arbitrary: a bs) (auto split: option.splits)

lemma store_bytes_owned:
  "owned m a (length bs) \<Longrightarrow> \<exists>m'. store_bytes m a bs = Some m' \<and> same_outside a (length bs) m m'"
proof (induction bs arbitrary: m a)
  case (Cons b bs)
  from Cons.prems have a: "m a \<noteq> None" by (auto simp: owned_def)
  from Cons.prems have "owned (m(a \<mapsto> b)) (a + 1) (length bs)" by (auto simp: owned_def)
  with Cons.IH obtain m' where m': "store_bytes (m(a \<mapsto> b)) (a + 1) bs = Some m'"
    "same_outside (a + 1) (length bs) (m(a \<mapsto> b)) m'" by blast
  have "same_outside a (length (b # bs)) m m'"
    using m'(2) a by (auto simp: same_outside_def)
  with a m'(1) show ?case by auto
qed simp

lemma store_bytes_lookup:
  "store_bytes m a bs = Some m' \<Longrightarrow>
   m' x = (if a \<le> x \<and> x < a + int (length bs) then Some (bs ! nat (x - a)) else m x)"
proof (induction bs arbitrary: m a)
  case (Cons b bs)
  then have "store_bytes (m(a \<mapsto> b)) (a + 1) bs = Some m'" by (auto split: if_splits)
  note IH = Cons.IH [OF this]
  have "nat (x - a) - Suc 0 = nat (x - (a + 1))" by linarith
  with IH show ?case by (auto simp: nth_Cons')
qed auto

lemma load_bytes_agree:
  "(\<And>x. a \<le> x \<Longrightarrow> x < a + int n \<Longrightarrow> m' x = m x) \<Longrightarrow> load_bytes m' a n = load_bytes m a n"
  by (induction n arbitrary: a) (auto split: option.splits)

lemma load_bytes_iff:
  "load_bytes m a n = Some bs \<longleftrightarrow> length bs = n \<and> (\<forall>i < n. m (a + int i) = Some (bs ! i))"
proof (induction n arbitrary: a bs)
  case (Suc n)
  show ?case
  proof (cases bs)
    case Nil
    then show ?thesis by (auto split: option.splits)
  next
    case (Cons b bs')
    have "(\<forall>i < Suc n. m (a + int i) = Some ((b # bs') ! i)) \<longleftrightarrow>
      m a = Some b \<and> (\<forall>i < n. m (a + 1 + int i) = Some (bs' ! i))"
      by (auto simp: less_Suc_eq_0_disj algebra_simps)
    with Cons Suc.IH [of "a + 1" bs'] show ?thesis
      by (auto split: option.splits)
  qed
qed auto

lemma load_after_store:
  assumes "store_bytes m a bs = Some m'"
  shows "load_bytes m' a (length bs) = Some bs"
  by (simp add: load_bytes_iff store_bytes_lookup [OF assms])

lemma load_other_store:
  assumes "store_bytes m a bs = Some m'" and "b + int n \<le> a \<or> a + int (length bs) \<le> b"
  shows "load_bytes m' b n = load_bytes m b n"
  by (rule load_bytes_agree) (use assms(2) in \<open>auto simp: store_bytes_lookup [OF assms(1)]\<close>)

text \<open>
  When a descriptor array describes a struct: every field lies inside the struct, its type is one
  the tables of decoders and encoders know, and submessages are laid out in turn. This is what
  the generated \<open>.pb.c\<close> files promise to the library; \<open>layout_ok d fs n\<close> says it for a struct of
  \<open>n\<close> bytes and messages nested at most \<open>d\<close> deep. It asks for more than the places of the fields:
  pointer fields (not supported without malloc) and extension fields are outside of it, and so are
  messages with 64 or more required fields or with exactly 32, which the generator does not
  exclude and for which \<open>pb_decode\<close> is not safe.
\<close>

section \<open>Addresses relative to the struct\<close>

definition data_offset_at :: "pb_field list \<Rightarrow> nat \<Rightarrow> int" where
  "data_offset_at fs i = pData (iter_at fs 0 i)"

definition size_offset_at :: "pb_field list \<Rightarrow> nat \<Rightarrow> int" where
  "size_offset_at fs i = pSize (iter_at fs 0 i)"

lemma iter_at_relative:
  assumes "i < n_fields fs"
  shows "iter_at fs dest i = (iter_at fs 0 i)\<lparr>dest_struct := dest,
    pData := dest + pData (iter_at fs 0 i), pSize := dest + pSize (iter_at fs 0 i)\<rparr>"
  using assms
proof (induction i)
  case 0
  then show ?case by (simp add: pb_field_iter_begin_def Let_def)
next
  case (Suc i)
  then have i: "i < n_fields fs" by simp
  note IH = Suc.IH [OF i]
  have "tag (field_at fs i) \<noteq> 0" "tag (field_at fs (Suc i)) \<noteq> 0"
    using Suc.prems tag_below_n_fields by simp_all
  then show ?case
    by (simp only: iter_at.simps(2) [of fs dest i] IH)
      (simp add: iter_at.simps(2) pb_field_iter_next_def Let_def cur_def iter_at_simps [OF i] algebra_simps)
qed

lemma pData_at: "i < n_fields fs \<Longrightarrow> pData (iter_at fs dest i) = dest + data_offset_at fs i"
  by (subst iter_at_relative) (simp_all add: data_offset_at_def)

lemma pSize_at: "i < n_fields fs \<Longrightarrow> pSize (iter_at fs dest i) = dest + size_offset_at fs i"
  by (subst iter_at_relative) (simp_all add: size_offset_at_def)

section \<open>Well-formed descriptors\<close>

definition inside :: "int \<Rightarrow> nat \<Rightarrow> nat \<Rightarrow> bool" where
  "inside a k n \<longleftrightarrow> 0 \<le> a \<and> a + int k \<le> int n"

lemma inside_nat: "inside (int i) k n \<longleftrightarrow> i + k \<le> n"
  by (auto simp: inside_def)

lemma inside_simps [simp]: "inside 0 k n \<longleftrightarrow> k \<le> n" "inside (numeral i) k n \<longleftrightarrow> numeral i + k \<le> n"
  using inside_nat [of 0 k n] inside_nat [of "numeral i" k n] by simp_all

text \<open>What the entry of the decoder and encoder tables for the type needs of one item.\<close>

definition item_ok :: "(pb_field list \<Rightarrow> nat \<Rightarrow> bool) \<Rightarrow> pb_field \<Rightarrow> bool" where
  "item_ok L f \<longleftrightarrow>
     (if ltype f = PB_LTYPE_SUBMESSAGE
      then (case field_ptr f of Ptr_submsg fs \<Rightarrow> L fs (unat (data_size f)) | _ \<Rightarrow> False)
      else (case field_ptr f of Ptr_null \<Rightarrow> True | Ptr_default bs \<Rightarrow> unat (data_size f) \<le> length bs
              | Ptr_submsg _ \<Rightarrow> False) \<and>
        (ltype f = PB_LTYPE_VARINT \<or> ltype f = PB_LTYPE_UVARINT \<or> ltype f = PB_LTYPE_SVARINT \<or>
         ltype f = PB_LTYPE_FIXED32 \<and> data_size f = 4 \<or> ltype f = PB_LTYPE_FIXED64 \<and> data_size f = 8 \<or>
         ltype f = PB_LTYPE_BYTES \<and> 4 \<le> data_size f \<or> ltype f = PB_LTYPE_STRING \<and> 0 < data_size f \<or>
         ltype f = PB_LTYPE_FIXED_LENGTH_BYTES))"

definition field_ok :: "(pb_field list \<Rightarrow> nat \<Rightarrow> bool) \<Rightarrow> nat \<Rightarrow> pb_field \<Rightarrow> int \<Rightarrow> int \<Rightarrow> bool" where
  "field_ok L n f pd ps \<longleftrightarrow> ltype f \<noteq> PB_LTYPE_EXTENSION \<and> ps = pd + sint (size_offset f) \<and>
     (atype f = PB_ATYPE_CALLBACK \<and> inside pd 16 n \<or>
      atype f = PB_ATYPE_STATIC \<and> item_ok L f \<and>
        (if htype f = PB_HTYPE_REPEATED
         then inside pd (unat (data_size f) * unat (array_size f)) n \<and>
           unat (data_size f) * unat (array_size f) < 2 ^ 32 \<and> inside ps 4 n \<and> size_offset f \<noteq> 0
         else inside pd (unat (data_size f)) n \<and>
           (if htype f = PB_HTYPE_OPTIONAL then ps \<noteq> pd \<longrightarrow> inside ps 1 n
            else if htype f = PB_HTYPE_ONEOF then inside ps 4 n \<and> size_offset f \<noteq> 0 else True)))"

definition n_required :: "pb_field list \<Rightarrow> nat" where
  "n_required fs = length (filter (\<lambda>f. htype f = PB_HTYPE_REQUIRED) (take (n_fields fs) fs))"

text \<open>
  The last conjunct of a message keeps the check for required fields away from the two cases
  where it has no defined result.
\<close>

fun layout_ok :: "nat \<Rightarrow> pb_field list \<Rightarrow> nat \<Rightarrow> bool" where
  "layout_ok 0 fs n \<longleftrightarrow> False"
| "layout_ok (Suc d) fs n \<longleftrightarrow>
     (\<forall>i < n_fields fs. field_ok (layout_ok d) n (field_at fs i) (data_offset_at fs i) (size_offset_at fs i)) \<and>
     field_at fs (n_fields fs) = PB_LAST_FIELD \<and> n_required fs < 64 \<and> n_required fs \<noteq> 32"

lemma layout_okD:
  "layout_ok (Suc d) fs n \<Longrightarrow> i < n_fields fs \<Longrightarrow>
   field_ok (layout_ok d) n (field_at fs i) (data_offset_at fs i) (size_offset_at fs i)"
  by simp

lemma inside_owned:
  "inside a k n \<Longrightarrow> owned m b n \<Longrightarrow> owned m (b + a) k"
  by (auto simp: inside_def intro: owned_sub)

lemma inside_same:
  "inside a k n \<Longrightarrow> same_outside (b + a) k m m' \<Longrightarrow> same_outside b n m m'"
  by (erule same_outside_mono) (auto simp: inside_def)

end
