(* ===== verification/Pb_Extension.thy ===== *)
theory Pb_Extension
  imports Pb_Istream Pb_Ostream Pb_Types Pb_Memory
begin

text \<open>
  The extension types of \<open>pb.h\<close>, which belong to the decoder and the encoder, and the reading of
  the pointers and integers that message structs hold.
\<close>

type_synonym dstate = "pb_istream \<times> mem"
type_synonym 'a dec = "(dstate, 'a) act"

text \<open>
  \<open>pb_extension_type_t\<close>: the user's handlers, or \<open>None\<close> for the default ones, and the descriptor
  the default ones use. A decode handler gets the address of the \<open>pb_extension_t\<close>, the tag and
  the wire type; an encode handler the address of the \<open>pb_extension_t\<close>.
\<close>

record pb_extension_type =
  ext_decode :: "(int \<Rightarrow> u32 \<Rightarrow> u32 \<Rightarrow> unit dec) option"
  ext_encode :: "(int \<Rightarrow> (pb_ostream, unit) act) option"
  ext_arg :: "pb_field list"

type_synonym ext_env = "u64 \<Rightarrow> pb_extension_type option"

definition load_u32 :: "int \<Rightarrow> (mem, u32) act" where
  "load_u32 a = bnd (load a 4) (\<lambda>bs. ret (of_nat (le_val bs)))"

definition load_u64 :: "int \<Rightarrow> (mem, u64) act" where
  "load_u64 a = bnd (load a 8) (\<lambda>bs. ret (of_nat (le_val bs)))"

definition load_ptr :: "int \<Rightarrow> (mem, int) act" where
  "load_ptr a = bnd (load_u64 a) (\<lambda>w. ret (int (unat w)))"

definition store_u32 :: "int \<Rightarrow> u32 \<Rightarrow> (mem, unit) act" where
  "store_u32 a w = store a (le_bytes 4 (unat w))"

definition store_u64 :: "int \<Rightarrow> u64 \<Rightarrow> (mem, unit) act" where
  "store_u64 a w = store a (le_bytes 8 (unat w))"

text \<open>
  \<open>pb_extension_t\<close> has \<open>type\<close> at offset 0, \<open>dest\<close> at 8, \<open>next\<close> at 16 and \<open>found\<close> at 24. A \<open>type\<close>
  pointer that is no extension type is a wild pointer.
\<close>

abbreviation (input) ext_dest_at :: "int \<Rightarrow> int" where "ext_dest_at ext \<equiv> ext + 8"
abbreviation (input) ext_next_at :: "int \<Rightarrow> int" where "ext_next_at ext \<equiv> ext + 16"
abbreviation (input) ext_found_at :: "int \<Rightarrow> int" where "ext_found_at ext \<equiv> ext + 24"

definition load_ext_type :: "ext_env \<Rightarrow> int \<Rightarrow> (mem, pb_extension_type) act" where
  "load_ext_type X ext = bnd (load_u64 ext) (\<lambda>t.
     case X t of None \<Rightarrow> undefined_behaviour | Some et \<Rightarrow> ret et)"

end
