(* ===== verification/Pb_Decode.thy ===== *)
theory Pb_Decode
  imports Pb_Extension
begin

text \<open>
  The message decoder of \<open>pb_decode.c\<close>: default values, decoding one field into the message
  struct, extensions, and the loop over the fields of a message. Actions work on the stream and
  on memory. \<open>depth\<close> bounds the nesting of submessages (and of extension fields when defaults are
  set); running out of it is \<open>None\<close>.
\<close>

section \<open>The environment of a decoder\<close>

text \<open>
  User code is a parameter: read callbacks, field callbacks by the value of their function
  pointer, and extension types by their address. A field callback gets the field and the address
  of its \<open>arg\<close>.
\<close>

record dec_env =
  read_cb :: read_env
  field_cb :: "u64 \<Rightarrow> pb_field \<Rightarrow> int \<Rightarrow> unit dec"
  ext_type :: ext_env

section \<open>Lifting stream and memory actions\<close>

definition on_stream :: "'a rd \<Rightarrow> 'a dec" where
  "on_stream f = (\<lambda>(s, m). case f s of None \<Rightarrow> None | Some (r, s') \<Rightarrow> Some (r, (s', m)))"

definition on_mem :: "(mem, 'a) act \<Rightarrow> 'a dec" where
  "on_mem f = (\<lambda>(s, m). case f m of None \<Rightarrow> None | Some (r, m') \<Rightarrow> Some (r, (s, m')))"

definition derror :: "string \<Rightarrow> 'a dec" where
  "derror msg = on_stream (pb_return_error msg)"

text \<open>\<open>pb_read\<close> into memory: what a failing callback has stored stays there.\<close>

definition read_to_mem :: "dec_env \<Rightarrow> int \<Rightarrow> u64 \<Rightarrow> unit dec" where
  "read_to_mem E a count = (\<lambda>(s, m).
     case pb_read_into (read_cb E) count s of
       None \<Rightarrow> None
     | Some (ok, bs, s') \<Rightarrow>
         (case store_bytes m a bs of
            None \<Rightarrow> None
          | Some m' \<Rightarrow> Some (if ok then Some () else None, (s', m'))))"

text \<open>
  Make a length-limited substream, run \<open>f\<close> on it, then \<open>g\<close> on the parent stream with the
  substream that is left.
\<close>

definition with_substream :: "dec_env \<Rightarrow> 'a dec \<Rightarrow> ('a option \<Rightarrow> pb_istream \<Rightarrow> 'b dec) \<Rightarrow> 'b dec" where
  "with_substream E f g =
     bnd (on_stream (pb_make_string_substream (read_cb E))) (\<lambda>sub. \<lambda>(s, m).
       case f (sub, m) of None \<Rightarrow> None | Some (r, (sub', m')) \<Rightarrow> g r sub' (s, m'))"

definition close_substream :: "dec_env \<Rightarrow> pb_istream \<Rightarrow> unit dec" where
  "close_substream E sub = on_stream (pb_close_string_substream (read_cb E) sub)"

section \<open>Field decoders\<close>

text \<open>Conversions between the integer types: to a narrower one it keeps the low bits.\<close>

definition int32_of :: "u64 \<Rightarrow> u64" where "int32_of v = scast (ucast v :: u32)"
definition int16_of :: "u64 \<Rightarrow> u64" where "int16_of v = scast (ucast v :: u16)"
definition int8_of :: "u64 \<Rightarrow> u64" where "int8_of v = scast (ucast v :: byte)"
definition uint32_of :: "u64 \<Rightarrow> u64" where "uint32_of v = ucast (ucast v :: u32)"
definition uint16_of :: "u64 \<Rightarrow> u64" where "uint16_of v = ucast (ucast v :: u16)"
definition uint8_of :: "u64 \<Rightarrow> u64" where "uint8_of v = ucast (ucast v :: byte)"

text \<open>Store the value in the field's size; \<open>clamped\<close> is what the field then holds.\<close>

definition store_clamped :: "int \<Rightarrow> nat \<Rightarrow> u64 \<Rightarrow> u64 \<Rightarrow> unit dec" where
  "store_clamped dest n clamped value =
     bnd (on_mem (store dest (le_bytes n (unat clamped)))) (\<lambda>_.
       if clamped \<noteq> value then derror ''integer too large'' else ret ())"

definition pb_dec_varint :: "dec_env \<Rightarrow> pb_field \<Rightarrow> int \<Rightarrow> unit dec" where
  "pb_dec_varint E f dest = bnd (on_stream (pb_decode_varint (read_cb E))) (\<lambda>value.
     let svalue = (if data_size f = 8 then value else int32_of value) in
     if data_size f = 8 then store_clamped dest 8 svalue svalue
     else if data_size f = 4 then store_clamped dest 4 (int32_of svalue) svalue
     else if data_size f = 2 then store_clamped dest 2 (int16_of svalue) svalue
     else if data_size f = 1 then store_clamped dest 1 (int8_of svalue) svalue
     else derror ''invalid data_size'')"

definition pb_dec_uvarint :: "dec_env \<Rightarrow> pb_field \<Rightarrow> int \<Rightarrow> unit dec" where
  "pb_dec_uvarint E f dest = bnd (on_stream (pb_decode_varint (read_cb E))) (\<lambda>value.
     if data_size f = 8 then store_clamped dest 8 value value
     else if data_size f = 4 then store_clamped dest 4 (uint32_of value) value
     else if data_size f = 2 then store_clamped dest 2 (uint16_of value) value
     else if data_size f = 1 then store_clamped dest 1 (uint8_of value) value
     else derror ''invalid data_size'')"

definition pb_dec_svarint :: "dec_env \<Rightarrow> pb_field \<Rightarrow> int \<Rightarrow> unit dec" where
  "pb_dec_svarint E f dest = bnd (on_stream (pb_decode_svarint (read_cb E))) (\<lambda>value.
     if data_size f = 8 then store_clamped dest 8 value value
     else if data_size f = 4 then store_clamped dest 4 (int32_of value) value
     else if data_size f = 2 then store_clamped dest 2 (int16_of value) value
     else if data_size f = 1 then store_clamped dest 1 (int8_of value) value
     else derror ''invalid data_size'')"

definition pb_dec_fixed32 :: "dec_env \<Rightarrow> pb_field \<Rightarrow> int \<Rightarrow> unit dec" where
  "pb_dec_fixed32 E f dest =
     bnd (on_stream (pb_decode_fixed32 (read_cb E))) (\<lambda>v. on_mem (store_u32 dest v))"

definition pb_dec_fixed64 :: "dec_env \<Rightarrow> pb_field \<Rightarrow> int \<Rightarrow> unit dec" where
  "pb_dec_fixed64 E f dest =
     bnd (on_stream (pb_decode_fixed64 (read_cb E))) (\<lambda>v. on_mem (store_u64 dest v))"

text \<open>
  \<open>pb_bytes_array_t\<close> has the 4-byte size first and the bytes at offset 4. Without malloc support
  a pointer field is an error.
\<close>

definition pb_dec_bytes :: "dec_env \<Rightarrow> pb_field \<Rightarrow> int \<Rightarrow> unit dec" where
  "pb_dec_bytes E f dest = bnd (on_stream (pb_decode_varint32 (read_cb E))) (\<lambda>size.
     let alloc_size = ucast size + 4 :: u64 in
     if PB_SIZE_MAX < size then derror ''bytes overflow''
     else if alloc_size < ucast size then derror ''size too large''
     else if atype f = PB_ATYPE_POINTER then derror ''no malloc support''
     else if ucast (data_size f) < alloc_size then derror ''bytes overflow''
     else bnd (on_mem (store_u32 dest size)) (\<lambda>_. read_to_mem E (dest + 4) (ucast size)))"

definition pb_dec_string :: "dec_env \<Rightarrow> pb_field \<Rightarrow> int \<Rightarrow> unit dec" where
  "pb_dec_string E f dest = bnd (on_stream (pb_decode_varint32 (read_cb E))) (\<lambda>size.
     let alloc_size = ucast (size + 1) :: u64 in
     if alloc_size < ucast size then derror ''size too large''
     else if atype f = PB_ATYPE_POINTER then derror ''no malloc support''
     else if ucast (data_size f) < alloc_size then derror ''string overflow''
     else bnd (status_of (read_to_mem E dest (ucast size))) (\<lambda>status.
       bnd (on_mem (store (dest + int (unat size)) [0])) (\<lambda>_. return_status status)))"

definition pb_dec_fixed_length_bytes :: "dec_env \<Rightarrow> pb_field \<Rightarrow> int \<Rightarrow> unit dec" where
  "pb_dec_fixed_length_bytes E f dest = bnd (on_stream (pb_decode_varint32 (read_cb E))) (\<lambda>size.
     if PB_SIZE_MAX < size then derror ''bytes overflow''
     else if size = 0 then on_mem (store dest (replicate (unat (data_size f)) 0))
     else if size \<noteq> data_size f then derror ''incorrect fixed length bytes size''
     else read_to_mem E dest (ucast (data_size f)))"

text \<open>
  \<open>D init fs dest\<close> stands for the recursive call: \<open>pb_decode\<close> if \<open>init\<close>, \<open>pb_decode_noinit\<close>
  otherwise. Using the bytes of a default value as a descriptor array is undefined.
\<close>

type_synonym msg_dec = "bool \<Rightarrow> pb_field list \<Rightarrow> int \<Rightarrow> unit dec"

definition pb_dec_submessage :: "msg_dec \<Rightarrow> dec_env \<Rightarrow> pb_field \<Rightarrow> int \<Rightarrow> unit dec" where
  "pb_dec_submessage D E f dest =
     (case field_ptr f of
        Ptr_null \<Rightarrow> bnd (on_stream (pb_make_string_substream (read_cb E)))
          (\<lambda>_. derror ''invalid field descriptor'')
      | Ptr_default _ \<Rightarrow> undefined_behaviour
      | Ptr_submsg submsg_fields \<Rightarrow>
          with_substream E (status_of (D (htype f = PB_HTYPE_REPEATED) submsg_fields dest))
            (\<lambda>status sub. bnd (close_substream E sub) (\<lambda>_. return_status (status = Some True))))"

text \<open>\<open>PB_DECODERS\<close>; calling through the null entry or past the table is undefined.\<close>

definition pb_decoder :: "msg_dec \<Rightarrow> dec_env \<Rightarrow> byte \<Rightarrow> pb_field \<Rightarrow> int \<Rightarrow> unit dec" where
  "pb_decoder D E lt =
     (if lt = PB_LTYPE_VARINT then pb_dec_varint E
      else if lt = PB_LTYPE_UVARINT then pb_dec_uvarint E
      else if lt = PB_LTYPE_SVARINT then pb_dec_svarint E
      else if lt = PB_LTYPE_FIXED32 then pb_dec_fixed32 E
      else if lt = PB_LTYPE_FIXED64 then pb_dec_fixed64 E
      else if lt = PB_LTYPE_BYTES then pb_dec_bytes E
      else if lt = PB_LTYPE_STRING then pb_dec_string E
      else if lt = PB_LTYPE_SUBMESSAGE then pb_dec_submessage D E
      else if lt = PB_LTYPE_FIXED_LENGTH_BYTES then pb_dec_fixed_length_bytes E
      else (\<lambda>_ _. undefined_behaviour))"

section \<open>Decoding a static, callback or pointer field\<close>

text \<open>
  The packed-array loop, on the substream. Its value is the \<open>status\<close> after it. \<open>*size\<close> is
  memory and read again each time; \<open>data_size * (*size)\<close> is a 32-bit product.
\<close>

partial_function (option) packed_loop ::
  "(int \<Rightarrow> unit dec) \<Rightarrow> pb_field_iter \<Rightarrow> dstate \<Rightarrow> (bool option \<times> dstate) option" where
  [code]: "packed_loop func iter sm =
     bnd (on_mem (load_u32 (pSize iter))) (\<lambda>count t.
       if bytes_left (fst t) \<noteq> 0 \<and> count < array_size (cur iter) then
         bnd (status_of (func (pData iter + int (unat (data_size (cur iter) * count))))) (\<lambda>status u.
           if \<not> status then Some (Some False, u)
           else bnd (on_mem (load_u32 (pSize iter))) (\<lambda>count' v.
             bnd (on_mem (store_u32 (pSize iter) (count' + 1))) (\<lambda>_ w. packed_loop func iter w) v) u) t
       else Some (Some True, t)) sm"

definition decode_packed :: "dec_env \<Rightarrow> (int \<Rightarrow> unit dec) \<Rightarrow> pb_field_iter \<Rightarrow> unit dec" where
  "decode_packed E func iter = with_substream E (packed_loop func iter) (\<lambda>status sub.
     if bytes_left sub \<noteq> 0 then derror ''array overflow''
     else bnd (close_substream E sub) (\<lambda>_. return_status (status = Some True)))"

definition decode_repeated :: "(int \<Rightarrow> unit dec) \<Rightarrow> pb_field_iter \<Rightarrow> unit dec" where
  "decode_repeated func iter = bnd (on_mem (load_u32 (pSize iter))) (\<lambda>count.
     if array_size (cur iter) \<le> count then derror ''array overflow''
     else bnd (on_mem (store_u32 (pSize iter) (count + 1))) (\<lambda>_.
       func (pData iter + int (unat (data_size (cur iter) * count)))))"

text \<open>\<open>S\<close> stands for \<open>pb_message_set_to_defaults\<close>.\<close>

type_synonym msg_init = "pb_field list \<Rightarrow> int \<Rightarrow> (mem, unit) act"

definition submsg_defaults :: "msg_init \<Rightarrow> pb_field \<Rightarrow> int \<Rightarrow> (mem, unit) act" where
  "submsg_defaults S f a =
     (case field_ptr f of Ptr_submsg fs \<Rightarrow> S fs a | _ \<Rightarrow> undefined_behaviour)"

definition decode_static_field :: "msg_dec \<Rightarrow> msg_init \<Rightarrow> dec_env \<Rightarrow> u32 \<Rightarrow> pb_field_iter \<Rightarrow> unit dec" where
  "decode_static_field D S E wire_type iter =
     (let f = cur iter; func = pb_decoder D E (ltype f) f in
      if htype f = PB_HTYPE_REQUIRED then func (pData iter)
      else if htype f = PB_HTYPE_OPTIONAL then
        bnd (if pSize iter \<noteq> pData iter then on_mem (store (pSize iter) [1]) else ret ())
          (\<lambda>_. func (pData iter))
      else if htype f = PB_HTYPE_REPEATED then
        (if wire_type = PB_WT_STRING \<and> ltype f \<le> PB_LTYPE_LAST_PACKABLE
         then decode_packed E func iter else decode_repeated func iter)
      else if htype f = PB_HTYPE_ONEOF then
        bnd (on_mem (store_u32 (pSize iter) (tag f))) (\<lambda>_.
          bnd (if ltype f = PB_LTYPE_SUBMESSAGE
               then bnd (on_mem (store (pData iter) (replicate (unat (data_size f)) 0)))
                 (\<lambda>_. on_mem (submsg_defaults S f (pData iter)))
               else ret ())
            (\<lambda>_. func (pData iter)))
      else derror ''invalid field type'')"

definition decode_pointer_field :: "unit dec" where
  "decode_pointer_field = derror ''no malloc support''"

text \<open>
  \<open>pb_callback_t\<close> is a function pointer and, at offset 8, \<open>arg\<close>. The callback is called until
  the substream is empty.
\<close>

partial_function (option) callback_loop ::
  "unit dec \<Rightarrow> dstate \<Rightarrow> (bool option \<times> dstate) option" where
  [code]: "callback_loop cb sm = bnd (status_of cb) (\<lambda>ok t.
     if \<not> ok then Some (Some False, t)
     else if bytes_left (fst t) \<noteq> 0 then callback_loop cb t
     else Some (Some True, t)) sm"

definition decode_callback_field :: "dec_env \<Rightarrow> u32 \<Rightarrow> pb_field_iter \<Rightarrow> unit dec" where
  "decode_callback_field E wire_type iter =
     bnd (on_mem (load_u64 (pData iter))) (\<lambda>decode.
       let cb = field_cb E decode (cur iter) (pData iter + 8) in
       if decode = 0 then on_stream (pb_skip_field (read_cb E) wire_type)
       else if wire_type = PB_WT_STRING then
         with_substream E (callback_loop cb) (\<lambda>ok sub.
           if ok \<noteq> Some True then derror ''callback failed'' else close_substream E sub)
       else bnd (on_stream (read_raw_value (read_cb E) wire_type 10)) (\<lambda>buffer. \<lambda>(s, m).
         case cb (pb_istream_from_buffer buffer (of_nat (length buffer)), m) of
           None \<Rightarrow> None
         | Some (r, (_, m')) \<Rightarrow> Some (r, (s, m'))))"

definition decode_field :: "msg_dec \<Rightarrow> msg_init \<Rightarrow> dec_env \<Rightarrow> u32 \<Rightarrow> pb_field_iter \<Rightarrow> unit dec" where
  "decode_field D S E wire_type iter =
     (if atype (cur iter) = PB_ATYPE_STATIC then decode_static_field D S E wire_type iter
      else if atype (cur iter) = PB_ATYPE_POINTER then decode_pointer_field
      else if atype (cur iter) = PB_ATYPE_CALLBACK then decode_callback_field E wire_type iter
      else derror ''invalid field type'')"

section \<open>Extensions\<close>

definition iter_from_extension :: "dec_env \<Rightarrow> int \<Rightarrow> (mem, pb_field_iter) act" where
  "iter_from_extension E ext = bnd (load_ext_type (ext_type E) ext) (\<lambda>et. bnd (load_ptr (ext_dest_at ext)) (\<lambda>dest.
     let iter = snd (pb_field_iter_begin (ext_arg et) dest) in
     ret (iter\<lparr>pData := (if atype (field_at (ext_arg et) 0) = PB_ATYPE_POINTER then ext_dest_at ext else dest),
               pSize := ext_found_at ext\<rparr>)))"

definition default_extension_decoder ::
  "msg_dec \<Rightarrow> msg_init \<Rightarrow> dec_env \<Rightarrow> int \<Rightarrow> u32 \<Rightarrow> u32 \<Rightarrow> unit dec" where
  "default_extension_decoder D S E ext t wire_type =
     bnd (on_mem (load_ext_type (ext_type E) ext)) (\<lambda>et.
       if tag (field_at (ext_arg et) 0) \<noteq> t then ret ()
       else bnd (on_mem (iter_from_extension E ext)) (\<lambda>iter.
         bnd (on_mem (store (ext_found_at ext) [1])) (\<lambda>_. decode_field D S E wire_type iter)))"

partial_function (option) extension_loop ::
  "(int \<Rightarrow> unit dec) \<Rightarrow> u64 \<Rightarrow> int \<Rightarrow> dstate \<Rightarrow> (unit option \<times> dstate) option" where
  [code]: "extension_loop dec1 left0 ext sm =
     (if ext \<noteq> 0 \<and> left0 = bytes_left (fst sm) then
        bnd (dec1 ext) (\<lambda>_ t. bnd (on_mem (load_ptr (ext_next_at ext)))
          (\<lambda>ext' u. extension_loop dec1 left0 ext' u) t) sm
      else Some (Some (), sm))"

definition decode_extension ::
  "msg_dec \<Rightarrow> msg_init \<Rightarrow> dec_env \<Rightarrow> u32 \<Rightarrow> u32 \<Rightarrow> pb_field_iter \<Rightarrow> unit dec" where
  "decode_extension D S E t wire_type iter =
     bnd (on_mem (load_ptr (pData iter))) (\<lambda>ext. \<lambda>(s, m).
       extension_loop (\<lambda>ext. bnd (on_mem (load_ext_type (ext_type E) ext)) (\<lambda>et.
           case ext_decode et of
             Some f \<Rightarrow> f ext t wire_type
           | None \<Rightarrow> default_extension_decoder D S E ext t wire_type))
         (bytes_left s) ext (s, m))"

definition find_extension_field :: "pb_field_iter \<Rightarrow> (bool \<times> pb_field_iter) option" where
  "find_extension_field iter = iter_search (\<lambda>f. ltype f = PB_LTYPE_EXTENSION) (pos iter) iter"

section \<open>Default values\<close>

text \<open>The loop over the linked list of extensions, with what is done for each.\<close>

partial_function (option) ext_list_loop ::
  "(int \<Rightarrow> (mem, unit) act) \<Rightarrow> int \<Rightarrow> mem \<Rightarrow> (unit option \<times> mem) option" where
  [code]: "ext_list_loop g ext m =
     (if ext \<noteq> 0 then bnd (g ext) (\<lambda>_ m1. bnd (load_ptr (ext_next_at ext)) (\<lambda>ext' m2. ext_list_loop g ext' m2) m1) m
      else Some (Some (), m))"

definition default_bytes :: "pb_field \<Rightarrow> byte list option" where
  "default_bytes f =
     (case field_ptr f of
        Ptr_null \<Rightarrow> Some (replicate (unat (data_size f)) 0)
      | Ptr_default bs \<Rightarrow>
          (if unat (data_size f) \<le> length bs then Some (take (unat (data_size f)) bs) else None)
      | Ptr_submsg _ \<Rightarrow> None)"

text \<open>The static branch of \<open>pb_field_set_to_default\<close>.\<close>

definition set_static_default :: "msg_init \<Rightarrow> pb_field_iter \<Rightarrow> (mem, unit) act" where
  "set_static_default S iter =
     (let f = cur iter in
      if htype f = PB_HTYPE_REPEATED \<or> htype f = PB_HTYPE_ONEOF then store_u32 (pSize iter) 0
      else bnd (if htype f = PB_HTYPE_OPTIONAL \<and> pSize iter \<noteq> pData iter
                then store (pSize iter) [0] else ret ()) (\<lambda>_.
        if ltype f = PB_LTYPE_SUBMESSAGE then submsg_defaults S f (pData iter)
        else case default_bytes f of
          None \<Rightarrow> undefined_behaviour
        | Some bs \<Rightarrow> store (pData iter) bs))"

definition set_pointer_default :: "pb_field_iter \<Rightarrow> (mem, unit) act" where
  "set_pointer_default iter =
     bnd (store (pData iter) (replicate 8 0)) (\<lambda>_.
       if htype (cur iter) = PB_HTYPE_REPEATED \<or> htype (cur iter) = PB_HTYPE_ONEOF
       then store_u32 (pSize iter) 0 else ret ())"

fun pb_field_set_to_default :: "dec_env \<Rightarrow> nat \<Rightarrow> pb_field_iter \<Rightarrow> (mem, unit) act"
  and pb_message_set_to_defaults :: "dec_env \<Rightarrow> nat \<Rightarrow> pb_field list \<Rightarrow> int \<Rightarrow> (mem, unit) act" where
  "pb_field_set_to_default E 0 iter = undefined_behaviour"
| "pb_field_set_to_default E (Suc depth) iter =
     (if ltype (cur iter) = PB_LTYPE_EXTENSION then
        bnd (load_ptr (pData iter)) (ext_list_loop (\<lambda>ext. bnd (store (ext_found_at ext) [0]) (\<lambda>_.
          bnd (iter_from_extension E ext) (\<lambda>ext_iter. pb_field_set_to_default E depth ext_iter))))
      else if atype (cur iter) = PB_ATYPE_STATIC then
        set_static_default (\<lambda>fs a. pb_message_set_to_defaults E depth fs a) iter
      else if atype (cur iter) = PB_ATYPE_POINTER then set_pointer_default iter
      else ret ())"
| "pb_message_set_to_defaults E 0 fs dest = undefined_behaviour"
| "pb_message_set_to_defaults E (Suc depth) fs dest =
     (if \<not> fst (pb_field_iter_begin fs dest) then ret ()
      else for_each_field (\<lambda>iter. pb_field_set_to_default E depth iter) (snd (pb_field_iter_begin fs dest)))"

declare pb_field_set_to_default.simps(2) [simp del] pb_message_set_to_defaults.simps(2) [simp del]

section \<open>Decoding all fields\<close>

text \<open>
  \<open>fields_seen\<close> is an array of two 32-bit words. Setting the bit of a required field, whose index
  is below 64 here.
\<close>

definition mark_seen :: "pb_field_iter \<Rightarrow> u32 list \<Rightarrow> u32 list" where
  "mark_seen iter seen =
     (if htype (cur iter) = PB_HTYPE_REQUIRED \<and> required_field_index iter < 64 then
        let i = unat (drop_bit 5 (required_field_index iter));
            tmp = push_bit (unat (required_field_index iter AND 31)) (1 :: u32)
        in seen[i := seen ! i OR tmp]
      else seen)"

text \<open>
  A tag that matches no field: \<open>Some (start, handled, state)\<close> with the new
  \<open>extension_range_start\<close>. The iterator is moved by the search for an extension field.
\<close>

definition unknown_field ::
  "msg_dec \<Rightarrow> msg_init \<Rightarrow> dec_env \<Rightarrow> u32 \<Rightarrow> u32 \<Rightarrow> pb_field_iter \<Rightarrow> u32 \<Rightarrow> (pb_field_iter \<times> u32) dec" where
  "unknown_field D S E t wire_type iter ext_start =
     (let skip = (\<lambda>r. bnd (on_stream (pb_skip_field (read_cb E) wire_type)) (\<lambda>_. ret r)) in
      if ext_start \<le> t then
        (case find_extension_field iter of
           None \<Rightarrow> undefined_behaviour
         | Some (found, iter') \<Rightarrow>
             (let ext_start' = (if found then tag (cur iter') else 0xFFFFFFFF) in
              if ext_start' \<le> t then (\<lambda>(s, m).
                bnd (decode_extension D S E t wire_type iter') (\<lambda>_. \<lambda>(s', m').
                  if bytes_left s' \<noteq> bytes_left s then Some (Some (iter', ext_start'), (s', m'))
                  else skip (iter', ext_start') (s', m')) (s, m))
              else skip (iter', ext_start')))
      else skip (iter, ext_start))"

text \<open>
  The local variables of the loop \<open>while (stream->bytes_left)\<close>, and one turn of it. Its value is
  whether the loop goes on (it ends at the end of the message) and the variables after it.
\<close>

record loop_vars =
  viter :: pb_field_iter
  fields_seen :: "u32 list"
  extension_range_start :: u32

definition decode_step :: "msg_dec \<Rightarrow> msg_init \<Rightarrow> dec_env \<Rightarrow> loop_vars \<Rightarrow> (bool \<times> loop_vars) dec" where
  "decode_step D S E v = (\<lambda>(s, m).
     case pb_decode_tag (read_cb E) s of
       None \<Rightarrow> None
     | Some (No_tag eof, s') \<Rightarrow> Some (if eof then Some (False, v) else None, (s', m))
     | Some (Tag wire_type t, s') \<Rightarrow>
         (case pb_field_iter_find (viter v) t of
            None \<Rightarrow> None
          | Some (False, iter') \<Rightarrow>
              bnd (unknown_field D S E t wire_type iter' (extension_range_start v)) (\<lambda>(iter'', start').
                ret (True, v\<lparr>viter := iter'', extension_range_start := start'\<rparr>)) (s', m)
          | Some (True, iter') \<Rightarrow>
              bnd (decode_field D S E wire_type iter') (\<lambda>_.
                ret (True, v\<lparr>viter := iter', fields_seen := mark_seen iter' (fields_seen v)\<rparr>)) (s', m)))"

partial_function (option) decode_loop ::
  "msg_dec \<Rightarrow> msg_init \<Rightarrow> dec_env \<Rightarrow> loop_vars \<Rightarrow> dstate \<Rightarrow> (loop_vars option \<times> dstate) option" where
  [code]: "decode_loop D S E v sm =
     (if bytes_left (fst sm) = 0 then Some (Some v, sm)
      else bnd (decode_step D S E v) (\<lambda>p t.
        if fst p then decode_loop D S E (snd p) t else Some (Some (snd p), t)) sm)"

text \<open>Seek to the end of the field array: \<open>req_field_count\<close>, \<open>last_type\<close> and the iterator.\<close>

function seek_end :: "pb_field_iter \<Rightarrow> u32 \<times> byte \<times> pb_field_iter" where
  "seek_end iter =
     (if fst (pb_field_iter_next iter) then seek_end (snd (pb_field_iter_next iter))
      else (required_field_index iter, field_type (cur iter), snd (pb_field_iter_next iter)))"
  by pat_completeness auto
termination
  by (relation "measure (\<lambda>iter. length (start iter) - pos iter)") (simp, drule next_True_pos, simp, arith)

declare seek_end.simps [simp del]

definition required_count :: "pb_field_iter \<Rightarrow> u32" where
  "required_count iter =
     (case seek_end iter of (count, last_type, iter') \<Rightarrow>
        if PB_HTYPE last_type = PB_HTYPE_REQUIRED \<and> tag (cur iter') \<noteq> 0 then count + 1 else count)"

text \<open>
  The whole words of \<open>fields_seen\<close> that cover the required fields; reading past the array is
  undefined. \<open>Some False\<close> if a bit is missing.
\<close>

fun whole_words :: "u32 list \<Rightarrow> nat \<Rightarrow> nat \<Rightarrow> bool option" where
  "whole_words seen i 0 = Some True"
| "whole_words seen i (Suc n) =
     (if length seen \<le> i then None
      else if seen ! i \<noteq> 0xFFFFFFFF then Some False
      else whole_words seen (Suc i) n)"

text \<open>
  The remaining bits are compared with \<open>allbits >> (32 - (count & 31))\<close>. Shifting a 32-bit
  integer by 32, which the code does for a multiple of 32, is undefined.
\<close>

definition remaining_bits :: "u32 list \<Rightarrow> u32 \<Rightarrow> bool option" where
  "remaining_bits seen count =
     (let i = unat (drop_bit 5 count); shift = 32 - unat (count AND 31) in
      if length seen \<le> i \<or> 32 \<le> shift then None
      else Some (seen ! i = drop_bit shift 0xFFFFFFFF))"

definition check_required :: "u32 list \<Rightarrow> u32 \<Rightarrow> unit dec" where
  "check_required seen count =
     (if 0 < count then
        case whole_words seen 0 (unat (drop_bit 5 count)) of
          None \<Rightarrow> undefined_behaviour
        | Some False \<Rightarrow> derror ''missing required field''
        | Some True \<Rightarrow>
            (case remaining_bits seen count of
               None \<Rightarrow> undefined_behaviour
             | Some False \<Rightarrow> derror ''missing required field''
             | Some True \<Rightarrow> ret ())
      else ret ())"

text \<open>One call of \<open>pb_decode_noinit\<close>, given the calls it makes for submessages.\<close>

definition noinit_body :: "msg_dec \<Rightarrow> msg_init \<Rightarrow> dec_env \<Rightarrow> pb_field list \<Rightarrow> int \<Rightarrow> unit dec" where
  "noinit_body D S E fs dest =
     bnd (decode_loop D S E \<lparr>viter = snd (pb_field_iter_begin fs dest), fields_seen = [0, 0],
            extension_range_start = 0\<rparr>)
       (\<lambda>v. check_required (fields_seen v) (required_count (viter v)))"

fun pb_decode_noinit :: "dec_env \<Rightarrow> nat \<Rightarrow> pb_field list \<Rightarrow> int \<Rightarrow> unit dec" where
  "pb_decode_noinit E 0 fs dest = undefined_behaviour"
| "pb_decode_noinit E (Suc depth) fs dest =
     noinit_body
       (\<lambda>init fs' a. if init
          then bnd (on_mem (pb_message_set_to_defaults E depth fs' a)) (\<lambda>_. pb_decode_noinit E depth fs' a)
          else pb_decode_noinit E depth fs' a)
       (pb_message_set_to_defaults E depth) E fs dest"

declare pb_decode_noinit.simps(2) [simp del]

definition pb_decode :: "dec_env \<Rightarrow> nat \<Rightarrow> pb_field list \<Rightarrow> int \<Rightarrow> unit dec" where
  "pb_decode E depth fs dest =
     bnd (on_mem (pb_message_set_to_defaults E depth fs dest)) (\<lambda>_. pb_decode_noinit E depth fs dest)"

definition pb_decode_delimited :: "dec_env \<Rightarrow> nat \<Rightarrow> pb_field list \<Rightarrow> int \<Rightarrow> unit dec" where
  "pb_decode_delimited E depth fs dest =
     with_substream E (status_of (pb_decode E depth fs dest))
       (\<lambda>status sub. bnd (close_substream E sub) (\<lambda>_. return_status (status = Some True)))"

end
