(* ===== verification/Pb_Safe.thy ===== *)
theory Pb_Safe
  imports Pb_Decode Pb_Input Pb_Memory
begin

text \<open>
  What decoding into memory promises. An operation is \<open>safe\<close> on a region if on every buffer stream
  it returns, changes memory only inside the region and leaves a stream that still lies inside
  its buffer; when it succeeds it has consumed what it took from the stream. Two strengths are
  needed: an operation that is also exact when it fails, and one that may then leave bytes of a
  substream it gave up counted as consumed but not skipped.
\<close>

section \<open>Streams after a failure\<close>

definition lag :: "pb_istream \<Rightarrow> pb_istream \<Rightarrow> bool" where
  "lag s s' \<longleftrightarrow> icallback s' = icallback s \<and>
     (\<exists>j. istate s' = drop j (istate s) \<and> j + unat (bytes_left s') \<le> unat (bytes_left s))"

lemma consumed_lag: "consumed s s' \<Longrightarrow> lag s s'"
  by (auto simp: consumed_def lag_def)

lemma lag_trans: "lag a b \<Longrightarrow> lag b c \<Longrightarrow> lag a c"
proof -
  assume "lag a b" "lag b c"
  then obtain i j where ij: "icallback b = icallback a" "icallback c = icallback b"
    "istate b = drop i (istate a)" "i + unat (bytes_left b) \<le> unat (bytes_left a)"
    "istate c = drop j (istate b)" "j + unat (bytes_left c) \<le> unat (bytes_left b)"
    by (auto simp: lag_def)
  then have "istate c = drop (i + j) (istate a)" "i + j + unat (bytes_left c) \<le> unat (bytes_left a)"
    by (simp_all add: add.commute)
  with ij show ?thesis by (auto simp: lag_def)
qed

lemma lag_buf_stream: "lag s s' \<Longrightarrow> buf_stream s \<Longrightarrow> buf_stream s'"
  by (auto simp: lag_def buf_stream_def)

section \<open>The contract\<close>

text \<open>How far the stream may be off after a failure.\<close>

locale stream_effect =
  fixes R :: "pb_istream \<Rightarrow> pb_istream \<Rightarrow> bool"
  assumes consumed_R: "consumed s s' \<Longrightarrow> R s s'"
    and R_trans: "R a b \<Longrightarrow> R b c \<Longrightarrow> R a c"
    and R_lag: "R s s' \<Longrightarrow> lag s s'"

interpretation exact: stream_effect consumed
  by unfold_locales (auto intro: consumed_trans consumed_lag)

interpretation loose: stream_effect lag
  by unfold_locales (auto intro: lag_trans consumed_lag)

definition safe :: "(pb_istream \<Rightarrow> pb_istream \<Rightarrow> bool) \<Rightarrow> int \<Rightarrow> nat \<Rightarrow> 'a dec \<Rightarrow> bool" where
  "safe R a n f \<longleftrightarrow> (\<forall>s m. buf_stream s \<longrightarrow> owned m a n \<longrightarrow>
     (\<exists>r s' m'. f (s, m) = Some (r, (s', m')) \<and> R s s' \<and> (r \<noteq> None \<longrightarrow> consumed s s') \<and>
       same_outside a n m m'))"

lemma safeI:
  assumes "\<And>s m. buf_stream s \<Longrightarrow> owned m a n \<Longrightarrow>
    \<exists>r s' m'. f (s, m) = Some (r, (s', m')) \<and> R s s' \<and> (r \<noteq> None \<longrightarrow> consumed s s') \<and> same_outside a n m m'"
  shows "safe R a n f"
  using assms by (simp add: safe_def)

lemma safeE:
  assumes "safe R a n f" and "buf_stream s" and "owned m a n"
  obtains r s' m' where "f (s, m) = Some (r, (s', m'))" "R s s'" "r \<noteq> None \<Longrightarrow> consumed s s'"
    "same_outside a n m m'"
  using assms unfolding safe_def by blast

lemma safe_region:
  assumes "safe R (b + a) k f" and "inside a k n"
  shows "safe R b n f"
proof (rule safeI)
  fix s m
  assume "buf_stream s" and own: "owned m b n"
  from assms(1) this(1) inside_owned [OF assms(2) own]
  obtain r s' m' where "f (s, m) = Some (r, (s', m'))" "R s s'" "r \<noteq> None \<Longrightarrow> consumed s s'"
    "same_outside (b + a) k m m'" by (rule safeE) blast
  with inside_same [OF assms(2)] show "\<exists>r s' m'. f (s, m) = Some (r, (s', m')) \<and> R s s' \<and>
    (r \<noteq> None \<longrightarrow> consumed s s') \<and> same_outside b n m m'" by blast
qed

context stream_effect
begin

lemma safe_ret: "safe R a n (ret x)"
  by (rule safeI) (simp add: consumed_R)

lemma safe_stream:
  assumes "buffer_reader f"
  shows "safe R a n (on_stream f)"
proof (rule safeI)
  fix s :: pb_istream and m :: mem
  assume "buf_stream s"
  from buffer_reader.result [OF assms this] obtain r s' where "f s = Some (r, s')" "consumed s s'" by blast
  then show "\<exists>r s' m'. on_stream f (s, m) = Some (r, (s', m')) \<and> R s s' \<and> (r \<noteq> None \<longrightarrow> consumed s s') \<and>
    same_outside a n m m'" by (simp add: on_stream_def consumed_R)
qed

lemma safe_error: "safe R a n (derror msg)"
  unfolding derror_def by (rule safe_stream) (rule reader_error)

lemma safe_mem:
  assumes "\<And>m. owned m a n \<Longrightarrow> \<exists>x m'. f m = Some (Some x, m') \<and> same_outside a n m m'"
  shows "safe R a n (on_mem f)"
  by (rule safeI) (use assms in \<open>fastforce simp: on_mem_def consumed_R\<close>)

lemma safe_bnd:
  assumes f: "safe R a n f" and g: "\<And>x. safe R a n (g x)"
  shows "safe R a n (bnd f g)"
proof (rule safeI)
  fix s m
  assume s: "buf_stream s" and own: "owned m a n"
  from f s own obtain r s' m' where f': "f (s, m) = Some (r, (s', m'))" "R s s'"
    "r \<noteq> None \<Longrightarrow> consumed s s'" "same_outside a n m m'" by (rule safeE) blast
  show "\<exists>r s' m'. bnd f g (s, m) = Some (r, (s', m')) \<and> R s s' \<and> (r \<noteq> None \<longrightarrow> consumed s s') \<and>
    same_outside a n m m'"
  proof (cases r)
    case None
    with f' show ?thesis by (simp add: bnd_false)
  next
    case (Some x)
    with f'(3) have c: "consumed s s'" by simp
    from g [of x] lag_buf_stream [OF R_lag [OF f'(2)] s] same_outside_owned [OF f'(4) own]
    obtain r2 s2 m2 where "g x (s', m') = Some (r2, (s2, m2))" "R s' s2"
      "r2 \<noteq> None \<Longrightarrow> consumed s' s2" "same_outside a n m' m2" by (rule safeE) blast
    with f' Some c show ?thesis
      by (auto simp: bnd_true intro: R_trans consumed_trans same_outside_trans)
  qed
qed

lemma safe_if: "(c \<Longrightarrow> safe R a n f) \<Longrightarrow> (\<not> c \<Longrightarrow> safe R a n g) \<Longrightarrow> safe R a n (if c then f else g)"
  by simp

lemma safe_weaken:
  assumes "safe consumed a n f"
  shows "safe R a n f"
  using assms consumed_R unfolding safe_def by meson

end

section \<open>Memory accesses\<close>

lemma load_safe: "owned m a n \<Longrightarrow> inside b k n \<Longrightarrow> \<exists>bs. load (a + b) k m = Some (Some bs, m) \<and> length bs = k"
  using load_bytes_owned [OF inside_owned] by (fastforce simp: load_def)

lemma store_safe:
  assumes "owned m a n" and "inside b (length bs) n"
  shows "\<exists>m'. store (a + b) bs m = Some (Some (), m') \<and> same_outside a n m m'"
proof -
  from store_bytes_owned [OF inside_owned [OF assms(2,1)]] obtain m' where
    "store_bytes m (a + b) bs = Some m'" "same_outside (a + b) (length bs) m m'" by blast
  with inside_same [OF assms(2)] show ?thesis by (auto simp: store_def)
qed

lemma store_u32_safe:
  "owned m a n \<Longrightarrow> inside b 4 n \<Longrightarrow> \<exists>m'. store_u32 (a + b) v m = Some (Some (), m') \<and> same_outside a n m m'"
  using store_safe [of m a n b "le_bytes 4 (unat v)"] by (simp add: store_u32_def)

lemma store_u64_safe:
  "owned m a n \<Longrightarrow> inside b 8 n \<Longrightarrow> \<exists>m'. store_u64 (a + b) v m = Some (Some (), m') \<and> same_outside a n m m'"
  using store_safe [of m a n b "le_bytes 8 (unat v)"] by (simp add: store_u64_def)

context stream_effect
begin

lemma safe_store: "inside b (length bs) n \<Longrightarrow> safe R a n (on_mem (store (a + b) bs))"
  by (rule safe_mem) (use store_safe in blast)

lemma safe_store_u32: "inside b 4 n \<Longrightarrow> safe R a n (on_mem (store_u32 (a + b) v))"
  by (rule safe_mem) (use store_u32_safe in blast)

lemma safe_store_u64: "inside b 8 n \<Longrightarrow> safe R a n (on_mem (store_u64 (a + b) v))"
  by (rule safe_mem) (use store_u64_safe in blast)

lemma safe_load: "inside b k n \<Longrightarrow> safe R a n (on_mem (load (a + b) k))"
  by (rule safe_mem) (use load_safe same_outside_refl in blast)

lemma safe_load_u32: "inside b 4 n \<Longrightarrow> safe R a n (on_mem (load_u32 (a + b)))"
  by (rule safe_mem) (use load_safe in \<open>fastforce simp: load_u32_def bnd_def\<close>)

lemma safe_load_u64: "inside b 8 n \<Longrightarrow> safe R a n (on_mem (load_u64 (a + b)))"
  by (rule safe_mem) (use load_safe in \<open>fastforce simp: load_u64_def bnd_def\<close>)

end

text \<open>\<open>pb_read\<close> into memory is exact also when it fails: nothing has been read then.\<close>

lemma safe_read_to_mem:
  assumes "inside b (unat count) n"
  shows "safe consumed a n (read_to_mem E (a + b) count)"
proof (rule safeI)
  fix s m
  assume s: "buf_stream s" and own: "owned m a n"
  show "\<exists>r s' m'. read_to_mem E (a + b) count (s, m) = Some (r, (s', m')) \<and> consumed s s' \<and>
    (r \<noteq> None \<longrightarrow> consumed s s') \<and> same_outside a n m m'"
  proof (cases "bytes_left s < count")
    case True
    then show ?thesis by (simp add: read_to_mem_def pb_read_into_def)
  next
    case False
    then have le: "unat count \<le> unat (bytes_left s)" by (simp add: word_le_nat_alt not_less)
    let ?bs = "take (unat count) (istate s)"
    have len: "length ?bs = unat count" using s le by (simp add: buf_stream_def)
    have rd: "pb_read_into (read_cb E) count s = Some (True, ?bs, advance (unat count) s)"
      using s le False by (simp add: pb_read_into_def call_read_def buf_read_def buf_stream_def advance_def)
    from store_bytes_owned [of m "a + b" ?bs] inside_owned [OF assms own] len
    obtain m' where "store_bytes m (a + b) ?bs = Some m'" "same_outside (a + b) (unat count) m m'" by auto
    with rd inside_same [OF assms] consumed_advance [OF le] show ?thesis
      by (simp add: read_to_mem_def)
  qed
qed

text \<open>A result that is only kept as a flag, for an exact operation.\<close>

lemma safe_status_of:
  assumes "safe consumed a n f"
  shows "safe consumed a n (status_of f)"
proof (rule safeI)
  fix s m
  assume "buf_stream s" "owned m a n"
  with assms obtain r s' m' where "f (s, m) = Some (r, (s', m'))" "consumed s s'" "same_outside a n m m'"
    by (rule safeE) blast
  then show "\<exists>r s' m'. status_of f (s, m) = Some (r, (s', m')) \<and> consumed s s' \<and>
    (r \<noteq> None \<longrightarrow> consumed s s') \<and> same_outside a n m m'" by (simp add: status_of_def)
qed

context stream_effect
begin

lemma safe_return_status: "safe R a n (return_status b)"
  unfolding return_status_def
  by (auto intro!: safeI simp: consumed_R)

end

end
