(* ===== verification/Pb_Decode_Safe.thy ===== *)
theory Pb_Decode_Safe
  imports Pb_Safe
begin

text \<open>
  The message decoder is safe: for every input and every struct laid out as its descriptors say,
  \<open>pb_decode\<close> returns, reads no byte outside the input buffer and writes no byte outside the
  struct.
\<close>

section \<open>Decoders of one item\<close>

lemma safe_store_clamped:
  assumes "k \<le> n"
  shows "safe consumed a n (store_clamped a k clamped value)"
proof -
  have "safe consumed a n (on_mem (store (a + 0) (le_bytes k (unat clamped))))"
    using assms by (intro exact.safe_store) simp
  then show ?thesis unfolding store_clamped_def
    by (auto intro!: exact.safe_bnd exact.safe_if exact.safe_error exact.safe_ret)
qed

lemma safe_dec_varint: "safe consumed a (unat (data_size f)) (pb_dec_varint E f a)"
  unfolding pb_dec_varint_def Let_def
  by (intro exact.safe_bnd exact.safe_if exact.safe_error exact.safe_stream reader_intros
      safe_store_clamped) simp_all

lemma safe_dec_uvarint: "safe consumed a (unat (data_size f)) (pb_dec_uvarint E f a)"
  unfolding pb_dec_uvarint_def
  by (intro exact.safe_bnd exact.safe_if exact.safe_error exact.safe_stream reader_intros
      safe_store_clamped) simp_all

lemma safe_dec_svarint: "safe consumed a (unat (data_size f)) (pb_dec_svarint E f a)"
  unfolding pb_dec_svarint_def
  by (intro exact.safe_bnd exact.safe_if exact.safe_error exact.safe_stream reader_intros
      safe_store_clamped) simp_all

lemma safe_dec_fixed32: "safe consumed a 4 (pb_dec_fixed32 E f a)"
  unfolding pb_dec_fixed32_def
  using exact.safe_store_u32 [of 0 4 a]
  by (auto intro!: exact.safe_bnd exact.safe_stream reader_intros simp: inside_def)

lemma safe_dec_fixed64: "safe consumed a 8 (pb_dec_fixed64 E f a)"
  unfolding pb_dec_fixed64_def
  using exact.safe_store_u64 [of 0 8 a]
  by (auto intro!: exact.safe_bnd exact.safe_stream reader_intros simp: inside_def)

lemma safe_dec_bytes: "safe consumed a (unat (data_size f)) (pb_dec_bytes E f a)"
proof -
  let ?n = "unat (data_size f)"
  have fits: "4 + unat count \<le> ?n" if "\<not> ucast (data_size f) < (ucast count + 4 :: u64)" for count :: u32
  proof -
    have "unat (ucast count :: u64) + 4 < 2 ^ 64" using unat_lt_32 [of count] by (simp add: unat_ucast_up)
    then have "unat (ucast count + 4 :: u64) = unat count + 4"
      by (simp add: unat_word_ariths unat_ucast_up)
    with that show ?thesis by (simp add: not_less word_le_nat_alt unat_ucast_up)
  qed
  have "safe consumed a ?n (on_mem (store_u32 (a + 0) count))"
    if "\<not> ucast (data_size f) < (ucast count + 4 :: u64)" for count
    using fits [OF that] by (intro exact.safe_store_u32) simp
  moreover have "safe consumed a ?n (read_to_mem E (a + 4) (ucast count))"
    if "\<not> ucast (data_size f) < (ucast count + 4 :: u64)" for count :: u32
    using fits [OF that] by (intro safe_read_to_mem) (simp add: unat_ucast_up)
  ultimately show ?thesis
    unfolding pb_dec_bytes_def Let_def
    by (intro exact.safe_bnd exact.safe_if exact.safe_error exact.safe_stream reader_intros) simp_all
qed

lemma safe_dec_string: "safe consumed a (unat (data_size f)) (pb_dec_string E f a)"
proof -
  let ?n = "unat (data_size f)"
  have fits: "unat count < ?n"
    if "\<not> ucast (data_size f) < (ucast (count + 1) :: u64)" "\<not> ucast (count + 1) < (ucast count :: u64)"
    for count :: u32
  proof -
    have "unat count \<le> unat (count + 1)" using that(2) by (simp add: not_less word_le_nat_alt unat_ucast_up)
    moreover have "count + 1 \<noteq> count" by simp
    then have "unat (count + 1) \<noteq> unat count" by (simp only: word_unat_eq_iff) simp
    ultimately have "unat count < unat (count + 1)" by simp
    with that(1) show ?thesis by (simp add: not_less word_le_nat_alt unat_ucast_up)
  qed
  have rd: "safe consumed a ?n (status_of (read_to_mem E (a + 0) (ucast count)))" if "unat count < ?n"
    for count :: u32
    using that by (intro safe_status_of safe_read_to_mem) (simp add: unat_ucast_up)
  have st: "safe consumed a ?n (on_mem (store (a + int (unat count)) [0]))" if "unat count < ?n"
    for count :: u32
    using that by (intro exact.safe_store) (simp only: inside_nat list.size)
  show ?thesis
    unfolding pb_dec_string_def Let_def
    by (intro exact.safe_bnd exact.safe_if exact.safe_error exact.safe_stream exact.safe_return_status
        reader_intros rd [simplified] st fits)
qed

lemma safe_dec_fixed_length_bytes: "safe consumed a (unat (data_size f)) (pb_dec_fixed_length_bytes E f a)"
proof -
  let ?n = "unat (data_size f)"
  have "safe consumed a ?n (on_mem (store (a + 0) (replicate ?n 0)))"
    by (intro exact.safe_store) simp
  moreover have "safe consumed a ?n (read_to_mem E (a + 0) (ucast (data_size f)))"
    by (intro safe_read_to_mem) (simp add: unat_ucast_up)
  ultimately show ?thesis
    unfolding pb_dec_fixed_length_bytes_def
    by (intro exact.safe_bnd exact.safe_if exact.safe_error exact.safe_stream reader_intros) simp_all
qed


section \<open>Substreams\<close>

text \<open>An operation whose result is only a flag: when it is true, the stream is exact.\<close>

definition flagged :: "int \<Rightarrow> nat \<Rightarrow> bool dec \<Rightarrow> bool" where
  "flagged a n f \<longleftrightarrow> (\<forall>s m. buf_stream s \<longrightarrow> owned m a n \<longrightarrow>
     (\<exists>b s' m'. f (s, m) = Some (Some b, (s', m')) \<and> lag s s' \<and> (b \<longrightarrow> consumed s s') \<and> same_outside a n m m'))"

lemma flaggedE:
  assumes "flagged a n f" and "buf_stream s" and "owned m a n"
  obtains b s' m' where "f (s, m) = Some (Some b, (s', m'))" "lag s s'" "b \<Longrightarrow> consumed s s'"
    "same_outside a n m m'"
  using assms unfolding flagged_def by blast

lemma flagged_status_of:
  assumes "safe lag a n f"
  shows "flagged a n (status_of f)"
  unfolding flagged_def
proof (intro allI impI)
  fix s m
  assume "buf_stream s" "owned m a n"
  with assms obtain r s' m' where f: "f (s, m) = Some (r, (s', m'))" "lag s s'" "r \<noteq> None \<Longrightarrow> consumed s s'"
    "same_outside a n m m'" by (rule safeE) blast
  then show "\<exists>b s' m'. status_of f (s, m) = Some (Some b, (s', m')) \<and> lag s s' \<and> (b \<longrightarrow> consumed s s') \<and>
    same_outside a n m m'" by (intro exI [of _ "r \<noteq> None"]) (simp add: status_of_def)
qed

lemma make_substream_cases:
  assumes "buf_stream s"
  obtains s' where "pb_make_string_substream E s = Some (None, s')" "consumed s s'"
  | s1 z where "consumed s s1" "z \<le> bytes_left s1"
    "pb_make_string_substream E s = Some (Some (s1\<lparr>bytes_left := z\<rparr>), s1\<lparr>bytes_left := bytes_left s1 - z\<rparr>)"
proof -
  from buffer_reader.result [OF reader_pb_decode_varint32 assms] obtain r s1 where
    r: "pb_decode_varint32 E s = Some (r, s1)" "consumed s s1" by blast
  show ?thesis
  proof (cases r)
    case None
    with r that(1) show ?thesis by (simp add: pb_make_string_substream_def bnd_false)
  next
    case (Some size)
    show ?thesis
    proof (cases "bytes_left s1 < ucast size")
      case True
      have "consumed s (pb_set_error ''parent stream too short'' s1)"
        using r(2) consumed_set_error by (rule consumed_trans)
      with True r Some that(1) show ?thesis
        by (simp add: pb_make_string_substream_def bnd_def pb_return_error_def)
    next
      case False
      with r Some that(2) [of s1 "ucast size"] show ?thesis
        by (simp add: pb_make_string_substream_def bnd_def not_less)
    qed
  qed
qed

lemma close_substream_buffer:
  assumes "buf_stream sub"
  shows "pb_close_string_substream E sub s = Some (Some (),
    s\<lparr>istate := drop (unat (bytes_left sub)) (istate sub), ierrmsg := ierrmsg sub\<rparr>)"
proof (cases "bytes_left sub = 0")
  case False
  have "pb_read_null E (bytes_left sub) sub = Some (Some (), advance (unat (bytes_left sub)) sub)"
    using assms by (simp add: pb_read_null_buffer bnd_def pb_read_buffer)
  with False show ?thesis by (simp add: pb_close_string_substream_def advance_def)
qed (simp add: pb_close_string_substream_def)

lemma close_lag:
  assumes s: "consumed s s1" and z: "z \<le> bytes_left s1" and sub: "lag (s1\<lparr>bytes_left := z\<rparr>) sub"
  defines "t \<equiv> s1\<lparr>bytes_left := bytes_left s1 - z, istate := drop (unat (bytes_left sub)) (istate sub),
    ierrmsg := ierrmsg sub\<rparr>"
  shows "lag s t" and "consumed (s1\<lparr>bytes_left := z\<rparr>) sub \<Longrightarrow> consumed s t"
proof -
  have left: "unat (bytes_left s1 - z) = unat (bytes_left s1) - unat z" "unat z \<le> unat (bytes_left s1)"
    using z by (simp_all add: unat_sub word_le_nat_alt)
  from sub obtain j where j: "istate sub = drop j (istate s1)" "j + unat (bytes_left sub) \<le> unat z"
    by (auto simp: lag_def)
  have "istate t = drop (j + unat (bytes_left sub)) (istate s1)"
    by (simp add: t_def j(1) add.commute)
  with j left have "lag s1 t" by (auto simp: lag_def t_def)
  with consumed_lag [OF s] show "lag s t" by (rule lag_trans)
  assume "consumed (s1\<lparr>bytes_left := z\<rparr>) sub"
  then obtain k where k: "istate sub = drop k (istate s1)" "k \<le> unat z" "unat (bytes_left sub) = unat z - k"
    by (auto simp: consumed_def)
  then have "istate t = drop (unat z) (istate s1)" by (simp add: t_def)
  with left have "consumed s1 t" by (auto simp: consumed_def t_def)
  with s show "consumed s t" by (rule consumed_trans)
qed

lemma safe_with_substream:
  assumes inner: "flagged a n f"
    and g: "\<And>b sub. (\<exists>msg. g (Some b) sub = derror msg) \<or>
      (\<exists>c. (c \<longrightarrow> b) \<and> g (Some b) sub = bnd (close_substream E sub) (\<lambda>_. return_status c))"
  shows "safe lag a n (with_substream E f g)"
proof (rule safeI)
  fix s m
  assume s: "buf_stream s" and own: "owned m a n"
  show "\<exists>r s' m'. with_substream E f g (s, m) = Some (r, (s', m')) \<and> lag s s' \<and>
    (r \<noteq> None \<longrightarrow> consumed s s') \<and> same_outside a n m m'"
  proof (rule make_substream_cases [OF s, of "read_cb E"])
    fix s'
    assume "pb_make_string_substream (read_cb E) s = Some (None, s')" "consumed s s'"
    then show ?thesis by (simp add: with_substream_def on_stream_def bnd_def consumed_lag)
  next
    fix s1 z
    assume s1: "consumed s s1" "z \<le> bytes_left s1"
      and mk: "pb_make_string_substream (read_cb E) s =
        Some (Some (s1\<lparr>bytes_left := z\<rparr>), s1\<lparr>bytes_left := bytes_left s1 - z\<rparr>)"
    let ?sub = "s1\<lparr>bytes_left := z\<rparr>" and ?s = "s1\<lparr>bytes_left := bytes_left s1 - z\<rparr>"
    have "buf_stream ?sub"
      using consumed_buf_stream [OF s1(1) s] s1(2) by (auto simp: buf_stream_def word_le_nat_alt)
    with inner own obtain b sub' m' where f: "f (?sub, m) = Some (Some b, (sub', m'))" "lag ?sub sub'"
      "b \<Longrightarrow> consumed ?sub sub'" "same_outside a n m m'" by (meson flaggedE)
    have run: "with_substream E f g (s, m) = g (Some b) sub' (?s, m')"
      by (simp add: with_substream_def on_stream_def bnd_def mk f(1))
    have sub': "buf_stream sub'" using lag_buf_stream [OF f(2) \<open>buf_stream ?sub\<close>] .
    from g [of b sub'] show ?thesis
    proof
      assume "\<exists>msg. g (Some b) sub' = derror msg"
      then obtain msg where "g (Some b) sub' = derror msg" by blast
      moreover have "lag s1 (pb_set_error msg ?s)"
        using s1(2) by (auto simp: lag_def pb_set_error_def unat_sub word_le_nat_alt intro: exI [of _ 0])
      then have "lag s (pb_set_error msg ?s)" using consumed_lag [OF s1(1)] lag_trans by blast
      ultimately show ?thesis
        using f(4) by (simp add: run derror_def on_stream_def pb_return_error_def)
    next
      assume "\<exists>c. (c \<longrightarrow> b) \<and> g (Some b) sub' = bnd (close_substream E sub') (\<lambda>_. return_status c)"
      then obtain c where c: "c \<longrightarrow> b" "g (Some b) sub' = bnd (close_substream E sub') (\<lambda>_. return_status c)"
        by blast
      show ?thesis
        using close_lag [OF s1 f(2)] f(3,4) c(1)
        by (simp add: run c(2) bnd_def close_substream_def on_stream_def close_substream_buffer [OF sub']
            return_status_def)
    qed
  qed
qed


section \<open>Progress\<close>

text \<open>A successful run takes at least \<open>k\<close> bytes.\<close>

definition takes :: "nat \<Rightarrow> 'a rd \<Rightarrow> bool" where
  "takes k f \<longleftrightarrow> (\<forall>s x s'. buf_stream s \<longrightarrow> f s = Some (Some x, s') \<longrightarrow>
     unat (bytes_left s') + k \<le> unat (bytes_left s))"

lemma takes_0: "buffer_reader f \<Longrightarrow> takes 0 f"
  unfolding takes_def using buffer_reader.never_grows by fastforce

lemma takes_bnd:
  assumes "takes k f" and "buffer_reader f" and "\<And>x. buffer_reader (g x)"
  shows "takes k (bnd f g)"
  unfolding takes_def
proof (intro allI impI)
  fix s y s'
  assume s: "buf_stream s" and "bnd f g s = Some (Some y, s')"
  then obtain x t where f: "f s = Some (Some x, t)" and g: "g x t = Some (Some y, s')"
    by (auto simp: bnd_eq_Some_Some)
  have "unat (bytes_left s') \<le> unat (bytes_left t)"
    using buffer_reader.never_grows [OF assms(3) buffer_reader.keeps_buffer [OF assms(2) s f] g] .
  with assms(1) s f show "unat (bytes_left s') + k \<le> unat (bytes_left s)"
    by (fastforce simp: takes_def)
qed

lemma takes_read: "takes (unat count) (pb_read E count)"
  unfolding takes_def
proof (intro allI impI)
  fix s x s'
  assume s: "buf_stream s" and r: "pb_read E count s = Some (Some x, s')"
  have "count \<le> bytes_left s"
  proof (rule ccontr)
    assume "\<not> count \<le> bytes_left s"
    with r show False using pb_read_short [of s count E] by (simp add: not_le)
  qed
  moreover from this r s have "s' = advance (unat count) s" by (simp add: pb_read_buffer)
  ultimately show "unat (bytes_left s') + unat count \<le> unat (bytes_left s)"
    by (simp add: advance_def unat_sub word_le_nat_alt)
qed

lemma takes_readbyte: "takes (Suc 0) (pb_readbyte E)"
  unfolding takes_def
proof (intro allI impI)
  fix s x s'
  assume s: "buf_stream s" and r: "pb_readbyte E s = Some (Some x, s')"
  show "unat (bytes_left s') + Suc 0 \<le> unat (bytes_left s)"
  proof (cases "avail s")
    case Nil
    with r s show ?thesis by (simp add: pb_readbyte_empty)
  next
    case (Cons b bs)
    with r s have "s' = advance 1 s" by (simp add: pb_readbyte_buffer)
    moreover have "1 \<le> unat (bytes_left s)" using length_avail [OF s] Cons by simp
    ultimately show ?thesis by (simp add: advance_def unat_bytes_left_minus [of 1, simplified])
  qed
qed

lemma takes_varint: "takes (Suc 0) (pb_decode_varint E)"
proof -
  have "takes (Suc 0) (bnd (pb_readbyte E) (\<lambda>b. let result' = 0 OR push_bit 0 (ucast (b AND 0x7F)); bitpos' = 0 + 7
        in if b AND 0x80 \<noteq> 0 then varint_loop E bitpos' result' else ret result'))"
    unfolding Let_def by (intro takes_bnd takes_readbyte reader_intros)
  then show ?thesis
    unfolding pb_decode_varint_def by (subst varint_loop.simps) simp
qed

lemma takes_varint32: "takes (Suc 0) (pb_decode_varint32 E)"
  unfolding pb_decode_varint32_def by (intro takes_bnd takes_readbyte reader_intros)

lemma takes_svarint: "takes (Suc 0) (pb_decode_svarint E)"
  unfolding pb_decode_svarint_def by (intro takes_bnd takes_varint reader_intros)

lemma takes_mono: "takes k f \<Longrightarrow> j \<le> k \<Longrightarrow> takes j f"
  unfolding takes_def by (meson add_le_cancel_left order_trans)

lemma takes_fixed32: "takes (Suc 0) (pb_decode_fixed32 E)"
  unfolding pb_decode_fixed32_def
  by (intro takes_bnd reader_intros takes_mono [OF takes_read]) simp

lemma takes_fixed64: "takes (Suc 0) (pb_decode_fixed64 E)"
  unfolding pb_decode_fixed64_def
  by (intro takes_bnd reader_intros takes_mono [OF takes_read]) simp

definition dtakes :: "nat \<Rightarrow> int \<Rightarrow> nat \<Rightarrow> 'a dec \<Rightarrow> bool" where
  "dtakes k a n f \<longleftrightarrow> (\<forall>s m x s' m'. buf_stream s \<longrightarrow> owned m a n \<longrightarrow> f (s, m) = Some (Some x, (s', m')) \<longrightarrow>
     unat (bytes_left s') + k \<le> unat (bytes_left s))"

lemma dtakes_bnd:
  assumes f: "takes k f" "buffer_reader f" and g: "\<And>x. safe lag a n (g x)"
  shows "dtakes k a n (bnd (on_stream f) g)"
  unfolding dtakes_def
proof (intro allI impI)
  fix s m y s' m'
  assume s: "buf_stream s" and own: "owned m a n" and "bnd (on_stream f) g (s, m) = Some (Some y, (s', m'))"
  then obtain x t where f': "f s = Some (Some x, t)" and g': "g x (t, m) = Some (Some y, (s', m'))"
    by (auto simp: bnd_eq_Some_Some on_stream_def split: option.splits)
  have t: "buf_stream t" using buffer_reader.keeps_buffer [OF f(2) s f'] .
  from g [of x] t own obtain r s2 m2 where "g x (t, m) = Some (r, (s2, m2))" "lag t s2" by (rule safeE) blast
  with g' have "lag t s'" by simp
  then have "unat (bytes_left s') \<le> unat (bytes_left t)" by (auto simp: lag_def)
  with f(1) s f' show "unat (bytes_left s') + k \<le> unat (bytes_left s)" by (fastforce simp: takes_def)
qed


lemma dtakes_varints:
  "dtakes (Suc 0) a (unat (data_size f)) (pb_dec_varint E f a)"
  "dtakes (Suc 0) a (unat (data_size f)) (pb_dec_uvarint E f a)"
  "dtakes (Suc 0) a (unat (data_size f)) (pb_dec_svarint E f a)"
  unfolding pb_dec_varint_def pb_dec_uvarint_def pb_dec_svarint_def Let_def
  by (intro dtakes_bnd takes_varint takes_svarint reader_intros loose.safe_if loose.safe_error
      loose.safe_weaken [OF safe_store_clamped]; simp)+

lemma dtakes_fixed:
  "dtakes (Suc 0) a 4 (pb_dec_fixed32 E f a)" "dtakes (Suc 0) a 8 (pb_dec_fixed64 E f a)"
  unfolding pb_dec_fixed32_def pb_dec_fixed64_def
  using loose.safe_store_u32 [of 0 4 a] loose.safe_store_u64 [of 0 8 a]
  by (auto intro!: dtakes_bnd takes_fixed32 takes_fixed64 reader_intros)

section \<open>Arrays\<close>

lemma packable_item:
  assumes "item_ok L f" and "ltype f \<le> PB_LTYPE_LAST_PACKABLE"
  shows "safe consumed a (unat (data_size f)) (pb_decoder D E (ltype f) f a)"
    and "dtakes (Suc 0) a (unat (data_size f)) (pb_decoder D E (ltype f) f a)"
proof -
  from assms consider "ltype f = PB_LTYPE_VARINT" | "ltype f = PB_LTYPE_UVARINT" | "ltype f = PB_LTYPE_SVARINT"
    | "ltype f = PB_LTYPE_FIXED32" "data_size f = 4" | "ltype f = PB_LTYPE_FIXED64" "data_size f = 8"
    by (auto simp: item_ok_def split: if_splits)
  then have "safe consumed a (unat (data_size f)) (pb_decoder D E (ltype f) f a) \<and>
    dtakes (Suc 0) a (unat (data_size f)) (pb_decoder D E (ltype f) f a)"
  proof cases
    case 4
    with safe_dec_fixed32 [of a E f] dtakes_fixed(1) [of a E f] show ?thesis by (simp add: pb_decoder_def)
  next
    case 5
    with safe_dec_fixed64 [of a E f] dtakes_fixed(2) [of a E f] show ?thesis by (simp add: pb_decoder_def)
  qed (simp_all add: pb_decoder_def safe_dec_varint safe_dec_uvarint safe_dec_svarint dtakes_varints)
  then show "safe consumed a (unat (data_size f)) (pb_decoder D E (ltype f) f a)"
    and "dtakes (Suc 0) a (unat (data_size f)) (pb_decoder D E (ltype f) f a)" by simp_all
qed

text \<open>Where item \<open>i\<close> of an array lies: the 32-bit product does not wrap inside the array.\<close>

lemma item_inside:
  fixes c :: u32
  assumes "i < c" and "unat (x :: u32) * unat c < 2 ^ 32" and "inside pd (unat x * unat c) n"
  shows "inside (pd + int (unat (x * i))) (unat x) n"
proof -
  have i: "unat i < unat c" using assms(1) by (simp add: word_less_nat_alt)
  then have "unat x * unat i \<le> unat x * unat c" by simp
  with assms(2) have "unat x * unat i < 2 ^ 32" by (rule order_le_less_trans [rotated])
  then have m: "unat (x * i) = unat x * unat i" by (simp add: unat_word_ariths)
  have "unat x * unat i + unat x \<le> unat x * unat c"
    using i mult_le_mono2 [of "Suc (unat i)" "unat c" "unat x"] by simp
  then have "int (unat x * unat i) + int (unat x) \<le> int (unat x * unat c)" by linarith
  with assms(3) show ?thesis unfolding inside_def m by linarith
qed

lemma load_u32_run:
  assumes "owned m b n" and "inside q 4 n"
  obtains count where "load_u32 (b + q) m = Some (Some count, m)"
  using load_safe [OF assms] by (auto simp: load_u32_def bnd_def)

lemma flagged_packed_loop:
  assumes func: "\<And>i. i < array_size (cur iter) \<Longrightarrow>
      safe consumed b n (func (pData iter + int (unat (data_size (cur iter) * i))))"
    "\<And>i. i < array_size (cur iter) \<Longrightarrow>
      dtakes (Suc 0) b n (func (pData iter + int (unat (data_size (cur iter) * i))))"
    and sz: "pSize iter = b + q" "inside q 4 n"
  shows "flagged b n (packed_loop func iter)"
  unfolding flagged_def
proof (intro allI impI)
  fix s m
  assume "buf_stream s" "owned m b n"
  then show "\<exists>flag s' m'. packed_loop func iter (s, m) = Some (Some flag, (s', m')) \<and> lag s s' \<and>
    (flag \<longrightarrow> consumed s s') \<and> same_outside b n m m'"
  proof (induction "unat (bytes_left s)" arbitrary: s m rule: less_induct)
    case less
    obtain count where count: "load_u32 (pSize iter) m = Some (Some count, m)"
      using load_u32_run [OF less.prems(2) sz(2)] sz(1) by metis
    let ?f = "func (pData iter + int (unat (data_size (cur iter) * count)))"
    show ?case
    proof (cases "bytes_left s \<noteq> 0 \<and> count < array_size (cur iter)")
      case False
      with count have "packed_loop func iter (s, m) = Some (Some True, (s, m))"
        by (subst packed_loop.simps) (simp only: bnd_def on_mem_def option.case prod.case fst_conv if_False)
      then show ?thesis by (intro exI [of _ True] exI [of _ s] exI [of _ m]) (simp add: consumed_lag)
    next
      case True
      then have "safe consumed b n ?f" using func(1) by blast
      from this less.prems obtain r s1 m1 where f: "?f (s, m) = Some (r, (s1, m1))" "consumed s s1"
        "same_outside b n m m1" by (rule safeE) blast
      have own1: "owned m1 b n" using same_outside_owned [OF f(3) less.prems(2)] .
      show ?thesis
      proof (cases r)
        case None
        with True count f(1) have "packed_loop func iter (s, m) = Some (Some False, (s1, m1))"
          by (subst packed_loop.simps) (simp add: bnd_def on_mem_def status_of_def)
        with f(2,3) show ?thesis
          by (intro exI [of _ False] exI [of _ s1] exI [of _ m1]) (simp add: consumed_lag)
      next
        case (Some u)
        have "unat (bytes_left s1) + Suc 0 \<le> unat (bytes_left s)"
          using func(2) True less.prems f(1) Some unfolding dtakes_def by blast
        then have smaller: "unat (bytes_left s1) < unat (bytes_left s)" by simp
        obtain c1 where c1: "load_u32 (pSize iter) m1 = Some (Some c1, m1)"
          using load_u32_run [OF own1 sz(2)] sz(1) by metis
        obtain m2 where m2: "store_u32 (pSize iter) (c1 + 1) m1 = Some (Some (), m2)" "same_outside b n m1 m2"
          using store_u32_safe [OF own1 sz(2)] sz(1) by metis
        have own2: "owned m2 b n" using same_outside_owned [OF m2(2) own1] .
        have step: "packed_loop func iter (s, m) = packed_loop func iter (s1, m2)"
          using True count f(1) Some c1 m2(1)
          by (subst packed_loop.simps) (simp add: bnd_def on_mem_def status_of_def)
        obtain flag s' m' where rec: "packed_loop func iter (s1, m2) = Some (Some flag, (s', m'))" "lag s1 s'"
          "flag \<longrightarrow> consumed s1 s'" "same_outside b n m2 m'"
          using less.hyps [OF smaller consumed_buf_stream [OF f(2) less.prems(1)] own2] by blast
        have "lag s s'" using consumed_lag [OF f(2)] rec(2) by (rule lag_trans)
        moreover have "same_outside b n m m'"
          using f(3) m2(2) rec(4) by (blast intro: same_outside_trans)
        moreover have "flag \<longrightarrow> consumed s s'" using rec(3) f(2) consumed_trans by blast
        ultimately show ?thesis using step rec(1) by auto
      qed
    qed
  qed
qed


lemma safe_decode_packed:
  assumes "flagged b n (packed_loop func iter)"
  shows "safe lag b n (decode_packed E func iter)"
  unfolding decode_packed_def
  by (rule safe_with_substream [OF assms]) auto

lemma safe_decode_repeated:
  assumes func: "\<And>i. i < array_size (cur iter) \<Longrightarrow>
      safe lag b n (func (pData iter + int (unat (data_size (cur iter) * i))))"
    and sz: "pSize iter = b + q" "inside q 4 n"
  shows "safe lag b n (decode_repeated func iter)"
  unfolding decode_repeated_def sz(1)
  using sz(2) func
  by (intro loose.safe_bnd loose.safe_if loose.safe_error loose.safe_load_u32 loose.safe_store_u32) (simp_all add: not_le)

section \<open>Submessages, callbacks and fields\<close>

text \<open>The calls for submessages, given as parameters of the model's operations.\<close>

definition calls_ok :: "(pb_field list \<Rightarrow> nat \<Rightarrow> bool) \<Rightarrow> msg_dec \<Rightarrow> msg_init \<Rightarrow> bool" where
  "calls_ok L D S \<longleftrightarrow> (\<forall>fs n a. L fs n \<longrightarrow>
     (\<forall>init. safe lag a n (D init fs a)) \<and>
     (\<forall>m. owned m a n \<longrightarrow> (\<exists>m'. S fs a m = Some (Some (), m') \<and> same_outside a n m m')))"

text \<open>
  User callbacks: they return, read the stream only through the library, write only to their
  \<open>arg\<close>, and take at least one byte of a stream that is not empty when they succeed.
\<close>

definition user_reads :: "dec_env \<Rightarrow> bool" where
  "user_reads E \<longleftrightarrow> (\<forall>p f a. safe lag a 8 (field_cb E p f a) \<and>
     (\<forall>s m s' m'. buf_stream s \<longrightarrow> field_cb E p f a (s, m) = Some (Some (), (s', m')) \<longrightarrow>
        bytes_left s \<noteq> 0 \<longrightarrow> bytes_left s' < bytes_left s))"

lemma safe_item:
  assumes item: "item_ok L f" and calls: "calls_ok L D S"
  shows "safe lag a (unat (data_size f)) (pb_decoder D E (ltype f) f a)"
proof (cases "ltype f = PB_LTYPE_SUBMESSAGE")
  case True
  with item obtain fs where fs: "field_ptr f = Ptr_submsg fs" "L fs (unat (data_size f))"
    by (auto simp: item_ok_def split: pb_ptr.splits)
  with calls have "safe lag a (unat (data_size f)) (D (htype f = PB_HTYPE_REPEATED) fs a)"
    by (simp add: calls_ok_def)
  then have "flagged a (unat (data_size f)) (status_of (D (htype f = PB_HTYPE_REPEATED) fs a))"
    by (rule flagged_status_of)
  then have "safe lag a (unat (data_size f)) (pb_dec_submessage D E f a)"
    unfolding pb_dec_submessage_def fs(1) pb_ptr.case
    by (rule safe_with_substream) auto
  with True show ?thesis by (simp add: pb_decoder_def)
next
  case False
  show ?thesis
  proof (cases "ltype f \<le> PB_LTYPE_LAST_PACKABLE")
    case True
    then show ?thesis by (rule loose.safe_weaken [OF packable_item(1) [OF item]])
  next
    case big: False
    with False item consider "ltype f = PB_LTYPE_BYTES" | "ltype f = PB_LTYPE_STRING"
      | "ltype f = PB_LTYPE_FIXED_LENGTH_BYTES" by (auto simp: item_ok_def)
    then show ?thesis
      by cases (simp_all add: pb_decoder_def loose.safe_weaken safe_dec_bytes safe_dec_string
          safe_dec_fixed_length_bytes)
  qed
qed

lemma submsg_defaults_safe:
  assumes "item_ok L f" and "ltype f = PB_LTYPE_SUBMESSAGE" and "calls_ok L D S"
    and "owned m a (unat (data_size f))"
  shows "\<exists>m'. submsg_defaults S f a m = Some (Some (), m') \<and> same_outside a (unat (data_size f)) m m'"
  using assms by (auto simp: item_ok_def calls_ok_def submsg_defaults_def split: pb_ptr.splits)

lemma safe_static_field:
  assumes ok: "field_ok L n (cur iter) pd ps" and static: "atype (cur iter) = PB_ATYPE_STATIC"
    and at: "pData iter = b + pd" "pSize iter = b + ps" and calls: "calls_ok L D S"
  shows "safe lag b n (decode_static_field D S E wire_type iter)"
proof -
  let ?f = "cur iter" and ?n = "unat (data_size (cur iter))"
  let ?func = "pb_decoder D E (ltype ?f) ?f"
  have item: "item_ok L ?f" using ok static by (simp add: field_ok_def)
  have one: "safe lag b n (?func (b + off))" if "inside off ?n n" for off
    using safe_item [OF item calls] that by (rule safe_region)
  show ?thesis
  proof (cases "htype ?f = PB_HTYPE_REPEATED")
    case True
    with ok static have arr: "inside pd (?n * unat (array_size ?f)) n"
      "?n * unat (array_size ?f) < 2 ^ 32" "inside ps 4 n" by (auto simp: field_ok_def)
    have items: "safe lag b n (?func (pData iter + int (unat (data_size ?f * i))))" if "i < array_size ?f" for i
      using one [OF item_inside [OF that arr(2,1)]] by (simp only: at(1) add.assoc)
    have "safe lag b n (decode_repeated ?func iter)"
      using items at(2) arr(3) by (rule safe_decode_repeated)
    moreover have "safe lag b n (decode_packed E ?func iter)" if p: "ltype ?f \<le> PB_LTYPE_LAST_PACKABLE"
    proof (rule safe_decode_packed, rule flagged_packed_loop)
      fix i
      assume "i < array_size ?f"
      note ins = item_inside [OF this arr(2,1)]
      show "safe consumed b n (?func (pData iter + int (unat (data_size ?f * i))))"
        using safe_region [OF packable_item(1) [OF item p] ins] by (simp only: at(1) add.assoc)
      have "dtakes (Suc 0) (b + (pd + int (unat (data_size ?f * i)))) ?n
          (?func (b + (pd + int (unat (data_size ?f * i)))))"
        by (rule packable_item(2) [OF item p])
      then show "dtakes (Suc 0) b n (?func (pData iter + int (unat (data_size ?f * i))))"
        using inside_owned [OF ins, of _ b] unfolding dtakes_def by (simp only: at(1) add.assoc) blast
    qed (use at(2) arr(3) in simp_all)
    ultimately show ?thesis using True by (simp add: decode_static_field_def Let_def)
  next
    case False
    with ok static have ins: "inside pd ?n n"
      "htype ?f = PB_HTYPE_OPTIONAL \<Longrightarrow> ps \<noteq> pd \<Longrightarrow> inside ps 1 n"
      "htype ?f = PB_HTYPE_ONEOF \<Longrightarrow> inside ps 4 n" by (auto simp: field_ok_def split: if_splits)
    have sub: "safe lag b n (on_mem (submsg_defaults S ?f (b + pd)))" if "ltype ?f = PB_LTYPE_SUBMESSAGE"
      by (rule loose.safe_mem)
        (use submsg_defaults_safe [OF item that calls inside_owned [OF ins(1)]] inside_same [OF ins(1)] in blast)
    show ?thesis
      unfolding decode_static_field_def Let_def at
      by (intro loose.safe_if loose.safe_bnd loose.safe_error loose.safe_ret loose.safe_store loose.safe_store_u32
          one [OF ins(1)] sub) (use ins False in simp_all)
  qed
qed


text \<open>The callback is called until the substream is empty; each call takes some of it.\<close>

lemma flagged_callback_loop:
  assumes cb: "safe lag b n cb"
    and progress: "\<And>s m s' m'. buf_stream s \<Longrightarrow> cb (s, m) = Some (Some (), (s', m')) \<Longrightarrow>
      bytes_left s \<noteq> 0 \<Longrightarrow> bytes_left s' < bytes_left s"
  shows "flagged b n (callback_loop cb)"
  unfolding flagged_def
proof (intro allI impI)
  fix s m
  assume "buf_stream s" "owned m b n"
  then show "\<exists>flag s' m'. callback_loop cb (s, m) = Some (Some flag, (s', m')) \<and> lag s s' \<and>
    (flag \<longrightarrow> consumed s s') \<and> same_outside b n m m'"
  proof (induction "unat (bytes_left s)" arbitrary: s m rule: less_induct)
    case less
    from cb less.prems obtain r s1 m1 where f: "cb (s, m) = Some (r, (s1, m1))" "lag s s1"
      "r \<noteq> None \<Longrightarrow> consumed s s1" "same_outside b n m m1" by (rule safeE) blast
    show ?case
    proof (cases r)
      case None
      with f(1) have "callback_loop cb (s, m) = Some (Some False, (s1, m1))"
        by (subst callback_loop.simps) (simp add: bnd_def status_of_def)
      with f(2,4) show ?thesis by (intro exI [of _ False] exI [of _ s1] exI [of _ m1]) simp
    next
      case (Some u)
      with f(3) have c: "consumed s s1" by simp
      show ?thesis
      proof (cases "bytes_left s1 = 0")
        case True
        with f(1) Some have "callback_loop cb (s, m) = Some (Some True, (s1, m1))"
          by (subst callback_loop.simps) (simp add: bnd_def status_of_def)
        with f(2,4) c show ?thesis by (intro exI [of _ True] exI [of _ s1] exI [of _ m1]) simp
      next
        case False
        have "bytes_left s \<noteq> 0" using False consumed_bytes_left [OF c] by (simp add: unat_eq_0 [symmetric])
        with progress less.prems(1) f(1) Some have "unat (bytes_left s1) < unat (bytes_left s)"
          by (simp add: word_less_nat_alt)
        from less.hyps [OF this consumed_buf_stream [OF c less.prems(1)] same_outside_owned [OF f(4) less.prems(2)]]
        obtain flag s' m' where rec: "callback_loop cb (s1, m1) = Some (Some flag, (s', m'))" "lag s1 s'"
          "flag \<longrightarrow> consumed s1 s'" "same_outside b n m1 m'" by blast
        have "callback_loop cb (s, m) = callback_loop cb (s1, m1)"
          using f(1) Some False by (subst callback_loop.simps) (simp add: bnd_def status_of_def)
        moreover have "lag s s'" using f(2) rec(2) by (rule lag_trans)
        moreover have "same_outside b n m m'" using f(4) rec(4) by (rule same_outside_trans)
        moreover have "flag \<longrightarrow> consumed s s'" using rec(3) c consumed_trans by blast
        ultimately show ?thesis using rec(1) by auto
      qed
    qed
  qed
qed

lemma read_raw_varint_length:
  assumes "buf_stream s"
  shows "read_raw_varint E k sz buf s = Some (Some bs, s') \<Longrightarrow> length buf = sz \<Longrightarrow> length bs \<le> k"
  using assms
proof (induction E k sz buf arbitrary: s rule: read_raw_varint.induct)
  case (1 E k sz buf)
  show ?case
  proof (cases "avail s")
    case Nil
    with 1(2,4) show ?thesis
      by (subst (asm) read_raw_varint.simps) (simp add: bnd_read_1_empty split: if_splits)
  next
    case (Cons b cs)
    note adv = avail_Cons_advance [OF 1(4) Cons]
    show ?thesis
    proof (cases "k < Suc sz")
      case True
      with 1(2) show ?thesis by (subst (asm) read_raw_varint.simps) simp
    next
      case False
      then have step: "read_raw_varint E k sz buf s =
          (if b AND 0x80 \<noteq> 0 then read_raw_varint E k (Suc sz) (buf @ [b]) (advance 1 s)
           else ret (buf @ [b]) (advance 1 s))"
        by (subst read_raw_varint.simps) (simp add: bnd_read_1 [OF 1(4) Cons])
      show ?thesis
      proof (cases "b AND 0x80 \<noteq> 0")
        case True
        with step 1(2,3) show ?thesis
          using 1(1) [OF False, of "[b]" "advance 1 s"] adv(2) by simp
      next
        case b: False
        with step 1(2,3) False show ?thesis by auto
      qed
    qed
  qed
qed


lemma read_raw_value_length:
  assumes s: "buf_stream s" and r: "read_raw_value E wire_type 10 s = Some (Some bs, s')"
  shows "length bs \<le> 10"
proof -
  have fixed: "length bs = unat count" if "pb_read E count s = Some (Some bs, s')" for count
  proof -
    have "count \<le> bytes_left s" using that pb_read_short [of s count E] by (fastforce simp: not_le)
    with that s show ?thesis by (auto simp: pb_read_buffer word_le_nat_alt)
  qed
  from r consider "read_raw_varint E 10 0 [] s = Some (Some bs, s')" | "pb_read E 8 s = Some (Some bs, s')"
    | "pb_read E 4 s = Some (Some bs, s')"
    by (auto simp: read_raw_value_def pb_return_error_def split: if_splits)
  then show ?thesis
    by cases (use read_raw_varint_length [OF s] fixed in fastforce)+
qed

lemma safe_callback_field:
  assumes user: "user_reads E" and at: "pData iter = b + pd" and ins: "inside pd 16 n"
  shows "safe lag b n (decode_callback_field E wire_type iter)"
proof -
  have ins8: "inside pd 8 n" "inside (pd + 8) 8 n" using ins by (simp_all add: inside_def)
  let ?cb = "\<lambda>p. field_cb E p (cur iter) (b + pd + 8)"
  have cb: "safe lag b n (?cb p)" for p
  proof -
    have "safe lag (b + (pd + 8)) 8 (?cb p)" using user by (simp add: user_reads_def add.assoc)
    then show ?thesis using ins8(2) by (rule safe_region)
  qed
  have string: "safe lag b n (with_substream E (callback_loop (?cb p)) (\<lambda>ok sub.
      if ok \<noteq> Some True then derror ''callback failed'' else close_substream E sub))" for p
  proof (rule safe_with_substream)
    show "flagged b n (callback_loop (?cb p))"
      using cb by (rule flagged_callback_loop) (use user in \<open>unfold user_reads_def, blast\<close>)
    have "close_substream E sub = bnd (close_substream E sub) (\<lambda>_. return_status True)" for sub
      by (rule ext) (simp add: bnd_def return_status_def split: option.splits prod.splits)
    then show "(\<exists>msg. (if Some flag \<noteq> Some True then derror ''callback failed'' else close_substream E sub) = derror msg) \<or>
      (\<exists>c. (c \<longrightarrow> flag) \<and> (if Some flag \<noteq> Some True then derror ''callback failed'' else close_substream E sub) =
        bnd (close_substream E sub) (\<lambda>_. return_status c))" for flag sub
      by (cases flag) auto
  qed
  have scalar: "safe lag b n (bnd (on_stream (read_raw_value (read_cb E) wire_type 10)) (\<lambda>buffer. \<lambda>(s, m).
      case ?cb p (pb_istream_from_buffer buffer (of_nat (length buffer)), m) of
        None \<Rightarrow> None | Some (r, (_, m')) \<Rightarrow> Some (r, (s, m'))))" for p
  proof (rule safeI)
    fix s m
    assume s: "buf_stream s" and own: "owned m b n"
    from buffer_reader.result [OF reader_read_raw_value s]
    obtain r s1 where r: "read_raw_value (read_cb E) wire_type 10 s = Some (r, s1)" "consumed s s1" by blast
    let ?run = "bnd (on_stream (read_raw_value (read_cb E) wire_type 10)) (\<lambda>buffer. \<lambda>(s, m).
      case ?cb p (pb_istream_from_buffer buffer (of_nat (length buffer)), m) of
        None \<Rightarrow> None | Some (r, (_, m')) \<Rightarrow> Some (r, (s, m')))"
    show "\<exists>r s' m'. ?run (s, m) = Some (r, (s', m')) \<and> lag s s' \<and> (r \<noteq> None \<longrightarrow> consumed s s') \<and>
      same_outside b n m m'"
    proof (cases r)
      case None
      with r show ?thesis by (simp add: bnd_def on_stream_def consumed_lag)
    next
      case (Some bs)
      with read_raw_value_length [OF s] r(1) have "length bs \<le> 10" by simp
      then have "buf_stream (pb_istream_from_buffer bs (of_nat (length bs)))"
        by (intro buf_stream_from_buffer) (simp add: unsigned_of_nat take_bit_nat_eq_self)
      from cb this own obtain q s2 m2 where
        "?cb p (pb_istream_from_buffer bs (of_nat (length bs)), m) = Some (q, (s2, m2))" "same_outside b n m m2"
        by (rule safeE) blast
      with r Some show ?thesis by (simp add: bnd_def on_stream_def consumed_lag)
    qed
  qed
  show ?thesis
    unfolding decode_callback_field_def Let_def at
    using ins8(1)
    by (intro loose.safe_bnd loose.safe_if loose.safe_load_u64 loose.safe_stream reader_intros string scalar)
qed

lemma safe_decode_field:
  assumes ok: "field_ok L n (cur iter) pd ps" and at: "pData iter = b + pd" "pSize iter = b + ps"
    and calls: "calls_ok L D S" and user: "user_reads E"
  shows "safe lag b n (decode_field D S E wire_type iter)"
proof (cases "atype (cur iter) = PB_ATYPE_STATIC")
  case True
  with safe_static_field [OF ok True at calls] show ?thesis by (simp add: decode_field_def)
next
  case False
  with ok have "atype (cur iter) = PB_ATYPE_CALLBACK" "inside pd 16 n" by (simp_all add: field_ok_def)
  with safe_callback_field [OF user at(1)] show ?thesis by (simp add: decode_field_def)
qed

section \<open>Default values\<close>

lemma set_static_default_safe:
  assumes ok: "field_ok L n (cur iter) pd ps" and static: "atype (cur iter) = PB_ATYPE_STATIC"
    and at: "pData iter = b + pd" "pSize iter = b + ps" and calls: "calls_ok L D S" and own: "owned m b n"
  shows "\<exists>m'. set_static_default S iter m = Some (Some (), m') \<and> same_outside b n m m'"
proof -
  let ?f = "cur iter"
  have item: "item_ok L ?f" using ok static by (simp add: field_ok_def)
  show ?thesis
  proof (cases "htype ?f = PB_HTYPE_REPEATED \<or> htype ?f = PB_HTYPE_ONEOF")
    case True
    with ok static have "inside ps 4 n" by (auto simp: field_ok_def split: if_splits)
    from store_u32_safe [OF own this] True show ?thesis by (simp add: set_static_default_def Let_def at)
  next
    case False
    with ok static have ins: "inside pd (unat (data_size ?f)) n"
      "htype ?f = PB_HTYPE_OPTIONAL \<Longrightarrow> ps \<noteq> pd \<Longrightarrow> inside ps 1 n"
      by (auto simp: field_ok_def split: if_splits)
    have data: "\<exists>m'. (if ltype ?f = PB_LTYPE_SUBMESSAGE then submsg_defaults S ?f (b + pd)
        else case default_bytes ?f of None \<Rightarrow> undefined_behaviour | Some bs \<Rightarrow> store (b + pd) bs) m1 = Some (Some (), m') \<and>
      same_outside b n m1 m'" if own1: "owned m1 b n" for m1
    proof (cases "ltype ?f = PB_LTYPE_SUBMESSAGE")
      case True
      with submsg_defaults_safe [OF item True calls inside_owned [OF ins(1) own1]] inside_same [OF ins(1)]
      show ?thesis by auto
    next
      case False
      with item obtain bs where "default_bytes ?f = Some bs" "length bs = unat (data_size ?f)"
        by (auto simp: item_ok_def default_bytes_def split: pb_ptr.splits)
      with False store_safe [OF own1, of pd bs] ins(1) show ?thesis by auto
    qed
    show ?thesis
    proof (cases "htype ?f = PB_HTYPE_OPTIONAL \<and> ps \<noteq> pd")
      case True
      then obtain m1 where m1: "store (b + ps) [0] m = Some (Some (), m1)" "same_outside b n m m1"
        using store_safe [OF own, of ps "[0]"] ins(2) by auto
      from data [OF same_outside_owned [OF m1(2) own]] m1 True False show ?thesis
        unfolding set_static_default_def Let_def at
        by (auto simp: bnd_def intro: same_outside_trans)
    next
      case no_flag: False
      from data [OF own] False no_flag show ?thesis
        unfolding set_static_default_def Let_def at by auto
    qed
  qed
qed


lemma for_each_field_mem:
  assumes g: "\<And>i m. i < n_fields fs \<Longrightarrow> owned m b n \<Longrightarrow>
      \<exists>m'. g (iter_at fs dest i) m = Some (Some (), m') \<and> same_outside b n m m'"
    and i: "i < n_fields fs" and own: "owned m b n"
  shows "\<exists>m'. for_each_field g (iter_at fs dest i) m = Some (Some (), m') \<and> same_outside b n m m'"
proof -
  have "\<forall>m. owned m b n \<longrightarrow> (\<exists>m'. for_each_field g (iter_at fs dest i) m = Some (Some (), m') \<and> same_outside b n m m')"
  proof (rule for_each_field_induct [OF _ _ i])
    fix i and h :: "(mem, unit) act"
    assume "i < n_fields fs"
      and h: "\<forall>m. owned m b n \<longrightarrow> (\<exists>m'. h m = Some (Some (), m') \<and> same_outside b n m m')"
    show "\<forall>m. owned m b n \<longrightarrow>
        (\<exists>m'. bnd (g (iter_at fs dest i)) (\<lambda>_. h) m = Some (Some (), m') \<and> same_outside b n m m')"
    proof (intro allI impI)
      fix m
      assume own: "owned m b n"
      from g [OF \<open>i < n_fields fs\<close> own] obtain m1 where m1: "g (iter_at fs dest i) m = Some (Some (), m1)"
        "same_outside b n m m1" by blast
      from h same_outside_owned [OF m1(2) own] obtain m2 where "h m1 = Some (Some (), m2)"
        "same_outside b n m1 m2" by blast
      with m1 show "\<exists>m'. bnd (g (iter_at fs dest i)) (\<lambda>_. h) m = Some (Some (), m') \<and> same_outside b n m m'"
        by (auto simp: bnd_true intro: same_outside_trans)
    qed
  qed simp
  with own show ?thesis by blast
qed

lemma iter_field_ok:
  assumes "layout_ok (Suc d) fs n" and "i < n_fields fs"
  shows "field_ok (layout_ok d) n (cur (iter_at fs dest i)) (data_offset_at fs i) (size_offset_at fs i)"
    and "pData (iter_at fs dest i) = dest + data_offset_at fs i"
    and "pSize (iter_at fs dest i) = dest + size_offset_at fs i"
  using layout_okD [OF assms] by (simp_all add: cur_iter_at pData_at pSize_at assms(2))

text \<open>Setting defaults needs two units of depth for each level of nesting.\<close>

lemma set_defaults_safe:
  assumes "layout_ok d fs n" and "2 * d \<le> k" and "owned m a n"
  shows "\<exists>m'. pb_message_set_to_defaults E k fs a m = Some (Some (), m') \<and> same_outside a n m m'"
  using assms
proof (induction d arbitrary: k fs n a m)
  case (Suc d)
  from Suc.prems(2) obtain k' where k: "k = Suc (Suc k')" "2 * d \<le> k'"
    by (cases k; cases "k - 1") auto
  define S where "S = (\<lambda>fs' a'. pb_message_set_to_defaults E k' fs' a')"
  have calls: "calls_ok (layout_ok d) (\<lambda>_ _ _. ret_false) S"
    using Suc.IH [OF _ k(2)] by (auto simp: calls_ok_def S_def safe_def consumed_lag)
  show ?case
  proof (cases "0 < n_fields fs")
    case True
    have "\<exists>m'. pb_field_set_to_default E (Suc k') (iter_at fs a i) m = Some (Some (), m') \<and> same_outside a n m m'"
      if i: "i < n_fields fs" and own: "owned m a n" for i m
    proof -
      note ok = iter_field_ok [OF Suc.prems(1) i, of a]
      from ok(1) consider "atype (cur (iter_at fs a i)) = PB_ATYPE_STATIC"
        | "atype (cur (iter_at fs a i)) = PB_ATYPE_CALLBACK" by (auto simp: field_ok_def)
      then show ?thesis
      proof cases
        case 1
        from set_static_default_safe [OF ok(1) 1 ok(2,3) calls own] 1 ok(1) show ?thesis
          by (simp add: pb_field_set_to_default.simps(2) field_ok_def S_def)
      next
        case 2
        with ok(1) show ?thesis by (simp add: pb_field_set_to_default.simps(2) field_ok_def)
      qed
    qed
    then have "\<exists>m'. for_each_field (\<lambda>iter. pb_field_set_to_default E (Suc k') iter) (iter_at fs a 0) m = Some (Some (), m') \<and>
        same_outside a n m m'"
      using True Suc.prems(3) by (rule for_each_field_mem)
    with True show ?thesis
      by (simp add: k(1) pb_message_set_to_defaults.simps(2) begin_True)
  next
    case False
    then show ?thesis by (simp add: k(1) pb_message_set_to_defaults.simps(2) begin_True)
  qed
qed simp


section \<open>The iterator while a message is decoded\<close>

text \<open>The fields of a message, or the terminator of an empty one.\<close>

definition at_field :: "pb_field list \<Rightarrow> nat \<Rightarrow> bool" where
  "at_field fs p \<longleftrightarrow> p < n_fields fs \<or> n_fields fs = 0 \<and> p = 0"

lemma at_field_simps:
  assumes "at_field fs p"
  shows "start (iter_at fs dest p) = fs" "pos (iter_at fs dest p) = p" "cur (iter_at fs dest p) = field_at fs p"
  using assms by (auto simp: at_field_def iter_at_simps cur_iter_at cur_def)

lemma search_at_field:
  assumes "at_field fs p" and last: "field_at fs (n_fields fs) = PB_LAST_FIELD"
  shows "\<exists>b q. iter_search P p (iter_at fs dest p) = Some (b, iter_at fs dest q) \<and> at_field fs q \<and>
    (b \<longrightarrow> P (field_at fs q))"
proof (cases "p < n_fields fs")
  case True
  from iter_search_from [OF True, of P dest] True show ?thesis
    by (auto simp: at_field_def)
next
  case False
  with assms have e: "n_fields fs = 0" "p = 0" by (auto simp: at_field_def)
  with last have z: "field_at fs 0 = PB_LAST_FIELD" by simp
  have nxt: "pb_field_iter_next (iter_at fs dest 0) = (False, iter_at fs dest 0)"
    by (simp add: pb_field_iter_next_def cur_def z PB_LAST_FIELD_def)
  have "iter_search P 0 (iter_at fs dest 0) = Some (P PB_LAST_FIELD, iter_at fs dest 0)"
    by (subst iter_search.simps) (simp add: nxt [simplified] cur_def z)
  with e z show ?thesis by (auto simp: at_field_def)
qed

lemma layout_field_ok:
  assumes "layout_ok (Suc d) fs n" and "at_field fs p"
  shows "\<exists>pd ps. field_ok (layout_ok d) n (cur (iter_at fs dest p)) pd ps \<and>
    pData (iter_at fs dest p) = dest + pd \<and> pSize (iter_at fs dest p) = dest + ps"
proof (cases "p < n_fields fs")
  case True
  from iter_field_ok [OF assms(1) True] show ?thesis by blast
next
  case False
  with assms have e: "n_fields fs = 0" "p = 0" "field_at fs 0 = PB_LAST_FIELD" by (auto simp: at_field_def)
  have "field_ok (layout_ok d) n PB_LAST_FIELD 0 0"
    by (simp add: field_ok_def item_ok_def PB_LAST_FIELD_def PB_LTYPE_def PB_ATYPE_def PB_HTYPE_def inside_def)
  with e show ?thesis
    by (intro exI [of _ 0]) (simp add: cur_def pb_field_iter_begin_def Let_def PB_LAST_FIELD_def)
qed

section \<open>One turn of the decoding loop\<close>

lemma decode_tag_buffer:
  assumes "buf_stream s"
  obtains wt t s' where "pb_decode_tag E s = Some (Tag wt t, s')" "consumed s s'"
      "unat (bytes_left s') < unat (bytes_left s)" "t < 0xFFFFFFFF"
  | eof s' where "pb_decode_tag E s = Some (No_tag eof, s')" "consumed s s'"
proof -
  from buffer_reader.result [OF reader_pb_decode_varint32 assms] obtain r s' where
    r: "pb_decode_varint32 E s = Some (r, s')" "consumed s s'" by blast
  show ?thesis
  proof (cases r)
    case None
    with r that(2) show ?thesis by (simp add: pb_decode_tag_def)
  next
    case (Some temp)
    with takes_varint32 [of E] assms r(1) have "unat (bytes_left s') < unat (bytes_left s)"
      by (fastforce simp: takes_def)
    moreover have "unat (drop_bit 3 temp) < 0xFFFFFFFF"
      using unat_lt_32 [of temp] by (simp add: unat_drop_bit)
    then have "drop_bit 3 temp < 0xFFFFFFFF" by (simp add: word_less_nat_alt)
    ultimately show ?thesis using r Some that by (cases "temp = 0") (auto simp: pb_decode_tag_def)
  qed
qed

definition vars_ok :: "pb_field list \<Rightarrow> int \<Rightarrow> loop_vars \<Rightarrow> bool" where
  "vars_ok fs dest v \<longleftrightarrow> length (fields_seen v) = 2 \<and> (\<exists>p. at_field fs p \<and> viter v = iter_at fs dest p)"

lemma length_mark_seen: "length (mark_seen iter seen) = length seen"
  by (simp add: mark_seen_def Let_def)

text \<open>Without extension fields an unknown tag is skipped.\<close>

lemma unknown_field_skips:
  assumes lay: "layout_ok (Suc d) fs n" and p: "at_field fs p" and t: "t < 0xFFFFFFFF"
  shows "\<exists>ext. unknown_field D S E t wire_type (iter_at fs dest p) ext_start =
    bnd (on_stream (pb_skip_field (read_cb E) wire_type)) (\<lambda>_. ret (iter_at fs dest p, ext))"
proof (cases "ext_start \<le> t")
  case True
  have last: "field_at fs (n_fields fs) = PB_LAST_FIELD" using lay by simp
  have no_ext: "ltype (field_at fs q) \<noteq> PB_LTYPE_EXTENSION" if "at_field fs q" for q
    using layout_field_ok [OF lay that, of 0] at_field_simps(3) [OF that] by (auto simp: field_ok_def)
  have "iter_search (\<lambda>f. ltype f = PB_LTYPE_EXTENSION) p (iter_at fs dest p) = Some (False, iter_at fs dest p)"
  proof (cases "p < n_fields fs")
    case True
    from iter_search_from [OF True, of "\<lambda>f. ltype f = PB_LTYPE_EXTENSION" dest] no_ext show ?thesis
      by (auto simp: at_field_def)
  next
    case False
    with p have "n_fields fs = 0" "p = 0" by (auto simp: at_field_def)
    with search_at_field [OF p last, of "\<lambda>f. ltype f = PB_LTYPE_EXTENSION" dest] no_ext show ?thesis
      by (auto simp: at_field_def)
  qed
  with True t show ?thesis
    by (auto simp: unknown_field_def find_extension_field_def at_field_simps [OF p] not_le [symmetric])
next
  case False
  then show ?thesis by (auto simp: unknown_field_def)
qed


lemma decode_step_safe:
  assumes lay: "layout_ok (Suc d) fs n" and calls: "calls_ok (layout_ok d) D S" and user: "user_reads E"
    and v: "vars_ok fs dest v" and s: "buf_stream s" and own: "owned m dest n"
  shows "\<exists>r s' m'. decode_step D S E v (s, m) = Some (r, (s', m')) \<and> lag s s' \<and> same_outside dest n m m' \<and>
    (\<forall>go v'. r = Some (go, v') \<longrightarrow> consumed s s' \<and> vars_ok fs dest v' \<and>
      (go \<longrightarrow> unat (bytes_left s') < unat (bytes_left s)))"
proof (rule decode_tag_buffer [OF s, of "read_cb E"])
  fix eof s'
  assume "pb_decode_tag (read_cb E) s = Some (No_tag eof, s')" "consumed s s'"
  with v show ?thesis by (simp add: decode_step_def consumed_lag)
next
  fix wt t s1
  assume tag: "pb_decode_tag (read_cb E) s = Some (Tag wt t, s1)" and c: "consumed s s1"
    and less: "unat (bytes_left s1) < unat (bytes_left s)" and t: "t < 0xFFFFFFFF"
  have s1: "buf_stream s1" using consumed_buf_stream [OF c s] .
  from v obtain p where p: "at_field fs p" "viter v = iter_at fs dest p" and seen: "length (fields_seen v) = 2"
    by (auto simp: vars_ok_def)
  have last: "field_at fs (n_fields fs) = PB_LAST_FIELD" using lay by simp
  obtain found q where q: "pb_field_iter_find (viter v) t = Some (found, iter_at fs dest q)" "at_field fs q"
    using search_at_field [OF p(1) last, of "field_has_tag t" dest]
    by (auto simp: pb_field_iter_find_def p(2) at_field_simps [OF p(1)])
  have result: ?thesis if run: "decode_step D S E v (s, m) = bnd f (\<lambda>x. ret (True, w x)) (s1, m)"
    and f: "safe lag dest n f" and w: "\<And>x s' m'. f (s1, m) = Some (Some x, (s', m')) \<Longrightarrow> vars_ok fs dest (w x)"
    for f :: "'b dec" and w
  proof -
    from f s1 own obtain r s2 m2 where r: "f (s1, m) = Some (r, (s2, m2))" "lag s1 s2"
      "r \<noteq> None \<Longrightarrow> consumed s1 s2" "same_outside dest n m m2" by (rule safeE) blast
    have l: "lag s s2" using consumed_lag [OF c] r(2) by (rule lag_trans)
    show ?thesis
    proof (cases r)
      case None
      with r l show ?thesis by (simp add: run bnd_def)
    next
      case (Some x)
      with r(3) have c2: "consumed s1 s2" by simp
      with less have "unat (bytes_left s2) < unat (bytes_left s)" using consumed_bytes_left by fastforce
      moreover have "consumed s s2" using c c2 by (rule consumed_trans)
      ultimately show ?thesis using r l Some w by (simp add: run bnd_def)
    qed
  qed
  show ?thesis
  proof (cases found)
    case True
    from layout_field_ok [OF lay q(2), of dest] obtain pd ps where
      ok: "field_ok (layout_ok d) n (cur (iter_at fs dest q)) pd ps" and
      at: "pData (iter_at fs dest q) = dest + pd" "pSize (iter_at fs dest q) = dest + ps" by blast
    show ?thesis
    proof (rule result)
      show "decode_step D S E v (s, m) = bnd (decode_field D S E wt (iter_at fs dest q))
          (\<lambda>x. ret (True, v\<lparr>viter := iter_at fs dest q, fields_seen := mark_seen (iter_at fs dest q) (fields_seen v)\<rparr>)) (s1, m)"
        using True by (simp add: decode_step_def tag q(1))
      show "safe lag dest n (decode_field D S E wt (iter_at fs dest q))"
        using ok at calls user by (rule safe_decode_field)
    qed (use q(2) seen in \<open>auto simp: vars_ok_def length_mark_seen\<close>)
  next
    case False
    from unknown_field_skips [OF lay q(2) t, of D S E wt dest "extension_range_start v"] obtain ext where
      skip: "unknown_field D S E t wt (iter_at fs dest q) (extension_range_start v) =
        bnd (on_stream (pb_skip_field (read_cb E) wt)) (\<lambda>_. ret (iter_at fs dest q, ext))" by blast
    show ?thesis
    proof (rule result)
      show "decode_step D S E v (s, m) = bnd (on_stream (pb_skip_field (read_cb E) wt))
          (\<lambda>x. ret (True, v\<lparr>viter := iter_at fs dest q, extension_range_start := ext\<rparr>)) (s1, m)"
        by (simp only: decode_step_def prod.case tag option.case tag_result.case q(1) False bool.case skip bnd_assoc bnd_ret)
      show "safe lag dest n (on_stream (pb_skip_field (read_cb E) wt))"
        by (intro loose.safe_stream reader_intros)
    qed (use q(2) seen in \<open>auto simp: vars_ok_def\<close>)
  qed
qed

lemma decode_loop_safe:
  assumes lay: "layout_ok (Suc d) fs n" and calls: "calls_ok (layout_ok d) D S" and user: "user_reads E"
    and "vars_ok fs dest v" and "buf_stream s" and "owned m dest n"
  shows "\<exists>r s' m'. decode_loop D S E v (s, m) = Some (r, (s', m')) \<and> lag s s' \<and> same_outside dest n m m' \<and>
    (\<forall>v'. r = Some v' \<longrightarrow> consumed s s' \<and> vars_ok fs dest v')"
  using assms(4-6)
proof (induction "unat (bytes_left s)" arbitrary: s m v rule: less_induct)
  case less
  show ?case
  proof (cases "bytes_left s = 0")
    case True
    with less.prems(1) show ?thesis by (subst decode_loop.simps) (simp add: consumed_lag)
  next
    case False
    from decode_step_safe [OF lay calls user less.prems] obtain r s1 m1 where
      st: "decode_step D S E v (s, m) = Some (r, (s1, m1))" "lag s s1" "same_outside dest n m m1"
        "\<forall>go v'. r = Some (go, v') \<longrightarrow> consumed s s1 \<and> vars_ok fs dest v' \<and>
          (go \<longrightarrow> unat (bytes_left s1) < unat (bytes_left s))" by blast
    show ?thesis
    proof (cases r)
      case None
      with st False show ?thesis by (subst decode_loop.simps) (simp add: bnd_def)
    next
      case (Some gv)
      obtain go v1 where gv: "gv = (go, v1)" by (cases gv)
      with st(4) Some have n: "consumed s s1" "vars_ok fs dest v1"
        "go \<Longrightarrow> unat (bytes_left s1) < unat (bytes_left s)" by auto
      show ?thesis
      proof (cases go)
        case False
        with st Some gv n \<open>bytes_left s \<noteq> 0\<close> show ?thesis
          by (subst decode_loop.simps) (simp add: bnd_def)
      next
        case True
        from less.hyps [OF n(3) [OF True] n(2) lag_buf_stream [OF st(2) less.prems(2)]
            same_outside_owned [OF st(3) less.prems(3)]]
        obtain r' s2 m2 where rec: "decode_loop D S E v1 (s1, m1) = Some (r', (s2, m2))" "lag s1 s2"
          "same_outside dest n m1 m2" "\<forall>v'. r' = Some v' \<longrightarrow> consumed s1 s2 \<and> vars_ok fs dest v'" by blast
        have "decode_loop D S E v (s, m) = decode_loop D S E v1 (s1, m1)"
          using st(1) Some gv True False by (subst decode_loop.simps) (simp add: bnd_def)
        moreover have "lag s s2" using st(2) rec(2) by (rule lag_trans)
        moreover have "same_outside dest n m m2" using st(3) rec(3) by (rule same_outside_trans)
        ultimately show ?thesis using rec(1,4) n(1) consumed_trans by fastforce
      qed
    qed
  qed
qed


section \<open>The check for required fields\<close>

lemma field_at_nth: "i < n_fields fs \<Longrightarrow> field_at fs i = fs ! i"
  using length_takeWhile_le [of "\<lambda>f. tag f \<noteq> 0" fs] by (simp add: field_at_def n_fields_def)

definition required_before :: "pb_field list \<Rightarrow> nat \<Rightarrow> nat" where
  "required_before fs i = length (filter (\<lambda>f. htype f = PB_HTYPE_REQUIRED) (take i fs))"

lemma required_before_Suc:
  assumes "i < n_fields fs"
  shows "required_before fs (Suc i) =
    required_before fs i + (if htype (field_at fs i) = PB_HTYPE_REQUIRED then 1 else 0)"
proof -
  have "i < length fs" using assms length_takeWhile_le [of "\<lambda>f. tag f \<noteq> 0" fs] by (simp add: n_fields_def)
  then show ?thesis by (simp add: required_before_def field_at_nth [OF assms] take_Suc_conv_app_nth)
qed

lemma required_index:
  "i < n_fields fs \<Longrightarrow> required_field_index (iter_at fs dest i) = of_nat (required_before fs i)"
proof (induction i)
  case 0
  then show ?case by (simp add: required_before_def pb_field_iter_begin_def Let_def)
next
  case (Suc i)
  then have i: "i < n_fields fs" by simp
  have "tag (field_at fs i) \<noteq> 0" "tag (field_at fs (Suc i)) \<noteq> 0"
    using Suc.prems i tag_below_n_fields by simp_all
  moreover have "(0 :: byte) \<noteq> 48" by simp
  ultimately show ?case using Suc.IH [OF i]
    by (cases "htype (field_at fs i) = PB_HTYPE_REQUIRED")
      (simp_all add: required_before_Suc [OF i] iter_at.simps(2) pb_field_iter_next_def Let_def cur_def
        iter_at_simps [OF i] add.commute)
qed

lemma seek_end_at:
  assumes "p < n_fields fs"
  shows "seek_end (iter_at fs dest p) = (of_nat (required_before fs (n_fields fs - 1)),
    field_type (field_at fs (n_fields fs - 1)), iter_at fs dest 0)"
  using assms
proof (induction "n_fields fs - p" arbitrary: p)
  case (Suc k)
  show ?case
  proof (cases "Suc p < n_fields fs")
    case True
    with Suc show ?thesis by (subst seek_end.simps) (simp add: next_iter_at)
  next
    case False
    with Suc.prems have p: "p = n_fields fs - 1" by simp
    from Suc.prems False show ?thesis
      by (subst seek_end.simps) (simp add: next_iter_at required_index cur_iter_at p)
  qed
qed simp

lemma required_count_at:
  assumes p: "at_field fs p" and last: "field_at fs (n_fields fs) = PB_LAST_FIELD"
  shows "required_count (iter_at fs dest p) = of_nat (n_required fs)"
proof (cases "p < n_fields fs")
  case True
  have n: "0 < n_fields fs" using True by simp
  have l: "n_fields fs - 1 < n_fields fs" using n by simp
  have "n_required fs = required_before fs (Suc (n_fields fs - 1))"
    using n by (simp add: n_required_def required_before_def)
  moreover have "tag (cur (iter_at fs dest 0)) \<noteq> 0" using n tag_below_n_fields cur_iter_at by metis
  ultimately show ?thesis
    by (simp add: required_count_def seek_end_at [OF True] required_before_Suc [OF l, simplified] add.commute)
next
  case False
  with p have e: "n_fields fs = 0" "p = 0" by (auto simp: at_field_def)
  with last have z: "field_at fs 0 = PB_LAST_FIELD" by simp
  have "pb_field_iter_next (iter_at fs dest 0) = (False, iter_at fs dest 0)"
    by (simp add: pb_field_iter_next_def cur_def z PB_LAST_FIELD_def)
  then have "seek_end (iter_at fs dest 0) = (0, field_type PB_LAST_FIELD, iter_at fs dest 0)"
    by (subst seek_end.simps) (simp add: cur_def z pb_field_iter_begin_def Let_def)
  then show ?thesis
    using e by (simp add: required_count_def cur_def z PB_LAST_FIELD_def n_required_def)
qed

lemma unat_and_mask5: "unat ((x :: u32) AND 31) = unat x mod 32"
proof -
  have "x AND 31 = take_bit 5 x"
    by (simp add: take_bit_eq_mask mask_eq_exp_minus_1)
  then have "unat (x AND 31) = take_bit 5 (unat x)"
    by (simp add: unsigned_take_bit_eq)
  then show ?thesis
    by (simp add: take_bit_eq_mod)
qed

lemma check_required_cases:
  assumes "length seen = 2" and "unat count < 64" and "unat count \<noteq> 32"
  shows "check_required seen count = ret () \<or> check_required seen count = derror ''missing required field''"
proof (cases "count = 0")
  case True
  then show ?thesis by (simp add: check_required_def)
next
  case False
  have words: "unat (drop_bit 5 count) = unat count div 32" by (simp add: unat_drop_bit)
  with assms(2) have w: "unat (drop_bit 5 count) = 0 \<or> unat (drop_bit 5 count) = 1" by (auto simp: div_eq_0_iff)
  have "unat count \<noteq> 0" using False by (simp add: unat_eq_0)
  with assms(2,3) have "unat count mod 32 \<noteq> 0" by presburger
  then have "32 - unat (count AND 31) < 32" by (simp add: unat_and_mask5)
  with w assms(1) have rem: "remaining_bits seen count \<noteq> None" by (auto simp: remaining_bits_def Let_def)
  have "whole_words seen 0 (unat (drop_bit 5 count)) \<noteq> None"
    using w assms(1) by (auto simp: numeral_2_eq_2)
  with rem False show ?thesis
    by (auto simp: check_required_def split: option.splits bool.splits)
qed


text \<open>The bit of the required field with index \<open>j\<close>.\<close>

definition seen_bit :: "u32 list \<Rightarrow> nat \<Rightarrow> bool" where
  "seen_bit seen j = bit (seen ! (j div 32)) (j mod 32)"

lemma all_ones_iff: "(w :: u32) = 0xFFFFFFFF \<longleftrightarrow> (\<forall>j < 32. bit w j)"
proof -
  have ones: "(0xFFFFFFFF :: u32) = - 1" by simp
  show ?thesis unfolding ones by (auto intro!: bit_word_eqI)
qed

lemma low_ones_iff:
  assumes "c \<le> 32"
  shows "(w :: u32) = drop_bit (32 - c) 0xFFFFFFFF \<longleftrightarrow> (\<forall>j < 32. bit w j \<longleftrightarrow> j < c)"
proof -
  have ones: "(0xFFFFFFFF :: u32) = - 1" by simp
  have "bit (drop_bit (32 - c) (- 1 :: u32)) j \<longleftrightarrow> j < c" if "j < 32" for j
    using assms by (auto simp: bit_drop_bit_eq bit_mask_iff)
  then show ?thesis unfolding ones by (auto intro!: bit_word_eqI)
qed

lemma seen_bits_0: "j < 32 \<Longrightarrow> seen_bit seen j = bit (seen ! 0) j"
  by (simp add: seen_bit_def)

lemma seen_bits_1: "j < 32 \<Longrightarrow> seen_bit seen (32 + j) = bit (seen ! 1) j"
  by (simp add: seen_bit_def div_add_self1)

lemma check_required_iff:
  assumes len: "length seen = 2" and count: "unat count < 64" "unat count \<noteq> 32"
    and above: "\<And>j. unat count \<le> j \<Longrightarrow> j < 64 \<Longrightarrow> \<not> seen_bit seen j"
  shows "check_required seen count =
    (if \<forall>j < unat count. seen_bit seen j then ret () else derror ''missing required field'')"
proof (cases "count = 0")
  case True
  then show ?thesis by (simp add: check_required_def)
next
  case False
  have n0: "unat count \<noteq> 0" using False by (simp add: unat_eq_0)
  have words: "unat (drop_bit 5 count) = unat count div 32" by (simp add: unat_drop_bit)
  show ?thesis
  proof (cases "unat count < 32")
    case True
    have "seen ! 0 = drop_bit (32 - unat count) 0xFFFFFFFF \<longleftrightarrow> (\<forall>j < unat count. seen_bit seen j)"
    proof -
      have "(bit (seen ! 0) j \<longleftrightarrow> j < unat count) \<longleftrightarrow> (j < unat count \<longrightarrow> seen_bit seen j)" if "j < 32" for j
        using above [of j] that by (cases "j < unat count") (auto simp: seen_bits_0)
      with True show ?thesis by (auto simp: low_ones_iff)
    qed
    moreover have "\<not> 32 \<le> 32 - unat count" using n0 True by linarith
    ultimately have rb: "remaining_bits seen count = Some (\<forall>j < unat count. seen_bit seen j)"
      using len True words by (simp add: remaining_bits_def Let_def unat_and_mask5)
    have "0 < count" "unat (drop_bit 5 count) = 0" using False True words by (simp_all add: word_gt_0)
    moreover define ok where "ok = (\<forall>j < unat count. seen_bit seen j)"
    ultimately show ?thesis
      using rb unfolding ok_def [symmetric] by (cases ok) (simp_all add: check_required_def)
  next
    case big: False
    let ?c = "unat count - 32"
    have c: "unat count mod 32 = ?c" "unat count div 32 = 1" "0 < ?c" "?c < 32" "unat count = 32 + ?c"
      using big count by (simp_all add: mod_if div_if)
    have w0: "seen ! 0 = 0xFFFFFFFF \<longleftrightarrow> (\<forall>j < 32. seen_bit seen j)"
      by (auto simp: all_ones_iff seen_bits_0)
    have w1: "seen ! 1 = drop_bit (32 - ?c) 0xFFFFFFFF \<longleftrightarrow> (\<forall>j < ?c. seen_bit seen (32 + j))"
    proof -
      have "(bit (seen ! 1) j \<longleftrightarrow> j < ?c) \<longleftrightarrow> (j < ?c \<longrightarrow> seen_bit seen (32 + j))" if "j < 32" for j
        using above [of "32 + j"] that c(5) by (cases "j < ?c") (auto simp: seen_bits_1)
      with c(4) show ?thesis by (auto simp: low_ones_iff)
    qed
    have all: "(\<forall>j < unat count. seen_bit seen j) \<longleftrightarrow> (\<forall>j < 32. seen_bit seen j) \<and> (\<forall>j < ?c. seen_bit seen (32 + j))"
    proof -
      have "seen_bit seen j" if "\<forall>j < 32. seen_bit seen j" "\<forall>j < ?c. seen_bit seen (32 + j)" "j < unat count" for j
      proof (cases "j < 32")
        case False
        with that(2) [rule_format, of "j - 32"] that(3) c(5) show ?thesis by simp
      qed (use that(1) in simp)
      with c(5) show ?thesis by auto
    qed
    define first where "first = (\<forall>j < 32. seen_bit seen j)"
    define second where "second = (\<forall>j < ?c. seen_bit seen (32 + j))"
    have ww: "whole_words seen 0 (Suc 0) = Some first"
      using len w0 by (simp add: first_def)
    have "\<not> 32 \<le> 32 - ?c" using c(3) by linarith
    then have rb: "remaining_bits seen count = Some second"
      using len c(1,2) w1 by (simp add: remaining_bits_def Let_def words unat_and_mask5 second_def)
    have pos: "0 < count" using False by (simp add: word_gt_0)
    show ?thesis
      unfolding check_required_def words c(2) One_nat_def ww rb all first_def [symmetric] second_def [symmetric]
      using pos by (cases first; cases second) simp_all
  qed
qed

text \<open>Each decoded required field sets its own bit.\<close>

lemma seen_bit_mark:
  assumes "length seen = 2" and "j < 64" and "htype (cur iter) = PB_HTYPE_REQUIRED"
    and "unat (required_field_index iter) < 64"
  shows "seen_bit (mark_seen iter seen) j \<longleftrightarrow> seen_bit seen j \<or> j = unat (required_field_index iter)"
proof -
  let ?i = "required_field_index iter"
  have lt: "?i < 64" using assms(4) by (simp add: word_less_nat_alt)
  have w: "unat (drop_bit 5 ?i) = unat ?i div 32" and b: "unat (?i AND 31) = unat ?i mod 32"
    by (simp_all add: unat_drop_bit unat_and_mask5)
  have "unat ?i div 32 < 2" "j div 32 < 2" using assms(2,4) by (auto simp: less_mult_imp_div_less)
  moreover have "j = unat ?i \<longleftrightarrow> j div 32 = unat ?i div 32 \<and> j mod 32 = unat ?i mod 32"
    using div_mult_mod_eq [of j 32] div_mult_mod_eq [of "unat ?i" 32] by metis
  ultimately show ?thesis
    using lt assms(1,3) unfolding mark_seen_def seen_bit_def Let_def w b
    by (auto simp: nth_list_update bit_or_iff bit_push_bit_iff bit_1_iff bit_exp_iff)
qed

section \<open>Messages\<close>

lemma noinit_body_safe:
  assumes lay: "layout_ok (Suc d) fs n" and calls: "calls_ok (layout_ok d) D S" and user: "user_reads E"
  shows "safe lag dest n (noinit_body D S E fs dest)"
proof (rule safeI)
  fix s m
  assume s: "buf_stream s" and own: "owned m dest n"
  let ?v = "\<lparr>viter = snd (pb_field_iter_begin fs dest), fields_seen = [0, 0], extension_range_start = 0\<rparr>"
  have "vars_ok fs dest ?v"
    unfolding vars_ok_def by (auto simp: at_field_def intro!: exI [of _ 0])
  from decode_loop_safe [OF lay calls user this s own] obtain r s' m' where
    run: "decode_loop D S E ?v (s, m) = Some (r, (s', m'))" "lag s s'" "same_outside dest n m m'"
      "\<forall>v'. r = Some v' \<longrightarrow> consumed s s' \<and> vars_ok fs dest v'" by blast
  show "\<exists>r s' m'. noinit_body D S E fs dest (s, m) = Some (r, (s', m')) \<and> lag s s' \<and>
    (r \<noteq> None \<longrightarrow> consumed s s') \<and> same_outside dest n m m'"
  proof (cases r)
    case None
    with run show ?thesis by (simp add: noinit_body_def bnd_def)
  next
    case (Some v)
    with run(4) obtain p where v: "consumed s s'" "length (fields_seen v) = 2" "at_field fs p"
      "viter v = iter_at fs dest p" by (auto simp: vars_ok_def)
    have nr: "n_required fs < 64" "n_required fs \<noteq> 32" and last: "field_at fs (n_fields fs) = PB_LAST_FIELD"
      using lay by simp_all
    then have "unat (of_nat (n_required fs) :: u32) = n_required fs"
      by (simp add: unsigned_of_nat take_bit_nat_eq_self)
    with nr v(2) have chk: "check_required (fields_seen v) (required_count (viter v)) = ret () \<or>
        check_required (fields_seen v) (required_count (viter v)) = derror ''missing required field''"
      unfolding v(4) required_count_at [OF v(3) last] by (intro check_required_cases) simp_all
    have "consumed s (pb_set_error ''missing required field'' s')"
      using v(1) consumed_set_error by (rule consumed_trans)
    with chk run Some v(1) show ?thesis
      by (auto simp: noinit_body_def bnd_def derror_def on_stream_def pb_return_error_def consumed_lag)
  qed
qed

lemma pb_decode_noinit_safe:
  assumes "layout_ok d fs n" and "2 * d \<le> k" and user: "user_reads E"
  shows "safe lag a n (pb_decode_noinit E k fs a)"
  using assms(1,2)
proof (induction d arbitrary: k fs n a)
  case (Suc d)
  then obtain k' where k: "k = Suc k'" "2 * d \<le> k'" by (cases k) auto
  let ?D = "\<lambda>init fs' a. if init
    then bnd (on_mem (pb_message_set_to_defaults E k' fs' a)) (\<lambda>_. pb_decode_noinit E k' fs' a)
    else pb_decode_noinit E k' fs' a"
  have "calls_ok (layout_ok d) ?D (pb_message_set_to_defaults E k')"
    unfolding calls_ok_def
    using Suc.IH [OF _ k(2)] set_defaults_safe [OF _ k(2)]
    by (auto intro!: loose.safe_bnd loose.safe_mem)
  from noinit_body_safe [OF Suc.prems(1) this user] show ?case
    by (simp add: k(1) pb_decode_noinit.simps(2))
qed simp

lemma pb_decode_safe:
  assumes "layout_ok d fs n" and "2 * d \<le> k" and "user_reads E"
  shows "safe lag a n (pb_decode E k fs a)"
  unfolding pb_decode_def
  using assms set_defaults_safe [OF assms(1,2)]
  by (auto intro!: loose.safe_bnd loose.safe_mem pb_decode_noinit_safe)

lemma pb_decode_delimited_safe:
  assumes "layout_ok d fs n" and "2 * d \<le> k" and "user_reads E"
  shows "safe lag a n (pb_decode_delimited E k fs a)"
  unfolding pb_decode_delimited_def
  by (rule safe_with_substream) (auto intro: flagged_status_of pb_decode_safe assms)

end
