(* ===== verification/Pb_Encode.thy ===== *)
theory Pb_Encode
  imports Pb_Extension
begin

text \<open>
  The message encoder of \<open>pb_encode.c\<close>. The message struct is read-only memory \<open>M\<close>; actions work
  on the output stream. \<open>depth\<close> bounds the nesting of submessages; running out of it is \<open>None\<close>.
\<close>

section \<open>The environment of an encoder\<close>

text \<open>
  User code is a parameter: write callbacks, field callbacks by the value of their function
  pointer (they get the field and the address of their \<open>arg\<close>), and extension types.
\<close>

record enc_env =
  write_cb :: write_env
  field_enc :: "u64 \<Rightarrow> pb_field \<Rightarrow> int \<Rightarrow> unit wr"
  ext_etype :: ext_env

text \<open>A value read from the message struct, and what is then done with it.\<close>

definition reading :: "mem \<Rightarrow> (mem, 'a) act \<Rightarrow> ('a \<Rightarrow> 'b wr) \<Rightarrow> 'b wr" where
  "reading M f g = (case f M of Some (Some x, _) \<Rightarrow> g x | _ \<Rightarrow> undefined_behaviour)"

text \<open>\<open>pb_write\<close> from memory, which is read only when the bytes are really written.\<close>

definition pb_write_from :: "mem \<Rightarrow> write_env \<Rightarrow> int \<Rightarrow> u64 \<Rightarrow> unit wr" where
  "pb_write_from M W a count s =
     (if ocallback s = No_callback \<or> max_size s < bytes_written s + count then pb_write W None count s
      else reading M (load a (unat count)) (\<lambda>bs. pb_write W (Some bs) count) s)"

definition pb_encode_string_from :: "mem \<Rightarrow> write_env \<Rightarrow> int \<Rightarrow> u64 \<Rightarrow> unit wr" where
  "pb_encode_string_from M W a count = bnd (pb_encode_varint W count) (\<lambda>_. pb_write_from M W a count)"

definition pb_encode_tag_for_field :: "write_env \<Rightarrow> pb_field \<Rightarrow> unit wr" where
  "pb_encode_tag_for_field W f =
     (if ltype f = PB_LTYPE_VARINT \<or> ltype f = PB_LTYPE_UVARINT \<or> ltype f = PB_LTYPE_SVARINT
      then pb_encode_tag W 0 (tag f)
      else if ltype f = PB_LTYPE_FIXED32 then pb_encode_tag W 5 (tag f)
      else if ltype f = PB_LTYPE_FIXED64 then pb_encode_tag W 1 (tag f)
      else if ltype f = PB_LTYPE_BYTES \<or> ltype f = PB_LTYPE_STRING \<or> ltype f = PB_LTYPE_SUBMESSAGE \<or>
              ltype f = PB_LTYPE_FIXED_LENGTH_BYTES then pb_encode_tag W 2 (tag f)
      else pb_oreturn_error ''invalid field type'')"

section \<open>Field encoders\<close>

text \<open>An integer of \<open>n\<close> bytes, widened to 64 bits with its sign or with zeros.\<close>

definition signed_value :: "nat \<Rightarrow> byte list \<Rightarrow> u64" where
  "signed_value n bs =
     (if n = 1 then scast (of_nat (le_val bs) :: byte)
      else if n = 2 then scast (of_nat (le_val bs) :: u16)
      else if n = 4 then scast (of_nat (le_val bs) :: u32)
      else of_nat (le_val bs))"

definition valid_int_size :: "u32 \<Rightarrow> bool" where
  "valid_int_size n \<longleftrightarrow> n = 1 \<or> n = 2 \<or> n = 4 \<or> n = 8"

definition pb_enc_varint :: "mem \<Rightarrow> enc_env \<Rightarrow> pb_field \<Rightarrow> int \<Rightarrow> unit wr" where
  "pb_enc_varint M E f src =
     (if \<not> valid_int_size (data_size f) then pb_oreturn_error ''invalid data_size''
      else reading M (load src (unat (data_size f))) (\<lambda>bs.
        pb_encode_varint (write_cb E) (signed_value (unat (data_size f)) bs)))"

definition pb_enc_uvarint :: "mem \<Rightarrow> enc_env \<Rightarrow> pb_field \<Rightarrow> int \<Rightarrow> unit wr" where
  "pb_enc_uvarint M E f src =
     (if \<not> valid_int_size (data_size f) then pb_oreturn_error ''invalid data_size''
      else reading M (load src (unat (data_size f))) (\<lambda>bs.
        pb_encode_varint (write_cb E) (of_nat (le_val bs))))"

definition pb_enc_svarint :: "mem \<Rightarrow> enc_env \<Rightarrow> pb_field \<Rightarrow> int \<Rightarrow> unit wr" where
  "pb_enc_svarint M E f src =
     (if \<not> valid_int_size (data_size f) then pb_oreturn_error ''invalid data_size''
      else reading M (load src (unat (data_size f))) (\<lambda>bs.
        pb_encode_svarint (write_cb E) (signed_value (unat (data_size f)) bs)))"

definition pb_enc_fixed32 :: "mem \<Rightarrow> enc_env \<Rightarrow> pb_field \<Rightarrow> int \<Rightarrow> unit wr" where
  "pb_enc_fixed32 M E f src = reading M (load_u32 src) (pb_encode_fixed32 (write_cb E))"

definition pb_enc_fixed64 :: "mem \<Rightarrow> enc_env \<Rightarrow> pb_field \<Rightarrow> int \<Rightarrow> unit wr" where
  "pb_enc_fixed64 M E f src = reading M (load_u64 src) (pb_encode_fixed64 (write_cb E))"

definition pb_enc_bytes :: "mem \<Rightarrow> enc_env \<Rightarrow> pb_field \<Rightarrow> int \<Rightarrow> unit wr" where
  "pb_enc_bytes M E f src =
     (if src = 0 then pb_encode_string (write_cb E) None 0
      else reading M (load_u32 src) (\<lambda>count.
        if atype f = PB_ATYPE_STATIC \<and> ucast (data_size f) < (ucast count + 4 :: u64)
        then pb_oreturn_error ''bytes size exceeded''
        else pb_encode_string_from M (write_cb E) (src + 4) (ucast count)))"

text \<open>The string length: up to the terminating zero, but at most \<open>max_len\<close>.\<close>

function string_len :: "mem \<Rightarrow> int \<Rightarrow> nat \<Rightarrow> nat \<Rightarrow> nat option" where
  "string_len M src max_len n =
     (if n < max_len then
        case M (src + int n) of
          None \<Rightarrow> None
        | Some c \<Rightarrow> if c \<noteq> 0 then string_len M src max_len (Suc n) else Some n
      else Some n)"
  by pat_completeness auto
termination
  by (relation "measure (\<lambda>(M, src, max_len, n). max_len - n)") auto

declare string_len.simps [simp del]

definition pb_enc_string :: "mem \<Rightarrow> enc_env \<Rightarrow> pb_field \<Rightarrow> int \<Rightarrow> unit wr" where
  "pb_enc_string M E f src =
     (let max_len = (if atype f = PB_ATYPE_POINTER then unat (- 1 :: u64) else unat (data_size f)) in
      if src = 0 then pb_encode_string (write_cb E) None 0
      else case string_len M src max_len 0 of
        None \<Rightarrow> undefined_behaviour
      | Some n \<Rightarrow> pb_encode_string_from M (write_cb E) src (of_nat n))"

definition pb_enc_fixed_length_bytes :: "mem \<Rightarrow> enc_env \<Rightarrow> pb_field \<Rightarrow> int \<Rightarrow> unit wr" where
  "pb_enc_fixed_length_bytes M E f src =
     pb_encode_string_from M (write_cb E) src (ucast (data_size f))"

text \<open>
  A submessage is encoded twice, first to a sizing stream and then to a substream limited to the
  size that gave. \<open>R\<close> stands for \<open>pb_encode\<close>.
\<close>

type_synonym msg_enc = "pb_field list \<Rightarrow> int \<Rightarrow> unit wr"

definition submessage_second_pass :: "unit wr \<Rightarrow> write_env \<Rightarrow> u64 \<Rightarrow> unit wr" where
  "submessage_second_pass f W count s =
     (if ocallback s = No_callback then pb_write W None count s
      else if max_size s < bytes_written s + count then pb_oreturn_error ''stream full'' s
      else
        (case f (s\<lparr>max_size := count, bytes_written := 0, oerrmsg := None\<rparr>) of
           None \<Rightarrow> None
         | Some (r, sub) \<Rightarrow>
             (let s' = s\<lparr>bytes_written := bytes_written s + bytes_written sub,
                         odone := odone sub, oroom := oroom sub, oerrmsg := oerrmsg sub\<rparr>
              in if bytes_written sub \<noteq> count then pb_oreturn_error ''submsg size changed'' s'
                 else Some (r, s'))))"

definition pb_encode_submessage :: "msg_enc \<Rightarrow> write_env \<Rightarrow> pb_field list \<Rightarrow> int \<Rightarrow> unit wr" where
  "pb_encode_submessage R W fs src s =
     (case R fs src PB_OSTREAM_SIZING of
        None \<Rightarrow> None
      | Some (None, sub) \<Rightarrow> Some (None, s\<lparr>oerrmsg := oerrmsg sub\<rparr>)
      | Some (Some _, sub) \<Rightarrow>
          bnd (pb_encode_varint W (bytes_written sub))
            (\<lambda>_. submessage_second_pass (R fs src) W (bytes_written sub)) s)"

definition pb_enc_submessage :: "msg_enc \<Rightarrow> enc_env \<Rightarrow> pb_field \<Rightarrow> int \<Rightarrow> unit wr" where
  "pb_enc_submessage R E f src =
     (case field_ptr f of
        Ptr_null \<Rightarrow> pb_oreturn_error ''invalid field descriptor''
      | Ptr_default _ \<Rightarrow> undefined_behaviour
      | Ptr_submsg fs \<Rightarrow> pb_encode_submessage R (write_cb E) fs src)"

text \<open>\<open>PB_ENCODERS\<close>\<close>

definition pb_encoder :: "msg_enc \<Rightarrow> mem \<Rightarrow> enc_env \<Rightarrow> byte \<Rightarrow> pb_field \<Rightarrow> int \<Rightarrow> unit wr" where
  "pb_encoder R M E lt =
     (if lt = PB_LTYPE_VARINT then pb_enc_varint M E
      else if lt = PB_LTYPE_UVARINT then pb_enc_uvarint M E
      else if lt = PB_LTYPE_SVARINT then pb_enc_svarint M E
      else if lt = PB_LTYPE_FIXED32 then pb_enc_fixed32 M E
      else if lt = PB_LTYPE_FIXED64 then pb_enc_fixed64 M E
      else if lt = PB_LTYPE_BYTES then pb_enc_bytes M E
      else if lt = PB_LTYPE_STRING then pb_enc_string M E
      else if lt = PB_LTYPE_SUBMESSAGE then pb_enc_submessage R E
      else if lt = PB_LTYPE_FIXED_LENGTH_BYTES then pb_enc_fixed_length_bytes M E
      else (\<lambda>_ _. undefined_behaviour))"

section \<open>Arrays\<close>

fun encode_items :: "(int \<Rightarrow> unit wr) \<Rightarrow> int \<Rightarrow> int \<Rightarrow> nat \<Rightarrow> unit wr" where
  "encode_items func p step 0 = ret ()"
| "encode_items func p step (Suc n) = bnd (func p) (\<lambda>_. encode_items func (p + step) step n)"

definition packed_size :: "(int \<Rightarrow> unit wr) \<Rightarrow> pb_field \<Rightarrow> int \<Rightarrow> u32 \<Rightarrow> u64 option option" where
  "packed_size func f p count =
     (if ltype f = PB_LTYPE_FIXED32 then Some (Some (4 * ucast count))
      else if ltype f = PB_LTYPE_FIXED64 then Some (Some (8 * ucast count))
      else case encode_items func p (int (unat (data_size f))) (unat count) PB_OSTREAM_SIZING of
        None \<Rightarrow> None
      | Some (None, _) \<Rightarrow> Some None
      | Some (Some _, sizestream) \<Rightarrow> Some (Some (bytes_written sizestream)))"

text \<open>The data of a packed array: a sizing stream only counts it.\<close>

definition packed_data :: "write_env \<Rightarrow> (int \<Rightarrow> unit wr) \<Rightarrow> int \<Rightarrow> int \<Rightarrow> nat \<Rightarrow> u64 \<Rightarrow> unit wr" where
  "packed_data W func p step n nbytes = (\<lambda>s.
     if ocallback s = No_callback then pb_write W None nbytes s else encode_items func p step n s)"

definition encode_array ::
  "mem \<Rightarrow> enc_env \<Rightarrow> (int \<Rightarrow> unit wr) \<Rightarrow> pb_field \<Rightarrow> int \<Rightarrow> u32 \<Rightarrow> unit wr" where
  "encode_array M E func f p count =
     (let W = write_cb E; step = int (unat (data_size f)) in
      if count = 0 then ret ()
      else if atype f \<noteq> PB_ATYPE_POINTER \<and> array_size f < count
      then pb_oreturn_error ''array max size exceeded''
      else if ltype f \<le> PB_LTYPE_LAST_PACKABLE then
        bnd (pb_encode_tag W 2 (tag f)) (\<lambda>_.
          case packed_size func f p count of
            None \<Rightarrow> undefined_behaviour
          | Some None \<Rightarrow> ret_false
          | Some (Some nbytes) \<Rightarrow> bnd (pb_encode_varint W nbytes)
              (\<lambda>_. packed_data W func p step (unat count) nbytes))
      else encode_items (\<lambda>a. bnd (pb_encode_tag_for_field W f) (\<lambda>_.
          if atype f = PB_ATYPE_POINTER \<and> (ltype f = PB_LTYPE_STRING \<or> ltype f = PB_LTYPE_BYTES)
          then reading M (load_ptr a) func else func a)) p step (unat count))"

section \<open>Default values of proto3\<close>

text \<open>True (\<open>ret ()\<close>) if all bytes are zero, false otherwise; reading stops at the first other byte.\<close>

fun all_zero :: "int \<Rightarrow> nat \<Rightarrow> (mem, unit) act" where
  "all_zero a 0 = ret ()"
| "all_zero a (Suc n) = bnd (load a 1) (\<lambda>bs. if hd bs \<noteq> 0 then ret_false else all_zero (a + 1) n)"

fun pb_check_proto3_default_value :: "nat \<Rightarrow> pb_field \<Rightarrow> int \<Rightarrow> (mem, unit) act" where
  "pb_check_proto3_default_value 0 f a = undefined_behaviour"
| "pb_check_proto3_default_value (Suc depth) f a =
     (if atype f = PB_ATYPE_STATIC \<and> ltype f = PB_LTYPE_BYTES then
        bnd (load_u32 a) (\<lambda>size. return_status (size = 0))
      else if atype f = PB_ATYPE_STATIC \<and> ltype f = PB_LTYPE_STRING then
        bnd (load a 1) (\<lambda>bs. return_status (hd bs = 0))
      else if atype f = PB_ATYPE_STATIC \<and> ltype f = PB_LTYPE_FIXED_LENGTH_BYTES then
        return_status (data_size f = 0)
      else if atype f = PB_ATYPE_STATIC \<and> ltype f = PB_LTYPE_SUBMESSAGE then
        (case field_ptr f of
           Ptr_submsg fs \<Rightarrow>
             (if fst (pb_field_iter_begin fs a)
              then for_each_field (\<lambda>iter. pb_check_proto3_default_value depth (cur iter) (pData iter))
                (snd (pb_field_iter_begin fs a))
              else ret ())
         | _ \<Rightarrow> undefined_behaviour)
      else all_zero a (unat (data_size f)))"

declare pb_check_proto3_default_value.simps(2) [simp del]

section \<open>Encoding a field\<close>

text \<open>
  Where \<open>pSize\<close> points: into the struct, or to the local variable \<open>implicit_has\<close>, a \<open>bool\<close>,
  from which a 4-byte count cannot be read.
\<close>

datatype size_source = At int | Implicit bool

definition has_value :: "mem \<Rightarrow> size_source \<Rightarrow> (bool \<Rightarrow> unit wr) \<Rightarrow> unit wr" where
  "has_value M ps g =
     (case ps of Implicit b \<Rightarrow> g b | At a \<Rightarrow> reading M (load a 1) (\<lambda>bs. g (hd bs \<noteq> 0)))"

definition count_value :: "mem \<Rightarrow> size_source \<Rightarrow> (u32 \<Rightarrow> unit wr) \<Rightarrow> unit wr" where
  "count_value M ps g =
     (case ps of Implicit b \<Rightarrow> undefined_behaviour | At a \<Rightarrow> reading M (load_u32 a) g)"

text \<open>\<open>implicit_has\<close> of a proto3 field; it is computed before the pointer is followed.\<close>

definition proto3_has :: "nat \<Rightarrow> mem \<Rightarrow> pb_field \<Rightarrow> int \<Rightarrow> bool option" where
  "proto3_has depth M f a =
     (case pb_check_proto3_default_value depth f a M of
        None \<Rightarrow> None | Some (r, _) \<Rightarrow> Some (r = None))"

definition encode_by_htype ::
  "msg_enc \<Rightarrow> mem \<Rightarrow> enc_env \<Rightarrow> pb_field \<Rightarrow> size_source \<Rightarrow> int \<Rightarrow> unit wr" where
  "encode_by_htype R M E f ps a =
     (let func = pb_encoder R M E (ltype f) f; W = write_cb E;
          tagged = bnd (pb_encode_tag_for_field W f) (\<lambda>_. func a) in
      if htype f = PB_HTYPE_REQUIRED then
        (if a = 0 then pb_oreturn_error ''missing required field'' else tagged)
      else if htype f = PB_HTYPE_OPTIONAL then
        has_value M ps (\<lambda>has. if has then tagged else ret ())
      else if htype f = PB_HTYPE_REPEATED then count_value M ps (encode_array M E func f a)
      else if htype f = PB_HTYPE_ONEOF then
        count_value M ps (\<lambda>which. if which = tag f then tagged else ret ())
      else pb_oreturn_error ''invalid field type'')"

definition encode_basic_field ::
  "nat \<Rightarrow> msg_enc \<Rightarrow> mem \<Rightarrow> enc_env \<Rightarrow> pb_field \<Rightarrow> int \<Rightarrow> unit wr" where
  "encode_basic_field depth R M E f a =
     (let go = (\<lambda>has. 
        if atype f = PB_ATYPE_POINTER then
          reading M (load_ptr a) (\<lambda>p. encode_by_htype R M E f
            (if size_offset f \<noteq> 0 then At (a + sint (size_offset f)) else Implicit (p \<noteq> 0)) p)
        else encode_by_htype R M E f
          (if size_offset f \<noteq> 0 then At (a + sint (size_offset f)) else Implicit has) a)
      in if size_offset f \<noteq> 0 then go True
         else if htype f = PB_HTYPE_OPTIONAL then
           (case proto3_has depth M f a of None \<Rightarrow> undefined_behaviour | Some has \<Rightarrow> go has)
         else go True)"

definition encode_callback_field :: "mem \<Rightarrow> enc_env \<Rightarrow> pb_field \<Rightarrow> int \<Rightarrow> unit wr" where
  "encode_callback_field M E f a =
     reading M (load_u64 a) (\<lambda>encode.
       if encode \<noteq> 0 then bnd (status_of (field_enc E encode f (a + 8))) (\<lambda>ok.
         if \<not> ok then pb_oreturn_error ''callback error'' else ret ())
       else ret ())"

definition encode_field :: "nat \<Rightarrow> msg_enc \<Rightarrow> mem \<Rightarrow> enc_env \<Rightarrow> pb_field \<Rightarrow> int \<Rightarrow> unit wr" where
  "encode_field depth R M E f a =
     (if atype f = PB_ATYPE_STATIC \<or> atype f = PB_ATYPE_POINTER then encode_basic_field depth R M E f a
      else if atype f = PB_ATYPE_CALLBACK then encode_callback_field M E f a
      else pb_oreturn_error ''invalid field type'')"

section \<open>Extensions\<close>

definition default_extension_encoder :: "nat \<Rightarrow> msg_enc \<Rightarrow> mem \<Rightarrow> enc_env \<Rightarrow> int \<Rightarrow> unit wr" where
  "default_extension_encoder depth R M E ext =
     reading M (load_ext_type (ext_etype E) ext) (\<lambda>et.
       let f = field_at (ext_arg et) 0 in
       if atype f = PB_ATYPE_POINTER then encode_field depth R M E f (ext_dest_at ext)
       else reading M (load_ptr (ext_dest_at ext)) (encode_field depth R M E f))"

partial_function (option) encode_extension_loop ::
  "(int \<Rightarrow> unit wr) \<Rightarrow> mem \<Rightarrow> int \<Rightarrow> pb_ostream \<Rightarrow> (unit option \<times> pb_ostream) option" where
  [code]: "encode_extension_loop enc1 M ext s =
     (if ext \<noteq> 0 then bnd (enc1 ext) (\<lambda>_ t.
        bnd (reading M (load_ptr (ext_next_at ext)) ret) (\<lambda>ext' u. encode_extension_loop enc1 M ext' u) t) s
      else Some (Some (), s))"

definition encode_extension_field :: "nat \<Rightarrow> msg_enc \<Rightarrow> mem \<Rightarrow> enc_env \<Rightarrow> int \<Rightarrow> unit wr" where
  "encode_extension_field depth R M E a =
     reading M (load_ptr a) (encode_extension_loop (\<lambda>ext.
       reading M (load_ext_type (ext_etype E) ext) (\<lambda>et.
         case ext_encode et of
           Some f \<Rightarrow> f ext
         | None \<Rightarrow> default_extension_encoder depth R M E ext)) M)"

section \<open>Encoding all fields\<close>

fun pb_encode :: "mem \<Rightarrow> enc_env \<Rightarrow> nat \<Rightarrow> pb_field list \<Rightarrow> int \<Rightarrow> unit wr" where
  "pb_encode M E 0 fs src = undefined_behaviour"
| "pb_encode M E (Suc depth) fs src =
     (if \<not> fst (pb_field_iter_begin fs src) then ret ()
      else for_each_field (\<lambda>iter.
        if ltype (cur iter) = PB_LTYPE_EXTENSION
        then encode_extension_field depth (\<lambda>fs' a. pb_encode M E depth fs' a) M E (pData iter)
        else encode_field depth (\<lambda>fs' a. pb_encode M E depth fs' a) M E (cur iter) (pData iter))
        (snd (pb_field_iter_begin fs src)))"

declare pb_encode.simps(2) [simp del]

definition pb_encode_delimited :: "mem \<Rightarrow> enc_env \<Rightarrow> nat \<Rightarrow> pb_field list \<Rightarrow> int \<Rightarrow> unit wr" where
  "pb_encode_delimited M E depth fs src =
     pb_encode_submessage (\<lambda>fs' a. pb_encode M E depth fs' a) (write_cb E) fs src"

text \<open>The size, or nothing if encoding fails.\<close>

definition pb_get_encoded_size :: "mem \<Rightarrow> enc_env \<Rightarrow> nat \<Rightarrow> pb_field list \<Rightarrow> int \<Rightarrow> u64 option option" where
  "pb_get_encoded_size M E depth fs src =
     (case pb_encode M E depth fs src PB_OSTREAM_SIZING of
        None \<Rightarrow> None
      | Some (None, _) \<Rightarrow> Some None
      | Some (Some _, stream) \<Rightarrow> Some (Some (bytes_written stream)))"

end
