(* ===== verification/Pb_Encode_Sizing.thy ===== *)
theory Pb_Encode_Sizing
  imports Pb_Encode Pb_Wire Pb_Memory
begin

text \<open>
  The encoder gives the same bytes on every stream. An operation is \<open>sized k\<close> if, whenever it
  succeeds on a sizing stream, it is a \<open>pure_writer\<close> of at most \<open>k\<close> bytes: it counts the same number everywhere, writes
  the same bytes to every buffer with room for them and fails with ``stream full'' on a smaller
  one. \<open>pb_encode\<close> of a message laid out as its descriptors say is \<open>sized\<close>, so the size that
  \<open>pb_get_encoded_size\<close> gives is the size written, and the check of \<open>pb_encode_submessage\<close> that
  the second pass wrote what the first one counted never fails.
\<close>

section \<open>Sized operations\<close>

definition sized :: "nat \<Rightarrow> unit wr \<Rightarrow> bool" where
  "sized k f \<longleftrightarrow> (\<forall>s t. ocallback s = No_callback \<longrightarrow> f s = Some (Some (), t) \<longrightarrow>
     (\<exists>bs. length bs \<le> k \<and> pure_writer f bs))"

named_theorems sized_intros \<open>which operations are sized\<close>

lemma sizedI:
  "(\<And>s t. ocallback s = No_callback \<Longrightarrow> f s = Some (Some (), t) \<Longrightarrow> \<exists>bs. length bs \<le> k \<and> pure_writer f bs) \<Longrightarrow>
   sized k f"
  by (auto simp: sized_def)

lemma sizedE:
  assumes "sized k f" and "ocallback s = No_callback" and "f s = Some (Some (), t)"
  obtains bs where "length bs \<le> k" "pure_writer f bs"
  using assms by (auto simp: sized_def)

lemma sized_pure: "pure_writer f bs \<Longrightarrow> length bs \<le> k \<Longrightarrow> sized k f"
  by (auto simp: sized_def)

lemma sized_le: "sized j f \<Longrightarrow> j \<le> k \<Longrightarrow> sized k f"
  unfolding sized_def by (meson order_trans)

lemma sized_fails [sized_intros]:
  "sized 0 (pb_oreturn_error msg)" "sized 0 ret_false" "sized 0 undefined_behaviour"
  by (simp_all add: sized_def pb_oreturn_error_def)

lemma sized_ret [sized_intros]: "sized 0 (ret ())"
  by (rule sized_pure) (rule writer_ret, simp)

lemma sized_if [sized_intros]: "sized j f \<Longrightarrow> sized k g \<Longrightarrow> sized (max j k) (if c then f else g)"
  by (auto intro: sized_le)

lemma count_up_callback [simp]: "ocallback (count_up n s) = ocallback s"
  by (simp add: count_up_def)

lemma sized_bnd [sized_intros]:
  assumes f: "sized j f" and g: "sized k g"
  shows "sized (j + k) (bnd f (\<lambda>_. g))"
proof (rule sizedI)
  fix s t :: pb_ostream
  assume s: "ocallback s = No_callback" and st: "bnd f (\<lambda>_. g) s = Some (Some (), t)"
  from st obtain s' where f': "f s = Some (Some (), s')" and g': "g s' = Some (Some (), t)"
    by (auto simp: bnd_eq_Some_Some)
  from f s f' obtain a where a: "length a \<le> j" "pure_writer f a" by (rule sizedE)
  with s f' have "ocallback s' = No_callback" by (auto simp: pure_writer.sizing)
  from g this g' obtain b where "length b \<le> k" "pure_writer g b" by (rule sizedE)
  with a show "\<exists>bs. length bs \<le> j + k \<and> pure_writer (bnd f (\<lambda>_. g)) bs"
    by (intro exI [of _ "a @ b"]) (simp add: writer_bnd)
qed

lemma sized_reading [sized_intros]: "(\<And>x m'. f M = Some (Some x, m') \<Longrightarrow> sized k (g x)) \<Longrightarrow> sized k (reading M f g)"
  by (auto simp: reading_def intro: sized_le [OF sized_fails(3)] split: option.splits)

lemma sized_encode_varint [sized_intros]: "sized 10 (pb_encode_varint W v)"
  by (rule sized_pure) (rule writer_pb_encode_varint, rule length_varint_bytes_64)

lemma sized_encode_svarint [sized_intros]: "sized 10 (pb_encode_svarint W v)"
  by (rule sized_pure) (rule zigzag_svarint, rule length_varint_bytes_64)

lemma sized_encode_fixed32 [sized_intros]: "sized 4 (pb_encode_fixed32 W v)"
  by (rule sized_pure) (rule writer_pb_encode_fixed32, simp)

lemma sized_encode_fixed64 [sized_intros]: "sized 8 (pb_encode_fixed64 W v)"
  by (rule sized_pure) (rule writer_pb_encode_fixed64, simp)

lemma sized_encode_tag [sized_intros]: "sized 10 (pb_encode_tag W wt t)"
  unfolding pb_encode_tag_def by (rule sized_encode_varint)

lemma sized_tag_for_field [sized_intros]: "sized 10 (pb_encode_tag_for_field W f)"
  unfolding pb_encode_tag_for_field_def by (rule sized_le, (rule sized_intros)+, simp)

section \<open>Bytes from memory\<close>

lemma writer_write_from:
  assumes "owned M a (unat count)"
  shows "\<exists>bs. length bs = unat count \<and> pure_writer (pb_write_from M W a count) bs"
proof -
  from load_bytes_owned [OF assms] obtain bs where bs: "load_bytes M a (unat count) = Some bs"
    "length bs = unat count" by blast
  have lt: "length bs < 2 ^ 64" using unat_lt_64 [of count] bs(2) by simp
  have count: "count = of_nat (length bs)" using bs(2) by simp
  note w = writer_pb_write [OF lt count, of W]
  have "pure_writer (pb_write_from M W a count) bs"
  proof unfold_locales
    fix s :: pb_ostream
    assume "ocallback s = No_callback"
    then show "pb_write_from M W a count s = Some (Some (), count_up (length bs) s)"
      using bs(2) by (simp add: pb_write_from_def pb_write_def count_up_def)
  next
    fix s :: pb_ostream
    assume s: "out_buffer s" "fits (length bs) s"
    from pure_writer.writes [OF w s] s(1)
    show "pb_write_from M W a count s = Some (Some (), put bs s)"
      by (simp add: pb_write_from_def reading_def load_def bs pb_write_def pb_oreturn_error_def
          out_buffer_def split: if_splits)
  next
    fix s :: pb_ostream
    assume s: "out_buffer s" "\<not> fits (length bs) s" "unat (bytes_written s) + length bs < 2 ^ 64"
    then have "max_size s < bytes_written s + count"
      using count by (simp add: unat_plus_of_nat fits_def word_less_nat_alt)
    with s have "pb_write_from M W a count s = Some (None, pb_oset_error ''stream full'' (put (take 0 bs) s))"
      by (simp add: pb_write_from_def pb_write_def pb_oreturn_error_def out_buffer_def)
    with s(1) show "\<exists>k \<le> length bs. fits k s \<and>
      pb_write_from M W a count s = Some (None, pb_oset_error ''stream full'' (put (take k bs) s))"
      by (intro exI [of _ 0]) (simp add: fits_def out_buffer_def)
  qed
  with bs(2) show ?thesis by blast
qed

lemma sized_write_from [sized_intros]: "owned M a (unat count) \<Longrightarrow> sized (unat count) (pb_write_from M W a count)"
  using writer_write_from sized_pure by (metis order_refl)

lemma sized_string_from [sized_intros]:
  "owned M a (unat count) \<Longrightarrow> sized (10 + unat count) (pb_encode_string_from M W a count)"
  unfolding pb_encode_string_from_def by (intro sized_intros)

lemma sized_empty_string [sized_intros]: "sized 10 (pb_encode_string W None 0)"
proof -
  have "pure_writer (pb_write W None 0) []"
    by unfold_locales (auto simp: pb_write_def call_write_def buf_write_def count_up_def fits_def
        out_buffer_def word_less_nat_alt)
  then have "sized 0 (pb_write W None 0)" by (rule sized_pure) simp
  then have "sized (10 + 0) (pb_encode_string W None 0)"
    unfolding pb_encode_string_def by (intro sized_intros)
  then show ?thesis by simp
qed

section \<open>Field encoders\<close>

lemma sized_enc_varint: "sized 10 (pb_enc_varint M E f src)"
  unfolding pb_enc_varint_def by (rule sized_le, (rule sized_intros)+, simp)

lemma sized_enc_uvarint: "sized 10 (pb_enc_uvarint M E f src)"
  unfolding pb_enc_uvarint_def by (rule sized_le, (rule sized_intros)+, simp)

lemma sized_enc_svarint: "sized 10 (pb_enc_svarint M E f src)"
  unfolding pb_enc_svarint_def by (rule sized_le, (rule sized_intros)+, simp)

lemma sized_enc_fixed32: "sized 10 (pb_enc_fixed32 M E f src)"
  unfolding pb_enc_fixed32_def by (rule sized_le, (rule sized_intros)+, simp)

lemma sized_enc_fixed64: "sized 10 (pb_enc_fixed64 M E f src)"
  unfolding pb_enc_fixed64_def by (rule sized_le, (rule sized_intros)+, simp)

lemma sized_enc_bytes:
  assumes "atype f = PB_ATYPE_STATIC" and "owned M src (unat (data_size f))"
  shows "sized (10 + unat (data_size f)) (pb_enc_bytes M E f src)"
proof -
  have body: "sized (10 + unat (data_size f)) (pb_encode_string_from M (write_cb E) (src + 4) (ucast count))"
    if "\<not> ucast (data_size f) < (ucast count + 4 :: u64)" for count :: u32
  proof -
    have "unat (ucast count :: u64) + 4 < 2 ^ 64" using unat_lt_32 [of count] by (simp add: unat_ucast_up)
    then have "unat (ucast count + 4 :: u64) = unat (ucast count :: u64) + 4"
      using unat_plus_of_nat [of "ucast count" 4] by simp
    with that have le: "unat (ucast count :: u64) + 4 \<le> unat (data_size f)"
      by (simp add: not_less word_le_nat_alt unat_ucast_up)
    then have "owned M (src + 4) (unat (ucast count :: u64))"
      by (intro owned_sub [OF assms(2)]) linarith+
    from sized_string_from [OF this] show ?thesis by (rule sized_le) (use le in linarith)
  qed
  have "sized (10 + unat (data_size f)) (if atype f = PB_ATYPE_STATIC \<and> ucast (data_size f) < (ucast count + 4 :: u64)
      then pb_oreturn_error ''bytes size exceeded''
      else pb_encode_string_from M (write_cb E) (src + 4) (ucast count))" for count :: u32
    using assms(1) body sized_le [OF sized_fails(1)] by simp
  with sized_empty_string [of "write_cb E"] show ?thesis
    unfolding pb_enc_bytes_def by (auto intro: sized_reading sized_le)
qed

lemma string_len_bound: "string_len M src k n = Some r \<Longrightarrow> n \<le> k \<Longrightarrow> r \<le> k"
proof (induction M src k n rule: string_len.induct)
  case (1 M src k n)
  from 1(2) show ?case
    by (subst (asm) string_len.simps) (use 1(1,3) in \<open>auto split: if_splits option.splits\<close>)
qed

lemma sized_enc_string:
  assumes "atype f = PB_ATYPE_STATIC" and "owned M src (unat (data_size f))"
  shows "sized (10 + unat (data_size f)) (pb_enc_string M E f src)"
proof -
  have "sized (10 + unat (data_size f)) (pb_encode_string_from M (write_cb E) src (of_nat n))"
    if "string_len M src (unat (data_size f)) 0 = Some n" for n
  proof -
    have "n \<le> unat (data_size f)" using string_len_bound [OF that] by simp
    with unat_lt_32 [of "data_size f"] have le: "unat (of_nat n :: u64) \<le> unat (data_size f)"
      by (simp add: unsigned_of_nat take_bit_nat_eq_self)
    then have "owned M src (unat (of_nat n :: u64))" by (intro owned_sub [OF assms(2)]) linarith+
    from sized_string_from [OF this] show ?thesis by (rule sized_le) (use le in linarith)
  qed
  with assms(1) sized_le [OF sized_empty_string] show ?thesis
    unfolding pb_enc_string_def Let_def by (auto intro: sized_le [OF sized_fails(3)] split: option.splits)
qed

lemma sized_enc_fixed_length_bytes:
  assumes "owned M src (unat (data_size f))"
  shows "sized (10 + unat (data_size f)) (pb_enc_fixed_length_bytes M E f src)"
proof -
  have n: "unat (ucast (data_size f) :: u64) = unat (data_size f)" by (simp add: unat_ucast_up)
  with assms have "owned M src (unat (ucast (data_size f) :: u64))" by simp
  from sized_string_from [OF this] show ?thesis
    unfolding pb_enc_fixed_length_bytes_def n .
qed

section \<open>Submessages\<close>

lemma sizing_state: "out_buffer s \<Longrightarrow> ocallback s = Buf_write"
  by (simp add: out_buffer_def)

lemma sizing_stream: "ocallback PB_OSTREAM_SIZING = No_callback" "bytes_written PB_OSTREAM_SIZING = 0"
  by (simp_all add: PB_OSTREAM_SIZING_def)

text \<open>A substream limited to exactly the bytes that are written to it.\<close>

lemma submessage_write:
  fixes s :: pb_ostream
  assumes f: "pure_writer f bs" and s: "out_buffer s" and fit: "fits (length bs) s"
  shows "f (s\<lparr>max_size := of_nat (length bs), bytes_written := 0, oerrmsg := None\<rparr>) =
    Some (Some (), put bs (s\<lparr>max_size := of_nat (length bs), bytes_written := 0, oerrmsg := None\<rparr>))"
proof (rule pure_writer.writes [OF f])
  have "length bs < 2 ^ 64" using fits_less [OF fit] by simp
  then have n: "unat (of_nat (length bs) :: u64) = length bs"
    by (simp add: unsigned_of_nat take_bit_nat_eq_self)
  have "length bs \<le> length (oroom s)" using s fit unfolding out_buffer_def fits_def by linarith
  with n s show "out_buffer (s\<lparr>max_size := of_nat (length bs), bytes_written := 0, oerrmsg := None\<rparr>)"
    by (simp add: out_buffer_def)
  show "fits (length bs) (s\<lparr>max_size := of_nat (length bs), bytes_written := 0, oerrmsg := None\<rparr>)"
    using n by (simp add: fits_def)
qed

lemma writer_second_pass:
  assumes f: "pure_writer f bs"
  shows "pure_writer (submessage_second_pass f W (of_nat (length bs))) bs"
proof (cases "length bs < 2 ^ 64")
  case True
  show ?thesis
  proof unfold_locales
    fix s :: pb_ostream
    assume "ocallback s = No_callback"
    then show "submessage_second_pass f W (of_nat (length bs)) s = Some (Some (), count_up (length bs) s)"
      by (simp add: submessage_second_pass_def pb_write_def count_up_def)
  next
    fix s :: pb_ostream
    assume s: "out_buffer s" "fits (length bs) s"
    have "unat (bytes_written s + of_nat (length bs)) = unat (bytes_written s) + length bs"
      using fits_less [OF s(2)] by (rule unat_plus_of_nat)
    with s(2) have "\<not> max_size s < bytes_written s + of_nat (length bs)"
      by (simp add: word_less_nat_alt fits_def)
    with s submessage_write [OF f s] show "submessage_second_pass f W (of_nat (length bs)) s = Some (Some (), put bs s)"
      by (simp add: submessage_second_pass_def out_buffer_def put_def)
  next
    fix s :: pb_ostream
    assume s: "out_buffer s" "\<not> fits (length bs) s" "unat (bytes_written s) + length bs < 2 ^ 64"
    then have "max_size s < bytes_written s + of_nat (length bs)"
      by (simp add: unat_plus_of_nat fits_def word_less_nat_alt)
    with s have "submessage_second_pass f W (of_nat (length bs)) s =
      Some (None, pb_oset_error ''stream full'' (put (take 0 bs) s))"
      by (simp add: submessage_second_pass_def pb_oreturn_error_def out_buffer_def)
    with s(1) show "\<exists>k \<le> length bs. fits k s \<and> submessage_second_pass f W (of_nat (length bs)) s =
      Some (None, pb_oset_error ''stream full'' (put (take k bs) s))"
      by (intro exI [of _ 0]) (simp add: fits_def out_buffer_def)
  qed
next
  case False
  show ?thesis
  proof unfold_locales
    fix s :: pb_ostream
    assume "ocallback s = No_callback"
    then show "submessage_second_pass f W (of_nat (length bs)) s = Some (Some (), count_up (length bs) s)"
      by (simp add: submessage_second_pass_def pb_write_def count_up_def)
  next
    fix s :: pb_ostream
    assume "out_buffer s" "fits (length bs) s"
    with False show "submessage_second_pass f W (of_nat (length bs)) s = Some (Some (), put bs s)"
      using fits_less by fastforce
  next
    fix s :: pb_ostream
    assume "unat (bytes_written s) + length bs < 2 ^ 64"
    with False show "\<exists>k \<le> length bs. fits k s \<and> submessage_second_pass f W (of_nat (length bs)) s =
      Some (None, pb_oset_error ''stream full'' (put (take k bs) s))" by simp
  qed
qed

lemma sized_encode_submessage:
  assumes R: "sized k (R fs src)"
  shows "sized (10 + k) (pb_encode_submessage R W fs src)"
proof (cases "\<exists>sub. R fs src PB_OSTREAM_SIZING = Some (Some (), sub)")
  case True
  then obtain sub where sub: "R fs src PB_OSTREAM_SIZING = Some (Some (), sub)" by blast
  from R sizing_stream(1) sub obtain bs where bs: "length bs \<le> k" "pure_writer (R fs src) bs" by (rule sizedE)
  with sub have n: "bytes_written sub = of_nat (length bs)"
    by (auto simp: pure_writer.sizing sizing_stream count_up_def)
  have "pb_encode_submessage R W fs src = bnd (pb_encode_varint W (bytes_written sub))
    (\<lambda>_. submessage_second_pass (R fs src) W (bytes_written sub))"
    by (rule ext) (simp add: pb_encode_submessage_def sub)
  moreover have "sized k (submessage_second_pass (R fs src) W (bytes_written sub))"
    using writer_second_pass [OF bs(2), of W] n bs(1) by (auto intro: sized_pure)
  ultimately show ?thesis by (simp add: sized_bnd sized_encode_varint)
next
  case False
  then show ?thesis
    by (auto simp: sized_def pb_encode_submessage_def split: option.splits)
qed

section \<open>The most bytes a message can take\<close>

text \<open>
  Bounds from the descriptors alone, with \<open>c\<close> for what a field callback may write: an item takes at
  most ten bytes for its length or value and the bytes of its data, and every tag at most ten.
\<close>

definition item_max :: "(pb_field list \<Rightarrow> nat) \<Rightarrow> pb_field \<Rightarrow> nat" where
  "item_max B f =
     10 + (if ltype f = PB_LTYPE_SUBMESSAGE then case field_ptr f of Ptr_submsg fs \<Rightarrow> B fs | _ \<Rightarrow> 0
           else unat (data_size f))"

definition field_max :: "(pb_field list \<Rightarrow> nat) \<Rightarrow> nat \<Rightarrow> pb_field \<Rightarrow> nat" where
  "field_max B c f =
     (if atype f = PB_ATYPE_CALLBACK then c
      else if htype f = PB_HTYPE_REPEATED then 20 + unat (array_size f) * (10 + item_max B f)
      else 10 + item_max B f)"

fun max_encoded_size :: "nat \<Rightarrow> nat \<Rightarrow> pb_field list \<Rightarrow> nat" where
  "max_encoded_size 0 c fs = 0"
| "max_encoded_size (Suc d) c fs =
     sum_list (map (\<lambda>i. field_max (max_encoded_size d c) c (field_at fs i)) [0..<n_fields fs])"

section \<open>Items, arrays and fields\<close>

lemma sized_pb_encoder:
  assumes item: "item_ok L f" and static: "atype f = PB_ATYPE_STATIC"
    and own: "owned M a (unat (data_size f))"
    and R: "\<And>fs. field_ptr f = Ptr_submsg fs \<Longrightarrow> L fs (unat (data_size f)) \<Longrightarrow> sized (B fs) (R fs a)"
  shows "sized (item_max B f) (pb_encoder R M E (ltype f) f a)"
proof (cases "ltype f = PB_LTYPE_SUBMESSAGE")
  case True
  with item obtain fs where "field_ptr f = Ptr_submsg fs" "L fs (unat (data_size f))"
    by (auto simp: item_ok_def split: pb_ptr.splits)
  with True R show ?thesis
    by (simp add: pb_encoder_def pb_enc_submessage_def item_max_def sized_encode_submessage)
next
  case False
  note ints = sized_enc_varint sized_enc_uvarint sized_enc_svarint sized_enc_fixed32 sized_enc_fixed64
  have "sized (10 + unat (data_size f)) (pb_encoder R M E (ltype f) f a)"
    using False own static ints [THEN sized_le] sized_enc_bytes sized_enc_string sized_enc_fixed_length_bytes
      sized_le [OF sized_fails(3)]
    by (simp add: pb_encoder_def)
  with False show ?thesis by (simp add: item_max_def)
qed

lemma sized_encode_items:
  assumes "\<And>i. i < n \<Longrightarrow> sized k (func (p + int i * step))"
  shows "sized (n * k) (encode_items func p step n)"
  using assms
proof (induction n arbitrary: p)
  case 0
  show ?case unfolding encode_items.simps by (rule sized_le [OF sized_ret]) simp
next
  case (Suc n)
  have "sized k (func p)" using Suc.prems [of 0] by simp
  moreover have "sized (n * k) (encode_items func (p + step) step n)"
  proof (rule Suc.IH)
    fix i
    assume "i < n"
    then show "sized k (func (p + step + int i * step))"
      using Suc.prems [of "Suc i"] by (simp add: algebra_simps)
  qed
  ultimately show ?case by (simp add: sized_bnd)
qed

text \<open>An array item lies inside the array.\<close>

lemma owned_item:
  assumes "owned M p (c * n)" and "k < n"
  shows "owned M (p + int k * int c) c"
proof (rule owned_sub [OF assms(1)])
  have "int k * int c + int c \<le> int n * int c"
    using mult_right_mono [of "int k + 1" "int n" "int c"] assms(2) by (simp add: algebra_simps)
  then show "p + int k * int c + int c \<le> p + int (c * n)" by (simp add: algebra_simps)
qed simp

lemma writer_packed_data:
  assumes "pure_writer (encode_items func p step n) bs" and "nbytes = of_nat (length bs)"
  shows "pure_writer (packed_data W func p step n nbytes) bs"
proof unfold_locales
  fix s :: pb_ostream
  assume "ocallback s = No_callback"
  with assms(2) show "packed_data W func p step n nbytes s = Some (Some (), count_up (length bs) s)"
    by (simp add: packed_data_def pb_write_def count_up_def)
qed (use pure_writer.writes [OF assms(1)] pure_writer.too_long [OF assms(1)] in
  \<open>auto simp: packed_data_def out_buffer_def\<close>)

text \<open>
  The size computed for arrays of fixed-size items is the size their encoders write.
\<close>

lemma writer_items_length:
  assumes "\<And>k. k < n \<Longrightarrow> \<exists>bs. length bs = c \<and> pure_writer (func (p + int k * step)) bs"
  shows "\<exists>bs. length bs = n * c \<and> pure_writer (encode_items func p step n) bs"
  using assms
proof (induction n arbitrary: p)
  case 0
  show ?case by (rule exI [of _ "[]"]) (simp only: encode_items.simps writer_ret list.size mult_0 conj_absorb)
next
  case (Suc n)
  from Suc.prems [of 0] obtain a where a: "length a = c" "pure_writer (func p) a" by auto
  have "\<exists>bs. length bs = n * c \<and> pure_writer (encode_items func (p + step) step n) bs"
  proof (rule Suc.IH)
    fix k
    assume "k < n"
    then show "\<exists>bs. length bs = c \<and> pure_writer (func (p + step + int k * step)) bs"
      using Suc.prems [of "Suc k"] by (simp add: algebra_simps)
  qed
  then obtain b where "length b = n * c" "pure_writer (encode_items func (p + step) step n) b" by blast
  with a show ?case by (intro exI [of _ "a @ b"]) (simp add: writer_bnd)
qed

lemma reading_owned:
  assumes "owned M a n"
  shows "\<exists>bs. length bs = n \<and> load a n M = Some (Some bs, M)"
  using load_bytes_owned [OF assms] by (auto simp: load_def)

lemma writer_enc_fixed32:
  assumes "owned M a 4"
  shows "\<exists>bs. length bs = 4 \<and> pure_writer (pb_enc_fixed32 M E f a) bs"
proof -
  from reading_owned [OF assms] obtain cs where "load a 4 M = Some (Some cs, M)" by blast
  then have "pb_enc_fixed32 M E f a = pb_encode_fixed32 (write_cb E) (of_nat (le_val cs))"
    by (simp add: pb_enc_fixed32_def reading_def load_u32_def bnd_def)
  with writer_pb_encode_fixed32 [of "write_cb E" "of_nat (le_val cs)"] show ?thesis
    by (metis length_le_bytes)
qed

lemma writer_enc_fixed64:
  assumes "owned M a 8"
  shows "\<exists>bs. length bs = 8 \<and> pure_writer (pb_enc_fixed64 M E f a) bs"
proof -
  from reading_owned [OF assms] obtain cs where "load a 8 M = Some (Some cs, M)" by blast
  then have "pb_enc_fixed64 M E f a = pb_encode_fixed64 (write_cb E) (of_nat (le_val cs))"
    by (simp add: pb_enc_fixed64_def reading_def load_u64_def bnd_def)
  with writer_pb_encode_fixed64 [of "write_cb E" "of_nat (le_val cs)"] show ?thesis
    by (metis length_le_bytes)
qed


lemma item_ok_fixed:
  assumes "item_ok L f"
  shows "ltype f = PB_LTYPE_FIXED32 \<Longrightarrow> data_size f = 4"
    and "ltype f = PB_LTYPE_FIXED64 \<Longrightarrow> data_size f = 8"
  using assms by (auto simp: item_ok_def split: if_splits)

lemma packed_size_writer:
  assumes item: "item_ok L f" and lt: "ltype f \<le> PB_LTYPE_LAST_PACKABLE"
    and own: "owned M p (unat (data_size f) * unat count)"
    and sz: "packed_size (pb_encoder R M E (ltype f) f) f p count = Some (Some nbytes)"
    and items: "\<And>i. i < unat count \<Longrightarrow>
      sized k (pb_encoder R M E (ltype f) f (p + int i * int (unat (data_size f))))" and k: "10 \<le> k"
  shows "\<exists>bs. nbytes = of_nat (length bs) \<and> length bs \<le> unat count * k \<and>
    pure_writer (encode_items (pb_encoder R M E (ltype f) f) p (int (unat (data_size f))) (unat count)) bs"
proof -
  let ?func = "pb_encoder R M E (ltype f) f" and ?c = "unat (data_size f)" and ?n = "unat count"
  have own_k: "owned M (p + int i * int ?c) ?c" if "i < ?n" for i
    using own that by (rule owned_item)
  consider "ltype f = PB_LTYPE_FIXED32" | "ltype f = PB_LTYPE_FIXED64"
    | "ltype f \<noteq> PB_LTYPE_FIXED32" "ltype f \<noteq> PB_LTYPE_FIXED64" by blast
  then show ?thesis
  proof cases
    case 1
    then have c: "data_size f = 4" by (rule item_ok_fixed(1) [OF item])
    have "\<exists>bs. length bs = ?n * 4 \<and> pure_writer (encode_items ?func p (int ?c) ?n) bs"
    proof (rule writer_items_length)
      fix i
      assume "i < ?n"
      then show "\<exists>bs. length bs = 4 \<and> pure_writer (?func (p + int i * int ?c)) bs"
        using own_k writer_enc_fixed32 1 c by (simp add: pb_encoder_def)
    qed
    moreover have "nbytes = of_nat (?n * 4)" using sz 1 by (auto simp: packed_size_def mult.commute)
    moreover have "?n * 4 \<le> ?n * k" using k by simp
    ultimately show ?thesis by metis
  next
    case 2
    then have c: "data_size f = 8" by (rule item_ok_fixed(2) [OF item])
    have "\<exists>bs. length bs = ?n * 8 \<and> pure_writer (encode_items ?func p (int ?c) ?n) bs"
    proof (rule writer_items_length)
      fix i
      assume "i < ?n"
      then show "\<exists>bs. length bs = 8 \<and> pure_writer (?func (p + int i * int ?c)) bs"
        using own_k writer_enc_fixed64 2 c by (simp add: pb_encoder_def)
    qed
    moreover have "nbytes = of_nat (?n * 8)" using sz 2 by (auto simp: packed_size_def mult.commute)
    moreover have "?n * 8 \<le> ?n * k" using k by simp
    ultimately show ?thesis by metis
  next
    case 3
    then obtain t where t: "encode_items ?func p (int ?c) ?n PB_OSTREAM_SIZING = Some (Some (), t)"
      and n: "nbytes = bytes_written t"
      using sz by (auto simp: packed_size_def split: option.splits)
    have "sized (?n * k) (encode_items ?func p (int ?c) ?n)" by (rule sized_encode_items) (rule items)
    from this sizing_stream(1) t
    obtain bs where len: "length bs \<le> ?n * k" and bs: "pure_writer (encode_items ?func p (int ?c) ?n) bs"
      by (rule sizedE)
    from bs t n have "nbytes = of_nat (length bs)"
      by (auto simp: pure_writer.sizing sizing_stream count_up_def)
    with bs len show ?thesis by blast
  qed
qed

lemma sized_encode_array:
  assumes item: "item_ok L f" and static: "atype f = PB_ATYPE_STATIC"
    and own: "owned M p (unat (data_size f) * unat (array_size f))"
    and items: "\<And>i. i < unat (array_size f) \<Longrightarrow>
      sized k (pb_encoder R M E (ltype f) f (p + int i * int (unat (data_size f))))" and k: "10 \<le> k"
  shows "sized (20 + unat (array_size f) * (10 + k)) (encode_array M E (pb_encoder R M E (ltype f) f) f p count)"
    (is "sized ?max _")
proof (cases "count \<le> array_size f")
  case True
  let ?func = "pb_encoder R M E (ltype f) f" and ?n = "unat count"
  have n: "?n \<le> unat (array_size f)" using True by (simp add: word_le_nat_alt)
  then have items': "sized k (?func (p + int i * int (unat (data_size f))))" if "i < ?n" for i
    using items that by simp
  have own': "owned M p (unat (data_size f) * ?n)"
    using mult_le_mono2 [OF n] by (intro owned_sub [OF own]) (simp_all only: order_refl of_nat_le_iff add_le_cancel_left)
  have small: "?n * k \<le> unat (array_size f) * (10 + k)" "?n * (10 + k) \<le> unat (array_size f) * (10 + k)"
    using n by (simp_all add: mult_le_mono)
  have packed: "sized (unat (array_size f) * (10 + k))
      (packed_data (write_cb E) ?func p (int (unat (data_size f))) ?n nbytes)"
    if "ltype f \<le> PB_LTYPE_LAST_PACKABLE" "packed_size ?func f p count = Some (Some nbytes)" for nbytes
  proof -
    from packed_size_writer [OF item that(1) own' that(2) items' k] obtain bs where bs:
      "nbytes = of_nat (length bs)" "length bs \<le> ?n * k"
      "pure_writer (encode_items ?func p (int (unat (data_size f))) ?n) bs" by blast
    from writer_packed_data [OF bs(3,1)] show ?thesis
      by (rule sized_pure) (use bs(2) small(1) in linarith)
  qed
  have pack: "sized ?max (bnd (pb_encode_tag (write_cb E) 2 (tag f)) (\<lambda>_.
      case packed_size ?func f p count of
        None \<Rightarrow> undefined_behaviour
      | Some None \<Rightarrow> ret_false
      | Some (Some nbytes) \<Rightarrow> bnd (pb_encode_varint (write_cb E) nbytes)
          (\<lambda>_. packed_data (write_cb E) ?func p (int (unat (data_size f))) ?n nbytes)))"
    if "ltype f \<le> PB_LTYPE_LAST_PACKABLE"
  proof -
    have "sized (10 + unat (array_size f) * (10 + k)) (case packed_size ?func f p count of
        None \<Rightarrow> undefined_behaviour
      | Some None \<Rightarrow> ret_false
      | Some (Some nbytes) \<Rightarrow> bnd (pb_encode_varint (write_cb E) nbytes)
          (\<lambda>_. packed_data (write_cb E) ?func p (int (unat (data_size f))) ?n nbytes))"
      using sized_bnd [OF sized_encode_varint packed [OF that]]
      by (auto intro: sized_le [OF sized_fails(2)] sized_le [OF sized_fails(3)] split: option.splits)
    from sized_bnd [OF sized_encode_tag this] show ?thesis by (rule sized_le) simp
  qed
  have each: "sized ?max (encode_items (\<lambda>a. bnd (pb_encode_tag_for_field (write_cb E) f) (\<lambda>_. ?func a))
      p (int (unat (data_size f))) ?n)"
    by (rule sized_le [OF sized_encode_items [where k = "10 + k"]])
      (rule sized_bnd [OF sized_tag_for_field items'], assumption, use small(2) in linarith)
  show ?thesis
  proof (cases "ltype f \<le> PB_LTYPE_LAST_PACKABLE")
    case packable: True
    show ?thesis
      using static packable pack [OF packable] sized_le [OF sized_ret] sized_le [OF sized_fails(1)]
      by (simp add: encode_array_def Let_def del: of_nat_unat)
  next
    case False
    then show ?thesis
      using static each sized_le [OF sized_ret] sized_le [OF sized_fails(1)]
      by (simp add: encode_array_def Let_def)
  qed
next
  case False
  with static show ?thesis
    using sized_le [OF sized_ret] sized_le [OF sized_fails(1)]
    by (simp add: encode_array_def Let_def not_le)
qed

lemma sized_has_value: "(\<And>b. sized k (g b)) \<Longrightarrow> sized k (has_value M ps g)"
  unfolding has_value_def by (cases ps) (auto intro: sized_reading)

lemma sized_count_value: "(\<And>c. sized k (g c)) \<Longrightarrow> sized k (count_value M ps g)"
  unfolding count_value_def by (cases ps) (auto intro: sized_reading sized_le [OF sized_fails(3)])

text \<open>
  User code is documented to write the same data each time it is called; \<open>user_sized c\<close> says that
  of the field callbacks and the extension types' own encoders, and that a call writes at most
  \<open>c\<close> bytes.
\<close>

definition user_sized :: "nat \<Rightarrow> enc_env \<Rightarrow> bool" where
  "user_sized c E \<longleftrightarrow> (\<forall>p f a. sized c (field_enc E p f a))"

lemma bnd_status_of:
  "bnd (status_of f) (\<lambda>ok. if \<not> ok then pb_oreturn_error msg else ret ()) s =
   (case f s of None \<Rightarrow> None | Some (None, t) \<Rightarrow> Some (None, pb_oset_error msg t)
      | Some (Some _, t) \<Rightarrow> Some (Some (), t))"
  by (simp add: bnd_def status_of_def pb_oreturn_error_def split: option.splits prod.splits)

lemma pb_oset_error_twice: "pb_oset_error m1 (pb_oset_error m2 s) = pb_oset_error m2 s"
  by (simp add: pb_oset_error_def split: option.splits)

lemma sized_callback:
  assumes "sized c f"
  shows "sized c (bnd (status_of f) (\<lambda>ok. if \<not> ok then pb_oreturn_error msg else ret ()))"
proof (rule sizedI)
  fix s t :: pb_ostream
  let ?g = "bnd (status_of f) (\<lambda>ok. if \<not> ok then pb_oreturn_error msg else ret ())"
  assume s: "ocallback s = No_callback" and "?g s = Some (Some (), t)"
  then obtain t' where "f s = Some (Some (), t')"
    by (auto simp: bnd_status_of split: option.splits)
  from assms s this obtain bs where len: "length bs \<le> c" and bs: "pure_writer f bs" by (rule sizedE)
  have "pure_writer ?g bs"
    by unfold_locales
      (use pure_writer.sizing [OF bs] pure_writer.writes [OF bs] pure_writer.too_long [OF bs] in
        \<open>fastforce simp: bnd_status_of pb_oset_error_twice\<close>)+
  with len show "\<exists>bs. length bs \<le> c \<and> pure_writer ?g bs" by blast
qed

lemma sized_encode_callback_field:
  assumes "user_sized c E"
  shows "sized c (encode_callback_field M E f a)"
proof -
  have "sized c (if encode \<noteq> 0 then bnd (status_of (field_enc E encode f (a + 8))) (\<lambda>ok.
      if \<not> ok then pb_oreturn_error ''callback error'' else ret ()) else ret ())" for encode
    using assms sized_le [OF sized_ret] by (simp add: user_sized_def sized_callback)
  then show ?thesis unfolding encode_callback_field_def by (rule sized_reading)
qed

lemma sized_tagged:
  assumes "sized k g"
  shows "sized (10 + k) (bnd (pb_encode_tag_for_field W f) (\<lambda>_. g))"
    and "sized (10 + k) (if b then bnd (pb_encode_tag_for_field W f) (\<lambda>_. g) else ret ())"
  using sized_bnd [OF sized_tag_for_field assms, of W f] sized_le [OF sized_ret] by simp_all

lemma sized_static_field:
  assumes ok: "field_ok L n f pd ps" and static: "atype f = PB_ATYPE_STATIC"
    and own: "owned M b n"
    and R: "\<And>fs a. field_ptr f = Ptr_submsg fs \<Longrightarrow> L fs (unat (data_size f)) \<Longrightarrow>
      owned M a (unat (data_size f)) \<Longrightarrow> sized (B fs) (R fs a)"
  shows "sized (field_max B c f) (encode_basic_field d R M E f (b + pd))"
proof -
  have item: "item_ok L f" using ok static by (simp add: field_ok_def)
  let ?func = "pb_encoder R M E (ltype f) f"
  have one: "sized (item_max B f) (?func a)" if "owned M a (unat (data_size f))" for a
    using item static that R [OF _ _ that] by (rule sized_pb_encoder)
  have "sized (field_max B c f) (encode_by_htype R M E f s (b + pd))" for s
  proof (cases "htype f = PB_HTYPE_REPEATED")
    case True
    with ok static have "inside pd (unat (data_size f) * unat (array_size f)) n"
      by (simp add: field_ok_def)
    then have arr: "owned M (b + pd) (unat (data_size f) * unat (array_size f))"
      using own by (rule inside_owned)
    have "sized (20 + unat (array_size f) * (10 + item_max B f)) (encode_array M E ?func f (b + pd) count)" for count
      using item static arr
      by (rule sized_encode_array) (rule one, rule owned_item [OF arr], assumption, simp add: item_max_def)
    with True static show ?thesis
      by (simp add: encode_by_htype_def Let_def field_max_def sized_count_value)
  next
    case False
    with ok static have "inside pd (unat (data_size f)) n"
      by (simp add: field_ok_def)
    then have "sized (item_max B f) (?func (b + pd))"
      using own by (intro one) (rule inside_owned)
    from sized_tagged [OF this] False static show ?thesis
      by (auto simp: encode_by_htype_def Let_def field_max_def
          intro!: sized_has_value sized_count_value sized_le [OF sized_fails(1)])
  qed
  with static sized_le [OF sized_fails(3)] show ?thesis
    by (auto simp: encode_basic_field_def Let_def split: option.splits)
qed

section \<open>Messages\<close>

lemma sized_encode_field:
  assumes ok: "field_ok L n f pd ps" and own: "owned M b n" and E: "user_sized c E"
    and R: "\<And>fs a. field_ptr f = Ptr_submsg fs \<Longrightarrow> L fs (unat (data_size f)) \<Longrightarrow>
      owned M a (unat (data_size f)) \<Longrightarrow> sized (B fs) (R fs a)"
  shows "sized (field_max B c f) (encode_field d R M E f (b + pd))"
proof (cases "atype f = PB_ATYPE_STATIC")
  case True
  with sized_static_field [OF ok True own R] show ?thesis by (simp add: encode_field_def)
next
  case False
  with ok have "atype f = PB_ATYPE_CALLBACK" by (simp add: field_ok_def)
  with sized_encode_callback_field [OF E] show ?thesis by (simp add: encode_field_def field_max_def)
qed

lemma sized_for_each_field:
  assumes "\<And>i. i < n_fields fs \<Longrightarrow> sized (F i) (g (iter_at fs src i))" and "i < n_fields fs"
  shows "sized (sum_list (map F [i..<n_fields fs])) (for_each_field g (iter_at fs src i))"
  using assms(2)
proof (induction "n_fields fs - i" arbitrary: i)
  case (Suc k)
  have split: "sum_list (map F [i..<n_fields fs]) = F i + sum_list (map F [Suc i..<n_fields fs])"
    using Suc.prems by (simp add: upt_rec [of i])
  show ?case
  proof (cases "Suc i < n_fields fs")
    case True
    with Suc have "sized (sum_list (map F [Suc i..<n_fields fs])) (for_each_field g (iter_at fs src (Suc i)))"
      by simp
    from sized_bnd [OF assms(1) [OF Suc.prems] this] True show ?thesis
      by (simp only: for_each_field_at [OF Suc.prems] if_True split)
  next
    case False
    from sized_bnd [OF assms(1) [OF Suc.prems] sized_ret] have
      "sized (F i) (bnd (g (iter_at fs src i)) (\<lambda>_. ret ()))" by (simp only: add_0_right)
    then show ?thesis
      unfolding for_each_field_at [OF Suc.prems] if_not_P [OF False] split by (rule sized_le) simp
  qed
qed simp

lemma sized_pb_encode:
  assumes "layout_ok d fs n" and "owned M src n" and "user_sized c E"
  shows "sized (max_encoded_size d c fs) (pb_encode M E d fs src)"
  using assms(1,2)
proof (induction d arbitrary: fs n src)
  case (Suc d)
  let ?R = "\<lambda>fs' a. pb_encode M E d fs' a" and ?F = "\<lambda>i. field_max (max_encoded_size d c) c (field_at fs i)"
  have field: "sized (?F i) (encode_field d ?R M E (field_at fs i) (src + data_offset_at fs i))"
    if "i < n_fields fs" for i
    using layout_okD [OF Suc.prems(1) that] Suc.prems(2) assms(3)
    by (rule sized_encode_field) (rule Suc.IH)
  have not_ext: "ltype (field_at fs i) \<noteq> PB_LTYPE_EXTENSION" if "i < n_fields fs" for i
    using layout_okD [OF Suc.prems(1) that] by (simp add: field_ok_def)
  show ?case
  proof (cases "0 < n_fields fs")
    case True
    have "sized (sum_list (map ?F [0..<n_fields fs])) (for_each_field (\<lambda>iter. if ltype (cur iter) = PB_LTYPE_EXTENSION
        then encode_extension_field d ?R M E (pData iter)
        else encode_field d ?R M E (cur iter) (pData iter)) (iter_at fs src 0))"
      using True
      by (rule sized_for_each_field [rotated])
        (simp add: cur_iter_at pData_at field not_ext)
    with True show ?thesis by (simp add: pb_encode.simps(2) begin_True)
  next
    case False
    then show ?thesis by (simp add: pb_encode.simps(2) begin_True sized_ret sized_ret [unfolded ret_def])
  qed
qed simp

end
