(* ===== verification/Pb_Descriptors.thy ===== *)
theory Pb_Descriptors
  imports Pb_Memory
begin

text \<open>
  The macros of \<open>pb.h\<close> with which the generated \<open>.pb.c\<close> files build descriptor arrays. A
  descriptor does not hold the offset of its member but the distance from the end of the member
  before it, and the iterator of \<open>pb_common.c\<close> adds these up; the lemmas here show that it comes
  back to the offsets the macros started from.

  A struct member is known by what the macros take of it: \<open>offsetof(st, m)\<close>, \<open>sizeof(m)\<close>,
  \<open>sizeof(m[0])\<close> and the \<open>offsetof\<close> of its companion, the \<open>has_\<close>, \<open>_count\<close> or \<open>which_\<close> member.
\<close>

section \<open>Struct members and offsets\<close>

record member =
  moffset :: nat
  msize :: nat
  esize :: nat
  companion :: nat

definition pb_membersize :: "member \<Rightarrow> u32" where
  "pb_membersize m = of_nat (msize m)"

definition pb_elemsize :: "member \<Rightarrow> u32" where
  "pb_elemsize m = of_nat (esize m)"

definition pb_arraysize :: "member \<Rightarrow> u32" where
  "pb_arraysize m = of_nat (msize m div esize m)"

text \<open>The distance from a member to its companion, an \<open>int\<close> stored in an \<open>int32_t\<close>.\<close>

definition pb_delta :: "member \<Rightarrow> u32" where
  "pb_delta m = of_int (int (companion m) - int (moffset m))"

definition PB_DATAOFFSET_FIRST :: "member \<Rightarrow> member \<Rightarrow> u32" where
  "PB_DATAOFFSET_FIRST m1 m2 = of_nat (moffset m1)"

definition PB_DATAOFFSET_OTHER :: "member \<Rightarrow> member \<Rightarrow> u32" where
  "PB_DATAOFFSET_OTHER m1 m2 = of_int (int (moffset m1) - int (moffset m2) - int (msize m2))"

definition PB_DATAOFFSET_UNION :: "member \<Rightarrow> member \<Rightarrow> u32" where
  "PB_DATAOFFSET_UNION m1 m2 = PB_SIZE_MAX"

definition PB_DATAOFFSET_CHOOSE :: "member \<Rightarrow> member \<Rightarrow> u32" where
  "PB_DATAOFFSET_CHOOSE m1 m2 =
     (if moffset m1 = moffset m2 then PB_DATAOFFSET_FIRST m1 m2 else PB_DATAOFFSET_OTHER m1 m2)"

section \<open>Field macros\<close>

definition PB_REQUIRED_STATIC :: "u32 \<Rightarrow> member \<Rightarrow> u32 \<Rightarrow> byte \<Rightarrow> pb_ptr \<Rightarrow> pb_field" where
  "PB_REQUIRED_STATIC t m fd lt p =
     Pb_Field t (PB_ATYPE_STATIC OR PB_HTYPE_REQUIRED OR lt) fd 0 (pb_membersize m) 0 p"

definition PB_OPTIONAL_STATIC :: "u32 \<Rightarrow> member \<Rightarrow> u32 \<Rightarrow> byte \<Rightarrow> pb_ptr \<Rightarrow> pb_field" where
  "PB_OPTIONAL_STATIC t m fd lt p =
     Pb_Field t (PB_ATYPE_STATIC OR PB_HTYPE_OPTIONAL OR lt) fd (pb_delta m) (pb_membersize m) 0 p"

definition PB_SINGULAR_STATIC :: "u32 \<Rightarrow> member \<Rightarrow> u32 \<Rightarrow> byte \<Rightarrow> pb_ptr \<Rightarrow> pb_field" where
  "PB_SINGULAR_STATIC t m fd lt p =
     Pb_Field t (PB_ATYPE_STATIC OR PB_HTYPE_OPTIONAL OR lt) fd 0 (pb_membersize m) 0 p"

definition PB_REPEATED_STATIC :: "u32 \<Rightarrow> member \<Rightarrow> u32 \<Rightarrow> byte \<Rightarrow> pb_ptr \<Rightarrow> pb_field" where
  "PB_REPEATED_STATIC t m fd lt p =
     Pb_Field t (PB_ATYPE_STATIC OR PB_HTYPE_REPEATED OR lt) fd (pb_delta m) (pb_elemsize m)
       (pb_arraysize m) p"

definition PB_REQUIRED_POINTER :: "u32 \<Rightarrow> member \<Rightarrow> u32 \<Rightarrow> byte \<Rightarrow> pb_ptr \<Rightarrow> pb_field" where
  "PB_REQUIRED_POINTER t m fd lt p =
     Pb_Field t (PB_ATYPE_POINTER OR PB_HTYPE_REQUIRED OR lt) fd 0 (pb_elemsize m) 0 p"

definition PB_OPTIONAL_POINTER :: "u32 \<Rightarrow> member \<Rightarrow> u32 \<Rightarrow> byte \<Rightarrow> pb_ptr \<Rightarrow> pb_field" where
  "PB_OPTIONAL_POINTER t m fd lt p =
     Pb_Field t (PB_ATYPE_POINTER OR PB_HTYPE_OPTIONAL OR lt) fd 0 (pb_elemsize m) 0 p"

definition PB_SINGULAR_POINTER :: "u32 \<Rightarrow> member \<Rightarrow> u32 \<Rightarrow> byte \<Rightarrow> pb_ptr \<Rightarrow> pb_field" where
  "PB_SINGULAR_POINTER t m fd lt p =
     Pb_Field t (PB_ATYPE_POINTER OR PB_HTYPE_OPTIONAL OR lt) fd 0 (pb_elemsize m) 0 p"

definition PB_REPEATED_POINTER :: "u32 \<Rightarrow> member \<Rightarrow> u32 \<Rightarrow> byte \<Rightarrow> pb_ptr \<Rightarrow> pb_field" where
  "PB_REPEATED_POINTER t m fd lt p =
     Pb_Field t (PB_ATYPE_POINTER OR PB_HTYPE_REPEATED OR lt) fd (pb_delta m) (pb_elemsize m) 0 p"

definition PB_REQUIRED_CALLBACK :: "u32 \<Rightarrow> member \<Rightarrow> u32 \<Rightarrow> byte \<Rightarrow> pb_ptr \<Rightarrow> pb_field" where
  "PB_REQUIRED_CALLBACK t m fd lt p =
     Pb_Field t (PB_ATYPE_CALLBACK OR PB_HTYPE_REQUIRED OR lt) fd 0 (pb_membersize m) 0 p"

definition PB_OPTIONAL_CALLBACK :: "u32 \<Rightarrow> member \<Rightarrow> u32 \<Rightarrow> byte \<Rightarrow> pb_ptr \<Rightarrow> pb_field" where
  "PB_OPTIONAL_CALLBACK t m fd lt p =
     Pb_Field t (PB_ATYPE_CALLBACK OR PB_HTYPE_OPTIONAL OR lt) fd 0 (pb_membersize m) 0 p"

definition PB_SINGULAR_CALLBACK :: "u32 \<Rightarrow> member \<Rightarrow> u32 \<Rightarrow> byte \<Rightarrow> pb_ptr \<Rightarrow> pb_field" where
  "PB_SINGULAR_CALLBACK t m fd lt p =
     Pb_Field t (PB_ATYPE_CALLBACK OR PB_HTYPE_OPTIONAL OR lt) fd 0 (pb_membersize m) 0 p"

definition PB_REPEATED_CALLBACK :: "u32 \<Rightarrow> member \<Rightarrow> u32 \<Rightarrow> byte \<Rightarrow> pb_ptr \<Rightarrow> pb_field" where
  "PB_REPEATED_CALLBACK t m fd lt p =
     Pb_Field t (PB_ATYPE_CALLBACK OR PB_HTYPE_REPEATED OR lt) fd 0 (pb_membersize m) 0 p"

text \<open>Extension fields have no previous member: their offset is zero.\<close>

definition PB_OPTEXT_STATIC :: "u32 \<Rightarrow> member \<Rightarrow> u32 \<Rightarrow> byte \<Rightarrow> pb_ptr \<Rightarrow> pb_field" where
  "PB_OPTEXT_STATIC t m fd lt p =
     Pb_Field t (PB_ATYPE_STATIC OR PB_HTYPE_REQUIRED OR lt) 0 0 (pb_membersize m) 0 p"

definition PB_OPTEXT_POINTER :: "u32 \<Rightarrow> member \<Rightarrow> u32 \<Rightarrow> byte \<Rightarrow> pb_ptr \<Rightarrow> pb_field" where
  "PB_OPTEXT_POINTER = PB_OPTIONAL_POINTER"

definition PB_OPTEXT_CALLBACK :: "u32 \<Rightarrow> member \<Rightarrow> u32 \<Rightarrow> byte \<Rightarrow> pb_ptr \<Rightarrow> pb_field" where
  "PB_OPTEXT_CALLBACK = PB_OPTIONAL_CALLBACK"

definition PB_ONEOF_STATIC :: "u32 \<Rightarrow> member \<Rightarrow> u32 \<Rightarrow> byte \<Rightarrow> pb_ptr \<Rightarrow> pb_field" where
  "PB_ONEOF_STATIC t m fd lt p =
     Pb_Field t (PB_ATYPE_STATIC OR PB_HTYPE_ONEOF OR lt) fd (pb_delta m) (pb_membersize m) 0 p"

definition PB_ONEOF_POINTER :: "u32 \<Rightarrow> member \<Rightarrow> u32 \<Rightarrow> byte \<Rightarrow> pb_ptr \<Rightarrow> pb_field" where
  "PB_ONEOF_POINTER t m fd lt p =
     Pb_Field t (PB_ATYPE_POINTER OR PB_HTYPE_ONEOF OR lt) fd (pb_delta m) (pb_elemsize m) 0 p"

section \<open>The type map and \<open>PB_FIELD\<close>\<close>

datatype proto_type =
  T_BOOL | T_BYTES | T_DOUBLE | T_ENUM | T_UENUM | T_FIXED32 | T_FIXED64 | T_FLOAT | T_INT32 |
  T_INT64 | T_MESSAGE | T_SFIXED32 | T_SFIXED64 | T_SINT32 | T_SINT64 | T_STRING | T_UINT32 |
  T_UINT64 | T_EXTENSION | T_FIXED_LENGTH_BYTES

fun PB_LTYPE_MAP :: "proto_type \<Rightarrow> byte" where
  "PB_LTYPE_MAP T_BOOL = PB_LTYPE_VARINT"
| "PB_LTYPE_MAP T_BYTES = PB_LTYPE_BYTES"
| "PB_LTYPE_MAP T_DOUBLE = PB_LTYPE_FIXED64"
| "PB_LTYPE_MAP T_ENUM = PB_LTYPE_VARINT"
| "PB_LTYPE_MAP T_UENUM = PB_LTYPE_UVARINT"
| "PB_LTYPE_MAP T_FIXED32 = PB_LTYPE_FIXED32"
| "PB_LTYPE_MAP T_FIXED64 = PB_LTYPE_FIXED64"
| "PB_LTYPE_MAP T_FLOAT = PB_LTYPE_FIXED32"
| "PB_LTYPE_MAP T_INT32 = PB_LTYPE_VARINT"
| "PB_LTYPE_MAP T_INT64 = PB_LTYPE_VARINT"
| "PB_LTYPE_MAP T_MESSAGE = PB_LTYPE_SUBMESSAGE"
| "PB_LTYPE_MAP T_SFIXED32 = PB_LTYPE_FIXED32"
| "PB_LTYPE_MAP T_SFIXED64 = PB_LTYPE_FIXED64"
| "PB_LTYPE_MAP T_SINT32 = PB_LTYPE_SVARINT"
| "PB_LTYPE_MAP T_SINT64 = PB_LTYPE_SVARINT"
| "PB_LTYPE_MAP T_STRING = PB_LTYPE_STRING"
| "PB_LTYPE_MAP T_UINT32 = PB_LTYPE_UVARINT"
| "PB_LTYPE_MAP T_UINT64 = PB_LTYPE_UVARINT"
| "PB_LTYPE_MAP T_EXTENSION = PB_LTYPE_EXTENSION"
| "PB_LTYPE_MAP T_FIXED_LENGTH_BYTES = PB_LTYPE_FIXED_LENGTH_BYTES"

datatype rules = REQUIRED | OPTIONAL | SINGULAR | REPEATED | OPTEXT
datatype allocation = STATIC | POINTER | CALLBACK
datatype placement = FIRST | OTHER | UNION

fun PB_DATAOFFSET :: "placement \<Rightarrow> member \<Rightarrow> member \<Rightarrow> u32" where
  "PB_DATAOFFSET FIRST = PB_DATAOFFSET_FIRST"
| "PB_DATAOFFSET OTHER = PB_DATAOFFSET_OTHER"
| "PB_DATAOFFSET UNION = PB_DATAOFFSET_UNION"

text \<open>The token pasting \<open>PB_ ## rules ## _ ## allocation\<close>.\<close>

fun PB_rules_allocation :: "rules \<Rightarrow> allocation \<Rightarrow> u32 \<Rightarrow> member \<Rightarrow> u32 \<Rightarrow> byte \<Rightarrow> pb_ptr \<Rightarrow> pb_field" where
  "PB_rules_allocation REQUIRED STATIC = PB_REQUIRED_STATIC"
| "PB_rules_allocation OPTIONAL STATIC = PB_OPTIONAL_STATIC"
| "PB_rules_allocation SINGULAR STATIC = PB_SINGULAR_STATIC"
| "PB_rules_allocation REPEATED STATIC = PB_REPEATED_STATIC"
| "PB_rules_allocation OPTEXT STATIC = PB_OPTEXT_STATIC"
| "PB_rules_allocation REQUIRED POINTER = PB_REQUIRED_POINTER"
| "PB_rules_allocation OPTIONAL POINTER = PB_OPTIONAL_POINTER"
| "PB_rules_allocation SINGULAR POINTER = PB_SINGULAR_POINTER"
| "PB_rules_allocation REPEATED POINTER = PB_REPEATED_POINTER"
| "PB_rules_allocation OPTEXT POINTER = PB_OPTEXT_POINTER"
| "PB_rules_allocation REQUIRED CALLBACK = PB_REQUIRED_CALLBACK"
| "PB_rules_allocation OPTIONAL CALLBACK = PB_OPTIONAL_CALLBACK"
| "PB_rules_allocation SINGULAR CALLBACK = PB_SINGULAR_CALLBACK"
| "PB_rules_allocation REPEATED CALLBACK = PB_REPEATED_CALLBACK"
| "PB_rules_allocation OPTEXT CALLBACK = PB_OPTEXT_CALLBACK"

definition PB_FIELD ::
  "u32 \<Rightarrow> proto_type \<Rightarrow> rules \<Rightarrow> allocation \<Rightarrow> placement \<Rightarrow> member \<Rightarrow> member \<Rightarrow> pb_ptr \<Rightarrow> pb_field" where
  "PB_FIELD t ty r al pl m prev p =
     PB_rules_allocation r al t m (PB_DATAOFFSET pl m prev) (PB_LTYPE_MAP ty) p"

fun PB_ONEOF_allocation :: "allocation \<Rightarrow> u32 \<Rightarrow> member \<Rightarrow> u32 \<Rightarrow> byte \<Rightarrow> pb_ptr \<Rightarrow> pb_field option" where
  "PB_ONEOF_allocation STATIC t m fd lt p = Some (PB_ONEOF_STATIC t m fd lt p)"
| "PB_ONEOF_allocation POINTER t m fd lt p = Some (PB_ONEOF_POINTER t m fd lt p)"
| "PB_ONEOF_allocation CALLBACK t m fd lt p = None"

definition PB_ONEOF_FIELD ::
  "u32 \<Rightarrow> proto_type \<Rightarrow> allocation \<Rightarrow> placement \<Rightarrow> member \<Rightarrow> member \<Rightarrow> pb_ptr \<Rightarrow> pb_field option" where
  "PB_ONEOF_FIELD t ty al pl m prev p =
     PB_ONEOF_allocation al t m (PB_DATAOFFSET pl m prev) (PB_LTYPE_MAP ty) p"


section \<open>Descriptor arrays of whole structs\<close>

text \<open>One line of a generated descriptor array, and the array: the first field is \<open>FIRST\<close>, the others \<open>OTHER\<close>.\<close>

record decl =
  dtag :: u32
  dtype :: proto_type
  drules :: rules
  dalloc :: allocation
  dmember :: member
  dptr :: pb_ptr

fun other_fields :: "member \<Rightarrow> decl list \<Rightarrow> pb_field list" where
  "other_fields prev [] = []"
| "other_fields prev (d # ds) =
     PB_FIELD (dtag d) (dtype d) (drules d) (dalloc d) OTHER (dmember d) prev (dptr d) # other_fields (dmember d) ds"

text \<open>
  A whole array: the first field has the placement \<open>FIRST\<close>, the others \<open>OTHER\<close>. Arrays with oneof
  fields or with extension ranges (\<open>PB_ONEOF_FIELD\<close>, \<open>OPTEXT\<close>) are not built here.
\<close>

fun descriptors :: "decl list \<Rightarrow> pb_field list" where
  "descriptors [] = [PB_LAST_FIELD]"
| "descriptors (d # ds) =
     PB_FIELD (dtag d) (dtype d) (drules d) (dalloc d) FIRST (dmember d) (dmember d) (dptr d) #
     other_fields (dmember d) ds @ [PB_LAST_FIELD]"

text \<open>What the compiler's layout of the struct and the generator promise.\<close>

definition decl_ok :: "decl \<Rightarrow> bool" where
  "decl_ok d \<longleftrightarrow> dtag d \<noteq> 0 \<and> drules d \<noteq> OPTEXT \<and> msize (dmember d) < 2 ^ 31 \<and>
     moffset (dmember d) < 2 ^ 31 \<and> companion (dmember d) < 2 ^ 31 \<and>
     (dalloc d = POINTER \<longrightarrow> msize (dmember d) = 8) \<and>
     (dalloc d = STATIC \<and> drules d = REPEATED \<longrightarrow> 0 < esize (dmember d) \<and> esize (dmember d) dvd msize (dmember d))"

definition in_order :: "decl list \<Rightarrow> bool" where
  "in_order ds \<longleftrightarrow> (\<forall>i. Suc i < length ds \<longrightarrow>
     moffset (dmember (ds ! i)) + msize (dmember (ds ! i)) \<le> moffset (dmember (ds ! Suc i)))"

lemma length_other_fields [simp]: "length (other_fields prev ds) = length ds"
  by (induction prev ds rule: other_fields.induct) simp_all

lemma nth_other_fields:
  "i < length ds \<Longrightarrow> other_fields prev ds ! i =
   PB_FIELD (dtag (ds ! i)) (dtype (ds ! i)) (drules (ds ! i)) (dalloc (ds ! i)) OTHER (dmember (ds ! i))
     (if i = 0 then prev else dmember (ds ! (i - 1))) (dptr (ds ! i))"
proof (induction prev ds arbitrary: i rule: other_fields.induct)
  case (2 prev d ds)
  then show ?case by (cases i) (auto simp: nth_Cons')
qed simp

lemma field_at_descriptors:
  assumes "i < length ds"
  shows "field_at (descriptors ds) i =
    PB_FIELD (dtag (ds ! i)) (dtype (ds ! i)) (drules (ds ! i)) (dalloc (ds ! i))
      (if i = 0 then FIRST else OTHER) (dmember (ds ! i))
      (if i = 0 then dmember (ds ! i) else dmember (ds ! (i - 1))) (dptr (ds ! i))"
proof (cases ds)
  case (Cons d ds')
  show ?thesis
  proof (cases i)
    case (Suc j)
    with assms Cons show ?thesis
      by (auto simp: field_at_def nth_append nth_other_fields nth_Cons')
  qed (simp add: Cons field_at_def)
qed (use assms in simp)

lemma PB_FIELD_tag [simp]: "tag (PB_FIELD t ty r al pl m prev p) = t"
  by (cases r; cases al) (simp_all add: PB_FIELD_def PB_REQUIRED_STATIC_def PB_OPTIONAL_STATIC_def
    PB_SINGULAR_STATIC_def PB_REPEATED_STATIC_def PB_REQUIRED_POINTER_def PB_OPTIONAL_POINTER_def
    PB_SINGULAR_POINTER_def PB_REPEATED_POINTER_def PB_REQUIRED_CALLBACK_def PB_OPTIONAL_CALLBACK_def
    PB_SINGULAR_CALLBACK_def PB_REPEATED_CALLBACK_def PB_OPTEXT_STATIC_def PB_OPTEXT_POINTER_def
    PB_OPTEXT_CALLBACK_def)


lemmas PB_macros =
  PB_REQUIRED_STATIC_def PB_OPTIONAL_STATIC_def PB_SINGULAR_STATIC_def PB_REPEATED_STATIC_def
  PB_REQUIRED_POINTER_def PB_OPTIONAL_POINTER_def PB_SINGULAR_POINTER_def PB_REPEATED_POINTER_def
  PB_REQUIRED_CALLBACK_def PB_OPTIONAL_CALLBACK_def PB_SINGULAR_CALLBACK_def
  PB_REPEATED_CALLBACK_def PB_OPTEXT_STATIC_def PB_OPTEXT_POINTER_def PB_OPTEXT_CALLBACK_def

lemma ltype_masks:
  "PB_LTYPE_MAP ty AND 0xC0 = 0" "PB_LTYPE_MAP ty AND 0x30 = 0"
  "PB_LTYPE_MAP ty AND 0x0F = PB_LTYPE_MAP ty"
  by (cases ty; simp)+

lemma field_type_part:
  "PB_ATYPE (PB_LTYPE_MAP ty) = 0" "PB_ATYPE (c OR PB_LTYPE_MAP ty) = c AND 0xC0"
  "PB_ATYPE (b OR c OR PB_LTYPE_MAP ty) = (b AND 0xC0) OR (c AND 0xC0)"
  "PB_HTYPE (PB_LTYPE_MAP ty) = 0" "PB_HTYPE (c OR PB_LTYPE_MAP ty) = c AND 0x30"
  "PB_HTYPE (b OR c OR PB_LTYPE_MAP ty) = (b AND 0x30) OR (c AND 0x30)"
  "PB_LTYPE (PB_LTYPE_MAP ty) = PB_LTYPE_MAP ty" "PB_LTYPE (c OR PB_LTYPE_MAP ty) = (c AND 0x0F) OR PB_LTYPE_MAP ty"
  "PB_LTYPE (b OR c OR PB_LTYPE_MAP ty) = (b AND 0x0F) OR (c AND 0x0F) OR PB_LTYPE_MAP ty"
  by (simp_all only: PB_ATYPE_def PB_HTYPE_def PB_LTYPE_def bit.conj_disj_distrib2 ltype_masks or.right_neutral)

lemma PB_FIELD_types:
  "atype (PB_FIELD t ty r al pl m prev p) =
    (case al of STATIC \<Rightarrow> PB_ATYPE_STATIC | POINTER \<Rightarrow> PB_ATYPE_POINTER | CALLBACK \<Rightarrow> PB_ATYPE_CALLBACK)"
  "r \<noteq> OPTEXT \<Longrightarrow> htype (PB_FIELD t ty r al pl m prev p) =
    (case r of REQUIRED \<Rightarrow> PB_HTYPE_REQUIRED | REPEATED \<Rightarrow> PB_HTYPE_REPEATED | _ \<Rightarrow> PB_HTYPE_OPTIONAL)"
  "ltype (PB_FIELD t ty r al pl m prev p) = PB_LTYPE_MAP ty"
  by (cases r; cases al; simp add: PB_FIELD_def PB_macros field_type_part)+

lemma PB_FIELD_data_offset: "r \<noteq> OPTEXT \<Longrightarrow> data_offset (PB_FIELD t ty r al pl m prev p) = PB_DATAOFFSET pl m prev"
  by (cases r; cases al; simp add: PB_FIELD_def PB_macros)

lemma PB_FIELD_size_offset:
  "r \<noteq> OPTEXT \<Longrightarrow> size_offset (PB_FIELD t ty r al pl m prev p) =
    (if al = STATIC \<and> (r = OPTIONAL \<or> r = REPEATED) \<or> al = POINTER \<and> r = REPEATED then pb_delta m else 0)"
  by (cases r; cases al; simp add: PB_FIELD_def PB_macros)

lemma sint_pb_delta:
  assumes "moffset m < 2 ^ 31" and "companion m < 2 ^ 31"
  shows "sint (pb_delta m) = int (companion m) - int (moffset m)"
proof -
  have "sint (pb_delta m) = signed_take_bit 31 (int (companion m) - int (moffset m))"
    unfolding pb_delta_def by (simp only: signed_of_int) simp
  also have "\<dots> = int (companion m) - int (moffset m)"
    using assms by (intro signed_take_bit_int_eq_self) simp_all
  finally show ?thesis .
qed

lemma unat_small: "n < 2 ^ 31 \<Longrightarrow> unat (of_nat n :: u32) = n"
  by (simp add: unsigned_of_nat take_bit_nat_eq_self)

lemma uint_small: "n < 2 ^ 31 \<Longrightarrow> uint (of_nat n :: u32) = int n"
  using unat_small [of n] by (metis uint_nat)

lemma prev_size_PB_FIELD:
  assumes "decl_ok d"
  shows "prev_size (PB_FIELD (dtag d) (dtype d) (drules d) (dalloc d) pl (dmember d) prev (dptr d)) = msize (dmember d)"
proof -
  have small: "msize (dmember d) < 2 ^ 31" and r: "drules d \<noteq> OPTEXT" using assms by (simp_all add: decl_ok_def)
  show ?thesis
  proof (cases "dalloc d")
    case STATIC
    show ?thesis
    proof (cases "drules d = REPEATED")
      case True
      with STATIC assms have e: "0 < esize (dmember d)" "esize (dmember d) dvd msize (dmember d)"
        by (simp_all add: decl_ok_def)
      then have "esize (dmember d) \<le> msize (dmember d) \<or> msize (dmember d) = 0"
        by (auto dest: dvd_imp_le)
      show ?thesis
      proof (cases "msize (dmember d) = 0")
        case True
        with \<open>drules d = REPEATED\<close> STATIC show ?thesis
          by (simp add: prev_size_def PB_FIELD_types) (simp add: PB_FIELD_def PB_macros pb_arraysize_def)
      next
        case False
        with e have le: "esize (dmember d) \<le> msize (dmember d)" by (auto dest: dvd_imp_le)
        have "msize (dmember d) div esize (dmember d) \<le> msize (dmember d)" by (rule div_le_dividend)
        with small le have "unat (pb_elemsize (dmember d)) = esize (dmember d)"
          "unat (pb_arraysize (dmember d)) = msize (dmember d) div esize (dmember d)"
          by (simp_all only: pb_elemsize_def pb_arraysize_def unat_small order_le_less_trans)
        with e STATIC True show ?thesis
          by (simp add: prev_size_def PB_FIELD_types) (simp add: PB_FIELD_def PB_macros)
      qed
    next
      case False
      with STATIC r small show ?thesis
        by (cases "drules d"; simp add: prev_size_def PB_FIELD_types)
          (simp_all add: PB_FIELD_def PB_macros pb_membersize_def unat_small)
    qed
  next
    case POINTER
    with assms r show ?thesis
      by (cases "drules d"; simp add: prev_size_def PB_FIELD_types decl_ok_def)
  next
    case CALLBACK
    with r small show ?thesis
      by (cases "drules d"; simp add: prev_size_def PB_FIELD_types)
        (simp_all add: PB_FIELD_def PB_macros pb_membersize_def unat_small)
  qed
qed


lemma n_fields_descriptors:
  assumes "\<And>d. d \<in> set ds \<Longrightarrow> dtag d \<noteq> 0"
  shows "n_fields (descriptors ds) = length ds"
proof -
  have "takeWhile (\<lambda>f. tag f \<noteq> 0) (other_fields prev xs @ [PB_LAST_FIELD]) = other_fields prev xs"
    if "\<And>d. d \<in> set xs \<Longrightarrow> dtag d \<noteq> 0" for prev xs
    using that by (induction prev xs rule: other_fields.induct) (simp_all add: PB_LAST_FIELD_def)
  with assms show ?thesis by (cases ds) (simp_all add: n_fields_def PB_LAST_FIELD_def)
qed

lemma data_offset_at_Suc:
  assumes "Suc i < n_fields fs" and "htype (field_at fs i) \<noteq> PB_HTYPE_ONEOF"
  shows "data_offset_at fs (Suc i) =
      data_offset_at fs i + int (prev_size (field_at fs i)) + int (unat (data_offset (field_at fs (Suc i))))"
    and "size_offset_at fs (Suc i) = data_offset_at fs (Suc i) + sint (size_offset (field_at fs (Suc i)))"
proof -
  have i: "i < n_fields fs" using assms(1) by simp
  have "tag (field_at fs i) \<noteq> 0" "tag (field_at fs (Suc i)) \<noteq> 0"
    using assms(1) i tag_below_n_fields by simp_all
  with assms(2) show "data_offset_at fs (Suc i) =
      data_offset_at fs i + int (prev_size (field_at fs i)) + int (unat (data_offset (field_at fs (Suc i))))"
    and "size_offset_at fs (Suc i) = data_offset_at fs (Suc i) + sint (size_offset (field_at fs (Suc i)))"
    by (simp_all add: data_offset_at_def size_offset_at_def iter_at.simps(2) pb_field_iter_next_def Let_def
        cur_def iter_at_simps [OF i])
qed

lemma descriptor_offset:
  assumes ok: "\<And>d. d \<in> set ds \<Longrightarrow> decl_ok d" and order: "in_order ds" and i: "i < length ds"
  shows "data_offset_at (descriptors ds) i = int (moffset (dmember (ds ! i)))"
  using i
proof (induction i)
  case 0
  then have "moffset (dmember (ds ! 0)) < 2 ^ 31" "drules (ds ! 0) \<noteq> OPTEXT"
    using ok [OF nth_mem [OF 0]] by (simp_all add: decl_ok_def)
  with 0 show ?case
    by (simp add: data_offset_at_def pb_field_iter_begin_def Let_def field_at_descriptors PB_FIELD_data_offset
        PB_DATAOFFSET_FIRST_def uint_small)
next
  case (Suc i)
  then have i: "i < length ds" by simp
  let ?d = "ds ! i" and ?e = "ds ! Suc i" and ?fs = "descriptors ds"
  have d: "decl_ok ?d" and e: "decl_ok ?e" using ok Suc.prems i nth_mem by blast+
  have n: "Suc i < n_fields ?fs" using n_fields_descriptors [of ds] ok Suc.prems by (simp add: decl_ok_def)
  have "htype (field_at ?fs i) \<noteq> PB_HTYPE_ONEOF"
    using d by (cases "drules ?d") (simp_all add: field_at_descriptors [OF i] PB_FIELD_types decl_ok_def)
  note off = data_offset_at_Suc(1) [OF n this]
  have le: "moffset (dmember ?d) + msize (dmember ?d) \<le> moffset (dmember ?e)"
    using order Suc.prems by (simp add: in_order_def)
  have "data_offset (field_at ?fs (Suc i)) =
      of_nat (moffset (dmember ?e) - moffset (dmember ?d) - msize (dmember ?d))"
    using e le by (simp add: field_at_descriptors [OF Suc.prems] PB_FIELD_data_offset decl_ok_def
        PB_DATAOFFSET_OTHER_def of_nat_diff)
  then have "unat (data_offset (field_at ?fs (Suc i))) =
      moffset (dmember ?e) - moffset (dmember ?d) - msize (dmember ?d)"
    using e by (simp only: unat_small decl_ok_def less_imp_diff_less)
  with off Suc.IH [OF i] le show ?case
    by (simp add: field_at_descriptors [OF i] prev_size_PB_FIELD [OF d])
qed

lemma descriptor_companion:
  assumes ok: "\<And>d. d \<in> set ds \<Longrightarrow> decl_ok d" and order: "in_order ds" and i: "i < length ds"
    and comp: "dalloc (ds ! i) = STATIC \<and> (drules (ds ! i) = OPTIONAL \<or> drules (ds ! i) = REPEATED) \<or>
      dalloc (ds ! i) = POINTER \<and> drules (ds ! i) = REPEATED"
  shows "size_offset_at (descriptors ds) i = int (companion (dmember (ds ! i)))"
proof -
  have d: "decl_ok (ds ! i)" using ok i nth_mem by blast
  have "size_offset_at (descriptors ds) i =
      data_offset_at (descriptors ds) i + sint (size_offset (field_at (descriptors ds) i))"
  proof (cases i)
    case 0
    then show ?thesis by (simp add: size_offset_at_def data_offset_at_def pb_field_iter_begin_def Let_def)
  next
    case (Suc j)
    with i have j: "j < length ds" by simp
    have "decl_ok (ds ! j)" using ok j nth_mem by blast
    then have "htype (field_at (descriptors ds) j) \<noteq> PB_HTYPE_ONEOF"
      by (cases "drules (ds ! j)") (simp_all add: field_at_descriptors [OF j] PB_FIELD_types decl_ok_def)
    moreover have "Suc j < n_fields (descriptors ds)"
      using n_fields_descriptors [of ds] ok i Suc by (simp add: decl_ok_def)
    ultimately show ?thesis using data_offset_at_Suc(2) Suc by blast
  qed
  also have "size_offset (field_at (descriptors ds) i) = pb_delta (dmember (ds ! i))"
    using comp d by (auto simp: field_at_descriptors [OF i] PB_FIELD_size_offset decl_ok_def)
  finally show ?thesis
    using d by (simp add: descriptor_offset [OF ok order i] sint_pb_delta decl_ok_def)
qed

end
