(* ===== verification/Pb_Message_Props.thy ===== *)
theory Pb_Message_Props
  imports Pb_Decode_Safe Pb_Encode_Sizing Pb_Descriptors
begin

text \<open>
  The properties of nanopb's message encoder and decoder, and a sample message type on which their
  hypotheses hold.
\<close>

section \<open>A sample message\<close>

text \<open>
  The struct \<open>{ int32_t id; bool has_name; char name[7]; uint32_t values_count; int32_t values[2];
  bool has_sub; struct { uint32_t x; } sub; }\<close> and its descriptors, as the generator writes them.
\<close>

definition sub_fields :: "pb_field list" where
  "sub_fields = descriptors
     [\<lparr>dtag = 1, dtype = T_FIXED32, drules = REQUIRED, dalloc = STATIC,
       dmember = \<lparr>moffset = 0, msize = 4, esize = 4, companion = 0\<rparr>, dptr = Ptr_null\<rparr>]"

definition sample_decls :: "decl list" where
  "sample_decls =
     [\<lparr>dtag = 1, dtype = T_INT32, drules = REQUIRED, dalloc = STATIC,
       dmember = \<lparr>moffset = 0, msize = 4, esize = 4, companion = 0\<rparr>, dptr = Ptr_null\<rparr>,
      \<lparr>dtag = 2, dtype = T_STRING, drules = OPTIONAL, dalloc = STATIC,
       dmember = \<lparr>moffset = 5, msize = 7, esize = 1, companion = 4\<rparr>, dptr = Ptr_null\<rparr>,
      \<lparr>dtag = 3, dtype = T_INT32, drules = REPEATED, dalloc = STATIC,
       dmember = \<lparr>moffset = 16, msize = 8, esize = 4, companion = 12\<rparr>, dptr = Ptr_null\<rparr>,
      \<lparr>dtag = 4, dtype = T_MESSAGE, drules = OPTIONAL, dalloc = STATIC,
       dmember = \<lparr>moffset = 28, msize = 4, esize = 4, companion = 24\<rparr>, dptr = Ptr_submsg sub_fields\<rparr>]"

definition sample_fields :: "pb_field list" where
  "sample_fields = descriptors sample_decls"

text \<open>A memory that holds one struct at address 1000, and code without user callbacks.\<close>

definition sample_mem :: "byte list \<Rightarrow> mem" where
  "sample_mem bs = (\<lambda>x. if 1000 \<le> x \<and> x < 1000 + int (length bs) then Some (bs ! nat (x - 1000)) else None)"

definition plain_dec :: dec_env where
  "plain_dec = \<lparr>read_cb = (\<lambda>_ _ _. None), field_cb = (\<lambda>_ _ _. derror ''no callback''), ext_type = (\<lambda>_. None)\<rparr>"

definition plain_enc :: enc_env where
  "plain_enc = \<lparr>write_cb = (\<lambda>_ _ _. None), field_enc = (\<lambda>_ _ _. ret ()), ext_etype = (\<lambda>_. None)\<rparr>"

definition sample_struct :: "byte list" where
  "sample_struct = [5, 0, 0, 0, 1, 0x68, 0x69, 0, 0, 0, 0, 0, 2, 0, 0, 0,
     5, 0, 0, 0, 0x2C, 1, 0, 0, 1, 0, 0, 0, 7, 0, 0, 0]"

lemma owned_sample: "length bs = n \<Longrightarrow> owned (sample_mem bs) 1000 n"
  by (auto simp: owned_def sample_mem_def)

lemma plain_user_reads: "user_reads plain_dec"
  unfolding user_reads_def plain_dec_def
  by (auto simp: loose.safe_error) (simp add: derror_def on_stream_def pb_return_error_def)

lemma plain_user_sized: "user_sized 0 plain_enc"
  by (simp add: user_sized_def plain_enc_def sized_ret)

lemma sample_fields_value: "sample_fields =
  [Pb_Field 1 0x00 0 0 4 0 Ptr_null, Pb_Field 2 0x16 1 (-1) 7 0 Ptr_null,
   Pb_Field 3 0x20 4 (-4) 4 2 Ptr_null,
   Pb_Field 4 0x17 4 (-4) 4 0 (Ptr_submsg [Pb_Field 1 0x03 0 0 4 0 Ptr_null, PB_LAST_FIELD]), PB_LAST_FIELD]"
  by code_simp

lemma sample_offsets:
  "n_fields sample_fields = 4" "n_required sample_fields = 1"
  "data_offset_at sample_fields 0 = 0" "size_offset_at sample_fields 0 = 0"
  "data_offset_at sample_fields (Suc 0) = 5" "size_offset_at sample_fields (Suc 0) = 4"
  "data_offset_at sample_fields 2 = 16" "size_offset_at sample_fields 2 = 12"
  "data_offset_at sample_fields 3 = 28" "size_offset_at sample_fields 3 = 24"
  by code_simp+

lemma sub_offsets:
  "sub_fields = [Pb_Field 1 0x03 0 0 4 0 Ptr_null, PB_LAST_FIELD]"
  "n_fields sub_fields = 1" "n_required sub_fields = 1"
  "data_offset_at sub_fields 0 = 0" "size_offset_at sub_fields 0 = 0"
  by code_simp+

lemma field_at_samples:
  "field_at sub_fields 0 = Pb_Field 1 0x03 0 0 4 0 Ptr_null" "field_at sub_fields (Suc 0) = PB_LAST_FIELD"
  "field_at sample_fields 0 = Pb_Field 1 0x00 0 0 4 0 Ptr_null"
  "field_at sample_fields (Suc 0) = Pb_Field 2 0x16 1 (-1) 7 0 Ptr_null"
  "field_at sample_fields 2 = Pb_Field 3 0x20 4 (-4) 4 2 Ptr_null"
  "field_at sample_fields 3 = Pb_Field 4 0x17 4 (-4) 4 0 (Ptr_submsg sub_fields)"
  "field_at sample_fields 4 = PB_LAST_FIELD"
  by (simp_all add: sub_offsets(1) sample_fields_value field_at_def)

lemmas field_ok_defs = field_ok_def item_ok_def PB_LTYPE_def PB_ATYPE_def PB_HTYPE_def

lemma sub_layout: "layout_ok (Suc 0) sub_fields 4"
  using field_at_samples(2) by (simp add: sub_offsets(2-5) field_at_samples(1) field_ok_defs)

lemma less_4_cases: "(i :: nat) < 4 \<Longrightarrow> i = 0 \<or> i = Suc 0 \<or> i = 2 \<or> i = 3"
  by linarith

lemma sample_layout: "layout_ok 2 sample_fields 32"
proof -
  let ?ok = "\<lambda>i. field_ok (layout_ok (Suc 0)) 32 (field_at sample_fields i) (data_offset_at sample_fields i)
    (size_offset_at sample_fields i)"
  have "?ok 0" "?ok (Suc 0)" "?ok 2" "?ok 3"
    using sub_layout
    by (simp_all add: sample_offsets field_at_samples field_ok_defs del: layout_ok.simps)
  then have "?ok i" if "i < 4" for i using less_4_cases [OF that] by auto
  then have "layout_ok (Suc (Suc 0)) sample_fields 32"
    by (simp add: sample_offsets field_at_samples del: layout_ok.simps(2) [of "0"])
  then show ?thesis by (simp only: numeral_2_eq_2)
qed


section \<open>Properties\<close>

text \<open>C1: \<open>pb_decode\<close> is memory safe and total. For every input, and a struct laid out as its
  descriptors say, it returns true or false: it reads nothing outside the input buffer, writes
  nothing outside the struct, and takes no more than the bytes given. Two units of depth per level
  of nesting are enough. The conditions: \<open>layout_ok\<close>, by which all fields lie inside the struct and
  have types the library knows, no field is a pointer or an extension, and every message has fewer
  than 64 required fields and not exactly 32, since then the check for them shifts by 32 or
  reads past its array (C3); and \<open>user_reads\<close>, by which a field callback returns, reads the stream
  only through the library, writes only its own argument and takes something of the stream when
  it succeeds.\<close>
theorem pb_decode_memory_safe:
  assumes "layout_ok d fs n" and "2 * d \<le> depth" and "user_reads E" and "owned m dest n"
    and "unat len \<le> length buf"
  shows "\<exists>r s' m'. pb_decode E depth fs dest (pb_istream_from_buffer buf len, m) = Some (r, (s', m')) \<and>
    dom m' = dom m \<and> (\<forall>x. x < dest \<or> dest + int n \<le> x \<longrightarrow> m' x = m x) \<and>
    buf_stream s' \<and> unat (bytes_left s') \<le> unat len \<and>
    (r = Some () \<longrightarrow> istate s' = drop (unat len - unat (bytes_left s')) buf)"
proof -
  let ?s = "pb_istream_from_buffer buf len"
  have s: "buf_stream ?s" using assms(5) by (rule buf_stream_from_buffer)
  from pb_decode_safe [OF assms(1-3)] s assms(4) obtain r s' m' where
    run: "pb_decode E depth fs dest (?s, m) = Some (r, (s', m'))" "lag ?s s'" "r \<noteq> None \<Longrightarrow> consumed ?s s'"
      "same_outside dest n m m'" by (rule safeE) blast
  have "istate s' = drop (unat len - unat (bytes_left s')) buf" if "r = Some ()"
    using run(3) that by (auto simp: consumed_def pb_istream_from_buffer_def)
  moreover have "unat (bytes_left s') \<le> unat len"
    using run(2) by (auto simp: lag_def pb_istream_from_buffer_def)
  ultimately show ?thesis
    using run(1,4) lag_buf_stream [OF run(2) s] by (auto simp: same_outside_def)
qed

lemma pb_decode_memory_safe_witness:
  "\<exists>r s' m'. pb_decode plain_dec 4 sample_fields 1000 (pb_istream_from_buffer [8, 150, 1, 250] 4, sample_mem (replicate 32 0)) =
      Some (r, (s', m')) \<and>
    dom m' = dom (sample_mem (replicate 32 0)) \<and> m' 999 = None \<and> buf_stream s' \<and> unat (bytes_left s') \<le> 4"
proof -
  have "sample_mem (replicate 32 0) 999 = None" by (simp add: sample_mem_def)
  then show ?thesis
    using pb_decode_memory_safe [OF sample_layout, of 4 plain_dec "sample_mem (replicate 32 0)" 1000 4 "[8, 150, 1, 250]"]
      plain_user_reads owned_sample [of "replicate 32 0" 32] by fastforce
qed

text \<open>C2: the size \<open>pb_get_encoded_size\<close> gives is the size \<open>pb_encode\<close> writes. If the descriptors
  bound the message below \<open>2 ^ 64\<close> bytes, it has one encoding \<open>bs\<close> of exactly that size and no
  longer than the bound; a buffer with room for it gets \<open>bs\<close>, and a smaller buffer gets the error
  ``stream full'' and an initial part of \<open>bs\<close>, never a byte more than its size. In particular the
  second pass over a submessage always agrees with the first.\<close>
theorem encoded_size_written:
  assumes "layout_ok d fs n" and "owned M src n" and "user_sized c E"
    and "max_encoded_size d c fs < 2 ^ 64"
    and "pb_get_encoded_size M E d fs src = Some (Some k)"
  shows "\<exists>bs. unat k = length bs \<and> length bs \<le> max_encoded_size d c fs \<and>
    (\<forall>buf bufsize. unat bufsize \<le> length buf \<longrightarrow>
    (\<exists>r os. pb_encode M E d fs src (pb_ostream_from_buffer buf bufsize) = Some (r, os) \<and>
      length (odone os) \<le> unat bufsize \<and> oroom os = drop (length (odone os)) buf \<and>
      (if length bs \<le> unat bufsize then r = Some () \<and> odone os = bs
       else r = None \<and> oerrmsg os = Some ''stream full'' \<and> odone os = take (length (odone os)) bs)))"
proof -
  from assms(5) obtain t where t: "pb_encode M E d fs src PB_OSTREAM_SIZING = Some (Some (), t)" "bytes_written t = k"
    by (auto simp: pb_get_encoded_size_def split: option.splits)
  from sized_pb_encode [OF assms(1-3)] sizing_stream(1) t(1) obtain bs where
    len: "length bs \<le> max_encoded_size d c fs" and bs: "pure_writer (pb_encode M E d fs src) bs" by (rule sizedE)
  from len assms(4) have small: "length bs < 2 ^ 64" by simp
  from pure_writer_sizing [OF bs] t have "k = of_nat (length bs)" by auto
  with small have "unat k = length bs" by (simp add: unsigned_of_nat take_bit_nat_eq_self)
  with len pure_writer_buffer [OF bs small] show ?thesis by blast
qed

lemma sample_size: "pb_get_encoded_size (sample_mem sample_struct) plain_enc 2 sample_fields 1000 = Some (Some 18)"
  by code_simp

lemma sample_max: "max_encoded_size 2 0 sample_fields = 163"
  by code_simp

lemma encoded_size_written_witness:
  "\<exists>bs r os. unat (18 :: u64) = length bs \<and>
    pb_encode (sample_mem sample_struct) plain_enc 2 sample_fields 1000 (pb_ostream_from_buffer [0, 0] 2) = Some (r, os) \<and>
    r = None \<and> oerrmsg os = Some ''stream full'' \<and> length (odone os) \<le> 2 \<and>
    odone os = take (length (odone os)) bs"
proof -
  have own: "owned (sample_mem sample_struct) 1000 32" by (simp add: owned_sample sample_struct_def)
  have small: "max_encoded_size 2 0 sample_fields < 2 ^ 64" by (simp add: sample_max)
  from encoded_size_written [OF sample_layout own plain_user_sized small sample_size]
  obtain bs where len: "unat (18 :: u64) = length bs" and enc: "\<forall>buf bufsize. unat bufsize \<le> length buf \<longrightarrow>
    (\<exists>r os. pb_encode (sample_mem sample_struct) plain_enc 2 sample_fields 1000 (pb_ostream_from_buffer buf bufsize) = Some (r, os) \<and>
      length (odone os) \<le> unat bufsize \<and> oroom os = drop (length (odone os)) buf \<and>
      (if length bs \<le> unat bufsize then r = Some () \<and> odone os = bs
       else r = None \<and> oerrmsg os = Some ''stream full'' \<and> odone os = take (length (odone os)) bs))" by blast
  from enc [rule_format, of "2 :: u64" "[0, 0]"] len show ?thesis by (intro exI [of _ bs]) auto
qed

text \<open>C3: the check for required fields is right for up to 63 of them, except 32: with only bits of
  required fields set it accepts if all of their bits are set and otherwise reports a missing
  field. For exactly 32 required fields that were all decoded it has no defined result, because it
  shifts a 32-bit integer by 32.\<close>
theorem required_check_correct:
  assumes "length seen = 2" and "\<And>j. unat count \<le> j \<Longrightarrow> j < 64 \<Longrightarrow> \<not> seen_bit seen j"
  shows "(unat count < 64 \<and> unat count \<noteq> 32 \<longrightarrow> check_required seen count =
      (if \<forall>j < unat count. seen_bit seen j then ret () else derror ''missing required field'')) \<and>
    (unat count = 32 \<and> (\<forall>j < 32. seen_bit seen j) \<longrightarrow> check_required seen count = undefined_behaviour)"
proof (intro conjI impI)
  assume "unat count < 64 \<and> unat count \<noteq> 32"
  with check_required_iff [OF assms(1) _ _ assms(2)] show "check_required seen count =
      (if \<forall>j < unat count. seen_bit seen j then ret () else derror ''missing required field'')" by blast
next
  assume c: "unat count = 32 \<and> (\<forall>j < 32. seen_bit seen j)"
  then have "unat count = unat (32 :: u32)" by simp
  then have count: "count = 32" by (simp only: word_unat_eq_iff)
  have "seen ! 0 = 0xFFFFFFFF" using c by (simp add: all_ones_iff seen_bits_0)
  with assms(1) show "check_required seen count = undefined_behaviour"
    by (simp add: check_required_def remaining_bits_def Let_def count)
qed

lemma required_check_correct_witness: "check_required [1, 0] 1 = ret ()"
proof -
  have "\<not> seen_bit [1, 0] j" if "unat (1 :: u32) \<le> j" "j < 64" for j
    using that by (cases "j < 32") (auto simp: seen_bit_def nth_Cons' bit_1_iff div_eq_0_iff)
  with required_check_correct [of "[1, 0]" 1] show ?thesis by (simp add: seen_bit_def)
qed

text \<open>C4: the offsets of a struct survive the descriptors. The macros of \<open>pb.h\<close> store only the gap to
  the member before; following the descriptor array the iterator arrives at every member's own
  \<open>offsetof\<close>, and at the \<open>has_\<close> or \<open>_count\<close> member that belongs to it.\<close>
theorem descriptors_give_offsets:
  assumes "\<And>d. d \<in> set ds \<Longrightarrow> decl_ok d" and "in_order ds" and "i < length ds"
  shows "pData (iter_at (descriptors ds) dest i) = dest + int (moffset (dmember (ds ! i))) \<and>
    (dalloc (ds ! i) \<noteq> CALLBACK \<and> (drules (ds ! i) = REPEATED \<or> dalloc (ds ! i) = STATIC \<and> drules (ds ! i) = OPTIONAL) \<longrightarrow>
      pSize (iter_at (descriptors ds) dest i) = dest + int (companion (dmember (ds ! i))))"
proof -
  have n: "i < n_fields (descriptors ds)"
    using n_fields_descriptors [of ds] assms(1,3) by (simp add: decl_ok_def)
  have "size_offset_at (descriptors ds) i = int (companion (dmember (ds ! i)))"
    if "dalloc (ds ! i) \<noteq> CALLBACK \<and> (drules (ds ! i) = REPEATED \<or> dalloc (ds ! i) = STATIC \<and> drules (ds ! i) = OPTIONAL)"
  proof (rule descriptor_companion [OF assms])
    have "dalloc (ds ! i) = STATIC \<or> dalloc (ds ! i) = POINTER"
      using that by (cases "dalloc (ds ! i)") simp_all
    with that show "dalloc (ds ! i) = STATIC \<and> (drules (ds ! i) = OPTIONAL \<or> drules (ds ! i) = REPEATED) \<or>
      dalloc (ds ! i) = POINTER \<and> drules (ds ! i) = REPEATED" by auto
  qed
  with descriptor_offset [OF assms] show ?thesis by (simp add: pData_at [OF n] pSize_at [OF n])
qed

lemma descriptors_give_offsets_witness:
  "pData (iter_at (descriptors sample_decls) 1000 2) = 1016 \<and> pSize (iter_at (descriptors sample_decls) 1000 2) = 1012"
proof -
  have "decl_ok d" if "d \<in> set sample_decls" for d
    using that by (auto simp: sample_decls_def decl_ok_def)
  moreover have "in_order sample_decls"
    unfolding in_order_def sample_decls_def by (auto simp: less_Suc_eq nth_Cons' numeral_eq_Suc)
  ultimately show ?thesis
    using descriptors_give_offsets [of sample_decls 2 1000] by (simp add: sample_decls_def)
qed

text \<open>C11: an input that ends inside a tag is taken for the end of the message: the decoding loop
  stops as after the last field, and the call can still return true.\<close>
theorem truncated_tag_ends_message:
  assumes "buf_stream s" and "avail s = bs" and "bs \<noteq> []" and "length bs \<le> 4"
    and "\<And>b. b \<in> set bs \<Longrightarrow> 128 \<le> unat b"
  shows "\<exists>s'. decode_loop D S E v (s, m) = Some (Some v, (s', m)) \<and> bytes_left s' = 0"
proof -
  from truncated_varint32 [OF assms, of "read_cb E"] obtain s' where
    s': "pb_decode_varint32 (read_cb E) s = Some (None, s')" "bytes_left s' = 0" by blast
  have "bytes_left s \<noteq> 0" using length_avail [OF assms(1)] assms(2,3) by auto
  with s' show ?thesis
    by (subst decode_loop.simps) (simp add: decode_step_def pb_decode_tag_def bnd_def)
qed


lemma truncated_tag_ends_message_witness:
  "\<exists>s'. decode_loop (\<lambda>_ _ _. derror []) (\<lambda>_ _. ret ()) plain_dec
      \<lparr>viter = iter_at sample_fields 0 0, fields_seen = [1, 0], extension_range_start = 0\<rparr>
      (pb_istream_from_buffer [200] 1, Map.empty) =
    Some (Some \<lparr>viter = iter_at sample_fields 0 0, fields_seen = [1, 0], extension_range_start = 0\<rparr>, (s', Map.empty)) \<and>
    bytes_left s' = 0"
  by (rule truncated_tag_ends_message [where bs = "[200]"])
    (simp_all add: buf_stream_from_buffer avail_from_buffer)

section \<open>Default values of proto3\<close>

text \<open>The check visits every field and compares \<open>data_size\<close> bytes, those of one element.\<close>

lemma all_zero_result:
  "owned M a n \<Longrightarrow> all_zero a n M = Some (if \<forall>j < n. M (a + int j) = Some 0 then Some () else None, M)"
proof (induction n arbitrary: a)
  case (Suc n)
  obtain b where b: "M a = Some b" using Suc.prems by (auto simp: owned_def)
  have "owned M (a + 1) n" by (rule owned_sub [OF Suc.prems]) simp_all
  note IH = Suc.IH [OF this]
  have "(\<forall>j < Suc n. M (a + int j) = Some 0) \<longleftrightarrow> b = 0 \<and> (\<forall>j < n. M (a + 1 + int j) = Some 0)"
    using b by (auto simp: less_Suc_eq_0_disj algebra_simps)
  then show ?case using b IH by (simp add: bnd_def load_def)
qed simp

lemma for_each_field_checks:
  assumes g: "\<And>k. k < n_fields fs \<Longrightarrow> g (iter_at fs dest k) m = Some (if P k then Some () else None, m)"
    and i: "i < n_fields fs"
  shows "for_each_field g (iter_at fs dest i) m =
    Some (if \<forall>k. i \<le> k \<and> k < n_fields fs \<longrightarrow> P k then Some () else None, m)"
  using i
proof (induction "n_fields fs - i" arbitrary: i)
  case (Suc d)
  have "(\<forall>k. i \<le> k \<and> k < n_fields fs \<longrightarrow> P k) \<longleftrightarrow> P i \<and> (\<forall>k. Suc i \<le> k \<and> k < n_fields fs \<longrightarrow> P k)"
    using Suc.prems by (auto simp: Suc_le_eq) (auto dest: le_neq_implies_less)
  then have here: "(if \<forall>k. i \<le> k \<and> k < n_fields fs \<longrightarrow> P k then Some () else None) =
      (if P i \<and> (\<forall>k. Suc i \<le> k \<and> k < n_fields fs \<longrightarrow> P k) then Some () else None)" by simp
  show ?case
  proof (cases "Suc i < n_fields fs")
    case True
    have "for_each_field g (iter_at fs dest (Suc i)) m =
      Some (if \<forall>k. Suc i \<le> k \<and> k < n_fields fs \<longrightarrow> P k then Some () else None, m)"
      by (rule Suc.hyps(1)) (use Suc.hyps(2) True in simp_all)
    with True g [OF Suc.prems] show ?thesis
      unfolding here by (simp add: for_each_field_at [OF Suc.prems] bnd_def)
  next
    case False
    then have "\<forall>k. Suc i \<le> k \<and> k < n_fields fs \<longrightarrow> P k" by auto
    with False g [OF Suc.prems] show ?thesis
      unfolding here by (simp add: for_each_field_at [OF Suc.prems] bnd_def)
  qed
qed simp

text \<open>Static fields of the numeric types, single or arrays.\<close>

definition scalar :: "pb_field \<Rightarrow> bool" where
  "scalar f \<longleftrightarrow> atype f = PB_ATYPE_STATIC \<and> (ltype f = PB_LTYPE_VARINT \<or> ltype f = PB_LTYPE_UVARINT \<or>
     ltype f = PB_LTYPE_SVARINT \<or> ltype f = PB_LTYPE_FIXED32 \<or> ltype f = PB_LTYPE_FIXED64)"

lemma check_scalar:
  assumes "scalar f" and "owned M a (unat (data_size f))"
  shows "pb_check_proto3_default_value (Suc d) f a M =
    Some (if \<forall>j < unat (data_size f). M (a + int j) = Some 0 then Some () else None, M)"
proof -
  have "pb_check_proto3_default_value (Suc d) f a = all_zero a (unat (data_size f))"
    using assms(1) unfolding scalar_def pb_check_proto3_default_value.simps(2) by (elim conjE disjE) simp_all
  then show ?thesis by (simp add: all_zero_result [OF assms(2)])
qed

text \<open>C12: a proto3 submessage of numeric fields, single or arrays, is written exactly when some byte of
  the first element of some field is not zero, and left out of the message otherwise. Neither the
  count of an array nor its other elements are looked at, so a submessage whose array is \<open>[0, 5]\<close>
  is dropped although it holds data.\<close>
theorem proto3_submessage_dropped:
  assumes f: "htype f = PB_HTYPE_OPTIONAL" "atype f = PB_ATYPE_STATIC" "ltype f = PB_LTYPE_SUBMESSAGE"
      "size_offset f = 0" "field_ptr f = Ptr_submsg fs"
    and scalars: "\<And>i. i < n_fields fs \<Longrightarrow> scalar (field_at fs i)"
    and readable: "\<And>i. i < n_fields fs \<Longrightarrow> owned M (a + data_offset_at fs i) (unat (data_size (field_at fs i)))"
  shows "encode_field (Suc (Suc depth)) R M E f a =
    (if \<forall>i < n_fields fs. \<forall>j < unat (data_size (field_at fs i)). M (a + data_offset_at fs i + int j) = Some 0
     then ret ()
     else bnd (pb_encode_tag_for_field (write_cb E) f) (\<lambda>_. pb_encoder R M E PB_LTYPE_SUBMESSAGE f a))"
proof -
  let ?P = "\<lambda>i. \<forall>j < unat (data_size (field_at fs i)). M (a + data_offset_at fs i + int j) = Some 0"
  have "pb_check_proto3_default_value (Suc (Suc depth)) f a M =
    Some (if \<forall>i < n_fields fs. ?P i then Some () else None, M)"
  proof (cases "0 < n_fields fs")
    case True
    have "for_each_field (\<lambda>iter. pb_check_proto3_default_value (Suc depth) (cur iter) (pData iter)) (iter_at fs a 0) M =
      Some (if \<forall>i. 0 \<le> i \<and> i < n_fields fs \<longrightarrow> ?P i then Some () else None, M)"
      using check_scalar [OF scalars readable]
      by (intro for_each_field_checks [OF _ True]) (simp add: cur_iter_at pData_at)
    then show ?thesis using True f by (simp add: pb_check_proto3_default_value.simps(2) [of "Suc depth"] begin_True)
  next
    case False
    then show ?thesis using f by (simp add: pb_check_proto3_default_value.simps(2) [of "Suc depth"] begin_True)
  qed
  then have has: "proto3_has (Suc (Suc depth)) M f a = Some (\<not> (\<forall>i < n_fields fs. ?P i))"
    by (simp add: proto3_has_def)
  show ?thesis
    using f has by (cases "\<forall>i < n_fields fs. ?P i") (simp_all only: if_True if_False simp_thms,
      simp_all add: encode_field_def encode_basic_field_def encode_by_htype_def has_value_def Let_def)
qed

text \<open>The submessage's array is \<open>[0, 5]\<close>, with the count 2 before it: nothing is written for it.\<close>

lemma proto3_submessage_dropped_witness:
  "encode_field 2 (\<lambda>fs a. pb_encode (sample_mem [2, 0, 0, 0, 0, 0, 0, 0, 5, 0, 0, 0]) plain_enc 1 fs a)
     (sample_mem [2, 0, 0, 0, 0, 0, 0, 0, 5, 0, 0, 0]) plain_enc
     (Pb_Field 1 0x17 0 0 12 0 (Ptr_submsg [Pb_Field 1 0x20 4 (-4) 4 2 Ptr_null, PB_LAST_FIELD])) 1000 = ret ()"
proof -
  let ?M = "sample_mem [2, 0, 0, 0, 0, 0, 0, 0, 5, 0, 0, 0]"
  let ?fs = "[Pb_Field 1 0x20 4 (-4) 4 2 Ptr_null, PB_LAST_FIELD]"
  have n: "n_fields ?fs = 1" and off: "data_offset_at ?fs 0 = 4" by code_simp+
  have types: "PB_HTYPE 0x17 = PB_HTYPE_OPTIONAL" "PB_ATYPE 0x17 = PB_ATYPE_STATIC" "PB_LTYPE 0x17 = PB_LTYPE_SUBMESSAGE"
    "scalar (hd ?fs)" by code_simp+
  have zero: "?M (1004 + int j) = Some 0" if "j < 4" for j
  proof -
    have "j = 0 \<or> j = 1 \<or> j = 2 \<or> j = 3" using that by linarith
    then show ?thesis by (elim disjE) (simp_all add: sample_mem_def)
  qed
  have "owned ?M 1004 4" by (auto simp: owned_def sample_mem_def)
  then show ?thesis
    using proto3_submessage_dropped [where depth = 0 and fs = ?fs and M = ?M and E = plain_enc and a = 1000
      and f = "Pb_Field 1 0x17 0 0 12 0 (Ptr_submsg ?fs)"
      and R = "\<lambda>fs a. pb_encode ?M plain_enc 1 fs a", folded numeral_2_eq_2] types zero
    by (simp add: n off field_at_def)
qed

end
