(* ===== verification/Ldb_Coding.thy ===== *)
theory Ldb_Coding
  imports Varint
begin

text \<open>
  leveldb's byte encodings: \<open>include/leveldb/slice.h\<close> and \<open>util/coding.{h,cc}\<close>. A \<open>Slice\<close> is the
  list of the bytes it refers to; the pointer-based parsers look at the bytes from \<open>p\<close> up to
  \<open>limit\<close> and return the value and the bytes that are left, or nothing where the code returns
  \<open>NULL\<close>. Every encoder with its parser is a \<open>prefix_codec\<close>: parsing what was put gives it back
  and leaves exactly the bytes that follow.
\<close>

type_synonym slice = "byte list"

section \<open>Slices\<close>

text \<open>\<open>operator[]\<close> and \<open>remove_prefix\<close> assert that they stay inside the slice.\<close>

definition Slice_at :: "slice \<Rightarrow> nat \<Rightarrow> byte option" where
  "Slice_at s n = (if n < length s then Some (s ! n) else None)"

definition remove_prefix :: "nat \<Rightarrow> slice \<Rightarrow> slice option" where
  "remove_prefix n s = (if n \<le> length s then Some (drop n s) else None)"

text \<open>The first \<open>n\<close> bytes of both are compared as unsigned values; only the sign is specified.\<close>

fun memcmp :: "slice \<Rightarrow> slice \<Rightarrow> nat \<Rightarrow> int" where
  "memcmp (x # xs) (y # ys) (Suc n) = (if x < y then - 1 else if y < x then 1 else memcmp xs ys n)"
| "memcmp _ _ _ = 0"

definition starts_with :: "slice \<Rightarrow> slice \<Rightarrow> bool" where
  "starts_with s x \<longleftrightarrow> length x \<le> length s \<and> memcmp s x (length x) = 0"

definition Slice_eq :: "slice \<Rightarrow> slice \<Rightarrow> bool" where
  "Slice_eq x y \<longleftrightarrow> length x = length y \<and> memcmp x y (length x) = 0"

definition Slice_compare :: "slice \<Rightarrow> slice \<Rightarrow> int" where
  "Slice_compare a b =
     (let min_len = (if length a < length b then length a else length b);
          r = memcmp a b min_len in
      if r = 0 then (if length a < length b then - 1 else if length b < length a then 1 else r) else r)"

section \<open>Fixed-size integers\<close>

text \<open>
  \<open>port::kLittleEndian\<close> chooses between copying the machine's own representation and writing the
  bytes out; the representation is that of a little-endian machine exactly when the flag is set.
\<close>

definition EncodeFixed32 :: "bool \<Rightarrow> u32 \<Rightarrow> byte list" where
  "EncodeFixed32 little v =
     (if little then le_bytes 4 (unat v)
      else [ucast (v AND 255), ucast (drop_bit 8 v AND 255), ucast (drop_bit 16 v AND 255),
            ucast (drop_bit 24 v AND 255)])"

definition EncodeFixed64 :: "bool \<Rightarrow> u64 \<Rightarrow> byte list" where
  "EncodeFixed64 little v =
     (if little then le_bytes 8 (unat v)
      else [ucast (v AND 255), ucast (drop_bit 8 v AND 255), ucast (drop_bit 16 v AND 255),
            ucast (drop_bit 24 v AND 255), ucast (drop_bit 32 v AND 255), ucast (drop_bit 40 v AND 255),
            ucast (drop_bit 48 v AND 255), ucast (drop_bit 56 v AND 255)])"

definition PutFixed32 :: "bool \<Rightarrow> byte list \<Rightarrow> u32 \<Rightarrow> byte list" where
  "PutFixed32 little dst v = dst @ EncodeFixed32 little v"

definition PutFixed64 :: "bool \<Rightarrow> byte list \<Rightarrow> u64 \<Rightarrow> byte list" where
  "PutFixed64 little dst v = dst @ EncodeFixed64 little v"

text \<open>The decoders read without a check of the length: nothing stands for a read past the bytes.\<close>

definition DecodeFixed32 :: "bool \<Rightarrow> byte list \<Rightarrow> u32 option" where
  "DecodeFixed32 little p =
     (if length p < 4 then None
      else if little then Some (of_nat (le_val (take 4 p)))
      else Some (ucast (p ! 0) OR push_bit 8 (ucast (p ! 1)) OR push_bit 16 (ucast (p ! 2)) OR
        push_bit 24 (ucast (p ! 3))))"

definition DecodeFixed64 :: "bool \<Rightarrow> byte list \<Rightarrow> u64 option" where
  "DecodeFixed64 little p =
     (if length p < 8 then None
      else if little then Some (of_nat (le_val (take 8 p)))
      else case (DecodeFixed32 little p, DecodeFixed32 little (drop 4 p)) of
          (Some lo, Some hi) \<Rightarrow> Some (push_bit 32 (ucast hi) OR ucast lo)
        | _ \<Rightarrow> None)"

section \<open>Varints\<close>

definition EncodeVarint32 :: "u32 \<Rightarrow> byte list" where
  "EncodeVarint32 v =
     (let B = 128 in
      if v < 2 ^ 7 then [ucast v]
      else if v < 2 ^ 14 then [ucast (v OR B), ucast (drop_bit 7 v)]
      else if v < 2 ^ 21 then [ucast (v OR B), ucast (drop_bit 7 v OR B), ucast (drop_bit 14 v)]
      else if v < 2 ^ 28 then
        [ucast (v OR B), ucast (drop_bit 7 v OR B), ucast (drop_bit 14 v OR B), ucast (drop_bit 21 v)]
      else [ucast (v OR B), ucast (drop_bit 7 v OR B), ucast (drop_bit 14 v OR B),
            ucast (drop_bit 21 v OR B), ucast (drop_bit 28 v)])"

definition PutVarint32 :: "byte list \<Rightarrow> u32 \<Rightarrow> byte list" where
  "PutVarint32 dst v = dst @ EncodeVarint32 v"

function EncodeVarint64 :: "u64 \<Rightarrow> byte list" where
  "EncodeVarint64 v =
     (if 128 \<le> v then ucast ((v AND 127) OR 128) # EncodeVarint64 (drop_bit 7 v) else [ucast v])"
  by pat_completeness auto

lemma drop_bit_7_less: "128 \<le> (v :: u64) \<Longrightarrow> unat (drop_bit 7 v) < unat v"
  by (simp add: unat_drop_bit word_le_nat_alt)

termination EncodeVarint64
  by (relation "measure unat") (simp_all add: drop_bit_7_less)

declare EncodeVarint64.simps [simp del]

definition PutVarint64 :: "byte list \<Rightarrow> u64 \<Rightarrow> byte list" where
  "PutVarint64 dst v = dst @ EncodeVarint64 v"

text \<open>The size is passed as a \<open>uint32_t\<close>.\<close>

definition PutLengthPrefixedSlice :: "byte list \<Rightarrow> slice \<Rightarrow> byte list" where
  "PutLengthPrefixedSlice dst s = PutVarint32 dst (of_nat (length s)) @ s"

function VarintLength :: "u64 \<Rightarrow> nat" where
  "VarintLength v = (if 128 \<le> v then Suc (VarintLength (drop_bit 7 v)) else 1)"
  by pat_completeness auto

termination VarintLength
  by (relation "measure unat") (simp_all add: drop_bit_7_less)

declare VarintLength.simps [simp del]

fun GetVarint32PtrFallback_loop :: "byte list \<Rightarrow> u32 \<Rightarrow> nat \<Rightarrow> (u32 \<times> byte list) option" where
  "GetVarint32PtrFallback_loop [] result shift = None"
| "GetVarint32PtrFallback_loop (b # p) result shift =
     (if shift \<le> 28 then
        let byte = ucast b in
        if byte AND 128 \<noteq> 0
        then GetVarint32PtrFallback_loop p (result OR push_bit shift (byte AND 127)) (shift + 7)
        else Some (result OR push_bit shift byte, p)
      else None)"

definition GetVarint32PtrFallback :: "byte list \<Rightarrow> (u32 \<times> byte list) option" where
  "GetVarint32PtrFallback p = GetVarint32PtrFallback_loop p 0 0"

definition GetVarint32Ptr :: "byte list \<Rightarrow> (u32 \<times> byte list) option" where
  "GetVarint32Ptr p =
     (case p of
        b # rest \<Rightarrow> (let result = (ucast b :: u32) in
          if result AND 128 = 0 then Some (result, rest) else GetVarint32PtrFallback p)
      | [] \<Rightarrow> GetVarint32PtrFallback p)"

text \<open>\<open>GetVarint32\<close> sets \<open>*input\<close> only when it succeeds.\<close>

definition GetVarint32 :: "slice \<Rightarrow> (u32 \<times> slice) option" where
  "GetVarint32 input = GetVarint32Ptr input"

fun GetVarint64Ptr_loop :: "byte list \<Rightarrow> u64 \<Rightarrow> nat \<Rightarrow> (u64 \<times> byte list) option" where
  "GetVarint64Ptr_loop [] result shift = None"
| "GetVarint64Ptr_loop (b # p) result shift =
     (if shift \<le> 63 then
        let byte = ucast b in
        if byte AND 128 \<noteq> 0
        then GetVarint64Ptr_loop p (result OR push_bit shift (byte AND 127)) (shift + 7)
        else Some (result OR push_bit shift byte, p)
      else None)"

definition GetVarint64Ptr :: "byte list \<Rightarrow> (u64 \<times> byte list) option" where
  "GetVarint64Ptr p = GetVarint64Ptr_loop p 0 0"

definition GetVarint64 :: "slice \<Rightarrow> (u64 \<times> slice) option" where
  "GetVarint64 input = GetVarint64Ptr input"

text \<open>
  The input is advanced past the length even when the bytes after it are too few; callers give up
  then, so only the success is kept.
\<close>

definition GetLengthPrefixedSlice :: "slice \<Rightarrow> (slice \<times> slice) option" where
  "GetLengthPrefixedSlice input =
     (case GetVarint32 input of
        Some (len, input) \<Rightarrow>
          if unat len \<le> length input then Some (take (unat len) input, drop (unat len) input) else None
      | None \<Rightarrow> None)"

section \<open>Comparison of slices\<close>

lemma memcmp_le: "length a \<le> length b \<Longrightarrow> memcmp a b (length a) = 0 \<longleftrightarrow> take (length a) b = a"
  by (induction a b "length a" rule: memcmp.induct) auto

lemma starts_with_prefix: "starts_with s x \<longleftrightarrow> (\<exists>r. s = x @ r)"
proof -
  have sym: "memcmp s x n = 0 \<longleftrightarrow> memcmp x s n = 0" for n
    by (induction s x n rule: memcmp.induct) auto
  have "starts_with s x \<longleftrightarrow> length x \<le> length s \<and> take (length x) s = x"
    using sym [of "length x"] memcmp_le [of x s] unfolding starts_with_def by blast
  also have "\<dots> \<longleftrightarrow> (\<exists>r. s = x @ r)"
    by (metis append_eq_conv_conj append_take_drop_id length_append le_add1)
  finally show ?thesis .
qed

lemma Slice_eq_iff [simp]: "Slice_eq x y \<longleftrightarrow> x = y"
  using memcmp_le [of x y] by (cases "length x = length y") (auto simp: Slice_eq_def)

lemma Slice_compare_Nil [simp]:
  "Slice_compare [] [] = 0" "Slice_compare [] (y # ys) = - 1" "Slice_compare (x # xs) [] = 1"
  by (simp_all add: Slice_compare_def)

lemma Slice_compare_Cons [simp]:
  "Slice_compare (x # xs) (y # ys) = (if x < y then - 1 else if y < x then 1 else Slice_compare xs ys)"
  by (simp add: Slice_compare_def Let_def)

lemma Slice_compare_eq_0 [simp]: "Slice_compare a b = 0 \<longleftrightarrow> a = b"
  by (induction a b rule: list_induct2') auto

lemma Slice_compare_self [simp]: "Slice_compare a a = 0"
  by simp

lemma Slice_compare_flip: "Slice_compare b a = - Slice_compare a b"
  by (induction a b rule: list_induct2') auto

lemma Slice_compare_Cons_le:
  "Slice_compare (x # xs) (y # ys) \<le> 0 \<longleftrightarrow> x < y \<or> x = y \<and> Slice_compare xs ys \<le> 0"
  by (cases "x < y"; cases "y < x") auto

lemma Slice_compare_trans:
  "Slice_compare a b \<le> 0 \<Longrightarrow> Slice_compare b c \<le> 0 \<Longrightarrow> Slice_compare a c \<le> 0"
proof (induction a arbitrary: b c)
  case Nil
  then show ?case by (cases c) simp_all
next
  case (Cons x xs)
  then obtain y ys where b: "b = y # ys" by (cases b) simp_all
  with Cons.prems obtain z zs where c: "c = z # zs" by (cases c) simp_all
  from Cons.prems have "x < y \<or> x = y \<and> Slice_compare xs ys \<le> 0" "y < z \<or> y = z \<and> Slice_compare ys zs \<le> 0"
    unfolding b c Slice_compare_Cons_le by blast+
  with Cons.IH [of ys zs] show ?case
    unfolding c Slice_compare_Cons_le by (metis order_less_trans)
qed

section \<open>Codecs\<close>

locale prefix_codec =
  fixes enc :: "'a \<Rightarrow> byte list" and dec :: "byte list \<Rightarrow> ('a \<times> byte list) option" and ok :: "'a \<Rightarrow> bool"
  assumes dec_enc: "ok x \<Longrightarrow> dec (enc x @ rest) = Some (x, rest)"
begin

lemma dec_whole: "ok x \<Longrightarrow> dec (enc x) = Some (x, [])"
  using dec_enc [of x "[]"] by simp

lemma enc_prefix_free:
  assumes "ok x" and "ok y" and "enc x @ r = enc y @ s"
  shows "x = y \<and> r = s"
proof -
  have "Some (x, r) = Some (y, s)"
    using dec_enc [OF assms(1), of r] dec_enc [OF assms(2), of s] unfolding assms(3) by (rule subst)
  then show ?thesis by simp
qed

lemma enc_inject: "ok x \<Longrightarrow> ok y \<Longrightarrow> enc x = enc y \<longleftrightarrow> x = y"
  using enc_prefix_free [of x y "[]" "[]"] by auto

end

lemma EncodeFixed32_bytes: "EncodeFixed32 little v = le_bytes 4 (unat v)"
proof -
  have "(ucast (v AND 255) :: byte) = of_nat (unat v mod 256)" using byte_of_word [of 0 v] by simp
  then show ?thesis by (simp only: EncodeFixed32_def le_bytes_4 byte_of_word) simp
qed

lemma EncodeFixed64_bytes: "EncodeFixed64 little v = le_bytes 8 (unat v)"
proof -
  have "(ucast (v AND 255) :: byte) = of_nat (unat v mod 256)" using byte_of_word [of 0 v] by simp
  then show ?thesis by (simp only: EncodeFixed64_def le_bytes_8 byte_of_word) simp
qed

lemma length_EncodeFixed [simp]:
  "length (EncodeFixed32 little v) = 4" "length (EncodeFixed64 little w) = 8"
  by (simp_all only: EncodeFixed32_bytes EncodeFixed64_bytes length_le_bytes)

lemma DecodeFixed32_value:
  "DecodeFixed32 little p = (if length p < 4 then None else Some (of_nat (le_val (take 4 p))))"
proof (cases "length p < 4")
  case False
  then have "length (take 4 p) = 4" by simp
  from or_4_bytes [OF this] False show ?thesis by (simp add: DecodeFixed32_def)
qed (simp add: DecodeFixed32_def)

lemma le_val_append: "le_val (xs @ ys) = le_val xs + 256 ^ length xs * le_val ys"
  by (induction xs) (simp_all add: algebra_simps)

lemma DecodeFixed64_value:
  "DecodeFixed64 little p = (if length p < 8 then None else Some (of_nat (le_val (take 8 p))))"
proof (cases "length p < 8")
  case False
  have len: "length (take 4 p) = 4" "length (take 4 (drop 4 p)) = 4" using False by simp_all
  let ?lo = "le_val (take 4 p)" and ?hi = "le_val (take 4 (drop 4 p))"
  have lt: "?lo < 2 ^ 32" "?hi < 2 ^ 32"
    using le_val_lt [of "take 4 p"] le_val_lt [of "take 4 (drop 4 p)"] len by simp_all
  have "take 8 p = take 4 p @ take 4 (drop 4 p)" using take_add [of 4 4 p] by simp
  then have v: "le_val (take 8 p) = ?lo + 2 ^ 32 * ?hi" using len(1) by (simp add: le_val_append)
  have val: "unat (of_nat n :: u32) = n" "unat (ucast (of_nat n :: u32) :: u64) = n" if "n < 2 ^ 32" for n
    using that by (simp_all add: unsigned_of_nat take_bit_nat_eq_self unsigned_ucast_eq)
  let ?a = "ucast (of_nat ?lo :: u32) :: u64" and ?b = "push_bit 32 (ucast (of_nat ?hi :: u32)) :: u64"
  have b: "unat ?b = ?hi * 2 ^ 32" using lt(2) by (subst unat_push_bit) (simp_all add: val)
  have "unat (?a OR ?b) = ?lo + ?hi * 2 ^ 32"
    using lt(1) by (subst unat_or_disjoint [of _ 32]) (simp_all add: val b)
  then have "?b OR ?a = of_nat (le_val (take 8 p))"
    by (metis v or.commute mult.commute of_nat_unat ucast_id)
  moreover have "\<not> length p < 4" "\<not> length (drop 4 p) < 4" using False by simp_all
  ultimately show ?thesis
    using False by (simp only: DecodeFixed64_def DecodeFixed32_value if_False if_True option.case prod.case split: if_split) simp
qed (simp add: DecodeFixed64_def)

lemma Decode_Encode_Fixed32: "DecodeFixed32 little (EncodeFixed32 little v @ rest) = Some v"
  by (simp add: DecodeFixed32_value EncodeFixed32_bytes le_val_bytes_32)

lemma Decode_Encode_Fixed64: "DecodeFixed64 little (EncodeFixed64 little v @ rest) = Some v"
  by (simp add: DecodeFixed64_value EncodeFixed64_bytes le_val_bytes_64)

interpretation fixed32: prefix_codec "EncodeFixed32 little"
    "\<lambda>p. map_option (\<lambda>v. (v, drop 4 p)) (DecodeFixed32 little p)" "\<lambda>_. True" for little
  by unfold_locales (simp add: Decode_Encode_Fixed32)

interpretation fixed64: prefix_codec "EncodeFixed64 little"
    "\<lambda>p. map_option (\<lambda>v. (v, drop 8 p)) (DecodeFixed64 little p)" "\<lambda>_. True" for little
  by unfold_locales (simp add: Decode_Encode_Fixed64)

section \<open>The varint encoders give the varint of the value\<close>

lemma unat_byte_or_128: "unat (ucast (x OR 128 :: 'a::len word) :: byte) = unat x mod 128 + 128"
  if "8 \<le> LENGTH('a)"
proof -
  have "(ucast (x OR 128) :: byte) = (ucast x AND 127) OR 128"
  proof (rule bit_word_eqI)
    fix n
    assume "n < LENGTH(8)"
    then have n: "n < 8" by simp
    have m: "bit (127 :: byte) n \<longleftrightarrow> n < 7"
      using n bit_mask_iff [of 7 n, where 'a = byte] by (simp add: mask_eq_exp_minus_1)
    have b: "bit (128 :: byte) n \<longleftrightarrow> n = 7"
      using n bit_exp_iff [of 7 n, where 'a = byte] by simp
    have b': "bit (128 :: 'a word) n \<longleftrightarrow> n = 7"
      using n that bit_exp_iff [of 7 n, where 'a = "'a word"] by auto
    show "bit (ucast (x OR 128) :: byte) n = bit ((ucast x AND 127) OR 128 :: byte) n"
      using n that m b b' by (auto simp: bit_simps)
  qed
  also have "unat \<dots> = unat (ucast x AND 127 :: byte) + unat (128 :: byte)"
    by (rule unat_or_disjoint [of _ 7]) (simp_all add: unat_and_mask7)
  also have "unat (ucast x AND 127 :: byte) = unat x mod 128"
    by (simp add: unat_and_mask7 unsigned_ucast_eq take_bit_eq_mod mod_mod_cancel)
  finally show ?thesis by simp
qed

lemma byte_or_128: "8 \<le> LENGTH('a) \<Longrightarrow> ucast (x OR 128 :: 'a::len word) = (of_nat (unat x mod 128 + 128) :: byte)"
  by (rule word_unat_eq_iff [THEN iffD2]) (simp add: unat_byte_or_128 unat_continuation_byte)

lemma EncodeVarint32_bytes: "EncodeVarint32 v = varint_bytes (unat v)"
proof -
  have step: "128 \<le> n \<Longrightarrow> varint_bytes n = of_nat (n mod 128 + 128) # varint_bytes (n div 128)" for n
    by (rule varint_bytes_large)
  have last: "(ucast v :: byte) = of_nat (unat v)" "(ucast (drop_bit k v) :: byte) = of_nat (unat v div 2 ^ k)" for k
    by (simp, metis of_nat_unat unat_drop_bit)
  have lt: "unat v div 268435456 < 128" using unat_lt_32 [of v] by (simp add: less_mult_imp_div_less)
  consider "unat v < 128" | "128 \<le> unat v" "unat v < 16384" | "16384 \<le> unat v" "unat v < 2097152"
    | "2097152 \<le> unat v" "unat v < 268435456" | "268435456 \<le> unat v" by linarith
  then show ?thesis
    by cases (simp_all add: EncodeVarint32_def word_less_nat_alt varint_bytes_small step byte_or_128 unat_drop_bit
        last less_eq_div_iff_mult_less_eq div_mult2_eq [symmetric] less_mult_imp_div_less lt del: of_nat_unat)
qed

lemma EncodeVarint64_bytes: "EncodeVarint64 v = varint_bytes (unat v)"
proof (induction v rule: EncodeVarint64.induct)
  case (1 v)
  show ?case
  proof (cases "128 \<le> v")
    case True
    have "ucast ((v AND 127) OR 128) = (of_nat (unat v mod 128 + 128) :: byte)"
      by (subst byte_or_128) (simp_all add: unat_and_mask7)
    with 1 [OF True] True show ?thesis
      by (subst EncodeVarint64.simps) (simp add: varint_bytes_large unat_drop_bit word_le_nat_alt)
  next
    case False
    then show ?thesis
      by (subst EncodeVarint64.simps) (simp add: varint_bytes_small word_le_nat_alt)
  qed
qed

lemma VarintLength_bytes: "VarintLength v = length (varint_bytes (unat v))"
proof (induction v rule: VarintLength.induct)
  case (1 v)
  show ?case
  proof (cases "128 \<le> v")
    case True
    with 1 [OF True] show ?thesis
      by (subst VarintLength.simps) (simp add: varint_bytes_large unat_drop_bit word_le_nat_alt)
  next
    case False
    then show ?thesis
      by (subst VarintLength.simps) (simp add: varint_bytes_small word_le_nat_alt)
  qed
qed

section \<open>The varint parsers give the value of the varint\<close>

lemma ucast_and_127: "(ucast (b :: byte) :: 'a::len word) AND 127 = ucast (b AND 127)" if "8 \<le> LENGTH('a)"
proof (rule word_unat_eq_iff [THEN iffD2])
  have u: "unat (ucast c :: 'a word) = unat c" for c :: byte
    using that by (intro unat_ucast_up) simp
  show "unat (ucast b AND 127 :: 'a word) = unat (ucast (b AND 127) :: 'a word)"
    by (simp only: unat_and_mask7 u)
qed

lemma ucast_and_128: "(ucast (b :: byte) :: 'a::len word) AND 128 = 0 \<longleftrightarrow> unat b < 128" if "8 \<le> LENGTH('a)"
proof -
  have "(ucast b :: 'a word) AND 128 = 0 \<longleftrightarrow> \<not> bit (ucast b :: 'a word) 7"
    using and_exp_eq_0_iff_not_bit [of "ucast b :: 'a word" 7] by simp
  also have "bit (ucast b :: 'a word) 7 \<longleftrightarrow> bit b 7" using that by (simp add: bit_simps)
  also have "\<not> bit b 7 \<longleftrightarrow> b AND 128 = 0" using and_exp_eq_0_iff_not_bit [of b 7] by simp
  finally show ?thesis by (simp only: continuation_bit_0)
qed

lemma last_byte_ucast: "unat (b :: byte) < 128 \<Longrightarrow> b AND 127 = b"
  by (rule word_unat_eq_iff [THEN iffD2]) (simp only: unat_and_mask7 mod_less)

lemma ucast_last: "unat (b :: byte) < 128 \<Longrightarrow> 8 \<le> LENGTH('a) \<Longrightarrow> (ucast b :: 'a::len word) AND 127 = ucast b"
  by (simp add: ucast_and_127 last_byte_ucast)

lemma varint_step:
  "2 ^ s * (unat (b :: byte) mod 128) + 2 ^ (s + 7) * v = 2 ^ s * (unat b mod 128 + 128 * v)"
  by (simp add: power_add algebra_simps)

lemma GetVarint32PtrFallback_loop_value:
  assumes "is_varint bs" and "s + 7 * length bs \<le> 35" and "\<And>n. bit r n \<Longrightarrow> n < s"
  shows "GetVarint32PtrFallback_loop (bs @ rest) r s = Some (r + of_nat (2 ^ s * varint_val bs), rest)"
  using assms
proof (induction bs arbitrary: r s)
  case (Cons b bs)
  have or: "r OR push_bit s (ucast b AND 127) = r + of_nat (2 ^ s * (unat b mod 128))"
    using or_push_bit_7 [OF Cons.prems(3), of _ b, where 'a = 32] by (simp add: ucast_and_127)
  show ?case
  proof (cases "bs = []")
    case True
    with Cons.prems have b: "unat b < 128" by (simp add: is_varint_Cons)
    with or have "r OR push_bit s (ucast b) = r + of_nat (2 ^ s * (unat b mod 128))"
      by (simp add: ucast_last)
    with True b Cons.prems(2) show ?thesis by (simp add: ucast_and_128)
  next
    case False
    with Cons.prems have b: "128 \<le> unat b" and bs: "is_varint bs" by (simp_all add: is_varint_Cons)
    have "n < s + 7" if "bit (r + of_nat (2 ^ s * (unat b mod 128))) n" for n
      using bit_or_push_bit_7 [where r = r and k = s and b = b and n = n, OF Cons.prems(3)] that or
      by (simp add: ucast_and_127)
    from Cons.IH [OF bs _ this] Cons.prems(2) b False or show ?thesis
      by (simp add: ucast_and_128 varint_step [symmetric])
  qed
qed simp

lemma GetVarint64Ptr_loop_value:
  assumes "is_varint bs" and "s + 7 * length bs \<le> 70" and "\<And>n. bit r n \<Longrightarrow> n < s"
  shows "GetVarint64Ptr_loop (bs @ rest) r s = Some (r + of_nat (2 ^ s * varint_val bs), rest)"
  using assms
proof (induction bs arbitrary: r s)
  case (Cons b bs)
  have or: "r OR push_bit s (ucast b AND 127) = r + of_nat (2 ^ s * (unat b mod 128))"
    using or_push_bit_7 [OF Cons.prems(3), of _ b, where 'a = 64] by (simp add: ucast_and_127)
  show ?case
  proof (cases "bs = []")
    case True
    with Cons.prems have b: "unat b < 128" by (simp add: is_varint_Cons)
    with or have "r OR push_bit s (ucast b) = r + of_nat (2 ^ s * (unat b mod 128))"
      by (simp add: ucast_last)
    with True b Cons.prems(2) show ?thesis by (simp add: ucast_and_128)
  next
    case False
    with Cons.prems have b: "128 \<le> unat b" and bs: "is_varint bs" by (simp_all add: is_varint_Cons)
    have "n < s + 7" if "bit (r + of_nat (2 ^ s * (unat b mod 128))) n" for n
      using bit_or_push_bit_7 [where r = r and k = s and b = b and n = n, OF Cons.prems(3)] that or
      by (simp add: ucast_and_127)
    from Cons.IH [OF bs _ this] Cons.prems(2) b False or show ?thesis
      by (simp add: ucast_and_128 varint_step [symmetric])
  qed
qed simp

lemma GetVarint32Ptr_value:
  assumes "is_varint bs" and "length bs \<le> 5"
  shows "GetVarint32Ptr (bs @ rest) = Some (of_nat (varint_val bs), rest)"
proof -
  obtain b cs where bs: "bs = b # cs" using assms(1) by (cases bs) auto
  have "GetVarint32PtrFallback (bs @ rest) = Some (of_nat (varint_val bs), rest)"
    using GetVarint32PtrFallback_loop_value [of bs 0 0 rest] assms by (simp add: GetVarint32PtrFallback_def)
  moreover have "cs = []" if "unat b < 128" using assms(1) that by (simp add: bs is_varint_Cons split: if_splits)
  ultimately show ?thesis
    by (auto simp: GetVarint32Ptr_def bs Let_def ucast_and_128)
qed

lemma GetVarint64Ptr_value:
  assumes "is_varint bs" and "length bs \<le> 10"
  shows "GetVarint64Ptr (bs @ rest) = Some (of_nat (varint_val bs), rest)"
  using GetVarint64Ptr_loop_value [of bs 0 0 rest] assms by (simp add: GetVarint64Ptr_def)

text \<open>A list of bytes starts with a varint of at most \<open>n\<close> bytes, or its first \<open>n\<close> bytes all continue.\<close>

lemma varint_or_continued:
  obtains bs rest where "p = bs @ rest" "is_varint bs" "length bs \<le> n"
    | "\<And>b. b \<in> set (take n p) \<Longrightarrow> 128 \<le> unat b"
proof (cases "\<forall>b \<in> set (take n p). 128 \<le> unat b")
  case False
  then obtain b where "b \<in> set (take n p)" "unat b < 128" by (auto simp: not_le)
  then obtain xs c ys where xs: "take n p = xs @ c # ys" "\<forall>d \<in> set xs. \<not> unat d < 128" and c: "unat c < 128"
    using split_list_first_prop [of "take n p" "\<lambda>b. unat b < 128"] by blast
  have "is_varint (xs @ [c])"
    using xs(2) c by (induction xs) (auto simp: is_varint_Cons)
  moreover have "p = (xs @ [c]) @ ys @ drop n p" using xs(1) append_take_drop_id [of n p] by simp
  moreover have "length (xs @ [c]) \<le> n" using arg_cong [OF xs(1), of length] by simp
  ultimately show ?thesis using that(1) by blast
qed (use that(2) in blast)

lemma GetVarint32Ptr_None:
  assumes "\<And>b. b \<in> set (take 5 p) \<Longrightarrow> 128 \<le> unat b"
  shows "GetVarint32Ptr p = None"
proof -
  have "GetVarint32PtrFallback_loop p r s = None"
    if "s + 7 * k = 35" "\<And>b. b \<in> set (take k p) \<Longrightarrow> 128 \<le> unat b" for k r s
    using that
  proof (induction p arbitrary: k r s)
    case (Cons b p)
    show ?case
    proof (cases k)
      case (Suc j)
      then have "128 \<le> unat b" "\<And>b. b \<in> set (take j p) \<Longrightarrow> 128 \<le> unat b" using Cons.prems(2) by auto
      with Cons.IH [of "s + 7" j] Cons.prems(1) Suc show ?thesis by (simp add: ucast_and_128)
    qed (use Cons.prems(1) in simp)
  qed simp
  from this [of 0 5] assms have "GetVarint32PtrFallback p = None" by (simp add: GetVarint32PtrFallback_def)
  moreover have "128 \<le> unat b" if "p = b # ps" for b ps using assms that by simp
  ultimately show ?thesis
    by (auto simp: GetVarint32Ptr_def Let_def ucast_and_128 not_le [symmetric] split: list.split)
qed

lemma GetVarint64Ptr_None:
  assumes "\<And>b. b \<in> set (take 10 p) \<Longrightarrow> 128 \<le> unat b"
  shows "GetVarint64Ptr p = None"
proof -
  have "GetVarint64Ptr_loop p r s = None"
    if "s + 7 * k = 70" "\<And>b. b \<in> set (take k p) \<Longrightarrow> 128 \<le> unat b" for k r s
    using that
  proof (induction p arbitrary: k r s)
    case (Cons b p)
    show ?case
    proof (cases k)
      case (Suc j)
      then have "128 \<le> unat b" "\<And>b. b \<in> set (take j p) \<Longrightarrow> 128 \<le> unat b" using Cons.prems(2) by auto
      with Cons.IH [of "s + 7" j] Cons.prems(1) Suc show ?thesis by (simp add: ucast_and_128)
    qed (use Cons.prems(1) in simp)
  qed simp
  from this [of 0 10] assms show ?thesis by (simp add: GetVarint64Ptr_def)
qed

interpretation varint32: prefix_codec EncodeVarint32 GetVarint32Ptr "\<lambda>_. True"
  by unfold_locales
    (simp add: EncodeVarint32_bytes GetVarint32Ptr_value is_varint_bytes length_varint_bytes_32 varint_val_bytes)

interpretation varint64: prefix_codec EncodeVarint64 GetVarint64Ptr "\<lambda>_. True"
  by unfold_locales
    (simp add: EncodeVarint64_bytes GetVarint64Ptr_value is_varint_bytes length_varint_bytes_64 varint_val_bytes)

text \<open>A slice longer than \<open>2 ^ 32 - 1\<close> bytes would be stored with a truncated length.\<close>

lemma PutLengthPrefixedSlice_append: "PutLengthPrefixedSlice dst s = dst @ PutLengthPrefixedSlice [] s"
  by (simp add: PutLengthPrefixedSlice_def PutVarint32_def)

interpretation length_prefixed: prefix_codec "PutLengthPrefixedSlice []" GetLengthPrefixedSlice
    "\<lambda>s. length s < 2 ^ 32"
proof unfold_locales
  fix s rest :: slice
  assume "length s < 2 ^ 32"
  then have "unat (of_nat (length s) :: u32) = length s" by (simp add: unsigned_of_nat take_bit_nat_eq_self)
  then show "GetLengthPrefixedSlice (PutLengthPrefixedSlice [] s @ rest) = Some (s, rest)"
    using varint32.dec_enc [of "of_nat (length s)" "s @ rest"]
    by (simp add: PutLengthPrefixedSlice_def PutVarint32_def GetLengthPrefixedSlice_def GetVarint32_def)
qed

section \<open>Reading makes the input shorter\<close>

lemma GetVarint32Ptr_shorter: "GetVarint32Ptr p = Some (v, r) \<Longrightarrow> length r < length p"
proof (rule varint_or_continued [of p 5])
  fix bs rest
  assume "GetVarint32Ptr p = Some (v, r)" and p: "p = bs @ rest" "is_varint bs" "length bs \<le> 5"
  with GetVarint32Ptr_value [OF p(2,3), of rest] have "r = rest" by simp
  with p show "length r < length p" by (cases bs) auto
next
  assume "GetVarint32Ptr p = Some (v, r)" "\<And>b. b \<in> set (take 5 p) \<Longrightarrow> 128 \<le> unat b"
  with GetVarint32Ptr_None [of p] show "length r < length p" by simp
qed

lemma GetVarint32_shorter: "GetVarint32 p = Some (v, r) \<Longrightarrow> length r < length p"
  by (simp add: GetVarint32_def GetVarint32Ptr_shorter)

lemma GetVarint64_shorter: "GetVarint64 p = Some (v, r) \<Longrightarrow> length r < length p"
proof -
  have "GetVarint64Ptr_loop p w n = Some (v, r) \<Longrightarrow> length r < length p" for w n
    by (induction p w n rule: GetVarint64Ptr_loop.induct) (auto simp: Let_def split: if_splits)
  then show "GetVarint64 p = Some (v, r) \<Longrightarrow> length r < length p" by (simp add: GetVarint64_def GetVarint64Ptr_def)
qed

lemma GetLengthPrefixedSlice_shorter: "GetLengthPrefixedSlice p = Some (s, r) \<Longrightarrow> length r < length p"
  by (auto simp: GetLengthPrefixedSlice_def split: option.splits if_splits dest!: GetVarint32_shorter)

end
