(* ===== verification/Ldb_Filename.thy ===== *)
theory Ldb_Filename
  imports Ldb_Coding
begin

text \<open>
  Decimal numbers (\<open>util/logging.cc\<close>) and the names of a database's files (\<open>db/filename.{h,cc}\<close>).
  A name is the list of its bytes. The names that the \<open>...FileName\<close> functions make are parsed
  back by \<open>ParseFileName\<close> to the type and number they were made for.
\<close>

abbreviation bytes_of :: "string \<Rightarrow> byte list" where
  "bytes_of \<equiv> map of_char"

section \<open>Decimal numbers and escaped strings\<close>

text \<open>What \<open>%llu\<close> prints, and what \<open>%06llu\<close> prints.\<close>

fun decimal :: "nat \<Rightarrow> byte list" where
  "decimal n = (if n < 10 then [of_nat (48 + n)] else decimal (n div 10) @ [of_nat (48 + n mod 10)])"

declare decimal.simps [simp del]

definition decimal_6 :: "nat \<Rightarrow> byte list" where
  "decimal_6 n = replicate (6 - length (decimal n)) 48 @ decimal n"

definition AppendNumberTo :: "byte list \<Rightarrow> u64 \<Rightarrow> byte list" where
  "AppendNumberTo str num = str @ decimal (unat num)"

definition NumberToString :: "u64 \<Rightarrow> byte list" where
  "NumberToString num = AppendNumberTo [] num"

text \<open>What \<open>%02x\<close> prints for a byte; \<open>'\\'\<close> is 92 and \<open>'x'\<close> is 120.\<close>

definition hex_digit :: "nat \<Rightarrow> byte" where
  "hex_digit d = of_nat (if d < 10 then 48 + d else 87 + d)"

definition AppendEscapedStringTo :: "byte list \<Rightarrow> slice \<Rightarrow> byte list" where
  "AppendEscapedStringTo str s =
     str @ concat (map (\<lambda>c. if 32 \<le> c \<and> c \<le> 126 then [c]
       else [92, 120, hex_digit (unat c div 16), hex_digit (unat c mod 16)]) s)"

definition EscapeString :: "slice \<Rightarrow> byte list" where
  "EscapeString s = AppendEscapedStringTo [] s"

text \<open>
  The result (nothing for a return of \<open>false\<close>) and what is left of \<open>*in\<close>, which is advanced in
  either case.
\<close>

fun ConsumeDecimalNumber_loop :: "u64 \<Rightarrow> nat \<Rightarrow> slice \<Rightarrow> u64 option \<times> slice" where
  "ConsumeDecimalNumber_loop v digits [] = (if 0 < digits then Some v else None, [])"
| "ConsumeDecimalNumber_loop v digits (c # rest) =
     (if 48 \<le> c \<and> c \<le> 57 then
        let delta = ucast (c - 48) :: u64; kMaxUint64 = NOT (0 :: u64) in
        if v > kMaxUint64 div 10 \<or> v = kMaxUint64 div 10 \<and> delta > kMaxUint64 mod 10
        then (None, c # rest)
        else ConsumeDecimalNumber_loop (v * 10 + delta) (Suc digits) rest
      else (if 0 < digits then Some v else None, c # rest))"

definition ConsumeDecimalNumber :: "slice \<Rightarrow> u64 option \<times> slice" where
  "ConsumeDecimalNumber input = ConsumeDecimalNumber_loop 0 0 input"

section \<open>File names\<close>

datatype FileType = kLogFile | kDBLockFile | kTableFile | kDescriptorFile | kCurrentFile | kTempFile
  | kInfoLogFile

definition MakeFileName :: "byte list \<Rightarrow> u64 \<Rightarrow> byte list \<Rightarrow> byte list" where
  "MakeFileName name number suffix = name @ bytes_of ''/'' @ decimal_6 (unat number) @ bytes_of ''.'' @ suffix"

text \<open>The numbered names are asserted to have a positive number.\<close>

definition LogFileName :: "byte list \<Rightarrow> u64 \<Rightarrow> byte list option" where
  "LogFileName name number = (if 0 < number then Some (MakeFileName name number (bytes_of ''log'')) else None)"

definition TableFileName :: "byte list \<Rightarrow> u64 \<Rightarrow> byte list option" where
  "TableFileName name number = (if 0 < number then Some (MakeFileName name number (bytes_of ''ldb'')) else None)"

definition SSTTableFileName :: "byte list \<Rightarrow> u64 \<Rightarrow> byte list option" where
  "SSTTableFileName name number = (if 0 < number then Some (MakeFileName name number (bytes_of ''sst'')) else None)"

definition DescriptorFileName :: "byte list \<Rightarrow> u64 \<Rightarrow> byte list option" where
  "DescriptorFileName dbname number =
     (if 0 < number then Some (dbname @ bytes_of ''/MANIFEST-'' @ decimal_6 (unat number)) else None)"

definition CurrentFileName :: "byte list \<Rightarrow> byte list" where
  "CurrentFileName dbname = dbname @ bytes_of ''/CURRENT''"

definition LockFileName :: "byte list \<Rightarrow> byte list" where
  "LockFileName dbname = dbname @ bytes_of ''/LOCK''"

definition TempFileName :: "byte list \<Rightarrow> u64 \<Rightarrow> byte list option" where
  "TempFileName dbname number = (if 0 < number then Some (MakeFileName dbname number (bytes_of ''dbtmp'')) else None)"

definition InfoLogFileName :: "byte list \<Rightarrow> byte list" where
  "InfoLogFileName dbname = dbname @ bytes_of ''/LOG''"

definition OldInfoLogFileName :: "byte list \<Rightarrow> byte list" where
  "OldInfoLogFileName dbname = dbname @ bytes_of ''/LOG.old''"

definition ParseFileName :: "byte list \<Rightarrow> (u64 \<times> FileType) option" where
  "ParseFileName fname =
     (let rest = fname in
      if Slice_eq rest (bytes_of ''CURRENT'') then Some (0, kCurrentFile)
      else if Slice_eq rest (bytes_of ''LOCK'') then Some (0, kDBLockFile)
      else if Slice_eq rest (bytes_of ''LOG'') \<or> Slice_eq rest (bytes_of ''LOG.old'') then Some (0, kInfoLogFile)
      else if starts_with rest (bytes_of ''MANIFEST-'') then
        (case ConsumeDecimalNumber (drop (length ''MANIFEST-'') rest) of
           (Some num, rest) \<Rightarrow> if rest \<noteq> [] then None else Some (num, kDescriptorFile)
         | (None, _) \<Rightarrow> None)
      else
        (case ConsumeDecimalNumber rest of
           (Some num, suffix) \<Rightarrow>
             if Slice_eq suffix (bytes_of ''.log'') then Some (num, kLogFile)
             else if Slice_eq suffix (bytes_of ''.sst'') \<or> Slice_eq suffix (bytes_of ''.ldb'') then Some (num, kTableFile)
             else if Slice_eq suffix (bytes_of ''.dbtmp'') then Some (num, kTempFile)
             else None
         | (None, _) \<Rightarrow> None))"

section \<open>Reading a number back\<close>

definition is_digit :: "byte \<Rightarrow> bool" where
  "is_digit c \<longleftrightarrow> 48 \<le> unat c \<and> unat c \<le> 57"

fun digits_val :: "nat \<Rightarrow> byte list \<Rightarrow> nat" where
  "digits_val v [] = v"
| "digits_val v (c # cs) = digits_val (v * 10 + (unat c - 48)) cs"

lemma digits_val_append: "digits_val v (xs @ ys) = digits_val (digits_val v xs) ys"
  by (induction xs arbitrary: v) simp_all

lemma digits_val_mono: "v \<le> digits_val v cs"
proof (induction cs arbitrary: v)
  case (Cons c cs)
  from Cons [of "v * 10 + (unat c - 48)"] show ?case by simp
qed simp

lemma is_digit_le: "is_digit c \<longleftrightarrow> 48 \<le> c \<and> c \<le> 57"
  by (simp add: is_digit_def word_le_nat_alt)

lemma delta_unat: "is_digit c \<Longrightarrow> unat (ucast (c - 48) :: u64) = unat c - 48"
  by (simp add: is_digit_def unat_ucast_up unat_sub word_le_nat_alt)

lemma ConsumeDecimalNumber_loop_value:
  assumes "\<forall>c \<in> set ds. is_digit c" and "rest = [] \<or> \<not> is_digit (hd rest)"
    and "digits_val (unat v) ds < 2 ^ 64"
  shows "ConsumeDecimalNumber_loop v k (ds @ rest) =
    (if 0 < k + length ds then Some (of_nat (digits_val (unat v) ds)) else None, rest)"
  using assms(1,3)
proof (induction ds arbitrary: v k)
  case Nil
  from assms(2) show ?case by (cases rest) (simp_all add: is_digit_le [symmetric] del: not_le)
next
  case (Cons c cs)
  let ?d = "ucast (c - 48) :: u64"
  have c: "is_digit c" and d: "unat ?d = unat c - 48" using Cons.prems(1) delta_unat by simp_all
  have lt: "unat v * 10 + (unat c - 48) < 2 ^ 64"
    using digits_val_mono [of "unat v * 10 + (unat c - 48)" cs] Cons.prems(2) by simp
  have m: "NOT (0 :: u64) = 18446744073709551615" by simp
  have no: "\<not> (v > NOT 0 div 10 \<or> v = NOT 0 div 10 \<and> ?d > NOT 0 mod 10)"
    unfolding m using lt by (auto simp: word_less_nat_alt word_unat_eq_iff d)
  have "unat (v * 10 + ?d) = unat v * 10 + (unat c - 48)"
  proof -
    have "v * 10 + ?d = of_nat (unat v * 10 + (unat c - 48))" by (simp flip: d)
    with lt show ?thesis by (simp only: unsigned_of_nat) (simp add: take_bit_nat_eq_self)
  qed
  with Cons.IH [of "v * 10 + ?d" "Suc k"] Cons.prems c no show ?case
    by (simp add: is_digit_le Let_def)
qed

lemma decimal_digits: "\<forall>c \<in> set (decimal n). is_digit c" "decimal n \<noteq> []" "digits_val 0 (decimal n) = n"
proof -
  have u: "unat (of_nat (48 + d) :: byte) = 48 + d" if "d < 10" for d
    using that by (simp only: unsigned_of_nat) (simp add: take_bit_nat_eq_self)
  have "(\<forall>c \<in> set (decimal n). is_digit c) \<and> decimal n \<noteq> [] \<and> digits_val 0 (decimal n) = n"
  proof (induction n rule: decimal.induct)
    case (1 n)
    show ?case
    proof (cases "n < 10")
      case True
      with u [of n] show ?thesis by (subst (1 2 3) decimal.simps) (simp add: is_digit_def del: of_nat_add)
    next
      case False
      with 1 u [of "n mod 10"] show ?thesis
        by (subst (1 2 3) decimal.simps) (simp add: is_digit_def digits_val_append del: of_nat_add)
    qed
  qed
  then show "\<forall>c \<in> set (decimal n). is_digit c" "decimal n \<noteq> []" "digits_val 0 (decimal n) = n"
    by blast+
qed

lemma digits_val_zeros: "digits_val 0 (replicate k 48 @ ds) = digits_val 0 ds"
  by (induction k) simp_all

lemma decimal_6_digits: "\<forall>c \<in> set (decimal_6 n). is_digit c" "decimal_6 n \<noteq> []" "digits_val 0 (decimal_6 n) = n"
  using decimal_digits [of n] by (auto simp: decimal_6_def digits_val_zeros) (simp add: is_digit_def)

lemma ConsumeDecimalNumber_value:
  assumes "\<forall>c \<in> set ds. is_digit c" and "ds \<noteq> []" and "digits_val 0 ds = unat n"
    and "rest = [] \<or> \<not> is_digit (hd rest)"
  shows "ConsumeDecimalNumber (ds @ rest) = (Some n, rest)"
  using ConsumeDecimalNumber_loop_value [OF assms(1,4), of 0 0] assms(2,3) unat_lt_64 [of n]
  by (simp add: ConsumeDecimalNumber_def)

lemma Consume_NumberToString:
  "rest = [] \<or> \<not> is_digit (hd rest) \<Longrightarrow> ConsumeDecimalNumber (NumberToString n @ rest) = (Some n, rest)"
  unfolding NumberToString_def AppendNumberTo_def append_Nil
  by (rule ConsumeDecimalNumber_value) (rule decimal_digits)+

section \<open>Parsing the names that are made\<close>

lemma ParseFileName_numbered:
  assumes "\<forall>c \<in> set ds. is_digit c" and "ds \<noteq> []" and "digits_val 0 ds = unat n"
    and "rest = [] \<or> \<not> is_digit (hd rest)"
  shows "ParseFileName (ds @ rest) =
     (if rest = bytes_of ''.log'' then Some (n, kLogFile)
      else if rest = bytes_of ''.sst'' \<or> rest = bytes_of ''.ldb'' then Some (n, kTableFile)
      else if rest = bytes_of ''.dbtmp'' then Some (n, kTempFile) else None)"
proof -
  obtain d ds' where ds: "ds = d # ds'" using assms(2) by (cases ds) auto
  with assms(1) have "is_digit d" by simp
  then have d: "d \<noteq> 67" "d \<noteq> 76" "d \<noteq> 77" by (auto simp: is_digit_def)
  then have "\<not> starts_with (ds @ rest) (bytes_of ''MANIFEST-'')" by (simp add: ds starts_with_prefix)
  with ConsumeDecimalNumber_value [OF assms] d show ?thesis
    by (simp add: ParseFileName_def ds)
qed

lemma ParseFileName_manifest: "ParseFileName (bytes_of ''MANIFEST-'' @ decimal_6 (unat n)) = Some (n, kDescriptorFile)"
proof -
  have "starts_with (bytes_of ''MANIFEST-'' @ decimal_6 (unat n)) (bytes_of ''MANIFEST-'')"
    by (simp only: starts_with_prefix) blast
  with ConsumeDecimalNumber_value [OF decimal_6_digits, where rest = "[]" and n = n] show ?thesis
    by (simp add: ParseFileName_def)
qed

end
