(* ===== verification/Ldb_Status.thy ===== *)
theory Ldb_Status
  imports Ldb_Filename
begin

text \<open>
  \<open>include/leveldb/status.h\<close> and \<open>util/status.cc\<close>. A \<open>Status\<close> is its \<open>state_\<close>: nothing for
  success, otherwise the array with the length of the message, the code and the message. Copying
  a status copies the array, so statuses are values here.
\<close>

datatype Code = kOk | kNotFound | kCorruption | kNotSupported | kInvalidArgument | kIOError

fun code_byte :: "Code \<Rightarrow> byte" where
  "code_byte kOk = 0" | "code_byte kNotFound = 1" | "code_byte kCorruption = 2"
| "code_byte kNotSupported = 3" | "code_byte kInvalidArgument = 4" | "code_byte kIOError = 5"

type_synonym status = "byte list option"

definition CopyState :: "byte list \<Rightarrow> byte list option" where
  "CopyState state =
     (if length state < 4 then None
      else let n = unat (of_nat (le_val (take 4 state)) :: u32) in
        if length state < n + 5 then None else Some (take (n + 5) state))"

text \<open>
  The lengths are kept in 32 bits; the messages are assumed to have less than 4 GB together, as the
  array would be too small for longer ones. Every caller passes a code other than \<open>kOk\<close>.
\<close>

definition Status_new :: "Code \<Rightarrow> slice \<Rightarrow> slice \<Rightarrow> status" where
  "Status_new code msg msg2 =
     (let len1 = of_nat (length msg) :: u32; len2 = of_nat (length msg2) :: u32;
          n = len1 + (if len2 \<noteq> 0 then 2 + len2 else 0) in
      Some (le_bytes 4 (unat n) @ [code_byte code] @ take (unat len1) msg @
        (if len2 \<noteq> 0 then [58, 32] @ take (unat len2) msg2 else [])))"

definition Status_OK :: status where
  "Status_OK = None"

definition NotFound :: "slice \<Rightarrow> slice \<Rightarrow> status" where
  "NotFound msg msg2 = Status_new kNotFound msg msg2"

definition Corruption :: "slice \<Rightarrow> slice \<Rightarrow> status" where
  "Corruption msg msg2 = Status_new kCorruption msg msg2"

definition NotSupported :: "slice \<Rightarrow> slice \<Rightarrow> status" where
  "NotSupported msg msg2 = Status_new kNotSupported msg msg2"

definition InvalidArgument :: "slice \<Rightarrow> slice \<Rightarrow> status" where
  "InvalidArgument msg msg2 = Status_new kInvalidArgument msg msg2"

definition IOError :: "slice \<Rightarrow> slice \<Rightarrow> status" where
  "IOError msg msg2 = Status_new kIOError msg msg2"

definition status_ok :: "status \<Rightarrow> bool" where
  "status_ok s \<longleftrightarrow> s = None"

definition status_code :: "status \<Rightarrow> byte" where
  "status_code s = (case s of None \<Rightarrow> code_byte kOk | Some state \<Rightarrow> state ! 4)"

definition IsNotFound :: "status \<Rightarrow> bool" where
  "IsNotFound s \<longleftrightarrow> status_code s = code_byte kNotFound"

definition IsCorruption :: "status \<Rightarrow> bool" where
  "IsCorruption s \<longleftrightarrow> status_code s = code_byte kCorruption"

definition IsIOError :: "status \<Rightarrow> bool" where
  "IsIOError s \<longleftrightarrow> status_code s = code_byte kIOError"

definition IsNotSupportedError :: "status \<Rightarrow> bool" where
  "IsNotSupportedError s \<longleftrightarrow> status_code s = code_byte kNotSupported"

definition IsInvalidArgument :: "status \<Rightarrow> bool" where
  "IsInvalidArgument s \<longleftrightarrow> status_code s = code_byte kInvalidArgument"

text \<open>\<open>%d\<close> of a code outside the enumeration prints a signed \<open>char\<close>.\<close>

definition signed_decimal :: "int \<Rightarrow> byte list" where
  "signed_decimal i = (if i < 0 then 45 # decimal (nat (- i)) else decimal (nat i))"

definition type_string :: "byte \<Rightarrow> byte list" where
  "type_string c =
     (if c = code_byte kOk then bytes_of ''OK''
      else if c = code_byte kNotFound then bytes_of ''NotFound: ''
      else if c = code_byte kCorruption then bytes_of ''Corruption: ''
      else if c = code_byte kNotSupported then bytes_of ''Not implemented: ''
      else if c = code_byte kInvalidArgument then bytes_of ''Invalid argument: ''
      else if c = code_byte kIOError then bytes_of ''IO error: ''
      else bytes_of ''Unknown code('' @ signed_decimal (sint c) @ bytes_of ''): '')"

definition Status_ToString :: "status \<Rightarrow> byte list" where
  "Status_ToString s =
     (case s of None \<Rightarrow> bytes_of ''OK''
      | Some state \<Rightarrow> type_string (status_code s) @
          take (unat (of_nat (le_val (take 4 state)) :: u32)) (drop 5 state))"

section \<open>What a status says\<close>

lemma status_ok_simps [simp]:
  "status_ok Status_OK" "status_ok None" "\<not> status_ok (Some st)" "\<not> status_ok (Status_new c m m2)"
  "\<not> status_ok (NotFound m m2)" "\<not> status_ok (Corruption m m2)" "\<not> status_ok (NotSupported m m2)"
  "\<not> status_ok (InvalidArgument m m2)" "\<not> status_ok (IOError m m2)"
  by (simp_all add: status_ok_def Status_OK_def Status_new_def Let_def NotFound_def Corruption_def
      NotSupported_def InvalidArgument_def IOError_def)

lemma status_code_new [simp]: "status_code (Status_new c m m2) = code_byte c"
  by (simp add: status_code_def Status_new_def Let_def nth_append)

lemma code_byte_inject [simp]: "code_byte c = code_byte d \<longleftrightarrow> c = d"
  by (cases c; cases d) simp_all

lemma stored_length: "n < 2 ^ 32 \<Longrightarrow> unat (of_nat (le_val (le_bytes 4 n)) :: u32) = n"
  by (simp add: le_val_bytes unsigned_of_nat take_bit_nat_eq_self)

lemma status_message:
  fixes m m2 :: slice
  defines "text \<equiv> m @ (if m2 = [] then [] else [58, 32] @ m2)"
  assumes "length m + 2 + length m2 < 2 ^ 32"
  shows "Status_new c m m2 = Some (le_bytes 4 (length text) @ [code_byte c] @ text)"
proof -
  have u: "unat (of_nat n :: u32) = n" if "n < 2 ^ 32" for n
    using that by (simp add: unsigned_of_nat take_bit_nat_eq_self)
  have u1: "unat (of_nat (length m) :: u32) = length m" "unat (of_nat (length m2) :: u32) = length m2"
    using assms(2) by (simp_all add: u)
  then have ne: "(of_nat (length m2) :: u32) = 0 \<longleftrightarrow> m2 = []" by (simp add: word_unat_eq_iff)
  have "of_nat (length m) + (2 + of_nat (length m2)) = (of_nat (length m + (2 + length m2)) :: u32)" by simp
  then have "unat (of_nat (length m) + (2 + of_nat (length m2)) :: u32) = length m + (2 + length m2)"
    using assms(2) u [of "length m + (2 + length m2)"] by (simp only:)
  with u1 ne show ?thesis by (simp add: Status_new_def Let_def text_def)
qed

lemma ToString_new:
  assumes "length m + 2 + length m2 < 2 ^ 32"
  shows "Status_ToString (Status_new c m m2) =
    type_string (code_byte c) @ m @ (if m2 = [] then [] else bytes_of '': '' @ m2)"
proof -
  let ?text = "m @ (if m2 = [] then [] else [58, 32] @ m2)"
  have "unat (of_nat (le_val (le_bytes 4 (length ?text))) :: u32) = length ?text"
    using assms by (intro stored_length) simp
  moreover have "status_code (Status_new c m m2) = code_byte c" by simp
  ultimately show ?thesis
    unfolding status_message [OF assms] Status_ToString_def by simp
qed

lemma CopyState_new:
  assumes "length m + 2 + length m2 < 2 ^ 32" and "Status_new c m m2 = Some state"
  shows "CopyState state = Some state"
proof -
  let ?text = "m @ (if m2 = [] then [] else [58, 32] @ m2)"
  have "unat (of_nat (le_val (le_bytes 4 (length ?text))) :: u32) = length ?text"
    using assms(1) by (intro stored_length) simp
  moreover have "state = le_bytes 4 (length ?text) @ [code_byte c] @ ?text"
    using status_message [OF assms(1)] assms(2) by simp
  ultimately show ?thesis by (simp add: CopyState_def)
qed

end
