(* ===== verification/Ldb_Files.thy ===== *)
theory Ldb_Files
  imports Ldb_Status
begin

text \<open>
  The file interfaces of \<open>include/leveldb/env.h\<close> that the log and the tables use, and their
  implementations over \<open>stdio\<close> in \<open>util/env_posix.cc\<close>. A class of virtual functions is a record
  of functions on the state of the object; the locales state what the interface's comments
  promise, and the interpretations discharge it for the POSIX files.
\<close>

section \<open>The interfaces\<close>

record 'f SequentialFile =
  sf_Read :: "nat \<Rightarrow> 'f \<Rightarrow> (status \<times> slice) \<times> 'f"
  sf_Skip :: "u64 \<Rightarrow> 'f \<Rightarrow> status \<times> 'f"

record 'f RandomAccessFile =
  ra_Read :: "'f \<Rightarrow> u64 \<Rightarrow> nat \<Rightarrow> status \<times> slice"

record 'f WritableFile =
  wf_Append :: "slice \<Rightarrow> 'f \<Rightarrow> status \<times> 'f"
  wf_Close :: "'f \<Rightarrow> status \<times> 'f"
  wf_Flush :: "'f \<Rightarrow> status \<times> 'f"
  wf_Sync :: "'f \<Rightarrow> status \<times> 'f"

text \<open>
  A file that is read without errors delivers its bytes in order, fewer than were asked for only
  at its end. \<open>unread f\<close> are the bytes still to come.
\<close>

locale sequential_file =
  fixes F :: "'f SequentialFile" and good :: "'f \<Rightarrow> bool" and unread :: "'f \<Rightarrow> byte list"
  assumes Read: "good f \<Longrightarrow> \<exists>f'. sf_Read F n f = ((Status_OK, take n (unread f)), f') \<and> good f' \<and>
      unread f' = drop n (unread f)"
    and Skip: "good f \<Longrightarrow> unat m \<le> length (unread f) \<Longrightarrow>
      \<exists>f'. sf_Skip F m f = (Status_OK, f') \<and> good f' \<and> unread f' = drop (unat m) (unread f)"
begin

lemma Read_status: "good f \<Longrightarrow> fst (sf_Read F n f) = (Status_OK, take n (unread f))"
  using Read [of f n] by auto

lemma Read_state: "good f \<Longrightarrow> good (snd (sf_Read F n f)) \<and> unread (snd (sf_Read F n f)) = drop n (unread f)"
  using Read [of f n] by auto

end

text \<open>
  A file with room for what is appended takes it at its end; flushing changes nothing that is
  seen of it. \<open>room f n\<close> says that \<open>n\<close> more bytes fit.
\<close>

locale writable_file =
  fixes F :: "'f WritableFile" and room :: "'f \<Rightarrow> nat \<Rightarrow> bool" and written :: "'f \<Rightarrow> byte list"
  assumes Append: "room f (length d + n) \<Longrightarrow> \<exists>f'. wf_Append F d f = (Status_OK, f') \<and> room f' n \<and>
      written f' = written f @ d"
    and Flush: "room f n \<Longrightarrow> \<exists>f'. wf_Flush F f = (Status_OK, f') \<and> room f' n \<and> written f' = written f"
begin

lemma Append_all:
  assumes "room f (length (concat ds) + n)"
  shows "\<exists>f'. room f' n \<and> written f' = written f @ concat ds \<and>
    foldl (\<lambda>f d. snd (wf_Append F d f)) f ds = f'"
  using assms
proof (induction ds arbitrary: f)
  case (Cons d ds)
  then obtain f' where f': "wf_Append F d f = (Status_OK, f')" "room f' (length (concat ds) + n)"
      "written f' = written f @ d"
    using Append [of f d "length (concat ds) + n"] by (auto simp: add.assoc)
  from Cons.IH [OF f'(2)] f' show ?case by simp
qed simp

end

section \<open>POSIX files\<close>

text \<open>
  A \<open>FILE*\<close> open for reading: the bytes of the file, the position, the flag that \<open>feof\<close> tests, and
  the position at which the device fails to read, if there is one, with the text of the error.
\<close>

record PosixSequentialFile =
  sq_filename :: "byte list"
  sq_data :: "byte list"
  sq_pos :: nat
  sq_eof :: bool
  sq_fails_at :: "nat option"
  sq_errno :: "byte list"

definition sq_readable :: "PosixSequentialFile \<Rightarrow> byte list" where
  "sq_readable f = drop (sq_pos f)
     (case sq_fails_at f of None \<Rightarrow> sq_data f | Some e \<Rightarrow> take e (sq_data f))"

definition fread :: "nat \<Rightarrow> PosixSequentialFile \<Rightarrow> slice \<times> PosixSequentialFile" where
  "fread n f =
     (let r = take n (sq_readable f) in
      (r, f\<lparr>sq_pos := sq_pos f + length r,
        sq_eof := sq_eof f \<or> length r < n \<and> (case sq_fails_at f of None \<Rightarrow> True | Some e \<Rightarrow> length (sq_data f) < e)\<rparr>))"

definition PosixSequentialFile_Read ::
  "nat \<Rightarrow> PosixSequentialFile \<Rightarrow> (status \<times> slice) \<times> PosixSequentialFile" where
  "PosixSequentialFile_Read n f =
     (case fread n f of (r, f) \<Rightarrow>
        if length r < n \<and> \<not> sq_eof f then ((IOError (sq_filename f) (sq_errno f), r), f)
        else ((Status_OK, r), f))"

text \<open>\<open>fseek\<close> may go beyond the end of the file. It takes a signed offset and clears the flag.\<close>

definition PosixSequentialFile_Skip :: "u64 \<Rightarrow> PosixSequentialFile \<Rightarrow> status \<times> PosixSequentialFile" where
  "PosixSequentialFile_Skip n f =
     (if int (sq_pos f) + sint n < 0 \<or> 2 ^ 63 \<le> int (sq_pos f) + sint n
      then (IOError (sq_filename f) (sq_errno f), f)
      else (Status_OK, f\<lparr>sq_pos := nat (int (sq_pos f) + sint n), sq_eof := False\<rparr>))"

definition posix_sequential_file :: "PosixSequentialFile SequentialFile" where
  "posix_sequential_file = \<lparr>sf_Read = PosixSequentialFile_Read, sf_Skip = PosixSequentialFile_Skip\<rparr>"

text \<open>\<open>pread\<close> on a file of the given bytes, or a failure of \<open>open\<close> or \<open>pread\<close> with its error.\<close>

record PosixRandomAccessFile =
  pr_filename :: "byte list"
  pr_data :: "byte list"
  pr_error :: "byte list option"

definition PosixRandomAccessFile_Read :: "PosixRandomAccessFile \<Rightarrow> u64 \<Rightarrow> nat \<Rightarrow> status \<times> slice" where
  "PosixRandomAccessFile_Read f offset n =
     (case pr_error f of Some e \<Rightarrow> (IOError (pr_filename f) e, [])
      | None \<Rightarrow> (Status_OK, take n (drop (unat offset) (pr_data f))))"

text \<open>The mapped file: the sum of offset and length is taken in 64 bits.\<close>

record PosixMmapReadableFile =
  mm_filename :: "byte list"
  mm_region :: "byte list"
  mm_einval :: "byte list"

definition PosixMmapReadableFile_Read :: "PosixMmapReadableFile \<Rightarrow> u64 \<Rightarrow> nat \<Rightarrow> status \<times> slice" where
  "PosixMmapReadableFile_Read f offset n =
     (if offset + of_nat n > of_nat (length (mm_region f)) then (IOError (mm_filename f) (mm_einval f), [])
      else (Status_OK, take n (drop (unat offset) (mm_region f))))"

text \<open>
  A \<open>FILE*\<close> open for writing: what was written, how many more bytes the device takes before it
  fails, and the text of the error.
\<close>

record PosixWritableFile =
  pw_filename :: "byte list"
  pw_data :: "byte list"
  pw_space :: nat
  pw_flush_ok :: bool
  pw_open :: bool
  pw_errno :: "byte list"

definition fwrite :: "slice \<Rightarrow> PosixWritableFile \<Rightarrow> nat \<times> PosixWritableFile" where
  "fwrite d f =
     (let r = min (length d) (pw_space f) in
      (r, f\<lparr>pw_data := pw_data f @ take r d, pw_space := pw_space f - r\<rparr>))"

definition PosixWritableFile_Append :: "slice \<Rightarrow> PosixWritableFile \<Rightarrow> status \<times> PosixWritableFile" where
  "PosixWritableFile_Append d f =
     (case fwrite d f of (r, f) \<Rightarrow>
        if r \<noteq> length d then (IOError (pw_filename f) (pw_errno f), f) else (Status_OK, f))"

definition PosixWritableFile_Close :: "PosixWritableFile \<Rightarrow> status \<times> PosixWritableFile" where
  "PosixWritableFile_Close f =
     (if \<not> pw_flush_ok f then (IOError (pw_filename f) (pw_errno f), f\<lparr>pw_open := False\<rparr>)
      else (Status_OK, f\<lparr>pw_open := False\<rparr>))"

definition PosixWritableFile_Flush :: "PosixWritableFile \<Rightarrow> status \<times> PosixWritableFile" where
  "PosixWritableFile_Flush f =
     (if \<not> pw_flush_ok f then (IOError (pw_filename f) (pw_errno f), f) else (Status_OK, f))"

text \<open>The part of the path after the last slash, and the directory before it.\<close>

definition path_split :: "byte list \<Rightarrow> byte list \<times> byte list" where
  "path_split f =
     (if (47 :: byte) \<in> set f
      then (rev (tl (dropWhile (\<lambda>c. c \<noteq> 47) (rev f))), rev (takeWhile (\<lambda>c. c \<noteq> 47) (rev f)))
      else (bytes_of ''.'', f))"

text \<open>\<open>dir_sync\<close>: the error of opening or syncing the directory, if there is one.\<close>

definition SyncDirIfManifest :: "(byte list \<Rightarrow> byte list option) \<Rightarrow> PosixWritableFile \<Rightarrow> status" where
  "SyncDirIfManifest dir_sync f =
     (case path_split (pw_filename f) of (dir, basename) \<Rightarrow>
        if starts_with basename (bytes_of ''MANIFEST'')
        then (case dir_sync dir of Some e \<Rightarrow> IOError dir e | None \<Rightarrow> Status_OK)
        else Status_OK)"

definition PosixWritableFile_Sync ::
  "(byte list \<Rightarrow> byte list option) \<Rightarrow> PosixWritableFile \<Rightarrow> status \<times> PosixWritableFile" where
  "PosixWritableFile_Sync dir_sync f =
     (let s = SyncDirIfManifest dir_sync f in
      if \<not> status_ok s then (s, f)
      else if \<not> pw_flush_ok f then (IOError (pw_filename f) (pw_errno f), f) else (s, f))"

definition posix_writable_file :: "(byte list \<Rightarrow> byte list option) \<Rightarrow> PosixWritableFile WritableFile" where
  "posix_writable_file dir_sync =
     \<lparr>wf_Append = PosixWritableFile_Append, wf_Close = PosixWritableFile_Close,
      wf_Flush = PosixWritableFile_Flush, wf_Sync = PosixWritableFile_Sync dir_sync\<rparr>"

section \<open>The POSIX files keep the promises\<close>

text \<open>Files below \<open>2 ^ 63\<close> bytes without a failing position.\<close>

definition posix_good :: "PosixSequentialFile \<Rightarrow> bool" where
  "posix_good f \<longleftrightarrow> sq_fails_at f = None \<and> sq_pos f \<le> length (sq_data f) \<and> length (sq_data f) < 2 ^ 63"

definition posix_unread :: "PosixSequentialFile \<Rightarrow> byte list" where
  "posix_unread f = drop (sq_pos f) (sq_data f)"

lemma posix_Read:
  "posix_good f \<Longrightarrow> \<exists>f'. PosixSequentialFile_Read n f = ((Status_OK, take n (posix_unread f)), f') \<and>
     posix_good f' \<and> posix_unread f' = drop n (posix_unread f)"
  by (auto simp: PosixSequentialFile_Read_def fread_def posix_good_def posix_unread_def sq_readable_def Let_def
      add.commute min_def)

lemma sint_small: "unat (n :: u64) < 2 ^ 63 \<Longrightarrow> sint n = int (unat n)"
  unfolding sint_uint by (simp add: signed_take_bit_int_eq_self_iff nat_less_numeral_power_cancel_iff
      flip: unat_eq_nat_uint) (simp add: signed_take_bit_int_eq_self uint_nat del: of_nat_unat)

lemma posix_Skip:
  assumes "posix_good f" and "unat n \<le> length (posix_unread f)"
  shows "\<exists>f'. PosixSequentialFile_Skip n f = (Status_OK, f') \<and> posix_good f' \<and>
    posix_unread f' = drop (unat n) (posix_unread f)"
proof -
  have "unat n < 2 ^ 63" "sq_pos f + unat n < 2 ^ 63" 
    using assms by (auto simp: posix_good_def posix_unread_def)
  with assms sint_small [of n] show ?thesis
    by (auto simp: PosixSequentialFile_Skip_def posix_good_def posix_unread_def nat_add_distrib add.commute
        simp del: of_nat_unat simp flip: of_nat_add)
qed

interpretation posix_sequential: sequential_file posix_sequential_file posix_good posix_unread
  by unfold_locales (simp_all add: posix_sequential_file_def posix_Read posix_Skip)

interpretation posix_writable: writable_file "posix_writable_file dir_sync"
    "\<lambda>f n. pw_flush_ok f \<and> n \<le> pw_space f" pw_data for dir_sync
  by unfold_locales
    (auto simp: posix_writable_file_def PosixWritableFile_Append_def PosixWritableFile_Flush_def fwrite_def Let_def
      min_def)

end
