(* ===== verification/Ldb_Log.thy ===== *)
theory Ldb_Log
  imports Ldb_Crc32c Ldb_Files
begin

text \<open>
  The log format (\<open>db/log_format.h\<close>), its writer (\<open>db/log_writer.{h,cc}\<close>) and its reader
  (\<open>db/log_reader.{h,cc}\<close>). A file is a sequence of blocks of \<open>kBlockSize\<close> bytes; a record is cut
  into fragments, each with a header of checksum, length and type, and no fragment crosses a
  block boundary. The files are parameters, given by the records of \<open>Ldb_Files\<close>.

  The machine parameter \<open>M\<close> holds the byte order and the address at which a buffer lies, on which
  the checksum routine depends.
\<close>

record machine =
  little :: bool
  addr_of :: "byte list \<Rightarrow> nat"

definition crc_extend :: "machine \<Rightarrow> u32 \<Rightarrow> byte list \<Rightarrow> u32 option" where
  "crc_extend M crc buf = Extend (little M) (addr_of M buf) crc buf"

lemma crc_extend_simp [simp]: "crc_extend M crc buf = Some (crc32c crc buf)"
  by (simp add: crc_extend_def Extend_crc32c)

section \<open>The format\<close>

datatype RecordType = kZeroType | kFullType | kFirstType | kMiddleType | kLastType

fun type_value :: "RecordType \<Rightarrow> nat" where
  "type_value kZeroType = 0" | "type_value kFullType = 1" | "type_value kFirstType = 2"
| "type_value kMiddleType = 3" | "type_value kLastType = 4"

definition kMaxRecordType :: nat where
  "kMaxRecordType = type_value kLastType"

definition kBlockSize :: nat where
  "kBlockSize = 32768"

definition kHeaderSize :: nat where
  "kHeaderSize = 4 + 2 + 1"

section \<open>The writer\<close>

record 'f Writer =
  dest :: 'f
  block_offset :: int
  type_crc :: "u32 list"

fun InitTypeCrc_loop :: "machine \<Rightarrow> nat \<Rightarrow> u32 list option" where
  "InitTypeCrc_loop M 0 = Some []"
| "InitTypeCrc_loop M (Suc i) =
     Option.bind (InitTypeCrc_loop M i) (\<lambda>cs.
     Option.bind (crc_extend M 0 [of_nat i]) (\<lambda>c. Some (cs @ [c])))"

definition InitTypeCrc :: "machine \<Rightarrow> u32 list option" where
  "InitTypeCrc M = InitTypeCrc_loop M (kMaxRecordType + 1)"

definition Writer_new :: "machine \<Rightarrow> 'f \<Rightarrow> u64 \<Rightarrow> 'f Writer option" where
  "Writer_new M f dest_length =
     map_option (\<lambda>crcs. \<lparr>dest = f, block_offset = int (unat (dest_length mod of_nat kBlockSize)), type_crc = crcs\<rparr>)
       (InitTypeCrc M)"

text \<open>Nothing stands for a failed assertion.\<close>

definition EmitPhysicalRecord ::
  "machine \<Rightarrow> 'f WritableFile \<Rightarrow> RecordType \<Rightarrow> slice \<Rightarrow> 'f Writer \<Rightarrow> (status \<times> 'f Writer) option" where
  "EmitPhysicalRecord M F t p w =
     (let n = length p in
      if \<not> n \<le> 0xffff \<or> \<not> block_offset w + int kHeaderSize + int n \<le> int kBlockSize then None
      else
        case crc_extend M (type_crc w ! type_value t) p of None \<Rightarrow> None
        | Some crc \<Rightarrow>
          let buf = EncodeFixed32 (little M) (Mask crc) @
                [of_nat n AND 0xff, of_nat (n div 256), of_nat (type_value t)];
              (s, f) = wf_Append F buf (dest w);
              (s, f) = (if status_ok s then
                 let (s, f) = wf_Append F p f in
                 if status_ok s then wf_Flush F f else (s, f)
               else (s, f)) in
          Some (s, w\<lparr>dest := f, block_offset := block_offset w + int kHeaderSize + int n\<rparr>))"

text \<open>A new block is started when no header fits; the result of writing the trailer is not looked at.\<close>

definition start_block :: "'f WritableFile \<Rightarrow> 'f Writer \<Rightarrow> 'f Writer" where
  "start_block F w =
     (let leftover = int kBlockSize - block_offset w in
      if leftover < int kHeaderSize then
        (if 0 < leftover then w\<lparr>dest := snd (wf_Append F (replicate (nat leftover) 0) (dest w)), block_offset := 0\<rparr>
         else w\<lparr>block_offset := 0\<rparr>)
      else w)"

definition fragment_type :: "bool \<Rightarrow> bool \<Rightarrow> RecordType" where
  "fragment_type begin end' =
     (if begin \<and> end' then kFullType else if begin then kFirstType
      else if end' then kLastType else kMiddleType)"

text \<open>One round of the \<open>do\<close> loop: the status, the bytes left and the writer.\<close>

definition AddRecord_step ::
  "machine \<Rightarrow> 'f WritableFile \<Rightarrow> bool \<Rightarrow> slice \<Rightarrow> 'f Writer \<Rightarrow> (status \<times> slice \<times> 'f Writer) option" where
  "AddRecord_step M F begin p w =
     (if int kBlockSize - block_offset w < 0 then None
      else
        let w = start_block F w;
            avail = nat (int kBlockSize - block_offset w - int kHeaderSize);
            fragment_length = (if length p < avail then length p else avail);
            t = fragment_type begin (length p = fragment_length) in
        if int kBlockSize - block_offset w - int kHeaderSize < 0 then None
        else case EmitPhysicalRecord M F t (take fragment_length p) w of None \<Rightarrow> None
          | Some (s, w) \<Rightarrow> Some (s, drop fragment_length p, w))"

text \<open>
  A round takes at least one byte unless exactly a header fits into the block; the round after
  that one starts a block.
\<close>

definition AddRecord_measure :: "slice \<Rightarrow> 'f Writer \<Rightarrow> nat" where
  "AddRecord_measure p w = 2 * length p + (if block_offset w + int kHeaderSize = int kBlockSize then 1 else 0)"

lemma Emit_block_offset:
  "EmitPhysicalRecord M F t p w = Some (s, w') \<Longrightarrow> block_offset w' = block_offset w + int kHeaderSize + int (length p)"
  by (auto simp: EmitPhysicalRecord_def Let_def split: if_splits option.splits prod.splits)

lemma AddRecord_step_decreases:
  assumes "AddRecord_step M F begin p w = Some (s, p', w')" and "p' \<noteq> []"
  shows "AddRecord_measure p' w' < AddRecord_measure p w"
proof -
  let ?w = "start_block F w"
  let ?avail = "nat (int kBlockSize - block_offset ?w - int kHeaderSize)"
  from assms(1) have le: "int kHeaderSize \<le> int kBlockSize - block_offset ?w"
    by (simp add: AddRecord_step_def Let_def split: if_splits)
  have n: "?avail < length p" and p': "p' = drop ?avail p"
    and bo: "block_offset w' = block_offset ?w + int kHeaderSize + int ?avail"
    using assms by (auto simp: AddRecord_step_def Let_def dest!: Emit_block_offset split: if_splits option.splits)
  from bo le have w': "block_offset w' = int kBlockSize" by simp
  show ?thesis
  proof (cases "?avail = 0")
    case True
    with le have "block_offset ?w + int kHeaderSize = int kBlockSize" by simp
    then have "block_offset w + int kHeaderSize = int kBlockSize"
      by (auto simp: start_block_def Let_def kBlockSize_def kHeaderSize_def split: if_splits)
    with w' p' True show ?thesis by (simp add: AddRecord_measure_def kHeaderSize_def)
  next
    case False
    with n p' w' show ?thesis by (simp add: AddRecord_measure_def kHeaderSize_def)
  qed
qed

function AddRecord_loop ::
  "machine \<Rightarrow> 'f WritableFile \<Rightarrow> bool \<Rightarrow> slice \<Rightarrow> 'f Writer \<Rightarrow> (status \<times> 'f Writer) option" where
  "AddRecord_loop M F begin p w =
     (case AddRecord_step M F begin p w of None \<Rightarrow> None
      | Some (s, p', w') \<Rightarrow>
          if status_ok s \<and> p' \<noteq> [] then AddRecord_loop M F False p' w' else Some (s, w'))"
  by pat_completeness auto
termination
  by (relation "measure (\<lambda>(M, F, begin, p, w). AddRecord_measure p w)") (auto simp: AddRecord_step_decreases)

declare AddRecord_loop.simps [simp del]

definition AddRecord ::
  "machine \<Rightarrow> 'f WritableFile \<Rightarrow> slice \<Rightarrow> 'f Writer \<Rightarrow> (status \<times> 'f Writer) option" where
  "AddRecord M F s w = AddRecord_loop M F True s w"

section \<open>The reader\<close>

text \<open>
  The corruptions reported so far stand for the reporter; without one nothing is recorded. The
  checksum flag and the initial offset are constants of a reader.
\<close>

record 'f Reader =
  log_file :: 'f
  reporter :: "(u64 \<times> status) list option"
  checksum :: bool
  buffer :: slice
  eof :: bool
  last_record_offset :: u64
  end_of_buffer_offset :: u64
  initial_offset :: u64
  resyncing :: bool

definition Reader_new :: "'f \<Rightarrow> bool \<Rightarrow> bool \<Rightarrow> u64 \<Rightarrow> 'f Reader" where
  "Reader_new f has_reporter chk initial =
     \<lparr>log_file = f, reporter = (if has_reporter then Some [] else None), checksum = chk, buffer = [], eof = False,
      last_record_offset = 0, end_of_buffer_offset = 0, initial_offset = initial, resyncing = 0 < initial\<rparr>"

text \<open>The values beyond the record types, as \<open>unsigned int\<close>.\<close>

definition kEof :: u32 where
  "kEof = of_nat kMaxRecordType + 1"

definition kBadRecord :: u32 where
  "kBadRecord = of_nat kMaxRecordType + 2"

definition buffer_size :: "'f Reader \<Rightarrow> u64" where
  "buffer_size r = of_nat (length (buffer r))"

definition ReportDrop :: "u64 \<Rightarrow> status \<Rightarrow> 'f Reader \<Rightarrow> 'f Reader" where
  "ReportDrop n reason r =
     (if reporter r \<noteq> None \<and> initial_offset r \<le> end_of_buffer_offset r - buffer_size r - n
      then r\<lparr>reporter := map_option (\<lambda>rs. rs @ [(n, reason)]) (reporter r)\<rparr> else r)"

definition ReportCorruption :: "u64 \<Rightarrow> byte list \<Rightarrow> 'f Reader \<Rightarrow> 'f Reader" where
  "ReportCorruption n reason r = ReportDrop n (Corruption reason []) r"

definition SkipToInitialBlock :: "'f SequentialFile \<Rightarrow> 'f Reader \<Rightarrow> bool \<times> 'f Reader" where
  "SkipToInitialBlock F r =
     (let offset_in_block = initial_offset r mod of_nat kBlockSize;
          block_start_location = initial_offset r - offset_in_block;
          block_start_location =
            (if of_nat kBlockSize - 6 < offset_in_block then block_start_location + of_nat kBlockSize
             else block_start_location);
          r = r\<lparr>end_of_buffer_offset := block_start_location\<rparr> in
      if 0 < block_start_location then
        case sf_Skip F block_start_location (log_file r) of (skip_status, f) \<Rightarrow>
          let r = r\<lparr>log_file := f\<rparr> in
          if \<not> status_ok skip_status then (False, ReportDrop block_start_location skip_status r) else (True, r)
      else (True, r))"

text \<open>
  Refilling the buffer: whether the loop goes on, or the end is returned.
\<close>

definition refill :: "'f SequentialFile \<Rightarrow> 'f Reader \<Rightarrow> bool \<times> 'f Reader" where
  "refill F r =
     (let r = r\<lparr>buffer := []\<rparr>;
          ((status, result), f) = sf_Read F kBlockSize (log_file r);
          r = r\<lparr>log_file := f, buffer := result, end_of_buffer_offset := end_of_buffer_offset r + of_nat (length result)\<rparr> in
      if \<not> status_ok status then
        (False, (ReportDrop (of_nat kBlockSize) status (r\<lparr>buffer := []\<rparr>))\<lparr>eof := True\<rparr>)
      else (True, if length (buffer r) < kBlockSize then r\<lparr>eof := True\<rparr> else r))"

text \<open>
  The part after the header is complete: the type, \<open>*result\<close> and the reader. The header's type
  byte is a signed \<open>char\<close> widened to \<open>unsigned int\<close>. The header and the payload are read through
  bare pointers into the buffer: \<open>bytes_at\<close> is such a read of \<open>n\<close> bytes at offset \<open>i\<close>, and a read
  that leaves the buffer is \<open>None\<close>, so \<open>parse_physical\<close> fails on one.
\<close>

definition bytes_at :: "slice \<Rightarrow> nat \<Rightarrow> nat \<Rightarrow> slice option" where
  "bytes_at s i n = (if i + n \<le> length s then Some (take n (drop i s)) else None)"

definition parse_physical ::
  "machine \<Rightarrow> slice \<Rightarrow> 'f Reader \<Rightarrow> (u32 \<times> slice \<times> 'f Reader) option" where
  "parse_physical M result r =
     (let header = buffer r in
      Option.bind (bytes_at header 4 3) (\<lambda>h.
      let a = ucast (h ! 0) AND 0xff :: u32; b = ucast (h ! 1) AND 0xff :: u32;
          type = scast (h ! 2) :: u32;
          n = a OR push_bit 8 b in
      if kHeaderSize + unat n > length (buffer r) then
        let drop_size = buffer_size r; r = r\<lparr>buffer := []\<rparr> in
        if \<not> eof r then Some (kBadRecord, result, ReportCorruption drop_size (bytes_of ''bad record length'') r)
        else Some (kEof, result, r)
      else if type = of_nat (type_value kZeroType) \<and> n = 0 then Some (kBadRecord, result, r\<lparr>buffer := []\<rparr>)
      else
        case (if checksum r then
                Option.bind (DecodeFixed32 (little M) header) (\<lambda>stored.
                Option.bind (bytes_at header 6 (1 + unat n)) (\<lambda>bytes.
                map_option (\<lambda>actual_crc. actual_crc = Unmask stored) (crc_extend M 0 bytes)))
              else Some True) of
          None \<Rightarrow> None
        | Some False \<Rightarrow>
            let drop_size = buffer_size r; r = r\<lparr>buffer := []\<rparr> in
            Some (kBadRecord, result, ReportCorruption drop_size (bytes_of ''checksum mismatch'') r)
        | Some True \<Rightarrow>
            Option.bind (remove_prefix (kHeaderSize + unat n) header) (\<lambda>rest.
            let r = r\<lparr>buffer := rest\<rparr> in
            if end_of_buffer_offset r - buffer_size r - of_nat kHeaderSize - ucast n < initial_offset r
            then Some (kBadRecord, [], r)
            else map_option (\<lambda>payload. (type, payload, r)) (bytes_at header kHeaderSize (unat n)))))"

text \<open>
  The loop reads at most once: afterwards the buffer holds a whole block or \<open>eof_\<close> is set.
\<close>

definition after_read ::
  "machine \<Rightarrow> slice \<Rightarrow> 'f Reader \<Rightarrow> (u32 \<times> slice \<times> 'f Reader) option" where
  "after_read M result r =
     (if length (buffer r) < kHeaderSize then Some (kEof, result, r\<lparr>buffer := []\<rparr>)
      else parse_physical M result r)"

definition ReadPhysicalRecord ::
  "machine \<Rightarrow> 'f SequentialFile \<Rightarrow> slice \<Rightarrow> 'f Reader \<Rightarrow> (u32 \<times> slice \<times> 'f Reader) option" where
  "ReadPhysicalRecord M F result r =
     (if length (buffer r) < kHeaderSize \<and> \<not> eof r then
        (case refill F r of
           (True, r) \<Rightarrow> after_read M result r
         | (False, r) \<Rightarrow> Some (kEof, result, r))
      else after_read M result r)"

text \<open>
  The local variables of \<open>ReadRecord\<close>, and what one round of its loop does: go on, or return.
\<close>

record read_vars =
  scratch :: "byte list"
  fragment :: slice
  in_fragmented_record :: bool
  prospective_record_offset :: u64

datatype 'f read_result = Continue read_vars "'f Reader" | Return "slice option" "'f Reader"

definition partial_record :: "byte list \<Rightarrow> read_vars \<Rightarrow> 'f Reader \<Rightarrow> read_vars \<times> 'f Reader" where
  "partial_record reason v r =
     (if in_fragmented_record v then
        if scratch v = [] then (v\<lparr>in_fragmented_record := False\<rparr>, r)
        else (v, ReportCorruption (of_nat (length (scratch v))) reason r)
      else (v, r))"

definition dispatch :: "u32 \<Rightarrow> u64 \<Rightarrow> read_vars \<Rightarrow> 'f Reader \<Rightarrow> 'f read_result" where
  "dispatch record_type physical_record_offset v r =
     (if record_type = of_nat (type_value kFullType) then
        case partial_record (bytes_of ''partial record without end(1)'') v r of (v, r) \<Rightarrow>
          Return (Some (fragment v)) (r\<lparr>last_record_offset := physical_record_offset\<rparr>)
      else if record_type = of_nat (type_value kFirstType) then
        case partial_record (bytes_of ''partial record without end(2)'') v r of (v, r) \<Rightarrow>
          Continue (v\<lparr>prospective_record_offset := physical_record_offset, scratch := fragment v,
            in_fragmented_record := True\<rparr>) r
      else if record_type = of_nat (type_value kMiddleType) then
        (if \<not> in_fragmented_record v then
           Continue v (ReportCorruption (of_nat (length (fragment v)))
             (bytes_of ''missing start of fragmented record(1)'') r)
         else Continue (v\<lparr>scratch := scratch v @ fragment v\<rparr>) r)
      else if record_type = of_nat (type_value kLastType) then
        (if \<not> in_fragmented_record v then
           Continue v (ReportCorruption (of_nat (length (fragment v)))
             (bytes_of ''missing start of fragmented record(2)'') r)
         else Return (Some (scratch v @ fragment v)) (r\<lparr>last_record_offset := prospective_record_offset v\<rparr>))
      else if record_type = kEof then Return None r
      else if record_type = kBadRecord then
        (if in_fragmented_record v then
           Continue (v\<lparr>in_fragmented_record := False, scratch := []\<rparr>)
             (ReportCorruption (of_nat (length (scratch v))) (bytes_of ''error in middle of record'') r)
         else Continue v r)
      else
        Continue (v\<lparr>in_fragmented_record := False, scratch := []\<rparr>)
          (ReportCorruption
            (of_nat (length (fragment v) + (if in_fragmented_record v then length (scratch v) else 0)))
            (bytes_of ''unknown record type '' @ decimal (unat record_type)) r))"

definition ReadRecord_step ::
  "machine \<Rightarrow> 'f SequentialFile \<Rightarrow> read_vars \<Rightarrow> 'f Reader \<Rightarrow> 'f read_result option" where
  "ReadRecord_step M F v r =
     (case ReadPhysicalRecord M F (fragment v) r of None \<Rightarrow> None
      | Some (record_type, result, r) \<Rightarrow>
          let v = v\<lparr>fragment := result\<rparr>;
              physical_record_offset = end_of_buffer_offset r - buffer_size r - of_nat kHeaderSize
                - of_nat (length result) in
          if resyncing r then
            if record_type = of_nat (type_value kMiddleType) then Some (Continue v r)
            else if record_type = of_nat (type_value kLastType) then Some (Continue v (r\<lparr>resyncing := False\<rparr>))
            else Some (dispatch record_type physical_record_offset v (r\<lparr>resyncing := False\<rparr>))
          else Some (dispatch record_type physical_record_offset v r))"

text \<open>The loop ends only if the file does, so not returning is a possible value.\<close>

partial_function (option) ReadRecord_loop ::
  "machine \<Rightarrow> 'f SequentialFile \<Rightarrow> read_vars \<Rightarrow> 'f Reader \<Rightarrow> (slice option \<times> 'f Reader) option" where
  "ReadRecord_loop M F v r =
     (case ReadRecord_step M F v r of None \<Rightarrow> None
      | Some (Continue v' r') \<Rightarrow> ReadRecord_loop M F v' r'
      | Some (Return record r') \<Rightarrow> Some (record, r'))"

definition read_vars_0 :: read_vars where
  "read_vars_0 = \<lparr>scratch = [], fragment = [], in_fragmented_record = False, prospective_record_offset = 0\<rparr>"

definition ReadRecord ::
  "machine \<Rightarrow> 'f SequentialFile \<Rightarrow> 'f Reader \<Rightarrow> (slice option \<times> 'f Reader) option" where
  "ReadRecord M F r =
     (if last_record_offset r < initial_offset r then
        case SkipToInitialBlock F r of (ok, r) \<Rightarrow>
          if \<not> ok then Some (None, r) else ReadRecord_loop M F read_vars_0 r
      else ReadRecord_loop M F read_vars_0 r)"

definition LastRecordOffset :: "'f Reader \<Rightarrow> u64" where
  "LastRecordOffset r = last_record_offset r"

end
