(* ===== verification/Ldb_Log_Format.thy ===== *)
theory Ldb_Log_Format
  imports Ldb_Log
begin

text \<open>
  What the log writer puts into a file, as a function of the offset in the block and the record
  (\<open>record_layout\<close>), and the proofs that \<open>AddRecord\<close> appends exactly that and that the reader,
  going through a file that was written so and possibly cut off at any byte, returns exactly the
  whole records and reports nothing.
\<close>

section \<open>Layout\<close>

definition fragment_bytes :: "RecordType \<Rightarrow> slice \<Rightarrow> byte list" where
  "fragment_bytes t p =
     le_bytes 4 (unat (Mask (crc32c 0 (of_nat (type_value t) # p)))) @
     [of_nat (length p) AND 0xff, of_nat (length p div 256), of_nat (type_value t)] @ p"

lemma length_fragment_bytes [simp]: "length (fragment_bytes t p) = 7 + length p"
  by (simp add: fragment_bytes_def)

text \<open>The zero bytes before the next fragment, and the offset at which it starts.\<close>

definition trailer_of :: "nat \<Rightarrow> nat" where
  "trailer_of off = (if 32768 - off < 7 then 32768 - off else 0)"

definition start_of :: "nat \<Rightarrow> nat" where
  "start_of off = (if 32768 - off < 7 then 0 else off)"

lemma start_of_le: "start_of off + 7 \<le> 32768"
  by (auto simp: start_of_def)

text \<open>The block in which the next fragment starts.\<close>

definition base_of :: "nat \<Rightarrow> nat \<Rightarrow> nat" where
  "base_of base off = (if 32768 - off < 7 then base + 32768 else base)"

text \<open>The bytes of a record and the offset after it.\<close>

function record_layout :: "nat \<Rightarrow> bool \<Rightarrow> slice \<Rightarrow> byte list \<times> nat" where
  "record_layout off first p =
     (let avail = 32768 - start_of off - 7; zeros = replicate (trailer_of off) 0 in
      if length p \<le> avail
      then (zeros @ fragment_bytes (fragment_type first True) p, start_of off + 7 + length p)
      else let (bs, off') = record_layout 32768 False (drop avail p) in
        (zeros @ fragment_bytes (fragment_type first False) (take avail p) @ bs, off'))"
  by pat_completeness auto
termination
  by (relation "measure (\<lambda>(off, first, p). 2 * length p + (if off = 32761 then 1 else 0))")
    (auto simp: start_of_def)

declare record_layout.simps [simp del]

fun log_layout :: "nat \<Rightarrow> slice list \<Rightarrow> byte list \<times> nat" where
  "log_layout off [] = ([], off)"
| "log_layout off (s # ss) =
     (let (bs, off') = record_layout off True s; (cs, off'') = log_layout off' ss in (bs @ cs, off''))"

lemma record_layout_offset:
  "record_layout off first p = (bs, off') \<Longrightarrow> 7 \<le> off' \<and> off' \<le> 32768"
proof (induction off first p arbitrary: bs off' rule: record_layout.induct)
  case (1 off first p)
  let ?avail = "32768 - start_of off - 7"
  have start: "start_of off + 7 \<le> 32768" by (rule start_of_le)
  show ?case
  proof (cases "length p \<le> ?avail")
    case True
    with 1(2) start show ?thesis by (subst (asm) record_layout.simps) (auto simp: Let_def)
  next
    case False
    obtain cs where "record_layout 32768 False (drop ?avail p) = (cs, off')"
      using 1(2) False by (subst (asm) record_layout.simps) (auto simp: Let_def split: prod.splits)
    from 1(1) [OF refl refl False this] show ?thesis .
  qed
qed

section \<open>The writer appends the layout\<close>

lemma InitTypeCrc_value:
  "InitTypeCrc M = Some (map (\<lambda>i. crc32c 0 [of_nat i]) [0..<5])"
proof -
  have "InitTypeCrc_loop M n = Some (map (\<lambda>i. crc32c 0 [of_nat i]) [0..<n])" for n
    by (induction n) simp_all
  then show ?thesis by (simp add: InitTypeCrc_def kMaxRecordType_def)
qed

definition crc_table_ok :: "'f Writer \<Rightarrow> bool" where
  "crc_table_ok w \<longleftrightarrow> type_crc w = map (\<lambda>i. crc32c 0 [of_nat i]) [0..<5]"

lemma type_crc_nth: "crc_table_ok w \<Longrightarrow> type_crc w ! type_value t = crc32c 0 [of_nat (type_value t)]"
  by (cases t) (simp_all add: crc_table_ok_def upt_rec)

lemma header_bytes:
  assumes "crc_table_ok w"
  shows "EncodeFixed32 l (Mask (crc32c (type_crc w ! type_value t) p)) @
      [of_nat (length p) AND 0xff, of_nat (length p div 256), of_nat (type_value t)] @ p = fragment_bytes t p"
  using crc32c_append [of 0 "[of_nat (type_value t)]" p]
  by (simp add: fragment_bytes_def EncodeFixed32_bytes type_crc_nth [OF assms])

context writable_file
begin

lemma Emit_appends:
  assumes "crc_table_ok w" and "block_offset w = int off" and "off + 7 + length p \<le> 32768"
    and "room (dest w) (7 + length p + n)"
  shows "\<exists>f. EmitPhysicalRecord M F t p w = Some (Status_OK, w\<lparr>dest := f, block_offset := int (off + 7 + length p)\<rparr>) \<and>
    room f n \<and> written f = written (dest w) @ fragment_bytes t p"
proof -
  let ?h = "EncodeFixed32 (little M) (Mask (crc32c (type_crc w ! type_value t) p)) @
      [of_nat (length p) AND 0xff, of_nat (length p div 256), of_nat (type_value t)]"
  from assms(4) obtain f1 where f1: "wf_Append F ?h (dest w) = (Status_OK, f1)" "room f1 (length p + n)"
    "written f1 = written (dest w) @ ?h"
    using Append [of "dest w" ?h "length p + n"] by (auto simp: add.assoc)
  from Append [OF f1(2)] obtain f2 where f2: "wf_Append F p f1 = (Status_OK, f2)" "room f2 n"
    "written f2 = written f1 @ p" by blast
  from Flush [OF f2(2)] obtain f3 where f3: "wf_Flush F f2 = (Status_OK, f3)" "room f3 n"
    "written f3 = written f2" by blast
  have "written f3 = written (dest w) @ fragment_bytes t p"
    using f1(3) f2(3) f3(3) header_bytes [OF assms(1), where l = "little M" and t = t and p = p] by simp
  with f1(1) f2(1) f3(1,2) assms(2,3) show ?thesis
    by (intro exI [of _ f3]) (simp add: EmitPhysicalRecord_def Let_def kHeaderSize_def kBlockSize_def)
qed

lemma AddRecord_loop_appends:
  assumes "record_layout off first p = (bs, off')" and "crc_table_ok w" and "block_offset w = int off"
    and "off \<le> 32768" and "room (dest w) (length bs + n)"
  shows "\<exists>f. AddRecord_loop M F first p w = Some (Status_OK, w\<lparr>dest := f, block_offset := int off'\<rparr>) \<and>
    room f n \<and> written f = written (dest w) @ bs"
  using assms
proof (induction off first p arbitrary: w bs off' rule: record_layout.induct)
  case (1 off first p)
  let ?avail = "32768 - start_of off - 7" and ?zeros = "replicate (trailer_of off) (0 :: byte)"
  have start: "start_of off + 7 \<le> 32768" by (rule start_of_le)
  have av: "nat (int kBlockSize - int (start_of off) - int kHeaderSize) = ?avail"
    using start by (simp add: kBlockSize_def kHeaderSize_def)
  obtain rest where bs: "bs = ?zeros @ rest"
    using 1(2) by (subst (asm) record_layout.simps) (auto simp: Let_def split: if_splits prod.splits)
  then have room1: "room (dest w) (trailer_of off + (length rest + n))" using 1(6) by (simp add: add.assoc)
  obtain f1 where start_block: "start_block F w = w\<lparr>dest := f1, block_offset := int (start_of off)\<rparr>"
    and f1: "room f1 (length rest + n)" "written f1 = written (dest w) @ ?zeros"
  proof (cases "0 < trailer_of off")
    case True
    then have t: "trailer_of off = 32768 - off" "start_of off = 0" "off < 32768" "32768 - off < 7"
      by (auto simp: trailer_of_def start_of_def split: if_splits)
    from Append [of "dest w" ?zeros "length rest + n"] room1 obtain f1 where
      "wf_Append F ?zeros (dest w) = (Status_OK, f1)" "room f1 (length rest + n)" "written f1 = written (dest w) @ ?zeros"
      by auto
    moreover from this(1) have "start_block F w = w\<lparr>dest := f1, block_offset := int (start_of off)\<rparr>"
      using t 1(4) by (simp add: start_block_def Let_def kBlockSize_def kHeaderSize_def nat_diff_distrib)
    ultimately show ?thesis using that by blast
  next
    case False
    then have "start_block F w = w\<lparr>dest := dest w, block_offset := int (start_of off)\<rparr>"
      using 1(4,5) by (auto simp: start_block_def Let_def kBlockSize_def kHeaderSize_def trailer_of_def start_of_def
          split: if_splits)
    with False that [of "dest w"] room1 show ?thesis by simp
  qed
  define w1 where "w1 = w\<lparr>dest := f1, block_offset := int (start_of off)\<rparr>"
  have sb: "start_block F w = w1" by (simp only: start_block w1_def)
  have bounds: "\<not> int kBlockSize - block_offset w < 0" "\<not> int kBlockSize - block_offset w1 - int kHeaderSize < 0"
    using 1(4,5) start by (simp_all add: kBlockSize_def kHeaderSize_def w1_def)
  have w1: "crc_table_ok w1" "block_offset w1 = int (start_of off)" "dest w1 = f1"
    using 1(3) by (simp_all add: w1_def crc_table_ok_def)
  show ?case
  proof (cases "length p \<le> ?avail")
    case True
    then have bs': "rest = fragment_bytes (fragment_type first True) p" "off' = start_of off + 7 + length p"
      using 1(2) bs by (subst (asm) record_layout.simps, simp)+
    have "start_of off + 7 + length p \<le> 32768" using True start by linarith
    with Emit_appends [OF w1(1,2) this, of n M "fragment_type first True"] f1(1) obtain f2 where f2:
      "EmitPhysicalRecord M F (fragment_type first True) p w1 = Some (Status_OK, w1\<lparr>dest := f2, block_offset := int off'\<rparr>)"
      "room f2 n" "written f2 = written f1 @ rest" by (auto simp: w1(3) bs')
    have "AddRecord_step M F first p w = Some (Status_OK, [], w\<lparr>dest := f2, block_offset := int off'\<rparr>)"
      using f2(1) True bounds
      by (simp add: AddRecord_step_def Let_def sb w1(2) av) (simp add: w1_def)
    with f2 f1 bs show ?thesis by (subst AddRecord_loop.simps) (intro exI [of _ f2], simp)
  next
    case False
    obtain cs where cs: "record_layout 32768 False (drop ?avail p) = (cs, off')"
      and rest: "rest = fragment_bytes (fragment_type first False) (take ?avail p) @ cs"
      using 1(2) bs False by (subst (asm) record_layout.simps) (auto simp: Let_def split: prod.splits)
    have len: "length (take ?avail p) = ?avail" using False by simp
    have "start_of off + 7 + length (take ?avail p) \<le> 32768" using start len by linarith
    with Emit_appends [OF w1(1,2) this, of "length cs + n" M "fragment_type first False"] f1(1) obtain f2 where f2:
      "EmitPhysicalRecord M F (fragment_type first False) (take ?avail p) w1 =
        Some (Status_OK, w1\<lparr>dest := f2, block_offset := int 32768\<rparr>)"
      "room f2 (length cs + n)" "written f2 = written f1 @ fragment_bytes (fragment_type first False) (take ?avail p)"
      using start len by (auto simp: w1(3) rest add.assoc)
    define w2 where "w2 = w\<lparr>dest := f2, block_offset := int 32768\<rparr>"
    have step: "AddRecord_step M F first p w = Some (Status_OK, drop ?avail p, w2)"
      using f2(1) False bounds
      by (simp add: AddRecord_step_def Let_def sb w1(2) av) (simp add: w1_def w2_def)
    have "crc_table_ok w2" "block_offset w2 = int 32768" "room (dest w2) (length cs + n)"
      using 1(3) f2(2) by (simp_all add: w2_def crc_table_ok_def)
    from 1(1) [OF refl refl False cs this(1,2) order_refl this(3)] obtain f3 where f3:
      "AddRecord_loop M F False (drop ?avail p) w2 = Some (Status_OK, w2\<lparr>dest := f3, block_offset := int off'\<rparr>)"
      "room f3 n" "written f3 = written (dest w2) @ cs" by blast
    have "AddRecord_loop M F first p w = AddRecord_loop M F False (drop ?avail p) w2"
      using step False by (subst AddRecord_loop.simps) simp
    with f3 f2 f1 bs rest show ?thesis by (auto simp: w2_def)
  qed
qed

lemma AddRecord_appends:
  assumes "record_layout off True s = (bs, off')" and "crc_table_ok w" and "block_offset w = int off"
    and "off \<le> 32768" and "room (dest w) (length bs + n)"
  shows "\<exists>f. AddRecord M F s w = Some (Status_OK, w\<lparr>dest := f, block_offset := int off'\<rparr>) \<and>
    room f n \<and> written f = written (dest w) @ bs"
  unfolding AddRecord_def using assms by (rule AddRecord_loop_appends)

end

text \<open>Several records in a row.\<close>

fun AddRecords ::
  "machine \<Rightarrow> 'f WritableFile \<Rightarrow> slice list \<Rightarrow> 'f Writer \<Rightarrow> (status \<times> 'f Writer) option" where
  "AddRecords M F [] w = Some (Status_OK, w)"
| "AddRecords M F (s # ss) w =
     (case AddRecord M F s w of None \<Rightarrow> None
      | Some (st, w') \<Rightarrow> if status_ok st then AddRecords M F ss w' else Some (st, w'))"

context writable_file
begin

lemma AddRecords_appends:
  assumes "log_layout off ss = (bs, off')" and "crc_table_ok w" and "block_offset w = int off"
    and "off \<le> 32768" and "room (dest w) (length bs + n)"
  shows "\<exists>f. AddRecords M F ss w = Some (Status_OK, w\<lparr>dest := f, block_offset := int off'\<rparr>) \<and>
    room f n \<and> written f = written (dest w) @ bs"
  using assms
proof (induction ss arbitrary: off bs w)
  case Nil
  then show ?case by (auto intro: exI [of _ "dest w"])
next
  case (Cons s ss)
  obtain b1 o1 where b1: "record_layout off True s = (b1, o1)" by fastforce
  obtain b2 o2 where b2: "log_layout o1 ss = (b2, o2)" by fastforce
  with Cons.prems(1) b1 have bs: "bs = b1 @ b2" "off' = o2" by auto
  from AddRecord_appends [OF b1 Cons.prems(2-4), of "length b2 + n" M] Cons.prems(5) bs obtain f where f:
    "AddRecord M F s w = Some (Status_OK, w\<lparr>dest := f, block_offset := int o1\<rparr>)" "room f (length b2 + n)"
    "written f = written (dest w) @ b1" by (auto simp: add.assoc)
  define w1 where "w1 = w\<lparr>dest := f, block_offset := int o1\<rparr>"
  have "crc_table_ok w1" "block_offset w1 = int o1" "o1 \<le> 32768" "room (dest w1) (length b2 + n)"
    using Cons.prems(2) f(2) record_layout_offset [OF b1] by (simp_all add: w1_def crc_table_ok_def)
  from Cons.IH [OF b2 [folded bs(2)] this] obtain f2 where
    "AddRecords M F ss w1 = Some (Status_OK, w1\<lparr>dest := f2, block_offset := int off'\<rparr>)" "room f2 n"
    "written f2 = written (dest w1) @ b2" by blast
  with f bs show ?case by (intro exI [of _ f2]) (simp add: w1_def)
qed

end

section \<open>The reader at a place in a file\<close>

text \<open>
  The reader stands \<open>off\<close> bytes into the block that starts at \<open>base\<close> of the file's bytes \<open>D\<close>; before
  the first read it has read nothing. No initial offset is set.
\<close>

context sequential_file
begin

definition loaded :: "byte list \<Rightarrow> nat \<Rightarrow> nat \<Rightarrow> 'f Reader \<Rightarrow> bool" where
  "loaded D base off r \<longleftrightarrow> good (log_file r) \<and> initial_offset r = 0 \<and> \<not> resyncing r \<and> off \<le> 32768 \<and>
     buffer r = drop off (take 32768 (drop base D)) \<and> unread (log_file r) = drop (base + 32768) D \<and>
     (eof r \<longleftrightarrow> length D < base + 32768)"

definition reader_at :: "byte list \<Rightarrow> nat \<Rightarrow> nat \<Rightarrow> 'f Reader \<Rightarrow> bool" where
  "reader_at D base off r \<longleftrightarrow>
     (if off = 0 then good (log_file r) \<and> initial_offset r = 0 \<and> \<not> resyncing r \<and> buffer r = [] \<and>
        unread (log_file r) = drop base D \<and> \<not> eof r
      else loaded D base off r)"

lemma refill_loads:
  assumes "reader_at D base off r" and "\<not> eof r" and "base' = (if off = 0 then base else base + 32768)"
  shows "\<exists>r'. refill F r = (True, r') \<and> loaded D base' 0 r' \<and> reporter r' = reporter r"
proof -
  have g: "good (log_file r)" "initial_offset r = 0" "\<not> resyncing r" and u: "unread (log_file r) = drop base' D"
    using assms by (auto simp: reader_at_def loaded_def split: if_splits)
  from Read [OF g(1), of kBlockSize] u obtain f' where
    f': "sf_Read F kBlockSize (log_file r) = ((Status_OK, take kBlockSize (drop base' D)), f')" "good f'"
      "unread f' = drop kBlockSize (drop base' D)" by auto
  then show ?thesis
    using g assms(2) by (auto simp: refill_def Let_def loaded_def kBlockSize_def add.commute min_def)
qed

section \<open>One fragment\<close>

lemma header_length:
  assumes "n < 65536"
  shows "unat (ucast (of_nat n AND 0xff :: byte) AND 0xff OR push_bit 8 (ucast (of_nat (n div 256) :: byte) AND 0xff) :: u32) = n"
proof -
  have u: "unat (of_nat n AND 0xff :: byte) = n mod 256"
    by (simp add: unat_and_mask8 unsigned_of_nat take_bit_eq_mod)
  have v: "unat (of_nat (n div 256) :: byte) = n div 256"
    using assms by (simp add: unsigned_of_nat take_bit_nat_eq_self less_mult_imp_div_less)
  let ?a = "ucast (of_nat n AND 0xff :: byte) AND 0xff :: u32" and ?b = "ucast (of_nat (n div 256) :: byte) AND 0xff :: u32"
  have a: "unat ?a = n mod 256" by (simp add: unat_and_mask8 unat_ucast_up unsigned_of_nat take_bit_eq_mod)
  have b: "unat ?b = n div 256" using assms by (simp add: unat_and_mask8 unat_ucast_up v less_mult_imp_div_less)
  have pb: "unat (push_bit 8 ?b) = n div 256 * 256"
    using assms by (subst unat_push_bit) (simp_all add: b)
  have "unat (?a OR push_bit 8 ?b) = unat ?a + unat (push_bit 8 ?b)"
    by (rule unat_or_disjoint [of _ 8]) (simp_all only: a pb, simp_all)
  then show ?thesis by (simp only: a pb) simp
qed

lemma fragment_header:
  assumes "length p < 65536"
  shows "unat (ucast ((fragment_bytes t p @ q) ! 4) AND 0xff OR
      push_bit 8 (ucast ((fragment_bytes t p @ q) ! 5) AND 0xff) :: u32) = length p"
    and "(scast ((fragment_bytes t p @ q) ! 6) :: u32) = of_nat (type_value t)"
    and "DecodeFixed32 l (fragment_bytes t p @ q) = Some (Mask (crc32c 0 (of_nat (type_value t) # p)))"
    and "take (Suc (length p)) (drop 6 (fragment_bytes t p @ q)) = of_nat (type_value t) # p"
    and "take (length p) (drop 7 (fragment_bytes t p @ q)) = p"
    and "drop (7 + length p) (fragment_bytes t p @ q) = q"
proof -
  let ?c = "le_bytes 4 (unat (Mask (crc32c 0 (of_nat (type_value t) # p))))"
  have f: "fragment_bytes t p @ q = ?c @ (of_nat (length p) AND 0xff) # of_nat (length p div 256) #
      of_nat (type_value t) # p @ q" by (simp add: fragment_bytes_def)
  have l: "length ?c = 4" by simp
  show "unat (ucast ((fragment_bytes t p @ q) ! 4) AND 0xff OR
      push_bit 8 (ucast ((fragment_bytes t p @ q) ! 5) AND 0xff) :: u32) = length p"
    unfolding f using header_length [OF assms] l by (simp add: nth_append del: le_bytes.simps)
  have "(scast (of_nat (type_value t) :: byte) :: u32) = of_nat (type_value t)" by (cases t) simp_all
  then show "(scast ((fragment_bytes t p @ q) ! 6) :: u32) = of_nat (type_value t)"
    unfolding f using l by (simp add: nth_append del: le_bytes.simps)
  show "DecodeFixed32 l (fragment_bytes t p @ q) = Some (Mask (crc32c 0 (of_nat (type_value t) # p)))"
    unfolding f EncodeFixed32_bytes [of l, symmetric] by (rule Decode_Encode_Fixed32)
  show "take (Suc (length p)) (drop 6 (fragment_bytes t p @ q)) = of_nat (type_value t) # p"
    unfolding f using l by (simp add: drop_append)
  show "take (length p) (drop 7 (fragment_bytes t p @ q)) = p"
    unfolding f using l by (simp add: drop_append)
  show "drop (7 + length p) (fragment_bytes t p @ q) = q" by simp
qed

lemma parse_fragment:
  assumes "buffer r = fragment_bytes t p @ q" and "length p < 65536" and "t \<noteq> kZeroType" and "initial_offset r = 0"
  shows "parse_physical M res r = Some (of_nat (type_value t), p, r\<lparr>buffer := q\<rparr>)"
proof -
  note h = fragment_header [OF assms(2), where t = t and q = q, folded assms(1)]
  have t: "(of_nat (type_value t) :: u32) \<noteq> 0" using assms(3) by (cases t) simp_all
  have len: "length (buffer r) = 7 + length p + length q" by (simp add: assms(1))
  show ?thesis
    using h t len assms(4)
    by (simp add: parse_physical_def Let_def kHeaderSize_def Unmask_Mask add.commute bytes_at_def remove_prefix_def)
qed

lemma reach_fragment:
  assumes r: "reader_at D base off r" and off: "off \<le> 32768"
    and D: "base_of base off + start_of off + k = length D" and k: "0 < k \<or> off < 32762 \<or> base + 32768 \<le> length D"
  shows "\<exists>r'. ReadPhysicalRecord M F res r = after_read M res r' \<and>
    loaded D (base_of base off) (start_of off) r' \<and> reporter r' = reporter r"
proof -
  have cases: "off = 0 \<or> 0 < off \<and> off < 32762 \<and> loaded D base off r \<or>
      0 < off \<and> 32762 \<le> off \<and> loaded D base off r \<and> base + 32768 \<le> length D"
    using r off D k by (auto simp: reader_at_def base_of_def start_of_def split: if_splits)
  then consider "off = 0" | "0 < off" "off < 32762" "loaded D base off r"
    | "0 < off" "32762 \<le> off" "loaded D base off r" "base + 32768 \<le> length D" by blast
  then show ?thesis
  proof cases
    case 1
    then have "\<not> eof r" "length (buffer r) < kHeaderSize" using r by (simp_all add: reader_at_def kHeaderSize_def)
    moreover from refill_loads [OF r this(1) refl] 1 obtain r' where
      "refill F r = (True, r')" "loaded D base 0 r'" "reporter r' = reporter r" by auto
    ultimately show ?thesis using 1 by (auto simp: ReadPhysicalRecord_def base_of_def start_of_def)
  next
    case 2
    have same: "base_of base off = base" "start_of off = off" using 2 by (auto simp: base_of_def start_of_def)
    show ?thesis
    proof (cases "length (buffer r) < kHeaderSize \<and> \<not> eof r")
      case True
      then have "base + 32768 \<le> length D" using 2(3) by (simp add: loaded_def)
      then have "length (buffer r) = 32768 - off" using 2(3) by (simp add: loaded_def)
      with True 2(1,2) have False unfolding kHeaderSize_def by linarith
      then show ?thesis ..
    next
      case False
      then have "ReadPhysicalRecord M F res r = after_read M res r"
        unfolding ReadPhysicalRecord_def by (rule if_not_P)
      then show ?thesis using 2(3) by (intro exI [of _ r]) (simp add: same)
    qed
  next
    case 3
    have e: "\<not> eof r" "length (buffer r) < kHeaderSize" using 3 by (simp_all add: loaded_def kHeaderSize_def)
    moreover from refill_loads [OF r this(1) refl] 3 obtain r' where
      "refill F r = (True, r')" "loaded D (base + 32768) 0 r'" "reporter r' = reporter r" by auto
    ultimately show ?thesis using 3 by (auto simp: ReadPhysicalRecord_def base_of_def start_of_def)
  qed
qed

lemma loaded_buffer: "loaded D b s r \<Longrightarrow> buffer r = take (32768 - s) (drop (b + s) D)"
  by (simp add: loaded_def drop_take add.commute)

lemma read_fragment:
  assumes r: "reader_at D base off r" and off: "off \<le> 32768"
    and D: "drop (base + off) D = replicate (trailer_of off) 0 @ fragment_bytes t p @ post"
    and len: "start_of off + 7 + length p \<le> 32768" and t: "t \<noteq> kZeroType"
  shows "\<exists>r'. ReadPhysicalRecord M F res r = Some (of_nat (type_value t), p, r') \<and>
    reader_at D (base_of base off) (start_of off + 7 + length p) r' \<and> reporter r' = reporter r"
proof -
  let ?b = "base_of base off" and ?s = "start_of off"
  have pos: "?b + ?s = base + off + trailer_of off"
    using off by (auto simp: base_of_def start_of_def trailer_of_def)
  have at: "drop (?b + ?s) D = fragment_bytes t p @ post"
  proof -
    have "drop (?b + ?s) D = drop (trailer_of off) (drop (base + off) D)" unfolding pos drop_drop by (rule arg_cong [where f = "\<lambda>n. drop n D"]) simp
    then show ?thesis by (simp add: D)
  qed
  have "length (drop (?b + ?s) D) = 7 + length p + length post" by (simp add: at)
  then have "?b + ?s + (7 + length p + length post) = length D" by simp
  from reach_fragment [OF r off this] obtain r1 where r1:
    "ReadPhysicalRecord M F res r = after_read M res r1" "loaded D ?b ?s r1" "reporter r1 = reporter r" by auto
  define q where "q = take (32768 - (?s + 7 + length p)) post"
  have buf: "buffer r1 = fragment_bytes t p @ q"
    using len by (simp add: loaded_buffer [OF r1(2)] at q_def)
  have i: "initial_offset r1 = 0" using r1(2) by (simp add: loaded_def)
  have "length p < 65536" using len by linarith
  from parse_fragment [OF buf this t i] have
    "after_read M res r1 = Some (of_nat (type_value t), p, r1\<lparr>buffer := q\<rparr>)"
    by (simp add: after_read_def buf kHeaderSize_def)
  moreover have "drop (7 + length p) (buffer r1) = q" by (simp only: buf length_fragment_bytes [of t p, symmetric] append_eq_conv_conj) simp
  then have "q = drop (?s + 7 + length p) (take 32768 (drop ?b D))"
    using r1(2) by (simp add: loaded_def add.commute add.left_commute)
  then have "reader_at D ?b (?s + 7 + length p) (r1\<lparr>buffer := q\<rparr>)"
    using r1(2) len by (simp add: reader_at_def loaded_def)
  ultimately show ?thesis using r1(1,3) by auto
qed

text \<open>A file that ends inside a fragment, or before it.\<close>

lemma read_torn:
  assumes r: "reader_at D base off r" and off: "off \<le> 32768"
    and D: "drop (base + off) D = take m (replicate (trailer_of off) 0 @ fragment_bytes t p)"
    and m: "m < trailer_of off + 7 + length p" and pos: "base + off \<le> length D"
    and len: "start_of off + 7 + length p \<le> 32768"
  shows "\<exists>r'. ReadPhysicalRecord M F res r = Some (kEof, res, r') \<and> reporter r' = reporter r"
proof -
  let ?b = "base_of base off" and ?s = "start_of off"
  have L: "length D = base + off + m"
  proof -
    have "length (drop (base + off) D) = m" using m by (simp add: D)
    with pos show ?thesis by simp
  qed
  have short: "after_read M res r' = Some (kEof, res, r'\<lparr>buffer := []\<rparr>)"
    if "eof r'" "buffer r' = take j (fragment_bytes t p)" "j < 7 + length p" for r' j
  proof (cases "j < 7")
    case True
    then show ?thesis using that(2) by (simp add: after_read_def kHeaderSize_def)
  next
    case False
    have p: "length p < 65536" using len by linarith
    note h = fragment_header(1) [OF p, where t = t and q = "[]"]
    show ?thesis
      using False that h by (simp add: after_read_def parse_physical_def Let_def kHeaderSize_def bytes_at_def)
  qed
  show ?thesis
  proof (cases "0 < off \<and> 32762 \<le> off \<and> length D < base + 32768")
    case True
    then have l: "loaded D base off r" using r by (simp add: reader_at_def)
    then have "length (buffer r) < kHeaderSize" "eof r" using True by (auto simp: loaded_def kHeaderSize_def)
    then have "ReadPhysicalRecord M F res r = Some (kEof, res, r\<lparr>buffer := []\<rparr>)"
      by (simp add: ReadPhysicalRecord_def after_read_def)
    then show ?thesis by auto
  next
    case False
    have tr: "trailer_of off \<le> m" "?b + ?s = base + off + trailer_of off"
      using False L off by (auto simp: trailer_of_def base_of_def start_of_def split: if_splits)
    then have k: "?b + ?s + (m - trailer_of off) = length D" using L by simp
    have "0 < m - trailer_of off \<or> off < 32762 \<or> base + 32768 \<le> length D" using False by auto
    from reach_fragment [OF r off k this] obtain r1 where r1:
      "ReadPhysicalRecord M F res r = after_read M res r1" "loaded D ?b ?s r1" "reporter r1 = reporter r" by blast
    have "drop (?b + ?s) D = drop (trailer_of off) (drop (base + off) D)" 
      unfolding tr(2) drop_drop by (rule arg_cong [where f = "\<lambda>n. drop n D"]) simp
    also have "\<dots> = take (m - trailer_of off) (fragment_bytes t p)"
      using tr(1) by (simp add: D drop_take min_def)
    finally have "buffer r1 = take (m - trailer_of off) (fragment_bytes t p)"
      using len m by (simp add: loaded_buffer [OF r1(2)] min_def)
    moreover have "eof r1" using r1(2) L m len tr by (auto simp: loaded_def)
    moreover have "m - trailer_of off < 7 + length p" using m tr(1) by simp
    ultimately have "after_read M res r1 = Some (kEof, res, r1\<lparr>buffer := []\<rparr>)" using short by blast
    then show ?thesis using r1(1,3) by simp
  qed
qed

section \<open>One record\<close>

lemma reader_at_resyncing: "reader_at D base off r \<Longrightarrow> \<not> resyncing r"
  by (simp add: reader_at_def loaded_def split: if_splits)

lemma fragment_type_simps [simp]:
  "fragment_type True True = kFullType" "fragment_type True False = kFirstType"
  "fragment_type False True = kLastType" "fragment_type False False = kMiddleType"
  "fragment_type a b \<noteq> kZeroType"
  by (simp_all add: fragment_type_def)

lemma step_fragment:
  assumes r: "reader_at D base off r" and off: "off \<le> 32768"
    and D: "drop (base + off) D = replicate (trailer_of off) 0 @ fragment_bytes (fragment_type first fin) p @ post"
    and len: "start_of off + 7 + length p \<le> 32768" and v: "in_fragmented_record v = (\<not> first)"
  shows "\<exists>r' v'. ReadRecord_step M F v r =
      Some (if fin then Return (Some ((if first then [] else scratch v) @ p)) r' else Continue v' r') \<and>
    (\<not> fin \<longrightarrow> in_fragmented_record v' \<and> scratch v' = (if first then [] else scratch v) @ p) \<and>
    reader_at D (base_of base off) (start_of off + 7 + length p) r' \<and> reporter r' = reporter r"
proof -
  from read_fragment [OF r off D len, of M "fragment v"] obtain r1 where r1:
    "ReadPhysicalRecord M F (fragment v) r = Some (of_nat (type_value (fragment_type first fin)), p, r1)"
    "reader_at D (base_of base off) (start_of off + 7 + length p) r1" "reporter r1 = reporter r" by auto
  have any: "reader_at D b o' (r1\<lparr>last_record_offset := x\<rparr>) = reader_at D b o' r1" for b o' x
    by (simp add: reader_at_def loaded_def)
  have "\<not> resyncing r1" by (rule reader_at_resyncing [OF r1(2)])
  with r1 v show ?thesis
    by (cases first; cases fin) (auto simp: ReadRecord_step_def Let_def dispatch_def partial_record_def any)
qed

lemma step_torn:
  assumes "reader_at D base off r" and "off \<le> 32768"
    and "drop (base + off) D = take m (replicate (trailer_of off) 0 @ fragment_bytes t p)"
    and "m < trailer_of off + 7 + length p" and "base + off \<le> length D"
    and "start_of off + 7 + length p \<le> 32768"
  shows "\<exists>r'. ReadRecord_loop M F v r = Some (None, r') \<and> reporter r' = reporter r"
proof -
  from read_torn [OF assms, of M "fragment v"] obtain r' where r':
    "ReadPhysicalRecord M F (fragment v) r = Some (kEof, fragment v, r')" "reporter r' = reporter r" by blast
  have k: "kEof \<noteq> 1" "kEof \<noteq> 2" "kEof \<noteq> 3" "kEof \<noteq> 4" by (simp_all add: kEof_def kMaxRecordType_def)
  obtain r'' where "ReadRecord_step M F v r = Some (Return None r'')" "reporter r'' = reporter r"
    using r' k by (cases "resyncing r'") (auto simp: ReadRecord_step_def Let_def dispatch_def)
  then show ?thesis by (subst ReadRecord_loop.simps) simp
qed

lemma base_start: "off \<le> 32768 \<Longrightarrow> base_of base off + start_of off = base + off + trailer_of off"
  by (auto simp: base_of_def start_of_def trailer_of_def)

lemma read_record:
  assumes "record_layout off first p = (bs, off')" and "off \<le> 32768" and "reader_at D base off r"
    and "drop (base + off) D = bs @ post" and "in_fragmented_record v = (\<not> first)"
  shows "\<exists>r' base'. ReadRecord_loop M F v r = Some (Some ((if first then [] else scratch v) @ p), r') \<and>
    reader_at D base' off' r' \<and> base' + off' = base + off + length bs \<and> reporter r' = reporter r"
  using assms
proof (induction off first p arbitrary: bs off' base r v rule: record_layout.induct)
  case (1 off first p)
  let ?avail = "32768 - start_of off - 7"
  have start: "start_of off + 7 \<le> 32768" by (rule start_of_le)
  show ?case
  proof (cases "length p \<le> ?avail")
    case True
    then have bs: "bs = replicate (trailer_of off) 0 @ fragment_bytes (fragment_type first True) p"
      and off': "off' = start_of off + 7 + length p"
      using 1(2) by (subst (asm) record_layout.simps, simp)+
    have len: "start_of off + 7 + length p \<le> 32768" using True start by linarith
    have D: "drop (base + off) D = replicate (trailer_of off) 0 @ fragment_bytes (fragment_type first True) p @ post"
      using 1(5) bs by simp
    from step_fragment [OF 1(4,3) D len 1(6), of M] obtain r' where
      "ReadRecord_step M F v r = Some (Return (Some ((if first then [] else scratch v) @ p)) r')"
      "reader_at D (base_of base off) off' r'" "reporter r' = reporter r" by (auto simp: off')
    moreover have "base_of base off + off' = base + off + length bs"
      using base_start [OF 1(3), of base] by (simp add: off' bs)
    ultimately show ?thesis by (subst ReadRecord_loop.simps) (intro exI [of _ r'] exI [of _ "base_of base off"], simp)
  next
    case False
    obtain cs where cs: "record_layout 32768 False (drop ?avail p) = (cs, off')"
      and bs: "bs = replicate (trailer_of off) 0 @ fragment_bytes (fragment_type first False) (take ?avail p) @ cs"
      using 1(2) False by (subst (asm) record_layout.simps) (auto simp: Let_def split: prod.splits)
    have l: "length (take ?avail p) = ?avail" using False by simp
    then have o32: "start_of off + 7 + length (take ?avail p) = 32768" using start by linarith
    have D: "drop (base + off) D = replicate (trailer_of off) 0 @
        fragment_bytes (fragment_type first False) (take ?avail p) @ cs @ post" using 1(5) bs by simp
    from step_fragment [OF 1(4,3) D eq_refl [OF o32] 1(6), of M] obtain r1 v1 where r1:
      "ReadRecord_step M F v r = Some (Continue v1 r1)" "in_fragmented_record v1 = (\<not> False)"
      "scratch v1 = (if first then [] else scratch v) @ take ?avail p"
      "reader_at D (base_of base off) 32768 r1" "reporter r1 = reporter r" unfolding o32 by auto
    have pos: "base_of base off + 32768 = base + off + (trailer_of off + 7 + ?avail)"
      using base_start [OF 1(3), of base] o32 l by simp
    have "drop (base_of base off + 32768) D = drop (trailer_of off + 7 + ?avail) (drop (base + off) D)"
      unfolding pos drop_drop by (rule arg_cong [where f = "\<lambda>n. drop n D"]) simp
    also have "\<dots> = cs @ post" unfolding D using l by simp
    finally have D1: "drop (base_of base off + 32768) D = cs @ post" .
    from 1(1) [OF refl refl False cs order_refl r1(4) D1 r1(2)] obtain r2 base2 where r2:
      "ReadRecord_loop M F v1 r1 = Some (Some (scratch v1 @ drop ?avail p), r2)"
      "reader_at D base2 off' r2" "base2 + off' = base_of base off + 32768 + length cs" "reporter r2 = reporter r1"
      by auto
    have "base2 + off' = base + off + length bs" using r2(3) pos l by (simp add: bs)
    moreover have "ReadRecord_loop M F v r = Some (Some ((if first then [] else scratch v) @ p), r2)"
      using r1(1,3) r2(1) by (subst ReadRecord_loop.simps) simp
    ultimately show ?thesis using r2(2,4) r1(5) by (intro exI [of _ r2] exI [of _ base2]) simp
  qed
qed

lemma read_torn_record:
  assumes "record_layout off first p = (bs, off')" and "off \<le> 32768" and "reader_at D base off r"
    and "drop (base + off) D = take m bs" and "m < length bs" and "base + off \<le> length D"
    and "in_fragmented_record v = (\<not> first)"
  shows "\<exists>r'. ReadRecord_loop M F v r = Some (None, r') \<and> reporter r' = reporter r"
  using assms
proof (induction off first p arbitrary: bs off' base r v m rule: record_layout.induct)
  case (1 off first p)
  let ?avail = "32768 - start_of off - 7"
  have start: "start_of off + 7 \<le> 32768" by (rule start_of_le)
  show ?case
  proof (cases "length p \<le> ?avail")
    case True
    then have bs: "bs = replicate (trailer_of off) 0 @ fragment_bytes (fragment_type first True) p"
      using 1(2) by (subst (asm) record_layout.simps) simp
    have "start_of off + 7 + length p \<le> 32768" using True start by linarith
    from step_torn [OF 1(4,3) 1(5) [unfolded bs] _ 1(7) this] 1(6) bs show ?thesis by simp
  next
    case False
    let ?q = "take ?avail p"
    obtain cs where cs: "record_layout 32768 False (drop ?avail p) = (cs, off')"
      and bs: "bs = replicate (trailer_of off) 0 @ fragment_bytes (fragment_type first False) ?q @ cs"
      using 1(2) False by (subst (asm) record_layout.simps) (auto simp: Let_def split: prod.splits)
    have l: "length ?q = ?avail" using False by simp
    then have o32: "start_of off + 7 + length ?q = 32768" using start by linarith
    let ?k = "trailer_of off + 7 + length ?q"
    show ?thesis
    proof (cases "m < ?k")
      case True
      then have "drop (base + off) D = take m (replicate (trailer_of off) 0 @ fragment_bytes (fragment_type first False) ?q)"
        using 1(5) by (simp add: bs)
      from step_torn [OF 1(4,3) this True 1(7) eq_refl [OF o32]] show ?thesis .
    next
      case whole: False
      have D: "drop (base + off) D = replicate (trailer_of off) 0 @ fragment_bytes (fragment_type first False) ?q @
          take (m - ?k) cs" using 1(5) whole by (simp add: bs add.assoc)
      from step_fragment [OF 1(4,3) D eq_refl [OF o32] 1(8), of M] obtain r1 v1 where r1:
        "ReadRecord_step M F v r = Some (Continue v1 r1)" "in_fragmented_record v1 = (\<not> False)"
        "reader_at D (base_of base off) 32768 r1" "reporter r1 = reporter r" unfolding o32 by auto
      have pos: "base_of base off + 32768 = base + off + ?k"
        using base_start [OF 1(3), of base] o32 by simp
      have "drop (base_of base off + 32768) D = drop ?k (drop (base + off) D)"
        unfolding pos drop_drop by (rule arg_cong [where f = "\<lambda>n. drop n D"]) simp
      also have "\<dots> = take (m - ?k) cs" unfolding D by (simp add: add.assoc)
      finally have D1: "drop (base_of base off + 32768) D = take (m - ?k) cs" .
      have "length (drop (base + off) D) = m" using 1(6) by (simp add: 1(5))
      then have "base_of base off + 32768 \<le> length D" using pos whole 1(7) by simp
      moreover have "m - ?k < length cs" using 1(6) whole by (simp add: bs)
      ultimately obtain r2 where "ReadRecord_loop M F v1 r1 = Some (None, r2)" "reporter r2 = reporter r1"
        using 1(1) [OF refl refl False cs order_refl r1(3) D1 _ _ r1(2)] by blast
      with r1 show ?thesis by (subst ReadRecord_loop.simps) simp
    qed
  qed
qed

end

section \<open>A whole log\<close>

text \<open>The first \<open>n\<close> results of \<open>ReadRecord\<close>.\<close>

fun ReadRecords ::
  "machine \<Rightarrow> 'f SequentialFile \<Rightarrow> nat \<Rightarrow> 'f Reader \<Rightarrow> (slice option list \<times> 'f Reader) option" where
  "ReadRecords M F 0 r = Some ([], r)"
| "ReadRecords M F (Suc n) r =
     Option.bind (ReadRecord M F r) (\<lambda>(x, r'). map_option (\<lambda>(xs, r''). (x # xs, r'')) (ReadRecords M F n r'))"

context sequential_file
begin

lemma reader_at_offset: "reader_at D base off r \<Longrightarrow> initial_offset r = 0"
  by (simp add: reader_at_def loaded_def split: if_splits)

lemma ReadRecord_here: "reader_at D base off r \<Longrightarrow> ReadRecord M F r = ReadRecord_loop M F read_vars_0 r"
  by (simp add: ReadRecord_def reader_at_offset)

lemma read_log:
  assumes "log_layout off ss = (bs, off')" and "off \<le> 32768" and "reader_at D base off r"
    and "drop (base + off) D = bs @ take m cs" and "base + off \<le> length D"
    and "record_layout off' True s = (cs, off'')" and "m < length cs"
  shows "\<exists>r'. ReadRecords M F (Suc (length ss)) r = Some (map Some ss @ [None], r') \<and> reporter r' = reporter r"
  using assms(1-5)
proof (induction ss arbitrary: off bs base r)
  case Nil
  then have "record_layout off True s = (cs, off'')" "drop (base + off) D = take m cs" using assms(6) by simp_all
  from read_torn_record [OF this(1) Nil.prems(2,3) this(2) assms(7) Nil.prems(5), of read_vars_0 M] obtain r' where
    "ReadRecord_loop M F read_vars_0 r = Some (None, r')" "reporter r' = reporter r" by (auto simp: read_vars_0_def)
  then show ?case by (simp add: ReadRecord_here [OF Nil.prems(3)])
next
  case (Cons a ss)
  obtain b1 o1 where b1: "record_layout off True a = (b1, o1)" by fastforce
  obtain b2 o2 where b2: "log_layout o1 ss = (b2, o2)" by fastforce
  with Cons.prems(1) b1 have bs: "bs = b1 @ b2" "off' = o2" by auto
  have D: "drop (base + off) D = b1 @ (b2 @ take m cs)" using Cons.prems(4) bs by simp
  from read_record [OF b1 Cons.prems(2,3) D, of read_vars_0 M] obtain r1 base1 where r1:
    "ReadRecord_loop M F read_vars_0 r = Some (Some a, r1)" "reader_at D base1 o1 r1"
    "base1 + o1 = base + off + length b1" "reporter r1 = reporter r" by (auto simp: read_vars_0_def)
  have "drop (base1 + o1) D = drop (length b1) (drop (base + off) D)"
    unfolding r1(3) drop_drop by (rule arg_cong [where f = "\<lambda>n. drop n D"]) simp
  then have D1: "drop (base1 + o1) D = b2 @ take m cs" by (simp add: D)
  have "length (drop (base + off) D) = length b1 + length (b2 @ take m cs)" by (simp add: D)
  then have "base1 + o1 \<le> length D" using r1(3) Cons.prems(5) by simp
  from Cons.IH [OF b2 [folded bs(2)] _ r1(2) D1 this] record_layout_offset [OF b1] obtain r2 where
    "ReadRecords M F (Suc (length ss)) r1 = Some (map Some ss @ [None], r2)" "reporter r2 = reporter r1" by blast
  with r1 show ?case by (simp add: ReadRecord_here [OF Cons.prems(3)] del: ReadRecords.simps(2)) (simp add: ReadRecords.simps(2) [of _ _ "Suc _"] ReadRecord_here [OF Cons.prems(3)])
qed

lemma reader_at_new:
  assumes "good f" and "unread f = D"
  shows "reader_at D 0 0 (Reader_new f rep chk 0)"
  using assms by (simp add: reader_at_def Reader_new_def)

end

end
