(* ===== verification/Ldb_Log_Props.thy ===== *)
theory Ldb_Log_Props
  imports Ldb_Log_Format
begin

text \<open>
  What the log promises: a log cut off at any byte gives back exactly its whole records, and
  reading any file at all comes to an end.
\<close>

section \<open>Reading ends whatever the file holds\<close>

text \<open>The bytes a reader has still to go through.\<close>

context sequential_file
begin

definition pending :: "'f Reader \<Rightarrow> nat" where
  "pending r = length (buffer r) + length (unread (log_file r))"

lemma Report_simps [simp]:
  "pending (ReportCorruption n s r) = pending r" "log_file (ReportCorruption n s r) = log_file r"
  "initial_offset (ReportCorruption n s r) = initial_offset r"
  by (simp_all add: pending_def ReportCorruption_def ReportDrop_def)

lemma pending_update [simp]:
  "pending (r\<lparr>resyncing := b\<rparr>) = pending r" "pending (r\<lparr>last_record_offset := x\<rparr>) = pending r"
  by (simp_all add: pending_def)

text \<open>A header uses up at least its own seven bytes, or all that is left of the block.\<close>

lemma parse_physical_shrinks:
  assumes "7 \<le> length (buffer r)"
  shows "\<exists>t res r'. parse_physical M result r = Some (t, res, r') \<and> log_file r' = log_file r \<and>
    initial_offset r' = initial_offset r \<and> length (buffer r') + 7 \<le> length (buffer r)"
proof -
  obtain c where c: "DecodeFixed32 (little M) (buffer r) = Some c"
    using assms by (simp add: DecodeFixed32_value)
  show ?thesis
    using assms c
    by (auto simp: parse_physical_def Let_def kHeaderSize_def ReportCorruption_def ReportDrop_def
        bytes_at_def remove_prefix_def split: bool.splits)
qed

lemma after_read_shrinks:
  "\<exists>t res r'. after_read M result r = Some (t, res, r') \<and> log_file r' = log_file r \<and>
    initial_offset r' = initial_offset r \<and> (t = kEof \<or> length (buffer r') + 7 \<le> length (buffer r))"
  using parse_physical_shrinks [of r M result] by (auto simp: after_read_def kHeaderSize_def not_less)

lemma refill_good:
  assumes "good (log_file r)"
  shows "\<exists>r'. refill F r = (True, r') \<and> good (log_file r') \<and> initial_offset r' = initial_offset r \<and>
    pending r' \<le> pending r"
proof -
  from Read [OF assms, of kBlockSize] obtain f' where
    "sf_Read F kBlockSize (log_file r) = ((Status_OK, take kBlockSize (unread (log_file r))), f')" "good f'"
    "unread f' = drop kBlockSize (unread (log_file r))" by auto
  then show ?thesis by (auto simp: refill_def Let_def pending_def)
qed

lemma ReadPhysicalRecord_shrinks:
  assumes "good (log_file r)"
  shows "\<exists>t res r'. ReadPhysicalRecord M F result r = Some (t, res, r') \<and> good (log_file r') \<and>
    initial_offset r' = initial_offset r \<and> (t = kEof \<or> pending r' + 7 \<le> pending r)"
proof (cases "length (buffer r) < kHeaderSize \<and> \<not> eof r")
  case True
  from refill_good [OF assms] obtain r1 where r1: "refill F r = (True, r1)" "good (log_file r1)"
    "initial_offset r1 = initial_offset r" "pending r1 \<le> pending r" by auto
  from after_read_shrinks [of M result r1] obtain t res r' where "after_read M result r1 = Some (t, res, r')"
    "log_file r' = log_file r1" "initial_offset r' = initial_offset r1"
    "t = kEof \<or> length (buffer r') + 7 \<le> length (buffer r1)" by auto
  with True r1 show ?thesis by (auto simp: ReadPhysicalRecord_def pending_def)
next
  case False
  from after_read_shrinks [of M result r] obtain t res r' where "after_read M result r = Some (t, res, r')"
    "log_file r' = log_file r" "initial_offset r' = initial_offset r"
    "t = kEof \<or> length (buffer r') + 7 \<le> length (buffer r)" by auto
  with False assms show ?thesis by (auto simp: ReadPhysicalRecord_def pending_def)
qed

lemma partial_record_keeps:
  "partial_record s v r = (v', r') \<Longrightarrow> pending r' = pending r \<and> log_file r' = log_file r \<and> initial_offset r' = initial_offset r"
  by (auto simp: partial_record_def split: if_splits)

lemma dispatch_cases:
  "(\<exists>x r'. dispatch t p v r = Return x r' \<and> pending r' = pending r \<and> log_file r' = log_file r \<and>
      initial_offset r' = initial_offset r \<and> (t = kEof \<longrightarrow> x = None)) \<or>
   (\<exists>v' r'. dispatch t p v r = Continue v' r' \<and> pending r' = pending r \<and> log_file r' = log_file r \<and>
      initial_offset r' = initial_offset r \<and> t \<noteq> kEof)"
  by (auto simp: dispatch_def kEof_def kMaxRecordType_def dest: partial_record_keeps split: prod.splits)

lemma ReadRecord_step_shrinks:
  assumes "good (log_file r)"
  shows "(\<exists>x r'. ReadRecord_step M F v r = Some (Return x r') \<and> good (log_file r') \<and>
      initial_offset r' = initial_offset r \<and> (x = None \<or> pending r' + 7 \<le> pending r)) \<or>
    (\<exists>v' r'. ReadRecord_step M F v r = Some (Continue v' r') \<and> good (log_file r') \<and>
      initial_offset r' = initial_offset r \<and> pending r' + 7 \<le> pending r)"
proof -
  from ReadPhysicalRecord_shrinks [OF assms, of M "fragment v"] obtain t res r1 where
    r1: "ReadPhysicalRecord M F (fragment v) r = Some (t, res, r1)" "good (log_file r1)"
      "initial_offset r1 = initial_offset r" "t = kEof \<or> pending r1 + 7 \<le> pending r" by auto
  let ?v = "v\<lparr>fragment := res\<rparr>"
  let ?p = "end_of_buffer_offset r1 - buffer_size r1 - of_nat kHeaderSize - of_nat (length res)"
  have ne: "of_nat (type_value kMiddleType) \<noteq> kEof" "of_nat (type_value kLastType) \<noteq> kEof"
    by (simp_all add: kEof_def kMaxRecordType_def)
  show ?thesis
    using r1 ne dispatch_cases [of t ?p ?v r1] dispatch_cases [of t ?p ?v "r1\<lparr>resyncing := False\<rparr>"]
    by (auto simp: ReadRecord_step_def Let_def buffer_size_def)
qed

lemma ReadRecord_loop_returns:
  assumes "good (log_file r)"
  shows "\<exists>x r'. ReadRecord_loop M F v r = Some (x, r') \<and> good (log_file r') \<and>
    initial_offset r' = initial_offset r \<and> (x = None \<or> pending r' + 7 \<le> pending r)"
  using assms
proof (induction "pending r" arbitrary: r v rule: less_induct)
  case less
  from ReadRecord_step_shrinks [OF less.prems, of M v] show ?case
  proof (elim disjE exE conjE)
    fix v' r'
    assume "ReadRecord_step M F v r = Some (Continue v' r')" "good (log_file r')"
      "initial_offset r' = initial_offset r" "pending r' + 7 \<le> pending r"
    with less.hyps [of r' v'] show ?thesis by (subst ReadRecord_loop.simps) fastforce
  qed (subst ReadRecord_loop.simps, simp)+
qed

lemma ReadRecord_returns:
  "good (log_file r) \<Longrightarrow> initial_offset r = 0 \<Longrightarrow> \<exists>x r'. ReadRecord M F r = Some (x, r') \<and> good (log_file r') \<and>
    initial_offset r' = 0 \<and> (x = None \<or> pending r' + 7 \<le> pending r)"
  using ReadRecord_loop_returns [of r M read_vars_0] by (simp add: ReadRecord_def)

lemma reading_ends:
  assumes "good (log_file r)" and "initial_offset r = 0"
  shows "\<exists>ss r'. ReadRecords M F (Suc (length ss)) r = Some (map Some ss @ [None], r') \<and> 7 * length ss \<le> pending r"
  using assms
proof (induction "pending r" arbitrary: r rule: less_induct)
  case less
  from ReadRecord_returns [OF less.prems, of M] obtain x r1 where
    x: "ReadRecord M F r = Some (x, r1)" "good (log_file r1)" "initial_offset r1 = 0" "x = None \<or> pending r1 + 7 \<le> pending r"
    by blast
  show ?case
  proof (cases x)
    case None
    with x show ?thesis by (intro exI [of _ "[]"] exI [of _ r1]) simp
  next
    case (Some s)
    with x less.hyps [of r1] obtain ss r2 where
      "ReadRecords M F (Suc (length ss)) r1 = Some (map Some ss @ [None], r2)" "7 * length ss \<le> pending r1" by auto
    with x Some show ?thesis
      by (intro exI [of _ "s # ss"] exI [of _ r2]) (simp only: list.size add_0_right add_Suc_right ReadRecords.simps(2) [of M F "Suc _"], simp)
  qed
qed

end

section \<open>Layout of a prefix\<close>

lemma record_layout_short:
  "off + 7 + length p \<le> 32768 \<Longrightarrow> record_layout off first p = (fragment_bytes (fragment_type first True) p, off + 7 + length p)"
  by (subst record_layout.simps) (auto simp: start_of_def trailer_of_def Let_def)

definition log_bytes :: "slice list \<Rightarrow> byte list" where
  "log_bytes ss = fst (log_layout 0 ss)"

lemma log_layout_append:
  "log_layout off (xs @ ys) =
     (let (bs, off') = log_layout off xs; (cs, off'') = log_layout off' ys in (bs @ cs, off''))"
  by (induction xs arbitrary: off) (simp_all add: Let_def split: prod.splits)

lemma log_layout_offset: "log_layout off ss = (bs, off') \<Longrightarrow> off \<le> 32768 \<Longrightarrow> off' \<le> 32768"
  by (induction ss arbitrary: off bs) (auto split: prod.splits dest: record_layout_offset)

lemma fragment_bytes_nonempty [simp]: "fragment_bytes t p \<noteq> []"
  using length_fragment_bytes [of t p] by (metis add_is_0 list.size(3) zero_neq_numeral)

lemma record_layout_nonempty: "record_layout off first p = (bs, off') \<Longrightarrow> 0 < length bs"
  by (subst (asm) record_layout.simps) (auto simp: Let_def split: if_splits prod.splits)

text \<open>The last prefix of records that lies within the first \<open>m\<close> bytes.\<close>

lemma whole_records:
  assumes "m \<le> length (log_bytes ss)"
  obtains k where "k \<le> length ss" and "length (log_bytes (take k ss)) \<le> m"
    and "k < length ss \<Longrightarrow> m < length (log_bytes (take (Suc k) ss))"
proof -
  let ?P = "\<lambda>k. k \<le> length ss \<and> length (log_bytes (take k ss)) \<le> m"
  let ?k = "GREATEST k. ?P k"
  have P0: "?P 0" by (simp add: log_bytes_def)
  have k: "?P ?k" by (rule GreatestI_nat [of ?P 0 "length ss"]) (use P0 in auto)
  have "m < length (log_bytes (take (Suc ?k) ss))" if "?k < length ss"
  proof (rule ccontr)
    assume "\<not> ?thesis"
    then have "?P (Suc ?k)" using that by simp
    then have "Suc ?k \<le> ?k" by (rule Greatest_le_nat [of ?P _ "length ss"]) auto
    then show False by simp
  qed
  with k that show ?thesis by blast
qed

text \<open>The log of \<open>ss\<close> cut off after \<open>m\<close> bytes: \<open>k\<close> whole records and a part of the next one.\<close>

lemma cut_log:
  assumes "m \<le> length (log_bytes ss)" and "k \<le> length ss" and "length (log_bytes (take k ss)) \<le> m"
    and "k < length ss \<Longrightarrow> m < length (log_bytes (take (Suc k) ss))"
  obtains bs off s cs off' n where "log_layout 0 (take k ss) = (bs, off)" and "record_layout off True s = (cs, off')"
    and "take m (log_bytes ss) = bs @ take n cs" and "n < length cs"
proof -
  obtain bs off where bs: "log_layout 0 (take k ss) = (bs, off)" by fastforce
  define s where "s = (if k < length ss then ss ! k else [])"
  obtain cs off' where cs: "record_layout off True s = (cs, off')" by fastforce
  have tk: "log_bytes (take k ss) = bs" by (simp add: log_bytes_def bs)
  have "\<exists>n. take m (log_bytes ss) = bs @ take n cs \<and> n < length cs"
  proof (cases "k < length ss")
    case True
    have ss: "ss = take k ss @ s # drop (Suc k) ss" using True by (simp add: s_def id_take_nth_drop)
    have "take (Suc k) ss = take k ss @ [s]" using True by (simp add: s_def take_Suc_conv_app_nth)
    then have tsk: "log_bytes (take (Suc k) ss) = bs @ cs" by (simp add: log_bytes_def log_layout_append bs cs)
    obtain ds where "log_bytes ss = bs @ cs @ ds"
      using arg_cong [OF ss, of log_bytes]
      by (auto simp: log_bytes_def log_layout_append bs cs Let_def simp del: take_append drop_append split: prod.splits)
    then have "take m (log_bytes ss) = bs @ take (m - length bs) cs \<and> m - length bs < length cs"
      using assms(3,4) True tk tsk by auto
    then show ?thesis by blast
  next
    case False
    then have "take m (log_bytes ss) = bs" using assms(1-3) tk by simp
    then show ?thesis using record_layout_nonempty [OF cs] by (intro exI [of _ 0]) simp
  qed
  with that bs cs show thesis by blast
qed

context sequential_file
begin

lemma read_cut_log:
  assumes "good f" and "unread f = take m (log_bytes ss)" and "m \<le> length (log_bytes ss)"
    and "k \<le> length ss" and "length (log_bytes (take k ss)) \<le> m"
    and "k < length ss \<Longrightarrow> m < length (log_bytes (take (Suc k) ss))"
  shows "\<exists>r. ReadRecords M F (Suc k) (Reader_new f rep chk 0) = Some (map Some (take k ss) @ [None], r) \<and>
    reporter r = (if rep then Some [] else None)"
proof -
  let ?r = "Reader_new f rep chk 0" and ?D = "take m (log_bytes ss)"
  obtain bs off s cs off' n where bs: "log_layout 0 (take k ss) = (bs, off)" and cs: "record_layout off True s = (cs, off')"
    and D: "?D = bs @ take n cs" "n < length cs" using cut_log [OF assms(3-6)] by metis
  have "reader_at ?D 0 0 ?r" using assms(1,2) by (rule reader_at_new)
  from read_log [OF bs _ this _ _ cs D(2), of M] D(1) obtain r' where
    "ReadRecords M F (Suc (length (take k ss))) ?r = Some (map Some (take k ss) @ [None], r')" "reporter r' = reporter ?r"
    by auto
  moreover have "length (take k ss) = k" "reporter ?r = (if rep then Some [] else None)"
    using assms(4) by (simp_all add: Reader_new_def)
  ultimately show ?thesis by (intro exI [of _ r']) (simp only:)
qed

end

section \<open>Properties\<close>

text \<open>
  A file opened for writing has no bytes yet; a file opened for reading holds the given bytes and
  is at its start.
\<close>

definition opened_for_writing :: "byte list \<Rightarrow> nat \<Rightarrow> PosixWritableFile" where
  "opened_for_writing name space =
     \<lparr>pw_filename = name, pw_data = [], pw_space = space, pw_flush_ok = True, pw_open = True, pw_errno = []\<rparr>"

definition opened_for_reading :: "byte list \<Rightarrow> byte list \<Rightarrow> PosixSequentialFile" where
  "opened_for_reading name bytes =
     \<lparr>sq_filename = name, sq_data = bytes, sq_pos = 0, sq_eof = False, sq_fails_at = None, sq_errno = []\<rparr>"

lemma dest_opened [simp]:
  "pw_flush_ok (opened_for_writing name space)" "pw_space (opened_for_writing name space) = space"
  "pw_data (opened_for_writing name space) = []"
  by (simp_all add: opened_for_writing_def)

lemma posix_opened:
  "length bytes < 2 ^ 63 \<Longrightarrow> posix_good (opened_for_reading name bytes)"
  "posix_unread (opened_for_reading name bytes) = bytes"
  by (simp_all add: posix_good_def posix_unread_def opened_for_reading_def)

lemma Writer_new_ok:
  "\<exists>w. Writer_new M f 0 = Some w \<and> crc_table_ok w \<and> block_offset w = int 0 \<and> dest w = f"
  by (simp add: Writer_new_def InitTypeCrc_value crc_table_ok_def)

text \<open>C13: a log survives being cut off. Records that \<open>AddRecord\<close> writes to a new file with room for
  them are all accepted; whatever number \<open>m\<close> of the file's bytes survives, the reader with checksums
  returns exactly the records that lie wholly within them, in order, then the end of the log, and
  reports no corruption.\<close>

theorem log_survives_truncation:
  assumes "length (log_bytes ss) \<le> space" and "length (log_bytes ss) < 2 ^ 63"
    and "m \<le> length (log_bytes ss)"
  shows "\<exists>w w' k r. Writer_new M (opened_for_writing name space) 0 = Some w \<and>
    AddRecords M (posix_writable_file dir_sync) ss w = Some (Status_OK, w') \<and>
    pw_data (dest w') = log_bytes ss \<and>
    k \<le> length ss \<and> length (log_bytes (take k ss)) \<le> m \<and>
    (k = length ss \<or> m < length (log_bytes (take (k + 1) ss))) \<and>
    ReadRecords M posix_sequential_file (k + 1)
      (Reader_new (opened_for_reading name (take m (pw_data (dest w')))) True True 0) =
      Some (map Some (take k ss) @ [None], r) \<and> reporter r = Some []"
proof -
  obtain w where w: "Writer_new M (opened_for_writing name space) 0 = Some w" "crc_table_ok w"
    "block_offset w = int 0" "dest w = opened_for_writing name space"
    using Writer_new_ok [of M "opened_for_writing name space"] by (elim exE conjE)
  obtain off where l: "log_layout 0 ss = (log_bytes ss, off)" by (cases "log_layout 0 ss") (simp add: log_bytes_def)
  from posix_writable.AddRecords_appends [OF l w(2,3), of 0 M dir_sync] assms(1) w(4) obtain f where
    f: "AddRecords M (posix_writable_file dir_sync) ss w = Some (Status_OK, w\<lparr>dest := f, block_offset := int off\<rparr>)"
      "pw_data f = log_bytes ss" by auto
  from whole_records [OF assms(3)] obtain k where k: "k \<le> length ss" "length (log_bytes (take k ss)) \<le> m"
    "k < length ss \<Longrightarrow> m < length (log_bytes (take (Suc k) ss))" by blast
  let ?g = "opened_for_reading name (take m (log_bytes ss))"
  have "posix_good ?g" by (rule posix_opened) (use assms(2) in simp)
  from posix_sequential.read_cut_log [OF this posix_opened(2) assms(3) k, of M True] obtain r where
    r: "ReadRecords M posix_sequential_file (Suc k) (Reader_new ?g True True 0) = Some (map Some (take k ss) @ [None], r)"
      "reporter r = Some []" unfolding if_True by blast
  let ?w' = "w\<lparr>dest := f, block_offset := int off\<rparr>"
  have data: "pw_data (dest ?w') = log_bytes ss" using f(2) by simp
  have last: "k = length ss \<or> m < length (log_bytes (take (k + 1) ss))" using k(1,3) by (cases "k < length ss") simp_all
  show ?thesis
    by (rule exI [of _ w], rule exI [of _ ?w'], rule exI [of _ k], rule exI [of _ r], intro conjI)
      (rule w(1) f(1) data k(1,2) last r(1) [folded Suc_eq_plus1] r(2) | (simp only: data Suc_eq_plus1 [symmetric], rule r(1)))+
qed

lemma log_survives_truncation_witness:
  "\<exists>w w' k r. Writer_new \<lparr>little = True, addr_of = \<lambda>_. 0\<rparr> (opened_for_writing [] 100) 0 = Some w \<and>
    AddRecords \<lparr>little = True, addr_of = \<lambda>_. 0\<rparr> (posix_writable_file (\<lambda>_. None)) [[1], [2]] w = Some (Status_OK, w') \<and>
    pw_data (dest w') = log_bytes [[1], [2]] \<and>
    k \<le> length [[1], [2 :: byte]] \<and> length (log_bytes (take k [[1], [2]])) \<le> 9 \<and>
    (k = length [[1], [2 :: byte]] \<or> 9 < length (log_bytes (take (k + 1) [[1], [2]]))) \<and>
    ReadRecords \<lparr>little = True, addr_of = \<lambda>_. 0\<rparr> posix_sequential_file (k + 1)
      (Reader_new (opened_for_reading [] (take 9 (pw_data (dest w')))) True True 0) =
      Some (map Some (take k [[1], [2]]) @ [None], r) \<and> reporter r = Some []"
  by (rule log_survives_truncation)
    (simp_all add: log_bytes_def record_layout_short)

text \<open>C14: reading a log ends, whatever the file holds, with or without checksums: within as many
  calls of \<open>ReadRecord\<close> as there are seven-byte headers in the file, and one more, the reader says that
  the log is at its end. No call fails to return, and none reads its buffer outside of its bounds: such a
  read of a header or a payload is \<open>None\<close> in the model, and so is not returning.\<close>

theorem log_reading_ends:
  assumes "length bytes < 2 ^ 63"
  shows "\<exists>ss r. 7 * length ss \<le> length bytes \<and>
    ReadRecords M posix_sequential_file (length ss + 1) (Reader_new (opened_for_reading name bytes) rep chk 0) =
      Some (map Some ss @ [None], r)"
  using posix_sequential.reading_ends [of "Reader_new (opened_for_reading name bytes) rep chk 0" M]
    posix_opened(1) [OF assms, of name]
  by (auto simp: Reader_new_def posix_sequential.pending_def posix_opened(2) simp del: ReadRecords.simps)

lemma log_reading_ends_witness:
  "\<exists>ss r. 7 * length ss \<le> length ([1, 2, 3, 4, 1, 0, 2, 9, 8] :: byte list) \<and>
    ReadRecords \<lparr>little = True, addr_of = \<lambda>_. 0\<rparr> posix_sequential_file (length ss + 1)
      (Reader_new (opened_for_reading [] [1, 2, 3, 4, 1, 0, 2, 9, 8]) True False 0) = Some (map Some ss @ [None], r)"
  by (rule log_reading_ends) simp

end
