(* ===== verification/Ldb_Comparator.thy ===== *)
theory Ldb_Comparator
  imports Ldb_Filename
begin

text \<open>
  The comparator interface (\<open>include/leveldb/comparator.h\<close>) and the bytewise comparator
  (\<open>util/comparator.cc\<close>). The locale states the interface's contract for the keys it is used on:
  a total order in which equal keys are identical, and the two functions that shorten keys.
\<close>

record Comparator =
  Compare :: "slice \<Rightarrow> slice \<Rightarrow> int"
  Name :: "byte list"
  FindShortestSeparator :: "slice \<Rightarrow> slice \<Rightarrow> slice"
  FindShortSuccessor :: "slice \<Rightarrow> slice"

section \<open>The contract\<close>

locale comparator =
  fixes C :: Comparator and key :: "slice \<Rightarrow> bool"
  assumes flip: "key a \<Longrightarrow> key b \<Longrightarrow> Compare C b a < 0 \<longleftrightarrow> 0 < Compare C a b"
    and trans: "key a \<Longrightarrow> key b \<Longrightarrow> key c \<Longrightarrow> Compare C a b \<le> 0 \<Longrightarrow> Compare C b c \<le> 0 \<Longrightarrow> Compare C a c \<le> 0"
    and equal: "key a \<Longrightarrow> key b \<Longrightarrow> Compare C a b = 0 \<longleftrightarrow> a = b"
    and separator: "key a \<Longrightarrow> key b \<Longrightarrow> Compare C a b < 0 \<Longrightarrow>
      key (FindShortestSeparator C a b) \<and> Compare C a (FindShortestSeparator C a b) \<le> 0 \<and>
      Compare C (FindShortestSeparator C a b) b < 0"
    and separator_unchanged: "key a \<Longrightarrow> key b \<Longrightarrow> \<not> Compare C a b < 0 \<Longrightarrow> FindShortestSeparator C a b = a"
    and successor: "key a \<Longrightarrow> key (FindShortSuccessor C a) \<and> Compare C a (FindShortSuccessor C a) \<le> 0"
begin

lemma refl [simp]: "key a \<Longrightarrow> Compare C a a = 0"
  using equal by simp

lemma less_trans:
  assumes "key a" "key b" "key c" and "Compare C a b < 0" and "Compare C b c < 0"
  shows "Compare C a c < 0"
proof -
  have le: "Compare C a c \<le> 0" using trans [of a b c] assms by simp
  moreover have "Compare C a c \<noteq> 0"
  proof
    assume "Compare C a c = 0"
    with assms(1,3) equal have "a = c" by simp
    with assms flip [of a b] show False by simp
  qed
  ultimately show ?thesis by simp
qed

lemma le_less_trans:
  assumes "key a" "key b" "key c" and "Compare C a b \<le> 0" and "Compare C b c < 0"
  shows "Compare C a c < 0"
proof (cases "Compare C a b = 0")
  case True
  with assms equal show ?thesis by simp
next
  case False
  with assms less_trans show ?thesis by (meson order_le_less)
qed

lemma not_less: "key a \<Longrightarrow> key b \<Longrightarrow> \<not> Compare C a b < 0 \<longleftrightarrow> Compare C b a \<le> 0"
  using flip [of a b] flip [of b a] equal [of a b] equal [of b a] by linarith

end

section \<open>The bytewise comparator\<close>

text \<open>The loop that finds the first byte in which two strings differ, up to \<open>min_length\<close>.\<close>

fun diff_index :: "slice \<Rightarrow> slice \<Rightarrow> nat" where
  "diff_index (x # xs) (y # ys) = (if x = y then Suc (diff_index xs ys) else 0)"
| "diff_index _ _ = 0"

definition Bytewise_FindShortestSeparator :: "slice \<Rightarrow> slice \<Rightarrow> slice" where
  "Bytewise_FindShortestSeparator start limit =
     (let min_length = min (length start) (length limit); i = diff_index start limit in
      if min_length \<le> i then start
      else
        let diff_byte = start ! i in
        if diff_byte < 0xff \<and> unat diff_byte + 1 < unat (limit ! i)
        then take (i + 1) (start[i := start ! i + 1])
        else start)"

text \<open>The loop over the bytes of the key that are \<open>0xff\<close>.\<close>

fun Bytewise_FindShortSuccessor :: "slice \<Rightarrow> slice" where
  "Bytewise_FindShortSuccessor [] = []"
| "Bytewise_FindShortSuccessor (b # k) = (if b \<noteq> 0xff then [b + 1] else b # Bytewise_FindShortSuccessor k)"

definition BytewiseComparator :: Comparator where
  "BytewiseComparator =
     \<lparr>Compare = Slice_compare, Name = bytes_of ''leveldb.BytewiseComparator'',
      FindShortestSeparator = Bytewise_FindShortestSeparator,
      FindShortSuccessor = Bytewise_FindShortSuccessor\<rparr>"

lemma diff_index_Cons: "diff_index (x # xs) (x # ys) = Suc (diff_index xs ys)"
  by simp

lemma separator_Cons:
  "Bytewise_FindShortestSeparator (x # xs) (x # ys) = x # Bytewise_FindShortestSeparator xs ys"
  by (simp add: Bytewise_FindShortestSeparator_def Let_def)

lemma unat_inc:
  assumes "b < (0xff :: byte)"
  shows "unat (b + 1) = unat b + 1"
proof -
  have "b + 1 = of_nat (unat b + 1)" by simp
  moreover have "unat b + 1 < 256" using assms by (simp add: word_less_nat_alt)
  ultimately show ?thesis by (simp only: unat_of_nat_byte)
qed

lemma Bytewise_separator:
  "Slice_compare a b < 0 \<Longrightarrow> Slice_compare a (Bytewise_FindShortestSeparator a b) \<le> 0 \<and>
     Slice_compare (Bytewise_FindShortestSeparator a b) b < 0"
proof (induction a b rule: diff_index.induct)
  case (1 x xs y ys)
  show ?case
  proof (cases "x = y")
    case True
    with 1 show ?thesis by (simp add: separator_Cons)
  next
    case False
    with 1(2) have lt: "x < y" by (simp split: if_splits)
    show ?thesis
    proof (cases "x < 0xff \<and> unat x + 1 < unat y")
      case True
      then have "x < x + 1" "x + 1 < y" using unat_inc [of x] by (simp_all add: word_less_nat_alt)
      then show ?thesis using False True by (simp add: Bytewise_FindShortestSeparator_def)
    next
      case no: False
      then have "Bytewise_FindShortestSeparator (x # xs) (y # ys) = x # xs"
        using False by (auto simp: Bytewise_FindShortestSeparator_def)
      then show ?thesis using 1(2) by simp
    qed
  qed
qed (auto simp: Bytewise_FindShortestSeparator_def neq_Nil_conv)

lemma Bytewise_separator_unchanged:
  "\<not> Slice_compare a b < 0 \<Longrightarrow> Bytewise_FindShortestSeparator a b = a"
proof (induction a b rule: diff_index.induct)
  case (1 x xs y ys)
  show ?case
  proof (cases "x = y")
    case True
    with 1 show ?thesis by (simp add: separator_Cons)
  next
    case False
    with 1(2) have "unat y < unat x" by (auto simp: word_less_nat_alt word_unat_eq_iff split: if_splits)
    with False show ?thesis by (simp add: Bytewise_FindShortestSeparator_def)
  qed
qed (simp_all add: Bytewise_FindShortestSeparator_def)

lemma Bytewise_successor: "Slice_compare a (Bytewise_FindShortSuccessor a) \<le> 0"
proof (induction a)
  case (Cons b a)
  show ?case
  proof (cases "b = 0xff")
    case False
    then have "b < 0xff" using unat_lt_8 [of b] by (simp add: word_less_nat_alt word_unat_eq_iff)
    then have "b < b + 1" using unat_inc [of b] by (simp add: word_less_nat_alt)
    with False show ?thesis by simp
  qed (use Cons in simp)
qed simp

interpretation bytewise: comparator BytewiseComparator "\<lambda>_. True"
proof unfold_locales
  fix a b c :: slice
  show "Compare BytewiseComparator b a < 0 \<longleftrightarrow> 0 < Compare BytewiseComparator a b"
    using Slice_compare_flip [of b a] by (simp add: BytewiseComparator_def)
  show "Compare BytewiseComparator a b \<le> 0 \<Longrightarrow> Compare BytewiseComparator b c \<le> 0 \<Longrightarrow>
      Compare BytewiseComparator a c \<le> 0"
    by (simp add: BytewiseComparator_def Slice_compare_trans)
qed (simp_all add: BytewiseComparator_def Bytewise_separator Bytewise_separator_unchanged
    Bytewise_successor)

end
