(* ===== verification/Ldb_DbFormat.thy ===== *)
theory Ldb_DbFormat
  imports Ldb_Comparator
begin

text \<open>
  Internal keys (\<open>db/dbformat.{h,cc}\<close>): a user key followed by eight bytes that hold a sequence
  number and a value type. They are ordered by the user key and then by decreasing number, and
  this order is again a comparator. From here on the fixed-size integers are those of a
  little-endian machine, as the app's are.
\<close>

abbreviation "Fixed32 \<equiv> EncodeFixed32 True"
abbreviation "Fixed64 \<equiv> EncodeFixed64 True"

section \<open>Sequence numbers and types\<close>

definition kNumLevels :: nat where "kNumLevels = 7"
definition kL0_CompactionTrigger :: nat where "kL0_CompactionTrigger = 4"
definition kL0_SlowdownWritesTrigger :: nat where "kL0_SlowdownWritesTrigger = 8"
definition kL0_StopWritesTrigger :: nat where "kL0_StopWritesTrigger = 12"
definition kMaxMemCompactLevel :: nat where "kMaxMemCompactLevel = 2"
definition kReadBytesPeriod :: nat where "kReadBytesPeriod = 1048576"

text \<open>A \<open>ValueType\<close> cast from a byte may be none of the two, so it is kept as the byte.\<close>

type_synonym ValueType = byte

definition kTypeDeletion :: ValueType where "kTypeDeletion = 0"
definition kTypeValue :: ValueType where "kTypeValue = 1"
definition kValueTypeForSeek :: ValueType where "kValueTypeForSeek = kTypeValue"

type_synonym SequenceNumber = u64

definition kMaxSequenceNumber :: SequenceNumber where
  "kMaxSequenceNumber = push_bit 56 1 - 1"

record ParsedInternalKey =
  user_key :: slice
  sequence :: SequenceNumber
  type :: ValueType

definition InternalKeyEncodingLength :: "ParsedInternalKey \<Rightarrow> nat" where
  "InternalKeyEncodingLength k = length (user_key k) + 8"

text \<open>
  The assertions \<open>seq <= kMaxSequenceNumber\<close> and \<open>t <= kValueTypeForSeek\<close> are not part of the model, which is total;
  they are hypotheses of the lemmas.
\<close>

definition PackSequenceAndType :: "u64 \<Rightarrow> ValueType \<Rightarrow> u64" where
  "PackSequenceAndType seq t = push_bit 8 seq OR ucast t"

definition AppendInternalKey :: "byte list \<Rightarrow> ParsedInternalKey \<Rightarrow> byte list" where
  "AppendInternalKey result k =
     PutFixed64 True (result @ user_key k) (PackSequenceAndType (sequence k) (type k))"

text \<open>The assertion \<open>size() >= 8\<close> is not part of the model: of a shorter key it gives the empty key.\<close>

definition ExtractUserKey :: "slice \<Rightarrow> slice" where
  "ExtractUserKey k = take (length k - 8) k"

text \<open>\<open>DecodeFixed64(k.data() + k.size() - 8)\<close> of a key of at least eight bytes.\<close>

definition ExtractNumber :: "slice \<Rightarrow> u64" where
  "ExtractNumber k = (case DecodeFixed64 True (drop (length k - 8) k) of Some num \<Rightarrow> num | None \<Rightarrow> 0)"

definition ExtractValueType :: "slice \<Rightarrow> ValueType" where
  "ExtractValueType k = ucast (ExtractNumber k AND 0xff)"

definition ParseInternalKey :: "slice \<Rightarrow> ParsedInternalKey option" where
  "ParseInternalKey k =
     (if length k < 8 then None
      else
        let num = ExtractNumber k; c = ucast (num AND 0xff) in
        if c \<le> kTypeValue
        then Some \<lparr>user_key = take (length k - 8) k, sequence = drop_bit 8 num, type = c\<rparr>
        else None)"

text \<open>\<open>class InternalKey\<close>: the encoded key; empty is invalid.\<close>

definition InternalKey_new :: "slice \<Rightarrow> SequenceNumber \<Rightarrow> ValueType \<Rightarrow> slice" where
  "InternalKey_new u s t = AppendInternalKey [] \<lparr>user_key = u, sequence = s, type = t\<rparr>"

definition InternalKey_Encode :: "slice \<Rightarrow> slice option" where
  "InternalKey_Encode rep = (if rep = [] then None else Some rep)"

definition ParsedInternalKey_DebugString :: "ParsedInternalKey \<Rightarrow> byte list" where
  "ParsedInternalKey_DebugString k =
     [39] @ EscapeString (user_key k) @ bytes_of ''' @ '' @ decimal (unat (sequence k)) @ bytes_of '' : '' @
     decimal (unat (type k))"

definition InternalKey_DebugString :: "slice \<Rightarrow> byte list" where
  "InternalKey_DebugString rep =
     (case ParseInternalKey rep of
        Some parsed \<Rightarrow> ParsedInternalKey_DebugString parsed
      | None \<Rightarrow> bytes_of ''(bad)'' @ EscapeString rep)"

section \<open>The order of internal keys\<close>

definition Internal_Compare :: "Comparator \<Rightarrow> slice \<Rightarrow> slice \<Rightarrow> int" where
  "Internal_Compare user akey bkey =
     (let r = Compare user (ExtractUserKey akey) (ExtractUserKey bkey) in
      if r = 0 then
        let anum = ExtractNumber akey; bnum = ExtractNumber bkey in
        if bnum < anum then - 1 else if anum < bnum then 1 else r
      else r)"

definition shorten :: "Comparator \<Rightarrow> slice \<Rightarrow> slice \<Rightarrow> slice \<Rightarrow> slice" where
  "shorten user start user_start tmp =
     (if length tmp < length user_start \<and> Compare user user_start tmp < 0
      then PutFixed64 True tmp (PackSequenceAndType kMaxSequenceNumber kValueTypeForSeek)
      else start)"

definition Internal_FindShortestSeparator :: "Comparator \<Rightarrow> slice \<Rightarrow> slice \<Rightarrow> slice" where
  "Internal_FindShortestSeparator user start limit =
     (let user_start = ExtractUserKey start; user_limit = ExtractUserKey limit in
      shorten user start user_start (FindShortestSeparator user user_start user_limit))"

definition Internal_FindShortSuccessor :: "Comparator \<Rightarrow> slice \<Rightarrow> slice" where
  "Internal_FindShortSuccessor user k =
     (let uk = ExtractUserKey k in shorten user k uk (FindShortSuccessor user uk))"

definition InternalKeyComparator :: "Comparator \<Rightarrow> Comparator" where
  "InternalKeyComparator user =
     \<lparr>Compare = Internal_Compare user, Name = bytes_of ''leveldb.InternalKeyComparator'',
      FindShortestSeparator = Internal_FindShortestSeparator user,
      FindShortSuccessor = Internal_FindShortSuccessor user\<rparr>"

section \<open>Lookup keys\<close>

text \<open>The array from \<open>start_\<close> to \<open>end_\<close>, and where \<open>kstart_\<close> is in it.\<close>

definition LookupKey :: "slice \<Rightarrow> SequenceNumber \<Rightarrow> byte list \<times> nat" where
  "LookupKey uk s =
     (let len = EncodeVarint32 (of_nat (length uk + 8)) in
      (len @ uk @ Fixed64 (PackSequenceAndType s kValueTypeForSeek), length len))"

definition memtable_key :: "byte list \<times> nat \<Rightarrow> slice" where
  "memtable_key k = fst k"

definition lookup_internal_key :: "byte list \<times> nat \<Rightarrow> slice" where
  "lookup_internal_key k = drop (snd k) (fst k)"

definition lookup_user_key :: "byte list \<times> nat \<Rightarrow> slice" where
  "lookup_user_key k = take (length (fst k) - snd k - 8) (drop (snd k) (fst k))"

section \<open>Packing and parsing\<close>

lemma unat_pack:
  assumes "unat seq < 2 ^ 56"
  shows "unat (PackSequenceAndType seq t) = unat seq * 256 + unat t"
proof -
  have p: "unat (push_bit 8 seq) = unat seq * 256" using assms by (subst unat_push_bit) simp_all
  have t: "unat (ucast t :: u64) = unat t" by (simp add: unat_ucast_up)
  have "unat (ucast t OR push_bit 8 seq) = unat (ucast t :: u64) + unat (push_bit 8 seq)"
  proof (rule unat_or_disjoint)
    show "unat (ucast t :: u64) < 2 ^ 8" unfolding t using unat_lt_8 [of t] by simp
    show "2 ^ 8 dvd unat (push_bit 8 seq)" unfolding p by simp
  qed
  then show ?thesis by (simp only: PackSequenceAndType_def or.commute p t)
qed

lemma pack_parts:
  assumes "unat seq < 2 ^ 56"
  shows "drop_bit 8 (PackSequenceAndType seq t) = seq" and "ucast (PackSequenceAndType seq t AND 0xff) = t"
proof -
  have d: "(unat seq * 256 + unat t) div 256 = unat seq" "(unat seq * 256 + unat t) mod 256 = unat t"
    using unat_lt_8 [of t] by simp_all
  have "unat (drop_bit 8 (PackSequenceAndType seq t)) = unat seq"
    by (simp only: unat_drop_bit unat_pack [OF assms]) (use d(1) in simp)
  then show "drop_bit 8 (PackSequenceAndType seq t) = seq" by (simp only: word_unat_eq_iff)
  have "(ucast (PackSequenceAndType seq t AND 0xff) :: byte) = of_nat (unat (PackSequenceAndType seq t) mod 256)"
    by (simp only: ucast_of_nat_unat unat_and_mask8)
  also have "unat (PackSequenceAndType seq t) mod 256 = unat t" by (simp only: unat_pack [OF assms] d(2))
  finally show "ucast (PackSequenceAndType seq t AND 0xff) = t" by simp
qed

lemma InternalKey_parts [simp]:
  "ExtractUserKey (u @ Fixed64 n) = u" "ExtractNumber (u @ Fixed64 n) = n" "length (u @ Fixed64 n) = length u + 8"
  using Decode_Encode_Fixed64 [of True n "[]"] by (simp_all add: ExtractUserKey_def ExtractNumber_def)

lemma AppendInternalKey_eq:
  "AppendInternalKey [] k = user_key k @ Fixed64 (PackSequenceAndType (sequence k) (type k))"
  by (simp add: AppendInternalKey_def PutFixed64_def)

text \<open>An internal key is its user key and its number.\<close>

lemma internal_key_split:
  assumes "8 \<le> length k"
  shows "k = ExtractUserKey k @ Fixed64 (ExtractNumber k)"
proof -
  let ?t = "drop (length k - 8) k"
  have len: "length ?t = 8" using assms by simp
  then have "ExtractNumber k = of_nat (le_val ?t)"
    by (simp add: ExtractNumber_def DecodeFixed64_value del: length_drop)
  moreover have "le_val ?t < 2 ^ 64" using le_val_lt [of ?t] len by simp
  ultimately have "Fixed64 (ExtractNumber k) = le_bytes 8 (le_val ?t)"
    by (simp add: EncodeFixed64_bytes unsigned_of_nat take_bit_nat_eq_self)
  with le_bytes_val [OF len] show ?thesis by (simp add: ExtractUserKey_def)
qed

lemma Parse_Append:
  assumes "unat (sequence k) < 2 ^ 56" and "type k \<le> kTypeValue"
  shows "ParseInternalKey (AppendInternalKey [] k) = Some k"
proof -
  note parts = InternalKey_parts [of "user_key k" "PackSequenceAndType (sequence k) (type k)"]
  have "take (length (AppendInternalKey [] k) - 8) (AppendInternalKey [] k) = user_key k"
    using parts(1) by (simp only: AppendInternalKey_eq ExtractUserKey_def)
  then show ?thesis
    using parts(2,3) pack_parts [OF assms(1), of "type k"] assms(2)
    by (simp add: ParseInternalKey_def Let_def AppendInternalKey_eq)
qed

lemma Append_Parse:
  assumes "ParseInternalKey k = Some p"
  shows "AppendInternalKey [] p = k" and "unat (sequence p) < 2 ^ 56" and "type p \<le> kTypeValue"
proof -
  from assms have len: "8 \<le> length k" and p: "user_key p = ExtractUserKey k" "sequence p = drop_bit 8 (ExtractNumber k)"
      "type p = ucast (ExtractNumber k AND 0xff)" and ty: "type p \<le> kTypeValue"
    by (auto simp: ParseInternalKey_def Let_def ExtractUserKey_def split: if_splits)
  show "type p \<le> kTypeValue" by (rule ty)
  have "unat (sequence p) = unat (ExtractNumber k) div 256" by (simp add: p unat_drop_bit)
  then show small: "unat (sequence p) < 2 ^ 56" using unat_lt_64 [of "ExtractNumber k"] by (simp add: less_mult_imp_div_less)
  have "unat (type p) = unat (ExtractNumber k) mod 256"
    by (simp only: p ucast_of_nat_unat unat_and_mask8) (simp add: unat_of_nat_byte)
  then have "unat (PackSequenceAndType (sequence p) (type p)) = unat (ExtractNumber k)"
    using \<open>unat (sequence p) = _\<close> by (simp add: unat_pack [OF small])
  then have "PackSequenceAndType (sequence p) (type p) = ExtractNumber k" by (simp only: word_unat_eq_iff)
  then show "AppendInternalKey [] p = k" using internal_key_split [OF len] by (simp add: AppendInternalKey_eq p(1))
qed

lemma LookupKey_parts:
  "lookup_user_key (LookupKey u s) = u" "lookup_internal_key (LookupKey u s) = InternalKey_new u s kValueTypeForSeek"
  by (simp_all add: lookup_user_key_def lookup_internal_key_def LookupKey_def Let_def InternalKey_new_def
      AppendInternalKey_eq)

section \<open>The order is a comparator\<close>

context comparator
begin

definition ikey :: "slice \<Rightarrow> bool" where
  "ikey k \<longleftrightarrow> 8 \<le> length k \<and> key (ExtractUserKey k)"

lemma ikey_new [simp]: "ikey (u @ Fixed64 n) \<longleftrightarrow> key u"
  by (simp add: ikey_def)

lemma Internal_Compare_less:
  "Internal_Compare C a b < 0 \<longleftrightarrow> Compare C (ExtractUserKey a) (ExtractUserKey b) < 0 \<or>
     Compare C (ExtractUserKey a) (ExtractUserKey b) = 0 \<and> ExtractNumber b < ExtractNumber a"
  by (auto simp: Internal_Compare_def Let_def)

lemma Internal_Compare_greater:
  "0 < Internal_Compare C a b \<longleftrightarrow> 0 < Compare C (ExtractUserKey a) (ExtractUserKey b) \<or>
     Compare C (ExtractUserKey a) (ExtractUserKey b) = 0 \<and> ExtractNumber a < ExtractNumber b"
  by (auto simp: Internal_Compare_def Let_def)

lemma Internal_Compare_le:
  "Internal_Compare C a b \<le> 0 \<longleftrightarrow> Compare C (ExtractUserKey a) (ExtractUserKey b) < 0 \<or>
     Compare C (ExtractUserKey a) (ExtractUserKey b) = 0 \<and> ExtractNumber b \<le> ExtractNumber a"
  by (auto simp: Internal_Compare_def Let_def)

lemma max_pack: "PackSequenceAndType kMaxSequenceNumber kValueTypeForSeek = 0xFFFFFFFFFFFFFF01"
  by (simp add: PackSequenceAndType_def kMaxSequenceNumber_def kValueTypeForSeek_def kTypeValue_def)

lemma shorten_result:
  assumes "ikey a" and "key tmp" and "Compare C (ExtractUserKey a) tmp \<le> 0"
  shows "ikey (shorten C a (ExtractUserKey a) tmp) \<and>
    Internal_Compare C a (shorten C a (ExtractUserKey a) tmp) \<le> 0 \<and>
    (ExtractUserKey (shorten C a (ExtractUserKey a) tmp) = ExtractUserKey a \<and>
       shorten C a (ExtractUserKey a) tmp = a \<or>
     ExtractUserKey (shorten C a (ExtractUserKey a) tmp) = tmp \<and> Compare C (ExtractUserKey a) tmp < 0)"
  using assms by (auto simp: shorten_def PutFixed64_def Internal_Compare_le ikey_def)

lemma Internal_comparator: "comparator (InternalKeyComparator C) ikey"
proof unfold_locales
  fix a b c :: slice
  assume a: "ikey a" and b: "ikey b"
  then have ab: "key (ExtractUserKey a)" "key (ExtractUserKey b)" by (simp_all add: ikey_def)
  show "Compare (InternalKeyComparator C) b a < 0 \<longleftrightarrow> 0 < Compare (InternalKeyComparator C) a b"
    using flip [OF ab] equal [OF ab] equal [OF ab(2,1)]
    by (auto simp: InternalKeyComparator_def Internal_Compare_less Internal_Compare_greater)
  show "Compare (InternalKeyComparator C) a b = 0 \<longleftrightarrow> a = b"
  proof
    assume "Compare (InternalKeyComparator C) a b = 0"
    then have "Compare C (ExtractUserKey a) (ExtractUserKey b) = 0 \<and> ExtractNumber a = ExtractNumber b"
      by (auto simp: InternalKeyComparator_def Internal_Compare_def Let_def split: if_splits)
    then have "ExtractUserKey a = ExtractUserKey b \<and> ExtractNumber a = ExtractNumber b" using equal [OF ab] by simp
    then show "a = b" using internal_key_split [of a] internal_key_split [of b] a b by (simp add: ikey_def)
  next
    assume "a = b"
    then show "Compare (InternalKeyComparator C) a b = 0"
      using ab by (simp add: InternalKeyComparator_def Internal_Compare_def)
  qed
  {
    assume c: "ikey c" and "Compare (InternalKeyComparator C) a b \<le> 0" "Compare (InternalKeyComparator C) b c \<le> 0"
    then have 1: "Internal_Compare C a b \<le> 0" "Internal_Compare C b c \<le> 0" and kc: "key (ExtractUserKey c)"
      by (simp_all add: InternalKeyComparator_def ikey_def)
    show "Compare (InternalKeyComparator C) a c \<le> 0"
      using 1 less_trans [OF ab kc] equal [OF ab] equal [OF ab(2) kc] equal [OF ab(1) kc]
      unfolding InternalKeyComparator_def Comparator.simps Internal_Compare_le
      by (metis order_trans)
  }
  {
    assume "\<not> Compare (InternalKeyComparator C) a b < 0"
    then have "\<not> Compare C (ExtractUserKey a) (ExtractUserKey b) < 0"
      by (simp add: InternalKeyComparator_def Internal_Compare_less)
    from separator_unchanged [OF ab this] show "FindShortestSeparator (InternalKeyComparator C) a b = a"
      by (simp add: InternalKeyComparator_def Internal_FindShortestSeparator_def shorten_def)
  }
  {
    assume lt: "Compare (InternalKeyComparator C) a b < 0"
    let ?tmp = "FindShortestSeparator C (ExtractUserKey a) (ExtractUserKey b)"
    let ?s = "shorten C a (ExtractUserKey a) ?tmp"
    have sep: "ikey ?s \<and> Internal_Compare C a ?s \<le> 0 \<and> Internal_Compare C ?s b < 0"
    proof (cases "Compare C (ExtractUserKey a) (ExtractUserKey b) < 0")
      case True
      from separator [OF ab True] have t: "key ?tmp" "Compare C (ExtractUserKey a) ?tmp \<le> 0"
        "Compare C ?tmp (ExtractUserKey b) < 0" by simp_all
      from shorten_result [OF a t(1,2)] t(3) True lt show ?thesis
        by (auto simp: Internal_Compare_less InternalKeyComparator_def)
    next
      case False
      then have "shorten C a (ExtractUserKey a) ?tmp = a"
        using separator_unchanged [OF ab] by (simp add: shorten_def)
      with a lt show ?thesis by (simp add: InternalKeyComparator_def Internal_Compare_le ikey_def)
    qed
    then show "ikey (FindShortestSeparator (InternalKeyComparator C) a b) \<and>
        Compare (InternalKeyComparator C) a (FindShortestSeparator (InternalKeyComparator C) a b) \<le> 0 \<and>
        Compare (InternalKeyComparator C) (FindShortestSeparator (InternalKeyComparator C) a b) b < 0"
      by (simp add: InternalKeyComparator_def Internal_FindShortestSeparator_def Let_def)
  }
next
  fix a :: slice
  assume a: "ikey a"
  then have "key (ExtractUserKey a)" by (simp add: ikey_def)
  from successor [OF this] shorten_result [OF a]
  show "ikey (FindShortSuccessor (InternalKeyComparator C) a) \<and>
      Compare (InternalKeyComparator C) a (FindShortSuccessor (InternalKeyComparator C) a) \<le> 0"
    by (simp add: InternalKeyComparator_def Internal_FindShortSuccessor_def Let_def)
qed

end

interpretation internal_bytewise: comparator "InternalKeyComparator BytewiseComparator" bytewise.ikey
  by (rule bytewise.Internal_comparator)

end
