(* ===== verification/Ldb_Arena.thy ===== *)
theory Ldb_Arena
  imports Prelude
begin

text \<open>
  \<open>util/arena.{h,cc}\<close> and \<open>util/random.h\<close>. The arena hands out memory from blocks that it takes
  from \<open>new\<close>; the address that \<open>new\<close> returns, if it is called, is the parameter \<open>p\<close> of an operation.
  The invariant says that everything handed out so far lies in the blocks, does not overlap, and
  is disjoint from the part of the current block that is still free. Sizes are natural numbers: the
  properties bound the requests, so that the \<open>size_t\<close> of the code does not wrap around.
\<close>

section \<open>Random numbers\<close>

definition Random_new :: "u32 \<Rightarrow> u32" where
  "Random_new s =
     (let seed = s AND 0x7fffffff in if seed = 0 \<or> seed = 2147483647 then 1 else seed)"

text \<open>The new seed, which is also the number returned.\<close>

definition Random_Next :: "u32 \<Rightarrow> u32" where
  "Random_Next seed =
     (let M = 2147483647 :: u32; A = 16807 :: u64; product = ucast seed * A;
          seed = ucast (drop_bit 31 product + (product AND ucast M)) in
      if seed > M then seed - M else seed)"

definition Random_Uniform :: "u32 \<Rightarrow> u32 \<Rightarrow> u32 \<times> u32" where
  "Random_Uniform n seed = (let seed = Random_Next seed in (seed mod n, seed))"

definition Random_OneIn :: "u32 \<Rightarrow> u32 \<Rightarrow> bool \<times> u32" where
  "Random_OneIn n seed = (let seed = Random_Next seed in (seed mod n = 0, seed))"

definition Random_Skewed :: "nat \<Rightarrow> u32 \<Rightarrow> u32 \<times> u32" where
  "Random_Skewed max_log seed =
     (let (base, seed) = Random_Uniform (of_nat (max_log + 1)) seed in
      Random_Uniform (push_bit (unat base) 1) seed)"

definition good_seed :: "u32 \<Rightarrow> bool" where
  "good_seed seed \<longleftrightarrow> 0 < unat seed \<and> unat seed < 2147483647"

lemma unat_and_mask31: "unat (b AND 0x7fffffff :: 'a::len word) = unat b mod 2147483648" if "31 \<le> LENGTH('a)"
proof -
  have "b AND 0x7fffffff = take_bit 31 b" by (simp add: take_bit_eq_mask mask_eq_exp_minus_1)
  then have "unat (b AND 0x7fffffff) = take_bit 31 (unat b)" by (simp add: unsigned_take_bit_eq)
  then show ?thesis by (simp add: take_bit_eq_mod)
qed

lemma good_seed_new: "good_seed (Random_new s)"
proof -
  have "unat (s AND 0x7fffffff) < 2147483648" by (simp add: unat_and_mask31)
  then show ?thesis by (auto simp: Random_new_def Let_def good_seed_def word_unat_eq_iff)
qed

lemma fold_mod: "(n div 2147483648 + n mod 2147483648) mod 2147483647 = n mod (2147483647 :: nat)"
proof -
  have "n = 2147483647 * (n div 2147483648) + (n div 2147483648 + n mod 2147483648)" by simp
  then show ?thesis by (metis mod_mult_self4 add.commute mult.commute)
qed

lemma Random_Next_value:
  assumes "good_seed seed"
  shows "unat (Random_Next seed) = unat seed * 16807 mod 2147483647" and "good_seed (Random_Next seed)"
proof -
  let ?n = "unat seed * 16807" and ?M = "2147483647 :: nat"
  have s: "0 < unat seed" "unat seed < ?M" using assms by (simp_all add: good_seed_def)
  have "(ucast seed * 16807 :: u64) = of_nat ?n" by simp
  then have p: "unat (ucast seed * 16807 :: u64) = ?n"
    using s by (simp only: unsigned_of_nat) (simp add: take_bit_nat_eq_self)
  let ?s = "?n div 2147483648 + ?n mod 2147483648"
  have q: "?n div 2147483648 < 16807" using s by (simp add: less_mult_imp_div_less)
  have r: "?n mod 2147483648 < 2147483648" by simp
  let ?w = "drop_bit 31 (ucast seed * 16807 :: u64) + (ucast seed * 16807 AND ucast (2147483647 :: u32))"
  have m: "(ucast (2147483647 :: u32) :: u64) = 0x7fffffff" by simp
  have a: "unat (drop_bit 31 (ucast seed * 16807 :: u64)) = ?n div 2147483648"
    by (simp only: unat_drop_bit p) simp
  have b: "unat ((ucast seed * 16807 :: u64) AND 0x7fffffff) = ?n mod 2147483648"
    by (subst unat_and_mask31) (simp_all only: p, simp)
  have "unat ?w = ?s"
    unfolding m unat_word_ariths(1) a b using q r by (intro mod_less) simp
  moreover define w where "w = (ucast ?w :: u32)"
  ultimately have w: "unat w = ?s"
    using q r by (simp only: w_def unsigned_ucast_eq) (intro take_bit_nat_eq_self, simp)
  have next': "Random_Next seed = (if w > 2147483647 then w - 2147483647 else w)"
    by (simp add: Random_Next_def Let_def w_def)
  have nz: "?n mod ?M \<noteq> 0"
  proof
    assume "?n mod ?M = 0"
    then have "?M dvd unat seed * 16807" by (simp add: mod_0_imp_dvd)
    then have "?M dvd unat seed * 16807 * 1407677000" by (rule dvd_mult2)
    also have "unat seed * 16807 * 1407677000 = ?M * (11017 * unat seed) + unat seed" by simp
    finally have "?M dvd unat seed" by (simp only: dvd_add_right_iff [OF dvd_triv_left])
    with s show False using dvd_imp_le [of ?M "unat seed"] by linarith
  qed
  have eq: "?s mod ?M = ?n mod ?M" by (rule fold_mod)
  show value': "unat (Random_Next seed) = ?n mod ?M"
  proof (cases "?M < ?s")
    case True
    then have gt: "w > 2147483647" using w by (simp add: word_less_nat_alt)
    then have "2147483647 \<le> w" by simp
    then have "unat (w - 2147483647) = ?s - ?M" using w by (simp add: unat_sub word_le_nat_alt)
    moreover have "?s - ?M = ?s mod ?M"
    proof -
      have "?s mod ?M = (?s - ?M) mod ?M" by (rule le_mod_geq) (use True in linarith)
      also have "\<dots> = ?s - ?M" by (rule mod_less) (use True q r in linarith)
      finally show ?thesis by (rule sym)
    qed
    ultimately show ?thesis using gt eq by (simp add: next')
  next
    case False
    then have "\<not> w > 2147483647" using w by (simp add: word_less_nat_alt)
    moreover have "?s \<noteq> ?M" using eq nz by (metis mod_self)
    ultimately show ?thesis using False w eq by (simp add: next')
  qed
  show "good_seed (Random_Next seed)"
    using nz unfolding good_seed_def value' by simp
qed

section \<open>The arena\<close>

text \<open>Addresses are numbers, 0 is \<open>NULL\<close>; a block is its address with its size.\<close>

record Arena =
  alloc_ptr :: nat
  alloc_bytes_remaining :: nat
  blocks :: "(nat \<times> nat) list"
  memory_usage :: nat

definition arena_block_size :: nat where
  "arena_block_size = 4096"

definition Arena_new :: Arena where
  "Arena_new = \<lparr>alloc_ptr = 0, alloc_bytes_remaining = 0, blocks = [], memory_usage = 0\<rparr>"

definition AllocateNewBlock :: "nat \<Rightarrow> nat \<Rightarrow> Arena \<Rightarrow> nat \<times> Arena" where
  "AllocateNewBlock p block_bytes a =
     (p, a\<lparr>blocks := blocks a @ [(p, block_bytes)], memory_usage := memory_usage a + block_bytes + 8\<rparr>)"

definition AllocateFallback :: "nat \<Rightarrow> nat \<Rightarrow> Arena \<Rightarrow> nat \<times> Arena" where
  "AllocateFallback p bytes a =
     (if bytes > arena_block_size div 4 then AllocateNewBlock p bytes a
      else
        let (q, a) = AllocateNewBlock p arena_block_size a;
            a = a\<lparr>alloc_ptr := q, alloc_bytes_remaining := arena_block_size\<rparr>;
            result = alloc_ptr a in
        (result, a\<lparr>alloc_ptr := alloc_ptr a + bytes, alloc_bytes_remaining := alloc_bytes_remaining a - bytes\<rparr>))"

text \<open>Nothing stands for the failed assertion on an allocation of no bytes.\<close>

definition Arena_Allocate :: "nat \<Rightarrow> nat \<Rightarrow> Arena \<Rightarrow> (nat \<times> Arena) option" where
  "Arena_Allocate p bytes a =
     (if bytes = 0 then None
      else if bytes \<le> alloc_bytes_remaining a
      then Some (alloc_ptr a, a\<lparr>alloc_ptr := alloc_ptr a + bytes,
        alloc_bytes_remaining := alloc_bytes_remaining a - bytes\<rparr>)
      else Some (AllocateFallback p bytes a))"

definition Arena_AllocateAligned :: "nat \<Rightarrow> nat \<Rightarrow> Arena \<Rightarrow> (nat \<times> Arena) option" where
  "Arena_AllocateAligned p bytes a =
     (let align = 8; current_mod = alloc_ptr a mod align;
          slop = (if current_mod = 0 then 0 else align - current_mod);
          needed = bytes + slop;
          (result, a) =
            (if needed \<le> alloc_bytes_remaining a
             then (alloc_ptr a + slop, a\<lparr>alloc_ptr := alloc_ptr a + needed,
               alloc_bytes_remaining := alloc_bytes_remaining a - needed\<rparr>)
             else AllocateFallback p bytes a) in
      if result mod align = 0 then Some (result, a) else None)"

section \<open>Allocations do not overlap\<close>

text \<open>Regions as address and length.\<close>

definition region :: "nat \<times> nat \<Rightarrow> nat set" where
  "region r = {fst r..<fst r + snd r}"

definition disjoint_regions :: "(nat \<times> nat) list \<Rightarrow> bool" where
  "disjoint_regions rs \<longleftrightarrow> sorted_wrt (\<lambda>r s. region r \<inter> region s = {}) rs"

text \<open>What \<open>new\<close> promises: memory outside all blocks, aligned for any object.\<close>

definition fresh_block :: "nat \<Rightarrow> nat \<Rightarrow> Arena \<Rightarrow> bool" where
  "fresh_block p n a \<longleftrightarrow> p mod 8 = 0 \<and> (\<forall>b \<in> set (blocks a). region (p, n) \<inter> region b = {})"

text \<open>
  \<open>given\<close> are the allocations so far. The free part of the current block counts as one more region.
\<close>

definition arena_inv :: "(nat \<times> nat) list \<Rightarrow> Arena \<Rightarrow> bool" where
  "arena_inv given a \<longleftrightarrow>
     disjoint_regions ((alloc_ptr a, alloc_bytes_remaining a) # given) \<and>
     (\<forall>r \<in> set ((alloc_ptr a, alloc_bytes_remaining a) # given).
        region r \<subseteq> (\<Union>b \<in> set (blocks a). region b)) \<and>
     memory_usage a = sum_list (map (\<lambda>b. snd b + 8) (blocks a))"

lemma arena_inv_new: "arena_inv [] Arena_new"
  by (simp add: arena_inv_def Arena_new_def disjoint_regions_def region_def)

lemma region_parts:
  "region (p, n) \<inter> region (p + n, m) = {}" "k + n \<le> m \<Longrightarrow> region (p + k, n) \<subseteq> region (p, m)"
  "k + n \<le> m \<Longrightarrow> region (p + (k + n), m - (k + n)) \<subseteq> region (p, m)"
  "region (p + k, n) \<inter> region (p + (k + n), m - (k + n)) = {}"
  by (auto simp: region_def)

lemma arena_invI:
  assumes "region (alloc_ptr a, alloc_bytes_remaining a) \<inter> region r = {}"
    and "\<forall>s \<in> set given. region (alloc_ptr a, alloc_bytes_remaining a) \<inter> region s = {}"
    and "\<forall>s \<in> set given. region r \<inter> region s = {}" and "disjoint_regions given"
    and "region (alloc_ptr a, alloc_bytes_remaining a) \<subseteq> (\<Union>b \<in> set (blocks a). region b)"
    and "region r \<subseteq> (\<Union>b \<in> set (blocks a). region b)"
    and "\<forall>s \<in> set given. region s \<subseteq> (\<Union>b \<in> set (blocks a). region b)"
    and "memory_usage a = sum_list (map (\<lambda>b. snd b + 8) (blocks a))"
  shows "arena_inv (r # given) a"
  using assms by (simp add: arena_inv_def disjoint_regions_def)

lemma arena_invD:
  assumes "arena_inv given a"
  shows "\<forall>s \<in> set given. region (alloc_ptr a, alloc_bytes_remaining a) \<inter> region s = {}"
    and "disjoint_regions given"
    and "region (alloc_ptr a, alloc_bytes_remaining a) \<subseteq> (\<Union>b \<in> set (blocks a). region b)"
    and "\<forall>s \<in> set given. region s \<subseteq> (\<Union>b \<in> set (blocks a). region b)"
    and "memory_usage a = sum_list (map (\<lambda>b. snd b + 8) (blocks a))"
  using assms by (simp_all add: arena_inv_def disjoint_regions_def)

lemma sub_disjoint:
  "region r \<subseteq> region f \<Longrightarrow> \<forall>s \<in> A. region f \<inter> region s = {} \<Longrightarrow> \<forall>s \<in> A. region r \<inter> region s = {}"
  by blast

text \<open>Taking from the current block, with a gap for alignment.\<close>

lemma take_from_block:
  assumes inv: "arena_inv given a" and n: "k + n \<le> alloc_bytes_remaining a"
  shows "arena_inv ((alloc_ptr a + k, n) # given)
    (a\<lparr>alloc_ptr := alloc_ptr a + (k + n), alloc_bytes_remaining := alloc_bytes_remaining a - (k + n)\<rparr>)"
proof -
  note sub = region_parts(2,3) [OF n, of "alloc_ptr a"]
  note i = arena_invD [OF inv]
  have dis: "region (alloc_ptr a + (k + n), alloc_bytes_remaining a - (k + n)) \<inter> region (alloc_ptr a + k, n) = {}"
    using region_parts(4) [of "alloc_ptr a" k n "alloc_bytes_remaining a"] by blast
  show ?thesis
    by (rule arena_invI)
      (use dis i(2,4,5) sub_disjoint [OF sub(1) i(1)] sub_disjoint [OF sub(2) i(1)]
        subset_trans [OF sub(1) i(3)] subset_trans [OF sub(2) i(3)] in simp_all)
qed

lemma new_block:
  assumes inv: "arena_inv given a" and p: "fresh_block p m a" and n: "n \<le> m"
  shows "arena_inv ((p, n) # given) (a\<lparr>blocks := blocks a @ [(p, m)], memory_usage := memory_usage a + m + 8\<rparr>)"
    and "arena_inv ((p, n) # given) (a\<lparr>blocks := blocks a @ [(p, m)], memory_usage := memory_usage a + m + 8,
      alloc_ptr := p + n, alloc_bytes_remaining := m - n\<rparr>)"
proof -
  note i = arena_invD [OF inv]
  have sub: "region (p, n) \<subseteq> region (p, m)" "region (p + n, m - n) \<subseteq> region (p, m)"
    "region (p + n, m - n) \<inter> region (p, n) = {}" using n by (auto simp: region_def)
  have new: "region (p, m) \<inter> (\<Union>b \<in> set (blocks a). region b) = {}" using p by (auto simp: fresh_block_def)
  have out: "region (alloc_ptr a, alloc_bytes_remaining a) \<inter> region (p, n) = {}"
    "\<forall>s \<in> set given. region (p, m) \<inter> region s = {}"
    using new i(3) sub(1) apply blast
    using new i(4) by blast
  have cov: "region s \<subseteq> (\<Union>b \<in> set (blocks a @ [(p, m)]). region b)"
    if "region s \<subseteq> region (p, m) \<or> region s \<subseteq> (\<Union>b \<in> set (blocks a). region b)" for s
    using that by (auto simp: subset_eq)
  have covered: "region (p, n) \<subseteq> (\<Union>b \<in> set (blocks a @ [(p, m)]). region b)"
    "region (p + n, m - n) \<subseteq> (\<Union>b \<in> set (blocks a @ [(p, m)]). region b)"
    "region (alloc_ptr a, alloc_bytes_remaining a) \<subseteq> (\<Union>b \<in> set (blocks a @ [(p, m)]). region b)"
    "\<forall>s \<in> set given. region s \<subseteq> (\<Union>b \<in> set (blocks a @ [(p, m)]). region b)"
    using cov [OF disjI1, OF sub(1)] cov [OF disjI1, OF sub(2)] cov [OF disjI2, OF i(3)] cov [OF disjI2] i(4)
    by simp_all
  have usage: "memory_usage a + m + 8 = sum_list (map (\<lambda>b. snd b + 8) (blocks a @ [(p, m)]))" using i(5) by simp
  note rest = i(2) sub_disjoint [OF sub(1) out(2)] covered(1,4) usage
  obtain bs where bs: "blocks a @ [(p, m)] = bs" by blast
  show "arena_inv ((p, n) # given) (a\<lparr>blocks := blocks a @ [(p, m)], memory_usage := memory_usage a + m + 8\<rparr>)"
    using out(1) i(1) rest covered(3) unfolding bs by (simp add: arena_inv_def disjoint_regions_def)
  show "arena_inv ((p, n) # given) (a\<lparr>blocks := blocks a @ [(p, m)], memory_usage := memory_usage a + m + 8,
      alloc_ptr := p + n, alloc_bytes_remaining := m - n\<rparr>)"
    using sub(3) sub_disjoint [OF sub(2) out(2)] rest covered(2) unfolding bs
    by (simp add: arena_inv_def disjoint_regions_def)
qed

lemma AllocateFallback_inv:
  assumes "arena_inv given a" and "fresh_block p (max bytes arena_block_size) a"
    and "AllocateFallback p bytes a = (q, a')"
  shows "arena_inv ((q, bytes) # given) a' \<and> q mod 8 = 0"
proof -
  have fresh: "fresh_block p m a" if "m \<le> max bytes arena_block_size" for m
  proof -
    have "region (p, m) \<subseteq> region (p, max bytes arena_block_size)" using that by (auto simp: region_def)
    with assms(2) show ?thesis unfolding fresh_block_def by blast
  qed
  show ?thesis
  proof (cases "bytes > arena_block_size div 4")
    case True
    then have "q = p" "a' = a\<lparr>blocks := blocks a @ [(p, bytes)], memory_usage := memory_usage a + bytes + 8\<rparr>"
      using assms(3) by (auto simp: AllocateFallback_def AllocateNewBlock_def)
    with new_block(1) [OF assms(1) fresh, of bytes bytes] assms(2) show ?thesis by (simp add: fresh_block_def)
  next
    case False
    then have le: "bytes \<le> arena_block_size" by (simp add: arena_block_size_def)
    from False have "q = p" "a' = a\<lparr>blocks := blocks a @ [(p, arena_block_size)],
        memory_usage := memory_usage a + arena_block_size + 8,
        alloc_ptr := p + bytes, alloc_bytes_remaining := arena_block_size - bytes\<rparr>"
      using assms(3) by (auto simp: AllocateFallback_def AllocateNewBlock_def Let_def)
    with new_block(2) [OF assms(1) fresh le] assms(2) show ?thesis by (simp add: fresh_block_def)
  qed
qed

lemma Allocate_inv:
  assumes "arena_inv given a" and "fresh_block p (max bytes arena_block_size) a"
    and "Arena_Allocate p bytes a = Some (q, a')"
  shows "arena_inv ((q, bytes) # given) a'"
  using assms take_from_block [OF assms(1), of 0 bytes] AllocateFallback_inv [OF assms(1,2)]
  by (auto simp: Arena_Allocate_def split: if_splits)

lemma AllocateAligned_inv:
  assumes "arena_inv given a" and "fresh_block p (max bytes arena_block_size) a"
  shows "\<exists>q a'. Arena_AllocateAligned p bytes a = Some (q, a') \<and> q mod 8 = 0 \<and> arena_inv ((q, bytes) # given) a'"
proof -
  let ?slop = "if alloc_ptr a mod 8 = 0 then 0 else 8 - alloc_ptr a mod 8"
  have aligned: "(alloc_ptr a + ?slop) mod 8 = 0" by (simp split: if_splits) presburger
  show ?thesis
  proof (cases "bytes + ?slop \<le> alloc_bytes_remaining a")
    case True
    then have "?slop + bytes \<le> alloc_bytes_remaining a" by simp
    from take_from_block [OF assms(1) this] True aligned show ?thesis
      by (simp add: Arena_AllocateAligned_def Let_def add.commute)
  next
    case False
    obtain q a' where q: "AllocateFallback p bytes a = (q, a')" by fastforce
    from AllocateFallback_inv [OF assms q] False q show ?thesis
      by (simp add: Arena_AllocateAligned_def Let_def split: if_splits)
  qed
qed

end
