(* ===== verification/Ldb_Base_Props.thy ===== *)
theory Ldb_Base_Props
  imports Ldb_Crc32c Ldb_DbFormat Ldb_Arena Ldb_Status
begin

text \<open>
  Properties of the parts LevelDB is built from: the checksum, the coding of numbers and keys, the
  order of internal keys, file names, the arena and the random numbers of the skip list.
\<close>

section \<open>Checksum and coding\<close>

text \<open>C15: the table-driven, unrolled checksum is CRC-32C. For any bytes, byte order and alignment of
  the buffer, \<open>Extend\<close> looks at no byte outside it and gives what the bit-by-bit definition gives, and
  extending the checksum of a prefix by the rest gives the checksum of the whole; \<open>Mask\<close> loses nothing.\<close>

theorem Extend_is_crc32c:
  "Extend little addr crc (xs @ ys) = Some (crc32c crc (xs @ ys)) \<and>
   Option.bind (Extend little addr crc xs) (\<lambda>c. Extend little' addr' c ys) = Extend little addr crc (xs @ ys) \<and>
   map_option (\<lambda>c. Unmask (Mask c)) (crc32c_Value little addr xs) = Some (crc32c 0 xs)"
  by (simp add: Extend_crc32c crc32c_append Unmask_Mask crc32c_Value_def)

text \<open>C20: what the encoders write the decoders read back, leaving whatever follows, on machines of
  either byte order; a length-prefixed slice must be shorter than \<open>2 ^ 32\<close> bytes.\<close>

theorem coding_roundtrip:
  assumes "length s < 2 ^ 32"
  shows "GetVarint32 (PutVarint32 [] v @ rest) = Some (v, rest) \<and>
    GetVarint64 (PutVarint64 [] w @ rest) = Some (w, rest) \<and>
    VarintLength w = length (PutVarint64 [] w) \<and>
    DecodeFixed32 little (PutFixed32 little' [] v @ rest) = Some v \<and>
    DecodeFixed64 little (PutFixed64 little' [] w @ rest) = Some w \<and>
    GetLengthPrefixedSlice (PutLengthPrefixedSlice [] s @ rest) = Some (s, rest)"
  using assms varint32.dec_enc varint64.dec_enc length_prefixed.dec_enc
  by (simp add: GetVarint32_def GetVarint64_def PutVarint32_def PutVarint64_def PutFixed32_def PutFixed64_def
      VarintLength_bytes EncodeVarint64_bytes DecodeFixed32_value DecodeFixed64_value EncodeFixed32_bytes
      EncodeFixed64_bytes le_val_bytes_32 le_val_bytes_64)

lemma coding_roundtrip_witness:
  "GetVarint32 (PutVarint32 [] 300 @ [7]) = Some (300, [7]) \<and>
    GetVarint64 (PutVarint64 [] 5 @ [7]) = Some (5, [7]) \<and>
    VarintLength 5 = length (PutVarint64 [] 5) \<and>
    DecodeFixed32 True (PutFixed32 False [] 300 @ [7]) = Some 300 \<and>
    DecodeFixed64 True (PutFixed64 False [] 5 @ [7]) = Some 5 \<and>
    GetLengthPrefixedSlice (PutLengthPrefixedSlice [] [1, 2] @ [7]) = Some ([1, 2], [7])"
  by (rule coding_roundtrip) simp

lemma is_varint_last: "is_varint bs \<Longrightarrow> \<exists>b \<in> set bs. \<not> 128 \<le> unat b"
  by (induction bs rule: is_varint.induct) auto

text \<open>C21: reading a 32-bit varint from any bytes either uses one varint of at most five bytes, whose
  value is taken modulo \<open>2 ^ 32\<close>, or fails, which it does exactly when the first five bytes (or all there
  are, if fewer) say that more follow.\<close>

theorem GetVarint32_result:
  "(GetVarint32 p = None \<longleftrightarrow> list_all (\<lambda>b. 128 \<le> unat b) (take 5 p)) \<and>
   (GetVarint32 p = None \<or>
    (\<exists>bs rest. p = bs @ rest \<and> is_varint bs \<and> length bs \<le> 5 \<and>
      GetVarint32 p = Some (of_nat (varint_val bs), rest)))"
proof (rule varint_or_continued [of p 5])
  fix bs rest
  assume bs: "p = bs @ rest" "is_varint bs" "length bs \<le> 5"
  from is_varint_last [OF bs(2)] bs(1,3) have "\<not> list_all (\<lambda>b. 128 \<le> unat b) (take 5 p)"
    by (auto simp: list_all_iff)
  with bs GetVarint32Ptr_value [of bs rest] show ?thesis by (auto simp: GetVarint32_def)
next
  assume "\<And>b. b \<in> set (take 5 p) \<Longrightarrow> 128 \<le> unat b"
  with GetVarint32Ptr_None [of p] show ?thesis by (auto simp: GetVarint32_def list_all_iff)
qed

section \<open>Keys\<close>

text \<open>C19: \<open>ParseInternalKey\<close> accepts exactly the encodings of keys with a sequence number of 56 bits and
  a known type, and gives back the key that was encoded.\<close>

theorem ParseInternalKey_exact:
  "ParseInternalKey k = Some p \<longleftrightarrow>
     k = AppendInternalKey [] p \<and> sequence p \<le> kMaxSequenceNumber \<and> type p \<in> {kTypeDeletion, kTypeValue}"
proof -
  have s: "x \<le> kMaxSequenceNumber \<longleftrightarrow> unat x < 2 ^ 56" for x
    by (simp add: kMaxSequenceNumber_def word_le_nat_alt) linarith
  have t: "x \<in> {kTypeDeletion, kTypeValue} \<longleftrightarrow> x \<le> kTypeValue" for x
    by (auto simp: kTypeDeletion_def kTypeValue_def word_le_nat_alt word_unat_eq_iff)
  show ?thesis unfolding s t using Parse_Append [of p] Append_Parse [of k p] by blast
qed

lemma InternalKey_new_parts:
  "ExtractUserKey (InternalKey_new u s t) = u" "ExtractNumber (InternalKey_new u s t) = PackSequenceAndType s t"
  by (simp_all add: InternalKey_new_def AppendInternalKey_eq)

lemma Compare_simps:
  "Compare (InternalKeyComparator C) = Internal_Compare C" "Compare BytewiseComparator = Slice_compare"
  by (simp_all add: InternalKeyComparator_def BytewiseComparator_def)

text \<open>C17: internal keys are ordered by user key, and for one user key the newest comes first: by
  falling sequence number, then by falling type.\<close>

theorem internal_key_order:
  assumes "s \<le> kMaxSequenceNumber" and "s' \<le> kMaxSequenceNumber"
  shows "Compare (InternalKeyComparator BytewiseComparator) (InternalKey_new u s t) (InternalKey_new v s' t') < 0 \<longleftrightarrow>
    Slice_compare u v < 0 \<or> u = v \<and> (s' < s \<or> s' = s \<and> t' < t)"
proof -
  have lt: "unat s < 2 ^ 56" "unat s' < 2 ^ 56"
    using assms by (simp_all add: kMaxSequenceNumber_def word_le_nat_alt)
  have "PackSequenceAndType s' t' < PackSequenceAndType s t \<longleftrightarrow> s' < s \<or> s' = s \<and> t' < t"
    using unat_lt_8 [of t] unat_lt_8 [of t']
    by (auto simp: word_less_nat_alt word_unat_eq_iff unat_pack [OF lt(1)] unat_pack [OF lt(2)])
  then show ?thesis
    by (simp add: Compare_simps bytewise.Internal_Compare_less InternalKey_new_parts)
qed

lemma internal_key_order_witness:
  "Compare (InternalKeyComparator BytewiseComparator) (InternalKey_new [97] 7 kTypeValue) (InternalKey_new [97] 6 kTypeDeletion) < 0 \<longleftrightarrow>
    Slice_compare [97] [97] < 0 \<or> [97 :: byte] = [97] \<and> ((6 :: u64) < 7 \<or> (6 :: u64) = 7 \<and> kTypeDeletion < kTypeValue)"
  by (rule internal_key_order) (simp_all add: kMaxSequenceNumber_def)

text \<open>C18: a key shortened for an index stays between its neighbours. For internal keys \<open>a\<close> before \<open>b\<close>
  the separator is an internal key no longer than \<open>a\<close>, not before \<open>a\<close> and before \<open>b\<close>, and the short
  successor of \<open>a\<close> is one not before \<open>a\<close>.\<close>

lemma separator_length: "length (Bytewise_FindShortestSeparator a b) \<le> length a"
  by (auto simp: Bytewise_FindShortestSeparator_def Let_def)

lemma internal_separator_length:
  "8 \<le> length a \<Longrightarrow> length (Internal_FindShortestSeparator BytewiseComparator a b) \<le> length a"
  by (auto simp: Internal_FindShortestSeparator_def shorten_def PutFixed64_def BytewiseComparator_def Let_def
      ExtractUserKey_def)

theorem index_keys_between:
  assumes "8 \<le> length a" and "8 \<le> length b"
    and "Compare (InternalKeyComparator BytewiseComparator) a b < 0"
  shows "8 \<le> length (FindShortestSeparator (InternalKeyComparator BytewiseComparator) a b) \<and>
    length (FindShortestSeparator (InternalKeyComparator BytewiseComparator) a b) \<le> length a \<and>
    Compare (InternalKeyComparator BytewiseComparator) a
      (FindShortestSeparator (InternalKeyComparator BytewiseComparator) a b) \<le> 0 \<and>
    Compare (InternalKeyComparator BytewiseComparator)
      (FindShortestSeparator (InternalKeyComparator BytewiseComparator) a b) b < 0 \<and>
    8 \<le> length (FindShortSuccessor (InternalKeyComparator BytewiseComparator) a) \<and>
    Compare (InternalKeyComparator BytewiseComparator) a
      (FindShortSuccessor (InternalKeyComparator BytewiseComparator) a) \<le> 0"
proof -
  have k: "bytewise.ikey a" "bytewise.ikey b" using assms(1,2) by (simp_all add: bytewise.ikey_def)
  have "length (FindShortestSeparator (InternalKeyComparator BytewiseComparator) a b) \<le> length a"
    using internal_separator_length [OF assms(1), of b] by (simp add: InternalKeyComparator_def)
  with internal_bytewise.separator [OF k assms(3)] internal_bytewise.successor [OF k(1)] show ?thesis
    unfolding bytewise.ikey_def by blast
qed

lemma index_keys_between_witness:
  "8 \<le> length (FindShortestSeparator (InternalKeyComparator BytewiseComparator) ([1, 2, 3] @ Fixed64 1) ([7] @ Fixed64 1)) \<and>
    length (FindShortestSeparator (InternalKeyComparator BytewiseComparator) ([1, 2, 3] @ Fixed64 1) ([7] @ Fixed64 1)) \<le> length ([1, 2, 3] @ Fixed64 1) \<and>
    Compare (InternalKeyComparator BytewiseComparator) ([1, 2, 3] @ Fixed64 1)
      (FindShortestSeparator (InternalKeyComparator BytewiseComparator) ([1, 2, 3] @ Fixed64 1) ([7] @ Fixed64 1)) \<le> 0 \<and>
    Compare (InternalKeyComparator BytewiseComparator)
      (FindShortestSeparator (InternalKeyComparator BytewiseComparator) ([1, 2, 3] @ Fixed64 1) ([7] @ Fixed64 1)) ([7] @ Fixed64 1) < 0 \<and>
    8 \<le> length (FindShortSuccessor (InternalKeyComparator BytewiseComparator) ([1, 2, 3] @ Fixed64 1)) \<and>
    Compare (InternalKeyComparator BytewiseComparator) ([1, 2, 3] @ Fixed64 1)
      (FindShortSuccessor (InternalKeyComparator BytewiseComparator) ([1, 2, 3] @ Fixed64 1)) \<le> 0"
  by (rule index_keys_between)
    (simp_all add: InternalKeyComparator_def Internal_Compare_def ExtractUserKey_def BytewiseComparator_def)

section \<open>Names and messages\<close>

lemma made_names [simp]:
  "0 < n \<Longrightarrow> LogFileName db n = Some (db @ 47 # decimal_6 (unat n) @ bytes_of ''.log'')"
  "0 < n \<Longrightarrow> TableFileName db n = Some (db @ 47 # decimal_6 (unat n) @ bytes_of ''.ldb'')"
  "0 < n \<Longrightarrow> SSTTableFileName db n = Some (db @ 47 # decimal_6 (unat n) @ bytes_of ''.sst'')"
  "0 < n \<Longrightarrow> TempFileName db n = Some (db @ 47 # decimal_6 (unat n) @ bytes_of ''.dbtmp'')"
  "0 < n \<Longrightarrow> DescriptorFileName db n = Some (db @ 47 # bytes_of ''MANIFEST-'' @ decimal_6 (unat n))"
  by (simp_all add: LogFileName_def TableFileName_def SSTTableFileName_def TempFileName_def DescriptorFileName_def
      MakeFileName_def)

lemma parse_made:
  "ParseFileName (decimal_6 (unat n) @ bytes_of ''.log'') = Some (n, kLogFile)"
  "ParseFileName (decimal_6 (unat n) @ bytes_of ''.ldb'') = Some (n, kTableFile)"
  "ParseFileName (decimal_6 (unat n) @ bytes_of ''.sst'') = Some (n, kTableFile)"
  "ParseFileName (decimal_6 (unat n) @ bytes_of ''.dbtmp'') = Some (n, kTempFile)"
  by (subst ParseFileName_numbered [OF decimal_6_digits, where n = n]; simp add: is_digit_def)+

text \<open>C22: file names keep the number and the kind of the file. The name made for a database directory
  and a positive number parses, without the directory, to exactly that number and kind.\<close>

theorem file_name_roundtrip:
  assumes "0 < n"
  shows "map_option (\<lambda>f. ParseFileName (drop (length db + 1) f)) (LogFileName db n) = Some (Some (n, kLogFile)) \<and>
    map_option (\<lambda>f. ParseFileName (drop (length db + 1) f)) (TableFileName db n) = Some (Some (n, kTableFile)) \<and>
    map_option (\<lambda>f. ParseFileName (drop (length db + 1) f)) (SSTTableFileName db n) = Some (Some (n, kTableFile)) \<and>
    map_option (\<lambda>f. ParseFileName (drop (length db + 1) f)) (TempFileName db n) = Some (Some (n, kTempFile)) \<and>
    map_option (\<lambda>f. ParseFileName (drop (length db + 1) f)) (DescriptorFileName db n) = Some (Some (n, kDescriptorFile)) \<and>
    ParseFileName (drop (length db + 1) (CurrentFileName db)) = Some (0, kCurrentFile) \<and>
    ParseFileName (drop (length db + 1) (LockFileName db)) = Some (0, kDBLockFile) \<and>
    ParseFileName (drop (length db + 1) (InfoLogFileName db)) = Some (0, kInfoLogFile)"
proof -
  have "ParseFileName (drop (length db + 1) (CurrentFileName db)) = Some (0, kCurrentFile)"
    "ParseFileName (drop (length db + 1) (LockFileName db)) = Some (0, kDBLockFile)"
    "ParseFileName (drop (length db + 1) (InfoLogFileName db)) = Some (0, kInfoLogFile)"
    by (simp_all add: CurrentFileName_def LockFileName_def InfoLogFileName_def ParseFileName_def)
  with assms parse_made [of n] ParseFileName_manifest [of n] show ?thesis
    by (simp only: made_names option.map) simp
qed

lemma file_name_roundtrip_witness:
  "map_option (\<lambda>f. ParseFileName (drop (length [100 :: byte] + 1) f)) (LogFileName [100] 12) = Some (Some (12, kLogFile)) \<and>
    map_option (\<lambda>f. ParseFileName (drop (length [100 :: byte] + 1) f)) (TableFileName [100] 12) = Some (Some (12, kTableFile)) \<and>
    map_option (\<lambda>f. ParseFileName (drop (length [100 :: byte] + 1) f)) (SSTTableFileName [100] 12) = Some (Some (12, kTableFile)) \<and>
    map_option (\<lambda>f. ParseFileName (drop (length [100 :: byte] + 1) f)) (TempFileName [100] 12) = Some (Some (12, kTempFile)) \<and>
    map_option (\<lambda>f. ParseFileName (drop (length [100 :: byte] + 1) f)) (DescriptorFileName [100] 12) = Some (Some (12, kDescriptorFile)) \<and>
    ParseFileName (drop (length [100 :: byte] + 1) (CurrentFileName [100])) = Some (0, kCurrentFile) \<and>
    ParseFileName (drop (length [100 :: byte] + 1) (LockFileName [100])) = Some (0, kDBLockFile) \<and>
    ParseFileName (drop (length [100 :: byte] + 1) (InfoLogFileName [100])) = Some (0, kInfoLogFile)"
  by (rule file_name_roundtrip) simp

section \<open>Memory and random numbers\<close>

text \<open>
  A run of allocations: each asks for aligned memory or not, and for a number of bytes; \<open>p\<close> is the
  block that \<open>new\<close> would return. The allocations made are collected, the latest first.
\<close>

datatype request = Request (aligned: bool) (bytes: nat) (new_block_at: nat)

fun arena_run :: "request list \<Rightarrow> (nat \<times> nat) list \<Rightarrow> Arena \<Rightarrow> ((nat \<times> nat) list \<times> Arena) option" where
  "arena_run [] given a = Some (given, a)"
| "arena_run (Request al n p # rs) given a =
     (case (if al then Arena_AllocateAligned p n a else Arena_Allocate p n a) of None \<Rightarrow> None
      | Some (q, a') \<Rightarrow> arena_run rs ((q, n) # given) a')"

text \<open>What the run relies on: sizes are positive and \<open>new\<close> returns fresh aligned memory.\<close>

fun requests_ok :: "request list \<Rightarrow> Arena \<Rightarrow> bool" where
  "requests_ok [] a = True"
| "requests_ok (Request al n p # rs) a \<longleftrightarrow> 0 < n \<and> fresh_block p (max n arena_block_size) a \<and>
     (case (if al then Arena_AllocateAligned p n a else Arena_Allocate p n a) of None \<Rightarrow> True
      | Some (q, a') \<Rightarrow> requests_ok rs a')"

lemma Allocate_some: "0 < n \<Longrightarrow> \<exists>q a'. Arena_Allocate p n a = Some (q, a')"
  by (auto simp: Arena_Allocate_def intro: surj_pair)

lemma arena_run_inv:
  assumes "arena_inv given a" and "requests_ok rs a"
  shows "\<exists>given' a'. arena_run rs given a = Some (given' @ given, a') \<and> arena_inv (given' @ given) a' \<and>
    map snd given' = rev (map bytes rs) \<and>
    list_all2 (\<lambda>r g. \<not> aligned r \<or> fst g mod 8 = 0) rs (rev given')"
  using assms
proof (induction rs arbitrary: given a)
  case (Cons r rs)
  obtain al n p where r: "r = Request al n p" by (cases r)
  from Cons.prems(2) have n: "0 < n" and p: "fresh_block p (max n arena_block_size) a" by (simp_all add: r)
  obtain q a' where q: "(if al then Arena_AllocateAligned p n a else Arena_Allocate p n a) = Some (q, a')"
      "arena_inv ((q, n) # given) a'" "\<not> al \<or> q mod 8 = 0"
  proof (cases al)
    case True
    with AllocateAligned_inv [OF Cons.prems(1) p] that show ?thesis by auto
  next
    case False
    from Allocate_some [OF n] obtain q a' where "Arena_Allocate p n a = Some (q, a')" by blast
    with Allocate_inv [OF Cons.prems(1) p this] False that show ?thesis by auto
  qed
  from Cons.prems(2) q(1) have "requests_ok rs a'" by (simp add: r)
  from Cons.IH [OF q(2) this] obtain given' a'' where
    "arena_run rs ((q, n) # given) a' = Some (given' @ (q, n) # given, a'')" "arena_inv (given' @ (q, n) # given) a''"
    "map snd given' = rev (map bytes rs)" "list_all2 (\<lambda>r g. \<not> aligned r \<or> fst g mod 8 = 0) rs (rev given')" by blast
  with q show ?case by (intro exI [of _ "given' @ [(q, n)]"] exI [of _ a'']) (simp add: r)
qed simp

text \<open>C16: allocations never overlap. Whatever mixture of aligned and unaligned allocations is made from
  a new arena, each succeeds with the number of bytes asked for, aligned where asked; all lie within
  the blocks the arena owns, no two share a byte, and \<open>MemoryUsage\<close> is the size of the blocks with a
  pointer for each.\<close>

theorem arena_allocations:
  assumes "requests_ok rs Arena_new"
  shows "\<exists>given a. arena_run rs [] Arena_new = Some (given, a) \<and>
    map snd given = rev (map bytes rs) \<and>
    sorted_wrt (\<lambda>g h. region g \<inter> region h = {}) given \<and>
    (\<Union> (region ` set given)) \<subseteq> (\<Union> (region ` set (blocks a))) \<and>
    list_all2 (\<lambda>r g. \<not> aligned r \<or> fst g mod 8 = 0) rs (rev given) \<and>
    memory_usage a = sum_list (map (\<lambda>b. snd b + 8) (blocks a))"
proof -
  from arena_run_inv [OF arena_inv_new assms] obtain given a where run:
    "arena_run rs [] Arena_new = Some (given, a)" "arena_inv given a" "map snd given = rev (map bytes rs)"
    "list_all2 (\<lambda>r g. \<not> aligned r \<or> fst g mod 8 = 0) rs (rev given)" by auto
  with arena_invD [OF run(2)] show ?thesis
    by (intro exI [of _ given] exI [of _ a]) (auto simp: disjoint_regions_def)
qed

lemma arena_allocations_witness:
  "\<exists>given a. arena_run [Request False 5 8000, Request True 4 16000] [] Arena_new = Some (given, a) \<and>
    map snd given = rev (map bytes [Request False 5 8000, Request True 4 16000]) \<and>
    sorted_wrt (\<lambda>g h. region g \<inter> region h = {}) given \<and>
    (\<Union> (region ` set given)) \<subseteq> (\<Union> (region ` set (blocks a))) \<and>
    list_all2 (\<lambda>r g. \<not> aligned r \<or> fst g mod 8 = 0) [Request False 5 8000, Request True 4 16000] (rev given) \<and>
    memory_usage a = sum_list (map (\<lambda>b. snd b + 8) (blocks a))"
proof (rule arena_allocations)
  show "requests_ok [Request False 5 8000, Request True 4 16000] Arena_new"
    by (simp add: Arena_new_def fresh_block_def Arena_Allocate_def AllocateFallback_def AllocateNewBlock_def
        arena_block_size_def Arena_AllocateAligned_def Let_def region_def)
qed

text \<open>The shift-and-add of \<open>Random::Next\<close> is multiplication by 16807 modulo the prime \<open>2 ^ 31 - 1\<close>.
  From any seed the constructor gives, every number drawn lies strictly between 0 and that prime.\<close>

theorem random_numbers:
  "good_seed ((Random_Next ^^ n) (Random_new s)) \<and>
   unat ((Random_Next ^^ (n + 1)) (Random_new s)) =
     unat ((Random_Next ^^ n) (Random_new s)) * 16807 mod (2 ^ 31 - 1)"
proof -
  have "good_seed ((Random_Next ^^ n) (Random_new s))"
    by (induction n) (simp_all add: good_seed_new Random_Next_value(2))
  then show ?thesis by (simp add: Random_Next_value(1))
qed

end
