(* ===== verification/Ldb_SkipList.thy ===== *)
theory Ldb_SkipList
  imports Ldb_Arena Ldb_Comparator
begin

text \<open>
  The skip list of the memtable, \<open>db/skiplist.h\<close>: nodes are numbered in the order in which they are
  allocated, the head is node 0 and \<open>NULL\<close> is Nothing. A link of a new node holds no value until it is
  set; every access to a link or a key is checked, so that Nothing as the result of an operation
  stands for a failed assertion, an access outside an array or the use of an unset link.
\<close>

section \<open>The order of keys\<close>

text \<open>What the list needs of its comparator; keys that compare equal need not be the same.\<close>

locale key_order =
  fixes cmp :: "'k \<Rightarrow> 'k \<Rightarrow> int" and valid :: "'k \<Rightarrow> bool"
  assumes cmp_flip: "valid a \<Longrightarrow> valid b \<Longrightarrow> cmp b a < 0 \<longleftrightarrow> 0 < cmp a b"
    and cmp_trans: "valid a \<Longrightarrow> valid b \<Longrightarrow> valid c \<Longrightarrow> cmp a b \<le> 0 \<Longrightarrow> cmp b c \<le> 0 \<Longrightarrow> cmp a c \<le> 0"
begin

lemma cmp_refl: "valid a \<Longrightarrow> cmp a a = 0"
  using cmp_flip [of a a] by linarith

lemma cmp_le_less: "valid a \<Longrightarrow> valid b \<Longrightarrow> valid c \<Longrightarrow> cmp a b \<le> 0 \<Longrightarrow> cmp b c < 0 \<Longrightarrow> cmp a c < 0"
  using cmp_trans [of c a b] cmp_flip [of a c] cmp_flip [of c a] cmp_flip [of b c] cmp_flip [of c b] by linarith

lemma cmp_less_le: "valid a \<Longrightarrow> valid b \<Longrightarrow> valid c \<Longrightarrow> cmp a b < 0 \<Longrightarrow> cmp b c \<le> 0 \<Longrightarrow> cmp a c < 0"
  using cmp_trans [of b c a] cmp_flip [of a c] cmp_flip [of c a] cmp_flip [of a b] cmp_flip [of b a] by linarith

lemma cmp_less_trans: "valid a \<Longrightarrow> valid b \<Longrightarrow> valid c \<Longrightarrow> cmp a b < 0 \<Longrightarrow> cmp b c < 0 \<Longrightarrow> cmp a c < 0"
  using cmp_le_less [of a b c] by simp

lemma not_less_le: "valid a \<Longrightarrow> valid b \<Longrightarrow> \<not> cmp a b < 0 \<longleftrightarrow> cmp b a \<le> 0"
  using cmp_flip [of a b] cmp_flip [of b a] by linarith

end

sublocale comparator \<subseteq> key_order "Compare C" key
  by unfold_locales (fact flip, fact trans)

section \<open>Nodes\<close>

record 'k Node =
  node_key :: 'k
  next_links :: "nat option option list"

record 'k SkipList =
  nodes :: "'k Node list"
  max_height :: nat
  rnd :: u32

definition kMaxHeight :: nat where
  "kMaxHeight = 12"

definition head_node :: nat where
  "head_node = 0"

definition Node_key :: "'k SkipList \<Rightarrow> nat \<Rightarrow> 'k option" where
  "Node_key s x = (if x < length (nodes s) then Some (node_key (nodes s ! x)) else None)"

definition Node_Next :: "'k SkipList \<Rightarrow> nat \<Rightarrow> nat \<Rightarrow> nat option option" where
  "Node_Next s x n =
     (if x < length (nodes s) \<and> n < length (next_links (nodes s ! x)) then next_links (nodes s ! x) ! n else None)"

definition Node_SetNext :: "nat \<Rightarrow> nat \<Rightarrow> nat option \<Rightarrow> 'k SkipList \<Rightarrow> 'k SkipList option" where
  "Node_SetNext x n v s =
     (if x < length (nodes s) \<and> n < length (next_links (nodes s ! x))
      then Some (s\<lparr>nodes := (nodes s)[x := (nodes s ! x)\<lparr>next_links := (next_links (nodes s ! x))[n := Some v]\<rparr>]\<rparr>)
      else None)"

definition NewNode :: "'k \<Rightarrow> nat \<Rightarrow> 'k SkipList \<Rightarrow> nat \<times> 'k SkipList" where
  "NewNode k height s =
     (length (nodes s), s\<lparr>nodes := nodes s @ [\<lparr>node_key = k, next_links = replicate height None\<rparr>]\<rparr>)"

text \<open>The new list: \<open>any_key\<close> is the key of the head. Its links are set one after the other.\<close>

definition SkipList_new :: "'k \<Rightarrow> 'k SkipList option" where
  "SkipList_new any_key =
     (let (head, s) = NewNode any_key kMaxHeight \<lparr>nodes = [], max_height = 1, rnd = Random_new 0xdeadbeef\<rparr> in
      foldl (\<lambda>s i. Option.bind s (Node_SetNext head i None)) (Some s) [0..<kMaxHeight])"

section \<open>Random heights\<close>

function RandomHeight_loop :: "nat \<Rightarrow> u32 \<Rightarrow> nat \<times> u32" where
  "RandomHeight_loop height seed =
     (if height < kMaxHeight then
        let seed = Random_Next seed in
        if seed mod 4 = 0 then RandomHeight_loop (height + 1) seed else (height, seed)
      else (height, seed))"
  by pat_completeness auto
termination by (relation "measure (\<lambda>(height, _). kMaxHeight - height)") auto

declare RandomHeight_loop.simps [simp del]

definition RandomHeight :: "'k SkipList \<Rightarrow> nat \<times> 'k SkipList" where
  "RandomHeight s = (let (height, seed) = RandomHeight_loop 1 (rnd s) in (height, s\<lparr>rnd := seed\<rparr>))"

section \<open>Searching\<close>

definition KeyIsAfterNode :: "('k \<Rightarrow> 'k \<Rightarrow> int) \<Rightarrow> 'k SkipList \<Rightarrow> 'k \<Rightarrow> nat option \<Rightarrow> bool option" where
  "KeyIsAfterNode cmp s k n =
     (case n of None \<Rightarrow> Some False | Some x \<Rightarrow> map_option (\<lambda>nk. cmp nk k < 0) (Node_key s x))"

text \<open>
  The loops may run for ever on a list that is not well formed. \<open>prev\<close> is the array to fill, if one
  is given.
\<close>

definition set_prev :: "nat \<Rightarrow> nat \<Rightarrow> nat option list option \<Rightarrow> nat option list option option" where
  "set_prev level x prev =
     (case prev of None \<Rightarrow> Some None
      | Some ps \<Rightarrow> if level < length ps then Some (Some (ps[level := Some x])) else None)"

partial_function (option) FindGreaterOrEqual_loop ::
  "('k \<Rightarrow> 'k \<Rightarrow> int) \<Rightarrow> 'k SkipList \<Rightarrow> 'k \<Rightarrow> nat \<Rightarrow> nat \<Rightarrow> nat option list option \<Rightarrow>
   (nat option \<times> nat option list option) option" where
  "FindGreaterOrEqual_loop cmp s k x level prev =
     Option.bind (Node_Next s x level) (\<lambda>next.
     Option.bind (KeyIsAfterNode cmp s k next) (\<lambda>after.
     if after then FindGreaterOrEqual_loop cmp s k (the next) level prev
     else Option.bind (set_prev level x prev) (\<lambda>prev.
       if level = 0 then Some (next, prev) else FindGreaterOrEqual_loop cmp s k x (level - 1) prev)))"

definition FindGreaterOrEqual ::
  "('k \<Rightarrow> 'k \<Rightarrow> int) \<Rightarrow> 'k SkipList \<Rightarrow> 'k \<Rightarrow> nat option list option \<Rightarrow>
   (nat option \<times> nat option list option) option" where
  "FindGreaterOrEqual cmp s k prev =
     (if max_height s = 0 then None else FindGreaterOrEqual_loop cmp s k head_node (max_height s - 1) prev)"

partial_function (option) FindLessThan_loop ::
  "('k \<Rightarrow> 'k \<Rightarrow> int) \<Rightarrow> 'k SkipList \<Rightarrow> 'k \<Rightarrow> nat \<Rightarrow> nat \<Rightarrow> nat option" where
  "FindLessThan_loop cmp s k x level =
     Option.bind (if x = head_node then Some True else KeyIsAfterNode cmp s k (Some x)) (\<lambda>before.
     if \<not> before then None else
     Option.bind (Node_Next s x level) (\<lambda>next.
     Option.bind (KeyIsAfterNode cmp s k next) (\<lambda>after.
     if \<not> after then
       (if level = 0 then Some x else FindLessThan_loop cmp s k x (level - 1))
     else FindLessThan_loop cmp s k (the next) level)))"

definition FindLessThan :: "('k \<Rightarrow> 'k \<Rightarrow> int) \<Rightarrow> 'k SkipList \<Rightarrow> 'k \<Rightarrow> nat option" where
  "FindLessThan cmp s k =
     (if max_height s = 0 then None else FindLessThan_loop cmp s k head_node (max_height s - 1))"

partial_function (option) FindLast_loop :: "'k SkipList \<Rightarrow> nat \<Rightarrow> nat \<Rightarrow> nat option" where
  "FindLast_loop s x level =
     Option.bind (Node_Next s x level) (\<lambda>next.
     case next of
       None \<Rightarrow> if level = 0 then Some x else FindLast_loop s x (level - 1)
     | Some y \<Rightarrow> FindLast_loop s y level)"

definition FindLast :: "'k SkipList \<Rightarrow> nat option" where
  "FindLast s = (if max_height s = 0 then None else FindLast_loop s head_node (max_height s - 1))"

section \<open>Inserting\<close>

text \<open>One round of the linking loop: the new node's link at level \<open>i\<close>, then the one of its predecessor.\<close>

definition link_level :: "nat option list \<Rightarrow> nat \<Rightarrow> nat \<Rightarrow> 'k SkipList \<Rightarrow> 'k SkipList option" where
  "link_level prev x i s =
     (if i < length prev then
        Option.bind (prev ! i) (\<lambda>p.
        Option.bind (Node_Next s p i) (\<lambda>n.
        Option.bind (Node_SetNext x i n s) (\<lambda>s. Node_SetNext p i (Some x) s)))
      else None)"

fun link_levels :: "nat option list \<Rightarrow> nat \<Rightarrow> nat \<Rightarrow> 'k SkipList \<Rightarrow> 'k SkipList option" where
  "link_levels prev x 0 s = Some s"
| "link_levels prev x (Suc i) s = Option.bind (link_levels prev x i s) (link_level prev x i)"

text \<open>Before the links are made: the predecessors, the height and the new node.\<close>

definition prepare ::
  "('k \<Rightarrow> 'k \<Rightarrow> int) \<Rightarrow> 'k \<Rightarrow> 'k SkipList \<Rightarrow> (nat option list \<times> nat \<times> nat \<times> 'k SkipList) option" where
  "prepare cmp k s =
     Option.bind (FindGreaterOrEqual cmp s k (Some (replicate kMaxHeight None))) (\<lambda>(x, prev).
     Option.bind (case x of None \<Rightarrow> Some False | Some y \<Rightarrow> map_option (\<lambda>yk. cmp k yk = 0) (Node_key s y)) (\<lambda>equal.
     if equal then None else
     let (height, s) = RandomHeight s in
     if \<not> (0 < height \<and> height \<le> kMaxHeight) then None else
     let prev = the prev;
         (prev, s) = (if max_height s < height
           then (foldl (\<lambda>ps i. ps[i := Some head_node]) prev [max_height s..<height], s\<lparr>max_height := height\<rparr>)
           else (prev, s));
         (x, s) = NewNode k height s in
     Some (prev, height, x, s)))"

definition Insert :: "('k \<Rightarrow> 'k \<Rightarrow> int) \<Rightarrow> 'k \<Rightarrow> 'k SkipList \<Rightarrow> 'k SkipList option" where
  "Insert cmp k s =
     Option.bind (prepare cmp k s) (\<lambda>(prev, height, x, s). link_levels prev x height s)"

definition Contains :: "('k \<Rightarrow> 'k \<Rightarrow> int) \<Rightarrow> 'k \<Rightarrow> 'k SkipList \<Rightarrow> bool option" where
  "Contains cmp k s =
     Option.bind (FindGreaterOrEqual cmp s k None) (\<lambda>(x, _).
     case x of None \<Rightarrow> Some False | Some y \<Rightarrow> map_option (\<lambda>yk. cmp k yk = 0) (Node_key s y))"

section \<open>Iterators\<close>

text \<open>An iterator is its node; the list it belongs to is an argument.\<close>

definition Iterator_new :: "nat option" where
  "Iterator_new = None"

definition Iterator_Valid :: "nat option \<Rightarrow> bool" where
  "Iterator_Valid it \<longleftrightarrow> it \<noteq> None"

definition Iterator_key :: "'k SkipList \<Rightarrow> nat option \<Rightarrow> 'k option" where
  "Iterator_key s it = Option.bind it (Node_key s)"

definition Iterator_Next :: "'k SkipList \<Rightarrow> nat option \<Rightarrow> nat option option" where
  "Iterator_Next s it = Option.bind it (\<lambda>x. Node_Next s x 0)"

definition before_head :: "nat \<Rightarrow> nat option" where
  "before_head x = (if x = head_node then None else Some x)"

definition Iterator_Prev :: "('k \<Rightarrow> 'k \<Rightarrow> int) \<Rightarrow> 'k SkipList \<Rightarrow> nat option \<Rightarrow> nat option option" where
  "Iterator_Prev cmp s it =
     Option.bind (Iterator_key s it) (\<lambda>k. map_option before_head (FindLessThan cmp s k))"

definition Iterator_Seek :: "('k \<Rightarrow> 'k \<Rightarrow> int) \<Rightarrow> 'k SkipList \<Rightarrow> 'k \<Rightarrow> nat option option" where
  "Iterator_Seek cmp s target = map_option fst (FindGreaterOrEqual cmp s target None)"

definition Iterator_SeekToFirst :: "'k SkipList \<Rightarrow> nat option option" where
  "Iterator_SeekToFirst s = Node_Next s head_node 0"

definition Iterator_SeekToLast :: "'k SkipList \<Rightarrow> nat option option" where
  "Iterator_SeekToLast s = map_option before_head (FindLast s)"

end
