(* ===== verification/Ldb_SkipList_Inv.thy ===== *)
theory Ldb_SkipList_Inv
  imports Ldb_SkipList
begin

text \<open>
  The invariant of the skip list, for a list \<open>ns\<close> of its nodes in the order of their keys and a
  number \<open>h x\<close> of linked levels for each node: the link of a node at level \<open>i\<close> points to the next node
  in \<open>ns\<close> that is linked at that level. All levels of a node are linked except while it is inserted, so
  the same invariant describes the list between the steps of \<open>Insert\<close>.
\<close>

section \<open>Lists\<close>

lemma find_append: "List.find P (xs @ ys) = (case List.find P xs of None \<Rightarrow> List.find P ys | Some x \<Rightarrow> Some x)"
  by (induction xs) auto

lemma find_SomeD: "List.find P xs = Some y \<Longrightarrow> \<exists>as bs. xs = as @ y # bs \<and> P y \<and> (\<forall>x \<in> set as. \<not> P x)"
proof (induction xs)
  case (Cons x xs)
  show ?case
  proof (cases "P x")
    case True
    with Cons.prems show ?thesis by (intro exI [of _ "[]"] exI [of _ xs]) auto
  next
    case False
    with Cons obtain as bs where "xs = as @ y # bs" "P y" "\<forall>x \<in> set as. \<not> P x" by auto
    with False show ?thesis by (intro exI [of _ "x # as"] exI [of _ bs]) auto
  qed
qed simp

lemma find_NoneI: "(\<forall>x \<in> set xs. \<not> P x) \<Longrightarrow> List.find P xs = None"
  by (simp add: find_None_iff)

lemma filter_takeWhile_find:
  "(case List.find P xs of None \<Rightarrow> True | Some y \<Rightarrow> \<not> Q y) \<Longrightarrow> filter P (takeWhile Q xs) = []"
  by (induction xs) (auto split: if_splits)

lemma last_Cons_append: "last (x # as @ bs) = last (last (x # as) # bs)"
  by (induction as arbitrary: x) auto

lemma distinct_last_eq: "distinct (0 # as @ bs) \<Longrightarrow> last (0 # as) = last (0 # (as @ bs)) \<Longrightarrow> bs = []"
  by (cases bs rule: rev_cases) (auto split: if_splits)

lemma update_eq_map: "xs[i := y] = map (\<lambda>j. if j = i then y else xs ! j) [0..<length xs]"
  by (intro nth_equalityI) (auto simp: nth_list_update)

section \<open>The invariant\<close>

definition key_at :: "'k SkipList \<Rightarrow> nat \<Rightarrow> 'k" where
  "key_at s x = node_key (nodes s ! x)"

definition links_ok :: "'k SkipList \<Rightarrow> (nat \<Rightarrow> nat) \<Rightarrow> nat list \<Rightarrow> bool" where
  "links_ok s h ns \<longleftrightarrow>
     (\<forall>as bs i. ns = as @ bs \<longrightarrow> i < h (last (0 # as)) \<longrightarrow>
        Node_Next s (last (0 # as)) i = Some (List.find (\<lambda>n. i < h n) bs))"

definition nodes_ok :: "'k SkipList \<Rightarrow> (nat \<Rightarrow> nat) \<Rightarrow> nat list \<Rightarrow> bool" where
  "nodes_ok s h ns \<longleftrightarrow> distinct (0 # ns) \<and> set ns \<subseteq> {..<length (nodes s)} \<and> nodes s \<noteq> [] \<and>
     h 0 = kMaxHeight \<and> (\<forall>x \<in> set ns. 1 \<le> h x \<and> h x \<le> kMaxHeight)"

definition sorted_keys :: "('k \<Rightarrow> 'k \<Rightarrow> int) \<Rightarrow> ('k \<Rightarrow> bool) \<Rightarrow> 'k list \<Rightarrow> bool" where
  "sorted_keys cmp valid ks \<longleftrightarrow> sorted_wrt (\<lambda>a b. cmp a b < 0) ks \<and> (\<forall>k \<in> set ks. valid k)"

definition linked :: "('k \<Rightarrow> 'k \<Rightarrow> int) \<Rightarrow> ('k \<Rightarrow> bool) \<Rightarrow> 'k SkipList \<Rightarrow> (nat \<Rightarrow> nat) \<Rightarrow> nat list \<Rightarrow> bool" where
  "linked cmp valid s h ns \<longleftrightarrow> links_ok s h ns \<and> nodes_ok s h ns \<and> sorted_keys cmp valid (map (key_at s) ns)"

text \<open>A search for \<open>k\<close> has come to node \<open>x\<close>, the last of \<open>as\<close>, whose keys are before \<open>k\<close>.\<close>

definition position ::
  "('k \<Rightarrow> 'k \<Rightarrow> int) \<Rightarrow> 'k SkipList \<Rightarrow> (nat \<Rightarrow> nat) \<Rightarrow> nat list \<Rightarrow> 'k \<Rightarrow> nat \<Rightarrow> nat \<Rightarrow> nat list \<Rightarrow> nat list \<Rightarrow> bool" where
  "position cmp s h ns k x level as bs \<longleftrightarrow>
     ns = as @ bs \<and> x = last (0 # as) \<and> level < h x \<and> (\<forall>n \<in> set as. cmp (key_at s n) k < 0)"

text \<open>The nodes before \<open>k\<close> and the others.\<close>

definition nodes_before :: "('k \<Rightarrow> 'k \<Rightarrow> int) \<Rightarrow> 'k SkipList \<Rightarrow> nat list \<Rightarrow> 'k \<Rightarrow> nat list" where
  "nodes_before cmp s ns k = takeWhile (\<lambda>n. cmp (key_at s n) k < 0) ns"

definition nodes_from :: "('k \<Rightarrow> 'k \<Rightarrow> int) \<Rightarrow> 'k SkipList \<Rightarrow> nat list \<Rightarrow> 'k \<Rightarrow> nat list" where
  "nodes_from cmp s ns k = dropWhile (\<lambda>n. cmp (key_at s n) k < 0) ns"

definition first_of :: "'a list \<Rightarrow> 'a option" where
  "first_of xs = (case xs of [] \<Rightarrow> None | x # _ \<Rightarrow> Some x)"

lemma first_of_simps [simp]: "first_of [] = None" "first_of (x # xs) = Some x"
  by (simp_all add: first_of_def)

lemma before_from: "nodes_before cmp s ns k @ nodes_from cmp s ns k = ns"
  by (simp add: nodes_before_def nodes_from_def)

text \<open>The predecessor of \<open>k\<close> at a level.\<close>

definition pred_at :: "('k \<Rightarrow> 'k \<Rightarrow> int) \<Rightarrow> 'k SkipList \<Rightarrow> (nat \<Rightarrow> nat) \<Rightarrow> nat list \<Rightarrow> 'k \<Rightarrow> nat \<Rightarrow> nat" where
  "pred_at cmp s h ns k level = last (0 # filter (\<lambda>n. level < h n) (nodes_before cmp s ns k))"

lemma Node_key_at: "x < length (nodes s) \<Longrightarrow> Node_key s x = Some (key_at s x)"
  by (simp add: Node_key_def key_at_def)

lemma KeyIsAfterNode_at:
  "n = None \<or> the n < length (nodes s) \<Longrightarrow>
    KeyIsAfterNode cmp s k n = Some (n \<noteq> None \<and> cmp (key_at s (the n)) k < 0)"
  by (cases n) (auto simp: KeyIsAfterNode_def Node_key_at)

lemma linkedD:
  assumes "linked cmp valid s h ns"
  shows "ns = as @ bs \<Longrightarrow> i < h (last (0 # as)) \<Longrightarrow>
      Node_Next s (last (0 # as)) i = Some (List.find (\<lambda>n. i < h n) bs)"
    and "distinct (0 # ns)" and "x \<in> set ns \<Longrightarrow> x < length (nodes s)" and "0 < length (nodes s)"
    and "h 0 = 12" and "x \<in> set ns \<Longrightarrow> 0 < h x" and "x \<in> set ns \<Longrightarrow> h x \<le> 12"
    and "sorted_wrt (\<lambda>a b. cmp (key_at s a) (key_at s b) < 0) ns" and "x \<in> set ns \<Longrightarrow> valid (key_at s x)"
  using assms by (auto simp: linked_def links_ok_def nodes_ok_def kMaxHeight_def sorted_keys_def sorted_wrt_map)

section \<open>Searching\<close>

context key_order
begin

lemma position_start: "linked cmp valid s h ns \<Longrightarrow> level < 12 \<Longrightarrow> position cmp s h ns k 0 level [] ns"
  by (simp add: position_def linkedD(5))

lemma position_drop: "position cmp s h ns k x level as bs \<Longrightarrow> position cmp s h ns k x (level - 1) as bs"
  by (auto simp: position_def)

lemma position_step:
  assumes l: "linked cmp valid s h ns" and k: "valid k" and p: "position cmp s h ns k x level as bs"
  defines "next \<equiv> List.find (\<lambda>n. level < h n) bs"
  shows "Node_Next s x level = Some next"
    and "KeyIsAfterNode cmp s k next = Some (next \<noteq> None \<and> cmp (key_at s (the next)) k < 0)"
    and "next \<noteq> None \<Longrightarrow> cmp (key_at s (the next)) k < 0 \<Longrightarrow>
      \<exists>as' bs'. position cmp s h ns k (the next) level as' bs' \<and> length bs' < length bs"
    and "\<not> (next \<noteq> None \<and> cmp (key_at s (the next)) k < 0) \<Longrightarrow> pred_at cmp s h ns k level = x"
    and "\<not> (next \<noteq> None \<and> cmp (key_at s (the next)) k < 0) \<Longrightarrow> level = 0 \<Longrightarrow>
      nodes_before cmp s ns k = as \<and> nodes_from cmp s ns k = bs \<and> next = first_of bs"
proof -
  have ns: "ns = as @ bs" and x: "x = last (0 # as)" and lv: "level < h x"
    and lt: "\<forall>n \<in> set as. cmp (key_at s n) k < 0" 
    by (rule p [unfolded position_def, THEN conjunct1]
        p [unfolded position_def, THEN conjunct2, THEN conjunct1]
        p [unfolded position_def, THEN conjunct2, THEN conjunct2, THEN conjunct1]
        p [unfolded position_def, THEN conjunct2, THEN conjunct2, THEN conjunct2])+
  show "Node_Next s x level = Some next" unfolding x next_def
    by (rule linkedD(1) [OF l ns]) (rule lv [unfolded x])
  have inb: "next = None \<or> the next \<in> set ns"
    unfolding next_def by (cases "List.find (\<lambda>n. level < h n) bs") (auto simp: ns dest: find_SomeD)
  then show "KeyIsAfterNode cmp s k next = Some (next \<noteq> None \<and> cmp (key_at s (the next)) k < 0)"
    using linkedD(3) [OF l] by (intro KeyIsAfterNode_at) auto
  {
    assume n: "next \<noteq> None" "cmp (key_at s (the next)) k < 0"
    then obtain y where y: "next = Some y" "cmp (key_at s y) k < 0" by auto
    then obtain cs ds where bs: "bs = cs @ y # ds" "level < h y" unfolding next_def by (blast dest: find_SomeD)
    have "cmp (key_at s n) k < 0" if "n \<in> set cs" for n
    proof (rule cmp_less_trans [OF _ _ k _ y(2)])
      show "valid (key_at s n)" "valid (key_at s y)" using that bs by (auto intro: linkedD(9) [OF l] simp: ns)
      show "cmp (key_at s n) (key_at s y) < 0"
        using linkedD(8) [OF l] that by (auto simp: ns bs sorted_wrt_append)
    qed
    with lt y bs show "\<exists>as' bs'. position cmp s h ns k (the next) level as' bs' \<and> length bs' < length bs"
      by (intro exI [of _ "as @ cs @ [y]"] exI [of _ ds]) (auto simp: position_def ns)
  }
  assume "\<not> (next \<noteq> None \<and> cmp (key_at s (the next)) k < 0)"
  then have stop: "case List.find (\<lambda>n. level < h n) bs of None \<Rightarrow> True | Some y \<Rightarrow> \<not> cmp (key_at s y) k < 0"
    by (auto simp: next_def split: option.splits)
  have b: "nodes_before cmp s ns k = as @ takeWhile (\<lambda>n. cmp (key_at s n) k < 0) bs"
    using lt by (simp add: nodes_before_def ns)
  have nil: "filter (\<lambda>n. level < h n) (takeWhile (\<lambda>n. cmp (key_at s n) k < 0) bs) = []"
    by (rule filter_takeWhile_find [OF stop])
  show "pred_at cmp s h ns k level = x"
    using lv x unfolding pred_at_def b filter_append nil append_Nil2
    by (cases as rule: rev_cases) auto
  assume "level = 0"
  then have all: "filter (\<lambda>n. level < h n) bs = bs" 
    using linkedD(6) [OF l] by (auto simp: ns intro: filter_True)
  have "next = first_of bs" unfolding next_def using \<open>level = 0\<close> linkedD(6) [OF l]
    by (cases bs) (auto simp: ns)
  moreover have "takeWhile (\<lambda>n. cmp (key_at s n) k < 0) bs = []"
    using stop \<open>level = 0\<close> linkedD(6) [OF l] by (cases bs) (auto simp: ns)
  ultimately show "nodes_before cmp s ns k = as \<and> nodes_from cmp s ns k = bs \<and> next = first_of bs"
    using b before_from [of cmp s ns k] by (simp add: ns)
qed

lemma FindGreaterOrEqual_loop_value:
  assumes l: "linked cmp valid s h ns" and k: "valid k" and p: "position cmp s h ns k x level as bs"
    and "case prev of None \<Rightarrow> True | Some ps \<Rightarrow> level < length ps"
  shows "FindGreaterOrEqual_loop cmp s k x level prev = Some (first_of (nodes_from cmp s ns k),
    map_option (\<lambda>ps. map (\<lambda>i. if i \<le> level then Some (pred_at cmp s h ns k i) else ps ! i) [0..<length ps]) prev)"
  using p assms(4)
proof (induction "level + length bs" arbitrary: x level as bs prev rule: less_induct)
  case less
  note step = position_step [OF l k less.prems(1)]
  let ?next = "List.find (\<lambda>n. level < h n) bs"
  show ?case
  proof (cases "?next \<noteq> None \<and> cmp (key_at s (the ?next)) k < 0")
    case True
    with step(3) obtain as' bs' where "position cmp s h ns k (the ?next) level as' bs'" "length bs' < length bs" by blast
    then have IH: "FindGreaterOrEqual_loop cmp s k (the ?next) level prev = Some (first_of (nodes_from cmp s ns k),
        map_option (\<lambda>ps. map (\<lambda>i. if i \<le> level then Some (pred_at cmp s h ns k i) else ps ! i) [0..<length ps]) prev)"
      using less.hyps [of level bs' "the ?next" as' prev] less.prems(2) by simp
    have ka: "KeyIsAfterNode cmp s k ?next = Some True" unfolding step(2) using True by blast
    show ?thesis by (subst FindGreaterOrEqual_loop.simps) (simp add: step(1) ka IH)
  next
    case False
    obtain prev' where prev': "set_prev level x prev = Some prev'" "case prev' of None \<Rightarrow> True | Some ps \<Rightarrow> level < length ps"
      "prev' = map_option (\<lambda>ps. ps[level := Some x]) prev"
      using less.prems(2) by (cases prev) (auto simp: set_prev_def)
    have ka: "KeyIsAfterNode cmp s k ?next = Some False" unfolding step(2) using False by blast
    have unfold: "FindGreaterOrEqual_loop cmp s k x level prev =
        (if level = 0 then Some (?next, prev') else FindGreaterOrEqual_loop cmp s k x (level - 1) prev')"
      by (subst FindGreaterOrEqual_loop.simps) (simp add: step(1) ka prev'(1))
    show ?thesis
    proof (cases "level = 0")
      case True
      have "?next = first_of (nodes_from cmp s ns k)" using step(5) [OF False True] by presburger
      moreover have "prev' = map_option
          (\<lambda>ps. map (\<lambda>i. if i \<le> level then Some (pred_at cmp s h ns k i) else ps ! i) [0..<length ps]) prev"
        unfolding prev'(3) True update_eq_map
        by (cases prev) (simp_all add: step(4) [OF False, unfolded True])
      ultimately show ?thesis unfolding unfold using True by simp
    next
      case lv: False
      from less.hyps [OF _ position_drop [OF less.prems(1)], of prev'] prev'(2) lv
      have IH: "FindGreaterOrEqual_loop cmp s k x (level - 1) prev' = Some (first_of (nodes_from cmp s ns k),
        map_option (\<lambda>ps. map (\<lambda>i. if i \<le> level - 1 then Some (pred_at cmp s h ns k i) else ps ! i) [0..<length ps]) prev')"
        by (cases prev') auto
      show ?thesis unfolding unfold using IH prev'(3) step(4) [OF False] lv
        by (cases prev) (auto simp: nth_list_update intro!: nth_equalityI)
    qed
  qed
qed

lemma FindLessThan_loop_value:
  assumes l: "linked cmp valid s h ns" and k: "valid k" and p: "position cmp s h ns k x level as bs"
  shows "FindLessThan_loop cmp s k x level = Some (last (0 # nodes_before cmp s ns k))"
  using p
proof (induction "level + length bs" arbitrary: x level as bs rule: less_induct)
  case less
  note step = position_step [OF l k less.prems]
  let ?next = "List.find (\<lambda>n. level < h n) bs"
  have before: "(if x = head_node then Some True else KeyIsAfterNode cmp s k (Some x)) = Some True"
  proof (cases as rule: rev_cases)
    case Nil
    with less.prems show ?thesis by (simp add: position_def head_node_def)
  next
    case (snoc ys y)
    with less.prems have "x \<in> set ns" "cmp (key_at s x) k < 0" by (simp_all add: position_def)
    with KeyIsAfterNode_at [of "Some x" s cmp k] linkedD(3) [OF l] show ?thesis by simp
  qed
  show ?case
  proof (cases "?next \<noteq> None \<and> cmp (key_at s (the ?next)) k < 0")
    case True
    with step(3) obtain as' bs' where "position cmp s h ns k (the ?next) level as' bs'" "length bs' < length bs" by blast
    then have IH: "FindLessThan_loop cmp s k (the ?next) level = Some (last (0 # nodes_before cmp s ns k))"
      using less.hyps [of level bs' "the ?next" as'] by simp
    have ka: "KeyIsAfterNode cmp s k ?next = Some True" unfolding step(2) using True by blast
    show ?thesis by (subst FindLessThan_loop.simps) (simp add: before step(1) ka IH)
  next
    case False
    have ka: "KeyIsAfterNode cmp s k ?next = Some False" unfolding step(2) using False by blast
    have unfold: "FindLessThan_loop cmp s k x level =
        (if level = 0 then Some x else FindLessThan_loop cmp s k x (level - 1))"
      by (subst FindLessThan_loop.simps) (simp add: before step(1) ka)
    show ?thesis
    proof (cases "level = 0")
      case True
      have "x = last (0 # nodes_before cmp s ns k)"
        unfolding step(5) [OF False True, THEN conjunct1]
        by (rule less.prems [unfolded position_def, THEN conjunct2, THEN conjunct1])
      then show ?thesis unfolding unfold by (simp only: True refl if_True)
    next
      case lv: False
      from less.hyps [OF _ position_drop [OF less.prems]] lv show ?thesis unfolding unfold by simp
    qed
  qed
qed

end

lemma FindLast_loop_value:
  assumes l: "linked cmp valid s h ns" and "ns = as @ bs" and "x = last (0 # as)" and "level < h x"
  shows "FindLast_loop s x level = Some (last (0 # ns))"
  using assms(2-4)
proof (induction "level + length bs" arbitrary: x level as bs rule: less_induct)
  case less
  have next': "Node_Next s x level = Some (List.find (\<lambda>n. level < h n) bs)"
    unfolding less.prems(2) by (rule linkedD(1) [OF l less.prems(1)]) (rule less.prems(3) [unfolded less.prems(2)])
  show ?case
  proof (cases "List.find (\<lambda>n. level < h n) bs")
    case None
    show ?thesis
    proof (cases "level = 0")
      case True
      have "bs = []" using None True linkedD(6) [OF l] by (cases bs) (auto simp: less.prems(1))
      with None True next' less.prems show ?thesis by (subst FindLast_loop.simps) simp
    next
      case False
      have "level - 1 < h x" using less.prems(3) by simp
      with less.hyps [OF _ less.prems(1,2) this] None False next' show ?thesis by (subst FindLast_loop.simps) simp
    qed
  next
    case (Some y)
    then obtain cs ds where bs: "bs = cs @ y # ds" "level < h y" by (blast dest: find_SomeD)
    have "FindLast_loop s y level = Some (last (0 # ns))"
      by (rule less.hyps [of level ds "as @ cs @ [y]" y]) (use bs less.prems(1) in simp_all)
    with Some next' show ?thesis by (subst FindLast_loop.simps) simp
  qed
qed

section \<open>Linking a new node\<close>

definition height_of :: "'k SkipList \<Rightarrow> nat \<Rightarrow> nat" where
  "height_of s x = length (next_links (nodes s ! x))"

text \<open>What setting a link changes, and what it does not.\<close>

definition same_nodes :: "'k SkipList \<Rightarrow> 'k SkipList \<Rightarrow> bool" where
  "same_nodes s s' \<longleftrightarrow> length (nodes s') = length (nodes s) \<and> key_at s' = key_at s \<and> height_of s' = height_of s \<and>
     max_height s' = max_height s \<and> rnd s' = rnd s"

lemma same_nodes_refl [simp]: "same_nodes s s"
  by (simp add: same_nodes_def)

lemma same_nodes_trans: "same_nodes s s' \<Longrightarrow> same_nodes s' s'' \<Longrightarrow> same_nodes s s''"
  by (simp add: same_nodes_def)

lemma SetNext_result:
  assumes "x < length (nodes s)" and "n < height_of s x"
  shows "\<exists>s'. Node_SetNext x n v s = Some s' \<and> same_nodes s s' \<and>
    (\<forall>p i. Node_Next s' p i = (if p = x \<and> i = n then Some v else Node_Next s p i))"
  using assms by (auto simp: Node_SetNext_def same_nodes_def height_of_def key_at_def Node_Next_def nth_list_update fun_eq_iff)

lemma last_filter_split:
  "\<exists>as cs. xs = as @ cs \<and> last (0 # as) = last (0 # filter P xs) \<and> (\<forall>c \<in> set cs. \<not> P c) \<and> (as = [] \<or> P (last as))"
proof (induction xs rule: rev_induct)
  case (snoc x xs)
  show ?case
  proof (cases "P x")
    case True
    then show ?thesis by (intro exI [of _ "xs @ [x]"] exI [of _ "[]"]) simp
  next
    case False
    from snoc obtain as cs where "xs = as @ cs" "last (0 # as) = last (0 # filter P xs)" "\<forall>c \<in> set cs. \<not> P c"
      "as = [] \<or> P (last as)" by blast
    with False show ?thesis by (intro exI [of _ as] exI [of _ "cs @ [x]"]) auto
  qed
qed simp

lemma pred_at_split:
  obtains as cs where "nodes_before cmp s ns k = as @ cs" and "pred_at cmp s h ns k i = last (0 # as)"
    and "\<forall>c \<in> set cs. \<not> i < h c" and "as = [] \<or> i < h (last as)"
  using last_filter_split [of "nodes_before cmp s ns k" "\<lambda>n. i < h n"] by (metis pred_at_def)

lemma Next_pred:
  assumes l: "linked cmp valid s h ns" and "i < 12"
  shows "Node_Next s (pred_at cmp s h ns k i) i = Some (List.find (\<lambda>n. i < h n) (nodes_from cmp s ns k))"
    and "pred_at cmp s h ns k i \<in> insert 0 (set (nodes_before cmp s ns k))" and "i < h (pred_at cmp s h ns k i)"
proof -
  obtain as cs where b: "nodes_before cmp s ns k = as @ cs" and p: "pred_at cmp s h ns k i = last (0 # as)"
    and cs: "\<forall>c \<in> set cs. \<not> i < h c" and as: "as = [] \<or> i < h (last as)" by (rule pred_at_split)
  have ns: "ns = as @ (cs @ nodes_from cmp s ns k)" using before_from [of cmp s ns k] b by simp
  show h: "i < h (pred_at cmp s h ns k i)" using as linkedD(5) [OF l] assms(2) by (auto simp: p)
  show "Node_Next s (pred_at cmp s h ns k i) i = Some (List.find (\<lambda>n. i < h n) (nodes_from cmp s ns k))"
    using linkedD(1) [OF l ns, of i] h find_NoneI [OF cs] unfolding p by (simp add: find_append del: last.simps)
  show "pred_at cmp s h ns k i \<in> insert 0 (set (nodes_before cmp s ns k))"
    unfolding p b by (cases as rule: rev_cases) auto
qed

end
