(* ===== verification/Ldb_SkipList_Insert.thy ===== *)
theory Ldb_SkipList_Insert
  imports Ldb_SkipList_Inv
begin

text \<open>
  Inserting into the skip list: after every step of the linking loop the list satisfies the invariant,
  from the first on with the new node in its place.
\<close>

section \<open>The linking loop\<close>

text \<open>The list of nodes with the new one, and the levels linked.\<close>

definition with_node :: "('k \<Rightarrow> 'k \<Rightarrow> int) \<Rightarrow> 'k SkipList \<Rightarrow> nat list \<Rightarrow> 'k \<Rightarrow> nat \<Rightarrow> nat list" where
  "with_node cmp s ns k x = nodes_before cmp s ns k @ x # nodes_from cmp s ns k"

lemma set_with_node [simp]: "set (with_node cmp s ns k x) = insert x (set ns)"
  using before_from [of cmp s ns k] unfolding with_node_def by (metis list.simps(15) Un_insert_right set_append)

text \<open>The links after \<open>j\<close> rounds.\<close>

definition partly_linked ::
  "('k \<Rightarrow> 'k \<Rightarrow> int) \<Rightarrow> 'k SkipList \<Rightarrow> (nat \<Rightarrow> nat) \<Rightarrow> nat list \<Rightarrow> 'k \<Rightarrow> nat \<Rightarrow> nat \<Rightarrow> 'k SkipList \<Rightarrow> bool" where
  "partly_linked cmp s h ns k x j s' \<longleftrightarrow> same_nodes s s' \<and>
     (\<forall>p i. Node_Next s' p i =
        (if p = x then if i < j then Some (List.find (\<lambda>n. i < h n) (nodes_from cmp s ns k)) else None
         else if i < j \<and> p = pred_at cmp s h ns k i then Some (Some x) else Node_Next s p i))"

text \<open>A new node \<open>x\<close> for the key \<open>k\<close> that is not linked yet.\<close>

definition fresh_node ::
  "('k \<Rightarrow> 'k \<Rightarrow> int) \<Rightarrow> 'k SkipList \<Rightarrow> (nat \<Rightarrow> nat) \<Rightarrow> nat list \<Rightarrow> 'k \<Rightarrow> nat option list \<Rightarrow> nat \<Rightarrow> bool" where
  "fresh_node cmp s h ns k prev x \<longleftrightarrow> x < length (nodes s) \<and> x \<notin> insert 0 (set ns) \<and> key_at s x = k \<and>
     1 \<le> height_of s x \<and> height_of s x \<le> 12 \<and> (\<forall>i. Node_Next s x i = None) \<and>
     (\<forall>y \<in> insert 0 (set ns). h y \<le> height_of s y) \<and>
     (\<forall>i < height_of s x. i < length prev \<and> prev ! i = Some (pred_at cmp s h ns k i))"

context key_order
begin

lemma pred_in_list:
  assumes "linked cmp valid s h ns" and "i < 12"
  shows "pred_at cmp s h ns k i \<in> insert 0 (set ns)" and "pred_at cmp s h ns k i < length (nodes s)"
proof -
  have "set (nodes_before cmp s ns k) \<subseteq> set ns" by (auto simp: nodes_before_def dest: set_takeWhileD)
  with Next_pred(2) [OF assms, of k] show p: "pred_at cmp s h ns k i \<in> insert 0 (set ns)" by blast
  then show "pred_at cmp s h ns k i < length (nodes s)" using linkedD(3,4) [OF assms(1)] by auto
qed

lemma link_step:
  assumes l: "linked cmp valid s h ns" and f: "fresh_node cmp s h ns k prev x"
    and p: "partly_linked cmp s h ns k x j s'" and j: "j < height_of s x"
  shows "\<exists>s''. link_level prev x j s' = Some s'' \<and> partly_linked cmp s h ns k x (Suc j) s''"
proof -
  let ?p = "pred_at cmp s h ns k j" and ?n = "List.find (\<lambda>n. j < h n) (nodes_from cmp s ns k)"
  have j12: "j < 12" using f j by (simp add: fresh_node_def)
  note pred = Next_pred [OF l j12, of k] pred_in_list [OF l j12, of k]
  have ne: "?p \<noteq> x" using pred(4) f by (auto simp: fresh_node_def)
  have same: "same_nodes s s'" and next': "\<And>p i. Node_Next s' p i =
      (if p = x then if i < j then Some (List.find (\<lambda>n. i < h n) (nodes_from cmp s ns k)) else None
       else if i < j \<and> p = pred_at cmp s h ns k i then Some (Some x) else Node_Next s p i)"
    using p by (simp_all add: partly_linked_def)
  have prev: "j < length prev" "prev ! j = Some ?p" using f j by (simp_all add: fresh_node_def)
  have np: "Node_Next s' ?p j = Some ?n" using next' [of ?p j] ne pred(1) by simp
  have "x < length (nodes s')" "j < height_of s' x" using f j same by (simp_all add: fresh_node_def same_nodes_def)
  from SetNext_result [OF this, of ?n] obtain s1 where s1: "Node_SetNext x j ?n s' = Some s1" "same_nodes s' s1"
    "\<And>p i. Node_Next s1 p i = (if p = x \<and> i = j then Some ?n else Node_Next s' p i)" by blast
  have "h ?p \<le> height_of s ?p" using f pred(4) by (auto simp: fresh_node_def)
  with pred(3) have "j < height_of s ?p" by linarith
  with pred(5) same s1(2) have "?p < length (nodes s1)" "j < height_of s1 ?p" by (simp_all add: same_nodes_def)
  from SetNext_result [OF this, of "Some x"] obtain s2 where s2: "Node_SetNext ?p j (Some x) s1 = Some s2" "same_nodes s1 s2"
    "\<And>p i. Node_Next s2 p i = (if p = ?p \<and> i = j then Some (Some x) else Node_Next s1 p i)" by blast
  have "link_level prev x j s' = Some s2" by (simp add: link_level_def prev np s1(1) s2(1))
  moreover have "partly_linked cmp s h ns k x (Suc j) s2"
    unfolding partly_linked_def
  proof (intro conjI allI)
    show "same_nodes s s2" using same s1(2) s2(2) same_nodes_trans by blast
    show "Node_Next s2 p i = (if p = x then if i < Suc j then Some (List.find (\<lambda>n. i < h n) (nodes_from cmp s ns k)) else None
         else if i < Suc j \<and> p = pred_at cmp s h ns k i then Some (Some x) else Node_Next s p i)" for p i
      using ne by (auto simp: s2(3) s1(3) next' less_Suc_eq)
  qed
  ultimately show ?thesis by blast
qed

lemma partly_linked_0: "fresh_node cmp s h ns k prev x \<Longrightarrow> partly_linked cmp s h ns k x 0 s"
  by (auto simp: partly_linked_def fresh_node_def)

lemma link_levels_result:
  assumes "linked cmp valid s h ns" and "fresh_node cmp s h ns k prev x" and "j \<le> height_of s x"
  shows "\<exists>s'. link_levels prev x j s = Some s' \<and> partly_linked cmp s h ns k x j s'"
  using assms(3)
proof (induction j)
  case 0
  show ?case using partly_linked_0 [OF assms(2)] by simp
next
  case (Suc j)
  then obtain s' where "link_levels prev x j s = Some s'" "partly_linked cmp s h ns k x j s'" by auto
  with link_step [OF assms(1,2) this(2)] Suc.prems show ?case by simp
qed

section \<open>The invariant between the steps\<close>

lemma nodes_before_less: "n \<in> set (nodes_before cmp s ns k) \<Longrightarrow> n \<in> set ns \<and> cmp (key_at s n) k < 0"
  by (auto simp: nodes_before_def dest: set_takeWhileD)

lemma nodes_from_not_less:
  assumes l: "linked cmp valid s h ns" and k: "valid k" and n: "n \<in> set (nodes_from cmp s ns k)"
  shows "\<not> cmp (key_at s n) k < 0"
proof -
  from n obtain y ys where f: "nodes_from cmp s ns k = y # ys" by (cases "nodes_from cmp s ns k") auto
  then have y: "\<not> cmp (key_at s y) k < 0" unfolding nodes_from_def by (simp add: dropWhile_eq_Cons_conv)
  have ns: "ns = nodes_before cmp s ns k @ y # ys" using before_from [of cmp s ns k] f by simp
  show ?thesis
  proof (cases "n = y")
    case False
    then have "n \<in> set ys" using n f by simp
    then have "cmp (key_at s y) (key_at s n) < 0" and v: "valid (key_at s y)" "valid (key_at s n)"
      using linkedD(8) [OF l] linkedD(9) [OF l] ns by (metis list.set_intros(1) sorted_wrt.simps(2) sorted_wrt_append, metis in_set_conv_decomp, metis list.set_intros(2) in_set_conv_decomp Un_iff set_append)
    with y k show ?thesis using cmp_less_trans [of "key_at s y" "key_at s n" k] by blast
  qed (use y in simp)
qed

lemma linked_same_order:
  assumes "linked cmp valid s h ns" and "key_at s' = key_at s"
  shows "nodes_before cmp s' ns k = nodes_before cmp s ns k" and "nodes_from cmp s' ns k = nodes_from cmp s ns k"
  using assms(2) by (simp_all add: nodes_before_def nodes_from_def)

lemma links_with_node:
  assumes l: "linked cmp valid s h ns" and f: "fresh_node cmp s h ns k prev x"
    and p: "partly_linked cmp s h ns k x j s'" and j: "1 \<le> j" "j \<le> height_of s x"
  shows "links_ok s' (h(x := j)) (with_node cmp s ns k x)"
  unfolding links_ok_def with_node_def
proof (intro allI impI)
  fix as bs i
  let ?before = "nodes_before cmp s ns k" and ?after = "nodes_from cmp s ns k"
  assume split: "?before @ x # ?after = as @ bs" and i: "i < (h(x := j)) (last (0 # as))"
  have ns: "?before @ ?after = ns" by (rule before_from)
  have x: "x \<noteq> 0" "x \<notin> set ns" and j12: "j \<le> 12" using f j by (auto simp: fresh_node_def)
  have xb: "x \<notin> set ?before" "x \<notin> set ?after" using x ns by (metis UnCI set_append)+
  have keep: "List.find (\<lambda>n. i < (h(x := j)) n) cs = List.find (\<lambda>n. i < h n) cs" if "x \<notin> set cs" for cs
    using that by (induction cs) auto
  have next': "\<And>p i. Node_Next s' p i =
      (if p = x then if i < j then Some (List.find (\<lambda>n. i < h n) ?after) else None
       else if i < j \<and> p = pred_at cmp s h ns k i then Some (Some x) else Node_Next s p i)"
    using p by (simp add: partly_linked_def)
  from split consider
    (before) cs where "?before = as @ cs" "bs = cs @ x # ?after"
    | (here) "as = ?before @ [x]" "bs = ?after"
    | (after) es where "as = ?before @ x # es" "es \<noteq> []" "?after = es @ bs"
    by (fastforce simp: append_eq_append_conv2 append_eq_Cons_conv Cons_eq_append_conv)
  then show "Node_Next s' (last (0 # as)) i = Some (List.find (\<lambda>n. i < (h(x := j)) n) bs)"
  proof cases
    case before
    have ne: "last (0 # as) \<noteq> x" using x xb before by (cases as rule: rev_cases) auto
    then have lt: "i < h (last (0 # as))" using i by simp
    have "set as \<subseteq> set ns" using arg_cong [OF ns, of set] unfolding before(1) by auto
    moreover have "last (0 # as) \<in> insert 0 (set as)" by (cases as rule: rev_cases) auto
    ultimately have "last (0 # as) \<in> insert 0 (set ns)" by blast
    then have i12: "i < 12" using lt linkedD(5,7) [OF l] by (auto intro: less_le_trans)
    have old: "Node_Next s (last (0 # as)) i = Some (List.find (\<lambda>n. i < h n) (cs @ ?after))"
      by (rule linkedD(1) [OF l _ lt]) (use before ns in simp)
    have xc: "x \<notin> set cs" using xb before by simp
    show ?thesis
    proof (cases "List.find (\<lambda>n. i < h n) cs")
      case None
      then have "filter (\<lambda>n. i < h n) cs = []" by (simp add: find_None_iff filter_empty_conv)
      then have "pred_at cmp s h ns k i = last (0 # as)"
        using lt by (cases as rule: rev_cases) (simp_all add: pred_at_def before(1))
      then show ?thesis using None old xc xb(2) ne
        by (auto simp: next' before(2) find_append keep fun_upd_same simp del: fun_upd_apply)
    next
      case (Some y)
      have "pred_at cmp s h ns k i \<noteq> last (0 # as)"
      proof
        assume eq: "pred_at cmp s h ns k i = last (0 # as)"
        obtain us vs where u: "cs = us @ y # vs" "i < h y" using Some by (blast dest: find_SomeD)
        have "last (filter (\<lambda>n. i < h n) cs) \<in> set cs" "filter (\<lambda>n. i < h n) cs \<noteq> []"
          using u last_in_set [of "filter (\<lambda>n. i < h n) cs"] by auto
        then have "pred_at cmp s h ns k i \<in> set cs" by (simp add: pred_at_def before(1))
        moreover have "last (0 # as) \<in> insert 0 (set as)" by (cases as rule: rev_cases) auto
        moreover have "distinct (0 # as @ cs @ ?after)" using linkedD(2) [OF l] ns before(1) by simp
        ultimately show False using eq by auto
      qed
      then show ?thesis using Some old xc ne by (auto simp: next' before(2) find_append keep simp del: fun_upd_apply)
    qed
  next
    case here
    with i have "i < j" by simp
    moreover have "List.find (\<lambda>n. i < (h(x := j)) n) bs = List.find (\<lambda>n. i < h n) ?after"
      unfolding here(2) by (rule keep [OF xb(2)])
    ultimately show ?thesis using here by (simp add: next' del: fun_upd_apply)
  next
    case after
    obtain e fs where es: "es = fs @ [e]" using after(2) by (cases es rule: rev_cases) auto
    have e: "e \<in> set ?after" "e \<noteq> x" using xb after es by auto
    have lt: "i < h e" using i e after es by simp
    have i12: "i < 12" using lt linkedD(7) [OF l, of e] e(1) ns by (metis UnCI less_le_trans set_append)
    have "e \<noteq> pred_at cmp s h ns k i"
    proof -
      have "pred_at cmp s h ns k i \<in> insert 0 (set ?before)" by (rule Next_pred(2) [OF l i12])
      moreover have "distinct (0 # ?before @ ?after)" using linkedD(2) [OF l] ns by simp
      ultimately show ?thesis using e(1) by auto
    qed
    moreover have "Node_Next s e i = Some (List.find (\<lambda>n. i < h n) bs)"
      using linkedD(1) [OF l, of "?before @ es" bs i] lt after ns es by simp
    moreover have "x \<notin> set bs" using xb after by simp
    ultimately show ?thesis using e after es by (simp add: next' keep del: fun_upd_apply)
  qed
qed

lemma linked_with_node:
  assumes l: "linked cmp valid s h ns" and f: "fresh_node cmp s h ns k prev x"
    and p: "partly_linked cmp s h ns k x j s'" and j: "1 \<le> j" "j \<le> height_of s x"
    and k: "valid k" and new: "\<And>n. n \<in> set ns \<Longrightarrow> cmp k (key_at s n) \<noteq> 0"
  shows "linked cmp valid s' (h(x := j)) (with_node cmp s ns k x)"
  unfolding linked_def
proof (intro conjI)
  show "links_ok s' (h(x := j)) (with_node cmp s ns k x)" by (rule links_with_node [OF l f p j])
  have same: "length (nodes s') = length (nodes s)" "key_at s' = key_at s"
    using p by (simp_all add: partly_linked_def same_nodes_def)
  have x: "x \<noteq> 0" "x \<notin> set ns" "x < length (nodes s)" and j12: "j \<le> 12" and kx: "key_at s x = k"
    using f j by (auto simp: fresh_node_def)
  have ns: "nodes_before cmp s ns k @ nodes_from cmp s ns k = ns" by (rule before_from)
  have d: "distinct (0 # with_node cmp s ns k x)"
  proof -
    have "distinct (0 # nodes_before cmp s ns k @ nodes_from cmp s ns k)" unfolding ns by (rule linkedD(2) [OF l])
    moreover have "x \<notin> set (nodes_before cmp s ns k @ nodes_from cmp s ns k)" unfolding ns by (rule x(2))
    ultimately show ?thesis using x(1) unfolding with_node_def distinct.simps distinct_append set_append list.set by blast
  qed
  show "nodes_ok s' (h(x := j)) (with_node cmp s ns k x)"
    using d l x j j12 same by (auto simp: nodes_ok_def linked_def kMaxHeight_def simp flip: length_greater_0_conv)
  have "sorted_wrt (\<lambda>a b. cmp (key_at s a) (key_at s b) < 0) (nodes_before cmp s ns k @ nodes_from cmp s ns k)"
    unfolding ns by (rule linkedD(8) [OF l])
  moreover have "cmp (key_at s a) k < 0" if "a \<in> set (nodes_before cmp s ns k)" for a
    using nodes_before_less [OF that] by simp
  moreover have "cmp k (key_at s a) < 0" if a: "a \<in> set (nodes_from cmp s ns k)" for a
  proof -
    have "a \<in> set ns" using a ns by (metis UnCI set_append)
    then have "valid (key_at s a)" "cmp k (key_at s a) \<noteq> 0" using linkedD(9) [OF l] new by blast+
    with nodes_from_not_less [OF l k a] not_less_le [of "key_at s a" k] k show ?thesis by linarith
  qed
  ultimately have "sorted_wrt (\<lambda>a b. cmp (key_at s a) (key_at s b) < 0) (with_node cmp s ns k x)"
    by (simp add: with_node_def sorted_wrt_append kx)
  moreover have "valid (key_at s a)" if "a \<in> set (with_node cmp s ns k x)" for a
    using that k kx linkedD(9) [OF l] by auto
  ultimately show "sorted_keys cmp valid (map (key_at s') (with_node cmp s ns k x))"
    by (simp add: sorted_keys_def same sorted_wrt_map del: set_with_node)
qed

end

section \<open>The whole invariant\<close>

definition skiplist_inv :: "('k \<Rightarrow> 'k \<Rightarrow> int) \<Rightarrow> ('k \<Rightarrow> bool) \<Rightarrow> 'k SkipList \<Rightarrow> nat list \<Rightarrow> bool" where
  "skiplist_inv cmp valid s ns \<longleftrightarrow> linked cmp valid s (height_of s) ns \<and>
     insert 0 (set ns) = {..<length (nodes s)} \<and> 1 \<le> max_height s \<and> max_height s \<le> 12 \<and>
     (\<forall>x \<in> set ns. height_of s x \<le> max_height s) \<and> good_seed (rnd s)"

lemma RandomHeight_loop_result:
  "height \<le> 12 \<Longrightarrow> good_seed seed \<Longrightarrow> RandomHeight_loop height seed = (h', seed') \<Longrightarrow>
    height \<le> h' \<and> h' \<le> 12 \<and> good_seed seed'"
proof (induction height seed rule: RandomHeight_loop.induct)
  case (1 height seed)
  then show ?case
    using Random_Next_value(2) [of seed]
    by (subst (asm) RandomHeight_loop.simps) (fastforce simp: kMaxHeight_def Let_def split: if_splits)
qed

text \<open>Adding a node or changing the counters leaves the list as it is.\<close>

lemma linked_more_nodes:
  assumes "linked cmp valid s h ns" and "nodes s' = nodes s @ added"
  shows "linked cmp valid s' h ns"
proof -
  have x: "last (0 # as) < length (nodes s)" if "ns = as @ bs" for as bs
    using linkedD(3,4) [OF assms(1)] that by (cases as rule: rev_cases) auto
  have "Node_Next s' p i = Node_Next s p i" "key_at s' p = key_at s p" if "p < length (nodes s)" for p i
    using that assms(2) by (simp_all add: Node_Next_def key_at_def nth_append)
  moreover have m: "map (key_at s') ns = map (key_at s) ns"
    using linkedD(3) [OF assms(1)] assms(2) by (auto simp: key_at_def nth_append)
  have "sorted_keys cmp valid (map (key_at s') ns)" unfolding m using assms(1) by (simp add: linked_def)
  moreover have "nodes_ok s' h ns" using assms by (auto simp: linked_def nodes_ok_def less_le_trans subset_eq)
  ultimately show ?thesis using assms(1) x unfolding linked_def links_ok_def by (simp del: last.simps)
qed

lemma foldl_set_prev:
  "i < length ps \<Longrightarrow> foldl (\<lambda>ps i. ps[i := v]) ps js ! i = (if i \<in> set js then v else ps ! i)"
  "length (foldl (\<lambda>ps i. ps[i := v]) ps js) = length ps"
proof (induction js arbitrary: ps)
  case (Cons j js)
  { case 1 with Cons show ?case by (auto simp: nth_list_update) }
  { case 2 with Cons show ?case by simp }
qed simp_all

text \<open>A key that is not in the list: nothing in it compares equal.\<close>

definition absent :: "('k \<Rightarrow> 'k \<Rightarrow> int) \<Rightarrow> 'k SkipList \<Rightarrow> nat list \<Rightarrow> 'k \<Rightarrow> bool" where
  "absent cmp s ns k \<longleftrightarrow> (\<forall>n \<in> set ns. cmp k (key_at s n) \<noteq> 0)"

context key_order
begin

lemma skiplist_invD:
  assumes "skiplist_inv cmp valid s ns"
  shows "linked cmp valid s (height_of s) ns" and "insert 0 (set ns) = {..<length (nodes s)}"
    and "1 \<le> max_height s" and "max_height s \<le> 12" and "x \<in> set ns \<Longrightarrow> height_of s x \<le> max_height s" and "good_seed (rnd s)"
  using assms by (simp_all add: skiplist_inv_def)

lemma FindGreaterOrEqual_value:
  assumes inv: "skiplist_inv cmp valid s ns" and k: "valid k"
  shows "FindGreaterOrEqual cmp s k None = Some (first_of (nodes_from cmp s ns k), None)"
    and "\<exists>ps. FindGreaterOrEqual cmp s k (Some (replicate kMaxHeight None)) =
        Some (first_of (nodes_from cmp s ns k), Some ps) \<and> length ps = 12 \<and>
      (\<forall>i < max_height s. ps ! i = Some (pred_at cmp s (height_of s) ns k i))"
proof -
  note l = skiplist_invD(1) [OF inv] and m = skiplist_invD(3,4) [OF inv]
  have p: "position cmp s (height_of s) ns k 0 (max_height s - 1) [] ns" by (rule position_start [OF l]) (use m in simp)
  show "FindGreaterOrEqual cmp s k None = Some (first_of (nodes_from cmp s ns k), None)"
    using FindGreaterOrEqual_loop_value [OF l k p, of None] m by (simp add: FindGreaterOrEqual_def head_node_def)
  show "\<exists>ps. FindGreaterOrEqual cmp s k (Some (replicate kMaxHeight None)) =
        Some (first_of (nodes_from cmp s ns k), Some ps) \<and> length ps = 12 \<and>
      (\<forall>i < max_height s. ps ! i = Some (pred_at cmp s (height_of s) ns k i))"
    using FindGreaterOrEqual_loop_value [OF l k p, of "Some (replicate kMaxHeight None)"] m
    by (auto simp: FindGreaterOrEqual_def head_node_def kMaxHeight_def)
qed

lemma prepare_result:
  assumes inv: "skiplist_inv cmp valid s ns" and k: "valid k" and new: "absent cmp s ns k"
  shows "\<exists>prev height x s0. prepare cmp k s = Some (prev, height, x, s0) \<and>
    linked cmp valid s0 (height_of s0) ns \<and> fresh_node cmp s0 (height_of s0) ns k prev x \<and>
    height = height_of s0 x \<and> x = length (nodes s) \<and> length (nodes s0) = Suc x \<and>
    (\<forall>n \<in> set ns. key_at s0 n = key_at s n) \<and> 1 \<le> max_height s0 \<and> max_height s0 \<le> 12 \<and>
    max_height s \<le> max_height s0 \<and> (\<forall>n \<in> insert x (set ns). height_of s0 n \<le> max_height s0) \<and> good_seed (rnd s0)"
proof -
  note l = skiplist_invD(1) [OF inv] and m = skiplist_invD(3,4) [OF inv]
  from FindGreaterOrEqual_value(2) [OF inv k] obtain ps where
    ps: "FindGreaterOrEqual cmp s k (Some (replicate kMaxHeight None)) = Some (first_of (nodes_from cmp s ns k), Some ps)"
      "length ps = 12" "\<And>i. i < max_height s \<Longrightarrow> ps ! i = Some (pred_at cmp s (height_of s) ns k i)" by blast
  obtain height seed where h: "RandomHeight_loop 1 (rnd s) = (height, seed)" by fastforce
  then have rh: "RandomHeight s = (height, s\<lparr>rnd := seed\<rparr>)" by (simp add: RandomHeight_def)
  from RandomHeight_loop_result [OF _ skiplist_invD(6) [OF inv] h]
  have hb: "1 \<le> height" "height \<le> 12" "good_seed seed" by simp_all
  define prev where "prev = (if max_height s < height
    then foldl (\<lambda>ps i. ps[i := Some head_node]) ps [max_height s..<height] else ps)"
  define s1 where "s1 = (if max_height s < height then s\<lparr>rnd := seed, max_height := height\<rparr> else s\<lparr>rnd := seed\<rparr>)"
  define s0 where "s0 = s1\<lparr>nodes := nodes s @ [\<lparr>node_key = k, next_links = replicate height None\<rparr>]\<rparr>"
  have s0: "nodes s0 = nodes s @ [\<lparr>node_key = k, next_links = replicate height None\<rparr>]"
    "max_height s0 = max (max_height s) height" "rnd s0 = seed"
    by (simp_all add: s0_def s1_def)
  let ?x = "length (nodes s)"
  have eq: "(case first_of (nodes_from cmp s ns k) of None \<Rightarrow> Some False
      | Some y \<Rightarrow> map_option (\<lambda>yk. cmp k yk = 0) (Node_key s y)) = Some False"
  proof (cases "nodes_from cmp s ns k")
    case (Cons y ys)
    then have "y \<in> set ns" using before_from [of cmp s ns k] by (metis in_set_conv_decomp)
    with Cons new show ?thesis by (simp add: Node_key_at linkedD(3) [OF l] absent_def)
  qed simp
  have prepare: "prepare cmp k s = Some (prev, height, ?x, s0)"
    unfolding prepare_def ps(1) using hb by (simp add: eq rh kMaxHeight_def NewNode_def prev_def s0_def s1_def)
  have ho: "height_of s0 n = height_of s n" "key_at s0 n = key_at s n" if "n < ?x" for n
    using that by (simp_all add: height_of_def key_at_def s0 nth_append)
  have hx: "height_of s0 ?x = height" "key_at s0 ?x = k" "Node_Next s0 ?x i = None" for i
    by (simp_all add: height_of_def key_at_def s0 Node_Next_def)
  have in_ns: "n \<in> set ns \<Longrightarrow> n < ?x" for n by (rule linkedD(3) [OF l])
  have "linked cmp valid s0 (height_of s) ns" by (rule linked_more_nodes [OF l s0(1)])
  moreover have "linked cmp valid s0 h ns \<longleftrightarrow> linked cmp valid s0 h' ns" if "\<And>n. n \<in> insert 0 (set ns) \<Longrightarrow> h n = h' n" for h h'
  proof -
    have f: "List.find (\<lambda>n. i < h n) bs = List.find (\<lambda>n. i < h' n) bs" if "set bs \<subseteq> set ns" for bs i
      using that \<open>\<And>n. n \<in> insert 0 (set ns) \<Longrightarrow> h n = h' n\<close> by (intro find_cong) auto
    have la: "h (last (0 # as)) = h' (last (0 # as))" if "ns = as @ bs" for as bs
      using that \<open>\<And>n. n \<in> insert 0 (set ns) \<Longrightarrow> h n = h' n\<close> by (cases as rule: rev_cases) auto
    have "links_ok s0 h ns \<longleftrightarrow> links_ok s0 h' ns"
      unfolding links_ok_def using la f by (metis Un_upper2 set_append)
    moreover have "nodes_ok s0 h ns \<longleftrightarrow> nodes_ok s0 h' ns" using that by (auto simp: nodes_ok_def)
    ultimately show ?thesis by (simp add: linked_def)
  qed
  ultimately have l0: "linked cmp valid s0 (height_of s0) ns"
    using ho(1) in_ns linkedD(4) [OF l] by (metis insertE)
  have pred: "pred_at cmp s0 (height_of s0) ns k i = pred_at cmp s (height_of s) ns k i" for i
  proof -
    have b: "nodes_before cmp s0 ns k = nodes_before cmp s ns k"
      unfolding nodes_before_def by (rule takeWhile_cong) (use ho(2) in_ns in auto)
    have "filter (\<lambda>n. i < height_of s0 n) (nodes_before cmp s ns k) = filter (\<lambda>n. i < height_of s n) (nodes_before cmp s ns k)"
      using ho(1) in_ns nodes_before_less by (metis (mono_tags, lifting) filter_cong)
    then show ?thesis by (simp add: pred_at_def b)
  qed
  have high: "pred_at cmp s (height_of s) ns k i = 0" if "max_height s \<le> i" for i
  proof -
    have "filter (\<lambda>n. i < height_of s n) (nodes_before cmp s ns k) = []"
      using that skiplist_invD(5) [OF inv] nodes_before_less by (fastforce simp: filter_empty_conv)
    then show ?thesis by (simp add: pred_at_def)
  qed
  have "i < length prev \<and> prev ! i = Some (pred_at cmp s0 (height_of s0) ns k i)" if "i < height" for i
    using that hb(2) ps(2,3) high unfolding pred prev_def
    by (auto simp: foldl_set_prev head_node_def)
  then have "fresh_node cmp s0 (height_of s0) ns k prev ?x"
    using hx hb in_ns linkedD(4) [OF l] unfolding fresh_node_def by (auto simp: s0 dest: in_ns)
  then show ?thesis
    using prepare l0 hx(1) hb m ho in_ns skiplist_invD(5) [OF inv]
    by (intro exI [of _ prev] exI [of _ height] exI [of _ ?x] exI [of _ s0]) (auto simp: s0 intro: max.coboundedI1)
qed

end

end
