(* ===== verification/Ldb_SkipList_Ops.thy ===== *)
theory Ldb_SkipList_Ops
  imports Ldb_SkipList_Insert
begin

text \<open>
  The operations of the skip list refine those of a sorted list of keys: \<open>skiplist_keys cmp valid s ks\<close>
  says that \<open>s\<close> is a well-formed skip list with the keys \<open>ks\<close>.
\<close>

section \<open>The sorted list a skip list stands for\<close>

definition skiplist_keys :: "('k \<Rightarrow> 'k \<Rightarrow> int) \<Rightarrow> ('k \<Rightarrow> bool) \<Rightarrow> 'k SkipList \<Rightarrow> 'k list \<Rightarrow> bool" where
  "skiplist_keys cmp valid s ks \<longleftrightarrow> (\<exists>ns. skiplist_inv cmp valid s ns \<and> ks = map (key_at s) ns)"

definition keys_before :: "('k \<Rightarrow> 'k \<Rightarrow> int) \<Rightarrow> 'k list \<Rightarrow> 'k \<Rightarrow> 'k list" where
  "keys_before cmp ks k = takeWhile (\<lambda>a. cmp a k < 0) ks"

definition keys_from :: "('k \<Rightarrow> 'k \<Rightarrow> int) \<Rightarrow> 'k list \<Rightarrow> 'k \<Rightarrow> 'k list" where
  "keys_from cmp ks k = dropWhile (\<lambda>a. cmp a k < 0) ks"

definition insert_key :: "('k \<Rightarrow> 'k \<Rightarrow> int) \<Rightarrow> 'k \<Rightarrow> 'k list \<Rightarrow> 'k list" where
  "insert_key cmp k ks = keys_before cmp ks k @ k # keys_from cmp ks k"

lemma set_insert_key [simp]: "set (insert_key cmp k ks) = insert k (set ks)"
proof -
  have "set (keys_before cmp ks k) \<union> set (keys_from cmp ks k) = set ks"
    unfolding keys_before_def keys_from_def by (metis set_append takeWhile_dropWhile_id)
  then show ?thesis by (auto simp: insert_key_def)
qed

lemma length_insert_key [simp]: "length (insert_key cmp k ks) = Suc (length ks)"
  unfolding insert_key_def keys_before_def keys_from_def
  by (metis add_Suc_right length_Cons length_append takeWhile_dropWhile_id)

lemma nodes_keys:
  "map (key_at s) (nodes_before cmp s ns k) = keys_before cmp (map (key_at s) ns) k"
  "map (key_at s) (nodes_from cmp s ns k) = keys_from cmp (map (key_at s) ns) k"
  by (simp_all add: nodes_before_def nodes_from_def keys_before_def keys_from_def takeWhile_map dropWhile_map comp_def)

text \<open>A cursor into the list: the key an iterator is at and those after it, or the end.\<close>

definition iterator_at :: "'k SkipList \<Rightarrow> nat list \<Rightarrow> nat option \<Rightarrow> 'k list \<Rightarrow> 'k list \<Rightarrow> bool" where
  "iterator_at s ns it ks ls \<longleftrightarrow>
     (\<exists>as bs. ns = as @ bs \<and> it = first_of bs \<and> ks = map (key_at s) as \<and> ls = map (key_at s) bs)"

text \<open>Going back: the iterator is at the last of the keys before, or at no key if there is none.\<close>

definition iterator_back :: "'k SkipList \<Rightarrow> nat list \<Rightarrow> nat option \<Rightarrow> 'k list \<Rightarrow> 'k list \<Rightarrow> bool" where
  "iterator_back s ns it ks ls \<longleftrightarrow>
     (if ks = [] then it = None else iterator_at s ns it (butlast ks) (last ks # ls))"

lemma iterator_atI: "ns = as @ bs \<Longrightarrow> iterator_at s ns (first_of bs) (map (key_at s) as) (map (key_at s) bs)"
  by (auto simp: iterator_at_def)

section \<open>The operations\<close>

lemma set_all_links:
  assumes "n \<le> 12"
  shows "foldl (\<lambda>s i. Option.bind s (Node_SetNext 0 i None))
    (Some \<lparr>nodes = [\<lparr>node_key = k, next_links = replicate 12 None\<rparr>], max_height = m, rnd = r\<rparr>) [0..<n] =
    Some \<lparr>nodes = [\<lparr>node_key = k, next_links = replicate n (Some None) @ replicate (12 - n) None\<rparr>], max_height = m, rnd = r\<rparr>"
  using assms
proof (induction n)
  case (Suc n)
  then have "replicate (12 - n) None = None # replicate (12 - Suc n) (None :: nat option option)"
    by (metis Suc_diff_le diff_Suc_Suc replicate_Suc)
  moreover have "replicate (Suc n) (Some (None :: nat option)) = replicate n (Some None) @ [Some None]"
    by (simp add: replicate_append_same)
  ultimately show ?case using Suc by (simp add: Node_SetNext_def list_update_append del: replicate.simps)
qed simp

lemma SkipList_new_value:
  "SkipList_new any_key = Some \<lparr>nodes = [\<lparr>node_key = any_key, next_links = replicate 12 (Some None)\<rparr>],
     max_height = 1, rnd = Random_new 0xdeadbeef\<rparr>"
  using set_all_links [of 12 any_key 1 "Random_new 0xdeadbeef"]
  unfolding SkipList_new_def NewNode_def kMaxHeight_def by (simp del: replicate.simps foldl_Cons upt.simps)

lemma SkipList_new_inv: "\<exists>s. SkipList_new any_key = Some s \<and> skiplist_inv cmp valid s []"
  unfolding SkipList_new_value
  by (auto simp: skiplist_inv_def linked_def links_ok_def nodes_ok_def sorted_keys_def height_of_def kMaxHeight_def
      Node_Next_def good_seed_new simp del: replicate.simps)

context key_order
begin

lemma sorted_insert_key:
  assumes "skiplist_keys cmp valid s ks"
  shows "sorted_wrt (\<lambda>a b. cmp a b < 0) ks" and "k \<in> set ks \<Longrightarrow> valid k"
  using assms by (auto simp: skiplist_keys_def skiplist_inv_def linked_def sorted_keys_def)

lemma Insert_result:
  assumes inv: "skiplist_inv cmp valid s ns" and k: "valid k" and new: "absent cmp s ns k"
  shows "\<exists>s' ns'. Insert cmp k s = Some s' \<and> skiplist_inv cmp valid s' ns' \<and>
    map (key_at s') ns' = insert_key cmp k (map (key_at s) ns)"
proof -
  from prepare_result [OF assms] obtain prev height x s0 where
    p: "prepare cmp k s = Some (prev, height, x, s0)" and l0: "linked cmp valid s0 (height_of s0) ns"
    and f: "fresh_node cmp s0 (height_of s0) ns k prev x"
    and x: "height = height_of s0 x" "x = length (nodes s)" "length (nodes s0) = Suc x"
    and keys: "\<forall>n \<in> set ns. key_at s0 n = key_at s n"
    and m: "1 \<le> max_height s0" "max_height s0 \<le> 12" "\<forall>n \<in> insert x (set ns). height_of s0 n \<le> max_height s0"
      "good_seed (rnd s0)" by blast
  from link_levels_result [OF l0 f order_refl] obtain s' where
    s': "link_levels prev x height s0 = Some s'" "partly_linked cmp s0 (height_of s0) ns k x height s'" using x(1) by blast
  have new0: "cmp k (key_at s0 n) \<noteq> 0" if "n \<in> set ns" for n using that new keys by (simp add: absent_def)
  have j: "1 \<le> height" "height \<le> height_of s0 x" using f x(1) by (simp_all add: fresh_node_def)
  have same: "same_nodes s0 s'" using s'(2) by (simp add: partly_linked_def)
  from linked_with_node [OF l0 f s'(2) j k new0]
  have "linked cmp valid s' (height_of s') (with_node cmp s0 ns k x)"
    using x(1) same by (simp add: same_nodes_def)
  moreover have "insert 0 (set (with_node cmp s0 ns k x)) = {..<length (nodes s')}"
  proof -
    have "insert 0 (set (with_node cmp s0 ns k x)) = insert x {..<length (nodes s)}"
      unfolding set_with_node insert_commute [of 0 x] skiplist_invD(2) [OF inv] by (rule refl)
    also have "\<dots> = {..<Suc x}" unfolding x(2) by (rule lessThan_Suc [symmetric])
    also have "Suc x = length (nodes s')" using same x(3) by (simp add: same_nodes_def)
    finally show ?thesis .
  qed
  ultimately have "skiplist_inv cmp valid s' (with_node cmp s0 ns k x)"
    using m same by (simp add: skiplist_inv_def same_nodes_def)
  moreover have "map (key_at s') (with_node cmp s0 ns k x) = insert_key cmp k (map (key_at s) ns)"
  proof -
    have m: "map (key_at s) ns = map (key_at s0) ns" using keys by simp
    show ?thesis unfolding m using f same
      by (simp add: with_node_def insert_key_def nodes_keys same_nodes_def fresh_node_def)
  qed
  moreover have "Insert cmp k s = Some s'" by (simp add: Insert_def p s'(1))
  ultimately show ?thesis by blast
qed

lemma keys_equal_from:
  assumes s: "sorted_wrt (\<lambda>a b. cmp a b < 0) ks" and v: "\<And>a. a \<in> set ks \<Longrightarrow> valid a" and k: "valid k"
  shows "(\<exists>a \<in> set ks. cmp k a = 0) \<longleftrightarrow> (\<exists>a as. keys_from cmp ks k = a # as \<and> cmp k a = 0)"
  using s v
proof (induction ks)
  case (Cons b ks)
  have b: "valid b" using Cons.prems(2) by simp
  show ?case
  proof (cases "cmp b k < 0")
    case True
    then have "cmp k b \<noteq> 0" using cmp_flip [OF k b] cmp_flip [OF b k] by linarith
    with True Cons show ?thesis by (simp add: keys_from_def)
  next
    case False
    have "cmp k b = 0" if "a \<in> set ks" "cmp k a = 0" for a
    proof -
      have a: "valid a" "cmp b a < 0" using that Cons.prems by simp_all
      have "cmp a k \<le> 0" using that(2) cmp_flip [OF k a(1)] cmp_flip [OF a(1) k] by linarith
      with cmp_less_le [OF b a(1) k a(2)] False show ?thesis by simp
    qed
    with False show ?thesis by (auto simp: keys_from_def)
  qed
qed (simp add: keys_from_def)

lemma Contains_value:
  assumes inv: "skiplist_inv cmp valid s ns" and k: "valid k"
  shows "Contains cmp k s = Some (\<not> absent cmp s ns k)"
proof -
  note l = skiplist_invD(1) [OF inv]
  let ?ks = "map (key_at s) ns"
  have "sorted_wrt (\<lambda>a b. cmp a b < 0) ?ks" "\<And>a. a \<in> set ?ks \<Longrightarrow> valid a"
    using linkedD(8,9) [OF l] by (auto simp: sorted_wrt_map)
  from keys_equal_from [OF this k] have eq: "\<not> absent cmp s ns k \<longleftrightarrow>
      (\<exists>a as. map (key_at s) (nodes_from cmp s ns k) = a # as \<and> cmp k a = 0)"
    unfolding nodes_keys by (auto simp: absent_def)
  show ?thesis
  proof (cases "nodes_from cmp s ns k")
    case Nil
    with eq show ?thesis by (simp add: Contains_def FindGreaterOrEqual_value(1) [OF inv k])
  next
    case (Cons y ys)
    then have "y \<in> set ns" using before_from [of cmp s ns k] by (metis in_set_conv_decomp)
    with Cons eq show ?thesis
      by (simp add: Contains_def FindGreaterOrEqual_value(1) [OF inv k] Node_key_at linkedD(3) [OF l])
  qed
qed

lemma Seek_value:
  assumes inv: "skiplist_inv cmp valid s ns" and k: "valid k"
  shows "\<exists>it. Iterator_Seek cmp s k = Some it \<and>
    iterator_at s ns it (keys_before cmp (map (key_at s) ns) k) (keys_from cmp (map (key_at s) ns) k)"
  using iterator_atI [OF before_from [of cmp s ns k, symmetric], of s]
  by (simp add: Iterator_Seek_def FindGreaterOrEqual_value(1) [OF assms] nodes_keys)

end

lemma first_find: "(\<And>n. n \<in> set bs \<Longrightarrow> P n) \<Longrightarrow> List.find P bs = first_of bs"
  by (cases bs) auto

context key_order
begin

lemma SeekToFirst_value:
  assumes inv: "skiplist_inv cmp valid s ns"
  shows "\<exists>it. Iterator_SeekToFirst s = Some it \<and> iterator_at s ns it [] (map (key_at s) ns)"
proof -
  note l = skiplist_invD(1) [OF inv]
  have "Node_Next s 0 0 = Some (first_of ns)"
    using linkedD(1) [OF l, of "[]" ns 0] linkedD(5,6) [OF l] by (simp add: first_find)
  then show ?thesis by (auto simp: Iterator_SeekToFirst_def head_node_def iterator_at_def)
qed

lemma iterator_key:
  assumes inv: "skiplist_inv cmp valid s ns" and "iterator_at s ns it as (b # bs)"
  shows "Iterator_Valid it" and "Iterator_key s it = Some b"
  using assms(2) linkedD(3) [OF skiplist_invD(1) [OF inv]]
  by (auto simp: iterator_at_def Iterator_Valid_def Iterator_key_def Node_key_at)

lemma iterator_end: "iterator_at s ns it as [] \<Longrightarrow> it = None"
  by (auto simp: iterator_at_def)

lemma Next_value:
  assumes inv: "skiplist_inv cmp valid s ns" and it: "iterator_at s ns it as (b # bs)"
  shows "\<exists>it'. Iterator_Next s it = Some it' \<and> iterator_at s ns it' (as @ [b]) bs"
proof -
  note l = skiplist_invD(1) [OF inv]
  from it obtain xs y ys where y: "ns = xs @ y # ys" "it = Some y" "as = map (key_at s) xs" "b = key_at s y"
    "bs = map (key_at s) ys" by (auto simp: iterator_at_def)
  have "Node_Next s y 0 = Some (first_of ys)"
    using linkedD(1) [OF l, of "xs @ [y]" ys 0] linkedD(6) [OF l] y(1) by (simp add: first_find)
  then show ?thesis using y iterator_atI [of ns "xs @ [y]" ys s] by (simp add: Iterator_Next_def)
qed

lemma last_as_iterator:
  assumes "0 \<notin> set xs"
  shows "before_head (last (0 # xs)) = first_of (rev xs)"
  using assms by (cases xs rule: rev_cases) (auto simp: before_head_def head_node_def)

lemma iterator_backI:
  assumes "ns = xs @ ys" and "it = first_of (rev xs)"
  shows "iterator_back s ns it (map (key_at s) xs) (map (key_at s) ys)"
proof (cases xs rule: rev_cases)
  case (snoc as a)
  with assms iterator_atI [of ns as "a # ys" s] show ?thesis by (simp add: iterator_back_def)
qed (use assms in \<open>simp add: iterator_back_def\<close>)

lemma SeekToLast_value:
  assumes inv: "skiplist_inv cmp valid s ns"
  shows "\<exists>it. Iterator_SeekToLast s = Some it \<and> iterator_back s ns it (map (key_at s) ns) []"
proof -
  note l = skiplist_invD(1) [OF inv] and m = skiplist_invD(3,4) [OF inv]
  have "FindLast s = Some (last (0 # ns))"
    using FindLast_loop_value [OF l, of "[]" ns 0 "max_height s - 1"] linkedD(5) [OF l] m
    by (simp add: FindLast_def head_node_def)
  moreover have "0 \<notin> set ns" using linkedD(2) [OF l] by simp
  ultimately show ?thesis
    using iterator_backI [of ns ns "[]" _ s] last_as_iterator [of ns] by (simp add: Iterator_SeekToLast_def)
qed

lemma before_key:
  assumes l: "linked cmp valid s h ns" and "ns = xs @ y # ys"
  shows "nodes_before cmp s ns (key_at s y) = xs"
proof -
  have "cmp (key_at s x) (key_at s y) < 0" if "x \<in> set xs" for x
    using linkedD(8) [OF l] that by (simp add: assms(2) sorted_wrt_append)
  moreover have "cmp (key_at s y) (key_at s y) = 0" by (rule cmp_refl) (rule linkedD(9) [OF l], simp add: assms(2))
  ultimately show ?thesis by (simp add: nodes_before_def assms(2))
qed

lemma Prev_value:
  assumes inv: "skiplist_inv cmp valid s ns" and it: "iterator_at s ns it as (b # bs)"
  shows "\<exists>it'. Iterator_Prev cmp s it = Some it' \<and> iterator_back s ns it' as (b # bs)"
proof -
  note l = skiplist_invD(1) [OF inv] and m = skiplist_invD(3,4) [OF inv]
  from it obtain xs y ys where y: "ns = xs @ y # ys" "it = Some y" "as = map (key_at s) xs" "b = key_at s y"
    "bs = map (key_at s) ys" by (auto simp: iterator_at_def)
  have k: "valid b" using linkedD(9) [OF l] y by simp
  have "position cmp s (height_of s) ns b 0 (max_height s - 1) [] ns" by (rule position_start [OF l]) (use m in simp)
  from FindLessThan_loop_value [OF l k this] have "FindLessThan cmp s b = Some (last (0 # xs))"
    using m before_key [OF l y(1)] y(4) by (simp add: FindLessThan_def head_node_def)
  moreover have "0 \<notin> set xs" using linkedD(2) [OF l] y(1) by simp
  moreover have "Iterator_key s it = Some b" using iterator_key(2) [OF inv it] .
  ultimately show ?thesis
    using iterator_backI [of ns xs "y # ys" _ s] last_as_iterator [of xs] y by (simp add: Iterator_Prev_def)
qed

end

section \<open>Scanning\<close>

text \<open>At most \<open>n\<close> keys from an iterator on, and where it ends.\<close>

fun scan :: "'k SkipList \<Rightarrow> nat \<Rightarrow> nat option \<Rightarrow> ('k list \<times> nat option) option" where
  "scan s 0 it = Some ([], it)"
| "scan s (Suc n) it =
     (if Iterator_Valid it then
        Option.bind (Iterator_key s it) (\<lambda>k. Option.bind (Iterator_Next s it) (\<lambda>it'.
        map_option (\<lambda>(ks, e). (k # ks, e)) (scan s n it')))
      else Some ([], it))"

lemma absent_keys: "absent cmp s ns k \<longleftrightarrow> (\<forall>a \<in> set (map (key_at s) ns). cmp k a \<noteq> 0)"
  by (simp add: absent_def)

fun Inserts :: "('k \<Rightarrow> 'k \<Rightarrow> int) \<Rightarrow> 'k list \<Rightarrow> 'k SkipList \<Rightarrow> 'k SkipList option" where
  "Inserts cmp [] s = Some s"
| "Inserts cmp (k # ks) s = Option.bind (Insert cmp k s) (Inserts cmp ks)"

context key_order
begin

lemma scan_value:
  "skiplist_inv cmp valid s ns \<Longrightarrow> iterator_at s ns it as bs \<Longrightarrow> scan s (length bs) it = Some (bs, None)"
proof (induction bs arbitrary: it as)
  case Nil
  then show ?case by (simp add: iterator_end)
next
  case (Cons b bs)
  from Next_value [OF Cons.prems] obtain it' where "Iterator_Next s it = Some it'" "iterator_at s ns it' (as @ [b]) bs" by blast
  with iterator_key [OF Cons.prems] Cons.IH [OF Cons.prems(1)] show ?case by simp
qed

lemma Inserts_result:
  assumes "skiplist_inv cmp valid s ns" and "\<And>k. k \<in> set ks \<Longrightarrow> valid k"
    and "sorted_wrt (\<lambda>a b. cmp b a \<noteq> 0) ks" and "\<And>k. k \<in> set ks \<Longrightarrow> absent cmp s ns k"
  shows "\<exists>s' ns'. Inserts cmp ks s = Some s' \<and> skiplist_inv cmp valid s' ns' \<and>
    map (key_at s') ns' = fold (insert_key cmp) ks (map (key_at s) ns)"
  using assms
proof (induction ks arbitrary: s ns)
  case Nil
  then show ?case by auto
next
  case (Cons k ks)
  from Insert_result [OF Cons.prems(1), of k] Cons.prems(2,4) obtain s1 ns1 where
    s1: "Insert cmp k s = Some s1" "skiplist_inv cmp valid s1 ns1"
      "map (key_at s1) ns1 = insert_key cmp k (map (key_at s) ns)" by auto
  have "absent cmp s1 ns1 k'" if "k' \<in> set ks" for k'
    using Cons.prems(3) Cons.prems(4) [of k'] that unfolding absent_keys s1(3) by auto
  with Cons.IH [OF s1(2)] Cons.prems(2,3) s1(1,3) show ?case by simp
qed

end

end
