(* ===== verification/Ldb_SkipList_Concurrent.thy ===== *)
theory Ldb_SkipList_Concurrent
  imports Ldb_SkipList_Ops
begin

text \<open>
  Readers of the skip list take no lock: while one thread inserts, a search runs with its loads anywhere
  between the levels that the writer links. A step of the writer is the whole of what precedes the linking (the
  search for the predecessors and the new node, which no reader can see yet), or one level: its two stores are
  one step, as the first only changes the new node, which is in no list of that level before the second. A step of
  the reader is one round of its loop, with one load. Loads and stores of links are taken in one order, which the acquire loads
  and release stores of \<open>Node::Next\<close> and \<open>Node::SetNext\<close> are there for; the height a reader starts with
  may be stale.
\<close>

section \<open>Threads\<close>

datatype writer = Idle | Linking "nat option list" nat nat nat

datatype 'k reader = Ready | Searching 'k nat nat | Found 'k "nat option" | Fault

text \<open>\<open>contents\<close> records the keys inserted so far; no step looks at it.\<close>

record 'k threads =
  shared :: "'k SkipList"
  writer_at :: writer
  reader_at :: "'k reader"
  contents :: "'k list"

text \<open>One round of the loop of \<open>FindGreaterOrEqual\<close>, without an array to fill.\<close>

definition reader_round :: "('k \<Rightarrow> 'k \<Rightarrow> int) \<Rightarrow> 'k SkipList \<Rightarrow> 'k \<Rightarrow> nat \<Rightarrow> nat \<Rightarrow> 'k reader" where
  "reader_round cmp s k x level =
     (case Node_Next s x level of None \<Rightarrow> Fault
      | Some next \<Rightarrow>
        (case KeyIsAfterNode cmp s k next of None \<Rightarrow> Fault
         | Some True \<Rightarrow> Searching k (the next) level
         | Some False \<Rightarrow> if level = 0 then Found k next else Searching k x (level - 1)))"

text \<open>
  \<open>Insert\<close> in steps: up to the new node, then one level after the other. Linking the lowest level is
  what makes the key part of the list.
\<close>

inductive thread_step :: "('k \<Rightarrow> 'k \<Rightarrow> int) \<Rightarrow> ('k \<Rightarrow> bool) \<Rightarrow> 'k threads \<Rightarrow> 'k threads \<Rightarrow> bool"
  for cmp :: "'k \<Rightarrow> 'k \<Rightarrow> int" and valid :: "'k \<Rightarrow> bool" where
  insert_start: "thread_step cmp valid t (t\<lparr>shared := s', writer_at := Linking prev x height 0\<rparr>)"
    if "writer_at t = Idle" "valid k" "\<forall>a \<in> set (contents t). cmp k a \<noteq> 0"
       "prepare cmp k (shared t) = Some (prev, height, x, s')"
| insert_link: "thread_step cmp valid t (t\<lparr>shared := s', writer_at := Linking prev x height (i + 1),
      contents := (if i = 0 then insert_key cmp (key_at s' x) (contents t) else contents t)\<rparr>)"
    if "writer_at t = Linking prev x height i" "i < height" "link_level prev x i (shared t) = Some s'"
| insert_done: "thread_step cmp valid t (t\<lparr>writer_at := Idle\<rparr>)"
    if "writer_at t = Linking prev x height height"
| reader_start: "thread_step cmp valid t (t\<lparr>reader_at := Searching k head_node level\<rparr>)"
    if "reader_at t = Ready \<or> reader_at t = Found k' r" "valid k" "level < max_height (shared t)"
| reader_next: "thread_step cmp valid t (t\<lparr>reader_at := reader_round cmp (shared t) k x level\<rparr>)"
    if "reader_at t = Searching k x level"

definition threads_new :: "'k SkipList \<Rightarrow> 'k threads" where
  "threads_new s = \<lparr>shared = s, writer_at = Idle, reader_at = Ready, contents = []\<rparr>"

section \<open>The invariant\<close>

text \<open>The nodes in the list and how many of their levels are linked.\<close>

definition writer_inv :: "('k \<Rightarrow> 'k \<Rightarrow> int) \<Rightarrow> ('k \<Rightarrow> bool) \<Rightarrow> 'k SkipList \<Rightarrow> writer \<Rightarrow> (nat \<Rightarrow> nat) \<Rightarrow> nat list \<Rightarrow> bool" where
  "writer_inv cmp valid s w h ns \<longleftrightarrow>
     (case w of Idle \<Rightarrow> skiplist_inv cmp valid s ns \<and> h = height_of s
      | Linking prev x height i \<Rightarrow>
        (\<exists>s0 ns0 k. linked cmp valid s0 (height_of s0) ns0 \<and> fresh_node cmp s0 (height_of s0) ns0 k prev x \<and>
           partly_linked cmp s0 (height_of s0) ns0 k x i s \<and> height = height_of s0 x \<and> i \<le> height \<and>
           valid k \<and> (\<forall>n \<in> set ns0. cmp k (key_at s0 n) \<noteq> 0) \<and>
           insert x (insert 0 (set ns0)) = {..<length (nodes s0)} \<and>
           1 \<le> max_height s0 \<and> max_height s0 \<le> 12 \<and> good_seed (rnd s0) \<and>
           (\<forall>n \<in> insert x (set ns0). height_of s0 n \<le> max_height s0) \<and>
           (if i = 0 then ns = ns0 \<and> h = height_of s0
            else ns = with_node cmp s0 ns0 k x \<and> h = (height_of s0)(x := i))))"

definition reader_inv :: "('k \<Rightarrow> 'k \<Rightarrow> int) \<Rightarrow> ('k \<Rightarrow> bool) \<Rightarrow> 'k SkipList \<Rightarrow> 'k reader \<Rightarrow> (nat \<Rightarrow> nat) \<Rightarrow> nat list \<Rightarrow> bool" where
  "reader_inv cmp valid s r h ns \<longleftrightarrow>
     (case r of Ready \<Rightarrow> True | Found k it \<Rightarrow> True | Fault \<Rightarrow> False
      | Searching k x level \<Rightarrow> valid k \<and> level < h x \<and>
          (x = 0 \<or> x \<in> set ns \<and> cmp (key_at s x) k < 0))"

definition threads_inv :: "('k \<Rightarrow> 'k \<Rightarrow> int) \<Rightarrow> ('k \<Rightarrow> bool) \<Rightarrow> 'k threads \<Rightarrow> (nat \<Rightarrow> nat) \<Rightarrow> nat list \<Rightarrow> bool" where
  "threads_inv cmp valid t h ns \<longleftrightarrow> linked cmp valid (shared t) h ns \<and> contents t = map (key_at (shared t)) ns \<and>
     1 \<le> max_height (shared t) \<and> max_height (shared t) \<le> 12 \<and>
     writer_inv cmp valid (shared t) (writer_at t) h ns \<and> reader_inv cmp valid (shared t) (reader_at t) h ns"

text \<open>The list only grows.\<close>

definition extends :: "'k SkipList \<Rightarrow> (nat \<Rightarrow> nat) \<Rightarrow> nat list \<Rightarrow> 'k SkipList \<Rightarrow> (nat \<Rightarrow> nat) \<Rightarrow> nat list \<Rightarrow> bool" where
  "extends s h ns s' h' ns' \<longleftrightarrow> set ns \<subseteq> set ns' \<and>
     (\<forall>n \<in> insert 0 (set ns). h n \<le> h' n) \<and> (\<forall>n \<in> set ns. key_at s' n = key_at s n)"

lemma reader_inv_extends:
  "reader_inv cmp valid s r h ns \<Longrightarrow> extends s h ns s' h' ns' \<Longrightarrow> reader_inv cmp valid s' r h' ns'"
  by (auto simp: reader_inv_def extends_def split: reader.splits intro: less_le_trans)

context key_order
begin

lemma reader_position:
  assumes l: "linked cmp valid s h ns" and k: "valid k" and "level < h x"
    and x: "x = 0 \<or> x \<in> set ns \<and> cmp (key_at s x) k < 0"
  shows "\<exists>as bs. position cmp s h ns k x level as bs"
proof (cases "x = 0")
  case True
  with assms(3) show ?thesis by (intro exI [of _ "[]"] exI [of _ ns]) (simp add: position_def)
next
  case False
  with x obtain as bs where ns: "ns = as @ x # bs" by (meson split_list)
  have "cmp (key_at s n) k < 0" if "n \<in> set as" for n
  proof (rule cmp_less_trans [OF _ _ k])
    show "valid (key_at s n)" "valid (key_at s x)" using that by (auto intro: linkedD(9) [OF l] simp: ns)
    show "cmp (key_at s n) (key_at s x) < 0" using linkedD(8) [OF l] that by (simp add: ns sorted_wrt_append)
    show "cmp (key_at s x) k < 0" using x False by simp
  qed
  with ns x False assms(3) show ?thesis
    by (intro exI [of _ "as @ [x]"] exI [of _ bs]) (auto simp: position_def)
qed

lemma reader_round_result:
  assumes l: "linked cmp valid s h ns" and r: "reader_inv cmp valid s (Searching k x level) h ns"
  shows "reader_inv cmp valid s (reader_round cmp s k x level) h ns"
    and "reader_round cmp s k x level = Found k' it \<Longrightarrow> k' = k \<and> it = first_of (nodes_from cmp s ns k)"
proof -
  have k: "valid k" using r by (simp add: reader_inv_def)
  from r reader_position [OF l k, of level x] obtain as bs where p: "position cmp s h ns k x level as bs"
    by (auto simp: reader_inv_def)
  note step = position_step [OF l k p]
  let ?next = "List.find (\<lambda>n. level < h n) bs"
  show "reader_inv cmp valid s (reader_round cmp s k x level) h ns"
  proof (cases "?next \<noteq> None \<and> cmp (key_at s (the ?next)) k < 0")
    case True
    have ka: "KeyIsAfterNode cmp s k ?next = Some True" unfolding step(2) using True by blast
    from True obtain y where y: "?next = Some y" by auto
    then have "y \<in> set ns \<and> level < h y" using p by (auto simp: position_def dest: find_SomeD)
    with True y k ka [unfolded y] show ?thesis by (simp add: reader_round_def step(1) reader_inv_def)
  next
    case False
    have ka: "KeyIsAfterNode cmp s k ?next = Some False" unfolding step(2) using False by blast
    with r show ?thesis by (auto simp: reader_round_def step(1) ka reader_inv_def)
  qed
  assume f: "reader_round cmp s k x level = Found k' it"
  have False': "\<not> (?next \<noteq> None \<and> cmp (key_at s (the ?next)) k < 0)"
  proof
    assume "?next \<noteq> None \<and> cmp (key_at s (the ?next)) k < 0"
    then have "KeyIsAfterNode cmp s k ?next = Some True" unfolding step(2) by blast
    with f show False by (simp add: reader_round_def step(1))
  qed
  then have ka: "KeyIsAfterNode cmp s k ?next = Some False" unfolding step(2) by blast
  with f have "level = 0" "it = ?next" "k' = k" by (simp_all add: reader_round_def step(1) split: if_splits)
  with step(5) [OF False'] show "k' = k \<and> it = first_of (nodes_from cmp s ns k)" by presburger
qed

section \<open>Every step keeps the invariant\<close>

lemma prepare_step:
  assumes inv: "skiplist_inv cmp valid s ns" and k: "valid k" and new: "absent cmp s ns k"
    and p: "prepare cmp k s = Some (prev, height, x, s')"
  shows "linked cmp valid s' (height_of s') ns \<and> map (key_at s') ns = map (key_at s) ns \<and>
    1 \<le> max_height s' \<and> max_height s' \<le> 12 \<and> extends s (height_of s) ns s' (height_of s') ns \<and>
    writer_inv cmp valid s' (Linking prev x height 0) (height_of s') ns"
proof -
  from prepare_result [OF inv k new] p have r: "linked cmp valid s' (height_of s') ns"
    "fresh_node cmp s' (height_of s') ns k prev x" "height = height_of s' x" "x = length (nodes s)"
    "length (nodes s') = Suc x" "\<forall>n \<in> set ns. key_at s' n = key_at s n" "1 \<le> max_height s'" "max_height s' \<le> 12"
    "\<forall>n \<in> insert x (set ns). height_of s' n \<le> max_height s'" "good_seed (rnd s')" by auto
  have l: "linked cmp valid s (height_of s) ns" using inv by (rule skiplist_invD)
  have more: "\<exists>node. nodes s' = nodes s @ [node]"
    using p by (auto simp: prepare_def RandomHeight_def NewNode_def Let_def split: if_splits prod.splits bind_splits)
  then have h: "height_of s' n = height_of s n" if "n < length (nodes s)" for n
    using that by (auto simp: height_of_def nth_append)
  have ext: "extends s (height_of s) ns s' (height_of s') ns"
    unfolding extends_def using r(6) h linkedD(3,4) [OF l] by auto
  have all: "insert x (insert 0 (set ns)) = {..<length (nodes s')}"
    unfolding skiplist_invD(2) [OF inv] r(5) r(4) by (rule lessThan_Suc [symmetric])
  have "\<forall>n \<in> set ns. cmp k (key_at s' n) \<noteq> 0" using new r(6) by (simp add: absent_def)
  then have "writer_inv cmp valid s' (Linking prev x height 0) (height_of s') ns"
    unfolding writer_inv_def writer.case
    using r k all partly_linked_0 [OF r(2)]
    by (intro exI [of _ s'] exI [of _ ns] exI [of _ k]) auto
  moreover have "map (key_at s') ns = map (key_at s) ns" using r(6) by simp
  ultimately show ?thesis using r(1,7,8) ext by blast
qed

lemma link_step_inv:
  assumes w: "writer_inv cmp valid s (Linking prev x height i) h ns" and i: "i < height"
    and link: "link_level prev x i s = Some s'"
  shows "\<exists>h' ns'. linked cmp valid s' h' ns' \<and> writer_inv cmp valid s' (Linking prev x height (i + 1)) h' ns' \<and>
    extends s h ns s' h' ns' \<and> max_height s' = max_height s \<and>
    map (key_at s') ns' = (if i = 0 then insert_key cmp (key_at s' x) (map (key_at s) ns) else map (key_at s) ns)"
proof -
  from w obtain s0 ns0 k where l0: "linked cmp valid s0 (height_of s0) ns0"
    and f: "fresh_node cmp s0 (height_of s0) ns0 k prev x" and p: "partly_linked cmp s0 (height_of s0) ns0 k x i s"
    and hx: "height = height_of s0 x" and k: "valid k" and new: "\<forall>n \<in> set ns0. cmp k (key_at s0 n) \<noteq> 0"
    and rest: "insert x (insert 0 (set ns0)) = {..<length (nodes s0)}" "1 \<le> max_height s0" "max_height s0 \<le> 12"
      "good_seed (rnd s0)" "\<forall>n \<in> insert x (set ns0). height_of s0 n \<le> max_height s0"
    and now: "if i = 0 then ns = ns0 \<and> h = height_of s0 else ns = with_node cmp s0 ns0 k x \<and> h = (height_of s0)(x := i)"
    unfolding writer_inv_def writer.case by blast
  from link_step [OF l0 f p] i hx link have p': "partly_linked cmp s0 (height_of s0) ns0 k x (Suc i) s'" by auto
  let ?h = "(height_of s0)(x := Suc i)" and ?ns = "with_node cmp s0 ns0 k x"
  have l': "linked cmp valid s' ?h ?ns"
    by (rule linked_with_node [OF l0 f p' _ _ k]) (use i hx new in auto)
  have same: "same_nodes s0 s" "same_nodes s0 s'" using p p' by (simp_all add: partly_linked_def)
  have x: "x \<notin> insert 0 (set ns0)" "key_at s0 x = k" using f by (simp_all add: fresh_node_def)
  have w': "writer_inv cmp valid s' (Linking prev x height (i + 1)) ?h ?ns"
    unfolding writer_inv_def writer.case using l0 f p' hx k new rest i
    by (intro exI [of _ s0] exI [of _ ns0] exI [of _ k]) simp
  have keys: "map (key_at s') ?ns = insert_key cmp k (map (key_at s0) ns0)"
    using same x(2) by (simp add: with_node_def insert_key_def nodes_keys same_nodes_def)
  have ext: "extends s h ns s' ?h ?ns"
    using now x(1) same by (auto simp: extends_def same_nodes_def split: if_splits)
  have "map (key_at s') ?ns = (if i = 0 then insert_key cmp (key_at s' x) (map (key_at s) ns) else map (key_at s) ns)"
    using now keys same x(2) by (auto simp: same_nodes_def)
  with l' w' ext same show ?thesis by (intro exI [of _ ?h] exI [of _ ?ns]) (simp add: same_nodes_def)
qed

lemma link_done_inv:
  assumes w: "writer_inv cmp valid s (Linking prev x height height) h ns" and l: "linked cmp valid s h ns"
  shows "writer_inv cmp valid s Idle h ns"
proof -
  from w obtain s0 ns0 k where f: "fresh_node cmp s0 (height_of s0) ns0 k prev x"
    and p: "partly_linked cmp s0 (height_of s0) ns0 k x height s" and hx: "height = height_of s0 x"
    and rest: "insert x (insert 0 (set ns0)) = {..<length (nodes s0)}" "1 \<le> max_height s0" "max_height s0 \<le> 12"
      "good_seed (rnd s0)" "\<forall>n \<in> insert x (set ns0). height_of s0 n \<le> max_height s0"
    and now: "if height = 0 then ns = ns0 \<and> h = height_of s0 else ns = with_node cmp s0 ns0 k x \<and> h = (height_of s0)(x := height)"
    unfolding writer_inv_def writer.case by blast
  have same: "same_nodes s0 s" using p by (simp add: partly_linked_def)
  have "height \<noteq> 0" using f hx by (simp add: fresh_node_def)
  with now have ns: "ns = with_node cmp s0 ns0 k x" and h: "h = height_of s"
    using same hx by (simp_all add: same_nodes_def)
  have "insert 0 (set ns) = {..<length (nodes s)}"
    unfolding ns set_with_node using rest(1) same by (simp add: insert_commute [of 0 x] same_nodes_def)
  with l rest same show ?thesis unfolding h by (simp add: writer_inv_def skiplist_inv_def ns same_nodes_def)
qed

lemma absent_contents:
  "threads_inv cmp valid t h ns \<Longrightarrow> (\<forall>a \<in> set (contents t). cmp k a \<noteq> 0) \<longleftrightarrow> absent cmp (shared t) ns k"
  by (simp add: threads_inv_def absent_keys)

lemma thread_step_inv:
  assumes step: "thread_step cmp valid t t'" and inv: "threads_inv cmp valid t h ns"
  shows "\<exists>h' ns'. threads_inv cmp valid t' h' ns' \<and> extends (shared t) h ns (shared t') h' ns'"
proof -
  have l: "linked cmp valid (shared t) h ns" and c: "contents t = map (key_at (shared t)) ns"
    and m: "1 \<le> max_height (shared t)" "max_height (shared t) \<le> 12"
    and w: "writer_inv cmp valid (shared t) (writer_at t) h ns" and r: "reader_inv cmp valid (shared t) (reader_at t) h ns"
    using inv by (simp_all add: threads_inv_def)
  have refl: "extends (shared t) h ns (shared t) h ns" by (simp add: extends_def)
  from step show ?thesis
  proof cases
    case (insert_start k prev height x s')
    then have "skiplist_inv cmp valid (shared t) ns" and h: "h = height_of (shared t)"
      using w by (simp_all add: writer_inv_def)
    from prepare_step [OF this(1) insert_start(3) _ insert_start(5)] insert_start(4) absent_contents [OF inv]
    have p: "linked cmp valid s' (height_of s') ns" "map (key_at s') ns = map (key_at (shared t)) ns"
      "1 \<le> max_height s'" "max_height s' \<le> 12" "extends (shared t) h ns s' (height_of s') ns"
      "writer_inv cmp valid s' (Linking prev x height 0) (height_of s') ns" unfolding h by blast+
    with reader_inv_extends [OF r p(5)] c insert_start(1) show ?thesis
      by (intro exI [of _ "height_of s'"] exI [of _ ns]) (simp add: threads_inv_def del: map_eq_conv)
  next
    case (insert_link prev x height i s')
    with w have "writer_inv cmp valid (shared t) (Linking prev x height i) h ns" by simp
    from link_step_inv [OF this insert_link(3,4)] obtain h' ns' where p: "linked cmp valid s' h' ns'"
      "writer_inv cmp valid s' (Linking prev x height (i + 1)) h' ns'" "extends (shared t) h ns s' h' ns'"
      "max_height s' = max_height (shared t)"
      "map (key_at s') ns' = (if i = 0 then insert_key cmp (key_at s' x) (map (key_at (shared t)) ns) else map (key_at (shared t)) ns)"
      by blast
    with reader_inv_extends [OF r p(3)] c m insert_link(1) show ?thesis
      by (intro exI [of _ h'] exI [of _ ns']) (simp add: threads_inv_def del: map_eq_conv)
  next
    case (insert_done prev x height)
    with w have "writer_inv cmp valid (shared t) (Linking prev x height height) h ns" by simp
    from link_done_inv [OF this l] insert_done(1) l c m r refl show ?thesis
      by (intro exI [of _ h] exI [of _ ns]) (simp add: threads_inv_def)
  next
    case (reader_start k' r' k level)
    have "reader_inv cmp valid (shared t) (Searching k head_node level) h ns"
      using reader_start(3,4) m linkedD(5) [OF l] by (simp add: reader_inv_def head_node_def)
    with reader_start(1) l c m w refl show ?thesis
      by (intro exI [of _ h] exI [of _ ns]) (simp add: threads_inv_def)
  next
    case (reader_next k x level)
    with r have "reader_inv cmp valid (shared t) (Searching k x level) h ns" by simp
    from reader_round_result(1) [OF l this] reader_next(1) l c m w refl show ?thesis
      by (intro exI [of _ h] exI [of _ ns]) (simp add: threads_inv_def)
  qed
qed

lemma threads_new_inv:
  assumes "SkipList_new any_key = Some s"
  shows "\<exists>h. threads_inv cmp valid (threads_new s) h []"
proof -
  from SkipList_new_inv [of any_key cmp valid] assms have "skiplist_inv cmp valid s []" by simp
  with skiplist_invD [OF this] show ?thesis
    by (intro exI [of _ "height_of s"]) (simp add: threads_inv_def threads_new_def writer_inv_def reader_inv_def)
qed

lemma reachable_inv:
  assumes "SkipList_new any_key = Some s" and "(thread_step cmp valid)\<^sup>*\<^sup>* (threads_new s) t"
  shows "\<exists>h ns. threads_inv cmp valid t h ns"
  using assms(2)
proof (induction rule: rtranclp_induct)
  case base
  from threads_new_inv [OF assms(1)] show ?case by blast
next
  case (step t t')
  with thread_step_inv show ?case by blast
qed

text \<open>A search that is left alone comes to its end.\<close>

lemma search_ends:
  assumes l: "linked cmp valid s h ns" and "position cmp s h ns k x level as bs" and k: "valid k"
    and "shared t = s" "reader_at t = Searching k x level"
  shows "\<exists>r. (thread_step cmp valid)\<^sup>*\<^sup>* t (t\<lparr>reader_at := Found k r\<rparr>)"
  using assms(2,4,5)
proof (induction "level + length bs" arbitrary: x level as bs t rule: less_induct)
  case less
  note step = position_step [OF l k less.prems(1)]
  let ?next = "List.find (\<lambda>n. level < h n) bs"
  let ?t = "t\<lparr>reader_at := reader_round cmp s k x level\<rparr>"
  have st: "thread_step cmp valid t ?t" using thread_step.reader_next [OF less.prems(3)] less.prems(2) by simp
  show ?case
  proof (cases "?next \<noteq> None \<and> cmp (key_at s (the ?next)) k < 0")
    case True
    have ka: "KeyIsAfterNode cmp s k ?next = Some True" unfolding step(2) using True by blast
    then have r: "reader_round cmp s k x level = Searching k (the ?next) level" by (simp add: reader_round_def step(1))
    from True step(3) obtain as' bs' where "position cmp s h ns k (the ?next) level as' bs'" "length bs' < length bs" by blast
    with less.hyps [of level bs' "the ?next" as' ?t] less.prems(2) r obtain r' where
      "(thread_step cmp valid)\<^sup>*\<^sup>* ?t (?t\<lparr>reader_at := Found k r'\<rparr>)" by auto
    with st show ?thesis by (metis (no_types, lifting) converse_rtranclp_into_rtranclp threads.update_convs(3) threads.surjective)
  next
    case False
    have ka: "KeyIsAfterNode cmp s k ?next = Some False" unfolding step(2) using False by blast
    then have r: "reader_round cmp s k x level = (if level = 0 then Found k ?next else Searching k x (level - 1))"
      by (simp add: reader_round_def step(1))
    show ?thesis
    proof (cases "level = 0")
      case True
      with st r show ?thesis by (intro exI [of _ ?next]) simp
    next
      case lv: False
      with less.hyps [OF _ position_drop [OF less.prems(1)], of ?t] less.prems(2) r obtain r' where
        "(thread_step cmp valid)\<^sup>*\<^sup>* ?t (?t\<lparr>reader_at := Found k r'\<rparr>)" by auto
      with st show ?thesis by (metis (no_types, lifting) converse_rtranclp_into_rtranclp threads.update_convs(3) threads.surjective)
    qed
  qed
qed

end

end
