(* ===== verification/Ldb_SkipList_Props.thy ===== *)
theory Ldb_SkipList_Props
  imports Ldb_SkipList_Concurrent
begin

text \<open>Properties of the skip list, for the order of byte strings.\<close>

lemma fold_insert_key:
  "set (fold (insert_key cmp) ks ls) = set ks \<union> set ls" "length (fold (insert_key cmp) ks ls) = length ks + length ls"
  by (induction ks arbitrary: ls) simp_all

lemma bytewise_equal [simp]: "Compare BytewiseComparator a b = 0 \<longleftrightarrow> a = b"
  using bytewise.equal [of a b] by simp

text \<open>C23: the skip list is a sorted set. Whatever random heights the nodes get, inserting distinct keys
  into a new list succeeds; scanning from the first entry gives exactly those keys in ascending order
  and ends; \<open>Contains\<close> answers membership, \<open>Seek\<close> stops at the first key not before its target, and
  \<open>SeekToLast\<close> at the greatest key.\<close>

theorem skiplist_sorted_set:
  assumes "distinct ks"
  shows "\<exists>s0 s out first found last'. SkipList_new any_key = Some s0 \<and>
    Inserts (Compare BytewiseComparator) ks s0 = Some s \<and>
    sorted_wrt (\<lambda>a b. Compare BytewiseComparator a b < 0) out \<and> set out = set ks \<and> length out = length ks \<and>
    Iterator_SeekToFirst s = Some first \<and> scan s (length ks) first = Some (out, None) \<and>
    Contains (Compare BytewiseComparator) k s = Some (k \<in> set ks) \<and>
    Iterator_Seek (Compare BytewiseComparator) s k = Some found \<and>
    Iterator_key s found = first_of (dropWhile (\<lambda>a. Compare BytewiseComparator a k < 0) out) \<and>
    Iterator_SeekToLast s = Some last' \<and> Iterator_key s last' = first_of (rev out)"
proof -
  let ?cmp = "Compare BytewiseComparator" and ?valid = "\<lambda>_ :: slice. True"
  from SkipList_new_inv [of any_key ?cmp ?valid] obtain s0 where
    s0: "SkipList_new any_key = Some s0" "skiplist_inv ?cmp ?valid s0 []" by blast
  have "sorted_wrt (\<lambda>a b. ?cmp b a \<noteq> 0) ks" using assms by (induction ks) auto
  from bytewise.Inserts_result [OF s0(2) _ this] obtain s ns where
    s: "Inserts ?cmp ks s0 = Some s" "skiplist_inv ?cmp ?valid s ns"
      "map (key_at s) ns = fold (insert_key ?cmp) ks []" by (auto simp: absent_def)
  define out where "out = map (key_at s) ns"
  have out: "set out = set ks" "length out = length ks"
    unfolding out_def s(3) by (simp_all add: fold_insert_key)
  have "skiplist_keys ?cmp ?valid s out" using s(2) by (auto simp: skiplist_keys_def out_def)
  then have sorted: "sorted_wrt (\<lambda>a b. ?cmp a b < 0) out" by (rule bytewise.sorted_insert_key)
  from bytewise.SeekToFirst_value [OF s(2)] obtain first where
    first: "Iterator_SeekToFirst s = Some first" "iterator_at s ns first [] out" unfolding out_def by blast
  have contains: "Contains ?cmp k s = Some (k \<in> set ks)"
    using bytewise.Contains_value [OF s(2), of k] out(1) unfolding absent_keys out_def by auto
  from bytewise.Seek_value [OF s(2), of k] obtain found where
    found: "Iterator_Seek ?cmp s k = Some found" "iterator_at s ns found (keys_before ?cmp out k) (keys_from ?cmp out k)"
    unfolding out_def by blast
  have fk: "Iterator_key s found = first_of (dropWhile (\<lambda>a. ?cmp a k < 0) out)"
  proof (cases "keys_from ?cmp out k")
    case Nil
    with found(2) have "found = None" by (simp add: bytewise.iterator_end)
    with Nil [unfolded keys_from_def] show ?thesis by (simp only: Iterator_key_def first_of_simps bind.simps)
  next
    case (Cons b bs)
    with found(2) bytewise.iterator_key(2) [OF s(2)] have "Iterator_key s found = Some b" by simp
    with Cons show ?thesis by (simp add: keys_from_def)
  qed
  from bytewise.SeekToLast_value [OF s(2)] obtain last' where
    last': "Iterator_SeekToLast s = Some last'" "iterator_back s ns last' out []" unfolding out_def by blast
  have lk: "Iterator_key s last' = first_of (rev out)"
  proof (cases out rule: rev_cases)
    case (snoc bs b)
    with last'(2) have "iterator_at s ns last' bs [b]" by (simp add: iterator_back_def)
    from bytewise.iterator_key(2) [OF s(2) this] snoc show ?thesis by simp
  qed (use last'(2) in \<open>simp add: iterator_back_def Iterator_key_def\<close>)
  have sc: "scan s (length ks) first = Some (out, None)"
    using bytewise.scan_value [OF s(2) first(2)] out(2) by simp
  show ?thesis
    by (rule exI [of _ s0], rule exI [of _ s], rule exI [of _ out], rule exI [of _ first], rule exI [of _ found],
        rule exI [of _ last'], intro conjI)
      (rule s0(1) s(1) sorted out first(1) sc contains found(1) fk last'(1) lk)+
qed

lemma skiplist_sorted_set_witness:
  "\<exists>s0 s out first found last'. SkipList_new [] = Some s0 \<and>
    Inserts (Compare BytewiseComparator) [[5], [2, 7], [2]] s0 = Some s \<and>
    sorted_wrt (\<lambda>a b. Compare BytewiseComparator a b < 0) out \<and> set out = set [[5], [2, 7], [2]] \<and> length out = length [[5], [2, 7], [2 :: byte]] \<and>
    Iterator_SeekToFirst s = Some first \<and> scan s (length [[5], [2, 7], [2 :: byte]]) first = Some (out, None) \<and>
    Contains (Compare BytewiseComparator) [2] s = Some ([2] \<in> set [[5], [2, 7], [2 :: byte]]) \<and>
    Iterator_Seek (Compare BytewiseComparator) s [2] = Some found \<and>
    Iterator_key s found = first_of (dropWhile (\<lambda>a. Compare BytewiseComparator a [2] < 0) out) \<and>
    Iterator_SeekToLast s = Some last' \<and> Iterator_key s last' = first_of (rev out)"
  by (rule skiplist_sorted_set) simp



text \<open>C25: a search that is left alone ends: from every reachable state in which a reader is searching,
  its own steps alone lead to a result, however far a stopped writer has got.\<close>

theorem reader_not_blocked:
  assumes "SkipList_new any_key = Some s"
    and "(thread_step (Compare BytewiseComparator) (\<lambda>_. True))\<^sup>*\<^sup>* (threads_new s) t"
    and "reader_at t = Searching k x level"
  shows "\<exists>r. (thread_step (Compare BytewiseComparator) (\<lambda>_. True))\<^sup>*\<^sup>* t (t\<lparr>reader_at := Found k r\<rparr>)"
proof -
  from bytewise.reachable_inv [OF assms(1,2)] obtain h ns where
    l: "linked (Compare BytewiseComparator) (\<lambda>_. True) (shared t) h ns"
    and "reader_inv (Compare BytewiseComparator) (\<lambda>_. True) (shared t) (Searching k x level) h ns"
    using assms(3) by (auto simp: threads_inv_def)
  with bytewise.reader_position [OF l, where k = k and level = level and x = x] obtain as bs where
    "position (Compare BytewiseComparator) (shared t) h ns k x level as bs" by (auto simp: reader_inv_def)
  from bytewise.search_ends [OF l this _ refl assms(3)] show ?thesis by simp
qed

lemma reader_not_blocked_witness:
  "\<exists>s t r. SkipList_new [] = Some s \<and>
    (thread_step (Compare BytewiseComparator) (\<lambda>_. True))\<^sup>*\<^sup>* (threads_new s) t \<and> reader_at t = Searching [0] 0 0 \<and>
    (thread_step (Compare BytewiseComparator) (\<lambda>_. True))\<^sup>*\<^sup>* t (t\<lparr>reader_at := Found [0] r\<rparr>)"
proof -
  let ?step = "thread_step (Compare BytewiseComparator) (\<lambda>_ :: slice. True)"
  from SkipList_new_inv [of "[]" "Compare BytewiseComparator" "\<lambda>_. True"] obtain s :: "slice SkipList" where
    s: "SkipList_new [] = Some s" "1 \<le> max_height s" by (auto simp: skiplist_inv_def)
  let ?t = "(threads_new s)\<lparr>reader_at := Searching [0] head_node 0\<rparr>"
  have "?step (threads_new s) ?t" by (rule reader_start) (use s(2) in \<open>simp_all add: threads_new_def\<close>)
  then have run: "?step\<^sup>*\<^sup>* (threads_new s) ?t" by simp
  have at: "reader_at ?t = Searching [0] 0 0" by (simp add: head_node_def)
  from reader_not_blocked [OF s(1) run at] s(1) run at show ?thesis by blast
qed

end
