(* ===== verification/Ldb_MemTable.thy ===== *)
theory Ldb_MemTable
  imports Ldb_SkipList_Ops Ldb_DbFormat Ldb_Status
begin

text \<open>
  The memtable, \<open>db/memtable.h\<close> and \<open>db/memtable.cc\<close>: a skip list of encoded entries. A pointer to an
  entry is the bytes from there to the end of the entry's buffer; reading beyond them is Nothing.
\<close>

section \<open>Memory\<close>

text \<open>
  \<open>operator new\<close> is a parameter: the address it returns for a number of bytes, for an arena that owns
  the blocks it owns.
\<close>

locale allocator =
  fixes new_at :: "nat \<Rightarrow> Arena \<Rightarrow> nat"
  assumes fresh: "fresh_block (new_at n a) n a"
begin

lemma Allocate_returns:
  "arena_inv given a \<Longrightarrow> 0 < n \<Longrightarrow> \<exists>q a'. Arena_Allocate (new_at (max n arena_block_size) a) n a = Some (q, a') \<and>
     arena_inv ((q, n) # given) a'"
  using Allocate_inv [of given a "new_at (max n arena_block_size) a" n] fresh [of "max n arena_block_size" a]
  by (cases "Arena_Allocate (new_at (max n arena_block_size) a) n a") (auto simp: Arena_Allocate_def split: if_splits)

lemma AllocateAligned_returns:
  "arena_inv given a \<Longrightarrow> \<exists>q a'. Arena_AllocateAligned (new_at (max n arena_block_size) a) n a = Some (q, a') \<and>
     arena_inv ((q, n) # given) a'"
  using AllocateAligned_inv [of given a "new_at (max n arena_block_size) a" n] fresh [of "max n arena_block_size" a] by blast

end

text \<open>An allocator that never reuses memory.\<close>

definition bump_new :: "nat \<Rightarrow> Arena \<Rightarrow> nat" where
  "bump_new n a = 8 * Suc (sum_list (map (\<lambda>b. fst b + snd b) (blocks a)))"

interpretation bump: allocator bump_new
proof unfold_locales
  fix n :: nat and a :: Arena
  have "fst b + snd b \<le> sum_list (map (\<lambda>b. fst b + snd b) bs)" if "b \<in> set bs" for b and bs :: "(nat \<times> nat) list"
    using that by (induction bs) auto
  then have "fst b + snd b < bump_new n a" if "b \<in> set (blocks a)" for b
    using that by (fastforce simp: bump_new_def)
  then show "fresh_block (bump_new n a) n a" by (force simp: fresh_block_def region_def bump_new_def)
qed

section \<open>Entries\<close>

text \<open>
  A length-prefixed string at a pointer, and what follows it. The varint has at most five bytes, so
  the limit \<open>p + 5\<close> adds nothing to the end of the buffer.
\<close>

definition entry_slice :: "byte list \<Rightarrow> (slice \<times> byte list) option" where
  "entry_slice p =
     (case GetVarint32Ptr p of None \<Rightarrow> None
      | Some (len, p) \<Rightarrow> if unat len \<le> length p then Some (take (unat len) p, drop (unat len) p) else None)"

text \<open>The order of the entries is that of their internal keys; it is only asked for well-formed ones.\<close>

definition MemTable_KeyCompare :: "Comparator \<Rightarrow> byte list \<Rightarrow> byte list \<Rightarrow> int" where
  "MemTable_KeyCompare C aptr bptr =
     (case (entry_slice aptr, entry_slice bptr) of
        (Some (a, _), Some (b, _)) \<Rightarrow> Compare (InternalKeyComparator C) a b
      | _ \<Rightarrow> 0)"

definition EncodeKey :: "slice \<Rightarrow> byte list" where
  "EncodeKey target = PutVarint32 [] (of_nat (length target)) @ target"

section \<open>The table\<close>

record MemTable =
  mt_refs :: int
  mt_arena :: Arena
  mt_table :: "byte list SkipList"

text \<open>The size of a skip list node with a number of links.\<close>

definition node_size :: "nat \<Rightarrow> nat" where
  "node_size height = 16 + 8 * (height - 1)"

definition MemTable_new :: "(nat \<Rightarrow> Arena \<Rightarrow> nat) \<Rightarrow> MemTable option" where
  "MemTable_new new_at =
     Option.bind (Arena_AllocateAligned (new_at (max (node_size kMaxHeight) arena_block_size) Arena_new)
         (node_size kMaxHeight) Arena_new) (\<lambda>(_, arena).
     map_option (\<lambda>table. \<lparr>mt_refs = 0, mt_arena = arena, mt_table = table\<rparr>) (SkipList_new []))"

definition MemTable_Ref :: "MemTable \<Rightarrow> MemTable" where
  "MemTable_Ref m = m\<lparr>mt_refs := mt_refs m + 1\<rparr>"

text \<open>Nothing left is a deleted table, Nothing at all a failed assertion.\<close>

definition MemTable_Unref :: "MemTable \<Rightarrow> MemTable option option" where
  "MemTable_Unref m =
     (let m = m\<lparr>mt_refs := mt_refs m - 1\<rparr> in
      if mt_refs m < 0 then None else if mt_refs m \<le> 0 then Some None else Some (Some m))"

definition ApproximateMemoryUsage :: "MemTable \<Rightarrow> nat" where
  "ApproximateMemoryUsage m = memory_usage (mt_arena m)"

definition MemTable_Add ::
  "Comparator \<Rightarrow> (nat \<Rightarrow> Arena \<Rightarrow> nat) \<Rightarrow> SequenceNumber \<Rightarrow> ValueType \<Rightarrow> slice \<Rightarrow> slice \<Rightarrow> MemTable \<Rightarrow> MemTable option" where
  "MemTable_Add C new_at s t k v m =
     (let key_size = length k; val_size = length v; internal_key_size = key_size + 8;
          encoded_len = VarintLength (of_nat internal_key_size) + internal_key_size +
            VarintLength (of_nat val_size) + val_size in
      Option.bind (Arena_Allocate (new_at (max encoded_len arena_block_size) (mt_arena m)) encoded_len (mt_arena m)) (\<lambda>(_, arena).
      let buf = EncodeVarint32 (of_nat internal_key_size) @ k @ Fixed64 (push_bit 8 s OR ucast t) @
            EncodeVarint32 (of_nat val_size) @ v in
      if length buf \<noteq> encoded_len then None
      else
        Option.bind (Insert (MemTable_KeyCompare C) buf (mt_table m)) (\<lambda>table.
        let height = length (next_links (last (nodes table))) in
        Option.bind (Arena_AllocateAligned (new_at (max (node_size height) arena_block_size) arena) (node_size height) arena)
          (\<lambda>(_, arena). Some (m\<lparr>mt_arena := arena, mt_table := table\<rparr>)))))"

text \<open>What \<open>Get\<close> reports: a value, a deletion with its status, or that it knows nothing of the key.\<close>

datatype get_result = Value slice | Deletion status | Absent

definition MemTable_Get :: "Comparator \<Rightarrow> byte list \<times> nat \<Rightarrow> MemTable \<Rightarrow> get_result option" where
  "MemTable_Get C lookup m =
     Option.bind (Iterator_Seek (MemTable_KeyCompare C) (mt_table m) (memtable_key lookup)) (\<lambda>it.
     if Iterator_Valid it then
       Option.bind (Iterator_key (mt_table m) it) (\<lambda>entry.
       Option.bind (GetVarint32Ptr entry) (\<lambda>(key_length, key_ptr).
       if \<not> (8 \<le> unat key_length \<and> unat key_length \<le> length key_ptr) then None
       else if Compare C (take (unat key_length - 8) key_ptr) (lookup_user_key lookup) = 0 then
         Option.bind (DecodeFixed64 True (drop (unat key_length - 8) key_ptr)) (\<lambda>tag.
         let t = ucast (tag AND 0xff) :: ValueType in
         if t = kTypeValue then map_option (\<lambda>(v, _). Value v) (entry_slice (drop (unat key_length) key_ptr))
         else if t = kTypeDeletion then Some (Deletion (NotFound [] []))
         else Some Absent)
       else Some Absent))
     else Some Absent)"

section \<open>Iterators of the table\<close>

definition MemTableIterator_Seek :: "Comparator \<Rightarrow> MemTable \<Rightarrow> slice \<Rightarrow> nat option option" where
  "MemTableIterator_Seek C m k = Iterator_Seek (MemTable_KeyCompare C) (mt_table m) (EncodeKey k)"

definition MemTableIterator_SeekToFirst :: "MemTable \<Rightarrow> nat option option" where
  "MemTableIterator_SeekToFirst m = Iterator_SeekToFirst (mt_table m)"

definition MemTableIterator_SeekToLast :: "MemTable \<Rightarrow> nat option option" where
  "MemTableIterator_SeekToLast m = Iterator_SeekToLast (mt_table m)"

definition MemTableIterator_Next :: "MemTable \<Rightarrow> nat option \<Rightarrow> nat option option" where
  "MemTableIterator_Next m it = Iterator_Next (mt_table m) it"

definition MemTableIterator_Prev :: "Comparator \<Rightarrow> MemTable \<Rightarrow> nat option \<Rightarrow> nat option option" where
  "MemTableIterator_Prev C m it = Iterator_Prev (MemTable_KeyCompare C) (mt_table m) it"

definition MemTableIterator_key :: "MemTable \<Rightarrow> nat option \<Rightarrow> slice option" where
  "MemTableIterator_key m it = Option.bind (Iterator_key (mt_table m) it) (\<lambda>entry. map_option fst (entry_slice entry))"

definition MemTableIterator_value :: "MemTable \<Rightarrow> nat option \<Rightarrow> slice option" where
  "MemTableIterator_value m it =
     Option.bind (Iterator_key (mt_table m) it) (\<lambda>entry.
     Option.bind (entry_slice entry) (\<lambda>(_, after_key). map_option fst (entry_slice after_key)))"

end
