(* ===== verification/Ldb_MemTable_Spec.thy ===== *)
theory Ldb_MemTable_Spec
  imports Ldb_MemTable
begin

text \<open>
  What the memtable promises: after any additions, \<open>Get\<close> finds the newest entry for the key that the
  snapshot may see.
\<close>

section \<open>Entries\<close>

record entry =
  e_key :: slice
  e_seq :: SequenceNumber
  e_type :: ValueType
  e_value :: slice

definition entry_ok :: "entry \<Rightarrow> bool" where
  "entry_ok e \<longleftrightarrow> length (e_key e) + 8 < 2 ^ 32 \<and> length (e_value e) < 2 ^ 32 \<and> e_seq e \<le> kMaxSequenceNumber \<and>
     e_type e \<in> {kTypeDeletion, kTypeValue}"

definition entry_ikey :: "entry \<Rightarrow> slice" where
  "entry_ikey e = InternalKey_new (e_key e) (e_seq e) (e_type e)"

definition entry_bytes :: "entry \<Rightarrow> byte list" where
  "entry_bytes e = EncodeVarint32 (of_nat (length (e_key e) + 8)) @ entry_ikey e @
     EncodeVarint32 (of_nat (length (e_value e))) @ e_value e"

lemma entry_slice_encode:
  "length s < 2 ^ 32 \<Longrightarrow> entry_slice (EncodeVarint32 (of_nat (length s)) @ s @ rest) = Some (s, rest)"
  by (simp add: entry_slice_def varint32.dec_enc unsigned_of_nat take_bit_nat_eq_self)

lemma length_entry_ikey [simp]: "length (entry_ikey e) = length (e_key e) + 8"
  by (simp add: entry_ikey_def InternalKey_new_def AppendInternalKey_eq)

lemma entry_slice_entry:
  "entry_ok e \<Longrightarrow> entry_slice (entry_bytes e @ rest) =
     Some (entry_ikey e, EncodeVarint32 (of_nat (length (e_value e))) @ e_value e @ rest)"
  using entry_slice_encode [of "entry_ikey e" "EncodeVarint32 (of_nat (length (e_value e))) @ e_value e @ rest"]
  by (simp add: entry_bytes_def entry_ok_def)

lemma entry_bytes_eq:
  "EncodeVarint32 (of_nat (length k + 8)) @ k @ Fixed64 (push_bit 8 s OR ucast t) @ EncodeVarint32 (of_nat (length v)) @ v =
   entry_bytes \<lparr>e_key = k, e_seq = s, e_type = t, e_value = v\<rparr>"
  by (simp add: entry_bytes_def entry_ikey_def InternalKey_new_def AppendInternalKey_eq PackSequenceAndType_def)

lemma length_entry_bytes:
  "entry_ok e \<Longrightarrow> length (entry_bytes e) =
     VarintLength (of_nat (length (e_key e) + 8)) + (length (e_key e) + 8) +
     VarintLength (of_nat (length (e_value e))) + length (e_value e)"
  by (simp add: entry_bytes_def entry_ok_def VarintLength_bytes EncodeVarint32_bytes unsigned_of_nat take_bit_nat_eq_self
      del: of_nat_add)

text \<open>Entries that can be compared.\<close>

definition mem_valid :: "byte list \<Rightarrow> bool" where
  "mem_valid p \<longleftrightarrow> (case entry_slice p of None \<Rightarrow> False | Some (k, _) \<Rightarrow> 8 \<le> length k)"

lemma mem_valid_entry [simp]: "entry_ok e \<Longrightarrow> mem_valid (entry_bytes e)"
  using entry_slice_entry [of e "[]"] by (simp add: mem_valid_def)

abbreviation mem_compare :: "byte list \<Rightarrow> byte list \<Rightarrow> int" where
  "mem_compare \<equiv> MemTable_KeyCompare BytewiseComparator"

lemma mem_compare_slices:
  "entry_slice a = Some (x, r) \<Longrightarrow> entry_slice b = Some (y, r') \<Longrightarrow>
    mem_compare a b = Compare (InternalKeyComparator BytewiseComparator) x y"
  by (simp add: MemTable_KeyCompare_def)

interpretation mem: key_order mem_compare mem_valid
proof unfold_locales
  fix a b c
  assume "mem_valid a" "mem_valid b"
  then obtain x r y r' where ab: "entry_slice a = Some (x, r)" "entry_slice b = Some (y, r')" and k: "bytewise.ikey x" "bytewise.ikey y"
    by (auto simp: mem_valid_def bytewise.ikey_def split: option.splits)
  show "mem_compare b a < 0 \<longleftrightarrow> 0 < mem_compare a b"
    using internal_bytewise.flip [OF k] by (simp add: mem_compare_slices [OF ab] mem_compare_slices [OF ab(2,1)])
  assume "mem_valid c" and le: "mem_compare a b \<le> 0" "mem_compare b c \<le> 0"
  then obtain z r'' where c: "entry_slice c = Some (z, r'')" and kc: "bytewise.ikey z"
    by (auto simp: mem_valid_def bytewise.ikey_def split: option.splits)
  show "mem_compare a c \<le> 0"
    using internal_bytewise.trans [OF k kc] le
    by (simp add: mem_compare_slices [OF ab] mem_compare_slices [OF ab(2) c] mem_compare_slices [OF ab(1) c])
qed

section \<open>Adding\<close>

text \<open>The table after some additions: a list of entries, and an arena in good order.\<close>

definition memtable_inv :: "MemTable \<Rightarrow> entry list \<Rightarrow> bool" where
  "memtable_inv m es \<longleftrightarrow> (\<forall>e \<in> set es. entry_ok e) \<and> distinct (map entry_ikey es) \<and>
     (\<exists>ns. skiplist_inv mem_compare mem_valid (mt_table m) ns \<and>
       map (key_at (mt_table m)) ns = fold (insert_key mem_compare) (map entry_bytes es) []) \<and>
     (\<exists>given. arena_inv given (mt_arena m))"

lemma entry_compare_0:
  assumes "entry_ok e" and "entry_ok e'"
  shows "mem_compare (entry_bytes e) (entry_bytes e') = 0 \<longleftrightarrow> entry_ikey e = entry_ikey e'"
proof -
  have "bytewise.ikey (entry_ikey e)" "bytewise.ikey (entry_ikey e')" by (simp_all add: bytewise.ikey_def)
  with internal_bytewise.equal [OF this] entry_slice_entry [OF assms(1), of "[]"] entry_slice_entry [OF assms(2), of "[]"]
  show ?thesis by (simp add: MemTable_KeyCompare_def)
qed

lemma set_fold_insert_key: "set (fold (insert_key cmp) ks ls) = set ks \<union> set ls"
  by (induction ks arbitrary: ls) simp_all

context allocator
begin

lemma MemTable_new_inv: "\<exists>m. MemTable_new new_at = Some m \<and> memtable_inv m []"
proof -
  from AllocateAligned_returns [OF arena_inv_new, of "node_size kMaxHeight"] obtain q a where
    a: "Arena_AllocateAligned (new_at (max (node_size kMaxHeight) arena_block_size) Arena_new) (node_size kMaxHeight) Arena_new =
      Some (q, a)" "arena_inv [(q, node_size kMaxHeight)] a" by blast
  from SkipList_new_inv [of "[]" mem_compare mem_valid] obtain s where
    "SkipList_new [] = Some s" "skiplist_inv mem_compare mem_valid s []" by blast
  with a show ?thesis by (auto simp: MemTable_new_def memtable_inv_def)
qed

lemma MemTable_Add_inv:
  assumes inv: "memtable_inv m es" and ok: "entry_ok e" and new: "entry_ikey e \<notin> set (map entry_ikey es)"
  shows "\<exists>m'. MemTable_Add BytewiseComparator new_at (e_seq e) (e_type e) (e_key e) (e_value e) m = Some m' \<and>
    memtable_inv m' (es @ [e])"
proof -
  obtain ns given where s: "skiplist_inv mem_compare mem_valid (mt_table m) ns"
    "map (key_at (mt_table m)) ns = fold (insert_key mem_compare) (map entry_bytes es) []"
    and a: "arena_inv given (mt_arena m)" and es: "\<forall>e \<in> set es. entry_ok e" "distinct (map entry_ikey es)"
    using inv by (auto simp: memtable_inv_def)
  let ?len = "VarintLength (of_nat (length (e_key e) + 8)) + (length (e_key e) + 8) +
     VarintLength (of_nat (length (e_value e))) + length (e_value e)"
  have len: "length (entry_bytes e) = ?len" by (rule length_entry_bytes [OF ok])
  from Allocate_returns [OF a, of ?len] obtain q1 a1 where
    a1: "Arena_Allocate (new_at (max ?len arena_block_size) (mt_arena m)) ?len (mt_arena m) = Some (q1, a1)"
      "arena_inv ((q1, ?len) # given) a1" by auto
  have "absent mem_compare (mt_table m) ns (entry_bytes e)"
    unfolding absent_keys s(2) set_fold_insert_key using es(1) new entry_compare_0 [OF ok] by auto
  from mem.Insert_result [OF s(1) _ this] ok obtain t ns' where
    t: "Insert mem_compare (entry_bytes e) (mt_table m) = Some t" "skiplist_inv mem_compare mem_valid t ns'"
      "map (key_at t) ns' = insert_key mem_compare (entry_bytes e) (fold (insert_key mem_compare) (map entry_bytes es) [])"
    unfolding s(2) by auto
  let ?h = "length (next_links (last (nodes t)))"
  from AllocateAligned_returns [OF a1(2), of "node_size ?h"] obtain q2 a2 where
    a2: "Arena_AllocateAligned (new_at (max (node_size ?h) arena_block_size) a1) (node_size ?h) a1 = Some (q2, a2)"
      "arena_inv ((q2, node_size ?h) # (q1, ?len) # given) a2" by blast
  have "entry_bytes \<lparr>e_key = e_key e, e_seq = e_seq e, e_type = e_type e, e_value = e_value e\<rparr> = entry_bytes e" by (cases e) simp
  then have "MemTable_Add BytewiseComparator new_at (e_seq e) (e_type e) (e_key e) (e_value e) m =
      Some (m\<lparr>mt_arena := a2, mt_table := t\<rparr>)"
    unfolding MemTable_Add_def Let_def entry_bytes_eq using a1(1) a2(1) t(1) len by simp
  moreover have "memtable_inv (m\<lparr>mt_arena := a2, mt_table := t\<rparr>) (es @ [e])"
    unfolding memtable_inv_def using t(2,3) a2(2) es ok new by auto
  ultimately show ?thesis by blast
qed

end

section \<open>Finding\<close>

text \<open>The newest entry for a key that a snapshot sees.\<close>

definition visible :: "slice \<Rightarrow> SequenceNumber \<Rightarrow> entry \<Rightarrow> bool" where
  "visible u s e \<longleftrightarrow> e_key e = u \<and> e_seq e \<le> s"

definition newer :: "entry \<Rightarrow> entry option \<Rightarrow> entry option" where
  "newer e best = (case best of None \<Rightarrow> Some e | Some b \<Rightarrow> if e_seq b < e_seq e then Some e else Some b)"

lemma newer_simps [simp]:
  "newer e None = Some e" "newer e (Some b) = (if e_seq b < e_seq e then Some e else Some b)"
  by (simp_all add: newer_def)

definition newest :: "slice \<Rightarrow> SequenceNumber \<Rightarrow> entry list \<Rightarrow> entry option" where
  "newest u s es = fold newer (filter (visible u s) es) None"

lemma fold_newer:
  "fold newer es (Some b) = Some e \<Longrightarrow>
    e \<in> set (b # es) \<and> (\<forall>e' \<in> set (b # es). e_seq e' \<le> e_seq e)"
proof (induction es arbitrary: b)
  case (Cons a es)
  show ?case
  proof (cases "e_seq b < e_seq a")
    case True
    with Cons.prems have "fold newer es (Some a) = Some e" by simp
    from Cons.IH [OF this] True show ?thesis by auto
  next
    case False
    with Cons.prems have "fold newer es (Some b) = Some e" by simp
    from Cons.IH [OF this] False show ?thesis by auto
  qed
qed simp

lemma fold_newer_some: "\<exists>e. fold newer es (Some b) = Some e"
  by (induction es arbitrary: b) auto

lemma newest_cases:
  "newest u s es = None \<and> filter (visible u s) es = [] \<or>
   (\<exists>e. newest u s es = Some e \<and> e \<in> set es \<and> visible u s e \<and> (\<forall>e' \<in> set es. visible u s e' \<longrightarrow> e_seq e' \<le> e_seq e))"
proof (cases "filter (visible u s) es")
  case (Cons b bs)
  obtain e where e: "fold newer bs (Some b) = Some e" using fold_newer_some by blast
  have m: "set (b # bs) = {e \<in> set es. visible u s e}" unfolding Cons [symmetric] by auto
  from fold_newer [OF e] have "e \<in> {e \<in> set es. visible u s e}" "\<forall>e' \<in> {e \<in> set es. visible u s e}. e_seq e' \<le> e_seq e"
    unfolding m by blast+
  moreover have "newest u s es = Some e" by (simp add: newest_def Cons e)
  ultimately show ?thesis by blast
qed (simp add: newest_def)

lemma newest_unique:
  assumes "distinct (map e_seq es)" and "e \<in> set es" and "visible u s e"
    and "\<forall>e' \<in> set es. visible u s e' \<longrightarrow> e_seq e' \<le> e_seq e"
  shows "newest u s es = Some e"
proof -
  from newest_cases [of u s es] assms(2,3) obtain e' where
    e': "newest u s es = Some e'" "e' \<in> set es" "visible u s e'" "\<forall>d \<in> set es. visible u s d \<longrightarrow> e_seq d \<le> e_seq e'"
    by (auto simp: filter_empty_conv)
  then have "e_seq e = e_seq e'" using assms(2-4) by (meson order.antisym)
  with assms(1,2) e'(2) have "e = e'" by (meson inj_onD distinct_map)
  with e' show ?thesis by simp
qed

definition get_spec :: "slice \<Rightarrow> SequenceNumber \<Rightarrow> entry list \<Rightarrow> get_result" where
  "get_spec u s es =
     (case newest u s es of None \<Rightarrow> Absent
      | Some e \<Rightarrow> if e_type e = kTypeValue then Value (e_value e) else Deletion (NotFound [] []))"

text \<open>The lookup key is before exactly the visible entries of its user key and all later keys.\<close>

lemma lookup_slice:
  "length u + 8 < 2 ^ 32 \<Longrightarrow> entry_slice (memtable_key (LookupKey u s)) = Some (InternalKey_new u s kValueTypeForSeek, [])"
  using entry_slice_encode [of "InternalKey_new u s kValueTypeForSeek" "[]"]
  by (simp add: memtable_key_def LookupKey_def Let_def InternalKey_new_def AppendInternalKey_eq)

lemma internal_order:
  "Compare (InternalKeyComparator BytewiseComparator) (InternalKey_new u s t) (InternalKey_new v s' t') < 0 \<longleftrightarrow>
    Slice_compare u v < 0 \<or> u = v \<and> PackSequenceAndType s' t' < PackSequenceAndType s t"
  by (simp add: InternalKeyComparator_def Internal_Compare_def InternalKey_new_def AppendInternalKey_eq BytewiseComparator_def
      Let_def)

lemma pack_less:
  assumes "s \<le> kMaxSequenceNumber" "s' \<le> kMaxSequenceNumber"
  shows "PackSequenceAndType s' t' < PackSequenceAndType s t \<longleftrightarrow> s' < s \<or> s' = s \<and> t' < t"
proof -
  have lt: "unat s < 2 ^ 56" "unat s' < 2 ^ 56"
    using assms by (simp_all add: kMaxSequenceNumber_def word_le_nat_alt)
  then show ?thesis using unat_lt_8 [of t] unat_lt_8 [of t']
    by (auto simp: word_less_nat_alt word_unat_eq_iff unat_pack [OF lt(1)] unat_pack [OF lt(2)])
qed

text \<open>The entry that \<open>Seek\<close> finds.\<close>

lemma entry_before_lookup:
  assumes "entry_ok e" and "length u + 8 < 2 ^ 32" and "s \<le> kMaxSequenceNumber"
  shows "mem_compare (entry_bytes e) (memtable_key (LookupKey u s)) < 0 \<longleftrightarrow>
    Slice_compare (e_key e) u < 0 \<or> e_key e = u \<and> s < e_seq e"
proof -
  have "\<not> kValueTypeForSeek < e_type e"
    using assms(1) by (auto simp: entry_ok_def kValueTypeForSeek_def kTypeValue_def kTypeDeletion_def)
  then show ?thesis
    using assms entry_slice_entry [OF assms(1), of "[]"] lookup_slice [OF assms(2), of s]
    by (auto simp: MemTable_KeyCompare_def entry_ikey_def internal_order pack_less entry_ok_def)
qed

lemma entries_order:
  assumes "entry_ok e" and "entry_ok e'"
  shows "mem_compare (entry_bytes e) (entry_bytes e') < 0 \<longleftrightarrow>
    Slice_compare (e_key e) (e_key e') < 0 \<or>
    e_key e = e_key e' \<and> (e_seq e' < e_seq e \<or> e_seq e' = e_seq e \<and> e_type e' < e_type e)"
  using assms entry_slice_entry [OF assms(1), of "[]"] entry_slice_entry [OF assms(2), of "[]"]
  by (simp add: MemTable_KeyCompare_def entry_ikey_def internal_order pack_less entry_ok_def)

lemma first_not_before:
  assumes "sorted_wrt (\<lambda>a b. cmp a b < 0) ks" and "dropWhile P ks = b # bs" and "a \<in> set ks" and "\<not> P a"
  shows "a = b \<or> cmp b a < (0 :: int)"
proof -
  have ks: "ks = takeWhile P ks @ b # bs" using assms(2) by (metis takeWhile_dropWhile_id)
  have "a \<notin> set (takeWhile P ks)" using assms(4) by (auto dest: set_takeWhileD)
  then have "a \<in> set (b # bs)" using assms(3) ks by (metis Un_iff set_append)
  moreover have "sorted_wrt (\<lambda>a b. cmp a b < 0) (b # bs)" using assms(1) ks by (metis sorted_wrt_append)
  ultimately show ?thesis by auto
qed

lemma found_is_newest:
  assumes ok: "\<forall>e \<in> set es. entry_ok e" and d: "distinct (map e_seq es)"
    and ks: "set ks = entry_bytes ` set es" "sorted_wrt (\<lambda>a b. mem_compare a b < 0) ks"
    and u: "length u + 8 < 2 ^ 32" "s \<le> kMaxSequenceNumber"
  defines "found \<equiv> dropWhile (\<lambda>a. mem_compare a (memtable_key (LookupKey u s)) < 0) ks"
  shows "found = [] \<Longrightarrow> newest u s es = None"
    and "found = b # bs \<Longrightarrow> \<exists>e \<in> set es. b = entry_bytes e \<and>
      (if e_key e = u then newest u s es = Some e else newest u s es = None)"
proof -
  let ?P = "\<lambda>a. mem_compare a (memtable_key (LookupKey u s)) < 0"
  have vis: "\<not> ?P (entry_bytes e)" if "e \<in> set es" "visible u s e" for e
    using entry_before_lookup [OF _ u, of e] that ok by (auto simp: visible_def)
  {
    assume "found = []"
    then have "\<not> visible u s e" if "e \<in> set es" for e
      using vis [OF that] that ks(1) unfolding found_def by (auto simp: dropWhile_eq_Nil_conv)
    with newest_cases [of u s es] show "newest u s es = None" by auto
  }
  assume f: "found = b # bs"
  have "b \<in> set ks" using f unfolding found_def by (metis list.set_intros(1) set_dropWhileD)
  then obtain e where e: "e \<in> set es" "b = entry_bytes e" using ks(1) by auto
  have oke: "entry_ok e" using e ok by blast
  have nb: "\<not> ?P b" using f unfolding found_def by (metis hd_dropWhile list.distinct(1) list.sel(1))
  have first: "e' = e \<or> b = entry_bytes e' \<or> mem_compare b (entry_bytes e') < 0" if "e' \<in> set es" "visible u s e'" for e'
    using first_not_before [OF ks(2) f [unfolded found_def] _ vis [OF that]] that(1) ks(1) by auto
  have le: "e_key e = u \<and> e_seq e' \<le> e_seq e" if v: "e' \<in> set es" "visible u s e'" for e'
  proof -
    have ok': "entry_ok e'" using v ok by blast
    have "\<not> Slice_compare (e_key e) u < 0" using nb entry_before_lookup [OF oke u] e by simp
    moreover have "Slice_compare (e_key e) u < 0 \<or> e_key e = u \<and> e_seq e' \<le> e_seq e"
    proof (cases "b = entry_bytes e'")
      case True
      then have "mem_compare (entry_bytes e) (entry_bytes e') = 0" using e mem.cmp_refl [OF mem_valid_entry [OF ok']] by simp
      then have "\<not> mem_compare (entry_bytes e) (entry_bytes e') < 0" "\<not> mem_compare (entry_bytes e') (entry_bytes e) < 0"
        using mem.cmp_flip [of "entry_bytes e" "entry_bytes e'"] oke ok' by auto
      then show ?thesis using entries_order [OF oke ok'] entries_order [OF ok' oke] v(2) Slice_compare_flip [of "e_key e" u]
        by (auto simp: visible_def not_less)
    next
      case False
      with first [OF v] have "e' = e \<or> mem_compare (entry_bytes e) (entry_bytes e') < 0" using e by auto
      then show ?thesis using entries_order [OF oke ok'] v(2) by (auto simp: visible_def)
    qed
    ultimately show ?thesis by blast
  qed
  have "if e_key e = u then newest u s es = Some e else newest u s es = None"
  proof (cases "e_key e = u")
    case True
    then have "visible u s e" using nb entry_before_lookup [OF oke u] e by (auto simp: visible_def)
    then show ?thesis using newest_unique [OF d e(1)] le True by auto
  next
    case False
    with le newest_cases [of u s es] show ?thesis by auto
  qed
  with e show "\<exists>e \<in> set es. b = entry_bytes e \<and> (if e_key e = u then newest u s es = Some e else newest u s es = None)"
    by blast
qed

lemma MemTable_Get_result:
  assumes inv: "memtable_inv m es" and d: "distinct (map e_seq es)" and u: "length u + 8 < 2 ^ 32" "s \<le> kMaxSequenceNumber"
  shows "MemTable_Get BytewiseComparator (LookupKey u s) m = Some (get_spec u s es)"
proof -
  obtain ns where sk: "skiplist_inv mem_compare mem_valid (mt_table m) ns"
    "map (key_at (mt_table m)) ns = fold (insert_key mem_compare) (map entry_bytes es) []"
    and ok: "\<forall>e \<in> set es. entry_ok e" using inv by (auto simp: memtable_inv_def)
  define ks where "ks = map (key_at (mt_table m)) ns"
  have set_ks: "set ks = entry_bytes ` set es" unfolding ks_def sk(2) set_fold_insert_key by simp
  have sorted: "sorted_wrt (\<lambda>a b. mem_compare a b < 0) ks"
    unfolding ks_def sorted_wrt_map by (rule linkedD(8) [OF mem.skiplist_invD(1) [OF sk(1)]])
  let ?k = "memtable_key (LookupKey u s)"
  have "mem_valid ?k" using lookup_slice [OF u(1), of s] by (simp add: mem_valid_def InternalKey_new_def AppendInternalKey_eq)
  from mem.Seek_value [OF sk(1) this] obtain it where
    it: "Iterator_Seek mem_compare (mt_table m) ?k = Some it"
      "iterator_at (mt_table m) ns it (keys_before mem_compare ks ?k) (keys_from mem_compare ks ?k)"
    unfolding ks_def by blast
  note found = found_is_newest [OF ok d set_ks sorted u, folded keys_from_def]
  show ?thesis
  proof (cases "keys_from mem_compare ks ?k")
    case Nil
    with it(2) have "it = None" by (simp add: mem.iterator_end)
    with it(1) found(1) [OF Nil] show ?thesis by (simp add: MemTable_Get_def Iterator_Valid_def get_spec_def)
  next
    case (Cons b bs)
    from found(2) [OF Cons] obtain e where e: "e \<in> set es" "b = entry_bytes e"
      "if e_key e = u then newest u s es = Some e else newest u s es = None" by blast
    from mem.iterator_key [OF sk(1)] it(2) Cons have k: "Iterator_Valid it" "Iterator_key (mt_table m) it = Some b" by auto
    have oke: "entry_ok e" using e ok by blast
    then have len: "unat (of_nat (length (e_key e) + 8) :: u32) = length (e_key e) + 8"
      and ty: "e_type e \<in> {kTypeDeletion, kTypeValue}" and sq: "unat (e_seq e) < 2 ^ 56" and v: "length (e_value e) < 2 ^ 32"
      unfolding entry_ok_def
      by (simp_all add: unsigned_of_nat take_bit_nat_eq_self kMaxSequenceNumber_def word_le_nat_alt del: of_nat_add)
    let ?after = "EncodeVarint32 (of_nat (length (e_value e))) @ e_value e"
    let ?n = "PackSequenceAndType (e_seq e) (e_type e)"
    have ptr: "GetVarint32Ptr b = Some (of_nat (length (e_key e) + 8), e_key e @ Fixed64 ?n @ ?after)"
      using varint32.dec_enc by (simp add: e(2) entry_bytes_def entry_ikey_def InternalKey_new_def AppendInternalKey_eq)
    have tag: "DecodeFixed64 True (Fixed64 ?n @ ?after) = Some ?n" by (rule Decode_Encode_Fixed64)
    have value': "entry_slice ?after = Some (e_value e, [])" using entry_slice_encode [OF v, of "[]"] by simp
    have t: "ucast (?n AND 0xff) = e_type e" by (rule pack_parts(2) [OF sq])
    have "MemTable_Get BytewiseComparator (LookupKey u s) m =
        (if e_key e = u then if e_type e = kTypeValue then Some (Value (e_value e)) else Some (Deletion (NotFound [] []))
         else Some Absent)"
      using ty unfolding MemTable_Get_def it(1) bind.simps k if_True ptr prod.case len
      by (auto simp: k(1) kTypeDeletion_def kTypeValue_def LookupKey_parts BytewiseComparator_def tag t value' Let_def)
    with e(3) show ?thesis by (auto simp: get_spec_def)
  qed
qed

end
