(* ===== verification/Ldb_WriteBatch.thy ===== *)
theory Ldb_WriteBatch
  imports Ldb_MemTable
begin

text \<open>
  Batches of updates, \<open>include/leveldb/write_batch.h\<close>, \<open>db/write_batch_internal.h\<close> and
  \<open>db/write_batch.cc\<close>. A batch is the bytes of its \<open>rep_\<close>.
\<close>

section \<open>Batches\<close>

type_synonym WriteBatch = "byte list"

definition kHeader :: nat where
  "kHeader = 12"

definition WriteBatch_Clear :: WriteBatch where
  "WriteBatch_Clear = replicate kHeader 0"

definition WriteBatch_new :: WriteBatch where
  "WriteBatch_new = WriteBatch_Clear"

text \<open>The number of updates, as a signed \<open>int\<close>; Nothing when the header is not there.\<close>

definition WriteBatch_Count :: "WriteBatch \<Rightarrow> int option" where
  "WriteBatch_Count b = map_option sint (DecodeFixed32 True (drop 8 b))"

definition WriteBatch_SetCount :: "int \<Rightarrow> WriteBatch \<Rightarrow> WriteBatch" where
  "WriteBatch_SetCount n b = take 8 b @ Fixed32 (word_of_int n) @ drop 12 b"

definition WriteBatch_Sequence :: "WriteBatch \<Rightarrow> SequenceNumber option" where
  "WriteBatch_Sequence b = DecodeFixed64 True b"

definition WriteBatch_SetSequence :: "SequenceNumber \<Rightarrow> WriteBatch \<Rightarrow> WriteBatch" where
  "WriteBatch_SetSequence s b = Fixed64 s @ drop 8 b"

definition WriteBatch_Contents :: "WriteBatch \<Rightarrow> slice" where
  "WriteBatch_Contents b = b"

definition WriteBatch_ByteSize :: "WriteBatch \<Rightarrow> nat" where
  "WriteBatch_ByteSize b = length b"

definition WriteBatch_SetContents :: "slice \<Rightarrow> WriteBatch option" where
  "WriteBatch_SetContents contents = (if kHeader \<le> length contents then Some contents else None)"

definition WriteBatch_Put :: "slice \<Rightarrow> slice \<Rightarrow> WriteBatch \<Rightarrow> WriteBatch option" where
  "WriteBatch_Put k v b =
     map_option (\<lambda>n. PutLengthPrefixedSlice (PutLengthPrefixedSlice (WriteBatch_SetCount (n + 1) b @ [kTypeValue]) k) v)
       (WriteBatch_Count b)"

definition WriteBatch_Delete :: "slice \<Rightarrow> WriteBatch \<Rightarrow> WriteBatch option" where
  "WriteBatch_Delete k b =
     map_option (\<lambda>n. PutLengthPrefixedSlice (WriteBatch_SetCount (n + 1) b @ [kTypeDeletion]) k) (WriteBatch_Count b)"

definition WriteBatch_Append :: "WriteBatch \<Rightarrow> WriteBatch \<Rightarrow> WriteBatch option" where
  "WriteBatch_Append dst src =
     Option.bind (WriteBatch_Count dst) (\<lambda>n. Option.bind (WriteBatch_Count src) (\<lambda>m.
     if length src < kHeader then None else Some (WriteBatch_SetCount (n + m) dst @ drop kHeader src)))"

section \<open>Going through a batch\<close>

text \<open>A handler's methods change its state; Nothing is a failed assertion in one of them.\<close>

record 'h Handler =
  h_Put :: "slice \<Rightarrow> slice \<Rightarrow> 'h \<Rightarrow> 'h option"
  h_Delete :: "slice \<Rightarrow> 'h \<Rightarrow> 'h option"

text \<open>The loop over the records: the status, the number found and the handler.\<close>

function Iterate_loop :: "'h Handler \<Rightarrow> slice \<Rightarrow> nat \<Rightarrow> 'h \<Rightarrow> (status \<times> nat \<times> 'h) option" where
  "Iterate_loop H input found h =
     (case input of [] \<Rightarrow> Some (Status_OK, found, h)
      | tag # input \<Rightarrow>
        let found = found + 1 in
        if tag = kTypeValue then
          (case GetLengthPrefixedSlice input of
             Some (k, input1) \<Rightarrow>
               (case GetLengthPrefixedSlice input1 of
                  Some (v, input2) \<Rightarrow> Option.bind (h_Put H k v h) (Iterate_loop H input2 found)
                | None \<Rightarrow> Some (Corruption (bytes_of ''bad WriteBatch Put'') [], found, h))
           | None \<Rightarrow> Some (Corruption (bytes_of ''bad WriteBatch Put'') [], found, h))
        else if tag = kTypeDeletion then
          (case GetLengthPrefixedSlice input of
             Some (k, input1) \<Rightarrow> Option.bind (h_Delete H k h) (Iterate_loop H input1 found)
           | None \<Rightarrow> Some (Corruption (bytes_of ''bad WriteBatch Delete'') [], found, h))
        else Some (Corruption (bytes_of ''unknown WriteBatch tag'') [], found, h))"
  by pat_completeness auto
termination
  by (relation "measure (\<lambda>(_, input, _, _). length input)") (auto dest!: GetLengthPrefixedSlice_shorter)

declare Iterate_loop.simps [simp del]

definition WriteBatch_Iterate :: "'h Handler \<Rightarrow> WriteBatch \<Rightarrow> 'h \<Rightarrow> (status \<times> 'h) option" where
  "WriteBatch_Iterate H b h =
     (if length b < kHeader then Some (Corruption (bytes_of ''malformed WriteBatch (too small)'') [], h)
      else
        Option.bind (Iterate_loop H (drop kHeader b) 0 h) (\<lambda>(s, found, h).
        if \<not> status_ok s then Some (s, h)
        else Option.bind (WriteBatch_Count b) (\<lambda>n.
          if int found \<noteq> n then Some (Corruption (bytes_of ''WriteBatch has wrong count'') [], h)
          else Some (Status_OK, h))))"

section \<open>Inserting into a memtable\<close>

text \<open>The state of \<open>MemTableInserter\<close>: the next sequence number and the table.\<close>

definition MemTableInserter ::
  "Comparator \<Rightarrow> (nat \<Rightarrow> Arena \<Rightarrow> nat) \<Rightarrow> (SequenceNumber \<times> MemTable) Handler" where
  "MemTableInserter C new_at =
     \<lparr>h_Put = (\<lambda>k v (sequence, mem). map_option (\<lambda>mem. (sequence + 1, mem)) (MemTable_Add C new_at sequence kTypeValue k v mem)),
      h_Delete = (\<lambda>k (sequence, mem). map_option (\<lambda>mem. (sequence + 1, mem)) (MemTable_Add C new_at sequence kTypeDeletion k [] mem))\<rparr>"

definition WriteBatch_InsertInto ::
  "Comparator \<Rightarrow> (nat \<Rightarrow> Arena \<Rightarrow> nat) \<Rightarrow> WriteBatch \<Rightarrow> MemTable \<Rightarrow> (status \<times> MemTable) option" where
  "WriteBatch_InsertInto C new_at b mem =
     Option.bind (WriteBatch_Sequence b) (\<lambda>s.
     map_option (\<lambda>(status, (_, mem)). (status, mem)) (WriteBatch_Iterate (MemTableInserter C new_at) b (s, mem)))"

section \<open>What a batch holds\<close>

datatype update = PutKey slice slice | DeleteKey slice

fun update_bytes :: "update \<Rightarrow> byte list" where
  "update_bytes (PutKey k v) = kTypeValue # PutLengthPrefixedSlice [] k @ PutLengthPrefixedSlice [] v"
| "update_bytes (DeleteKey k) = kTypeDeletion # PutLengthPrefixedSlice [] k"

fun update_ok :: "update \<Rightarrow> bool" where
  "update_ok (PutKey k v) \<longleftrightarrow> length k < 2 ^ 32 \<and> length v < 2 ^ 32"
| "update_ok (DeleteKey k) \<longleftrightarrow> length k < 2 ^ 32"

fun apply_update :: "'h Handler \<Rightarrow> update \<Rightarrow> 'h \<Rightarrow> 'h option" where
  "apply_update H (PutKey k v) h = h_Put H k v h"
| "apply_update H (DeleteKey k) h = h_Delete H k h"

fun apply_updates :: "'h Handler \<Rightarrow> update list \<Rightarrow> 'h \<Rightarrow> 'h option" where
  "apply_updates H [] h = Some h"
| "apply_updates H (u # us) h = Option.bind (apply_update H u h) (apply_updates H us)"

definition batch_holds :: "SequenceNumber \<Rightarrow> update list \<Rightarrow> WriteBatch \<Rightarrow> bool" where
  "batch_holds s us b \<longleftrightarrow>
     b = Fixed64 s @ Fixed32 (of_nat (length us)) @ concat (map update_bytes us) \<and> length us < 2 ^ 31 \<and>
     (\<forall>u \<in> set us. update_ok u)"

fun add_update :: "update \<Rightarrow> WriteBatch \<Rightarrow> WriteBatch option" where
  "add_update (PutKey k v) b = WriteBatch_Put k v b"
| "add_update (DeleteKey k) b = WriteBatch_Delete k b"

lemma sint_of_nat_32:
  assumes "n < 2 ^ 31"
  shows "sint (of_nat n :: u32) = int n"
proof -
  have "int n < 2 ^ 31" using assms by (metis of_nat_less_iff of_nat_numeral of_nat_power)
  moreover have "uint (of_nat n :: u32) = int n"
    using assms by (simp add: uint_nat unsigned_of_nat take_bit_nat_eq_self del: of_nat_unat)
  ultimately show ?thesis by (simp add: sint_uint signed_take_bit_int_eq_self del: of_nat_unat)
qed

lemma batch_parts:
  assumes "batch_holds s us b"
  shows "WriteBatch_Count b = Some (int (length us))" and "WriteBatch_Sequence b = Some s"
    and "drop kHeader b = concat (map update_bytes us)" and "kHeader \<le> length b"
    and "WriteBatch_SetCount n b = Fixed64 s @ Fixed32 (word_of_int n) @ concat (map update_bytes us)"
    and "WriteBatch_SetSequence s' b = Fixed64 s' @ Fixed32 (of_nat (length us)) @ concat (map update_bytes us)"
  using assms
  by (simp_all add: batch_holds_def WriteBatch_Count_def WriteBatch_Sequence_def WriteBatch_SetCount_def
      WriteBatch_SetSequence_def kHeader_def Decode_Encode_Fixed32 Decode_Encode_Fixed64 sint_of_nat_32)

lemma WriteBatch_new_holds: "batch_holds 0 [] WriteBatch_new"
proof -
  have "replicate 12 (0 :: byte) = [0, 0, 0, 0, 0, 0, 0, 0, 0, 0, 0, 0]" by (simp add: numeral_eq_Suc)
  then show ?thesis
    by (simp add: batch_holds_def WriteBatch_new_def WriteBatch_Clear_def kHeader_def EncodeFixed64_bytes
        EncodeFixed32_bytes le_bytes_8 le_bytes_4)
qed

lemma add_update_holds:
  assumes "batch_holds s us b" and "update_ok u" and "length us + 1 < 2 ^ 31"
  shows "\<exists>b'. add_update u b = Some b' \<and> batch_holds s (us @ [u]) b'"
proof -
  have "word_of_int (int (length us) + 1) = (of_nat (length (us @ [u])) :: u32)" by simp
  then have "add_update u b = Some (Fixed64 s @ Fixed32 (of_nat (length (us @ [u]))) @ concat (map update_bytes (us @ [u])))"
    by (cases u) (simp_all only: add_update.simps WriteBatch_Put_def WriteBatch_Delete_def batch_parts(1,5) [OF assms(1)]
        option.map PutLengthPrefixedSlice_def PutVarint32_def update_bytes.simps map_append concat_append list.map concat.simps
        append_assoc append.simps append_Nil2)
  then show ?thesis using assms by (auto simp: batch_holds_def)
qed

lemma Iterate_loop_updates:
  "(\<forall>u \<in> set us. update_ok u) \<Longrightarrow>
   Iterate_loop H (concat (map update_bytes us)) found h =
     map_option (\<lambda>h. (Status_OK, found + length us, h)) (apply_updates H us h)"
proof (induction us arbitrary: found h)
  case Nil
  show ?case by (subst Iterate_loop.simps) simp
next
  case (Cons u us)
  have IH: "Iterate_loop H (concat (map update_bytes us)) (Suc found) h' =
      map_option (\<lambda>h. (Status_OK, Suc (found + length us), h)) (apply_updates H us h')" for h'
    using Cons.IH [of "Suc found" h'] Cons.prems by simp
  have ne: "kTypeDeletion \<noteq> kTypeValue" by (simp add: kTypeDeletion_def kTypeValue_def)
  show ?case
  proof (cases u)
    case (PutKey k v)
    with Cons.prems have "GetLengthPrefixedSlice (PutLengthPrefixedSlice [] k @ PutLengthPrefixedSlice [] v @ concat (map update_bytes us)) =
        Some (k, PutLengthPrefixedSlice [] v @ concat (map update_bytes us))"
      "GetLengthPrefixedSlice (PutLengthPrefixedSlice [] v @ concat (map update_bytes us)) = Some (v, concat (map update_bytes us))"
      using length_prefixed.dec_enc by simp_all
    with PutKey show ?thesis
      by (subst Iterate_loop.simps) (cases "h_Put H k v h"; simp add: IH Let_def)
  next
    case (DeleteKey k)
    with Cons.prems have "GetLengthPrefixedSlice (PutLengthPrefixedSlice [] k @ concat (map update_bytes us)) =
        Some (k, concat (map update_bytes us))"
      using length_prefixed.dec_enc by simp
    with DeleteKey ne show ?thesis
      by (subst Iterate_loop.simps) (cases "h_Delete H k h"; simp add: IH Let_def)
  qed
qed

lemma Iterate_updates:
  assumes "batch_holds s us b"
  shows "WriteBatch_Iterate H b h = map_option (\<lambda>h. (Status_OK, h)) (apply_updates H us h)"
proof -
  have "\<forall>u \<in> set us. update_ok u" using assms by (simp add: batch_holds_def)
  from Iterate_loop_updates [OF this, of H 0 h] batch_parts [OF assms] show ?thesis
    by (cases "apply_updates H us h") (simp_all add: WriteBatch_Iterate_def not_less Status_OK_def status_ok_def)
qed

lemma Append_holds:
  assumes "batch_holds s us b" and "batch_holds s' us' b'" and "length us + length us' < 2 ^ 31"
  shows "\<exists>c. WriteBatch_Append b b' = Some c \<and> batch_holds s (us @ us') c"
proof -
  note p = batch_parts [OF assms(1)] and p' = batch_parts [OF assms(2)]
  have "word_of_int (int (length us) + int (length us')) = (of_nat (length (us @ us')) :: u32)" by simp
  then have "WriteBatch_Append b b' =
      Some (Fixed64 s @ Fixed32 (of_nat (length (us @ us'))) @ concat (map update_bytes (us @ us')))"
    by (simp only: WriteBatch_Append_def p p' bind.simps not_less if_False) (simp add: p'(4) not_less)
  then show ?thesis using assms by (auto simp: batch_holds_def)
qed

end
