(* ===== verification/Ldb_Mem_Props.thy ===== *)
theory Ldb_Mem_Props
  imports Ldb_MemTable_Spec Ldb_WriteBatch
begin

text \<open>
  Properties of the memtable and of the batches of updates that fill it.
\<close>

section \<open>Entries added one by one\<close>

fun MemTable_Adds :: "(nat \<Rightarrow> Arena \<Rightarrow> nat) \<Rightarrow> entry list \<Rightarrow> MemTable \<Rightarrow> MemTable option" where
  "MemTable_Adds new_at [] m = Some m"
| "MemTable_Adds new_at (e # es) m =
     Option.bind (MemTable_Add BytewiseComparator new_at (e_seq e) (e_type e) (e_key e) (e_value e) m) (MemTable_Adds new_at es)"

lemma entry_ikey_inject:
  assumes "entry_ok e" and "entry_ok e'" and "entry_ikey e = entry_ikey e'"
  shows "e_seq e = e_seq e'"
proof -
  have "PackSequenceAndType (e_seq e) (e_type e) = PackSequenceAndType (e_seq e') (e_type e')"
    using arg_cong [OF assms(3), of ExtractNumber] by (simp add: entry_ikey_def InternalKey_new_def AppendInternalKey_eq)
  moreover have "unat (e_seq e) < 2 ^ 56" "unat (e_seq e') < 2 ^ 56"
    using assms(1,2) by (simp_all add: entry_ok_def kMaxSequenceNumber_def word_le_nat_alt)
  ultimately show ?thesis using pack_parts(1) by metis
qed

context allocator
begin

lemma Adds_inv:
  assumes "memtable_inv m es" and "\<forall>e \<in> set es'. entry_ok e" and "distinct (map e_seq (es @ es'))"
  shows "\<exists>m'. MemTable_Adds new_at es' m = Some m' \<and> memtable_inv m' (es @ es')"
  using assms
proof (induction es' arbitrary: m es)
  case (Cons e es')
  have "entry_ikey e \<notin> set (map entry_ikey es)"
  proof
    assume "entry_ikey e \<in> set (map entry_ikey es)"
    then obtain d where d: "d \<in> set es" "entry_ikey d = entry_ikey e" by auto
    have "entry_ok d" using Cons.prems(1) d(1) by (simp add: memtable_inv_def)
    with entry_ikey_inject [of d e] d(2) Cons.prems(2) have "e_seq d = e_seq e" by simp
    then show False using Cons.prems(3) d(1) by (auto simp: image_iff)
  qed
  with MemTable_Add_inv [OF Cons.prems(1), of e] Cons.prems(2) obtain m1 where
    m1: "MemTable_Add BytewiseComparator new_at (e_seq e) (e_type e) (e_key e) (e_value e) m = Some m1"
      "memtable_inv m1 (es @ [e])" by auto
  from Cons.IH [OF m1(2)] Cons.prems(2,3) m1(1) show ?case by auto
qed auto

end

text \<open>C26: the memtable answers like a table of versions. Whatever entries with different sequence
  numbers are added, in any order, to a new memtable, all are accepted, and \<open>Get\<close> with the lookup key of
  a user key and a snapshot gives the value, or the deletion, of the entry for that key with the greatest
  sequence number the snapshot may see, and reports nothing if there is none.\<close>

theorem memtable_get:
  assumes "allocator new_at" and "distinct (map e_seq es)" and "list_all entry_ok es"
    and "length u + 8 < 2 ^ 32" and "s \<le> kMaxSequenceNumber"
  shows "\<exists>m0 m. MemTable_new new_at = Some m0 \<and> MemTable_Adds new_at es m0 = Some m \<and>
    MemTable_Get BytewiseComparator (LookupKey u s) m = Some (get_spec u s es)"
proof -
  from allocator.MemTable_new_inv [OF assms(1)] obtain m0 where m0: "MemTable_new new_at = Some m0" "memtable_inv m0 []" by blast
  from allocator.Adds_inv [OF assms(1) m0(2), of es] assms(2,3) obtain m where
    m: "MemTable_Adds new_at es m0 = Some m" "memtable_inv m es" by (auto simp: list_all_iff)
  from MemTable_Get_result [OF m(2) assms(2,4,5)] m0(1) m(1) show ?thesis by blast
qed

lemma memtable_get_witness:
  "\<exists>m0 m. MemTable_new bump_new = Some m0 \<and>
    MemTable_Adds bump_new [\<lparr>e_key = [97], e_seq = 5, e_type = kTypeValue, e_value = [1]\<rparr>,
      \<lparr>e_key = [97], e_seq = 3, e_type = kTypeDeletion, e_value = []\<rparr>] m0 = Some m \<and>
    MemTable_Get BytewiseComparator (LookupKey [97] 4) m = Some (get_spec [97] 4
      [\<lparr>e_key = [97], e_seq = 5, e_type = kTypeValue, e_value = [1]\<rparr>,
       \<lparr>e_key = [97], e_seq = 3, e_type = kTypeDeletion, e_value = []\<rparr>])"
  by (rule memtable_get [OF bump.allocator_axioms]) (simp_all add: entry_ok_def kMaxSequenceNumber_def)

section \<open>Batches\<close>

text \<open>The updates with the sequence numbers they get.\<close>

fun update_entry :: "nat \<Rightarrow> update \<Rightarrow> entry" where
  "update_entry n (PutKey k v) = \<lparr>e_key = k, e_seq = of_nat n, e_type = kTypeValue, e_value = v\<rparr>"
| "update_entry n (DeleteKey k) = \<lparr>e_key = k, e_seq = of_nat n, e_type = kTypeDeletion, e_value = []\<rparr>"

fun entries_from :: "nat \<Rightarrow> update list \<Rightarrow> entry list" where
  "entries_from n [] = []"
| "entries_from n (u # us) = update_entry n u # entries_from (Suc n) us"

fun update_key :: "update \<Rightarrow> slice" where
  "update_key (PutKey k v) = k"
| "update_key (DeleteKey k) = k"

text \<open>Sizes that the format can represent.\<close>

definition update_small :: "update \<Rightarrow> bool" where
  "update_small u \<longleftrightarrow> update_ok u \<and> length (update_key u) + 8 < 2 ^ 32"

text \<open>The state a list of updates leaves a key in.\<close>

definition last_update :: "slice \<Rightarrow> update list \<Rightarrow> get_result" where
  "last_update k us =
     (case filter (\<lambda>u. update_key u = k) us of [] \<Rightarrow> Absent
      | u # vs \<Rightarrow> (case last (u # vs) of PutKey _ v \<Rightarrow> Value v | DeleteKey _ \<Rightarrow> Deletion (NotFound [] [])))"

text \<open>Writing batches: each is filled, given the next sequence number, and inserted.\<close>

fun fill_batch :: "update list \<Rightarrow> WriteBatch \<Rightarrow> WriteBatch option" where
  "fill_batch [] b = Some b"
| "fill_batch (u # us) b = Option.bind (add_update u b) (fill_batch us)"

fun write_batches :: "(nat \<Rightarrow> Arena \<Rightarrow> nat) \<Rightarrow> update list list \<Rightarrow> SequenceNumber \<Rightarrow> MemTable \<Rightarrow> MemTable option" where
  "write_batches new_at [] s m = Some m"
| "write_batches new_at (us # uss) s m =
     Option.bind (fill_batch us WriteBatch_new) (\<lambda>b.
     Option.bind (WriteBatch_InsertInto BytewiseComparator new_at (WriteBatch_SetSequence s b) m) (\<lambda>(st, m).
     if status_ok st then write_batches new_at uss (s + of_nat (length us)) m else None))"

lemma length_entries_from [simp]: "length (entries_from n us) = length us"
  by (induction us arbitrary: n) simp_all

lemma nth_entries_from: "i < length us \<Longrightarrow> entries_from n us ! i = update_entry (n + i) (us ! i)"
  by (induction us arbitrary: n i) (auto simp: nth_Cons split: nat.splits)

lemma entries_from_append: "entries_from n (us @ vs) = entries_from n us @ entries_from (n + length us) vs"
  by (induction us arbitrary: n) simp_all

lemma update_entry_simps [simp]: "e_seq (update_entry n u) = of_nat n" "e_key (update_entry n u) = update_key u"
  by (cases u; simp)+

lemma fill_batch_holds:
  assumes "batch_holds s us b" and "\<forall>u \<in> set vs. update_ok u" and "length us + length vs < 2 ^ 31"
  shows "\<exists>b'. fill_batch vs b = Some b' \<and> batch_holds s (us @ vs) b'"
  using assms
proof (induction vs arbitrary: us b)
  case (Cons v vs)
  with add_update_holds [OF Cons.prems(1), of v] obtain b1 where "add_update v b = Some b1" "batch_holds s (us @ [v]) b1" by auto
  with Cons.IH [OF this(2)] Cons.prems show ?case by auto
qed auto

lemma SetSequence_holds: "batch_holds s us b \<Longrightarrow> batch_holds s' us (WriteBatch_SetSequence s' b)"
  using batch_parts(6) [of s us b s'] by (simp add: batch_holds_def)

lemma seq_le_max: "n < 2 ^ 32 \<Longrightarrow> (of_nat n :: u64) \<le> kMaxSequenceNumber \<and> unat (of_nat n :: u64) = n"
  by (simp add: kMaxSequenceNumber_def word_le_nat_alt unsigned_of_nat take_bit_nat_eq_self)

lemma entry_ok_update: "update_small u \<Longrightarrow> n < 2 ^ 32 \<Longrightarrow> entry_ok (update_entry n u)"
  using seq_le_max [of n] by (cases u) (auto simp: update_small_def entry_ok_def)

lemma entry_ikey_new:
  assumes "\<forall>u \<in> set (us @ [v]). update_small u" and "length us + n < 2 ^ 32"
  shows "entry_ikey (update_entry (n + length us) v) \<notin> set (map entry_ikey (entries_from n us))"
proof
  assume "entry_ikey (update_entry (n + length us) v) \<in> set (map entry_ikey (entries_from n us))"
  then obtain i where i: "i < length us" "entry_ikey (update_entry (n + length us) v) = entry_ikey (update_entry (n + i) (us ! i))"
    by (auto simp: in_set_conv_nth nth_entries_from)
  have "entry_ok (update_entry (n + length us) v)" "entry_ok (update_entry (n + i) (us ! i))"
    using assms i(1) by (simp_all add: entry_ok_update)
  from entry_ikey_inject [OF this i(2)] have "(of_nat (n + length us) :: u64) = of_nat (n + i)" by simp
  then have "unat (of_nat (n + length us) :: u64) = unat (of_nat (n + i) :: u64)" by (simp only:)
  then show False using seq_le_max [of "n + length us"] seq_le_max [of "n + i"] i(1) assms(2) by simp
qed

context allocator
begin

lemma Inserter_inv:
  assumes "memtable_inv m (entries_from 1 done)" and "\<forall>u \<in> set (done @ us). update_small u"
    and "length (done @ us) + 1 < 2 ^ 32"
  shows "\<exists>m'. apply_updates (MemTableInserter BytewiseComparator new_at) us (of_nat (length done + 1), m) =
    Some (of_nat (length (done @ us) + 1), m') \<and> memtable_inv m' (entries_from 1 (done @ us))"
  using assms
proof (induction us arbitrary: m "done")
  case (Cons u us)
  let ?e = "update_entry (1 + length done) u"
  have "entry_ok ?e" using Cons.prems by (intro entry_ok_update) auto
  moreover have "entry_ikey ?e \<notin> set (map entry_ikey (entries_from 1 done))"
    by (rule entry_ikey_new) (use Cons.prems in auto)
  ultimately obtain m1 where
    "MemTable_Add BytewiseComparator new_at (e_seq ?e) (e_type ?e) (e_key ?e) (e_value ?e) m = Some m1"
    and inv: "memtable_inv m1 (entries_from 1 done @ [?e])" using MemTable_Add_inv [OF Cons.prems(1)] by blast
  then have step: "apply_update (MemTableInserter BytewiseComparator new_at) u (of_nat (length done + 1), m) =
      Some (of_nat (length (done @ [u]) + 1), m1)"
    by (cases u) (simp_all add: MemTableInserter_def add.commute)
  have "memtable_inv m1 (entries_from 1 (done @ [u]))" using inv by (simp add: entries_from_append)
  from Cons.IH [OF this] Cons.prems(2,3) step show ?case by auto
qed auto

lemma write_batches_inv:
  assumes "memtable_inv m (entries_from 1 done)" and "\<forall>u \<in> set (done @ concat uss). update_small u"
    and "length (done @ concat uss) + 1 < 2 ^ 31"
  shows "\<exists>m'. write_batches new_at uss (of_nat (length done + 1)) m = Some m' \<and>
    memtable_inv m' (entries_from 1 (done @ concat uss))"
  using assms
proof (induction uss arbitrary: m "done")
  case (Cons us uss)
  have ok: "\<forall>u \<in> set us. update_ok u" using Cons.prems(2) by (auto simp: update_small_def)
  from fill_batch_holds [OF WriteBatch_new_holds ok] Cons.prems(3) obtain b where
    b: "fill_batch us WriteBatch_new = Some b" "batch_holds 0 us b" by auto
  let ?s = "of_nat (length done + 1) :: SequenceNumber"
  note b' = SetSequence_holds [OF b(2), of ?s]
  from Inserter_inv [OF Cons.prems(1), of us] Cons.prems(2,3) obtain m1 where
    m1: "apply_updates (MemTableInserter BytewiseComparator new_at) us (?s, m) = Some (of_nat (length (done @ us) + 1), m1)"
      "memtable_inv m1 (entries_from 1 (done @ us))" by auto
  have "WriteBatch_InsertInto BytewiseComparator new_at (WriteBatch_SetSequence ?s b) m = Some (Status_OK, m1)"
    unfolding WriteBatch_InsertInto_def batch_parts(2) [OF b'] Iterate_updates [OF b'] m1(1) bind.simps option.map by simp
  moreover have "?s + of_nat (length us) = of_nat (length (done @ us) + 1)" by simp
  ultimately show ?case using Cons.IH [OF m1(2)] Cons.prems(2,3) b(1)
    by (simp add: status_ok_simps del: of_nat_add of_nat_Suc)
qed auto

end

lemma fold_newer_last:
  "sorted_wrt (\<lambda>a b. e_seq a < e_seq b) es \<Longrightarrow> \<forall>e \<in> set es. e_seq b < e_seq e \<Longrightarrow> fold newer es (Some b) = Some (last (b # es))"
  by (induction es arbitrary: b) auto

lemma newest_last:
  assumes "sorted_wrt (\<lambda>a b. e_seq a < e_seq b) (filter (visible k s) es)"
  shows "newest k s es = (case filter (visible k s) es of [] \<Rightarrow> None | e # ds \<Rightarrow> Some (last (e # ds)))"
  using assms fold_newer_last by (cases "filter (visible k s) es") (auto simp: newest_def)

lemma entries_increase:
  assumes "n + length us < 2 ^ 32"
  shows "sorted_wrt (\<lambda>a b. e_seq a < e_seq b) (entries_from n us)"
proof -
  have "(of_nat (n + i) :: u64) < of_nat (n + j)" if "i < j" "j < length us" for i j
    using that assms seq_le_max [of "n + i"] seq_le_max [of "n + j"] by (simp add: word_less_nat_alt)
  then show ?thesis by (auto simp: sorted_wrt_iff_nth_less nth_entries_from)
qed

lemma filter_entries_from:
  "filter (\<lambda>e. e_key e = k) (entries_from n us) = map snd (filter (\<lambda>(u, e). update_key u = k) (zip us (entries_from n us)))"
  by (induction us arbitrary: n) auto

lemma filter_fst_zip: "length xs = length ys \<Longrightarrow> map fst (filter (\<lambda>(x, y). P x) (zip xs ys)) = filter P xs"
  by (induction xs ys rule: list_induct2) auto

lemma visible_entries:
  assumes "length us + 1 < 2 ^ 31" and n: "n < 2 ^ 31"
  shows "filter (visible k (of_nat n)) (entries_from 1 us) = filter (\<lambda>e. e_key e = k) (entries_from 1 (take n us))"
proof -
  have us: "us = take n us @ drop n us" by simp
  have len: "(of_nat (1 + i) :: u64) \<le> of_nat n \<longleftrightarrow> 1 + i \<le> n" if "i < length us" for i
    using that assms seq_le_max [of "1 + i"] seq_le_max [of n] by (simp add: word_le_nat_alt del: of_nat_add of_nat_Suc)
  have "filter (\<lambda>e. e_seq e \<le> of_nat n) (entries_from 1 us) = entries_from 1 (take n us)"
  proof -
    have "\<forall>e \<in> set (entries_from 1 (take n us)). e_seq e \<le> of_nat n"
      using len by (auto simp: in_set_conv_nth nth_entries_from simp del: of_nat_add of_nat_Suc)
    moreover have "\<forall>e \<in> set (entries_from (1 + length (take n us)) (drop n us)). \<not> e_seq e \<le> of_nat n"
    proof
      fix e
      assume "e \<in> set (entries_from (1 + length (take n us)) (drop n us))"
      then obtain i where i: "i < length us - n" "e = update_entry (1 + length (take n us) + i) (drop n us ! i)"
        by (auto simp: in_set_conv_nth nth_entries_from simp del: of_nat_add of_nat_Suc)
      have "length (take n us) = n" using i(1) by simp
      then have "e_seq e = of_nat (1 + (n + i))" using i(2) by (simp del: length_take)
      with len [of "n + i"] i(1) show "\<not> e_seq e \<le> of_nat n" by (simp del: of_nat_add of_nat_Suc)
    qed
    ultimately show ?thesis
      by (subst us, subst entries_from_append) (simp only: filter_append filter_True filter_False append_Nil2)
  qed
  then show ?thesis
    unfolding visible_def by (metis (no_types, lifting) filter_filter filter_cong)
qed

lemma last_update_newest:
  assumes "length us + 1 < 2 ^ 31" and "n < 2 ^ 31"
  shows "get_spec k (of_nat n) (entries_from 1 us) = last_update k (take n us)"
proof -
  let ?es = "entries_from 1 (take n us)" and ?vs = "take n us"
  have f: "filter (visible k (of_nat n)) (entries_from 1 us) = filter (\<lambda>e. e_key e = k) ?es"
    by (rule visible_entries [OF assms])
  have "sorted_wrt (\<lambda>a b. e_seq a < e_seq b) ?es" by (rule entries_increase) (use assms in simp)
  then have s: "sorted_wrt (\<lambda>a b. e_seq a < e_seq b) (filter (\<lambda>e. e_key e = k) ?es)" by (rule sorted_wrt_filter)
  have type': "(if e_type (update_entry m u) = kTypeValue then Value (e_value (update_entry m u)) else Deletion (NotFound [] [])) =
      (case u of PutKey _ v \<Rightarrow> Value v | DeleteKey _ \<Rightarrow> Deletion (NotFound [] []))" for m u
    by (cases u) (simp_all add: kTypeValue_def kTypeDeletion_def)
  define P where "P = filter (\<lambda>(u, e). update_key u = k) (zip ?vs ?es)"
  have e: "filter (\<lambda>e. e_key e = k) ?es = map snd P" unfolding P_def by (rule filter_entries_from)
  have u: "filter (\<lambda>u. update_key u = k) ?vs = map fst P"
    unfolding P_def by (rule filter_fst_zip [symmetric]) simp
  have pair: "\<exists>m. snd p = update_entry m (fst p)" if "p \<in> set P" for p
  proof -
    from that have "p \<in> set (zip ?vs ?es)" by (simp add: P_def)
    then obtain i where "i < length ?vs" "p = (?vs ! i, ?es ! i)" by (auto simp: in_set_zip)
    then show ?thesis by (auto simp: nth_entries_from)
  qed
  show ?thesis
  proof (cases P)
    case Nil
    then have "filter (visible k (of_nat n)) (entries_from 1 us) = []" unfolding f e by simp
    then have "newest k (of_nat n) (entries_from 1 us) = None" unfolding newest_def by simp
    with u Nil show ?thesis by (simp add: get_spec_def last_update_def)
  next
    case (Cons p ps)
    then have "P \<noteq> []" "last P \<in> set P" by simp_all
    with pair obtain m where m: "snd (last P) = update_entry m (fst (last P))" by blast
    have "newest k (of_nat n) (entries_from 1 us) = Some (last (map snd P))"
      using newest_last [of k "of_nat n" "entries_from 1 us"] s unfolding f e by (simp add: Cons)
    also have "last (map snd P) = update_entry m (fst (last P))" using m \<open>P \<noteq> []\<close> by (simp add: last_map)
    finally have "get_spec k (of_nat n) (entries_from 1 us) =
        (case fst (last P) of PutKey _ v \<Rightarrow> Value v | DeleteKey _ \<Rightarrow> Deletion (NotFound [] []))"
      using type' by (simp add: get_spec_def)
    moreover have "last_update k ?vs = (case last (map fst P) of PutKey _ v \<Rightarrow> Value v | DeleteKey _ \<Rightarrow> Deletion (NotFound [] []))"
      unfolding last_update_def u by (simp add: Cons)
    ultimately show ?thesis using \<open>P \<noteq> []\<close> by (simp add: last_map)
  qed
qed

text \<open>C27: batches are atomic steps of one history and snapshots look back into it. Batches filled by
  \<open>Put\<close> and \<open>Delete\<close> and inserted with consecutive sequence numbers, from 1 on, into a new memtable are
  all accepted; a \<open>Get\<close> at snapshot \<open>n\<close> then gives what the first \<open>n\<close> updates of all the batches, in
  order, left the key in.\<close>

theorem batches_and_snapshots:
  assumes "allocator new_at" and "list_all update_small (concat uss)" and "length (concat uss) + 1 < 2 ^ 31"
    and "length k + 8 < 2 ^ 32" and "n < 2 ^ 31"
  shows "\<exists>m0 m. MemTable_new new_at = Some m0 \<and> write_batches new_at uss 1 m0 = Some m \<and>
    MemTable_Get BytewiseComparator (LookupKey k (of_nat n)) m = Some (last_update k (take n (concat uss)))"
proof -
  from allocator.MemTable_new_inv [OF assms(1)] obtain m0 where m0: "MemTable_new new_at = Some m0" "memtable_inv m0 []" by blast
  from allocator.write_batches_inv [OF assms(1), of m0 "[]" uss] m0(2) assms(2,3) obtain m where
    m: "write_batches new_at uss 1 m0 = Some m" "memtable_inv m (entries_from 1 (concat uss))" by (auto simp: list_all_iff)
  have n: "(of_nat n :: u64) \<le> kMaxSequenceNumber" using seq_le_max [of n] assms(5) by simp
  have "sorted_wrt (\<lambda>a b. e_seq a < e_seq b) (entries_from 1 (concat uss))" by (rule entries_increase) (use assms(3) in simp)
  then have "sorted_wrt (<) (map e_seq (entries_from 1 (concat uss)))" by (simp add: sorted_wrt_map)
  then have "distinct (map e_seq (entries_from 1 (concat uss)))" by (simp add: strict_sorted_iff)
  from MemTable_Get_result [OF m(2) this assms(4) n] m0(1) m(1) show ?thesis
    using last_update_newest [OF assms(3,5), of k] by auto
qed

lemma batches_and_snapshots_witness:
  "\<exists>m0 m. MemTable_new bump_new = Some m0 \<and>
    write_batches bump_new [[PutKey [97] [1], PutKey [98] [2]], [DeleteKey [97]]] 1 m0 = Some m \<and>
    MemTable_Get BytewiseComparator (LookupKey [97] (of_nat 2)) m =
      Some (last_update [97] (take 2 (concat [[PutKey [97] [1], PutKey [98] [2]], [DeleteKey [97]]])))"
  by (rule batches_and_snapshots [OF bump.allocator_axioms]) (simp_all add: update_small_def)

end
