(* ===== verification/Ldb_Iterator.thy ===== *)
theory Ldb_Iterator
  imports Ldb_Comparator Ldb_Status
begin

text \<open>
  The iterator interface (\<open>include/leveldb/iterator.h\<close>), its empty implementation
  (\<open>table/iterator.cc\<close>) and the wrapper that caches the key (\<open>table/iterator_wrapper.h\<close>). The class
  of virtual functions is a record of functions on the state of the object; Nothing stands for a
  failed assertion or an access outside a buffer. The locale \<open>iterator\<close> states what the interface's
  comments promise, in terms of the list of entries and the position in it.
\<close>

type_synonym entry = "slice \<times> slice"

record 's Iterator =
  it_Valid :: "'s \<Rightarrow> bool"
  it_SeekToFirst :: "'s \<Rightarrow> 's option"
  it_SeekToLast :: "'s \<Rightarrow> 's option"
  it_Seek :: "slice \<Rightarrow> 's \<Rightarrow> 's option"
  it_Next :: "'s \<Rightarrow> 's option"
  it_Prev :: "'s \<Rightarrow> 's option"
  it_key :: "'s \<Rightarrow> slice option"
  it_value :: "'s \<Rightarrow> slice option"
  it_status :: "'s \<Rightarrow> status"

section \<open>The contract\<close>

text \<open>Entries in ascending order of their keys, and where the first key at or past a target is.\<close>

definition sorted_entries :: "(slice \<Rightarrow> slice \<Rightarrow> int) \<Rightarrow> entry list \<Rightarrow> bool" where
  "sorted_entries cmp es \<longleftrightarrow> sorted_wrt (\<lambda>a b. cmp (fst a) (fst b) < 0) es"

definition seek_index :: "(slice \<Rightarrow> slice \<Rightarrow> int) \<Rightarrow> slice \<Rightarrow> entry list \<Rightarrow> nat" where
  "seek_index cmp target es = length (takeWhile (\<lambda>e. cmp (fst e) target < 0) es)"

text \<open>
  A cursor in a list of entries, which an iterator has to agree with: a client moves it, \<open>Next\<close> and
  \<open>Prev\<close> only while it is valid, and looks at the status and the entry after each move.
\<close>

datatype cursor_op = ToFirst | ToLast | ToKey slice | Forward | Back

fun cursor_move :: "(slice \<Rightarrow> slice \<Rightarrow> int) \<Rightarrow> entry list \<Rightarrow> cursor_op \<Rightarrow> nat \<Rightarrow> nat" where
  "cursor_move cmp es ToFirst i = 0"
| "cursor_move cmp es ToLast i = length es - 1"
| "cursor_move cmp es (ToKey t) i = seek_index cmp t es"
| "cursor_move cmp es Forward i = (if i < length es then i + 1 else i)"
| "cursor_move cmp es Back i = (if i < length es then if i = 0 then length es else i - 1 else i)"

fun cursor_view :: "(slice \<Rightarrow> slice \<Rightarrow> int) \<Rightarrow> entry list \<Rightarrow> cursor_op list \<Rightarrow> nat \<Rightarrow> (status \<times> entry option) list" where
  "cursor_view cmp es [] i = []"
| "cursor_view cmp es (m # ms) i =
     (let i = cursor_move cmp es m i in
      (Status_OK, if i < length es then Some (es ! i) else None) # cursor_view cmp es ms i)"

fun iterator_move :: "'s Iterator \<Rightarrow> cursor_op \<Rightarrow> 's \<Rightarrow> 's option" where
  "iterator_move I ToFirst s = it_SeekToFirst I s"
| "iterator_move I ToLast s = it_SeekToLast I s"
| "iterator_move I (ToKey t) s = it_Seek I t s"
| "iterator_move I Forward s = (if it_Valid I s then it_Next I s else Some s)"
| "iterator_move I Back s = (if it_Valid I s then it_Prev I s else Some s)"

definition iterator_entry :: "'s Iterator \<Rightarrow> 's \<Rightarrow> entry option option" where
  "iterator_entry I s =
     (if it_Valid I s
      then Option.bind (it_key I s) (\<lambda>k. map_option (\<lambda>v. Some (k, v)) (it_value I s)) else Some None)"

fun iterator_view :: "'s Iterator \<Rightarrow> cursor_op list \<Rightarrow> 's \<Rightarrow> (status \<times> entry option) list option" where
  "iterator_view I [] s = Some []"
| "iterator_view I (m # ms) s =
     Option.bind (iterator_move I m s) (\<lambda>s.
     Option.bind (iterator_entry I s) (\<lambda>e.
     map_option ((#) (it_status I s, e)) (iterator_view I ms s)))"

fun targets_ok :: "(slice \<Rightarrow> bool) \<Rightarrow> cursor_op list \<Rightarrow> bool" where
  "targets_ok target [] \<longleftrightarrow> True"
| "targets_ok target (m # ms) \<longleftrightarrow> (case m of ToKey t \<Rightarrow> target t | _ \<Rightarrow> True) \<and> targets_ok target ms"

text \<open>Whatever the moves, the client sees what the cursor shows.\<close>

definition views :: "'s Iterator \<Rightarrow> (slice \<Rightarrow> slice \<Rightarrow> int) \<Rightarrow> (slice \<Rightarrow> bool) \<Rightarrow> entry list \<Rightarrow> nat \<Rightarrow> 's \<Rightarrow> bool" where
  "views I cmp target es i s \<longleftrightarrow>
     (\<forall>ms. targets_ok target ms \<longrightarrow> iterator_view I ms s = Some (cursor_view cmp es ms i))"

locale iterator =
  fixes I :: "'s Iterator" and cmp :: "slice \<Rightarrow> slice \<Rightarrow> int" and target :: "slice \<Rightarrow> bool"
    and at :: "entry list \<Rightarrow> nat \<Rightarrow> 's \<Rightarrow> bool"
  assumes within: "at es i s \<Longrightarrow> i \<le> length es"
    and Valid: "at es i s \<Longrightarrow> it_Valid I s \<longleftrightarrow> i < length es"
    and key_now: "at es i s \<Longrightarrow> i < length es \<Longrightarrow> it_key I s = Some (fst (es ! i))"
    and value_now: "at es i s \<Longrightarrow> i < length es \<Longrightarrow> it_value I s = Some (snd (es ! i))"
    and status_now: "at es i s \<Longrightarrow> it_status I s = Status_OK"
    and SeekToFirst: "at es i s \<Longrightarrow> \<exists>s'. it_SeekToFirst I s = Some s' \<and> at es 0 s'"
    and SeekToLast: "at es i s \<Longrightarrow> \<exists>s'. it_SeekToLast I s = Some s' \<and> at es (length es - 1) s'"
    and Seek: "at es i s \<Longrightarrow> target t \<Longrightarrow> \<exists>s'. it_Seek I t s = Some s' \<and> at es (seek_index cmp t es) s'"
    and Next: "at es i s \<Longrightarrow> i < length es \<Longrightarrow> \<exists>s'. it_Next I s = Some s' \<and> at es (i + 1) s'"
    and Prev: "at es i s \<Longrightarrow> i < length es \<Longrightarrow>
      \<exists>s'. it_Prev I s = Some s' \<and> at es (if i = 0 then length es else i - 1) s'"
begin

lemma iterator_move_at:
  assumes "at es i s" and "targets_ok target [m]"
  shows "\<exists>s'. iterator_move I m s = Some s' \<and> at es (cursor_move cmp es m i) s'"
proof (cases m)
  case ToFirst
  with SeekToFirst [OF assms(1)] show ?thesis by simp
next
  case ToLast
  with SeekToLast [OF assms(1)] show ?thesis by simp
next
  case (ToKey t)
  with Seek [OF assms(1), of t] assms(2) show ?thesis by simp
next
  case Forward
  with Next [OF assms(1)] Valid [OF assms(1)] assms(1) show ?thesis by simp
next
  case Back
  with Prev [OF assms(1)] Valid [OF assms(1)] assms(1) show ?thesis by (cases "i < length es") auto
qed

lemma iterator_entry_at: "at es i s \<Longrightarrow> iterator_entry I s = Some (if i < length es then Some (es ! i) else None)"
  by (simp add: iterator_entry_def Valid key_now value_now)

lemma views_at: "at es i s \<Longrightarrow> views I cmp target es i s"
  unfolding views_def
proof (intro allI impI)
  fix ms
  assume "at es i s" "targets_ok target ms"
  then show "iterator_view I ms s = Some (cursor_view cmp es ms i)"
  proof (induction ms arbitrary: i s)
    case (Cons m ms)
    from iterator_move_at [OF Cons.prems(1), of m] Cons.prems(2) obtain s' where
      s': "iterator_move I m s = Some s'" "at es (cursor_move cmp es m i) s'" by auto
    with Cons.IH [OF s'(2)] Cons.prems(2) iterator_entry_at [OF s'(2)] status_now [OF s'(2)] show ?case
      by (simp add: Let_def)
  qed simp
qed

end

section \<open>Seeking in sorted entries\<close>

lemma seek_index_le: "seek_index cmp t es \<le> length es"
  by (simp add: seek_index_def length_takeWhile_le)

lemma seek_index_before: "i < seek_index cmp t es \<Longrightarrow> cmp (fst (es ! i)) t < 0"
  unfolding seek_index_def by (metis nth_mem set_takeWhileD takeWhile_nth)

lemma seek_index_at: "seek_index cmp t es < length es \<Longrightarrow> \<not> cmp (fst (es ! seek_index cmp t es)) t < 0"
  unfolding seek_index_def by (rule nth_length_takeWhile)

lemma seek_index_eqI:
  assumes "i \<le> length es" and "\<And>j. j < i \<Longrightarrow> cmp (fst (es ! j)) t < 0"
    and "i < length es \<Longrightarrow> \<not> cmp (fst (es ! i)) t < 0"
  shows "seek_index cmp t es = i"
proof (rule linorder_cases [of "seek_index cmp t es" i])
  assume "seek_index cmp t es < i"
  with assms(1) assms(2) [of "seek_index cmp t es"] seek_index_at [of cmp t es] show ?thesis by simp
next
  assume lt: "i < seek_index cmp t es"
  with seek_index_le [of cmp t es] have "i < length es" by simp
  with assms(3) seek_index_before [OF lt] show ?thesis by simp
qed simp

lemma seek_index_append:
  "seek_index cmp t (xs @ ys) =
    (if seek_index cmp t xs = length xs then length xs + seek_index cmp t ys else seek_index cmp t xs)"
proof (induction xs)
  case (Cons x xs)
  then show ?case by (simp add: seek_index_def)
qed (simp add: seek_index_def)

lemma sorted_entries_append:
  "sorted_entries cmp (xs @ ys) \<longleftrightarrow> sorted_entries cmp xs \<and> sorted_entries cmp ys \<and>
    (\<forall>x \<in> set xs. \<forall>y \<in> set ys. cmp (fst x) (fst y) < 0)"
  by (simp add: sorted_entries_def sorted_wrt_append)

lemma sorted_entries_nth:
  "sorted_entries cmp es \<Longrightarrow> i < j \<Longrightarrow> j < length es \<Longrightarrow> cmp (fst (es ! i)) (fst (es ! j)) < 0"
  unfolding sorted_entries_def by (rule sorted_wrt_nth_less)

section \<open>Cleanup functions\<close>

text \<open>
  The functions to run when the iterator is deleted, the one in the object itself first; a new one
  goes behind that one.
\<close>

fun RegisterCleanup :: "('e \<Rightarrow> 'e) \<Rightarrow> ('e \<Rightarrow> 'e) list \<Rightarrow> ('e \<Rightarrow> 'e) list" where
  "RegisterCleanup func [] = [func]"
| "RegisterCleanup func (first # later) = first # func # later"

fun delete_Iterator :: "('e \<Rightarrow> 'e) list \<Rightarrow> 'e \<Rightarrow> 'e" where
  "delete_Iterator [] e = e"
| "delete_Iterator (func # cs) e = delete_Iterator cs (func e)"

lemma RegisterCleanup_length [simp]: "length (RegisterCleanup f cs) = Suc (length cs)"
  by (cases cs) simp_all

lemma RegisterCleanup_set [simp]: "set (RegisterCleanup f cs) = insert f (set cs)"
  by (cases cs) auto

section \<open>The empty iterator\<close>

text \<open>Its state is its status.\<close>

definition EmptyIterator :: "status Iterator" where
  "EmptyIterator =
     \<lparr>it_Valid = (\<lambda>_. False), it_SeekToFirst = Some, it_SeekToLast = Some, it_Seek = (\<lambda>_. Some),
      it_Next = (\<lambda>_. None), it_Prev = (\<lambda>_. None), it_key = (\<lambda>_. None), it_value = (\<lambda>_. None),
      it_status = (\<lambda>s. s)\<rparr>"

definition NewEmptyIterator :: status where
  "NewEmptyIterator = Status_OK"

definition NewErrorIterator :: "status \<Rightarrow> status" where
  "NewErrorIterator s = s"

lemma EmptyIterator_simps [simp]:
  "it_Valid EmptyIterator s = False" "it_SeekToFirst EmptyIterator s = Some s"
  "it_SeekToLast EmptyIterator s = Some s" "it_Seek EmptyIterator t s = Some s" "it_status EmptyIterator s = s"
  by (simp_all add: EmptyIterator_def)

interpretation empty_it: iterator EmptyIterator cmp "\<lambda>_. True"
    "\<lambda>es i s. es = [] \<and> i = 0 \<and> s = NewEmptyIterator" for cmp
  by unfold_locales (auto simp: NewEmptyIterator_def seek_index_def)

section \<open>The wrapper\<close>

text \<open>
  \<open>IteratorWrapper\<close> holds an iterator or \<open>NULL\<close>, whether it is valid and, if so, its key. The
  destructor and \<open>Set\<close> delete the iterator they drop.
\<close>

record 's IteratorWrapper =
  w_iter :: "'s option"
  w_valid :: bool
  w_key :: slice

definition IteratorWrapper_new :: "'s IteratorWrapper" where
  "IteratorWrapper_new = \<lparr>w_iter = None, w_valid = False, w_key = []\<rparr>"

definition wrapper_Update :: "'s Iterator \<Rightarrow> 's IteratorWrapper \<Rightarrow> 's IteratorWrapper option" where
  "wrapper_Update I w =
     Option.bind (w_iter w) (\<lambda>s.
       let w = w\<lparr>w_valid := it_Valid I s\<rparr> in
       if w_valid w then map_option (\<lambda>k. w\<lparr>w_key := k\<rparr>) (it_key I s) else Some w)"

definition wrapper_Set :: "'s Iterator \<Rightarrow> 's option \<Rightarrow> 's IteratorWrapper \<Rightarrow> 's IteratorWrapper option" where
  "wrapper_Set I iter w =
     (let w = w\<lparr>w_iter := iter\<rparr> in
      case iter of None \<Rightarrow> Some (w\<lparr>w_valid := False\<rparr>) | Some _ \<Rightarrow> wrapper_Update I w)"

definition wrapper_key :: "'s IteratorWrapper \<Rightarrow> slice option" where
  "wrapper_key w = (if w_valid w then Some (w_key w) else None)"

definition wrapper_value :: "'s Iterator \<Rightarrow> 's IteratorWrapper \<Rightarrow> slice option" where
  "wrapper_value I w = (if w_valid w then Option.bind (w_iter w) (it_value I) else None)"

definition wrapper_status :: "'s Iterator \<Rightarrow> 's IteratorWrapper \<Rightarrow> status option" where
  "wrapper_status I w = map_option (it_status I) (w_iter w)"

text \<open>\<open>assert(iter_); iter_->f(); Update();\<close> for each of the operations that move the iterator.\<close>

definition wrapper_move ::
  "'s Iterator \<Rightarrow> ('s \<Rightarrow> 's option) \<Rightarrow> 's IteratorWrapper \<Rightarrow> 's IteratorWrapper option" where
  "wrapper_move I f w =
     Option.bind (w_iter w) (\<lambda>s. Option.bind (f s) (\<lambda>s. wrapper_Update I (w\<lparr>w_iter := Some s\<rparr>)))"

abbreviation "wrapper_Next I \<equiv> wrapper_move I (it_Next I)"
abbreviation "wrapper_Prev I \<equiv> wrapper_move I (it_Prev I)"
abbreviation "wrapper_Seek I t \<equiv> wrapper_move I (it_Seek I t)"
abbreviation "wrapper_SeekToFirst I \<equiv> wrapper_move I (it_SeekToFirst I)"
abbreviation "wrapper_SeekToLast I \<equiv> wrapper_move I (it_SeekToLast I)"

text \<open>A wrapper around an iterator at a position answers for it.\<close>

definition wraps :: "(entry list \<Rightarrow> nat \<Rightarrow> 's \<Rightarrow> bool) \<Rightarrow> entry list \<Rightarrow> nat \<Rightarrow> 's IteratorWrapper \<Rightarrow> bool" where
  "wraps at es i w \<longleftrightarrow> (\<exists>s. w_iter w = Some s \<and> at es i s \<and> w_valid w = (i < length es) \<and>
     (w_valid w \<longrightarrow> w_key w = fst (es ! i)))"

context iterator
begin

lemma Update_wraps: "at es i s \<Longrightarrow> w_iter w = Some s \<Longrightarrow> \<exists>w'. wrapper_Update I w = Some w' \<and> wraps at es i w'"
  by (cases "i < length es") (auto simp: wrapper_Update_def wraps_def Valid key_now)

lemma Set_wraps: "at es i s \<Longrightarrow> \<exists>w'. wrapper_Set I (Some s) w = Some w' \<and> wraps at es i w'"
  using Update_wraps [of es i s "w\<lparr>w_iter := Some s\<rparr>"] by (simp add: wrapper_Set_def)

lemma move_wraps:
  assumes "wraps at es i w" and "\<And>s. at es i s \<Longrightarrow> \<exists>s'. f s = Some s' \<and> at es j s'"
  shows "\<exists>w'. wrapper_move I f w = Some w' \<and> wraps at es j w'"
proof -
  from assms(1) obtain s where s: "w_iter w = Some s" "at es i s" by (auto simp: wraps_def)
  from assms(2) [OF s(2)] obtain s' where s': "f s = Some s'" "at es j s'" by blast
  from Update_wraps [OF s'(2), of "w\<lparr>w_iter := Some s'\<rparr>"] s s'(1) show ?thesis
    by (simp add: wrapper_move_def)
qed

lemma wraps_within: "wraps at es i w \<Longrightarrow> i \<le> length es"
  by (auto simp: wraps_def within)

lemma wraps_valid: "wraps at es i w \<Longrightarrow> w_valid w \<longleftrightarrow> i < length es"
  by (auto simp: wraps_def)

lemma wraps_iter: "wraps at es i w \<Longrightarrow> w_iter w \<noteq> None"
  by (auto simp: wraps_def)

lemma wraps_key: "wraps at es i w \<Longrightarrow> i < length es \<Longrightarrow> wrapper_key w = Some (fst (es ! i))"
  by (auto simp: wraps_def wrapper_key_def)

lemma wraps_value: "wraps at es i w \<Longrightarrow> i < length es \<Longrightarrow> wrapper_value I w = Some (snd (es ! i))"
  by (auto simp: wraps_def wrapper_value_def value_now)

lemma wraps_status: "wraps at es i w \<Longrightarrow> wrapper_status I w = Some Status_OK"
  by (auto simp: wraps_def wrapper_status_def status_now)

lemmas wraps_facts = wraps_within wraps_valid wraps_iter wraps_key wraps_value wraps_status

lemma wrapper_Next: "wraps at es i w \<Longrightarrow> i < length es \<Longrightarrow> \<exists>w'. wrapper_Next I w = Some w' \<and> wraps at es (i + 1) w'"
  by (rule move_wraps, assumption) (rule Next)

lemma wrapper_Prev:
  "wraps at es i w \<Longrightarrow> i < length es \<Longrightarrow>
    \<exists>w'. wrapper_Prev I w = Some w' \<and> wraps at es (if i = 0 then length es else i - 1) w'"
  by (rule move_wraps, assumption) (rule Prev)

lemma wrapper_Seek:
  "wraps at es i w \<Longrightarrow> target t \<Longrightarrow> \<exists>w'. wrapper_Seek I t w = Some w' \<and> wraps at es (seek_index cmp t es) w'"
  by (rule move_wraps, assumption) (rule Seek)

lemma wrapper_SeekToFirst: "wraps at es i w \<Longrightarrow> \<exists>w'. wrapper_SeekToFirst I w = Some w' \<and> wraps at es 0 w'"
  by (rule move_wraps, assumption) (rule SeekToFirst)

lemma wrapper_SeekToLast:
  "wraps at es i w \<Longrightarrow> \<exists>w'. wrapper_SeekToLast I w = Some w' \<and> wraps at es (length es - 1) w'"
  by (rule move_wraps, assumption) (rule SeekToLast)

end

end
