(* ===== verification/Ldb_Options.thy ===== *)
theory Ldb_Options
  imports Ldb_DbFormat Ldb_Iterator
begin

text \<open>
  Options (\<open>include/leveldb/options.h\<close>, \<open>util/options.cc\<close>) and filter policies
  (\<open>include/leveldb/filter_policy.h\<close>), as far as the tables use them: \<open>env\<close>, \<open>info_log\<close> and
  \<open>block_cache\<close> are pointers to objects that are passed on and stay out of the record.
\<close>

text \<open>\<open>CreateFilter\<close> appends to its destination; \<open>KeyMayMatch\<close> gets the key and the filter.\<close>

record FilterPolicy =
  fp_Name :: "byte list"
  CreateFilter :: "slice list \<Rightarrow> byte list \<Rightarrow> byte list option"
  KeyMayMatch :: "slice \<Rightarrow> slice \<Rightarrow> bool option"

text \<open>What a policy promises: it only appends, and a key that was put in is found.\<close>

locale filter_policy =
  fixes P :: FilterPolicy and summarizes :: "slice list \<Rightarrow> bool"
  assumes appends: "summarizes ks \<Longrightarrow> \<exists>f. \<forall>dst. CreateFilter P ks dst = Some (dst @ f)"
    and finds: "summarizes ks \<Longrightarrow> k \<in> set ks \<Longrightarrow> CreateFilter P ks [] = Some f \<Longrightarrow> KeyMayMatch P k f = Some True"
begin

lemma filter_of:
  assumes "summarizes ks"
  obtains f where "\<And>dst. CreateFilter P ks dst = Some (dst @ f)" "\<And>k. k \<in> set ks \<Longrightarrow> KeyMayMatch P k f = Some True"
  using appends [OF assms] finds [OF assms] by fastforce

end

datatype CompressionType = kNoCompression | kSnappyCompression

fun compression_byte :: "CompressionType \<Rightarrow> byte" where
  "compression_byte kNoCompression = 0"
| "compression_byte kSnappyCompression = 1"

record Options =
  o_comparator :: Comparator
  create_if_missing :: bool
  error_if_exists :: bool
  paranoid_checks :: bool
  write_buffer_size :: nat
  max_open_files :: int
  block_size :: nat
  block_restart_interval :: int
  max_file_size :: nat
  compression :: CompressionType
  reuse_logs :: bool
  o_filter_policy :: "FilterPolicy option"

definition Options_new :: Options where
  "Options_new =
     \<lparr>o_comparator = BytewiseComparator, create_if_missing = False, error_if_exists = False,
      paranoid_checks = False, write_buffer_size = 4194304, max_open_files = 1000, block_size = 4096,
      block_restart_interval = 16, max_file_size = 2097152, compression = kSnappyCompression,
      reuse_logs = False, o_filter_policy = None\<rparr>"

text \<open>A snapshot is its sequence number.\<close>

record ReadOptions =
  verify_checksums :: bool
  fill_cache :: bool
  ro_snapshot :: "SequenceNumber option"

definition ReadOptions_new :: ReadOptions where
  "ReadOptions_new = \<lparr>verify_checksums = False, fill_cache = True, ro_snapshot = None\<rparr>"

record WriteOptions =
  wo_sync :: bool

definition WriteOptions_new :: WriteOptions where
  "WriteOptions_new = \<lparr>wo_sync = False\<rparr>"

text \<open>
  The hash function (\<open>util/hash.cc\<close>), the bloom filter (\<open>util/bloom.cc\<close>), the policy that passes user
  keys to another one (\<open>db/dbformat.cc\<close>) and the filter block of a table (\<open>table/filter_block.{h,cc}\<close>).
\<close>

section \<open>Hashing\<close>

text \<open>The product of the length and \<open>m\<close> is taken in 64 bits and cut to 32.\<close>

definition hash_m :: u32 where
  "hash_m = 0xc6a4a793"

function Hash_loop :: "u32 \<Rightarrow> byte list \<Rightarrow> u32 \<times> byte list" where
  "Hash_loop h data =
     (case DecodeFixed32 True data of
        None \<Rightarrow> (h, data)
      | Some w \<Rightarrow> let h = (h + w) * hash_m in Hash_loop (h XOR drop_bit 16 h) (drop 4 data))"
  by pat_completeness auto
termination
  by (relation "measure (\<lambda>(_, data). length data)") (auto simp: DecodeFixed32_def split: if_splits)

declare Hash_loop.simps [simp del]

definition hash_final :: "u32 \<Rightarrow> u32" where
  "hash_final h = (let h = h * hash_m in h XOR drop_bit 24 h)"

fun hash_tail :: "u32 \<Rightarrow> byte list \<Rightarrow> u32" where
  "hash_tail h [a] = hash_final (h + ucast a)"
| "hash_tail h [a, b] = hash_final (h + push_bit 8 (ucast b) + ucast a)"
| "hash_tail h [a, b, c] = hash_final (h + push_bit 16 (ucast c) + push_bit 8 (ucast b) + ucast a)"
| "hash_tail h _ = h"

definition Hash :: "byte list \<Rightarrow> u32 \<Rightarrow> u32" where
  "Hash data seed =
     (case Hash_loop (ucast (ucast seed XOR (of_nat (length data) * ucast hash_m :: u64))) data of
        (h, rest) \<Rightarrow> hash_tail h rest)"

definition BloomHash :: "slice \<Rightarrow> u32" where
  "BloomHash k = Hash k 0xbc9f1d34"

section \<open>Bloom filters\<close>

text \<open>
  The policy is its \<open>bits_per_key_\<close>, not negative. \<open>bits_per_key * 0.69\<close> is rounded down and kept
  between 1 and 30; in that range no multiple of 0.69 but 0 is close enough to an integer for the
  rounding of \<open>double\<close> to matter.
\<close>

definition bloom_k :: "nat \<Rightarrow> nat" where
  "bloom_k bits_per_key =
     (let k = bits_per_key * 69 div 100; k = (if k < 1 then 1 else k) in if 30 < k then 30 else k)"

definition bloom_delta :: "u32 \<Rightarrow> u32" where
  "bloom_delta h = drop_bit 17 h OR push_bit 15 h"

text \<open>The loop over the probes of a key, setting a bit each or testing it.\<close>

fun set_probes :: "nat \<Rightarrow> nat \<Rightarrow> u32 \<Rightarrow> u32 \<Rightarrow> byte list \<Rightarrow> byte list" where
  "set_probes bits 0 h delta arr = arr"
| "set_probes bits (Suc j) h delta arr =
     (let bitpos = unat h mod bits in
      set_probes bits j (h + delta) delta
        (arr[bitpos div 8 := arr ! (bitpos div 8) OR push_bit (bitpos mod 8) 1]))"

fun test_probes :: "nat \<Rightarrow> nat \<Rightarrow> u32 \<Rightarrow> u32 \<Rightarrow> byte list \<Rightarrow> bool" where
  "test_probes bits 0 h delta arr \<longleftrightarrow> True"
| "test_probes bits (Suc j) h delta arr \<longleftrightarrow>
     (let bitpos = unat h mod bits in
      if arr ! (bitpos div 8) AND push_bit (bitpos mod 8) 1 = 0 then False
      else test_probes bits j (h + delta) delta arr)"

definition bloom_bytes :: "nat \<Rightarrow> nat \<Rightarrow> nat" where
  "bloom_bytes bits_per_key n =
     (let bits = n * bits_per_key; bits = (if bits < 64 then 64 else bits) in (bits + 7) div 8)"

definition bloom_add :: "nat \<Rightarrow> nat \<Rightarrow> slice \<Rightarrow> byte list \<Rightarrow> byte list" where
  "bloom_add bits k x arr = (let h = BloomHash x in set_probes bits k h (bloom_delta h) arr)"

definition bloom_CreateFilter :: "nat \<Rightarrow> slice list \<Rightarrow> byte list \<Rightarrow> byte list" where
  "bloom_CreateFilter bits_per_key ks dst =
     (let bytes = bloom_bytes bits_per_key (length ks); bits = bytes * 8; k = bloom_k bits_per_key in
      dst @ fold (bloom_add bits k) ks (replicate bytes 0) @ [of_nat k])"

definition bloom_KeyMayMatch :: "slice \<Rightarrow> slice \<Rightarrow> bool" where
  "bloom_KeyMayMatch x bloom_filter =
     (let len = length bloom_filter in
      if len < 2 then False
      else
        let bits = (len - 1) * 8; k = unat (bloom_filter ! (len - 1)) in
        if 30 < k then True
        else let h = BloomHash x in test_probes bits k h (bloom_delta h) bloom_filter)"

definition BloomFilterPolicy :: "nat \<Rightarrow> FilterPolicy" where
  "BloomFilterPolicy bits_per_key =
     \<lparr>fp_Name = bytes_of ''leveldb.BuiltinBloomFilter2'',
      CreateFilter = (\<lambda>ks dst. Some (bloom_CreateFilter bits_per_key ks dst)),
      KeyMayMatch = (\<lambda>k f. Some (bloom_KeyMayMatch k f))\<rparr>"

text \<open>\<open>InternalFilterPolicy\<close> strips the sequence numbers; \<open>ExtractUserKey\<close> asserts that they are there.\<close>

definition user_keys :: "slice list \<Rightarrow> slice list option" where
  "user_keys ks = (if list_all (\<lambda>k. 8 \<le> length k) ks then Some (map ExtractUserKey ks) else None)"

definition InternalFilterPolicy :: "FilterPolicy \<Rightarrow> FilterPolicy" where
  "InternalFilterPolicy P =
     \<lparr>fp_Name = fp_Name P,
      CreateFilter = (\<lambda>ks dst. Option.bind (user_keys ks) (\<lambda>ks. CreateFilter P ks dst)),
      KeyMayMatch = (\<lambda>k f. if 8 \<le> length k then KeyMayMatch P (ExtractUserKey k) f else None)\<rparr>"

section \<open>Bits stay set\<close>

definition bit_at :: "byte list \<Rightarrow> nat \<Rightarrow> bool" where
  "bit_at arr pos \<longleftrightarrow> arr ! (pos div 8) AND push_bit (pos mod 8) 1 \<noteq> 0"

lemma bit_one_byte: "bit (push_bit n 1 :: byte) m \<longleftrightarrow> m = n \<and> n < 8"
  by (auto simp: bit_push_bit_iff bit_1_iff simp del: push_bit_of_1)

lemma bit_at_iff: "bit_at arr pos \<longleftrightarrow> bit (arr ! (pos div 8)) (pos mod 8)"
proof -
  have "w AND push_bit m 1 \<noteq> 0 \<longleftrightarrow> bit w m" if "m < 8" for w :: byte and m
    using that unfolding bit_eq_iff [where 'a = "8 word"] bit_and_iff bit_one_byte by auto
  then show ?thesis unfolding bit_at_def by simp
qed

lemma bit_at_update:
  assumes "pos div 8 < length arr"
  shows "bit_at (arr[pos div 8 := arr ! (pos div 8) OR push_bit (pos mod 8) 1]) q \<longleftrightarrow> bit_at arr q \<or>
    q div 8 = pos div 8 \<and> q mod 8 = pos mod 8"
  unfolding bit_at_iff using assms by (cases "q div 8 = pos div 8") (auto simp: bit_or_iff bit_one_byte simp del: push_bit_of_1)

lemma set_probes_length [simp]: "length (set_probes bits j h delta arr) = length arr"
  by (induction bits j h delta arr rule: set_probes.induct) (simp_all add: Let_def)

lemma set_probes_keeps:
  "0 < bits \<Longrightarrow> bits \<le> length arr * 8 \<Longrightarrow> bit_at arr q \<Longrightarrow> bit_at (set_probes bits j h delta arr) q"
proof (induction bits j h delta arr rule: set_probes.induct)
  case (2 bits j h delta arr)
  have "unat h mod bits < bits" using 2(2) by simp
  then have "unat h mod bits div 8 < length arr" using 2(3) by (simp add: div_less_iff_less_mult)
  from bit_at_update [OF this] 2 show ?case by (simp add: Let_def)
qed simp

lemma test_probes_mono:
  "test_probes bits j h delta arr \<Longrightarrow> (\<And>q. q < bits \<Longrightarrow> bit_at arr q \<Longrightarrow> bit_at arr' q) \<Longrightarrow> 0 < bits \<Longrightarrow>
    test_probes bits j h delta arr'"
  by (induction bits j h delta arr rule: test_probes.induct) (auto simp: Let_def bit_at_def split: if_splits)

lemma test_set_probes:
  "0 < bits \<Longrightarrow> bits \<le> length arr * 8 \<Longrightarrow> test_probes bits j h delta (set_probes bits j h delta arr)"
proof (induction bits j h delta arr rule: set_probes.induct)
  case (2 bits j h delta arr)
  let ?pos = "unat h mod bits"
  let ?arr = "arr[?pos div 8 := arr ! (?pos div 8) OR push_bit (?pos mod 8) 1]"
  have "?pos < bits" using 2(2) by simp
  then have "?pos div 8 < length arr" using 2(3) by (simp add: div_less_iff_less_mult)
  from bit_at_update [OF this] have "bit_at ?arr ?pos" by simp
  with 2(2,3) have "bit_at (set_probes bits j (h + delta) delta ?arr) ?pos" by (intro set_probes_keeps) simp_all
  with 2 show ?case by (simp add: Let_def bit_at_def)
qed simp

lemma bloom_add_length [simp]: "length (bloom_add bits k x arr) = length arr"
  by (simp add: bloom_add_def Let_def)

lemma fold_bloom_add_length [simp]: "length (fold (bloom_add bits k) xs arr) = length arr"
  by (induction xs arbitrary: arr) simp_all

lemma fold_bloom_add_keeps:
  "0 < bits \<Longrightarrow> bits \<le> length arr * 8 \<Longrightarrow> bit_at arr q \<Longrightarrow> bit_at (fold (bloom_add bits k) xs arr) q"
  by (induction xs arbitrary: arr) (simp_all add: bloom_add_def Let_def set_probes_keeps)

lemma fold_bloom_add_finds:
  assumes "x \<in> set xs" and "0 < bits" and "bits \<le> length arr * 8"
  shows "test_probes bits k (BloomHash x) (bloom_delta (BloomHash x)) (fold (bloom_add bits k) xs arr)"
  using assms(1,3)
proof (induction xs arbitrary: arr)
  case (Cons y ys)
  show ?case
  proof (cases "x = y")
    case True
    have "test_probes bits k (BloomHash x) (bloom_delta (BloomHash x)) (bloom_add bits k x arr)"
      using assms(2) Cons.prems(2) by (simp add: bloom_add_def Let_def test_set_probes)
    moreover have "bit_at (fold (bloom_add bits k) ys (bloom_add bits k x arr)) q"
      if "bit_at (bloom_add bits k x arr) q" for q
      using that assms(2) Cons.prems(2) by (intro fold_bloom_add_keeps) simp_all
    ultimately show ?thesis using True assms(2) by (simp add: test_probes_mono)
  next
    case False
    with Cons show ?thesis by simp
  qed
qed simp

lemma bloom_k_bounds: "1 \<le> bloom_k n" "bloom_k n \<le> 30"
  by (simp_all add: bloom_k_def Let_def)

lemma bloom_finds:
  assumes "x \<in> set ks"
  shows "bloom_KeyMayMatch x (bloom_CreateFilter bits_per_key ks [])"
proof -
  let ?bytes = "bloom_bytes bits_per_key (length ks)" and ?k = "bloom_k bits_per_key"
  let ?arr = "fold (bloom_add (?bytes * 8) ?k) ks (replicate ?bytes 0)"
  have "0 < ((if x < 64 then 64 else x) + 7) div 8" for x :: nat by auto
  then have b: "0 < ?bytes" by (simp only: bloom_bytes_def Let_def)
  have k: "unat (of_nat ?k :: byte) = ?k" "?k \<le> 30"
    using bloom_k_bounds [of bits_per_key] by (simp_all add: unsigned_of_nat take_bit_nat_eq_self)
  have t: "test_probes (?bytes * 8) ?k (BloomHash x) (bloom_delta (BloomHash x)) ?arr"
    using assms b by (intro fold_bloom_add_finds) simp_all
  have "bit_at (?arr @ [of_nat ?k]) q" if "q < ?bytes * 8" "bit_at ?arr q" for q
    using that by (simp add: bit_at_def nth_append div_less_iff_less_mult)
  from test_probes_mono [OF t this] b
  have "test_probes (?bytes * 8) ?k (BloomHash x) (bloom_delta (BloomHash x)) (?arr @ [of_nat ?k])" by simp
  moreover have "bloom_CreateFilter bits_per_key ks [] = ?arr @ [of_nat ?k]" by (simp add: bloom_CreateFilter_def Let_def)
  ultimately show ?thesis
    using k b by (simp add: bloom_KeyMayMatch_def Let_def nth_append)
qed

interpretation bloom: filter_policy "BloomFilterPolicy bits_per_key" "\<lambda>_. True" for bits_per_key
  by unfold_locales (auto simp: BloomFilterPolicy_def bloom_CreateFilter_def Let_def intro: bloom_finds [unfolded bloom_CreateFilter_def Let_def append_Nil])

text \<open>The policy on internal keys keeps the promise for keys that have their sequence numbers.\<close>

lemma user_keys_Some [simp]: "list_all (\<lambda>k. 8 \<le> length k) ks \<Longrightarrow> user_keys ks = Some (map ExtractUserKey ks)"
  by (simp add: user_keys_def)

context filter_policy
begin

lemma internal_policy:
  "filter_policy (InternalFilterPolicy P) (\<lambda>ks. list_all (\<lambda>k. 8 \<le> length k) ks \<and> summarizes (map ExtractUserKey ks))"
proof unfold_locales
  fix ks
  assume "list_all (\<lambda>k. 8 \<le> length k) ks \<and> summarizes (map ExtractUserKey ks)"
  with appends [of "map ExtractUserKey ks"]
  show "\<exists>f. \<forall>dst. CreateFilter (InternalFilterPolicy P) ks dst = Some (dst @ f)"
    by (simp add: InternalFilterPolicy_def)
next
  fix ks k f
  assume ks: "list_all (\<lambda>k. 8 \<le> length k) ks \<and> summarizes (map ExtractUserKey ks)" and k: "k \<in> set ks"
    and f: "CreateFilter (InternalFilterPolicy P) ks [] = Some f"
  from ks k have "8 \<le> length k" by (simp add: list_all_iff)
  with ks k f finds [of "map ExtractUserKey ks" "ExtractUserKey k" f]
  show "KeyMayMatch (InternalFilterPolicy P) k f = Some True" by (simp add: InternalFilterPolicy_def)
qed

end

interpretation internal_bloom: filter_policy "InternalFilterPolicy (BloomFilterPolicy bits_per_key)"
    "\<lambda>ks. list_all (\<lambda>k. 8 \<le> length k) ks \<and> True" for bits_per_key
  by (rule bloom.internal_policy)

end
