(* ===== verification/Ldb_Format.thy ===== *)
theory Ldb_Format
  imports Ldb_Options Ldb_Crc32c Ldb_Files
begin

text \<open>
  The format of table files, \<open>table/format.{h,cc}\<close>: block handles, the footer, and reading a block with
  its checksum; and the compression functions of \<open>port/port_posix.h\<close>, built without \<open>SNAPPY\<close> as the app
  builds them. \<open>addr\<close> gives the address of a buffer, on which the steps of the checksum depend.
\<close>

section \<open>Compression\<close>

definition Snappy_Compress :: "slice \<Rightarrow> byte list option" where
  "Snappy_Compress input = None"

definition Snappy_GetUncompressedLength :: "slice \<Rightarrow> nat option" where
  "Snappy_GetUncompressedLength input = None"

definition Snappy_Uncompress :: "slice \<Rightarrow> byte list option" where
  "Snappy_Uncompress input = None"

section \<open>Block handles\<close>

record BlockHandle =
  bh_offset :: u64
  bh_size :: u64

definition BlockHandle_new :: BlockHandle where
  "BlockHandle_new = \<lparr>bh_offset = NOT 0, bh_size = NOT 0\<rparr>"

definition kMaxEncodedLength :: nat where
  "kMaxEncodedLength = 10 + 10"

definition BlockHandle_EncodeTo :: "byte list \<Rightarrow> BlockHandle \<Rightarrow> byte list option" where
  "BlockHandle_EncodeTo dst h =
     (if bh_offset h \<noteq> NOT 0 \<and> bh_size h \<noteq> NOT 0
      then Some (PutVarint64 (PutVarint64 dst (bh_offset h)) (bh_size h)) else None)"

text \<open>The status, the handle with what was read, and the rest of the input.\<close>

definition BlockHandle_DecodeFrom :: "slice \<Rightarrow> BlockHandle \<Rightarrow> status \<times> BlockHandle \<times> slice" where
  "BlockHandle_DecodeFrom input h =
     (case GetVarint64 input of
        None \<Rightarrow> (Corruption (bytes_of ''bad block handle'') [], h, input)
      | Some (off, input) \<Rightarrow>
          (case GetVarint64 input of
             None \<Rightarrow> (Corruption (bytes_of ''bad block handle'') [], h\<lparr>bh_offset := off\<rparr>, input)
           | Some (sz, input) \<Rightarrow> (Status_OK, h\<lparr>bh_offset := off, bh_size := sz\<rparr>, input)))"

section \<open>The footer\<close>

record Footer =
  metaindex_handle :: BlockHandle
  index_handle :: BlockHandle

definition Footer_new :: Footer where
  "Footer_new = \<lparr>metaindex_handle = BlockHandle_new, index_handle = BlockHandle_new\<rparr>"

definition kEncodedLength :: nat where
  "kEncodedLength = 2 * kMaxEncodedLength + 8"

definition kTableMagicNumber :: u64 where
  "kTableMagicNumber = 0xdb4775248b80fb57"

definition kBlockTrailerSize :: nat where
  "kBlockTrailerSize = 5"

text \<open>\<open>resize\<close> cuts a string or fills it up with zeros.\<close>

definition string_resize :: "nat \<Rightarrow> byte list \<Rightarrow> byte list" where
  "string_resize n s = take n s @ replicate (n - length s) 0"

definition Footer_EncodeTo :: "byte list \<Rightarrow> Footer \<Rightarrow> byte list option" where
  "Footer_EncodeTo dst f =
     Option.bind (BlockHandle_EncodeTo dst (metaindex_handle f)) (\<lambda>s.
     Option.bind (BlockHandle_EncodeTo s (index_handle f)) (\<lambda>s.
       let s = string_resize (2 * kMaxEncodedLength) s;
           s = PutFixed32 True s (ucast (kTableMagicNumber AND 0xffffffff));
           s = PutFixed32 True s (ucast (drop_bit 32 kTableMagicNumber)) in
       if length s = length dst + kEncodedLength then Some s else None))"

definition Footer_DecodeFrom :: "slice \<Rightarrow> Footer \<Rightarrow> (status \<times> Footer \<times> slice) option" where
  "Footer_DecodeFrom input f =
     Option.bind (DecodeFixed32 True (drop (kEncodedLength - 8) input)) (\<lambda>magic_lo.
     Option.bind (DecodeFixed32 True (drop (kEncodedLength - 8 + 4) input)) (\<lambda>magic_hi.
       let magic = push_bit 32 (ucast magic_hi) OR ucast magic_lo in
       if magic \<noteq> kTableMagicNumber
       then Some (Corruption (bytes_of ''not an sstable (bad magic number)'') [], f, input)
       else
         (case BlockHandle_DecodeFrom input (metaindex_handle f) of (result, h, rest) \<Rightarrow>
            let f = f\<lparr>metaindex_handle := h\<rparr> in
            if \<not> status_ok result then Some (result, f, rest)
            else
              (case BlockHandle_DecodeFrom rest (index_handle f) of (result, h, rest) \<Rightarrow>
                 let f = f\<lparr>index_handle := h\<rparr> in
                 if \<not> status_ok result then Some (result, f, rest)
                 else Some (result, f, drop kEncodedLength input)))))"

section \<open>Reading a block\<close>

record BlockContents =
  bc_data :: slice
  cachable :: bool
  heap_allocated :: bool

text \<open>
  \<open>in_buffer\<close>: the file put the bytes into the buffer it was given, as \<open>pread\<close> does, instead of pointing
  to memory of its own. The number of bytes to read is a sum of 64 bits; when it wraps around, the
  type is read outside of what was read.
\<close>

definition ReadBlock ::
  "(byte list \<Rightarrow> nat) \<Rightarrow> bool \<Rightarrow> 'f RandomAccessFile \<Rightarrow> 'f \<Rightarrow> ReadOptions \<Rightarrow> BlockHandle \<Rightarrow>
    (status \<times> BlockContents) option" where
  "ReadBlock addr in_buffer F f options handle =
     (let result = \<lparr>bc_data = [], cachable = False, heap_allocated = False\<rparr>;
          n = bh_size handle; total = n + of_nat kBlockTrailerSize in
      case ra_Read F f (bh_offset handle) (unat total) of (s, contents) \<Rightarrow>
        if \<not> status_ok s then Some (s, result)
        else if length contents \<noteq> unat total then Some (Corruption (bytes_of ''truncated block read'') [], result)
        else
          Option.bind
            (if verify_checksums options then
               Option.bind (DecodeFixed32 True (drop (unat n + 1) contents)) (\<lambda>crc.
               map_option (\<lambda>actual. actual = Unmask crc)
                 (crc32c_Value True (addr contents) (take (unat n + 1) contents)))
             else Some True)
            (\<lambda>valid.
               if \<not> valid then Some (Corruption (bytes_of ''block checksum mismatch'') [], result)
               else if length contents \<le> unat n then None
               else if contents ! unat n = compression_byte kNoCompression then
                 Some (Status_OK, \<lparr>bc_data = take (unat n) contents, cachable = in_buffer, heap_allocated = in_buffer\<rparr>)
               else if contents ! unat n = compression_byte kSnappyCompression then
                 (case Snappy_GetUncompressedLength (take (unat n) contents) of
                    None \<Rightarrow> Some (Corruption (bytes_of ''corrupted compressed block contents'') [], result)
                  | Some ulength \<Rightarrow>
                      (case Snappy_Uncompress (take (unat n) contents) of
                         None \<Rightarrow> Some (Corruption (bytes_of ''corrupted compressed block contents'') [], result)
                       | Some ubuf \<Rightarrow> Some (Status_OK, \<lparr>bc_data = ubuf, cachable = True, heap_allocated = True\<rparr>)))
               else Some (Corruption (bytes_of ''bad block type'') [], result)))"

section \<open>Files that can be read anywhere\<close>

text \<open>A file whose reads succeed delivers the bytes at the offset, fewer only at its end.\<close>

locale random_access_file =
  fixes F :: "'f RandomAccessFile" and holds :: "'f \<Rightarrow> byte list \<Rightarrow> bool"
  assumes Read: "holds f bytes \<Longrightarrow> unat off + n \<le> length bytes \<Longrightarrow> length bytes < 2 ^ 64 \<Longrightarrow>
    ra_Read F f off n = (Status_OK, take n (drop (unat off) bytes))"
begin

lemma Read_middle:
  assumes "holds f (pre @ mid @ post)" and "length (pre @ mid @ post) < 2 ^ 64"
  shows "ra_Read F f (of_nat (length pre)) (length mid) = (Status_OK, mid)"
proof -
  have "unat (of_nat (length pre) :: u64) = length pre"
    using assms(2) by (simp add: unsigned_of_nat take_bit_nat_eq_self)
  with Read [OF assms(1), of "of_nat (length pre)" "length mid"] assms(2) show ?thesis by simp
qed

end

definition posix_random_access_file :: "PosixRandomAccessFile RandomAccessFile" where
  "posix_random_access_file = \<lparr>ra_Read = PosixRandomAccessFile_Read\<rparr>"

definition posix_mmap_file :: "PosixMmapReadableFile RandomAccessFile" where
  "posix_mmap_file = \<lparr>ra_Read = PosixMmapReadableFile_Read\<rparr>"

interpretation posix_pread: random_access_file posix_random_access_file
    "\<lambda>f bytes. pr_error f = None \<and> pr_data f = bytes"
  by unfold_locales (auto simp: posix_random_access_file_def PosixRandomAccessFile_Read_def)

interpretation posix_mmap: random_access_file posix_mmap_file "\<lambda>f bytes. mm_region f = bytes"
proof unfold_locales
  fix f :: PosixMmapReadableFile and bytes and off :: u64 and n
  assume f: "mm_region f = bytes" and le: "unat off + n \<le> length bytes" and len: "length bytes < 2 ^ 64"
  have small: "unat (of_nat m :: u64) = m" if "m < 2 ^ 64" for m
    using that by (simp add: unsigned_of_nat take_bit_nat_eq_self)
  have "off + of_nat n = of_nat (unat off + n)" by simp
  then have "unat (off + of_nat n) = unat off + n"
    using le len small [of "unat off + n"] by (simp del: of_nat_add)
  moreover have "unat (of_nat (length bytes) :: u64) = length bytes"
    using len by (simp add: unsigned_of_nat take_bit_nat_eq_self)
  ultimately have "\<not> off + of_nat n > of_nat (length bytes)"
    using le by (simp add: word_less_nat_alt)
  with f show "ra_Read posix_mmap_file f off n = (Status_OK, take n (drop (unat off) bytes))"
    by (simp add: posix_mmap_file_def PosixMmapReadableFile_Read_def)
qed

section \<open>Round trips\<close>

definition handle_bytes :: "BlockHandle \<Rightarrow> byte list" where
  "handle_bytes h = EncodeVarint64 (bh_offset h) @ EncodeVarint64 (bh_size h)"

definition handle_set :: "BlockHandle \<Rightarrow> bool" where
  "handle_set h \<longleftrightarrow> bh_offset h \<noteq> NOT 0 \<and> bh_size h \<noteq> NOT 0"

lemma BlockHandle_EncodeTo_set: "handle_set h \<Longrightarrow> BlockHandle_EncodeTo dst h = Some (dst @ handle_bytes h)"
  by (simp add: BlockHandle_EncodeTo_def handle_set_def handle_bytes_def PutVarint64_def)

lemma BlockHandle_Decode: "BlockHandle_DecodeFrom (handle_bytes h @ rest) h' = (Status_OK, h, rest)"
  by (simp add: BlockHandle_DecodeFrom_def handle_bytes_def GetVarint64_def varint64.dec_enc)

lemma handle_bytes_length: "length (handle_bytes h) \<le> kMaxEncodedLength"
  using length_varint_bytes_64 [of "bh_offset h"] length_varint_bytes_64 [of "bh_size h"]
  by (simp add: handle_bytes_def kMaxEncodedLength_def EncodeVarint64_bytes)

definition footer_bytes :: "Footer \<Rightarrow> byte list" where
  "footer_bytes f = string_resize 40 (handle_bytes (metaindex_handle f) @ handle_bytes (index_handle f)) @
     Fixed32 0x8b80fb57 @ Fixed32 0xdb477524"

lemma footer_bytes_length [simp]: "length (footer_bytes f) = 48"
  using handle_bytes_length [of "metaindex_handle f"] handle_bytes_length [of "index_handle f"]
  by (simp add: footer_bytes_def string_resize_def kMaxEncodedLength_def)

lemma Footer_EncodeTo_set:
  assumes "handle_set (metaindex_handle f)" and "handle_set (index_handle f)"
  shows "Footer_EncodeTo [] f = Some (footer_bytes f)"
proof -
  have "(ucast (kTableMagicNumber AND 0xffffffff) :: u32) = 0x8b80fb57" "(ucast (drop_bit 32 kTableMagicNumber) :: u32) = 0xdb477524"
    by (simp_all add: kTableMagicNumber_def)
  moreover have "length (footer_bytes f) = 48" by simp
  ultimately show ?thesis
    using assms by (simp add: Footer_EncodeTo_def BlockHandle_EncodeTo_set kMaxEncodedLength_def kEncodedLength_def
        PutFixed32_def footer_bytes_def Let_def)
qed

lemma Footer_Decode: "Footer_DecodeFrom (footer_bytes f) f' = Some (Status_OK, f, [])"
proof -
  let ?hs = "handle_bytes (metaindex_handle f) @ handle_bytes (index_handle f)"
  have "length ?hs \<le> 40"
    using handle_bytes_length [of "metaindex_handle f"] handle_bytes_length [of "index_handle f"]
    by (simp add: kMaxEncodedLength_def)
  then have pad: "string_resize 40 ?hs = ?hs @ replicate (40 - length ?hs) 0" by (simp add: string_resize_def)
  have len: "length (string_resize 40 ?hs) = 40" using \<open>length ?hs \<le> 40\<close> by (simp add: string_resize_def)
  have lo: "DecodeFixed32 True (drop 40 (footer_bytes f)) = Some 0x8b80fb57"
    unfolding footer_bytes_def using len by (simp add: Decode_Encode_Fixed32)
  have hi: "DecodeFixed32 True (drop 44 (footer_bytes f)) = Some 0xdb477524"
    unfolding footer_bytes_def using len Decode_Encode_Fixed32 [of True "0xdb477524" "[]"] by simp
  have magic: "push_bit 32 (ucast (0xdb477524 :: u32)) OR ucast (0x8b80fb57 :: u32) = kTableMagicNumber"
    by (simp add: kTableMagicNumber_def)
  obtain rest where rest: "footer_bytes f = handle_bytes (metaindex_handle f) @ handle_bytes (index_handle f) @ rest"
    unfolding footer_bytes_def pad by simp
  have "drop 48 (footer_bytes f) = []" by simp
  then show ?thesis
    using lo hi magic rest
    by (simp add: Footer_DecodeFrom_def kEncodedLength_def kMaxEncodedLength_def BlockHandle_Decode Let_def)
qed

text \<open>A block as it is written, with its type and the masked checksum of both.\<close>

definition raw_block :: "slice \<Rightarrow> byte list" where
  "raw_block contents = contents @ [0] @ Fixed32 (Mask (crc32c 0 (contents @ [0])))"

lemma raw_block_length [simp]: "length (raw_block contents) = length contents + 5"
  by (simp add: raw_block_def)

context random_access_file
begin

lemma ReadBlock_raw:
  assumes "holds f (pre @ raw_block contents @ post)" and "length (pre @ raw_block contents @ post) < 2 ^ 64"
  shows "ReadBlock addr in_buffer F f options \<lparr>bh_offset = of_nat (length pre), bh_size = of_nat (length contents)\<rparr> =
    Some (Status_OK, \<lparr>bc_data = contents, cachable = in_buffer, heap_allocated = in_buffer\<rparr>)"
proof -
  have n: "unat (of_nat (length contents) :: u64) = length contents"
    using assms(2) by (simp add: unsigned_of_nat take_bit_nat_eq_self)
  have "(of_nat (length contents) + of_nat kBlockTrailerSize :: u64) = of_nat (length (raw_block contents))"
    by (simp add: kBlockTrailerSize_def)
  then have total: "unat (of_nat (length contents) + of_nat kBlockTrailerSize :: u64) = length (raw_block contents)"
    using assms(2) by (simp only: unsigned_of_nat) (simp add: take_bit_nat_eq_self)
  have at: "raw_block contents ! length contents = 0" "take (length contents + 1) (raw_block contents) = contents @ [0]"
    "drop (length contents + 1) (raw_block contents) = Fixed32 (Mask (crc32c 0 (contents @ [0])))"
    "take (length contents) (raw_block contents) = contents" by (simp_all add: raw_block_def nth_append)
  have crc: "DecodeFixed32 True (Fixed32 w) = Some w" for w using Decode_Encode_Fixed32 [of True w "[]"] by simp
  show ?thesis
    unfolding ReadBlock_def Let_def BlockHandle.simps total Read_middle [OF assms] prod.case n at
    by (simp add: crc crc32c_Value_def Extend_crc32c Unmask_Mask at)
qed

end

end
