(* ===== verification/Ldb_Block.thy ===== *)
theory Ldb_Block
  imports Ldb_Options
begin

text \<open>
  The blocks of a table file: \<open>table/block_builder.{h,cc}\<close> makes them, \<open>table/block.{h,cc}\<close> reads them.
  A pointer into the block is its offset from \<open>data_\<close>. Nothing stands for a failed assertion and for
  reading outside the block.
\<close>

section \<open>Building a block\<close>

record BlockBuilder =
  bb_buffer :: "byte list"
  bb_restarts :: "u32 list"
  bb_counter :: int
  bb_finished :: bool
  bb_last_key :: "byte list"

definition BlockBuilder_Reset :: BlockBuilder where
  "BlockBuilder_Reset = \<lparr>bb_buffer = [], bb_restarts = [0], bb_counter = 0, bb_finished = False, bb_last_key = []\<rparr>"

definition BlockBuilder_new :: "Options \<Rightarrow> BlockBuilder option" where
  "BlockBuilder_new options = (if 1 \<le> block_restart_interval options then Some BlockBuilder_Reset else None)"

definition CurrentSizeEstimate :: "BlockBuilder \<Rightarrow> nat" where
  "CurrentSizeEstimate b = length (bb_buffer b) + length (bb_restarts b) * 4 + 4"

definition BlockBuilder_empty :: "BlockBuilder \<Rightarrow> bool" where
  "BlockBuilder_empty b \<longleftrightarrow> bb_buffer b = []"

definition BlockBuilder_Finish :: "BlockBuilder \<Rightarrow> slice \<times> BlockBuilder" where
  "BlockBuilder_Finish b =
     (let buffer = PutFixed32 True (foldl (PutFixed32 True) (bb_buffer b) (bb_restarts b))
            (of_nat (length (bb_restarts b))) in
      (buffer, b\<lparr>bb_buffer := buffer, bb_finished := True\<rparr>))"

text \<open>
  The three assertions at the start, then the length of the prefix shared with the last key (the
  same loop as in \<open>FindShortestSeparator\<close>) or a new restart point, and the entry. Sizes are passed
  to \<open>PutVarint32\<close> and kept in \<open>restarts_\<close> as 32-bit numbers.
\<close>

definition Add_shared :: "Options \<Rightarrow> slice \<Rightarrow> BlockBuilder \<Rightarrow> nat \<times> BlockBuilder" where
  "Add_shared options k b =
     (if bb_counter b < block_restart_interval options then (diff_index (bb_last_key b) k, b)
      else (0, b\<lparr>bb_restarts := bb_restarts b @ [of_nat (length (bb_buffer b))], bb_counter := 0\<rparr>))"

definition BlockBuilder_Add :: "Options \<Rightarrow> slice \<Rightarrow> slice \<Rightarrow> BlockBuilder \<Rightarrow> BlockBuilder option" where
  "BlockBuilder_Add options k v b =
     (if bb_finished b \<or> block_restart_interval options < bb_counter b \<or>
         bb_buffer b \<noteq> [] \<and> \<not> 0 < Compare (o_comparator options) k (bb_last_key b) then None
      else
        let (shared, b) = Add_shared options k b;
            non_shared = length k - shared;
            buffer = PutVarint32 (PutVarint32 (PutVarint32 (bb_buffer b) (of_nat shared)) (of_nat non_shared))
              (of_nat (length v)) @ take non_shared (drop shared k) @ v;
            last_key = take shared (bb_last_key b) @ take non_shared (drop shared k) in
        if last_key = k
        then Some (b\<lparr>bb_buffer := buffer, bb_last_key := last_key, bb_counter := bb_counter b + 1\<rparr>)
        else None)"

section \<open>Blocks\<close>

text \<open>\<open>restart_offset_\<close> is not set, and not used, when the size is the error marker 0.\<close>

record Block =
  b_data :: "byte list"
  b_size :: nat
  b_restart_offset :: u32

definition Block_NumRestarts :: "Block \<Rightarrow> u32 option" where
  "Block_NumRestarts b = (if 4 \<le> b_size b then DecodeFixed32 True (drop (b_size b - 4) (b_data b)) else None)"

definition Block_new :: "slice \<Rightarrow> Block option" where
  "Block_new contents =
     (let b = \<lparr>b_data = contents, b_size = length contents, b_restart_offset = 0\<rparr> in
      if b_size b < 4 then Some (b\<lparr>b_size := 0\<rparr>)
      else
        map_option (\<lambda>n.
          if (b_size b - 4) div 4 < unat n then b\<lparr>b_size := 0\<rparr>
          else b\<lparr>b_restart_offset := of_nat (b_size b - unat (1 + n) * 4)\<rparr>) (Block_NumRestarts b))"

text \<open>
  The entry at \<open>p\<close>: where its key starts, and the three lengths. The sum of the last two is taken in
  32 bits before it is compared with what is left.
\<close>

definition DecodeEntry :: "byte list \<Rightarrow> nat \<Rightarrow> nat \<Rightarrow> (nat \<times> u32 \<times> u32 \<times> u32) option" where
  "DecodeEntry data p limit =
     (let region = drop p (take limit data) in
      Option.bind
        (case region of
           b0 # b1 # b2 # rest \<Rightarrow>
             (let shared = ucast b0; non_shared = ucast b1; value_length = ucast b2 in
              if shared OR non_shared OR value_length < 128 then Some (rest, shared, non_shared, value_length)
              else
                Option.bind (GetVarint32Ptr region) (\<lambda>(shared, region).
                Option.bind (GetVarint32Ptr region) (\<lambda>(non_shared, region).
                map_option (\<lambda>(value_length, region). (region, shared, non_shared, value_length))
                  (GetVarint32Ptr region))))
         | _ \<Rightarrow> None)
        (\<lambda>(rest, shared, non_shared, value_length).
           if of_nat (length rest) < non_shared + value_length then None
           else Some (limit - length rest, shared, non_shared, value_length)))"

section \<open>The iterator of a block\<close>

text \<open>\<open>value_\<close> is an offset into the block with a length, or the empty slice, which points elsewhere.\<close>

record BlockIter =
  bi_data :: "byte list"
  bi_restarts :: u32
  bi_num_restarts :: u32
  bi_current :: u32
  bi_restart_index :: u32
  bi_key :: "byte list"
  bi_value :: "(nat \<times> nat) option"
  bi_status :: status

definition BlockIter_new :: "byte list \<Rightarrow> u32 \<Rightarrow> u32 \<Rightarrow> BlockIter option" where
  "BlockIter_new data restarts num_restarts =
     (if 0 < num_restarts
      then Some \<lparr>bi_data = data, bi_restarts = restarts, bi_num_restarts = num_restarts, bi_current = restarts,
        bi_restart_index = num_restarts, bi_key = [], bi_value = None, bi_status = Status_OK\<rparr>
      else None)"

definition BlockIter_Valid :: "BlockIter \<Rightarrow> bool" where
  "BlockIter_Valid it \<longleftrightarrow> bi_current it < bi_restarts it"

definition BlockIter_key :: "BlockIter \<Rightarrow> slice option" where
  "BlockIter_key it = (if BlockIter_Valid it then Some (bi_key it) else None)"

definition BlockIter_value :: "BlockIter \<Rightarrow> slice option" where
  "BlockIter_value it =
     (if BlockIter_Valid it
      then case bi_value it of
          None \<Rightarrow> Some []
        | Some (off, len) \<Rightarrow> if off + len \<le> length (bi_data it) then Some (take len (drop off (bi_data it))) else None
      else None)"

definition NextEntryOffset :: "BlockIter \<Rightarrow> u32 option" where
  "NextEntryOffset it = map_option (\<lambda>(off, len). of_nat (off + len)) (bi_value it)"

definition GetRestartPoint :: "u32 \<Rightarrow> BlockIter \<Rightarrow> u32 option" where
  "GetRestartPoint index it =
     (if index < bi_num_restarts it
      then DecodeFixed32 True (drop (unat (bi_restarts it) + unat index * 4) (bi_data it)) else None)"

definition SeekToRestartPoint :: "u32 \<Rightarrow> BlockIter \<Rightarrow> BlockIter option" where
  "SeekToRestartPoint index it =
     map_option (\<lambda>offset. it\<lparr>bi_key := [], bi_restart_index := index, bi_value := Some (unat offset, 0)\<rparr>)
       (GetRestartPoint index it)"

definition CorruptionError :: "BlockIter \<Rightarrow> BlockIter" where
  "CorruptionError it =
     it\<lparr>bi_current := bi_restarts it, bi_restart_index := bi_num_restarts it,
        bi_status := Corruption (bytes_of ''bad entry in block'') [], bi_key := [], bi_value := None\<rparr>"

text \<open>The loop at the end of \<open>ParseNextKey\<close> that moves on to the restart point the entry is behind.\<close>

partial_function (option) restart_index_loop :: "BlockIter \<Rightarrow> BlockIter option" where
  "restart_index_loop it =
     (if bi_restart_index it + 1 < bi_num_restarts it
      then
        Option.bind (GetRestartPoint (bi_restart_index it + 1) it) (\<lambda>point.
          if point < bi_current it then restart_index_loop (it\<lparr>bi_restart_index := bi_restart_index it + 1\<rparr>)
          else Some it)
      else Some it)"

definition ParseNextKey :: "BlockIter \<Rightarrow> (bool \<times> BlockIter) option" where
  "ParseNextKey it =
     Option.bind (NextEntryOffset it) (\<lambda>next.
       let it = it\<lparr>bi_current := next\<rparr> in
       if bi_restarts it \<le> bi_current it
       then Some (False, it\<lparr>bi_current := bi_restarts it, bi_restart_index := bi_num_restarts it\<rparr>)
       else
         (case DecodeEntry (bi_data it) (unat (bi_current it)) (unat (bi_restarts it)) of
            None \<Rightarrow> Some (False, CorruptionError it)
          | Some (p, shared, non_shared, value_length) \<Rightarrow>
              if length (bi_key it) < unat shared then Some (False, CorruptionError it)
              else if length (bi_data it) < p + unat non_shared then None
              else
                map_option (Pair True) (restart_index_loop
                  (it\<lparr>bi_key := take (unat shared) (bi_key it) @ take (unat non_shared) (drop p (bi_data it)),
                      bi_value := Some (p + unat non_shared, unat value_length)\<rparr>))))"

definition BlockIter_Next :: "BlockIter \<Rightarrow> BlockIter option" where
  "BlockIter_Next it = (if BlockIter_Valid it then map_option snd (ParseNextKey it) else None)"

text \<open>Going back: to the restart point before the entry, or to the end when there is none.\<close>

partial_function (option) back_loop :: "u32 \<Rightarrow> BlockIter \<Rightarrow> (bool \<times> BlockIter) option" where
  "back_loop original it =
     Option.bind (GetRestartPoint (bi_restart_index it) it) (\<lambda>point.
       if original \<le> point then
         (if bi_restart_index it = 0
          then Some (False, it\<lparr>bi_current := bi_restarts it, bi_restart_index := bi_num_restarts it\<rparr>)
          else back_loop original (it\<lparr>bi_restart_index := bi_restart_index it - 1\<rparr>))
       else Some (True, it))"

text \<open>\<open>while (ParseNextKey() && NextEntryOffset() < limit);\<close>\<close>

partial_function (option) parse_until :: "u32 \<Rightarrow> BlockIter \<Rightarrow> BlockIter option" where
  "parse_until limit it =
     Option.bind (ParseNextKey it) (\<lambda>(more, it).
       if more then
         Option.bind (NextEntryOffset it) (\<lambda>next. if next < limit then parse_until limit it else Some it)
       else Some it)"

definition BlockIter_Prev :: "BlockIter \<Rightarrow> BlockIter option" where
  "BlockIter_Prev it =
     (if BlockIter_Valid it then
        let original = bi_current it in
        Option.bind (back_loop original it) (\<lambda>(found, it).
          if found then Option.bind (SeekToRestartPoint (bi_restart_index it) it) (parse_until original) else Some it)
      else None)"

text \<open>The binary search in the restart points; Nothing inside the pair is a corrupt entry.\<close>

partial_function (option) restart_search :: "Comparator \<Rightarrow> slice \<Rightarrow> BlockIter \<Rightarrow> u32 \<Rightarrow> u32 \<Rightarrow> u32 option option" where
  "restart_search C target it left right =
     (if left < right then
        let mid = (left + right + 1) div 2 in
        Option.bind (GetRestartPoint mid it) (\<lambda>region_offset.
          case DecodeEntry (bi_data it) (unat region_offset) (unat (bi_restarts it)) of
            None \<Rightarrow> Some None
          | Some (key_ptr, shared, non_shared, value_length) \<Rightarrow>
              if shared \<noteq> 0 then Some None
              else if length (bi_data it) < key_ptr + unat non_shared then None
              else if Compare C (take (unat non_shared) (drop key_ptr (bi_data it))) target < 0
              then restart_search C target it mid right
              else restart_search C target it left (mid - 1))
      else Some (Some left))"

partial_function (option) linear_search :: "Comparator \<Rightarrow> slice \<Rightarrow> BlockIter \<Rightarrow> BlockIter option" where
  "linear_search C target it =
     Option.bind (ParseNextKey it) (\<lambda>(more, it).
       if \<not> more then Some it
       else if 0 \<le> Compare C (bi_key it) target then Some it
       else linear_search C target it)"

definition BlockIter_Seek :: "Comparator \<Rightarrow> slice \<Rightarrow> BlockIter \<Rightarrow> BlockIter option" where
  "BlockIter_Seek C target it =
     Option.bind (restart_search C target it 0 (bi_num_restarts it - 1)) (\<lambda>result.
       case result of
         None \<Rightarrow> Some (CorruptionError it)
       | Some left \<Rightarrow> Option.bind (SeekToRestartPoint left it) (linear_search C target))"

definition BlockIter_SeekToFirst :: "BlockIter \<Rightarrow> BlockIter option" where
  "BlockIter_SeekToFirst it = map_option snd (Option.bind (SeekToRestartPoint 0 it) ParseNextKey)"

definition BlockIter_SeekToLast :: "BlockIter \<Rightarrow> BlockIter option" where
  "BlockIter_SeekToLast it =
     Option.bind (SeekToRestartPoint (bi_num_restarts it - 1) it) (parse_until (bi_restarts it))"

text \<open>What \<open>NewIterator\<close> returns: the iterator of the block, or an empty one.\<close>

datatype block_iter = NoBlock status | InBlock BlockIter

definition in_block :: "(BlockIter \<Rightarrow> BlockIter option) \<Rightarrow> (status \<Rightarrow> status option) \<Rightarrow> block_iter \<Rightarrow> block_iter option" where
  "in_block f e s = (case s of NoBlock st \<Rightarrow> map_option NoBlock (e st) | InBlock it \<Rightarrow> map_option InBlock (f it))"

definition block_iterator :: "Comparator \<Rightarrow> block_iter Iterator" where
  "block_iterator C =
     \<lparr>it_Valid = (\<lambda>s. case s of NoBlock st \<Rightarrow> it_Valid EmptyIterator st | InBlock it \<Rightarrow> BlockIter_Valid it),
      it_SeekToFirst = in_block BlockIter_SeekToFirst (it_SeekToFirst EmptyIterator),
      it_SeekToLast = in_block BlockIter_SeekToLast (it_SeekToLast EmptyIterator),
      it_Seek = (\<lambda>target. in_block (BlockIter_Seek C target) (it_Seek EmptyIterator target)),
      it_Next = in_block BlockIter_Next (it_Next EmptyIterator),
      it_Prev = in_block BlockIter_Prev (it_Prev EmptyIterator),
      it_key = (\<lambda>s. case s of NoBlock st \<Rightarrow> it_key EmptyIterator st | InBlock it \<Rightarrow> BlockIter_key it),
      it_value = (\<lambda>s. case s of NoBlock st \<Rightarrow> it_value EmptyIterator st | InBlock it \<Rightarrow> BlockIter_value it),
      it_status = (\<lambda>s. case s of NoBlock st \<Rightarrow> it_status EmptyIterator st | InBlock it \<Rightarrow> bi_status it)\<rparr>"

definition Block_NewIterator :: "Block \<Rightarrow> block_iter option" where
  "Block_NewIterator b =
     (if b_size b < 4 then Some (NoBlock (NewErrorIterator (Corruption (bytes_of ''bad block contents'') [])))
      else
        Option.bind (Block_NumRestarts b) (\<lambda>num_restarts.
          if num_restarts = 0 then Some (NoBlock NewEmptyIterator)
          else map_option InBlock (BlockIter_new (b_data b) (b_restart_offset b) num_restarts)))"

end
