(* ===== verification/Ldb_Block_Spec.thy ===== *)
theory Ldb_Block_Spec
  imports Ldb_Block
begin

text \<open>
  The layout of a block and its iterator as an \<open>iterator\<close> of the entries: \<open>block_rep\<close> says that the
  bytes up to a limit decode as a list of entries with restart points, and \<open>block_at\<close> that an iterator
  over such a block is at a position in the list.
\<close>

section \<open>Decoding entries\<close>

text \<open>The three lengths read one after the other, which the fast path agrees with.\<close>

definition entry_header :: "byte list \<Rightarrow> (byte list \<times> u32 \<times> u32 \<times> u32) option" where
  "entry_header region =
     Option.bind (GetVarint32Ptr region) (\<lambda>(shared, region).
     Option.bind (GetVarint32Ptr region) (\<lambda>(non_shared, region).
     map_option (\<lambda>(value_length, region). (region, shared, non_shared, value_length)) (GetVarint32Ptr region)))"

lemma or_less: "(a :: u32) OR b < c \<Longrightarrow> a < c \<and> b < c"
  using le_word_or1 [of b a] le_word_or2 [of a b] by (auto intro: order_le_less_trans)

lemma GetVarint32Ptr_byte: "(ucast b :: u32) < 128 \<Longrightarrow> GetVarint32Ptr (b # rest) = Some (ucast b, rest)"
proof -
  assume "(ucast b :: u32) < 128"
  then have "unat b < 128" by (simp add: word_less_nat_alt unat_ucast_up)
  then show ?thesis by (simp add: GetVarint32Ptr_def Let_def ucast_and_128)
qed

lemma DecodeEntry_header:
  assumes "3 \<le> length (drop p (take limit data))"
  shows "DecodeEntry data p limit =
    Option.bind (entry_header (drop p (take limit data))) (\<lambda>(rest, shared, non_shared, value_length).
      if of_nat (length rest) < non_shared + value_length then None
      else Some (limit - length rest, shared, non_shared, value_length))"
proof -
  from assms obtain b0 b1 b2 rest where region: "drop p (take limit data) = b0 # b1 # b2 # rest"
    by (auto simp: numeral_3_eq_3 Suc_le_length_iff simp del: length_drop length_take)
  have "entry_header (b0 # b1 # b2 # rest) = Some (rest, ucast b0, ucast b1, ucast b2)"
    if "(ucast b0 :: u32) OR ucast b1 OR ucast b2 < 128"
  proof -
    have b: "(ucast b0 :: u32) < 128" "(ucast b1 :: u32) < 128" "(ucast b2 :: u32) < 128"
      using or_less [OF that] or_less by blast+
    show ?thesis unfolding entry_header_def by (simp only: GetVarint32Ptr_byte [OF b(1)] GetVarint32Ptr_byte [OF b(2)]
      GetVarint32Ptr_byte [OF b(3)] Option.bind.bind_lunit prod.case option.map)
  qed
  then show ?thesis
    unfolding DecodeEntry_def region Let_def entry_header_def [symmetric] by simp
qed

section \<open>The layout\<close>

definition decodes :: "byte list \<Rightarrow> nat \<Rightarrow> nat \<Rightarrow> byte list \<Rightarrow> entry \<Rightarrow> nat \<Rightarrow> bool" where
  "decodes data lim off prev e off' \<longleftrightarrow> off < off' \<and> off' \<le> lim \<and>
     (\<exists>p shared non_shared value_length.
        DecodeEntry data off lim = Some (p, shared, non_shared, value_length) \<and> unat shared \<le> length prev \<and>
        fst e = take (unat shared) prev @ take (unat non_shared) (drop p data) \<and>
        snd e = take (unat value_length) (drop (p + unat non_shared) data) \<and>
        p + unat non_shared + unat value_length = off')"

lemma decodes_any: "decodes data lim off [] e off' \<Longrightarrow> decodes data lim off prev e off'"
  by (fastforce simp: decodes_def)

text \<open>
  \<open>off i\<close> is where entry \<open>i\<close> starts, \<open>off\<close> of the number of entries is the limit, and \<open>rs\<close> are the
  indices of the entries at the restart points.
\<close>

definition block_rep :: "byte list \<Rightarrow> entry list \<Rightarrow> (nat \<Rightarrow> nat) \<Rightarrow> nat list \<Rightarrow> bool" where
  "block_rep data es off rs \<longleftrightarrow>
     off 0 = 0 \<and> off (length es) < 2 ^ 32 \<and> off (length es) \<le> length data \<and>
     (\<forall>i < length es. decodes data (off (length es)) (off i) (if i = 0 then [] else fst (es ! (i - 1)))
        (es ! i) (off (i + 1))) \<and>
     rs \<noteq> [] \<and> rs ! 0 = 0 \<and> length rs < 2 ^ 31 \<and> (\<forall>r \<in> set rs. r < length es \<or> r = 0) \<and>
     sorted_wrt (<) rs \<and>
     (\<forall>j < length rs. DecodeFixed32 True (drop (off (length es) + j * 4) data) = Some (of_nat (off (rs ! j)))) \<and>
     (\<forall>r \<in> set rs. r < length es \<longrightarrow>
        decodes data (off (length es)) (off r) [] (es ! r) (off (r + 1)))"

lemma block_repD:
  assumes "block_rep data es off rs"
  shows "off 0 = 0" "off (length es) < 2 ^ 32" "off (length es) \<le> length data"
    "i < length es \<Longrightarrow> decodes data (off (length es)) (off i) (if i = 0 then [] else fst (es ! (i - 1)))
        (es ! i) (off (i + 1))"
    "rs \<noteq> []" "rs ! 0 = 0" "length rs < 2 ^ 31" "r \<in> set rs \<Longrightarrow> r < length es \<or> r = 0" "sorted_wrt (<) rs"
    "j < length rs \<Longrightarrow> DecodeFixed32 True (drop (off (length es) + j * 4) data) = Some (of_nat (off (rs ! j)))"
    "r \<in> set rs \<Longrightarrow> r < length es \<Longrightarrow> decodes data (off (length es)) (off r) [] (es ! r) (off (r + 1))"
  using assms unfolding block_rep_def by blast+

lemma off_less:
  assumes "block_rep data es off rs" and "i < j" and "j \<le> length es"
  shows "off i < off j"
  using assms(2,3)
proof (induction j)
  case (Suc j)
  then have "off j < off (j + 1)" using block_repD(4) [OF assms(1), of j] by (simp add: decodes_def)
  with Suc show ?case by (cases "i = j") simp_all
qed simp

lemma off_less_iff:
  "block_rep data es off rs \<Longrightarrow> i \<le> length es \<Longrightarrow> j \<le> length es \<Longrightarrow> off i < off j \<longleftrightarrow> i < j"
  using off_less [of data es off rs i j] off_less [of data es off rs j i] by (cases i j rule: linorder_cases) auto

lemma off_bound:
  assumes "block_rep data es off rs" and "i \<le> length es"
  shows "off i < 2 ^ 32" "unat (of_nat (off i) :: u32) = off i"
proof -
  have "off i \<le> off (length es)"
    using off_less [OF assms(1), of i "length es"] assms(2) by (cases "i = length es") simp_all
  with block_repD(2) [OF assms(1)] show "off i < 2 ^ 32" by simp
  then show "unat (of_nat (off i) :: u32) = off i" by (simp add: unsigned_of_nat take_bit_nat_eq_self)
qed

lemma off_word_less:
  "block_rep data es off rs \<Longrightarrow> i \<le> length es \<Longrightarrow> j \<le> length es \<Longrightarrow>
    (of_nat (off i) :: u32) < of_nat (off j) \<longleftrightarrow> i < j"
  by (simp add: word_less_nat_alt off_bound off_less_iff)

lemma restart_le: "block_rep data es off rs \<Longrightarrow> j < length rs \<Longrightarrow> rs ! j \<le> length es"
  using block_repD(8) [of data es off rs "rs ! j"] by fastforce

lemma restart_mono: "block_rep data es off rs \<Longrightarrow> i < j \<Longrightarrow> j < length rs \<Longrightarrow> rs ! i < rs ! j"
  by (rule sorted_wrt_nth_less [OF block_repD(9)])

section \<open>Iterators over a laid out block\<close>

definition over :: "byte list \<Rightarrow> entry list \<Rightarrow> (nat \<Rightarrow> nat) \<Rightarrow> nat list \<Rightarrow> BlockIter \<Rightarrow> bool" where
  "over data es off rs it \<longleftrightarrow> bi_data it = data \<and> bi_restarts it = of_nat (off (length es)) \<and>
     bi_num_restarts it = of_nat (length rs) \<and> bi_status it = Status_OK"

text \<open>\<open>ParseNextKey\<close> is about to read entry \<open>i\<close>.\<close>

definition ready :: "byte list \<Rightarrow> entry list \<Rightarrow> (nat \<Rightarrow> nat) \<Rightarrow> nat list \<Rightarrow> nat \<Rightarrow> BlockIter \<Rightarrow> bool" where
  "ready data es off rs i it \<longleftrightarrow> over data es off rs it \<and> i \<le> length es \<and>
     NextEntryOffset it = Some (of_nat (off i)) \<and>
     (i < length es \<longrightarrow> decodes data (off (length es)) (off i) (bi_key it) (es ! i) (off (i + 1))) \<and>
     unat (bi_restart_index it) < length rs \<and> rs ! unat (bi_restart_index it) \<le> i"

definition on_entry :: "byte list \<Rightarrow> entry list \<Rightarrow> (nat \<Rightarrow> nat) \<Rightarrow> nat list \<Rightarrow> nat \<Rightarrow> BlockIter \<Rightarrow> bool" where
  "on_entry data es off rs i it \<longleftrightarrow> over data es off rs it \<and> i \<le> length es \<and> bi_current it = of_nat (off i) \<and>
     (i < length es \<longrightarrow> bi_key it = fst (es ! i) \<and>
        (\<exists>p. bi_value it = Some (p, length (snd (es ! i))) \<and> p + length (snd (es ! i)) = off (i + 1) \<and>
           take (length (snd (es ! i))) (drop p data) = snd (es ! i)) \<and>
        unat (bi_restart_index it) < length rs \<and> rs ! unat (bi_restart_index it) \<le> i)"

lemma num_restarts:
  assumes "block_rep data es off rs"
  shows "unat (of_nat (length rs) :: u32) = length rs" "(of_nat (length rs) :: u32) \<noteq> 0"
    "unat (of_nat (length rs) - 1 :: u32) = length rs - 1"
proof -
  have "0 < length rs" "length rs < 2 ^ 32" using block_repD(5,7) [OF assms] by simp_all
  then show n: "unat (of_nat (length rs) :: u32) = length rs"
    by (simp add: unsigned_of_nat take_bit_nat_eq_self)
  with \<open>0 < length rs\<close> show ne: "(of_nat (length rs) :: u32) \<noteq> 0" by (metis less_irrefl unat_0)
  then have "(1 :: u32) \<le> of_nat (length rs)" by (simp add: word_le_nat_alt unat_gt_0 Suc_le_eq)
  then show "unat (of_nat (length rs) - 1 :: u32) = length rs - 1" by (simp add: unat_sub n)
qed

lemma GetRestartPoint_over:
  assumes "block_rep data es off rs" and "over data es off rs it" and "unat j < length rs"
  shows "GetRestartPoint j it = Some (of_nat (off (rs ! unat j)))"
proof -
  have "j < bi_num_restarts it"
    using assms num_restarts(1) [OF assms(1)] by (simp add: over_def word_less_nat_alt)
  with assms block_repD(10) [OF assms(1), of "unat j"] off_bound(2) [OF assms(1), of "length es"] show ?thesis
    by (simp add: GetRestartPoint_def over_def)
qed

section \<open>Moving\<close>

lemma restart_index_loop_over:
  assumes "block_rep data es off rs" and "over data es off rs it" and "bi_current it = of_nat (off i)"
    and "i \<le> length es" and "unat (bi_restart_index it) < length rs" and "rs ! unat (bi_restart_index it) \<le> i"
  shows "\<exists>r. restart_index_loop it = Some (it\<lparr>bi_restart_index := r\<rparr>) \<and> unat r < length rs \<and> rs ! unat r \<le> i"
  using assms(2,3,5,6)
proof (induction "length rs - unat (bi_restart_index it)" arbitrary: it rule: less_induct)
  case less
  let ?r = "bi_restart_index it"
  have suc: "unat (?r + 1) = unat ?r + 1"
    using less.prems(3) block_repD(7) [OF assms(1)] by (simp add: unat_word_ariths)
  show ?case
  proof (cases "unat ?r + 1 < length rs")
    case False
    then have "\<not> ?r + 1 < bi_num_restarts it"
      using less.prems(1) num_restarts(1) [OF assms(1)] by (simp add: over_def word_less_nat_alt suc)
    with less.prems show ?thesis by (intro exI [of _ ?r]) (simp add: restart_index_loop.simps)
  next
    case True
    have more: "?r + 1 < bi_num_restarts it"
      using True less.prems(1) num_restarts(1) [OF assms(1)] by (simp add: over_def word_less_nat_alt suc)
    have point: "GetRestartPoint (?r + 1) it = Some (of_nat (off (rs ! (unat ?r + 1))))"
      using GetRestartPoint_over [OF assms(1) less.prems(1), of "?r + 1"] True by (simp add: suc)
    show ?thesis
    proof (cases "rs ! (unat ?r + 1) < i")
      case before: True
      let ?it = "it\<lparr>bi_restart_index := ?r + 1\<rparr>"
      have "restart_index_loop it = restart_index_loop ?it"
        using more point before less.prems(2) off_word_less [OF assms(1) restart_le [OF assms(1) True] assms(4)]
        by (subst restart_index_loop.simps) simp
      moreover have "\<exists>r. restart_index_loop ?it = Some (?it\<lparr>bi_restart_index := r\<rparr>) \<and> unat r < length rs \<and> rs ! unat r \<le> i"
        using less.prems True before by (intro less.hyps) (simp_all add: suc over_def)
      ultimately show ?thesis by simp
    next
      case False
      then have "restart_index_loop it = Some it"
        using more point less.prems(2) off_word_less [OF assms(1) restart_le [OF assms(1) True] assms(4)]
        by (subst restart_index_loop.simps) simp
      with less.prems show ?thesis by (intro exI [of _ ?r]) simp
    qed
  qed
qed

lemma ParseNextKey_ready:
  assumes "block_rep data es off rs" and "ready data es off rs i it"
  shows "\<exists>it'. ParseNextKey it = Some (i < length es, it') \<and> on_entry data es off rs i it'"
proof (cases "i < length es")
  case False
  with assms show ?thesis
    by (auto simp: ParseNextKey_def ready_def on_entry_def over_def Let_def)
next
  case True
  from assms(2) True have it: "over data es off rs it" "NextEntryOffset it = Some (of_nat (off i))"
    "decodes data (off (length es)) (off i) (bi_key it) (es ! i) (off (i + 1))"
    "unat (bi_restart_index it) < length rs" "rs ! unat (bi_restart_index it) \<le> i" by (simp_all add: ready_def)
  from it(3) obtain p sh ns vl where
    d: "DecodeEntry data (off i) (off (length es)) = Some (p, sh, ns, vl)" and sh: "unat sh \<le> length (bi_key it)"
    and k: "fst (es ! i) = take (unat sh) (bi_key it) @ take (unat ns) (drop p data)"
    and v: "snd (es ! i) = take (unat vl) (drop (p + unat ns) data)"
    and nx: "p + unat ns + unat vl = off (i + 1)" and le: "off (i + 1) \<le> off (length es)"
    unfolding decodes_def by blast
  let ?it = "it\<lparr>bi_current := of_nat (off i), bi_key := fst (es ! i), bi_value := Some (p + unat ns, unat vl)\<rparr>"
  have lim: "off (length es) \<le> length data" by (rule block_repD(3) [OF assms(1)])
  have "\<not> bi_restarts it \<le> of_nat (off i)"
    using it(1) True off_word_less [OF assms(1), of i "length es"] by (simp add: over_def not_le)
  then have eq: "ParseNextKey it = map_option (Pair True) (restart_index_loop ?it)"
    using it(1,2) d sh k nx le lim off_bound(2) [OF assms(1), of i] off_bound(2) [OF assms(1), of "length es"] True
    by (simp add: ParseNextKey_def over_def Let_def)
  have vlen: "length (snd (es ! i)) = unat vl" using v nx le lim by simp
  obtain r where r: "restart_index_loop ?it = Some (?it\<lparr>bi_restart_index := r\<rparr>)" "unat r < length rs" "rs ! unat r \<le> i"
    using restart_index_loop_over [OF assms(1), of ?it i] it True by (auto simp: over_def)
  have "on_entry data es off rs i (?it\<lparr>bi_restart_index := r\<rparr>)"
    using it(1) True r(2,3) vlen v nx by (simp add: on_entry_def over_def)
  with eq r(1) True show ?thesis by simp
qed

lemma on_entry_ready:
  assumes "block_rep data es off rs" and "on_entry data es off rs i it" and "i < length es"
  shows "ready data es off rs (i + 1) it"
  using assms(2,3) block_repD(4) [OF assms(1), of "i + 1"] by (auto simp: on_entry_def ready_def NextEntryOffset_def simp del: of_nat_add)

lemma SeekToRestartPoint_over:
  assumes "block_rep data es off rs" and "over data es off rs it" and "unat j < length rs"
  shows "\<exists>it'. SeekToRestartPoint j it = Some it' \<and> ready data es off rs (rs ! unat j) it'"
proof -
  have r: "rs ! unat j \<in> set rs" using assms(3) by simp
  have "ready data es off rs (rs ! unat j)
    (it\<lparr>bi_key := [], bi_restart_index := j, bi_value := Some (off (rs ! unat j), 0)\<rparr>)"
    using assms restart_le [OF assms(1,3)] block_repD(11) [OF assms(1) r] off_bound(2) [OF assms(1)]
    by (simp add: ready_def over_def NextEntryOffset_def)
  with GetRestartPoint_over [OF assms] off_bound(2) [OF assms(1) restart_le [OF assms(1,3)]] show ?thesis
    by (simp add: SeekToRestartPoint_def)
qed

lemma on_entry_Valid:
  assumes "block_rep data es off rs" and "on_entry data es off rs i it"
  shows "BlockIter_Valid it \<longleftrightarrow> i < length es"
  using assms(2) off_word_less [OF assms(1), of i "length es"] by (auto simp: on_entry_def over_def BlockIter_Valid_def)

lemma on_entry_key: "block_rep data es off rs \<Longrightarrow> on_entry data es off rs i it \<Longrightarrow> i < length es \<Longrightarrow>
    BlockIter_key it = Some (fst (es ! i))"
  using on_entry_Valid [of data es off rs i it] by (simp add: BlockIter_key_def on_entry_def)

lemma on_entry_value:
  assumes "block_rep data es off rs" and "on_entry data es off rs i it" and "i < length es"
  shows "BlockIter_value it = Some (snd (es ! i))"
proof -
  from assms(2,3) obtain p where p: "bi_value it = Some (p, length (snd (es ! i)))"
    "p + length (snd (es ! i)) = off (i + 1)" "take (length (snd (es ! i))) (drop p data) = snd (es ! i)"
    by (auto simp: on_entry_def)
  have "off (i + 1) \<le> length data"
    using block_repD(4) [OF assms(1,3)] block_repD(3) [OF assms(1)] by (simp add: decodes_def)
  with p assms(2) on_entry_Valid [OF assms(1,2)] assms(3) show ?thesis
    by (simp add: BlockIter_value_def on_entry_def over_def)
qed

lemma BlockIter_Next_on:
  assumes "block_rep data es off rs" and "on_entry data es off rs i it" and "i < length es"
  shows "\<exists>it'. BlockIter_Next it = Some it' \<and> on_entry data es off rs (i + 1) it'"
  using ParseNextKey_ready [OF assms(1) on_entry_ready [OF assms]] on_entry_Valid [OF assms(1,2)] assms(3)
  by (auto simp: BlockIter_Next_def)

lemma SeekToFirst_over:
  assumes "block_rep data es off rs" and "over data es off rs it"
  shows "\<exists>it'. BlockIter_SeekToFirst it = Some it' \<and> on_entry data es off rs 0 it'"
proof -
  from SeekToRestartPoint_over [OF assms, of 0] block_repD(5,6) [OF assms(1)] obtain it' where
    "SeekToRestartPoint 0 it = Some it'" "ready data es off rs 0 it'" by auto
  with ParseNextKey_ready [OF assms(1), of 0 it'] show ?thesis by (auto simp: BlockIter_SeekToFirst_def)
qed

lemma parse_until_ready:
  assumes "block_rep data es off rs" and "ready data es off rs i it" and "i < j" and "j \<le> length es"
  shows "\<exists>it'. parse_until (of_nat (off j)) it = Some it' \<and> on_entry data es off rs (j - 1) it'"
  using assms(2,3)
proof (induction "j - i" arbitrary: i it rule: less_induct)
  case less
  from ParseNextKey_ready [OF assms(1) less.prems(1)] less.prems(2) assms(4) obtain it' where
    it': "ParseNextKey it = Some (True, it')" "on_entry data es off rs i it'" by auto
  have i: "i < length es" using less.prems(2) assms(4) by simp
  have rd: "ready data es off rs (i + 1) it'" by (rule on_entry_ready [OF assms(1) it'(2) i])
  then have nx: "NextEntryOffset it' = Some (of_nat (off (i + 1)))" by (simp add: ready_def)
  show ?case
  proof (cases "i + 1 < j")
    case True
    have "\<exists>it''. parse_until (of_nat (off j)) it' = Some it'' \<and> on_entry data es off rs (j - 1) it''"
      using less.hyps [OF _ rd] True less.prems(2) by simp
    with True it'(1) nx off_word_less [OF assms(1), of "i + 1" j] i assms(4) show ?thesis
      by (subst parse_until.simps) simp
  next
    case False
    then have j: "j = i + 1" using less.prems(2) by simp
    with it' nx show ?thesis by (subst parse_until.simps) simp
  qed
qed

lemma SeekToLast_over:
  assumes "block_rep data es off rs" and "over data es off rs it"
  shows "\<exists>it'. BlockIter_SeekToLast it = Some it' \<and> on_entry data es off rs (length es - 1) it'"
proof -
  note rep = assms(1)
  let ?j = "of_nat (length rs) - 1 :: u32"
  have j: "unat ?j = length rs - 1" "unat ?j < length rs"
    using num_restarts(3) [OF rep] block_repD(5) [OF rep] by simp_all
  from SeekToRestartPoint_over [OF assms j(2)] obtain it' where
    it': "SeekToRestartPoint ?j it = Some it'" "ready data es off rs (rs ! unat ?j) it'" by blast
  have bi: "bi_num_restarts it = of_nat (length rs)" "bi_restarts it = of_nat (off (length es))"
    using assms(2) by (simp_all add: over_def)
  show ?thesis
  proof (cases "rs ! unat ?j < length es")
    case True
    with parse_until_ready [OF rep it'(2) True] it'(1) bi show ?thesis by (simp add: BlockIter_SeekToLast_def)
  next
    case False
    with block_repD(8) [OF rep, of "rs ! unat ?j"] j(2) have es: "es = []" by fastforce
    with restart_le [OF rep j(2)] have "rs ! unat ?j = 0" by simp
    with it'(2) ParseNextKey_ready [OF rep, of 0 it'] es obtain it'' where
      "ParseNextKey it' = Some (False, it'')" "on_entry data es off rs 0 it''" by auto
    with it'(1) bi es show ?thesis by (simp add: BlockIter_SeekToLast_def parse_until.simps)
  qed
qed

lemma back_loop_over:
  assumes "block_rep data es off rs" and "over data es off rs it" and "i < length es"
    and "unat (bi_restart_index it) < length rs"
  shows "\<exists>it'. back_loop (of_nat (off i)) it = Some (0 < i, it') \<and> over data es off rs it' \<and>
    (if i = 0 then bi_current it' = of_nat (off (length es))
     else unat (bi_restart_index it') < length rs \<and> rs ! unat (bi_restart_index it') < i)"
  using assms(2,4)
proof (induction "unat (bi_restart_index it)" arbitrary: it rule: less_induct)
  case less
  let ?r = "bi_restart_index it"
  have point: "GetRestartPoint ?r it = Some (of_nat (off (rs ! unat ?r)))"
    by (rule GetRestartPoint_over [OF assms(1) less.prems])
  have cmp: "(of_nat (off i) :: u32) \<le> of_nat (off (rs ! unat ?r)) \<longleftrightarrow> i \<le> rs ! unat ?r"
    using off_word_less [OF assms(1) restart_le [OF assms(1) less.prems(2)], of i] assms(3) by (simp add: not_less [symmetric])
  show ?case
  proof (cases "i \<le> rs ! unat ?r")
    case False
    with point cmp less.prems show ?thesis by (intro exI [of _ it]) (auto simp: back_loop.simps)
  next
    case True
    show ?thesis
    proof (cases "?r = 0")
      case zero: True
      then have "i = 0" using True block_repD(6) [OF assms(1)] by simp
      with zero point cmp True less.prems show ?thesis
        by (simp add: back_loop.simps over_def)
    next
      case False
      then have r: "unat (?r - 1) = unat ?r - 1" "0 < unat ?r"
        by (simp_all add: unat_minus_one unat_gt_0)
      let ?it = "it\<lparr>bi_restart_index := ?r - 1\<rparr>"
      have "back_loop (of_nat (off i)) it = back_loop (of_nat (off i)) ?it"
        using point cmp True False by (subst back_loop.simps) simp
      moreover have "over data es off rs ?it" using less.prems(1) by (simp add: over_def)
      ultimately show ?thesis using less.hyps [of ?it] less.prems r by simp
    qed
  qed
qed

lemma BlockIter_Prev_on:
  assumes "block_rep data es off rs" and "on_entry data es off rs i it" and "i < length es"
  shows "\<exists>it'. BlockIter_Prev it = Some it' \<and> on_entry data es off rs (if i = 0 then length es else i - 1) it'"
proof -
  have it: "over data es off rs it" "bi_current it = of_nat (off i)" "unat (bi_restart_index it) < length rs"
    using assms(2,3) by (simp_all add: on_entry_def)
  from back_loop_over [OF assms(1) it(1) assms(3) it(3)] obtain it' where
    b: "back_loop (of_nat (off i)) it = Some (0 < i, it')" "over data es off rs it'"
    and b': "if i = 0 then bi_current it' = of_nat (off (length es))
     else unat (bi_restart_index it') < length rs \<and> rs ! unat (bi_restart_index it') < i" by blast
  note V = on_entry_Valid [OF assms(1,2)]
  show ?thesis
  proof (cases "i = 0")
    case True
    with b b' it(2) V assms(3) show ?thesis by (simp add: BlockIter_Prev_def on_entry_def)
  next
    case False
    with b' SeekToRestartPoint_over [OF assms(1) b(2)] obtain it'' where
      s: "SeekToRestartPoint (bi_restart_index it') it' = Some it''"
        "ready data es off rs (rs ! unat (bi_restart_index it')) it''" by auto
    from parse_until_ready [OF assms(1) s(2), of i] False b' assms(3) s(1) b(1) it(2) V show ?thesis
      by (simp add: BlockIter_Prev_def)
  qed
qed

section \<open>Seeking\<close>

text \<open>The keys before the target are the first ones.\<close>

definition target_splits :: "Comparator \<Rightarrow> slice \<Rightarrow> entry list \<Rightarrow> bool" where
  "target_splits C t es \<longleftrightarrow> (\<forall>j < length es. Compare C (fst (es ! j)) t < 0 \<longrightarrow>
     (\<forall>i < j. Compare C (fst (es ! i)) t < 0))"

lemma target_splitsD:
  "target_splits C t es \<Longrightarrow> Compare C (fst (es ! j)) t < 0 \<Longrightarrow> j < length es \<Longrightarrow> i \<le> j \<Longrightarrow>
    Compare C (fst (es ! i)) t < 0"
  by (cases "i = j") (auto simp: target_splits_def)

lemma restart_search_over:
  assumes "block_rep data es off rs" and "over data es off rs it"
    and "unat left \<le> unat right" and "unat right < length rs"
    and "left = 0 \<or> Compare C (fst (es ! (rs ! unat left))) t < 0"
  shows "\<exists>l. restart_search C t it left right = Some (Some l) \<and> unat l < length rs \<and>
    (l = 0 \<or> Compare C (fst (es ! (rs ! unat l))) t < 0)"
  using assms(3-5)
proof (induction "unat right - unat left" arbitrary: left right rule: less_induct)
  case less
  note rep = assms(1)
  show ?case
  proof (cases "left < right")
    case False
    with less.prems show ?thesis by (intro exI [of _ left]) (simp add: restart_search.simps)
  next
    case True
    then have lr: "unat left < unat right" by (simp add: word_less_nat_alt)
    let ?mid = "(left + right + 1) div 2"
    have "unat (left + right + 1) = unat left + unat right + 1"
      using less.prems(1,2) block_repD(7) [OF rep] by (simp add: unat_word_ariths)
    then have mid: "unat ?mid = (unat left + unat right + 1) div 2" by (simp add: unat_div)
    then have m: "unat left < unat ?mid" "unat ?mid \<le> unat right" using lr by simp_all
    then have mlen: "unat ?mid < length rs" using less.prems(2) by simp
    let ?i = "rs ! unat ?mid"
    have "rs ! 0 < ?i" using restart_mono [OF rep, of 0 "unat ?mid"] m mlen by simp
    then have i: "?i < length es" "?i \<in> set rs" using block_repD(8) [OF rep, of ?i] mlen by auto
    from block_repD(11) [OF rep i(2,1)] obtain p sh ns vl where
      d: "DecodeEntry data (off ?i) (off (length es)) = Some (p, sh, ns, vl)" "unat sh \<le> length ([] :: byte list)"
      "fst (es ! ?i) = take (unat sh) [] @ take (unat ns) (drop p data)"
      "p + unat ns + unat vl = off (?i + 1)" "off (?i + 1) \<le> off (length es)" unfolding decodes_def by blast
    then have sh: "sh = 0" and k: "take (unat ns) (drop p data) = fst (es ! ?i)"
      and len: "p + unat ns \<le> length data" using block_repD(3) [OF rep] by (simp_all add: unat_eq_0)
    have step: "restart_search C t it left right =
      (if Compare C (fst (es ! ?i)) t < 0 then restart_search C t it ?mid right
       else restart_search C t it left (?mid - 1))"
      using True GetRestartPoint_over [OF rep assms(2) mlen] d(1) sh k len assms(2)
        off_bound(2) [OF rep less_imp_le [OF i(1)]] off_bound(2) [OF rep order_refl]
      by (subst restart_search.simps) (simp add: over_def Let_def)
    show ?thesis
    proof (cases "Compare C (fst (es ! ?i)) t < 0")
      case lt: True
      with less.hyps [of right ?mid] m less.prems(2) step show ?thesis by simp
    next
      case False
      have "?mid \<noteq> 0" using m by (metis gr_implies_not0 unat_0)
      then have m1: "unat (?mid - 1) = unat ?mid - 1" by (simp add: unat_minus_one)
      with less.hyps [of "?mid - 1" left] m less.prems step False show ?thesis by simp
    qed
  qed
qed

lemma linear_search_ready:
  assumes "block_rep data es off rs" and "ready data es off rs i it" and "i \<le> seek_index (Compare C) t es"
  shows "\<exists>it'. linear_search C t it = Some it' \<and> on_entry data es off rs (seek_index (Compare C) t es) it'"
  using assms(2,3)
proof (induction "length es - i" arbitrary: i it rule: less_induct)
  case less
  let ?n = "seek_index (Compare C) t es"
  from ParseNextKey_ready [OF assms(1) less.prems(1)] obtain it' where
    it': "ParseNextKey it = Some (i < length es, it')" "on_entry data es off rs i it'" by blast
  show ?case
  proof (cases "i < length es")
    case False
    with less.prems(2) seek_index_le [of "Compare C" t es] have "?n = i" by simp
    with it' False show ?thesis by (subst linear_search.simps) simp
  next
    case True
    then have k: "bi_key it' = fst (es ! i)" using it'(2) by (simp add: on_entry_def)
    show ?thesis
    proof (cases "i = ?n")
      case at: True
      with seek_index_at [of "Compare C" t es] True it' k show ?thesis
        by (subst linear_search.simps) (simp add: not_less)
    next
      case False
      then have lt: "i < ?n" using less.prems(2) by simp
      from less.hyps [OF _ on_entry_ready [OF assms(1) it'(2) True]] True lt obtain it'' where
        "linear_search C t it' = Some it''" "on_entry data es off rs ?n it''" by (metis Suc_eq_plus1 Suc_leI diff_less_mono2 lessI)
      with it' True k seek_index_before [OF lt] show ?thesis by (subst linear_search.simps) simp
    qed
  qed
qed

lemma BlockIter_Seek_over:
  assumes "block_rep data es off rs" and "over data es off rs it" and "target_splits C t es"
  shows "\<exists>it'. BlockIter_Seek C t it = Some it' \<and> on_entry data es off rs (seek_index (Compare C) t es) it'"
proof -
  note rep = assms(1)
  let ?j = "of_nat (length rs) - 1 :: u32"
  have j: "unat (0 :: u32) \<le> unat ?j" "unat ?j < length rs"
    using num_restarts(3) [OF rep] block_repD(5) [OF rep] by simp_all
  from restart_search_over [OF rep assms(2) j, of C t] obtain l where
    l: "restart_search C t it 0 ?j = Some (Some l)" "unat l < length rs"
      "l = 0 \<or> Compare C (fst (es ! (rs ! unat l))) t < 0" by auto
  from SeekToRestartPoint_over [OF rep assms(2) l(2)] obtain it' where
    it': "SeekToRestartPoint l it = Some it'" "ready data es off rs (rs ! unat l) it'" by blast
  have "rs ! unat l \<le> seek_index (Compare C) t es"
  proof (rule ccontr)
    assume gt: "\<not> rs ! unat l \<le> seek_index (Compare C) t es"
    then have ne: "rs ! unat l \<noteq> 0" by simp
    then have lt: "Compare C (fst (es ! (rs ! unat l))) t < 0" using l(3) block_repD(6) [OF rep] by auto
    have "rs ! unat l < length es" using block_repD(8) [OF rep nth_mem [OF l(2)]] ne by simp
    with target_splitsD [OF assms(3) lt this, of "seek_index (Compare C) t es"] gt seek_index_at [of "Compare C" t es]
    show False by simp
  qed
  from linear_search_ready [OF rep it'(2) this] l(1) it'(1) assms(2) show ?thesis
    by (simp add: BlockIter_Seek_def over_def)
qed

section \<open>The contract\<close>

definition block_at :: "Comparator \<Rightarrow> (slice \<Rightarrow> bool) \<Rightarrow> entry list \<Rightarrow> nat \<Rightarrow> block_iter \<Rightarrow> bool" where
  "block_at C key es i s \<longleftrightarrow> sorted_entries (Compare C) es \<and> (\<forall>e \<in> set es. key (fst e)) \<and>
     (\<exists>data off rs it. s = InBlock it \<and> block_rep data es off rs \<and> on_entry data es off rs i it)"

context comparator
begin

lemma sorted_target_splits:
  assumes "sorted_entries (Compare C) es" and "\<forall>e \<in> set es. key (fst e)" and "key t"
  shows "target_splits C t es"
  unfolding target_splits_def
proof (intro allI impI)
  fix i j
  assume j: "j < length es" "Compare C (fst (es ! j)) t < 0" and i: "i < j"
  with assms(2) have "key (fst (es ! i))" "key (fst (es ! j))" by simp_all
  from less_trans [OF this assms(3) sorted_entries_nth [OF assms(1) i j(1)] j(2)]
  show "Compare C (fst (es ! i)) t < 0" .
qed

lemma block_iterator_correct: "iterator (block_iterator C) (Compare C) key (block_at C key)"
proof unfold_locales
  fix es i s t
  assume "block_at C key es i s"
  then obtain data off rs it where s: "s = InBlock it" and rep: "block_rep data es off rs"
    and on: "on_entry data es off rs i it" and es: "sorted_entries (Compare C) es" "\<forall>e \<in> set es. key (fst e)"
    by (auto simp: block_at_def)
  have move: "\<exists>s'. in_block f e s = Some s' \<and> block_at C key es j s'"
    if "\<exists>it'. f it = Some it' \<and> on_entry data es off rs j it'" for f e j
  proof -
    from that obtain it' where it': "f it = Some it'" "on_entry data es off rs j it'" by blast
    with rep es have "block_at C key es j (InBlock it')" unfolding block_at_def by blast
    with it'(1) show ?thesis by (simp add: s in_block_def)
  qed
  have over: "over data es off rs it" using on by (simp add: on_entry_def)
  show "i \<le> length es" using on by (simp add: on_entry_def)
  show "it_Valid (block_iterator C) s \<longleftrightarrow> i < length es"
    using on_entry_Valid [OF rep on] by (simp add: block_iterator_def s)
  show "it_key (block_iterator C) s = Some (fst (es ! i))" if "i < length es"
    using on_entry_key [OF rep on that] by (simp add: block_iterator_def s)
  show "it_value (block_iterator C) s = Some (snd (es ! i))" if "i < length es"
    using on_entry_value [OF rep on that] by (simp add: block_iterator_def s)
  show "it_status (block_iterator C) s = Status_OK"
    using over by (simp add: block_iterator_def s over_def)
  show "\<exists>s'. it_SeekToFirst (block_iterator C) s = Some s' \<and> block_at C key es 0 s'"
    by (simp only: block_iterator_def Iterator.simps) (rule move, rule SeekToFirst_over [OF rep over])
  show "\<exists>s'. it_SeekToLast (block_iterator C) s = Some s' \<and> block_at C key es (length es - 1) s'"
    by (simp only: block_iterator_def Iterator.simps) (rule move, rule SeekToLast_over [OF rep over])
  show "\<exists>s'. it_Seek (block_iterator C) t s = Some s' \<and> block_at C key es (seek_index (Compare C) t es) s'"
    if "key t"
    by (simp only: block_iterator_def Iterator.simps) (rule move, rule BlockIter_Seek_over [OF rep over sorted_target_splits [OF es that]])
  show "\<exists>s'. it_Next (block_iterator C) s = Some s' \<and> block_at C key es (i + 1) s'" if "i < length es"
    by (simp only: block_iterator_def Iterator.simps) (rule move, rule BlockIter_Next_on [OF rep on that])
  show "\<exists>s'. it_Prev (block_iterator C) s = Some s' \<and> block_at C key es (if i = 0 then length es else i - 1) s'"
    if "i < length es"
    by (simp only: block_iterator_def Iterator.simps) (rule move, rule BlockIter_Prev_on [OF rep on that])
qed

end

sublocale comparator \<subseteq> block_it: iterator "block_iterator C" "Compare C" key "block_at C key"
  by (rule block_iterator_correct)

end
