(* ===== verification/Ldb_Block_Build.thy ===== *)
theory Ldb_Block_Build
  imports Ldb_Block_Spec
begin

text \<open>
  What the block builder makes is laid out as \<open>block_rep\<close> asks: \<open>built\<close> is its invariant, with the
  shared prefix lengths and the restart points chosen so far.
\<close>

section \<open>One entry\<close>

definition entry_bytes :: "nat \<Rightarrow> entry \<Rightarrow> byte list" where
  "entry_bytes shared e =
     EncodeVarint32 (of_nat shared) @ EncodeVarint32 (of_nat (length (fst e) - shared)) @
     EncodeVarint32 (of_nat (length (snd e))) @ drop shared (fst e) @ snd e"

lemma EncodeVarint32_nonempty [simp]: "EncodeVarint32 v \<noteq> []"
  by (simp add: EncodeVarint32_def Let_def)

lemma entry_bytes_length:
  "length (drop shared (fst e)) + length (snd e) + 3 \<le> length (entry_bytes shared e)"
proof -
  have "1 \<le> length (EncodeVarint32 v)" for v by (simp add: Suc_le_eq)
  from this [of "of_nat shared"] this [of "of_nat (length (fst e) - shared)"] this [of "of_nat (length (snd e))"]
  show ?thesis unfolding entry_bytes_def length_append by linarith
qed

lemma entry_bytes_nonempty [simp]: "entry_bytes shared e \<noteq> []"
  using entry_bytes_length [of shared e] by (cases "entry_bytes shared e") simp_all

lemma entry_header_bytes:
  "entry_header (entry_bytes shared e @ rest) =
    Some (drop shared (fst e) @ snd e @ rest, of_nat shared, of_nat (length (fst e) - shared), of_nat (length (snd e)))"
  by (simp add: entry_header_def entry_bytes_def varint32.dec_enc)

lemma unat_of_nat_32: "n < 2 ^ 32 \<Longrightarrow> unat (of_nat n :: u32) = n"
  by (simp add: unsigned_of_nat take_bit_nat_eq_self)

lemma decodes_entry_bytes:
  assumes lim: "lim = length (pre @ entry_bytes shared e @ post)" and small: "lim < 2 ^ 32" "length (fst e) < 2 ^ 32"
    and sh: "shared \<le> length (fst e)" "shared \<le> length prev" "take shared prev = take shared (fst e)"
    and off: "off = length pre" "off' = length (pre @ entry_bytes shared e)"
  shows "decodes (pre @ entry_bytes shared e @ post @ trailer) lim off prev e off'"
proof -
  let ?data = "pre @ entry_bytes shared e @ post @ trailer"
  let ?delta = "drop shared (fst e)"
  obtain hdr where hdr: "entry_bytes shared e = hdr @ ?delta @ snd e" by (simp add: entry_bytes_def)
  have region: "drop off (take lim ?data) = entry_bytes shared e @ post"
    by (simp add: lim off)
  have len: "length (?delta @ snd e @ post) + 3 \<le> length (entry_bytes shared e @ post)"
    using entry_bytes_length [of shared e] by simp
  have small': "length (?delta @ snd e @ post) < 2 ^ 32" "length ?delta + length (snd e) < 2 ^ 32"
    using len small(1) lim by simp_all
  have sum: "(of_nat (length (fst e) - shared) + of_nat (length (snd e)) :: u32) =
      of_nat (length ?delta + length (snd e))" by simp
  have "\<not> (of_nat (length (?delta @ snd e @ post)) :: u32) <
      of_nat (length (fst e) - shared) + of_nat (length (snd e))"
    unfolding sum word_less_nat_alt unat_of_nat_32 [OF small'(1)] unat_of_nat_32 [OF small'(2)] by simp
  then have d: "DecodeEntry ?data off lim = Some (lim - length (?delta @ snd e @ post), of_nat shared,
      of_nat (length (fst e) - shared), of_nat (length (snd e)))"
    using DecodeEntry_header [of off lim ?data] len unfolding region entry_header_bytes by simp
  have p: "lim - length (?delta @ snd e @ post) = length (pre @ hdr)" by (simp add: lim hdr)
  have u: "unat (of_nat shared :: u32) = shared"
    "unat (of_nat (length (fst e) - shared) :: u32) = length (fst e) - shared"
    "unat (of_nat (length (snd e)) :: u32) = length (snd e)"
    by (rule unat_of_nat_32, use small small' sh(1) in simp)+
  have at: "drop (length (pre @ hdr)) ?data = ?delta @ snd e @ post @ trailer"
    "drop (length (pre @ hdr) + (length (fst e) - shared)) ?data = snd e @ post @ trailer" by (simp_all add: hdr)
  have "fst e = take shared prev @ take (length (fst e) - shared) (drop (length (pre @ hdr)) ?data)"
    "snd e = take (length (snd e)) (drop (length (pre @ hdr) + (length (fst e) - shared)) ?data)"
    unfolding at sh(3) using sh(1) by simp_all
  moreover have "length (pre @ hdr) + (length (fst e) - shared) + length (snd e) = off'" by (simp add: off hdr)
  moreover have "off < off'" "off' \<le> lim" by (simp_all add: off lim)
  ultimately show ?thesis
    unfolding decodes_def d p
    by (intro conjI exI [of _ "length (pre @ hdr)"] exI [of _ "of_nat shared"] exI [of _ "of_nat (length (fst e) - shared)"]
        exI [of _ "of_nat (length (snd e))"] refl) (simp_all only: u sh(2))
qed

section \<open>The builder\<close>

definition entry_blocks :: "nat list \<Rightarrow> entry list \<Rightarrow> byte list list" where
  "entry_blocks shs es = map2 entry_bytes shs es"

definition entry_off :: "nat list \<Rightarrow> entry list \<Rightarrow> nat \<Rightarrow> nat" where
  "entry_off shs es i = length (concat (take i (entry_blocks shs es)))"

definition prev_key :: "entry list \<Rightarrow> nat \<Rightarrow> slice" where
  "prev_key es i = (if i = 0 then [] else fst (es ! (i - 1)))"

definition shares :: "nat list \<Rightarrow> entry list \<Rightarrow> bool" where
  "shares shs es \<longleftrightarrow> length shs = length es \<and>
     (\<forall>i < length es. shs ! i \<le> length (fst (es ! i)) \<and> shs ! i \<le> length (prev_key es i) \<and>
        take (shs ! i) (prev_key es i) = take (shs ! i) (fst (es ! i)))"

definition restarts_at :: "nat list \<Rightarrow> entry list \<Rightarrow> nat list \<Rightarrow> bool" where
  "restarts_at shs es rs \<longleftrightarrow> rs \<noteq> [] \<and> rs ! 0 = 0 \<and> sorted_wrt (<) rs \<and>
     (\<forall>r \<in> set rs. r < length es \<and> shs ! r = 0 \<or> r = 0 \<and> es = [])"

definition built :: "Options \<Rightarrow> nat list \<Rightarrow> nat list \<Rightarrow> entry list \<Rightarrow> BlockBuilder \<Rightarrow> bool" where
  "built options shs rs es b \<longleftrightarrow> shares shs es \<and> restarts_at shs es rs \<and>
     bb_buffer b = concat (entry_blocks shs es) \<and>
     bb_restarts b = map (\<lambda>r. of_nat (entry_off shs es r)) rs \<and>
     bb_last_key b = prev_key es (length es) \<and> \<not> bb_finished b \<and>
     bb_counter b \<le> block_restart_interval options \<and> 1 \<le> block_restart_interval options \<and>
     (es = [] \<longrightarrow> bb_counter b = 0) \<and> 0 \<le> bb_counter b"

lemma built_Reset: "1 \<le> block_restart_interval options \<Longrightarrow> built options [] [0] [] BlockBuilder_Reset"
  by (simp add: built_def shares_def restarts_at_def BlockBuilder_Reset_def entry_blocks_def entry_off_def prev_key_def)

lemma length_entry_blocks: "shares shs es \<Longrightarrow> length (entry_blocks shs es) = length es"
  by (simp add: entry_blocks_def shares_def)

lemma entry_blocks_nth: "shares shs es \<Longrightarrow> i < length es \<Longrightarrow> entry_blocks shs es ! i = entry_bytes (shs ! i) (es ! i)"
  by (simp add: entry_blocks_def shares_def)

lemma entry_blocks_Nil [simp]: "entry_blocks shs [] = []"
  by (simp add: entry_blocks_def)

lemma entry_blocks_snoc:
  "length shs = length es \<Longrightarrow> entry_blocks (shs @ [s]) (es @ [e]) = entry_blocks shs es @ [entry_bytes s e]"
  by (simp add: entry_blocks_def)

lemma prev_key_snoc: "i \<le> length es \<Longrightarrow> prev_key (es @ [e]) i = prev_key es i"
  by (auto simp: prev_key_def nth_append)

lemma entry_off_snoc:
  "shares shs es \<Longrightarrow> r \<le> length es \<Longrightarrow> entry_off (shs @ [s]) (es @ [e]) r = entry_off shs es r"
  by (simp add: entry_off_def entry_blocks_snoc length_entry_blocks shares_def)

lemma concat_entry_blocks_empty: "shares shs es \<Longrightarrow> concat (entry_blocks shs es) = [] \<longleftrightarrow> es = []"
  by (cases es; cases shs) (simp_all add: entry_blocks_def shares_def)

lemma shares_snoc:
  assumes "shares shs es" and "s \<le> length (fst e)" "s \<le> length (prev_key es (length es))"
    and "take s (prev_key es (length es)) = take s (fst e)"
  shows "shares (shs @ [s]) (es @ [e])"
  using assms unfolding shares_def
  by (auto simp: nth_append prev_key_snoc less_Suc_eq)

lemma diff_index_take: "take (diff_index a b) a = take (diff_index a b) b"
  by (induction a b rule: diff_index.induct) simp_all

lemma diff_index_le: "diff_index a b \<le> length a \<and> diff_index a b \<le> length b"
  by (induction a b rule: diff_index.induct) simp_all

lemma diff_index_Nil [simp]: "diff_index [] b = 0"
  by simp

lemma restarts_at_snoc:
  assumes "restarts_at shs es rs" and "shares shs es" and "es = [] \<Longrightarrow> s = 0"
  shows "restarts_at (shs @ [s]) (es @ [e]) rs"
  using assms unfolding restarts_at_def shares_def by (auto simp: nth_append)

lemma restarts_at_new:
  assumes "restarts_at shs es rs" and "shares shs es" and "es \<noteq> []"
  shows "restarts_at (shs @ [0]) (es @ [e]) (rs @ [length es])"
  using assms unfolding restarts_at_def shares_def by (auto simp: nth_append sorted_wrt_append)

lemma BlockBuilder_Add_built:
  assumes b: "built options shs rs es b"
    and order: "es \<noteq> [] \<Longrightarrow> 0 < Compare (o_comparator options) (fst e) (fst (last es))"
  shows "\<exists>b' shs' rs'. BlockBuilder_Add options (fst e) (snd e) b = Some b' \<and> built options shs' rs' (es @ [e]) b'"
proof -
  have sh: "shares shs es" and rs: "restarts_at shs es rs" and buf: "bb_buffer b = concat (entry_blocks shs es)"
    and res: "bb_restarts b = map (\<lambda>r. of_nat (entry_off shs es r)) rs" and lk: "bb_last_key b = prev_key es (length es)"
    and cnt: "\<not> bb_finished b" "bb_counter b \<le> block_restart_interval options" "1 \<le> block_restart_interval options"
      "0 \<le> bb_counter b" and zero: "es = [] \<Longrightarrow> bb_counter b = 0"
    using b by (simp_all add: built_def)
  have last: "prev_key es (length es) = fst (last es)" if "es \<noteq> []" using that by (simp add: prev_key_def last_conv_nth)
  have ok: "\<not> (bb_finished b \<or> block_restart_interval options < bb_counter b \<or>
      bb_buffer b \<noteq> [] \<and> \<not> 0 < Compare (o_comparator options) (fst e) (bb_last_key b))"
    using cnt(1,2) order last by (cases "es = []") (simp_all add: buf lk concat_entry_blocks_empty [OF sh] del: concat_eq_Nil_conv)
  define s where "s = fst (Add_shared options (fst e) b)"
  define c where "c = snd (Add_shared options (fst e) b)"
  have s: "s \<le> length (fst e)" "s \<le> length (bb_last_key b)" "take s (bb_last_key b) = take s (fst e)"
    "es = [] \<Longrightarrow> s = 0"
    using diff_index_le [of "bb_last_key b" "fst e"] diff_index_take [of "bb_last_key b" "fst e"] lk
    unfolding s_def Add_shared_def by (auto simp: prev_key_def simp del: diff_index.simps)
  have key: "take s (bb_last_key b) @ take (length (fst e) - s) (drop s (fst e)) = fst e"
    using s(1) by (simp add: s(3))
  have c: "bb_buffer c = bb_buffer b" "bb_last_key c = bb_last_key b" "\<not> bb_finished c"
    "bb_counter c < block_restart_interval options" "0 \<le> bb_counter c"
    using cnt by (simp_all add: c_def Add_shared_def)
  let ?b' = "c\<lparr>bb_buffer := bb_buffer b @ entry_bytes s e, bb_last_key := fst e, bb_counter := bb_counter c + 1\<rparr>"
  have add: "BlockBuilder_Add options (fst e) (snd e) b = Some ?b'"
    using ok key c(1,2) unfolding BlockBuilder_Add_def s_def c_def
    by (simp add: Let_def split_beta PutVarint32_def entry_bytes_def)
  let ?shs = "shs @ [s]" and ?es = "es @ [e]"
  have sh': "shares ?shs ?es" using shares_snoc [OF sh] s(1-3) by (simp add: lk)
  have buf': "bb_buffer ?b' = concat (entry_blocks ?shs ?es)"
    using sh by (simp add: buf entry_blocks_snoc shares_def)
  have lk': "bb_last_key ?b' = prev_key ?es (length ?es)" by (simp add: prev_key_def)
  have old: "map (\<lambda>r. of_nat (entry_off shs es r)) rs = map (\<lambda>r. of_nat (entry_off ?shs ?es r)) rs"
    using rs by (auto simp: restarts_at_def intro!: arg_cong [where f = of_nat] entry_off_snoc [OF sh, symmetric])
  show ?thesis
  proof (cases "bb_counter b < block_restart_interval options")
    case True
    then have "bb_restarts c = bb_restarts b" by (simp add: c_def Add_shared_def)
    with sh' buf' lk' c restarts_at_snoc [OF rs sh s(4)] cnt(3) old res have "built options ?shs rs ?es ?b'"
      by (simp add: built_def)
    with add show ?thesis by blast
  next
    case False
    then have "bb_restarts c = bb_restarts b @ [of_nat (length (bb_buffer b))]" and s0: "s = 0"
      by (simp_all add: c_def s_def Add_shared_def)
    moreover have ne: "es \<noteq> []" using False zero cnt(3) by auto
    moreover have "entry_off ?shs ?es (length es) = length (bb_buffer b)"
      unfolding entry_off_snoc [OF sh order_refl] by (simp add: entry_off_def length_entry_blocks [OF sh] buf)
    ultimately have "bb_restarts ?b' = map (\<lambda>r. of_nat (entry_off ?shs ?es r)) (rs @ [length es])"
      using res old by simp
    with sh' buf' lk' c restarts_at_new [OF rs sh ne] cnt(3) have "built options ?shs (rs @ [length es]) ?es ?b'"
      by (simp add: built_def s0)
    with add show ?thesis by blast
  qed
qed

section \<open>Finishing\<close>

lemma foldl_PutFixed32: "foldl (PutFixed32 True) buf ws = buf @ concat (map Fixed32 ws)"
  by (induction ws arbitrary: buf) (simp_all add: PutFixed32_def)

lemma concat_Fixed32_nth:
  "j < length ws \<Longrightarrow> \<exists>rest. drop (j * 4) (concat (map Fixed32 ws) @ tail) = Fixed32 (ws ! j) @ rest"
proof (induction ws arbitrary: j)
  case (Cons w ws)
  show ?case
  proof (cases j)
    case (Suc i)
    with Cons.IH [of i] Cons.prems show ?thesis by (simp add: add.commute)
  qed simp
qed simp

lemma length_concat_Fixed32: "length (concat (map Fixed32 ws)) = length ws * 4"
  by (induction ws) simp_all

lemma entry_split:
  assumes "shares shs es" and "i < length es"
  shows "concat (entry_blocks shs es) = concat (take i (entry_blocks shs es)) @ entry_bytes (shs ! i) (es ! i) @
    concat (drop (i + 1) (entry_blocks shs es))"
proof -
  have "entry_blocks shs es = take i (entry_blocks shs es) @ entry_blocks shs es ! i # drop (Suc i) (entry_blocks shs es)"
    using assms by (intro id_take_nth_drop) (simp add: length_entry_blocks)
  then have "concat (entry_blocks shs es) = concat (take i (entry_blocks shs es) @ entry_blocks shs es ! i #
    drop (Suc i) (entry_blocks shs es))" by simp
  then show ?thesis by (simp only: concat_append concat.simps entry_blocks_nth [OF assms]) simp
qed

lemma entry_off_Suc:
  "shares shs es \<Longrightarrow> i < length es \<Longrightarrow> entry_off shs es (i + 1) =
    length (concat (take i (entry_blocks shs es)) @ entry_bytes (shs ! i) (es ! i))"
  by (simp add: entry_off_def take_Suc_conv_app_nth length_entry_blocks entry_blocks_nth)

lemma decodes_built:
  assumes "shares shs es" and "i < length es" and "length (concat (entry_blocks shs es)) < 2 ^ 32"
    and "length (fst (es ! i)) < 2 ^ 32" and "shs ! i \<le> length prev" and "take (shs ! i) prev = take (shs ! i) (fst (es ! i))"
  shows "decodes (concat (entry_blocks shs es) @ trailer) (entry_off shs es (length es)) (entry_off shs es i) prev (es ! i)
    (entry_off shs es (i + 1))"
proof -
  have "entry_off shs es (length es) = length (concat (entry_blocks shs es))"
    by (simp add: entry_off_def length_entry_blocks [OF assms(1)])
  moreover have "shs ! i \<le> length (fst (es ! i))" using assms(1,2) by (simp add: shares_def)
  moreover have "entry_off shs es i = length (concat (take i (entry_blocks shs es)))" by (simp add: entry_off_def)
  ultimately show ?thesis
    unfolding entry_split [OF assms(1,2)] append_assoc entry_off_Suc [OF assms(1,2)] using assms(3-6)
    by (intro decodes_entry_bytes) (simp_all add: entry_split [OF assms(1,2)])
qed

text \<open>The bytes of a finished block: the entries, the restart points, and their number.\<close>

definition block_bytes :: "nat list \<Rightarrow> nat list \<Rightarrow> entry list \<Rightarrow> byte list" where
  "block_bytes shs rs es = concat (entry_blocks shs es) @
     concat (map Fixed32 (map (\<lambda>r. of_nat (entry_off shs es r)) rs)) @ Fixed32 (of_nat (length rs))"

lemma Finish_built:
  "built options shs rs es b \<Longrightarrow> fst (BlockBuilder_Finish b) = block_bytes shs rs es"
  by (simp add: built_def BlockBuilder_Finish_def block_bytes_def foldl_PutFixed32 PutFixed32_def Let_def)

lemma CurrentSizeEstimate_built:
  "built options shs rs es b \<Longrightarrow> CurrentSizeEstimate b = length (block_bytes shs rs es)"
  by (simp add: built_def CurrentSizeEstimate_def block_bytes_def length_concat_Fixed32 del: map_map)

lemma block_bytes_length:
  "shares shs es \<Longrightarrow> length (block_bytes shs rs es) = entry_off shs es (length es) + (length rs + 1) * 4"
  by (simp add: block_bytes_def length_concat_Fixed32 entry_off_def length_entry_blocks del: map_map)

lemma block_rep_built:
  assumes sh: "shares shs es" and rs: "restarts_at shs es rs" and len: "length (block_bytes shs rs es) < 2 ^ 32"
    and keys: "\<forall>e \<in> set es. length (fst e) < 2 ^ 32"
  shows "block_rep (block_bytes shs rs es) es (entry_off shs es) rs"
proof -
  let ?n = "length es" and ?off = "entry_off shs es"
  let ?words = "map (\<lambda>r. of_nat (?off r)) rs :: u32 list"
  let ?trailer = "concat (map Fixed32 ?words) @ Fixed32 (of_nat (length rs))"
  have bytes: "block_bytes shs rs es = concat (entry_blocks shs es) @ ?trailer" by (simp only: block_bytes_def)
  have small: "?off ?n + (length rs + 1) * 4 < 2 ^ 32" using len by (simp only: block_bytes_length [OF sh])
  have n: "?off ?n = length (concat (entry_blocks shs es))" by (simp add: entry_off_def length_entry_blocks [OF sh])
  have dec: "decodes (block_bytes shs rs es) (?off ?n) (?off i) prev (es ! i) (?off (i + 1))"
    if "i < ?n" "shs ! i \<le> length prev" "take (shs ! i) prev = take (shs ! i) (fst (es ! i))" for i prev
    unfolding bytes using that small n keys by (intro decodes_built [OF sh]) simp_all
  have "decodes (block_bytes shs rs es) (?off ?n) (?off i) (if i = 0 then [] else fst (es ! (i - 1))) (es ! i) (?off (i + 1))"
    if "i < ?n" for i
    using dec [OF that, of "prev_key es i"] sh that by (simp add: shares_def prev_key_def)
  moreover have "DecodeFixed32 True (drop (?off ?n + j * 4) (block_bytes shs rs es)) = Some (of_nat (?off (rs ! j)))"
    if j: "j < length rs" for j
  proof -
    obtain rest where "drop (j * 4) ?trailer = Fixed32 (?words ! j) @ rest"
      using concat_Fixed32_nth [of j ?words] j by auto
    moreover have "drop (?off ?n + j * 4) (block_bytes shs rs es) = drop (j * 4) ?trailer"
      unfolding bytes n by simp
    ultimately show ?thesis using j by (simp add: Decode_Encode_Fixed32)
  qed
  moreover have "decodes (block_bytes shs rs es) (?off ?n) (?off r) [] (es ! r) (?off (r + 1))"
    if "r \<in> set rs" "r < ?n" for r
    using that rs by (intro dec) (auto simp: restarts_at_def)
  moreover have "?off ?n \<le> length (block_bytes shs rs es)" by (simp add: block_bytes_length [OF sh])
  moreover have "?off 0 = 0" by (simp add: entry_off_def)
  ultimately show ?thesis
    using rs small unfolding block_rep_def restarts_at_def by auto
qed

section \<open>Reading back what was built\<close>

definition open_block :: "slice \<Rightarrow> block_iter option" where
  "open_block contents = Option.bind (Block_new contents) Block_NewIterator"

lemma open_block_built:
  assumes sh: "shares shs es" and rs: "restarts_at shs es rs" and len: "length (block_bytes shs rs es) < 2 ^ 32"
    and keys: "\<forall>e \<in> set es. length (fst e) < 2 ^ 32"
  shows "\<exists>it. open_block (block_bytes shs rs es) = Some (InBlock it) \<and>
    on_entry (block_bytes shs rs es) es (entry_off shs es) rs (length es) it"
proof -
  let ?bytes = "block_bytes shs rs es"
  note rep = block_rep_built [OF assms]
  have l: "length ?bytes = entry_off shs es (length es) + (length rs + 1) * 4" by (rule block_bytes_length [OF sh])
  have n: "unat (of_nat (length rs) :: u32) = length rs" by (rule num_restarts(1) [OF rep])
  have n1: "unat (1 + of_nat (length rs) :: u32) = length rs + 1"
    using unat_of_nat_32 [of "length rs + 1"] len l by (simp add: add.commute)
  have num: "DecodeFixed32 True (drop (length ?bytes - 4) ?bytes) = Some (of_nat (length rs))"
    using Decode_Encode_Fixed32 [of True "of_nat (length rs)" "[]"] by (simp add: block_bytes_def)
  let ?block = "\<lparr>b_data = ?bytes, b_size = length ?bytes, b_restart_offset = of_nat (entry_off shs es (length es))\<rparr>"
  have "Block_new ?bytes = Some ?block"
    using num n n1 l by (simp add: Block_new_def Block_NumRestarts_def Let_def)
  moreover have "0 < (of_nat (length rs) :: u32)"
    using num_restarts(2) [OF rep] by (simp only: word_gt_0 simp_thms)
  ultimately show ?thesis
    using num l unfolding open_block_def
    by (auto simp: Block_NewIterator_def Block_NumRestarts_def BlockIter_new_def on_entry_def over_def)
qed

text \<open>Adding a list of entries, one after the other.\<close>

fun add_entries :: "Options \<Rightarrow> entry list \<Rightarrow> BlockBuilder \<Rightarrow> BlockBuilder option" where
  "add_entries options [] b = Some b"
| "add_entries options (e # es) b = Option.bind (BlockBuilder_Add options (fst e) (snd e) b) (add_entries options es)"

context comparator
begin

lemma add_entries_built:
  assumes "built options shs rs es b" and "o_comparator options = C"
    and "sorted_entries (Compare C) (es @ fs)" and "\<forall>e \<in> set (es @ fs). key (fst e)"
  shows "\<exists>b' shs' rs'. add_entries options fs b = Some b' \<and> built options shs' rs' (es @ fs) b'"
  using assms(1,3,4)
proof (induction fs arbitrary: es b shs rs)
  case (Cons f fs)
  have "0 < Compare C (fst f) (fst (last es))" if "es \<noteq> []"
  proof -
    from that have mem: "last es \<in> set es" by simp
    with Cons.prems(2) have "Compare C (fst (last es)) (fst f) < 0" by (simp add: sorted_entries_append)
    with flip [of "fst f" "fst (last es)"] mem Cons.prems(3) show ?thesis by simp
  qed
  with BlockBuilder_Add_built [OF Cons.prems(1), of f] assms(2) obtain b' shs' rs' where
    b': "BlockBuilder_Add options (fst f) (snd f) b = Some b'" "built options shs' rs' (es @ [f]) b'" by auto
  from Cons.IH [OF b'(2)] Cons.prems(2,3) b'(1) show ?case by simp
qed auto

text \<open>Building a block from sorted entries and opening it gives an iterator over them.\<close>

lemma built_block_at:
  assumes "built options shs rs es b" and "o_comparator options = C"
    and "sorted_entries (Compare C) es" and "\<forall>e \<in> set es. key (fst e) \<and> length (fst e) < 2 ^ 32"
    and "CurrentSizeEstimate b < 2 ^ 32"
  shows "\<exists>s. open_block (fst (BlockBuilder_Finish b)) = Some s \<and> block_at C key es (length es) s"
proof -
  have sh: "shares shs es" "restarts_at shs es rs" using assms(1) by (simp_all add: built_def)
  have len: "length (block_bytes shs rs es) < 2 ^ 32" and k: "\<forall>e \<in> set es. length (fst e) < 2 ^ 32"
    using assms(4,5) CurrentSizeEstimate_built [OF assms(1)] by simp_all
  from open_block_built [OF sh len k] obtain it where
    it: "open_block (block_bytes shs rs es) = Some (InBlock it)"
      "on_entry (block_bytes shs rs es) es (entry_off shs es) rs (length es) it" by blast
  have "block_at C key es (length es) (InBlock it)"
    unfolding block_at_def using assms(3,4) block_rep_built [OF sh len k] it(2) by blast
  with it(1) Finish_built [OF assms(1)] show ?thesis by simp
qed

end

end
