(* ===== verification/Ldb_FilterBlock.thy ===== *)
theory Ldb_FilterBlock
  imports Ldb_Options Ldb_Block_Build
begin

text \<open>
  The filter block of a table, \<open>table/filter_block.{h,cc}\<close>: one filter for the keys of the data blocks
  that start in the same 2 KB of the file. The builder refines a list of finished groups of keys and
  the current group; the reader finds a key of any group in its filter.
\<close>

section \<open>The builder\<close>

definition kFilterBaseLg :: nat where "kFilterBaseLg = 11"
definition kFilterBase :: u64 where "kFilterBase = push_bit 11 1"

text \<open>\<open>tmp_keys_\<close> is only used inside \<open>GenerateFilter\<close>.\<close>

record FilterBlockBuilder =
  fb_keys :: "byte list"
  fb_start :: "nat list"
  fb_result :: "byte list"
  fb_offsets :: "u32 list"

definition FilterBlockBuilder_new :: FilterBlockBuilder where
  "FilterBlockBuilder_new = \<lparr>fb_keys = [], fb_start = [], fb_result = [], fb_offsets = []\<rparr>"

definition GenerateFilter :: "FilterPolicy \<Rightarrow> FilterBlockBuilder \<Rightarrow> FilterBlockBuilder option" where
  "GenerateFilter P b =
     (let num_keys = length (fb_start b); offset = of_nat (length (fb_result b)) in
      if num_keys = 0 then Some (b\<lparr>fb_offsets := fb_offsets b @ [offset]\<rparr>)
      else
        let start = fb_start b @ [length (fb_keys b)];
            tmp_keys = map (\<lambda>i. take (start ! (i + 1) - start ! i) (drop (start ! i) (fb_keys b))) [0..<num_keys] in
        map_option (\<lambda>result. b\<lparr>fb_offsets := fb_offsets b @ [offset], fb_result := result, fb_keys := [], fb_start := []\<rparr>)
          (CreateFilter P tmp_keys (fb_result b)))"

partial_function (option) StartBlock_loop :: "FilterPolicy \<Rightarrow> u64 \<Rightarrow> FilterBlockBuilder \<Rightarrow> FilterBlockBuilder option" where
  "StartBlock_loop P filter_index b =
     (if length (fb_offsets b) < unat filter_index
      then Option.bind (GenerateFilter P b) (StartBlock_loop P filter_index) else Some b)"

definition StartBlock :: "FilterPolicy \<Rightarrow> u64 \<Rightarrow> FilterBlockBuilder \<Rightarrow> FilterBlockBuilder option" where
  "StartBlock P block_offset b =
     (let filter_index = block_offset div kFilterBase in
      if length (fb_offsets b) \<le> unat filter_index then StartBlock_loop P filter_index b else None)"

definition AddKey :: "slice \<Rightarrow> FilterBlockBuilder \<Rightarrow> FilterBlockBuilder" where
  "AddKey k b = b\<lparr>fb_start := fb_start b @ [length (fb_keys b)], fb_keys := fb_keys b @ k\<rparr>"

definition FilterBlock_Finish :: "FilterPolicy \<Rightarrow> FilterBlockBuilder \<Rightarrow> (slice \<times> FilterBlockBuilder) option" where
  "FilterBlock_Finish P b =
     map_option (\<lambda>b.
       let array_offset = of_nat (length (fb_result b));
           result = PutFixed32 True (foldl (PutFixed32 True) (fb_result b) (fb_offsets b)) array_offset @ [of_nat kFilterBaseLg] in
       (result, b\<lparr>fb_result := result\<rparr>))
     (if fb_start b \<noteq> [] then GenerateFilter P b else Some b)"

section \<open>The reader\<close>

text \<open>
  \<open>data_\<close> is the contents, or \<open>NULL\<close> when they are bad; \<open>offset_\<close> is an offset into it. The shift
  parameter is a \<open>char\<close> that becomes a \<open>size_t\<close>: a shift by 64 or more, or by a negative value, has no
  defined result.
\<close>

record FilterBlockReader =
  fr_data :: "byte list"
  fr_offset :: nat
  fr_num :: nat
  fr_base_lg :: byte

definition FilterBlockReader_new :: "slice \<Rightarrow> FilterBlockReader option" where
  "FilterBlockReader_new contents =
     (let r = \<lparr>fr_data = [], fr_offset = 0, fr_num = 0, fr_base_lg = 0\<rparr>; n = length contents in
      if n < 5 then Some r
      else
        let r = r\<lparr>fr_base_lg := contents ! (n - 1)\<rparr> in
        map_option (\<lambda>last_word.
          if n - 5 < unat last_word then r
          else r\<lparr>fr_data := contents, fr_offset := unat last_word, fr_num := (n - 5 - unat last_word) div 4\<rparr>)
          (DecodeFixed32 True (drop (n - 5) contents)))"

definition FilterBlock_KeyMayMatch :: "FilterPolicy \<Rightarrow> u64 \<Rightarrow> slice \<Rightarrow> FilterBlockReader \<Rightarrow> bool option" where
  "FilterBlock_KeyMayMatch P block_offset k r =
     (if 64 \<le> unat (fr_base_lg r) then None
      else
        let index = unat (drop_bit (unat (fr_base_lg r)) block_offset) in
        if index < fr_num r then
          Option.bind (DecodeFixed32 True (drop (fr_offset r + index * 4) (fr_data r))) (\<lambda>start.
          Option.bind (DecodeFixed32 True (drop (fr_offset r + index * 4 + 4) (fr_data r))) (\<lambda>limit.
            if start \<le> limit \<and> unat limit \<le> fr_offset r
            then KeyMayMatch P k (take (unat (limit - start)) (drop (unat start) (fr_data r)))
            else if start = limit then Some False
            else Some True))
        else Some True)"

section \<open>Groups of keys\<close>

text \<open>
  The abstract builder: the groups of keys whose filters are made, and the current group. A
  block offset puts the keys that follow into the group with its index.
\<close>

definition start_group :: "nat \<Rightarrow> slice list list \<times> slice list \<Rightarrow> slice list list \<times> slice list" where
  "start_group i = (\<lambda>(gs, cur).
     if length gs < i then (gs @ [cur] @ replicate (i - length gs - 1) [], []) else (gs, cur))"

definition all_groups :: "slice list list \<times> slice list \<Rightarrow> slice list list" where
  "all_groups = (\<lambda>(gs, cur). if cur = [] then gs else gs @ [cur])"

definition starts :: "slice list \<Rightarrow> nat list" where
  "starts ks = map (\<lambda>i. length (concat (take i ks))) [0..<length ks]"

lemma starts_snoc: "starts (ks @ [k]) = starts ks @ [length (concat ks)]"
  by (simp add: starts_def)

lemma starts_cut:
  assumes "i < length ks"
  shows "take ((starts ks @ [length (concat ks)]) ! (i + 1) - (starts ks @ [length (concat ks)]) ! i)
    (drop ((starts ks @ [length (concat ks)]) ! i) (concat ks)) = ks ! i"
proof -
  have at: "(starts ks @ [length (concat ks)]) ! j = length (concat (take j ks))" if "j \<le> length ks" for j
    using that by (cases "j = length ks") (simp_all add: starts_def nth_append)
  have "ks = take i ks @ ks ! i # drop (Suc i) ks" using assms by (rule id_take_nth_drop)
  then have "concat ks = concat (take i ks @ ks ! i # drop (Suc i) ks)" by (rule arg_cong)
  then have c: "concat ks = concat (take i ks) @ ks ! i @ concat (drop (Suc i) ks)" by simp
  have "length (concat (take (i + 1) ks)) - length (concat (take i ks)) = length (ks ! i)"
    using assms by (simp add: take_Suc_conv_app_nth)
  with at [of i] at [of "i + 1"] assms show ?thesis by (simp add: c)
qed

text \<open>The bytes of the filter of a group: none for an empty group.\<close>

definition group_filter :: "FilterPolicy \<Rightarrow> slice list \<Rightarrow> byte list" where
  "group_filter P ks = (if ks = [] then [] else case CreateFilter P ks [] of Some f \<Rightarrow> f | None \<Rightarrow> [])"

definition group_off :: "FilterPolicy \<Rightarrow> slice list list \<Rightarrow> nat \<Rightarrow> nat" where
  "group_off P gs i = length (concat (take i (map (group_filter P) gs)))"

definition groups_built :: "FilterPolicy \<Rightarrow> slice list list \<times> slice list \<Rightarrow> FilterBlockBuilder \<Rightarrow> bool" where
  "groups_built P = (\<lambda>(gs, cur) b. fb_keys b = concat cur \<and> fb_start b = starts cur \<and>
     fb_result b = concat (map (group_filter P) gs) \<and>
     fb_offsets b = map (\<lambda>i. of_nat (group_off P gs i)) [0..<length gs])"

lemma groups_built_new: "groups_built P ([], []) FilterBlockBuilder_new"
  by (simp add: groups_built_def FilterBlockBuilder_new_def starts_def)

lemma groups_built_AddKey: "groups_built P (gs, cur) b \<Longrightarrow> groups_built P (gs, cur @ [k]) (AddKey k b)"
  by (simp add: groups_built_def AddKey_def starts_snoc)

lemma group_off_snoc: "i \<le> length gs \<Longrightarrow> group_off P (gs @ [g]) i = group_off P gs i"
  by (simp add: group_off_def)

lemma starts_empty [simp]: "starts ks = [] \<longleftrightarrow> ks = []"
  by (simp add: starts_def)

lemma length_starts [simp]: "length (starts ks) = length ks"
  by (simp add: starts_def)

context filter_policy
begin

lemma GenerateFilter_groups:
  assumes "groups_built P (gs, cur) b" and "cur \<noteq> [] \<Longrightarrow> summarizes cur"
  shows "\<exists>b'. GenerateFilter P b = Some b' \<and> groups_built P (gs @ [cur], []) b'"
proof -
  have b: "fb_keys b = concat cur" "fb_start b = starts cur" "fb_result b = concat (map (group_filter P) gs)"
    "fb_offsets b = map (\<lambda>i. of_nat (group_off P gs i)) [0..<length gs]"
    using assms(1) by (simp_all add: groups_built_def)
  have offs: "fb_offsets b @ [of_nat (length (fb_result b))] =
    map (\<lambda>i. of_nat (group_off P (gs @ [cur]) i)) [0..<length (gs @ [cur])]"
    by (simp add: b group_off_snoc) (simp add: group_off_def)
  show ?thesis
  proof (cases "cur = []")
    case True
    with b offs show ?thesis
      by (simp add: GenerateFilter_def groups_built_def group_filter_def starts_def Let_def)
  next
    case False
    then obtain f where f: "\<And>dst. CreateFilter P cur dst = Some (dst @ f)" using filter_of [OF assms(2)] by blast
    let ?start = "fb_start b @ [length (fb_keys b)]"
    have "map (\<lambda>i. take (?start ! (i + 1) - ?start ! i) (drop (?start ! i) (fb_keys b))) [0..<length cur] = cur"
      unfolding b(1,2) by (rule nth_equalityI) (simp_all only: length_map length_upt nth_map_upt starts_cut, simp_all add: starts_cut [simplified])
    with False f offs b show ?thesis
      by (simp add: GenerateFilter_def groups_built_def group_filter_def starts_def Let_def)
  qed
qed

lemma StartBlock_loop_groups:
  assumes "groups_built P (gs, cur) b" and "cur \<noteq> [] \<Longrightarrow> summarizes cur"
  shows "\<exists>b'. StartBlock_loop P i b = Some b' \<and> groups_built P (start_group (unat i) (gs, cur)) b'"
  using assms
proof (induction "unat i - length gs" arbitrary: gs cur b rule: less_induct)
  case less
  have len: "length (fb_offsets b) = length gs" using less.prems(1) by (simp add: groups_built_def)
  show ?case
  proof (cases "length gs < unat i")
    case False
    with less.prems len show ?thesis by (simp add: StartBlock_loop.simps start_group_def)
  next
    case True
    from GenerateFilter_groups [OF less.prems] obtain b1 where
      b1: "GenerateFilter P b = Some b1" "groups_built P (gs @ [cur], []) b1" by blast
    have "unat i - length (gs @ [cur]) < unat i - length gs" using True by simp
    from less.hyps [OF this b1(2)] obtain b2 where
      b2: "StartBlock_loop P i b1 = Some b2" "groups_built P (start_group (unat i) (gs @ [cur], [])) b2" by auto
    have "start_group (unat i) (gs @ [cur], []) = start_group (unat i) (gs, cur)"
    proof (cases "unat i = length gs + 1")
      case False
      with True have "unat i - length gs - 1 = Suc (unat i - length gs - 2)" by simp
      with True False show ?thesis by (simp add: start_group_def)
    qed (simp add: start_group_def)
    with True len b1(1) b2 show ?thesis by (subst StartBlock_loop.simps) simp
  qed
qed

lemma StartBlock_groups:
  assumes "groups_built P (gs, cur) b" and "cur \<noteq> [] \<Longrightarrow> summarizes cur" and "length gs \<le> unat off div 2048"
  shows "\<exists>b'. StartBlock P off b = Some b' \<and> groups_built P (start_group (unat off div 2048) (gs, cur)) b'"
proof -
  have i: "unat (off div kFilterBase) = unat off div 2048" by (simp add: kFilterBase_def unat_div)
  have "length (fb_offsets b) = length gs" using assms(1) by (simp add: groups_built_def)
  with StartBlock_loop_groups [OF assms(1,2), of "off div kFilterBase"] assms(3) i show ?thesis
    by (simp add: StartBlock_def Let_def)
qed

end

text \<open>The finished block: the filters, where each starts and where they end, and the shift.\<close>

definition filter_block_bytes :: "FilterPolicy \<Rightarrow> slice list list \<Rightarrow> byte list" where
  "filter_block_bytes P gs = concat (map (group_filter P) gs) @
     concat (map Fixed32 (map (\<lambda>i. of_nat (group_off P gs i)) [0..<length gs])) @
     Fixed32 (of_nat (group_off P gs (length gs))) @ [11]"

context filter_policy
begin

lemma Finish_groups:
  assumes "groups_built P (gs, cur) b" and "cur \<noteq> [] \<Longrightarrow> summarizes cur"
  shows "\<exists>b'. FilterBlock_Finish P b = Some (filter_block_bytes P (all_groups (gs, cur)), b')"
proof -
  obtain b1 gs1 where b1: "(if fb_start b \<noteq> [] then GenerateFilter P b else Some b) = Some b1"
    and g1: "groups_built P (gs1, []) b1" "gs1 = all_groups (gs, cur)"
  proof (cases "cur = []")
    case True
    with that [of b gs] assms(1) show ?thesis by (simp add: groups_built_def all_groups_def)
  next
    case False
    from GenerateFilter_groups [OF assms] obtain b' where
      b': "GenerateFilter P b = Some b'" "groups_built P (gs @ [cur], []) b'" by blast
    have "fb_start b \<noteq> []" using False assms(1) by (simp add: groups_built_def)
    with b' False show ?thesis by (intro that [of b' "gs @ [cur]"]) (simp_all add: all_groups_def)
  qed
  from g1(1) have "fb_result b1 = concat (map (group_filter P) gs1)"
    "fb_offsets b1 = map (\<lambda>i. of_nat (group_off P gs1 i)) [0..<length gs1]" by (simp_all add: groups_built_def)
  with b1 show ?thesis
    by (simp add: FilterBlock_Finish_def filter_block_bytes_def foldl_PutFixed32 PutFixed32_def g1(2) [symmetric]
        group_off_def kFilterBaseLg_def Let_def)
qed

end

section \<open>Finding keys\<close>

lemma group_off_mono: "i \<le> j \<Longrightarrow> group_off P gs i \<le> group_off P gs j"
  by (metis group_off_def concat_append le_Suc_ex length_append le_add1 take_add)

lemma group_cut:
  assumes "i < length gs"
  shows "take (group_off P gs (i + 1) - group_off P gs i) (drop (group_off P gs i) (concat (map (group_filter P) gs) @ tail)) =
    group_filter P (gs ! i)"
proof -
  have "map (group_filter P) gs = take i (map (group_filter P) gs) @ group_filter P (gs ! i) # drop (Suc i) (map (group_filter P) gs)"
    using id_take_nth_drop [of i "map (group_filter P) gs"] assms by simp
  then have c: "concat (map (group_filter P) gs) = concat (take i (map (group_filter P) gs)) @ group_filter P (gs ! i) @
    concat (drop (Suc i) (map (group_filter P) gs))" by (metis concat.simps(2) concat_append)
  have "group_off P gs (i + 1) - group_off P gs i = length (group_filter P (gs ! i))"
    using assms by (simp add: group_off_def take_Suc_conv_app_nth)
  then show ?thesis unfolding c by (simp add: group_off_def)
qed

lemma FilterBlockReader_bytes:
  assumes "length (filter_block_bytes P gs) < 2 ^ 32"
  shows "FilterBlockReader_new (filter_block_bytes P gs) =
    Some \<lparr>fr_data = filter_block_bytes P gs, fr_offset = group_off P gs (length gs), fr_num = length gs, fr_base_lg = 11\<rparr>"
proof -
  let ?offs = "map (\<lambda>i. of_nat (group_off P gs i)) [0..<length gs] :: u32 list"
  let ?bytes = "filter_block_bytes P gs"
  have len: "length ?bytes = group_off P gs (length gs) + length gs * 4 + 5"
    by (simp add: filter_block_bytes_def length_concat_Fixed32 group_off_def del: map_map)
  have "drop (length ?bytes - 5) ?bytes = Fixed32 (of_nat (group_off P gs (length gs))) @ [11]"
    unfolding len by (simp add: filter_block_bytes_def length_concat_Fixed32 group_off_def del: map_map)
  then have "DecodeFixed32 True (drop (length ?bytes - 5) ?bytes) = Some (of_nat (group_off P gs (length gs)))"
    by (simp add: Decode_Encode_Fixed32)
  moreover have "?bytes ! (length ?bytes - 1) = 11"
    unfolding filter_block_bytes_def by (simp add: nth_append del: map_map)
  moreover have "unat (of_nat (group_off P gs (length gs)) :: u32) = group_off P gs (length gs)"
    using assms len by (simp add: unat_of_nat_32)
  ultimately show ?thesis
    using len by (simp add: FilterBlockReader_new_def Let_def)
qed

lemma filter_offset:
  assumes "i \<le> length gs"
  shows "DecodeFixed32 True (drop (group_off P gs (length gs) + i * 4) (filter_block_bytes P gs)) =
    Some (of_nat (group_off P gs i))"
proof -
  let ?offs = "map (\<lambda>i. of_nat (group_off P gs i)) [0..<length gs + 1] :: u32 list"
  have "filter_block_bytes P gs = concat (map (group_filter P) gs) @ concat (map Fixed32 ?offs) @ [11]"
    by (simp add: filter_block_bytes_def)
  moreover have "group_off P gs (length gs) = length (concat (map (group_filter P) gs))" by (simp add: group_off_def)
  ultimately have "drop (group_off P gs (length gs) + i * 4) (filter_block_bytes P gs) =
    drop (i * 4) (concat (map Fixed32 ?offs) @ [11])" by simp
  moreover obtain rest where "drop (i * 4) (concat (map Fixed32 ?offs) @ [11]) = Fixed32 (?offs ! i) @ rest"
    using concat_Fixed32_nth [of i ?offs "[11]"] assms by auto
  moreover have "?offs ! i = of_nat (group_off P gs i)" using assms by (simp del: upt_Suc)
  ultimately show ?thesis by (simp add: Decode_Encode_Fixed32 del: upt_Suc)
qed

context filter_policy
begin

lemma KeyMayMatch_found:
  assumes "unat off div 2048 < length gs" and "k \<in> set (gs ! (unat off div 2048))"
    and "summarizes (gs ! (unat off div 2048))" and "length (filter_block_bytes P gs) < 2 ^ 32"
  shows "\<exists>r. FilterBlockReader_new (filter_block_bytes P gs) = Some r \<and> FilterBlock_KeyMayMatch P off k r = Some True"
proof -
  let ?i = "unat off div 2048" and ?bytes = "filter_block_bytes P gs"
  let ?r = "\<lparr>fr_data = ?bytes, fr_offset = group_off P gs (length gs), fr_num = length gs, fr_base_lg = 11\<rparr>"
  have "group_off P gs (length gs) < 2 ^ 32"
    using assms(4) by (simp add: filter_block_bytes_def length_concat_Fixed32 group_off_def del: map_map)
  with group_off_mono [of _ "length gs" P gs]
  have u: "unat (of_nat (group_off P gs i) :: u32) = group_off P gs i" if "i \<le> length gs" for i
    using that by (meson order_le_less_trans unat_of_nat_32)
  have off: "unat (drop_bit 11 off) = ?i" by (simp add: unat_drop_bit)
  obtain f where f: "\<And>dst. CreateFilter P (gs ! ?i) dst = Some (dst @ f)" "KeyMayMatch P k f = Some True"
    using filter_of [OF assms(3)] assms(2) by metis
  have gf: "group_filter P (gs ! ?i) = f" using assms(2) f(1) [of "[]"] by (auto simp: group_filter_def)
  have le: "group_off P gs ?i \<le> group_off P gs (?i + 1)" "group_off P gs (?i + 1) \<le> group_off P gs (length gs)"
    using assms(1) by (auto intro!: group_off_mono)
  have ui: "unat (of_nat (group_off P gs ?i) :: u32) = group_off P gs ?i"
    "unat (of_nat (group_off P gs (?i + 1)) :: u32) = group_off P gs (?i + 1)" using assms(1) by (auto intro!: u)
  have wle: "(of_nat (group_off P gs ?i) :: u32) \<le> of_nat (group_off P gs (?i + 1))"
    unfolding word_le_nat_alt ui by (rule le(1))
  have cut: "take (unat (of_nat (group_off P gs (?i + 1)) - of_nat (group_off P gs ?i) :: u32))
      (drop (unat (of_nat (group_off P gs ?i) :: u32)) ?bytes) = f"
    unfolding unat_sub [OF wle] ui filter_block_bytes_def group_cut [OF assms(1)] by (rule gf)
  have "group_off P gs (length gs) + ?i * 4 + 4 = group_off P gs (length gs) + (?i + 1) * 4" by simp
  with filter_offset [of "?i + 1" gs P] assms(1)
  have "DecodeFixed32 True (drop (group_off P gs (length gs) + ?i * 4 + 4) ?bytes) = Some (of_nat (group_off P gs (?i + 1)))"
    by (metis Suc_eq_plus1 Suc_leI)
  then have "FilterBlock_KeyMayMatch P off k ?r = Some True"
    using filter_offset [of ?i gs P] assms(1) wle cut ui le(2) f(2)
    by (simp add: FilterBlock_KeyMayMatch_def Let_def off)
  with FilterBlockReader_bytes [OF assms(4)] show ?thesis by simp
qed

end

section \<open>A sequence of blocks\<close>

text \<open>\<open>StartBlock\<close> for each data block, and \<open>AddKey\<close> for its keys.\<close>

fun filter_blocks :: "FilterPolicy \<Rightarrow> (u64 \<times> slice list) list \<Rightarrow> FilterBlockBuilder \<Rightarrow> FilterBlockBuilder option" where
  "filter_blocks P [] b = Some b"
| "filter_blocks P ((off, ks) # blocks) b =
     Option.bind (StartBlock P off b) (\<lambda>b. filter_blocks P blocks (fold AddKey ks b))"

definition in_group :: "slice list list \<times> slice list \<Rightarrow> nat \<Rightarrow> slice \<Rightarrow> bool" where
  "in_group = (\<lambda>(gs, cur) i k. i < length gs \<and> k \<in> set (gs ! i) \<or> i = length gs \<and> k \<in> set cur)"

lemma in_group_start: "in_group st i k \<Longrightarrow> in_group (start_group j st) i k"
  by (cases st) (auto simp: in_group_def start_group_def nth_append)

lemma in_group_all: "in_group st i k \<Longrightarrow> i < length (all_groups st) \<and> k \<in> set (all_groups st ! i)"
  by (cases st) (auto simp: in_group_def all_groups_def nth_append)

lemma start_group_length: "length gs \<le> j \<Longrightarrow> length (fst (start_group j (gs, cur))) = j"
  by (simp add: start_group_def)

lemma groups_built_AddKeys:
  "groups_built P (gs, cur) b \<Longrightarrow> groups_built P (gs, cur @ ks) (fold AddKey ks b)"
  by (induction ks arbitrary: b cur) (use groups_built_AddKey in fastforce)+

lemma start_group_keys:
  "set (concat (fst (start_group i st))) \<union> set (snd (start_group i st)) = set (concat (fst st)) \<union> set (snd st)"
  by (cases st) (auto simp: start_group_def)

context filter_policy
begin

lemma filter_blocks_groups:
  assumes "groups_built P st b" and "sorted (map (\<lambda>(off, _). unat off div 2048) blocks)"
    and "\<forall>(off, _) \<in> set blocks. length (fst st) \<le> unat off div 2048"
    and ok: "\<forall>ks. (\<forall>k \<in> set ks. ok k) \<longrightarrow> summarizes ks"
    and "\<forall>k \<in> set (concat (fst st)) \<union> set (snd st). ok k" and "\<forall>(_, ks) \<in> set blocks. \<forall>k \<in> set ks. ok k"
  shows "\<exists>b' st'. filter_blocks P blocks b = Some b' \<and> groups_built P st' b' \<and>
    (\<forall>k \<in> set (concat (fst st')) \<union> set (snd st'). ok k) \<and> (\<forall>i k. in_group st i k \<longrightarrow> in_group st' i k) \<and>
    (\<forall>(off, ks) \<in> set blocks. \<forall>k \<in> set ks. in_group st' (unat off div 2048) k)"
  using assms(1-3,5,6)
proof (induction blocks arbitrary: st b)
  case Nil
  then show ?case by (intro exI [of _ b] exI [of _ st]) simp
next
  case (Cons block blocks)
  obtain off ks where block: "block = (off, ks)" by (cases block)
  let ?i = "unat off div 2048"
  obtain gs cur where st: "st = (gs, cur)" by (cases st)
  from Cons.prems(3) have le: "length gs \<le> ?i" by (simp add: st block)
  have "summarizes cur" using ok Cons.prems(4) by (simp add: st)
  with StartBlock_groups [OF Cons.prems(1) [unfolded st] _ le] obtain b1 where
    b1: "StartBlock P off b = Some b1" "groups_built P (start_group ?i st) b1" unfolding st by blast
  obtain gs1 cur1 where st1: "start_group ?i st = (gs1, cur1)" by fastforce
  have len: "length gs1 = ?i" using start_group_length [OF le, of cur] st st1 by simp
  let ?st = "(gs1, cur1 @ ks)"
  have built: "groups_built P ?st (fold AddKey ks b1)" using groups_built_AddKeys b1(2) st1 by simp
  have sorted: "sorted (map (\<lambda>(off, _). unat off div 2048) blocks)"
    and le': "\<forall>(off, _) \<in> set blocks. length (fst ?st) \<le> unat off div 2048"
    using Cons.prems(2) len by (auto simp: block)
  have okst: "\<forall>k \<in> set (concat (fst ?st)) \<union> set (snd ?st). ok k"
    using start_group_keys [of ?i st] Cons.prems(4,5) unfolding st1 block by auto
  have okb: "\<forall>(_, ks) \<in> set blocks. \<forall>k \<in> set ks. ok k" using Cons.prems(5) by simp
  from Cons.IH [OF built sorted le' okst okb] obtain b' st' where
    r: "filter_blocks P blocks (fold AddKey ks b1) = Some b'" "groups_built P st' b'"
      "\<forall>k \<in> set (concat (fst st')) \<union> set (snd st'). ok k" "\<forall>i k. in_group ?st i k \<longrightarrow> in_group st' i k"
      "\<forall>(off, ks) \<in> set blocks. \<forall>k \<in> set ks. in_group st' (unat off div 2048) k" by blast
  have keep: "in_group ?st i k" if "in_group st i k" for i k
    using in_group_start [OF that, of ?i] by (auto simp: st1 in_group_def)
  have new: "in_group ?st ?i k" if "k \<in> set ks" for k
    using that len by (simp add: in_group_def)
  have "\<forall>i k. in_group st i k \<longrightarrow> in_group st' i k" using keep r(4) by blast
  moreover have "\<forall>(off, ks) \<in> set (block # blocks). \<forall>k \<in> set ks. in_group st' (unat off div 2048) k"
    using new r(4,5) by (simp add: block)
  moreover have "filter_blocks P (block # blocks) b = Some b'" using b1(1) r(1) by (simp add: block)
  ultimately show ?case using r(2,3) by blast
qed

lemma filter_blocks_found:
  assumes "groups_built P st b" and "in_group st (unat off div 2048) k"
    and ok: "\<forall>ks. (\<forall>k \<in> set ks. ok k) \<longrightarrow> summarizes ks" and keys: "\<forall>k \<in> set (concat (fst st)) \<union> set (snd st). ok k"
    and "FilterBlock_Finish P b = Some (contents, b')" and "length contents < 2 ^ 32"
  shows "\<exists>r. FilterBlockReader_new contents = Some r \<and> FilterBlock_KeyMayMatch P off k r = Some True"
proof -
  obtain gs cur where st: "st = (gs, cur)" by (cases st)
  have cur: "summarizes cur" using ok keys by (simp add: st)
  from Finish_groups [OF assms(1) [unfolded st] cur] assms(5) have c: "contents = filter_block_bytes P (all_groups st)"
    by (simp add: st)
  note in_all = in_group_all [OF assms(2)]
  have "summarizes (all_groups st ! (unat off div 2048))"
  proof (rule ok [THEN spec, THEN mp])
    from in_all have "all_groups st ! (unat off div 2048) \<in> set (all_groups st)" by simp
    then show "\<forall>k \<in> set (all_groups st ! (unat off div 2048)). ok k"
      using keys by (auto simp: st all_groups_def split: if_splits)
  qed
  with KeyMayMatch_found [of off "all_groups st" k] in_all assms(6) show ?thesis unfolding c by blast
qed

end

end
