(* ===== verification/Ldb_TableBuilder.thy ===== *)
theory Ldb_TableBuilder
  imports Ldb_Format Ldb_FilterBlock
begin

text \<open>
  Building a table file, \<open>table/table_builder.cc\<close>. The file is written through a \<open>WritableFile\<close>; \<open>addr\<close>
  gives the addresses of the buffers the checksums are computed over. The filter block builder keeps the
  policy it was created with; the block builders use the options of the table builder, which
  \<open>ChangeOptions\<close> may replace.
\<close>

record 'f TableBuilder =
  r_options :: Options
  r_index_block_options :: Options
  r_file :: 'f
  r_offset :: u64
  r_status :: status
  r_data_block :: BlockBuilder
  r_index_block :: BlockBuilder
  r_last_key :: "byte list"
  r_num_entries :: int
  r_closed :: bool
  r_filter_block :: "(FilterPolicy \<times> FilterBlockBuilder) option"
  r_pending_index_entry :: bool
  r_pending_handle :: BlockHandle

definition on_filter ::
  "(FilterPolicy \<Rightarrow> FilterBlockBuilder \<Rightarrow> FilterBlockBuilder option) \<Rightarrow> 'f TableBuilder \<Rightarrow> 'f TableBuilder option" where
  "on_filter f r =
     (case r_filter_block r of None \<Rightarrow> Some r
      | Some (P, b) \<Rightarrow> map_option (\<lambda>b. r\<lparr>r_filter_block := Some (P, b)\<rparr>) (f P b))"

definition TableBuilder_new :: "Options \<Rightarrow> 'f \<Rightarrow> 'f TableBuilder option" where
  "TableBuilder_new options file =
     Option.bind (BlockBuilder_new options) (\<lambda>data_block.
     Option.bind (BlockBuilder_new options) (\<lambda>index_block.
     on_filter (\<lambda>P. StartBlock P 0)
       \<lparr>r_options = options, r_index_block_options = options\<lparr>block_restart_interval := 1\<rparr>, r_file = file,
        r_offset = 0, r_status = Status_OK, r_data_block = data_block, r_index_block = index_block,
        r_last_key = [], r_num_entries = 0, r_closed = False,
        r_filter_block = map_option (\<lambda>P. (P, FilterBlockBuilder_new)) (o_filter_policy options),
        r_pending_index_entry = False, r_pending_handle = BlockHandle_new\<rparr>))"

text \<open>The destructor checks that the builder was closed.\<close>

definition delete_TableBuilder :: "'f TableBuilder \<Rightarrow> unit option" where
  "delete_TableBuilder r = (if r_closed r then Some () else None)"

text \<open>Whether the new options point to the same comparator object is an argument.\<close>

definition ChangeOptions :: "bool \<Rightarrow> Options \<Rightarrow> 'f TableBuilder \<Rightarrow> status \<times> 'f TableBuilder" where
  "ChangeOptions same_comparator options r =
     (if \<not> same_comparator then (InvalidArgument (bytes_of ''changing comparator while building table'') [], r)
      else (Status_OK, r\<lparr>r_options := options, r_index_block_options := options\<lparr>block_restart_interval := 1\<rparr>\<rparr>))"

definition builder_ok :: "'f TableBuilder \<Rightarrow> bool" where
  "builder_ok r \<longleftrightarrow> status_ok (r_status r)"

section \<open>Writing blocks\<close>

definition append_to_file :: "'f WritableFile \<Rightarrow> slice \<Rightarrow> 'f TableBuilder \<Rightarrow> 'f TableBuilder" where
  "append_to_file F d r = (case wf_Append F d (r_file r) of (s, file) \<Rightarrow> r\<lparr>r_file := file, r_status := s\<rparr>)"

definition WriteRawBlock ::
  "(byte list \<Rightarrow> nat) \<Rightarrow> 'f WritableFile \<Rightarrow> slice \<Rightarrow> CompressionType \<Rightarrow> 'f TableBuilder \<Rightarrow>
    (BlockHandle \<times> 'f TableBuilder) option" where
  "WriteRawBlock addr F block_contents ctype r =
     (let handle = \<lparr>bh_offset = r_offset r, bh_size = of_nat (length block_contents)\<rparr>;
          r = append_to_file F block_contents r in
      if builder_ok r then
        Option.bind (crc32c_Value True (addr block_contents) block_contents) (\<lambda>crc.
        map_option (\<lambda>crc.
          let trailer = compression_byte ctype # EncodeFixed32 True (Mask crc);
              r = append_to_file F trailer r in
          (handle, if builder_ok r then r\<lparr>r_offset := r_offset r + of_nat (length block_contents + kBlockTrailerSize)\<rparr> else r))
          (Extend True (addr [compression_byte ctype]) crc [compression_byte ctype]))
      else Some (handle, r))"

definition choose_contents :: "CompressionType \<Rightarrow> slice \<Rightarrow> slice \<times> CompressionType" where
  "choose_contents ctype raw =
     (case ctype of
        kNoCompression \<Rightarrow> (raw, ctype)
      | kSnappyCompression \<Rightarrow>
          (case Snappy_Compress raw of
             Some compressed \<Rightarrow>
               if length compressed < length raw - length raw div 8 then (compressed, ctype) else (raw, kNoCompression)
           | None \<Rightarrow> (raw, kNoCompression)))"

text \<open>The handle, the block builder after its \<open>Reset\<close>, and the table builder.\<close>

definition WriteBlock ::
  "(byte list \<Rightarrow> nat) \<Rightarrow> 'f WritableFile \<Rightarrow> BlockBuilder \<Rightarrow> 'f TableBuilder \<Rightarrow>
    (BlockHandle \<times> BlockBuilder \<times> 'f TableBuilder) option" where
  "WriteBlock addr F block r =
     (if builder_ok r then
        (case BlockBuilder_Finish block of (raw, block) \<Rightarrow>
         case choose_contents (compression (r_options r)) raw of (block_contents, ctype) \<Rightarrow>
           map_option (\<lambda>(handle, r). (handle, BlockBuilder_Reset, r)) (WriteRawBlock addr F block_contents ctype r))
      else None)"

section \<open>Adding entries\<close>

definition Flush :: "(byte list \<Rightarrow> nat) \<Rightarrow> 'f WritableFile \<Rightarrow> 'f TableBuilder \<Rightarrow> 'f TableBuilder option" where
  "Flush addr F r =
     (if r_closed r then None
      else if \<not> builder_ok r then Some r
      else if BlockBuilder_empty (r_data_block r) then Some r
      else if r_pending_index_entry r then None
      else
        Option.bind (WriteBlock addr F (r_data_block r) r) (\<lambda>(handle, block, r).
          let r = r\<lparr>r_data_block := block, r_pending_handle := handle\<rparr>;
              r = (if builder_ok r then
                     (case wf_Flush F (r_file r) of (s, file) \<Rightarrow> r\<lparr>r_pending_index_entry := True, r_file := file, r_status := s\<rparr>)
                   else r) in
          on_filter (\<lambda>P. StartBlock P (r_offset r)) r))"

text \<open>Adding the index entry of the last block, with the key chosen for it.\<close>

definition add_index_entry :: "slice \<Rightarrow> 'f TableBuilder \<Rightarrow> 'f TableBuilder option" where
  "add_index_entry last_key r =
     Option.bind (BlockHandle_EncodeTo [] (r_pending_handle r)) (\<lambda>handle_encoding.
     map_option (\<lambda>b. r\<lparr>r_last_key := last_key, r_index_block := b, r_pending_index_entry := False\<rparr>)
       (BlockBuilder_Add (r_index_block_options r) last_key handle_encoding (r_index_block r)))"

definition TableBuilder_Add ::
  "(byte list \<Rightarrow> nat) \<Rightarrow> 'f WritableFile \<Rightarrow> slice \<Rightarrow> slice \<Rightarrow> 'f TableBuilder \<Rightarrow> 'f TableBuilder option" where
  "TableBuilder_Add addr F k v r =
     (if r_closed r then None
      else if \<not> builder_ok r then Some r
      else if 0 < r_num_entries r \<and> \<not> 0 < Compare (o_comparator (r_options r)) k (r_last_key r) then None
      else
        Option.bind
          (if r_pending_index_entry r then
             (if BlockBuilder_empty (r_data_block r)
              then add_index_entry (FindShortestSeparator (o_comparator (r_options r)) (r_last_key r) k) r else None)
           else Some r) (\<lambda>r.
        Option.bind (on_filter (\<lambda>_ b. Some (AddKey k b)) r) (\<lambda>r.
        Option.bind (BlockBuilder_Add (r_options r) k v (r_data_block r)) (\<lambda>b.
          let r = r\<lparr>r_last_key := k, r_num_entries := r_num_entries r + 1, r_data_block := b\<rparr> in
          if block_size (r_options r) \<le> CurrentSizeEstimate (r_data_block r) then Flush addr F r else Some r))))"

section \<open>Finishing\<close>

definition write_filter ::
  "(byte list \<Rightarrow> nat) \<Rightarrow> 'f WritableFile \<Rightarrow> 'f TableBuilder \<Rightarrow> (BlockHandle \<times> 'f TableBuilder) option" where
  "write_filter addr F r =
     (case r_filter_block r of
        Some (P, b) \<Rightarrow>
          if builder_ok r then
            Option.bind (FilterBlock_Finish P b) (\<lambda>(contents, b).
              WriteRawBlock addr F contents kNoCompression (r\<lparr>r_filter_block := Some (P, b)\<rparr>))
          else Some (BlockHandle_new, r)
      | None \<Rightarrow> Some (BlockHandle_new, r))"

definition filter_key :: "FilterPolicy \<Rightarrow> slice" where
  "filter_key P = bytes_of ''filter.'' @ fp_Name P"

definition write_metaindex ::
  "(byte list \<Rightarrow> nat) \<Rightarrow> 'f WritableFile \<Rightarrow> BlockHandle \<Rightarrow> 'f TableBuilder \<Rightarrow> (BlockHandle \<times> 'f TableBuilder) option" where
  "write_metaindex addr F filter_block_handle r =
     (if builder_ok r then
        Option.bind (BlockBuilder_new (r_options r)) (\<lambda>meta_index_block.
        Option.bind
          (if r_filter_block r \<noteq> None then
             Option.bind (o_filter_policy (r_options r)) (\<lambda>P.
             Option.bind (BlockHandle_EncodeTo [] filter_block_handle) (\<lambda>handle_encoding.
               BlockBuilder_Add (r_options r) (filter_key P) handle_encoding meta_index_block))
           else Some meta_index_block) (\<lambda>meta_index_block.
        map_option (\<lambda>(handle, _, r). (handle, r)) (WriteBlock addr F meta_index_block r)))
      else Some (BlockHandle_new, r))"

definition write_index ::
  "(byte list \<Rightarrow> nat) \<Rightarrow> 'f WritableFile \<Rightarrow> 'f TableBuilder \<Rightarrow> (BlockHandle \<times> 'f TableBuilder) option" where
  "write_index addr F r =
     (if builder_ok r then
        Option.bind
          (if r_pending_index_entry r
           then add_index_entry (FindShortSuccessor (o_comparator (r_options r)) (r_last_key r)) r else Some r) (\<lambda>r.
        map_option (\<lambda>(handle, b, r). (handle, r\<lparr>r_index_block := b\<rparr>)) (WriteBlock addr F (r_index_block r) r))
      else Some (BlockHandle_new, r))"

definition write_footer ::
  "'f WritableFile \<Rightarrow> BlockHandle \<Rightarrow> BlockHandle \<Rightarrow> 'f TableBuilder \<Rightarrow> 'f TableBuilder option" where
  "write_footer F metaindex_block_handle index_block_handle r =
     (if builder_ok r then
        map_option (\<lambda>footer_encoding.
          let r = append_to_file F footer_encoding r in
          if builder_ok r then r\<lparr>r_offset := r_offset r + of_nat (length footer_encoding)\<rparr> else r)
          (Footer_EncodeTo [] \<lparr>metaindex_handle = metaindex_block_handle, index_handle = index_block_handle\<rparr>)
      else Some r)"

definition TableBuilder_Finish ::
  "(byte list \<Rightarrow> nat) \<Rightarrow> 'f WritableFile \<Rightarrow> 'f TableBuilder \<Rightarrow> (status \<times> 'f TableBuilder) option" where
  "TableBuilder_Finish addr F r =
     Option.bind (Flush addr F r) (\<lambda>r.
       if r_closed r then None
       else
         let r = r\<lparr>r_closed := True\<rparr> in
         Option.bind (write_filter addr F r) (\<lambda>(filter_block_handle, r).
         Option.bind (write_metaindex addr F filter_block_handle r) (\<lambda>(metaindex_block_handle, r).
         Option.bind (write_index addr F r) (\<lambda>(index_block_handle, r).
         map_option (\<lambda>r. (r_status r, r)) (write_footer F metaindex_block_handle index_block_handle r)))))"

definition Abandon :: "'f TableBuilder \<Rightarrow> 'f TableBuilder option" where
  "Abandon r = (if r_closed r then None else Some (r\<lparr>r_closed := True\<rparr>))"

definition NumEntries :: "'f TableBuilder \<Rightarrow> u64" where
  "NumEntries r = of_int (r_num_entries r)"

definition FileSize :: "'f TableBuilder \<Rightarrow> u64" where
  "FileSize r = r_offset r"

end
