(* ===== verification/Ldb_TableBuilder_Spec.thy ===== *)
theory Ldb_TableBuilder_Spec
  imports Ldb_TableBuilder
begin

text \<open>
  What the table builder writes: \<open>table_layout\<close> describes the bytes of a finished table, \<open>table_rep\<close> is the
  invariant of the builder between calls. A file either takes what is appended or reports an error, after
  which the builder does nothing more.
\<close>

section \<open>Files that report errors\<close>

locale table_file =
  fixes F :: "'f WritableFile" and good :: "'f \<Rightarrow> bool" and written :: "'f \<Rightarrow> byte list"
  assumes Append: "good f \<Longrightarrow> wf_Append F d f = (s, f') \<Longrightarrow> good f' \<and> (status_ok s \<longrightarrow> written f' = written f @ d)"
    and Flush: "good f \<Longrightarrow> wf_Flush F f = (s, f') \<Longrightarrow> good f' \<and> (status_ok s \<longrightarrow> written f' = written f)"
    and bounded: "good f \<Longrightarrow> length (written f) < 2 ^ 63"

interpretation posix_table_file: table_file "posix_writable_file dir_sync"
    "\<lambda>f. length (pw_data f) + pw_space f < 2 ^ 63" pw_data for dir_sync
  by unfold_locales
    (auto simp: posix_writable_file_def PosixWritableFile_Append_def PosixWritableFile_Flush_def fwrite_def Let_def
      min_def split: if_splits)

section \<open>Encoded blocks\<close>

definition encodes :: "byte list \<Rightarrow> entry list \<Rightarrow> bool" where
  "encodes c d \<longleftrightarrow> (\<exists>shs rs. shares shs d \<and> restarts_at shs d rs \<and> c = block_bytes shs rs d)"

lemma encodes_built: "built options shs rs d b \<Longrightarrow> encodes (fst (BlockBuilder_Finish b)) d"
  using Finish_built [of options shs rs d b] unfolding encodes_def built_def by blast

text \<open>A key is no longer than the entries up to it.\<close>

lemma key_length_le:
  assumes "shares shs es" and "i < length es"
  shows "length (fst (es ! i)) \<le> entry_off shs es (i + 1)"
  using assms(2)
proof (induction i)
  case 0
  with assms(1) have "shs ! 0 = 0" unfolding shares_def by (fastforce simp: prev_key_def)
  with entry_bytes_length [of "shs ! 0" "es ! 0"] show ?case unfolding entry_off_Suc [OF assms(1) 0] by simp
next
  case (Suc i)
  have "shs ! Suc i \<le> length (fst (es ! i))" "shs ! Suc i \<le> length (fst (es ! Suc i))"
    using assms(1) Suc.prems unfolding shares_def by (fastforce simp: prev_key_def)+
  moreover have "length (fst (es ! Suc i)) - shs ! Suc i \<le> length (entry_bytes (shs ! Suc i) (es ! Suc i))"
    using entry_bytes_length [of "shs ! Suc i" "es ! Suc i"] by simp
  moreover have "length (fst (es ! i)) \<le> entry_off shs es (i + 1)" using Suc by simp
  ultimately show ?case unfolding entry_off_Suc [OF assms(1) Suc.prems] by (simp add: entry_off_def)
qed

lemma keys_small:
  assumes "shares shs es" and "length (block_bytes shs rs es) < 2 ^ 32"
  shows "\<forall>e \<in> set es. length (fst e) < 2 ^ 32"
proof
  fix e
  assume "e \<in> set es"
  then obtain i where i: "i < length es" "e = es ! i" by (auto simp: in_set_conv_nth)
  have "entry_off shs es (i + 1) \<le> entry_off shs es (length es)"
    unfolding entry_off_def by (metis Suc_eq_plus1 Suc_leI append_take_drop_id concat_append i(1) le_add1 length_append min.absorb1 take_take)
  with key_length_le [OF assms(1) i(1)] block_bytes_length [OF assms(1), of rs] assms(2)
  show "length (fst e) < 2 ^ 32" unfolding i(2) by linarith
qed

context comparator
begin

lemma less_le_trans:
  assumes "key a" "key b" "key c" and "Compare C a b < 0" and "Compare C b c \<le> 0"
  shows "Compare C a c < 0"
proof (cases "Compare C b c = 0")
  case True
  with assms equal show ?thesis by simp
next
  case False
  with assms less_trans show ?thesis by (meson order_le_less)
qed

lemma encodes_open:
  assumes "encodes c d" and "sorted_entries (Compare C) d" and "\<forall>e \<in> set d. key (fst e)" and "length c < 2 ^ 32"
  shows "\<exists>s. open_block c = Some s \<and> block_at C key d (length d) s"
proof -
  from assms(1) obtain shs rs where sh: "shares shs d" "restarts_at shs d rs" and c: "c = block_bytes shs rs d"
    by (auto simp: encodes_def)
  from open_block_built [OF sh assms(4) [unfolded c] keys_small [OF sh(1) assms(4) [unfolded c]]] obtain it where
    "open_block (block_bytes shs rs d) = Some (InBlock it)" "on_entry (block_bytes shs rs d) d (entry_off shs d) rs (length d) it"
    by blast
  moreover note block_rep_built [OF sh assms(4) [unfolded c] keys_small [OF sh(1) assms(4) [unfolded c]]]
  ultimately show ?thesis using assms(2,3) unfolding c block_at_def by blast
qed

end

section \<open>Writing one block\<close>

lemma choose_contents_raw [simp]: "choose_contents c raw = (raw, kNoCompression)"
  by (cases c) (simp_all add: choose_contents_def Snappy_Compress_def)

lemma trailer_bytes:
  "compression_byte kNoCompression # EncodeFixed32 True (Mask (crc32c (crc32c 0 c) [compression_byte kNoCompression])) =
    [0] @ Fixed32 (Mask (crc32c 0 (c @ [0])))"
  by (simp add: crc32c_append)

text \<open>Only the file, the status and the offset change.\<close>

definition wrote :: "byte list \<Rightarrow> ('f \<Rightarrow> byte list) \<Rightarrow> 'f TableBuilder \<Rightarrow> 'f TableBuilder \<Rightarrow> bool" where
  "wrote d written r r' \<longleftrightarrow> r' = r\<lparr>r_file := r_file r', r_status := r_status r', r_offset := r_offset r'\<rparr> \<and>
     (builder_ok r' \<longrightarrow> written (r_file r') = written (r_file r) @ d \<and> r_offset r' = r_offset r + of_nat (length d)) \<and>
     (\<not> builder_ok r' \<longrightarrow> r_offset r' = r_offset r)"

context table_file
begin

lemma WriteRawBlock_wrote:
  assumes "good (r_file r)"
  shows "\<exists>r'. WriteRawBlock addr F c kNoCompression r =
      Some (\<lparr>bh_offset = r_offset r, bh_size = of_nat (length c)\<rparr>, r') \<and> good (r_file r') \<and>
    wrote (raw_block c) written r r'"
proof -
  obtain s1 f1 where a1: "wf_Append F c (r_file r) = (s1, f1)" by fastforce
  let ?t = "[0] @ Fixed32 (Mask (crc32c 0 (c @ [0])))"
  obtain s2 f2 where a2: "wf_Append F ?t f1 = (s2, f2)" by fastforce
  note g1 = Append [OF assms a1] and g2 = Append [OF _ a2]
  have r1: "append_to_file F c r = r\<lparr>r_file := f1, r_status := s1\<rparr>" by (simp add: append_to_file_def a1)
  show ?thesis
  proof (cases "status_ok s1")
    case False
    with g1 show ?thesis
      by (intro exI [of _ "r\<lparr>r_file := f1, r_status := s1\<rparr>"])
        (simp add: WriteRawBlock_def wrote_def Let_def r1 builder_ok_def)
  next
    case True
    have r2: "append_to_file F ?t (r\<lparr>r_file := f1, r_status := s1\<rparr>) = r\<lparr>r_file := f2, r_status := s2\<rparr>"
      using a2 by (simp add: append_to_file_def)
    let ?r3 = "if status_ok s2 then r\<lparr>r_file := f2, r_status := s2, r_offset := r_offset r + of_nat (length c + kBlockTrailerSize)\<rparr>
      else r\<lparr>r_file := f2, r_status := s2\<rparr>"
    have "WriteRawBlock addr F c kNoCompression r = Some (\<lparr>bh_offset = r_offset r, bh_size = of_nat (length c)\<rparr>, ?r3)"
      using True
      unfolding WriteRawBlock_def Let_def crc32c_Value_def Extend_crc32c bind.bind_lunit option.map trailer_bytes r1 r2
      by (simp add: builder_ok_def)
    moreover have "wrote (raw_block c) written r ?r3"
      using g1 g2 True by (simp add: wrote_def builder_ok_def raw_block_def kBlockTrailerSize_def)
    ultimately show ?thesis using g1 g2 by (intro exI [of _ ?r3]) simp
  qed
qed

text \<open>A block builder with its entries becomes an encoded block in the file.\<close>

lemma WriteBlock_wrote:
  assumes "good (r_file r)" and "builder_ok r"
  shows "\<exists>r'. WriteBlock addr F b r = Some (\<lparr>bh_offset = r_offset r,
      bh_size = of_nat (length (fst (BlockBuilder_Finish b)))\<rparr>, BlockBuilder_Reset, r') \<and> good (r_file r') \<and>
    wrote (raw_block (fst (BlockBuilder_Finish b))) written r r'"
  using WriteRawBlock_wrote [OF assms(1), of addr "fst (BlockBuilder_Finish b)"] assms(2)
  by (auto simp: WriteBlock_def split: prod.split)

end

section \<open>The builder between calls\<close>

definition place :: "byte list list \<Rightarrow> nat \<Rightarrow> nat" where
  "place cs j = length (concat (map raw_block (take j cs)))"

definition handle_at :: "byte list list \<Rightarrow> nat \<Rightarrow> BlockHandle" where
  "handle_at cs j = \<lparr>bh_offset = of_nat (place cs j), bh_size = of_nat (length (cs ! j))\<rparr>"

lemma place_append: "j \<le> length cs \<Longrightarrow> place (cs @ ds) j = place cs j"
  by (simp add: place_def)

lemma place_all: "place cs (length cs) = length (concat (map raw_block cs))"
  by (simp add: place_def)

lemma handle_at_append: "j < length cs \<Longrightarrow> handle_at (cs @ ds) j = handle_at cs j"
  by (simp add: handle_at_def place_append nth_append)

lemma place_Suc: "j < length cs \<Longrightarrow> place cs (Suc j) = place cs j + length (cs ! j) + 5"
  by (simp add: place_def take_Suc_conv_app_nth)

lemma place_mono: "i \<le> j \<Longrightarrow> place cs i \<le> place cs j"
  unfolding place_def by (metis concat_append le_Suc_ex length_append le_add1 map_append take_add)

lemma place_le: "place cs j \<le> length (concat (map raw_block cs))"
  unfolding place_def by (metis append_take_drop_id concat_append le_add1 length_append map_append)

lemma handle_set_at:
  assumes "j < length cs" and "length (concat (map raw_block cs)) < 2 ^ 63"
  shows "handle_set (handle_at cs j)"
proof -
  have small: "(of_nat n :: u64) \<noteq> NOT 0" if "n < 2 ^ 63" for n
  proof
    assume "(of_nat n :: u64) = NOT 0"
    then have "unat (of_nat n :: u64) = 2 ^ 64 - 1" by (simp add: unsigned_minus_1_eq_mask mask_eq_exp_minus_1)
    with that show False by (simp add: unsigned_of_nat take_bit_nat_eq_self)
  qed
  have "place cs j < 2 ^ 63" "length (cs ! j) < 2 ^ 63"
    using place_le [of cs j] place_le [of cs "Suc j"] place_Suc [OF assms(1)] assms(2) by linarith+
  with small show ?thesis by (simp add: handle_set_def handle_at_def)
qed

text \<open>
  The index entries made so far: each names its block and has a key at or behind the block's keys and
  before the keys of everything that follows; it is the separator of the block's last key and the next one.
\<close>

definition separates :: "Comparator \<Rightarrow> (slice \<Rightarrow> bool) \<Rightarrow> slice \<Rightarrow> slice \<Rightarrow> slice \<Rightarrow> bool" where
  "separates C key a sep x \<longleftrightarrow>
     (\<exists>y. key y \<and> Compare C a y < 0 \<and> Compare C y x \<le> 0 \<and> sep = FindShortestSeparator C a y)"

context comparator
begin

lemma separates_mono:
  "separates C key a sep z \<Longrightarrow> key z \<Longrightarrow> key x \<Longrightarrow> Compare C z x \<le> 0 \<Longrightarrow> separates C key a sep x"
  unfolding separates_def using trans by blast

end

lemma last_last: "ds \<noteq> [] \<Longrightarrow> [] \<notin> set ds \<Longrightarrow> last (concat ds) = last (last ds)"
  by (induction ds rule: rev_induct) auto

definition indexed ::
  "Comparator \<Rightarrow> (slice \<Rightarrow> bool) \<Rightarrow> entry list list \<Rightarrow> byte list list \<Rightarrow> entry list \<Rightarrow> entry list \<Rightarrow> bool" where
  "indexed C key ds cs cur ies \<longleftrightarrow> length ies \<le> length ds \<and>
     (\<forall>j < length ies. snd (ies ! j) = handle_bytes (handle_at cs j) \<and> key (fst (ies ! j)) \<and>
        (\<forall>x \<in> set (ds ! j). Compare C (fst x) (fst (ies ! j)) \<le> 0) \<and>
        (\<forall>x \<in> set (concat (drop (Suc j) ds) @ cur). Compare C (fst (ies ! j)) (fst x) < 0) \<and>
        (\<forall>x \<in> set (concat (drop (Suc j) ds) @ cur). separates C key (fst (last (ds ! j))) (fst (ies ! j)) (fst x)))"

text \<open>The keys of each block are in the group of its offset, those of the current one in the group of \<open>n\<close>.\<close>

definition filter_rep ::
  "(slice \<Rightarrow> bool) \<Rightarrow> FilterPolicy option \<Rightarrow> (FilterPolicy \<times> FilterBlockBuilder) option \<Rightarrow> nat \<Rightarrow> entry list list \<Rightarrow>
    byte list list \<Rightarrow> entry list \<Rightarrow> bool" where
  "filter_rep key policy fo n ds cs cur \<longleftrightarrow>
     (case policy of
        None \<Rightarrow> fo = None
      | Some P \<Rightarrow> \<exists>b st. fo = Some (P, b) \<and> groups_built P st b \<and> length (fst st) = n div 2048 \<and>
          (\<forall>k \<in> set (concat (fst st)) \<union> set (snd st). key k) \<and>
          (\<forall>j < length ds. \<forall>x \<in> set (ds ! j). in_group st (place cs j div 2048) (fst x)) \<and>
          (\<forall>x \<in> set cur. in_group st (n div 2048) (fst x)))"

lemma filter_repI:
  assumes "groups_built P st b" and "length (fst st) = n div 2048" and "\<forall>k \<in> set (concat (fst st)) \<union> set (snd st). key k"
    and "\<forall>j < length ds. \<forall>x \<in> set (ds ! j). in_group st (place cs j div 2048) (fst x)"
    and "\<forall>x \<in> set cur. in_group st (n div 2048) (fst x)"
  shows "filter_rep key (Some P) (Some (P, b)) n ds cs cur"
  unfolding filter_rep_def option.case by (intro exI [of _ b] exI [of _ st] conjI HOL.refl assms)

definition index_options :: "Options \<Rightarrow> Options" where
  "index_options options = options\<lparr>block_restart_interval := 1\<rparr>"

lemma index_options_simps [simp]:
  "o_comparator (index_options options) = o_comparator options" "block_restart_interval (index_options options) = 1"
  by (simp_all add: index_options_def)

definition pending_rep :: "entry list list \<Rightarrow> byte list list \<Rightarrow> entry list \<Rightarrow> entry list \<Rightarrow> 'f TableBuilder \<Rightarrow> bool" where
  "pending_rep ds cs cur ies r \<longleftrightarrow>
     (if r_pending_index_entry r
      then ds \<noteq> [] \<and> cur = [] \<and> length ds = Suc (length ies) \<and> r_pending_handle r = handle_at cs (length ies)
      else length ds = length ies \<and> (cur = [] \<longrightarrow> ds = []))"

definition table_rep ::
  "Comparator \<Rightarrow> (slice \<Rightarrow> bool) \<Rightarrow> ('f \<Rightarrow> byte list) \<Rightarrow> Options \<Rightarrow> entry list list \<Rightarrow> byte list list \<Rightarrow> entry list \<Rightarrow>
    entry list \<Rightarrow> 'f TableBuilder \<Rightarrow> bool" where
  "table_rep C key written options ds cs cur ies r \<longleftrightarrow>
     r_options r = options \<and> r_index_block_options r = index_options options \<and>
     [] \<notin> set ds \<and> list_all2 encodes cs ds \<and> written (r_file r) = concat (map raw_block cs) \<and>
     r_offset r = of_nat (length (written (r_file r))) \<and>
     (\<exists>shs rs. built options shs rs cur (r_data_block r)) \<and>
     (\<exists>shs rs. built (index_options options) shs rs ies (r_index_block r)) \<and>
     indexed C key ds cs cur ies \<and> pending_rep ds cs cur ies r \<and>
     (concat ds @ cur \<noteq> [] \<longrightarrow> r_last_key r = fst (last (concat ds @ cur))) \<and>
     r_num_entries r = int (length (concat ds @ cur)) \<and>
     filter_rep key (o_filter_policy options) (r_filter_block r) (length (written (r_file r))) ds cs cur"

lemma table_repD:
  assumes "table_rep C key written options ds cs cur ies r"
  shows "r_options r = options" "r_index_block_options r = index_options options" "[] \<notin> set ds" "list_all2 encodes cs ds"
    "length cs = length ds" "written (r_file r) = concat (map raw_block cs)" "place cs (length cs) = length (written (r_file r))"
    "r_offset r = of_nat (length (written (r_file r)))"
    "\<exists>shs rs. built options shs rs cur (r_data_block r)" "\<exists>shs rs. built (index_options options) shs rs ies (r_index_block r)"
    "indexed C key ds cs cur ies" "pending_rep ds cs cur ies r"
    "concat ds @ cur \<noteq> [] \<Longrightarrow> r_last_key r = fst (last (concat ds @ cur))" "r_num_entries r = int (length (concat ds @ cur))"
    "filter_rep key (o_filter_policy options) (r_filter_block r) (length (written (r_file r))) ds cs cur"
proof -
  note rep = assms [unfolded table_rep_def]
  show "length cs = length ds" using rep list_all2_lengthD by blast
  show "place cs (length cs) = length (written (r_file r))" using rep place_all [of cs] by argo
qed (use assms [unfolded table_rep_def] in blast)+

text \<open>Options a table can be built and read with: the filter policy takes any keys and any question.\<close>

locale table_options = comparator C key for C :: Comparator and key :: "slice \<Rightarrow> bool" +
  fixes options :: Options
  assumes comparator: "o_comparator options = C" and interval: "1 \<le> block_restart_interval options"
    and policy: "o_filter_policy options = Some P \<Longrightarrow>
      \<exists>summarizes. filter_policy P summarizes \<and> (\<forall>ks. (\<forall>k \<in> set ks. key k) \<longrightarrow> summarizes ks)"
    and policy_answers: "o_filter_policy options = Some P \<Longrightarrow> key k \<Longrightarrow> \<exists>b. KeyMayMatch P k f = Some b"

locale table_building = table_file F good written + table_options C key options
  for F :: "'f WritableFile" and good written C key options
begin

definition table_inv :: "entry list \<Rightarrow> 'f TableBuilder \<Rightarrow> bool" where
  "table_inv es r \<longleftrightarrow> \<not> r_closed r \<and> good (r_file r) \<and> sorted_entries (Compare C) es \<and> (\<forall>e \<in> set es. key (fst e)) \<and>
     (builder_ok r \<longrightarrow> (\<exists>ds cs cur ies. es = concat ds @ cur \<and> table_rep C key written options ds cs cur ies r))"

text \<open>The filter block builder at a new block offset, and a key for it.\<close>

lemma filter_start:
  assumes "filter_rep key (o_filter_policy options) (r_filter_block r) n ds cs cur" and "n \<le> m" and "m < 2 ^ 64"
    and "length cs = length ds"
  shows "\<exists>fo. on_filter (\<lambda>P. StartBlock P (of_nat m)) r = Some (r\<lparr>r_filter_block := fo\<rparr>) \<and>
    filter_rep key (o_filter_policy options) fo m ds cs [] \<and>
    (place cs (length cs) = n \<longrightarrow>
      filter_rep key (o_filter_policy options) fo m (ds @ [cur]) (cs @ [c]) [])"
proof (cases "o_filter_policy options")
  case None
  with assms(1) show ?thesis
    by (intro exI [of _ None]) (simp add: filter_rep_def on_filter_def)
next
  case (Some P)
  from policy [OF Some] obtain summarizes where P: "filter_policy P summarizes"
    and ok: "\<And>ks. \<forall>k \<in> set ks. key k \<Longrightarrow> summarizes ks" by blast
  from assms(1) Some obtain b gs grp where b: "r_filter_block r = Some (P, b)" "groups_built P (gs, grp) b"
    "length gs = n div 2048" "\<forall>k \<in> set (concat gs) \<union> set grp. key k"
    "\<forall>j < length ds. \<forall>x \<in> set (ds ! j). in_group (gs, grp) (place cs j div 2048) (fst x)"
    "\<forall>x \<in> set cur. in_group (gs, grp) (n div 2048) (fst x)"
    by (auto simp: filter_rep_def)
  have m: "unat (of_nat m :: u64) = m" using assms(3) by (simp add: unsigned_of_nat take_bit_nat_eq_self)
  have le: "length gs \<le> m div 2048" using b(3) assms(2) by (simp add: div_le_mono)
  from filter_policy.StartBlock_groups [OF P b(2), of "of_nat m"] ok b(4) le m obtain b' where
    b': "StartBlock P (of_nat m) b = Some b'" "groups_built P (start_group (m div 2048) (gs, grp)) b'" by auto
  let ?st = "start_group (m div 2048) (gs, grp)"
  have len: "length (fst ?st) = m div 2048" using start_group_length [OF le] by simp
  have keys: "\<forall>k \<in> set (concat (fst ?st)) \<union> set (snd ?st). key k"
    using start_group_keys [of "m div 2048" "(gs, grp)"] b(4) by simp
  have old: "\<forall>j < length ds. \<forall>x \<in> set (ds ! j). in_group ?st (place cs j div 2048) (fst x)"
    using b(5) in_group_start by blast
  have new: "\<forall>j < length (ds @ [cur]). \<forall>x \<in> set ((ds @ [cur]) ! j). in_group ?st (place (cs @ [c]) j div 2048) (fst x)"
    if "place cs (length cs) = n"
  proof (intro allI impI ballI)
    fix j x
    assume "j < length (ds @ [cur])" "x \<in> set ((ds @ [cur]) ! j)"
    then consider "j < length ds" "x \<in> set (ds ! j)" | "j = length ds" "x \<in> set cur"
      by (auto simp: nth_append less_Suc_eq split: if_splits)
    then show "in_group ?st (place (cs @ [c]) j div 2048) (fst x)"
      using old b(6) that in_group_start [of "(gs, grp)" "n div 2048" "fst x"] assms(4) by cases (simp_all add: place_append)
  qed
  have "filter_rep key (Some P) (Some (P, b')) m ds cs []"
    by (rule filter_repI [OF b'(2) len keys old]) simp
  moreover have "filter_rep key (Some P) (Some (P, b')) m (ds @ [cur]) (cs @ [c]) []" if "place cs (length cs) = n"
    by (rule filter_repI [OF b'(2) len keys new [OF that]]) simp
  ultimately show ?thesis using b(1) b'(1) Some by (intro exI [of _ "Some (P, b')"]) (simp add: on_filter_def)
qed

lemma filter_key_added:
  assumes "filter_rep key (o_filter_policy options) (r_filter_block r) n ds cs cur" and "key (fst e)"
  shows "\<exists>fo. on_filter (\<lambda>_ b. Some (AddKey (fst e) b)) r = Some (r\<lparr>r_filter_block := fo\<rparr>) \<and>
    filter_rep key (o_filter_policy options) fo n ds cs (cur @ [e])"
proof (cases "o_filter_policy options")
  case None
  with assms(1) show ?thesis
    by (intro exI [of _ None]) (simp add: filter_rep_def on_filter_def)
next
  case (Some P)
  with assms(1) obtain b gs grp where b: "r_filter_block r = Some (P, b)" "groups_built P (gs, grp) b"
    "length gs = n div 2048" "\<forall>k \<in> set (concat gs) \<union> set grp. key k"
    "\<forall>j < length ds. \<forall>x \<in> set (ds ! j). in_group (gs, grp) (place cs j div 2048) (fst x)"
    "\<forall>x \<in> set cur. in_group (gs, grp) (n div 2048) (fst x)"
    by (auto simp: filter_rep_def)
  have "in_group (gs, grp @ [fst e]) i k" if "in_group (gs, grp) i k" for i k using that by (auto simp: in_group_def)
  moreover have "in_group (gs, grp @ [fst e]) (n div 2048) (fst e)" using b(3) by (simp add: in_group_def)
  ultimately have "filter_rep key (Some P) (Some (P, AddKey (fst e) b)) n ds cs (cur @ [e])"
    using b(3-6) assms(2) by (intro filter_repI [OF groups_built_AddKey [OF b(2)]]) auto
  with b(1) Some show ?thesis by (intro exI [of _ "Some (P, AddKey (fst e) b)"]) (simp add: on_filter_def)
qed

text \<open>An index entry for the last block.\<close>

lemma index_added:
  assumes ix: "indexed C key ds cs [] ies" and len: "length ds = Suc (length ies)" and ne: "[] \<notin> set ds"
    and keys: "\<forall>x \<in> set (concat ds). key (fst x)"
    and b: "built (index_options options) shs rs ies b"
    and sep: "key sep" "\<forall>x \<in> set (last ds). Compare C (fst x) sep \<le> 0"
    and after: "\<forall>x \<in> set later. key (fst x) \<and> Compare C sep (fst x) < 0"
      "\<forall>x \<in> set later. separates C key (fst (last (last ds))) sep (fst x)"
  defines "e \<equiv> (sep, handle_bytes (handle_at cs (length ies)))"
  shows "\<exists>b' shs rs. BlockBuilder_Add (index_options options) sep (handle_bytes (handle_at cs (length ies))) b = Some b' \<and>
      built (index_options options) shs rs (ies @ [e]) b'"
    and "indexed C key ds cs later (ies @ [e])"
proof -
  have dsne: "ds \<noteq> []" using len by auto
  then have last: "last ds = ds ! length ies" using len by (simp add: last_conv_nth)
  have nz: "last ds \<noteq> []" using ne dsne by (metis last_in_set)
  have at: "Compare C (fst (ies ! j)) sep < 0 \<and> (\<forall>x \<in> set (concat (drop (Suc j) ds)). Compare C (fst (ies ! j)) (fst x) < 0)"
    if j: "j < length ies" for j
  proof
    show *: "\<forall>x \<in> set (concat (drop (Suc j) ds)). Compare C (fst (ies ! j)) (fst x) < 0"
      using ix j by (simp add: indexed_def)
    obtain x where x: "x \<in> set (last ds)" using nz by (cases "last ds") auto
    have "last ds \<in> set (drop (Suc j) ds)" using j len by (metis Suc_less_eq drop_eq_Nil last_drop last_in_set not_le)
    then have "Compare C (fst (ies ! j)) (fst x) < 0" using * x by auto
    moreover have "key (fst (ies ! j))" using ix j by (simp add: indexed_def)
    moreover have "key (fst x)" using keys x dsne by (metis last_in_set UN_I set_concat)
    ultimately show "Compare C (fst (ies ! j)) sep < 0" using sep(1) sep(2) x less_le_trans by blast
  qed
  have "0 < Compare C sep (fst (last ies))" if "ies \<noteq> []"
  proof -
    from that have j: "length ies - 1 < length ies" "last ies = ies ! (length ies - 1)" by (simp_all add: last_conv_nth)
    moreover have "key (fst (ies ! (length ies - 1)))" using ix j(1) by (simp add: indexed_def)
    ultimately show ?thesis using at [OF j(1)] flip [of sep "fst (last ies)"] sep(1) by simp
  qed
  with BlockBuilder_Add_built [OF b, of e] comparator
  show "\<exists>b' shs rs. BlockBuilder_Add (index_options options) sep (handle_bytes (handle_at cs (length ies))) b = Some b' \<and>
      built (index_options options) shs rs (ies @ [e]) b'" by (auto simp: e_def)
  have separates_later: "separates C key (fst (last (ds ! j))) (fst (ies ! j)) (fst x)"
    if j: "j < length ies" and x: "x \<in> set later"
      and old: "\<forall>z \<in> set (concat (drop (Suc j) ds)). separates C key (fst (last (ds ! j))) (fst (ies ! j)) (fst z)" for j x
  proof -
    have z: "last (last ds) \<in> set (last ds)" using nz by simp
    have "last ds \<in> set (drop (Suc j) ds)" using j len by (metis Suc_less_eq drop_eq_Nil last_drop last_in_set not_le)
    with z old have "separates C key (fst (last (ds ! j))) (fst (ies ! j)) (fst (last (last ds)))" by auto
    moreover have kz: "key (fst (last (last ds)))" using keys z dsne by (metis last_in_set UN_I set_concat)
    moreover have "key (fst x)" "Compare C (fst (last (last ds))) (fst x) \<le> 0"
      using after(1) x sep z le_less_trans [OF kz sep(1)] by (auto intro: less_imp_le)
    ultimately show ?thesis using separates_mono by blast
  qed
  show "indexed C key ds cs later (ies @ [e])"
    unfolding indexed_def
  proof (intro conjI allI impI)
    fix j
    assume "j < length (ies @ [e])"
    then consider "j < length ies" | "j = length ies" by fastforce
    then have "snd ((ies @ [e]) ! j) = handle_bytes (handle_at cs j) \<and> key (fst ((ies @ [e]) ! j)) \<and>
      (\<forall>x \<in> set (ds ! j). Compare C (fst x) (fst ((ies @ [e]) ! j)) \<le> 0) \<and>
      (\<forall>x \<in> set (concat (drop (Suc j) ds) @ later). Compare C (fst ((ies @ [e]) ! j)) (fst x) < 0) \<and>
      (\<forall>x \<in> set (concat (drop (Suc j) ds) @ later). separates C key (fst (last (ds ! j))) (fst ((ies @ [e]) ! j)) (fst x))"
    proof cases
      case 1
      then have now: "snd (ies ! j) = handle_bytes (handle_at cs j)" "key (fst (ies ! j))"
        "\<forall>x \<in> set (ds ! j). Compare C (fst x) (fst (ies ! j)) \<le> 0" using ix by (simp_all add: indexed_def)
      have "\<forall>x \<in> set later. Compare C (fst (ies ! j)) (fst x) < 0"
        using at [OF 1] after(1) less_trans [OF now(2) sep(1)] by blast
      moreover have "\<forall>x \<in> set (concat (drop (Suc j) ds)). separates C key (fst (last (ds ! j))) (fst (ies ! j)) (fst x)"
        using ix 1 by (simp add: indexed_def)
      moreover from this have "\<forall>x \<in> set later. separates C key (fst (last (ds ! j))) (fst (ies ! j)) (fst x)"
        using separates_later [OF 1] by blast
      ultimately show ?thesis using at [OF 1] now 1 by (simp only: nth_append if_True set_append ball_Un) blast
    next
      case 2
      with sep after len last show ?thesis by (simp add: e_def)
    qed
    then show "snd ((ies @ [e]) ! j) = handle_bytes (handle_at cs j)" "key (fst ((ies @ [e]) ! j))"
      "\<forall>x \<in> set (ds ! j). Compare C (fst x) (fst ((ies @ [e]) ! j)) \<le> 0"
      "\<forall>x \<in> set (concat (drop (Suc j) ds) @ later). Compare C (fst ((ies @ [e]) ! j)) (fst x) < 0"
      "\<forall>x \<in> set (concat (drop (Suc j) ds) @ later). separates C key (fst (last (ds ! j))) (fst ((ies @ [e]) ! j)) (fst x)"
      by blast+
  qed (use len in simp)
qed

lemma written_small: "good f \<Longrightarrow> unat (of_nat (length (written f)) :: u64) = length (written f)"
  using bounded [of f] by (simp add: unsigned_of_nat take_bit_nat_eq_self)

lemma indexed_moved:
  "indexed C key ds cs cur ies \<Longrightarrow> length cs = length ds \<Longrightarrow> indexed C key (ds @ [cur]) (cs @ [c]) [] ies"
  by (auto simp: indexed_def handle_at_append nth_append)

text \<open>The current entries become a block of the file.\<close>

lemma block_written:
  assumes rep: "table_rep C key written options ds cs cur ies r" and good: "good (r_file r)" "builder_ok r"
    and cur: "cur \<noteq> []"
  shows "\<exists>r' c. WriteBlock addr F (r_data_block r) r =
      Some (\<lparr>bh_offset = r_offset r, bh_size = of_nat (length c)\<rparr>, BlockBuilder_Reset, r') \<and> good (r_file r') \<and>
    wrote (raw_block c) written r r' \<and> encodes c cur"
proof -
  from rep obtain shs rs where "built options shs rs cur (r_data_block r)" by (auto simp: table_rep_def)
  from WriteBlock_wrote [OF good, of addr "r_data_block r"] encodes_built [OF this] show ?thesis by blast
qed

lemma table_rep_flushed:
  assumes rep: "table_rep C key written options ds cs cur ies r" and cur: "cur \<noteq> []" and c: "encodes c cur"
    and w: "wrote (raw_block c) written r r1" "builder_ok r1" and f: "written f = written (r_file r1)"
    and fo: "filter_rep key (o_filter_policy options) fo (length (written (r_file r1))) (ds @ [cur]) (cs @ [c]) []"
  shows "table_rep C key written options (ds @ [cur]) (cs @ [c]) [] ies
    (r1\<lparr>r_data_block := BlockBuilder_Reset, r_pending_handle := \<lparr>bh_offset = r_offset r, bh_size = of_nat (length c)\<rparr>,
        r_pending_index_entry := True, r_file := f, r_status := s, r_filter_block := fo\<rparr>)"
proof -
  have r1: "r1 = r\<lparr>r_file := r_file r1, r_status := r_status r1, r_offset := r_offset r1\<rparr>"
    "written (r_file r1) = written (r_file r) @ raw_block c" "r_offset r1 = r_offset r + of_nat (length (raw_block c))"
    using w unfolding wrote_def by blast+
  have same: "r_options r1 = r_options r" "r_index_block_options r1 = r_index_block_options r" "r_index_block r1 = r_index_block r"
    "r_last_key r1 = r_last_key r" "r_num_entries r1 = r_num_entries r" by (subst r1(1), simp)+
  note len = table_repD(5) [OF rep]
  have "\<not> r_pending_index_entry r" and ies: "length ds = length ies"
    using rep cur by (auto simp: table_rep_def pending_rep_def split: if_splits)
  have h: "\<lparr>bh_offset = r_offset r, bh_size = of_nat (length c)\<rparr> = handle_at (cs @ [c]) (length ies)"
    using rep len ies place_all [of cs] by (simp add: handle_at_def table_rep_def place_append nth_append)
  have "indexed C key (ds @ [cur]) (cs @ [c]) [] ies"
    using rep len by (intro indexed_moved) (simp_all add: table_rep_def)
  moreover have "\<exists>shs rs. built options shs rs [] BlockBuilder_Reset" using built_Reset [OF interval] by blast
  ultimately show ?thesis
    using rep cur c fo f r1(2,3) len ies h unfolding table_rep_def pending_rep_def
    by (simp add: same list_all2_appendI)
qed

lemma Flush_inv:
  assumes inv: "table_inv es r"
  shows "\<exists>r'. Flush addr F r = Some r' \<and> table_inv es r' \<and> (builder_ok r' \<longrightarrow> BlockBuilder_empty (r_data_block r'))"
proof (cases "builder_ok r \<and> \<not> BlockBuilder_empty (r_data_block r)")
  case False
  with inv show ?thesis by (intro exI [of _ r]) (auto simp: Flush_def table_inv_def)
next
  case True
  then have ok: "builder_ok r" by simp
  from inv ok have good: "good (r_file r)" and open': "\<not> r_closed r" by (simp_all add: table_inv_def)
  from inv ok obtain ds cs cur ies where es: "es = concat ds @ cur" and rep: "table_rep C key written options ds cs cur ies r"
    by (auto simp: table_inv_def)
  note len = table_repD(5) [OF rep]
  from rep obtain shs rs where b: "built options shs rs cur (r_data_block r)" by (auto simp: table_rep_def)
  then have cur: "cur \<noteq> []" using True by (auto simp: BlockBuilder_empty_def built_def)
  then have np: "\<not> r_pending_index_entry r" using rep by (auto simp: table_rep_def pending_rep_def)
  from block_written [OF rep good ok cur] obtain r1 c where
    w: "WriteBlock addr F (r_data_block r) r = Some (\<lparr>bh_offset = r_offset r, bh_size = of_nat (length c)\<rparr>, BlockBuilder_Reset, r1)"
      "good (r_file r1)" "wrote (raw_block c) written r r1" "encodes c cur" by blast
  have r1: "r1 = r\<lparr>r_file := r_file r1, r_status := r_status r1, r_offset := r_offset r1\<rparr>" using w(3) by (simp add: wrote_def)
  have same: "r_filter_block r1 = r_filter_block r" "r_closed r1 = r_closed r" by (subst r1, simp)+
  let ?n = "length (written (r_file r))"
  let ?r2 = "r1\<lparr>r_data_block := BlockBuilder_Reset, r_pending_handle := \<lparr>bh_offset = r_offset r, bh_size = of_nat (length c)\<rparr>\<rparr>"
  note fil = table_repD(15) [OF rep] and off = table_repD(8) [OF rep] and n = table_repD(7) [OF rep]
  have step: "Flush addr F r = on_filter (\<lambda>P. StartBlock P (r_offset r3)) r3"
    if "r3 = (if builder_ok ?r2 then case wf_Flush F (r_file ?r2) of (s, file) \<Rightarrow>
        ?r2\<lparr>r_pending_index_entry := True, r_file := file, r_status := s\<rparr> else ?r2)" for r3
    using True open' np w(1) unfolding Flush_def that by (simp add: Let_def)
  show ?thesis
  proof (cases "builder_ok r1")
    case False
    then have "Flush addr F r = on_filter (\<lambda>P. StartBlock P (r_offset ?r2)) ?r2"
      using step [of ?r2] by (simp add: builder_ok_def)
    moreover have "r_offset ?r2 = of_nat ?n" "r_filter_block ?r2 = r_filter_block r"
      using False w(3) off same by (simp_all add: wrote_def)
    moreover have "?n < 2 ^ 64" using bounded [OF good] by simp
    ultimately obtain fo where "Flush addr F r = Some (?r2\<lparr>r_filter_block := fo\<rparr>)"
      using filter_start [where r = ?r2 and n = ?n and m = ?n and cur = cur and c = c, OF _ order_refl _ len] fil by auto
    with False w(2) inv open' same show ?thesis
      by (intro exI [of _ "?r2\<lparr>r_filter_block := fo\<rparr>"]) (simp add: table_inv_def builder_ok_def BlockBuilder_empty_def BlockBuilder_Reset_def)
  next
    case ok1: True
    obtain s f where fl: "wf_Flush F (r_file r1) = (s, f)" by fastforce
    note g = Flush [OF w(2) fl]
    let ?r3 = "?r2\<lparr>r_pending_index_entry := True, r_file := f, r_status := s\<rparr>" and ?m = "length (written (r_file r1))"
    have "Flush addr F r = on_filter (\<lambda>P. StartBlock P (r_offset ?r3)) ?r3"
      using step [of ?r3] ok1 fl by (simp add: builder_ok_def)
    moreover have "r_offset ?r3 = of_nat ?m" "r_filter_block ?r3 = r_filter_block r" "?n \<le> ?m"
      using ok1 w(3) off same by (simp_all add: wrote_def)
    moreover have "?m < 2 ^ 64" using bounded [OF w(2)] by simp
    ultimately obtain fo where fo: "Flush addr F r = Some (?r3\<lparr>r_filter_block := fo\<rparr>)"
        "filter_rep key (o_filter_policy options) fo ?m (ds @ [cur]) (cs @ [c]) []"
      using filter_start [where r = ?r3 and n = ?n and m = ?m and c = c, OF _ _ _ len] fil n by auto
    have "table_rep C key written options (ds @ [cur]) (cs @ [c]) [] ies (?r3\<lparr>r_filter_block := fo\<rparr>)" if "status_ok s"
      using table_rep_flushed [OF rep cur w(4,3) ok1 _ fo(2)] g that by simp
    moreover have "es = concat (ds @ [cur]) @ []" by (simp add: es)
    ultimately have "builder_ok (?r3\<lparr>r_filter_block := fo\<rparr>) \<longrightarrow> (\<exists>ds cs cur ies. es = concat ds @ cur \<and>
        table_rep C key written options ds cs cur ies (?r3\<lparr>r_filter_block := fo\<rparr>))"
      unfolding builder_ok_def by (intro impI exI conjI) simp_all
    then have "table_inv es (?r3\<lparr>r_filter_block := fo\<rparr>)"
      using inv open' same(2) g by (simp add: table_inv_def)
    with fo(1) show ?thesis
      by (intro exI [of _ "?r3\<lparr>r_filter_block := fo\<rparr>"]) (simp add: BlockBuilder_empty_def BlockBuilder_Reset_def)
  qed
qed

text \<open>The first part of \<open>Add\<close>: the index entry that is still to be made.\<close>

definition indexed_first :: "slice \<Rightarrow> 'f TableBuilder \<Rightarrow> 'f TableBuilder option" where
  "indexed_first k r =
     (if r_pending_index_entry r then
        (if BlockBuilder_empty (r_data_block r)
         then add_index_entry (FindShortestSeparator (o_comparator (r_options r)) (r_last_key r) k) r else None)
      else Some r)"

lemma last_in_block:
  assumes "sorted_entries (Compare C) (concat ds)" and "\<forall>x \<in> set (concat ds). key (fst x)" and "ds \<noteq> []" "[] \<notin> set ds"
    and "x \<in> set (last ds)"
  shows "Compare C (fst x) (fst (last (concat ds))) \<le> 0"
proof -
  obtain ds' d where ds: "ds = ds' @ [d]" using assms(3) by (cases ds rule: rev_cases) auto
  have ne: "d \<noteq> []" using assms(4) ds by auto
  have sd: "sorted_entries (Compare C) d" using assms(1) by (simp add: ds sorted_entries_append)
  from assms(5) obtain i where i: "i < length d" "x = d ! i" by (auto simp: ds in_set_conv_nth)
  have "last (concat ds) = last d" using ne by (simp add: ds)
  then have "last (concat ds) = d ! (length d - 1)" using ne by (simp add: last_conv_nth)
  moreover have "Compare C (fst (d ! i)) (fst (d ! (length d - 1))) \<le> 0"
  proof (cases "i = length d - 1")
    case True
    with assms(2) i show ?thesis by (auto simp: ds)
  next
    case False
    with i(1) have "i < length d - 1" "length d - 1 < length d" by linarith+
    from sorted_entries_nth [OF sd this] show ?thesis by simp
  qed
  ultimately show ?thesis using i(2) by simp
qed

lemma indexed_first_rep:
  assumes rep: "table_rep C key written options ds cs cur ies r" and good: "good (r_file r)"
    and es: "sorted_entries (Compare C) (concat ds @ cur @ [e])" "\<forall>x \<in> set (concat ds @ cur @ [e]). key (fst x)"
  shows "\<exists>ib last_key ies' shs rs. indexed_first (fst e) r =
      Some (r\<lparr>r_last_key := last_key, r_index_block := ib, r_pending_index_entry := False\<rparr>) \<and>
    built (index_options options) shs rs ies' ib \<and> indexed C key ds cs (cur @ [e]) ies' \<and> length ds = length ies'"
proof (cases "r_pending_index_entry r")
  case True
  from rep True have p: "ds \<noteq> []" "cur = []" "length ds = Suc (length ies)" "r_pending_handle r = handle_at cs (length ies)"
    using table_repD(12) [OF rep] by (simp_all add: pending_rep_def)
  obtain shs rs where db: "built options shs rs cur (r_data_block r)" using table_repD(9) [OF rep] by blast
  obtain ishs irs where ib: "built (index_options options) ishs irs ies (r_index_block r)" using table_repD(10) [OF rep] by blast
  have ne: "concat ds \<noteq> []" using p(1) table_repD(3) [OF rep] by (cases ds) auto
  have lk: "r_last_key r = fst (last (concat ds))" using table_repD(13) [OF rep] ne p(2) by simp
  let ?last = "fst (last (concat ds))"
  have mem: "last (concat ds) \<in> set (concat ds)" using ne by (rule last_in_set)
  have kl: "key ?last" using mem es(2) unfolding set_append by blast
  have ke: "key (fst e)" using es(2) by simp
  from mem have less: "Compare C ?last (fst e) < 0" using es(1) p(2) by (auto simp: sorted_entries_append)
  let ?sep = "FindShortestSeparator C ?last (fst e)"
  note sep = separator [OF kl ke less]
  have below: "\<forall>x \<in> set (last ds). Compare C (fst x) ?sep \<le> 0"
  proof
    fix x
    assume x: "x \<in> set (last ds)"
    have "sorted_entries (Compare C) (concat ds)" using es(1) by (simp add: sorted_entries_append)
    from last_in_block [OF this _ p(1) table_repD(3) [OF rep] x] es(2) have "Compare C (fst x) ?last \<le> 0" by simp
    moreover have "key (fst x)" using x p(1) es(2) by (auto intro!: bspec [OF es(2)] bexI [of _ "last ds"])
    ultimately show "Compare C (fst x) ?sep \<le> 0" using sep kl trans by blast
  qed
  have after: "\<forall>x \<in> set [e]. key (fst x) \<and> Compare C ?sep (fst x) < 0" using sep ke by simp
  have ix: "indexed C key ds cs [] ies" using table_repD(11) [OF rep] p(2) by simp
  have keys: "\<forall>x \<in> set (concat ds). key (fst x)" using es(2) by simp
  have "last (last ds) = last (concat ds)" using p(1) table_repD(3) [OF rep] by (simp add: last_last)
  moreover have "separates C key ?last ?sep (fst e)" using ke less unfolding separates_def by (intro exI [of _ "fst e"]) simp
  ultimately have apart: "\<forall>x \<in> set [e]. separates C key (fst (last (last ds))) ?sep (fst x)" by simp
  note added = index_added [OF ix p(3) table_repD(3) [OF rep] keys ib conjunct1 [OF sep] below after apart]
  have "handle_set (handle_at cs (length ies))"
    using table_repD(5,6) [OF rep] p(3) bounded [OF good] by (intro handle_set_at) simp_all
  then have enc: "BlockHandle_EncodeTo [] (r_pending_handle r) = Some (handle_bytes (handle_at cs (length ies)))"
    by (simp add: p(4) BlockHandle_EncodeTo_set)
  have "BlockBuilder_empty (r_data_block r)" using db p(2) by (simp add: built_def BlockBuilder_empty_def)
  moreover obtain ib' shs' rs' where ib': "BlockBuilder_Add (index_options options) ?sep (handle_bytes (handle_at cs (length ies)))
      (r_index_block r) = Some ib'"
    "built (index_options options) shs' rs' (ies @ [(?sep, handle_bytes (handle_at cs (length ies)))]) ib'"
    using added(1) by blast
  ultimately have "indexed_first (fst e) r = Some (r\<lparr>r_last_key := ?sep, r_index_block := ib', r_pending_index_entry := False\<rparr>)"
    using True lk enc table_repD(1,2) [OF rep] by (simp add: indexed_first_def add_index_entry_def comparator)
  with ib'(2) added(2) p(2,3) show ?thesis
    by (intro exI [of _ ib'] exI [of _ ?sep] exI [of _ "ies @ [(?sep, handle_bytes (handle_at cs (length ies)))]"]
        exI [of _ shs'] exI [of _ rs']) simp
next
  case False
  then have p: "length ds = length ies" "cur = [] \<longrightarrow> ds = []" using table_repD(12) [OF rep] by (simp_all add: pending_rep_def)
  obtain ishs irs where ib: "built (index_options options) ishs irs ies (r_index_block r)" using table_repD(10) [OF rep] by blast
  note ix = table_repD(11) [OF rep]
  have "Compare C (fst (ies ! j)) (fst e) < 0 \<and> separates C key (fst (last (ds ! j))) (fst (ies ! j)) (fst e)"
    if j: "j < length ies" for j
  proof -
    from j p have cur: "cur \<noteq> []" by auto
    then have mem: "last cur \<in> set cur" by simp
    then have "Compare C (fst (ies ! j)) (fst (last cur)) < 0" "key (fst (ies ! j))"
      "separates C key (fst (last (ds ! j))) (fst (ies ! j)) (fst (last cur))" using ix j by (simp_all add: indexed_def)
    moreover have "Compare C (fst (last cur)) (fst e) < 0" "key (fst (last cur))" "key (fst e)"
      using es mem by (simp_all add: sorted_entries_append)
    ultimately show ?thesis using less_trans separates_mono by (blast intro: less_imp_le)
  qed
  with ix have "indexed C key ds cs (cur @ [e]) ies" by (auto simp: indexed_def)
  moreover have "r = r\<lparr>r_last_key := r_last_key r, r_index_block := r_index_block r, r_pending_index_entry := False\<rparr>"
    using False by (cases r) simp
  ultimately have "indexed_first (fst e) r =
      Some (r\<lparr>r_last_key := r_last_key r, r_index_block := r_index_block r, r_pending_index_entry := False\<rparr>)"
    using False by (simp add: indexed_first_def)
  with ib p(1) \<open>indexed C key ds cs (cur @ [e]) ies\<close> show ?thesis
    by (intro exI [of _ "r_index_block r"] exI [of _ "r_last_key r"] exI [of _ ies] exI [of _ ishs] exI [of _ irs]) simp
qed

lemma TableBuilder_Add_inv:
  assumes inv: "table_inv es r" and sorted: "sorted_entries (Compare C) (es @ [e])" and ke: "key (fst e)"
  shows "\<exists>r'. TableBuilder_Add addr F (fst e) (snd e) r = Some r' \<and> table_inv (es @ [e]) r'"
proof (cases "builder_ok r")
  case False
  with inv sorted ke show ?thesis by (intro exI [of _ r]) (simp add: TableBuilder_Add_def table_inv_def)
next
  case True
  from inv have good: "good (r_file r)" and op: "\<not> r_closed r" and keys: "\<forall>e \<in> set es. key (fst e)" by (simp_all add: table_inv_def)
  from inv True obtain ds cs cur ies where es: "es = concat ds @ cur" and rep: "table_rep C key written options ds cs cur ies r"
    by (auto simp: table_inv_def)
  have order: "0 < Compare C (fst e) (fst x)" if "x \<in> set es" for x
    using that sorted keys ke flip [of "fst e" "fst x"] by (simp add: sorted_entries_append)
  have check: "\<not> (0 < r_num_entries r \<and> \<not> 0 < Compare (o_comparator (r_options r)) (fst e) (r_last_key r))"
  proof (cases "es = []")
    case True
    with table_repD(14) [OF rep] es show ?thesis by simp
  next
    case False
    with table_repD(13) [OF rep] es have "r_last_key r = fst (last es)" by simp
    with order [of "last es"] False table_repD(1) [OF rep] comparator show ?thesis by simp
  qed
  have "sorted_entries (Compare C) (concat ds @ cur @ [e])" "\<forall>x \<in> set (concat ds @ cur @ [e]). key (fst x)"
    using sorted keys ke by (auto simp: es)
  from indexed_first_rep [OF rep good this] obtain ib lk ies' ishs irs where
    first: "indexed_first (fst e) r = Some (r\<lparr>r_last_key := lk, r_index_block := ib, r_pending_index_entry := False\<rparr>)"
      "built (index_options options) ishs irs ies' ib" "indexed C key ds cs (cur @ [e]) ies'" "length ds = length ies'" by blast
  let ?r1 = "r\<lparr>r_last_key := lk, r_index_block := ib, r_pending_index_entry := False\<rparr>"
  from filter_key_added [of ?r1 "length (written (r_file r))" ds cs cur e] table_repD(15) [OF rep] ke obtain fo where
    fo: "on_filter (\<lambda>_ b. Some (AddKey (fst e) b)) ?r1 = Some (?r1\<lparr>r_filter_block := fo\<rparr>)"
      "filter_rep key (o_filter_policy options) fo (length (written (r_file r))) ds cs (cur @ [e])" by auto
  obtain shs rs where db: "built options shs rs cur (r_data_block r)" using table_repD(9) [OF rep] by blast
  have "0 < Compare (o_comparator options) (fst e) (fst (last cur))" if "cur \<noteq> []"
    using order [of "last cur"] that by (simp add: comparator es)
  from BlockBuilder_Add_built [OF db, of e] this obtain b shs' rs' where
    b: "BlockBuilder_Add options (fst e) (snd e) (r_data_block r) = Some b" "built options shs' rs' (cur @ [e]) b" by blast
  let ?r3 = "?r1\<lparr>r_filter_block := fo, r_last_key := fst e, r_num_entries := r_num_entries r + 1, r_data_block := b\<rparr>"
  have "table_rep C key written options ds cs (cur @ [e]) ies' ?r3"
    using table_repD(1-8,14) [OF rep] first(2-4) fo(2) b(2) unfolding table_rep_def pending_rep_def by (auto simp del: set_concat)
  then have inv3: "table_inv (es @ [e]) ?r3"
    using inv sorted ke unfolding table_inv_def by (auto simp: es)
  have "TableBuilder_Add addr F (fst e) (snd e) r =
      (if block_size options \<le> CurrentSizeEstimate b then Flush addr F ?r3 else Some ?r3)"
    using True op check first(1) fo(1) b(1) table_repD(1) [OF rep]
    unfolding TableBuilder_Add_def indexed_first_def [symmetric] if_not_P [OF op] if_not_P [OF check] by (simp add: Let_def)
  with inv3 Flush_inv [OF inv3] show ?thesis by auto
qed

text \<open>A list of entries.\<close>

lemma new_inv: "good f \<Longrightarrow> written f = [] \<Longrightarrow> \<exists>r. TableBuilder_new options f = Some r \<and> table_inv [] r"
proof -
  assume f: "good f" "written f = []"
  let ?r = "\<lparr>r_options = options, r_index_block_options = index_options options, r_file = f, r_offset = 0, r_status = Status_OK,
    r_data_block = BlockBuilder_Reset, r_index_block = BlockBuilder_Reset, r_last_key = [], r_num_entries = 0, r_closed = False,
    r_filter_block = map_option (\<lambda>P. (P, FilterBlockBuilder_new)) (o_filter_policy options),
    r_pending_index_entry = False, r_pending_handle = BlockHandle_new\<rparr>"
  have "filter_rep key (o_filter_policy options) (r_filter_block ?r) 0 [] [] []"
    by (cases "o_filter_policy options") (auto simp: filter_rep_def intro!: filter_repI [unfolded filter_rep_def] groups_built_new)
  from filter_start [OF this order_refl] obtain fo where
    fo: "on_filter (\<lambda>P. StartBlock P 0) ?r = Some (?r\<lparr>r_filter_block := fo\<rparr>)"
      "filter_rep key (o_filter_policy options) fo 0 [] [] []" by auto
  have new: "BlockBuilder_new options = Some BlockBuilder_Reset" using interval by (simp add: BlockBuilder_new_def)
  have "TableBuilder_new options f = Some (?r\<lparr>r_filter_block := fo\<rparr>)"
    using fo(1) unfolding TableBuilder_new_def new by (simp add: index_options_def)
  moreover have "\<exists>shs rs. built options shs rs [] BlockBuilder_Reset" "\<exists>shs rs. built (index_options options) shs rs [] BlockBuilder_Reset"
    using built_Reset [OF interval] built_Reset [of "index_options options"] by auto
  ultimately have "table_rep C key written options [] [] [] [] (?r\<lparr>r_filter_block := fo\<rparr>)"
    using f fo(2) unfolding table_rep_def by (simp add: pending_rep_def indexed_def)
  then have "table_inv [] (?r\<lparr>r_filter_block := fo\<rparr>)"
    using f(1) by (force simp: table_inv_def sorted_entries_def)
  with \<open>TableBuilder_new options f = Some (?r\<lparr>r_filter_block := fo\<rparr>)\<close> show ?thesis by blast
qed

end

section \<open>On the program's files and options\<close>

text \<open>The default options, and the options of the database with a Bloom filter.\<close>

interpretation default_options: table_options BytewiseComparator "\<lambda>_. True" Options_new
  by unfold_locales (simp_all add: Options_new_def)

definition database_options :: "nat \<Rightarrow> Options" where
  "database_options bits_per_key = Options_new\<lparr>o_comparator := InternalKeyComparator BytewiseComparator,
     o_filter_policy := Some (InternalFilterPolicy (BloomFilterPolicy bits_per_key))\<rparr>"

interpretation database_options: table_options "InternalKeyComparator BytewiseComparator" bytewise.ikey
    "database_options bits_per_key" for bits_per_key
proof unfold_locales
  fix P
  assume P: "o_filter_policy (database_options bits_per_key) = Some P"
  then have P': "P = InternalFilterPolicy (BloomFilterPolicy bits_per_key)" by (simp add: database_options_def)
  show "\<exists>summarizes. filter_policy P summarizes \<and> (\<forall>ks. (\<forall>k \<in> set ks. bytewise.ikey k) \<longrightarrow> summarizes ks)"
    unfolding P' by (intro exI conjI, rule internal_bloom.filter_policy_axioms) (simp add: bytewise.ikey_def list_all_iff)
  show "\<exists>b. KeyMayMatch P k f = Some b" if "bytewise.ikey k" for k f
    using that by (simp add: P' InternalFilterPolicy_def BloomFilterPolicy_def bytewise.ikey_def)
qed (simp_all add: database_options_def Options_new_def)

interpretation posix_tables: table_building "posix_writable_file dir_sync" "\<lambda>f. length (pw_data f) + pw_space f < 2 ^ 63" pw_data
    "InternalKeyComparator BytewiseComparator" bytewise.ikey "database_options bits_per_key" for dir_sync bits_per_key
  by (intro table_building.intro posix_table_file.table_file_axioms database_options.table_options_axioms)

end
