(* ===== verification/Ldb_Table_Layout.thy ===== *)
theory Ldb_Table_Layout
  imports Ldb_TableBuilder_Spec
begin

text \<open>
  The bytes of a finished table, \<open>table_layout\<close>, and that the builder's \<open>Finish\<close> makes them when it reports
  success.
\<close>

definition filter_part ::
  "(slice \<Rightarrow> bool) \<Rightarrow> FilterPolicy option \<Rightarrow> entry list list \<Rightarrow> byte list list \<Rightarrow> byte list list \<Rightarrow> entry list \<Rightarrow> bool" where
  "filter_part key policy ds cs fl mes \<longleftrightarrow>
     (case policy of
        None \<Rightarrow> fl = [] \<and> mes = []
      | Some P \<Rightarrow> \<exists>gs. fl = [filter_block_bytes P gs] \<and>
          mes = [(filter_key P, handle_bytes (handle_at (cs @ fl) (length cs)))] \<and> (\<forall>g \<in> set gs. \<forall>k \<in> set g. key k) \<and>
          (\<forall>j < length ds. \<forall>x \<in> set (ds ! j).
             place cs j div 2048 < length gs \<and> fst x \<in> set (gs ! (place cs j div 2048))))"

text \<open>
  Data blocks \<open>cs\<close> for the entries \<open>ds\<close>, the filter block if there is a policy, the metaindex block \<open>m\<close>, the
  index block \<open>ix\<close> and the footer.
\<close>

definition table_layout :: "Comparator \<Rightarrow> (slice \<Rightarrow> bool) \<Rightarrow> Options \<Rightarrow> byte list \<Rightarrow> entry list \<Rightarrow> bool" where
  "table_layout C key options bytes es \<longleftrightarrow>
     sorted_entries (Compare C) es \<and> (\<forall>e \<in> set es. key (fst e)) \<and>
     (\<exists>ds cs ies fl m ix mes. es = concat ds \<and> [] \<notin> set ds \<and> list_all2 encodes cs ds \<and>
        indexed C key ds cs [] ies \<and> length ies = length ds \<and> encodes ix ies \<and> encodes m mes \<and>
        filter_part key (o_filter_policy options) ds cs fl mes \<and>
        bytes = concat (map raw_block (cs @ fl @ [m, ix])) @
          footer_bytes \<lparr>metaindex_handle = handle_at (cs @ fl @ [m, ix]) (length (cs @ fl)),
            index_handle = handle_at (cs @ fl @ [m, ix]) (Suc (length (cs @ fl)))\<rparr>)"

context table_building
begin

definition holds_blocks :: "byte list list \<Rightarrow> 'f TableBuilder \<Rightarrow> bool" where
  "holds_blocks bs r \<longleftrightarrow> good (r_file r) \<and>
     (builder_ok r \<longrightarrow> written (r_file r) = concat (map raw_block bs) \<and> r_offset r = of_nat (length (concat (map raw_block bs))))"

lemma holds_small: "holds_blocks bs r \<Longrightarrow> builder_ok r \<Longrightarrow> length (concat (map raw_block bs)) < 2 ^ 63"
  using bounded [of "r_file r"] by (simp add: holds_blocks_def)

lemma next_handle:
  "holds_blocks bs r \<Longrightarrow> builder_ok r \<Longrightarrow>
    \<lparr>bh_offset = r_offset r, bh_size = of_nat (length c)\<rparr> = handle_at (bs @ [c]) (length bs)"
  by (simp add: holds_blocks_def handle_at_def place_append place_all)

lemma holds_wrote:
  "holds_blocks bs r \<Longrightarrow> builder_ok r \<Longrightarrow> good (r_file r') \<Longrightarrow> wrote (raw_block c) written r r' \<Longrightarrow> holds_blocks (bs @ [c]) r'"
  by (auto simp: holds_blocks_def wrote_def)

text \<open>What \<open>Finish\<close> keeps of the builder until it has written the blocks.\<close>

definition same_index :: "'f TableBuilder \<Rightarrow> 'f TableBuilder \<Rightarrow> bool" where
  "same_index r r' \<longleftrightarrow> r_options r' = r_options r \<and> r_index_block_options r' = r_index_block_options r \<and>
     r_index_block r' = r_index_block r \<and> r_pending_index_entry r' = r_pending_index_entry r \<and>
     r_pending_handle r' = r_pending_handle r \<and> r_last_key r' = r_last_key r \<and>
     (r_filter_block r' = None \<longleftrightarrow> r_filter_block r = None)"

lemma same_index_wrote: "wrote d written r r' \<Longrightarrow> same_index r r'"
proof -
  assume "wrote d written r r'"
  then obtain f s n where "r' = r\<lparr>r_file := f, r_status := s, r_offset := n\<rparr>" unfolding wrote_def by blast
  then show ?thesis by (simp add: same_index_def)
qed

lemma WriteRawBlock_holds:
  assumes "holds_blocks bs r" and "builder_ok r"
  shows "\<exists>r'. WriteRawBlock addr F c kNoCompression r = Some (handle_at (bs @ [c]) (length bs), r') \<and>
    holds_blocks (bs @ [c]) r' \<and> same_index r r'"
proof -
  have "good (r_file r)" using assms(1) by (simp add: holds_blocks_def)
  from WriteRawBlock_wrote [OF this, of addr c] show ?thesis
    using next_handle [OF assms] holds_wrote [OF assms] same_index_wrote by metis
qed

lemma WriteBlock_holds:
  assumes "holds_blocks bs r" and "builder_ok r"
  shows "\<exists>r'. WriteBlock addr F b r = Some (handle_at (bs @ [fst (BlockBuilder_Finish b)]) (length bs), BlockBuilder_Reset, r') \<and>
    holds_blocks (bs @ [fst (BlockBuilder_Finish b)]) r' \<and> same_index r r'"
proof -
  have "good (r_file r)" using assms(1) by (simp add: holds_blocks_def)
  from WriteBlock_wrote [OF this assms(2), of addr b] show ?thesis
    using next_handle [OF assms] holds_wrote [OF assms] same_index_wrote by metis
qed

text \<open>The filter block.\<close>

lemma write_filter_holds:
  assumes hb: "holds_blocks cs r" and "builder_ok r \<Longrightarrow> filter_rep key (o_filter_policy options) (r_filter_block r) n ds cs []"
  shows "\<exists>h r' fl. write_filter addr F r = Some (h, r') \<and> holds_blocks (cs @ fl) r' \<and> same_index r r' \<and>
    (builder_ok r' \<longrightarrow> builder_ok r \<and>
      filter_part key (o_filter_policy options) ds cs fl
        (case o_filter_policy options of None \<Rightarrow> [] | Some P \<Rightarrow> [(filter_key P, handle_bytes h)]) \<and>
      (o_filter_policy options \<noteq> None \<longrightarrow> handle_set h) \<and> (r_filter_block r = None \<longleftrightarrow> o_filter_policy options = None))"
proof (cases "builder_ok r")
  case False
  with hb show ?thesis
    by (intro exI [of _ BlockHandle_new] exI [of _ r] exI [of _ "[]"])
      (auto simp: write_filter_def same_index_def split: option.split)
next
  case True
  note fil = assms(2) [OF True]
  show ?thesis
  proof (cases "o_filter_policy options")
    case None
    with fil have "r_filter_block r = None" by (simp add: filter_rep_def)
    with None True hb show ?thesis
      by (intro exI [of _ BlockHandle_new] exI [of _ r] exI [of _ "[]"])
        (simp add: write_filter_def same_index_def filter_part_def)
  next
    case (Some P)
    from policy [OF Some] obtain summarizes where P: "filter_policy P summarizes"
      and ok: "\<And>ks. \<forall>k \<in> set ks. key k \<Longrightarrow> summarizes ks" by blast
    from fil Some obtain b gs grp where b: "r_filter_block r = Some (P, b)" "groups_built P (gs, grp) b"
      "\<forall>k \<in> set (concat gs) \<union> set grp. key k"
      "\<forall>j < length ds. \<forall>x \<in> set (ds ! j). in_group (gs, grp) (place cs j div 2048) (fst x)"
      by (auto simp: filter_rep_def)
    let ?gs = "all_groups (gs, grp)" let ?c = "filter_block_bytes P ?gs"
    from filter_policy.Finish_groups [OF P b(2)] ok b(3) obtain b' where
      b': "FilterBlock_Finish P b = Some (?c, b')" by auto
    let ?r1 = "r\<lparr>r_filter_block := Some (P, b')\<rparr>"
    have "holds_blocks cs ?r1" "builder_ok ?r1" using hb True by (simp_all add: holds_blocks_def builder_ok_def)
    from WriteRawBlock_holds [OF this, of addr ?c] obtain r' where
      r': "WriteRawBlock addr F ?c kNoCompression ?r1 = Some (handle_at (cs @ [?c]) (length cs), r')"
        "holds_blocks (cs @ [?c]) r'" "same_index ?r1 r'" by blast
    have w: "write_filter addr F r = Some (handle_at (cs @ [?c]) (length cs), r')"
      using True b(1) b' r'(1) by (simp add: write_filter_def)
    have "\<forall>g \<in> set ?gs. \<forall>k \<in> set g. key k" using b(3) by (auto simp: all_groups_def split: if_splits)
    moreover have "\<forall>j < length ds. \<forall>x \<in> set (ds ! j). place cs j div 2048 < length ?gs \<and> fst x \<in> set (?gs ! (place cs j div 2048))"
      using b(4) in_group_all by blast
    ultimately have part: "filter_part key (Some P) ds cs [?c] [(filter_key P, handle_bytes (handle_at (cs @ [?c]) (length cs)))]"
      unfolding filter_part_def option.case by (intro exI [of _ ?gs] conjI HOL.refl)
    have "handle_set (handle_at (cs @ [?c]) (length cs))" if "builder_ok r'"
      using holds_small [OF r'(2) that] by (intro handle_set_at) simp_all
    with w r'(2,3) part Some True b(1) show ?thesis
      by (intro exI [of _ "handle_at (cs @ [?c]) (length cs)"] exI [of _ r'] exI [of _ "[?c]"])
        (simp add: same_index_def)
  qed
qed

text \<open>The metaindex block.\<close>

lemma write_metaindex_holds:
  assumes hb: "holds_blocks bs r" and opts: "r_options r = options"
    and fil: "builder_ok r \<Longrightarrow> (r_filter_block r = None \<longleftrightarrow> o_filter_policy options = None) \<and>
      (o_filter_policy options \<noteq> None \<longrightarrow> handle_set h)"
  shows "\<exists>h' r' m. write_metaindex addr F h r = Some (h', r') \<and> same_index r r' \<and> good (r_file r') \<and>
    (builder_ok r' \<longrightarrow> builder_ok r \<and> holds_blocks (bs @ [m]) r' \<and> h' = handle_at (bs @ [m]) (length bs) \<and>
      encodes m (case o_filter_policy options of None \<Rightarrow> [] | Some P \<Rightarrow> [(filter_key P, handle_bytes h)]))"
proof (cases "builder_ok r")
  case False
  with hb show ?thesis
    by (intro exI [of _ BlockHandle_new] exI [of _ r]) (simp add: write_metaindex_def same_index_def holds_blocks_def)
next
  case True
  let ?mes = "case o_filter_policy options of None \<Rightarrow> [] | Some P \<Rightarrow> [(filter_key P, handle_bytes h)]"
  note built0 = built_Reset [OF interval]
  obtain b shs rs where b: "(if r_filter_block r \<noteq> None then
      Option.bind (o_filter_policy options) (\<lambda>P. Option.bind (BlockHandle_EncodeTo [] h) (\<lambda>handle_encoding.
        BlockBuilder_Add options (filter_key P) handle_encoding BlockBuilder_Reset))
      else Some BlockBuilder_Reset) = Some b" "built options shs rs ?mes b"
  proof (cases "o_filter_policy options")
    case None
    with fil [OF True] built0 that show ?thesis by simp
  next
    case (Some P)
    with fil [OF True] have "r_filter_block r \<noteq> None" "BlockHandle_EncodeTo [] h = Some (handle_bytes h)"
      by (auto simp: BlockHandle_EncodeTo_set)
    with Some BlockBuilder_Add_built [OF built0, of "(filter_key P, handle_bytes h)"] that show ?thesis by auto
  qed
  from WriteBlock_holds [OF hb True, of addr b] obtain r' where
    r': "WriteBlock addr F b r = Some (handle_at (bs @ [fst (BlockBuilder_Finish b)]) (length bs), BlockBuilder_Reset, r')"
      "holds_blocks (bs @ [fst (BlockBuilder_Finish b)]) r'" "same_index r r'" by blast
  have "write_metaindex addr F h r = Some (handle_at (bs @ [fst (BlockBuilder_Finish b)]) (length bs), r')"
    unfolding write_metaindex_def opts BlockBuilder_new_def if_P [OF True] if_P [OF interval] bind.bind_lunit b(1) r'(1) by simp
  with r'(2,3) True encodes_built [OF b(2)] show ?thesis
    by (intro exI [of _ "handle_at (bs @ [fst (BlockBuilder_Finish b)]) (length bs)"] exI [of _ r']
        exI [of _ "fst (BlockBuilder_Finish b)"]) (simp add: holds_blocks_def)
qed

text \<open>The index block.\<close>

lemma write_index_holds:
  assumes hb: "builder_ok r \<Longrightarrow> holds_blocks bs r" and good: "good (r_file r)"
    and opts: "r_options r = options" "r_index_block_options r = index_options options"
    and es: "sorted_entries (Compare C) (concat ds)" "\<forall>x \<in> set (concat ds). key (fst x)" "[] \<notin> set ds" "length cs = length ds"
    and small: "length (concat (map raw_block cs)) < 2 ^ 63"
    and rep: "builder_ok r \<Longrightarrow> indexed C key ds cs [] ies \<and> pending_rep ds cs [] ies r \<and>
      (concat ds \<noteq> [] \<longrightarrow> r_last_key r = fst (last (concat ds))) \<and>
      (\<exists>shs rs. built (index_options options) shs rs ies (r_index_block r))"
  shows "\<exists>h r' ix ies'. write_index addr F r = Some (h, r') \<and> good (r_file r') \<and>
    (builder_ok r' \<longrightarrow> builder_ok r \<and> holds_blocks (bs @ [ix]) r' \<and> h = handle_at (bs @ [ix]) (length bs) \<and> encodes ix ies' \<and>
      indexed C key ds cs [] ies' \<and> length ies' = length ds)"
proof (cases "builder_ok r")
  case False
  with good show ?thesis by (intro exI [of _ BlockHandle_new] exI [of _ r]) (simp add: write_index_def)
next
  case True
  note rep = rep [OF True]
  then obtain shs rs where ib: "built (index_options options) shs rs ies (r_index_block r)" by blast
  obtain r1 ies' ishs irs where r1: "(if r_pending_index_entry r
      then add_index_entry (FindShortSuccessor (o_comparator (r_options r)) (r_last_key r)) r else Some r) = Some r1"
    "r_file r1 = r_file r" "r_status r1 = r_status r" "r_offset r1 = r_offset r" "built (index_options options) ishs irs ies' (r_index_block r1)"
    "indexed C key ds cs [] ies'" "length ies' = length ds"
  proof (cases "r_pending_index_entry r")
    case False
    with rep have "length ies = length ds" unfolding pending_rep_def if_not_P [OF False] by (elim conjE) (rule sym)
    then show ?thesis
    proof (intro that [of r shs rs ies])
      show "indexed C key ds cs [] ies" using rep by blast
      show "built (index_options options) shs rs ies (r_index_block r)" by (rule ib)
    qed (use False in simp_all)
  next
    case True
    with rep have p: "ds \<noteq> []" "length ds = Suc (length ies)" "r_pending_handle r = handle_at cs (length ies)"
      by (simp_all add: pending_rep_def)
    have ne: "concat ds \<noteq> []" using p(1) es(3) by (cases ds) auto
    let ?last = "fst (last (concat ds))"
    have "last (concat ds) \<in> set (concat ds)" using ne by (rule last_in_set)
    then have kl: "key ?last" using es(2) by blast
    note suc = successor [OF kl]
    have below: "\<forall>x \<in> set (last ds). Compare C (fst x) (FindShortSuccessor C ?last) \<le> 0"
    proof
      fix x
      assume x: "x \<in> set (last ds)"
      from last_in_block [OF es(1,2) p(1) es(3) x] have "Compare C (fst x) ?last \<le> 0" .
      moreover have "key (fst x)" using x p(1) es(2) by (auto intro!: bspec [OF es(2)] bexI [of _ "last ds"])
      ultimately show "Compare C (fst x) (FindShortSuccessor C ?last) \<le> 0" using suc kl trans by blast
    qed
    have after: "\<forall>x \<in> set []. key (fst x) \<and> Compare C (FindShortSuccessor C ?last) (fst x) < 0" by simp
    have apart: "\<forall>x \<in> set []. separates C key (fst (last (last ds))) (FindShortSuccessor C ?last) (fst x)" by simp
    note added = index_added [OF conjunct1 [OF rep] p(2) es(3,2) ib conjunct1 [OF suc] below after apart]
    have "BlockHandle_EncodeTo [] (r_pending_handle r) = Some (handle_bytes (handle_at cs (length ies)))"
      using small p(2) es(4) by (simp add: p(3) BlockHandle_EncodeTo_set handle_set_at)
    moreover obtain b shs' rs' where "BlockBuilder_Add (index_options options) (FindShortSuccessor C ?last)
        (handle_bytes (handle_at cs (length ies))) (r_index_block r) = Some b"
      "built (index_options options) shs' rs' (ies @ [(FindShortSuccessor C ?last, handle_bytes (handle_at cs (length ies)))]) b"
      using added(1) by blast
    ultimately show ?thesis
      using True rep ne opts added(2) p(2)
        that [of "r\<lparr>r_last_key := FindShortSuccessor C ?last, r_index_block := b, r_pending_index_entry := False\<rparr>"]
      by (simp add: add_index_entry_def comparator)
  qed
  have "holds_blocks bs r1" "builder_ok r1" using hb [OF True] True r1(2-4) by (simp_all add: holds_blocks_def builder_ok_def)
  from WriteBlock_holds [OF this, of addr "r_index_block r1"] obtain r' where
    r': "WriteBlock addr F (r_index_block r1) r1 =
        Some (handle_at (bs @ [fst (BlockBuilder_Finish (r_index_block r1))]) (length bs), BlockBuilder_Reset, r')"
      "holds_blocks (bs @ [fst (BlockBuilder_Finish (r_index_block r1))]) r'" by blast
  have "write_index addr F r =
      Some (handle_at (bs @ [fst (BlockBuilder_Finish (r_index_block r1))]) (length bs), r'\<lparr>r_index_block := BlockBuilder_Reset\<rparr>)"
    unfolding write_index_def if_P [OF True] r1(1) bind.bind_lunit r'(1) by simp
  with r'(2) True encodes_built [OF r1(5)] r1(6,7) show ?thesis
    by (intro exI [of _ "handle_at (bs @ [fst (BlockBuilder_Finish (r_index_block r1))]) (length bs)"]
        exI [of _ "r'\<lparr>r_index_block := BlockBuilder_Reset\<rparr>"] exI [of _ "fst (BlockBuilder_Finish (r_index_block r1))"] exI [of _ ies'])
      (simp add: holds_blocks_def builder_ok_def)
qed

text \<open>The footer, and \<open>Finish\<close> as a whole.\<close>

lemma write_footer_holds:
  assumes "good (r_file r)" and "builder_ok r \<Longrightarrow> holds_blocks bs r \<and> handle_set h1 \<and> handle_set h2"
  shows "\<exists>r'. write_footer F h1 h2 r = Some r' \<and> good (r_file r') \<and> (builder_ok r' \<longrightarrow> builder_ok r \<and>
    written (r_file r') = concat (map raw_block bs) @ footer_bytes \<lparr>metaindex_handle = h1, index_handle = h2\<rparr>)"
proof (cases "builder_ok r")
  case False
  with assms(1) show ?thesis by (simp add: write_footer_def)
next
  case True
  let ?b = "footer_bytes \<lparr>metaindex_handle = h1, index_handle = h2\<rparr>"
  have enc: "Footer_EncodeTo [] \<lparr>metaindex_handle = h1, index_handle = h2\<rparr> = Some ?b"
    using assms(2) [OF True] by (intro Footer_EncodeTo_set) simp_all
  obtain s f where a: "wf_Append F ?b (r_file r) = (s, f)" by fastforce
  note g = Append [OF assms(1) a]
  have r1: "append_to_file F ?b r = r\<lparr>r_file := f, r_status := s\<rparr>" by (simp add: append_to_file_def a)
  show ?thesis
    unfolding write_footer_def if_P [OF True] enc option.map Let_def r1
    using g assms(2) [OF True] True by (auto simp: builder_ok_def holds_blocks_def)
qed

lemma Finish_layout:
  assumes inv: "table_inv es r"
  shows "\<exists>s r'. TableBuilder_Finish addr F r = Some (s, r') \<and> s = r_status r' \<and>
    (status_ok s \<longrightarrow> table_layout C key options (written (r_file r')) es)"
proof -
  from Flush_inv [OF inv] obtain r0 where
    r0: "Flush addr F r = Some r0" "table_inv es r0" "builder_ok r0 \<longrightarrow> BlockBuilder_empty (r_data_block r0)" by blast
  have good: "good (r_file r0)" and op: "\<not> r_closed r0" and es: "sorted_entries (Compare C) es" "\<forall>e \<in> set es. key (fst e)"
    using r0(2) by (simp_all add: table_inv_def)
  let ?r1 = "r0\<lparr>r_closed := True\<rparr>"
  obtain ds cs ies where rep: "builder_ok r0 \<Longrightarrow> es = concat ds \<and> table_rep C key written options ds cs [] ies r0"
  proof (cases "builder_ok r0")
    case True
    with r0(2) obtain ds cs cur ies where d: "es = concat ds @ cur" "table_rep C key written options ds cs cur ies r0"
      by (auto simp: table_inv_def)
    then obtain shs rs where "built options shs rs cur (r_data_block r0)" using table_repD(9) by blast
    then have "cur = []" using True r0(3) by (auto simp: BlockBuilder_empty_def built_def concat_entry_blocks_empty simp del: concat_eq_Nil_conv)
    with d that show ?thesis by simp
  qed simp
  have ok1: "builder_ok ?r1 \<longleftrightarrow> builder_ok r0" by (simp add: builder_ok_def)
  have hb: "holds_blocks cs ?r1"
    using good rep table_repD(6,8) [of C key written options ds cs "[]" ies r0] by (auto simp: holds_blocks_def ok1)
  have fil: "builder_ok ?r1 \<Longrightarrow> filter_rep key (o_filter_policy options) (r_filter_block ?r1) (length (written (r_file r0))) ds cs []"
    using rep table_repD(15) [of C key written options ds cs "[]" ies r0] by (simp add: ok1)
  from write_filter_holds [OF hb fil] obtain h2 r2 fl where
    r2: "write_filter addr F ?r1 = Some (h2, r2)" "holds_blocks (cs @ fl) r2" "same_index ?r1 r2"
      "builder_ok r2 \<Longrightarrow> builder_ok r0 \<and> filter_part key (o_filter_policy options) ds cs fl
        (case o_filter_policy options of None \<Rightarrow> [] | Some P \<Rightarrow> [(filter_key P, handle_bytes h2)]) \<and>
        (o_filter_policy options \<noteq> None \<longrightarrow> handle_set h2) \<and> (r_filter_block ?r1 = None \<longleftrightarrow> o_filter_policy options = None)"
    unfolding ok1 by blast
  show ?thesis
  proof (cases "builder_ok r2")
    case False
    with r0(1) op r2(1) show ?thesis
      by (auto simp: TableBuilder_Finish_def write_metaindex_def write_index_def write_footer_def builder_ok_def Let_def)
  next
    case ok2: True
    then have ok0: "builder_ok r0" using r2(4) by blast
    note rp = conjunct2 [OF rep [OF ok0]] and esd = conjunct1 [OF rep [OF ok0]]
    have opts: "r_options r2 = options" "r_index_block_options r2 = index_options options"
      using r2(3) table_repD(1,2) [OF rp] by (simp_all add: same_index_def)
    have "r_filter_block r2 = None \<longleftrightarrow> o_filter_policy options = None"
      using r2(3) r2(4) [OF ok2] by (simp add: same_index_def)
    with r2(4) [OF ok2] write_metaindex_holds [OF r2(2) opts(1), of h2 addr] obtain h3 r3 m where
      r3: "write_metaindex addr F h2 r2 = Some (h3, r3)" "same_index r2 r3" "good (r_file r3)"
        "builder_ok r3 \<Longrightarrow> holds_blocks (cs @ fl @ [m]) r3 \<and> h3 = handle_at (cs @ fl @ [m]) (length (cs @ fl)) \<and>
          encodes m (case o_filter_policy options of None \<Rightarrow> [] | Some P \<Rightarrow> [(filter_key P, handle_bytes h2)])"
      by auto
    have same: "r_options r3 = options" "r_index_block_options r3 = index_options options" "r_index_block r3 = r_index_block r0"
      "r_pending_index_entry r3 = r_pending_index_entry r0" "r_pending_handle r3 = r_pending_handle r0" "r_last_key r3 = r_last_key r0"
      using r2(3) r3(2) opts by (simp_all add: same_index_def)
    have hb3: "builder_ok r3 \<Longrightarrow> holds_blocks (cs @ fl @ [m]) r3" using r3(4) by blast
    have es': "sorted_entries (Compare C) (concat ds)" "\<forall>x \<in> set (concat ds). key (fst x)" using es by (simp_all add: esd)
    have small: "length (concat (map raw_block cs)) < 2 ^ 63" using bounded [OF good] table_repD(6) [OF rp] by simp
    have rep3: "indexed C key ds cs [] ies \<and> pending_rep ds cs [] ies r3 \<and>
        (concat ds \<noteq> [] \<longrightarrow> r_last_key r3 = fst (last (concat ds))) \<and>
        (\<exists>shs rs. built (index_options options) shs rs ies (r_index_block r3))"
      using table_repD(10-13) [OF rp] unfolding pending_rep_def same by simp
    from write_index_holds [OF hb3 r3(3) same(1,2) es' table_repD(3,5) [OF rp] small rep3, of addr] obtain h4 r4 ix ies' where
      wi: "write_index addr F r3 = Some (h4, r4)" "good (r_file r4)"
        "builder_ok r4 \<longrightarrow> builder_ok r3 \<and> holds_blocks ((cs @ fl @ [m]) @ [ix]) r4 \<and>
          h4 = handle_at ((cs @ fl @ [m]) @ [ix]) (length (cs @ fl @ [m])) \<and> encodes ix ies' \<and>
          indexed C key ds cs [] ies' \<and> length ies' = length ds" by blast
    then have
      r4: "write_index addr F r3 = Some (h4, r4)" "good (r_file r4)"
        "builder_ok r4 \<Longrightarrow> builder_ok r3 \<and> holds_blocks (cs @ fl @ [m, ix]) r4 \<and>
          h4 = handle_at (cs @ fl @ [m, ix]) (Suc (length (cs @ fl))) \<and> encodes ix ies' \<and> indexed C key ds cs [] ies' \<and> length ies' = length ds"
      by simp_all
    let ?all = "cs @ fl @ [m, ix]"
    have sets: "holds_blocks ?all r4 \<and> handle_set h3 \<and> handle_set h4" and h3: "h3 = handle_at ?all (length (cs @ fl))" if ok4: "builder_ok r4"
    proof -
      have all: "length (concat (map raw_block ?all)) < 2 ^ 63" using holds_small r4(3) ok4 by blast
      have "handle_at (cs @ fl @ [m]) (length (cs @ fl)) = handle_at ?all (length (cs @ fl))"
        using handle_at_append [of "length (cs @ fl)" "cs @ fl @ [m]" "[ix]"] by simp
      then show h3: "h3 = handle_at ?all (length (cs @ fl))" using r3(4) r4(3) ok4 by simp
      from all have "handle_set h3" unfolding h3 by (intro handle_set_at) simp_all
      moreover have "handle_set h4" using all r4(3) ok4 by (auto intro!: handle_set_at)
      ultimately show "holds_blocks ?all r4 \<and> handle_set h3 \<and> handle_set h4" using r4(3) ok4 by blast
    qed
    from write_footer_holds [OF r4(2) sets(1)] obtain r5 where
      r5: "write_footer F h3 h4 r4 = Some r5" "builder_ok r5 \<Longrightarrow> builder_ok r4 \<and>
        written (r_file r5) = concat (map raw_block ?all) @ footer_bytes \<lparr>metaindex_handle = h3, index_handle = h4\<rparr>" by blast
    have "TableBuilder_Finish addr F r = Some (r_status r5, r5)"
      using r0(1) op r2(1) r3(1) r4(1) r5(1) by (simp add: TableBuilder_Finish_def Let_def)
    moreover have "table_layout C key options (written (r_file r5)) es" if "status_ok (r_status r5)"
    proof -
      have ok: "builder_ok r5" "builder_ok r4" "builder_ok r3" using that r5(2) r4(3) by (auto simp: builder_ok_def)
      let ?mes = "case o_filter_policy options of None \<Rightarrow> [] | Some P \<Rightarrow> [(filter_key P, handle_bytes h2)]"
      have "written (r_file r5) = concat (map raw_block ?all) @ footer_bytes \<lparr>metaindex_handle = handle_at ?all (length (cs @ fl)),
          index_handle = handle_at ?all (Suc (length (cs @ fl)))\<rparr>" using r5(2) [OF ok(1)] r4(3) [OF ok(2)] h3 [OF ok(2)] by simp
      then show ?thesis
        unfolding table_layout_def using es esd table_repD(3,4) [OF rp] r4(3) [OF ok(2)] r3(4) [OF ok(3)] r2(4) [OF ok2]
        by (intro conjI exI [of _ ds] exI [of _ cs] exI [of _ ies'] exI [of _ fl] exI [of _ m] exI [of _ ix] exI [of _ ?mes]) simp_all
    qed
    ultimately show ?thesis by blast
  qed
qed

end

end
