(* ===== verification/Ldb_TwoLevel.thy ===== *)
theory Ldb_TwoLevel
  imports Ldb_Iterator
begin

text \<open>
  The two-level iterator, \<open>table/two_level_iterator.{h,cc}\<close>: an index iterator whose values name blocks,
  and a function that gives an iterator over a block. The function's other arguments, \<open>arg_\<close> and
  \<open>options_\<close>, are part of it here. The locale \<open>two_level\<close> builds the contract of the iterator over all
  blocks from those of the index and of the blocks.
\<close>

record ('i, 'd) TwoLevel =
  tl_status :: status
  tl_index :: "'i IteratorWrapper"
  tl_data :: "'d IteratorWrapper"
  tl_handle :: "byte list"

definition TwoLevel_new :: "'i Iterator \<Rightarrow> 'i \<Rightarrow> ('i, 'd) TwoLevel option" where
  "TwoLevel_new I index_iter =
     map_option (\<lambda>w. \<lparr>tl_status = Status_OK, tl_index = w, tl_data = IteratorWrapper_new, tl_handle = []\<rparr>)
       (wrapper_Set I (Some index_iter) IteratorWrapper_new)"

definition TwoLevel_get_status :: "'i Iterator \<Rightarrow> 'd Iterator \<Rightarrow> ('i, 'd) TwoLevel \<Rightarrow> status" where
  "TwoLevel_get_status I D s =
     (case wrapper_status I (tl_index s) of
        Some st \<Rightarrow>
          if \<not> status_ok st then st
          else
            (case wrapper_status D (tl_data s) of
               Some st \<Rightarrow> if \<not> status_ok st then st else tl_status s
             | None \<Rightarrow> tl_status s)
      | None \<Rightarrow> tl_status s)"

definition SaveError :: "status \<Rightarrow> ('i, 'd) TwoLevel \<Rightarrow> ('i, 'd) TwoLevel" where
  "SaveError st s = (if status_ok (tl_status s) \<and> \<not> status_ok st then s\<lparr>tl_status := st\<rparr> else s)"

definition SetDataIterator :: "'d Iterator \<Rightarrow> 'd option \<Rightarrow> ('i, 'd) TwoLevel \<Rightarrow> ('i, 'd) TwoLevel option" where
  "SetDataIterator D iter s =
     (let s = (case wrapper_status D (tl_data s) of Some st \<Rightarrow> SaveError st s | None \<Rightarrow> s) in
      map_option (\<lambda>w. s\<lparr>tl_data := w\<rparr>) (wrapper_Set D iter (tl_data s)))"

definition InitDataBlock ::
  "'i Iterator \<Rightarrow> 'd Iterator \<Rightarrow> (slice \<Rightarrow> 'd option) \<Rightarrow> ('i, 'd) TwoLevel \<Rightarrow> ('i, 'd) TwoLevel option" where
  "InitDataBlock I D block_function s =
     (if \<not> w_valid (tl_index s) then SetDataIterator D None s
      else
        Option.bind (wrapper_value I (tl_index s)) (\<lambda>handle.
          if w_iter (tl_data s) \<noteq> None \<and> Slice_compare handle (tl_handle s) = 0 then Some s
          else Option.bind (block_function handle) (\<lambda>iter. SetDataIterator D (Some iter) (s\<lparr>tl_handle := handle\<rparr>))))"

text \<open>Moving one of the two wrappers; the data iterator only when it is not \<open>NULL\<close>.\<close>

definition on_index ::
  "('i IteratorWrapper \<Rightarrow> 'i IteratorWrapper option) \<Rightarrow> ('i, 'd) TwoLevel \<Rightarrow> ('i, 'd) TwoLevel option" where
  "on_index f s = map_option (\<lambda>w. s\<lparr>tl_index := w\<rparr>) (f (tl_index s))"

definition on_data ::
  "('d IteratorWrapper \<Rightarrow> 'd IteratorWrapper option) \<Rightarrow> ('i, 'd) TwoLevel \<Rightarrow> ('i, 'd) TwoLevel option" where
  "on_data f s = map_option (\<lambda>w. s\<lparr>tl_data := w\<rparr>) (f (tl_data s))"

definition if_data ::
  "('d IteratorWrapper \<Rightarrow> 'd IteratorWrapper option) \<Rightarrow> ('i, 'd) TwoLevel \<Rightarrow> ('i, 'd) TwoLevel option" where
  "if_data f s = (if w_iter (tl_data s) \<noteq> None then on_data f s else Some s)"

partial_function (option) SkipEmptyDataBlocksForward ::
  "'i Iterator \<Rightarrow> 'd Iterator \<Rightarrow> (slice \<Rightarrow> 'd option) \<Rightarrow> ('i, 'd) TwoLevel \<Rightarrow> ('i, 'd) TwoLevel option" where
  "SkipEmptyDataBlocksForward I D bf s =
     (if w_iter (tl_data s) = None \<or> \<not> w_valid (tl_data s) then
        (if \<not> w_valid (tl_index s) then SetDataIterator D None s
         else
           Option.bind (on_index (wrapper_Next I) s) (\<lambda>s.
           Option.bind (InitDataBlock I D bf s) (\<lambda>s.
           Option.bind (if_data (wrapper_SeekToFirst D) s) (SkipEmptyDataBlocksForward I D bf))))
      else Some s)"

partial_function (option) SkipEmptyDataBlocksBackward ::
  "'i Iterator \<Rightarrow> 'd Iterator \<Rightarrow> (slice \<Rightarrow> 'd option) \<Rightarrow> ('i, 'd) TwoLevel \<Rightarrow> ('i, 'd) TwoLevel option" where
  "SkipEmptyDataBlocksBackward I D bf s =
     (if w_iter (tl_data s) = None \<or> \<not> w_valid (tl_data s) then
        (if \<not> w_valid (tl_index s) then SetDataIterator D None s
         else
           Option.bind (on_index (wrapper_Prev I) s) (\<lambda>s.
           Option.bind (InitDataBlock I D bf s) (\<lambda>s.
           Option.bind (if_data (wrapper_SeekToLast D) s) (SkipEmptyDataBlocksBackward I D bf))))
      else Some s)"

definition TwoLevel_Seek ::
  "'i Iterator \<Rightarrow> 'd Iterator \<Rightarrow> (slice \<Rightarrow> 'd option) \<Rightarrow> slice \<Rightarrow> ('i, 'd) TwoLevel \<Rightarrow> ('i, 'd) TwoLevel option" where
  "TwoLevel_Seek I D bf target s =
     Option.bind (on_index (wrapper_Seek I target) s) (\<lambda>s.
     Option.bind (InitDataBlock I D bf s) (\<lambda>s.
     Option.bind (if_data (wrapper_Seek D target) s) (SkipEmptyDataBlocksForward I D bf)))"

definition TwoLevel_SeekToFirst ::
  "'i Iterator \<Rightarrow> 'd Iterator \<Rightarrow> (slice \<Rightarrow> 'd option) \<Rightarrow> ('i, 'd) TwoLevel \<Rightarrow> ('i, 'd) TwoLevel option" where
  "TwoLevel_SeekToFirst I D bf s =
     Option.bind (on_index (wrapper_SeekToFirst I) s) (\<lambda>s.
     Option.bind (InitDataBlock I D bf s) (\<lambda>s.
     Option.bind (if_data (wrapper_SeekToFirst D) s) (SkipEmptyDataBlocksForward I D bf)))"

definition TwoLevel_SeekToLast ::
  "'i Iterator \<Rightarrow> 'd Iterator \<Rightarrow> (slice \<Rightarrow> 'd option) \<Rightarrow> ('i, 'd) TwoLevel \<Rightarrow> ('i, 'd) TwoLevel option" where
  "TwoLevel_SeekToLast I D bf s =
     Option.bind (on_index (wrapper_SeekToLast I) s) (\<lambda>s.
     Option.bind (InitDataBlock I D bf s) (\<lambda>s.
     Option.bind (if_data (wrapper_SeekToLast D) s) (SkipEmptyDataBlocksBackward I D bf)))"

definition TwoLevel_Next ::
  "'i Iterator \<Rightarrow> 'd Iterator \<Rightarrow> (slice \<Rightarrow> 'd option) \<Rightarrow> ('i, 'd) TwoLevel \<Rightarrow> ('i, 'd) TwoLevel option" where
  "TwoLevel_Next I D bf s =
     (if w_valid (tl_data s)
      then Option.bind (on_data (wrapper_Next D) s) (SkipEmptyDataBlocksForward I D bf) else None)"

definition TwoLevel_Prev ::
  "'i Iterator \<Rightarrow> 'd Iterator \<Rightarrow> (slice \<Rightarrow> 'd option) \<Rightarrow> ('i, 'd) TwoLevel \<Rightarrow> ('i, 'd) TwoLevel option" where
  "TwoLevel_Prev I D bf s =
     (if w_valid (tl_data s)
      then Option.bind (on_data (wrapper_Prev D) s) (SkipEmptyDataBlocksBackward I D bf) else None)"

definition two_level_iterator :: "'i Iterator \<Rightarrow> 'd Iterator \<Rightarrow> (slice \<Rightarrow> 'd option) \<Rightarrow> ('i, 'd) TwoLevel Iterator" where
  "two_level_iterator I D bf =
     \<lparr>it_Valid = (\<lambda>s. w_valid (tl_data s)), it_SeekToFirst = TwoLevel_SeekToFirst I D bf,
      it_SeekToLast = TwoLevel_SeekToLast I D bf, it_Seek = TwoLevel_Seek I D bf,
      it_Next = TwoLevel_Next I D bf, it_Prev = TwoLevel_Prev I D bf,
      it_key = (\<lambda>s. wrapper_key (tl_data s)), it_value = (\<lambda>s. wrapper_value D (tl_data s)),
      it_status = TwoLevel_get_status I D\<rparr>"

end
