(* ===== verification/Ldb_TwoLevel_Spec.thy ===== *)
theory Ldb_TwoLevel_Spec
  imports Ldb_TwoLevel
begin

text \<open>
  The two-level iterator iterates over the concatenation of the blocks that the index names.
\<close>

section \<open>Positions\<close>

text \<open>\<open>B\<close> gives the entries of the block with a handle; \<open>ies\<close> are the entries of the index.\<close>

definition block_of :: "(slice \<Rightarrow> entry list) \<Rightarrow> entry list \<Rightarrow> nat \<Rightarrow> entry list" where
  "block_of B ies j = B (snd (ies ! j))"

definition blocks_before :: "(slice \<Rightarrow> entry list) \<Rightarrow> entry list \<Rightarrow> nat \<Rightarrow> entry list" where
  "blocks_before B ies j = concat (map (\<lambda>e. B (snd e)) (take j ies))"

abbreviation "base B ies j \<equiv> length (blocks_before B ies j)"

lemma blocks_before_0 [simp]: "blocks_before B ies 0 = []"
  by (simp add: blocks_before_def)

lemma blocks_before_Suc: "j < length ies \<Longrightarrow> blocks_before B ies (Suc j) = blocks_before B ies j @ block_of B ies j"
  by (simp add: blocks_before_def block_of_def take_Suc_conv_app_nth)

lemma blocks_split:
  "j < length ies \<Longrightarrow> blocks_before B ies (length ies) = blocks_before B ies j @ block_of B ies j @
    concat (map (\<lambda>e. B (snd e)) (drop (Suc j) ies))"
proof -
  assume "j < length ies"
  then have "ies = take j ies @ ies ! j # drop (Suc j) ies" by (rule id_take_nth_drop)
  then have "concat (map (\<lambda>e. B (snd e)) ies) = concat (map (\<lambda>e. B (snd e)) (take j ies @ ies ! j # drop (Suc j) ies))"
    by (rule arg_cong)
  then show ?thesis by (simp add: blocks_before_def block_of_def)
qed

text \<open>
  What an index promises: its keys and blocks are in order, each key not before the keys of its
  block and before those of later blocks, and every handle opens its block.
\<close>

definition indexes ::
  "Comparator \<Rightarrow> (slice \<Rightarrow> bool) \<Rightarrow> (entry list \<Rightarrow> nat \<Rightarrow> 'd \<Rightarrow> bool) \<Rightarrow> (slice \<Rightarrow> 'd option) \<Rightarrow>
    (slice \<Rightarrow> entry list) \<Rightarrow> entry list \<Rightarrow> bool" where
  "indexes C key at_d bf B ies \<longleftrightarrow>
     (\<forall>e \<in> set ies. key (fst e) \<and> (\<exists>d i. bf (snd e) = Some d \<and> at_d (B (snd e)) i d) \<and>
        (\<forall>x \<in> set (B (snd e)). key (fst x) \<and> Compare C (fst x) (fst e) \<le> 0)) \<and>
     (\<forall>j < length ies. \<forall>j' < j. \<forall>x \<in> set (block_of B ies j). Compare C (fst (ies ! j')) (fst x) < 0)"

text \<open>The index stands at entry \<open>j\<close>; the data iterator, if there is one, is over some block.\<close>

definition on_block ::
  "(entry list \<Rightarrow> nat \<Rightarrow> 'i \<Rightarrow> bool) \<Rightarrow> (entry list \<Rightarrow> nat \<Rightarrow> 'd \<Rightarrow> bool) \<Rightarrow> (slice \<Rightarrow> entry list) \<Rightarrow> entry list \<Rightarrow>
    nat \<Rightarrow> ('i, 'd) TwoLevel \<Rightarrow> bool" where
  "on_block at_i at_d B ies j s \<longleftrightarrow> tl_status s = Status_OK \<and> wraps at_i ies j (tl_index s) \<and>
     (w_iter (tl_data s) = None \<or> (\<exists>i. wraps at_d (B (tl_handle s)) i (tl_data s)))"

text \<open>The data iterator is at entry \<open>i\<close> of block \<open>j\<close>, or there is none behind the last block.\<close>

definition in_entry ::
  "(entry list \<Rightarrow> nat \<Rightarrow> 'i \<Rightarrow> bool) \<Rightarrow> (entry list \<Rightarrow> nat \<Rightarrow> 'd \<Rightarrow> bool) \<Rightarrow> (slice \<Rightarrow> entry list) \<Rightarrow> entry list \<Rightarrow>
    nat \<Rightarrow> nat \<Rightarrow> ('i, 'd) TwoLevel \<Rightarrow> bool" where
  "in_entry at_i at_d B ies j i s \<longleftrightarrow> tl_status s = Status_OK \<and> wraps at_i ies j (tl_index s) \<and>
     (if j < length ies then tl_handle s = snd (ies ! j) \<and> wraps at_d (block_of B ies j) i (tl_data s)
      else i = 0 \<and> w_iter (tl_data s) = None \<and> \<not> w_valid (tl_data s))"

definition two_level_at ::
  "Comparator \<Rightarrow> (slice \<Rightarrow> bool) \<Rightarrow> (entry list \<Rightarrow> nat \<Rightarrow> 'i \<Rightarrow> bool) \<Rightarrow> (entry list \<Rightarrow> nat \<Rightarrow> 'd \<Rightarrow> bool) \<Rightarrow>
    (slice \<Rightarrow> 'd option) \<Rightarrow> entry list \<Rightarrow> nat \<Rightarrow> ('i, 'd) TwoLevel \<Rightarrow> bool" where
  "two_level_at C key at_i at_d bf es i s \<longleftrightarrow> (\<exists>B ies j i'. indexes C key at_d bf B ies \<and>
     es = blocks_before B ies (length ies) \<and> in_entry at_i at_d B ies j i' s \<and>
     (j < length ies \<longrightarrow> i' < length (block_of B ies j)) \<and> i = base B ies j + i')"

text \<open>An operation on a wrapper takes it from one position to another.\<close>

definition moves ::
  "(entry list \<Rightarrow> nat \<Rightarrow> 's \<Rightarrow> bool) \<Rightarrow> entry list \<Rightarrow> nat \<Rightarrow> ('s IteratorWrapper \<Rightarrow> 's IteratorWrapper option) \<Rightarrow> nat \<Rightarrow> bool" where
  "moves at es i f k \<longleftrightarrow> (\<forall>w. wraps at es i w \<longrightarrow> (\<exists>w'. f w = Some w' \<and> wraps at es k w'))"

context iterator
begin

lemma moves_Next: "i < length es \<Longrightarrow> moves at es i (wrapper_Next I) (i + 1)"
  unfolding moves_def using wrapper_Next by blast

lemma moves_Prev: "i < length es \<Longrightarrow> moves at es i (wrapper_Prev I) (if i = 0 then length es else i - 1)"
  unfolding moves_def using wrapper_Prev by blast

lemma moves_Seek: "target t \<Longrightarrow> moves at es i (wrapper_Seek I t) (seek_index cmp t es)"
  unfolding moves_def using wrapper_Seek by blast

lemma moves_SeekToFirst: "moves at es i (wrapper_SeekToFirst I) 0"
  unfolding moves_def using wrapper_SeekToFirst by blast

lemma moves_SeekToLast: "moves at es i (wrapper_SeekToLast I) (length es - 1)"
  unfolding moves_def using wrapper_SeekToLast by blast

end

locale two_level = comparator C key + idx: iterator I "Compare C" key at_i + dat: iterator D "Compare C" key at_d
  for C :: Comparator and key :: "slice \<Rightarrow> bool" and I :: "'i Iterator" and at_i :: "entry list \<Rightarrow> nat \<Rightarrow> 'i \<Rightarrow> bool"
    and D :: "'d Iterator" and at_d :: "entry list \<Rightarrow> nat \<Rightarrow> 'd \<Rightarrow> bool"
begin

lemma in_entry_on_block: "in_entry at_i at_d B ies j i s \<Longrightarrow> on_block at_i at_d B ies j s"
  by (auto simp: in_entry_def on_block_def block_of_def split: if_splits)

lemma in_entry_le: "in_entry at_i at_d B ies j i s \<Longrightarrow> j \<le> length ies"
  unfolding in_entry_def using idx.wraps_within by blast

lemma index_valid: "on_block at_i at_d B ies j s \<Longrightarrow> w_valid (tl_index s) \<longleftrightarrow> j < length ies"
  unfolding on_block_def using idx.wraps_valid by blast

lemma data_valid: "in_entry at_i at_d B ies j i s \<Longrightarrow>
    w_iter (tl_data s) \<noteq> None \<and> w_valid (tl_data s) \<longleftrightarrow> j < length ies \<and> i < length (block_of B ies j)"
  unfolding in_entry_def using dat.wraps_valid dat.wraps_iter by (auto split: if_splits)

lemma SetDataIterator_Some:
  assumes "on_block at_i at_d B ies j s" and "at_d es i d"
  shows "\<exists>w. SetDataIterator D (Some d) s = Some (s\<lparr>tl_data := w\<rparr>) \<and> wraps at_d es i w"
proof -
  from assms(1) have "(case wrapper_status D (tl_data s) of Some st \<Rightarrow> SaveError st s | None \<Rightarrow> s) = s"
    by (auto simp: on_block_def SaveError_def wrapper_status_def dest: dat.wraps_status split: option.split)
  with dat.Set_wraps [OF assms(2), of "tl_data s"] show ?thesis by (auto simp: SetDataIterator_def)
qed

lemma SetDataIterator_None:
  assumes "on_block at_i at_d B ies j s"
  shows "SetDataIterator D None s = Some (s\<lparr>tl_data := (tl_data s)\<lparr>w_iter := None, w_valid := False\<rparr>\<rparr>)"
proof -
  from assms have "(case wrapper_status D (tl_data s) of Some st \<Rightarrow> SaveError st s | None \<Rightarrow> s) = s"
    by (auto simp: on_block_def SaveError_def wrapper_status_def dest: dat.wraps_status split: option.split)
  then show ?thesis by (simp add: SetDataIterator_def wrapper_Set_def)
qed

lemma InitDataBlock_on:
  assumes ix: "indexes C key at_d bf B ies" and s: "on_block at_i at_d B ies j s"
  shows "\<exists>s' i. InitDataBlock I D bf s = Some s' \<and> in_entry at_i at_d B ies j i s'"
proof (cases "j < length ies")
  case False
  with SetDataIterator_None [OF s] index_valid [OF s] s show ?thesis
    by (simp add: InitDataBlock_def in_entry_def on_block_def)
next
  case True
  let ?h = "snd (ies ! j)"
  have w: "wraps at_i ies j (tl_index s)" using s by (simp add: on_block_def)
  have val: "wrapper_value I (tl_index s) = Some ?h" by (rule idx.wraps_value [OF w True])
  show ?thesis
  proof (cases "w_iter (tl_data s) \<noteq> None \<and> ?h = tl_handle s")
    case same: True
    then obtain i where "wraps at_d (B ?h) i (tl_data s)" using s by (auto simp: on_block_def)
    with True same val index_valid [OF s] s show ?thesis
      by (auto simp: InitDataBlock_def in_entry_def on_block_def block_of_def)
  next
    case False
    from ix True obtain d i where d: "bf ?h = Some d" "at_d (B ?h) i d" unfolding indexes_def by (meson nth_mem)
    let ?s = "s\<lparr>tl_handle := ?h\<rparr>"
    have status: "(case wrapper_status D (tl_data ?s) of Some st \<Rightarrow> SaveError st ?s | None \<Rightarrow> ?s) = ?s"
      using s by (auto simp: on_block_def SaveError_def wrapper_status_def dest: dat.wraps_status split: option.split)
    from dat.Set_wraps [OF d(2), of "tl_data s"] obtain w' where
      w': "wrapper_Set D (Some d) (tl_data s) = Some w'" "wraps at_d (B ?h) i w'" by blast
    have set: "SetDataIterator D (Some d) ?s = Some (?s\<lparr>tl_data := w'\<rparr>)"
      unfolding SetDataIterator_def status using w'(1) by simp
    have "InitDataBlock I D bf s = Some (?s\<lparr>tl_data := w'\<rparr>)"
      using val False index_valid [OF s] True d(1) set by (auto simp: InitDataBlock_def)
    moreover have "in_entry at_i at_d B ies j i (?s\<lparr>tl_data := w'\<rparr>)"
      using s True w'(2) by (simp add: in_entry_def on_block_def block_of_def)
    ultimately show ?thesis by blast
  qed
qed

lemma on_index_moves:
  assumes "on_block at_i at_d B ies j s" and "moves at_i ies j f k"
  shows "\<exists>s'. on_index f s = Some s' \<and> on_block at_i at_d B ies k s'"
proof -
  from assms obtain w' where "f (tl_index s) = Some w'" "wraps at_i ies k w'"
    by (auto simp: on_block_def moves_def)
  with assms(1) show ?thesis by (simp add: on_index_def on_block_def)
qed

lemma on_data_moves:
  assumes "in_entry at_i at_d B ies j i s" and "j < length ies" and "moves at_d (block_of B ies j) i f k"
  shows "\<exists>s'. on_data f s = Some s' \<and> in_entry at_i at_d B ies j k s'"
proof -
  from assms obtain w' where "f (tl_data s) = Some w'" "wraps at_d (block_of B ies j) k w'"
    by (auto simp: in_entry_def moves_def)
  with assms(1,2) show ?thesis by (simp add: on_data_def in_entry_def)
qed

lemma if_data_moves:
  assumes "in_entry at_i at_d B ies j i s" and "j < length ies \<Longrightarrow> moves at_d (block_of B ies j) i f k"
  shows "\<exists>s'. if_data f s = Some s' \<and> in_entry at_i at_d B ies j (if j < length ies then k else 0) s'"
proof (cases "j < length ies")
  case True
  then have "w_iter (tl_data s) \<noteq> None" using assms(1) dat.wraps_iter by (auto simp: in_entry_def)
  with on_data_moves [OF assms(1) True assms(2)] True show ?thesis by (simp add: if_data_def)
next
  case False
  with assms(1) show ?thesis by (simp add: if_data_def in_entry_def)
qed

text \<open>Moving the index, loading the block it has moved to and moving in it.\<close>

lemma load_and_move:
  assumes "indexes C key at_d bf B ies" and "on_block at_i at_d B ies j s" and "moves at_i ies j f j'"
    and "\<And>i. moves at_d (block_of B ies j') i g k"
  obtains s' where "in_entry at_i at_d B ies j' (if j' < length ies then k else 0) s'"
    and "\<And>skip :: ('i, 'd) TwoLevel \<Rightarrow> ('i, 'd) TwoLevel option. Option.bind (on_index f s) (\<lambda>s. Option.bind (InitDataBlock I D bf s) (\<lambda>s.
      Option.bind (if_data g s) skip)) = skip s'"
proof -
  from on_index_moves [OF assms(2,3)] obtain s1 where
    s1: "on_index f s = Some s1" "on_block at_i at_d B ies j' s1" by blast
  from InitDataBlock_on [OF assms(1) s1(2)] obtain s2 i where
    s2: "InitDataBlock I D bf s1 = Some s2" "in_entry at_i at_d B ies j' i s2" by blast
  from if_data_moves [OF s2(2) assms(4)] obtain s3 where
    "if_data g s2 = Some s3" "in_entry at_i at_d B ies j' (if j' < length ies then k else 0) s3" by blast
  with that s1(1) s2(1) show thesis by simp
qed

section \<open>Skipping empty blocks\<close>

lemma SkipForward_in:
  assumes ix: "indexes C key at_d bf B ies" and "in_entry at_i at_d B ies j i s"
    and "j < length ies \<Longrightarrow> i \<le> length (block_of B ies j)"
  shows "\<exists>s'. SkipEmptyDataBlocksForward I D bf s = Some s' \<and>
    two_level_at C key at_i at_d bf (blocks_before B ies (length ies)) (base B ies j + i) s'"
  using assms(2,3)
proof (induction "length ies - j" arbitrary: j i s rule: less_induct)
  case less
  note s = less.prems(1)
  note on = in_entry_on_block [OF s]
  show ?case
  proof (cases "j < length ies \<and> i < length (block_of B ies j)")
    case True
    then have "SkipEmptyDataBlocksForward I D bf s = Some s"
      using data_valid [OF s] by (subst SkipEmptyDataBlocksForward.simps) auto
    with True ix s show ?thesis unfolding two_level_at_def by blast
  next
    case False
    then have skip: "w_iter (tl_data s) = None \<or> \<not> w_valid (tl_data s)" using data_valid [OF s] by blast
    show ?thesis
    proof (cases "j < length ies")
      case True
      with False less.prems(2) have i: "i = length (block_of B ies j)" by simp
      obtain s1 where s1: "in_entry at_i at_d B ies (j + 1) (if j + 1 < length ies then 0 else 0) s1" and
        step: "\<And>skip :: ('i, 'd) TwoLevel \<Rightarrow> ('i, 'd) TwoLevel option. Option.bind (on_index (wrapper_Next I) s) (\<lambda>s. Option.bind (InitDataBlock I D bf s) (\<lambda>s.
          Option.bind (if_data (wrapper_SeekToFirst D) s) skip)) = skip s1"
        by (rule load_and_move [OF ix on idx.moves_Next [OF True] dat.moves_SeekToFirst]) (rule that)
      have eq: "SkipEmptyDataBlocksForward I D bf s = SkipEmptyDataBlocksForward I D bf s1"
        using skip index_valid [OF on] True unfolding SkipEmptyDataBlocksForward.simps [of I D bf s] step by simp
      have "base B ies (j + 1) + 0 = base B ies j + i" using i True by (simp add: blocks_before_Suc)
      with less.hyps [OF _ s1] True eq show ?thesis by simp
    next
      case end': False
      then have j: "j = length ies" using in_entry_le [OF s] by simp
      with s have i: "i = 0" by (simp add: in_entry_def)
      let ?s = "s\<lparr>tl_data := (tl_data s)\<lparr>w_iter := None, w_valid := False\<rparr>\<rparr>"
      have "SkipEmptyDataBlocksForward I D bf s = Some ?s"
        using skip index_valid [OF on] end' SetDataIterator_None [OF on]
        by (subst SkipEmptyDataBlocksForward.simps) simp
      moreover have "in_entry at_i at_d B ies j 0 ?s" using s j by (simp add: in_entry_def)
      ultimately show ?thesis using ix i j unfolding two_level_at_def by blast
    qed
  qed
qed

lemma SkipBackward_in:
  assumes ix: "indexes C key at_d bf B ies" and "in_entry at_i at_d B ies j i s"
  shows "\<exists>s'. SkipEmptyDataBlocksBackward I D bf s = Some s' \<and>
    two_level_at C key at_i at_d bf (blocks_before B ies (length ies))
      (if j < length ies \<and> i < length (block_of B ies j) then base B ies j + i
       else if j = length ies \<or> base B ies j = 0 then base B ies (length ies) else base B ies j - 1) s'"
  using assms(2)
proof (induction j arbitrary: i s rule: less_induct)
  case (less j)
  note s = less.prems
  note on = in_entry_on_block [OF s]
  show ?case
  proof (cases "j < length ies \<and> i < length (block_of B ies j)")
    case True
    then have "SkipEmptyDataBlocksBackward I D bf s = Some s"
      using data_valid [OF s] by (subst SkipEmptyDataBlocksBackward.simps) auto
    with True ix s show ?thesis unfolding two_level_at_def by auto
  next
    case False
    then have skip: "w_iter (tl_data s) = None \<or> \<not> w_valid (tl_data s)" using data_valid [OF s] by blast
    have ending: "\<exists>s'. SkipEmptyDataBlocksBackward I D bf s = Some s' \<and>
      two_level_at C key at_i at_d bf (blocks_before B ies (length ies)) (base B ies (length ies)) s'"
      if s: "in_entry at_i at_d B ies (length ies) i s" for i s
    proof -
      let ?s = "s\<lparr>tl_data := (tl_data s)\<lparr>w_iter := None, w_valid := False\<rparr>\<rparr>"
      have "SkipEmptyDataBlocksBackward I D bf s = Some ?s"
        using data_valid [OF s] index_valid [OF in_entry_on_block [OF s]] SetDataIterator_None [OF in_entry_on_block [OF s]]
        by (subst SkipEmptyDataBlocksBackward.simps) auto
      moreover have "in_entry at_i at_d B ies (length ies) 0 ?s" using s by (simp add: in_entry_def)
      ultimately show ?thesis using ix unfolding two_level_at_def by force
    qed
    show ?thesis
    proof (cases "j < length ies")
      case j: True
      let ?j = "if j = 0 then length ies else j - 1"
      obtain s1 where s1: "in_entry at_i at_d B ies ?j (if ?j < length ies then length (block_of B ies ?j) - 1 else 0) s1"
        and step: "\<And>skip :: ('i, 'd) TwoLevel \<Rightarrow> ('i, 'd) TwoLevel option. Option.bind (on_index (wrapper_Prev I) s) (\<lambda>s. Option.bind (InitDataBlock I D bf s) (\<lambda>s.
          Option.bind (if_data (wrapper_SeekToLast D) s) skip)) = skip s1"
        by (rule load_and_move [OF ix on idx.moves_Prev [OF j] dat.moves_SeekToLast]) (rule that)
      have eq: "SkipEmptyDataBlocksBackward I D bf s = SkipEmptyDataBlocksBackward I D bf s1"
        using skip index_valid [OF on] j unfolding SkipEmptyDataBlocksBackward.simps [of I D bf s] step by simp
      show ?thesis
      proof (cases "j = 0")
        case True
        with ending s1 eq False j show ?thesis by auto
      next
        case pos: False
        then obtain m where m: "j = Suc m" "m < length ies" using j by (cases j) auto
        have b: "base B ies j = base B ies m + length (block_of B ies m)" using m by (simp add: blocks_before_Suc)
        have s1': "in_entry at_i at_d B ies m (length (block_of B ies m) - 1) s1" using s1 m by simp
        from less.IH [OF _ s1'] m(1) obtain s2 where s2: "SkipEmptyDataBlocksBackward I D bf s1 = Some s2"
          "two_level_at C key at_i at_d bf (blocks_before B ies (length ies))
            (if m < length ies \<and> length (block_of B ies m) - 1 < length (block_of B ies m)
             then base B ies m + (length (block_of B ies m) - 1)
             else if m = length ies \<or> base B ies m = 0 then base B ies (length ies) else base B ies m - 1) s2" by auto
        show ?thesis unfolding eq using False j b s2 m by (cases "block_of B ies m") auto
      qed
    next
      case False
      then have "j = length ies" using in_entry_le [OF s] by simp
      with ending s show ?thesis by simp
    qed
  qed
qed

section \<open>The contract\<close>

lemma indexes_sorted:
  assumes "indexes C key at_d bf B ies" and "j < length ies" and "key t"
  shows "Compare C (fst (ies ! j)) t < 0 \<Longrightarrow> x \<in> set (block_of B ies j) \<Longrightarrow> Compare C (fst x) t < 0"
    and "j < k \<Longrightarrow> k < length ies \<Longrightarrow> x \<in> set (block_of B ies k) \<Longrightarrow> \<not> Compare C (fst (ies ! j)) t < 0 \<Longrightarrow>
      \<not> Compare C (fst x) t < 0"
proof -
  have kj: "key (fst (ies ! j))" using assms(1,2) by (simp add: indexes_def)
  show "Compare C (fst x) t < 0" if "Compare C (fst (ies ! j)) t < 0" "x \<in> set (block_of B ies j)"
  proof -
    have "key (fst x)" "Compare C (fst x) (fst (ies ! j)) \<le> 0"
      using assms(1,2) that(2) by (auto simp: indexes_def block_of_def)
    with le_less_trans [of "fst x" "fst (ies ! j)" t] kj assms(3) that(1) show ?thesis by blast
  qed
  assume k: "j < k" "k < length ies" "x \<in> set (block_of B ies k)" and not: "\<not> Compare C (fst (ies ! j)) t < 0"
  have "key (fst x)" "Compare C (fst (ies ! j)) (fst x) < 0"
    using assms(1) k by (auto simp: indexes_def block_of_def)
  with less_trans [OF kj this(1) assms(3)] not show "\<not> Compare C (fst x) t < 0" by blast
qed

lemma seek_in_blocks:
  assumes "indexes C key at_d bf B ies" and "key t"
  defines "j \<equiv> seek_index (Compare C) t ies"
  shows "seek_index (Compare C) t (blocks_before B ies (length ies)) =
    base B ies j + (if j < length ies then seek_index (Compare C) t (block_of B ies j) else 0)"
proof -
  have before: "Compare C (fst x) t < 0" if x: "x \<in> set (blocks_before B ies j)" for x
  proof -
    from x have "\<exists>e \<in> set (take j ies). x \<in> set (B (snd e))" by (simp add: blocks_before_def)
    then obtain m where "m < length (take j ies)" "x \<in> set (B (snd (take j ies ! m)))" by (metis in_set_conv_nth)
    then have m: "m < j" "m < length ies" "x \<in> set (block_of B ies m)" by (simp_all add: block_of_def)
    from indexes_sorted(1) [OF assms(1) m(2) assms(2) _ m(3)] seek_index_before [of m "Compare C" t ies] m(1)
    show ?thesis by (simp add: j_def)
  qed
  then have "takeWhile (\<lambda>e. Compare C (fst e) t < 0) (blocks_before B ies j) = blocks_before B ies j"
    by (simp add: takeWhile_eq_all_conv)
  then have pre: "seek_index (Compare C) t (blocks_before B ies j) = base B ies j"
    unfolding seek_index_def by (rule arg_cong)
  show ?thesis
  proof (cases "j < length ies")
    case False
    then have "j = length ies" using seek_index_le [of "Compare C" t ies] by (simp add: j_def)
    with pre show ?thesis by simp
  next
    case True
    then have nj: "\<not> Compare C (fst (ies ! j)) t < 0" using seek_index_at [of "Compare C" t ies] by (simp add: j_def)
    let ?post = "concat (map (\<lambda>e. B (snd e)) (drop (Suc j) ies))"
    have "seek_index (Compare C) t ?post = 0"
    proof (rule seek_index_eqI)
      assume "0 < length ?post"
      then have "\<exists>e \<in> set (drop (Suc j) ies). p \<in> set (B (snd e))" if "p = ?post ! 0" for p
        using nth_mem [of 0 ?post] that [symmetric] by simp
      then obtain e where e: "e \<in> set (drop (Suc j) ies)" "?post ! 0 \<in> set (B (snd e))" by blast
      then obtain m where "m < length (drop (Suc j) ies)" "e = drop (Suc j) ies ! m" by (metis in_set_conv_nth)
      with e(2) have "Suc j + m < length ies" "?post ! 0 \<in> set (block_of B ies (Suc j + m))" by (simp_all add: block_of_def)
      with indexes_sorted(2) [OF assms(1) True assms(2) _ this nj] show "\<not> Compare C (fst (?post ! 0)) t < 0" by simp
    qed simp_all
    with pre True show ?thesis
      unfolding blocks_split [OF True] by (simp add: seek_index_append)
  qed
qed

lemma two_level_iterator_correct:
  "iterator (two_level_iterator I D bf) (Compare C) key (two_level_at C key at_i at_d bf)"
proof unfold_locales
  fix es i t and s :: "('i, 'd) TwoLevel"
  assume "two_level_at C key at_i at_d bf es i s"
  then obtain B ies j i' where ix: "indexes C key at_d bf B ies" and es: "es = blocks_before B ies (length ies)"
    and s: "in_entry at_i at_d B ies j i' s" and i': "j < length ies \<Longrightarrow> i' < length (block_of B ies j)"
    and i: "i = base B ies j + i'" unfolding two_level_at_def by blast
  note on = in_entry_on_block [OF s]
  have end': "j = length ies \<and> i' = 0 \<and> i = length es" if "\<not> j < length ies"
    using that in_entry_le [OF s] s i es by (auto simp: in_entry_def)
  have inside: "i < length es \<and> es ! i = block_of B ies j ! i'" if "j < length ies"
    using i' [OF that] unfolding es blocks_split [OF that] i by (simp add: nth_append)
  have valid: "i < length es \<longleftrightarrow> j < length ies" using end' inside by auto
  have w: "wraps at_d (block_of B ies j) i' (tl_data s)" if "j < length ies" using s that by (simp add: in_entry_def)
  show "i \<le> length es" using end' inside by (cases "j < length ies") auto
  have v: "w_valid (tl_data s) \<longleftrightarrow> j < length ies"
    using s i' data_valid [OF s] by (auto simp: in_entry_def split: if_splits)
  then show "it_Valid (two_level_iterator I D bf) s \<longleftrightarrow> i < length es"
    by (simp add: two_level_iterator_def valid)
  show "it_status (two_level_iterator I D bf) s = Status_OK"
  proof -
    have "wrapper_status I (tl_index s) = Some Status_OK" using on idx.wraps_status by (auto simp: on_block_def)
    moreover have "w_iter (tl_data s) = None \<or> wrapper_status D (tl_data s) = Some Status_OK"
      using on dat.wraps_status by (auto simp: on_block_def)
    moreover have "tl_status s = Status_OK" using on by (simp add: on_block_def)
    ultimately show ?thesis
      by (auto simp: two_level_iterator_def TwoLevel_get_status_def wrapper_status_def)
  qed
  show "\<exists>s'. it_SeekToFirst (two_level_iterator I D bf) s = Some s' \<and> two_level_at C key at_i at_d bf es 0 s'"
  proof -
    obtain s1 where s1: "in_entry at_i at_d B ies 0 (if 0 < length ies then 0 else 0) s1" and
      step: "\<And>skip :: ('i, 'd) TwoLevel \<Rightarrow> ('i, 'd) TwoLevel option.
        Option.bind (on_index (wrapper_SeekToFirst I) s) (\<lambda>s. Option.bind (InitDataBlock I D bf s) (\<lambda>s.
        Option.bind (if_data (wrapper_SeekToFirst D) s) skip)) = skip s1"
      by (rule load_and_move [OF ix on idx.moves_SeekToFirst dat.moves_SeekToFirst]) (rule that)
    from SkipForward_in [OF ix s1] show ?thesis
      unfolding two_level_iterator_def Iterator.simps TwoLevel_SeekToFirst_def step es by simp
  qed
  show "\<exists>s'. it_SeekToLast (two_level_iterator I D bf) s = Some s' \<and>
    two_level_at C key at_i at_d bf es (length es - 1) s'"
  proof -
    let ?j = "length ies - 1"
    obtain s1 where s1: "in_entry at_i at_d B ies ?j (if ?j < length ies then length (block_of B ies ?j) - 1 else 0) s1" and
      step: "\<And>skip :: ('i, 'd) TwoLevel \<Rightarrow> ('i, 'd) TwoLevel option.
        Option.bind (on_index (wrapper_SeekToLast I) s) (\<lambda>s. Option.bind (InitDataBlock I D bf s) (\<lambda>s.
        Option.bind (if_data (wrapper_SeekToLast D) s) skip)) = skip s1"
      by (rule load_and_move [OF ix on idx.moves_SeekToLast dat.moves_SeekToLast]) (rule that)
    let ?i = "if ?j < length ies then length (block_of B ies ?j) - 1 else 0"
    have pos: "(if ?j < length ies \<and> ?i < length (block_of B ies ?j) then base B ies ?j + ?i
        else if ?j = length ies \<or> base B ies ?j = 0 then base B ies (length ies) else base B ies ?j - 1) = length es - 1"
    proof (cases ies rule: rev_cases)
      case (snoc xs x)
      then have "base B ies (length ies) = base B ies ?j + length (block_of B ies ?j)"
        using blocks_before_Suc [of ?j ies B] by simp
      then show ?thesis unfolding es by (cases "block_of B ies ?j") (auto simp: snoc)
    qed (simp add: es)
    show ?thesis
      using SkipBackward_in [OF ix s1, unfolded pos]
      unfolding two_level_iterator_def Iterator.simps TwoLevel_SeekToLast_def step es .
  qed
  show "\<exists>s'. it_Seek (two_level_iterator I D bf) t s = Some s' \<and>
    two_level_at C key at_i at_d bf es (seek_index (Compare C) t es) s'" if t: "key t"
  proof -
    let ?j = "seek_index (Compare C) t ies"
    obtain s1 where s1: "in_entry at_i at_d B ies ?j (if ?j < length ies then seek_index (Compare C) t (block_of B ies ?j) else 0) s1" and
      step: "\<And>skip :: ('i, 'd) TwoLevel \<Rightarrow> ('i, 'd) TwoLevel option.
        Option.bind (on_index (wrapper_Seek I t) s) (\<lambda>s. Option.bind (InitDataBlock I D bf s) (\<lambda>s.
        Option.bind (if_data (wrapper_Seek D t) s) skip)) = skip s1"
      by (rule load_and_move [OF ix on idx.moves_Seek [OF t] dat.moves_Seek [OF t]]) (rule that)
    from SkipForward_in [OF ix s1] seek_in_blocks [OF ix t] show ?thesis
      unfolding two_level_iterator_def Iterator.simps TwoLevel_Seek_def step es by (simp add: seek_index_le)
  qed
  assume lt: "i < length es"
  then have j: "j < length ies" using valid by simp
  show "it_key (two_level_iterator I D bf) s = Some (fst (es ! i))"
    using dat.wraps_key [OF w [OF j] i' [OF j]] inside [OF j] by (simp add: two_level_iterator_def)
  show "it_value (two_level_iterator I D bf) s = Some (snd (es ! i))"
    using dat.wraps_value [OF w [OF j] i' [OF j]] inside [OF j] by (simp add: two_level_iterator_def)
  show "\<exists>s'. it_Next (two_level_iterator I D bf) s = Some s' \<and> two_level_at C key at_i at_d bf es (i + 1) s'"
  proof -
    from on_data_moves [OF s j dat.moves_Next [OF i' [OF j]]] obtain s1 where
      s1: "on_data (wrapper_Next D) s = Some s1" "in_entry at_i at_d B ies j (i' + 1) s1" by blast
    from SkipForward_in [OF ix s1(2)] i' [OF j] s1(1) v j show ?thesis
      by (simp add: two_level_iterator_def TwoLevel_Next_def i es)
  qed
  show "\<exists>s'. it_Prev (two_level_iterator I D bf) s = Some s' \<and>
    two_level_at C key at_i at_d bf es (if i = 0 then length es else i - 1) s'"
  proof -
    let ?k = "if i' = 0 then length (block_of B ies j) else i' - 1"
    from on_data_moves [OF s j dat.moves_Prev [OF i' [OF j]]] obtain s1 where
      s1: "on_data (wrapper_Prev D) s = Some s1" "in_entry at_i at_d B ies j ?k s1" by blast
    have "(if j < length ies \<and> ?k < length (block_of B ies j) then base B ies j + ?k
       else if j = length ies \<or> base B ies j = 0 then base B ies (length ies) else base B ies j - 1) =
      (if i = 0 then length es else i - 1)" using j i' [OF j] by (auto simp: i es)
    with SkipBackward_in [OF ix s1(2)] s1(1) v j show ?thesis
      by (simp only: two_level_iterator_def Iterator.simps TwoLevel_Prev_def Option.bind.bind_lunit if_True es)
  qed
qed

end

sublocale two_level \<subseteq> levels: iterator "two_level_iterator I D bf" "Compare C" key "two_level_at C key at_i at_d bf" for bf
  by (rule two_level_iterator_correct)

end
