(* ===== verification/Ldb_Merger.thy ===== *)
theory Ldb_Merger
  imports Ldb_TwoLevel_Spec
begin

text \<open>
  The merging iterator, \<open>table/merger.{h,cc}\<close>: it keeps a wrapper for each child and steps the one with
  the smallest key, or the largest when it moves backward. \<open>current_\<close> is the number of a child or
  \<open>NULL\<close>.
\<close>

section \<open>The iterator\<close>

record 's Merging =
  m_children :: "'s IteratorWrapper list"
  m_current :: "nat option"
  m_forward :: bool

text \<open>A loop over the children that may change each of them.\<close>

fun each_child ::
  "(nat \<Rightarrow> 's IteratorWrapper \<Rightarrow> 's IteratorWrapper option) \<Rightarrow> nat \<Rightarrow> 's IteratorWrapper list \<Rightarrow> 's IteratorWrapper list option" where
  "each_child f i [] = Some []"
| "each_child f i (w # ws) = Option.bind (f i w) (\<lambda>w. map_option ((#) w) (each_child f (Suc i) ws))"

fun set_children :: "'s Iterator \<Rightarrow> 's list \<Rightarrow> 's IteratorWrapper list option" where
  "set_children I [] = Some []"
| "set_children I (c # cs) =
     Option.bind (wrapper_Set I (Some c) IteratorWrapper_new) (\<lambda>w. map_option ((#) w) (set_children I cs))"

definition Merging_new :: "'s Iterator \<Rightarrow> 's list \<Rightarrow> 's Merging option" where
  "Merging_new I children =
     map_option (\<lambda>ws. \<lparr>m_children = ws, m_current = None, m_forward = True\<rparr>) (set_children I children)"

fun smallest_loop :: "(slice \<Rightarrow> slice \<Rightarrow> int) \<Rightarrow> nat \<Rightarrow> 's IteratorWrapper list \<Rightarrow> (nat \<times> slice) option \<Rightarrow> (nat \<times> slice) option" where
  "smallest_loop cmp i [] smallest = smallest"
| "smallest_loop cmp i (w # ws) smallest =
     smallest_loop cmp (Suc i) ws
       (if w_valid w then
          (case smallest of None \<Rightarrow> Some (i, w_key w)
           | Some (_, k) \<Rightarrow> if cmp (w_key w) k < 0 then Some (i, w_key w) else smallest)
        else smallest)"

definition FindSmallest :: "(slice \<Rightarrow> slice \<Rightarrow> int) \<Rightarrow> 's Merging \<Rightarrow> 's Merging" where
  "FindSmallest cmp m = m\<lparr>m_current := map_option fst (smallest_loop cmp 0 (m_children m) None)\<rparr>"

text \<open>From the last child to the first.\<close>

fun largest_loop :: "(slice \<Rightarrow> slice \<Rightarrow> int) \<Rightarrow> nat \<Rightarrow> 's IteratorWrapper list \<Rightarrow> (nat \<times> slice) option" where
  "largest_loop cmp i [] = None"
| "largest_loop cmp i (w # ws) =
     (let largest = largest_loop cmp (Suc i) ws in
      if w_valid w then
        (case largest of None \<Rightarrow> Some (i, w_key w)
         | Some (_, k) \<Rightarrow> if 0 < cmp (w_key w) k then Some (i, w_key w) else largest)
      else largest)"

definition FindLargest :: "(slice \<Rightarrow> slice \<Rightarrow> int) \<Rightarrow> 's Merging \<Rightarrow> 's Merging" where
  "FindLargest cmp m = m\<lparr>m_current := map_option fst (largest_loop cmp 0 (m_children m))\<rparr>"

definition current_child :: "'s Merging \<Rightarrow> 's IteratorWrapper option" where
  "current_child m =
     (case m_current m of Some c \<Rightarrow> if c < length (m_children m) then Some (m_children m ! c) else None | None \<Rightarrow> None)"

definition Merging_key :: "'s Merging \<Rightarrow> slice option" where
  "Merging_key m = Option.bind (current_child m) wrapper_key"

definition Merging_value :: "'s Iterator \<Rightarrow> 's Merging \<Rightarrow> slice option" where
  "Merging_value I m = Option.bind (current_child m) (wrapper_value I)"

fun children_status :: "'s Iterator \<Rightarrow> 's IteratorWrapper list \<Rightarrow> status" where
  "children_status I [] = Status_OK"
| "children_status I (w # ws) =
     (case wrapper_status I w of
        Some st \<Rightarrow> if \<not> status_ok st then st else children_status I ws
      | None \<Rightarrow> children_status I ws)"

definition Merging_seek_all ::
  "('s IteratorWrapper \<Rightarrow> 's IteratorWrapper option) \<Rightarrow> 's Merging \<Rightarrow> 's Merging option" where
  "Merging_seek_all f m =
     map_option (\<lambda>ws. m\<lparr>m_children := ws\<rparr>) (each_child (\<lambda>_. f) 0 (m_children m))"

definition Merging_SeekToFirst :: "'s Iterator \<Rightarrow> (slice \<Rightarrow> slice \<Rightarrow> int) \<Rightarrow> 's Merging \<Rightarrow> 's Merging option" where
  "Merging_SeekToFirst I cmp m =
     map_option (\<lambda>m. FindSmallest cmp m\<lparr>m_forward := True\<rparr>) (Merging_seek_all (wrapper_SeekToFirst I) m)"

definition Merging_SeekToLast :: "'s Iterator \<Rightarrow> (slice \<Rightarrow> slice \<Rightarrow> int) \<Rightarrow> 's Merging \<Rightarrow> 's Merging option" where
  "Merging_SeekToLast I cmp m =
     map_option (\<lambda>m. FindLargest cmp m\<lparr>m_forward := False\<rparr>) (Merging_seek_all (wrapper_SeekToLast I) m)"

definition Merging_Seek :: "'s Iterator \<Rightarrow> (slice \<Rightarrow> slice \<Rightarrow> int) \<Rightarrow> slice \<Rightarrow> 's Merging \<Rightarrow> 's Merging option" where
  "Merging_Seek I cmp target m =
     map_option (\<lambda>m. FindSmallest cmp m\<lparr>m_forward := True\<rparr>) (Merging_seek_all (wrapper_Seek I target) m)"

text \<open>The children other than the current one when the direction changes.\<close>

definition after_key :: "'s Iterator \<Rightarrow> (slice \<Rightarrow> slice \<Rightarrow> int) \<Rightarrow> slice \<Rightarrow> 's IteratorWrapper \<Rightarrow> 's IteratorWrapper option" where
  "after_key I cmp k w =
     Option.bind (wrapper_Seek I k w) (\<lambda>w. if w_valid w \<and> cmp k (w_key w) = 0 then wrapper_Next I w else Some w)"

definition before_key :: "'s Iterator \<Rightarrow> slice \<Rightarrow> 's IteratorWrapper \<Rightarrow> 's IteratorWrapper option" where
  "before_key I k w =
     Option.bind (wrapper_Seek I k w) (\<lambda>w. if w_valid w then wrapper_Prev I w else wrapper_SeekToLast I w)"

definition turn :: "(slice \<Rightarrow> 's IteratorWrapper \<Rightarrow> 's IteratorWrapper option) \<Rightarrow> bool \<Rightarrow> 's Merging \<Rightarrow> 's Merging option" where
  "turn f forward m =
     (if m_forward m = forward then Some m
      else
        Option.bind (Merging_key m) (\<lambda>k.
        map_option (\<lambda>ws. m\<lparr>m_children := ws, m_forward := forward\<rparr>)
          (each_child (\<lambda>i w. if Some i = m_current m then Some w else f k w) 0 (m_children m))))"

definition step_current :: "('s IteratorWrapper \<Rightarrow> 's IteratorWrapper option) \<Rightarrow> 's Merging \<Rightarrow> 's Merging option" where
  "step_current f m =
     Option.bind (m_current m) (\<lambda>c.
       if c < length (m_children m)
       then map_option (\<lambda>w. m\<lparr>m_children := (m_children m)[c := w]\<rparr>) (f (m_children m ! c)) else None)"

definition Merging_Next :: "'s Iterator \<Rightarrow> (slice \<Rightarrow> slice \<Rightarrow> int) \<Rightarrow> 's Merging \<Rightarrow> 's Merging option" where
  "Merging_Next I cmp m =
     (if m_current m = None then None
      else
        Option.bind (turn (after_key I cmp) True m) (\<lambda>m.
        map_option (FindSmallest cmp) (step_current (wrapper_Next I) m)))"

definition Merging_Prev :: "'s Iterator \<Rightarrow> (slice \<Rightarrow> slice \<Rightarrow> int) \<Rightarrow> 's Merging \<Rightarrow> 's Merging option" where
  "Merging_Prev I cmp m =
     (if m_current m = None then None
      else
        Option.bind (turn (before_key I) False m) (\<lambda>m.
        map_option (FindLargest cmp) (step_current (wrapper_Prev I) m)))"

definition merging_iterator :: "'s Iterator \<Rightarrow> (slice \<Rightarrow> slice \<Rightarrow> int) \<Rightarrow> 's Merging Iterator" where
  "merging_iterator I cmp =
     \<lparr>it_Valid = (\<lambda>m. m_current m \<noteq> None), it_SeekToFirst = Merging_SeekToFirst I cmp,
      it_SeekToLast = Merging_SeekToLast I cmp, it_Seek = Merging_Seek I cmp,
      it_Next = Merging_Next I cmp, it_Prev = Merging_Prev I cmp, it_key = Merging_key,
      it_value = Merging_value I, it_status = (\<lambda>m. children_status I (m_children m))\<rparr>"

text \<open>\<open>NewMergingIterator\<close> makes one only for two children or more.\<close>

datatype 's merged = NoChild status | OneChild 's | Merged "'s Merging"

definition NewMergingIterator :: "'s Iterator \<Rightarrow> 's list \<Rightarrow> 's merged option" where
  "NewMergingIterator I children =
     (case children of [] \<Rightarrow> Some (NoChild NewEmptyIterator)
      | [c] \<Rightarrow> Some (OneChild c)
      | _ \<Rightarrow> map_option Merged (Merging_new I children))"

end
