(* ===== verification/Ldb_Merger_Spec.thy ===== *)
theory Ldb_Merger_Spec
  imports Ldb_Merger Ldb_Block_Spec "HOL-Library.Multiset"
begin

text \<open>
  The merging iterator iterates over the merge of its children's entries, when no two children have
  a key in common. The merge is given by the child each entry comes from.
\<close>

section \<open>Interleavings\<close>

definition from_child :: "nat list \<Rightarrow> entry list \<Rightarrow> nat \<Rightarrow> entry list" where
  "from_child tags es c = map snd (filter (\<lambda>p. fst p = c) (zip tags es))"

definition rank :: "nat list \<Rightarrow> nat \<Rightarrow> nat \<Rightarrow> nat" where
  "rank tags c i = length (filter (\<lambda>t. t = c) (take i tags))"

lemma rank_0 [simp]: "rank tags c 0 = 0"
  by (simp add: rank_def)

lemma rank_Suc: "i < length tags \<Longrightarrow> rank tags c (Suc i) = rank tags c i + (if tags ! i = c then 1 else 0)"
  by (simp add: rank_def take_Suc_conv_app_nth)

lemma length_filter_zip: "length tags = length es \<Longrightarrow> length (filter (\<lambda>p. fst p = c) (zip tags es)) = length (filter (\<lambda>t. t = c) tags)"
  by (induction tags es rule: list_induct2) simp_all

lemma length_from_child: "length tags = length es \<Longrightarrow> length (from_child tags es c) = rank tags c (length es)"
  by (simp add: from_child_def rank_def length_filter_zip)

lemma from_child_split:
  assumes "length tags = length es"
  shows "from_child tags es c = from_child (take i tags) (take i es) c @ from_child (drop i tags) (drop i es) c"
proof -
  have "zip tags es = zip (take i tags) (take i es) @ zip (drop i tags) (drop i es)"
    by (metis append_take_drop_id take_zip drop_zip)
  then show ?thesis by (simp add: from_child_def)
qed

lemma rank_take: "length tags = length es \<Longrightarrow> length (from_child (take i tags) (take i es) c) = rank tags c i"
  by (simp add: from_child_def rank_def length_filter_zip)

lemma rank_mono: "i \<le> j \<Longrightarrow> rank tags c i \<le> rank tags c j"
  unfolding rank_def by (metis filter_append le_Suc_ex length_append le_add1 take_add)

lemma rank_le: "length tags = length es \<Longrightarrow> rank tags c i \<le> length (from_child tags es c)"
  using from_child_split [of tags es c i] rank_take [of tags es i c] by simp

lemma from_child_at:
  assumes "length tags = length es" and "i < length es"
  shows "from_child tags es (tags ! i) ! rank tags (tags ! i) i = es ! i"
    and "rank tags (tags ! i) i < length (from_child tags es (tags ! i))"
proof -
  have d: "drop i tags = tags ! i # drop (Suc i) tags" "drop i es = es ! i # drop (Suc i) es"
    using assms by (simp_all add: Cons_nth_drop_Suc)
  have s: "from_child tags es (tags ! i) =
    from_child (take i tags) (take i es) (tags ! i) @ es ! i # from_child (drop (Suc i) tags) (drop (Suc i) es) (tags ! i)"
    using from_child_split [OF assms(1), of "tags ! i" i] by (simp add: d from_child_def)
  show "from_child tags es (tags ! i) ! rank tags (tags ! i) i = es ! i"
    unfolding s using rank_take [OF assms(1), of i "tags ! i"] by (simp add: nth_append)
  show "rank tags (tags ! i) i < length (from_child tags es (tags ! i))"
    unfolding s using rank_take [OF assms(1), of i "tags ! i"] by simp
qed

text \<open>An entry of a child behind its rank stands at or behind that index in the merge, the others before it.\<close>

lemma from_child_behind:
  assumes "length tags = length es" and "rank tags c i < length (from_child tags es c)"
  shows "\<exists>j. i \<le> j \<and> j < length es \<and> tags ! j = c \<and> from_child tags es c ! rank tags c i = es ! j"
proof -
  have "from_child tags es c ! rank tags c i = from_child (drop i tags) (drop i es) c ! 0"
    and ne: "from_child (drop i tags) (drop i es) c \<noteq> []"
    using from_child_split [OF assms(1), of c i] rank_take [OF assms(1), of i c] assms(2) by (auto simp: nth_append)
  moreover from ne have "from_child (drop i tags) (drop i es) c ! 0 \<in> set (from_child (drop i tags) (drop i es) c)" by simp
  ultimately have "from_child tags es c ! rank tags c i \<in> set (from_child (drop i tags) (drop i es) c)" by simp
  then have "(c, from_child tags es c ! rank tags c i) \<in> set (zip (drop i tags) (drop i es))"
    by (auto simp: from_child_def)
  then obtain m where "m < length (drop i tags)" "m < length (drop i es)" "drop i tags ! m = c"
    "drop i es ! m = from_child tags es c ! rank tags c i" by (auto simp: in_set_zip)
  then show ?thesis using assms(1) by (intro exI [of _ "i + m"]) simp
qed

lemma from_child_before:
  assumes "length tags = length es" and "m < rank tags c i" and "i \<le> length es"
  shows "\<exists>j < i. tags ! j = c \<and> from_child tags es c ! m = es ! j"
proof -
  have m: "m < length (from_child (take i tags) (take i es) c)" using rank_take [OF assms(1), of i c] assms(2) by simp
  have "from_child tags es c ! m = from_child (take i tags) (take i es) c ! m"
    using from_child_split [OF assms(1), of c i] m by (simp add: nth_append)
  moreover have "from_child (take i tags) (take i es) c ! m \<in> set (from_child (take i tags) (take i es) c)"
    using m by (rule nth_mem)
  ultimately have "(c, from_child tags es c ! m) \<in> set (zip (take i tags) (take i es))"
    by (auto simp: from_child_def)
  then show ?thesis using assms by (auto simp: in_set_zip)
qed

lemma seek_index_child:
  assumes "length tags = length es" and down: "\<And>i j. i < j \<Longrightarrow> j < length es \<Longrightarrow> cmp (fst (es ! j)) t < 0 \<Longrightarrow> cmp (fst (es ! i)) t < 0"
  shows "seek_index cmp t (from_child tags es c) = rank tags c (seek_index cmp t es)"
proof (rule seek_index_eqI)
  let ?i = "seek_index cmp t es"
  show "rank tags c ?i \<le> length (from_child tags es c)" by (rule rank_le [OF assms(1)])
  show "cmp (fst (from_child tags es c ! m)) t < 0" if m: "m < rank tags c ?i" for m
    using from_child_before [OF assms(1) m seek_index_le] seek_index_before [of _ cmp t es] by auto
  assume "rank tags c ?i < length (from_child tags es c)"
  from from_child_behind [OF assms(1) this] obtain j where
    j: "?i \<le> j" "j < length es" "from_child tags es c ! rank tags c ?i = es ! j" by blast
  have "\<not> cmp (fst (es ! ?i)) t < 0" using seek_index_at [of cmp t es] j(1,2) by simp
  then have "\<not> cmp (fst (es ! j)) t < 0" using down [of ?i j] j(1,2) by (cases "?i = j") auto
  then show "\<not> cmp (fst (from_child tags es c ! rank tags c ?i)) t < 0" by (simp add: j(3))
qed

section \<open>The loops over the children\<close>

lemma each_child_Some:
  assumes "\<And>c. c < length ws \<Longrightarrow> \<exists>w'. f (i + c) (ws ! c) = Some w' \<and> Q (i + c) w'"
  shows "\<exists>ws'. each_child f i ws = Some ws' \<and> length ws' = length ws \<and> (\<forall>c < length ws. Q (i + c) (ws' ! c))"
  using assms
proof (induction ws arbitrary: i)
  case (Cons w ws)
  from Cons.prems [of 0] obtain w' where w': "f i w = Some w'" "Q i w'" by auto
  have "\<exists>w'. f (Suc i + c) (ws ! c) = Some w' \<and> Q (Suc i + c) w'" if "c < length ws" for c
    using Cons.prems [of "Suc c"] that by simp
  from Cons.IH [OF this] obtain ws' where
    ws': "each_child f (Suc i) ws = Some ws'" "length ws' = length ws" "\<forall>c < length ws. Q (Suc i + c) (ws' ! c)" by blast
  have "Q (i + c) ((w' # ws') ! c)" if "c < length (w # ws)" for c
    using that w'(2) ws'(3) by (cases c) auto
  with w' ws' show ?case by simp
qed simp

lemmas each_child_0 = each_child_Some [where i = 0, simplified]

lemma smallest_loop_None: "(\<forall>w \<in> set ws. \<not> w_valid w) \<Longrightarrow> smallest_loop cmp i ws s = s"
  by (induction ws arbitrary: i s) simp_all

text \<open>The child with the least key wins, wherever it stands.\<close>

lemma smallest_loop_keep:
  assumes "\<forall>w \<in> set ws. w_valid w \<longrightarrow> \<not> cmp (w_key w) k < 0"
  shows "smallest_loop cmp i ws (Some (m, k)) = Some (m, k)"
  using assms by (induction ws arbitrary: i) simp_all

lemma smallest_loop_finds:
  assumes "c < length ws" and "w_valid (ws ! c)"
    and "\<And>d. d < length ws \<Longrightarrow> d \<noteq> c \<Longrightarrow> w_valid (ws ! d) \<Longrightarrow> cmp (w_key (ws ! c)) (w_key (ws ! d)) < 0 \<and>
      \<not> cmp (w_key (ws ! d)) (w_key (ws ! c)) < 0"
    and "case s of None \<Rightarrow> True | Some (_, k) \<Rightarrow> cmp (w_key (ws ! c)) k < 0"
  shows "smallest_loop cmp i ws s = Some (i + c, w_key (ws ! c))"
  using assms
proof (induction ws arbitrary: c i s)
  case (Cons w ws)
  show ?case
  proof (cases c)
    case 0
    have "\<forall>v \<in> set ws. w_valid v \<longrightarrow> \<not> cmp (w_key v) (w_key w) < 0"
    proof (intro ballI impI)
      fix v
      assume v: "v \<in> set ws" "w_valid v"
      then obtain d where "d < length ws" "ws ! d = v" by (auto simp: in_set_conv_nth)
      with Cons.prems(3) [of "Suc d"] v(2) 0 show "\<not> cmp (w_key v) (w_key w) < 0" by simp
    qed
    with Cons.prems(2,4) 0 show ?thesis by (auto simp: smallest_loop_keep split: option.splits prod.splits)
  next
    case (Suc m)
    let ?s = "if w_valid w then (case s of None \<Rightarrow> Some (i, w_key w)
        | Some (_, k) \<Rightarrow> if cmp (w_key w) k < 0 then Some (i, w_key w) else s) else s"
    have "case ?s of None \<Rightarrow> True | Some (_, k) \<Rightarrow> cmp (w_key (ws ! m)) k < 0"
      using Cons.prems(3) [of 0] Cons.prems(4) Suc by (auto split: option.splits)
    moreover have "cmp (w_key (ws ! m)) (w_key (ws ! d)) < 0 \<and> \<not> cmp (w_key (ws ! d)) (w_key (ws ! m)) < 0"
      if "d < length ws" "d \<noteq> m" "w_valid (ws ! d)" for d
      using Cons.prems(3) [of "Suc d"] that Suc by simp
    ultimately show ?thesis using Cons.IH [of m "?s" "Suc i"] Cons.prems(1,2) Suc by simp
  qed
qed simp

lemma largest_loop_None: "(\<forall>w \<in> set ws. \<not> w_valid w) \<Longrightarrow> largest_loop cmp i ws = None"
  by (induction ws arbitrary: i) simp_all

lemma largest_loop_member: "largest_loop cmp i ws = Some (m, k) \<Longrightarrow> \<exists>d < length ws. w_valid (ws ! d) \<and> k = w_key (ws ! d) \<and> m = i + d"
proof (induction ws arbitrary: i)
  case (Cons w ws)
  show ?case
  proof (cases "w_valid w \<and> m = i \<and> k = w_key w")
    case True
    then show ?thesis by (intro exI [of _ 0]) simp
  next
    case False
    with Cons.prems have "largest_loop cmp (Suc i) ws = Some (m, k)" by (auto simp: Let_def split: if_splits option.splits)
    from Cons.IH [OF this] obtain d where "d < length ws" "w_valid (ws ! d)" "k = w_key (ws ! d)" "m = Suc i + d" by blast
    then show ?thesis by (intro exI [of _ "Suc d"]) simp
  qed
qed simp

lemma largest_loop_finds:
  assumes "c < length ws" and "w_valid (ws ! c)"
    and "\<And>d. d < length ws \<Longrightarrow> d \<noteq> c \<Longrightarrow> w_valid (ws ! d) \<Longrightarrow> 0 < cmp (w_key (ws ! c)) (w_key (ws ! d)) \<and>
      \<not> 0 < cmp (w_key (ws ! d)) (w_key (ws ! c))"
  shows "largest_loop cmp i ws = Some (i + c, w_key (ws ! c))"
  using assms
proof (induction ws arbitrary: c i)
  case (Cons w ws)
  show ?case
  proof (cases c)
    case 0
    have "0 < cmp (w_key w) k" if "largest_loop cmp (Suc i) ws = Some (m, k)" for m k
    proof -
      from largest_loop_member [OF that] obtain d where "d < length ws" "w_valid (ws ! d)" "k = w_key (ws ! d)" by blast
      with Cons.prems(3) [of "Suc d"] 0 show ?thesis by simp
    qed
    with Cons.prems(2) 0 show ?thesis by (auto simp: Let_def split: option.splits)
  next
    case (Suc m)
    have "0 < cmp (w_key (ws ! m)) (w_key (ws ! d)) \<and> \<not> 0 < cmp (w_key (ws ! d)) (w_key (ws ! m))"
      if "d < length ws" "d \<noteq> m" "w_valid (ws ! d)" for d
      using Cons.prems(3) [of "Suc d"] that Suc by simp
    with Cons.IH [of m "Suc i"] Cons.prems(1,2) Suc have "largest_loop cmp (Suc i) ws = Some (Suc i + m, w_key (ws ! m))"
      by simp
    with Cons.prems(3) [of 0] Suc show ?thesis by (simp add: Let_def)
  qed
qed simp

section \<open>The contract\<close>

definition children_at ::
  "(entry list \<Rightarrow> nat \<Rightarrow> 's \<Rightarrow> bool) \<Rightarrow> nat list \<Rightarrow> entry list \<Rightarrow> (nat \<Rightarrow> nat) \<Rightarrow> 's IteratorWrapper list \<Rightarrow> bool" where
  "children_at at tags es pos ws \<longleftrightarrow> length tags = length es \<and> (\<forall>t \<in> set tags. t < length ws) \<and>
     (\<forall>c < length ws. wraps at (from_child tags es c) (pos c) (ws ! c))"

text \<open>Behind entry \<open>i\<close>, seen from the back: the last entry of the child up to it, or its end.\<close>

definition back_rank :: "nat list \<Rightarrow> entry list \<Rightarrow> nat \<Rightarrow> nat \<Rightarrow> nat" where
  "back_rank tags es i c = (if rank tags c (i + 1) = 0 then length (from_child tags es c) else rank tags c (i + 1) - 1)"

definition merging_at ::
  "Comparator \<Rightarrow> (slice \<Rightarrow> bool) \<Rightarrow> (entry list \<Rightarrow> nat \<Rightarrow> 's \<Rightarrow> bool) \<Rightarrow> entry list \<Rightarrow> nat \<Rightarrow> 's Merging \<Rightarrow> bool" where
  "merging_at C key at es i m \<longleftrightarrow> sorted_entries (Compare C) es \<and> (\<forall>e \<in> set es. key (fst e)) \<and> i \<le> length es \<and>
     (\<exists>tags pos. children_at at tags es pos (m_children m) \<and>
        (if i < length es
         then m_current m = Some (tags ! i) \<and>
           pos = (if m_forward m then (\<lambda>c. rank tags c i) else back_rank tags es i)
         else m_current m = None))"

locale merging = comparator C key + idx: iterator I "Compare C" key at_i
  for C :: Comparator and key :: "slice \<Rightarrow> bool" and I :: "'i Iterator" and at_i :: "entry list \<Rightarrow> nat \<Rightarrow> 'i \<Rightarrow> bool"
begin

lemma children_atD:
  assumes "children_at at_i tags es pos ws" and "c < length ws"
  shows "wraps at_i (from_child tags es c) (pos c) (ws ! c)"
    and "w_valid (ws ! c) \<longleftrightarrow> pos c < length (from_child tags es c)"
    and "pos c < length (from_child tags es c) \<Longrightarrow> w_key (ws ! c) = fst (from_child tags es c ! pos c)"
proof -
  show w: "wraps at_i (from_child tags es c) (pos c) (ws ! c)" using assms by (simp add: children_at_def)
  show v: "w_valid (ws ! c) \<longleftrightarrow> pos c < length (from_child tags es c)" by (rule idx.wraps_valid [OF w])
  show "w_key (ws ! c) = fst (from_child tags es c ! pos c)" if "pos c < length (from_child tags es c)"
    using idx.wraps_key [OF w that] v that by (simp add: wrapper_key_def)
qed

lemma sorted_less:
  assumes "sorted_entries (Compare C) es" and "\<forall>e \<in> set es. key (fst e)" and "i < j" and "j < length es"
  shows "Compare C (fst (es ! i)) (fst (es ! j)) < 0" "\<not> Compare C (fst (es ! j)) (fst (es ! i)) < 0"
    "0 < Compare C (fst (es ! j)) (fst (es ! i))" "\<not> 0 < Compare C (fst (es ! i)) (fst (es ! j))"
proof -
  show lt: "Compare C (fst (es ! i)) (fst (es ! j)) < 0" using assms by (intro sorted_entries_nth)
  have "key (fst (es ! i))" "key (fst (es ! j))" using assms by simp_all
  with flip [of "fst (es ! j)" "fst (es ! i)"] flip [of "fst (es ! i)" "fst (es ! j)"] lt
  show "0 < Compare C (fst (es ! j)) (fst (es ! i))" "\<not> Compare C (fst (es ! j)) (fst (es ! i)) < 0"
    "\<not> 0 < Compare C (fst (es ! i)) (fst (es ! j))" by auto
qed

lemma FindSmallest_at:
  assumes es: "sorted_entries (Compare C) es" "\<forall>e \<in> set es. key (fst e)" and i: "i \<le> length es"
    and ch: "children_at at_i tags es (\<lambda>c. rank tags c i) (m_children m)" and dir: "m_forward m"
  shows "merging_at C key at_i es i (FindSmallest (Compare C) m)"
proof -
  let ?ws = "m_children m"
  have len: "length tags = length es" and tags: "\<forall>t \<in> set tags. t < length ?ws" using ch by (simp_all add: children_at_def)
  show ?thesis
  proof (cases "i < length es")
    case False
    then have "i = length es" using i by simp
    then have "\<not> w_valid (?ws ! c)" if "c < length ?ws" for c
      using children_atD(2) [OF ch that] length_from_child [OF len] by simp
    then have "\<forall>w \<in> set ?ws. \<not> w_valid w" by (auto simp: in_set_conv_nth)
    then have "m_current (FindSmallest (Compare C) m) = None" by (simp add: FindSmallest_def smallest_loop_None)
    with es ch False i show ?thesis
      unfolding merging_at_def by (auto simp: FindSmallest_def)
  next
    case True
    let ?c = "tags ! i"
    have c: "?c < length ?ws" using tags True len by simp
    have at: "w_valid (?ws ! ?c)" "w_key (?ws ! ?c) = fst (es ! i)"
      using children_atD(2,3) [OF ch c] from_child_at [OF len True] by simp_all
    have "Compare C (w_key (?ws ! ?c)) (w_key (?ws ! d)) < 0 \<and> \<not> Compare C (w_key (?ws ! d)) (w_key (?ws ! ?c)) < 0"
      if d: "d < length ?ws" "d \<noteq> ?c" "w_valid (?ws ! d)" for d
    proof -
      from d children_atD(2) [OF ch d(1)] have "rank tags d i < length (from_child tags es d)" by simp
      with from_child_behind [OF len this] children_atD(3) [OF ch d(1)] obtain j where
        j: "i \<le> j" "j < length es" "tags ! j = d" "w_key (?ws ! d) = fst (es ! j)" by auto
      then have "i < j" using d(2) by (cases "i = j") auto
      from sorted_less [OF es this j(2)] at(2) j(4) show ?thesis by simp
    qed
    from smallest_loop_finds [where cmp = "Compare C" and s = None and i = 0, OF c at(1) this]
    have "m_current (FindSmallest (Compare C) m) = Some ?c" by (simp add: FindSmallest_def)
    with es ch True i dir show ?thesis
      unfolding merging_at_def by (auto simp: FindSmallest_def)
  qed
qed

lemma FindLargest_at:
  assumes es: "sorted_entries (Compare C) es" "\<forall>e \<in> set es. key (fst e)" and i: "i < length es"
    and ch: "children_at at_i tags es (back_rank tags es i) (m_children m)" and dir: "\<not> m_forward m"
  shows "merging_at C key at_i es i (FindLargest (Compare C) m)"
proof -
  let ?ws = "m_children m" and ?c = "tags ! i"
  have len: "length tags = length es" and tags: "\<forall>t \<in> set tags. t < length ?ws" using ch by (simp_all add: children_at_def)
  have c: "?c < length ?ws" using tags i len by simp
  have "back_rank tags es i ?c = rank tags ?c i" using i len by (simp add: back_rank_def rank_Suc)
  then have at: "w_valid (?ws ! ?c)" "w_key (?ws ! ?c) = fst (es ! i)"
    using children_atD(2,3) [OF ch c] from_child_at [OF len i] by simp_all
  have "0 < Compare C (w_key (?ws ! ?c)) (w_key (?ws ! d)) \<and> \<not> 0 < Compare C (w_key (?ws ! d)) (w_key (?ws ! ?c))"
    if d: "d < length ?ws" "d \<noteq> ?c" "w_valid (?ws ! d)" for d
  proof -
    from d children_atD(2) [OF ch d(1)] have lt: "back_rank tags es i d < length (from_child tags es d)" by simp
    then have r: "back_rank tags es i d = rank tags d (i + 1) - 1" "rank tags d (i + 1) \<noteq> 0"
      by (simp_all add: back_rank_def split: if_splits)
    from from_child_before [OF len, of "rank tags d (i + 1) - 1" d "i + 1"] r(2) i obtain j where
      j: "j < i + 1" "tags ! j = d" "from_child tags es d ! (rank tags d (i + 1) - 1) = es ! j" by auto
    then have "j < i" using d(2) by (cases "i = j") auto
    with sorted_less [OF es this i] at(2) children_atD(3) [OF ch d(1) lt] j(3) r(1) show ?thesis by simp
  qed
  from largest_loop_finds [where cmp = "Compare C" and i = 0, OF c at(1) this]
  have "m_current (FindLargest (Compare C) m) = Some ?c" by (simp add: FindLargest_def)
  with es ch i dir show ?thesis unfolding merging_at_def by (auto simp: FindLargest_def)
qed

lemma FindLargest_end:
  assumes es: "sorted_entries (Compare C) es" "\<forall>e \<in> set es. key (fst e)"
    and ch: "children_at at_i tags es (\<lambda>c. length (from_child tags es c)) (m_children m)"
  shows "merging_at C key at_i es (length es) (FindLargest (Compare C) m)"
proof -
  have "\<not> w_valid (m_children m ! c)" if "c < length (m_children m)" for c
    using children_atD(2) [OF ch that] by simp
  then have "\<forall>w \<in> set (m_children m). \<not> w_valid w" by (auto simp: in_set_conv_nth)
  then have "m_current (FindLargest (Compare C) m) = None" by (simp add: FindLargest_def largest_loop_None)
  with es ch show ?thesis unfolding merging_at_def by (auto simp: FindLargest_def)
qed

lemma Find_forward:
  "FindSmallest cmp (m\<lparr>m_forward := b\<rparr>) = (FindSmallest cmp m)\<lparr>m_forward := b\<rparr>"
  "FindLargest cmp (m\<lparr>m_forward := b\<rparr>) = (FindLargest cmp m)\<lparr>m_forward := b\<rparr>"
  by (cases m, simp add: FindSmallest_def FindLargest_def)+

text \<open>Moving all children.\<close>

lemma seek_all_at:
  assumes ch: "children_at at_i tags es pos (m_children m)"
    and "\<And>c. c < length (m_children m) \<Longrightarrow> moves at_i (from_child tags es c) (pos c) f (pos' c)"
  shows "\<exists>ws. Merging_seek_all f m = Some (m\<lparr>m_children := ws\<rparr>) \<and> children_at at_i tags es pos' ws"
proof -
  have "\<exists>w'. f (m_children m ! c) = Some w' \<and> wraps at_i (from_child tags es c) (pos' c) w'"
    if "c < length (m_children m)" for c
    using assms(2) [OF that] children_atD(1) [OF ch that] by (auto simp: moves_def)
  from each_child_0 [of "m_children m" "\<lambda>_. f" "\<lambda>c. wraps at_i (from_child tags es c) (pos' c)", OF this] obtain ws where
    "each_child (\<lambda>_. f) 0 (m_children m) = Some ws" "length ws = length (m_children m)"
    "\<forall>c < length (m_children m). wraps at_i (from_child tags es c) (pos' c) (ws ! c)" by auto
  with ch show ?thesis by (auto simp: Merging_seek_all_def children_at_def)
qed

lemma turned:
  assumes ch: "children_at at_i tags es pos (m_children m)" and cur: "m_current m = Some t" "t < length (m_children m)"
    and k: "Merging_key m = Some k" and "m_forward m \<noteq> forward"
    and "\<And>c w. c < length (m_children m) \<Longrightarrow> c \<noteq> t \<Longrightarrow> wraps at_i (from_child tags es c) (pos c) w \<Longrightarrow>
      \<exists>w'. f k w = Some w' \<and> wraps at_i (from_child tags es c) (pos' c) w'"
    and "pos' t = pos t"
  shows "\<exists>ws. turn f forward m = Some (m\<lparr>m_children := ws, m_forward := forward\<rparr>) \<and> children_at at_i tags es pos' ws"
proof -
  let ?f = "\<lambda>i w. if Some i = m_current m then Some w else f k w"
  have "\<exists>w'. ?f c (m_children m ! c) = Some w' \<and> wraps at_i (from_child tags es c) (pos' c) w'"
    if "c < length (m_children m)" for c
    using assms(6) [OF that] children_atD(1) [OF ch that] cur(1) assms(7) by (cases "c = t") auto
  from each_child_0 [of "m_children m" ?f "\<lambda>c. wraps at_i (from_child tags es c) (pos' c)", OF this] obtain ws where
    ws: "each_child ?f 0 (m_children m) = Some ws" "length ws = length (m_children m)"
      "\<forall>c < length (m_children m). wraps at_i (from_child tags es c) (pos' c) (ws ! c)" by auto
  then have "turn f forward m = Some (m\<lparr>m_children := ws, m_forward := forward\<rparr>)" using assms(5) k by (simp add: turn_def)
  moreover have "children_at at_i tags es pos' ws" using ch ws(2,3) by (simp add: children_at_def)
  ultimately show ?thesis by blast
qed

lemma stepped:
  assumes ch: "children_at at_i tags es pos (m_children m)" and cur: "m_current m = Some t" "t < length (m_children m)"
    and "moves at_i (from_child tags es t) (pos t) f k"
  shows "\<exists>ws. step_current f m = Some (m\<lparr>m_children := ws\<rparr>) \<and> children_at at_i tags es (pos(t := k)) ws"
proof -
  from assms(4) children_atD(1) [OF ch cur(2)] obtain w' where
    "f (m_children m ! t) = Some w'" "wraps at_i (from_child tags es t) k w'" by (auto simp: moves_def)
  with ch cur show ?thesis
    by (intro exI [of _ "(m_children m)[t := w']"]) (auto simp: step_current_def children_at_def nth_list_update)
qed

text \<open>The current entry, whatever the direction.\<close>

lemma merging_current:
  assumes "merging_at C key at_i es i m" and "i < length es"
  obtains tags where "children_at at_i tags es (if m_forward m then (\<lambda>c. rank tags c i) else back_rank tags es i) (m_children m)"
    and "m_current m = Some (tags ! i)" and "tags ! i < length (m_children m)" and "length tags = length es"
    and "(if m_forward m then (\<lambda>c. rank tags c i) else back_rank tags es i) (tags ! i) = rank tags (tags ! i) i"
    and "Merging_key m = Some (fst (es ! i))" and "Merging_value I m = Some (snd (es ! i))"
proof -
  from assms obtain tags where
    ch: "children_at at_i tags es (if m_forward m then (\<lambda>c. rank tags c i) else back_rank tags es i) (m_children m)"
    and cur: "m_current m = Some (tags ! i)" by (auto simp: merging_at_def)
  let ?pos = "if m_forward m then (\<lambda>c. rank tags c i) else back_rank tags es i"
  have len: "length tags = length es" and c: "tags ! i < length (m_children m)"
    using ch assms(2) by (simp_all add: children_at_def)
  have r: "?pos (tags ! i) = rank tags (tags ! i) i" using assms(2) len by (simp add: back_rank_def rank_Suc)
  note w = children_atD(1) [OF ch c, unfolded r]
  have "Merging_key m = Some (fst (es ! i))" "Merging_value I m = Some (snd (es ! i))"
    using idx.wraps_key [OF w] idx.wraps_value [OF w] from_child_at [OF len assms(2)] cur c
    by (simp_all add: Merging_key_def Merging_value_def current_child_def)
  with that ch cur c len r show thesis by blast
qed

lemma seek_rank:
  assumes "sorted_entries (Compare C) es" "\<forall>e \<in> set es. key (fst e)" and "length tags = length es" and "key t"
  shows "seek_index (Compare C) t (from_child tags es c) = rank tags c (seek_index (Compare C) t es)"
proof (rule seek_index_child [OF assms(3)])
  fix i j
  assume "i < j" "j < length es" and lt: "Compare C (fst (es ! j)) t < 0"
  with less_trans [of "fst (es ! i)" "fst (es ! j)" t] sorted_entries_nth [OF assms(1)] assms(2,4)
  show "Compare C (fst (es ! i)) t < 0" by simp
qed

lemma seek_own_key:
  assumes "sorted_entries (Compare C) es" "\<forall>e \<in> set es. key (fst e)" and "i < length es"
  shows "seek_index (Compare C) (fst (es ! i)) es = i"
proof (rule seek_index_eqI)
  show "\<not> Compare C (fst (es ! i)) (fst (es ! i)) < 0" using assms(2,3) refl [of "fst (es ! i)"] by simp
qed (use assms sorted_entries_nth in auto)

lemma merging_iterator_correct:
  "iterator (merging_iterator I (Compare C)) (Compare C) key (merging_at C key at_i)"
proof unfold_locales
  fix es i t and m :: "'i Merging"
  assume at: "merging_at C key at_i es i m"
  then have es: "sorted_entries (Compare C) es" "\<forall>e \<in> set es. key (fst e)" and i: "i \<le> length es"
    by (simp_all add: merging_at_def)
  from at obtain tags pos where ch: "children_at at_i tags es pos (m_children m)" by (auto simp: merging_at_def)
  then have len: "length tags = length es" by (simp add: children_at_def)
  show "i \<le> length es" by (rule i)
  show "it_Valid (merging_iterator I (Compare C)) m \<longleftrightarrow> i < length es"
    using at by (auto simp: merging_at_def merging_iterator_def split: if_splits)
  have "children_status I ws = Status_OK" if "\<forall>w \<in> set ws. wrapper_status I w = Some Status_OK" for ws
    using that by (induction ws) simp_all
  moreover have "\<forall>w \<in> set (m_children m). wrapper_status I w = Some Status_OK"
    using idx.wraps_status [OF children_atD(1) [OF ch]] by (auto simp: in_set_conv_nth)
  ultimately show "it_status (merging_iterator I (Compare C)) m = Status_OK" by (simp add: merging_iterator_def)
  show "\<exists>s'. it_SeekToFirst (merging_iterator I (Compare C)) m = Some s' \<and> merging_at C key at_i es 0 s'"
  proof -
    from seek_all_at [OF ch idx.moves_SeekToFirst] obtain ws where
      ws: "Merging_seek_all (wrapper_SeekToFirst I) m = Some (m\<lparr>m_children := ws\<rparr>)" "children_at at_i tags es (\<lambda>_. 0) ws" by blast
    let ?m = "m\<lparr>m_children := ws, m_forward := True\<rparr>"
    have "merging_at C key at_i es 0 (FindSmallest (Compare C) ?m)"
      using ws(2) by (intro FindSmallest_at [OF es]) simp_all
    with ws(1) show ?thesis by (simp add: merging_iterator_def Merging_SeekToFirst_def Find_forward)
  qed
  show "\<exists>s'. it_SeekToLast (merging_iterator I (Compare C)) m = Some s' \<and> merging_at C key at_i es (length es - 1) s'"
  proof -
    let ?pos = "\<lambda>c. length (from_child tags es c) - 1"
    from seek_all_at [where pos' = ?pos, OF ch idx.moves_SeekToLast] obtain ws where
      ws: "Merging_seek_all (wrapper_SeekToLast I) m = Some (m\<lparr>m_children := ws\<rparr>)" "children_at at_i tags es ?pos ws" by blast
    let ?m = "m\<lparr>m_children := ws, m_forward := False\<rparr>"
    have "merging_at C key at_i es (length es - 1) (FindLargest (Compare C) ?m)"
    proof (cases "es = []")
      case True
      then have "?pos = (\<lambda>c. length (from_child tags es c))" by (simp add: from_child_def)
      with ws(2) True show ?thesis using FindLargest_end [OF es, of tags ?m] by simp
    next
      case False
      then have "?pos = back_rank tags es (length es - 1)"
        by (auto simp: back_rank_def length_from_child [OF len])
      with ws(2) False show ?thesis using FindLargest_at [OF es, of "length es - 1" tags ?m] by simp
    qed
    with ws(1) show ?thesis by (simp add: merging_iterator_def Merging_SeekToLast_def Find_forward)
  qed
  show "\<exists>s'. it_Seek (merging_iterator I (Compare C)) t m = Some s' \<and> merging_at C key at_i es (seek_index (Compare C) t es) s'"
    if t: "key t"
  proof -
    from seek_all_at [OF ch idx.moves_Seek [OF t]] obtain ws where
      ws: "Merging_seek_all (wrapper_Seek I t) m = Some (m\<lparr>m_children := ws\<rparr>)"
        "children_at at_i tags es (\<lambda>c. rank tags c (seek_index (Compare C) t es)) ws"
      unfolding seek_rank [OF es len t] by blast
    let ?m = "m\<lparr>m_children := ws, m_forward := True\<rparr>"
    have "merging_at C key at_i es (seek_index (Compare C) t es) (FindSmallest (Compare C) ?m)"
      using ws(2) seek_index_le by (intro FindSmallest_at [OF es]) simp_all
    with ws(1) show ?thesis by (simp add: merging_iterator_def Merging_Seek_def Find_forward)
  qed
assume lt: "i < length es"
  let ?k = "fst (es ! i)"
  have k: "key ?k" using es(2) lt by simp
  obtain tags where
    ch: "children_at at_i tags es (if m_forward m then (\<lambda>c. rank tags c i) else back_rank tags es i) (m_children m)"
    and cur: "m_current m = Some (tags ! i)" "tags ! i < length (m_children m)" and len: "length tags = length es"
    and own: "(if m_forward m then (\<lambda>c. rank tags c i) else back_rank tags es i) (tags ! i) = rank tags (tags ! i) i"
    and kv: "Merging_key m = Some ?k" "Merging_value I m = Some (snd (es ! i))"
    by (rule merging_current [OF at lt])
  let ?t = "tags ! i"
  show "it_key (merging_iterator I (Compare C)) m = Some (fst (es ! i))"
    "it_value (merging_iterator I (Compare C)) m = Some (snd (es ! i))"
    using kv by (simp_all add: merging_iterator_def)
  have seek: "seek_index (Compare C) ?k (from_child tags es c) = rank tags c i" for c
    using seek_rank [OF es len k] seek_own_key [OF es lt] by simp
  have other: "rank tags c (i + 1) = rank tags c i" if "c \<noteq> ?t" for c
    using that lt len by (simp add: rank_Suc)
  have mine: "rank tags ?t (i + 1) = rank tags ?t i + 1" "rank tags ?t i < length (from_child tags es ?t)"
    using lt len from_child_at(2) [OF len lt] by (simp_all add: rank_Suc)
  show "\<exists>s'. it_Next (merging_iterator I (Compare C)) m = Some s' \<and> merging_at C key at_i es (i + 1) s'"
  proof -
    have "\<exists>m1. turn (after_key I (Compare C)) True m = Some m1 \<and> m_forward m1 \<and> m_current m1 = m_current m \<and>
      ?t < length (m_children m1) \<and> children_at at_i tags es (\<lambda>c. rank tags c i) (m_children m1)"
    proof (cases "m_forward m")
      case True
      with ch cur(2) show ?thesis by (simp add: turn_def)
    next
      case False
      have keyed: "\<exists>w'. after_key I (Compare C) ?k w = Some w' \<and> wraps at_i (from_child tags es c) (rank tags c i) w'"
        if c: "c < length (m_children m)" "c \<noteq> ?t" and w: "wraps at_i (from_child tags es c) p w" for c p w
      proof -
        from idx.wrapper_Seek [OF w k] seek obtain w1 where
          w1: "wrapper_Seek I ?k w = Some w1" "wraps at_i (from_child tags es c) (rank tags c i) w1" by auto
        have "Compare C ?k (w_key w1) \<noteq> 0" if "w_valid w1"
        proof -
          have r: "rank tags c i < length (from_child tags es c)" using idx.wraps_valid [OF w1(2)] that by simp
          then obtain j where j: "i \<le> j" "j < length es" "tags ! j = c" "from_child tags es c ! rank tags c i = es ! j"
            using from_child_behind [OF len] by blast
          have "w_key w1 = fst (es ! j)" using idx.wraps_key [OF w1(2) r] that j(4) by (simp add: wrapper_key_def)
          moreover have "i < j" using j(1,3) c(2) by (cases "i = j") auto
          ultimately show ?thesis using sorted_less(1) [OF es _ j(2)] by fastforce
        qed
        with w1 show ?thesis by (auto simp: after_key_def)
      qed
      have "\<exists>ws. turn (after_key I (Compare C)) True m = Some (m\<lparr>m_children := ws, m_forward := True\<rparr>) \<and>
        children_at at_i tags es (\<lambda>c. rank tags c i) ws"
      proof (rule turned [OF ch cur kv(1)])
        show "m_forward m \<noteq> True" using False by simp
        show "\<exists>w'. after_key I (Compare C) ?k w = Some w' \<and> wraps at_i (from_child tags es c) ((\<lambda>c. rank tags c i) c) w'"
          if "c < length (m_children m)" "c \<noteq> ?t" "wraps at_i (from_child tags es c) ((if m_forward m then (\<lambda>c. rank tags c i) else back_rank tags es i) c) w" for c w
          by (rule keyed [OF that])
        show "(\<lambda>c. rank tags c i) ?t = (if m_forward m then (\<lambda>c. rank tags c i) else back_rank tags es i) ?t" using own  by simp
      qed
      moreover have "?t \<in> set tags" using lt len by simp
      ultimately show ?thesis by (auto simp: children_at_def)
    qed
    then obtain m1 where m1: "turn (after_key I (Compare C)) True m = Some m1" "m_forward m1"
      "m_current m1 = m_current m" "?t < length (m_children m1)"
      "children_at at_i tags es (\<lambda>c. rank tags c i) (m_children m1)" by blast
    from stepped [OF m1(5) _ _ idx.moves_Next [OF mine(2)]] m1(3,4) cur obtain ws where
      ws: "step_current (wrapper_Next I) m1 = Some (m1\<lparr>m_children := ws\<rparr>)"
        "children_at at_i tags es ((\<lambda>c. rank tags c i)(?t := rank tags ?t i + 1)) ws" by auto
    have "(\<lambda>c. rank tags c i)(?t := rank tags ?t i + 1) = (\<lambda>c. rank tags c (i + 1))"
      using mine(1) other by (auto simp: fun_eq_iff)
    with ws(2) m1(2) lt have "merging_at C key at_i es (i + 1) (FindSmallest (Compare C) (m1\<lparr>m_children := ws\<rparr>))"
      by (intro FindSmallest_at [OF es, of "i + 1" tags]) simp_all
    with ws(1) m1(1) cur(1) show ?thesis by (simp add: merging_iterator_def Merging_Next_def)
  qed
  show "\<exists>s'. it_Prev (merging_iterator I (Compare C)) m = Some s' \<and>
    merging_at C key at_i es (if i = 0 then length es else i - 1) s'"
  proof -
    let ?pos = "back_rank tags es i"
    have own': "?pos ?t = rank tags ?t i" using mine by (simp add: back_rank_def)
    have "\<exists>m1. turn (before_key I) False m = Some m1 \<and> \<not> m_forward m1 \<and> m_current m1 = m_current m \<and>
      ?t < length (m_children m1) \<and> children_at at_i tags es ?pos (m_children m1)"
    proof (cases "m_forward m")
      case False
      with ch cur(2) show ?thesis by (simp add: turn_def)
    next
      case True
      have keyed: "\<exists>w'. before_key I ?k w = Some w' \<and> wraps at_i (from_child tags es c) (?pos c) w'"
        if c: "c < length (m_children m)" "c \<noteq> ?t" and w: "wraps at_i (from_child tags es c) p w" for c p w
      proof -
        from idx.wrapper_Seek [OF w k] seek obtain w1 where
          w1: "wrapper_Seek I ?k w = Some w1" "wraps at_i (from_child tags es c) (rank tags c i) w1" by auto
        have "?pos c = (if rank tags c i = 0 then length (from_child tags es c) else rank tags c i - 1)"
          using other [OF c(2)] by (simp add: back_rank_def)
        moreover have "\<not> w_valid w1 \<Longrightarrow> rank tags c i = length (from_child tags es c)"
          using idx.wraps_valid [OF w1(2)] idx.wraps_within [OF w1(2)] by simp
        ultimately show ?thesis
          using w1 idx.wrapper_Prev [OF w1(2)] idx.wrapper_SeekToLast [OF w1(2)] idx.wraps_valid [OF w1(2)]
          by (cases "w_valid w1") (auto simp: before_key_def)
      qed
      have "\<exists>ws. turn (before_key I) False m = Some (m\<lparr>m_children := ws, m_forward := False\<rparr>) \<and>
        children_at at_i tags es ?pos ws"
      proof (rule turned [OF ch cur kv(1)])
        show "m_forward m \<noteq> False" using True by simp
        show "\<exists>w'. before_key I ?k w = Some w' \<and> wraps at_i (from_child tags es c) (?pos c) w'"
          if "c < length (m_children m)" "c \<noteq> ?t" "wraps at_i (from_child tags es c) ((if m_forward m then (\<lambda>c. rank tags c i) else back_rank tags es i) c) w" for c w
          by (rule keyed [OF that])
        show "?pos ?t = (if m_forward m then (\<lambda>c. rank tags c i) else back_rank tags es i) ?t" using own own' by simp
      qed
      moreover have "?t \<in> set tags" using lt len by simp
      ultimately show ?thesis by (auto simp: children_at_def)
    qed
    then obtain m1 where m1: "turn (before_key I) False m = Some m1" "\<not> m_forward m1"
      "m_current m1 = m_current m" "?t < length (m_children m1)"
      "children_at at_i tags es ?pos (m_children m1)" by blast
    let ?new = "if rank tags ?t i = 0 then length (from_child tags es ?t) else rank tags ?t i - 1"
    have "moves at_i (from_child tags es ?t) (?pos ?t) (wrapper_Prev I) ?new"
      using idx.moves_Prev [OF mine(2)] own' by simp
    from stepped [OF m1(5) _ _ this] m1(3,4) cur obtain ws where
      ws: "step_current (wrapper_Prev I) m1 = Some (m1\<lparr>m_children := ws\<rparr>)"
        "children_at at_i tags es (?pos(?t := ?new)) ws" by auto
    have pos: "(?pos(?t := ?new)) c = (if rank tags c i = 0 then length (from_child tags es c) else rank tags c i - 1)" for c
      using other [of c] by (simp add: back_rank_def)
    have "merging_at C key at_i es (if i = 0 then length es else i - 1) (FindLargest (Compare C) (m1\<lparr>m_children := ws\<rparr>))"
    proof (cases i)
      case 0
      then have "?pos(?t := ?new) = (\<lambda>c. length (from_child tags es c))" using pos by (simp add: fun_eq_iff)
      with ws(2) 0 show ?thesis using FindLargest_end [OF es, of tags "m1\<lparr>m_children := ws\<rparr>"] by simp
    next
      case (Suc j)
      then have "?pos(?t := ?new) = back_rank tags es j" using pos by (simp add: fun_eq_iff back_rank_def)
      with ws(2) Suc m1(2) lt show ?thesis using FindLargest_at [OF es, of j tags "m1\<lparr>m_children := ws\<rparr>"] by simp
    qed
    with ws(1) m1(1) cur(1) show ?thesis by (simp add: merging_iterator_def Merging_Prev_def)
  qed
qed

end

sublocale merging \<subseteq> merged: iterator "merging_iterator I (Compare C)" "Compare C" key "merging_at C key at_i"
  by (rule merging_iterator_correct)

text \<open>
  A new merging iterator over children whose entries make up one sorted list.
\<close>

section \<open>Merging lists of entries\<close>

text \<open>Which child each entry of the merged list comes from.\<close>

definition deal :: "entry list list \<Rightarrow> entry list \<Rightarrow> nat list" where
  "deal parts es = map (\<lambda>e. LEAST c. c < length parts \<and> e \<in> set (parts ! c)) es"

lemma in_some_part: "e \<in> set (concat parts) \<Longrightarrow> \<exists>c. c < length parts \<and> e \<in> set (parts ! c)"
  by (induction parts) (fastforce simp: nth_Cons split: nat.splits)+

lemma distinct_concat_less:
  assumes "distinct (concat parts)" and "i < j" and "j < length parts"
  shows "set (parts ! i) \<inter> set (parts ! j) = {}"
proof -
  have "concat parts = concat (take j parts) @ parts ! j @ concat (drop (Suc j) parts)"
    using assms(3) by (metis concat.simps(2) concat_append id_take_nth_drop)
  then have "set (concat (take j parts)) \<inter> set (parts ! j) = {}" using assms(1) by auto
  moreover have "parts ! i \<in> set (take j parts)" using assms(2,3) by (force simp: in_set_conv_nth)
  ultimately show ?thesis by auto
qed

lemma distinct_concat_disjoint:
  assumes "distinct (concat parts)" and "e \<in> set (parts ! i)" "e \<in> set (parts ! j)"
    and "i < length parts" "j < length parts"
  shows "i = j"
  using distinct_concat_less [OF assms(1), of i j] distinct_concat_less [OF assms(1), of j i] assms(2-5)
  by (cases i j rule: linorder_cases) auto

context comparator
begin

lemma sorted_entries_unique:
  assumes "sorted_entries (Compare C) xs" and "sorted_entries (Compare C) ys" and "set xs = set ys"
    and "\<forall>e \<in> set xs. key (fst e)"
  shows "xs = ys"
  using assms
proof (induction xs arbitrary: ys)
  case (Cons x xs)
  then obtain y ys' where ys: "ys = y # ys'" by (cases ys) auto
  have irr: "\<not> Compare C (fst e) (fst e) < 0" if "e \<in> set (x # xs)" for e
    using Cons.prems(4) that refl [of "fst e"] by auto
  have "x = y"
  proof (rule ccontr)
    assume ne: "x \<noteq> y"
    have "x \<in> set ys'" "y \<in> set xs" using Cons.prems(3) ne by (auto simp: ys)
    then have "Compare C (fst y) (fst x) < 0" "Compare C (fst x) (fst y) < 0"
      using Cons.prems(1,2) by (auto simp: ys sorted_entries_def)
    moreover have "key (fst x)" "key (fst y)" using Cons.prems(4) \<open>y \<in> set xs\<close> by auto
    ultimately show False using flip [of "fst x" "fst y"] by simp
  qed
  moreover have "y \<in> set (x # xs)" using Cons.prems(3) by (simp add: ys)
  then have "x \<notin> set xs" "y \<notin> set ys'"
    using Cons.prems(1,2) irr [of x] irr [of y] by (auto simp: ys sorted_entries_def)
  ultimately have "set xs = set ys'" using Cons.prems(3) ys by auto
  with Cons.IH [of ys'] Cons.prems \<open>x = y\<close> show ?case by (simp add: ys sorted_entries_def)
qed simp

lemma sorted_entries_distinct:
  "sorted_entries (Compare C) es \<Longrightarrow> \<forall>e \<in> set es. key (fst e) \<Longrightarrow> distinct es"
  by (induction es) (auto simp: sorted_entries_def refl)

lemma from_child_deal:
  assumes es: "sorted_entries (Compare C) es" "\<forall>e \<in> set es. key (fst e)"
    and parts: "\<forall>l \<in> set parts. sorted_entries (Compare C) l" and ms: "mset es = mset (concat parts)"
    and c: "c < length parts"
  shows "from_child (deal parts es) es c = parts ! c"
proof (rule sorted_entries_unique)
  have "distinct (concat parts)"
    using sorted_entries_distinct [OF es] ms by (metis mset_eq_imp_distinct_iff)
  then have uniq: "c' = c" if "e \<in> set (parts ! c)" "e \<in> set (parts ! c')" "c' < length parts" for e c'
    using distinct_concat_disjoint [OF \<open>distinct (concat parts)\<close>] that c by blast
  have sel: "from_child (deal parts es) es c = filter (\<lambda>e. (LEAST d. d < length parts \<and> e \<in> set (parts ! d)) = c) es"
    unfolding from_child_def deal_def by (induction es) simp_all
  show "sorted_entries (Compare C) (from_child (deal parts es) es c)"
    using es(1) unfolding sel sorted_entries_def by (rule sorted_wrt_filter)
  show "sorted_entries (Compare C) (parts ! c)" using parts c by simp
  have set_es: "set es = (\<Union>l \<in> set parts. set l)" using arg_cong [OF ms, of set_mset] by simp
  show "set (from_child (deal parts es) es c) = set (parts ! c)"
  proof (intro equalityI subsetI)
    fix e
    assume "e \<in> set (from_child (deal parts es) es c)"
    then have "e \<in> set es" and l: "(LEAST d. d < length parts \<and> e \<in> set (parts ! d)) = c" by (simp_all add: sel)
    have "\<exists>d. d < length parts \<and> e \<in> set (parts ! d)" using in_some_part [of e parts] \<open>e \<in> set es\<close> by (simp add: set_es)
    from LeastI_ex [OF this] l show "e \<in> set (parts ! c)" by simp
  next
    fix e
    assume e: "e \<in> set (parts ! c)"
    then have "e \<in> set es" using c by (auto simp: set_es)
    moreover have "(LEAST d. d < length parts \<and> e \<in> set (parts ! d)) = c"
    proof (rule Least_equality)
      show "c \<le> d" if "d < length parts \<and> e \<in> set (parts ! d)" for d using uniq [OF e, of d] that by simp
    qed (use e c in simp)
    ultimately show "e \<in> set (from_child (deal parts es) es c)" by (simp add: sel)
  qed
  show "\<forall>e \<in> set (from_child (deal parts es) es c). key (fst e)" using es(2) by (simp add: sel)
qed

end

context merging
begin

lemma set_children_wraps:
  assumes "\<And>c. c < length cs \<Longrightarrow> at_i (parts c) (pos c) (cs ! c)"
  shows "\<exists>ws. set_children I cs = Some ws \<and> length ws = length cs \<and>
    (\<forall>c < length cs. wraps at_i (parts c) (pos c) (ws ! c))"
  using assms
proof (induction cs arbitrary: parts pos)
  case (Cons s cs)
  from Cons.prems [of 0] idx.Set_wraps [of "parts 0" "pos 0" s IteratorWrapper_new] obtain w where
    w: "wrapper_Set I (Some s) IteratorWrapper_new = Some w" "wraps at_i (parts 0) (pos 0) w" by auto
  from Cons.IH [of "\<lambda>c. parts (Suc c)" "\<lambda>c. pos (Suc c)"] Cons.prems [of "Suc _"] obtain ws where
    "set_children I cs = Some ws" "length ws = length cs"
    "\<forall>c < length cs. wraps at_i (parts (Suc c)) (pos (Suc c)) (ws ! c)" by auto
  with w show ?case by (auto simp: nth_Cons split: nat.split)
qed simp

lemma NewMergingIterator_at:
  assumes es: "sorted_entries (Compare C) es" "\<forall>e \<in> set es. key (fst e)"
    and parts: "\<forall>l \<in> set parts. sorted_entries (Compare C) l" and ms: "mset es = mset (concat parts)"
    and cs: "length parts = length cs" "\<forall>c < length cs. \<exists>i. at_i (parts ! c) i (cs ! c)" and two: "2 \<le> length cs"
  shows "\<exists>m. NewMergingIterator I cs = Some (Merged m) \<and> merging_at C key at_i es (length es) m"
proof -
  from cs(2) obtain pos where pos: "\<And>c. c < length cs \<Longrightarrow> at_i (parts ! c) (pos c) (cs ! c)" by metis
  from set_children_wraps [where parts = "\<lambda>c. parts ! c", OF pos] obtain ws where
    ws: "set_children I cs = Some ws" "length ws = length cs" "\<forall>c < length cs. wraps at_i (parts ! c) (pos c) (ws ! c)"
    by auto
  have "children_at at_i (deal parts es) es pos ws"
    unfolding children_at_def
  proof (intro conjI ballI allI impI)
    fix t
    assume "t \<in> set (deal parts es)"
    then obtain e where e: "e \<in> set es" and t: "t = (LEAST c. c < length parts \<and> e \<in> set (parts ! c))"
      by (auto simp: deal_def)
    have "e \<in> set (concat parts)" using e ms by (metis mset_eq_setD)
    then have "\<exists>c. c < length parts \<and> e \<in> set (parts ! c)" by (rule in_some_part)
    from LeastI_ex [OF this] show "t < length ws" using t ws(2) cs(1) by simp
  qed (use ws from_child_deal [OF es parts ms] cs(1) in \<open>simp_all add: deal_def\<close>)
  then have "merging_at C key at_i es (length es) \<lparr>m_children = ws, m_current = None, m_forward = True\<rparr>"
    using es by (auto simp: merging_at_def)
  moreover obtain a b cs' where "cs = a # b # cs'" using two by (auto simp: numeral_2_eq_2 Suc_le_length_iff)
  ultimately show ?thesis using ws(1) by (simp add: NewMergingIterator_def Merging_new_def)
qed

end

section \<open>On the blocks of tables\<close>

text \<open>A table has an index block over data blocks; the database merges tables.\<close>

interpretation user_levels: two_level BytewiseComparator "\<lambda>_. True" "block_iterator BytewiseComparator"
    "block_at BytewiseComparator (\<lambda>_. True)" "block_iterator BytewiseComparator" "block_at BytewiseComparator (\<lambda>_. True)"
  by (intro two_level.intro bytewise.comparator_axioms bytewise.block_it.iterator_axioms)

interpretation internal_levels: two_level "InternalKeyComparator BytewiseComparator" bytewise.ikey
    "block_iterator (InternalKeyComparator BytewiseComparator)" "block_at (InternalKeyComparator BytewiseComparator) bytewise.ikey"
    "block_iterator (InternalKeyComparator BytewiseComparator)" "block_at (InternalKeyComparator BytewiseComparator) bytewise.ikey"
  by (intro two_level.intro internal_bytewise.comparator_axioms internal_bytewise.block_it.iterator_axioms)

interpretation internal_tables: merging "InternalKeyComparator BytewiseComparator" bytewise.ikey
    "two_level_iterator (block_iterator (InternalKeyComparator BytewiseComparator))
      (block_iterator (InternalKeyComparator BytewiseComparator)) bf"
    "two_level_at (InternalKeyComparator BytewiseComparator) bytewise.ikey
      (block_at (InternalKeyComparator BytewiseComparator) bytewise.ikey)
      (block_at (InternalKeyComparator BytewiseComparator) bytewise.ikey) bf" for bf
  by (intro merging.intro internal_bytewise.comparator_axioms internal_levels.levels.iterator_axioms)

end
