(* ===== verification/Ldb_Table.thy ===== *)
theory Ldb_Table
  imports Ldb_Format Ldb_FilterBlock Ldb_Merger_Spec
begin

text \<open>
  Reading a table file, \<open>table/table.cc\<close>. The file is a \<open>RandomAccessFile\<close> with its state, \<open>addr\<close> and
  \<open>in_buffer\<close> are as for \<open>ReadBlock\<close>. The block cache, if there is one, is what it answers to a lookup at the
  moment; \<open>BlockReader\<close> also returns what it inserts.
\<close>

record 'f Table =
  t_options :: Options
  t_file :: 'f
  t_cache_id :: u64
  t_filter :: "(FilterPolicy \<times> FilterBlockReader) option"
  t_metaindex_handle :: BlockHandle
  t_index_block :: Block

definition meta_options :: "Options \<Rightarrow> ReadOptions" where
  "meta_options options =
     (if paranoid_checks options then ReadOptions_new\<lparr>verify_checksums := True\<rparr> else ReadOptions_new)"

definition ReadFilter ::
  "(byte list \<Rightarrow> nat) \<Rightarrow> bool \<Rightarrow> 'f RandomAccessFile \<Rightarrow> slice \<Rightarrow> 'f Table \<Rightarrow> 'f Table option" where
  "ReadFilter addr in_buffer F filter_handle_value t =
     (case BlockHandle_DecodeFrom filter_handle_value BlockHandle_new of (s, filter_handle, _) \<Rightarrow>
        if \<not> status_ok s then Some t
        else
          Option.bind (ReadBlock addr in_buffer F (t_file t) (meta_options (t_options t)) filter_handle) (\<lambda>(s, block).
            if \<not> status_ok s then Some t
            else
              Option.bind (o_filter_policy (t_options t)) (\<lambda>P.
              map_option (\<lambda>r. t\<lparr>t_filter := Some (P, r)\<rparr>) (FilterBlockReader_new (bc_data block)))))"

definition ReadMeta ::
  "(byte list \<Rightarrow> nat) \<Rightarrow> bool \<Rightarrow> 'f RandomAccessFile \<Rightarrow> Footer \<Rightarrow> 'f Table \<Rightarrow> 'f Table option" where
  "ReadMeta addr in_buffer F footer t =
     (case o_filter_policy (t_options t) of
        None \<Rightarrow> Some t
      | Some P \<Rightarrow>
          Option.bind (ReadBlock addr in_buffer F (t_file t) (meta_options (t_options t)) (metaindex_handle footer)) (\<lambda>(s, contents).
            if \<not> status_ok s then Some t
            else
              Option.bind (Block_new (bc_data contents)) (\<lambda>meta.
              Option.bind (Block_NewIterator meta) (\<lambda>iter.
              let I = block_iterator BytewiseComparator; k = bytes_of ''filter.'' @ fp_Name P in
              Option.bind (it_Seek I k iter) (\<lambda>iter.
                if it_Valid I iter then
                  Option.bind (it_key I iter) (\<lambda>found.
                    if found = k then Option.bind (it_value I iter) (\<lambda>v. ReadFilter addr in_buffer F v t) else Some t)
                else Some t)))))"

text \<open>\<open>new_id\<close>: the number the block cache gives, 0 when there is none.\<close>

definition Table_Open ::
  "(byte list \<Rightarrow> nat) \<Rightarrow> bool \<Rightarrow> 'f RandomAccessFile \<Rightarrow> u64 \<Rightarrow> Options \<Rightarrow> 'f \<Rightarrow> u64 \<Rightarrow>
    (status \<times> 'f Table option) option" where
  "Table_Open addr in_buffer F new_id options file file_size =
     (if unat file_size < kEncodedLength
      then Some (Corruption (bytes_of ''file is too short to be an sstable'') [], None)
      else
        (case ra_Read F file (file_size - of_nat kEncodedLength) kEncodedLength of (s, footer_input) \<Rightarrow>
           if \<not> status_ok s then Some (s, None)
           else
             Option.bind (Footer_DecodeFrom footer_input Footer_new) (\<lambda>(s, footer, _).
               if \<not> status_ok s then Some (s, None)
               else
                 Option.bind (ReadBlock addr in_buffer F file (meta_options options) (index_handle footer)) (\<lambda>(s, contents).
                   if \<not> status_ok s then Some (s, None)
                   else
                     Option.bind (Block_new (bc_data contents)) (\<lambda>index_block.
                     map_option (\<lambda>t. (s, Some t))
                       (ReadMeta addr in_buffer F footer
                         \<lparr>t_options = options, t_file = file, t_cache_id = new_id, t_filter = None,
                          t_metaindex_handle = metaindex_handle footer, t_index_block = index_block\<rparr>))))))"

section \<open>Data blocks\<close>

definition cache_key :: "u64 \<Rightarrow> BlockHandle \<Rightarrow> slice" where
  "cache_key cache_id handle = EncodeFixed64 True cache_id @ EncodeFixed64 True (bh_offset handle)"

text \<open>The status, the block, and the block to insert into the cache with its key.\<close>

definition fetch_block ::
  "(byte list \<Rightarrow> nat) \<Rightarrow> bool \<Rightarrow> 'f RandomAccessFile \<Rightarrow> (slice \<Rightarrow> Block option) option \<Rightarrow> 'f Table \<Rightarrow> ReadOptions \<Rightarrow>
    BlockHandle \<Rightarrow> (status \<times> Block option \<times> (slice \<times> Block) option) option" where
  "fetch_block addr in_buffer F block_cache t options handle =
     (case block_cache of
        Some lookup \<Rightarrow>
          let k = cache_key (t_cache_id t) handle in
          (case lookup k of
             Some block \<Rightarrow> Some (Status_OK, Some block, None)
           | None \<Rightarrow>
               Option.bind (ReadBlock addr in_buffer F (t_file t) options handle) (\<lambda>(s, contents).
                 if status_ok s then
                   map_option (\<lambda>block. (s, Some block,
                       if cachable contents \<and> fill_cache options then Some (k, block) else None))
                     (Block_new (bc_data contents))
                 else Some (s, None, None)))
      | None \<Rightarrow>
          Option.bind (ReadBlock addr in_buffer F (t_file t) options handle) (\<lambda>(s, contents).
            if status_ok s then map_option (\<lambda>block. (s, Some block, None)) (Block_new (bc_data contents))
            else Some (s, None, None)))"

definition BlockReader ::
  "(byte list \<Rightarrow> nat) \<Rightarrow> bool \<Rightarrow> 'f RandomAccessFile \<Rightarrow> (slice \<Rightarrow> Block option) option \<Rightarrow> 'f Table \<Rightarrow> ReadOptions \<Rightarrow>
    slice \<Rightarrow> (block_iter \<times> (slice \<times> Block) option) option" where
  "BlockReader addr in_buffer F block_cache t options index_value =
     (case BlockHandle_DecodeFrom index_value BlockHandle_new of (s, handle, _) \<Rightarrow>
        Option.bind (if status_ok s then fetch_block addr in_buffer F block_cache t options handle else Some (s, None, None))
          (\<lambda>(s, block, inserted).
             case block of
               Some block \<Rightarrow> map_option (\<lambda>iter. (iter, inserted)) (Block_NewIterator block)
             | None \<Rightarrow> Some (NoBlock (NewErrorIterator s), inserted)))"

definition table_blocks ::
  "(byte list \<Rightarrow> nat) \<Rightarrow> bool \<Rightarrow> 'f RandomAccessFile \<Rightarrow> (slice \<Rightarrow> Block option) option \<Rightarrow> 'f Table \<Rightarrow> ReadOptions \<Rightarrow>
    slice \<Rightarrow> block_iter option" where
  "table_blocks addr in_buffer F block_cache t options v =
     map_option fst (BlockReader addr in_buffer F block_cache t options v)"

section \<open>Iterating and looking up\<close>

definition table_iterator ::
  "(byte list \<Rightarrow> nat) \<Rightarrow> bool \<Rightarrow> 'f RandomAccessFile \<Rightarrow> (slice \<Rightarrow> Block option) option \<Rightarrow> 'f Table \<Rightarrow> ReadOptions \<Rightarrow>
    (block_iter, block_iter) TwoLevel Iterator" where
  "table_iterator addr in_buffer F block_cache t options =
     (let I = block_iterator (o_comparator (t_options t)) in
      two_level_iterator I I (table_blocks addr in_buffer F block_cache t options))"

definition Table_NewIterator :: "'f Table \<Rightarrow> (block_iter, block_iter) TwoLevel option" where
  "Table_NewIterator t =
     Option.bind (Block_NewIterator (t_index_block t)) (TwoLevel_new (block_iterator (o_comparator (t_options t))))"

definition InternalGet ::
  "(byte list \<Rightarrow> nat) \<Rightarrow> bool \<Rightarrow> 'f RandomAccessFile \<Rightarrow> (slice \<Rightarrow> Block option) option \<Rightarrow> 'f Table \<Rightarrow> ReadOptions \<Rightarrow>
    slice \<Rightarrow> ('a \<Rightarrow> slice \<Rightarrow> slice \<Rightarrow> 'a) \<Rightarrow> 'a \<Rightarrow> (status \<times> 'a) option" where
  "InternalGet addr in_buffer F block_cache t options k saver arg =
     (let I = block_iterator (o_comparator (t_options t)) in
      Option.bind (Block_NewIterator (t_index_block t)) (\<lambda>iiter.
      Option.bind (it_Seek I k iiter) (\<lambda>iiter.
      map_option (\<lambda>(s, arg). (if status_ok s then it_status I iiter else s, arg))
        (if it_Valid I iiter then
           Option.bind (it_value I iiter) (\<lambda>handle_value.
           Option.bind
             (case t_filter t of
                Some (P, r) \<Rightarrow>
                  (case BlockHandle_DecodeFrom handle_value BlockHandle_new of (s, handle, _) \<Rightarrow>
                     if status_ok s then FilterBlock_KeyMayMatch P (bh_offset handle) k r else Some True)
              | None \<Rightarrow> Some True) (\<lambda>may_match.
             if \<not> may_match then Some (Status_OK, arg)
             else
               Option.bind (table_blocks addr in_buffer F block_cache t options handle_value) (\<lambda>block_iter.
               Option.bind (it_Seek I k block_iter) (\<lambda>block_iter.
               map_option (\<lambda>arg. (it_status I block_iter, arg))
                 (if it_Valid I block_iter then
                    Option.bind (it_key I block_iter) (\<lambda>k. map_option (\<lambda>v. saver arg k v) (it_value I block_iter))
                  else Some arg)))))
         else Some (Status_OK, arg)))))"

definition ApproximateOffsetOf :: "'f Table \<Rightarrow> slice \<Rightarrow> u64 option" where
  "ApproximateOffsetOf t k =
     (let I = block_iterator (o_comparator (t_options t)) in
      Option.bind (Block_NewIterator (t_index_block t)) (\<lambda>index_iter.
      Option.bind (it_Seek I k index_iter) (\<lambda>index_iter.
        if it_Valid I index_iter then
          map_option (\<lambda>v.
            case BlockHandle_DecodeFrom v BlockHandle_new of (s, handle, _) \<Rightarrow>
              if status_ok s then bh_offset handle else bh_offset (t_metaindex_handle t)) (it_value I index_iter)
        else Some (bh_offset (t_metaindex_handle t)))))"

end
