(* ===== verification/Ldb_Table_Spec.thy ===== *)
theory Ldb_Table_Spec
  imports Ldb_Table_Layout Ldb_Table
begin

text \<open>
  Opening and reading a file with the layout of a table: \<open>opened\<close> is what \<open>Open\<close> gives, and from it the
  iterator of the table and lookups.
\<close>

locale table_reading = random_access_file R holds + table_options C key options
  for R :: "'g RandomAccessFile" and holds C key options

interpretation mapped_tables: table_reading posix_mmap_file "\<lambda>f bytes. mm_region f = bytes"
    "InternalKeyComparator BytewiseComparator" bytewise.ikey "database_options bits_per_key" for bits_per_key
  by (intro table_reading.intro posix_mmap.random_access_file_axioms database_options.table_options_axioms)

section \<open>Blocks in the file\<close>

text \<open>A block cache that only holds blocks of the file, whatever it has dropped.\<close>

definition cache_ok ::
  "(byte list \<Rightarrow> nat) \<Rightarrow> bool \<Rightarrow> 'g RandomAccessFile \<Rightarrow> 'g Table \<Rightarrow> ReadOptions \<Rightarrow> (slice \<Rightarrow> Block option) option \<Rightarrow> bool" where
  "cache_ok addr in_buffer R t ro block_cache \<longleftrightarrow>
     (case block_cache of None \<Rightarrow> True
      | Some lookup \<Rightarrow> \<forall>h block s contents. lookup (cache_key (t_cache_id t) h) = Some block \<longrightarrow>
          ReadBlock addr in_buffer R (t_file t) ro h = Some (s, contents) \<longrightarrow> Block_new (bc_data contents) = Some block)"

context table_reading
begin

lemma ReadBlock_at:
  assumes "holds g (concat (map raw_block bs) @ tail)" and "length (concat (map raw_block bs) @ tail) < 2 ^ 64" and "j < length bs"
  shows "ReadBlock addr in_buffer R g ro (handle_at bs j) =
    Some (Status_OK, \<lparr>bc_data = bs ! j, cachable = in_buffer, heap_allocated = in_buffer\<rparr>)"
proof -
  have "bs = take j bs @ bs ! j # drop (Suc j) bs" using assms(3) by (rule id_take_nth_drop)
  then have "concat (map raw_block bs) = concat (map raw_block (take j bs @ bs ! j # drop (Suc j) bs))" by simp
  then have split: "concat (map raw_block bs) @ tail =
      concat (map raw_block (take j bs)) @ raw_block (bs ! j) @ concat (map raw_block (drop (Suc j) bs)) @ tail" by simp
  show ?thesis
    using ReadBlock_raw [OF assms(1,2) [unfolded split]] by (simp add: handle_at_def place_def)
qed

lemma Block_new_encodes:
  assumes "encodes c d" and "sorted_entries (Compare C') d" and "\<forall>e \<in> set d. key' (fst e)" and "length c < 2 ^ 32"
    and "comparator C' key'"
  shows "\<exists>b s. Block_new c = Some b \<and> Block_NewIterator b = Some s \<and> block_at C' key' d (length d) s"
  using comparator.encodes_open [OF assms(5,1-4)] by (auto simp: open_block_def bind_eq_Some_conv)

end

text \<open>An open table over data blocks \<open>cs\<close> with entries \<open>ds\<close> and index entries \<open>ies\<close>.\<close>

definition opened ::
  "('g \<Rightarrow> byte list \<Rightarrow> bool) \<Rightarrow> Comparator \<Rightarrow> (slice \<Rightarrow> bool) \<Rightarrow> Options \<Rightarrow> 'g \<Rightarrow> entry list list \<Rightarrow> byte list list \<Rightarrow>
    entry list \<Rightarrow> 'g Table \<Rightarrow> bool" where
  "opened holds C key options g ds cs ies t \<longleftrightarrow>
     t_options t = options \<and> t_file t = g \<and> list_all2 encodes cs ds \<and> [] \<notin> set ds \<and>
     sorted_entries (Compare C) (concat ds) \<and> (\<forall>x \<in> set (concat ds). key (fst x)) \<and>
     indexed C key ds cs [] ies \<and> length ies = length ds \<and>
     (\<exists>tail. holds g (concat (map raw_block cs) @ tail) \<and> length (concat (map raw_block cs) @ tail) < 2 ^ 32) \<and>
     (\<exists>s. Block_NewIterator (t_index_block t) = Some s \<and> block_at C key ies (length ies) s) \<and>
     (\<forall>P r. t_filter t = Some (P, r) \<longrightarrow> o_filter_policy options = Some P \<and>
        (\<forall>off k. key k \<longrightarrow> FilterBlock_KeyMayMatch P off k r \<noteq> None) \<and>
        (\<forall>j < length ds. \<forall>x \<in> set (ds ! j). FilterBlock_KeyMayMatch P (of_nat (place cs j)) (fst x) r = Some True))"

context table_reading
begin

lemma indexed_sorted:
  assumes ix: "indexed C key ds cs [] ies" and len: "length ies = length ds" and ne: "[] \<notin> set ds"
    and keys: "\<forall>x \<in> set (concat ds). key (fst x)"
  shows "sorted_entries (Compare C) ies \<and> (\<forall>e \<in> set ies. key (fst e))"
proof
  show "\<forall>e \<in> set ies. key (fst e)"
  proof
    fix e
    assume "e \<in> set ies"
    then obtain i where "i < length ies" "e = ies ! i" by (auto simp: in_set_conv_nth)
    with ix show "key (fst e)" by (simp add: indexed_def)
  qed
  show "sorted_entries (Compare C) ies"
    unfolding sorted_entries_def sorted_wrt_iff_nth_less
  proof (intro allI impI)
    fix i j
    assume ij: "i < j" "j < length ies"
    then have "ds ! j \<in> set ds" using len by simp
    moreover from this have "ds ! j \<noteq> []" using ne by metis
    then obtain x where x: "x \<in> set (ds ! j)" by (meson last_in_set)
    ultimately have kx: "key (fst x)" using keys by auto
    have "ds ! j \<in> set (drop (Suc i) ds)" using ij len nth_mem [of "j - Suc i" "drop (Suc i) ds"] by simp
    then have "Compare C (fst (ies ! i)) (fst x) < 0" using ix ij x by (auto simp: indexed_def)
    moreover have "Compare C (fst x) (fst (ies ! j)) \<le> 0" "key (fst (ies ! i))" "key (fst (ies ! j))"
      using ix ij x by (auto simp: indexed_def)
    ultimately show "Compare C (fst (ies ! i)) (fst (ies ! j)) < 0" using kx less_le_trans by blast
  qed
qed

text \<open>The filter that the metaindex names.\<close>

lemma KeyMayMatch_total:
  assumes P: "o_filter_policy options = Some P" and len: "length (filter_block_bytes P gs) < 2 ^ 32" and "key k"
    and r: "FilterBlockReader_new (filter_block_bytes P gs) = Some r"
  shows "FilterBlock_KeyMayMatch P off k r \<noteq> None"
proof -
  have r': "r = \<lparr>fr_data = filter_block_bytes P gs, fr_offset = group_off P gs (length gs), fr_num = length gs, fr_base_lg = 11\<rparr>"
    using FilterBlockReader_bytes [OF len] r by simp
  let ?i = "unat (drop_bit 11 off)"
  show ?thesis
  proof (cases "?i < length gs")
    case True
    have "group_off P gs (length gs) + ?i * 4 + 4 = group_off P gs (length gs) + (?i + 1) * 4" by simp
    with filter_offset [of ?i gs P] filter_offset [of "?i + 1" gs P] True
    have "DecodeFixed32 True (drop (group_off P gs (length gs) + ?i * 4) (filter_block_bytes P gs)) \<noteq> None"
      "DecodeFixed32 True (drop (group_off P gs (length gs) + ?i * 4 + 4) (filter_block_bytes P gs)) \<noteq> None"
      by (metis less_imp_le option.distinct(1), metis Suc_eq_plus1 Suc_leI option.distinct(1))
    with policy_answers [OF P \<open>key k\<close>] True show ?thesis
      by (auto simp: FilterBlock_KeyMayMatch_def r' Let_def)
  qed (simp add: FilterBlock_KeyMayMatch_def r' Let_def)
qed

lemma ReadFilter_at:
  assumes f: "t_file t = g" "holds g (concat (map raw_block bs) @ tail)" "length (concat (map raw_block bs) @ tail) < 2 ^ 32"
    and P: "t_options t = options" "o_filter_policy options = Some P" and j: "j < length bs" "bs ! j = filter_block_bytes P gs"
  shows "\<exists>r. ReadFilter addr in_buffer R (handle_bytes (handle_at bs j)) t = Some (t\<lparr>t_filter := Some (P, r)\<rparr>) \<and>
    FilterBlockReader_new (filter_block_bytes P gs) = Some r"
proof -
  have "place bs (Suc j) \<le> length (concat (map raw_block bs))" by (rule place_le)
  then have "length (filter_block_bytes P gs) < 2 ^ 32" using f(3) j by (simp add: place_Suc)
  note r = FilterBlockReader_bytes [OF this]
  have "length (concat (map raw_block bs) @ tail) < 2 ^ 64" using f(3) by simp
  note read = ReadBlock_at [OF f(2) this j(1), of addr in_buffer "meta_options options"]
  have "BlockHandle_DecodeFrom (handle_bytes (handle_at bs j)) BlockHandle_new = (Status_OK, handle_at bs j, [])"
    using BlockHandle_Decode [of "handle_at bs j" "[]"] by simp
  with read f(1) P j(2) r show ?thesis by (simp add: ReadFilter_def)
qed

text \<open>Seeking the only entry of the metaindex.\<close>

lemma single_entry:
  assumes "block_at BytewiseComparator (\<lambda>_. True) [(k, v)] 1 s"
  shows "\<exists>s'. it_Seek (block_iterator BytewiseComparator) k s = Some s' \<and> it_Valid (block_iterator BytewiseComparator) s' \<and>
    it_key (block_iterator BytewiseComparator) s' = Some k \<and> it_value (block_iterator BytewiseComparator) s' = Some v"
proof -
  have "seek_index (Compare BytewiseComparator) k [(k, v)] = 0" by (simp add: seek_index_def)
  with bytewise.block_it.Seek [OF assms TrueI, of k] obtain s' where
    s': "it_Seek (block_iterator BytewiseComparator) k s = Some s'" "block_at BytewiseComparator (\<lambda>_. True) [(k, v)] 0 s'" by auto
  with bytewise.block_it.Valid [OF s'(2)] bytewise.block_it.key_now [OF s'(2)] bytewise.block_it.value_now [OF s'(2)]
  show ?thesis by simp
qed

lemma ReadMeta_at:
  assumes f: "t_file t = g" "holds g (concat (map raw_block (cs @ fl @ [m, ix])) @ tail)"
      "length (concat (map raw_block (cs @ fl @ [m, ix])) @ tail) < 2 ^ 32"
    and t: "t_options t = options" "t_filter t = None" and m: "encodes m mes"
    and part: "filter_part key (o_filter_policy options) ds cs fl mes"
    and h: "metaindex_handle footer = handle_at (cs @ fl @ [m, ix]) (length (cs @ fl))" and len: "length cs = length ds"
  shows "\<exists>flt. ReadMeta addr in_buffer R footer t = Some (t\<lparr>t_filter := flt\<rparr>) \<and>
    (\<forall>P r. flt = Some (P, r) \<longrightarrow> o_filter_policy options = Some P \<and>
        (\<forall>off k. key k \<longrightarrow> FilterBlock_KeyMayMatch P off k r \<noteq> None) \<and>
        (\<forall>j < length ds. \<forall>x \<in> set (ds ! j). FilterBlock_KeyMayMatch P (of_nat (place cs j)) (fst x) r = Some True))"
proof (cases "o_filter_policy options")
  case None
  with t show ?thesis by (intro exI [of _ None]) (simp add: ReadMeta_def)
next
  case (Some P)
  let ?bs = "cs @ fl @ [m, ix]"
  from part Some obtain gs where fl: "fl = [filter_block_bytes P gs]"
    and mes: "mes = [(filter_key P, handle_bytes (handle_at (cs @ fl) (length cs)))]" and gs: "\<forall>g \<in> set gs. \<forall>k \<in> set g. key k"
    and found: "\<forall>j < length ds. \<forall>x \<in> set (ds ! j). place cs j div 2048 < length gs \<and> fst x \<in> set (gs ! (place cs j div 2048))"
    by (auto simp: filter_part_def)
  have big: "length (concat (map raw_block ?bs) @ tail) < 2 ^ 64" using f(3) by simp
  have ml: "length m < 2 ^ 32" and fll: "length (filter_block_bytes P gs) < 2 ^ 32" using f(3) by (simp_all add: fl)
  have mh: "metaindex_handle footer = handle_at ?bs (length (cs @ fl))" by (rule h)
  have "length (cs @ fl) < length ?bs" by simp
  from ReadBlock_at [OF f(2) big this, of addr in_buffer "meta_options options"] have
    read: "ReadBlock addr in_buffer R g (meta_options options) (metaindex_handle footer) =
      Some (Status_OK, \<lparr>bc_data = m, cachable = in_buffer, heap_allocated = in_buffer\<rparr>)" by (simp add: mh nth_append)
  have "sorted_entries (Compare BytewiseComparator) mes" by (simp add: mes sorted_entries_def)
  from Block_new_encodes [OF m this _ ml bytewise.comparator_axioms] obtain b s where
    b: "Block_new m = Some b" "Block_NewIterator b = Some s" "block_at BytewiseComparator (\<lambda>_. True) mes 1 s"
    by (auto simp: mes)
  from single_entry [OF b(3) [unfolded mes]] obtain s' where
    s': "it_Seek (block_iterator BytewiseComparator) (filter_key P) s = Some s'" "it_Valid (block_iterator BytewiseComparator) s'"
      "it_key (block_iterator BytewiseComparator) s' = Some (filter_key P)"
      "it_value (block_iterator BytewiseComparator) s' = Some (handle_bytes (handle_at (cs @ fl) (length cs)))" by blast
  have "handle_at (cs @ fl) (length cs) = handle_at ?bs (length cs)"
    using handle_at_append [of "length cs" "cs @ fl" "[m, ix]"] by (simp add: fl)
  moreover have "?bs ! length cs = filter_block_bytes P gs" by (simp add: fl nth_append)
  ultimately obtain r where r: "ReadFilter addr in_buffer R (handle_bytes (handle_at (cs @ fl) (length cs))) t = Some (t\<lparr>t_filter := Some (P, r)\<rparr>)"
      "FilterBlockReader_new (filter_block_bytes P gs) = Some r"
    using ReadFilter_at [OF f t(1) Some, of "length cs" gs addr in_buffer] by auto
  have meta: "ReadMeta addr in_buffer R footer t = Some (t\<lparr>t_filter := Some (P, r)\<rparr>)"
    using Some t(1) f(1) read b(1,2) s' r(1) by (simp add: ReadMeta_def filter_key_def Let_def)
  from policy [OF Some] obtain summarizes where P: "filter_policy P summarizes"
    and ok: "\<And>ks. \<forall>k \<in> set ks. key k \<Longrightarrow> summarizes ks" by blast
  have "FilterBlock_KeyMayMatch P (of_nat (place cs j)) (fst x) r = Some True" if "j < length ds" "x \<in> set (ds ! j)" for j x
  proof -
    have "place cs j < 2 ^ 64" using place_le [of cs j] f(3) by simp
    then have u: "unat (of_nat (place cs j) :: u64) = place cs j" by (simp add: unsigned_of_nat take_bit_nat_eq_self)
    have "gs ! (place cs j div 2048) \<in> set gs" using found that by simp
    then have "summarizes (gs ! (place cs j div 2048))" using gs by (intro ok) blast
    with filter_policy.KeyMayMatch_found [OF P, of "of_nat (place cs j)" gs "fst x"] found that fll u r(2) show ?thesis by auto
  qed
  with meta Some KeyMayMatch_total [OF Some fll _ r(2)] show ?thesis by blast
qed

lemma Table_Open_layout:
  assumes g: "holds g bytes" and small: "length bytes < 2 ^ 32" and layout: "table_layout C key options bytes es"
  shows "\<exists>t ds cs ies. Table_Open addr in_buffer R new_id options g (of_nat (length bytes)) = Some (Status_OK, Some t) \<and>
    es = concat ds \<and> opened holds C key options g ds cs ies t"
proof -
  from layout obtain ds cs ies fl m ix mes where es: "sorted_entries (Compare C) es" "\<forall>e \<in> set es. key (fst e)" "es = concat ds"
    and ds: "[] \<notin> set ds" "list_all2 encodes cs ds" and ix: "indexed C key ds cs [] ies" "length ies = length ds" "encodes ix ies"
    and m: "encodes m mes" and part: "filter_part key (o_filter_policy options) ds cs fl mes"
    and bytes0: "bytes = concat (map raw_block (cs @ fl @ [m, ix])) @
      footer_bytes \<lparr>metaindex_handle = handle_at (cs @ fl @ [m, ix]) (length (cs @ fl)),
        index_handle = handle_at (cs @ fl @ [m, ix]) (Suc (length (cs @ fl)))\<rparr>"
    unfolding table_layout_def by blast
  let ?bs = "cs @ fl @ [m, ix]"
  let ?footer = "\<lparr>metaindex_handle = handle_at ?bs (length (cs @ fl)), index_handle = handle_at ?bs (Suc (length (cs @ fl)))\<rparr>"
  define blocks where "blocks = concat (map raw_block ?bs)"
  have bytes: "bytes = blocks @ footer_bytes ?footer" using bytes0 by (simp only: blocks_def)
  have n: "unat (of_nat (length bytes) :: u64) = length bytes" "48 \<le> length bytes"
    using small by (simp add: unsigned_of_nat take_bit_nat_eq_self, simp add: bytes)
  have "(of_nat (length bytes) - of_nat kEncodedLength :: u64) = of_nat (length blocks)"
    by (simp add: bytes kEncodedLength_def kMaxEncodedLength_def)
  with Read_middle [of g blocks "footer_bytes ?footer" "[]"] g small have foot:
    "ra_Read R g (of_nat (length bytes) - of_nat kEncodedLength) kEncodedLength = (Status_OK, footer_bytes ?footer)"
    by (simp add: bytes kEncodedLength_def kMaxEncodedLength_def)
  have g': "holds g (concat (map raw_block ?bs) @ footer_bytes ?footer)"
    and small': "length (concat (map raw_block ?bs) @ footer_bytes ?footer) < 2 ^ 32"
    using g small by (simp_all only: bytes blocks_def)
  have big: "length (concat (map raw_block ?bs) @ footer_bytes ?footer) < 2 ^ 64" using small' by simp
  have "Suc (length (cs @ fl)) < length ?bs" by simp
  from ReadBlock_at [OF g' big this, of addr in_buffer "meta_options options"]
  have read: "ReadBlock addr in_buffer R g (meta_options options) (index_handle ?footer) =
      Some (Status_OK, \<lparr>bc_data = ix, cachable = in_buffer, heap_allocated = in_buffer\<rparr>)" by (simp add: nth_append)
  have len: "length cs = length ds" using ds(2) by (rule list_all2_lengthD)
  have ixl: "length ix < 2 ^ 32" using small' by simp
  have keys: "\<forall>x \<in> set (concat ds). key (fst x)" using es by simp
  note si = indexed_sorted [OF ix(1,2) ds(1) keys]
  from Block_new_encodes [OF ix(3) conjunct1 [OF si] conjunct2 [OF si] ixl comparator_axioms] obtain b s where
    b: "Block_new ix = Some b" "Block_NewIterator b = Some s" "block_at C key ies (length ies) s" by blast
  let ?t = "\<lparr>t_options = options, t_file = g, t_cache_id = new_id, t_filter = None,
    t_metaindex_handle = metaindex_handle ?footer, t_index_block = b\<rparr>"
  from ReadMeta_at [OF _ g' small' _ _ m part, of ?t ?footer addr in_buffer] len obtain flt where
    flt: "ReadMeta addr in_buffer R ?footer ?t = Some (?t\<lparr>t_filter := flt\<rparr>)"
      "\<forall>P r. flt = Some (P, r) \<longrightarrow> o_filter_policy options = Some P \<and> (\<forall>off k. key k \<longrightarrow> FilterBlock_KeyMayMatch P off k r \<noteq> None) \<and>
        (\<forall>j < length ds. \<forall>x \<in> set (ds ! j). FilterBlock_KeyMayMatch P (of_nat (place cs j)) (fst x) r = Some True)" by auto
  have "Table_Open addr in_buffer R new_id options g (of_nat (length bytes)) = Some (Status_OK, Some (?t\<lparr>t_filter := flt\<rparr>))"
    using n read b(1) flt(1) unfolding Table_Open_def foot prod.case Footer_Decode
    by (simp add: kEncodedLength_def kMaxEncodedLength_def)
  moreover have "opened holds C key options g ds cs ies (?t\<lparr>t_filter := flt\<rparr>)"
    unfolding opened_def
  proof (intro conjI)
    let ?tail = "concat (map raw_block (fl @ [m, ix])) @ footer_bytes ?footer"
    have "concat (map raw_block ?bs) @ footer_bytes ?footer = concat (map raw_block cs) @ ?tail" by simp
    with g' small' show "\<exists>tail. holds g (concat (map raw_block cs) @ tail) \<and> length (concat (map raw_block cs) @ tail) < 2 ^ 32"
      by (intro exI [of _ ?tail]) simp
    show "\<forall>P r. t_filter (?t\<lparr>t_filter := flt\<rparr>) = Some (P, r) \<longrightarrow> o_filter_policy options = Some P \<and> (\<forall>off k. key k \<longrightarrow> FilterBlock_KeyMayMatch P off k r \<noteq> None) \<and>
        (\<forall>j < length ds. \<forall>x \<in> set (ds ! j). FilterBlock_KeyMayMatch P (of_nat (place cs j)) (fst x) r = Some True)"
      using flt(2) by simp
  qed (use ds ix(1,2) b es in simp_all)
  ultimately show ?thesis using es(3) by blast
qed

section \<open>Reading the open table\<close>

lemma concat_at:
  "j < length ds \<Longrightarrow> concat ds = concat (take j ds) @ ds ! j @ concat (drop (Suc j) ds)"
  by (metis concat.simps(2) concat_append id_take_nth_drop)

lemma opened_block:
  assumes "opened holds C key options g ds cs ies t" and "j < length ds"
  shows "encodes (cs ! j) (ds ! j)" "sorted_entries (Compare C) (ds ! j)" "\<forall>x \<in> set (ds ! j). key (fst x)"
    "length (cs ! j) < 2 ^ 32" "j < length cs"
proof -
  note o = assms(1) [unfolded opened_def]
  have len: "length cs = length ds" using o list_all2_lengthD by blast
  then show j: "j < length cs" using assms(2) by simp
  show "encodes (cs ! j) (ds ! j)" using o j list_all2_nthD by blast
  show "sorted_entries (Compare C) (ds ! j)" "\<forall>x \<in> set (ds ! j). key (fst x)"
    using o unfolding concat_at [OF assms(2)] sorted_entries_append set_append by blast+
  from o obtain tail where "length (concat (map raw_block cs) @ tail) < 2 ^ 32" by blast
  with place_le [of cs "Suc j"] place_Suc [OF j] show "length (cs ! j) < 2 ^ 32" by simp
qed

lemma table_blocks_at:
  assumes o: "opened holds C key options g ds cs ies t" and cache: "cache_ok addr in_buffer R t ro block_cache" and j: "j < length ds"
  shows "\<exists>s. table_blocks addr in_buffer R block_cache t ro (handle_bytes (handle_at cs j)) = Some s \<and>
    block_at C key (ds ! j) (length (ds ! j)) s"
proof -
  note b = opened_block [OF o j]
  from o obtain tail where tail: "holds g (concat (map raw_block cs) @ tail)" "length (concat (map raw_block cs) @ tail) < 2 ^ 32"
    and g: "t_file t = g" by (auto simp: opened_def)
  have "length (concat (map raw_block cs) @ tail) < 2 ^ 64" using tail(2) by simp
  note read = ReadBlock_at [OF tail(1) this b(5), of addr in_buffer ro]
  from Block_new_encodes [OF b(1-4) comparator_axioms] obtain blk s where
    blk: "Block_new (cs ! j) = Some blk" "Block_NewIterator blk = Some s" "block_at C key (ds ! j) (length (ds ! j)) s" by blast
  have dec: "BlockHandle_DecodeFrom (handle_bytes (handle_at cs j)) BlockHandle_new = (Status_OK, handle_at cs j, [])"
    using BlockHandle_Decode [of "handle_at cs j" "[]"] by simp
  have fetch: "\<exists>ins. fetch_block addr in_buffer R block_cache t ro (handle_at cs j) = Some (Status_OK, Some blk, ins)"
  proof (cases block_cache)
    case None
    with read g blk(1) show ?thesis by (simp add: fetch_block_def)
  next
    case (Some lookup)
    show ?thesis
    proof (cases "lookup (cache_key (t_cache_id t) (handle_at cs j))")
      case None
      with Some read g blk(1) show ?thesis by (simp add: fetch_block_def Let_def)
    next
      case hit: (Some found)
      with cache Some read g blk(1) have "found = blk" by (fastforce simp: cache_ok_def)
      with Some hit show ?thesis by (simp add: fetch_block_def Let_def)
    qed
  qed
  with dec blk(2,3) show ?thesis by (auto simp: table_blocks_def BlockReader_def)
qed

lemma handle_bytes_inject:
  assumes "handle_bytes (handle_at cs i) = handle_bytes (handle_at cs j)" and "i < length cs" "j < length cs"
    and "length (concat (map raw_block cs)) < 2 ^ 64"
  shows "i = j"
proof -
  have "handle_at cs i = handle_at cs j"
    using arg_cong [OF assms(1), of "\<lambda>v. fst (snd (BlockHandle_DecodeFrom (v @ []) BlockHandle_new))"] by (simp only: BlockHandle_Decode fst_conv snd_conv)
  then have "(of_nat (place cs i) :: u64) = of_nat (place cs j)" by (simp add: handle_at_def)
  then have "unat (of_nat (place cs i) :: u64) = unat (of_nat (place cs j) :: u64)" by (rule arg_cong)
  moreover have "place cs i < 2 ^ 64" "place cs j < 2 ^ 64"
    using place_le [of cs i] place_le [of cs j] assms(4) by linarith+
  ultimately have "place cs i = place cs j"
    by (simp add: unsigned_of_nat take_bit_nat_eq_self)
  moreover have "place cs a < place cs b" if "a < b" "b \<le> length cs" for a b
    using place_Suc [of a cs] place_mono [of "Suc a" b cs] that by simp
  ultimately show ?thesis using assms(2,3) by (metis less_imp_le linorder_neqE_nat less_irrefl)
qed

text \<open>The blocks an index entry names, as a function of the index value.\<close>

lemma opened_indexes:
  assumes o: "opened holds C key options g ds cs ies t" and cache: "cache_ok addr in_buffer R t ro block_cache"
  shows "\<exists>B. indexes C key (block_at C key) (table_blocks addr in_buffer R block_cache t ro) B ies \<and>
    (\<forall>j < length ies. B (snd (ies ! j)) = ds ! j)"
proof -
  note o' = o [unfolded opened_def]
  have len: "length ies = length ds" "length cs = length ds" using o' list_all2_lengthD by blast+
  have ix: "indexed C key ds cs [] ies" using o' by blast
  then have val: "snd (ies ! j) = handle_bytes (handle_at cs j)" if "j < length ies" for j using that by (simp add: indexed_def)
  have small: "length (concat (map raw_block cs)) < 2 ^ 64" using o' by fastforce
  define B where "B v = ds ! (LEAST j. j < length ies \<and> handle_bytes (handle_at cs j) = v)" for v
  have B: "B (snd (ies ! j)) = ds ! j" if j: "j < length ies" for j
  proof -
    have "(LEAST i. i < length ies \<and> handle_bytes (handle_at cs i) = handle_bytes (handle_at cs j)) = j"
      using j handle_bytes_inject [OF _ _ _ small] len by (intro Least_equality) (auto dest: handle_bytes_inject [OF _ _ _ small])
    then show ?thesis by (simp add: B_def val [OF j])
  qed
  have "indexes C key (block_at C key) (table_blocks addr in_buffer R block_cache t ro) B ies"
    unfolding indexes_def
  proof (intro conjI ballI allI impI)
    fix e
    assume "e \<in> set ies"
    then obtain j where j: "j < length ies" "e = ies ! j" by (auto simp: in_set_conv_nth)
    then have jd: "j < length ds" using len by simp
    show "key (fst e)" using ix j by (simp add: indexed_def)
    show "\<exists>d i. table_blocks addr in_buffer R block_cache t ro (snd e) = Some d \<and> block_at C key (B (snd e)) i d"
      using table_blocks_at [OF o cache jd] B [OF j(1)] unfolding j(2) val [OF j(1)] by auto
    fix x
    assume "x \<in> set (B (snd e))"
    then have x: "x \<in> set (ds ! j)" using B [OF j(1)] j(2) by simp
    then show "key (fst x)" using opened_block(3) [OF o jd] by blast
    show "Compare C (fst x) (fst e) \<le> 0" using ix j x unfolding indexed_def by blast
  next
    fix j i x
    assume j: "j < length ies" and i: "i < j" and "x \<in> set (block_of B ies j)"
    then have x: "x \<in> set (ds ! j)" by (simp add: block_of_def B)
    have "ds ! j \<in> set (drop (Suc i) ds)" using i j len nth_mem [of "j - Suc i" "drop (Suc i) ds"] by simp
    with ix i j x show "Compare C (fst (ies ! i)) (fst x) < 0" by (auto simp: indexed_def)
  qed
  with B show ?thesis by blast
qed

lemma blocks_before_opened:
  assumes "length ies = length ds" and "\<forall>j < length ies. B (snd (ies ! j)) = ds ! j" and "k \<le> length ies"
  shows "blocks_before B ies k = concat (take k ds)"
  using assms(3)
proof (induction k)
  case (Suc k)
  then have "k < length ies" "k < length ds" using assms(1) by simp_all
  with Suc assms(2) show ?case by (simp add: blocks_before_Suc block_of_def take_Suc_conv_app_nth)
qed simp

lemma levels: "two_level C key (block_iterator C) (block_at C key) (block_iterator C) (block_at C key)"
  by (intro two_level.intro comparator_axioms block_it.iterator_axioms)

text \<open>The iterator of the table starts behind the last entry, as all iterators do.\<close>

lemma Table_NewIterator_state:
  assumes o: "opened holds C key options g ds cs ies t" and cache: "cache_ok addr in_buffer R t ro block_cache"
  shows "\<exists>s. Table_NewIterator t = Some s \<and> two_level_at C key (block_at C key) (block_at C key)
    (table_blocks addr in_buffer R block_cache t ro) (concat ds) (length (concat ds)) s"
proof -
  note o' = o [unfolded opened_def]
  then have t: "o_comparator (t_options t) = C" and len: "length ies = length ds" by (simp_all add: comparator)
  from o' obtain s0 where s0: "Block_NewIterator (t_index_block t) = Some s0" "block_at C key ies (length ies) s0" by blast
  from opened_indexes [OF o cache] obtain B where
    B: "indexes C key (block_at C key) (table_blocks addr in_buffer R block_cache t ro) B ies" "\<forall>j < length ies. B (snd (ies ! j)) = ds ! j"
    by blast
  have all: "concat ds = blocks_before B ies (length ies)" using blocks_before_opened [OF len B(2)] len by simp
  from block_it.Set_wraps [OF s0(2), of IteratorWrapper_new] obtain w where
    w: "wrapper_Set (block_iterator C) (Some s0) IteratorWrapper_new = Some w" "wraps (block_at C key) ies (length ies) w" by blast
  let ?s = "\<lparr>tl_status = Status_OK, tl_index = w, tl_data = IteratorWrapper_new, tl_handle = []\<rparr> :: (block_iter, block_iter) TwoLevel"
  have new: "Table_NewIterator t = Some ?s" by (simp add: Table_NewIterator_def s0(1) t TwoLevel_new_def w(1))
  have "in_entry (block_at C key) (block_at C key) B ies (length ies) 0 ?s"
    using w(2) by (simp add: in_entry_def IteratorWrapper_new_def)
  then have "two_level_at C key (block_at C key) (block_at C key) (table_blocks addr in_buffer R block_cache t ro) (concat ds)
      (length (concat ds)) ?s"
    unfolding two_level_at_def all using B(1) by (intro exI [of _ B] exI [of _ ies] exI [of _ "length ies"] exI [of _ 0]) simp
  with new show ?thesis by blast
qed

lemma Table_NewIterator_at:
  assumes o: "opened holds C key options g ds cs ies t" and cache: "cache_ok addr in_buffer R t ro block_cache"
  shows "\<exists>s. Table_NewIterator t = Some s \<and>
    views (table_iterator addr in_buffer R block_cache t ro) (Compare C) key (concat ds) (length (concat ds)) s"
proof -
  have t: "o_comparator (t_options t) = C" using o by (simp add: opened_def comparator)
  from Table_NewIterator_state [OF o cache] iterator.views_at [OF two_level.two_level_iterator_correct [OF levels]] show ?thesis
    unfolding table_iterator_def Let_def t by blast
qed

end

text \<open>
  A lookup hands out the first entry at or behind the key, unless that is not the key's: the index or the filter
  may pass over it then.
\<close>

definition passed_over :: "Comparator \<Rightarrow> (slice \<Rightarrow> bool) \<Rightarrow> 'g Table \<Rightarrow> slice \<Rightarrow> slice \<Rightarrow> bool" where
  "passed_over C key t k x \<longleftrightarrow>
     (\<exists>a sep. key a \<and> Compare C a k < 0 \<and> Compare C k sep \<le> 0 \<and> separates C key a sep x) \<or>
     (\<exists>P r off. t_filter t = Some (P, r) \<and> FilterBlock_KeyMayMatch P off k r = Some False \<and>
        FilterBlock_KeyMayMatch P off x r = Some True)"

context table_reading
begin

lemma not_passed_over: "key k \<Longrightarrow> \<not> passed_over C key t k k"
  unfolding passed_over_def separates_def
proof clarsimp
  fix a y
  assume k: "key k" "key a" "key y" "Compare C a y < 0" "Compare C y k \<le> 0" "Compare C k (FindShortestSeparator C a y) \<le> 0"
  note sep = separator [OF k(2,3,4)]
  have "Compare C (FindShortestSeparator C a y) k < 0" using less_le_trans [of "FindShortestSeparator C a y" y k] sep k by simp
  with not_less [of "FindShortestSeparator C a y" k] sep k show False by simp
qed

lemma InternalGet_at:
  assumes o: "opened holds C key options g ds cs ies t" and cache: "cache_ok addr in_buffer R t ro block_cache" and k: "key k"
  defines "i \<equiv> seek_index (Compare C) k (concat ds)"
  shows "\<exists>a. InternalGet addr in_buffer R block_cache t ro k saver arg = Some (Status_OK, a) \<and>
    (a = arg \<and> (i < length (concat ds) \<longrightarrow> passed_over C key t k (fst (concat ds ! i))) \<or>
     i < length (concat ds) \<and> a = saver arg (fst (concat ds ! i)) (snd (concat ds ! i)))"
proof -
  note o' = o [unfolded opened_def]
  then have t: "o_comparator (t_options t) = C" and len: "length ies = length ds" by (simp_all add: comparator)
  from o' obtain s0 where s0: "Block_NewIterator (t_index_block t) = Some s0" "block_at C key ies (length ies) s0" by blast
  from opened_indexes [OF o cache] obtain B where
    B: "indexes C key (block_at C key) (table_blocks addr in_buffer R block_cache t ro) B ies" "\<forall>j < length ies. B (snd (ies ! j)) = ds ! j"
    by blast
  let ?j = "seek_index (Compare C) k ies"
  from block_it.Seek [OF s0(2) k] obtain s1 where
    s1: "it_Seek (block_iterator C) k s0 = Some s1" "block_at C key ies ?j s1" by blast
  note ok1 = block_it.status_now [OF s1(2)] and valid1 = block_it.Valid [OF s1(2)]
  note si = two_level.seek_in_blocks [OF levels B(1) k]
  show ?thesis
  proof (cases "?j < length ies")
    case False
    then have "i = length (concat ds)"
      using si blocks_before_opened [OF len B(2)] len seek_index_le [of "Compare C" k ies] by (simp add: i_def)
    then show ?thesis
      using False s0(1) s1(1) valid1 ok1 by (simp add: InternalGet_def Let_def t)
  next
    case True
    let ?d = "ds ! ?j" and ?m = "seek_index (Compare C) k (ds ! ?j)"
    have jd: "?j < length ds" using True len by simp
    have val: "snd (ies ! ?j) = handle_bytes (handle_at cs ?j)" using o' True by (simp add: indexed_def)
    note v1 = block_it.value_now [OF s1(2) True, unfolded val]
    have i: "i = length (concat (take ?j ds)) + ?m"
      using si blocks_before_opened [OF len B(2)] True B(2) by (simp add: i_def block_of_def len)
    have at: "?m < length ?d \<Longrightarrow> i < length (concat ds) \<and> concat ds ! i = ?d ! ?m"
      unfolding concat_at [OF jd] i by (simp add: nth_append)
    have behind: "passed_over C key t k (fst (concat ds ! i))" if m: "\<not> ?m < length ?d" and il: "i < length (concat ds)"
    proof -
      have m': "?m = length ?d" using m seek_index_le [of "Compare C" k ?d] by simp
      then have "concat ds ! i = concat (drop (Suc ?j) ds) ! 0" "concat (drop (Suc ?j) ds) \<noteq> []"
        using il unfolding concat_at [OF jd] i by (auto simp: nth_append)
      then have "concat ds ! i \<in> set (concat (drop (Suc ?j) ds))" by (metis length_greater_0_conv nth_mem)
      then have sep: "separates C key (fst (last ?d)) (fst (ies ! ?j)) (fst (concat ds ! i))" using o' True by (auto simp: indexed_def)
      have dm: "?d \<in> set ds" using jd by simp
      then have ne: "?d \<noteq> []" using o' by metis
      then have "Compare C (fst (last ?d)) k < 0"
        using seek_index_before [of "length ?d - 1" "Compare C" k ?d] m' by (simp add: last_conv_nth)
      moreover have "key (fst (last ?d))" using last_in_set [OF ne] dm o' by auto
      moreover have "Compare C k (fst (ies ! ?j)) \<le> 0"
        using seek_index_at [of "Compare C" k ies] True not_less [of "fst (ies ! ?j)" k] k o' by (simp add: indexed_def)
      ultimately show ?thesis using sep unfolding passed_over_def by blast
    qed
    from table_blocks_at [OF o cache jd] obtain s2 where
      s2: "table_blocks addr in_buffer R block_cache t ro (handle_bytes (handle_at cs ?j)) = Some s2" "block_at C key ?d (length ?d) s2" by blast
    from block_it.Seek [OF s2(2) k] obtain s3 where
      s3: "it_Seek (block_iterator C) k s2 = Some s3" "block_at C key ?d ?m s3" by blast
    note facts3 = block_it.Valid [OF s3(2)] block_it.key_now [OF s3(2)] block_it.value_now [OF s3(2)] block_it.status_now [OF s3(2)]
    let ?read = "\<lambda>may_match. if \<not> may_match then Some (Status_OK, arg)
      else Option.bind (table_blocks addr in_buffer R block_cache t ro (handle_bytes (handle_at cs ?j))) (\<lambda>block_iter.
           Option.bind (it_Seek (block_iterator C) k block_iter) (\<lambda>block_iter.
           map_option (\<lambda>arg. (it_status (block_iterator C) block_iter, arg))
             (if it_Valid (block_iterator C) block_iter then
                Option.bind (it_key (block_iterator C) block_iter) (\<lambda>k. map_option (\<lambda>v. saver arg k v) (it_value (block_iterator C) block_iter))
              else Some arg)))"
    have read: "?read True = Some (Status_OK, if ?m < length ?d then saver arg (fst (?d ! ?m)) (snd (?d ! ?m)) else arg)"
      using s2(1) s3(1) facts3 by simp
    have dec: "BlockHandle_DecodeFrom (handle_bytes (handle_at cs ?j)) BlockHandle_new = (Status_OK, handle_at cs ?j, [])"
      using BlockHandle_Decode [of "handle_at cs ?j" "[]"] by simp
    obtain may where may: "(case t_filter t of None \<Rightarrow> Some True | Some (P, r) \<Rightarrow>
        (case BlockHandle_DecodeFrom (handle_bytes (handle_at cs ?j)) BlockHandle_new of (s, handle, _) \<Rightarrow>
           if status_ok s then FilterBlock_KeyMayMatch P (bh_offset handle) k r else Some True)) = Some may"
      "\<not> may \<longrightarrow> ?m < length ?d \<longrightarrow> passed_over C key t k (fst (?d ! ?m))"
    proof (cases "t_filter t")
      case None
      with that show ?thesis by simp
    next
      case (Some pr)
      obtain P r where pr: "pr = (P, r)" by (cases pr)
      have total: "FilterBlock_KeyMayMatch P (of_nat (place cs ?j)) k r \<noteq> None"
        and found: "\<forall>x \<in> set ?d. FilterBlock_KeyMayMatch P (of_nat (place cs ?j)) (fst x) r = Some True"
        using o' Some pr k jd by blast+
      then obtain b where b: "FilterBlock_KeyMayMatch P (of_nat (place cs ?j)) k r = Some b" by blast
      have skips: "\<not> b \<longrightarrow> ?m < length ?d \<longrightarrow> passed_over C key t k (fst (?d ! ?m))"
        using b found Some pr unfolding passed_over_def by fastforce
      have "bh_offset (handle_at cs ?j) = of_nat (place cs ?j)" by (simp add: handle_at_def)
      then show ?thesis by (intro that [OF _ skips]) (simp_all add: Some pr dec b)
    qed
    have get: "InternalGet addr in_buffer R block_cache t ro k saver arg = ?read may"
      using s0(1) s1(1) valid1 True ok1 v1 may(1) read by (cases may) (simp_all add: InternalGet_def Let_def t)
    show ?thesis
    proof (cases "?m < length ?d")
      case True
      with get read at [OF True] may(2) show ?thesis by (cases may) auto
    next
      case False
      with get read behind [OF False] show ?thesis by (cases may) auto
    qed
  qed
qed

text \<open>So it finds the entry of the key.\<close>

lemma InternalGet_finds:
  assumes o: "opened holds C key options g ds cs ies t" and cache: "cache_ok addr in_buffer R t ro block_cache" and k: "key k"
  defines "i \<equiv> seek_index (Compare C) k (concat ds)"
  shows "\<exists>a. InternalGet addr in_buffer R block_cache t ro k saver arg = Some (Status_OK, a) \<and>
    (a = arg \<and> k \<notin> set (map fst (concat ds)) \<or>
     i < length (concat ds) \<and> a = saver arg (fst (concat ds ! i)) (snd (concat ds ! i)))"
proof -
  have "i < length (concat ds) \<and> fst (concat ds ! i) = k" if mem: "k \<in> set (map fst (concat ds))"
  proof -
    from mem obtain n where n: "n < length (concat ds)" "fst (concat ds ! n) = k"
      by (auto simp: in_set_conv_nth simp del: set_concat)
    have "i = n"
      unfolding i_def
    proof (rule seek_index_eqI)
      show "Compare C (fst (concat ds ! l)) k < 0" if "l < n" for l
        using sorted_entries_nth [of "Compare C" "concat ds" l n] o [unfolded opened_def] n that by simp
    qed (use n refl [OF k] in simp_all)
    with n show ?thesis by simp
  qed
  with InternalGet_at [OF o cache k, of saver arg] not_passed_over [OF k] show ?thesis unfolding i_def by metis
qed

end

end
