(* ===== verification/Ldb_Table_File_Props.thy ===== *)
theory Ldb_Table_File_Props
  imports Ldb_Table_Spec
begin

text \<open>
  The property of table files as a whole: what the builder wrote is what a reader finds.
\<close>

fun TableBuilder_Adds ::
  "(byte list \<Rightarrow> nat) \<Rightarrow> 'f WritableFile \<Rightarrow> entry list \<Rightarrow> 'f TableBuilder \<Rightarrow> 'f TableBuilder option" where
  "TableBuilder_Adds addr F [] r = Some r"
| "TableBuilder_Adds addr F (e # es) r = Option.bind (TableBuilder_Add addr F (fst e) (snd e) r) (TableBuilder_Adds addr F es)"

definition build_table ::
  "(byte list \<Rightarrow> nat) \<Rightarrow> 'f WritableFile \<Rightarrow> Options \<Rightarrow> entry list \<Rightarrow> 'f \<Rightarrow> (status \<times> 'f TableBuilder) option" where
  "build_table addr F options es f =
     Option.bind (TableBuilder_new options f) (\<lambda>r. Option.bind (TableBuilder_Adds addr F es r) (TableBuilder_Finish addr F))"

context table_building
begin

lemma TableBuilder_Adds_inv:
  assumes "table_inv es r" and "sorted_entries (Compare C) (es @ fs)" and "\<forall>e \<in> set fs. key (fst e)"
  shows "\<exists>r'. TableBuilder_Adds addr F fs r = Some r' \<and> table_inv (es @ fs) r'"
  using assms
proof (induction fs arbitrary: es r)
  case (Cons e fs)
  have "sorted_entries (Compare C) (es @ [e])" using Cons.prems(2) by (auto simp: sorted_entries_append) (simp add: sorted_entries_def)
  from TableBuilder_Add_inv [OF Cons.prems(1) this] Cons.prems(3) obtain r1 where
    r1: "TableBuilder_Add addr F (fst e) (snd e) r = Some r1" "table_inv (es @ [e]) r1" by auto
  from Cons.IH [OF r1(2)] Cons.prems(2,3) r1(1) show ?case by auto
qed auto

lemma build_table_layout:
  assumes "good f" and "written f = []" and "sorted_entries (Compare C) es" and "\<forall>e \<in> set es. key (fst e)"
  shows "\<exists>s r. build_table addr F options es f = Some (s, r) \<and>
    (status_ok s \<longrightarrow> table_layout C key options (written (r_file r)) es)"
proof -
  from new_inv [OF assms(1,2)] obtain r0 where r0: "TableBuilder_new options f = Some r0" "table_inv [] r0" by blast
  from TableBuilder_Adds_inv [OF r0(2), of es] assms(3,4) obtain r1 where
    r1: "TableBuilder_Adds addr F es r0 = Some r1" "table_inv es r1" by auto
  from Finish_layout [OF r1(2), of addr] r0(1) r1(1) show ?thesis by (auto simp: build_table_def)
qed

end

text \<open>C31: a table file gives back its entries. Entries in ascending order are accepted, whatever the
  options; if \<open>Finish\<close> reports success, and the file is below 4 GB, the file is opened successfully, and
  its iterator agrees with a cursor in the list of entries for every sequence of moves. A lookup of a key
  in the table hands its entry to the caller's function, one of another key at most the entry behind it;
  the filter and a block cache that holds blocks of the file never change a result.\<close>

theorem table_roundtrip:
  assumes "table_file F good written" and "good f" and "written f = []"
    and "table_options C key options" and "sorted_entries (Compare C) es" and "list_all (\<lambda>e. key (fst e)) es"
    and "random_access_file R holds"
  shows "\<exists>s r. build_table addr F options es f = Some (s, r) \<and>
    (status_ok s \<and> length (written (r_file r)) < 2 ^ 32 \<and> holds g (written (r_file r)) \<longrightarrow>
      (\<exists>t. Table_Open addr in_buffer R new_id options g (of_nat (length (written (r_file r)))) = Some (Status_OK, Some t) \<and>
        (\<forall>block_cache. cache_ok addr in_buffer R t ro block_cache \<longrightarrow>
          (\<exists>it. Table_NewIterator t = Some it \<and>
            views (table_iterator addr in_buffer R block_cache t ro) (Compare C) key es (length es) it) \<and>
          (\<forall>k. key k \<longrightarrow> (\<exists>a. InternalGet addr in_buffer R block_cache t ro k saver arg = Some (Status_OK, a) \<and>
            (let i = seek_index (Compare C) k es in
             a = arg \<and> k \<notin> set (map fst es) \<or> i < length es \<and> a = saver arg (fst (es ! i)) (snd (es ! i))))))))"
proof -
  note building = table_building.intro [OF assms(1,4)] and reading = table_reading.intro [OF assms(7,4)]
  have keys: "\<forall>e \<in> set es. key (fst e)" using assms(6) by (simp add: list_all_iff)
  from table_building.build_table_layout [OF building assms(2,3,5) keys, of addr] obtain s r where
    r: "build_table addr F options es f = Some (s, r)" "status_ok s \<longrightarrow> table_layout C key options (written (r_file r)) es" by blast
  show ?thesis
  proof (intro exI [of _ s] exI [of _ r] conjI impI)
    assume a: "status_ok s \<and> length (written (r_file r)) < 2 ^ 32 \<and> holds g (written (r_file r))"
    with r(2) have "table_layout C key options (written (r_file r)) es" by blast
    from table_reading.Table_Open_layout [OF reading conjunct2 [OF conjunct2 [OF a]] conjunct1 [OF conjunct2 [OF a]] this, of addr in_buffer new_id]
    obtain t ds cs ies where t: "Table_Open addr in_buffer R new_id options g (of_nat (length (written (r_file r)))) = Some (Status_OK, Some t)"
      and es: "es = concat ds" and o: "opened holds C key options g ds cs ies t" by blast
    note it = table_reading.Table_NewIterator_at [OF reading o] and get = table_reading.InternalGet_finds [OF reading o]
    show "\<exists>t. Table_Open addr in_buffer R new_id options g (of_nat (length (written (r_file r)))) = Some (Status_OK, Some t) \<and>
        (\<forall>block_cache. cache_ok addr in_buffer R t ro block_cache \<longrightarrow>
          (\<exists>it. Table_NewIterator t = Some it \<and>
            views (table_iterator addr in_buffer R block_cache t ro) (Compare C) key es (length es) it) \<and>
          (\<forall>k. key k \<longrightarrow> (\<exists>a. InternalGet addr in_buffer R block_cache t ro k saver arg = Some (Status_OK, a) \<and>
            (let i = seek_index (Compare C) k es in
             a = arg \<and> k \<notin> set (map fst es) \<or> i < length es \<and> a = saver arg (fst (es ! i)) (snd (es ! i))))))"
      unfolding es Let_def by (intro exI [of _ t] conjI allI impI t; (rule it, assumption | rule get, assumption+))
  qed (rule r(1))
qed

definition table_example :: "entry list" where
  "table_example = [([1], [7])]"

definition empty_file :: PosixWritableFile where
  "empty_file = \<lparr>pw_filename = [], pw_data = [], pw_space = 1000, pw_flush_ok = True, pw_open = True, pw_errno = []\<rparr>"

lemma posix_Append:
  "wf_Append (posix_writable_file dir_sync) d f =
    (if length d \<le> pw_space f then (Status_OK, f\<lparr>pw_data := pw_data f @ d, pw_space := pw_space f - length d\<rparr>)
     else (IOError (pw_filename f) (pw_errno f), f\<lparr>pw_data := pw_data f @ take (pw_space f) d, pw_space := 0\<rparr>))"
  by (simp add: posix_writable_file_def PosixWritableFile_Append_def fwrite_def min_def Let_def)

lemma posix_Flush: "pw_flush_ok f \<Longrightarrow> wf_Flush (posix_writable_file dir_sync) f = (Status_OK, f)"
  by (simp add: posix_writable_file_def PosixWritableFile_Flush_def)

lemma new_example: "TableBuilder_new Options_new empty_file = Some \<lparr>r_options = Options_new,
    r_index_block_options = index_options Options_new, r_file = empty_file, r_offset = 0, r_status = Status_OK,
    r_data_block = BlockBuilder_Reset, r_index_block = BlockBuilder_Reset, r_last_key = [], r_num_entries = 0, r_closed = False,
    r_filter_block = None, r_pending_index_entry = False, r_pending_handle = BlockHandle_new\<rparr>"
  by (simp add: TableBuilder_new_def BlockBuilder_new_def on_filter_def index_options_def Options_new_def)

lemma add_example: "TableBuilder_Add addr F [1] [7] \<lparr>r_options = Options_new,
    r_index_block_options = index_options Options_new, r_file = empty_file, r_offset = 0, r_status = Status_OK,
    r_data_block = BlockBuilder_Reset, r_index_block = BlockBuilder_Reset, r_last_key = [], r_num_entries = 0, r_closed = False,
    r_filter_block = None, r_pending_index_entry = False, r_pending_handle = BlockHandle_new\<rparr> = Some \<lparr>r_options = Options_new,
    r_index_block_options = index_options Options_new, r_file = empty_file, r_offset = 0, r_status = Status_OK,
    r_data_block = \<lparr>bb_buffer = [0, 1, 1, 1, 7], bb_restarts = [0], bb_counter = 1, bb_finished = False, bb_last_key = [1]\<rparr>,
    r_index_block = BlockBuilder_Reset, r_last_key = [1], r_num_entries = 1, r_closed = False,
    r_filter_block = None, r_pending_index_entry = False, r_pending_handle = BlockHandle_new\<rparr>"
  by (simp add: TableBuilder_Add_def builder_ok_def on_filter_def BlockBuilder_Reset_def BlockBuilder_Add_def Add_shared_def
      Options_new_def PutVarint32_def EncodeVarint32_def CurrentSizeEstimate_def Let_def)

lemma posix_WriteRawBlock:
  assumes "length c + 5 \<le> pw_space (r_file r)"
  shows "WriteRawBlock addr (posix_writable_file dir_sync) c kNoCompression r =
    Some (\<lparr>bh_offset = r_offset r, bh_size = of_nat (length c)\<rparr>,
      r\<lparr>r_file := (r_file r)\<lparr>pw_data := pw_data (r_file r) @ raw_block c, pw_space := pw_space (r_file r) - (length c + 5)\<rparr>,
        r_status := Status_OK, r_offset := r_offset r + of_nat (length c + 5)\<rparr>)"
  using assms
  unfolding WriteRawBlock_def Let_def crc32c_Value_def Extend_crc32c bind.bind_lunit option.map trailer_bytes
  by (simp add: append_to_file_def posix_Append builder_ok_def raw_block_def kBlockTrailerSize_def)

lemma posix_WriteBlock:
  assumes "length (fst (BlockBuilder_Finish b)) + 5 \<le> pw_space (r_file r)" and "builder_ok r"
  shows "WriteBlock addr (posix_writable_file dir_sync) b r =
    Some (\<lparr>bh_offset = r_offset r, bh_size = of_nat (length (fst (BlockBuilder_Finish b)))\<rparr>, BlockBuilder_Reset,
      r\<lparr>r_file := (r_file r)\<lparr>pw_data := pw_data (r_file r) @ raw_block (fst (BlockBuilder_Finish b)),
          pw_space := pw_space (r_file r) - (length (fst (BlockBuilder_Finish b)) + 5)\<rparr>,
        r_status := Status_OK, r_offset := r_offset r + of_nat (length (fst (BlockBuilder_Finish b)) + 5)\<rparr>)"
  using assms by (cases "BlockBuilder_Finish b") (simp add: WriteBlock_def choose_contents_raw posix_WriteRawBlock)

lemma finish_example:
  "map_option (\<lambda>(s, r). (s, length (pw_data (r_file r)))) (TableBuilder_Finish addr (posix_writable_file dir_sync) \<lparr>r_options = Options_new,
    r_index_block_options = index_options Options_new, r_file = empty_file, r_offset = 0, r_status = Status_OK,
    r_data_block = \<lparr>bb_buffer = [0, 1, 1, 1, 7], bb_restarts = [0], bb_counter = 1, bb_finished = False, bb_last_key = [1]\<rparr>,
    r_index_block = BlockBuilder_Reset, r_last_key = [1], r_num_entries = 1, r_closed = False,
    r_filter_block = None, r_pending_index_entry = False, r_pending_handle = BlockHandle_new\<rparr>) = Some (Status_OK, 98)"
  by (simp add: TableBuilder_Finish_def Flush_def builder_ok_def BlockBuilder_empty_def posix_WriteBlock posix_Flush empty_file_def
      BlockBuilder_Finish_def PutFixed32_def on_filter_def write_filter_def write_metaindex_def BlockBuilder_new_def Options_new_def
      BlockBuilder_Reset_def write_index_def add_index_entry_def BlockHandle_EncodeTo_def PutVarint64_def EncodeVarint64.simps
      BytewiseComparator_def BlockBuilder_Add_def Add_shared_def PutVarint32_def EncodeVarint32_def
      index_options_def write_footer_def append_to_file_def posix_Append Footer_EncodeTo_set handle_set_def Let_def)

lemma build_example:
  "\<exists>r. build_table addr (posix_writable_file dir_sync) Options_new table_example empty_file = Some (Status_OK, r) \<and>
    length (pw_data (r_file r)) = 98"
  using finish_example [of addr dir_sync] by (auto simp: build_table_def table_example_def new_example add_example)

theorem table_roundtrip_witness:
  "\<exists>r t. build_table (\<lambda>_. 0) (posix_writable_file (\<lambda>_. None)) Options_new table_example empty_file = Some (Status_OK, r) \<and>
    Table_Open (\<lambda>_. 0) False posix_mmap_file 0 Options_new \<lparr>mm_filename = [], mm_region = pw_data (r_file r), mm_einval = []\<rparr> 98 = Some (Status_OK, Some t) \<and>
    InternalGet (\<lambda>_. 0) False posix_mmap_file None t ReadOptions_new [1] (\<lambda>_ _ v. v) [] = Some (Status_OK, [7])"
proof -
  let ?F = "posix_writable_file (\<lambda>_. None)" and ?saver = "\<lambda>(_ :: slice) (_ :: slice) (v :: slice). v"
  from build_example [of "\<lambda>_. 0" "\<lambda>_. None"] obtain r where
    r: "build_table (\<lambda>_. 0) ?F Options_new table_example empty_file = Some (Status_OK, r)" "length (pw_data (r_file r)) = 98" by blast
  let ?g = "\<lparr>mm_filename = [], mm_region = pw_data (r_file r), mm_einval = []\<rparr>"
  have f: "length (pw_data empty_file) + pw_space empty_file < 2 ^ 63" "pw_data empty_file = []" by (simp_all add: empty_file_def)
  have "sorted_entries (Compare BytewiseComparator) table_example" "list_all (\<lambda>e. (\<lambda>_. True) (fst e)) table_example"
    by (simp_all add: table_example_def sorted_entries_def)
  from table_roundtrip [OF posix_table_file.table_file_axioms [of "\<lambda>_. None"] f default_options.table_options_axioms this
      posix_mmap.random_access_file_axioms, where g = ?g and addr = "\<lambda>_. 0" and in_buffer = False and new_id = 0 and
      ro = ReadOptions_new and saver = ?saver and arg = "[]"]
  obtain t where t: "Table_Open (\<lambda>_. 0) False posix_mmap_file 0 Options_new ?g 98 = Some (Status_OK, Some t)"
    and get: "\<forall>block_cache. cache_ok (\<lambda>_. 0) False posix_mmap_file t ReadOptions_new block_cache \<longrightarrow>
      (\<forall>k. \<exists>a. InternalGet (\<lambda>_. 0) False posix_mmap_file block_cache t ReadOptions_new k ?saver [] = Some (Status_OK, a) \<and>
        (let i = seek_index (Compare BytewiseComparator) k table_example in
         a = [] \<and> k \<notin> set (map fst table_example) \<or> i < length table_example \<and> a = snd (table_example ! i)))"
    using r by auto
  have "seek_index (Compare BytewiseComparator) [1] table_example = 0"
    by (simp add: seek_index_def table_example_def BytewiseComparator_def)
  with spec [OF get, of None] have "InternalGet (\<lambda>_. 0) False posix_mmap_file None t ReadOptions_new [1] ?saver [] = Some (Status_OK, [7])"
    by (auto simp: cache_ok_def table_example_def dest!: spec [of _ "[1]"])
  with r(1) t show ?thesis by blast
qed

end
