(* ===== verification/Ldb_DbIter.thy ===== *)
theory Ldb_DbIter
  imports Ldb_Iterator Ldb_DbFormat Ldb_Arena
begin

text \<open>
  The iterator of the database, \<open>db/db_iter.cc\<close>, over an iterator of internal keys. Its object is a record
  with the internal iterator's state, its comparator an argument. The calls of \<open>RecordReadSample\<close> on the
  database are kept in order in \<open>d_samples\<close>. Lengths are far below \<open>2 ^ 63\<close>, so the counter of bytes is an
  \<open>int\<close>; the capacity of a string is not part of its value, so \<open>ClearSavedValue\<close> empties it.
\<close>

datatype Direction = kForward | kReverse

record 's DBIter =
  d_iter :: 's
  d_sequence :: SequenceNumber
  d_status :: status
  d_saved_key :: slice
  d_saved_value :: slice
  d_direction :: Direction
  d_valid :: bool
  d_rnd :: u32
  d_bytes_counter :: int
  d_samples :: "slice list"

definition RandomPeriod :: "u32 \<Rightarrow> int \<times> u32" where
  "RandomPeriod rnd = (case Random_Uniform (2 * of_nat kReadBytesPeriod) rnd of (n, rnd) \<Rightarrow> (int (unat n), rnd))"

definition NewDBIterator :: "'s \<Rightarrow> SequenceNumber \<Rightarrow> u32 \<Rightarrow> 's DBIter" where
  "NewDBIterator iter s seed =
     (case RandomPeriod (Random_new seed) of (n, rnd) \<Rightarrow>
        \<lparr>d_iter = iter, d_sequence = s, d_status = Status_OK, d_saved_key = [], d_saved_value = [],
         d_direction = kForward, d_valid = False, d_rnd = rnd, d_bytes_counter = n, d_samples = []\<rparr>)"

definition DBIter_key :: "'s Iterator \<Rightarrow> 's DBIter \<Rightarrow> slice option" where
  "DBIter_key I s =
     (if d_valid s then
        (if d_direction s = kForward then map_option ExtractUserKey (it_key I (d_iter s)) else Some (d_saved_key s))
      else None)"

definition DBIter_value :: "'s Iterator \<Rightarrow> 's DBIter \<Rightarrow> slice option" where
  "DBIter_value I s =
     (if d_valid s then (if d_direction s = kForward then it_value I (d_iter s) else Some (d_saved_value s)) else None)"

definition DBIter_get_status :: "'s Iterator \<Rightarrow> 's DBIter \<Rightarrow> status" where
  "DBIter_get_status I s = (if status_ok (d_status s) then it_status I (d_iter s) else d_status s)"

section \<open>Reading the current entry\<close>

text \<open>The \<open>while\<close> loop of \<open>ParseKey\<close>.\<close>

partial_function (option) read_samples :: "slice \<Rightarrow> 's DBIter \<Rightarrow> 's DBIter option" where
  "read_samples k s =
     (if d_bytes_counter s < 0 then
        (case RandomPeriod (d_rnd s) of (n, rnd) \<Rightarrow>
           read_samples k (s\<lparr>d_bytes_counter := d_bytes_counter s + n, d_rnd := rnd, d_samples := d_samples s @ [k]\<rparr>))
      else Some s)"

definition ParseKey :: "'s Iterator \<Rightarrow> 's DBIter \<Rightarrow> (ParsedInternalKey option \<times> 's DBIter) option" where
  "ParseKey I s =
     Option.bind (it_key I (d_iter s)) (\<lambda>k.
     Option.bind (it_value I (d_iter s)) (\<lambda>v.
     map_option (\<lambda>s.
       case ParseInternalKey k of
         None \<Rightarrow> (None, s\<lparr>d_status := Corruption (bytes_of ''corrupted internal key in DBIter'') []\<rparr>)
       | Some ikey \<Rightarrow> (Some ikey, s))
       (read_samples k (s\<lparr>d_bytes_counter := d_bytes_counter s - int (length k + length v)\<rparr>))))"

section \<open>Forward\<close>

text \<open>What the loop of \<open>FindNextUserEntry\<close> does with an entry: Nothing when it is the one to yield. Its \<open>skip\<close>
  is \<open>saved_key_\<close> at every call.\<close>

definition pass_entry :: "Comparator \<Rightarrow> ParsedInternalKey option \<Rightarrow> bool \<Rightarrow> 's DBIter \<Rightarrow> (bool \<times> 's DBIter) option" where
  "pass_entry user ikey skipping s =
     (case ikey of
        None \<Rightarrow> Some (skipping, s)
      | Some ikey \<Rightarrow>
          if sequence ikey \<le> d_sequence s then
            (if type ikey = kTypeDeletion then Some (True, s\<lparr>d_saved_key := user_key ikey\<rparr>)
             else if skipping \<and> Compare user (user_key ikey) (d_saved_key s) \<le> 0 then Some (skipping, s)
             else None)
          else Some (skipping, s))"

partial_function (option) FindNextUserEntry :: "'s Iterator \<Rightarrow> Comparator \<Rightarrow> bool \<Rightarrow> 's DBIter \<Rightarrow> 's DBIter option" where
  "FindNextUserEntry I user skipping s =
     (if d_direction s = kForward then
        Option.bind (ParseKey I s) (\<lambda>(ikey, s).
          case pass_entry user ikey skipping s of
            None \<Rightarrow> Some (s\<lparr>d_valid := True, d_saved_key := []\<rparr>)
          | Some (skipping, s) \<Rightarrow>
              Option.bind (it_Next I (d_iter s)) (\<lambda>iter.
                if it_Valid I iter then FindNextUserEntry I user skipping (s\<lparr>d_iter := iter\<rparr>)
                else Some (s\<lparr>d_iter := iter, d_saved_key := [], d_valid := False\<rparr>)))
      else None)"

definition DBIter_Next :: "'s Iterator \<Rightarrow> Comparator \<Rightarrow> 's DBIter \<Rightarrow> 's DBIter option" where
  "DBIter_Next I user s =
     (if \<not> d_valid s then None
      else if d_direction s = kReverse then
        Option.bind (if it_Valid I (d_iter s) then it_Next I (d_iter s) else it_SeekToFirst I (d_iter s)) (\<lambda>iter.
          let s = s\<lparr>d_direction := kForward, d_iter := iter\<rparr> in
          if it_Valid I iter then FindNextUserEntry I user True s
          else Some (s\<lparr>d_valid := False, d_saved_key := []\<rparr>))
      else
        Option.bind (it_key I (d_iter s)) (\<lambda>k. FindNextUserEntry I user True (s\<lparr>d_saved_key := ExtractUserKey k\<rparr>)))"

section \<open>Backward\<close>

text \<open>The entry is passed over (with what is saved and the type seen), or it is one of the keys before.\<close>

definition pass_prev ::
  "Comparator \<Rightarrow> ParsedInternalKey option \<Rightarrow> slice \<Rightarrow> slice \<Rightarrow> ValueType \<Rightarrow> 's DBIter \<Rightarrow> (ValueType \<times> 's DBIter) option" where
  "pass_prev user ikey k raw_value value_type s =
     (case ikey of
        None \<Rightarrow> Some (value_type, s)
      | Some ikey \<Rightarrow>
          if sequence ikey \<le> d_sequence s then
            (if value_type \<noteq> kTypeDeletion \<and> Compare user (user_key ikey) (d_saved_key s) < 0 then None
             else if type ikey = kTypeDeletion then Some (type ikey, s\<lparr>d_saved_key := [], d_saved_value := []\<rparr>)
             else Some (type ikey, s\<lparr>d_saved_key := ExtractUserKey k, d_saved_value := raw_value\<rparr>))
          else Some (value_type, s))"

partial_function (option) prev_entries :: "'s Iterator \<Rightarrow> Comparator \<Rightarrow> ValueType \<Rightarrow> 's DBIter \<Rightarrow> (ValueType \<times> 's DBIter) option" where
  "prev_entries I user value_type s =
     (if it_Valid I (d_iter s) then
        Option.bind (it_key I (d_iter s)) (\<lambda>k.
        Option.bind (it_value I (d_iter s)) (\<lambda>raw_value.
        Option.bind (ParseKey I s) (\<lambda>(ikey, s).
          case pass_prev user ikey k raw_value value_type s of
            None \<Rightarrow> Some (value_type, s)
          | Some (value_type, s) \<Rightarrow>
              Option.bind (it_Prev I (d_iter s)) (\<lambda>iter. prev_entries I user value_type (s\<lparr>d_iter := iter\<rparr>)))))
      else Some (value_type, s))"

definition FindPrevUserEntry :: "'s Iterator \<Rightarrow> Comparator \<Rightarrow> 's DBIter \<Rightarrow> 's DBIter option" where
  "FindPrevUserEntry I user s =
     (if d_direction s = kReverse then
        map_option (\<lambda>(value_type, s).
          if value_type = kTypeDeletion
          then s\<lparr>d_valid := False, d_saved_key := [], d_saved_value := [], d_direction := kForward\<rparr>
          else s\<lparr>d_valid := True\<rparr>)
          (prev_entries I user kTypeDeletion s)
      else None)"

text \<open>The \<open>while (true)\<close> loop of \<open>Prev\<close>: the internal iterator before the entries of the saved key, and
  whether there is anything there.\<close>

partial_function (option) leave_key :: "'s Iterator \<Rightarrow> Comparator \<Rightarrow> slice \<Rightarrow> 's \<Rightarrow> (bool \<times> 's) option" where
  "leave_key I user saved_key iter =
     Option.bind (it_Prev I iter) (\<lambda>iter.
       if \<not> it_Valid I iter then Some (False, iter)
       else
         Option.bind (it_key I iter) (\<lambda>k.
           if Compare user (ExtractUserKey k) saved_key < 0 then Some (True, iter)
           else leave_key I user saved_key iter))"

definition DBIter_Prev :: "'s Iterator \<Rightarrow> Comparator \<Rightarrow> 's DBIter \<Rightarrow> 's DBIter option" where
  "DBIter_Prev I user s =
     (if \<not> d_valid s then None
      else if d_direction s = kForward then
        Option.bind (it_key I (d_iter s)) (\<lambda>k.
          let s = s\<lparr>d_saved_key := ExtractUserKey k\<rparr> in
          Option.bind (leave_key I user (d_saved_key s) (d_iter s)) (\<lambda>(more, iter).
            let s = s\<lparr>d_iter := iter\<rparr> in
            if more then FindPrevUserEntry I user (s\<lparr>d_direction := kReverse\<rparr>)
            else Some (s\<lparr>d_valid := False, d_saved_key := [], d_saved_value := []\<rparr>)))
      else FindPrevUserEntry I user s)"

section \<open>Seeking\<close>

definition find_first :: "'s Iterator \<Rightarrow> Comparator \<Rightarrow> 's DBIter \<Rightarrow> 's DBIter option" where
  "find_first I user s =
     (if it_Valid I (d_iter s) then FindNextUserEntry I user False s else Some (s\<lparr>d_valid := False\<rparr>))"

definition DBIter_Seek :: "'s Iterator \<Rightarrow> Comparator \<Rightarrow> slice \<Rightarrow> 's DBIter \<Rightarrow> 's DBIter option" where
  "DBIter_Seek I user target s =
     (let s = s\<lparr>d_direction := kForward, d_saved_value := [],
            d_saved_key := AppendInternalKey [] \<lparr>user_key = target, sequence = d_sequence s, type = kValueTypeForSeek\<rparr>\<rparr> in
      Option.bind (it_Seek I (d_saved_key s) (d_iter s)) (\<lambda>iter. find_first I user (s\<lparr>d_iter := iter\<rparr>)))"

definition DBIter_SeekToFirst :: "'s Iterator \<Rightarrow> Comparator \<Rightarrow> 's DBIter \<Rightarrow> 's DBIter option" where
  "DBIter_SeekToFirst I user s =
     (let s = s\<lparr>d_direction := kForward, d_saved_value := []\<rparr> in
      Option.bind (it_SeekToFirst I (d_iter s)) (\<lambda>iter. find_first I user (s\<lparr>d_iter := iter\<rparr>)))"

definition DBIter_SeekToLast :: "'s Iterator \<Rightarrow> Comparator \<Rightarrow> 's DBIter \<Rightarrow> 's DBIter option" where
  "DBIter_SeekToLast I user s =
     (let s = s\<lparr>d_direction := kReverse, d_saved_value := []\<rparr> in
      Option.bind (it_SeekToLast I (d_iter s)) (\<lambda>iter. FindPrevUserEntry I user (s\<lparr>d_iter := iter\<rparr>)))"

definition db_iterator :: "'s Iterator \<Rightarrow> Comparator \<Rightarrow> 's DBIter Iterator" where
  "db_iterator I user =
     \<lparr>it_Valid = d_valid, it_SeekToFirst = DBIter_SeekToFirst I user, it_SeekToLast = DBIter_SeekToLast I user,
      it_Seek = DBIter_Seek I user, it_Next = DBIter_Next I user, it_Prev = DBIter_Prev I user,
      it_key = DBIter_key I, it_value = DBIter_value I, it_status = DBIter_get_status I\<rparr>"

end
