(* ===== verification/Ldb_Snapshot.thy ===== *)
theory Ldb_Snapshot
  imports Ldb_Iterator Ldb_DbFormat
begin

text \<open>
  What a snapshot shows of a list of internal entries: for every user key the newest entry that it sees, unless
  that is a deletion.
\<close>

section \<open>The entries of a snapshot\<close>

definition visible :: "SequenceNumber \<Rightarrow> entry \<Rightarrow> bool" where
  "visible s e \<longleftrightarrow> (case ParseInternalKey (fst e) of Some p \<Rightarrow> sequence p \<le> s | None \<Rightarrow> False)"

definition newest :: "SequenceNumber \<Rightarrow> slice \<Rightarrow> entry list \<Rightarrow> entry option" where
  "newest s u es = find (\<lambda>e. ExtractUserKey (fst e) = u \<and> visible s e) es"

definition shown :: "SequenceNumber \<Rightarrow> entry list \<Rightarrow> entry \<Rightarrow> bool" where
  "shown s es e \<longleftrightarrow> newest s (ExtractUserKey (fst e)) es = Some e \<and> ExtractValueType (fst e) = kTypeValue"

definition snapshot :: "SequenceNumber \<Rightarrow> entry list \<Rightarrow> entry list" where
  "snapshot s es = map (\<lambda>e. (ExtractUserKey (fst e), snd e)) (filter (shown s es) es)"

text \<open>The same by positions.\<close>

abbreviation "uk es j \<equiv> ExtractUserKey (fst (es ! j))"

definition live :: "SequenceNumber \<Rightarrow> entry list \<Rightarrow> nat \<Rightarrow> bool" where
  "live s es j \<longleftrightarrow> visible s (es ! j) \<and> ExtractValueType (fst (es ! j)) = kTypeValue \<and>
     (\<forall>j' < j. visible s (es ! j') \<longrightarrow> uk es j' \<noteq> uk es j)"

definition live_before :: "SequenceNumber \<Rightarrow> entry list \<Rightarrow> nat \<Rightarrow> nat" where
  "live_before s es c = length (filter (live s es) [0..<c])"

lemma shown_live:
  assumes "distinct es" and "j < length es"
  shows "shown s es (es ! j) \<longleftrightarrow> live s es j"
proof -
  have "newest s (uk es j) es = Some (es ! j) \<longleftrightarrow>
      (\<exists>i < length es. (uk es i = uk es j \<and> visible s (es ! i)) \<and> es ! j = es ! i \<and>
        (\<forall>i' < i. \<not> (uk es i' = uk es j \<and> visible s (es ! i'))))"
    by (simp add: newest_def find_Some_iff)
  also have "\<dots> \<longleftrightarrow> visible s (es ! j) \<and> (\<forall>j' < j. visible s (es ! j') \<longrightarrow> uk es j' \<noteq> uk es j)"
    using assms by (auto simp: nth_eq_iff_index_eq)
  finally show ?thesis by (auto simp: shown_def live_def)
qed

lemma snapshot_live:
  assumes "distinct es"
  shows "snapshot s es = map (\<lambda>j. (uk es j, snd (es ! j))) (filter (live s es) [0..<length es])"
proof -
  have "filter (shown s es) es = filter (shown s es) (map ((!) es) [0..<length es])" by (simp add: map_nth)
  also have "\<dots> = map ((!) es) (filter (\<lambda>j. shown s es (es ! j)) [0..<length es])" by (simp add: filter_map comp_def)
  also have "filter (\<lambda>j. shown s es (es ! j)) [0..<length es] = filter (live s es) [0..<length es]"
    using shown_live [OF assms] by (intro filter_cong) auto
  finally show ?thesis by (simp add: snapshot_def comp_def)
qed

lemma live_before_0 [simp]: "live_before s es 0 = 0"
  by (simp add: live_before_def)

lemma live_before_split: "a \<le> b \<Longrightarrow> live_before s es b = live_before s es a + length (filter (live s es) [a..<b])"
  unfolding live_before_def by (metis filter_append length_append upt_add_eq_append le_add_diff_inverse zero_le)

lemma live_before_skip: "a \<le> b \<Longrightarrow> (\<And>j. a \<le> j \<Longrightarrow> j < b \<Longrightarrow> \<not> live s es j) \<Longrightarrow> live_before s es b = live_before s es a"
  by (simp add: live_before_split filter_empty_conv)

lemma live_before_Suc: "live_before s es (Suc c) = (if live s es c then Suc (live_before s es c) else live_before s es c)"
  by (simp add: live_before_def)

lemma live_before_next:
  assumes "live s es c" and "c < c'" and "\<And>j. c < j \<Longrightarrow> j < c' \<Longrightarrow> \<not> live s es j"
  shows "live_before s es c' = Suc (live_before s es c)"
  using live_before_skip [of "Suc c" c' s es] assms by (simp add: live_before_Suc)

lemma live_nth:
  assumes "live s es c" and "c < n"
  shows "live_before s es c < live_before s es n" and "filter (live s es) [0..<n] ! live_before s es c = c"
proof -
  have "[0..<n] = [0..<c] @ c # [Suc c..<n]" using assms(2) by (metis upt_add_eq_append upt_conv_Cons le_add_diff_inverse less_imp_le zero_le)
  then have "filter (live s es) [0..<n] = filter (live s es) [0..<c] @ c # filter (live s es) [Suc c..<n]" using assms(1) by simp
  then show "live_before s es c < live_before s es n" "filter (live s es) [0..<n] ! live_before s es c = c"
    by (simp_all add: live_before_def nth_append)
qed

lemma snapshot_nth:
  assumes "distinct es" and "live s es c" and "c < length es"
  shows "live_before s es c < length (snapshot s es)" and "snapshot s es ! live_before s es c = (uk es c, snd (es ! c))"
  using live_nth [OF assms(2,3)] by (simp_all add: snapshot_live [OF assms(1)] live_before_def)

lemma length_snapshot: "distinct es \<Longrightarrow> length (snapshot s es) = live_before s es (length es)"
  by (simp add: snapshot_live live_before_def)

section \<open>Lists of internal entries\<close>

definition internal_entries :: "Comparator \<Rightarrow> (slice \<Rightarrow> bool) \<Rightarrow> entry list \<Rightarrow> bool" where
  "internal_entries C key es \<longleftrightarrow> sorted_entries (Internal_Compare C) es \<and>
     (\<forall>e \<in> set es. key (ExtractUserKey (fst e)) \<and> ParseInternalKey (fst e) \<noteq> None)"

lemma seek_index_split:
  assumes "\<forall>e \<in> set xs. cmp (fst e) t < 0" and "\<forall>e \<in> set ys. \<not> cmp (fst e) t < 0"
  shows "seek_index cmp t (xs @ ys) = length xs"
proof -
  have "takeWhile (\<lambda>e. cmp (fst e) t < 0) (xs @ ys) = xs @ takeWhile (\<lambda>e. cmp (fst e) t < 0) ys"
    using assms(1) by (intro takeWhile_append2) auto
  also have "takeWhile (\<lambda>e. cmp (fst e) t < 0) ys = []" using assms(2) by (cases ys) auto
  finally show ?thesis by (simp add: seek_index_def)
qed

context comparator
begin

lemma parsed_facts:
  assumes "internal_entries C key es" and "j < length es" and p: "ParseInternalKey (fst (es ! j)) = Some p"
  shows "user_key p = uk es j" and "key (uk es j)" and "visible s (es ! j) \<longleftrightarrow> sequence p \<le> s"
    and "type p = ExtractValueType (fst (es ! j))" and "type p = kTypeDeletion \<or> type p = kTypeValue"
    and "ExtractNumber (fst (es ! j)) = PackSequenceAndType (sequence p) (type p)" and "unat (sequence p) < 2 ^ 56"
proof -
  note a = Append_Parse [OF p]
  show "unat (sequence p) < 2 ^ 56" by (rule a(2))
  show "key (uk es j)" using assms(1) nth_mem [OF assms(2)] by (auto simp: internal_entries_def)
  show "user_key p = uk es j" "type p = ExtractValueType (fst (es ! j))"
    using p by (auto simp: ParseInternalKey_def Let_def ExtractUserKey_def ExtractValueType_def split: if_splits)
  have "unat (type p) = 0 \<or> unat (type p) = 1" using a(3) by (auto simp: kTypeValue_def word_le_nat_alt)
  then show "type p = kTypeDeletion \<or> type p = kTypeValue" by (auto simp: kTypeDeletion_def kTypeValue_def word_unat_eq_iff)
  show "ExtractNumber (fst (es ! j)) = PackSequenceAndType (sequence p) (type p)"
    using a(1) by (metis AppendInternalKey_eq InternalKey_parts(2))
  show "visible s (es ! j) \<longleftrightarrow> sequence p \<le> s" by (simp add: visible_def p)
qed

lemma parsed: "internal_entries C key es \<Longrightarrow> j < length es \<Longrightarrow> \<exists>p. ParseInternalKey (fst (es ! j)) = Some p"
  by (auto simp: internal_entries_def dest: nth_mem)

lemma entries_key: "internal_entries C key es \<Longrightarrow> j < length es \<Longrightarrow> key (uk es j)"
  by (auto simp: internal_entries_def)

lemma entries_le:
  assumes "internal_entries C key es" and "j \<le> j'" and "j' < length es"
  shows "Compare C (uk es j) (uk es j') \<le> 0"
proof (cases "j = j'")
  case True
  with assms entries_key show ?thesis by simp
next
  case False
  with assms have "Internal_Compare C (fst (es ! j)) (fst (es ! j')) < 0"
    by (intro sorted_entries_nth) (simp_all add: internal_entries_def)
  then show ?thesis unfolding Internal_Compare_less by auto
qed

lemma entries_eq:
  assumes "internal_entries C key es" and "j \<le> j'" and "j' < length es" and "Compare C (uk es j') (uk es j) \<le> 0"
  shows "uk es j' = uk es j"
proof -
  have k: "key (uk es j)" "key (uk es j')" using assms entries_key by simp_all
  have "Compare C (uk es j) (uk es j') = 0"
    using entries_le [OF assms(1-3)] assms(4) flip [OF k] flip [OF k(2,1)] by linarith
  then show ?thesis using equal [OF k] by simp
qed

lemma entries_distinct:
  assumes "internal_entries C key es"
  shows "distinct es"
proof (unfold distinct_conv_nth, intro allI impI)
  fix i j
  assume ij: "i < length es" "j < length es" "i \<noteq> j"
  have less: "es ! a \<noteq> es ! b" if "a < b" "b < length es" for a b
  proof
    assume eq: "es ! a = es ! b"
    have "Internal_Compare C (fst (es ! a)) (fst (es ! b)) < 0"
      using assms that by (intro sorted_entries_nth) (simp_all add: internal_entries_def)
    then show False unfolding eq Internal_Compare_less using entries_key [OF assms that(2)] by simp
  qed
  show "es ! i \<noteq> es ! j" using less [of i j] less [of j i] ij by (cases "i < j") (auto dest: HOL.sym)
qed

text \<open>The entries that a seek to a user key at a snapshot skips.\<close>

lemma seek_visible:
  assumes es: "internal_entries C key es" and t: "key t" and s: "unat s < 2 ^ 56" and j: "j < length es" "visible s (es ! j)"
  shows "j < seek_index (Compare (InternalKeyComparator C)) (t @ Fixed64 (PackSequenceAndType s kTypeValue)) es \<longleftrightarrow> Compare C (uk es j) t < 0"
    (is "_ < seek_index ?cmp ?k es \<longleftrightarrow> _")
proof -
  from parsed [OF es j(1)] obtain p where p: "ParseInternalKey (fst (es ! j)) = Some p" by blast
  note f = parsed_facts [OF es j(1) p]
  have num: "\<not> PackSequenceAndType s kTypeValue < ExtractNumber (fst (es ! j))"
  proof -
    have "unat (sequence p) \<le> unat s" using j(2) f(3) by (simp add: word_le_nat_alt)
    moreover have "unat (type p) \<le> 1" using f(5) by (auto simp: kTypeDeletion_def kTypeValue_def)
    ultimately show ?thesis unfolding f(6) word_less_nat_alt unat_pack [OF f(7)] unat_pack [OF s] by (simp add: kTypeValue_def)
  qed
  then have below: "?cmp (fst (es ! j)) ?k < 0 \<longleftrightarrow> Compare C (uk es j) t < 0"
    by (simp add: InternalKeyComparator_def Internal_Compare_less)
  show ?thesis
  proof
    assume "j < seek_index ?cmp ?k es"
    from seek_index_before [OF this] below show "Compare C (uk es j) t < 0" by simp
  next
    assume "Compare C (uk es j) t < 0"
    with below have less: "?cmp (fst (es ! j)) ?k < 0" by simp
    show "j < seek_index ?cmp ?k es"
    proof (rule ccontr)
      assume "\<not> j < seek_index ?cmp ?k es"
      then have i: "seek_index ?cmp ?k es \<le> j" by simp
      let ?i = "seek_index ?cmp ?k es"
      have ik: "ikey (fst (es ! i))" if "i < length es" for i
        using es nth_mem [OF that] by (auto simp: internal_entries_def ikey_def ParseInternalKey_def split: if_splits)
      have k: "ikey ?k" using t by simp
      have "?cmp (fst (es ! ?i)) (fst (es ! j)) \<le> 0"
      proof (cases "?i = j")
        case True
        with ik [OF j(1)] comparator.refl [OF Internal_comparator] show ?thesis by simp
      next
        case False
        with i es j(1) have "Internal_Compare C (fst (es ! ?i)) (fst (es ! j)) < 0"
          by (intro sorted_entries_nth) (simp_all add: internal_entries_def)
        then show ?thesis by (simp add: InternalKeyComparator_def)
      qed
      from comparator.le_less_trans [OF Internal_comparator ik ik k this less] seek_index_at [of ?cmp ?k es] i j(1) show False by simp
    qed
  qed
qed

text \<open>So the entry a seek finds is the newest one, if it is one of the user key.\<close>

lemma newest_seek:
  assumes es: "internal_entries C key es" and u: "key u" and s: "unat s < 2 ^ 56"
  defines "i \<equiv> seek_index (Compare (InternalKeyComparator C)) (u @ Fixed64 (PackSequenceAndType s kTypeValue)) es"
  shows "newest s u es = (if i < length es \<and> uk es i = u then Some (es ! i) else None)"
proof -
  let ?k = "u @ Fixed64 (PackSequenceAndType s kTypeValue)" and ?cmp = "Compare (InternalKeyComparator C)"
  note seek = seek_visible [OF es u s, folded i_def]
  have not_before: "i \<le> j" if "j < length es" "visible s (es ! j)" "uk es j = u" for j
    using seek [OF that(1,2)] that(3) u by simp
  have at: "Compare C u (uk es i) \<le> 0 \<and> (uk es i = u \<longrightarrow> visible s (es ! i))" if i: "i < length es"
  proof -
    note ki = entries_key [OF es i]
    have ge: "\<not> Internal_Compare C (fst (es ! i)) ?k < 0"
      using seek_index_at [of ?cmp ?k es] i by (simp add: i_def InternalKeyComparator_def)
    then have "\<not> Compare C (uk es i) u < 0" by (simp add: Internal_Compare_less)
    moreover have "visible s (es ! i)" if same: "uk es i = u"
    proof -
      from parsed [OF es i] obtain p where p: "ParseInternalKey (fst (es ! i)) = Some p" by blast
      note f = parsed_facts [OF es i p]
      have "\<not> PackSequenceAndType s kTypeValue < ExtractNumber (fst (es ! i))" using ge same u by (simp add: Internal_Compare_less)
      then have "unat (sequence p) * 256 + unat (type p) \<le> unat s * 256 + 1"
        unfolding f(6) word_less_nat_alt unat_pack [OF f(7)] unat_pack [OF s] by (simp add: kTypeValue_def)
      then show ?thesis using f(3) by (simp add: word_le_nat_alt)
    qed
    ultimately show ?thesis using not_less [OF ki u] by simp
  qed
  show ?thesis
  proof (cases "i < length es \<and> uk es i = u")
    case True
    with at have v: "visible s (es ! i)" by blast
    have "\<not> (uk es j = u \<and> visible s (es ! j))" if "j < i" for j using not_before [of j] that True by force
    with v True have "newest s u es = Some (es ! i)" unfolding newest_def find_Some_iff by blast
    with True show ?thesis by simp
  next
    case False
    have "\<not> (uk es j = u \<and> visible s (es ! j))" if j: "j < length es" for j
    proof
      assume a: "uk es j = u \<and> visible s (es ! j)"
      with not_before j have ij: "i \<le> j" by blast
      with j at have "Compare C u (uk es i) \<le> 0" by simp
      with entries_eq [OF es ij j] a have "uk es i = u" by simp
      with False ij j show False by simp
    qed
    then have "newest s u es = None" unfolding newest_def find_None_iff by (metis in_set_conv_nth)
    with False show ?thesis by simp
  qed
qed

end

end
