(* ===== verification/Ldb_DbIter_Spec.thy ===== *)
theory Ldb_DbIter_Spec
  imports Ldb_DbIter Ldb_Merger_Spec Ldb_Snapshot
begin

text \<open>
  What the database iterator shows is the snapshot of the entries of the iterator below it: it is an iterator
  over the list \<open>snapshot\<close>.
\<close>

section \<open>Sampling\<close>

text \<open>Of two consecutive periods one is positive, so the loop in \<open>ParseKey\<close> ends.\<close>

lemma RandomPeriod_facts:
  assumes "good_seed r" and "RandomPeriod r = (n, r')"
  shows "good_seed r'" and "unat r' = unat r * 16807 mod 2147483647" and "n = int (unat r' mod 2097152)"
proof -
  have r: "r' = Random_Next r" "n = int (unat (r' mod 2097152))"
    using assms(2) by (auto simp: RandomPeriod_def Random_Uniform_def Let_def kReadBytesPeriod_def)
  with Random_Next_value [OF assms(1)] show "good_seed r'" "unat r' = unat r * 16807 mod 2147483647" by simp_all
  have "unat (r' mod 2097152) = unat r' mod 2097152" by (simp add: unat_mod)
  with r(2) show "n = int (unat r' mod 2097152)" by (simp only:)
qed

lemma two_periods:
  assumes "good_seed r" and "RandomPeriod r = (n, r')" and "RandomPeriod r' = (n', r'')"
  shows "0 < n \<or> 0 < n'"
proof (rule ccontr)
  note 1 = RandomPeriod_facts [OF assms(1,2)] and 2 = RandomPeriod_facts [OF RandomPeriod_facts(1) [OF assms(1,2)] assms(3)]
  assume "\<not> (0 < n \<or> 0 < n')"
  then have "unat r' mod 2097152 = 0" "unat r'' mod 2097152 = 0" using 1(3) 2(3) by simp_all
  then obtain a b where a: "unat r' = 2097152 * a" and b: "unat r'' = 2097152 * b" by (metis dvdE mod_0_imp_dvd)
  from 1(1) 2(1) a b have bounds: "0 < a" "a < 1024" "b < 1024" by (auto simp: good_seed_def)
  have "2097152 * b = 2097152 * a * 16807 mod 2147483647" using 2(2) a b by simp
  then have "1024 * (2097152 * b) mod 2147483647 = 1024 * (2097152 * a * 16807) mod (2147483647 :: nat)"
    by (simp only: mod_mult_right_eq)
  moreover have "1024 * (2097152 * b) = b + b * (2147483647 :: nat)" by simp
  moreover have "1024 * (2097152 * a * 16807) = a * 16807 + (a * 16807) * (2147483647 :: nat)" by simp
  ultimately have "b mod 2147483647 = a * 16807 mod (2147483647 :: nat)" by (simp only: mod_mult_self1)
  with bounds show False by simp
qed

definition quiet :: "'s DBIter \<Rightarrow> bool" where
  "quiet s \<longleftrightarrow> d_status s = Status_OK \<and> good_seed (d_rnd s) \<and> 0 \<le> d_bytes_counter s \<and> unat (d_sequence s) < 2 ^ 56"

lemma quiet_updates [simp]:
  "quiet (s\<lparr>d_iter := i\<rparr>) = quiet s" "quiet (s\<lparr>d_saved_key := k\<rparr>) = quiet s" "quiet (s\<lparr>d_saved_value := v\<rparr>) = quiet s"
  "quiet (s\<lparr>d_direction := d\<rparr>) = quiet s" "quiet (s\<lparr>d_valid := b\<rparr>) = quiet s"
  by (simp_all add: quiet_def)

text \<open>Reading an entry changes nothing but the counters.\<close>

definition same_position :: "'s DBIter \<Rightarrow> 's DBIter \<Rightarrow> bool" where
  "same_position s s' \<longleftrightarrow> (\<exists>c r ss. s' = s\<lparr>d_bytes_counter := c, d_rnd := r, d_samples := ss\<rparr>)"

lemma same_positionD:
  "same_position s s' \<Longrightarrow> d_iter s' = d_iter s \<and> d_sequence s' = d_sequence s \<and> d_status s' = d_status s \<and>
    d_saved_key s' = d_saved_key s \<and> d_saved_value s' = d_saved_value s \<and> d_direction s' = d_direction s \<and> d_valid s' = d_valid s"
  by (auto simp: same_position_def)

lemma read_samples_ends:
  assumes "good_seed (d_rnd s)"
  shows "\<exists>s'. read_samples k s = Some s' \<and> same_position s s' \<and> good_seed (d_rnd s') \<and> 0 \<le> d_bytes_counter s'"
  using assms
proof (induction "nat (- d_bytes_counter s)" arbitrary: s rule: less_induct)
  case less
  have trans: "same_position s s''"
    if "same_position (s\<lparr>d_bytes_counter := c, d_rnd := r, d_samples := ss\<rparr>) s''" for c r ss s''
    using that by (auto simp: same_position_def)
  show ?case
  proof (cases "d_bytes_counter s < 0")
    case False
    have "same_position s (s\<lparr>d_bytes_counter := d_bytes_counter s, d_rnd := d_rnd s, d_samples := d_samples s\<rparr>)"
      unfolding same_position_def by blast
    with False less.prems show ?thesis by (subst read_samples.simps) simp
  next
    case True
    obtain n r where r: "RandomPeriod (d_rnd s) = (n, r)" by fastforce
    note f = RandomPeriod_facts [OF less.prems r]
    let ?s = "s\<lparr>d_bytes_counter := d_bytes_counter s + n, d_rnd := r, d_samples := d_samples s @ [k]\<rparr>"
    have step: "read_samples k s = read_samples k ?s" using True r by (subst read_samples.simps) simp
    show ?thesis
    proof (cases "0 < n")
      case pos: True
      with less.hyps [of ?s] f(1) True show ?thesis unfolding step by (auto dest: trans)
    next
      case False
      then have n: "n = 0" using f(3) by simp
      obtain n' r' where r': "RandomPeriod r = (n', r')" by fastforce
      note f' = RandomPeriod_facts [OF f(1) r']
      from two_periods [OF less.prems r r'] n have n': "0 < n'" by simp
      let ?s' = "s\<lparr>d_bytes_counter := d_bytes_counter s + n', d_rnd := r', d_samples := d_samples s @ [k, k]\<rparr>"
      have "read_samples k ?s = read_samples k ?s'" using True r' n by (subst read_samples.simps) simp
      with less.hyps [of ?s'] f'(1) n' True show ?thesis unfolding step by (auto dest: trans)
    qed
  qed
qed

section \<open>Over an iterator of internal keys\<close>

locale db_iteration = comparator C key + inner: iterator I "Compare (InternalKeyComparator C)" "comparator.ikey key" at
  for C :: Comparator and key :: "slice \<Rightarrow> bool" and I :: "'s Iterator" and at :: "entry list \<Rightarrow> nat \<Rightarrow> 's \<Rightarrow> bool"
begin

lemma ParseKey_at:
  assumes "internal_entries C key es" and "at es i (d_iter s)" and "i < length es" and "quiet s"
  obtains p s' where "ParseKey I s = Some (Some p, s')" and "ParseInternalKey (fst (es ! i)) = Some p" and "same_position s s'" and "quiet s'"
proof -
  let ?k = "fst (es ! i)" and ?v = "snd (es ! i)"
  from parsed [OF assms(1,3)] obtain p where p: "ParseInternalKey ?k = Some p" by blast
  let ?s = "s\<lparr>d_bytes_counter := d_bytes_counter s - int (length ?k + length ?v)\<rparr>"
  from assms(4) have "good_seed (d_rnd ?s)" by (simp add: quiet_def)
  from read_samples_ends [OF this, of ?k] obtain s' where
    s': "read_samples ?k ?s = Some s'" "same_position ?s s'" "good_seed (d_rnd s')" "0 \<le> d_bytes_counter s'" by blast
  have "ParseKey I s = Some (Some p, s')"
    using assms(2,3) inner.key_now inner.value_now s'(1) p by (simp add: ParseKey_def)
  moreover have "same_position s s'" using s'(2) by (auto simp: same_position_def)
  moreover have "quiet s'" using assms(4) s'(3,4) same_positionD [OF s'(2)] by (simp add: quiet_def)
  ultimately show thesis using that p by blast
qed

lemma pass_cases:
  assumes "pass_entry C (Some p) skipping s = Some (skipping', s')"
  shows "\<not> sequence p \<le> d_sequence s \<and> skipping' = skipping \<and> s' = s \<or>
    sequence p \<le> d_sequence s \<and> type p = kTypeDeletion \<and> skipping' \<and> s' = s\<lparr>d_saved_key := user_key p\<rparr> \<or>
    sequence p \<le> d_sequence s \<and> skipping \<and> Compare C (user_key p) (d_saved_key s) \<le> 0 \<and> skipping' = skipping \<and> s' = s"
  using assms by (auto simp: pass_entry_def split: if_splits)

section \<open>The loops\<close>

text \<open>Where the search forward ends that started at entry \<open>i\<close> and leaves out the key \<open>b\<close>.\<close>

definition found_forward :: "entry list \<Rightarrow> slice option \<Rightarrow> nat \<Rightarrow> 's DBIter \<Rightarrow> bool" where
  "found_forward es b i s \<longleftrightarrow>
     (\<exists>c \<ge> i. at es c (d_iter s) \<and> (\<forall>j. i \<le> j \<and> j < c \<longrightarrow> live (d_sequence s) es j \<longrightarrow> b = Some (uk es j)) \<and>
       (if d_valid s then c < length es \<and> live (d_sequence s) es c \<and> b \<noteq> Some (uk es c) else c = length es))"

lemma found_forward_Suc:
  assumes "found_forward es b (i + 1) s" and "live (d_sequence s) es i \<longrightarrow> b = Some (uk es i)"
  shows "found_forward es b i s"
proof -
  from assms(1) obtain c where c: "i + 1 \<le> c" "at es c (d_iter s)"
      "if d_valid s then c < length es \<and> live (d_sequence s) es c \<and> b \<noteq> Some (uk es c) else c = length es"
    and none: "\<forall>j. i + 1 \<le> j \<and> j < c \<longrightarrow> live (d_sequence s) es j \<longrightarrow> b = Some (uk es j)"
    unfolding found_forward_def by blast
  have "\<forall>j. i \<le> j \<and> j < c \<longrightarrow> live (d_sequence s) es j \<longrightarrow> b = Some (uk es j)"
  proof (intro allI impI)
    fix j
    assume j: "i \<le> j \<and> j < c" "live (d_sequence s) es j"
    show "b = Some (uk es j)" using none j assms(2) by (cases "j = i") auto
  qed
  with c show ?thesis unfolding found_forward_def by (intro exI [of _ c]) simp
qed

lemma FindNext_at:
  assumes es: "internal_entries C key es" and "at es i (d_iter s)" and "i < length es" and "quiet s" and "d_direction s = kForward"
    and "\<forall>j. i \<le> j \<and> j < length es \<and> visible (d_sequence s) (es ! j) \<longrightarrow>
      (skipping \<and> Compare C (uk es j) (d_saved_key s) \<le> 0 \<longleftrightarrow>
       b = Some (uk es j) \<or> (\<exists>j' < i. visible (d_sequence s) (es ! j') \<and> uk es j' = uk es j))"
    and "\<forall>j k. i \<le> j \<and> j < length es \<and> visible (d_sequence s) (es ! j) \<and> b = Some k \<longrightarrow> Compare C k (uk es j) \<le> 0"
  shows "\<exists>s'. FindNextUserEntry I C skipping s = Some s' \<and> quiet s' \<and> d_sequence s' = d_sequence s \<and>
    d_direction s' = kForward \<and> found_forward es b i s'"
  using assms(2-)
proof (induction "length es - i" arbitrary: i s skipping)
  case (Suc m)
  from ParseKey_at [OF es Suc.prems(1-3)] obtain p s1 where
    s1: "ParseKey I s = Some (Some p, s1)" "ParseInternalKey (fst (es ! i)) = Some p" "same_position s s1" "quiet s1" by blast
  note same = same_positionD [OF s1(3)]
  note p = parsed_facts [OF es Suc.prems(2) s1(2)]
  have now: "visible (d_sequence s) (es ! i) \<Longrightarrow> skipping \<and> Compare C (uk es i) (d_saved_key s) \<le> 0 \<longleftrightarrow>
       b = Some (uk es i) \<or> (\<exists>j' < i. visible (d_sequence s) (es ! j') \<and> uk es j' = uk es i)"
    using Suc.prems(2,5) by blast
  show ?case
  proof (cases "pass_entry C (Some p) skipping s1")
    case None
    then have stop: "visible (d_sequence s) (es ! i)" "type p \<noteq> kTypeDeletion" "\<not> (skipping \<and> Compare C (uk es i) (d_saved_key s) \<le> 0)"
      using p(1,3) same by (auto simp: pass_entry_def split: if_splits)
    let ?s = "s1\<lparr>d_valid := True, d_saved_key := []\<rparr>"
    have "live (d_sequence s) es i" "b \<noteq> Some (uk es i)"
      using stop p(4,5) now by (auto simp: live_def)
    then have "found_forward es b i ?s"
      using Suc.prems(1,2) same by (auto simp: found_forward_def)
    moreover have "FindNextUserEntry I C skipping s = Some ?s"
      using Suc.prems(4) s1(1) None by (subst FindNextUserEntry.simps) simp
    ultimately show ?thesis using s1(4) same Suc.prems(4) by auto
  next
    case (Some pass)
    then obtain skipping' s2 where pass: "pass_entry C (Some p) skipping s1 = Some (skipping', s2)" by (cases pass) auto
    then have s2: "d_iter s2 = d_iter s" "d_sequence s2 = d_sequence s" "d_direction s2 = kForward" "quiet s2"
      using same s1(4) Suc.prems(4) by (auto simp: pass_entry_def quiet_def split: if_splits)
    from inner.Next [OF Suc.prems(1,2)] obtain iter where iter: "it_Next I (d_iter s) = Some iter" "at es (i + 1) iter" by blast
    have skip: "live (d_sequence s) es i \<longrightarrow> b = Some (uk es i)"
      using pass now p same by (auto simp: pass_entry_def live_def kTypeDeletion_def kTypeValue_def split: if_splits)
    have inv: "skipping' \<and> Compare C (uk es j) (d_saved_key s2) \<le> 0 \<longleftrightarrow>
       b = Some (uk es j) \<or> (\<exists>j' < i + 1. visible (d_sequence s) (es ! j') \<and> uk es j' = uk es j)"
      if j: "i + 1 \<le> j" "j < length es" "visible (d_sequence s) (es ! j)" for j
    proof -
      have old: "skipping \<and> Compare C (uk es j) (d_saved_key s) \<le> 0 \<longleftrightarrow>
          b = Some (uk es j) \<or> (\<exists>j' < i. visible (d_sequence s) (es ! j') \<and> uk es j' = uk es j)"
        using Suc.prems(5) j by simp
      from pass_cases [OF pass] p(1,3) same consider
          (hidden) "\<not> visible (d_sequence s) (es ! i)" "skipping' = skipping" "d_saved_key s2 = d_saved_key s"
        | (deleted) "visible (d_sequence s) (es ! i)" "skipping'" "d_saved_key s2 = uk es i"
        | (skipped) "skipping" "Compare C (uk es i) (d_saved_key s) \<le> 0" "skipping' = skipping" "d_saved_key s2 = d_saved_key s"
        by auto
      then show ?thesis
      proof cases
        case hidden
        then show ?thesis using old by (auto simp: less_Suc_eq)
      next
        case deleted
        have i: "i \<le> j" using j(1) by simp
        have "uk es j = uk es i" if "b = Some (uk es j)"
          using Suc.prems(2,6) deleted(1) that entries_eq [OF es i j(2)] by blast
        moreover have "uk es j = uk es i" if "j' < i" "uk es j' = uk es j" for j'
          using entries_le [OF es less_imp_le [OF that(1)] Suc.prems(2)] that(2) entries_eq [OF es i j(2)] by simp
        ultimately show ?thesis
          using deleted entries_eq [OF es i j(2)] p(2) by (auto simp: less_Suc_eq)
      next
        case skipped
        then show ?thesis using old by (auto simp: less_Suc_eq)
      qed
    qed
    show ?thesis
    proof (cases "i + 1 < length es")
      case True
      then have v: "it_Valid I iter" using inner.Valid [OF iter(2)] by simp
      have "\<exists>s'. FindNextUserEntry I C skipping' (s2\<lparr>d_iter := iter\<rparr>) = Some s' \<and> quiet s' \<and> d_sequence s' = d_sequence s \<and>
        d_direction s' = kForward \<and> found_forward es b (i + 1) s'"
        using Suc.hyps(1) [of "i + 1" "s2\<lparr>d_iter := iter\<rparr>" skipping'] Suc.hyps(2) Suc.prems(6) True iter(2) s2 inv
        by simp
      then obtain s' where s': "FindNextUserEntry I C skipping' (s2\<lparr>d_iter := iter\<rparr>) = Some s'" "quiet s'"
        "d_sequence s' = d_sequence s" "d_direction s' = kForward" "found_forward es b (i + 1) s'" by blast
      have "FindNextUserEntry I C skipping s = Some s'"
        using Suc.prems(4) s1(1) pass s2(1) iter(1) v s'(1) by (subst FindNextUserEntry.simps) simp
      moreover have "found_forward es b i s'" using found_forward_Suc [OF s'(5)] skip s'(3) by simp
      ultimately show ?thesis using s' by blast
    next
      case False
      let ?s = "s2\<lparr>d_iter := iter, d_saved_key := [], d_valid := False\<rparr>"
      have v: "\<not> it_Valid I iter" using inner.Valid [OF iter(2)] False by simp
      have "FindNextUserEntry I C skipping s = Some ?s"
        using Suc.prems(4) s1(1) pass s2(1) iter(1) v by (subst FindNextUserEntry.simps) simp
      moreover have "found_forward es b i ?s"
        using iter(2) False Suc.prems(2) skip s2(2) unfolding found_forward_def
        by (intro exI [of _ "i + 1"]) (auto simp: le_less_Suc_eq)
      ultimately show ?thesis using s2 by auto
    qed
  qed
qed simp

text \<open>The internal iterator just before entry \<open>m\<close>.\<close>

definition at_before :: "entry list \<Rightarrow> nat \<Rightarrow> 's \<Rightarrow> bool" where
  "at_before es m s \<longleftrightarrow> m \<le> length es \<and> at es (if m = 0 then length es else m - 1) s"

lemma at_before_Valid: "at_before es m s \<Longrightarrow> it_Valid I s \<longleftrightarrow> 0 < m"
  by (auto simp: at_before_def dest: inner.Valid split: if_splits)

lemma Prev_before: "at es i s \<Longrightarrow> i < length es \<Longrightarrow> \<exists>s'. it_Prev I s = Some s' \<and> at_before es i s'"
  using inner.Prev [of es i s] by (auto simp: at_before_def)

lemma at_before_at: "at_before es (Suc m) s \<Longrightarrow> at es m s \<and> m < length es"
  by (simp add: at_before_def)

text \<open>The iterator with entry \<open>c\<close> saved, before the entries of its key that the snapshot sees.\<close>

definition saved_at :: "entry list \<Rightarrow> nat \<Rightarrow> 's DBIter \<Rightarrow> bool" where
  "saved_at es c s \<longleftrightarrow> c < length es \<and> live (d_sequence s) es c \<and> d_saved_key s = uk es c \<and> d_saved_value s = snd (es ! c) \<and>
     (\<exists>m \<le> c. at_before es m (d_iter s) \<and> (\<forall>j. m \<le> j \<and> j < c \<longrightarrow> \<not> visible (d_sequence s) (es ! j)) \<and>
       (0 < m \<longrightarrow> Compare C (uk es (m - 1)) (uk es c) < 0))"

text \<open>What the entries from \<open>m\<close> up to \<open>n\<close> leave behind.\<close>

definition seen :: "entry list \<Rightarrow> nat \<Rightarrow> nat \<Rightarrow> ValueType \<Rightarrow> 's DBIter \<Rightarrow> bool" where
  "seen es n m value_type s \<longleftrightarrow>
     value_type = kTypeDeletion \<and> (\<forall>j. m \<le> j \<and> j < n \<longrightarrow> \<not> live (d_sequence s) es j) \<or>
     value_type = kTypeValue \<and> (\<exists>c. m \<le> c \<and> c < n \<and> visible (d_sequence s) (es ! c) \<and> ExtractValueType (fst (es ! c)) = kTypeValue \<and>
       d_saved_key s = uk es c \<and> d_saved_value s = snd (es ! c) \<and> (\<forall>j. m \<le> j \<and> j < c \<longrightarrow> \<not> visible (d_sequence s) (es ! j)) \<and>
       (\<forall>j. c < j \<and> j < n \<longrightarrow> \<not> live (d_sequence s) es j))"

definition found_backward :: "entry list \<Rightarrow> nat \<Rightarrow> ValueType \<Rightarrow> 's DBIter \<Rightarrow> bool" where
  "found_backward es n value_type s \<longleftrightarrow>
     (if value_type = kTypeDeletion then (\<forall>j < n. \<not> live (d_sequence s) es j) \<and> (\<exists>i. at es i (d_iter s))
      else \<exists>c < n. saved_at es c s \<and> (\<forall>j. c < j \<and> j < n \<longrightarrow> \<not> live (d_sequence s) es j))"

lemma kTypes [simp]: "kTypeValue \<noteq> kTypeDeletion" "kTypeDeletion \<noteq> kTypeValue"
  by (simp_all add: kTypeValue_def kTypeDeletion_def)

lemma seen_end:
  assumes "seen es n 0 value_type s" and "at_before es 0 (d_iter s)" and "n \<le> length es"
  shows "found_backward es n value_type s"
proof (cases "value_type = kTypeDeletion")
  case True
  with assms show ?thesis by (auto simp: seen_def found_backward_def at_before_def)
next
  case False
  with assms(1) obtain c where c: "c < n" "visible (d_sequence s) (es ! c)" "ExtractValueType (fst (es ! c)) = kTypeValue"
      "d_saved_key s = uk es c" "d_saved_value s = snd (es ! c)" "\<forall>j. 0 \<le> j \<and> j < c \<longrightarrow> \<not> visible (d_sequence s) (es ! j)"
      "\<forall>j. c < j \<and> j < n \<longrightarrow> \<not> live (d_sequence s) es j"
    unfolding seen_def by blast
  then have "saved_at es c s" using assms(2,3) by (auto simp: saved_at_def live_def)
  with c False show ?thesis by (auto simp: found_backward_def)
qed

lemma seen_break:
  assumes es: "internal_entries C key es" and "seen es n (Suc m) value_type s" and "value_type \<noteq> kTypeDeletion"
    and at: "at_before es (Suc m) (d_iter s)" and n: "n \<le> length es" and less: "Compare C (uk es m) (d_saved_key s) < 0"
  shows "found_backward es n value_type s"
proof -
  from assms(2,3) obtain c where c: "Suc m \<le> c" "c < n" "visible (d_sequence s) (es ! c)" "ExtractValueType (fst (es ! c)) = kTypeValue"
      "d_saved_key s = uk es c" "d_saved_value s = snd (es ! c)" "\<forall>j. Suc m \<le> j \<and> j < c \<longrightarrow> \<not> visible (d_sequence s) (es ! j)"
      "\<forall>j. c < j \<and> j < n \<longrightarrow> \<not> live (d_sequence s) es j"
    unfolding seen_def by blast
  have m: "m < length es" using at by (simp add: at_before_def)
  have "uk es j \<noteq> uk es c" if "j < c" "visible (d_sequence s) (es ! j)" for j
  proof
    assume eq: "uk es j = uk es c"
    have "j \<le> m" using c(7) that by (meson not_less_eq_eq)
    then have "Compare C (uk es c) (uk es m) \<le> 0" using entries_le [OF es _ m] eq by metis
    moreover have "Compare C (uk es m) (uk es c) < 0" using less c(5) by simp
    ultimately show False using not_less [of "uk es m" "uk es c"] entries_key [OF es] m c(2) n by simp
  qed
  then have "live (d_sequence s) es c" using c(3,4) by (simp add: live_def)
  then have "saved_at es c s" using c less at n by (auto simp: saved_at_def intro!: exI [of _ "Suc m"])
  with c(2,8) assms(3) show ?thesis by (auto simp: found_backward_def)
qed

lemma pass_prev_cases:
  assumes "pass_prev C (Some p) k v value_type s = Some (value_type', s')"
  shows "\<not> sequence p \<le> d_sequence s \<and> value_type' = value_type \<and> s' = s \<or>
    sequence p \<le> d_sequence s \<and> (value_type = kTypeDeletion \<or> \<not> Compare C (user_key p) (d_saved_key s) < 0) \<and> value_type' = type p \<and>
      (type p = kTypeDeletion \<and> s' = s\<lparr>d_saved_key := [], d_saved_value := []\<rparr> \<or>
       type p \<noteq> kTypeDeletion \<and> s' = s\<lparr>d_saved_key := ExtractUserKey k, d_saved_value := v\<rparr>)"
  using assms by (auto simp: pass_prev_def split: if_splits)

lemma seen_older:
  assumes es: "internal_entries C key es" and seen: "seen es n (Suc m) value_type s" and n: "n \<le> length es"
    and m: "visible (d_sequence s) (es ! m)" and vt: "value_type = kTypeDeletion \<or> \<not> Compare C (uk es m) (d_saved_key s) < 0"
    and j: "m < j" "j < n"
  shows "\<not> live (d_sequence s) es j"
proof (cases "value_type = kTypeDeletion")
  case True
  with seen j show ?thesis by (auto simp: seen_def)
next
  case False
  with seen obtain c where c: "Suc m \<le> c" "c < n" "d_saved_key s = uk es c" "\<forall>j. Suc m \<le> j \<and> j < c \<longrightarrow> \<not> visible (d_sequence s) (es ! j)"
      "\<forall>j. c < j \<and> j < n \<longrightarrow> \<not> live (d_sequence s) es j"
    unfolding seen_def by blast
  have k: "key (uk es m)" "key (uk es c)" using entries_key [OF es] c(1,2) n by simp_all
  have "Compare C (uk es c) (uk es m) \<le> 0" using vt False c(3) not_less [OF k] by simp
  then have "uk es c = uk es m" using entries_eq [OF es, of m c] c(1,2) n by simp
  then have "\<not> live (d_sequence s) es c" using m c(1) by (auto simp: live_def Suc_le_eq)
  moreover have "\<not> live (d_sequence s) es j" if "j < c" using c(4) j(1) that by (auto simp: live_def)
  ultimately show ?thesis using c(5) j(2) by (cases j c rule: linorder_cases) auto
qed

lemma seen_step:
  assumes es: "internal_entries C key es" and seen: "seen es n (Suc m) value_type s" and n: "n \<le> length es" and m: "m < n"
    and p: "ParseInternalKey (fst (es ! m)) = Some p"
    and pass: "pass_prev C (Some p) (fst (es ! m)) (snd (es ! m)) value_type s = Some (value_type', s')"
  shows "seen es n m value_type' s'"
proof -
  note f = parsed_facts [OF es less_le_trans [OF m n] p]
  note older = seen_older [OF es seen n]
  from pass_prev_cases [OF pass] f(1,3) consider
      (hidden) "\<not> visible (d_sequence s) (es ! m)" "value_type' = value_type" "s' = s"
    | (deleted) "visible (d_sequence s) (es ! m)" "value_type = kTypeDeletion \<or> \<not> Compare C (uk es m) (d_saved_key s) < 0"
        "type p = kTypeDeletion" "value_type' = type p" "s' = s\<lparr>d_saved_key := [], d_saved_value := []\<rparr>"
    | (saved) "visible (d_sequence s) (es ! m)" "value_type = kTypeDeletion \<or> \<not> Compare C (uk es m) (d_saved_key s) < 0"
        "type p \<noteq> kTypeDeletion" "value_type' = type p" "s' = s\<lparr>d_saved_key := uk es m, d_saved_value := snd (es ! m)\<rparr>"
    by auto
  then show ?thesis
  proof cases
    case hidden
    have no: "\<not> visible (d_sequence s) (es ! j)" if "m \<le> j" "j < c" "\<forall>j. Suc m \<le> j \<and> j < c \<longrightarrow> \<not> visible (d_sequence s) (es ! j)" for j c
      using that hidden(1) by (cases "j = m") auto
    show ?thesis
    proof (cases "value_type = kTypeDeletion")
      case True
      have "\<not> live (d_sequence s) es j" if "m \<le> j" "j < n" for j
        using that hidden(1) seen True by (cases "j = m") (auto simp: live_def seen_def)
      then show ?thesis using hidden True by (simp add: seen_def)
    next
      case False
      with seen obtain c where c: "value_type = kTypeValue" "Suc m \<le> c" "c < n" "visible (d_sequence s) (es ! c)"
          "ExtractValueType (fst (es ! c)) = kTypeValue" "d_saved_key s = uk es c" "d_saved_value s = snd (es ! c)"
          "\<forall>j. Suc m \<le> j \<and> j < c \<longrightarrow> \<not> visible (d_sequence s) (es ! j)" "\<forall>j. c < j \<and> j < n \<longrightarrow> \<not> live (d_sequence s) es j"
        unfolding seen_def by blast
      then show ?thesis using no [OF _ _ c(8)] unfolding seen_def hidden(2,3) by (intro disjI2 conjI exI [of _ c]) auto
    qed
  next
    case deleted
    have "\<not> live (d_sequence s) es j" if "m \<le> j" "j < n" for j
      using that older [OF deleted(1,2)] deleted(3) f(4) by (cases "j = m") (auto simp: live_def)
    then show ?thesis using deleted by (simp add: seen_def)
  next
    case saved
    then have "type p = kTypeValue" using f(5) by simp
    then show ?thesis using saved older [OF saved(1,2)] f(4) m unfolding seen_def by (auto intro!: exI [of _ m])
  qed
qed

lemma prev_entries_at:
  assumes es: "internal_entries C key es" and "at_before es m (d_iter s)" and "quiet s" and "seen es n m value_type s" and "m \<le> n" and "n \<le> length es"
  shows "\<exists>vt s'. prev_entries I C value_type s = Some (vt, s') \<and> quiet s' \<and> d_sequence s' = d_sequence s \<and>
    d_direction s' = d_direction s \<and> found_backward es n vt s'"
  using assms(2-)
proof (induction m arbitrary: s value_type)
  case 0
  have "prev_entries I C value_type s = Some (value_type, s)"
    using at_before_Valid [OF 0(1)] by (subst prev_entries.simps) simp
  with seen_end [OF 0(3,1,5)] 0(2) show ?case by simp
next
  case (Suc m)
  from at_before_at [OF Suc.prems(1)] have at: "at es m (d_iter s)" and m: "m < length es" by simp_all
  from ParseKey_at [OF es at m Suc.prems(2)] obtain p s1 where
    s1: "ParseKey I s = Some (Some p, s1)" "ParseInternalKey (fst (es ! m)) = Some p" "same_position s s1" "quiet s1" by blast
  note same = same_positionD [OF s1(3)] and p = parsed_facts [OF es m s1(2)]
  have seen1: "seen es n (Suc m) value_type s1" using Suc.prems(3) same by (simp add: seen_def)
  have step: "prev_entries I C value_type s =
      (case pass_prev C (Some p) (fst (es ! m)) (snd (es ! m)) value_type s1 of
         None \<Rightarrow> Some (value_type, s1)
       | Some (value_type, s) \<Rightarrow>
           Option.bind (it_Prev I (d_iter s)) (\<lambda>iter. prev_entries I C value_type (s\<lparr>d_iter := iter\<rparr>)))"
    using at_before_Valid [OF Suc.prems(1)] inner.key_now [OF at m] inner.value_now [OF at m] s1(1)
    by (subst prev_entries.simps) simp
  show ?case
  proof (cases "pass_prev C (Some p) (fst (es ! m)) (snd (es ! m)) value_type s1")
    case None
    then have "value_type \<noteq> kTypeDeletion" "Compare C (uk es m) (d_saved_key s1) < 0"
      using p(1) by (auto simp: pass_prev_def split: if_splits)
    with seen_break [OF es seen1 _ _ Suc.prems(5)] Suc.prems(1) same have "found_backward es n value_type s1" by simp
    then show ?thesis using step None s1(4) same by simp
  next
    case (Some pass)
    then obtain value_type' s2 where pass: "pass_prev C (Some p) (fst (es ! m)) (snd (es ! m)) value_type s1 = Some (value_type', s2)"
      by (cases pass) auto
    from Suc.prems(4) have mn: "m < n" by simp
    from pass_prev_cases [OF pass] have s2: "d_iter s2 = d_iter s" "d_sequence s2 = d_sequence s" "d_direction s2 = d_direction s" "quiet s2"
      using same s1(4) by auto
    from Prev_before [OF at m] obtain iter where iter: "it_Prev I (d_iter s) = Some iter" "at_before es m iter" by blast
    have "seen es n m value_type' (s2\<lparr>d_iter := iter\<rparr>)"
      using seen_step [OF es seen1 Suc.prems(5) mn s1(2) pass] by (simp add: seen_def)
    with Suc.IH [of "s2\<lparr>d_iter := iter\<rparr>" value_type'] iter(2) s2 mn Suc.prems(5) show ?thesis
      unfolding step pass by (simp add: iter(1))
  qed
qed

lemma FindPrevUserEntry_at:
  assumes es: "internal_entries C key es" and "at_before es n (d_iter s)" and "quiet s" and "d_direction s = kReverse"
  shows "\<exists>s'. FindPrevUserEntry I C s = Some s' \<and> quiet s' \<and> d_sequence s' = d_sequence s \<and>
    (if d_valid s' then d_direction s' = kReverse \<and> (\<exists>c < n. saved_at es c s' \<and> (\<forall>j. c < j \<and> j < n \<longrightarrow> \<not> live (d_sequence s) es j))
     else (\<forall>j < n. \<not> live (d_sequence s) es j) \<and> (\<exists>i. at es i (d_iter s')))"
proof -
  have n: "n \<le> length es" using assms(2) by (simp add: at_before_def)
  have "seen es n n kTypeDeletion s" by (auto simp: seen_def)
  from prev_entries_at [OF es assms(2,3) this order_refl n] obtain vt s' where
    s': "prev_entries I C kTypeDeletion s = Some (vt, s')" "quiet s'" "d_sequence s' = d_sequence s" "d_direction s' = kReverse"
      "found_backward es n vt s'" using assms(4) by auto
  then show ?thesis using assms(4) by (auto simp: FindPrevUserEntry_def found_backward_def saved_at_def)
qed

lemma leave_key_at:
  assumes "at es i iter" and "i < length es"
  shows "\<exists>m \<le> i. \<exists>iter'. leave_key I C k iter = Some (0 < m, iter') \<and> at_before es m iter' \<and>
    (0 < m \<longrightarrow> Compare C (uk es (m - 1)) k < 0) \<and> (\<forall>j. m \<le> j \<and> j < i \<longrightarrow> \<not> Compare C (uk es j) k < 0)"
  using assms
proof (induction i arbitrary: iter)
  case 0
  from Prev_before [OF 0] obtain iter' where iter': "it_Prev I iter = Some iter'" "at_before es 0 iter'" by blast
  then have "leave_key I C k iter = Some (False, iter')" using at_before_Valid [OF iter'(2)] by (subst leave_key.simps) simp
  with iter' show ?case by auto
next
  case (Suc i)
  from Prev_before [OF Suc.prems] obtain iter' where iter': "it_Prev I iter = Some iter'" "at_before es (Suc i) iter'" by blast
  note at = at_before_at [OF iter'(2)]
  have step: "leave_key I C k iter = (if Compare C (uk es i) k < 0 then Some (True, iter') else leave_key I C k iter')"
    using iter'(1) at_before_Valid [OF iter'(2)] inner.key_now [OF conjunct1 [OF at] conjunct2 [OF at]]
    by (subst leave_key.simps) simp
  show ?case
  proof (cases "Compare C (uk es i) k < 0")
    case True
    with step iter'(2) show ?thesis by (intro exI [of _ "Suc i"] conjI exI [of _ iter']) auto
  next
    case False
    from Suc.IH [of iter'] at obtain m iter2 where m: "m \<le> i" "leave_key I C k iter' = Some (0 < m, iter2)" "at_before es m iter2"
        "0 < m \<longrightarrow> Compare C (uk es (m - 1)) k < 0" "\<forall>j. m \<le> j \<and> j < i \<longrightarrow> \<not> Compare C (uk es j) k < 0" by blast
    then show ?thesis using step False by (intro exI [of _ m] conjI exI [of _ iter2]) (auto simp: less_Suc_eq)
  qed
qed

section \<open>The operations\<close>

definition db_at :: "entry list \<Rightarrow> nat \<Rightarrow> 's DBIter \<Rightarrow> bool" where
  "db_at vs p s \<longleftrightarrow> (\<exists>es. internal_entries C key es \<and> vs = snapshot (d_sequence s) es \<and> quiet s \<and> (\<exists>i. at es i (d_iter s)) \<and>
     (if d_valid s
      then \<exists>c < length es. live (d_sequence s) es c \<and> p = live_before (d_sequence s) es c \<and>
        (if d_direction s = kForward then at es c (d_iter s) else saved_at es c s)
      else p = length vs))"

lemma found_forward_at:
  assumes es: "internal_entries C key es" and "quiet s" and "d_direction s = kForward" and "found_forward es b i s"
    and "\<And>c. i \<le> c \<Longrightarrow> c \<le> length es \<Longrightarrow> (\<forall>j. i \<le> j \<and> j < c \<longrightarrow> live (d_sequence s) es j \<longrightarrow> b = Some (uk es j)) \<Longrightarrow>
      (c < length es \<Longrightarrow> live (d_sequence s) es c \<and> b \<noteq> Some (uk es c)) \<Longrightarrow> live_before (d_sequence s) es c = p"
  shows "db_at (snapshot (d_sequence s) es) p s"
proof -
  from assms(4) obtain c where c: "i \<le> c" "at es c (d_iter s)"
      "if d_valid s then c < length es \<and> live (d_sequence s) es c \<and> b \<noteq> Some (uk es c) else c = length es"
      "\<forall>j. i \<le> j \<and> j < c \<longrightarrow> live (d_sequence s) es j \<longrightarrow> b = Some (uk es j)"
    unfolding found_forward_def by blast
  have "live_before (d_sequence s) es c = p"
    using c by (intro assms(5) inner.within [OF c(2)]) (auto split: if_splits)
  with c es assms(2,3) show ?thesis unfolding db_at_def
    by (intro exI [of _ es] conjI) (auto simp: length_snapshot entries_distinct split: if_splits)
qed

lemma find_first_at:
  assumes es: "internal_entries C key es" and at: "at es i (d_iter s)" and s: "quiet s" "d_direction s = kForward"
    and fresh: "\<And>j j'. i \<le> j \<Longrightarrow> j < length es \<Longrightarrow> visible (d_sequence s) (es ! j) \<Longrightarrow> j' < i \<Longrightarrow>
      visible (d_sequence s) (es ! j') \<Longrightarrow> uk es j' \<noteq> uk es j"
  shows "\<exists>s'. find_first I C s = Some s' \<and> d_sequence s' = d_sequence s \<and>
    db_at (snapshot (d_sequence s) es) (live_before (d_sequence s) es i) s'"
proof (cases "i < length es")
  case True
  have "\<exists>s'. FindNextUserEntry I C False s = Some s' \<and> quiet s' \<and> d_sequence s' = d_sequence s \<and>
      d_direction s' = kForward \<and> found_forward es None i s'"
    using True fresh by (intro FindNext_at es at s) auto
  then obtain s' where s': "FindNextUserEntry I C False s = Some s'" "quiet s'" "d_sequence s' = d_sequence s"
      "d_direction s' = kForward" "found_forward es None i s'" by blast
  from found_forward_at [OF es s'(2,4,5), of "live_before (d_sequence s) es i"]
  have "db_at (snapshot (d_sequence s) es) (live_before (d_sequence s) es i) s'"
    unfolding s'(3) by (simp add: live_before_skip)
  with s'(1,3) True inner.Valid [OF at] show ?thesis by (simp add: find_first_def)
next
  case False
  then have "i = length es" using inner.within [OF at] by simp
  with es at s inner.Valid [OF at] show ?thesis
    unfolding db_at_def find_first_def by (auto simp: length_snapshot entries_distinct)
qed

text \<open>Going on behind the entry \<open>c\<close>, from where nothing in between is seen.\<close>

lemma next_from:
  assumes es: "internal_entries C key es" and at: "at es m (d_iter s)" and m: "m \<le> c" "c < length es"
    and s: "quiet s" "d_direction s = kForward" "d_saved_key s = uk es c" and c: "live (d_sequence s) es c"
    and none: "\<forall>j. m \<le> j \<and> j < c \<longrightarrow> \<not> visible (d_sequence s) (es ! j)"
  shows "\<exists>s'. FindNextUserEntry I C True s = Some s' \<and> d_sequence s' = d_sequence s \<and>
    db_at (snapshot (d_sequence s) es) (live_before (d_sequence s) es c + 1) s'"
proof -
  have from_c: "c \<le> j" if "m \<le> j" "visible (d_sequence s) (es ! j)" for j
    using none that by (meson linorder_not_le)
  have same: "Compare C (uk es j) (uk es c) \<le> 0 \<longleftrightarrow> uk es c = uk es j" if "c \<le> j" "j < length es" for j
    using entries_eq [OF es that] entries_key [OF es that(2)] by auto
  have between: "uk es c = uk es j" if "j' < m" "c \<le> j" "j < length es" "uk es j' = uk es j" for j j'
    using entries_le [OF es, of j' c] that m same by simp
  have "\<exists>s'. FindNextUserEntry I C True s = Some s' \<and> quiet s' \<and> d_sequence s' = d_sequence s \<and>
      d_direction s' = kForward \<and> found_forward es (Some (uk es c)) m s'"
  proof (intro FindNext_at es at s(1,2) allI impI)
    show "m < length es" using m by simp
    fix j
    assume j: "m \<le> j \<and> j < length es \<and> visible (d_sequence s) (es ! j)"
    then have "c \<le> j" using from_c by blast
    with j between same show "(True \<and> Compare C (uk es j) (d_saved_key s) \<le> 0) =
      (Some (uk es c) = Some (uk es j) \<or> (\<exists>j' < m. visible (d_sequence s) (es ! j') \<and> uk es j' = uk es j))" unfolding s(3) by auto
  next
    fix j k
    assume j: "m \<le> j \<and> j < length es \<and> visible (d_sequence s) (es ! j) \<and> Some (uk es c) = Some k"
    then have "c \<le> j" using from_c by blast
    with j entries_le [OF es, of c j] show "Compare C k (uk es j) \<le> 0" by auto
  qed
  then obtain s' where s': "FindNextUserEntry I C True s = Some s'" "quiet s'" "d_sequence s' = d_sequence s"
      "d_direction s' = kForward" "found_forward es (Some (uk es c)) m s'" by blast
  have "live_before (d_sequence s) es c' = live_before (d_sequence s) es c + 1"
    if c': "m \<le> c'" "c' \<le> length es" "\<forall>j. m \<le> j \<and> j < c' \<longrightarrow> live (d_sequence s) es j \<longrightarrow> Some (uk es c) = Some (uk es j)"
      "c' < length es \<Longrightarrow> live (d_sequence s) es c' \<and> Some (uk es c) \<noteq> Some (uk es c')" for c'
  proof -
    have "c < c'"
    proof (rule ccontr)
      assume "\<not> c < c'"
      then have "c' < length es" using m by simp
      with c'(4) from_c [OF c'(1)] \<open>\<not> c < c'\<close> show False by (auto simp: live_def)
    qed
    moreover have "\<not> live (d_sequence s) es j" if "c < j" "j < c'" for j
    proof
      assume live: "live (d_sequence s) es j"
      then have "uk es c = uk es j" using c'(3) that m(1) by simp
      with live c that(1) show False by (auto simp: live_def)
    qed
    ultimately show ?thesis using live_before_next [OF c] by simp
  qed
  with found_forward_at [OF es s'(2,4,5)] s'(1,3) show ?thesis by simp
qed

text \<open>Going on before the entry \<open>c\<close>, or from the end.\<close>

lemma prev_from:
  assumes es: "internal_entries C key es" and at: "at_before es m (d_iter s)" and m: "m \<le> c" "c \<le> length es"
    and s: "quiet s" "d_direction s = kReverse" and none: "\<forall>j. m \<le> j \<and> j < c \<longrightarrow> \<not> live (d_sequence s) es j"
  shows "\<exists>s'. FindPrevUserEntry I C s = Some s' \<and> d_sequence s' = d_sequence s \<and>
    db_at (snapshot (d_sequence s) es)
      (if live_before (d_sequence s) es c = 0 then length (snapshot (d_sequence s) es) else live_before (d_sequence s) es c - 1) s'"
proof -
  from FindPrevUserEntry_at [OF es at s] obtain s' where s': "FindPrevUserEntry I C s = Some s'" "quiet s'" "d_sequence s' = d_sequence s"
    and found: "if d_valid s' then d_direction s' = kReverse \<and> (\<exists>c < m. saved_at es c s' \<and> (\<forall>j. c < j \<and> j < m \<longrightarrow> \<not> live (d_sequence s) es j))
       else (\<forall>j < m. \<not> live (d_sequence s) es j) \<and> (\<exists>i. at es i (d_iter s'))" by blast
  show ?thesis
  proof (cases "d_valid s'")
    case False
    with found have "live_before (d_sequence s) es c = 0"
      using live_before_skip [of 0 c "d_sequence s" es] none by (metis linorder_not_le live_before_0 zero_le)
    with False found s' es show ?thesis by (auto simp: db_at_def)
  next
    case True
    with found obtain c' where c': "c' < m" "saved_at es c' s'" "\<forall>j. c' < j \<and> j < m \<longrightarrow> \<not> live (d_sequence s) es j"
      and d: "d_direction s' = kReverse" by auto
    then have live: "live (d_sequence s) es c'" "c' < length es" using s'(3) by (simp_all add: saved_at_def)
    have "live_before (d_sequence s) es c = Suc (live_before (d_sequence s) es c')"
      using c' m none by (intro live_before_next live(1)) (auto simp: linorder_not_le, metis linorder_not_le)
    moreover have "\<exists>i. at es i (d_iter s')" using c'(2) by (auto simp: saved_at_def at_before_def)
    ultimately have "db_at (snapshot (d_sequence s) es) (live_before (d_sequence s) es c - 1) s'"
      unfolding db_at_def s'(3) using es s'(2) True d c'(2) live by (intro exI [of _ es]) auto
    with s'(1,3) \<open>live_before _ _ c = _\<close> show ?thesis by simp
  qed
qed

lemma db_atE:
  assumes "db_at vs p s" and "d_valid s"
  obtains es c where "internal_entries C key es" and "vs = snapshot (d_sequence s) es" and "quiet s" and "c < length es"
    and "live (d_sequence s) es c" and "p = live_before (d_sequence s) es c"
    and "if d_direction s = kForward then at es c (d_iter s) else saved_at es c s"
  using assms unfolding db_at_def by auto

lemma db_at_any:
  assumes "db_at vs p s"
  obtains es i where "internal_entries C key es" and "vs = snapshot (d_sequence s) es" and "quiet s" and "at es i (d_iter s)"
  using assms unfolding db_at_def by blast

lemma saved_atD:
  assumes "saved_at es c s"
  obtains m where "m \<le> c" and "at_before es m (d_iter s)" and "\<forall>j. m \<le> j \<and> j < c \<longrightarrow> \<not> visible (d_sequence s) (es ! j)"
    and "d_saved_key s = uk es c" and "d_saved_value s = snd (es ! c)"
  using assms unfolding saved_at_def by blast

lemma DBIter_Next_at:
  assumes "db_at vs p s" and "d_valid s"
  shows "\<exists>s'. DBIter_Next I C s = Some s' \<and> db_at vs (p + 1) s'"
proof -
  from db_atE [OF assms] obtain es c where es: "internal_entries C key es" and vs: "vs = snapshot (d_sequence s) es" and q: "quiet s"
    and c: "c < length es" "live (d_sequence s) es c" and p: "p = live_before (d_sequence s) es c"
    and now: "if d_direction s = kForward then at es c (d_iter s) else saved_at es c s" by blast
  show ?thesis
  proof (cases "d_direction s")
    case kForward
    with now have at: "at es c (d_iter s)" by simp
    have "\<forall>j. c \<le> j \<and> j < c \<longrightarrow> \<not> visible (d_sequence s) (es ! j)" by auto
    with next_from [OF es, of c "s\<lparr>d_saved_key := uk es c\<rparr>" c] at c q kForward show ?thesis
      using inner.key_now [OF at c(1)] assms(2) by (auto simp: DBIter_Next_def vs p)
  next
    case kReverse
    with now have "saved_at es c s" by simp
    from saved_atD [OF this] obtain m where m: "m \<le> c" "at_before es m (d_iter s)" "d_saved_key s = uk es c"
      "\<forall>j. m \<le> j \<and> j < c \<longrightarrow> \<not> visible (d_sequence s) (es ! j)" by blast
    have "\<exists>iter. (if it_Valid I (d_iter s) then it_Next I (d_iter s) else it_SeekToFirst I (d_iter s)) = Some iter \<and> at es m iter"
    proof (cases m)
      case 0
      with m(2) have "at es (length es) (d_iter s)" "\<not> it_Valid I (d_iter s)" using at_before_Valid [OF m(2)] by (simp_all add: at_before_def)
      with inner.SeekToFirst [OF this(1)] 0 show ?thesis by simp
    next
      case (Suc m')
      with m(2) have "at es m' (d_iter s)" "m' < length es" "it_Valid I (d_iter s)" using at_before_Valid [OF m(2)] by (simp_all add: at_before_def)
      with inner.Next [OF this(1,2)] Suc show ?thesis by simp
    qed
    then obtain iter where iter: "(if it_Valid I (d_iter s) then it_Next I (d_iter s) else it_SeekToFirst I (d_iter s)) = Some iter" "at es m iter"
      by blast
    have "it_Valid I iter" using inner.Valid [OF iter(2)] m(1) c(1) by simp
    with next_from [OF es, of m "s\<lparr>d_direction := kForward, d_iter := iter\<rparr>" c] iter m c q kReverse show ?thesis
      using assms(2) by (auto simp: DBIter_Next_def Let_def vs p)
  qed
qed

lemma DBIter_Prev_at:
  assumes "db_at vs p s" and "d_valid s"
  shows "\<exists>s'. DBIter_Prev I C s = Some s' \<and> db_at vs (if p = 0 then length vs else p - 1) s'"
proof -
  from db_atE [OF assms] obtain es c where es: "internal_entries C key es" and vs: "vs = snapshot (d_sequence s) es" and q: "quiet s"
    and c: "c < length es" "live (d_sequence s) es c" and p: "p = live_before (d_sequence s) es c"
    and now: "if d_direction s = kForward then at es c (d_iter s) else saved_at es c s" by blast
  show ?thesis
  proof (cases "d_direction s")
    case kReverse
    with now have "saved_at es c s" by simp
    from saved_atD [OF this] obtain m where m: "m \<le> c" "at_before es m (d_iter s)"
      "\<forall>j. m \<le> j \<and> j < c \<longrightarrow> \<not> visible (d_sequence s) (es ! j)" by blast
    from m(3) have "\<forall>j. m \<le> j \<and> j < c \<longrightarrow> \<not> live (d_sequence s) es j" by (auto simp: live_def)
    with prev_from [OF es m(2,1)] c q kReverse show ?thesis using assms(2) by (auto simp: DBIter_Prev_def vs p)
  next
    case kForward
    with now have at: "at es c (d_iter s)" by simp
    from leave_key_at [OF at c(1), of "uk es c"] obtain m iter where m: "m \<le> c" "leave_key I C (uk es c) (d_iter s) = Some (0 < m, iter)"
        "at_before es m iter" "\<forall>j. m \<le> j \<and> j < c \<longrightarrow> \<not> Compare C (uk es j) (uk es c) < 0" by blast
    have none: "\<forall>j. m \<le> j \<and> j < c \<longrightarrow> \<not> live (d_sequence s) es j"
    proof (intro allI impI)
      fix j
      assume j: "m \<le> j \<and> j < c"
      then have "Compare C (uk es c) (uk es j) \<le> 0" using m(4) not_less entries_key [OF es] c(1) by simp
      then have "uk es c = uk es j" using entries_eq [OF es, of j c] j c(1) by simp
      then show "\<not> live (d_sequence s) es j" using c(2) j by (auto simp: live_def)
    qed
    show ?thesis
    proof (cases "0 < m")
      case True
      with prev_from [OF es, of m "s\<lparr>d_saved_key := uk es c, d_iter := iter, d_direction := kReverse\<rparr>" c] m(1-3) none c q kForward
      show ?thesis using inner.key_now [OF at c(1)] assms(2) by (auto simp: DBIter_Prev_def Let_def vs p)
    next
      case False
      then have "p = 0" using none live_before_skip [of 0 c "d_sequence s" es] by (simp add: p)
      moreover have "\<exists>i. at es i iter" using m(3) by (auto simp: at_before_def)
      ultimately show ?thesis using inner.key_now [OF at c(1)] assms(2) kForward m(2) False es q
        by (auto simp: DBIter_Prev_def Let_def vs db_at_def)
    qed
  qed
qed

lemma DBIter_SeekToFirst_at:
  assumes "db_at vs p s"
  shows "\<exists>s'. DBIter_SeekToFirst I C s = Some s' \<and> db_at vs 0 s'"
proof -
  from db_at_any [OF assms] obtain es i where es: "internal_entries C key es" and vs: "vs = snapshot (d_sequence s) es" and q: "quiet s"
    and at: "at es i (d_iter s)" by blast
  from inner.SeekToFirst [OF at] obtain iter where "it_SeekToFirst I (d_iter s) = Some iter" "at es 0 iter" by blast
  with find_first_at [OF es, of 0 "s\<lparr>d_direction := kForward, d_saved_value := [], d_iter := iter\<rparr>"] q show ?thesis
    by (auto simp: DBIter_SeekToFirst_def Let_def vs)
qed

lemma DBIter_SeekToLast_at:
  assumes "db_at vs p s"
  shows "\<exists>s'. DBIter_SeekToLast I C s = Some s' \<and> db_at vs (length vs - 1) s'"
proof -
  from db_at_any [OF assms] obtain es i where es: "internal_entries C key es" and vs: "vs = snapshot (d_sequence s) es" and q: "quiet s"
    and at: "at es i (d_iter s)" by blast
  from inner.SeekToLast [OF at] obtain iter where iter: "it_SeekToLast I (d_iter s) = Some iter" "at es (length es - 1) iter" by blast
  then have "at_before es (length es) iter" by (cases es) (simp_all add: at_before_def)
  moreover have "\<forall>j. length es \<le> j \<and> j < length es \<longrightarrow> \<not> live (d_sequence s) es j" by auto
  ultimately show ?thesis using prev_from [OF es, of "length es" "s\<lparr>d_direction := kReverse, d_saved_value := [], d_iter := iter\<rparr>" "length es"] q iter(1)
    by (auto simp: DBIter_SeekToLast_def Let_def vs length_snapshot entries_distinct [OF es] split: if_splits)
qed

lemma DBIter_Seek_at:
  assumes "db_at vs p s" and t: "key t"
  shows "\<exists>s'. DBIter_Seek I C t s = Some s' \<and> db_at vs (seek_index (Compare C) t vs) s'"
proof -
  from db_at_any [OF assms(1)] obtain es i where es: "internal_entries C key es" and vs: "vs = snapshot (d_sequence s) es" and q: "quiet s"
    and at: "at es i (d_iter s)" by blast
  let ?k = "t @ Fixed64 (PackSequenceAndType (d_sequence s) kTypeValue)"
  let ?i = "seek_index (Compare (InternalKeyComparator C)) ?k es"
  have k: "AppendInternalKey [] \<lparr>user_key = t, sequence = d_sequence s, type = kValueTypeForSeek\<rparr> = ?k"
    by (simp add: AppendInternalKey_eq kValueTypeForSeek_def)
  have "unat (d_sequence s) < 2 ^ 56" using q by (simp add: quiet_def)
  note seek = seek_visible [OF es t this]
  have i: "?i \<le> length es" by (rule seek_index_le)
  then have "[0..<length es] = [0..<?i] @ [?i..<length es]" by (metis upt_add_eq_append le_add_diff_inverse zero_le)
  then have split: "vs = map (\<lambda>j. (uk es j, snd (es ! j))) (filter (live (d_sequence s) es) [0..<?i]) @
      map (\<lambda>j. (uk es j, snd (es ! j))) (filter (live (d_sequence s) es) [?i..<length es])"
    by (simp add: vs snapshot_live [OF entries_distinct [OF es]])
  have "Compare C (uk es j) t < 0" if "j < ?i" "live (d_sequence s) es j" for j
    using seek [of j] that i by (simp add: live_def)
  moreover have "\<not> Compare C (uk es j) t < 0" if "?i \<le> j" "j < length es" "live (d_sequence s) es j" for j
    using seek [of j] that by (simp add: live_def)
  ultimately have "seek_index (Compare C) t vs = live_before (d_sequence s) es ?i"
    unfolding split by (subst seek_index_split) (auto simp: live_before_def)
  moreover have "ikey ?k" using t by simp
  from inner.Seek [OF at this] obtain iter where "it_Seek I ?k (d_iter s) = Some iter" "at es ?i iter" by blast
  moreover have "uk es j' \<noteq> uk es j" if "?i \<le> j" "j < length es" "visible (d_sequence s) (es ! j)" "j' < ?i" "visible (d_sequence s) (es ! j')" for j j'
    using seek [of j] seek [of j'] that by auto
  ultimately show ?thesis
    using find_first_at [OF es, of ?i "s\<lparr>d_direction := kForward, d_saved_value := [], d_saved_key := ?k, d_iter := iter\<rparr>"] q
    by (auto simp: DBIter_Seek_def Let_def vs k)
qed

lemma db_iterator_correct: "iterator (db_iterator I C) (Compare C) key db_at"
proof unfold_locales
  fix vs p s
  assume db: "db_at vs p s"
  show p: "p \<le> length vs" using db by (cases "d_valid s") (auto simp: db_at_def dest: snapshot_nth [OF entries_distinct] intro: less_imp_le)
  show v: "it_Valid (db_iterator I C) s \<longleftrightarrow> p < length vs"
    using db by (cases "d_valid s") (auto simp: db_at_def db_iterator_def dest: snapshot_nth [OF entries_distinct])
  show "it_status (db_iterator I C) s = Status_OK"
    using db by (auto simp: db_at_def db_iterator_def DBIter_get_status_def quiet_def inner.status_now)
  show "\<exists>s'. it_SeekToFirst (db_iterator I C) s = Some s' \<and> db_at vs 0 s'"
    using DBIter_SeekToFirst_at [OF db] by (simp add: db_iterator_def)
  show "\<exists>s'. it_SeekToLast (db_iterator I C) s = Some s' \<and> db_at vs (length vs - 1) s'"
    using DBIter_SeekToLast_at [OF db] by (simp add: db_iterator_def)
  show "\<exists>s'. it_Seek (db_iterator I C) t s = Some s' \<and> db_at vs (seek_index (Compare C) t vs) s'" if "key t" for t
    using DBIter_Seek_at [OF db that] by (simp add: db_iterator_def)
  assume lt: "p < length vs"
  with v have valid: "d_valid s" by (simp add: db_iterator_def)
  from db_atE [OF db valid] obtain es c where es: "internal_entries C key es" and vs: "vs = snapshot (d_sequence s) es"
    and c: "c < length es" "live (d_sequence s) es c" and p': "p = live_before (d_sequence s) es c"
    and now: "if d_direction s = kForward then at es c (d_iter s) else saved_at es c s" by blast
  have nth: "vs ! p = (uk es c, snd (es ! c))" using snapshot_nth(2) [OF entries_distinct [OF es] c(2,1)] by (simp add: vs p')
  show "it_key (db_iterator I C) s = Some (fst (vs ! p))"
    using now valid nth by (auto simp: db_iterator_def DBIter_key_def inner.key_now [OF _ c(1)] saved_at_def split: if_splits)
  show "it_value (db_iterator I C) s = Some (snd (vs ! p))"
    using now valid nth by (auto simp: db_iterator_def DBIter_value_def inner.value_now [OF _ c(1)] saved_at_def split: if_splits)
  show "\<exists>s'. it_Next (db_iterator I C) s = Some s' \<and> db_at vs (p + 1) s'"
    using DBIter_Next_at [OF db valid] by (simp add: db_iterator_def)
  show "\<exists>s'. it_Prev (db_iterator I C) s = Some s' \<and> db_at vs (if p = 0 then length vs else p - 1) s'"
    using DBIter_Prev_at [OF db valid] by (simp add: db_iterator_def)
qed

lemma NewDBIterator_at:
  assumes "internal_entries C key es" and "at es i iter" and "unat s < 2 ^ 56"
  shows "db_at (snapshot s es) (length (snapshot s es)) (NewDBIterator iter s seed)"
proof -
  obtain n rnd where r: "RandomPeriod (Random_new seed) = (n, rnd)" by fastforce
  from RandomPeriod_facts [OF good_seed_new r] r assms show ?thesis
    unfolding db_at_def by (auto simp: NewDBIterator_def quiet_def)
qed

end

sublocale db_iteration \<subseteq> users: iterator "db_iterator I C" "Compare C" key db_at
  by (rule db_iterator_correct)

text \<open>The database iterates over the merge of its tables.\<close>

interpretation merged_tables: db_iteration BytewiseComparator "\<lambda>_. True"
    "merging_iterator (two_level_iterator (block_iterator (InternalKeyComparator BytewiseComparator))
      (block_iterator (InternalKeyComparator BytewiseComparator)) bf) (Compare (InternalKeyComparator BytewiseComparator))"
    "merging_at (InternalKeyComparator BytewiseComparator) bytewise.ikey
      (two_level_at (InternalKeyComparator BytewiseComparator) bytewise.ikey
        (block_at (InternalKeyComparator BytewiseComparator) bytewise.ikey)
        (block_at (InternalKeyComparator BytewiseComparator) bytewise.ikey) bf)" for bf
  by (intro db_iteration.intro bytewise.comparator_axioms internal_tables.merged.iterator_axioms)

end
