(* ===== verification/Ldb_Table_Props.thy ===== *)
theory Ldb_Table_Props
  imports Ldb_FilterBlock Ldb_Merger_Spec Ldb_Format
begin

text \<open>
  Properties of the parts of table files: blocks, filters, and the iterators over several sources.
\<close>

section \<open>Blocks\<close>

definition build_block :: "Options \<Rightarrow> entry list \<Rightarrow> slice option" where
  "build_block options es =
     Option.bind (BlockBuilder_new options) (\<lambda>b.
     map_option (\<lambda>b. fst (BlockBuilder_Finish b)) (add_entries options es b))"

lemma build_block_at:
  assumes "comparator (o_comparator options) key" and "1 \<le> block_restart_interval options"
    and "sorted_entries (Compare (o_comparator options)) es"
    and "list_all (\<lambda>e. key (fst e) \<and> length (fst e) < 2 ^ 32) es"
  shows "\<exists>contents. build_block options es = Some contents \<and>
    (length contents < 2 ^ 32 \<longrightarrow>
      (\<exists>s. open_block contents = Some s \<and> block_at (o_comparator options) key es (length es) s))"
proof -
  note add = comparator.add_entries_built [OF assms(1)] and at = comparator.built_block_at [OF assms(1)]
  have "\<forall>e \<in> set ([] @ es). key (fst e)" using assms(4) by (simp add: list_all_iff)
  from add [OF built_Reset [OF assms(2)] HOL.refl _ this] assms(3) obtain b shs rs where
    b: "add_entries options es BlockBuilder_Reset = Some b" "built options shs rs es b" by auto
  have "build_block options es = Some (fst (BlockBuilder_Finish b))"
    using assms(2) b(1) by (simp add: build_block_def BlockBuilder_new_def)
  moreover have "\<exists>s. open_block (fst (BlockBuilder_Finish b)) = Some s \<and> block_at (o_comparator options) key es (length es) s"
    if "length (fst (BlockBuilder_Finish b)) < 2 ^ 32"
    using at [OF b(2) HOL.refl assms(3)] assms(4) that
    by (simp add: list_all_iff Finish_built [OF b(2)] CurrentSizeEstimate_built [OF b(2)])
  ultimately show ?thesis by blast
qed

text \<open>C28: a block gives back its entries. Whatever entries are added in ascending order of their
  keys, with any restart interval, the builder accepts them; and when the block is below 4 GB, its
  iterator is created and agrees with a cursor in the list of entries for every sequence of moves,
  seeks to any key among them.\<close>

theorem block_roundtrip:
  assumes "comparator (o_comparator options) key" and "1 \<le> block_restart_interval options"
    and "sorted_entries (Compare (o_comparator options)) es"
    and "list_all (\<lambda>e. key (fst e) \<and> length (fst e) < 2 ^ 32) es"
  shows "\<exists>contents. build_block options es = Some contents \<and>
    (length contents < 2 ^ 32 \<longrightarrow>
      (\<exists>s. open_block contents = Some s \<and>
        views (block_iterator (o_comparator options)) (Compare (o_comparator options)) key es (length es) s))"
  using build_block_at [OF assms] iterator.views_at [OF comparator.block_iterator_correct [OF assms(1)]] by blast

definition block_example :: "entry list" where
  "block_example = [([1], [7]), ([1, 2], []), ([1, 2, 3], [8, 9]), ([2], [7])]"

lemma block_roundtrip_witness:
  "\<exists>contents. build_block (Options_new\<lparr>block_restart_interval := 2\<rparr>) block_example = Some contents \<and>
    (length contents < 2 ^ 32 \<longrightarrow>
      (\<exists>s. open_block contents = Some s \<and>
        views (block_iterator BytewiseComparator) (Compare BytewiseComparator) (\<lambda>_. True) block_example 4 s))"
proof -
  have opts: "o_comparator (Options_new\<lparr>block_restart_interval := 2\<rparr>) = BytewiseComparator"
    "block_restart_interval (Options_new\<lparr>block_restart_interval := 2\<rparr>) = 2" by (simp_all add: Options_new_def)
  have "sorted_entries (Compare BytewiseComparator) block_example"
    by (simp add: block_example_def sorted_entries_def BytewiseComparator_def)
  moreover have "list_all (\<lambda>e. True \<and> length (fst e) < 2 ^ 32) block_example" "length block_example = 4"
    by (simp_all add: block_example_def)
  ultimately show ?thesis
    using block_roundtrip [of "Options_new\<lparr>block_restart_interval := 2\<rparr>" "\<lambda>_. True" block_example] bytewise.comparator_axioms
    unfolding opts by simp
qed

section \<open>Filters\<close>

definition build_filter :: "FilterPolicy \<Rightarrow> (u64 \<times> slice list) list \<Rightarrow> slice option" where
  "build_filter P blocks =
     Option.bind (filter_blocks P blocks FilterBlockBuilder_new) (\<lambda>b. map_option fst (FilterBlock_Finish P b))"

lemma internal_summarizes: "\<forall>ks. (\<forall>k \<in> set ks. 8 \<le> length k) \<longrightarrow> list_all (\<lambda>k. 8 \<le> length (k :: slice)) ks \<and> True"
  by (simp add: list_all_iff)

lemma filter_blocks_new:
  assumes "sorted (map (\<lambda>(off, _). unat off div 2048) blocks)"
    and "\<forall>(_, ks) \<in> set blocks. \<forall>k \<in> set ks. 8 \<le> length k"
  shows "\<exists>b st. filter_blocks (InternalFilterPolicy (BloomFilterPolicy bits_per_key)) blocks FilterBlockBuilder_new = Some b \<and>
    groups_built (InternalFilterPolicy (BloomFilterPolicy bits_per_key)) st b \<and>
    (\<forall>k \<in> set (concat (fst st)) \<union> set (snd st). 8 \<le> length k) \<and>
    (\<forall>(off, ks) \<in> set blocks. \<forall>k \<in> set ks. in_group st (unat off div 2048) k)"
proof -
  have init: "\<forall>(off, _) \<in> set blocks. length (fst ([], [])) \<le> unat off div 2048"
    "\<forall>k \<in> set (concat (fst ([], []))) \<union> set (snd ([], [])). 8 \<le> length k" by simp_all
  from internal_bloom.filter_blocks_groups [where ok = "\<lambda>k. 8 \<le> length k" and bits_per_key = bits_per_key,
        OF groups_built_new assms(1) init(1) internal_summarizes init(2) assms(2)]
  show ?thesis by (elim ex_forward conjE) simp
qed

text \<open>C29: the filter hides no key. For data blocks at ascending offsets and internal keys in them, the
  filter block with Bloom filters is made, and when it is below 4 GB its reader answers for every key
  at the offset of its block that it may be there, whatever the number of bits per key.\<close>

theorem filter_hides_no_key:
  assumes "sorted (map fst blocks)" and "list_all (\<lambda>(off, ks). list_all (\<lambda>k. 8 \<le> length k) ks) blocks"
  shows "\<exists>contents. build_filter (InternalFilterPolicy (BloomFilterPolicy bits_per_key)) blocks = Some contents \<and>
    (length contents < 2 ^ 32 \<longrightarrow>
      (\<exists>r. FilterBlockReader_new contents = Some r \<and>
        (\<forall>(off, ks) \<in> set blocks. \<forall>k \<in> set ks.
          FilterBlock_KeyMayMatch (InternalFilterPolicy (BloomFilterPolicy bits_per_key)) off k r = Some True)))"
proof -
  let ?P = "InternalFilterPolicy (BloomFilterPolicy bits_per_key)"
  note ok = internal_summarizes [THEN spec, THEN mp]
  have sorted: "sorted (map (\<lambda>(off, _). unat off div 2048) blocks)"
    using assms(1) by (induction blocks) (auto simp: word_le_nat_alt intro: div_le_mono)
  obtain b st where b: "filter_blocks ?P blocks FilterBlockBuilder_new = Some b" "groups_built ?P st b"
    "\<forall>k \<in> set (concat (fst st)) \<union> set (snd st). 8 \<le> length k"
    "\<forall>(off, ks) \<in> set blocks. \<forall>k \<in> set ks. in_group st (unat off div 2048) k"
    using filter_blocks_new [OF sorted] assms(2) unfolding list_all_iff by blast
  obtain gs cur where st: "st = (gs, cur)" by (cases st)
  from internal_bloom.Finish_groups [OF b(2) [unfolded st] ok] b(3) obtain contents b' where
    f: "FilterBlock_Finish ?P b = Some (contents, b')" by (auto simp: st)
  have "\<exists>r. FilterBlockReader_new contents = Some r \<and>
      (\<forall>(off, ks) \<in> set blocks. \<forall>k \<in> set ks. FilterBlock_KeyMayMatch ?P off k r = Some True)"
    if small: "length contents < 2 ^ 32"
  proof -
    have contents: "contents = filter_block_bytes ?P (all_groups st)"
      using internal_bloom.Finish_groups [OF b(2) [unfolded st] ok] b(3) f by (auto simp: st)
    then obtain r where r: "FilterBlockReader_new contents = Some r"
      using FilterBlockReader_bytes small by blast
    have "FilterBlock_KeyMayMatch ?P off k r = Some True" if "(off, ks) \<in> set blocks" "k \<in> set ks" for off ks k
      using internal_bloom.filter_blocks_found [OF b(2) _ internal_summarizes b(3) f small, of off k] b(4) that r by fastforce
    with r show ?thesis by blast
  qed
  with b(1) f show ?thesis by (simp add: build_filter_def)
qed

lemma filter_hides_no_key_witness:
  "\<exists>contents. build_filter (InternalFilterPolicy (BloomFilterPolicy 10)) [(0, [replicate 8 1]), (4096, [replicate 9 2])] = Some contents"
  using filter_hides_no_key [of "[(0, [replicate 8 1]), (4096, [replicate 9 2])]" 10] by auto

section \<open>Merging\<close>

text \<open>C30: the merging iterator over two or more iterators, each of which keeps the interface's promise
  for its own list of entries, keeps it for the sorted list of all of them: for every sequence of moves,
  in both directions and with seeks, it agrees with a cursor in that list.\<close>

theorem merging_iterator_views:
  assumes "comparator C key" and "iterator I (Compare C) key at" and "2 \<le> length children"
    and "list_all2 (\<lambda>s part. \<exists>i. at part i s) children parts" and "list_all (sorted_entries (Compare C)) parts"
    and "sorted_entries (Compare C) es" and "list_all (\<lambda>e. key (fst e)) es" and "mset es = mset (concat parts)"
  shows "\<exists>m. NewMergingIterator I children = Some (Merged m) \<and>
    views (merging_iterator I (Compare C)) (Compare C) key es (length es) m"
proof -
  note mrg = merging.intro [OF assms(1,2)]
  from merging.NewMergingIterator_at [OF mrg assms(6) _ _ assms(8), of children] assms(3,4,5,7) obtain m where
    "NewMergingIterator I children = Some (Merged m)" "merging_at C key at es (length es) m"
    by (auto simp: list_all_iff list_all2_conv_all_nth)
  with iterator.views_at [OF merging.merging_iterator_correct [OF mrg]] show ?thesis by blast
qed

lemma merging_iterator_views_witness:
  "\<exists>a b m. Option.bind (build_block Options_new [([1], [7]), ([3], [])]) open_block = Some a \<and>
    Option.bind (build_block Options_new [([2], [8])]) open_block = Some b \<and>
    NewMergingIterator (block_iterator BytewiseComparator) [a, b] = Some (Merged m) \<and>
    views (merging_iterator (block_iterator BytewiseComparator) (Compare BytewiseComparator)) (Compare BytewiseComparator)
      (\<lambda>_. True) [([1], [7]), ([2], [8]), ([3], [])] 3 m"
proof -
  let ?at = "block_at BytewiseComparator (\<lambda>_. True)"
  have opts: "o_comparator Options_new = BytewiseComparator" "1 \<le> block_restart_interval Options_new"
    by (simp_all add: Options_new_def)
  have sorted: "sorted_entries (Compare BytewiseComparator) [([1], [7]), ([3], [])]"
    "sorted_entries (Compare BytewiseComparator) [([2], [8])]"
    "sorted_entries (Compare BytewiseComparator) [([1], [7]), ([2], [8]), ([3], [])]"
    by (simp_all add: sorted_entries_def BytewiseComparator_def)
  note build = build_block_def BlockBuilder_new_def Options_new_def BlockBuilder_Reset_def BlockBuilder_Add_def Add_shared_def
    BytewiseComparator_def BlockBuilder_Finish_def PutVarint32_def PutFixed32_def EncodeVarint32_def Let_def
  have len: "map_option length (build_block Options_new [([1], [7]), ([3], [])]) = Some 17"
    "map_option length (build_block Options_new [([2], [8])]) = Some 13" by (simp_all add: build)
  obtain a where a: "Option.bind (build_block Options_new [([1], [7]), ([3], [])]) open_block = Some a"
    "?at [([1], [7]), ([3], [])] (Suc (Suc 0)) a"
    using build_block_at [of Options_new "\<lambda>_. True" "[([1], [7]), ([3], [])]"] sorted(1) opts(2) bytewise.comparator_axioms len(1)
    unfolding opts(1) by auto
  obtain b where b: "Option.bind (build_block Options_new [([2], [8])]) open_block = Some b" "?at [([2], [8])] 1 b"
    using build_block_at [of Options_new "\<lambda>_. True" "[([2], [8])]"] sorted(2) opts(2) bytewise.comparator_axioms len(2)
    unfolding opts(1) by auto
  have ch: "list_all2 (\<lambda>s part. \<exists>i. ?at part i s) [a, b] [[([1], [7]), ([3], [])], [([2], [8])]]" using a(2) b(2) by auto
  have "\<exists>m. NewMergingIterator (block_iterator BytewiseComparator) [a, b] = Some (Merged m) \<and>
      views (merging_iterator (block_iterator BytewiseComparator) (Compare BytewiseComparator)) (Compare BytewiseComparator)
        (\<lambda>_. True) [([1], [7]), ([2], [8]), ([3], [])] (length [([1], [7]), ([2], [8]), ([3], []) :: entry]) m"
    by (rule merging_iterator_views [OF bytewise.comparator_axioms bytewise.block_it.iterator_axioms _ ch]) (use sorted in simp_all)
  with a(1) b(1) show ?thesis by (simp add: numeral_3_eq_3)
qed

end
