(* ===== verification/Ldb_VersionEdit.thy ===== *)
theory Ldb_VersionEdit
  imports Ldb_DbFormat Ldb_Status "HOL-Library.Product_Lexorder"
begin

text \<open>
  Version edits, \<open>db/version_edit.{h,cc}\<close>: a change to the set of table files, as a record of the manifest.
  A level is an index of an array of levels, so it is a \<open>nat\<close>; an \<open>InternalKey\<close> is its encoded bytes, empty
  when it is not valid; a \<open>std::set\<close> is a set, iterated in ascending order.
\<close>

record FileMetaData =
  f_refs :: int
  f_allowed_seeks :: int
  f_number :: u64
  f_file_size :: u64
  f_smallest :: slice
  f_largest :: slice

text \<open>A new object, whose fields are then set.\<close>

definition FileMetaData_new :: "u64 \<Rightarrow> u64 \<Rightarrow> slice \<Rightarrow> slice \<Rightarrow> FileMetaData" where
  "FileMetaData_new number file_size smallest largest =
     \<lparr>f_refs = 0, f_allowed_seeks = 2 ^ 30, f_number = number, f_file_size = file_size, f_smallest = smallest, f_largest = largest\<rparr>"

record VersionEdit =
  e_comparator :: slice
  e_log_number :: u64
  e_prev_log_number :: u64
  e_next_file_number :: u64
  e_last_sequence :: SequenceNumber
  has_comparator :: bool
  has_log_number :: bool
  has_prev_log_number :: bool
  has_next_file_number :: bool
  has_last_sequence :: bool
  compact_pointers :: "(nat \<times> slice) list"
  deleted_files :: "(nat \<times> u64) set"
  new_files :: "(nat \<times> FileMetaData) list"

text \<open>\<open>Clear\<close> leaves the compaction pointers alone.\<close>

definition VersionEdit_Clear :: "VersionEdit \<Rightarrow> VersionEdit" where
  "VersionEdit_Clear e =
     e\<lparr>e_comparator := [], e_log_number := 0, e_prev_log_number := 0, e_last_sequence := 0, e_next_file_number := 0,
       has_comparator := False, has_log_number := False, has_prev_log_number := False, has_next_file_number := False,
       has_last_sequence := False, deleted_files := {}, new_files := []\<rparr>"

definition VersionEdit_new :: VersionEdit where
  "VersionEdit_new =
     \<lparr>e_comparator = [], e_log_number = 0, e_prev_log_number = 0, e_next_file_number = 0, e_last_sequence = 0,
      has_comparator = False, has_log_number = False, has_prev_log_number = False, has_next_file_number = False,
      has_last_sequence = False, compact_pointers = [], deleted_files = {}, new_files = []\<rparr>"

definition SetComparatorName :: "slice \<Rightarrow> VersionEdit \<Rightarrow> VersionEdit" where
  "SetComparatorName name e = e\<lparr>has_comparator := True, e_comparator := name\<rparr>"

definition SetLogNumber :: "u64 \<Rightarrow> VersionEdit \<Rightarrow> VersionEdit" where
  "SetLogNumber num e = e\<lparr>has_log_number := True, e_log_number := num\<rparr>"

definition SetPrevLogNumber :: "u64 \<Rightarrow> VersionEdit \<Rightarrow> VersionEdit" where
  "SetPrevLogNumber num e = e\<lparr>has_prev_log_number := True, e_prev_log_number := num\<rparr>"

definition SetNextFile :: "u64 \<Rightarrow> VersionEdit \<Rightarrow> VersionEdit" where
  "SetNextFile num e = e\<lparr>has_next_file_number := True, e_next_file_number := num\<rparr>"

definition SetLastSequence :: "SequenceNumber \<Rightarrow> VersionEdit \<Rightarrow> VersionEdit" where
  "SetLastSequence seq e = e\<lparr>has_last_sequence := True, e_last_sequence := seq\<rparr>"

definition SetCompactPointer :: "nat \<Rightarrow> slice \<Rightarrow> VersionEdit \<Rightarrow> VersionEdit" where
  "SetCompactPointer level k e = e\<lparr>compact_pointers := compact_pointers e @ [(level, k)]\<rparr>"

definition AddFile :: "nat \<Rightarrow> u64 \<Rightarrow> u64 \<Rightarrow> slice \<Rightarrow> slice \<Rightarrow> VersionEdit \<Rightarrow> VersionEdit" where
  "AddFile level file file_size smallest largest e =
     e\<lparr>new_files := new_files e @ [(level, FileMetaData_new file file_size smallest largest)]\<rparr>"

definition DeleteFile :: "nat \<Rightarrow> u64 \<Rightarrow> VersionEdit \<Rightarrow> VersionEdit" where
  "DeleteFile level file e = e\<lparr>deleted_files := insert (level, file) (deleted_files e)\<rparr>"

section \<open>Encoding\<close>

definition kComparator :: u32 where "kComparator = 1"
definition kLogNumber :: u32 where "kLogNumber = 2"
definition kNextFileNumber :: u32 where "kNextFileNumber = 3"
definition kLastSequence :: u32 where "kLastSequence = 4"
definition kCompactPointer :: u32 where "kCompactPointer = 5"
definition kDeletedFile :: u32 where "kDeletedFile = 6"
definition kNewFile :: u32 where "kNewFile = 7"
definition kPrevLogNumber :: u32 where "kPrevLogNumber = 9"

lemmas tags = kComparator_def kLogNumber_def kNextFileNumber_def kLastSequence_def kCompactPointer_def
  kDeletedFile_def kNewFile_def kPrevLogNumber_def

definition encode_number :: "bool \<Rightarrow> u32 \<Rightarrow> u64 \<Rightarrow> byte list \<Rightarrow> byte list" where
  "encode_number present tag num dst = (if present then PutVarint64 (PutVarint32 dst tag) num else dst)"

text \<open>A key that is not valid breaks the assertion in \<open>InternalKey::Encode\<close>.\<close>

definition encode_pointer :: "nat \<times> slice \<Rightarrow> byte list \<Rightarrow> byte list option" where
  "encode_pointer p dst =
     map_option (PutLengthPrefixedSlice (PutVarint32 (PutVarint32 dst kCompactPointer) (of_nat (fst p)))) (InternalKey_Encode (snd p))"

definition encode_deleted :: "nat \<times> u64 \<Rightarrow> byte list \<Rightarrow> byte list" where
  "encode_deleted p dst = PutVarint64 (PutVarint32 (PutVarint32 dst kDeletedFile) (of_nat (fst p))) (snd p)"

definition encode_file :: "nat \<times> FileMetaData \<Rightarrow> byte list \<Rightarrow> byte list option" where
  "encode_file p dst =
     (case p of (level, f) \<Rightarrow>
        let dst = PutVarint64 (PutVarint64 (PutVarint32 (PutVarint32 dst kNewFile) (of_nat level)) (f_number f)) (f_file_size f) in
        Option.bind (InternalKey_Encode (f_smallest f)) (\<lambda>smallest.
        map_option (PutLengthPrefixedSlice (PutLengthPrefixedSlice dst smallest)) (InternalKey_Encode (f_largest f))))"

fun fold_option :: "('a \<Rightarrow> 'b \<Rightarrow> 'b option) \<Rightarrow> 'a list \<Rightarrow> 'b \<Rightarrow> 'b option" where
  "fold_option f [] b = Some b"
| "fold_option f (x # xs) b = Option.bind (f x b) (fold_option f xs)"

definition VersionEdit_EncodeTo :: "VersionEdit \<Rightarrow> byte list \<Rightarrow> byte list option" where
  "VersionEdit_EncodeTo e dst =
     (let dst = (if has_comparator e then PutLengthPrefixedSlice (PutVarint32 dst kComparator) (e_comparator e) else dst);
          dst = encode_number (has_log_number e) kLogNumber (e_log_number e) dst;
          dst = encode_number (has_prev_log_number e) kPrevLogNumber (e_prev_log_number e) dst;
          dst = encode_number (has_next_file_number e) kNextFileNumber (e_next_file_number e) dst;
          dst = encode_number (has_last_sequence e) kLastSequence (e_last_sequence e) dst in
      Option.bind (fold_option encode_pointer (compact_pointers e) dst) (\<lambda>dst.
        fold_option encode_file (new_files e) (fold encode_deleted (sorted_list_of_set (deleted_files e)) dst)))"

section \<open>Decoding\<close>

definition GetInternalKey :: "slice \<Rightarrow> (slice \<times> slice) option" where
  "GetInternalKey input = GetLengthPrefixedSlice input"

definition GetLevel :: "slice \<Rightarrow> (nat \<times> slice) option" where
  "GetLevel input =
     (case GetVarint32 input of
        Some (v, input) \<Rightarrow> if unat v < kNumLevels then Some (unat v, input) else None
      | None \<Rightarrow> None)"

text \<open>One round of the loop: the message, or what is left of the input.\<close>

definition or_message :: "string \<Rightarrow> ('a \<times> slice) option \<Rightarrow> ('a \<Rightarrow> VersionEdit) \<Rightarrow> string + VersionEdit \<times> slice" where
  "or_message msg r store = (case r of Some (x, input) \<Rightarrow> Inr (store x, input) | None \<Rightarrow> Inl msg)"

definition decode_pointer :: "slice \<Rightarrow> ((nat \<times> slice) \<times> slice) option" where
  "decode_pointer input =
     Option.bind (GetLevel input) (\<lambda>(level, input). map_option (\<lambda>(k, input). ((level, k), input)) (GetInternalKey input))"

definition decode_deleted :: "slice \<Rightarrow> ((nat \<times> u64) \<times> slice) option" where
  "decode_deleted input =
     Option.bind (GetLevel input) (\<lambda>(level, input). map_option (\<lambda>(n, input). ((level, n), input)) (GetVarint64 input))"

definition decode_file :: "slice \<Rightarrow> ((nat \<times> FileMetaData) \<times> slice) option" where
  "decode_file input =
     Option.bind (GetLevel input) (\<lambda>(level, input).
     Option.bind (GetVarint64 input) (\<lambda>(number, input).
     Option.bind (GetVarint64 input) (\<lambda>(file_size, input).
     Option.bind (GetInternalKey input) (\<lambda>(smallest, input).
     map_option (\<lambda>(largest, input). ((level, FileMetaData_new number file_size smallest largest), input)) (GetInternalKey input)))))"

definition edit_field :: "u32 \<Rightarrow> slice \<Rightarrow> VersionEdit \<Rightarrow> string + VersionEdit \<times> slice" where
  "edit_field tag input e =
     (if tag = kComparator then
        or_message ''comparator name'' (GetLengthPrefixedSlice input) (\<lambda>s. e\<lparr>e_comparator := s, has_comparator := True\<rparr>)
      else if tag = kLogNumber then
        or_message ''log number'' (GetVarint64 input) (\<lambda>n. e\<lparr>e_log_number := n, has_log_number := True\<rparr>)
      else if tag = kPrevLogNumber then
        or_message ''previous log number'' (GetVarint64 input) (\<lambda>n. e\<lparr>e_prev_log_number := n, has_prev_log_number := True\<rparr>)
      else if tag = kNextFileNumber then
        or_message ''next file number'' (GetVarint64 input) (\<lambda>n. e\<lparr>e_next_file_number := n, has_next_file_number := True\<rparr>)
      else if tag = kLastSequence then
        or_message ''last sequence number'' (GetVarint64 input) (\<lambda>n. e\<lparr>e_last_sequence := n, has_last_sequence := True\<rparr>)
      else if tag = kCompactPointer then
        or_message ''compaction pointer'' (decode_pointer input) (\<lambda>p. e\<lparr>compact_pointers := compact_pointers e @ [p]\<rparr>)
      else if tag = kDeletedFile then
        or_message ''deleted file'' (decode_deleted input) (\<lambda>p. e\<lparr>deleted_files := insert p (deleted_files e)\<rparr>)
      else if tag = kNewFile then
        or_message ''new-file entry'' (decode_file input) (\<lambda>p. e\<lparr>new_files := new_files e @ [p]\<rparr>)
      else Inl ''unknown tag'')"

text \<open>Every part read makes the input shorter.\<close>

lemma GetLevel_shorter: "GetLevel input = Some (level, rest) \<Longrightarrow> length rest < length input"
  by (auto simp: GetLevel_def split: option.splits if_splits dest!: GetVarint32_shorter)

lemmas shorter = GetVarint32_shorter GetVarint64_shorter GetLengthPrefixedSlice_shorter GetLevel_shorter

lemma edit_field_shorter: "edit_field tag input e = Inr (e', rest) \<Longrightarrow> length rest < length input"
  by (auto simp: edit_field_def or_message_def decode_pointer_def decode_deleted_def decode_file_def GetInternalKey_def
      bind_eq_Some_conv split: if_splits option.splits dest!: shorter)

function edit_fields :: "slice \<Rightarrow> VersionEdit \<Rightarrow> string option \<times> VersionEdit" where
  "edit_fields input e =
     (case GetVarint32 input of
        None \<Rightarrow> (if input \<noteq> [] then Some ''invalid tag'' else None, e)
      | Some (tag, input) \<Rightarrow>
          (case edit_field tag input e of
             Inl msg \<Rightarrow> (Some msg, e)
           | Inr (e, input) \<Rightarrow> edit_fields input e))"
  by pat_completeness auto

termination edit_fields
  by (relation "measure (\<lambda>(input, _). length input)") (auto dest!: GetVarint32_shorter edit_field_shorter)

declare edit_fields.simps [simp del]

definition VersionEdit_DecodeFrom :: "slice \<Rightarrow> VersionEdit \<Rightarrow> status \<times> VersionEdit" where
  "VersionEdit_DecodeFrom src e =
     (case edit_fields src (VersionEdit_Clear e) of
        (None, e) \<Rightarrow> (Status_OK, e)
      | (Some msg, e) \<Rightarrow> (Corruption (bytes_of ''VersionEdit'') (bytes_of msg), e))"

section \<open>Printing\<close>

definition debug_line :: "string \<Rightarrow> slice list \<Rightarrow> byte list" where
  "debug_line label parts = [10, 32, 32] @ bytes_of label @ concat parts"

definition VersionEdit_DebugString :: "VersionEdit \<Rightarrow> byte list" where
  "VersionEdit_DebugString e =
     bytes_of ''VersionEdit {'' @
     (if has_comparator e then debug_line ''Comparator: '' [e_comparator e] else []) @
     (if has_log_number e then debug_line ''LogNumber: '' [NumberToString (e_log_number e)] else []) @
     (if has_prev_log_number e then debug_line ''PrevLogNumber: '' [NumberToString (e_prev_log_number e)] else []) @
     (if has_next_file_number e then debug_line ''NextFile: '' [NumberToString (e_next_file_number e)] else []) @
     (if has_last_sequence e then debug_line ''LastSeq: '' [NumberToString (e_last_sequence e)] else []) @
     concat (map (\<lambda>(level, k). debug_line ''CompactPointer: '' [NumberToString (of_nat level), [32], InternalKey_DebugString k])
       (compact_pointers e)) @
     concat (map (\<lambda>(level, n). debug_line ''DeleteFile: '' [NumberToString (of_nat level), [32], NumberToString n])
       (sorted_list_of_set (deleted_files e))) @
     concat (map (\<lambda>(level, f). debug_line ''AddFile: ''
         [NumberToString (of_nat level), [32], NumberToString (f_number f), [32], NumberToString (f_file_size f), [32],
          InternalKey_DebugString (f_smallest f), bytes_of '' .. '', InternalKey_DebugString (f_largest f)]) (new_files e)) @
     [10] @ bytes_of ''}'' @ [10]"

text \<open>
  The encoding of an edit is a sequence of fields; decoding reads them back one by one.
\<close>

definition key_stored :: "slice \<Rightarrow> bool" where
  "key_stored k \<longleftrightarrow> k \<noteq> [] \<and> length k < 2 ^ 32"

definition file_stored :: "FileMetaData \<Rightarrow> bool" where
  "file_stored f \<longleftrightarrow> f = FileMetaData_new (f_number f) (f_file_size f) (f_smallest f) (f_largest f) \<and>
     key_stored (f_smallest f) \<and> key_stored (f_largest f)"

text \<open>An edit as the setters make it from a new one.\<close>

definition edit_ok :: "VersionEdit \<Rightarrow> bool" where
  "edit_ok e \<longleftrightarrow> finite (deleted_files e) \<and> length (e_comparator e) < 2 ^ 32 \<and>
     (\<forall>(level, k) \<in> set (compact_pointers e). level < kNumLevels \<and> key_stored k) \<and>
     (\<forall>(level, n) \<in> deleted_files e. level < kNumLevels) \<and>
     (\<forall>(level, f) \<in> set (new_files e). level < kNumLevels \<and> file_stored f) \<and>
     (\<not> has_comparator e \<longrightarrow> e_comparator e = []) \<and> (\<not> has_log_number e \<longrightarrow> e_log_number e = 0) \<and>
     (\<not> has_prev_log_number e \<longrightarrow> e_prev_log_number e = 0) \<and> (\<not> has_next_file_number e \<longrightarrow> e_next_file_number e = 0) \<and>
     (\<not> has_last_sequence e \<longrightarrow> e_last_sequence e = 0)"

lemma edit_ok_new: "edit_ok VersionEdit_new"
  by (simp add: edit_ok_def VersionEdit_new_def)

lemma edit_ok_setters:
  assumes "edit_ok e"
  shows "length name < 2 ^ 32 \<Longrightarrow> edit_ok (SetComparatorName name e)" and "edit_ok (SetLogNumber n e)"
    and "edit_ok (SetPrevLogNumber n e)" and "edit_ok (SetNextFile n e)" and "edit_ok (SetLastSequence s e)"
    and "level < kNumLevels \<Longrightarrow> key_stored k \<Longrightarrow> edit_ok (SetCompactPointer level k e)"
    and "level < kNumLevels \<Longrightarrow> key_stored smallest \<Longrightarrow> key_stored largest \<Longrightarrow> edit_ok (AddFile level n file_size smallest largest e)"
    and "level < kNumLevels \<Longrightarrow> edit_ok (DeleteFile level n e)"
  using assms
  by (auto simp: edit_ok_def SetComparatorName_def SetLogNumber_def SetPrevLogNumber_def SetNextFile_def SetLastSequence_def
      SetCompactPointer_def AddFile_def DeleteFile_def file_stored_def FileMetaData_new_def)

section \<open>The bytes of the fields\<close>

abbreviation "slice_bytes \<equiv> PutLengthPrefixedSlice []"

definition pointer_bytes :: "nat \<times> slice \<Rightarrow> byte list" where
  "pointer_bytes p = EncodeVarint32 kCompactPointer @ EncodeVarint32 (of_nat (fst p)) @ slice_bytes (snd p)"

definition deleted_bytes :: "nat \<times> u64 \<Rightarrow> byte list" where
  "deleted_bytes p = EncodeVarint32 kDeletedFile @ EncodeVarint32 (of_nat (fst p)) @ EncodeVarint64 (snd p)"

definition file_bytes :: "nat \<times> FileMetaData \<Rightarrow> byte list" where
  "file_bytes p = EncodeVarint32 kNewFile @ EncodeVarint32 (of_nat (fst p)) @ EncodeVarint64 (f_number (snd p)) @
     EncodeVarint64 (f_file_size (snd p)) @ slice_bytes (f_smallest (snd p)) @ slice_bytes (f_largest (snd p))"

lemma fold_option_append:
  assumes "\<And>x dst. x \<in> set xs \<Longrightarrow> f x dst = Some (dst @ g x)"
  shows "fold_option f xs dst = Some (dst @ concat (map g xs))"
  using assms by (induction xs arbitrary: dst) simp_all

lemma encode_pointers:
  "\<forall>(level, k) \<in> set ps. key_stored k \<Longrightarrow> fold_option encode_pointer ps dst = Some (dst @ concat (map pointer_bytes ps))"
  by (rule fold_option_append)
    (auto simp: encode_pointer_def InternalKey_Encode_def key_stored_def pointer_bytes_def PutVarint32_def
      PutLengthPrefixedSlice_append [of "_ @ _"])

lemma encode_files:
  "\<forall>(level, f) \<in> set ps. file_stored f \<Longrightarrow> fold_option encode_file ps dst = Some (dst @ concat (map file_bytes ps))"
proof (rule fold_option_append)
  fix p dst
  assume "\<forall>(level, f) \<in> set ps. file_stored f" "p \<in> set ps"
  then have "f_smallest (snd p) \<noteq> []" "f_largest (snd p) \<noteq> []" by (auto simp: file_stored_def key_stored_def)
  then show "encode_file p dst = Some (dst @ file_bytes p)"
    by (cases p) (simp add: encode_file_def InternalKey_Encode_def file_bytes_def PutVarint32_def PutVarint64_def
      PutLengthPrefixedSlice_append [of "_ @ _"])
qed

lemma encode_deleteds: "fold encode_deleted ps dst = dst @ concat (map deleted_bytes ps)"
  by (induction ps arbitrary: dst) (simp_all add: encode_deleted_def deleted_bytes_def PutVarint32_def PutVarint64_def)

section \<open>Reading them\<close>

lemma reads [simp]:
  "GetVarint32 (EncodeVarint32 v @ rest) = Some (v, rest)" "GetVarint64 (EncodeVarint64 w @ rest) = Some (w, rest)"
  using varint32.dec_enc [of v rest] varint64.dec_enc [of w rest] by (simp_all add: GetVarint32_def GetVarint64_def)

lemma reads_slice [simp]: "length s < 2 ^ 32 \<Longrightarrow> GetLengthPrefixedSlice (slice_bytes s @ rest) = Some (s, rest)"
  by (rule length_prefixed.dec_enc)

lemma reads_key [simp]: "key_stored s \<Longrightarrow> GetInternalKey (slice_bytes s @ rest) = Some (s, rest)"
  by (simp add: GetInternalKey_def key_stored_def)

lemma reads_level [simp]: "level < kNumLevels \<Longrightarrow> GetLevel (EncodeVarint32 (of_nat level) @ rest) = Some (level, rest)"
  by (simp add: GetLevel_def kNumLevels_def unsigned_of_nat take_bit_nat_eq_self)

lemma decode_tagged: "edit_field tag input e = Inr (e', rest) \<Longrightarrow> edit_fields (EncodeVarint32 tag @ input) e = edit_fields rest e'"
  by (subst edit_fields.simps) simp

lemma decode_pointers:
  "\<forall>(level, k) \<in> set ps. level < kNumLevels \<and> key_stored k \<Longrightarrow>
    edit_fields (concat (map pointer_bytes ps) @ rest) e = edit_fields rest (e\<lparr>compact_pointers := compact_pointers e @ ps\<rparr>)"
proof (induction ps arbitrary: e)
  case (Cons p ps)
  have "edit_fields (pointer_bytes p @ r) e = edit_fields r (e\<lparr>compact_pointers := compact_pointers e @ [p]\<rparr>)" for r
    unfolding pointer_bytes_def append_assoc using Cons.prems
    by (intro decode_tagged) (auto simp: edit_field_def tags decode_pointer_def or_message_def)
  with Cons show ?case by simp
qed simp

lemma decode_deleteds:
  "\<forall>(level, n) \<in> set ps. level < kNumLevels \<Longrightarrow>
    edit_fields (concat (map deleted_bytes ps) @ rest) e = edit_fields rest (e\<lparr>deleted_files := deleted_files e \<union> set ps\<rparr>)"
proof (induction ps arbitrary: e)
  case (Cons p ps)
  have "edit_fields (deleted_bytes p @ r) e = edit_fields r (e\<lparr>deleted_files := insert p (deleted_files e)\<rparr>)" for r
    unfolding deleted_bytes_def append_assoc using Cons.prems
    by (intro decode_tagged) (auto simp: edit_field_def tags decode_deleted_def or_message_def)
  with Cons show ?case by simp
qed simp

lemma decode_files:
  "\<forall>(level, f) \<in> set ps. level < kNumLevels \<and> file_stored f \<Longrightarrow>
    edit_fields (concat (map file_bytes ps) @ rest) e = edit_fields rest (e\<lparr>new_files := new_files e @ ps\<rparr>)"
proof (induction ps arbitrary: e)
  case (Cons p ps)
  obtain level f where p: "p = (level, f)" by fastforce
  with Cons.prems have f: "level < kNumLevels" "f = FileMetaData_new (f_number f) (f_file_size f) (f_smallest f) (f_largest f)"
    "key_stored (f_smallest f)" "key_stored (f_largest f)" by (auto simp: file_stored_def)
  have "edit_fields (file_bytes p @ r) e = edit_fields r (e\<lparr>new_files := new_files e @ [p]\<rparr>)" for r
    unfolding file_bytes_def append_assoc using f(1,3,4) f(2) [symmetric]
    by (intro decode_tagged) (simp add: edit_field_def tags decode_file_def or_message_def p)
  with Cons show ?case by simp
qed simp

lemma encode_number_append: "encode_number present tag num dst = dst @ (if present then EncodeVarint32 tag @ EncodeVarint64 num else [])"
  by (simp add: encode_number_def PutVarint32_def PutVarint64_def)

lemma decode_number:
  assumes "\<And>rest. edit_field tag (EncodeVarint64 num @ rest) e = Inr (e', rest)"
  shows "edit_fields ((if present then EncodeVarint32 tag @ EncodeVarint64 num else []) @ rest) e = edit_fields rest (if present then e' else e)"
  using decode_tagged [OF assms] by simp

lemma decode_numbers:
  "edit_field kLogNumber (EncodeVarint64 n @ rest) e = Inr (e\<lparr>e_log_number := n, has_log_number := True\<rparr>, rest)"
  "edit_field kPrevLogNumber (EncodeVarint64 n @ rest) e = Inr (e\<lparr>e_prev_log_number := n, has_prev_log_number := True\<rparr>, rest)"
  "edit_field kNextFileNumber (EncodeVarint64 n @ rest) e = Inr (e\<lparr>e_next_file_number := n, has_next_file_number := True\<rparr>, rest)"
  "edit_field kLastSequence (EncodeVarint64 n @ rest) e = Inr (e\<lparr>e_last_sequence := n, has_last_sequence := True\<rparr>, rest)"
  by (simp_all add: edit_field_def tags or_message_def)

lemma decode_comparator:
  assumes "length name < 2 ^ 32"
  shows "edit_fields ((if present then EncodeVarint32 kComparator @ slice_bytes name else []) @ rest) e =
    edit_fields rest (if present then e\<lparr>e_comparator := name, has_comparator := True\<rparr> else e)"
proof -
  have "edit_field kComparator (slice_bytes name @ rest) e = Inr (e\<lparr>e_comparator := name, has_comparator := True\<rparr>, rest)"
    using assms by (simp add: edit_field_def tags or_message_def)
  from decode_tagged [OF this] show ?thesis by simp
qed

text \<open>A field that is not there has the value that \<open>Clear\<close> gave it.\<close>

lemma edit_fields_Nil: "edit_fields [] e = (None, e)"
  by (subst edit_fields.simps) (simp add: GetVarint32_def GetVarint32Ptr_def GetVarint32PtrFallback_def)

lemma numbers_set:
  assumes "\<not> has_log_number e \<longrightarrow> e_log_number e = 0" and "\<not> has_prev_log_number e \<longrightarrow> e_prev_log_number e = 0"
    and "\<not> has_next_file_number e \<longrightarrow> e_next_file_number e = 0" and "\<not> has_last_sequence e \<longrightarrow> e_last_sequence e = 0"
    and "\<not> has_comparator e \<longrightarrow> e_comparator e = []"
  shows "(let e1 = VersionEdit_Clear e0;
      e1 = (if has_comparator e then e1\<lparr>e_comparator := e_comparator e, has_comparator := True\<rparr> else e1);
      e1 = (if has_log_number e then e1\<lparr>e_log_number := e_log_number e, has_log_number := True\<rparr> else e1);
      e1 = (if has_prev_log_number e then e1\<lparr>e_prev_log_number := e_prev_log_number e, has_prev_log_number := True\<rparr> else e1);
      e1 = (if has_next_file_number e then e1\<lparr>e_next_file_number := e_next_file_number e, has_next_file_number := True\<rparr> else e1);
      e1 = (if has_last_sequence e then e1\<lparr>e_last_sequence := e_last_sequence e, has_last_sequence := True\<rparr> else e1) in
      e1\<lparr>compact_pointers := ps, deleted_files := A, new_files := fs\<rparr>) =
    e\<lparr>compact_pointers := ps, deleted_files := A, new_files := fs\<rparr>"
  using assms by (cases e) (simp add: VersionEdit_Clear_def Let_def)

lemma decode_encoded:
  assumes "edit_ok e"
  shows "\<exists>bytes. VersionEdit_EncodeTo e [] = Some bytes \<and>
    VersionEdit_DecodeFrom bytes e0 = (Status_OK, e\<lparr>compact_pointers := compact_pointers e0 @ compact_pointers e\<rparr>)"
proof -
  note ok = assms [unfolded edit_ok_def]
  let ?num = "\<lambda>present tag num. if present then EncodeVarint32 tag @ EncodeVarint64 num else []"
  let ?bytes = "(if has_comparator e then EncodeVarint32 kComparator @ slice_bytes (e_comparator e) else []) @
    ?num (has_log_number e) kLogNumber (e_log_number e) @ ?num (has_prev_log_number e) kPrevLogNumber (e_prev_log_number e) @
    ?num (has_next_file_number e) kNextFileNumber (e_next_file_number e) @ ?num (has_last_sequence e) kLastSequence (e_last_sequence e) @
    concat (map pointer_bytes (compact_pointers e)) @ concat (map deleted_bytes (sorted_list_of_set (deleted_files e))) @
    concat (map file_bytes (new_files e)) @ []"
  have ps: "\<forall>(level, k) \<in> set (compact_pointers e). level < kNumLevels \<and> key_stored k"
    and ds: "\<forall>(level, n) \<in> set (sorted_list_of_set (deleted_files e)). level < kNumLevels"
    and fs: "\<forall>(level, f) \<in> set (new_files e). level < kNumLevels \<and> file_stored f"
    using ok by auto
  have "\<forall>(level, k) \<in> set (compact_pointers e). key_stored k" "\<forall>(level, f) \<in> set (new_files e). file_stored f"
    using ps fs by auto
  then have "VersionEdit_EncodeTo e [] = Some ?bytes"
    by (simp add: VersionEdit_EncodeTo_def Let_def encode_pointers encode_files encode_deleteds encode_number_append PutVarint32_def
        PutLengthPrefixedSlice_append [of "EncodeVarint32 _"])
  moreover have "VersionEdit_DecodeFrom ?bytes e0 = (Status_OK, e\<lparr>compact_pointers := compact_pointers e0 @ compact_pointers e\<rparr>)"
  proof -
    have set_eq: "set (sorted_list_of_set (deleted_files e)) = deleted_files e" using ok by simp
    note step = decode_number [OF decode_numbers(1)] decode_number [OF decode_numbers(2)]
      decode_number [OF decode_numbers(3)] decode_number [OF decode_numbers(4)]
      decode_pointers [OF ps] decode_deleteds [OF ds] decode_files [OF fs] edit_fields_Nil
    have "edit_fields ?bytes (VersionEdit_Clear e0) = (None, e\<lparr>compact_pointers := compact_pointers e0 @ compact_pointers e\<rparr>)"
    proof -
      have len: "length (e_comparator e) < 2 ^ 32" using ok by blast
      have kept: "compact_pointers e1 = compact_pointers e0" "deleted_files e1 = {}" "new_files e1 = []"
        if "e1 = (let e1 = VersionEdit_Clear e0;
            e1 = (if has_comparator e then e1\<lparr>e_comparator := e_comparator e, has_comparator := True\<rparr> else e1);
            e1 = (if has_log_number e then e1\<lparr>e_log_number := e_log_number e, has_log_number := True\<rparr> else e1);
            e1 = (if has_prev_log_number e then e1\<lparr>e_prev_log_number := e_prev_log_number e, has_prev_log_number := True\<rparr> else e1);
            e1 = (if has_next_file_number e then e1\<lparr>e_next_file_number := e_next_file_number e, has_next_file_number := True\<rparr> else e1) in
            if has_last_sequence e then e1\<lparr>e_last_sequence := e_last_sequence e, has_last_sequence := True\<rparr> else e1)" for e1
        unfolding that by (simp_all add: VersionEdit_Clear_def Let_def)
      show ?thesis
        unfolding decode_comparator [OF len] step
        using numbers_set [where e = e and e0 = e0 and ps = "compact_pointers e0 @ compact_pointers e" and A = "deleted_files e" and fs = "new_files e"]
          kept [OF HOL.refl] ok set_eq by (simp add: Let_def)
    qed
    then show ?thesis by (simp add: VersionEdit_DecodeFrom_def)
  qed
  ultimately show ?thesis by blast
qed

end
