(* ===== verification/Ldb_Db_Props.thy ===== *)
theory Ldb_Db_Props
  imports Ldb_DbIter_Spec Ldb_Table_Props Ldb_VersionEdit
begin

text \<open>
  Properties of the database.
\<close>

section \<open>The iterator of the database\<close>

text \<open>C32: the iterator of the database shows a snapshot. Over any iterator of internal entries (a memtable,
  a table, or a merge of them), the database iterator at a sequence number agrees, for every sequence of
  moves forward and backward and of seeks, with a cursor in the list of the newest visible values of the
  user keys, deleted keys and later writes left out; the loop that samples reads always ends.\<close>

theorem db_iterator_views:
  assumes "comparator C key" and "iterator I (Compare (InternalKeyComparator C)) (comparator.ikey key) at"
    and "internal_entries C key es" and "at es i iter" and "unat s < 2 ^ 56"
  shows "views (db_iterator I C) (Compare C) key (snapshot s es) (length (snapshot s es)) (NewDBIterator iter s seed)"
proof -
  note db = db_iteration.intro [OF assms(1,2)]
  show ?thesis
    by (rule iterator.views_at [OF db_iteration.db_iterator_correct [OF db] db_iteration.NewDBIterator_at [OF db assms(3-5)]])
qed

text \<open>Three entries of two keys: at number 2 the first of them is too new, and the second key is deleted.\<close>

definition internal_example :: "entry list" where
  "internal_example = [([97, 1, 3, 0, 0, 0, 0, 0, 0], [1]), ([97, 1, 2, 0, 0, 0, 0, 0, 0], [2]), ([98, 0, 2, 0, 0, 0, 0, 0, 0], [])]"

abbreviation "internal_options \<equiv> Options_new\<lparr>o_comparator := InternalKeyComparator BytewiseComparator\<rparr>"

lemma internal_example_parsed:
  "map (\<lambda>e. ParseInternalKey (fst e)) internal_example =
    [Some \<lparr>user_key = [97], sequence = 3, type = 1\<rparr>, Some \<lparr>user_key = [97], sequence = 2, type = 1\<rparr>, Some \<lparr>user_key = [98], sequence = 2, type = 0\<rparr>]"
  by (simp add: internal_example_def ParseInternalKey_def ExtractNumber_def DecodeFixed64_def kTypeValue_def)

lemma internal_example_sorted: "internal_entries BytewiseComparator (\<lambda>_. True) internal_example"
  using internal_example_parsed
  by (simp add: internal_entries_def sorted_entries_def internal_example_def Internal_Compare_def ExtractUserKey_def
      ExtractNumber_def DecodeFixed64_def BytewiseComparator_def)

lemma internal_example_snapshot: "snapshot 2 internal_example = [([97], [2])]"
  using internal_example_parsed
  by (simp add: snapshot_def shown_def newest_def visible_def internal_example_def ExtractUserKey_def ExtractValueType_def
      ExtractNumber_def DecodeFixed64_def kTypeValue_def)

lemma internal_example_block: "\<exists>contents. build_block internal_options internal_example = Some contents \<and> length contents < 2 ^ 32"
  by (simp add: InternalKeyComparator_def Internal_Compare_def ExtractUserKey_def ExtractNumber_def DecodeFixed64_def PutFixed32_def
      BytewiseComparator_def build_block_def internal_example_def BlockBuilder_new_def BlockBuilder_Reset_def BlockBuilder_Add_def Add_shared_def
      Options_new_def PutVarint32_def EncodeVarint32_def CurrentSizeEstimate_def Let_def BlockBuilder_Finish_def)

theorem db_iterator_views_witness:
  "\<exists>contents b. build_block internal_options internal_example = Some contents \<and> open_block contents = Some b \<and>
    views (db_iterator (block_iterator (InternalKeyComparator BytewiseComparator)) BytewiseComparator) (Compare BytewiseComparator)
      (\<lambda>_. True) [([97], [2])] 1 (NewDBIterator b 2 301)"
proof -
  have opts: "o_comparator internal_options = InternalKeyComparator BytewiseComparator" by simp
  have "sorted_entries (Compare (o_comparator internal_options)) internal_example"
    using internal_example_sorted by (simp add: internal_entries_def InternalKeyComparator_def)
  moreover have "list_all (\<lambda>e. bytewise.ikey (fst e) \<and> length (fst e) < 2 ^ 32) internal_example"
    by (simp add: internal_example_def bytewise.ikey_def)
  ultimately obtain contents b where b: "build_block internal_options internal_example = Some contents" "open_block contents = Some b"
      "block_at (InternalKeyComparator BytewiseComparator) bytewise.ikey internal_example (length internal_example) b"
    using build_block_at [of internal_options bytewise.ikey internal_example] internal_example_block internal_bytewise.comparator_axioms
    unfolding opts by (auto simp: Options_new_def)
  from db_iterator_views [OF bytewise.comparator_axioms internal_bytewise.block_iterator_correct internal_example_sorted b(3), of 2 301] b(1,2)
  show ?thesis by (auto simp: internal_example_snapshot)
qed

section \<open>Version edits\<close>

text \<open>What the database does to an edit before it is written.\<close>

datatype edit_op = OpComparator slice | OpLogNumber u64 | OpPrevLogNumber u64 | OpNextFile u64 | OpLastSequence u64
  | OpCompactPointer nat slice | OpAddFile nat u64 u64 slice slice | OpDeleteFile nat u64

fun edit_step :: "edit_op \<Rightarrow> VersionEdit \<Rightarrow> VersionEdit" where
  "edit_step (OpComparator name) = SetComparatorName name"
| "edit_step (OpLogNumber n) = SetLogNumber n"
| "edit_step (OpPrevLogNumber n) = SetPrevLogNumber n"
| "edit_step (OpNextFile n) = SetNextFile n"
| "edit_step (OpLastSequence n) = SetLastSequence n"
| "edit_step (OpCompactPointer level k) = SetCompactPointer level k"
| "edit_step (OpAddFile level n file_size smallest largest) = AddFile level n file_size smallest largest"
| "edit_step (OpDeleteFile level n) = DeleteFile level n"

text \<open>Levels are below \<open>kNumLevels\<close>, keys are valid, and neither they nor the name are 4 GB long.\<close>

fun op_ok :: "edit_op \<Rightarrow> bool" where
  "op_ok (OpComparator name) \<longleftrightarrow> length name < 2 ^ 32"
| "op_ok (OpCompactPointer level k) \<longleftrightarrow> level < kNumLevels \<and> key_stored k"
| "op_ok (OpAddFile level n file_size smallest largest) \<longleftrightarrow> level < kNumLevels \<and> key_stored smallest \<and> key_stored largest"
| "op_ok (OpDeleteFile level n) \<longleftrightarrow> level < kNumLevels"
| "op_ok _ \<longleftrightarrow> True"

lemma edit_ok_fold: "list_all op_ok ops \<Longrightarrow> edit_ok e \<Longrightarrow> edit_ok (fold edit_step ops e)"
proof (induction ops arbitrary: e)
  case (Cons op ops)
  then have "edit_ok (edit_step op e)" by (cases op) (simp_all add: edit_ok_setters)
  with Cons show ?case by simp
qed simp

text \<open>C33: a version edit is read back from the manifest as it was written. An edit made by any sequence of
  calls is encoded, and decoding the bytes into an edit gives it back, whatever that edit held before,
  except for its compaction pointers: \<open>Clear\<close> does not remove them, so the decoded ones are put behind them.\<close>

theorem version_edit_roundtrip:
  assumes "list_all op_ok ops"
  shows "let e = fold edit_step ops VersionEdit_new in
    \<exists>bytes. VersionEdit_EncodeTo e [] = Some bytes \<and>
      VersionEdit_DecodeFrom bytes VersionEdit_new = (Status_OK, e) \<and>
      VersionEdit_DecodeFrom bytes e0 = (Status_OK, e\<lparr>compact_pointers := compact_pointers e0 @ compact_pointers e\<rparr>)"
proof -
  let ?e = "fold edit_step ops VersionEdit_new"
  note ok = edit_ok_fold [OF assms edit_ok_new]
  from decode_encoded [OF ok, of e0] decode_encoded [OF ok, of VersionEdit_new] show ?thesis
    by (auto simp: Let_def VersionEdit_new_def)
qed

lemma version_edit_roundtrip_witness:
  "\<exists>bytes. VersionEdit_EncodeTo (fold edit_step [OpLogNumber 9, OpCompactPointer 1 [97], OpAddFile 2 5 1000 [97] [98], OpDeleteFile 0 3]
      VersionEdit_new) [] = Some bytes \<and>
    compact_pointers (snd (VersionEdit_DecodeFrom bytes (SetCompactPointer 3 [99] VersionEdit_new))) = [(3, [99]), (1, [97])]"
proof -
  have "list_all op_ok [OpLogNumber 9, OpCompactPointer 1 [97], OpAddFile 2 5 1000 [97] [98], OpDeleteFile 0 3]"
    by (simp add: kNumLevels_def key_stored_def)
  from version_edit_roundtrip [OF this, of "SetCompactPointer 3 [99] VersionEdit_new"] show ?thesis
    by (auto simp: Let_def SetCompactPointer_def SetLogNumber_def AddFile_def DeleteFile_def VersionEdit_new_def)
qed

end
