(* ===== verification/Ldb_TableCache.thy ===== *)
theory Ldb_TableCache
  imports Ldb_Table_Spec
begin

text \<open>
  The table cache, \<open>db/table_cache.{h,cc}\<close>: it opens table files by their number and keeps them open. As for
  the block cache, \<open>tc_cache\<close> is what the cache answers to a lookup at the moment, and \<open>FindTable\<close> also
  returns what it inserts. \<open>tc_open\<close> is the environment's \<open>NewRandomAccessFile\<close>.
\<close>

section \<open>Iterators of several classes behind one pointer\<close>

text \<open>A virtual call on an object of one of two classes, and on an object that carries an argument.\<close>

definition sum_iterator :: "'s Iterator \<Rightarrow> 't Iterator \<Rightarrow> ('s + 't) Iterator" where
  "sum_iterator I J =
     \<lparr>it_Valid = case_sum (it_Valid I) (it_Valid J),
      it_SeekToFirst = case_sum (map_option Inl \<circ> it_SeekToFirst I) (map_option Inr \<circ> it_SeekToFirst J),
      it_SeekToLast = case_sum (map_option Inl \<circ> it_SeekToLast I) (map_option Inr \<circ> it_SeekToLast J),
      it_Seek = (\<lambda>t. case_sum (map_option Inl \<circ> it_Seek I t) (map_option Inr \<circ> it_Seek J t)),
      it_Next = case_sum (map_option Inl \<circ> it_Next I) (map_option Inr \<circ> it_Next J),
      it_Prev = case_sum (map_option Inl \<circ> it_Prev I) (map_option Inr \<circ> it_Prev J),
      it_key = case_sum (it_key I) (it_key J), it_value = case_sum (it_value I) (it_value J),
      it_status = case_sum (it_status I) (it_status J)\<rparr>"

definition arg_iterator :: "('a \<Rightarrow> 's Iterator) \<Rightarrow> ('a \<times> 's) Iterator" where
  "arg_iterator I =
     \<lparr>it_Valid = (\<lambda>(a, s). it_Valid (I a) s),
      it_SeekToFirst = (\<lambda>(a, s). map_option (Pair a) (it_SeekToFirst (I a) s)),
      it_SeekToLast = (\<lambda>(a, s). map_option (Pair a) (it_SeekToLast (I a) s)),
      it_Seek = (\<lambda>t (a, s). map_option (Pair a) (it_Seek (I a) t s)),
      it_Next = (\<lambda>(a, s). map_option (Pair a) (it_Next (I a) s)),
      it_Prev = (\<lambda>(a, s). map_option (Pair a) (it_Prev (I a) s)),
      it_key = (\<lambda>(a, s). it_key (I a) s), it_value = (\<lambda>(a, s). it_value (I a) s),
      it_status = (\<lambda>(a, s). it_status (I a) s)\<rparr>"

section \<open>The cache\<close>

text \<open>The last five fields are what reading a file depends on: see \<open>Ldb_Table\<close>.\<close>

record 'f TableCache =
  tc_open :: "byte list \<Rightarrow> status \<times> 'f option"
  tc_dbname :: "byte list"
  tc_options :: Options
  tc_cache :: "slice \<Rightarrow> 'f Table option"
  tc_addr :: "byte list \<Rightarrow> nat"
  tc_in_buffer :: bool
  tc_file :: "'f RandomAccessFile"
  tc_new_id :: u64
  tc_block_cache :: "(slice \<Rightarrow> Block option) option"

text \<open>The file under its name, or under the name older versions gave it.\<close>

definition open_table_file :: "'f TableCache \<Rightarrow> u64 \<Rightarrow> (status \<times> 'f option) option" where
  "open_table_file tc number =
     Option.bind (TableFileName (tc_dbname tc) number) (\<lambda>fname.
       case tc_open tc fname of (s, file) \<Rightarrow>
         if status_ok s then Some (s, file)
         else
           map_option (\<lambda>old_fname.
             case tc_open tc old_fname of (old_s, file) \<Rightarrow> if status_ok old_s then (Status_OK, file) else (s, file))
             (SSTTableFileName (tc_dbname tc) number))"

text \<open>The environment stores a file when it returns OK. The last part is what is inserted into the cache.\<close>

definition FindTable :: "'f TableCache \<Rightarrow> u64 \<Rightarrow> u64 \<Rightarrow> (status \<times> 'f Table option \<times> (slice \<times> 'f Table) option) option" where
  "FindTable tc number file_size =
     (let k = Fixed64 number in
      case tc_cache tc k of
        Some t \<Rightarrow> Some (Status_OK, Some t, None)
      | None \<Rightarrow>
          Option.bind (open_table_file tc number) (\<lambda>(s, file).
          Option.bind
            (if status_ok s
             then Option.bind file (\<lambda>file.
               Table_Open (tc_addr tc) (tc_in_buffer tc) (tc_file tc) (tc_new_id tc) (tc_options tc) file file_size)
             else Some (s, None)) (\<lambda>(s, table).
            if \<not> status_ok s then Some (s, None, None)
            else map_option (\<lambda>t. (s, Some t, Some (k, t))) table)))"

type_synonym 'f file_iter = "status + 'f Table \<times> (block_iter, block_iter) TwoLevel"

definition file_iterator :: "'f TableCache \<Rightarrow> ReadOptions \<Rightarrow> 'f file_iter Iterator" where
  "file_iterator tc ro =
     sum_iterator EmptyIterator
       (arg_iterator (\<lambda>t. table_iterator (tc_addr tc) (tc_in_buffer tc) (tc_file tc) (tc_block_cache tc) t ro))"

text \<open>The iterator, and the table stored through \<open>tableptr\<close>.\<close>

definition TableCache_NewIterator :: "'f TableCache \<Rightarrow> u64 \<Rightarrow> u64 \<Rightarrow> ('f file_iter \<times> 'f Table option) option" where
  "TableCache_NewIterator tc number file_size =
     Option.bind (FindTable tc number file_size) (\<lambda>(s, table, _).
       if \<not> status_ok s then Some (Inl (NewErrorIterator s), None)
       else Option.bind table (\<lambda>t. map_option (\<lambda>it. (Inr (t, it), Some t)) (Table_NewIterator t)))"

definition TableCache_Get ::
  "'f TableCache \<Rightarrow> ReadOptions \<Rightarrow> u64 \<Rightarrow> u64 \<Rightarrow> slice \<Rightarrow> ('a \<Rightarrow> slice \<Rightarrow> slice \<Rightarrow> 'a) \<Rightarrow> 'a \<Rightarrow> (status \<times> 'a) option" where
  "TableCache_Get tc ro number file_size k saver arg =
     Option.bind (FindTable tc number file_size) (\<lambda>(s, table, _).
       if status_ok s
       then Option.bind table (\<lambda>t.
         InternalGet (tc_addr tc) (tc_in_buffer tc) (tc_file tc) (tc_block_cache tc) t ro k saver arg)
       else Some (s, arg))"

definition TableCache_Evict :: "u64 \<Rightarrow> 'f TableCache \<Rightarrow> 'f TableCache" where
  "TableCache_Evict number tc = tc\<lparr>tc_cache := (tc_cache tc)(Fixed64 number := None)\<rparr>"

section \<open>Tables on disk\<close>

lemma iterator_facts:
  assumes "iterator I cmp target at"
  shows "at es i s \<Longrightarrow> i \<le> length es" and "at es i s \<Longrightarrow> it_Valid I s \<longleftrightarrow> i < length es"
    and "at es i s \<Longrightarrow> i < length es \<Longrightarrow> it_key I s = Some (fst (es ! i))"
    and "at es i s \<Longrightarrow> i < length es \<Longrightarrow> it_value I s = Some (snd (es ! i))"
    and "at es i s \<Longrightarrow> it_status I s = Status_OK"
  by (simp_all add: iterator.within [OF assms] iterator.Valid [OF assms] iterator.key_now [OF assms]
      iterator.value_now [OF assms] iterator.status_now [OF assms])

lemma iterator_moves:
  assumes "iterator I cmp target at" and "at es i s"
  shows "\<exists>s'. it_SeekToFirst I s = Some s' \<and> at es 0 s'" and "\<exists>s'. it_SeekToLast I s = Some s' \<and> at es (length es - 1) s'"
    and "target t \<Longrightarrow> \<exists>s'. it_Seek I t s = Some s' \<and> at es (seek_index cmp t es) s'"
    and "i < length es \<Longrightarrow> \<exists>s'. it_Next I s = Some s' \<and> at es (i + 1) s'"
    and "i < length es \<Longrightarrow> \<exists>s'. it_Prev I s = Some s' \<and> at es (if i = 0 then length es else i - 1) s'"
  by (rule iterator.SeekToFirst [OF assms] iterator.SeekToLast [OF assms] iterator.Seek [OF assms]
      iterator.Next [OF assms] iterator.Prev [OF assms], assumption?)+

lemma sum_iterator_correct:
  assumes "iterator I cmp target at1" and "iterator J cmp target at2"
  shows "iterator (sum_iterator I J) cmp target (\<lambda>es i. case_sum (at1 es i) (at2 es i))"
proof
  fix es i s
  assume at: "(case s of Inl x \<Rightarrow> at1 es i x | Inr x \<Rightarrow> at2 es i x)"
  note facts = iterator_facts [OF assms(1)] iterator_facts [OF assms(2)]
  show "i \<le> length es" "it_Valid (sum_iterator I J) s \<longleftrightarrow> i < length es" "it_status (sum_iterator I J) s = Status_OK"
    using at facts by (auto simp: sum_iterator_def split: sum.splits)
  show "it_key (sum_iterator I J) s = Some (fst (es ! i))" "it_value (sum_iterator I J) s = Some (snd (es ! i))" if "i < length es"
    using at facts that by (auto simp: sum_iterator_def split: sum.splits)
  note moves = iterator_moves [OF assms(1)] iterator_moves [OF assms(2)]
  show "\<exists>s'. it_SeekToFirst (sum_iterator I J) s = Some s' \<and> (case s' of Inl x \<Rightarrow> at1 es 0 x | Inr x \<Rightarrow> at2 es 0 x)"
    using at moves(1,6) by (cases s) (fastforce simp: sum_iterator_def)+
  show "\<exists>s'. it_SeekToLast (sum_iterator I J) s = Some s' \<and>
      (case s' of Inl x \<Rightarrow> at1 es (length es - 1) x | Inr x \<Rightarrow> at2 es (length es - 1) x)"
    using at moves(2,7) by (cases s) (fastforce simp: sum_iterator_def)+
  show "\<exists>s'. it_Seek (sum_iterator I J) t s = Some s' \<and>
      (case s' of Inl x \<Rightarrow> at1 es (seek_index cmp t es) x | Inr x \<Rightarrow> at2 es (seek_index cmp t es) x)" if "target t" for t
    using at moves(3,8) that by (cases s) (fastforce simp: sum_iterator_def)+
  show "\<exists>s'. it_Next (sum_iterator I J) s = Some s' \<and> (case s' of Inl x \<Rightarrow> at1 es (i + 1) x | Inr x \<Rightarrow> at2 es (i + 1) x)"
    if "i < length es"
    using at moves(4,9) that by (cases s) (fastforce simp: sum_iterator_def)+
  show "\<exists>s'. it_Prev (sum_iterator I J) s = Some s' \<and> (case s' of Inl x \<Rightarrow> at1 es (if i = 0 then length es else i - 1) x
      | Inr x \<Rightarrow> at2 es (if i = 0 then length es else i - 1) x)" if "i < length es"
    using at moves(5,10) that by (cases s) (fastforce simp: sum_iterator_def)+
qed

lemma arg_iterator_correct:
  assumes "\<And>a. P a \<Longrightarrow> iterator (I a) cmp target (at a)"
  shows "iterator (arg_iterator I) cmp target (\<lambda>es i (a, s). P a \<and> at a es i s)"
proof
  fix es i s
  assume at0: "(case s of (a, s) \<Rightarrow> P a \<and> at a es i s)"
  obtain a u where s: "s = (a, u)" by (cases s)
  with at0 have it: "iterator (I a) cmp target (at a)" and at: "at a es i u" and P: "P a" using assms by simp_all
  note facts = iterator_facts [OF it at] and moves = iterator_moves [OF it at]
  show "i \<le> length es" "it_Valid (arg_iterator I) s \<longleftrightarrow> i < length es" "it_status (arg_iterator I) s = Status_OK"
    using facts by (simp_all add: arg_iterator_def s)
  show "it_key (arg_iterator I) s = Some (fst (es ! i))" "it_value (arg_iterator I) s = Some (snd (es ! i))" if "i < length es"
    using facts that by (simp_all add: arg_iterator_def s)
  show "\<exists>s'. it_SeekToFirst (arg_iterator I) s = Some s' \<and> (case s' of (a, s) \<Rightarrow> P a \<and> at a es 0 s)"
    "\<exists>s'. it_SeekToLast (arg_iterator I) s = Some s' \<and> (case s' of (a, s) \<Rightarrow> P a \<and> at a es (length es - 1) s)"
    using moves(1,2) P by (auto simp: arg_iterator_def s)
  show "\<exists>s'. it_Seek (arg_iterator I) t s = Some s' \<and> (case s' of (a, s) \<Rightarrow> P a \<and> at a es (seek_index cmp t es) s)" if "target t" for t
    using moves(3) [OF that] P by (auto simp: arg_iterator_def s)
  show "\<exists>s'. it_Next (arg_iterator I) s = Some s' \<and> (case s' of (a, s) \<Rightarrow> P a \<and> at a es (i + 1) s)"
    "\<exists>s'. it_Prev (arg_iterator I) s = Some s' \<and> (case s' of (a, s) \<Rightarrow> P a \<and> at a es (if i = 0 then length es else i - 1) s)"
    if "i < length es"
    using moves(4,5) [OF that] P by (auto simp: arg_iterator_def s)
qed

text \<open>
  What the table cache gives for a file that holds a table: an iterator over its entries, and lookups that hand
  out the first entry at or behind a key unless that belongs to another user key.
\<close>

text \<open>
  The file of that number and size is a table with these entries; a table in the cache is that file opened
  before, and the block cache only holds blocks of the file.
\<close>

definition stored ::
  "('f \<Rightarrow> byte list \<Rightarrow> bool) \<Rightarrow> Comparator \<Rightarrow> (slice \<Rightarrow> bool) \<Rightarrow> 'f TableCache \<Rightarrow> u64 \<Rightarrow> u64 \<Rightarrow> entry list \<Rightarrow> bool" where
  "stored holds C key tc number file_size es \<longleftrightarrow>
     (\<exists>g bytes. open_table_file tc number = Some (Status_OK, Some g) \<and> holds g bytes \<and> length bytes < 2 ^ 32 \<and>
        file_size = of_nat (length bytes) \<and> table_layout C key (tc_options tc) bytes es \<and>
        (\<forall>t. tc_cache tc (Fixed64 number) = Some t \<longrightarrow>
           (\<exists>id. Table_Open (tc_addr tc) (tc_in_buffer tc) (tc_file tc) id (tc_options tc) g file_size = Some (Status_OK, Some t))) \<and>
        (\<forall>id t ro. Table_Open (tc_addr tc) (tc_in_buffer tc) (tc_file tc) id (tc_options tc) g file_size = Some (Status_OK, Some t) \<longrightarrow>
           cache_ok (tc_addr tc) (tc_in_buffer tc) (tc_file tc) t ro (tc_block_cache tc)))"

locale cached_tables = table_reading "tc_file tc" holds C key "tc_options tc"
  for tc :: "'g TableCache" and holds C key
begin

lemma FindTable_stored:
  assumes "stored holds C key tc number file_size es"
  shows "\<exists>t inserted ds cs ies g. FindTable tc number file_size = Some (Status_OK, Some t, inserted) \<and> es = concat ds \<and>
    opened holds C key (tc_options tc) g ds cs ies t \<and>
    (\<forall>ro. cache_ok (tc_addr tc) (tc_in_buffer tc) (tc_file tc) t ro (tc_block_cache tc))"
proof -
  from assms obtain g bytes where g: "open_table_file tc number = Some (Status_OK, Some g)" "holds g bytes" "length bytes < 2 ^ 32"
      "file_size = of_nat (length bytes)" "table_layout C key (tc_options tc) bytes es"
    and cached: "\<And>t. tc_cache tc (Fixed64 number) = Some t \<Longrightarrow>
      \<exists>id. Table_Open (tc_addr tc) (tc_in_buffer tc) (tc_file tc) id (tc_options tc) g file_size = Some (Status_OK, Some t)"
    and blocks: "\<And>id t ro. Table_Open (tc_addr tc) (tc_in_buffer tc) (tc_file tc) id (tc_options tc) g file_size = Some (Status_OK, Some t) \<Longrightarrow>
      cache_ok (tc_addr tc) (tc_in_buffer tc) (tc_file tc) t ro (tc_block_cache tc)"
    unfolding stored_def by blast
  have opens: "\<exists>t ds cs ies. Table_Open (tc_addr tc) (tc_in_buffer tc) (tc_file tc) id (tc_options tc) g file_size = Some (Status_OK, Some t) \<and>
      es = concat ds \<and> opened holds C key (tc_options tc) g ds cs ies t" for id
    using Table_Open_layout [OF g(2,3,5)] unfolding g(4) by blast
  show ?thesis
  proof (cases "tc_cache tc (Fixed64 number)")
    case None
    from opens [of "tc_new_id tc"] obtain t ds cs ies where
      t: "Table_Open (tc_addr tc) (tc_in_buffer tc) (tc_file tc) (tc_new_id tc) (tc_options tc) g file_size = Some (Status_OK, Some t)"
        "es = concat ds" "opened holds C key (tc_options tc) g ds cs ies t" by blast
    have "FindTable tc number file_size = Some (Status_OK, Some t, Some (Fixed64 number, t))"
      using None g(1) t(1) by (simp add: FindTable_def)
    with t blocks [OF t(1)] show ?thesis by blast
  next
    case (Some t)
    from cached [OF Some] obtain id where
      id: "Table_Open (tc_addr tc) (tc_in_buffer tc) (tc_file tc) id (tc_options tc) g file_size = Some (Status_OK, Some t)" by blast
    with opens [of id] have "\<exists>ds cs ies. es = concat ds \<and> opened holds C key (tc_options tc) g ds cs ies t" by auto
    moreover have "FindTable tc number file_size = Some (Status_OK, Some t, None)" using Some by (simp add: FindTable_def)
    ultimately show ?thesis using blocks [OF id] by blast
  qed
qed

lemma TableCache_Get_at:
  assumes "stored holds C key tc number file_size es" and "key k"
  defines "i \<equiv> seek_index (Compare C) k es"
  shows "\<exists>a (t :: 'g Table). TableCache_Get tc ro number file_size k saver arg = Some (Status_OK, a) \<and>
    (\<forall>P r. t_filter t = Some (P, r) \<longrightarrow> o_filter_policy (tc_options tc) = Some P) \<and>
    (a = arg \<and> (i < length es \<longrightarrow> passed_over C key t k (fst (es ! i))) \<or>
     i < length es \<and> a = saver arg (fst (es ! i)) (snd (es ! i)))"
proof -
  from FindTable_stored [OF assms(1)] obtain t inserted ds cs ies g where
    t: "FindTable tc number file_size = Some (Status_OK, Some t, inserted)" "es = concat ds"
      "opened holds C key (tc_options tc) g ds cs ies t"
      "cache_ok (tc_addr tc) (tc_in_buffer tc) (tc_file tc) t ro (tc_block_cache tc)" by blast
  have "\<forall>P r. t_filter t = Some (P, r) \<longrightarrow> o_filter_policy (tc_options tc) = Some P"
    using t(3) unfolding opened_def by blast
  moreover have "TableCache_Get tc ro number file_size k saver arg =
      InternalGet (tc_addr tc) (tc_in_buffer tc) (tc_file tc) (tc_block_cache tc) t ro k saver arg"
    using t(1) by (simp add: TableCache_Get_def)
  moreover obtain a where "InternalGet (tc_addr tc) (tc_in_buffer tc) (tc_file tc) (tc_block_cache tc) t ro k saver arg = Some (Status_OK, a)"
    "a = arg \<and> (i < length es \<longrightarrow> passed_over C key t k (fst (es ! i))) \<or> i < length es \<and> a = saver arg (fst (es ! i)) (snd (es ! i))"
    using InternalGet_at [OF t(3,4) assms(2), of saver arg] unfolding i_def t(2) by blast
  ultimately show ?thesis by (intro exI [of _ a] exI [of _ t]) simp
qed

text \<open>Iterators.\<close>

definition table_at :: "ReadOptions \<Rightarrow> 'g Table \<Rightarrow> entry list \<Rightarrow> nat \<Rightarrow> (block_iter, block_iter) TwoLevel \<Rightarrow> bool" where
  "table_at ro t = two_level_at C key (block_at C key) (block_at C key)
     (table_blocks (tc_addr tc) (tc_in_buffer tc) (tc_file tc) (tc_block_cache tc) t ro)"

definition file_at :: "ReadOptions \<Rightarrow> entry list \<Rightarrow> nat \<Rightarrow> 'g file_iter \<Rightarrow> bool" where
  "file_at ro es i = case_sum (\<lambda>s. es = [] \<and> i = 0 \<and> s = NewEmptyIterator)
     (\<lambda>(t, s). o_comparator (t_options t) = C \<and> table_at ro t es i s)"

lemma file_iterator_correct: "iterator (file_iterator tc ro) (Compare C) key (file_at ro)"
proof -
  have "iterator EmptyIterator (Compare C) key (\<lambda>es i s. es = [] \<and> i = 0 \<and> s = NewEmptyIterator)"
    by unfold_locales (auto simp: NewEmptyIterator_def seek_index_def)
  moreover have "iterator (arg_iterator (\<lambda>t. table_iterator (tc_addr tc) (tc_in_buffer tc) (tc_file tc) (tc_block_cache tc) t ro))
      (Compare C) key (\<lambda>es i (t, s). o_comparator (t_options t) = C \<and> table_at ro t es i s)"
    using two_level.two_level_iterator_correct [OF levels]
    by (intro arg_iterator_correct) (simp add: table_iterator_def table_at_def Let_def)
  ultimately show ?thesis unfolding file_iterator_def file_at_def by (rule sum_iterator_correct)
qed

lemma TableCache_NewIterator_at:
  assumes "stored holds C key tc number file_size es"
  shows "\<exists>it t. TableCache_NewIterator tc number file_size = Some (it, Some t) \<and> file_at ro es (length es) it"
proof -
  from FindTable_stored [OF assms] obtain t inserted ds cs ies g where
    t: "FindTable tc number file_size = Some (Status_OK, Some t, inserted)" "es = concat ds"
      "opened holds C key (tc_options tc) g ds cs ies t"
      "cache_ok (tc_addr tc) (tc_in_buffer tc) (tc_file tc) t ro (tc_block_cache tc)" by blast
  from Table_NewIterator_state [OF t(3,4)] obtain s where
    "Table_NewIterator t = Some s" "table_at ro t es (length es) s" unfolding table_at_def t(2) by blast
  moreover have "o_comparator (t_options t) = C" using t(3) by (simp add: opened_def comparator)
  ultimately show ?thesis using t(1) by (simp add: TableCache_NewIterator_def file_at_def)
qed

end

sublocale cached_tables \<subseteq> files: iterator "file_iterator tc ro" "Compare C" key "file_at ro" for ro
  by (rule file_iterator_correct)

interpretation mapped_cache: cached_tables "tc\<lparr>tc_file := posix_mmap_file, tc_options := database_options bits_per_key\<rparr>"
    "\<lambda>f bytes. mm_region f = bytes" "InternalKeyComparator BytewiseComparator" bytewise.ikey for tc bits_per_key
  by (simp add: cached_tables_def mapped_tables.table_reading_axioms)

section \<open>Internal keys\<close>

definition on_user_keys :: "Options \<Rightarrow> bool" where
  "on_user_keys options \<longleftrightarrow> (\<forall>P. o_filter_policy options = Some P \<longrightarrow> (\<exists>P'. P = InternalFilterPolicy P'))"

context comparator
begin

lemma separates_user:
  assumes "ikey a" "ikey k" "ikey x" and "Internal_Compare C a k < 0" and "Internal_Compare C k sep \<le> 0"
    and "separates (InternalKeyComparator C) ikey a sep x"
  shows "ExtractUserKey k \<noteq> ExtractUserKey x"
proof
  assume same: "ExtractUserKey k = ExtractUserKey x"
  from assms(6) obtain y where y: "ikey y" "Internal_Compare C a y < 0" "Internal_Compare C y x \<le> 0"
    and sep: "sep = Internal_FindShortestSeparator C a y" by (auto simp: separates_def InternalKeyComparator_def)
  let ?u = "ExtractUserKey a" and ?t = "FindShortestSeparator C (ExtractUserKey a) (ExtractUserKey y)"
  have u: "key ?u" "key (ExtractUserKey k)" "key (ExtractUserKey y)" "key (ExtractUserKey x)" using assms(1-3) y(1) by (simp_all add: ikey_def)
  have "sep \<noteq> a"
  proof
    assume "sep = a"
    with assms(4,5) comparator.not_less [OF Internal_comparator assms(1,2)] comparator.flip [OF Internal_comparator assms(2,1)]
    show False by (simp add: InternalKeyComparator_def)
  qed
  then have t: "length ?t < length ?u" "Compare C ?u ?t < 0" and s: "sep = ?t @ Fixed64 (PackSequenceAndType kMaxSequenceNumber kValueTypeForSeek)"
    by (auto simp: sep Internal_FindShortestSeparator_def shorten_def PutFixed64_def Let_def split: if_splits)
  have "Compare C ?u (ExtractUserKey y) < 0" using separator_unchanged [OF u(1,3)] t(1) by fastforce
  from separator [OF u(1,3) this] have "Compare C ?t (ExtractUserKey y) < 0" "key ?t" by simp_all
  moreover have "Compare C (ExtractUserKey y) (ExtractUserKey x) \<le> 0" using y(3) by (auto simp: Internal_Compare_le)
  ultimately have "Compare C ?t (ExtractUserKey x) < 0" using less_le_trans [of ?t "ExtractUserKey y" "ExtractUserKey x"] u by simp
  moreover have "Compare C (ExtractUserKey k) ?t \<le> 0" using assms(5) by (auto simp: s Internal_Compare_le)
  ultimately have "Compare C (ExtractUserKey k) (ExtractUserKey x) < 0" using le_less_trans u \<open>key ?t\<close> by blast
  with same u(2) show False by simp
qed

lemma passed_over_user:
  assumes "passed_over (InternalKeyComparator C) ikey t k x" and "ikey k" "ikey x"
    and "\<And>P r. t_filter t = Some (P, r) \<Longrightarrow> \<exists>P'. P = InternalFilterPolicy P'"
  shows "ExtractUserKey k \<noteq> ExtractUserKey x"
  using assms(1) unfolding passed_over_def
proof (elim disjE exE conjE)
  fix a sep
  assume "ikey a" "Compare (InternalKeyComparator C) a k < 0" "Compare (InternalKeyComparator C) k sep \<le> 0"
    "separates (InternalKeyComparator C) ikey a sep x"
  with separates_user [of a k x sep] assms(2,3) show ?thesis by (simp add: InternalKeyComparator_def)
next
  fix P r off
  assume "t_filter t = Some (P, r)" and f: "FilterBlock_KeyMayMatch P off k r = Some False" "FilterBlock_KeyMayMatch P off x r = Some True"
  with assms(4) obtain P' where P: "P = InternalFilterPolicy P'" by blast
  have "KeyMayMatch P k = KeyMayMatch P x" if "ExtractUserKey k = ExtractUserKey x"
    using that assms(2,3) by (simp add: P InternalFilterPolicy_def ikey_def)
  then have "FilterBlock_KeyMayMatch P off k r = FilterBlock_KeyMayMatch P off x r" if "ExtractUserKey k = ExtractUserKey x"
    using that by (simp only: FilterBlock_KeyMayMatch_def)
  with f show ?thesis by auto
qed

end

end
