(* ===== verification/Ldb_Version.thy ===== *)
theory Ldb_Version
  imports Complex_Main Ldb_TableCache Ldb_VersionEdit
begin

text \<open>
  Versions, the first half of \<open>db/version_set.{h,cc}\<close>: the table files of each level, and reading from them.
  Several versions share the objects that describe files, so a \<open>FileMetaData*\<close> is an address and \<open>h\<close> is
  the store of these objects. Levels, indices and numbers of files are far below \<open>2 ^ 31\<close>. The assertions that
  an internal key is valid are hypotheses of the lemmas.
\<close>

type_synonym file_ref = nat
type_synonym files = "file_ref \<Rightarrow> FileMetaData"

abbreviation "smallest_user h f \<equiv> ExtractUserKey (f_smallest (h f))"
abbreviation "largest_user h f \<equiv> ExtractUserKey (f_largest (h f))"

section \<open>Sizes\<close>

text \<open>\<open>int\<close> has 32 bits: the products wrap around when the files are large.\<close>

definition TargetFileSize :: "Options \<Rightarrow> u32" where
  "TargetFileSize options = of_nat (max_file_size options)"

definition MaxGrandParentOverlapBytes :: "Options \<Rightarrow> int" where
  "MaxGrandParentOverlapBytes options = sint (10 * TargetFileSize options)"

definition ExpandedCompactionByteSizeLimit :: "Options \<Rightarrow> int" where
  "ExpandedCompactionByteSizeLimit options = sint (25 * TargetFileSize options)"

text \<open>The values are integers below \<open>2 ^ 53\<close>, which a \<open>double\<close> holds exactly.\<close>

fun MaxBytesForLevel :: "nat \<Rightarrow> rat" where
  "MaxBytesForLevel level = (if 1 < level then MaxBytesForLevel (level - 1) * 10 else 10 * 1048576)"

declare MaxBytesForLevel.simps [simp del]

definition MaxFileSizeForLevel :: "Options \<Rightarrow> nat \<Rightarrow> u64" where
  "MaxFileSizeForLevel options level = scast (TargetFileSize options)"

definition TotalFileSize :: "files \<Rightarrow> file_ref list \<Rightarrow> int" where
  "TotalFileSize h fs = sint (foldl (\<lambda>sum f. sum + f_file_size (h f)) (0 :: u64) fs)"

section \<open>Finding files\<close>

function FindFile_loop :: "(slice \<Rightarrow> slice \<Rightarrow> int) \<Rightarrow> files \<Rightarrow> file_ref list \<Rightarrow> slice \<Rightarrow> nat \<Rightarrow> nat \<Rightarrow> nat" where
  "FindFile_loop cmp h fs k left right =
     (if left < right then
        let mid = (left + right) div 2 in
        if cmp (f_largest (h (fs ! mid))) k < 0 then FindFile_loop cmp h fs k (mid + 1) right
        else FindFile_loop cmp h fs k left mid
      else right)"
  by pat_completeness auto
termination by (relation "measure (\<lambda>(_, _, _, _, left, right). right - left)") auto

declare FindFile_loop.simps [simp del]

definition FindFile :: "Comparator \<Rightarrow> files \<Rightarrow> file_ref list \<Rightarrow> slice \<Rightarrow> nat" where
  "FindFile user h fs k = FindFile_loop (Internal_Compare user) h fs k 0 (length fs)"

definition AfterFile :: "Comparator \<Rightarrow> files \<Rightarrow> slice option \<Rightarrow> file_ref \<Rightarrow> bool" where
  "AfterFile user h target f \<longleftrightarrow> (case target of None \<Rightarrow> False | Some u \<Rightarrow> 0 < Compare user u (largest_user h f))"

definition BeforeFile :: "Comparator \<Rightarrow> files \<Rightarrow> slice option \<Rightarrow> file_ref \<Rightarrow> bool" where
  "BeforeFile user h target f \<longleftrightarrow> (case target of None \<Rightarrow> False | Some u \<Rightarrow> Compare user u (smallest_user h f) < 0)"

fun some_overlap :: "Comparator \<Rightarrow> files \<Rightarrow> slice option \<Rightarrow> slice option \<Rightarrow> file_ref list \<Rightarrow> bool" where
  "some_overlap user h small large [] \<longleftrightarrow> False"
| "some_overlap user h small large (f # fs) \<longleftrightarrow>
     (if AfterFile user h small f \<or> BeforeFile user h large f then some_overlap user h small large fs else True)"

definition SomeFileOverlapsRange ::
  "Comparator \<Rightarrow> files \<Rightarrow> bool \<Rightarrow> file_ref list \<Rightarrow> slice option \<Rightarrow> slice option \<Rightarrow> bool" where
  "SomeFileOverlapsRange user h disjoint_sorted_files fs small large \<longleftrightarrow>
     (if \<not> disjoint_sorted_files then some_overlap user h small large fs
      else
        let index = (case small of None \<Rightarrow> 0
              | Some u \<Rightarrow> FindFile user h fs (InternalKey_new u kMaxSequenceNumber kValueTypeForSeek)) in
        if length fs \<le> index then False else \<not> BeforeFile user h large (fs ! index))"

section \<open>Iterating over the files of a level\<close>

record LevelFileNumIterator =
  li_flist :: "file_ref list"
  li_index :: nat

definition LevelFileNumIterator_new :: "file_ref list \<Rightarrow> LevelFileNumIterator" where
  "LevelFileNumIterator_new fs = \<lparr>li_flist = fs, li_index = length fs\<rparr>"

definition li_current :: "files \<Rightarrow> LevelFileNumIterator \<Rightarrow> FileMetaData option" where
  "li_current h s = (if li_index s < length (li_flist s) then Some (h (li_flist s ! li_index s)) else None)"

definition li_Prev :: "files \<Rightarrow> LevelFileNumIterator \<Rightarrow> LevelFileNumIterator option" where
  "li_Prev h s =
     map_option (\<lambda>_. s\<lparr>li_index := (if li_index s = 0 then length (li_flist s) else li_index s - 1)\<rparr>) (li_current h s)"

definition file_value :: "FileMetaData \<Rightarrow> slice" where
  "file_value f = Fixed64 (f_number f) @ Fixed64 (f_file_size f)"

definition level_file_iterator :: "Comparator \<Rightarrow> files \<Rightarrow> LevelFileNumIterator Iterator" where
  "level_file_iterator user h =
     \<lparr>it_Valid = (\<lambda>s. li_index s < length (li_flist s)),
      it_SeekToFirst = (\<lambda>s. Some (s\<lparr>li_index := 0\<rparr>)),
      it_SeekToLast = (\<lambda>s. Some (s\<lparr>li_index := (if li_flist s = [] then 0 else length (li_flist s) - 1)\<rparr>)),
      it_Seek = (\<lambda>t s. Some (s\<lparr>li_index := FindFile user h (li_flist s) t\<rparr>)),
      it_Next = (\<lambda>s. map_option (\<lambda>_. s\<lparr>li_index := li_index s + 1\<rparr>) (li_current h s)),
      it_Prev = li_Prev h,
      it_key = (\<lambda>s. map_option f_largest (li_current h s)), it_value = (\<lambda>s. map_option file_value (li_current h s)),
      it_status = (\<lambda>_. Status_OK)\<rparr>"

definition GetFileIterator :: "'f TableCache \<Rightarrow> slice \<Rightarrow> 'f file_iter option" where
  "GetFileIterator tc v =
     (if length v \<noteq> 16
      then Some (Inl (NewErrorIterator (Corruption (bytes_of ''FileReader invoked with unexpected value'') [])))
      else
        Option.bind (DecodeFixed64 True v) (\<lambda>number.
        Option.bind (DecodeFixed64 True (drop 8 v)) (\<lambda>file_size.
        map_option fst (TableCache_NewIterator tc number file_size))))"

type_synonym 'f level_iter = "(LevelFileNumIterator, 'f file_iter) TwoLevel"

definition concatenating_iterator :: "Comparator \<Rightarrow> files \<Rightarrow> 'f TableCache \<Rightarrow> ReadOptions \<Rightarrow> 'f level_iter Iterator" where
  "concatenating_iterator user h tc ro =
     two_level_iterator (level_file_iterator user h) (file_iterator tc ro) (GetFileIterator tc)"

definition NewConcatenatingIterator :: "Comparator \<Rightarrow> files \<Rightarrow> file_ref list \<Rightarrow> 'f level_iter option" where
  "NewConcatenatingIterator user h fs = TwoLevel_new (level_file_iterator user h) (LevelFileNumIterator_new fs)"

section \<open>Versions\<close>

text \<open>The place in the list of versions and the pointer to the version set are kept by the version set.\<close>

record Version =
  v_refs :: int
  v_files :: "nat \<Rightarrow> file_ref list"
  v_file_to_compact :: "file_ref option"
  v_file_to_compact_level :: int
  v_compaction_score :: rat
  v_compaction_level :: int

definition Version_new :: Version where
  "Version_new =
     \<lparr>v_refs = 0, v_files = (\<lambda>_. []), v_file_to_compact = None, v_file_to_compact_level = - 1,
      v_compaction_score = - 1, v_compaction_level = - 1\<rparr>"

definition NumFiles :: "nat \<Rightarrow> Version \<Rightarrow> nat" where
  "NumFiles level v = length (v_files v level)"

type_synonym 'f version_iter = "'f file_iter + 'f level_iter"

definition version_iterator :: "Comparator \<Rightarrow> files \<Rightarrow> 'f TableCache \<Rightarrow> ReadOptions \<Rightarrow> 'f version_iter Iterator" where
  "version_iterator user h tc ro = sum_iterator (file_iterator tc ro) (concatenating_iterator user h tc ro)"

fun those_of :: "'a option list \<Rightarrow> 'a list option" where
  "those_of [] = Some []"
| "those_of (x # xs) = Option.bind x (\<lambda>x. map_option ((#) x) (those_of xs))"

text \<open>What is appended to \<open>iters\<close>.\<close>

definition AddIterators :: "Comparator \<Rightarrow> files \<Rightarrow> 'f TableCache \<Rightarrow> Version \<Rightarrow> 'f version_iter list option" where
  "AddIterators user h tc v =
     those_of
       (map (\<lambda>f. map_option (Inl \<circ> fst) (TableCache_NewIterator tc (f_number (h f)) (f_file_size (h f)))) (v_files v 0) @
        map (\<lambda>level. map_option Inr (NewConcatenatingIterator user h (v_files v level)))
          (filter (\<lambda>level. v_files v level \<noteq> []) [1..<kNumLevels]))"

section \<open>Looking up a key\<close>

datatype SaverState = kNotFound | kFound | kDeleted | kCorrupt

definition SaveValue :: "Comparator \<Rightarrow> slice \<Rightarrow> SaverState \<times> slice \<Rightarrow> slice \<Rightarrow> slice \<Rightarrow> SaverState \<times> slice" where
  "SaveValue user u s ikey v =
     (case ParseInternalKey ikey of
        None \<Rightarrow> (kCorrupt, snd s)
      | Some p \<Rightarrow>
          if Compare user (user_key p) u = 0 then (if type p = kTypeValue then (kFound, v) else (kDeleted, snd s))
          else s)"

text \<open>\<open>std::sort\<close> with \<open>NewestFirst\<close>; the numbers of the files of a level differ.\<close>

definition newest_first :: "files \<Rightarrow> file_ref list \<Rightarrow> file_ref list" where
  "newest_first h = sort_key (\<lambda>f. - int (unat (f_number (h f))))"

definition level0_overlapping :: "Comparator \<Rightarrow> files \<Rightarrow> slice \<Rightarrow> file_ref list \<Rightarrow> file_ref list" where
  "level0_overlapping user h u fs =
     filter (\<lambda>f. 0 \<le> Compare user u (smallest_user h f) \<and> Compare user u (largest_user h f) \<le> 0) fs"

text \<open>The files of a level that may have the key, in the order in which they are searched.\<close>

definition level_candidates :: "Comparator \<Rightarrow> files \<Rightarrow> slice \<Rightarrow> slice \<Rightarrow> nat \<Rightarrow> file_ref list \<Rightarrow> file_ref list" where
  "level_candidates user h u ikey level fs =
     (if level = 0 then newest_first h (level0_overlapping user h u fs)
      else
        let index = FindFile user h fs ikey in
        if length fs \<le> index then []
        else if Compare user u (smallest_user h (fs ! index)) < 0 then []
        else [fs ! index])"

fun until_false :: "('a \<Rightarrow> nat \<Rightarrow> file_ref \<Rightarrow> bool \<times> 'a) \<Rightarrow> (nat \<times> file_ref) list \<Rightarrow> 'a \<Rightarrow> 'a" where
  "until_false func [] arg = arg"
| "until_false func ((level, f) # fs) arg =
     (case func arg level f of (again, arg) \<Rightarrow> if again then until_false func fs arg else arg)"

definition candidates :: "Comparator \<Rightarrow> files \<Rightarrow> Version \<Rightarrow> slice \<Rightarrow> slice \<Rightarrow> (nat \<times> file_ref) list" where
  "candidates user h v u ikey =
     concat (map (\<lambda>level. map (Pair level) (level_candidates user h u ikey level (v_files v level))) [0..<kNumLevels])"

definition ForEachOverlapping ::
  "Comparator \<Rightarrow> files \<Rightarrow> Version \<Rightarrow> slice \<Rightarrow> slice \<Rightarrow> ('a \<Rightarrow> nat \<Rightarrow> file_ref \<Rightarrow> bool \<times> 'a) \<Rightarrow> 'a \<Rightarrow> 'a" where
  "ForEachOverlapping user h v u ikey func = until_false func (candidates user h v u ikey)"

record GetStats =
  seek_file :: "file_ref option"
  seek_file_level :: int

definition GetStats_new :: GetStats where
  "GetStats_new = \<lparr>seek_file = None, seek_file_level = - 1\<rparr>"

text \<open>\<open>last_file_read\<close> with its level, \<open>*value\<close> and \<open>*stats\<close> while the files are searched.\<close>

record Search =
  sr_last :: "(file_ref \<times> int) option"
  sr_value :: slice
  sr_stats :: GetStats

definition charge_seek :: "nat \<Rightarrow> file_ref \<Rightarrow> Search \<Rightarrow> Search" where
  "charge_seek level f s =
     (let stats = (case sr_last s of
            Some (last_file, last_level) \<Rightarrow>
              if seek_file (sr_stats s) = None then \<lparr>seek_file = Some last_file, seek_file_level = last_level\<rparr> else sr_stats s
          | None \<Rightarrow> sr_stats s) in
      s\<lparr>sr_stats := stats, sr_last := Some (f, int level)\<rparr>)"

fun search_files ::
  "Comparator \<Rightarrow> files \<Rightarrow> 'f TableCache \<Rightarrow> ReadOptions \<Rightarrow> slice \<Rightarrow> slice \<Rightarrow> (nat \<times> file_ref) list \<Rightarrow> Search \<Rightarrow> (status \<times> Search) option" where
  "search_files user h tc ro u ikey [] s = Some (NotFound [] [], s)"
| "search_files user h tc ro u ikey ((level, f) # fs) s =
     (let s = charge_seek level f s in
      Option.bind
        (TableCache_Get tc ro (f_number (h f)) (f_file_size (h f)) ikey (SaveValue user u) (kNotFound, sr_value s)) (\<lambda>(st, state, v).
          let s = s\<lparr>sr_value := v\<rparr> in
          if \<not> status_ok st then Some (st, s)
          else
            (case state of
               kNotFound \<Rightarrow> search_files user h tc ro u ikey fs s
             | kFound \<Rightarrow> Some (st, s)
             | kDeleted \<Rightarrow> Some (NotFound [] [], s)
             | kCorrupt \<Rightarrow> Some (Corruption (bytes_of ''corrupted key for '') u, s))))"

text \<open>The status, the value, which starts as what \<open>*value\<close> held, and the statistics.\<close>

definition Version_Get ::
  "Comparator \<Rightarrow> files \<Rightarrow> 'f TableCache \<Rightarrow> ReadOptions \<Rightarrow> byte list \<times> nat \<Rightarrow> slice \<Rightarrow> Version \<Rightarrow> (status \<times> slice \<times> GetStats) option" where
  "Version_Get user h tc ro k v0 v =
     (let ikey = lookup_internal_key k; u = lookup_user_key k in
      map_option (\<lambda>(st, s). (st, sr_value s, sr_stats s))
        (search_files user h tc ro u ikey (candidates user h v u ikey) \<lparr>sr_last = None, sr_value = v0, sr_stats = GetStats_new\<rparr>))"

section \<open>Statistics\<close>

definition UpdateStats :: "GetStats \<Rightarrow> files \<times> Version \<Rightarrow> bool \<times> files \<times> Version" where
  "UpdateStats stats hv =
     (case hv of (h, v) \<Rightarrow>
        (case seek_file stats of
           None \<Rightarrow> (False, h, v)
         | Some f \<Rightarrow>
             let h = h(f := (h f)\<lparr>f_allowed_seeks := f_allowed_seeks (h f) - 1\<rparr>) in
             if f_allowed_seeks (h f) \<le> 0 \<and> v_file_to_compact v = None
             then (True, h, v\<lparr>v_file_to_compact := Some f, v_file_to_compact_level := seek_file_level stats\<rparr>)
             else (False, h, v)))"

definition sample_match :: "GetStats \<times> nat \<Rightarrow> nat \<Rightarrow> file_ref \<Rightarrow> bool \<times> GetStats \<times> nat" where
  "sample_match s level f =
     (case s of (stats, matches) \<Rightarrow>
        let matches = matches + 1;
            stats = (if matches = 1 then \<lparr>seek_file = Some f, seek_file_level = int level\<rparr> else stats) in
        (matches < 2, stats, matches))"

text \<open>The statistics of the local \<open>State\<close> are not set before the first match.\<close>

definition RecordReadSample :: "Comparator \<Rightarrow> slice \<Rightarrow> files \<times> Version \<Rightarrow> bool \<times> files \<times> Version" where
  "RecordReadSample user internal_key hv =
     (case ParseInternalKey internal_key of
        None \<Rightarrow> (False, hv)
      | Some ikey \<Rightarrow>
          (case ForEachOverlapping user (fst hv) (snd hv) (user_key ikey) internal_key sample_match (GetStats_new, 0) of
             (stats, matches) \<Rightarrow> if 2 \<le> matches then UpdateStats stats hv else (False, hv)))"

section \<open>Overlapping files\<close>

definition OverlapInLevel :: "Comparator \<Rightarrow> files \<Rightarrow> Version \<Rightarrow> nat \<Rightarrow> slice option \<Rightarrow> slice option \<Rightarrow> bool" where
  "OverlapInLevel user h v level small large = SomeFileOverlapsRange user h (0 < level) (v_files v level) small large"

text \<open>The loop of \<open>GetOverlappingInputs\<close>: at level 0 it starts again whenever a file widens the range.\<close>

partial_function (option) overlapping_loop ::
  "Comparator \<Rightarrow> files \<Rightarrow> nat \<Rightarrow> file_ref list \<Rightarrow> nat \<Rightarrow> slice option \<Rightarrow> slice option \<Rightarrow> file_ref list \<Rightarrow> file_ref list option" where
  "overlapping_loop user h level fs i user_begin user_end inputs =
     (if i < length fs then
        let f = fs ! i; file_start = smallest_user h f; file_limit = largest_user h f in
        if (case user_begin of Some b \<Rightarrow> Compare user file_limit b < 0 | None \<Rightarrow> False)
        then overlapping_loop user h level fs (i + 1) user_begin user_end inputs
        else if (case user_end of Some e \<Rightarrow> 0 < Compare user file_start e | None \<Rightarrow> False)
        then overlapping_loop user h level fs (i + 1) user_begin user_end inputs
        else if level = 0 \<and> (case user_begin of Some b \<Rightarrow> Compare user file_start b < 0 | None \<Rightarrow> False)
        then overlapping_loop user h level fs 0 (Some file_start) user_end []
        else if level = 0 \<and> (case user_end of Some e \<Rightarrow> 0 < Compare user file_limit e | None \<Rightarrow> False)
        then overlapping_loop user h level fs 0 user_begin (Some file_limit) []
        else overlapping_loop user h level fs (i + 1) user_begin user_end (inputs @ [f])
      else Some inputs)"

definition GetOverlappingInputs ::
  "Comparator \<Rightarrow> files \<Rightarrow> Version \<Rightarrow> nat \<Rightarrow> slice option \<Rightarrow> slice option \<Rightarrow> file_ref list option" where
  "GetOverlappingInputs user h v level begin_key end_key =
     (if level < kNumLevels
      then overlapping_loop user h level (v_files v level) 0 (map_option ExtractUserKey begin_key) (map_option ExtractUserKey end_key) []
      else None)"

function pick_level :: "Comparator \<Rightarrow> Options \<Rightarrow> files \<Rightarrow> Version \<Rightarrow> slice \<Rightarrow> slice \<Rightarrow> nat \<Rightarrow> nat option" where
  "pick_level user options h v small large level =
     (if level < kMaxMemCompactLevel then
        (if OverlapInLevel user h v (level + 1) (Some small) (Some large) then Some level
         else
           Option.bind
             (if level + 2 < kNumLevels then
                map_option (\<lambda>overlaps. MaxGrandParentOverlapBytes options < TotalFileSize h overlaps)
                  (GetOverlappingInputs user h v (level + 2) (Some (InternalKey_new small kMaxSequenceNumber kValueTypeForSeek))
                    (Some (InternalKey_new large 0 0)))
              else Some False) (\<lambda>too_much.
             if too_much then Some level else pick_level user options h v small large (level + 1)))
      else Some level)"
  by pat_completeness auto
termination by (relation "measure (\<lambda>(_, _, _, _, _, _, level). kMaxMemCompactLevel - level)") auto

declare pick_level.simps [simp del]

definition PickLevelForMemTableOutput :: "Comparator \<Rightarrow> Options \<Rightarrow> files \<Rightarrow> Version \<Rightarrow> slice \<Rightarrow> slice \<Rightarrow> nat option" where
  "PickLevelForMemTableOutput user options h v small large =
     (if OverlapInLevel user h v 0 (Some small) (Some large) then Some 0 else pick_level user options h v small large 0)"

definition Version_DebugString :: "files \<Rightarrow> Version \<Rightarrow> byte list" where
  "Version_DebugString h v =
     concat (map (\<lambda>level.
       bytes_of ''--- level '' @ NumberToString (of_nat level) @ bytes_of '' ---'' @ [10] @
       concat (map (\<lambda>f. [32] @ NumberToString (f_number (h f)) @ [58] @ NumberToString (f_file_size (h f)) @ bytes_of ''['' @
         InternalKey_DebugString (f_smallest (h f)) @ bytes_of '' .. '' @ InternalKey_DebugString (f_largest (h f)) @ bytes_of '']'' @ [10])
         (v_files v level))) [0..<kNumLevels])"

end
