(* ===== verification/Ldb_Version_Spec.thy ===== *)
theory Ldb_Version_Spec
  imports Ldb_Version Ldb_TableCache Ldb_DbIter_Spec
begin

text \<open>
  What a version answers. \<open>version_ok\<close> says how the files of a version relate: within a level above 0 they follow
  each other, and lower levels and higher numbers of level 0 are newer. Then \<open>Get\<close> finds for every user key the newest entry that
  the snapshot sees among all files, and the iterators of the version merge to all entries.
\<close>

section \<open>Searching the files of a level\<close>

definition level_index :: "files \<Rightarrow> file_ref list \<Rightarrow> entry list" where
  "level_index h fs = map (\<lambda>f. (f_largest (h f), file_value (h f))) fs"

lemma level_index_simps [simp]:
  "length (level_index h fs) = length fs" "i < length fs \<Longrightarrow> level_index h fs ! i = (f_largest (h (fs ! i)), file_value (h (fs ! i)))"
  by (simp_all add: level_index_def)

lemma FindFile_loop_seek:
  assumes "left \<le> right" and "right \<le> length fs"
    and "\<And>i j. i < j \<Longrightarrow> j < length fs \<Longrightarrow> cmp (f_largest (h (fs ! j))) k < 0 \<Longrightarrow> cmp (f_largest (h (fs ! i))) k < 0"
    and "\<And>i. i < left \<Longrightarrow> cmp (f_largest (h (fs ! i))) k < 0"
    and "right < length fs \<Longrightarrow> \<not> cmp (f_largest (h (fs ! right))) k < 0"
  shows "FindFile_loop cmp h fs k left right = seek_index cmp k (level_index h fs)"
  using assms
proof (induction cmp h fs k left right rule: FindFile_loop.induct)
  case (1 cmp h fs k left right)
  show ?case
  proof (cases "left < right")
    case False
    with 1(3) have "left = right" by simp
    with 1(4,6,7) have "seek_index cmp k (level_index h fs) = right" by (intro seek_index_eqI) simp_all
    with False show ?thesis by (simp add: FindFile_loop.simps)
  next
    case True
    let ?mid = "(left + right) div 2"
    have mid: "left \<le> ?mid" "?mid < right" "?mid < length fs" using True 1(4) by linarith+
    show ?thesis
    proof (cases "cmp (f_largest (h (fs ! ?mid))) k < 0")
      case below: True
      have "cmp (f_largest (h (fs ! i))) k < 0" if "i < ?mid + 1" for i
        using that below 1(5) [of i ?mid] mid(3) by (cases "i = ?mid") auto
      with 1(1) [OF True HOL.refl below _ 1(4,5) _ 1(7)] mid have
        "FindFile_loop cmp h fs k (?mid + 1) right = seek_index cmp k (level_index h fs)" by simp
      with True below show ?thesis by (subst FindFile_loop.simps) (simp add: Let_def)
    next
      case above: False
      with 1(2) [OF True HOL.refl above mid(1) _ 1(5,6)] mid have
        "FindFile_loop cmp h fs k left ?mid = seek_index cmp k (level_index h fs)" by simp
      with True above show ?thesis by (subst FindFile_loop.simps) (simp add: Let_def)
    qed
  qed
qed

context comparator
begin

definition level_sorted :: "files \<Rightarrow> file_ref list \<Rightarrow> bool" where
  "level_sorted h fs \<longleftrightarrow> sorted_entries (Internal_Compare C) (level_index h fs) \<and> (\<forall>f \<in> set fs. ikey (f_largest (h f)))"

lemma FindFile_seek:
  assumes "level_sorted h fs" and "ikey k"
  shows "FindFile C h fs k = seek_index (Internal_Compare C) k (level_index h fs)"
  unfolding FindFile_def
proof (rule FindFile_loop_seek)
  fix i j
  assume ij: "i < j" "j < length fs" "Internal_Compare C (f_largest (h (fs ! j))) k < 0"
  then have "Internal_Compare C (f_largest (h (fs ! i))) (f_largest (h (fs ! j))) < 0"
    using sorted_entries_nth [of "Internal_Compare C" "level_index h fs" i j] assms(1) by (simp add: level_sorted_def)
  moreover have "ikey (f_largest (h (fs ! i)))" "ikey (f_largest (h (fs ! j)))" using assms(1) ij by (simp_all add: level_sorted_def)
  ultimately show "Internal_Compare C (f_largest (h (fs ! i))) k < 0"
    using comparator.less_trans [OF Internal_comparator _ _ assms(2)] ij(3) by (auto simp: InternalKeyComparator_def)
qed simp_all

definition level_file_at :: "files \<Rightarrow> entry list \<Rightarrow> nat \<Rightarrow> LevelFileNumIterator \<Rightarrow> bool" where
  "level_file_at h es i s \<longleftrightarrow> level_sorted h (li_flist s) \<and> es = level_index h (li_flist s) \<and> li_index s = i \<and> i \<le> length es"

lemma level_file_iterator_correct:
  "iterator (level_file_iterator C h) (Compare (InternalKeyComparator C)) ikey (level_file_at h)"
  by unfold_locales
    (auto simp: level_file_at_def level_file_iterator_def li_current_def li_Prev_def FindFile_seek InternalKeyComparator_def
      seek_index_le less_imp_diff_less intro: order_trans [OF seek_index_le])

end

sublocale comparator \<subseteq> level_files: iterator "level_file_iterator C h" "Compare (InternalKeyComparator C)" ikey "level_file_at h" for h
  by (rule level_file_iterator_correct)

section \<open>The newest entry of a user key\<close>

text \<open>Lists in which, of two entries of a user key, the newer one comes first.\<close>

definition newer_entry :: "entry \<Rightarrow> entry \<Rightarrow> bool" where
  "newer_entry e e' \<longleftrightarrow> (ExtractUserKey (fst e) = ExtractUserKey (fst e') \<longrightarrow> ExtractNumber (fst e') < ExtractNumber (fst e))"

lemma newest_append: "newest s u (xs @ ys) = (case newest s u xs of None \<Rightarrow> newest s u ys | Some e \<Rightarrow> Some e)"
  by (induction xs) (simp_all add: newest_def)

lemma newest_None: "newest s u es = None \<longleftrightarrow> (\<forall>e \<in> set es. ExtractUserKey (fst e) = u \<longrightarrow> \<not> visible s e)"
  by (auto simp: newest_def find_None_iff)

lemma newest_Some:
  assumes "sorted_wrt newer_entry es"
  shows "newest s u es = Some e \<longleftrightarrow> e \<in> set es \<and> ExtractUserKey (fst e) = u \<and> visible s e \<and>
    (\<forall>e' \<in> set es. ExtractUserKey (fst e') = u \<and> visible s e' \<longrightarrow> e' = e \<or> ExtractNumber (fst e') < ExtractNumber (fst e))"
  using assms
proof (induction es)
  case (Cons x xs)
  then have IH: "newest s u xs = Some e \<longleftrightarrow> e \<in> set xs \<and> ExtractUserKey (fst e) = u \<and> visible s e \<and>
    (\<forall>e' \<in> set xs. ExtractUserKey (fst e') = u \<and> visible s e' \<longrightarrow> e' = e \<or> ExtractNumber (fst e') < ExtractNumber (fst e))"
    and x: "\<And>y. y \<in> set xs \<Longrightarrow> newer_entry x y" by simp_all
  show ?case
  proof (cases "ExtractUserKey (fst x) = u \<and> visible s x")
    case True
    then have "newest s u (x # xs) = Some x" by (simp add: newest_def)
    with True x show ?thesis by (fastforce simp: newer_entry_def)
  next
    case False
    then have "newest s u (x # xs) = newest s u xs" by (auto simp: newest_def)
    with IH False show ?thesis by auto
  qed
qed (simp add: newest_def)

lemma newest_same_set:
  assumes "sorted_wrt newer_entry es" and "sorted_wrt newer_entry es'" and "set es = set es'"
  shows "newest s u es = newest s u es'"
proof (cases "newest s u es'")
  case None
  then have "newest s u es = None" unfolding newest_None using assms(3) by simp
  with None show ?thesis by simp
next
  case (Some e)
  then have "newest s u es = Some e" using newest_Some [OF assms(1)] newest_Some [OF assms(2)] assms(3) by auto
  with Some show ?thesis by simp
qed

lemma sorted_wrt_concat:
  assumes "\<forall>x \<in> set xs. sorted_wrt R (F x)" and "sorted_wrt (\<lambda>x y. \<forall>a \<in> set (F x). \<forall>b \<in> set (F y). R a b) xs"
  shows "sorted_wrt R (concat (map F xs))"
  using assms by (induction xs) (auto simp: sorted_wrt_append)

lemma sorted_wrt_strict:
  fixes n :: "'a \<Rightarrow> 'b :: linorder"
  assumes "sorted_wrt (\<lambda>f g. n g \<le> n f) fs" and "distinct (map n fs)"
  shows "sorted_wrt (\<lambda>f g. n g < n f) fs"
  using assms
proof (induction fs)
  case (Cons a fs)
  have "n g < n a" if g: "g \<in> set fs" for g
  proof -
    have "n g \<in> n ` set fs" using g by simp
    then have "n g \<le> n a" "n g \<noteq> n a" using Cons.prems g by (simp, metis distinct.simps(2) list.simps(9) set_map)
    then show ?thesis by simp
  qed
  with Cons show ?case by simp
qed simp

context comparator
begin

lemma entries_newer: "internal_entries C key es \<Longrightarrow> sorted_wrt newer_entry es"
  unfolding internal_entries_def sorted_entries_def
  by (elim conjE, erule sorted_wrt_mono_rel [rotated]) (fastforce simp: Internal_Compare_less newer_entry_def)

lemma internal_entries_append:
  "internal_entries C key (xs @ ys) \<longleftrightarrow> internal_entries C key xs \<and> internal_entries C key ys \<and>
    (\<forall>x \<in> set xs. \<forall>y \<in> set ys. Internal_Compare C (fst x) (fst y) < 0)"
  by (auto simp: internal_entries_def sorted_entries_append)

lemma entries_ikey: "internal_entries C key es \<Longrightarrow> e \<in> set es \<Longrightarrow> ikey (fst e)"
  by (auto simp: internal_entries_def ikey_def ParseInternalKey_def split: if_splits)

lemma entries_last:
  assumes "internal_entries C key es" and "e \<in> set es"
  shows "Internal_Compare C (fst e) (fst (last es)) \<le> 0" and "Internal_Compare C (fst (hd es)) (fst e) \<le> 0"
proof -
  from assms(2) obtain i where i: "i < length es" "e = es ! i" by (auto simp: in_set_conv_nth)
  have refl: "Internal_Compare C (fst e) (fst e) = 0" using comparator.refl [OF Internal_comparator entries_ikey [OF assms]]
    by (simp add: InternalKeyComparator_def)
  have sorted: "Internal_Compare C (fst (es ! a)) (fst (es ! b)) < 0" if "a < b" "b < length es" for a b
    using sorted_entries_nth [of _ es a b] assms(1) that by (simp add: internal_entries_def)
  have ne: "es \<noteq> []" using assms(2) by auto
  show "Internal_Compare C (fst e) (fst (last es)) \<le> 0"
    using sorted [of i "length es - 1"] refl i ne by (cases "i = length es - 1") (auto simp: last_conv_nth intro: less_imp_le)
  show "Internal_Compare C (fst (hd es)) (fst e) \<le> 0"
    using sorted [of 0 i] refl i ne by (cases "i = 0") (auto simp: hd_conv_nth intro: less_imp_le)
qed

end

section \<open>Versions\<close>

text \<open>The file is a table that holds these entries, from its smallest to its largest key.\<close>

definition file_ok ::
  "('f \<Rightarrow> byte list \<Rightarrow> bool) \<Rightarrow> Comparator \<Rightarrow> (slice \<Rightarrow> bool) \<Rightarrow> 'f TableCache \<Rightarrow> files \<Rightarrow> (file_ref \<Rightarrow> entry list) \<Rightarrow> file_ref \<Rightarrow> bool" where
  "file_ok holds C key tc h content f \<longleftrightarrow>
     stored holds (InternalKeyComparator C) (comparator.ikey key) tc (f_number (h f)) (f_file_size (h f)) (content f) \<and>
     internal_entries C key (content f) \<and> content f \<noteq> [] \<and>
     f_smallest (h f) = fst (hd (content f)) \<and> f_largest (h f) = fst (last (content f))"

definition follows :: "Comparator \<Rightarrow> files \<Rightarrow> file_ref \<Rightarrow> file_ref \<Rightarrow> bool" where
  "follows C h f g \<longleftrightarrow> Internal_Compare C (f_largest (h f)) (f_smallest (h g)) < 0"

definition newer_file :: "(file_ref \<Rightarrow> entry list) \<Rightarrow> file_ref \<Rightarrow> file_ref \<Rightarrow> bool" where
  "newer_file content f g \<longleftrightarrow> (\<forall>e \<in> set (content f). \<forall>e' \<in> set (content g). newer_entry e e')"

definition version_files :: "Version \<Rightarrow> file_ref list" where
  "version_files v = concat (map (v_files v) [0..<kNumLevels])"

text \<open>
  The numbers of level 0 say which file is newer; above it the files of a level follow each other; a lower level
  is newer than a higher one.
\<close>

definition version_ok ::
  "('f \<Rightarrow> byte list \<Rightarrow> bool) \<Rightarrow> Comparator \<Rightarrow> (slice \<Rightarrow> bool) \<Rightarrow> 'f TableCache \<Rightarrow> files \<Rightarrow> (file_ref \<Rightarrow> entry list) \<Rightarrow> Version \<Rightarrow> bool" where
  "version_ok holds C key tc h content v \<longleftrightarrow>
     (\<forall>f \<in> set (version_files v). file_ok holds C key tc h content f) \<and>
     distinct (map (\<lambda>f. f_number (h f)) (v_files v 0)) \<and>
     (\<forall>f \<in> set (v_files v 0). \<forall>g \<in> set (v_files v 0). f_number (h g) < f_number (h f) \<longrightarrow> newer_file content f g) \<and>
     (\<forall>level \<in> {1..<kNumLevels}. sorted_wrt (follows C h) (v_files v level)) \<and>
     (\<forall>level' \<in> {1..<kNumLevels}. \<forall>level \<in> {0..<level'}. \<forall>f \<in> set (v_files v level). \<forall>g \<in> set (v_files v level'). newer_file content f g)"

text \<open>What a lookup returns when this is the newest entry, and a value variable that holds \<open>v0\<close>.\<close>

definition lookup_result :: "slice \<Rightarrow> entry option \<Rightarrow> status \<times> slice" where
  "lookup_result v0 e =
     (case e of
        Some e \<Rightarrow> if ExtractValueType (fst e) = kTypeValue then (Status_OK, snd e) else (NotFound [] [], v0)
      | None \<Rightarrow> (NotFound [] [], v0))"

locale version_reading = comparator C key + tables: cached_tables tc holds "InternalKeyComparator C" "comparator.ikey key"
  for C :: Comparator and key and tc :: "'g TableCache" and holds +
  assumes filters: "on_user_keys (tc_options tc)"
begin

abbreviation "seek_key u s \<equiv> u @ Fixed64 (PackSequenceAndType s kTypeValue)"

lemma file_get:
  assumes f: "file_ok holds C key tc h content f" and u: "key u" and s: "unat s < 2 ^ 56"
  shows "TableCache_Get tc ro (f_number (h f)) (f_file_size (h f)) (seek_key u s) (SaveValue C u) (kNotFound, v) =
    Some (Status_OK, (case newest s u (content f) of None \<Rightarrow> (kNotFound, v)
      | Some e \<Rightarrow> if ExtractValueType (fst e) = kTypeValue then (kFound, snd e) else (kDeleted, v)))"
proof -
  let ?es = "content f"
  let ?i = "seek_index (Compare (InternalKeyComparator C)) (seek_key u s) ?es"
  have st: "stored holds (InternalKeyComparator C) ikey tc (f_number (h f)) (f_file_size (h f)) ?es" and es: "internal_entries C key ?es"
    using f by (simp_all add: file_ok_def)
  have k: "ikey (seek_key u s)" using u by simp
  note n = newest_seek [OF es u s]
  from tables.TableCache_Get_at [OF st k, of ro "SaveValue C u" "(kNotFound, v)"] obtain a and t :: "'g Table" where
    get: "TableCache_Get tc ro (f_number (h f)) (f_file_size (h f)) (seek_key u s) (SaveValue C u) (kNotFound, v) = Some (Status_OK, a)"
    and P: "\<forall>P r. t_filter t = Some (P, r) \<longrightarrow> o_filter_policy (tc_options tc) = Some P"
    and a: "a = (kNotFound, v) \<and> (?i < length ?es \<longrightarrow> passed_over (InternalKeyComparator C) ikey t (seek_key u s) (fst (?es ! ?i))) \<or>
      ?i < length ?es \<and> a = SaveValue C u (kNotFound, v) (fst (?es ! ?i)) (snd (?es ! ?i))" by blast
  have filt: "\<exists>P'. P = InternalFilterPolicy P'" if "t_filter t = Some (P, r)" for P r
    using P that filters unfolding on_user_keys_def by blast
  from a consider (passed) "a = (kNotFound, v)" "?i < length ?es \<longrightarrow> uk ?es ?i \<noteq> u"
    | (found) "?i < length ?es" "a = SaveValue C u (kNotFound, v) (fst (?es ! ?i)) (snd (?es ! ?i))"
  proof (elim disjE conjE)
    assume a: "a = (kNotFound, v)"
      "?i < length ?es \<longrightarrow> passed_over (InternalKeyComparator C) ikey t (seek_key u s) (fst (?es ! ?i))"
    have "ExtractUserKey (seek_key u s) \<noteq> uk ?es ?i" if i: "?i < length ?es"
      by (rule passed_over_user [OF a(2) [rule_format, OF i] k entries_ikey [OF es nth_mem [OF i]]]) (rule filt)
    then have "?i < length ?es \<longrightarrow> uk ?es ?i \<noteq> u" by auto
    with a(1) passed show thesis by blast
  qed (rule found)
  then show ?thesis
  proof cases
    case passed
    with n get show ?thesis by auto
  next
    case found
    from parsed [OF es found(1)] obtain p where p: "ParseInternalKey (fst (?es ! ?i)) = Some p" by blast
    note pf = parsed_facts [OF es found(1) p]
    have "Compare C (user_key p) u = 0 \<longleftrightarrow> uk ?es ?i = u" using equal [OF pf(2) u] pf(1) by simp
    with found n get p pf(4) show ?thesis by (auto simp: SaveValue_def)
  qed
qed

text \<open>The loop over the files gives what the concatenation of their entries has first.\<close>

lemma search_files_at:
  assumes "\<forall>f \<in> set (map snd fs). file_ok holds C key tc h content f" and u: "key u" and s: "unat s < 2 ^ 56"
  shows "\<exists>sr'. search_files C h tc ro u (seek_key u s) fs sr =
      Some (fst (lookup_result (sr_value sr) (newest s u (concat (map (content \<circ> snd) fs)))), sr') \<and>
    sr_value sr' = snd (lookup_result (sr_value sr) (newest s u (concat (map (content \<circ> snd) fs))))"
  using assms(1)
proof (induction fs arbitrary: sr)
  case Nil
  then show ?case by (simp add: newest_def lookup_result_def)
next
  case (Cons lf fs)
  obtain level f where lf: "lf = (level, f)" by (cases lf)
  let ?sr = "charge_seek level f sr"
  have val: "sr_value ?sr = sr_value sr" by (simp add: charge_seek_def Let_def)
  from Cons.prems lf have f: "file_ok holds C key tc h content f" and rest: "\<forall>f \<in> set (map snd fs). file_ok holds C key tc h content f"
    by simp_all
  note get = file_get [OF f u s, of ro "sr_value sr"]
  show ?case
  proof (cases "newest s u (content f)")
    case None
    have "search_files C h tc ro u (seek_key u s) (lf # fs) sr = search_files C h tc ro u (seek_key u s) fs (?sr\<lparr>sr_value := sr_value sr\<rparr>)"
      using get None by (simp add: lf val Let_def)
    with Cons.IH [OF rest, of "?sr\<lparr>sr_value := sr_value sr\<rparr>"] None show ?thesis by (simp add: lf newest_append)
  next
    case (Some e)
    with get show ?thesis by (simp add: lf val Let_def newest_append lookup_result_def)
  qed
qed

text \<open>The files that are not searched have no entry of the key.\<close>

definition level_order :: "files \<Rightarrow> Version \<Rightarrow> nat \<Rightarrow> file_ref list" where
  "level_order h v level = (if level = 0 then newest_first h (v_files v 0) else v_files v level)"

definition search_order :: "files \<Rightarrow> Version \<Rightarrow> file_ref list" where
  "search_order h v = concat (map (level_order h v) [0..<kNumLevels])"

lemma set_search_order: "set (search_order h v) = set (version_files v)"
  by (auto simp: search_order_def version_files_def level_order_def newest_first_def split: if_splits)

lemma concat_map_concat: "concat (map F (concat (map G xs))) = concat (map (\<lambda>x. concat (map F (G x))) xs)"
  by (induction xs) simp_all

lemma newest_concat_cong:
  "(\<And>x. x \<in> set xs \<Longrightarrow> newest s u (F x) = newest s u (G x)) \<Longrightarrow> newest s u (concat (map F xs)) = newest s u (concat (map G xs))"
  by (induction xs) (simp_all add: newest_append split: option.split)

lemma newest_filter:
  "(\<And>x. x \<in> set xs \<Longrightarrow> \<not> P x \<Longrightarrow> newest s u (F x) = None) \<Longrightarrow>
    newest s u (concat (map F (filter P xs))) = newest s u (concat (map F xs))"
  by (induction xs) (simp_all add: newest_append split: option.split)

lemma user_range:
  assumes f: "file_ok holds C key tc h content f" and e: "e \<in> set (content f)"
  shows "Compare C (smallest_user h f) (ExtractUserKey (fst e)) \<le> 0" and "Compare C (ExtractUserKey (fst e)) (largest_user h f) \<le> 0"
    and "key (smallest_user h f)" and "key (largest_user h f)" and "key (ExtractUserKey (fst e))"
proof -
  have es: "internal_entries C key (content f)" and ends: "f_smallest (h f) = fst (hd (content f))" "f_largest (h f) = fst (last (content f))"
    using f by (simp_all add: file_ok_def)
  from entries_last [OF es e] ends show "Compare C (smallest_user h f) (ExtractUserKey (fst e)) \<le> 0"
    "Compare C (ExtractUserKey (fst e)) (largest_user h f) \<le> 0" by (auto simp: Internal_Compare_le)
  have "hd (content f) \<in> set (content f)" "last (content f) \<in> set (content f)" using f by (simp_all add: file_ok_def)
  with es e ends show "key (smallest_user h f)" "key (largest_user h f)" "key (ExtractUserKey (fst e))"
    by (auto simp: internal_entries_def)
qed

lemma level0_newest:
  assumes f: "\<forall>f \<in> set fs. file_ok holds C key tc h content f" and u: "key u"
  shows "newest s u (concat (map content (newest_first h (level0_overlapping C h u fs)))) =
    newest s u (concat (map content (newest_first h fs)))"
proof -
  have none: "newest s u (content f) = None"
    if mem: "f \<in> set fs" and out: "\<not> (0 \<le> Compare C u (smallest_user h f) \<and> Compare C u (largest_user h f) \<le> 0)" for f
  proof -
    have "ExtractUserKey (fst e) \<noteq> u" if e: "e \<in> set (content f)" for e
    proof
      assume same: "ExtractUserKey (fst e) = u"
      note r = user_range [OF f [rule_format, OF mem] e, unfolded same]
      from r(1) not_less [OF u r(3)] have "\<not> Compare C u (smallest_user h f) < 0" by simp
      with r(2) out show False by simp
    qed
    then show ?thesis by (auto simp: newest_None)
  qed
  show ?thesis
    unfolding newest_first_def level0_overlapping_def filter_sort [symmetric]
    by (rule newest_filter) (use none in auto)
qed

lemma level_entries:
  assumes "\<forall>f \<in> set fs. file_ok holds C key tc h content f" and "sorted_wrt (follows C h) fs"
  shows "internal_entries C key (concat (map content fs))"
  using assms
proof (induction fs)
  case (Cons f fs)
  have es: "internal_entries C key (content f)" and ends: "f_largest (h f) = fst (last (content f))" and ne: "content f \<noteq> []"
    using Cons.prems(1) by (simp_all add: file_ok_def)
  have "Internal_Compare C (fst x) (fst y) < 0" if x: "x \<in> set (content f)" and g: "g \<in> set fs" and y: "y \<in> set (content g)" for x y g
  proof -
    have gs: "internal_entries C key (content g)" "f_smallest (h g) = fst (hd (content g))" "content g \<noteq> []"
      using Cons.prems(1) g by (simp_all add: file_ok_def)
    have 1: "Internal_Compare C (fst x) (f_largest (h f)) \<le> 0" using entries_last(1) [OF es x] ends by simp
    have 2: "Internal_Compare C (f_largest (h f)) (f_smallest (h g)) < 0" using Cons.prems(2) g by (simp add: follows_def)
    have 3: "Internal_Compare C (f_smallest (h g)) (fst y) \<le> 0" using entries_last(2) [OF gs(1) y] gs(2) by simp
    have k: "ikey (fst x)" "ikey (f_largest (h f))" "ikey (f_smallest (h g))" "ikey (fst y)"
      using entries_ikey [OF es x] entries_ikey [OF es last_in_set [OF ne]] entries_ikey [OF gs(1) hd_in_set [OF gs(3)]]
        entries_ikey [OF gs(1) y] ends gs(2) by simp_all
    have "Internal_Compare C (fst x) (f_smallest (h g)) < 0"
      using comparator.le_less_trans [OF Internal_comparator k(1,2,3)] 1 2 by (simp add: InternalKeyComparator_def)
    then show ?thesis using comparator.less_le_trans [OF Internal_comparator k(1,3,4)] 3 by (simp add: InternalKeyComparator_def)
  qed
  with es Cons show ?case by (auto simp: internal_entries_append)
qed (simp add: internal_entries_def sorted_entries_def)

lemma level_is_sorted:
  assumes "\<forall>f \<in> set fs. file_ok holds C key tc h content f" and "sorted_wrt (follows C h) fs"
  shows "level_sorted h fs"
proof -
  have k: "ikey (f_largest (h f)) \<and> ikey (f_smallest (h f)) \<and> Internal_Compare C (f_smallest (h f)) (f_largest (h f)) \<le> 0"
    if "f \<in> set fs" for f
  proof -
    have f: "internal_entries C key (content f)" "content f \<noteq> []" "f_smallest (h f) = fst (hd (content f))"
      "f_largest (h f) = fst (last (content f))" using assms(1) that by (simp_all add: file_ok_def)
    with entries_last(1) [OF f(1) hd_in_set [OF f(2)]] entries_ikey [OF f(1)] show ?thesis by simp
  qed
  have "sorted_wrt (\<lambda>f g. Internal_Compare C (f_largest (h f)) (f_largest (h g)) < 0) fs"
  proof (rule sorted_wrt_mono_rel [OF _ assms(2)])
    fix f g
    assume "f \<in> set fs" "g \<in> set fs" "follows C h f g"
    then show "Internal_Compare C (f_largest (h f)) (f_largest (h g)) < 0"
      using comparator.less_le_trans [OF Internal_comparator, of "f_largest (h f)" "f_smallest (h g)" "f_largest (h g)"] k
      by (simp add: follows_def InternalKeyComparator_def)
  qed
  then show ?thesis using k by (simp add: level_sorted_def sorted_entries_def level_index_def sorted_wrt_map)
qed

text \<open>The seek key in a level is in the file that \<open>FindFile\<close> gives.\<close>

lemma level_seek:
  assumes f: "\<forall>f \<in> set fs. file_ok holds C key tc h content f" and sorted: "sorted_wrt (follows C h) fs" and k: "ikey k"
  defines "j \<equiv> FindFile C h fs k"
  shows "if j < length fs
    then seek_index (Internal_Compare C) k (content (fs ! j)) < length (content (fs ! j)) \<and>
      seek_index (Internal_Compare C) k (concat (map content fs)) =
        length (concat (map content (take j fs))) + seek_index (Internal_Compare C) k (content (fs ! j))
    else seek_index (Internal_Compare C) k (concat (map content fs)) = length (concat (map content fs))"
proof -
  have j: "j = seek_index (Internal_Compare C) k (level_index h fs)"
    unfolding j_def by (rule FindFile_seek [OF level_is_sorted [OF f sorted] k])
  have before: "Internal_Compare C (fst e) k < 0" if e: "e \<in> set (concat (map content (take j fs)))" for e
  proof -
    from e obtain f where f': "f \<in> set (take j fs)" "e \<in> set (content f)" by auto
    then obtain i where "i < j" "i < length fs" "f = fs ! i" unfolding in_set_conv_nth [of f] by auto
    with f'(2) have i: "i < j" "i < length fs" "e \<in> set (content (fs ! i))" by simp_all
    then have fi: "file_ok holds C key tc h content (fs ! i)" using f by simp
    then have es: "internal_entries C key (content (fs ! i))" and ends: "f_largest (h (fs ! i)) = fst (last (content (fs ! i)))"
      and ne: "content (fs ! i) \<noteq> []" by (simp_all add: file_ok_def)
    have "Internal_Compare C (f_largest (h (fs ! i))) k < 0" using seek_index_before [of i "Internal_Compare C" k "level_index h fs"] i j by simp
    moreover have "Internal_Compare C (fst e) (f_largest (h (fs ! i))) \<le> 0" using entries_last(1) [OF es i(3)] ends by simp
    ultimately show ?thesis
      using comparator.le_less_trans [OF Internal_comparator entries_ikey [OF es i(3)] _ k, of "f_largest (h (fs ! i))"]
        entries_ikey [OF es last_in_set [OF ne]] ends by (simp add: InternalKeyComparator_def)
  qed
  then have all: "seek_index (Internal_Compare C) k (concat (map content (take j fs))) = length (concat (map content (take j fs)))"
    by (intro seek_index_eqI) (use before [OF nth_mem] in simp_all)
  show ?thesis
  proof (cases "j < length fs")
    case False
    with all show ?thesis by simp
  next
    case True
    have fj: "file_ok holds C key tc h content (fs ! j)" using f True by simp
    then have ends: "f_largest (h (fs ! j)) = fst (last (content (fs ! j)))" and ne: "content (fs ! j) \<noteq> []" by (simp_all add: file_ok_def)
    have "\<not> Internal_Compare C (f_largest (h (fs ! j))) k < 0" using seek_index_at [of "Internal_Compare C" k "level_index h fs"] True j by simp
    then have "\<not> Internal_Compare C (fst (content (fs ! j) ! (length (content (fs ! j)) - 1))) k < 0" using ends ne by (simp add: last_conv_nth)
    then have inside: "seek_index (Internal_Compare C) k (content (fs ! j)) < length (content (fs ! j))"
      using seek_index_before [of "length (content (fs ! j)) - 1" "Internal_Compare C" k "content (fs ! j)"] ne
        seek_index_le [of "Internal_Compare C" k "content (fs ! j)"] by (cases "seek_index (Internal_Compare C) k (content (fs ! j)) = length (content (fs ! j))") auto
    have split: "concat (map content fs) = concat (map content (take j fs)) @ content (fs ! j) @ concat (map content (drop (Suc j) fs))"
      by (subst id_take_nth_drop [OF True]) simp
    show ?thesis using True inside unfolding split by (simp add: seek_index_append all)
  qed
qed

lemma level_newest:
  assumes f: "\<forall>f \<in> set fs. file_ok holds C key tc h content f" and sorted: "sorted_wrt (follows C h) fs"
    and u: "key u" and s: "unat s < 2 ^ 56" and level: "level \<noteq> 0"
  shows "newest s u (concat (map content (level_candidates C h u (seek_key u s) level fs))) = newest s u (concat (map content fs))"
proof -
  let ?j = "FindFile C h fs (seek_key u s)" and ?seek = "\<lambda>es. seek_index (Internal_Compare C) (seek_key u s) es"
  have cmp: "Compare (InternalKeyComparator C) = Internal_Compare C" by (simp add: InternalKeyComparator_def)
  have k: "ikey (seek_key u s)" using u by simp
  note at = level_seek [OF f sorted k]
  note n = newest_seek [OF level_entries [OF f sorted] u s, unfolded cmp]
  show ?thesis
  proof (cases "?j < length fs")
    case False
    with at n level show ?thesis by (simp add: level_candidates_def Let_def newest_def)
  next
    case True
    let ?f = "fs ! ?j" and ?es = "content (fs ! ?j)"
    have fj: "file_ok holds C key tc h content ?f" using f True by simp
    then have es: "internal_entries C key ?es" by (simp add: file_ok_def)
    note m = newest_seek [OF es u s, unfolded cmp]
    from at True have inside: "?seek ?es < length ?es"
      and all: "?seek (concat (map content fs)) = length (concat (map content (take ?j fs))) + ?seek ?es" by simp_all
    have split: "concat (map content fs) = concat (map content (take ?j fs)) @ ?es @ concat (map content (drop (Suc ?j) fs))"
      by (subst id_take_nth_drop [OF True]) simp
    have same: "concat (map content fs) ! ?seek (concat (map content fs)) = ?es ! ?seek ?es"
      "?seek (concat (map content fs)) < length (concat (map content fs))"
      unfolding all using inside by (subst split, simp add: nth_append)+
    have here: "newest s u (concat (map content fs)) = newest s u ?es" using n m same inside by simp
    show ?thesis
    proof (cases "Compare C u (smallest_user h ?f) < 0")
      case False
      with True level here show ?thesis by (simp add: level_candidates_def Let_def)
    next
      case out: True
      have "ExtractUserKey (fst e) \<noteq> u" if e: "e \<in> set ?es" for e
      proof
        assume same: "ExtractUserKey (fst e) = u"
        note r = user_range [OF fj e, unfolded same]
        from r(1) not_less [OF u r(3)] out show False by simp
      qed
      then have "newest s u ?es = None" by (auto simp: newest_None)
      with True level here out show ?thesis by (simp add: level_candidates_def Let_def newest_def)
    qed
  qed
qed

lemma candidates_newest:
  assumes v: "version_ok holds C key tc h content v" and u: "key u" and s: "unat s < 2 ^ 56"
  shows "newest s u (concat (map (content \<circ> snd) (candidates C h v u (seek_key u s)))) = newest s u (concat (map content (search_order h v)))"
    and "\<forall>f \<in> set (map snd (candidates C h v u (seek_key u s))). file_ok holds C key tc h content f"
proof -
  let ?c = "\<lambda>level. level_candidates C h u (seek_key u s) level (v_files v level)"
  have sets: "set (level_order h v level) = set (v_files v level)" for level by (simp add: level_order_def newest_first_def)
  have ok: "\<forall>f \<in> set (v_files v level). file_ok holds C key tc h content f" if "level < kNumLevels" for level
    using v that by (fastforce simp: version_ok_def version_files_def)
  have "newest s u (concat (map content (?c level))) = newest s u (concat (map content (level_order h v level)))"
    if level: "level < kNumLevels" for level
  proof (cases "level = 0")
    case True
    with level0_newest [OF ok [OF level] u] show ?thesis by (simp add: level_candidates_def level_order_def)
  next
    case False
    with v level have "sorted_wrt (follows C h) (v_files v level)" by (auto simp: version_ok_def)
    from level_newest [OF ok [OF level] this u s False] False show ?thesis by (simp add: level_order_def)
  qed
  then have "newest s u (concat (map (\<lambda>level. concat (map content (?c level))) [0..<kNumLevels])) =
      newest s u (concat (map (\<lambda>level. concat (map content (level_order h v level))) [0..<kNumLevels]))"
    by (intro newest_concat_cong) simp
  then show "newest s u (concat (map (content \<circ> snd) (candidates C h v u (seek_key u s)))) = newest s u (concat (map content (search_order h v)))"
    by (simp add: candidates_def search_order_def concat_map_concat comp_def)
  have "set (?c level) \<subseteq> set (v_files v level)" for level
    by (auto simp: level_candidates_def Let_def newest_first_def level0_overlapping_def)
  then show "\<forall>f \<in> set (map snd (candidates C h v u (seek_key u s))). file_ok holds C key tc h content f"
    using ok by (fastforce simp: candidates_def)
qed

text \<open>What is searched first is newer.\<close>

lemma search_order_newer:
  assumes v: "version_ok holds C key tc h content v"
  shows "sorted_wrt newer_entry (concat (map content (search_order h v)))"
proof -
  have ok: "\<forall>f \<in> set (v_files v level). file_ok holds C key tc h content f" if "level < kNumLevels" for level
    using v that by (fastforce simp: version_ok_def version_files_def)
  have "sorted_wrt newer_entry (concat (map content (level_order h v level)))" if level: "level < kNumLevels" for level
  proof (cases "level = 0")
    case False
    with v level have "sorted_wrt (follows C h) (v_files v level)" by (auto simp: version_ok_def)
    from entries_newer [OF level_entries [OF ok [OF level] this]] False show ?thesis by (simp add: level_order_def)
  next
    case True
    let ?fs = "newest_first h (v_files v 0)"
    have same: "set ?fs = set (v_files v 0)" by (simp add: newest_first_def)
    have "sorted_wrt (\<lambda>f g. f_number (h g) < f_number (h f)) ?fs"
    proof (rule sorted_wrt_strict)
      show "sorted_wrt (\<lambda>f g. f_number (h g) \<le> f_number (h f)) ?fs"
        using sorted_sort_key [of "\<lambda>f. - int (unat (f_number (h f)))" "v_files v 0"]
        by (simp add: newest_first_def sorted_map word_le_def)
      have "distinct (v_files v 0)" "inj_on (\<lambda>f. f_number (h f)) (set (v_files v 0))" using v by (simp_all add: version_ok_def distinct_map)
      then show "distinct (map (\<lambda>f. f_number (h f)) ?fs)" by (simp add: newest_first_def distinct_map)
    qed
    then have "sorted_wrt (newer_file content) ?fs"
      by (rule sorted_wrt_mono_rel [rotated]) (use v same in \<open>simp add: version_ok_def\<close>)
    moreover have "\<forall>f \<in> set ?fs. sorted_wrt newer_entry (content f)"
      using ok [of 0] same by (auto simp: kNumLevels_def file_ok_def intro: entries_newer)
    ultimately have "sorted_wrt newer_entry (concat (map content ?fs))" by (intro sorted_wrt_concat) (simp_all add: newer_file_def [abs_def])
    with True show ?thesis by (simp add: level_order_def)
  qed
  moreover have "\<forall>e \<in> set (concat (map content (level_order h v level))). \<forall>e' \<in> set (concat (map content (level_order h v level'))). newer_entry e e'"
    if "level < level'" "level' < kNumLevels" for level level'
  proof -
    have "\<forall>f \<in> set (v_files v level). \<forall>g \<in> set (v_files v level'). newer_file content f g"
      using v that unfolding version_ok_def by (elim conjE) (drule bspec [of _ _ level'], auto)
    moreover have "set (level_order h v l) = set (v_files v l)" for l by (simp add: level_order_def newest_first_def)
    ultimately show ?thesis by (simp add: newer_file_def)
  qed
  ultimately have "sorted_wrt newer_entry (concat (map (\<lambda>level. concat (map content (level_order h v level))) [0..<kNumLevels]))"
    by (intro sorted_wrt_concat) (simp_all add: sorted_wrt_iff_nth_less)
  then show ?thesis by (simp add: search_order_def concat_map_concat)
qed

lemma Version_Get_newest:
  assumes v: "version_ok holds C key tc h content v" and u: "key u" and s: "unat s < 2 ^ 56"
    and es: "internal_entries C key es" "set es = (\<Union>f \<in> set (version_files v). set (content f))"
  shows "\<exists>stats. Version_Get C h tc ro (LookupKey u s) v0 v =
    Some (fst (lookup_result v0 (newest s u es)), snd (lookup_result v0 (newest s u es)), stats)"
proof -
  note search_order_newer [OF v]
  then have "newest s u (concat (map content (search_order h v))) = newest s u es"
    using es(2) by (intro newest_same_set entries_newer [OF es(1)]) (simp_all add: set_search_order)
  with candidates_newest(1) [OF v u s] have
    "newest s u (concat (map (content \<circ> snd) (candidates C h v u (seek_key u s)))) = newest s u es" by simp
  with search_files_at [OF candidates_newest(2) [OF v u s] u s, where sr = "\<lparr>sr_last = None, sr_value = v0, sr_stats = GetStats_new\<rparr>" and ro = ro]
  obtain sr' where "search_files C h tc ro u (seek_key u s) (candidates C h v u (seek_key u s))
      \<lparr>sr_last = None, sr_value = v0, sr_stats = GetStats_new\<rparr> = Some (fst (lookup_result v0 (newest s u es)), sr')"
    "sr_value sr' = snd (lookup_result v0 (newest s u es))" by auto
  then show ?thesis
    by (simp add: Version_Get_def LookupKey_parts InternalKey_new_def AppendInternalKey_eq kValueTypeForSeek_def)
qed

end

end
