(* ===== verification/Ldb_VersionSet.thy ===== *)
theory Ldb_VersionSet
  imports Ldb_Version Ldb_Log "HOL-Library.AList"
begin

text \<open>
  The version set, \<open>db/version_set.{h,cc}\<close>: the versions in use, the counters, and the builder that makes a
  version from another one and edits. A version is named by its number in the order of creation; the list
  \<open>vs_versions\<close> is the linked list behind \<open>dummy_versions_\<close>, and a deleted version is no longer in it.
  \<open>vs_files\<close> is the store of \<open>FileMetaData\<close> objects and \<open>vs_next_file\<close> the address of the next one.
\<close>

record 'w VersionSet =
  vs_dbname :: "byte list"
  vs_options :: Options
  vs_user :: Comparator
  vs_files :: files
  vs_next_file :: file_ref
  vs_versions :: "(nat \<times> Version) list"
  vs_next_version :: nat
  vs_current :: "nat option"
  vs_next_file_number :: u64
  vs_manifest_file_number :: u64
  vs_last_sequence :: u64
  vs_log_number :: u64
  vs_prev_log_number :: u64
  vs_descriptor_log :: "'w Writer option"
  vs_compact_pointer :: "nat \<Rightarrow> slice"

definition version_of :: "nat \<Rightarrow> 'w VersionSet \<Rightarrow> Version option" where
  "version_of i vs = map_of (vs_versions vs) i"

definition current_version :: "'w VersionSet \<Rightarrow> Version option" where
  "current_version vs = Option.bind (vs_current vs) (\<lambda>i. version_of i vs)"

section \<open>References\<close>

definition change_refs :: "int \<Rightarrow> file_ref \<Rightarrow> files \<Rightarrow> files" where
  "change_refs n f h = h(f := (h f)\<lparr>f_refs := f_refs (h f) + n\<rparr>)"

text \<open>The loops of the destructors; what becomes of an object without references is not seen in the store.\<close>

definition drop_files :: "file_ref list \<Rightarrow> files \<Rightarrow> files" where
  "drop_files fs h = fold (change_refs (- 1)) fs h"

definition all_files :: "Version \<Rightarrow> file_ref list" where
  "all_files v = concat (map (v_files v) [0..<kNumLevels])"

text \<open>The destructor of a version in the list, or of one that was never put into it.\<close>

definition Version_delete :: "Version \<Rightarrow> 'w VersionSet \<Rightarrow> 'w VersionSet option" where
  "Version_delete v vs = (if v_refs v = 0 then Some (vs\<lparr>vs_files := drop_files (all_files v) (vs_files vs)\<rparr>) else None)"

definition Version_Ref :: "nat \<Rightarrow> 'w VersionSet \<Rightarrow> 'w VersionSet option" where
  "Version_Ref i vs =
     map_option (\<lambda>v. vs\<lparr>vs_versions := AList.update i (v\<lparr>v_refs := v_refs v + 1\<rparr>) (vs_versions vs)\<rparr>) (version_of i vs)"

definition Version_Unref :: "nat \<Rightarrow> 'w VersionSet \<Rightarrow> 'w VersionSet option" where
  "Version_Unref i vs =
     Option.bind (version_of i vs) (\<lambda>v.
       if 1 \<le> v_refs v then
         let v = v\<lparr>v_refs := v_refs v - 1\<rparr> in
         if v_refs v = 0 then Version_delete v (vs\<lparr>vs_versions := AList.delete i (vs_versions vs)\<rparr>)
         else Some (vs\<lparr>vs_versions := AList.update i v (vs_versions vs)\<rparr>)
       else None)"

definition AppendVersion :: "Version \<Rightarrow> 'w VersionSet \<Rightarrow> 'w VersionSet option" where
  "AppendVersion v vs =
     (if v_refs v = 0 then
        map_option (\<lambda>vs. let i = vs_next_version vs in
          vs\<lparr>vs_current := Some i, vs_next_version := i + 1, vs_versions := vs_versions vs @ [(i, v\<lparr>v_refs := v_refs v + 1\<rparr>)]\<rparr>)
          (case vs_current vs of Some c \<Rightarrow> Version_Unref c vs | None \<Rightarrow> Some vs)
      else None)"

definition VersionSet_new :: "byte list \<Rightarrow> Options \<Rightarrow> Comparator \<Rightarrow> 'w VersionSet option" where
  "VersionSet_new dbname options user =
     AppendVersion Version_new
       \<lparr>vs_dbname = dbname, vs_options = options, vs_user = user, vs_files = (\<lambda>_. FileMetaData_new 0 0 [] []), vs_next_file = 0,
        vs_versions = [], vs_next_version = 0, vs_current = None, vs_next_file_number = 2, vs_manifest_file_number = 0,
        vs_last_sequence = 0, vs_log_number = 0, vs_prev_log_number = 0, vs_descriptor_log = None, vs_compact_pointer = (\<lambda>_. [])\<rparr>"

section \<open>Numbers\<close>

definition NewFileNumber :: "'w VersionSet \<Rightarrow> u64 \<times> 'w VersionSet" where
  "NewFileNumber vs = (vs_next_file_number vs, vs\<lparr>vs_next_file_number := vs_next_file_number vs + 1\<rparr>)"

definition ReuseFileNumber :: "u64 \<Rightarrow> 'w VersionSet \<Rightarrow> 'w VersionSet" where
  "ReuseFileNumber n vs = (if vs_next_file_number vs = n + 1 then vs\<lparr>vs_next_file_number := n\<rparr> else vs)"

definition MarkFileNumberUsed :: "u64 \<Rightarrow> 'w VersionSet \<Rightarrow> 'w VersionSet" where
  "MarkFileNumberUsed n vs = (if vs_next_file_number vs \<le> n then vs\<lparr>vs_next_file_number := n + 1\<rparr> else vs)"

definition SetLastSequence_vs :: "u64 \<Rightarrow> 'w VersionSet \<Rightarrow> 'w VersionSet option" where
  "SetLastSequence_vs s vs = (if vs_last_sequence vs \<le> s then Some (vs\<lparr>vs_last_sequence := s\<rparr>) else None)"

section \<open>The builder\<close>

definition BySmallestKey :: "Comparator \<Rightarrow> files \<Rightarrow> file_ref \<Rightarrow> file_ref \<Rightarrow> bool" where
  "BySmallestKey user h f1 f2 \<longleftrightarrow>
     (let r = Internal_Compare user (f_smallest (h f1)) (f_smallest (h f2)) in
      if r \<noteq> 0 then r < 0 else f_number (h f1) < f_number (h f2))"

text \<open>\<open>std::set::insert\<close> with an order: nothing when an equivalent element is there.\<close>

fun set_insert :: "('a \<Rightarrow> 'a \<Rightarrow> bool) \<Rightarrow> 'a \<Rightarrow> 'a list \<Rightarrow> 'a list" where
  "set_insert lt x [] = [x]"
| "set_insert lt x (y # ys) = (if lt x y then x # y # ys else if lt y x then y # set_insert lt x ys else y # ys)"

record LevelState =
  ls_deleted_files :: "u64 set"
  ls_added_files :: "file_ref list"

text \<open>\<open>base_\<close> is a reference to a version, so it is its number.\<close>

record Builder =
  b_base :: nat
  b_levels :: "nat \<Rightarrow> LevelState"

definition Builder_new :: "nat \<Rightarrow> 'w VersionSet \<Rightarrow> (Builder \<times> 'w VersionSet) option" where
  "Builder_new i vs =
     map_option (Pair \<lparr>b_base = i, b_levels = (\<lambda>_. \<lparr>ls_deleted_files = {}, ls_added_files = []\<rparr>)\<rparr>) (Version_Ref i vs)"

definition Builder_delete :: "Builder \<Rightarrow> 'w VersionSet \<Rightarrow> 'w VersionSet option" where
  "Builder_delete b vs =
     Version_Unref (b_base b)
       (vs\<lparr>vs_files := fold (\<lambda>level. drop_files (ls_added_files (b_levels b level))) [0..<kNumLevels] (vs_files vs)\<rparr>)"

definition on_level :: "nat \<Rightarrow> (LevelState \<Rightarrow> LevelState) \<Rightarrow> Builder \<Rightarrow> Builder" where
  "on_level level f b = b\<lparr>b_levels := (b_levels b)(level := f (b_levels b level))\<rparr>"

text \<open>\<open>allowed_seeks\<close> is an \<open>int\<close>.\<close>

definition seeks_allowed :: "u64 \<Rightarrow> int" where
  "seeks_allowed file_size = (let n = sint (ucast (file_size div 16384) :: u32) in if n < 100 then 100 else n)"

definition add_new_file :: "nat \<times> FileMetaData \<Rightarrow> 'w VersionSet \<times> Builder \<Rightarrow> 'w VersionSet \<times> Builder" where
  "add_new_file lf vb =
     (case (lf, vb) of ((level, meta), (vs, b)) \<Rightarrow>
        let f = vs_next_file vs;
            h = (vs_files vs)(f := meta\<lparr>f_refs := 1, f_allowed_seeks := seeks_allowed (f_file_size meta)\<rparr>) in
        (vs\<lparr>vs_files := h, vs_next_file := f + 1\<rparr>,
         on_level level (\<lambda>ls. \<lparr>ls_deleted_files = ls_deleted_files ls - {f_number meta},
           ls_added_files = set_insert (BySmallestKey (vs_user vs) h) f (ls_added_files ls)\<rparr>) b))"

definition delete_number :: "nat \<times> u64 \<Rightarrow> Builder \<Rightarrow> Builder" where
  "delete_number d = on_level (fst d) (\<lambda>ls. ls\<lparr>ls_deleted_files := insert (snd d) (ls_deleted_files ls)\<rparr>)"

text \<open>The pointers to keys that are not valid break the assertion in \<open>Encode\<close>.\<close>

definition Builder_Apply :: "VersionEdit \<Rightarrow> 'w VersionSet \<times> Builder \<Rightarrow> ('w VersionSet \<times> Builder) option" where
  "Builder_Apply edit vb =
     (case vb of (vs, b) \<Rightarrow>
        map_option (\<lambda>pointers.
          let vs = vs\<lparr>vs_compact_pointer := pointers\<rparr>;
              b = fold delete_number (sorted_list_of_set (deleted_files edit)) b in
          fold add_new_file (new_files edit) (vs, b))
          (fold_option (\<lambda>(level, k) p. map_option (\<lambda>k. p(level := k)) (InternalKey_Encode k)) (compact_pointers edit)
            (vs_compact_pointer vs)))"

text \<open>The order in which \<open>SaveTo\<close> takes the files: \<open>upper_bound\<close> splits the rest of the sorted base files.\<close>

fun merge_files :: "('a \<Rightarrow> 'a \<Rightarrow> bool) \<Rightarrow> 'a list \<Rightarrow> 'a list \<Rightarrow> 'a list" where
  "merge_files lt old [] = old"
| "merge_files lt old (a # added) =
     takeWhile (\<lambda>x. \<not> lt a x) old @ a # merge_files lt (dropWhile (\<lambda>x. \<not> lt a x) old) added"

definition MaybeAddFile ::
  "Comparator \<Rightarrow> u64 set \<Rightarrow> nat \<Rightarrow> file_ref \<Rightarrow> files \<times> file_ref list \<Rightarrow> (files \<times> file_ref list) option" where
  "MaybeAddFile user deleted level f hfs =
     (case hfs of (h, fs) \<Rightarrow>
        if f_number (h f) \<in> deleted then Some (h, fs)
        else if 0 < level \<and> fs \<noteq> [] \<and> \<not> Internal_Compare user (f_largest (h (last fs))) (f_smallest (h f)) < 0 then None
        else Some (change_refs 1 f h, fs @ [f]))"

definition save_level ::
  "Comparator \<Rightarrow> Builder \<Rightarrow> Version \<Rightarrow> nat \<Rightarrow> files \<times> Version \<Rightarrow> (files \<times> Version) option" where
  "save_level user b v0 level hv =
     (case hv of (h, v) \<Rightarrow>
        map_option (\<lambda>(h, fs). (h, v\<lparr>v_files := (v_files v)(level := fs)\<rparr>))
          (fold_option (MaybeAddFile user (ls_deleted_files (b_levels b level)) level)
            (merge_files (BySmallestKey user h) (v_files v0 level) (ls_added_files (b_levels b level))) (h, v_files v level)))"

text \<open>The check for overlapping files that the debug build makes is the one \<open>MaybeAddFile\<close> asserts.\<close>

definition Builder_SaveTo :: "Builder \<Rightarrow> Version \<Rightarrow> 'w VersionSet \<Rightarrow> (Version \<times> 'w VersionSet) option" where
  "Builder_SaveTo b v vs =
     Option.bind (version_of (b_base b) vs) (\<lambda>v0.
     map_option (\<lambda>(h, v). (v, vs\<lparr>vs_files := h\<rparr>))
       (fold_option (save_level (vs_user vs) b v0) [0..<kNumLevels] (vs_files vs, v)))"

section \<open>Compaction scores\<close>

text \<open>Rational numbers stand for the quotients; a \<open>double\<close> agrees with them on being at least 1.\<close>

definition level_score :: "Options \<Rightarrow> files \<Rightarrow> Version \<Rightarrow> nat \<Rightarrow> rat" where
  "level_score options h v level =
     (if level = 0 then of_nat (length (v_files v 0)) / of_nat kL0_CompactionTrigger
      else of_nat (unat (word_of_int (TotalFileSize h (v_files v level)) :: u64)) / MaxBytesForLevel level)"

fun best_level :: "(nat \<Rightarrow> rat) \<Rightarrow> nat list \<Rightarrow> int \<times> rat \<Rightarrow> int \<times> rat" where
  "best_level score [] best = best"
| "best_level score (l # ls) best = best_level score ls (if snd best < score l then (int l, score l) else best)"

definition Finalize :: "Options \<Rightarrow> files \<Rightarrow> Version \<Rightarrow> Version" where
  "Finalize options h v =
     (case best_level (level_score options h v) [0..<kNumLevels - 1] (- 1, - 1) of
        (level, score) \<Rightarrow> v\<lparr>v_compaction_level := level, v_compaction_score := score\<rparr>)"

definition NeedsCompaction :: "'w VersionSet \<Rightarrow> bool option" where
  "NeedsCompaction vs =
     map_option (\<lambda>v. 1 \<le> v_compaction_score v \<or> v_file_to_compact v \<noteq> None) (current_version vs)"

section \<open>Reports\<close>

definition NumLevelFiles :: "nat \<Rightarrow> 'w VersionSet \<Rightarrow> nat option" where
  "NumLevelFiles level vs =
     (if level < kNumLevels then map_option (\<lambda>v. length (v_files v level)) (current_version vs) else None)"

definition NumLevelBytes :: "nat \<Rightarrow> 'w VersionSet \<Rightarrow> int option" where
  "NumLevelBytes level vs =
     (if level < kNumLevels then map_option (\<lambda>v. TotalFileSize (vs_files vs) (v_files v level)) (current_version vs) else None)"

text \<open>\<open>snprintf\<close> into the 100 bytes of the buffer; \<open>int\<close> conversions of numbers of files are exact.\<close>

definition LevelSummary :: "'w VersionSet \<Rightarrow> byte list option" where
  "LevelSummary vs =
     map_option (\<lambda>v. take 99
       (bytes_of ''files[ '' @ concat (map (\<lambda>level. decimal (length (v_files v level)) @ [32]) [0..<kNumLevels]) @ bytes_of '']''))
       (current_version vs)"

definition AddLiveFiles :: "'w VersionSet \<Rightarrow> u64 set \<Rightarrow> u64 set" where
  "AddLiveFiles vs live =
     live \<union> set (concat (map (\<lambda>(_, v). map (\<lambda>f. f_number (vs_files vs f)) (all_files v)) (vs_versions vs)))"

fun file_offset ::
  "Comparator \<Rightarrow> files \<Rightarrow> 'f TableCache \<Rightarrow> slice \<Rightarrow> nat \<Rightarrow> file_ref list \<Rightarrow> u64 \<Rightarrow> u64 option" where
  "file_offset user h tc ikey level [] result = Some result"
| "file_offset user h tc ikey level (f # fs) result =
     (if Internal_Compare user (f_largest (h f)) ikey \<le> 0
      then file_offset user h tc ikey level fs (result + f_file_size (h f))
      else if 0 < Internal_Compare user (f_smallest (h f)) ikey then
        (if 0 < level then Some result else file_offset user h tc ikey level fs result)
      else
        Option.bind (TableCache_NewIterator tc (f_number (h f)) (f_file_size (h f))) (\<lambda>(_, table).
        Option.bind (case table of Some t \<Rightarrow> ApproximateOffsetOf t ikey | None \<Rightarrow> Some 0) (\<lambda>offset.
          file_offset user h tc ikey level fs (result + offset))))"

definition VersionSet_ApproximateOffsetOf :: "'f TableCache \<Rightarrow> Version \<Rightarrow> slice \<Rightarrow> 'w VersionSet \<Rightarrow> u64 option" where
  "VersionSet_ApproximateOffsetOf tc v ikey vs =
     fold_option (\<lambda>level. file_offset (vs_user vs) (vs_files vs) tc ikey level (v_files v level)) [0..<kNumLevels] 0"

definition file_overlap :: "'w VersionSet \<Rightarrow> Version \<Rightarrow> nat \<Rightarrow> file_ref \<Rightarrow> int \<Rightarrow> int option" where
  "file_overlap vs v level f result =
     map_option (\<lambda>overlaps. let sum = TotalFileSize (vs_files vs) overlaps in if result < sum then sum else result)
       (GetOverlappingInputs (vs_user vs) (vs_files vs) v (level + 1) (Some (f_smallest (vs_files vs f))) (Some (f_largest (vs_files vs f))))"

definition MaxNextLevelOverlappingBytes :: "'w VersionSet \<Rightarrow> int option" where
  "MaxNextLevelOverlappingBytes vs =
     Option.bind (current_version vs) (\<lambda>v.
       fold_option (\<lambda>level. fold_option (file_overlap vs v level) (v_files v level)) [1..<kNumLevels - 1] 0)"

end
