(* ===== verification/Ldb_VersionSet_Spec.thy ===== *)
theory Ldb_VersionSet_Spec
  imports Ldb_VersionSet Ldb_Version_Spec
begin

text \<open>
  What the builder of versions makes: the files of each level are those of the base version with the edits
  applied one after the other, in the order of their smallest keys.
\<close>

section \<open>Sorted sets of references\<close>

definition strict_on :: "('a \<Rightarrow> 'a \<Rightarrow> bool) \<Rightarrow> 'a set \<Rightarrow> bool" where
  "strict_on lt S \<longleftrightarrow> (\<forall>x \<in> S. \<forall>y \<in> S. \<forall>z \<in> S. lt x y \<longrightarrow> lt y z \<longrightarrow> lt x z) \<and> (\<forall>x \<in> S. \<not> lt x x) \<and>
     (\<forall>x \<in> S. \<forall>y \<in> S. x \<noteq> y \<longrightarrow> lt x y \<or> lt y x)"

lemma strict_onD:
  assumes "strict_on lt S"
  shows "x \<in> S \<Longrightarrow> y \<in> S \<Longrightarrow> z \<in> S \<Longrightarrow> lt x y \<Longrightarrow> lt y z \<Longrightarrow> lt x z" and "x \<in> S \<Longrightarrow> \<not> lt x x"
    and "x \<in> S \<Longrightarrow> y \<in> S \<Longrightarrow> x \<noteq> y \<Longrightarrow> lt x y \<or> lt y x" and "x \<in> S \<Longrightarrow> y \<in> S \<Longrightarrow> lt x y \<Longrightarrow> \<not> lt y x"
proof -
  note s = assms [unfolded strict_on_def]
  show "x \<in> S \<Longrightarrow> y \<in> S \<Longrightarrow> z \<in> S \<Longrightarrow> lt x y \<Longrightarrow> lt y z \<Longrightarrow> lt x z" using s by blast
  show "x \<in> S \<Longrightarrow> \<not> lt x x" using s by blast
  show "x \<in> S \<Longrightarrow> y \<in> S \<Longrightarrow> x \<noteq> y \<Longrightarrow> lt x y \<or> lt y x" using s by blast
  show "x \<in> S \<Longrightarrow> y \<in> S \<Longrightarrow> lt x y \<Longrightarrow> \<not> lt y x" using s by blast
qed

lemma strict_on_subset: "strict_on lt S \<Longrightarrow> T \<subseteq> S \<Longrightarrow> strict_on lt T"
  unfolding strict_on_def by blast

lemma set_insert_sorted:
  assumes "strict_on lt (insert x (set xs))" and "sorted_wrt lt xs" and "x \<notin> set xs"
  shows "sorted_wrt lt (set_insert lt x xs)" and "set (set_insert lt x xs) = insert x (set xs)"
proof -
  have "sorted_wrt lt (set_insert lt x xs) \<and> set (set_insert lt x xs) = insert x (set xs)"
    using assms
  proof (induction xs)
    case (Cons y ys)
    note s = strict_onD [OF Cons.prems(1)]
    have IH: "sorted_wrt lt (set_insert lt x ys) \<and> set (set_insert lt x ys) = insert x (set ys)"
      using Cons strict_on_subset [OF Cons.prems(1), of "insert x (set ys)"] by auto
    consider "lt x y" | "\<not> lt x y" "lt y x" using s(3) [of x y] Cons.prems(3) by auto
    then show ?case
    proof cases
      case 1
      then have "lt x z" if "z \<in> set ys" for z using s(1) [of x y z] Cons.prems(2) that by simp
      with 1 Cons.prems(2) show ?thesis by simp
    next
      case 2
      with IH Cons.prems(2) show ?thesis by auto
    qed
  qed simp
  then show "sorted_wrt lt (set_insert lt x xs)" "set (set_insert lt x xs) = insert x (set xs)" by simp_all
qed

lemma sorted_wrt_around:
  assumes "sorted_wrt lt xs" "sorted_wrt lt zs" and "\<And>x. x \<in> set xs \<Longrightarrow> lt x a" "\<And>z. z \<in> set zs \<Longrightarrow> lt a z"
    and "\<And>x z. x \<in> set xs \<Longrightarrow> z \<in> set zs \<Longrightarrow> lt x z"
  shows "sorted_wrt lt (xs @ a # zs)"
  using assms by (simp add: sorted_wrt_append)

lemma merge_files_sorted:
  assumes "strict_on lt (set old \<union> set added)" and "sorted_wrt lt old" and "sorted_wrt lt added" and "set old \<inter> set added = {}"
  shows "sorted_wrt lt (merge_files lt old added) \<and> set (merge_files lt old added) = set old \<union> set added"
  using assms
proof (induction added arbitrary: old)
  case (Cons a added)
  note s = strict_onD [OF Cons.prems(1)]
  define xs where "xs = takeWhile (\<lambda>x. \<not> lt a x) old"
  define ys where "ys = dropWhile (\<lambda>x. \<not> lt a x) old"
  let ?rest = "merge_files lt ys added"
  have split: "old = xs @ ys" by (simp add: xs_def ys_def)
  have sorted: "sorted_wrt lt xs" "sorted_wrt lt ys" "\<forall>x \<in> set xs. \<forall>y \<in> set ys. lt x y"
    using Cons.prems(2) by (simp_all add: split sorted_wrt_append)
  have IH: "sorted_wrt lt ?rest" "set ?rest = set ys \<union> set added"
    using Cons.IH [of ys] Cons.prems(3,4) sorted(2) strict_on_subset [OF Cons.prems(1), of "set ys \<union> set added"] split by auto
  have before: "lt x a" if x: "x \<in> set xs" for x
  proof -
    have "\<not> lt a x" using set_takeWhileD [of x "\<lambda>x. \<not> lt a x" old] x by (simp add: xs_def)
    with s(3) [of x a] Cons.prems(4) x split show ?thesis by auto
  qed
  have after: "lt a y" if y: "y \<in> set ys" for y
  proof -
    obtain z zs where z: "ys = z # zs" using y by (cases ys) auto
    then have "lt a z" using hd_dropWhile [of "\<lambda>x. \<not> lt a x" old] by (simp add: ys_def)
    moreover have "y = z \<or> lt z y" using y sorted(2) z by auto
    ultimately show ?thesis using s(1) [of a z y] y z split by auto
  qed
  have across: "lt x z" if "x \<in> set xs" "z \<in> set added" for x z
    using s(1) [of x a z] before [OF that(1)] that Cons.prems(3) split by simp
  have "sorted_wrt lt (xs @ a # ?rest)"
  proof (rule sorted_wrt_around [OF sorted(1) IH(1) before])
    show "lt a z" if "z \<in> set ?rest" for z using that after Cons.prems(3) IH(2) by auto
    show "lt x z" if "x \<in> set xs" "z \<in> set ?rest" for x z using that across sorted(3) IH(2) by blast
  qed
  moreover have "merge_files lt old (a # added) = xs @ a # ?rest" by (simp add: xs_def ys_def)
  moreover have "set old = set xs \<union> set ys" using split by simp
  ultimately show ?case using IH(2) by (simp del: merge_files.simps) blast
qed simp

section \<open>Levels as sets of files\<close>

type_synonym file_info = "u64 \<times> u64 \<times> slice \<times> slice"

definition info :: "FileMetaData \<Rightarrow> file_info" where
  "info m = (f_number m, f_file_size m, f_smallest m, f_largest m)"

definition level_set :: "files \<Rightarrow> file_ref set \<Rightarrow> file_info set" where
  "level_set h fs = (\<lambda>f. info (h f)) ` fs"

text \<open>An edit: its deletions first, then its new files.\<close>

definition edit_level :: "VersionEdit \<Rightarrow> nat \<Rightarrow> file_info set \<Rightarrow> file_info set" where
  "edit_level e level M = {m \<in> M. (level, fst m) \<notin> deleted_files e} \<union> {info m | m. (level, m) \<in> set (new_files e)}"

text \<open>Every file that is added has a number that was not used at its level before, and valid keys.\<close>

fun numbers_fresh :: "(nat \<Rightarrow> u64 set) \<Rightarrow> (nat \<times> FileMetaData) list \<Rightarrow> bool" where
  "numbers_fresh N [] \<longleftrightarrow> True"
| "numbers_fresh N ((level, m) # fs) \<longleftrightarrow> level < kNumLevels \<and> f_number m \<notin> N level \<and>
     numbers_fresh (N(level := insert (f_number m) (N level))) fs"

definition edits_fresh :: "(nat \<Rightarrow> u64 set) \<Rightarrow> VersionEdit list \<Rightarrow> bool" where
  "edits_fresh N edits \<longleftrightarrow> numbers_fresh N (concat (map new_files edits))"

definition meta_keys :: "(slice \<Rightarrow> bool) \<Rightarrow> FileMetaData \<Rightarrow> bool" where
  "meta_keys ikey m \<longleftrightarrow> ikey (f_smallest m) \<and> ikey (f_largest m)"

definition edit_valid :: "(slice \<Rightarrow> bool) \<Rightarrow> VersionEdit \<Rightarrow> bool" where
  "edit_valid ikey e \<longleftrightarrow> finite (deleted_files e) \<and> (\<forall>(level, k) \<in> set (compact_pointers e). k \<noteq> []) \<and>
     (\<forall>(level, m) \<in> set (new_files e). meta_keys ikey m)"

section \<open>The builder\<close>

text \<open>The references that the builder has seen at a level, and those it keeps.\<close>

definition level_refs :: "Version \<Rightarrow> Builder \<Rightarrow> nat \<Rightarrow> file_ref set" where
  "level_refs v b level = set (v_files v level) \<union> set (ls_added_files (b_levels b level))"

definition level_kept :: "files \<Rightarrow> Version \<Rightarrow> Builder \<Rightarrow> nat \<Rightarrow> file_ref set" where
  "level_kept h v b level = {f \<in> level_refs v b level. f_number (h f) \<notin> ls_deleted_files (b_levels b level)}"

definition level_inv :: "Comparator \<Rightarrow> (slice \<Rightarrow> bool) \<Rightarrow> files \<Rightarrow> file_ref \<Rightarrow> file_ref list \<Rightarrow> file_ref list \<Rightarrow> bool" where
  "level_inv C ikey h next old added \<longleftrightarrow>
     (\<forall>f \<in> set old \<union> set added. f < next \<and> meta_keys ikey (h f)) \<and> inj_on (\<lambda>f. f_number (h f)) (set old \<union> set added) \<and>
     set old \<inter> set added = {} \<and> sorted_wrt (BySmallestKey C h) old \<and> sorted_wrt (BySmallestKey C h) added"

definition builder_inv :: "Comparator \<Rightarrow> (slice \<Rightarrow> bool) \<Rightarrow> Version \<Rightarrow> 'w VersionSet \<Rightarrow> Builder \<Rightarrow> bool" where
  "builder_inv C ikey v vs b \<longleftrightarrow> vs_user vs = C \<and>
     (\<forall>level < kNumLevels. level_inv C ikey (vs_files vs) (vs_next_file vs) (v_files v level) (ls_added_files (b_levels b level)))"

text \<open>The store of files is the same up to the counters, on these references.\<close>

definition same_info :: "file_ref set \<Rightarrow> files \<Rightarrow> files \<Rightarrow> bool" where
  "same_info S h h' \<longleftrightarrow> (\<forall>f \<in> S. info (h' f) = info (h f))"

lemma BySmallestKey_same: "info (h' f) = info (h f) \<Longrightarrow> info (h' g) = info (h g) \<Longrightarrow> BySmallestKey C h' f g = BySmallestKey C h f g"
  by (simp add: BySmallestKey_def info_def)

lemma sorted_same: "same_info (set fs) h h' \<Longrightarrow> sorted_wrt (BySmallestKey C h) fs \<Longrightarrow> sorted_wrt (BySmallestKey C h') fs"
  by (erule sorted_wrt_mono_rel [rotated], subst BySmallestKey_same [of h' _ h]) (simp_all add: same_info_def)

lemma level_inv_same:
  assumes "same_info (set old \<union> set added) h h'" and "next \<le> next'" and "level_inv C ikey h next old added"
  shows "level_inv C ikey h' next' old added"
proof -
  have i: "info (h' f) = info (h f)" if "f \<in> set old \<union> set added" for f using assms(1) that by (simp add: same_info_def)
  then have n: "f_number (h' f) = f_number (h f)" "meta_keys ikey (h' f) = meta_keys ikey (h f)" if "f \<in> set old \<union> set added" for f
    using that by (simp_all add: info_def meta_keys_def)
  have inj: "inj_on (\<lambda>f. f_number (h' f)) (set old \<union> set added) = inj_on (\<lambda>f. f_number (h f)) (set old \<union> set added)"
    using n(1) by (intro inj_on_cong) simp
  have "same_info (set old) h h'" "same_info (set added) h h'" using assms(1) by (simp_all add: same_info_def)
  note sorted = sorted_same [OF this(1)] sorted_same [OF this(2)]
  show ?thesis
    unfolding level_inv_def inj
  proof (intro conjI ballI)
    fix f
    assume f: "f \<in> set old \<union> set added"
    with assms(2,3) show "f < next'" by (meson level_inv_def less_le_trans)
    show "meta_keys ikey (h' f)" using assms(3) f n(2) by (simp add: level_inv_def)
  qed (use assms(3) sorted in \<open>simp_all add: level_inv_def\<close>)
qed

context comparator
begin

lemma smallest_strict:
  assumes "\<forall>f \<in> S. meta_keys ikey (h f)" and "inj_on (\<lambda>f. f_number (h f)) S"
  shows "strict_on (BySmallestKey C h) S"
proof -
  let ?c = "\<lambda>f g. Compare (InternalKeyComparator C) (f_smallest (h f)) (f_smallest (h g))"
  have lt: "BySmallestKey C h f g \<longleftrightarrow> ?c f g < 0 \<or> ?c f g = 0 \<and> f_number (h f) < f_number (h g)" for f g
    by (auto simp: BySmallestKey_def InternalKeyComparator_def Let_def)
  have k: "ikey (f_smallest (h f))" if "f \<in> S" for f using assms(1) that by (simp add: meta_keys_def)
  note eq = comparator.equal [OF Internal_comparator k k] and less = comparator.less_trans [OF Internal_comparator k k k]
    and flip = comparator.flip [OF Internal_comparator k k]
  show ?thesis
    unfolding strict_on_def
  proof (intro conjI ballI impI)
    fix x y z
    assume S: "x \<in> S" "y \<in> S" "z \<in> S" and "BySmallestKey C h x y" "BySmallestKey C h y z"
    with eq [OF S(1,2)] eq [OF S(2,3)] eq [OF S(1,3)] less [OF S] show "BySmallestKey C h x z"
      unfolding lt by auto
  next
    fix x y
    assume S: "x \<in> S" "y \<in> S" and "x \<noteq> y"
    with assms(2) have "f_number (h x) \<noteq> f_number (h y)" by (auto simp: inj_on_def)
    with eq [OF S] eq [OF S(2,1)] flip [OF S] flip [OF S(2,1)] show "BySmallestKey C h x y \<or> BySmallestKey C h y x"
      unfolding lt by (metis linorder_neqE)
  next
    fix x
    assume "x \<in> S"
    with comparator.refl [OF Internal_comparator k] show "\<not> BySmallestKey C h x x" by (simp add: lt)
  qed
qed

text \<open>One new file.\<close>

lemma add_new_file_step:
  assumes inv: "builder_inv C ikey v vs b" and level: "level < kNumLevels" and m: "meta_keys ikey m"
    and fresh: "f_number m \<notin> (\<lambda>f. f_number (vs_files vs f)) ` level_refs v b level"
    and step: "add_new_file (level, m) (vs, b) = (vs', b')"
  shows "builder_inv C ikey v vs' b'" and "vs_versions vs' = vs_versions vs" and "b_base b' = b_base b"
    and "\<forall>l < kNumLevels. level_set (vs_files vs') (level_kept (vs_files vs') v b' l) =
      level_set (vs_files vs) (level_kept (vs_files vs) v b l) \<union> (if l = level then {info m} else {})"
    and "\<forall>l < kNumLevels. (\<lambda>f. f_number (vs_files vs' f)) ` level_refs v b' l =
      (\<lambda>f. f_number (vs_files vs f)) ` level_refs v b l \<union> (if l = level then {f_number m} else {})"
    and "same_info {..<vs_next_file vs} (vs_files vs) (vs_files vs')" and "vs_next_file vs \<le> vs_next_file vs'"
proof -
  let ?h = "vs_files vs" and ?f = "vs_next_file vs" and ?m = "m\<lparr>f_refs := 1, f_allowed_seeks := seeks_allowed (f_file_size m)\<rparr>"
  let ?ls = "b_levels b level"
  define h' where "h' = ?h(?f := ?m)"
  have vs': "vs_files vs' = h'" "vs_next_file vs' = ?f + 1" "vs_versions vs' = vs_versions vs" "vs_user vs' = vs_user vs"
    and b': "b_base b' = b_base b" "\<And>l. l \<noteq> level \<Longrightarrow> b_levels b' l = b_levels b l"
    "ls_deleted_files (b_levels b' level) = ls_deleted_files ?ls - {f_number m}"
    "ls_added_files (b_levels b' level) = set_insert (BySmallestKey (vs_user vs) h') ?f (ls_added_files ?ls)"
    using step by (auto simp: add_new_file_def on_level_def Let_def h'_def)
  show "vs_versions vs' = vs_versions vs" "b_base b' = b_base b" "vs_next_file vs \<le> vs_next_file vs'" using vs' b' by simp_all
  have new: "info (h' ?f) = info m" "f_number (h' ?f) = f_number m" "meta_keys ikey (h' ?f)"
    using m by (simp_all add: h'_def info_def meta_keys_def)
  have old: "h' f = ?h f" if "f < ?f" for f using that by (simp add: h'_def)
  then show same: "same_info {..<vs_next_file vs} (vs_files vs) (vs_files vs')" by (simp add: same_info_def vs'(1))
  have C: "vs_user vs = C" and inv0: "\<And>l. l < kNumLevels \<Longrightarrow> level_inv C ikey ?h ?f (v_files v l) (ls_added_files (b_levels b l))"
    using inv by (simp_all add: builder_inv_def)
  have below: "f < ?f" if "f \<in> level_refs v b l" "l < kNumLevels" for f l
    using inv0 [OF that(2)] that(1) by (auto simp: level_inv_def level_refs_def)
  have inv1: "level_inv C ikey h' (?f + 1) (v_files v l) (ls_added_files (b_levels b l))" if "l < kNumLevels" for l
    by (rule level_inv_same [OF _ _ inv0 [OF that]]) (use below that old in \<open>auto simp: same_info_def level_refs_def\<close>)
  let ?S = "level_refs v b level"
  have notin: "?f \<notin> ?S" using below [of ?f level] level by auto
  have inj: "inj_on (\<lambda>f. f_number (h' f)) (insert ?f ?S)"
  proof -
    have "inj_on (\<lambda>f. f_number (h' f)) ?S" using inv1 [OF level] by (simp add: level_inv_def level_refs_def)
    moreover have "f_number (h' ?f) \<notin> (\<lambda>f. f_number (h' f)) ` ?S" using fresh below [OF _ level] old new(2) by auto
    ultimately show ?thesis using notin by (simp add: inj_on_insert)
  qed
  have keys: "\<forall>f \<in> insert ?f ?S. meta_keys ikey (h' f)" using inv1 [OF level] new(3) by (auto simp: level_inv_def level_refs_def)
  have "strict_on (BySmallestKey C h') (insert ?f (set (ls_added_files ?ls)))"
    by (rule strict_on_subset [OF smallest_strict [OF keys inj]]) (auto simp: level_refs_def)
  then have ins: "sorted_wrt (BySmallestKey C h') (ls_added_files (b_levels b' level))"
      "set (ls_added_files (b_levels b' level)) = insert ?f (set (ls_added_files ?ls))"
    using set_insert_sorted [of "BySmallestKey C h'" ?f "ls_added_files ?ls"] inv1 [OF level] b'(4) C notin
    by (simp_all add: level_inv_def level_refs_def)
  then have refs: "level_refs v b' level = insert ?f ?S" by (auto simp: level_refs_def)
  have others: "level_refs v b' l = level_refs v b l" if "l \<noteq> level" for l using b'(2) [OF that] by (simp add: level_refs_def)
  have "level_inv C ikey h' (?f + 1) (v_files v level) (ls_added_files (b_levels b' level))"
    using inv1 [OF level] inj ins new(3) notin unfolding level_inv_def by (simp add: level_refs_def insert_commute)
  then show "builder_inv C ikey v vs' b'"
    using inv1 b'(2) C by (auto simp: builder_inv_def vs') (metis)
  have kept_old: "level_set h' (level_kept h' v b l) = level_set ?h (level_kept ?h v b l)" if "l < kNumLevels" for l
  proof -
    have "level_kept h' v b l = level_kept ?h v b l" using below [OF _ that] old by (auto simp: level_kept_def)
    moreover have "info (h' f) = info (?h f)" if "f \<in> level_kept ?h v b l" for f
      using that below [OF _ \<open>l < kNumLevels\<close>] old by (auto simp: level_kept_def)
    ultimately show ?thesis by (simp add: level_set_def)
  qed
  have "level_kept h' v b' level = insert ?f (level_kept h' v b level)"
    using fresh below [OF _ level] old new(2) by (auto simp: level_kept_def refs b'(3) image_iff)
  then have "level_set h' (level_kept h' v b' level) = insert (info m) (level_set h' (level_kept h' v b level))"
    using new(1) by (simp add: level_set_def)
  moreover have "level_kept h' v b' l = level_kept h' v b l" if "l \<noteq> level" for l
    using that b'(2) [OF that] others by (simp add: level_kept_def)
  ultimately show "\<forall>l < kNumLevels. level_set (vs_files vs') (level_kept (vs_files vs') v b' l) =
      level_set (vs_files vs) (level_kept (vs_files vs) v b l) \<union> (if l = level then {info m} else {})"
    using kept_old by (simp add: vs')
  have "(\<lambda>f. f_number (h' f)) ` level_refs v b l = (\<lambda>f. f_number (?h f)) ` level_refs v b l" if "l < kNumLevels" for l
    using below [OF _ that] old by (intro image_cong) auto
  then show "\<forall>l < kNumLevels. (\<lambda>f. f_number (vs_files vs' f)) ` level_refs v b' l =
      (\<lambda>f. f_number (vs_files vs f)) ` level_refs v b l \<union> (if l = level then {f_number m} else {})"
    using refs others new(2) by (auto simp: vs')
qed

end

text \<open>All new files of some edits.\<close>

definition with_numbers :: "(nat \<Rightarrow> u64 set) \<Rightarrow> (nat \<times> FileMetaData) list \<Rightarrow> nat \<Rightarrow> u64 set" where
  "with_numbers N fs level = N level \<union> {f_number m | m. (level, m) \<in> set fs}"

lemma numbers_fresh_append:
  "numbers_fresh N (xs @ ys) \<longleftrightarrow> numbers_fresh N xs \<and> numbers_fresh (with_numbers N xs) ys"
proof (induction xs arbitrary: N)
  case Nil
  have "with_numbers N [] = N" by (simp add: with_numbers_def fun_eq_iff)
  then show ?case by simp
next
  case (Cons x xs)
  obtain l m where x: "x = (l, m)" by (cases x)
  define N1 where "N1 = N(l := insert (f_number m) (N l))"
  have "with_numbers N1 xs = with_numbers N (x # xs)"
    by (auto simp: with_numbers_def fun_eq_iff x N1_def)
  moreover have "numbers_fresh N (x # zs) \<longleftrightarrow> l < kNumLevels \<and> f_number m \<notin> N l \<and> numbers_fresh N1 zs" for zs
    by (simp add: x N1_def)
  ultimately show ?case using Cons.IH [of N1] by simp
qed

lemma numbers_fresh_mono: "numbers_fresh N xs \<Longrightarrow> \<forall>l < kNumLevels. M l \<subseteq> N l \<Longrightarrow> numbers_fresh M xs"
proof (induction N xs arbitrary: M rule: numbers_fresh.induct)
  case (2 N level m fs)
  have l: "level < kNumLevels" "f_number m \<notin> N level" "numbers_fresh (N(level := insert (f_number m) (N level))) fs"
    using "2.prems"(1) by simp_all
  have "numbers_fresh (M(level := insert (f_number m) (M level))) fs"
    by (rule "2.IH" [OF l(3)]) (use "2.prems"(2) l(1) in auto)
  moreover have "f_number m \<notin> M level" using l "2.prems"(2) by blast
  ultimately show ?case using l(1) by simp
qed simp

definition numbers_of :: "files \<Rightarrow> Version \<Rightarrow> Builder \<Rightarrow> nat \<Rightarrow> u64 set" where
  "numbers_of h v b level = (\<lambda>f. f_number (h f)) ` level_refs v b level"

text \<open>What one step or several steps of the builder keep.\<close>

definition builder_step :: "Version \<Rightarrow> 'w VersionSet \<times> Builder \<Rightarrow> 'w VersionSet \<times> Builder \<Rightarrow> bool" where
  "builder_step v vb vb' \<longleftrightarrow>
     vs_versions (fst vb') = vs_versions (fst vb) \<and> b_base (snd vb') = b_base (snd vb) \<and>
     same_info {..<vs_next_file (fst vb)} (vs_files (fst vb)) (vs_files (fst vb')) \<and> vs_next_file (fst vb) \<le> vs_next_file (fst vb')"

lemma builder_step_trans: "builder_step v x y \<Longrightarrow> builder_step v y z \<Longrightarrow> builder_step v x z"
  by (auto simp: builder_step_def same_info_def)

context comparator
begin

lemma add_new_files:
  assumes "builder_inv C ikey v vs b" and "numbers_fresh (numbers_of (vs_files vs) v b) fs" and "\<forall>(level, m) \<in> set fs. meta_keys ikey m"
    and "fold add_new_file fs (vs, b) = (vs', b')"
  shows "builder_inv C ikey v vs' b' \<and> builder_step v (vs, b) (vs', b') \<and> (\<forall>l < kNumLevels.
      level_set (vs_files vs') (level_kept (vs_files vs') v b' l) =
        level_set (vs_files vs) (level_kept (vs_files vs) v b l) \<union> {info m | m. (l, m) \<in> set fs} \<and>
      numbers_of (vs_files vs') v b' l = with_numbers (numbers_of (vs_files vs) v b) fs l)"
  using assms
proof (induction fs arbitrary: vs b)
  case (Cons x fs)
  obtain level m where x: "x = (level, m)" by (cases x)
  obtain vs1 b1 where 1: "add_new_file (level, m) (vs, b) = (vs1, b1)" by fastforce
  have level: "level < kNumLevels" and m: "meta_keys ikey m" and fresh: "f_number m \<notin> (\<lambda>f. f_number (vs_files vs f)) ` level_refs v b level"
    using Cons.prems(2,3) by (simp_all add: x numbers_of_def)
  note step = add_new_file_step [OF Cons.prems(1) level m fresh 1]
  have n1: "numbers_of (vs_files vs1) v b1 l = numbers_of (vs_files vs) v b l \<union> (if l = level then {f_number m} else {})" if "l < kNumLevels" for l
    using step(5) that by (simp add: numbers_of_def)
  have "numbers_fresh (numbers_of (vs_files vs1) v b1) fs"
    by (rule numbers_fresh_mono [of "(numbers_of (vs_files vs) v b)(level := insert (f_number m) (numbers_of (vs_files vs) v b level))"])
      (use Cons.prems(2) n1 in \<open>auto simp: x\<close>)
  from Cons.IH [OF step(1) this] Cons.prems(3,4) 1 have IH: "builder_inv C ikey v vs' b'" "builder_step v (vs1, b1) (vs', b')"
    "\<And>l. l < kNumLevels \<Longrightarrow> level_set (vs_files vs') (level_kept (vs_files vs') v b' l) =
        level_set (vs_files vs1) (level_kept (vs_files vs1) v b1 l) \<union> {info m | m. (l, m) \<in> set fs}"
    "\<And>l. l < kNumLevels \<Longrightarrow> numbers_of (vs_files vs') v b' l = with_numbers (numbers_of (vs_files vs1) v b1) fs l"
    by (simp_all add: x)
  have "builder_step v (vs, b) (vs1, b1)" using step(2,3,6,7) by (simp add: builder_step_def)
  from builder_step_trans [OF this IH(2)] IH(1,3,4) step(4) n1 show ?case
    by (auto simp: x with_numbers_def)
qed (simp add: builder_step_def same_info_def with_numbers_def)

text \<open>Deletions.\<close>

lemma delete_numbers:
  shows "b_base (fold delete_number ds b) = b_base b" and "ls_added_files (b_levels (fold delete_number ds b) l) = ls_added_files (b_levels b l)"
    and "ls_deleted_files (b_levels (fold delete_number ds b) l) = ls_deleted_files (b_levels b l) \<union> {n. (l, n) \<in> set ds}"
  by (induction ds arbitrary: b) (auto simp: delete_number_def on_level_def)

lemma pointers_applied:
  assumes "\<forall>(level, k) \<in> set ps. k \<noteq> []"
  shows "\<exists>q. fold_option (\<lambda>(level, k) p. map_option (\<lambda>k. p(level := k)) (InternalKey_Encode k)) ps p = Some q"
  using assms by (induction ps arbitrary: p) (auto simp: InternalKey_Encode_def)

lemma Builder_Apply_edit:
  assumes inv: "builder_inv C ikey v vs b" and fresh: "numbers_fresh (numbers_of (vs_files vs) v b) (new_files e)" and e: "edit_valid ikey e"
  shows "\<exists>vs' b'. Builder_Apply e (vs, b) = Some (vs', b') \<and> builder_inv C ikey v vs' b' \<and> builder_step v (vs, b) (vs', b') \<and>
    (\<forall>l < kNumLevels. level_set (vs_files vs') (level_kept (vs_files vs') v b' l) =
        edit_level e l (level_set (vs_files vs) (level_kept (vs_files vs) v b l)) \<and>
      numbers_of (vs_files vs') v b' l = with_numbers (numbers_of (vs_files vs) v b) (new_files e) l)"
proof -
  obtain q where q: "fold_option (\<lambda>(level, k) p. map_option (\<lambda>k. p(level := k)) (InternalKey_Encode k)) (compact_pointers e)
      (vs_compact_pointer vs) = Some q"
    using pointers_applied e unfolding edit_valid_def by blast
  define vs1 where "vs1 = vs\<lparr>vs_compact_pointer := q\<rparr>"
  define b1 where "b1 = fold delete_number (sorted_list_of_set (deleted_files e)) b"
  have vs1: "vs_files vs1 = vs_files vs" "vs_next_file vs1 = vs_next_file vs" "vs_versions vs1 = vs_versions vs" "vs_user vs1 = vs_user vs"
    by (simp_all add: vs1_def)
  have b1: "b_base b1 = b_base b" "ls_added_files (b_levels b1 l) = ls_added_files (b_levels b l)"
    "ls_deleted_files (b_levels b1 l) = ls_deleted_files (b_levels b l) \<union> {n. (l, n) \<in> deleted_files e}" for l
    using e by (simp_all add: b1_def delete_numbers edit_valid_def)
  have refs: "level_refs v b1 l = level_refs v b l" for l by (simp add: level_refs_def b1)
  have inv1: "builder_inv C ikey v vs1 b1" using inv by (simp add: builder_inv_def vs1 b1)
  have fresh1: "numbers_fresh (numbers_of (vs_files vs1) v b1) (new_files e)"
    using fresh by (simp add: numbers_of_def [abs_def] refs vs1)
  obtain vs' b' where step: "fold add_new_file (new_files e) (vs1, b1) = (vs', b')" by fastforce
  have "Builder_Apply e (vs, b) = Some (vs', b')"
    using q step by (simp add: Builder_Apply_def vs1_def b1_def)
  moreover note added = add_new_files [OF inv1 fresh1 _ step]
  moreover have "builder_step v (vs, b) (vs1, b1)" by (simp add: builder_step_def same_info_def vs1 b1)
  moreover have "level_set (vs_files vs1) (level_kept (vs_files vs1) v b1 l) =
      {m \<in> level_set (vs_files vs) (level_kept (vs_files vs) v b l). (l, fst m) \<notin> deleted_files e}" for l
    by (auto simp: level_set_def level_kept_def refs b1 vs1 info_def)
  ultimately show ?thesis
    using e builder_step_trans [of v "(vs, b)" "(vs1, b1)" "(vs', b')"]
    by (auto simp: edit_valid_def edit_level_def numbers_of_def refs vs1 with_numbers_def)
qed

end

section \<open>Saving\<close>

definition saved :: "Comparator \<Rightarrow> files \<Rightarrow> Builder \<Rightarrow> Version \<Rightarrow> nat \<Rightarrow> file_ref list" where
  "saved C h b v level = filter (\<lambda>f. f_number (h f) \<notin> ls_deleted_files (b_levels b level))
     (merge_files (BySmallestKey C h) (v_files v level) (ls_added_files (b_levels b level)))"

lemma same_info_all: "same_info UNIV h h' \<Longrightarrow> f_number (h' f) = f_number (h f) \<and> f_smallest (h' f) = f_smallest (h f) \<and> f_largest (h' f) = f_largest (h f)"
  by (simp add: same_info_def info_def)

lemma MaybeAddFiles:
  assumes "level = 0 \<or> sorted_wrt (follows C h0) (acc @ filter (\<lambda>f. f_number (h0 f) \<notin> deleted) xs)" and "same_info UNIV h0 h"
  shows "\<exists>h'. fold_option (MaybeAddFile C deleted level) xs (h, acc) = Some (h', acc @ filter (\<lambda>f. f_number (h0 f) \<notin> deleted) xs) \<and>
    same_info UNIV h0 h'"
  using assms
proof (induction xs arbitrary: h acc)
  case (Cons f xs)
  have h: "f_number (h g) = f_number (h0 g)" "f_smallest (h g) = f_smallest (h0 g)" "f_largest (h g) = f_largest (h0 g)" for g
    using same_info_all [OF Cons.prems(2)] by simp_all
  show ?case
  proof (cases "f_number (h0 f) \<in> deleted")
    case True
    with Cons.IH [OF _ Cons.prems(2), of acc] Cons.prems(1) h show ?thesis by (simp add: MaybeAddFile_def)
  next
    case False
    have "Internal_Compare C (f_largest (h0 (last acc))) (f_smallest (h0 f)) < 0" if "0 < level" "acc \<noteq> []"
      using Cons.prems(1) that False by (simp add: sorted_wrt_append follows_def)
    then have "MaybeAddFile C deleted level f (h, acc) = Some (change_refs 1 f h, acc @ [f])"
      using False h by (auto simp: MaybeAddFile_def)
    moreover have "same_info UNIV h0 (change_refs 1 f h)"
      using Cons.prems(2) by (simp add: same_info_def change_refs_def info_def)
    ultimately show ?thesis using Cons.IH [of "acc @ [f]" "change_refs 1 f h"] Cons.prems(1) False by simp
  qed
qed simp

lemma save_levels:
  assumes "\<forall>level \<in> set levels. v_files v level = [] \<and> (level = 0 \<or> sorted_wrt (follows C h0) (saved C h0 b v0 level))"
    and "distinct levels" and "same_info UNIV h0 h"
  shows "\<exists>h' v'. fold_option (save_level C b v0) levels (h, v) = Some (h', v') \<and> same_info UNIV h0 h' \<and>
    (\<forall>level. v_files v' level = (if level \<in> set levels then saved C h0 b v0 level else v_files v level))"
  using assms
proof (induction levels arbitrary: h v)
  case (Cons l levels)
  have lt: "BySmallestKey C h = BySmallestKey C h0"
    using same_info_all [OF Cons.prems(3)] by (simp add: BySmallestKey_def fun_eq_iff)
  have "level = l \<Longrightarrow> level = 0 \<or> sorted_wrt (follows C h0) ([] @ saved C h0 b v0 level)" for level using Cons.prems(1) by simp
  from MaybeAddFiles [OF this [OF HOL.refl, unfolded saved_def] Cons.prems(3)] obtain h1 where
    h1: "fold_option (MaybeAddFile C (ls_deleted_files (b_levels b l)) l)
        (merge_files (BySmallestKey C h0) (v_files v0 l) (ls_added_files (b_levels b l))) (h, []) = Some (h1, saved C h0 b v0 l)"
      "same_info UNIV h0 h1" by (auto simp: saved_def)
  define v1 where "v1 = v\<lparr>v_files := (v_files v)(l := saved C h0 b v0 l)\<rparr>"
  have step: "save_level C b v0 l (h, v) = Some (h1, v1)"
    using h1(1) Cons.prems(1) by (simp add: save_level_def lt v1_def)
  have "\<forall>level \<in> set levels. v_files v1 level = [] \<and> (level = 0 \<or> sorted_wrt (follows C h0) (saved C h0 b v0 level))"
    using Cons.prems(1,2) by (auto simp: v1_def)
  from Cons.IH [OF this _ h1(2)] Cons.prems(2) obtain h' v' where
    "fold_option (save_level C b v0) levels (h1, v1) = Some (h', v')" "same_info UNIV h0 h'"
    "\<forall>level. v_files v' level = (if level \<in> set levels then saved C h0 b v0 level else v_files v1 level)" by auto
  with step Cons.prems(2) show ?case by (auto simp: v1_def)
qed simp

text \<open>Files of a level do not overlap.\<close>

definition disjoint_level :: "Comparator \<Rightarrow> file_info set \<Rightarrow> bool" where
  "disjoint_level C M \<longleftrightarrow>
     (\<forall>(n, z, small, large) \<in> M. Internal_Compare C small large \<le> 0) \<and>
     (\<forall>(n, z, small, large) \<in> M. \<forall>(n', z', small', large') \<in> M.
        n \<noteq> n' \<longrightarrow> Internal_Compare C large small' < 0 \<or> Internal_Compare C large' small < 0)"

context comparator
begin

lemma saved_facts:
  assumes "level_inv C ikey h next (v_files v level) (ls_added_files (b_levels b level))"
  shows "sorted_wrt (BySmallestKey C h) (saved C h b v level)" and "set (saved C h b v level) = level_kept h v b level"
    and "disjoint_level C (level_set h (level_kept h v b level)) \<Longrightarrow> sorted_wrt (follows C h) (saved C h b v level)"
proof -
  let ?S = "set (v_files v level) \<union> set (ls_added_files (b_levels b level))"
  have inv: "\<forall>f \<in> ?S. meta_keys ikey (h f)" "inj_on (\<lambda>f. f_number (h f)) ?S" using assms by (simp_all add: level_inv_def)
  note strict = smallest_strict [OF inv]
  have m: "sorted_wrt (BySmallestKey C h) (merge_files (BySmallestKey C h) (v_files v level) (ls_added_files (b_levels b level)))"
    "set (merge_files (BySmallestKey C h) (v_files v level) (ls_added_files (b_levels b level))) = ?S"
    using merge_files_sorted [OF strict] assms by (simp_all add: level_inv_def)
  show sorted: "sorted_wrt (BySmallestKey C h) (saved C h b v level)" using m(1) by (simp add: saved_def sorted_wrt_filter)
  show set: "set (saved C h b v level) = level_kept h v b level"
    using m(2) by (auto simp: saved_def level_kept_def level_refs_def)
  assume disj: "disjoint_level C (level_set h (level_kept h v b level))"
  show "sorted_wrt (follows C h) (saved C h b v level)"
  proof (rule sorted_wrt_mono_rel [OF _ sorted])
    fix f g
    assume fg: "f \<in> set (saved C h b v level)" "g \<in> set (saved C h b v level)" "BySmallestKey C h f g"
    then have S: "f \<in> ?S" "g \<in> ?S" using set by (auto simp: level_kept_def level_refs_def)
    have k: "ikey (f_smallest (h f))" "ikey (f_largest (h g))" "ikey (f_smallest (h g))" using inv(1) S by (simp_all add: meta_keys_def)
    have "f \<noteq> g" using fg(3) strict_onD(2) [OF strict S(1)] by auto
    then have "f_number (h f) \<noteq> f_number (h g)" using inv(2) S by (auto simp: inj_on_def)
    then have d: "Internal_Compare C (f_largest (h f)) (f_smallest (h g)) < 0 \<or> Internal_Compare C (f_largest (h g)) (f_smallest (h f)) < 0"
      and le: "Internal_Compare C (f_smallest (h g)) (f_largest (h g)) \<le> 0"
      using disj fg(1,2) unfolding set disjoint_level_def level_set_def info_def by fastforce+
    have "\<not> Internal_Compare C (f_largest (h g)) (f_smallest (h f)) < 0"
    proof
      assume "Internal_Compare C (f_largest (h g)) (f_smallest (h f)) < 0"
      with comparator.le_less_trans [OF Internal_comparator k(3,2,1)] le
      have "Internal_Compare C (f_smallest (h g)) (f_smallest (h f)) < 0" by (simp add: InternalKeyComparator_def)
      moreover have "Internal_Compare C (f_smallest (h f)) (f_smallest (h g)) \<le> 0" using fg(3) by (auto simp: BySmallestKey_def Let_def split: if_splits)
      ultimately show False using comparator.flip [OF Internal_comparator k(1,3)] by (simp add: InternalKeyComparator_def)
    qed
    with d show "follows C h f g" by (simp add: follows_def)
  qed
qed

text \<open>The files of a version in the store: their keys, numbers and order.\<close>

definition base_ok :: "'w VersionSet \<Rightarrow> Version \<Rightarrow> bool" where
  "base_ok vs v \<longleftrightarrow> vs_user vs = C \<and> (\<forall>level < kNumLevels. level_inv C ikey (vs_files vs) (vs_next_file vs) (v_files v level) [])"

lemma Builder_SaveTo_levels:
  assumes "builder_inv C ikey v0 vs b" and "version_of (b_base b) vs = Some v0"
    and "\<forall>level. 0 < level \<and> level < kNumLevels \<longrightarrow> disjoint_level C (level_set (vs_files vs) (level_kept (vs_files vs) v0 b level))"
  shows "\<exists>v vs'. Builder_SaveTo b Version_new vs = Some (v, vs') \<and> base_ok vs' v \<and> (\<forall>level < kNumLevels.
      level_set (vs_files vs') (set (v_files v level)) = level_set (vs_files vs) (level_kept (vs_files vs) v0 b level) \<and>
      sorted_wrt (BySmallestKey C (vs_files vs')) (v_files v level) \<and> (0 < level \<longrightarrow> sorted_wrt (follows C (vs_files vs')) (v_files v level)))"
proof -
  let ?h = "vs_files vs"
  have C: "vs_user vs = C" and inv: "\<And>l. l < kNumLevels \<Longrightarrow> level_inv C ikey ?h (vs_next_file vs) (v_files v0 l) (ls_added_files (b_levels b l))"
    using assms(1) by (simp_all add: builder_inv_def)
  note facts = saved_facts [OF inv]
  have "\<forall>level \<in> set [0..<kNumLevels]. v_files Version_new level = [] \<and> (level = 0 \<or> sorted_wrt (follows C ?h) (saved C ?h b v0 level))"
    using facts(3) assms(3) by (auto simp: Version_new_def)
  from save_levels [OF this _, of ?h] obtain h' v where
    v: "fold_option (save_level C b v0) [0..<kNumLevels] (?h, Version_new) = Some (h', v)" "same_info UNIV ?h h'"
      "\<And>level. level < kNumLevels \<Longrightarrow> v_files v level = saved C ?h b v0 level"
    by (auto simp: same_info_def)
  have i: "info (h' f) = info (?h f)" for f using v(2) by (simp add: same_info_def)
  have lt: "BySmallestKey C h' = BySmallestKey C ?h" "follows C h' = follows C ?h"
    using same_info_all [OF v(2)] by (simp_all add: BySmallestKey_def follows_def fun_eq_iff)
  have "Builder_SaveTo b Version_new vs = Some (v, vs\<lparr>vs_files := h'\<rparr>)" using assms(2) v(1) C by (simp add: Builder_SaveTo_def)
  moreover have "level_set h' (set (v_files v level)) = level_set ?h (level_kept ?h v0 b level)" if "level < kNumLevels" for level
    using facts(2) [OF that] v(3) [OF that] by (simp add: level_set_def i)
  moreover have "level_inv C ikey h' (vs_next_file vs) (v_files v l) []" if "l < kNumLevels" for l
  proof -
    have "set (v_files v l) \<subseteq> set (v_files v0 l) \<union> set (ls_added_files (b_levels b l))"
      using facts(2) [OF that] v(3) [OF that] by (auto simp: level_kept_def level_refs_def)
    moreover from this have "inj_on (\<lambda>f. f_number (?h f)) (set (v_files v l))"
      using inv [OF that] unfolding level_inv_def by (blast intro: inj_on_subset)
    ultimately show ?thesis using inv [OF that] facts(1) [OF that] v(3) [OF that] same_info_all [OF v(2)] lt
      by (auto simp: level_inv_def meta_keys_def)
  qed
  ultimately show ?thesis using facts(1,3) assms(3) v(3) lt C
    by (intro exI [of _ v] exI [of _ "vs\<lparr>vs_files := h'\<rparr>"]) (simp add: base_ok_def)
qed

text \<open>All edits, from a base version on.\<close>

lemma Builder_Apply_edits:
  assumes "builder_inv C ikey v vs b" and "numbers_fresh (numbers_of (vs_files vs) v b) (concat (map new_files edits))"
    and "\<forall>e \<in> set edits. edit_valid ikey e"
  shows "\<exists>vs' b'. fold_option Builder_Apply edits (vs, b) = Some (vs', b') \<and> builder_inv C ikey v vs' b' \<and> builder_step v (vs, b) (vs', b') \<and>
    (\<forall>l < kNumLevels. level_set (vs_files vs') (level_kept (vs_files vs') v b' l) =
        fold (\<lambda>e. edit_level e l) edits (level_set (vs_files vs) (level_kept (vs_files vs) v b l)))"
  using assms
proof (induction edits arbitrary: vs b)
  case Nil
  then show ?case by (simp add: builder_step_def same_info_def)
next
  case (Cons e edits)
  let ?N = "numbers_of (vs_files vs) v b"
  have fresh: "numbers_fresh ?N (new_files e)" "numbers_fresh (with_numbers ?N (new_files e)) (concat (map new_files edits))"
    using Cons.prems(2) by (simp_all add: numbers_fresh_append)
  from Builder_Apply_edit [OF Cons.prems(1) fresh(1)] Cons.prems(3) obtain vs1 b1 where
    1: "Builder_Apply e (vs, b) = Some (vs1, b1)" "builder_inv C ikey v vs1 b1" "builder_step v (vs, b) (vs1, b1)"
      "\<And>l. l < kNumLevels \<Longrightarrow> level_set (vs_files vs1) (level_kept (vs_files vs1) v b1 l) =
        edit_level e l (level_set (vs_files vs) (level_kept (vs_files vs) v b l))"
      "\<And>l. l < kNumLevels \<Longrightarrow> numbers_of (vs_files vs1) v b1 l = with_numbers ?N (new_files e) l" by auto
  have "numbers_fresh (numbers_of (vs_files vs1) v b1) (concat (map new_files edits))"
    by (rule numbers_fresh_mono [OF fresh(2)]) (simp add: 1(5))
  from Cons.IH [OF 1(2) this] Cons.prems(3) obtain vs' b' where
    "fold_option Builder_Apply edits (vs1, b1) = Some (vs', b')" "builder_inv C ikey v vs' b'" "builder_step v (vs1, b1) (vs', b')"
    "\<And>l. l < kNumLevels \<Longrightarrow> level_set (vs_files vs') (level_kept (vs_files vs') v b' l) =
        fold (\<lambda>e. edit_level e l) edits (level_set (vs_files vs1) (level_kept (vs_files vs1) v b1 l))" by auto
  with 1(1,4) builder_step_trans [OF 1(3)] show ?case by (intro exI [of _ vs'] exI [of _ b']) simp
qed

lemma Builder_result:
  assumes "version_of i vs = Some v0" and "base_ok vs v0"
    and "numbers_fresh (\<lambda>l. fst ` level_set (vs_files vs) (set (v_files v0 l))) (concat (map new_files edits))"
    and "\<forall>e \<in> set edits. edit_valid ikey e"
    and "\<forall>l. 0 < l \<and> l < kNumLevels \<longrightarrow> disjoint_level C (fold (\<lambda>e. edit_level e l) edits (level_set (vs_files vs) (set (v_files v0 l))))"
  shows "\<exists>b0 vs0 vs1 b v vs2. Builder_new i vs = Some (b0, vs0) \<and> fold_option Builder_Apply edits (vs0, b0) = Some (vs1, b) \<and>
    Builder_SaveTo b Version_new vs1 = Some (v, vs2) \<and> base_ok vs2 v \<and> (\<forall>l < kNumLevels.
      level_set (vs_files vs2) (set (v_files v l)) = fold (\<lambda>e. edit_level e l) edits (level_set (vs_files vs) (set (v_files v0 l))) \<and>
      sorted_wrt (BySmallestKey C (vs_files vs2)) (v_files v l) \<and> (0 < l \<longrightarrow> sorted_wrt (follows C (vs_files vs2)) (v_files v l)))"
proof -
  let ?v = "v0\<lparr>v_refs := v_refs v0 + 1\<rparr>"
  define vs0 where "vs0 = vs\<lparr>vs_versions := AList.update i ?v (vs_versions vs)\<rparr>"
  define b0 where "b0 = \<lparr>b_base = i, b_levels = (\<lambda>_. \<lparr>ls_deleted_files = {}, ls_added_files = []\<rparr>)\<rparr>"
  have new: "Builder_new i vs = Some (b0, vs0)" using assms(1) by (simp add: Builder_new_def Version_Ref_def b0_def vs0_def)
  have at: "version_of i vs0 = Some ?v" by (simp add: version_of_def vs0_def update_conv')
  have inv: "builder_inv C ikey ?v vs0 b0" using assms(2) by (simp add: builder_inv_def base_ok_def vs0_def b0_def)
  have kept: "level_kept (vs_files vs0) ?v b0 l = set (v_files v0 l)" "level_refs ?v b0 l = set (v_files v0 l)" for l
    by (simp_all add: level_kept_def level_refs_def b0_def)
  have "numbers_of (vs_files vs0) ?v b0 = (\<lambda>l. fst ` level_set (vs_files vs) (set (v_files v0 l)))"
    by (auto simp: numbers_of_def kept level_set_def info_def vs0_def fun_eq_iff image_image)
  with assms(3) have "numbers_fresh (numbers_of (vs_files vs0) ?v b0) (concat (map new_files edits))" by simp
  from Builder_Apply_edits [OF inv this assms(4)] obtain vs1 b where
    1: "fold_option Builder_Apply edits (vs0, b0) = Some (vs1, b)" "builder_inv C ikey ?v vs1 b" "builder_step ?v (vs0, b0) (vs1, b)"
      "\<And>l. l < kNumLevels \<Longrightarrow> level_set (vs_files vs1) (level_kept (vs_files vs1) ?v b l) =
        fold (\<lambda>e. edit_level e l) edits (level_set (vs_files vs) (set (v_files v0 l)))"
    unfolding kept by (auto simp: vs0_def)
  have "version_of (b_base b) vs1 = Some ?v" using at 1(3) by (simp add: builder_step_def version_of_def b0_def)
  from Builder_SaveTo_levels [OF 1(2) this] assms(5) 1(4) obtain v vs2 where
    "Builder_SaveTo b Version_new vs1 = Some (v, vs2)" "base_ok vs2 v" "\<forall>level < kNumLevels.
      level_set (vs_files vs2) (set (v_files v level)) = level_set (vs_files vs1) (level_kept (vs_files vs1) ?v b level) \<and>
      sorted_wrt (BySmallestKey C (vs_files vs2)) (v_files v level) \<and> (0 < level \<longrightarrow> sorted_wrt (follows C (vs_files vs2)) (v_files v level))"
    by auto
  with new 1(1,4) show ?thesis by auto
qed

end

end
