(* ===== verification/Ldb_Version_Props.thy ===== *)
theory Ldb_Version_Props
  imports Ldb_Version_Spec Ldb_Table_File_Props Ldb_Db_Props Ldb_VersionSet_Spec
begin

text \<open>
  Properties of versions: what a lookup finds in the files of all levels.
\<close>

section \<open>On the program's files and options\<close>

lemma database_options_on_user_keys: "on_user_keys (database_options bits_per_key)"
  by (auto simp: on_user_keys_def database_options_def)

interpretation mapped_versions: version_reading BytewiseComparator "\<lambda>_. True"
    "tc\<lparr>tc_file := posix_mmap_file, tc_options := database_options bits_per_key\<rparr>" "\<lambda>f bytes. mm_region f = bytes"
    for tc bits_per_key
  by (intro version_reading.intro version_reading_axioms.intro bytewise.comparator_axioms mapped_cache.cached_tables_axioms)
    (simp add: database_options_on_user_keys)

section \<open>A table of internal keys\<close>

lemma internal_table_options: "table_options (InternalKeyComparator BytewiseComparator) bytewise.ikey internal_options"
  by unfold_locales (simp_all add: Options_new_def)

lemma Compare_Bytewise: "Compare BytewiseComparator = Slice_compare"
  by (simp add: BytewiseComparator_def)

lemma internal_example_successor:
  "Internal_FindShortSuccessor BytewiseComparator [98, 0, 2, 0, 0, 0, 0, 0, 0] = [98, 0, 2, 0, 0, 0, 0, 0, 0]"
  by (simp add: Internal_FindShortSuccessor_def shorten_def ExtractUserKey_def BytewiseComparator_def)

lemma build_internal_example:
  "\<exists>r. build_table addr (posix_writable_file dir_sync) internal_options internal_example empty_file = Some (Status_OK, r) \<and>
    length (pw_data (r_file r)) = 137"
proof -
  have "map_option (\<lambda>(s, r). (s, length (pw_data (r_file r))))
    (build_table addr (posix_writable_file dir_sync) internal_options internal_example empty_file) = Some (Status_OK, 137)"
    by (simp add: build_table_def internal_example_def TableBuilder_new_def TableBuilder_Add_def TableBuilder_Finish_def Flush_def builder_ok_def
      BlockBuilder_empty_def posix_WriteBlock posix_Flush empty_file_def
      BlockBuilder_Finish_def PutFixed32_def on_filter_def write_filter_def write_metaindex_def BlockBuilder_new_def Options_new_def
      BlockBuilder_Reset_def write_index_def add_index_entry_def BlockHandle_EncodeTo_def PutVarint64_def EncodeVarint64.simps
      BlockBuilder_Add_def Add_shared_def PutVarint32_def EncodeVarint32_def CurrentSizeEstimate_def
      InternalKeyComparator_def Internal_Compare_def ExtractUserKey_def ExtractNumber_def DecodeFixed64_def Compare_Bytewise
      internal_example_successor index_options_def write_footer_def append_to_file_def posix_Append Footer_EncodeTo_set handle_set_def Let_def)
  then show ?thesis by auto
qed


section \<open>Looking up a key\<close>

text \<open>C34: a lookup in a version finds the newest visible entry. The files of a version are tables whose
  entries, smallest and largest keys are as recorded; those of a level above 0 follow each other, at level 0 a higher
  number is newer, and a lower level is newer than a higher one. Then for any user key and sequence number \<open>Get\<close> returns what the newest
  entry visible at that number says, among the entries \<open>es\<close> of all files of all levels: its value, or
  NotFound when it is a deletion or there is none. The filters and the table cache never change the result,
  and no file is read that cannot have the key.\<close>

theorem Version_Get_finds_newest:
  assumes "comparator C key" and "cached_tables tc holds (InternalKeyComparator C) (comparator.ikey key)"
    and "on_user_keys (tc_options tc)" and "version_ok holds C key tc h content v"
    and "internal_entries C key es" and "set es = (\<Union>f \<in> set (version_files v). set (content f))"
    and "key u" and "unat s < 2 ^ 56"
  shows "\<exists>stats. Version_Get C h tc ro (LookupKey u s) v0 v =
    Some (fst (lookup_result v0 (newest s u es)), snd (lookup_result v0 (newest s u es)), stats)"
  by (rule version_reading.Version_Get_newest [OF version_reading.intro [OF assms(1,2) version_reading_axioms.intro [OF assms(3)]]
        assms(4,7,8,5,6)])

text \<open>One table at level 1, whose three entries a lookup at number 2 finds or not.\<close>

definition example_cache :: "PosixMmapReadableFile \<Rightarrow> PosixMmapReadableFile TableCache" where
  "example_cache g = \<lparr>tc_open = (\<lambda>_. (Status_OK, Some g)), tc_dbname = [], tc_options = internal_options, tc_cache = (\<lambda>_. None),
     tc_addr = (\<lambda>_. 0), tc_in_buffer = False, tc_file = posix_mmap_file, tc_new_id = 0, tc_block_cache = None\<rparr>"

definition example_files :: "u64 \<Rightarrow> files" where
  "example_files file_size _ = FileMetaData_new 5 file_size (fst (hd internal_example)) (fst (last internal_example))"

definition example_version :: Version where
  "example_version = Version_new\<lparr>v_files := (\<lambda>level. if level = 1 then [0] else [])\<rparr>"

lemma example_files_of: "version_files example_version = [0]"
  by (simp add: version_files_def example_version_def kNumLevels_def upt_rec)

lemma example_cached_tables:
  "cached_tables (example_cache g) (\<lambda>f bytes. mm_region f = bytes) (InternalKeyComparator BytewiseComparator) bytewise.ikey"
  unfolding cached_tables_def example_cache_def
  by (simp add: table_reading.intro posix_mmap.random_access_file_axioms internal_table_options)

lemma example_version_ok:
  assumes "table_layout (InternalKeyComparator BytewiseComparator) bytewise.ikey internal_options (mm_region g) internal_example"
    and "length (mm_region g) = 137"
  shows "version_ok (\<lambda>f bytes. mm_region f = bytes) BytewiseComparator (\<lambda>_. True) (example_cache g) (example_files 137)
    (\<lambda>_. internal_example) example_version"
proof -
  have "open_table_file (example_cache g) 5 = Some (Status_OK, Some g)"
    by (simp add: open_table_file_def example_cache_def TableFileName_def)
  then have "stored (\<lambda>f bytes. mm_region f = bytes) (InternalKeyComparator BytewiseComparator) bytewise.ikey (example_cache g)
      5 137 internal_example"
    unfolding stored_def using assms by (intro exI [of _ g] exI [of _ "mm_region g"]) (simp add: example_cache_def cache_ok_def)
  moreover have "internal_example \<noteq> []" by (simp add: internal_example_def)
  ultimately have "file_ok (\<lambda>f bytes. mm_region f = bytes) BytewiseComparator (\<lambda>_. True) (example_cache g) (example_files 137)
      (\<lambda>_. internal_example) 0"
    using internal_example_sorted by (simp add: file_ok_def example_files_def FileMetaData_new_def)
  then show ?thesis by (simp add: version_ok_def example_files_of) (simp add: example_version_def Version_new_def)
qed

theorem Version_Get_finds_newest_witness:
  "\<exists>g stats1 stats2.
    Version_Get BytewiseComparator (example_files 137) (example_cache g) ReadOptions_new (LookupKey [97] 2) [] example_version =
      Some (Status_OK, [2], stats1) \<and>
    Version_Get BytewiseComparator (example_files 137) (example_cache g) ReadOptions_new (LookupKey [98] 2) [] example_version =
      Some (NotFound [] [], [], stats2)"
proof -
  have f: "length (pw_data empty_file) + pw_space empty_file < 2 ^ 63" "pw_data empty_file = []" by (simp_all add: empty_file_def)
  have building: "table_building (posix_writable_file (\<lambda>_. None)) (\<lambda>f. length (pw_data f) + pw_space f < 2 ^ 63) pw_data
      (InternalKeyComparator BytewiseComparator) bytewise.ikey internal_options"
    by (intro table_building.intro posix_table_file.table_file_axioms internal_table_options)
  have "sorted_entries (Compare (InternalKeyComparator BytewiseComparator)) internal_example"
    "\<forall>e \<in> set internal_example. bytewise.ikey (fst e)"
    using internal_example_sorted bytewise.entries_ikey [OF internal_example_sorted]
    by (simp_all add: internal_entries_def InternalKeyComparator_def)
  from table_building.build_table_layout [OF building f this, of "\<lambda>_. 0"] build_internal_example [of "\<lambda>_. 0" "\<lambda>_. None"]
  obtain bytes where bytes: "table_layout (InternalKeyComparator BytewiseComparator) bytewise.ikey internal_options bytes internal_example"
    "length bytes = 137" by auto
  define g where "g = \<lparr>mm_filename = [], mm_region = bytes, mm_einval = []\<rparr>"
  have ok: "version_ok (\<lambda>f bytes. mm_region f = bytes) BytewiseComparator (\<lambda>_. True) (example_cache g) (example_files 137)
      (\<lambda>_. internal_example) example_version"
    by (rule example_version_ok) (simp_all add: g_def bytes)
  have user: "on_user_keys (tc_options (example_cache g))" by (simp add: on_user_keys_def example_cache_def Options_new_def)
  have es: "set internal_example = (\<Union>f \<in> set (version_files example_version). set internal_example)"
    by (simp add: example_files_of)
  note get = Version_Get_finds_newest [OF bytewise.comparator_axioms example_cached_tables user ok internal_example_sorted es,
      where s = 2 and ro = ReadOptions_new and ?v0.0 = "[]"]
  have "newest 2 [97] internal_example = Some ([97, 1, 2, 0, 0, 0, 0, 0, 0], [2])"
    "newest 2 [98] internal_example = Some ([98, 0, 2, 0, 0, 0, 0, 0, 0], [])"
    using internal_example_parsed
    by (simp_all add: newest_def visible_def internal_example_def ExtractUserKey_def)
  with get [where u = "[97]"] get [where u = "[98]"] show ?thesis
    by (intro exI [of _ g]) (auto simp: lookup_result_def ExtractValueType_def ExtractNumber_def DecodeFixed64_def kTypeValue_def)
qed

text \<open>
  Properties of the version set.
\<close>

text \<open>C37: the builder applies edits. From a version whose files are in order, and edits whose new files have numbers
  not used at their level before, the builder makes a version whose level holds exactly the files that the
  edits leave, each edit first deleting and then adding, whatever the builder did with them together; its files
  are in the order of their smallest keys. When the files left at a level above 0 do not overlap, the assertion
  in \<open>MaybeAddFile\<close> holds, and they follow each other.\<close>

theorem builder_applies_edits:
  assumes "comparator C key" and "version_of i vs = Some v0" and "comparator.base_ok C key vs v0"
    and "numbers_fresh (\<lambda>l. fst ` level_set (vs_files vs) (set (v_files v0 l))) (concat (map new_files edits))"
    and "\<forall>e \<in> set edits. edit_valid (comparator.ikey key) e"
    and "\<forall>l. 0 < l \<and> l < kNumLevels \<longrightarrow>
      disjoint_level C (fold (\<lambda>e. edit_level e l) edits (level_set (vs_files vs) (set (v_files v0 l))))"
  shows "\<exists>b0 vs0 vs1 b v vs2. Builder_new i vs = Some (b0, vs0) \<and> fold_option Builder_Apply edits (vs0, b0) = Some (vs1, b) \<and>
    Builder_SaveTo b Version_new vs1 = Some (v, vs2) \<and> (\<forall>l < kNumLevels.
      level_set (vs_files vs2) (set (v_files v l)) = fold (\<lambda>e. edit_level e l) edits (level_set (vs_files vs) (set (v_files v0 l))) \<and>
      sorted_wrt (BySmallestKey C (vs_files vs2)) (v_files v l) \<and> (0 < l \<longrightarrow> sorted_wrt (follows C (vs_files vs2)) (v_files v l)))"
  using comparator.Builder_result [OF assms] by (elim exE conjE) (intro exI conjI)

text \<open>A file is added at level 0 and then moved to level 1.\<close>

definition move_example :: "VersionEdit list" where
  "move_example =
     [AddFile 0 5 10 [97, 1, 3, 0, 0, 0, 0, 0, 0] [98, 1, 3, 0, 0, 0, 0, 0, 0] VersionEdit_new,
      DeleteFile 0 5 (AddFile 1 5 10 [97, 1, 3, 0, 0, 0, 0, 0, 0] [98, 1, 3, 0, 0, 0, 0, 0, 0] VersionEdit_new)]"

definition empty_set :: "nat VersionSet" where
  "empty_set = the (VersionSet_new [] Options_new BytewiseComparator)"

lemma empty_set: "VersionSet_new [] Options_new BytewiseComparator = Some empty_set"
    "version_of 0 empty_set = Some (Version_new\<lparr>v_refs := 1\<rparr>)" "vs_user empty_set = BytewiseComparator"
  by (simp_all add: empty_set_def VersionSet_new_def AppendVersion_def version_of_def Version_new_def Let_def)

theorem builder_applies_edits_witness:
  "\<exists>b0 vs0 vs1 b v vs2. Builder_new 0 empty_set = Some (b0, vs0) \<and> fold_option Builder_Apply move_example (vs0, b0) = Some (vs1, b) \<and>
    Builder_SaveTo b Version_new vs1 = Some (v, vs2) \<and> v_files v 0 = [] \<and>
    level_set (vs_files vs2) (set (v_files v 1)) = {(5, 10, [97, 1, 3, 0, 0, 0, 0, 0, 0], [98, 1, 3, 0, 0, 0, 0, 0, 0])}"
proof -
  let ?v = "Version_new\<lparr>v_refs := 1\<rparr>" and ?f = "(5 :: u64, 10 :: u64, [97, 1, 3, 0, 0, 0, 0, 0, 0 :: byte], [98, 1, 3, 0, 0, 0, 0, 0, 0 :: byte])"
  have edits: "fold (\<lambda>e. edit_level e l) move_example {} = (if l = 1 then {?f} else {})" for l
    by (auto simp: move_example_def edit_level_def AddFile_def DeleteFile_def VersionEdit_new_def FileMetaData_new_def info_def)
  have base: "comparator.base_ok BytewiseComparator (\<lambda>_. True) empty_set ?v"
    using empty_set(3) by (simp add: bytewise.base_ok_def level_inv_def Version_new_def)
  have files: "level_set (vs_files empty_set) (set (v_files ?v l)) = {}" for l by (simp add: level_set_def Version_new_def)
  have fresh: "numbers_fresh (\<lambda>l. fst ` level_set (vs_files empty_set) (set (v_files ?v l))) (concat (map new_files move_example))"
    unfolding files
    by (simp add: move_example_def AddFile_def DeleteFile_def VersionEdit_new_def FileMetaData_new_def kNumLevels_def)
  have valid: "\<forall>e \<in> set move_example. edit_valid bytewise.ikey e"
    by (simp add: move_example_def edit_valid_def AddFile_def DeleteFile_def VersionEdit_new_def FileMetaData_new_def meta_keys_def bytewise.ikey_def)
  have "\<forall>l. 0 < l \<and> l < kNumLevels \<longrightarrow>
      disjoint_level BytewiseComparator (fold (\<lambda>e. edit_level e l) move_example (level_set (vs_files empty_set) (set (v_files ?v l))))"
    unfolding files edits by (simp add: disjoint_level_def Internal_Compare_def ExtractUserKey_def BytewiseComparator_def)
  note applied = builder_applies_edits [OF bytewise.comparator_axioms empty_set(2) base fresh valid this]
  obtain b0 vs0 vs1 b v vs2 where
    b: "Builder_new 0 empty_set = Some (b0, vs0)" "fold_option Builder_Apply move_example (vs0, b0) = Some (vs1, b)"
      "Builder_SaveTo b Version_new vs1 = Some (v, vs2)"
    and "\<forall>l < kNumLevels. level_set (vs_files vs2) (set (v_files v l)) =
      fold (\<lambda>e. edit_level e l) move_example (level_set (vs_files empty_set) (set (v_files ?v l)))"
    using applied by (elim exE conjE) (simp del: fold_option.simps)
  then have l: "level_set (vs_files vs2) (set (v_files v l)) = (if l = 1 then {?f} else {})" if "l < kNumLevels" for l
    using that unfolding files edits by blast
  have "v_files v 0 = []" using l [of 0] by (simp add: level_set_def kNumLevels_def)
  with b l [of 1] show ?thesis by (auto simp: kNumLevels_def)
qed

end
