(* ===== verification/Ldb_Compaction.thy ===== *)
theory Ldb_Compaction
  imports Ldb_VersionSet
begin

text \<open>
  Compactions, the last part of \<open>db/version_set.{h,cc}\<close>: choosing the files to merge, and what the merge asks
  while it runs.
\<close>

record Compaction =
  c_level :: nat
  c_max_output_file_size :: u64
  c_input_version :: "nat option"
  c_edit :: VersionEdit
  c_inputs0 :: "file_ref list"
  c_inputs1 :: "file_ref list"
  c_grandparents :: "file_ref list"
  c_grandparent_index :: nat
  c_seen_key :: bool
  c_overlapped_bytes :: int
  c_level_ptrs :: "nat \<Rightarrow> nat"

definition Compaction_new :: "Options \<Rightarrow> nat \<Rightarrow> Compaction" where
  "Compaction_new options level =
     \<lparr>c_level = level, c_max_output_file_size = MaxFileSizeForLevel options level, c_input_version = None,
      c_edit = VersionEdit_new, c_inputs0 = [], c_inputs1 = [], c_grandparents = [], c_grandparent_index = 0,
      c_seen_key = False, c_overlapped_bytes = 0, c_level_ptrs = (\<lambda>_. 0)\<rparr>"

section \<open>Ranges\<close>

definition widen :: "Comparator \<Rightarrow> files \<Rightarrow> file_ref \<Rightarrow> slice \<times> slice \<Rightarrow> slice \<times> slice" where
  "widen user h f r =
     (case r of (small, large) \<Rightarrow>
        (if Internal_Compare user (f_smallest (h f)) small < 0 then f_smallest (h f) else small,
         if 0 < Internal_Compare user (f_largest (h f)) large then f_largest (h f) else large))"

definition GetRange :: "Comparator \<Rightarrow> files \<Rightarrow> file_ref list \<Rightarrow> (slice \<times> slice) option" where
  "GetRange user h inputs =
     (case inputs of [] \<Rightarrow> None | f # fs \<Rightarrow> Some (fold (widen user h) fs (f_smallest (h f), f_largest (h f))))"

definition GetRange2 :: "Comparator \<Rightarrow> files \<Rightarrow> file_ref list \<Rightarrow> file_ref list \<Rightarrow> (slice \<times> slice) option" where
  "GetRange2 user h inputs1 inputs2 = GetRange user h (inputs1 @ inputs2)"

section \<open>Choosing the inputs\<close>

abbreviation "overlapping vs v level small large \<equiv>
  GetOverlappingInputs (vs_user vs) (vs_files vs) v level (Some small) (Some large)"

text \<open>More files of the level, when they bring no more files of the next one; with the range of all inputs.\<close>

definition expand_inputs ::
  "'w VersionSet \<Rightarrow> Version \<Rightarrow> nat \<Rightarrow> file_ref list \<Rightarrow> file_ref list \<Rightarrow> slice \<times> slice \<Rightarrow> slice \<times> slice \<Rightarrow>
    (file_ref list \<times> file_ref list \<times> (slice \<times> slice) \<times> (slice \<times> slice)) option" where
  "expand_inputs vs v level inputs0 inputs1 small_large all =
     (let h = vs_files vs; same = (inputs0, inputs1, small_large, all) in
      if inputs1 = [] then Some same
      else
        Option.bind (overlapping vs v level (fst all) (snd all)) (\<lambda>expanded0.
          if length inputs0 < length expanded0 \<and>
             TotalFileSize h inputs1 + TotalFileSize h expanded0 < ExpandedCompactionByteSizeLimit (vs_options vs) then
            Option.bind (GetRange (vs_user vs) h expanded0) (\<lambda>range.
            Option.bind (overlapping vs v (level + 1) (fst range) (snd range)) (\<lambda>expanded1.
              if length expanded1 = length inputs1
              then map_option (\<lambda>all. (expanded0, expanded1, range, all)) (GetRange2 (vs_user vs) h expanded0 expanded1)
              else Some same))
          else Some same))"

text \<open>The version is \<open>current_\<close>, which is the input version.\<close>

definition SetupOtherInputs :: "Version \<Rightarrow> Compaction \<Rightarrow> 'w VersionSet \<Rightarrow> (Compaction \<times> 'w VersionSet) option" where
  "SetupOtherInputs v c vs =
     (let level = c_level c; user = vs_user vs; h = vs_files vs in
      Option.bind (GetRange user h (c_inputs0 c)) (\<lambda>range.
      Option.bind (overlapping vs v (level + 1) (fst range) (snd range)) (\<lambda>inputs1.
      Option.bind (GetRange2 user h (c_inputs0 c) inputs1) (\<lambda>all.
      Option.bind (expand_inputs vs v level (c_inputs0 c) inputs1 range all) (\<lambda>(inputs0, inputs1, range, all).
      Option.bind (if level + 2 < kNumLevels then overlapping vs v (level + 2) (fst all) (snd all) else Some (c_grandparents c))
        (\<lambda>grandparents.
      map_option (\<lambda>large.
        (c\<lparr>c_inputs0 := inputs0, c_inputs1 := inputs1, c_grandparents := grandparents,
           c_edit := SetCompactPointer level (snd range) (c_edit c)\<rparr>,
         vs\<lparr>vs_compact_pointer := (vs_compact_pointer vs)(level := large)\<rparr>))
        (InternalKey_Encode (snd range))))))))"

text \<open>The first file behind the pointer, or the first file when there is none.\<close>

definition pick_file :: "'w VersionSet \<Rightarrow> nat \<Rightarrow> file_ref list \<Rightarrow> file_ref option" where
  "pick_file vs level fs =
     (case find (\<lambda>f. vs_compact_pointer vs level = [] \<or>
         0 < Internal_Compare (vs_user vs) (f_largest (vs_files vs f)) (vs_compact_pointer vs level)) fs of
        Some f \<Rightarrow> Some f
      | None \<Rightarrow> (case fs of [] \<Rightarrow> None | f # _ \<Rightarrow> Some f))"

text \<open>The level and the first file: by size, or else by seeks. The outer Nothing is a failed assertion.\<close>

definition compaction_start :: "'w VersionSet \<Rightarrow> Version \<Rightarrow> (nat \<times> file_ref) option option" where
  "compaction_start vs v =
     (if 1 \<le> v_compaction_score v then
        (if 0 \<le> v_compaction_level v \<and> v_compaction_level v + 1 < int kNumLevels then
           let level = nat (v_compaction_level v) in map_option (\<lambda>f. Some (level, f)) (pick_file vs level (v_files v level))
         else None)
      else
        (case v_file_to_compact v of
           Some f \<Rightarrow> Some (Some (nat (v_file_to_compact_level v), f))
         | None \<Rightarrow> Some None))"

definition PickCompaction :: "'w VersionSet \<Rightarrow> (Compaction option \<times> 'w VersionSet) option" where
  "PickCompaction vs =
     Option.bind (vs_current vs) (\<lambda>i.
     Option.bind (current_version vs) (\<lambda>v.
     Option.bind (compaction_start vs v) (\<lambda>start.
       case start of
         None \<Rightarrow> Some (None, vs)
       | Some (level, f) \<Rightarrow>
           Option.bind (Version_Ref i vs) (\<lambda>vs.
           Option.bind
             (if level = 0 then
                Option.bind (GetRange (vs_user vs) (vs_files vs) [f]) (\<lambda>(small, large). overlapping vs v 0 small large)
              else Some [f]) (\<lambda>inputs0.
           if inputs0 = [] then None
           else
             map_option (\<lambda>(c, vs). (Some c, vs))
               (SetupOtherInputs v ((Compaction_new (vs_options vs) level)\<lparr>c_inputs0 := inputs0, c_input_version := Some i\<rparr>) vs))))))"

text \<open>The inputs up to the limit, at a level above 0; the total is taken in 64 bits.\<close>

fun up_to_limit :: "files \<Rightarrow> u64 \<Rightarrow> u64 \<Rightarrow> file_ref list \<Rightarrow> file_ref list" where
  "up_to_limit h limit bytes [] = []"
| "up_to_limit h limit bytes (f # fs) =
     (let bytes = bytes + f_file_size (h f) in if limit \<le> bytes then [f] else f # up_to_limit h limit bytes fs)"

definition VersionSet_CompactRange ::
  "nat \<Rightarrow> slice option \<Rightarrow> slice option \<Rightarrow> 'w VersionSet \<Rightarrow> (Compaction option \<times> 'w VersionSet) option" where
  "VersionSet_CompactRange level begin_key end_key vs =
     Option.bind (vs_current vs) (\<lambda>i.
     Option.bind (current_version vs) (\<lambda>v.
     Option.bind (GetOverlappingInputs (vs_user vs) (vs_files vs) v level begin_key end_key) (\<lambda>inputs.
       if inputs = [] then Some (None, vs)
       else
         let inputs = (if 0 < level then up_to_limit (vs_files vs) (MaxFileSizeForLevel (vs_options vs) level) 0 inputs else inputs) in
         Option.bind (Version_Ref i vs) (\<lambda>vs.
         map_option (\<lambda>(c, vs). (Some c, vs))
           (SetupOtherInputs v ((Compaction_new (vs_options vs) level)\<lparr>c_input_version := Some i, c_inputs0 := inputs\<rparr>) vs)))))"

section \<open>The inputs as an iterator\<close>

definition input_options :: "Options \<Rightarrow> ReadOptions" where
  "input_options options = ReadOptions_new\<lparr>verify_checksums := paranoid_checks options, fill_cache := False\<rparr>"

definition input_iterators ::
  "Comparator \<Rightarrow> files \<Rightarrow> 'f TableCache \<Rightarrow> nat \<Rightarrow> file_ref list \<Rightarrow> 'f version_iter list option" where
  "input_iterators user h tc level fs =
     (if fs = [] then Some []
      else if level = 0 then
        those_of (map (\<lambda>f. map_option (Inl \<circ> fst) (TableCache_NewIterator tc (f_number (h f)) (f_file_size (h f)))) fs)
      else map_option (\<lambda>it. [Inr it]) (NewConcatenatingIterator user h fs))"

text \<open>The children of the merging iterator, over \<open>version_iterator\<close> with the options above.\<close>

definition input_children :: "'f TableCache \<Rightarrow> Compaction \<Rightarrow> 'w VersionSet \<Rightarrow> 'f version_iter list option" where
  "input_children tc c vs =
     Option.bind (input_iterators (vs_user vs) (vs_files vs) tc (c_level c) (c_inputs0 c)) (\<lambda>list0.
     map_option ((@) list0) (input_iterators (vs_user vs) (vs_files vs) tc (c_level c + 1) (c_inputs1 c)))"

section \<open>While the compaction runs\<close>

definition num_input_files :: "nat \<Rightarrow> Compaction \<Rightarrow> nat" where
  "num_input_files which c = length (if which = 0 then c_inputs0 c else c_inputs1 c)"

definition IsTrivialMove :: "Options \<Rightarrow> files \<Rightarrow> Compaction \<Rightarrow> bool" where
  "IsTrivialMove options h c \<longleftrightarrow>
     num_input_files 0 c = 1 \<and> num_input_files 1 c = 0 \<and> TotalFileSize h (c_grandparents c) \<le> MaxGrandParentOverlapBytes options"

definition AddInputDeletions :: "files \<Rightarrow> Compaction \<Rightarrow> VersionEdit \<Rightarrow> VersionEdit" where
  "AddInputDeletions h c e =
     fold (\<lambda>f. DeleteFile (c_level c + 1) (f_number (h f))) (c_inputs1 c)
       (fold (\<lambda>f. DeleteFile (c_level c) (f_number (h f))) (c_inputs0 c) e)"

text \<open>The loop over the files of a level: where it stops, and whether the key is in the range of that file.\<close>

function advance_ptr :: "Comparator \<Rightarrow> files \<Rightarrow> slice \<Rightarrow> file_ref list \<Rightarrow> nat \<Rightarrow> nat \<times> bool" where
  "advance_ptr user h u fs p =
     (if p < length fs then
        (if Compare user u (largest_user h (fs ! p)) \<le> 0 then (p, 0 \<le> Compare user u (smallest_user h (fs ! p)))
         else advance_ptr user h u fs (p + 1))
      else (p, False))"
  by pat_completeness auto
termination by (relation "measure (\<lambda>(_, _, _, fs, p). length fs - p)") auto

declare advance_ptr.simps [simp del]

fun base_level_loop :: "Comparator \<Rightarrow> files \<Rightarrow> Version \<Rightarrow> slice \<Rightarrow> nat list \<Rightarrow> (nat \<Rightarrow> nat) \<Rightarrow> bool \<times> (nat \<Rightarrow> nat)" where
  "base_level_loop user h v u [] ptrs = (True, ptrs)"
| "base_level_loop user h v u (level # levels) ptrs =
     (case advance_ptr user h u (v_files v level) (ptrs level) of (p, inside) \<Rightarrow>
        let ptrs = ptrs(level := p) in if inside then (False, ptrs) else base_level_loop user h v u levels ptrs)"

definition IsBaseLevelForKey :: "Comparator \<Rightarrow> files \<Rightarrow> Version \<Rightarrow> slice \<Rightarrow> Compaction \<Rightarrow> bool \<times> Compaction" where
  "IsBaseLevelForKey user h v u c =
     (case base_level_loop user h v u [c_level c + 2..<kNumLevels] (c_level_ptrs c) of
        (r, ptrs) \<Rightarrow> (r, c\<lparr>c_level_ptrs := ptrs\<rparr>))"

function skip_grandparents :: "Comparator \<Rightarrow> files \<Rightarrow> slice \<Rightarrow> Compaction \<Rightarrow> Compaction" where
  "skip_grandparents user h k c =
     (if c_grandparent_index c < length (c_grandparents c) then
        let g = c_grandparents c ! c_grandparent_index c in
        if 0 < Internal_Compare user k (f_largest (h g)) then
          skip_grandparents user h k
            (c\<lparr>c_grandparent_index := c_grandparent_index c + 1,
               c_overlapped_bytes := (if c_seen_key c then c_overlapped_bytes c + sint (f_file_size (h g)) else c_overlapped_bytes c)\<rparr>)
        else c
      else c)"
  by pat_completeness auto
termination by (relation "measure (\<lambda>(_, _, _, c). length (c_grandparents c) - c_grandparent_index c)") (auto simp: Let_def)

declare skip_grandparents.simps [simp del]

text \<open>The sum stays below \<open>2 ^ 63\<close>, as the sizes of files on a disk do.\<close>

definition ShouldStopBefore :: "Comparator \<Rightarrow> Options \<Rightarrow> files \<Rightarrow> slice \<Rightarrow> Compaction \<Rightarrow> bool \<times> Compaction" where
  "ShouldStopBefore user options h k c =
     (let c = (skip_grandparents user h k c)\<lparr>c_seen_key := True\<rparr> in
      if MaxGrandParentOverlapBytes options < c_overlapped_bytes c then (True, c\<lparr>c_overlapped_bytes := 0\<rparr>) else (False, c))"

definition ReleaseInputs :: "Compaction \<Rightarrow> 'w VersionSet \<Rightarrow> (Compaction \<times> 'w VersionSet) option" where
  "ReleaseInputs c vs =
     (case c_input_version c of
        Some i \<Rightarrow> map_option (Pair (c\<lparr>c_input_version := None\<rparr>)) (Version_Unref i vs)
      | None \<Rightarrow> Some (c, vs))"

end
