(* ===== verification/Ldb_Compaction_Run.thy ===== *)
theory Ldb_Compaction_Run
  imports Ldb_Compaction
begin

text \<open>
  The work of a compaction, \<open>DoCompactionWork\<close> of \<open>db/db_impl.cc\<close>.
\<close>

section \<open>Which entries are dropped\<close>

text \<open>The variables of the loop for the user key it is at.\<close>

record DropState =
  dr_user_key :: slice
  dr_has_user_key :: bool
  dr_last_sequence :: SequenceNumber

definition DropState_new :: DropState where
  "DropState_new = \<lparr>dr_user_key = [], dr_has_user_key = False, dr_last_sequence = kMaxSequenceNumber\<rparr>"

text \<open>\<open>v\<close> is the input version of the compaction.\<close>

definition drop_entry ::
  "Comparator \<Rightarrow> files \<Rightarrow> Version \<Rightarrow> SequenceNumber \<Rightarrow> slice \<Rightarrow> DropState \<times> Compaction \<Rightarrow> bool \<times> DropState \<times> Compaction" where
  "drop_entry user h v smallest_snapshot k dc =
     (case dc of (d, c) \<Rightarrow>
        (case ParseInternalKey k of
           None \<Rightarrow> (False, DropState_new, c)
         | Some ikey \<Rightarrow>
             let d = (if \<not> dr_has_user_key d \<or> Compare user (user_key ikey) (dr_user_key d) \<noteq> 0
                   then \<lparr>dr_user_key = user_key ikey, dr_has_user_key = True, dr_last_sequence = kMaxSequenceNumber\<rparr> else d);
                 (dropped, c) =
                   (if dr_last_sequence d \<le> smallest_snapshot then (True, c)
                    else if type ikey = kTypeDeletion \<and> sequence ikey \<le> smallest_snapshot
                    then IsBaseLevelForKey user h v (user_key ikey) c
                    else (False, c)) in
             (dropped, d\<lparr>dr_last_sequence := sequence ikey\<rparr>, c)))"

end
