(* ===== verification/Ldb_Compaction_Spec.thy ===== *)
theory Ldb_Compaction_Spec
  imports Ldb_Compaction_Run Ldb_Version_Spec
begin

text \<open>
  A compaction keeps what the snapshots see: dropping an entry by the rules of \<open>DoCompactionWork\<close> changes no
  lookup at or above the smallest snapshot, in the levels above, the inputs and the levels below together.
\<close>

section \<open>The levels below\<close>

text \<open>The files of a level in the order of their user keys, each range not empty.\<close>

definition user_sorted :: "Comparator \<Rightarrow> (slice \<Rightarrow> bool) \<Rightarrow> files \<Rightarrow> file_ref list \<Rightarrow> bool" where
  "user_sorted C key h fs \<longleftrightarrow>
     (\<forall>f \<in> set fs. key (smallest_user h f) \<and> key (largest_user h f) \<and> Compare C (smallest_user h f) (largest_user h f) \<le> 0) \<and>
     sorted_wrt (\<lambda>f g. Compare C (largest_user h f) (smallest_user h g) \<le> 0) fs"

definition in_range :: "Comparator \<Rightarrow> files \<Rightarrow> slice \<Rightarrow> file_ref \<Rightarrow> bool" where
  "in_range C h u f \<longleftrightarrow> Compare C (smallest_user h f) u \<le> 0 \<and> Compare C u (largest_user h f) \<le> 0"

text \<open>The pointers have passed only files whose keys are smaller.\<close>

definition passed :: "Comparator \<Rightarrow> files \<Rightarrow> slice \<Rightarrow> file_ref list \<Rightarrow> nat \<Rightarrow> bool" where
  "passed C h u fs p \<longleftrightarrow> (\<forall>i < p. i < length fs \<longrightarrow> Compare C (largest_user h (fs ! i)) u < 0)"

context comparator
begin

lemma passed_mono:
  assumes "user_sorted C key h fs" and "passed C h u fs p" and "key u" "key u'" "Compare C u u' \<le> 0"
  shows "passed C h u' fs p"
  unfolding passed_def
proof (intro allI impI)
  fix i
  assume i: "i < p" "i < length fs"
  then have "Compare C (largest_user h (fs ! i)) u < 0" "key (largest_user h (fs ! i))"
    using assms(1,2) by (simp_all add: passed_def user_sorted_def)
  with assms(3-5) less_le_trans show "Compare C (largest_user h (fs ! i)) u' < 0" by blast
qed

lemma advance_ptr_at:
  assumes fs: "user_sorted C key h fs" and u: "key u" and "passed C h u fs p"
  shows "passed C h u fs (fst (advance_ptr C h u fs p)) \<and> (snd (advance_ptr C h u fs p) \<longleftrightarrow> (\<exists>f \<in> set fs. in_range C h u f))"
  using assms(3)
proof (induction "length fs - p" arbitrary: p rule: less_induct)
  case less
  have k: "key (smallest_user h (fs ! i))" "key (largest_user h (fs ! i))" if "i < length fs" for i
    using fs that by (simp_all add: user_sorted_def)
  have before: "\<not> in_range C h u (fs ! i)" if "i < p" "i < length fs" for i
    using less.prems that flip [OF u k(2) [OF that(2)]] by (auto simp: passed_def in_range_def)
  show ?case
  proof (cases "p < length fs")
    case False
    then have "\<not> (\<exists>f \<in> set fs. in_range C h u f)" using before by (auto simp: in_set_conv_nth)
    with False less.prems show ?thesis by (simp add: advance_ptr.simps)
  next
    case True
    show ?thesis
    proof (cases "Compare C u (largest_user h (fs ! p)) \<le> 0")
      case False
      then have "Compare C (largest_user h (fs ! p)) u < 0" using flip [OF u k(2) [OF True]] by simp
      with less.prems have "passed C h u fs (p + 1)" by (auto simp: passed_def less_Suc_eq)
      from less.hyps [OF _ this] True False show ?thesis by (subst advance_ptr.simps, subst (2) advance_ptr.simps) simp
    next
      case here: True
      have iff: "0 \<le> Compare C u (smallest_user h (fs ! p)) \<longleftrightarrow> Compare C (smallest_user h (fs ! p)) u \<le> 0"
        using not_less [OF u k(1) [OF True]] by auto
      have "(\<exists>f \<in> set fs. in_range C h u f) \<longleftrightarrow> Compare C (smallest_user h (fs ! p)) u \<le> 0"
      proof
        assume "\<exists>f \<in> set fs. in_range C h u f"
        then obtain i where i: "i < length fs" "in_range C h u (fs ! i)" by (auto simp: in_set_conv_nth)
        with before have "p \<le> i" by (meson not_le)
        show "Compare C (smallest_user h (fs ! p)) u \<le> 0"
        proof (cases "p = i")
          case True
          with i show ?thesis by (simp add: in_range_def)
        next
          case False
          with \<open>p \<le> i\<close> i(1) fs have "Compare C (largest_user h (fs ! p)) (smallest_user h (fs ! i)) \<le> 0"
            by (auto simp: user_sorted_def sorted_wrt_iff_nth_less)
          moreover have "Compare C (smallest_user h (fs ! p)) (largest_user h (fs ! p)) \<le> 0" using fs True by (simp add: user_sorted_def)
          ultimately have "Compare C (smallest_user h (fs ! p)) (smallest_user h (fs ! i)) \<le> 0"
            using trans k True i(1) by blast
          moreover have "Compare C (smallest_user h (fs ! i)) u \<le> 0" using i(2) by (simp add: in_range_def)
          ultimately show ?thesis using trans k True i(1) u by blast
        qed
      next
        assume "Compare C (smallest_user h (fs ! p)) u \<le> 0"
        with here True show "\<exists>f \<in> set fs. in_range C h u f" by (auto simp: in_range_def intro!: bexI [of _ "fs ! p"])
      qed
      with True here iff less.prems show ?thesis by (simp add: advance_ptr.simps)
    qed
  qed
qed

lemma base_level_at:
  assumes "\<forall>level \<in> set levels. user_sorted C key h (v_files v level)" and u: "key u"
    and "\<forall>level. level \<in> set levels \<longrightarrow> passed C h u (v_files v level) (ptrs level)" and "distinct levels"
  shows "(fst (base_level_loop C h v u levels ptrs) \<longleftrightarrow> (\<forall>level \<in> set levels. \<forall>f \<in> set (v_files v level). \<not> in_range C h u f)) \<and>
    (\<forall>level. level \<in> set levels \<longrightarrow> passed C h u (v_files v level) (snd (base_level_loop C h v u levels ptrs) level)) \<and>
    (\<forall>level. level \<notin> set levels \<longrightarrow> snd (base_level_loop C h v u levels ptrs) level = ptrs level)"
  using assms(1,3,4)
proof (induction levels arbitrary: ptrs)
  case (Cons l ls)
  obtain p inside where p: "advance_ptr C h u (v_files v l) (ptrs l) = (p, inside)" by (cases "advance_ptr C h u (v_files v l) (ptrs l)")
  have "user_sorted C key h (v_files v l)" "passed C h u (v_files v l) (ptrs l)" using Cons.prems by simp_all
  from advance_ptr_at [OF this(1) u this(2)] p have
    at: "passed C h u (v_files v l) p" "inside \<longleftrightarrow> (\<exists>f \<in> set (v_files v l). in_range C h u f)" by simp_all
  show ?case
  proof (cases inside)
    case True
    with p at Cons.prems show ?thesis by auto
  next
    case False
    define ptrs' where "ptrs' = ptrs(l := p)"
    then have ptrs': "ptrs' l = p" "\<And>level. level \<noteq> l \<Longrightarrow> ptrs' level = ptrs level" by simp_all
    have new: "l \<notin> set ls" using Cons.prems by simp
    then have "\<forall>level. level \<in> set ls \<longrightarrow> level \<noteq> l \<and> passed C h u (v_files v level) (ptrs level)" using Cons.prems by auto
    then have "\<forall>level. level \<in> set ls \<longrightarrow> passed C h u (v_files v level) (ptrs' level)" using ptrs'(2) by simp
    from Cons.IH [OF _ this] Cons.prems have IH:
      "fst (base_level_loop C h v u ls ptrs') \<longleftrightarrow> (\<forall>level \<in> set ls. \<forall>f \<in> set (v_files v level). \<not> in_range C h u f)"
      "\<And>level. level \<in> set ls \<Longrightarrow> passed C h u (v_files v level) (snd (base_level_loop C h v u ls ptrs') level)"
      "\<And>level. level \<notin> set ls \<Longrightarrow> snd (base_level_loop C h v u ls ptrs') level = ptrs' level" by simp_all
    have step: "base_level_loop C h v u (l # ls) ptrs = base_level_loop C h v u ls ptrs'"
      using p False by (simp add: Let_def ptrs'_def)
    from new IH(3) [of l] ptrs'(1) at(1) have "passed C h u (v_files v l) (snd (base_level_loop C h v u ls ptrs') l)" by simp
    with IH ptrs' at(2) False new show ?thesis unfolding step by auto
  qed
qed simp

end

section \<open>What is kept\<close>

definition deep_levels :: "Compaction \<Rightarrow> nat list" where
  "deep_levels c = [c_level c + 2..<kNumLevels]"

fun kept :: "Comparator \<Rightarrow> files \<Rightarrow> Version \<Rightarrow> SequenceNumber \<Rightarrow> entry list \<Rightarrow> DropState \<times> Compaction \<Rightarrow> entry list" where
  "kept C h v smallest [] dc = []"
| "kept C h v smallest (e # es) dc =
     (case drop_entry C h v smallest (fst e) dc of (dropped, dc) \<Rightarrow>
        if dropped then kept C h v smallest es dc else e # kept C h v smallest es dc)"

lemma kept_subset: "set (kept C h v smallest es dc) \<subseteq> set es"
  by (induction es arbitrary: dc) (auto split: prod.splits if_splits)

definition sequence_of :: "entry \<Rightarrow> SequenceNumber" where
  "sequence_of e = drop_bit 8 (ExtractNumber (fst e))"

definition nothing_below :: "Comparator \<Rightarrow> files \<Rightarrow> Version \<Rightarrow> Compaction \<Rightarrow> slice \<Rightarrow> bool" where
  "nothing_below C h v c u \<longleftrightarrow> (\<forall>level \<in> set (deep_levels c). \<forall>f \<in> set (v_files v level). \<not> in_range C h u f)"

text \<open>The state before the entries \<open>es\<close>, which follow those it has seen.\<close>

definition run_ok :: "Comparator \<Rightarrow> (slice \<Rightarrow> bool) \<Rightarrow> files \<Rightarrow> Version \<Rightarrow> entry list \<Rightarrow> DropState \<times> Compaction \<Rightarrow> bool" where
  "run_ok C key h v es dc \<longleftrightarrow>
     (dr_has_user_key (fst dc) \<longrightarrow> key (dr_user_key (fst dc)) \<and>
        (\<forall>e \<in> set es. Compare C (dr_user_key (fst dc)) (ExtractUserKey (fst e)) \<le> 0 \<and>
           (ExtractUserKey (fst e) = dr_user_key (fst dc) \<longrightarrow> sequence_of e \<le> dr_last_sequence (fst dc)))) \<and>
     (\<forall>e \<in> set es. \<forall>level \<in> set (deep_levels (snd dc)).
        passed C h (ExtractUserKey (fst e)) (v_files v level) (c_level_ptrs (snd dc) level))"

lemma run_ok_new: "c_level_ptrs c = (\<lambda>_. 0) \<Longrightarrow> run_ok C key h v es (DropState_new, c)"
  by (simp add: run_ok_def DropState_new_def passed_def)

context comparator
begin

lemma entry_facts:
  assumes "internal_entries C key (e # es)"
  shows "\<exists>p. ParseInternalKey (fst e) = Some p \<and> user_key p = ExtractUserKey (fst e) \<and> sequence p = sequence_of e \<and>
      type p = ExtractValueType (fst e)"
    and "key (ExtractUserKey (fst e))" and "visible s e \<longleftrightarrow> sequence_of e \<le> s" and "internal_entries C key es"
    and "e' \<in> set es \<Longrightarrow> Compare C (ExtractUserKey (fst e)) (ExtractUserKey (fst e')) \<le> 0 \<and>
      (ExtractUserKey (fst e') = ExtractUserKey (fst e) \<longrightarrow> sequence_of e' \<le> sequence_of e) \<and> key (ExtractUserKey (fst e'))"
proof -
  have "0 < length (e # es)" by simp
  from parsed [OF assms this] obtain p where p: "ParseInternalKey (fst e) = Some p" by auto
  have seq: "sequence p = sequence_of e" using p by (auto simp: ParseInternalKey_def Let_def sequence_of_def split: if_splits)
  note pf = parsed_facts [OF assms \<open>0 < length (e # es)\<close>, simplified, OF p]
  show "\<exists>p. ParseInternalKey (fst e) = Some p \<and> user_key p = ExtractUserKey (fst e) \<and> sequence p = sequence_of e \<and>
      type p = ExtractValueType (fst e)" using p pf(1,4) seq by blast
  show "key (ExtractUserKey (fst e))" "visible s e \<longleftrightarrow> sequence_of e \<le> s" using pf(2,3) seq by simp_all
  show "internal_entries C key es" using assms by (simp add: internal_entries_def sorted_entries_def)
  assume e': "e' \<in> set es"
  have "Internal_Compare C (fst e) (fst e') < 0" using assms e' by (simp add: internal_entries_def sorted_entries_def)
  then have "Compare C (ExtractUserKey (fst e)) (ExtractUserKey (fst e')) < 0 \<or>
      Compare C (ExtractUserKey (fst e)) (ExtractUserKey (fst e')) = 0 \<and> ExtractNumber (fst e') < ExtractNumber (fst e)"
    by (simp add: Internal_Compare_less)
  moreover have "key (ExtractUserKey (fst e'))" using assms e' by (simp add: internal_entries_def)
  moreover have "sequence_of e' \<le> sequence_of e" if "ExtractNumber (fst e') < ExtractNumber (fst e)"
    using that by (simp add: sequence_of_def word_le_nat_alt word_less_nat_alt unat_drop_bit div_le_mono)
  ultimately show "Compare C (ExtractUserKey (fst e)) (ExtractUserKey (fst e')) \<le> 0 \<and>
      (ExtractUserKey (fst e') = ExtractUserKey (fst e) \<longrightarrow> sequence_of e' \<le> sequence_of e) \<and> key (ExtractUserKey (fst e'))"
    using pf(2) by auto
qed

text \<open>One entry: what happens to it, and the state after it.\<close>

lemma drop_entry_at:
  fixes smallest :: SequenceNumber
  assumes es: "internal_entries C key (e # es)" and run: "run_ok C key h v (e # es) (d, c)"
    and deep: "\<forall>level \<in> set (deep_levels c). user_sorted C key h (v_files v level)"
  defines "u \<equiv> ExtractUserKey (fst e)"
  defines "hidden \<equiv> (if dr_has_user_key d \<and> dr_user_key d = u then dr_last_sequence d else kMaxSequenceNumber) \<le> smallest"
  shows "\<exists>dropped d' c'. drop_entry C h v smallest (fst e) (d, c) = (dropped, d', c') \<and> run_ok C key h v es (d', c') \<and>
    c_level c' = c_level c \<and> dr_has_user_key d' \<and> dr_user_key d' = u \<and> dr_last_sequence d' = sequence_of e \<and>
    (dropped \<longleftrightarrow> hidden \<or> ExtractValueType (fst e) = kTypeDeletion \<and> sequence_of e \<le> smallest \<and> nothing_below C h v c u)"
proof -
  from entry_facts(1) [OF es] obtain p where p: "ParseInternalKey (fst e) = Some p" "user_key p = u" "sequence p = sequence_of e"
      "type p = ExtractValueType (fst e)" unfolding u_def by blast
  have ku: "key u" using entry_facts(2) [OF es] by (simp add: u_def)
  define d1 where "d1 = (if \<not> dr_has_user_key d \<or> Compare C u (dr_user_key d) \<noteq> 0
      then \<lparr>dr_user_key = u, dr_has_user_key = True, dr_last_sequence = kMaxSequenceNumber\<rparr> else d)"
  have cur: "Compare C u (dr_user_key d) = 0 \<longleftrightarrow> dr_user_key d = u" if "dr_has_user_key d"
    using run that equal [OF ku] by (auto simp: run_ok_def)
  have d1: "dr_user_key d1 = u" "dr_has_user_key d1" "dr_last_sequence d1 \<le> smallest \<longleftrightarrow> hidden"
    using cur by (auto simp: d1_def hidden_def)
  define called where "called \<longleftrightarrow> \<not> hidden \<and> ExtractValueType (fst e) = kTypeDeletion \<and> sequence_of e \<le> smallest"
  obtain base ptrs where loop: "base_level_loop C h v u (deep_levels c) (c_level_ptrs c) = (base, ptrs)"
    by (cases "base_level_loop C h v u (deep_levels c) (c_level_ptrs c)")
  have "\<forall>level. level \<in> set (deep_levels c) \<longrightarrow> passed C h u (v_files v level) (c_level_ptrs c level)"
    using run by (simp add: run_ok_def u_def)
  from base_level_at [OF deep ku this] loop have base: "base \<longleftrightarrow> nothing_below C h v c u"
    and ptrs: "\<And>level. level \<in> set (deep_levels c) \<Longrightarrow> passed C h u (v_files v level) (ptrs level)"
    by (simp_all add: nothing_below_def deep_levels_def)
  define c' where "c' = (if called then c\<lparr>c_level_ptrs := ptrs\<rparr> else c)"
  have lev: "c_level c' = c_level c" "deep_levels c' = deep_levels c" by (simp_all add: c'_def deep_levels_def)
  let ?dropped = "hidden \<or> called \<and> base"
  have step: "drop_entry C h v smallest (fst e) (d, c) = (?dropped, d1\<lparr>dr_last_sequence := sequence_of e\<rparr>, c')"
    using p d1(3) loop unfolding drop_entry_def d1_def [symmetric] prod.case p(1) option.case p(2-4) Let_def
    by (auto simp: called_def c'_def IsBaseLevelForKey_def deep_levels_def)
  have "passed C h (ExtractUserKey (fst e')) (v_files v level) (c_level_ptrs c' level)"
    if e': "e' \<in> set es" and level: "level \<in> set (deep_levels c)" for e' level
  proof (cases called)
    case True
    from passed_mono [OF deep [rule_format, OF level] ptrs [OF level] ku] entry_facts(5) [OF es e'] True
    show ?thesis by (simp add: c'_def u_def)
  next
    case False
    with run e' level show ?thesis by (simp add: run_ok_def c'_def)
  qed
  then have "run_ok C key h v es (d1\<lparr>dr_last_sequence := sequence_of e\<rparr>, c')"
    using entry_facts(5) [OF es] d1(1) ku by (auto simp: run_ok_def lev u_def)
  with step lev d1(1,2) base show ?thesis by (auto simp: called_def)
qed

lemma kept_newest:
  assumes "internal_entries C key es" and "run_ok C key h v es (d, c)"
    and deep: "\<forall>level \<in> set (deep_levels c). user_sorted C key h (v_files v level)"
    and s: "smallest \<le> s" "smallest < kMaxSequenceNumber" and u: "key u"
  shows "if dr_has_user_key d \<and> dr_user_key d = u \<and> dr_last_sequence d \<le> smallest
    then newest s u (kept C h v smallest es (d, c)) = None
    else newest s u (kept C h v smallest es (d, c)) = newest s u es \<or>
      newest s u (kept C h v smallest es (d, c)) = None \<and> nothing_below C h v c u \<and>
        (\<exists>e. newest s u es = Some e \<and> ExtractValueType (fst e) = kTypeDeletion)"
  using assms(1,2) deep
proof (induction es arbitrary: d c)
  case Nil
  then show ?case by (simp add: newest_def)
next
  case (Cons e es)
  let ?ue = "ExtractUserKey (fst e)"
  let ?hidden = "(if dr_has_user_key d \<and> dr_user_key d = ?ue then dr_last_sequence d else kMaxSequenceNumber) \<le> smallest"
  note ef = entry_facts [OF Cons.prems(1)]
  from drop_entry_at [OF Cons.prems(1,2,3), of smallest] obtain dropped d' c' where
    step: "drop_entry C h v smallest (fst e) (d, c) = (dropped, d', c')" and run: "run_ok C key h v es (d', c')"
    and c': "c_level c' = c_level c" and d': "dr_has_user_key d'" "dr_user_key d' = ?ue" "dr_last_sequence d' = sequence_of e"
    and dropped: "dropped \<longleftrightarrow> ?hidden \<or> ExtractValueType (fst e) = kTypeDeletion \<and> sequence_of e \<le> smallest \<and> nothing_below C h v c ?ue"
    by blast
  have below: "nothing_below C h v c' = nothing_below C h v c" "deep_levels c' = deep_levels c"
    using c' by (simp_all add: nothing_below_def [abs_def] deep_levels_def)
  have IH: "if ?ue = u \<and> sequence_of e \<le> smallest then newest s u (kept C h v smallest es (d', c')) = None
    else newest s u (kept C h v smallest es (d', c')) = newest s u es \<or>
      newest s u (kept C h v smallest es (d', c')) = None \<and> nothing_below C h v c u \<and>
        (\<exists>e. newest s u es = Some e \<and> ExtractValueType (fst e) = kTypeDeletion)"
    using Cons.IH [OF ef(4) run] Cons.prems(3) d' unfolding below by simp
  have kept: "kept C h v smallest (e # es) (d, c) = (if dropped then [] else [e]) @ kept C h v smallest es (d', c')"
    using step by simp
  show ?case
  proof (cases "?ue = u")
    case other: False
    then have "newest s u (e # es) = newest s u es" by (simp add: newest_def)
    moreover have "newest s u (kept C h v smallest (e # es) (d, c)) = newest s u (kept C h v smallest es (d', c'))"
      unfolding kept using other by (simp add: newest_def)
    moreover have "newest s u (kept C h v smallest es (d', c')) = None" if "dr_has_user_key d \<and> dr_user_key d = u"
    proof -
      have "ExtractUserKey (fst x) \<noteq> u" if x: "x \<in> set es" for x
      proof
        assume same: "ExtractUserKey (fst x) = u"
        have "Compare C u ?ue \<le> 0" using Cons.prems(2) \<open>dr_has_user_key d \<and> dr_user_key d = u\<close> by (auto simp: run_ok_def)
        moreover have "Compare C ?ue u \<le> 0" using ef(5) [OF x] same by simp
        ultimately have "Compare C u ?ue = 0" using flip [OF u ef(2)] flip [OF ef(2) u] by linarith
        with equal [OF u ef(2)] other show False by simp
      qed
      with kept_subset show ?thesis unfolding newest_None by fastforce
    qed
    ultimately show ?thesis using IH other by auto
  next
    case same: True
    show ?thesis
    proof (cases "dr_has_user_key d \<and> dr_user_key d = u \<and> dr_last_sequence d \<le> smallest")
      case True
      then have "sequence_of e \<le> dr_last_sequence d" using Cons.prems(2) same by (simp add: run_ok_def)
      with True have "sequence_of e \<le> smallest" by (blast intro: order_trans)
      with True same dropped IH show ?thesis by (simp add: kept del: kept.simps)
    next
      case False
      then have "\<not> ?hidden" using same s(2) by auto
      with dropped same have dr: "dropped \<longleftrightarrow> ExtractValueType (fst e) = kTypeDeletion \<and> sequence_of e \<le> smallest \<and> nothing_below C h v c u"
        by simp
      show ?thesis
      proof (cases dropped)
        case True
        with dr have q: "sequence_of e \<le> smallest" by blast
        then have "visible s e" using ef(3) s(1) by simp
        then have "newest s u (e # es) = Some e" using same by (simp add: newest_def)
        with True dr q IH same False show ?thesis by (simp add: kept del: kept.simps)
      next
        case keep: False
        show ?thesis
        proof (cases "visible s e")
          case True
          with keep same False show ?thesis by (simp add: kept newest_def del: kept.simps)
        next
          case later: False
          then have "\<not> sequence_of e \<le> smallest" using ef(3) s(1) by auto
          moreover have "newest s u (e # es) = newest s u es"
            "newest s u (kept C h v smallest (e # es) (d, c)) = newest s u (kept C h v smallest es (d', c'))"
            using later keep by (simp add: newest_def, simp add: kept newest_def del: kept.simps)
          ultimately show ?thesis using IH same unfolding if_not_P [OF False] by simp
        qed
      qed
    qed
  qed
qed

end

text \<open>
  What \<open>GetOverlappingInputs\<close> collects: the files that overlap a range, which at level 0 is widened until no
  file overlaps it without lying in it.
\<close>

definition overlaps :: "Comparator \<Rightarrow> files \<Rightarrow> slice option \<Rightarrow> slice option \<Rightarrow> file_ref \<Rightarrow> bool" where
  "overlaps C h b e f \<longleftrightarrow>
     (case b of Some b \<Rightarrow> \<not> Compare C (largest_user h f) b < 0 | None \<Rightarrow> True) \<and>
     (case e of Some e \<Rightarrow> \<not> 0 < Compare C (smallest_user h f) e | None \<Rightarrow> True)"

definition lies_in :: "Comparator \<Rightarrow> files \<Rightarrow> slice option \<Rightarrow> slice option \<Rightarrow> file_ref \<Rightarrow> bool" where
  "lies_in C h b e f \<longleftrightarrow>
     (case b of Some b \<Rightarrow> \<not> Compare C (smallest_user h f) b < 0 | None \<Rightarrow> True) \<and>
     (case e of Some e \<Rightarrow> \<not> 0 < Compare C (largest_user h f) e | None \<Rightarrow> True)"

definition closed_range :: "Comparator \<Rightarrow> files \<Rightarrow> file_ref list \<Rightarrow> slice option \<Rightarrow> slice option \<Rightarrow> bool" where
  "closed_range C h fs b e \<longleftrightarrow> (\<forall>f \<in> set fs. overlaps C h b e f \<longrightarrow> lies_in C h b e f)"

text \<open>The first range reaches as far as the second one; \<open>None\<close> is no limit.\<close>

definition covers :: "Comparator \<Rightarrow> slice option \<Rightarrow> slice option \<Rightarrow> slice option \<Rightarrow> slice option \<Rightarrow> bool" where
  "covers C b' e' b e \<longleftrightarrow>
     (case b' of None \<Rightarrow> True | Some x \<Rightarrow> (case b of None \<Rightarrow> False | Some y \<Rightarrow> Compare C x y \<le> 0)) \<and>
     (case e' of None \<Rightarrow> True | Some x \<Rightarrow> (case e of None \<Rightarrow> False | Some y \<Rightarrow> Compare C y x \<le> 0))"

definition files_keyed :: "Comparator \<Rightarrow> (slice \<Rightarrow> bool) \<Rightarrow> files \<Rightarrow> file_ref list \<Rightarrow> bool" where
  "files_keyed C key h fs \<longleftrightarrow>
     (\<forall>f \<in> set fs. key (smallest_user h f) \<and> key (largest_user h f) \<and> Compare C (smallest_user h f) (largest_user h f) \<le> 0)"

text \<open>Counts the files that reach beyond the range.\<close>

definition beyond :: "Comparator \<Rightarrow> files \<Rightarrow> file_ref list \<Rightarrow> slice option \<Rightarrow> slice option \<Rightarrow> nat" where
  "beyond C h fs b e =
     length (filter (\<lambda>f. case b of Some b \<Rightarrow> Compare C (smallest_user h f) b < 0 | None \<Rightarrow> False) fs) +
     length (filter (\<lambda>f. case e of Some e \<Rightarrow> 0 < Compare C (largest_user h f) e | None \<Rightarrow> False) fs)"

lemma filter_fewer:
  assumes "\<And>x. x \<in> set xs \<Longrightarrow> P x \<Longrightarrow> Q x" and "y \<in> set xs" "Q y" "\<not> P y"
  shows "length (filter P xs) < length (filter Q xs)"
proof -
  have "filter P xs = filter P (filter Q xs)" using assms(1) by (auto intro: filter_cong)
  moreover have "length (filter P (filter Q xs)) < length (filter Q xs)"
    using assms(2-4) by (intro length_filter_less [of y]) auto
  ultimately show ?thesis by simp
qed

text \<open>One pass through the loop.\<close>

lemma overlapping_loop_step:
  assumes "i < length fs"
  shows "overlapping_loop C h level fs i b e inputs =
     (if \<not> overlaps C h b e (fs ! i) then overlapping_loop C h level fs (i + 1) b e inputs
      else if level = 0 \<and> (case b of Some x \<Rightarrow> Compare C (smallest_user h (fs ! i)) x < 0 | None \<Rightarrow> False)
      then overlapping_loop C h level fs 0 (Some (smallest_user h (fs ! i))) e []
      else if level = 0 \<and> (case e of Some x \<Rightarrow> 0 < Compare C (largest_user h (fs ! i)) x | None \<Rightarrow> False)
      then overlapping_loop C h level fs 0 b (Some (largest_user h (fs ! i))) []
      else overlapping_loop C h level fs (i + 1) b e (inputs @ [fs ! i]))"
proof -
  have "overlaps C h b e (fs ! i) \<longleftrightarrow> \<not> (case b of Some b \<Rightarrow> Compare C (largest_user h (fs ! i)) b < 0 | None \<Rightarrow> False) \<and>
     \<not> (case e of Some e \<Rightarrow> 0 < Compare C (smallest_user h (fs ! i)) e | None \<Rightarrow> False)"
    by (cases b; cases e; simp add: overlaps_def)
  then show ?thesis
    unfolding overlapping_loop.simps [of C h level fs i b e inputs] if_P [OF assms] Let_def by (simp only: de_Morgan_conj not_not if_False if_True split: if_split) blast
qed

abbreviation "range_key key \<equiv> pred_option key"

text \<open>The range \<open>b'\<close>, \<open>e'\<close> is the given one above level 0, and at level 0 the least closed range around it.\<close>

definition widest ::
  "Comparator \<Rightarrow> (slice \<Rightarrow> bool) \<Rightarrow> files \<Rightarrow> file_ref list \<Rightarrow> nat \<Rightarrow> slice option \<Rightarrow> slice option \<Rightarrow> slice option \<Rightarrow> slice option \<Rightarrow> bool" where
  "widest C key h fs level b e b' e' \<longleftrightarrow>
     range_key key b' \<and> range_key key e' \<and> covers C b' e' b e \<and> (level \<noteq> 0 \<longrightarrow> b' = b \<and> e' = e) \<and>
     (level = 0 \<longrightarrow> closed_range C h fs b' e' \<and> (\<forall>b'' e''. range_key key b'' \<and> range_key key e'' \<and> covers C b'' e'' b e \<and>
        closed_range C h fs b'' e'' \<longrightarrow> covers C b'' e'' b' e'))"

context comparator
begin

lemma below_trans: "key a \<Longrightarrow> key b \<Longrightarrow> key c \<Longrightarrow> Compare C a b \<le> 0 \<Longrightarrow> Compare C b c \<le> 0 \<Longrightarrow> Compare C a c \<le> 0"
  using trans by blast

lemma above: "key a \<Longrightarrow> key b \<Longrightarrow> 0 < Compare C a b \<longleftrightarrow> Compare C b a < 0"
  using flip by simp

lemma covers_refl: "range_key key b \<Longrightarrow> range_key key e \<Longrightarrow> covers C b e b e"
  by (auto simp: covers_def split: option.splits)

lemma covers_trans:
  assumes "covers C b2 e2 b1 e1" "covers C b1 e1 b e"
    and "range_key key b" "range_key key e" "range_key key b1" "range_key key e1" "range_key key b2" "range_key key e2"
  shows "covers C b2 e2 b e"
  using assms by (auto simp: covers_def split: option.splits intro: below_trans)

text \<open>One step that widens the range at one end.\<close>

lemma overlaps_covered:
  assumes "covers C b' e' b e" and "overlaps C h b e f" and "files_keyed C key h fs" "f \<in> set fs"
    and "range_key key b" "range_key key e" "range_key key b'" "range_key key e'"
  shows "overlaps C h b' e' f"
proof -
  have k: "key (smallest_user h f)" "key (largest_user h f)" using assms(3,4) by (simp_all add: files_keyed_def)
  have "\<not> Compare C (largest_user h f) x < 0" if x: "b' = Some x" for x
  proof -
    from x assms(1) obtain y where y: "b = Some y" "Compare C x y \<le> 0" by (auto simp: covers_def split: option.splits)
    then have "key y" "key x" "Compare C y (largest_user h f) \<le> 0"
      using assms(2,5,7) x not_less [OF k(2)] by (auto simp: overlaps_def)
    with y(2) trans k(2) not_less [OF k(2)] show ?thesis by blast
  qed
  moreover have "\<not> 0 < Compare C (smallest_user h f) x" if x: "e' = Some x" for x
  proof -
    from x assms(1) obtain y where y: "e = Some y" "Compare C y x \<le> 0" by (auto simp: covers_def split: option.splits)
    then have "key y" "key x" "Compare C (smallest_user h f) y \<le> 0"
      using assms(2,6,8) x by (auto simp: overlaps_def)
    with y(2) trans [OF k(1)] have "Compare C (smallest_user h f) x \<le> 0" by blast
    then show ?thesis by simp
  qed
  ultimately show ?thesis by (auto simp: overlaps_def split: option.splits)
qed

lemma widen_begin:
  assumes fs: "files_keyed C key h fs" "f \<in> set fs" and b: "b = Some x" "Compare C (smallest_user h f) x < 0"
    and keys: "range_key key b" "range_key key e"
  shows "covers C (Some (smallest_user h f)) e b e" and "beyond C h fs (Some (smallest_user h f)) e < beyond C h fs b e"
    and "covers C b' e' b e \<Longrightarrow> overlaps C h b e f \<Longrightarrow> closed_range C h fs b' e' \<Longrightarrow> range_key key b' \<Longrightarrow> range_key key e' \<Longrightarrow>
      covers C b' e' (Some (smallest_user h f)) e"
proof -
  have k: "key (smallest_user h g)" if "g \<in> set fs" for g using fs(1) that by (simp add: files_keyed_def)
  have kx: "key x" using keys(1) b(1) by simp
  show "covers C (Some (smallest_user h f)) e b e" using b keys(2) by (auto simp: covers_def split: option.splits)
  have "length (filter (\<lambda>g. Compare C (smallest_user h g) (smallest_user h f) < 0) fs) < length (filter (\<lambda>g. Compare C (smallest_user h g) x < 0) fs)"
  proof (rule filter_fewer [where y = f])
    show "Compare C (smallest_user h g) x < 0" if "g \<in> set fs" "Compare C (smallest_user h g) (smallest_user h f) < 0" for g
      using less_trans [OF k [OF that(1)] k [OF fs(2)] kx that(2) b(2)] .
  qed (use fs(2) b(2) k in simp_all)
  then show "beyond C h fs (Some (smallest_user h f)) e < beyond C h fs b e" by (simp add: beyond_def b(1))
  assume c: "covers C b' e' b e" "overlaps C h b e f" "closed_range C h fs b' e'" "range_key key b'" "range_key key e'"
  then have "lies_in C h b' e' f" using overlaps_covered [OF c(1,2) fs keys] fs(2) by (simp add: closed_range_def)
  then show "covers C b' e' (Some (smallest_user h f)) e"
    using c(1,4) not_less [OF k [OF fs(2)]] by (auto simp: covers_def lies_in_def split: option.splits)
qed

lemma widen_end:
  assumes fs: "files_keyed C key h fs" "f \<in> set fs" and e: "e = Some x" "0 < Compare C (largest_user h f) x"
    and keys: "range_key key b" "range_key key e"
  shows "covers C b (Some (largest_user h f)) b e" and "beyond C h fs b (Some (largest_user h f)) < beyond C h fs b e"
    and "covers C b' e' b e \<Longrightarrow> overlaps C h b e f \<Longrightarrow> closed_range C h fs b' e' \<Longrightarrow> range_key key b' \<Longrightarrow> range_key key e' \<Longrightarrow>
      covers C b' e' b (Some (largest_user h f))"
proof -
  have k: "key (largest_user h g)" if "g \<in> set fs" for g using fs(1) that by (simp add: files_keyed_def)
  have kx: "key x" using keys(2) e(1) by simp
  have e2: "Compare C x (largest_user h f) < 0" using e(2) flip [OF k [OF fs(2)] kx] by simp
  show "covers C b (Some (largest_user h f)) b e" using e(1) e2 keys(1) by (auto simp: covers_def split: option.splits)
  have "length (filter (\<lambda>g. 0 < Compare C (largest_user h g) (largest_user h f)) fs) < length (filter (\<lambda>g. 0 < Compare C (largest_user h g) x) fs)"
  proof (rule filter_fewer [where y = f])
    show "0 < Compare C (largest_user h g) x" if g: "g \<in> set fs" "0 < Compare C (largest_user h g) (largest_user h f)" for g
      using less_trans [OF kx k [OF fs(2)] k [OF g(1)] e2] g(2) flip [OF k [OF g(1)] k [OF fs(2)]] flip [OF k [OF g(1)] kx] by simp
  qed (use fs(2) e(2) k in simp_all)
  then show "beyond C h fs b (Some (largest_user h f)) < beyond C h fs b e" by (simp add: beyond_def e(1))
  assume c: "covers C b' e' b e" "overlaps C h b e f" "closed_range C h fs b' e'" "range_key key b'" "range_key key e'"
  then have "lies_in C h b' e' f" using overlaps_covered [OF c(1,2) fs keys] fs(2) by (simp add: closed_range_def)
  then show "covers C b' e' b (Some (largest_user h f))"
    using c(1) by (auto simp: covers_def lies_in_def split: option.splits)
qed

lemma widest_step:
  assumes "widest C key h fs 0 b1 e1 b' e'" and "covers C b1 e1 b e"
    and "\<And>b'' e''. range_key key b'' \<Longrightarrow> range_key key e'' \<Longrightarrow> covers C b'' e'' b e \<Longrightarrow> closed_range C h fs b'' e'' \<Longrightarrow> covers C b'' e'' b1 e1"
    and "range_key key b" "range_key key e" "range_key key b1" "range_key key e1"
  shows "widest C key h fs 0 b e b' e'"
  using assms covers_trans [of b' e' b1 e1 b e] by (auto simp: widest_def)

text \<open>The loop ends with the files that overlap the least closed range.\<close>

lemma overlapping_loop_ends:
  assumes "files_keyed C key h fs" and "range_key key b" "range_key key e" and "i \<le> length fs"
    and "level = 0 \<longrightarrow> (\<forall>f \<in> set (take i fs). overlaps C h b e f \<longrightarrow> lies_in C h b e f)"
  shows "\<exists>b' e'. overlapping_loop C h level fs i b e (filter (overlaps C h b e) (take i fs)) = Some (filter (overlaps C h b' e') fs) \<and>
    widest C key h fs level b e b' e'"
  using assms(2-)
proof (induction "(beyond C h fs b e, length fs - i)" arbitrary: b e i
    rule: wf_induct_rule [OF wf_lex_prod [OF wf_less_than wf_less_than]])
  case 1
  note IH = 1(1) and keys = 1(2,3) and i = 1(4) and inside = 1(5)
  show ?case
  proof (cases "i < length fs")
    case False
    with i have "i = length fs" by simp
    with inside keys covers_refl [OF keys] show ?thesis
      by (subst overlapping_loop.simps) (auto simp: widest_def closed_range_def)
  next
    case True
    let ?f = "fs ! i" and ?loop = "overlapping_loop C h level fs"
    have f: "?f \<in> set fs" using True by simp
    have take: "take (i + 1) fs = take i fs @ [?f]" using True by (simp add: take_Suc_conv_app_nth)
    have k: "key (smallest_user h ?f)" "key (largest_user h ?f)" using assms(1) f by (simp_all add: files_keyed_def)
    have onward: "\<exists>b' e'. ?loop (i + 1) b e (filter (overlaps C h b e) (take (i + 1) fs)) = Some (filter (overlaps C h b' e') fs) \<and>
        widest C key h fs level b e b' e'"
      if "level = 0 \<and> overlaps C h b e ?f \<longrightarrow> lies_in C h b e ?f"
    proof -
      have "level = 0 \<longrightarrow> (\<forall>f \<in> set (take (i + 1) fs). overlaps C h b e f \<longrightarrow> lies_in C h b e f)"
        using that inside unfolding take by auto
      with IH [of b e "i + 1"] True keys show ?thesis by simp
    qed
    have restart: "\<exists>b' e'. ?loop 0 b1 e1 [] = Some (filter (overlaps C h b' e') fs) \<and> widest C key h fs level b1 e1 b' e'"
      if "beyond C h fs b1 e1 < beyond C h fs b e" "range_key key b1" "range_key key e1" for b1 e1
      using IH [of b1 e1 0] that by simp
    show ?thesis
    proof (cases "overlaps C h b e ?f")
      case skip: False
      then have "?loop i b e (filter (overlaps C h b e) (take i fs)) = ?loop (i + 1) b e (filter (overlaps C h b e) (take (i + 1) fs))"
        unfolding take using skip by (subst overlapping_loop_step [OF True]) simp
      with onward skip show ?thesis by simp
    next
      case meets: True
      show ?thesis
      proof (cases "level = 0 \<and> \<not> lies_in C h b e ?f")
        case False
        then have "?loop i b e (filter (overlaps C h b e) (take i fs)) = ?loop (i + 1) b e (filter (overlaps C h b e) (take (i + 1) fs))"
          unfolding take using meets by (subst overlapping_loop_step [OF True]) (auto simp: lies_in_def split: option.splits)
        with onward False show ?thesis by auto
      next
        case grow: True
        show ?thesis
        proof (cases "\<exists>x. b = Some x \<and> Compare C (smallest_user h ?f) x < 0")
          case left: True
          then obtain x where x: "b = Some x" "Compare C (smallest_user h ?f) x < 0" by blast
          note w = widen_begin [OF assms(1) f x keys]
          have k1: "range_key key (Some (smallest_user h ?f))" using k by simp
          from restart [OF w(2) k1 keys(2)] grow obtain b' e' where r: "?loop 0 (Some (smallest_user h ?f)) e [] = Some (filter (overlaps C h b' e') fs)"
            "widest C key h fs 0 (Some (smallest_user h ?f)) e b' e'" by auto
          have "?loop i b e (filter (overlaps C h b e) (take i fs)) = ?loop 0 (Some (smallest_user h ?f)) e []"
            using meets grow x by (subst overlapping_loop_step [OF True]) simp
          moreover have "widest C key h fs 0 b e b' e'"
            by (rule widest_step [OF r(2) w(1) w(3) keys k1 keys(2)]) (use meets in auto)
          ultimately show ?thesis using r(1) grow by auto
        next
          case right: False
          then obtain x where x: "e = Some x" "0 < Compare C (largest_user h ?f) x"
            using grow by (auto simp: lies_in_def split: option.splits)
          note w = widen_end [OF assms(1) f x keys]
          have k1: "range_key key (Some (largest_user h ?f))" using k by simp
          from restart [OF w(2) keys(1) k1] grow obtain b' e' where r: "?loop 0 b (Some (largest_user h ?f)) [] = Some (filter (overlaps C h b' e') fs)"
            "widest C key h fs 0 b (Some (largest_user h ?f)) b' e'" by auto
          have "?loop i b e (filter (overlaps C h b e) (take i fs)) = ?loop 0 b (Some (largest_user h ?f)) []"
            using meets grow right x by (subst overlapping_loop_step [OF True]) (auto split: option.splits)
          moreover have "widest C key h fs 0 b e b' e'"
            by (rule widest_step [OF r(2) w(1) w(3) keys keys(1) k1]) (use meets in auto)
          ultimately show ?thesis using r(1) grow by auto
        qed
      qed
    qed
  qed
qed

end

end
