(* ===== verification/Ldb_Compaction_Props.thy ===== *)
theory Ldb_Compaction_Props
  imports Ldb_Compaction_Spec Ldb_Version_Props
begin

text \<open>
  Properties of compactions.
\<close>

context comparator
begin

text \<open>What the levels below have for a user key that is in no file's range.\<close>

lemma nothing_below_newest:
  assumes "nothing_below C h v c u"
    and "\<forall>level \<in> set (deep_levels c). \<forall>f \<in> set (v_files v level). \<forall>e \<in> set (content f). in_range C h (ExtractUserKey (fst e)) f"
  shows "newest s u (concat (map content (concat (map (v_files v) (deep_levels c))))) = None"
  unfolding newest_None using assms by (fastforce simp: nothing_below_def)

lemma newest_member: "newest s u es = Some e \<Longrightarrow> e \<in> set es \<and> ExtractUserKey (fst e) = u"
  by (induction es) (auto simp: newest_def split: if_splits)

lemma kept_lookup:
  assumes "internal_entries C key es" and "c_level_ptrs c = (\<lambda>_. 0)"
    and rest: "\<forall>e \<in> set rest. \<forall>e' \<in> set es. ExtractUserKey (fst e) \<noteq> ExtractUserKey (fst e')"
    and deep: "\<forall>level \<in> set (deep_levels c). user_sorted C key h (v_files v level)"
    and content: "\<forall>level \<in> set (deep_levels c). \<forall>f \<in> set (v_files v level). \<forall>e \<in> set (content f). in_range C h (ExtractUserKey (fst e)) f"
    and s: "smallest \<le> s" "smallest < kMaxSequenceNumber" and u: "key u"
  shows "lookup_result v0 (newest s u (up @ kept C h v smallest es (DropState_new, c) @ rest @
      concat (map content (concat (map (v_files v) (deep_levels c)))))) =
    lookup_result v0 (newest s u (up @ es @ rest @ concat (map content (concat (map (v_files v) (deep_levels c))))))"
proof -
  let ?k = "kept C h v smallest es (DropState_new, c)"
    and ?below = "concat (map content (concat (map (v_files v) (deep_levels c))))"
  have "newest s u ?k = newest s u es \<or> newest s u ?k = None \<and> nothing_below C h v c u \<and>
      (\<exists>e. newest s u es = Some e \<and> ExtractValueType (fst e) = kTypeDeletion)"
    using kept_newest [OF assms(1) run_ok_new [OF assms(2)] deep s u] by (simp add: DropState_new_def)
  then show ?thesis
  proof (elim disjE conjE exE)
    assume "newest s u ?k = newest s u es"
    then show ?thesis unfolding newest_append by (simp split: option.split)
  next
    fix e
    assume e: "newest s u ?k = None" "nothing_below C h v c u" "newest s u es = Some e" "ExtractValueType (fst e) = kTypeDeletion"
    have "e \<in> set es \<and> ExtractUserKey (fst e) = u" by (rule newest_member [OF e(3)])
    then have "ExtractUserKey (fst x) \<noteq> u" if "x \<in> set rest" for x using bspec [OF bspec [OF rest that], of e] by simp
    then have "newest s u rest = None" by (simp add: newest_None)
    then have "newest s u (rest @ ?below) = None"
      by (simp only: newest_append nothing_below_newest [OF e(2) content] option.case)
    then have k: "newest s u (?k @ rest @ ?below) = None" and es: "newest s u (es @ rest @ ?below) = Some e"
      by (simp_all only: newest_append [of s u ?k] newest_append [of s u es] e(1,3) option.case)
    have d: "ExtractValueType (fst e) \<noteq> kTypeValue" using e(4) by (simp add: kTypeDeletion_def kTypeValue_def)
    show ?thesis
      unfolding newest_append [of s u up] k es using d by (cases "newest s u up") (simp_all add: lookup_result_def)
  qed
qed

end

text \<open>C35: a compaction changes no lookup, unless it leaves a user key of its inputs behind. \<open>es\<close> are the merged
  entries of the input files; \<open>up\<close> what the memtables and the levels above hold; \<open>rest\<close> the entries of the files of
  the two compacted levels that are not inputs, which must have no user key in common with the inputs; and below are the
  files of the levels two and more below the compacted one, each level in order and each file within its range. For a
  lookup at the smallest snapshot or later, replacing \<open>es\<close> by the entries that \<open>DoCompactionWork\<close> keeps gives the same
  value or the same NotFound, for every user key: neither the older entries that are dropped nor the dropped deletions
  are missed, because nothing in the rest or below has the key. \<open>PickCompaction\<close> can choose inputs that violate the
  condition on \<open>rest\<close>, when a user key is split over two files of a level above 0: it adds only level 0's overlapping
  files (\<open>version_set.cc\<close>, line 1330), and then a dropped deletion may be missed.\<close>

theorem compaction_keeps_lookups:
  assumes "comparator C key" and "internal_entries C key es" and "c_level_ptrs c = (\<lambda>_. 0)"
    and "\<forall>e \<in> set rest. \<forall>e' \<in> set es. ExtractUserKey (fst e) \<noteq> ExtractUserKey (fst e')"
    and "\<forall>level \<in> set (deep_levels c). user_sorted C key h (v_files v level)"
    and "\<forall>level \<in> set (deep_levels c). \<forall>f \<in> set (v_files v level). \<forall>e \<in> set (content f). in_range C h (ExtractUserKey (fst e)) f"
    and "smallest \<le> s" and "smallest < kMaxSequenceNumber" and "key u"
  shows "let below = concat (map content (concat (map (v_files v) (deep_levels c)))) in
    lookup_result v0 (newest s u (up @ kept C h v smallest es (DropState_new, c) @ rest @ below)) =
    lookup_result v0 (newest s u (up @ es @ rest @ below))"
  unfolding Let_def by (rule comparator.kept_lookup [OF assms])

text \<open>Four entries at number 3, over a file at level 3 with keys from a to b: the older entry of a is dropped, the deletion
  of b is kept for what level 3 may have, and the deletion of c is dropped. A file that is not an input holds d.\<close>

definition compacted_example :: "entry list" where
  "compacted_example = [([97, 1, 3, 0, 0, 0, 0, 0, 0], [1]), ([97, 1, 2, 0, 0, 0, 0, 0, 0], [2]),
     ([98, 0, 3, 0, 0, 0, 0, 0, 0], []), ([99, 0, 2, 0, 0, 0, 0, 0, 0], [])]"

definition deep_version :: Version where
  "deep_version = Version_new\<lparr>v_files := (\<lambda>level. if level = 3 then [0] else [])\<rparr>"

lemma compacted_example_sorted: "internal_entries BytewiseComparator (\<lambda>_. True) compacted_example"
  by (simp add: internal_entries_def sorted_entries_def compacted_example_def Internal_Compare_def ExtractUserKey_def ParseInternalKey_def
      ExtractNumber_def DecodeFixed64_def BytewiseComparator_def kTypeValue_def InternalKeyComparator_def)

lemma compacted_example_kept:
  "kept BytewiseComparator (example_files 137) deep_version 3 compacted_example (DropState_new, Compaction_new Options_new 1) =
    [([97, 1, 3, 0, 0, 0, 0, 0, 0], [1]), ([98, 0, 3, 0, 0, 0, 0, 0, 0], [])]"
  by (simp add: compacted_example_def drop_entry_def ParseInternalKey_def ExtractNumber_def DecodeFixed64_def DropState_new_def kTypeValue_def
      kTypeDeletion_def kMaxSequenceNumber_def IsBaseLevelForKey_def Compaction_new_def kNumLevels_def upt_rec advance_ptr.simps Let_def
      deep_version_def Version_new_def example_files_def FileMetaData_new_def internal_example_def ExtractUserKey_def BytewiseComparator_def)

theorem compaction_keeps_lookups_witness:
  "lookup_result [] (newest 3 [99] ([([97, 1, 3, 0, 0, 0, 0, 0, 0], [1]), ([98, 0, 3, 0, 0, 0, 0, 0, 0], [])] @
      [([100, 1, 1, 0, 0, 0, 0, 0, 0], [4])] @ internal_example)) =
    lookup_result [] (newest 3 [99] (compacted_example @ [([100, 1, 1, 0, 0, 0, 0, 0, 0], [4])] @ internal_example))"
proof -
  have rest: "\<forall>e \<in> set [([100, 1, 1, 0, 0, 0, 0, 0, 0], [4])]. \<forall>e' \<in> set compacted_example.
      ExtractUserKey (fst e) \<noteq> ExtractUserKey (fst e')"
    by (simp add: compacted_example_def ExtractUserKey_def)
  have deep: "deep_levels (Compaction_new Options_new 1) = [3, 4, 5, 6]" by (simp add: deep_levels_def Compaction_new_def kNumLevels_def upt_rec)
  have files: "v_files deep_version = (\<lambda>level. if level = 3 then [0] else [])" by (simp add: deep_version_def Version_new_def)
  have h: "f_smallest (example_files 137 f) = [97, 1, 3, 0, 0, 0, 0, 0, 0]" "f_largest (example_files 137 f) = [98, 0, 2, 0, 0, 0, 0, 0, 0]" for f
    by (simp_all add: example_files_def FileMetaData_new_def internal_example_def)
  have "\<forall>level \<in> set (deep_levels (Compaction_new Options_new 1)). user_sorted BytewiseComparator (\<lambda>_. True) (example_files 137) (v_files deep_version level)"
    "\<forall>level \<in> set (deep_levels (Compaction_new Options_new 1)). \<forall>f \<in> set (v_files deep_version level). \<forall>e \<in> set internal_example.
      in_range BytewiseComparator (example_files 137) (ExtractUserKey (fst e)) f"
    unfolding deep files
    by (simp_all add: user_sorted_def in_range_def h BytewiseComparator_def internal_example_def ExtractUserKey_def)
  from compaction_keeps_lookups [OF bytewise.comparator_axioms compacted_example_sorted _ rest this, where smallest = 3 and s = 3 and u = "[99]" and
      up = "[]" and ?v0.0 = "[]"]
  show ?thesis
    unfolding Let_def deep files compacted_example_kept
    by (simp add: Compaction_new_def kMaxSequenceNumber_def)
qed


section \<open>Collecting the inputs\<close>

text \<open>C36: collecting the inputs of a compaction ends. At level 0 the search starts again whenever a file widens the
  range; it always ends, and gives the files that overlap the least range around the requested one that no file
  overlaps without lying in it, in their order; above level 0 it gives the files that overlap the requested range.
  So no file of level 0 stays behind that shares a user key with a chosen one.\<close>

theorem overlapping_inputs_ends:
  assumes "comparator C key" and "level < kNumLevels" and "files_keyed C key h (v_files v level)"
    and "pred_option key (map_option ExtractUserKey first)" and "pred_option key (map_option ExtractUserKey limit)"
  shows "\<exists>b e. GetOverlappingInputs C h v level first limit = Some (filter (overlaps C h b e) (v_files v level)) \<and>
    widest C key h (v_files v level) level (map_option ExtractUserKey first) (map_option ExtractUserKey limit) b e"
  using comparator.overlapping_loop_ends [OF assms(1,3,4,5), of 0 level] assms(2) by (auto simp: GetOverlappingInputs_def)

text \<open>Two files at level 0, from a to b and from b to d: asking for c gives both.\<close>

definition level0_example :: files where
  "level0_example f = (if f = 0 then FileMetaData_new 5 10 [97, 1, 3, 0, 0, 0, 0, 0, 0] [98, 1, 3, 0, 0, 0, 0, 0, 0]
     else FileMetaData_new 6 10 [98, 1, 4, 0, 0, 0, 0, 0, 0] [100, 1, 4, 0, 0, 0, 0, 0, 0])"

theorem overlapping_inputs_ends_witness:
  "GetOverlappingInputs BytewiseComparator level0_example (Version_new\<lparr>v_files := (\<lambda>level. if level = 0 then [0, 1] else [])\<rparr>) 0
      (Some [99, 1, 5, 0, 0, 0, 0, 0, 0]) (Some [99, 1, 1, 0, 0, 0, 0, 0, 0]) = Some [0, 1]"
proof -
  let ?v = "Version_new\<lparr>v_files := (\<lambda>level. if level = 0 then [0, 1] else [])\<rparr>" and ?first = "Some [99, 1, 5, 0, 0, 0, 0, 0, 0]"
    and ?limit = "Some [99, 1, 1, 0, 0, 0, 0, 0, 0]"
  have h: "smallest_user level0_example 0 = [97]" "largest_user level0_example 0 = [98]"
    "smallest_user level0_example 1 = [98]" "largest_user level0_example 1 = [100]"
    by (simp_all add: level0_example_def FileMetaData_new_def ExtractUserKey_def)
  have files: "v_files ?v 0 = [0, 1]" by simp
  have "files_keyed BytewiseComparator (\<lambda>_. True) level0_example (v_files ?v 0)"
    using h by (simp add: files_keyed_def BytewiseComparator_def)
  from overlapping_inputs_ends [OF bytewise.comparator_axioms _ this, of ?first ?limit] obtain b e where
    be: "GetOverlappingInputs BytewiseComparator level0_example ?v 0 ?first ?limit = Some (filter (overlaps BytewiseComparator level0_example b e) [0, 1])"
    "widest BytewiseComparator (\<lambda>_. True) level0_example [0, 1] 0 (Some [99]) (Some [99]) b e"
    by (auto simp: kNumLevels_def ExtractUserKey_def)
  from be(2) have c: "covers BytewiseComparator b e (Some [99]) (Some [99])" "closed_range BytewiseComparator level0_example [0, 1] b e"
    by (simp_all add: widest_def)
  have keys: "files_keyed BytewiseComparator (\<lambda>_. True) level0_example [0, 1]"
    using h by (simp add: files_keyed_def BytewiseComparator_def)
  note meets = bytewise.overlaps_covered [OF _ _ keys]
  have one: "overlaps BytewiseComparator level0_example b e 1"
    by (rule meets [OF c(1)]) (use h in \<open>simp_all add: overlaps_def BytewiseComparator_def pred_option_def\<close>)
  with c(2) have "lies_in BytewiseComparator level0_example b e 1" by (simp add: closed_range_def)
  then have "covers BytewiseComparator b e (Some [98]) (Some [100])"
    using h c(1) bytewise.not_less [of "[98]"] by (auto simp: lies_in_def covers_def split: option.splits)
  then have "overlaps BytewiseComparator level0_example b e 0"
    by (rule meets) (use h in \<open>simp_all add: overlaps_def BytewiseComparator_def pred_option_def\<close>)
  with one be(1) show ?thesis by simp
qed

end
