(* ===== verification/Ldb_Env.thy ===== *)
theory Ldb_Env
  imports Ldb_Files Ldb_Filename "HOL-Library.AList"
begin

text \<open>
  The environment, \<open>class Env\<close> of \<open>include/leveldb/env.h\<close>, with \<open>util/env.cc\<close>, \<open>SetCurrentFile\<close> of
  \<open>db/filename.cc\<close>, and the file operations of \<open>PosixEnv\<close> in \<open>util/env_posix.cc\<close>. The operations act on a state of
  the world: the files on disk and what the operating system does next. Threads, time and the logger of the
  environment are not part of it.
\<close>

text \<open>\<open>'s\<close>, \<open>'r\<close> and \<open>'f\<close> are the file objects; writing to one of type \<open>'f\<close> changes the world. A lock is its name.\<close>

record ('s, 'r, 'f, 'w) Env =
  env_in :: "'s SequentialFile"
  env_random :: "'r RandomAccessFile"
  env_out :: "('f \<times> 'w) WritableFile"
  env_NewSequentialFile :: "byte list \<Rightarrow> 'w \<Rightarrow> status \<times> 's option"
  env_NewRandomAccessFile :: "byte list \<Rightarrow> 'w \<Rightarrow> (status \<times> 'r option) \<times> 'w"
  env_NewWritableFile :: "byte list \<Rightarrow> 'w \<Rightarrow> (status \<times> 'f option) \<times> 'w"
  env_NewAppendableFile :: "byte list \<Rightarrow> 'w \<Rightarrow> (status \<times> 'f option) \<times> 'w"
  env_delete_file :: "'f \<Rightarrow> 'w \<Rightarrow> 'w"
  env_FileExists :: "byte list \<Rightarrow> 'w \<Rightarrow> bool"
  env_GetChildren :: "byte list \<Rightarrow> 'w \<Rightarrow> status \<times> byte list list"
  env_DeleteFile :: "byte list \<Rightarrow> 'w \<Rightarrow> status \<times> 'w"
  env_CreateDir :: "byte list \<Rightarrow> 'w \<Rightarrow> status \<times> 'w"
  env_DeleteDir :: "byte list \<Rightarrow> 'w \<Rightarrow> status \<times> 'w"
  env_GetFileSize :: "byte list \<Rightarrow> 'w \<Rightarrow> status \<times> u64"
  env_RenameFile :: "byte list \<Rightarrow> byte list \<Rightarrow> 'w \<Rightarrow> status \<times> 'w"
  env_LockFile :: "byte list \<Rightarrow> 'w \<Rightarrow> (status \<times> byte list option) \<times> 'w"
  env_UnlockFile :: "byte list \<Rightarrow> 'w \<Rightarrow> status \<times> 'w"

section \<open>Helpers of the environment\<close>

text \<open>The statuses of appending, syncing and closing, each done when the one before was OK.\<close>

definition then_ok :: "('x \<Rightarrow> status \<times> 'x) \<Rightarrow> status \<times> 'x \<Rightarrow> status \<times> 'x" where
  "then_ok op sx = (case sx of (s, x) \<Rightarrow> if status_ok s then op x else (s, x))"

text \<open>Nothing when a file that was opened successfully is NULL.\<close>

definition DoWriteStringToFile :: "('s, 'r, 'f, 'w) Env \<Rightarrow> slice \<Rightarrow> byte list \<Rightarrow> bool \<Rightarrow> 'w \<Rightarrow> (status \<times> 'w) option" where
  "DoWriteStringToFile E data fname should_sync w =
     (case env_NewWritableFile E fname w of ((s, file), w) \<Rightarrow>
        if \<not> status_ok s then Some (s, w)
        else
          map_option (\<lambda>file.
            let (s, file, w) = wf_Append (env_out E) data (file, w);
                (s, file, w) = (if should_sync then then_ok (wf_Sync (env_out E)) (s, file, w) else (s, file, w));
                (s, file, w) = then_ok (wf_Close (env_out E)) (s, file, w);
                w = env_delete_file E file w in
            if \<not> status_ok s then (s, snd (env_DeleteFile E fname w)) else (s, w)) file)"

definition WriteStringToFile :: "('s, 'r, 'f, 'w) Env \<Rightarrow> slice \<Rightarrow> byte list \<Rightarrow> 'w \<Rightarrow> (status \<times> 'w) option" where
  "WriteStringToFile E data fname = DoWriteStringToFile E data fname False"

definition WriteStringToFileSync :: "('s, 'r, 'f, 'w) Env \<Rightarrow> slice \<Rightarrow> byte list \<Rightarrow> 'w \<Rightarrow> (status \<times> 'w) option" where
  "WriteStringToFileSync E data fname = DoWriteStringToFile E data fname True"

partial_function (option) read_to_string :: "'s SequentialFile \<Rightarrow> byte list \<Rightarrow> 's \<Rightarrow> (status \<times> byte list) option" where
  "read_to_string F data f =
     (case sf_Read F 8192 f of ((s, fragment), f) \<Rightarrow>
        if \<not> status_ok s then Some (s, data)
        else if fragment = [] then Some (s, data)
        else read_to_string F (data @ fragment) f)"

definition ReadFileToString :: "('s, 'r, 'f, 'w) Env \<Rightarrow> byte list \<Rightarrow> 'w \<Rightarrow> (status \<times> byte list) option" where
  "ReadFileToString E fname w =
     (case env_NewSequentialFile E fname w of (s, file) \<Rightarrow>
        if \<not> status_ok s then Some (s, []) else Option.bind file (read_to_string (env_in E) []))"

text \<open>The manifest's name without the directory, and a newline, through a temporary file.\<close>

definition SetCurrentFile :: "('s, 'r, 'f, 'w) Env \<Rightarrow> byte list \<Rightarrow> u64 \<Rightarrow> 'w \<Rightarrow> (status \<times> 'w) option" where
  "SetCurrentFile E dbname descriptor_number w =
     Option.bind (DescriptorFileName dbname descriptor_number) (\<lambda>manifest.
     if \<not> starts_with manifest (dbname @ bytes_of ''/'') then None
     else
       let contents = drop (length dbname + 1) manifest in
       Option.bind (TempFileName dbname descriptor_number) (\<lambda>tmp.
       map_option (\<lambda>(s, w).
         let (s, w) = (if status_ok s then env_RenameFile E tmp (CurrentFileName dbname) w else (s, w)) in
         if \<not> status_ok s then (s, snd (env_DeleteFile E tmp w)) else (s, w))
         (WriteStringToFileSync E (contents @ [10]) tmp w)))"

section \<open>The POSIX environment\<close>

text \<open>
  The files with their bytes and the directories; for each name the error of the next operations on it, if they
  fail; the texts of the other errors; the space on the disk; the locks of other processes and of this one; how
  many files may still be mapped.
\<close>

record PosixWorld =
  px_files :: "(byte list \<times> byte list) list"
  px_dirs :: "byte list list"
  px_error :: "byte list \<Rightarrow> byte list option"
  px_enoent :: "byte list"
  px_eexist :: "byte list"
  px_space :: nat
  px_flush_ok :: bool
  px_eio :: "byte list"
  px_einval :: "byte list"
  px_dir_sync :: "byte list \<Rightarrow> byte list option"
  px_locked_elsewhere :: "byte list \<Rightarrow> byte list option"
  px_locks :: "byte list set"
  px_mmaps :: int

definition posix_lookup :: "byte list \<Rightarrow> PosixWorld \<Rightarrow> byte list + byte list" where
  "posix_lookup fname w =
     (case px_error w fname of Some e \<Rightarrow> Inl e
      | None \<Rightarrow> (case map_of (px_files w) fname of None \<Rightarrow> Inl (px_enoent w) | Some d \<Rightarrow> Inr d))"

definition PosixEnv_NewSequentialFile :: "byte list \<Rightarrow> PosixWorld \<Rightarrow> status \<times> PosixSequentialFile option" where
  "PosixEnv_NewSequentialFile fname w =
     (case posix_lookup fname w of
        Inl e \<Rightarrow> (IOError fname e, None)
      | Inr d \<Rightarrow> (Status_OK, Some \<lparr>sq_filename = fname, sq_data = d, sq_pos = 0, sq_eof = False, sq_fails_at = None, sq_errno = px_eio w\<rparr>))"

text \<open>Mapped while the limit allows it, which an empty file cannot be. A lookup that succeeded finds the size as well.\<close>

definition PosixEnv_NewRandomAccessFile ::
  "byte list \<Rightarrow> PosixWorld \<Rightarrow> (status \<times> (PosixMmapReadableFile + PosixRandomAccessFile) option) \<times> PosixWorld" where
  "PosixEnv_NewRandomAccessFile fname w =
     (case posix_lookup fname w of
        Inl e \<Rightarrow> ((IOError fname e, None), w)
      | Inr d \<Rightarrow>
          if 0 < px_mmaps w then
            (if d = [] then ((IOError fname (px_einval w), None), w)
             else ((Status_OK, Some (Inl \<lparr>mm_filename = fname, mm_region = d, mm_einval = px_einval w\<rparr>)), w\<lparr>px_mmaps := px_mmaps w - 1\<rparr>))
          else ((Status_OK, Some (Inr \<lparr>pr_filename = fname, pr_data = d, pr_error = None\<rparr>)), w))"

definition posix_random_file :: "(PosixMmapReadableFile + PosixRandomAccessFile) RandomAccessFile" where
  "posix_random_file = \<lparr>ra_Read = case_sum PosixMmapReadableFile_Read PosixRandomAccessFile_Read\<rparr>"

text \<open>
  An open \<open>FILE*\<close> for writing: it has written nothing. What an operation on it writes goes to the end of the
  file of its name, or is lost when that was deleted; a file is not renamed while it is open.
\<close>

definition posix_writable :: "byte list \<Rightarrow> PosixWorld \<Rightarrow> PosixWritableFile" where
  "posix_writable fname w =
     \<lparr>pw_filename = fname, pw_data = [], pw_space = px_space w, pw_flush_ok = px_flush_ok w, pw_open = True, pw_errno = px_eio w\<rparr>"

definition posix_append :: "byte list \<Rightarrow> byte list \<Rightarrow> PosixWorld \<Rightarrow> PosixWorld" where
  "posix_append fname bs w =
     (case map_of (px_files w) fname of None \<Rightarrow> w | Some d \<Rightarrow> w\<lparr>px_files := AList.update fname (d @ bs) (px_files w)\<rparr>)"

definition posix_out ::
  "(PosixWritableFile \<Rightarrow> status \<times> PosixWritableFile) \<Rightarrow> PosixWritableFile \<times> PosixWorld \<Rightarrow> status \<times> PosixWritableFile \<times> PosixWorld" where
  "posix_out op fw =
     (case fw of (f, w) \<Rightarrow>
        case op (f\<lparr>pw_space := px_space w, pw_flush_ok := px_flush_ok w\<rparr>) of (s, f') \<Rightarrow>
          (s, f', posix_append (pw_filename f) (drop (length (pw_data f)) (pw_data f')) (w\<lparr>px_space := pw_space f'\<rparr>)))"

definition posix_env_out :: "(PosixWritableFile \<times> PosixWorld) WritableFile" where
  "posix_env_out =
     \<lparr>wf_Append = (\<lambda>d. posix_out (PosixWritableFile_Append d)), wf_Close = posix_out PosixWritableFile_Close,
      wf_Flush = posix_out PosixWritableFile_Flush,
      wf_Sync = (\<lambda>(f, w). posix_out (PosixWritableFile_Sync (px_dir_sync w)) (f, w))\<rparr>"

text \<open>Opening for writing cuts the file, for appending it keeps it; both make it when it is not there.\<close>

definition posix_open_out :: "bool \<Rightarrow> byte list \<Rightarrow> PosixWorld \<Rightarrow> (status \<times> PosixWritableFile option) \<times> PosixWorld" where
  "posix_open_out keep fname w =
     (case px_error w fname of Some e \<Rightarrow> ((IOError fname e, None), w)
      | None \<Rightarrow>
          let d = (case map_of (px_files w) fname of Some d \<Rightarrow> if keep then d else [] | None \<Rightarrow> []) in
          ((Status_OK, Some (posix_writable fname w)), w\<lparr>px_files := AList.update fname d (px_files w)\<rparr>))"

definition PosixEnv_NewWritableFile :: "byte list \<Rightarrow> PosixWorld \<Rightarrow> (status \<times> PosixWritableFile option) \<times> PosixWorld" where
  "PosixEnv_NewWritableFile = posix_open_out False"

definition PosixEnv_NewAppendableFile :: "byte list \<Rightarrow> PosixWorld \<Rightarrow> (status \<times> PosixWritableFile option) \<times> PosixWorld" where
  "PosixEnv_NewAppendableFile = posix_open_out True"

definition PosixEnv_FileExists :: "byte list \<Rightarrow> PosixWorld \<Rightarrow> bool" where
  "PosixEnv_FileExists fname w \<longleftrightarrow> map_of (px_files w) fname \<noteq> None \<or> fname \<in> set (px_dirs w)"

text \<open>The names in the directory; \<open>readdir\<close> also gives the directory and its parent.\<close>

definition PosixEnv_GetChildren :: "byte list \<Rightarrow> PosixWorld \<Rightarrow> status \<times> byte list list" where
  "PosixEnv_GetChildren dir w =
     (case px_error w dir of Some e \<Rightarrow> (IOError dir e, [])
      | None \<Rightarrow>
          if dir \<notin> set (px_dirs w) then (IOError dir (px_enoent w), [])
          else
            (Status_OK, [bytes_of ''.'', bytes_of ''..''] @
              map (drop (length dir + 1))
                (filter (\<lambda>n. starts_with n (dir @ bytes_of ''/'') \<and> 47 \<notin> set (drop (length dir + 1) n))
                  (map fst (AList.clearjunk (px_files w)) @ px_dirs w))))"

definition PosixEnv_DeleteFile :: "byte list \<Rightarrow> PosixWorld \<Rightarrow> status \<times> PosixWorld" where
  "PosixEnv_DeleteFile fname w =
     (case posix_lookup fname w of Inl e \<Rightarrow> (IOError fname e, w)
      | Inr _ \<Rightarrow> (Status_OK, w\<lparr>px_files := AList.delete fname (px_files w)\<rparr>))"

definition PosixEnv_CreateDir :: "byte list \<Rightarrow> PosixWorld \<Rightarrow> status \<times> PosixWorld" where
  "PosixEnv_CreateDir name w =
     (case px_error w name of Some e \<Rightarrow> (IOError name e, w)
      | None \<Rightarrow>
          if PosixEnv_FileExists name w then (IOError name (px_eexist w), w)
          else (Status_OK, w\<lparr>px_dirs := px_dirs w @ [name]\<rparr>))"

definition PosixEnv_DeleteDir :: "byte list \<Rightarrow> PosixWorld \<Rightarrow> status \<times> PosixWorld" where
  "PosixEnv_DeleteDir name w =
     (case px_error w name of Some e \<Rightarrow> (IOError name e, w)
      | None \<Rightarrow>
          if name \<in> set (px_dirs w) then (Status_OK, w\<lparr>px_dirs := removeAll name (px_dirs w)\<rparr>)
          else (IOError name (px_enoent w), w))"

definition PosixEnv_GetFileSize :: "byte list \<Rightarrow> PosixWorld \<Rightarrow> status \<times> u64" where
  "PosixEnv_GetFileSize fname w =
     (case posix_lookup fname w of Inl e \<Rightarrow> (IOError fname e, 0) | Inr d \<Rightarrow> (Status_OK, of_nat (length d)))"

definition PosixEnv_RenameFile :: "byte list \<Rightarrow> byte list \<Rightarrow> PosixWorld \<Rightarrow> status \<times> PosixWorld" where
  "PosixEnv_RenameFile src target w =
     (case posix_lookup src w of Inl e \<Rightarrow> (IOError src e, w)
      | Inr d \<Rightarrow>
          (case px_error w target of Some e \<Rightarrow> (IOError src e, w)
           | None \<Rightarrow> (Status_OK, w\<lparr>px_files := AList.update target d (AList.delete src (px_files w))\<rparr>)))"

text \<open>The table of this process's locks comes first: \<open>fcntl\<close> does not see a lock of the same process.\<close>

definition PosixEnv_LockFile :: "byte list \<Rightarrow> PosixWorld \<Rightarrow> (status \<times> byte list option) \<times> PosixWorld" where
  "PosixEnv_LockFile fname w =
     (case px_error w fname of Some e \<Rightarrow> ((IOError fname e, None), w)
      | None \<Rightarrow>
          let w = (if map_of (px_files w) fname = None then w\<lparr>px_files := AList.update fname [] (px_files w)\<rparr> else w) in
          if fname \<in> px_locks w then ((IOError (bytes_of ''lock '' @ fname) (bytes_of ''already held by process''), None), w)
          else
            (case px_locked_elsewhere w fname of
               Some e \<Rightarrow> ((IOError (bytes_of ''lock '' @ fname) e, None), w)
             | None \<Rightarrow> ((Status_OK, Some fname), w\<lparr>px_locks := insert fname (px_locks w)\<rparr>)))"

definition PosixEnv_UnlockFile :: "byte list \<Rightarrow> PosixWorld \<Rightarrow> status \<times> PosixWorld" where
  "PosixEnv_UnlockFile lock w =
     (case px_error w lock of
        Some e \<Rightarrow> (IOError (bytes_of ''unlock'') e, w\<lparr>px_locks := px_locks w - {lock}\<rparr>)
      | None \<Rightarrow> (Status_OK, w\<lparr>px_locks := px_locks w - {lock}\<rparr>))"

definition PosixEnv :: "(PosixSequentialFile, PosixMmapReadableFile + PosixRandomAccessFile, PosixWritableFile, PosixWorld) Env" where
  "PosixEnv =
     \<lparr>env_in = posix_sequential_file, env_random = posix_random_file, env_out = posix_env_out,
      env_NewSequentialFile = PosixEnv_NewSequentialFile, env_NewRandomAccessFile = PosixEnv_NewRandomAccessFile,
      env_NewWritableFile = PosixEnv_NewWritableFile, env_NewAppendableFile = PosixEnv_NewAppendableFile,
      env_delete_file = (\<lambda>f w. w), env_FileExists = PosixEnv_FileExists, env_GetChildren = PosixEnv_GetChildren,
      env_DeleteFile = PosixEnv_DeleteFile, env_CreateDir = PosixEnv_CreateDir, env_DeleteDir = PosixEnv_DeleteDir,
      env_GetFileSize = PosixEnv_GetFileSize, env_RenameFile = PosixEnv_RenameFile, env_LockFile = PosixEnv_LockFile,
      env_UnlockFile = PosixEnv_UnlockFile\<rparr>"

end
