(* ===== verification/Ldb_Manifest.thy ===== *)
theory Ldb_Manifest
  imports Ldb_VersionSet Ldb_Env
begin

text \<open>
  The manifest, \<open>LogAndApply\<close>, \<open>WriteSnapshot\<close>, \<open>Recover\<close> and \<open>ReuseManifest\<close> of \<open>db/version_set.cc\<close>: the log of
  version edits that CURRENT names. They work on the version set and on the world of the environment; the log
  writer holds \<open>descriptor_file_\<close>. Nothing stands for a failed assertion.
\<close>

section \<open>Writing records\<close>

text \<open>The writer of the log with the world its file writes to, and without it.\<close>

definition enter_world :: "'w \<Rightarrow> 'f Writer \<Rightarrow> ('f \<times> 'w) Writer" where
  "enter_world w wr = \<lparr>dest = (dest wr, w), block_offset = block_offset wr, type_crc = type_crc wr\<rparr>"

definition leave_world :: "('f \<times> 'w) Writer \<Rightarrow> 'f Writer \<times> 'w" where
  "leave_world wr = (\<lparr>dest = fst (dest wr), block_offset = block_offset wr, type_crc = type_crc wr\<rparr>, snd (dest wr))"

definition env_AddRecord ::
  "machine \<Rightarrow> ('s, 'r, 'f, 'w) Env \<Rightarrow> slice \<Rightarrow> 'f Writer \<Rightarrow> 'w \<Rightarrow> (status \<times> 'f Writer \<times> 'w) option" where
  "env_AddRecord M E record wr w =
     map_option (\<lambda>(s, wr). (s, leave_world wr)) (AddRecord M (env_out E) record (enter_world w wr))"

definition env_Sync :: "('s, 'r, 'f, 'w) Env \<Rightarrow> 'f Writer \<Rightarrow> 'w \<Rightarrow> status \<times> 'f Writer \<times> 'w" where
  "env_Sync E wr w = (case wf_Sync (env_out E) (dest wr, w) of (s, f, w) \<Rightarrow> (s, wr\<lparr>dest := f\<rparr>, w))"

text \<open>A pointer that is not empty is the encoding of a key.\<close>

definition snapshot_pointers :: "'f VersionSet \<Rightarrow> VersionEdit \<Rightarrow> VersionEdit" where
  "snapshot_pointers vs edit =
     fold (\<lambda>level edit. if vs_compact_pointer vs level = [] then edit else SetCompactPointer level (vs_compact_pointer vs level) edit)
       [0..<kNumLevels] edit"

definition snapshot_files :: "files \<Rightarrow> Version \<Rightarrow> VersionEdit \<Rightarrow> VersionEdit" where
  "snapshot_files h v edit =
     fold (\<lambda>level edit.
         fold (\<lambda>f. AddFile level (f_number (h f)) (f_file_size (h f)) (f_smallest (h f)) (f_largest (h f))) (v_files v level) edit)
       [0..<kNumLevels] edit"

definition snapshot_edit :: "'f VersionSet \<Rightarrow> VersionEdit option" where
  "snapshot_edit vs =
     map_option (\<lambda>v. snapshot_files (vs_files vs) v (snapshot_pointers vs (SetComparatorName (Name (vs_user vs)) VersionEdit_new)))
       (current_version vs)"

definition WriteSnapshot ::
  "machine \<Rightarrow> ('s, 'r, 'f, 'w) Env \<Rightarrow> 'f VersionSet \<Rightarrow> 'f Writer \<Rightarrow> 'w \<Rightarrow> (status \<times> 'f Writer \<times> 'w) option" where
  "WriteSnapshot M E vs wr w =
     Option.bind (snapshot_edit vs) (\<lambda>edit.
     Option.bind (VersionEdit_EncodeTo edit []) (\<lambda>record. env_AddRecord M E record wr w))"

section \<open>Logging and applying an edit\<close>

definition edit_to_log :: "VersionEdit \<Rightarrow> 'f VersionSet \<Rightarrow> VersionEdit option" where
  "edit_to_log edit vs =
     map_option (\<lambda>edit.
       let edit = (if has_prev_log_number edit then edit else SetPrevLogNumber (vs_prev_log_number vs) edit) in
       SetLastSequence (vs_last_sequence vs) (SetNextFile (vs_next_file_number vs) edit))
     (if has_log_number edit then
        (if vs_log_number vs \<le> e_log_number edit \<and> e_log_number edit < vs_next_file_number vs then Some edit else None)
      else Some (SetLogNumber (vs_log_number vs) edit))"

definition build_version :: "VersionEdit \<Rightarrow> 'f VersionSet \<Rightarrow> (Version \<times> 'f VersionSet) option" where
  "build_version edit vs =
     Option.bind (vs_current vs) (\<lambda>i.
     Option.bind (Builder_new i vs) (\<lambda>(b, vs).
     Option.bind (Builder_Apply edit (vs, b)) (\<lambda>(vs, b).
     Option.bind (Builder_SaveTo b Version_new vs) (\<lambda>(v, vs).
     map_option (\<lambda>vs. (Finalize (vs_options vs) (vs_files vs) v, vs)) (Builder_delete b vs)))))"

text \<open>The name of the new manifest, empty when one is open.\<close>

definition open_manifest ::
  "machine \<Rightarrow> ('s, 'r, 'f, 'w) Env \<Rightarrow> 'f VersionSet \<Rightarrow> 'w \<Rightarrow> (status \<times> byte list \<times> 'f VersionSet \<times> 'w) option" where
  "open_manifest M E vs w =
     (case vs_descriptor_log vs of
        Some _ \<Rightarrow> Some (Status_OK, [], vs, w)
      | None \<Rightarrow>
          Option.bind (DescriptorFileName (vs_dbname vs) (vs_manifest_file_number vs)) (\<lambda>name.
            case env_NewWritableFile E name w of ((s, file), w) \<Rightarrow>
              if \<not> status_ok s then Some (s, name, vs, w)
              else
                Option.bind file (\<lambda>f.
                Option.bind (Writer_new M f 0) (\<lambda>wr.
                map_option (\<lambda>(s, wr, w). (s, name, vs\<lparr>vs_descriptor_log := Some wr\<rparr>, w)) (WriteSnapshot M E vs wr w)))))"

definition log_edit ::
  "machine \<Rightarrow> ('s, 'r, 'f, 'w) Env \<Rightarrow> VersionEdit \<Rightarrow> 'f VersionSet \<Rightarrow> 'w \<Rightarrow> (status \<times> 'f VersionSet \<times> 'w) option" where
  "log_edit M E edit vs w =
     Option.bind (vs_descriptor_log vs) (\<lambda>wr.
     Option.bind (VersionEdit_EncodeTo edit []) (\<lambda>record.
     map_option (\<lambda>(s, wr, w).
       let (s, wr, w) = (if status_ok s then env_Sync E wr w else (s, wr, w)) in (s, vs\<lparr>vs_descriptor_log := Some wr\<rparr>, w))
       (env_AddRecord M E record wr w)))"

definition drop_manifest :: "('s, 'r, 'f, 'w) Env \<Rightarrow> byte list \<Rightarrow> 'f VersionSet \<Rightarrow> 'w \<Rightarrow> 'f VersionSet \<times> 'w" where
  "drop_manifest E name vs w =
     (let w = (case vs_descriptor_log vs of None \<Rightarrow> w | Some wr \<Rightarrow> env_delete_file E (dest wr) w) in
      (vs\<lparr>vs_descriptor_log := None\<rparr>, snd (env_DeleteFile E name w)))"

definition LogAndApply ::
  "machine \<Rightarrow> ('s, 'r, 'f, 'w) Env \<Rightarrow> VersionEdit \<Rightarrow> 'f VersionSet \<Rightarrow> 'w \<Rightarrow> (status \<times> 'f VersionSet \<times> 'w) option" where
  "LogAndApply M E edit vs w =
     Option.bind (edit_to_log edit vs) (\<lambda>edit.
     Option.bind (build_version edit vs) (\<lambda>(v, vs).
     Option.bind (open_manifest M E vs w) (\<lambda>(s, new_manifest, vs, w).
     Option.bind (if status_ok s then log_edit M E edit vs w else Some (s, vs, w)) (\<lambda>(s, vs, w).
     Option.bind
       (if status_ok s \<and> new_manifest \<noteq> [] then SetCurrentFile E (vs_dbname vs) (vs_manifest_file_number vs) w else Some (s, w)) (\<lambda>(s, w).
       if status_ok s then
         map_option (\<lambda>vs. (s, vs\<lparr>vs_log_number := e_log_number edit, vs_prev_log_number := e_prev_log_number edit\<rparr>, w))
           (AppendVersion v vs)
       else
         map_option (\<lambda>vs. (s, if new_manifest \<noteq> [] then drop_manifest E new_manifest vs w else (vs, w))) (Version_delete v vs))))))"

text \<open>The destructor; a version in use beside the current one breaks the assertion that the list is empty.\<close>

definition VersionSet_delete :: "('s, 'r, 'f, 'w) Env \<Rightarrow> 'f VersionSet \<Rightarrow> 'w \<Rightarrow> 'w option" where
  "VersionSet_delete E vs w =
     Option.bind (vs_current vs) (\<lambda>c.
     Option.bind (Version_Unref c vs) (\<lambda>vs.
       if vs_versions vs = [] then Some (case vs_descriptor_log vs of None \<Rightarrow> w | Some wr \<Rightarrow> env_delete_file E (dest wr) w)
       else None))"

section \<open>Recovery\<close>

definition ReuseManifest ::
  "machine \<Rightarrow> ('s, 'r, 'f, 'w) Env \<Rightarrow> byte list \<Rightarrow> byte list \<Rightarrow> 'f VersionSet \<Rightarrow> 'w \<Rightarrow> (bool \<times> 'f VersionSet \<times> 'w) option" where
  "ReuseManifest M E dscname dscbase vs w =
     (if \<not> reuse_logs (vs_options vs) then Some (False, vs, w)
      else
        case ParseFileName dscbase of
          Some (manifest_number, kDescriptorFile) \<Rightarrow>
            (case env_GetFileSize E dscname w of (s, manifest_size) \<Rightarrow>
               if \<not> status_ok s \<or> scast (TargetFileSize (vs_options vs)) \<le> manifest_size then Some (False, vs, w)
               else if vs_descriptor_log vs \<noteq> None then None
               else
                 case env_NewAppendableFile E dscname w of ((r, file), w) \<Rightarrow>
                   if \<not> status_ok r then Some (False, vs, w)
                   else
                     Option.bind file (\<lambda>f.
                     map_option (\<lambda>wr. (True, vs\<lparr>vs_descriptor_log := Some wr, vs_manifest_file_number := manifest_number\<rparr>, w))
                       (Writer_new M f manifest_size)))
        | _ \<Rightarrow> Some (False, vs, w))"

text \<open>What \<open>Recover\<close> has found: the numbers with their \<open>have_\<close> flags.\<close>

record RecoverState =
  rec_status :: status
  rec_builder :: Builder
  rec_log_number :: "u64 option"
  rec_prev_log_number :: "u64 option"
  rec_next_file :: "u64 option"
  rec_last_sequence :: "u64 option"

definition found :: "bool \<Rightarrow> 'a \<Rightarrow> 'a option \<Rightarrow> 'a option" where
  "found has x old = (if has then Some x else old)"

definition recover_numbers :: "VersionEdit \<Rightarrow> RecoverState \<Rightarrow> RecoverState" where
  "recover_numbers edit st =
     st\<lparr>rec_log_number := found (has_log_number edit) (e_log_number edit) (rec_log_number st),
       rec_prev_log_number := found (has_prev_log_number edit) (e_prev_log_number edit) (rec_prev_log_number st),
       rec_next_file := found (has_next_file_number edit) (e_next_file_number edit) (rec_next_file st),
       rec_last_sequence := found (has_last_sequence edit) (e_last_sequence edit) (rec_last_sequence st)\<rparr>"

definition recover_edit :: "slice \<Rightarrow> 'f VersionSet \<times> RecoverState \<Rightarrow> ('f VersionSet \<times> RecoverState) option" where
  "recover_edit record vst =
     (case vst of (vs, st) \<Rightarrow>
      case VersionEdit_DecodeFrom record VersionEdit_new of (s, edit) \<Rightarrow>
        let s = (if status_ok s \<and> has_comparator edit \<and> e_comparator edit \<noteq> Name (vs_user vs)
                 then InvalidArgument (e_comparator edit @ bytes_of '' does not match existing comparator '') (Name (vs_user vs)) else s) in
        map_option (\<lambda>(vs, b). (vs, recover_numbers edit (st\<lparr>rec_status := s, rec_builder := b\<rparr>)))
          (if status_ok s then Builder_Apply edit (vs, rec_builder st) else Some (vs, rec_builder st)))"

text \<open>\<open>LogReporter\<close>: the first corruption that the reader reports becomes the status.\<close>

definition reported :: "'s Reader \<Rightarrow> 's Reader \<Rightarrow> status \<Rightarrow> status" where
  "reported r r' s =
     (case drop (length (the (reporter r))) (the (reporter r')) of
        [] \<Rightarrow> s
      | (n, corruption) # _ \<Rightarrow> if status_ok s then corruption else s)"

partial_function (option) recover_records ::
  "machine \<Rightarrow> 's SequentialFile \<Rightarrow> 's Reader \<Rightarrow> 'f VersionSet \<times> RecoverState \<Rightarrow> ('f VersionSet \<times> RecoverState) option" where
  "recover_records M F r vst =
     (case ReadRecord M F r of
        None \<Rightarrow> None
      | Some (record, r') \<Rightarrow>
          let vst = (fst vst, (snd vst)\<lparr>rec_status := reported r r' (rec_status (snd vst))\<rparr>) in
          (case record of
             None \<Rightarrow> Some vst
           | Some bytes \<Rightarrow>
               if \<not> status_ok (rec_status (snd vst)) then Some vst
               else Option.bind (recover_edit bytes vst) (recover_records M F r')))"

definition check_numbers :: "RecoverState \<Rightarrow> status" where
  "check_numbers st =
     (if rec_next_file st = None then Corruption (bytes_of ''no meta-nextfile entry in descriptor'') []
      else if rec_log_number st = None then Corruption (bytes_of ''no meta-lognumber entry in descriptor'') []
      else if rec_last_sequence st = None then Corruption (bytes_of ''no last-sequence-number entry in descriptor'') []
      else Status_OK)"

definition or_zero :: "u64 option \<Rightarrow> u64" where
  "or_zero x = (case x of Some n \<Rightarrow> n | None \<Rightarrow> 0)"

text \<open>The version that was recovered, and the flag \<open>save_manifest\<close> when it is set.\<close>

definition install_recovered ::
  "machine \<Rightarrow> ('s, 'r, 'f, 'w) Env \<Rightarrow> byte list \<Rightarrow> byte list \<Rightarrow> RecoverState \<Rightarrow> 'f VersionSet \<Rightarrow> 'w \<Rightarrow> (bool \<times> 'f VersionSet \<times> 'w) option" where
  "install_recovered M E dscname current st vs w =
     Option.bind (Builder_SaveTo (rec_builder st) Version_new vs) (\<lambda>(v, vs).
     Option.bind (AppendVersion (Finalize (vs_options vs) (vs_files vs) v) vs) (\<lambda>vs.
     map_option (\<lambda>(reused, vs, w). (\<not> reused, vs, w))
       (ReuseManifest M E dscname current
         (vs\<lparr>vs_manifest_file_number := or_zero (rec_next_file st), vs_next_file_number := or_zero (rec_next_file st) + 1,
           vs_last_sequence := or_zero (rec_last_sequence st), vs_log_number := or_zero (rec_log_number st),
           vs_prev_log_number := or_zero (rec_prev_log_number st)\<rparr>) w)))"

definition recover_manifest ::
  "machine \<Rightarrow> ('s, 'r, 'f, 'w) Env \<Rightarrow> byte list \<Rightarrow> byte list \<Rightarrow> 's \<Rightarrow> 'f VersionSet \<Rightarrow> 'w \<Rightarrow> (status \<times> bool \<times> 'f VersionSet \<times> 'w) option" where
  "recover_manifest M E dscname current file vs w =
     Option.bind (vs_current vs) (\<lambda>i.
     Option.bind (Builder_new i vs) (\<lambda>(b, vs).
     Option.bind
       (recover_records M (env_in E) (Reader_new file True True 0)
         (vs, \<lparr>rec_status = Status_OK, rec_builder = b, rec_log_number = None, rec_prev_log_number = None, rec_next_file = None,
            rec_last_sequence = None\<rparr>)) (\<lambda>(vs, st).
     let (s, vs) =
       (if status_ok (rec_status st)
        then (check_numbers st, MarkFileNumberUsed (or_zero (rec_log_number st)) (MarkFileNumberUsed (or_zero (rec_prev_log_number st)) vs))
        else (rec_status st, vs)) in
     Option.bind (if status_ok s then install_recovered M E dscname current st vs w else Some (False, vs, w)) (\<lambda>(save_manifest, vs, w).
     map_option (\<lambda>vs. (s, save_manifest, vs, w)) (Builder_delete (rec_builder st) vs)))))"

definition Recover ::
  "machine \<Rightarrow> ('s, 'r, 'f, 'w) Env \<Rightarrow> 'f VersionSet \<Rightarrow> 'w \<Rightarrow> (status \<times> bool \<times> 'f VersionSet \<times> 'w) option" where
  "Recover M E vs w =
     Option.bind (ReadFileToString E (CurrentFileName (vs_dbname vs)) w) (\<lambda>(s, current).
       if \<not> status_ok s then Some (s, False, vs, w)
       else if current = [] \<or> last current \<noteq> 10
       then Some (Corruption (bytes_of ''CURRENT file does not end with newline'') [], False, vs, w)
       else
         let current = butlast current; dscname = vs_dbname vs @ bytes_of ''/'' @ current in
         (case env_NewSequentialFile E dscname w of (s, file) \<Rightarrow>
            if \<not> status_ok s then Some (s, False, vs, w)
            else Option.bind file (\<lambda>f. recover_manifest M E dscname current f vs w)))"

end
