(* ===== verification/Ldb_Env_Spec.thy ===== *)
theory Ldb_Env_Spec
  imports Ldb_Env Ldb_Log_Props
begin

text \<open>
  What an environment promises while no operation fails: \<open>durable_env\<close>. \<open>contents\<close> are the files of the world,
  \<open>on\<close> names the file that an object writes, and \<open>room\<close> says how many bytes can still be written.
\<close>

text \<open>The name of a manifest without its directory, and with it.\<close>

definition manifest_base :: "u64 \<Rightarrow> byte list" where
  "manifest_base number = bytes_of ''MANIFEST-'' @ decimal_6 (unat number)"

definition manifest_name :: "byte list \<Rightarrow> u64 \<Rightarrow> byte list" where
  "manifest_name dbname number = dbname @ bytes_of ''/'' @ manifest_base number"

lemma DescriptorFileName_base: "0 < number \<Longrightarrow> DescriptorFileName dbname number = Some (manifest_name dbname number)"
  by (simp add: DescriptorFileName_def manifest_base_def manifest_name_def)

text \<open>The files of a database have different names.\<close>

lemma manifest_name_distinct:
  "manifest_name dbname n \<noteq> CurrentFileName dbname" "TempFileName dbname n = Some tmp \<Longrightarrow> manifest_name dbname n \<noteq> tmp"
proof -
  show "manifest_name dbname n \<noteq> CurrentFileName dbname" by (simp add: manifest_name_def manifest_base_def CurrentFileName_def)
  assume "TempFileName dbname n = Some tmp"
  then have tmp: "tmp = dbname @ 47 # decimal_6 (unat n) @ 46 # bytes_of ''dbtmp''" by (simp add: TempFileName_def MakeFileName_def split: if_splits)
  obtain d ds where d: "decimal_6 (unat n) = d # ds" using decimal_6_digits(2) by (cases "decimal_6 (unat n)") auto
  then have "is_digit d" using decimal_6_digits(1) [of "unat n"] by simp
  then have "d \<noteq> 77" by (auto simp: is_digit_def)
  then show "manifest_name dbname n \<noteq> tmp" by (simp add: tmp d manifest_name_def manifest_base_def)
qed

locale durable_env = sequential_file "env_in E" good unread
  for E :: "('s, 'r, 'f, 'w) Env" and good :: "'s \<Rightarrow> bool" and unread :: "'s \<Rightarrow> byte list" +
  fixes contents :: "'w \<Rightarrow> byte list \<Rightarrow> byte list option" and room :: "'w \<Rightarrow> nat \<Rightarrow> bool" and on :: "'f \<Rightarrow> byte list"
  assumes NewSequentialFile: "room w n \<Longrightarrow> contents w name = Some d \<Longrightarrow>
      \<exists>f. env_NewSequentialFile E name w = (Status_OK, Some f) \<and> good f \<and> unread f = d"
    and NewWritableFile: "room w n \<Longrightarrow> \<exists>f w'. env_NewWritableFile E name w = ((Status_OK, Some f), w') \<and>
      on f = name \<and> contents w' = (contents w)(name \<mapsto> []) \<and> room w' n"
    and NewAppendableFile: "room w n \<Longrightarrow> contents w name = Some d \<Longrightarrow>
      \<exists>f w'. env_NewAppendableFile E name w = ((Status_OK, Some f), w') \<and> on f = name \<and> contents w' = contents w \<and> room w' n"
    and GetFileSize: "room w n \<Longrightarrow> contents w name = Some d \<Longrightarrow> env_GetFileSize E name w = (Status_OK, of_nat (length d))"
    and Append: "room w (length d + n) \<Longrightarrow> contents w (on f) = Some c \<Longrightarrow> \<exists>f' w'. wf_Append (env_out E) d (f, w) = (Status_OK, f', w') \<and>
      on f' = on f \<and> contents w' = (contents w)(on f \<mapsto> c @ d) \<and> room w' n"
    and Flush: "room w n \<Longrightarrow> contents w (on f) = Some c \<Longrightarrow> \<exists>f' w'. wf_Flush (env_out E) (f, w) = (Status_OK, f', w') \<and>
      on f' = on f \<and> contents w' = contents w \<and> room w' n"
    and Sync: "room w n \<Longrightarrow> contents w (on f) = Some c \<Longrightarrow> \<exists>f' w'. wf_Sync (env_out E) (f, w) = (Status_OK, f', w') \<and>
      on f' = on f \<and> contents w' = contents w \<and> room w' n"
    and Close: "room w n \<Longrightarrow> contents w (on f) = Some c \<Longrightarrow> \<exists>f' w'. wf_Close (env_out E) (f, w) = (Status_OK, f', w') \<and>
      on f' = on f \<and> contents w' = contents w \<and> room w' n"
    and delete_file: "room w n \<Longrightarrow> contents (env_delete_file E f w) = contents w \<and> room (env_delete_file E f w) n"
    and RenameFile: "room w n \<Longrightarrow> contents w src = Some d \<Longrightarrow> src \<noteq> target \<Longrightarrow> \<exists>w'. env_RenameFile E src target w = (Status_OK, w') \<and>
      contents w' = (contents w)(src := None, target \<mapsto> d) \<and> room w' n"
begin

text \<open>A file that is being written keeps the promise of \<open>writable_file\<close>, and leaves the others alone.\<close>

lemma writable: "writable_file (env_out E) (\<lambda>(f, w) n. room w n \<and> on f = name \<and> (\<exists>c. contents w = others(name \<mapsto> c)))
    (\<lambda>(f, w). the (contents w name))"
proof unfold_locales
  fix fw :: "'f \<times> 'w" and d :: slice and n
  obtain f w where fw: "fw = (f, w)" by (cases fw)
  assume "(case fw of (f, w) \<Rightarrow> \<lambda>n. room w n \<and> on f = name \<and> (\<exists>c. contents w = others(name \<mapsto> c))) (length d + n)"
  then obtain c where c: "room w (length d + n)" "on f = name" "contents w = others(name \<mapsto> c)" by (auto simp: fw)
  from Append [OF c(1), of f c] c(2,3) obtain f' w' where "wf_Append (env_out E) d (f, w) = (Status_OK, f', w')"
    "on f' = name" "contents w' = others(name \<mapsto> c @ d)" "room w' n" by auto
  with c show "\<exists>f'. wf_Append (env_out E) d fw = (Status_OK, f') \<and>
      (case f' of (f, w) \<Rightarrow> \<lambda>n. room w n \<and> on f = name \<and> (\<exists>c. contents w = others(name \<mapsto> c))) n \<and>
      (case f' of (f, w) \<Rightarrow> the (contents w name)) = (case fw of (f, w) \<Rightarrow> the (contents w name)) @ d"
    by (auto simp: fw intro!: exI [of _ f'] exI [of _ w'])
next
  fix fw :: "'f \<times> 'w" and n
  obtain f w where fw: "fw = (f, w)" by (cases fw)
  assume "(case fw of (f, w) \<Rightarrow> \<lambda>n. room w n \<and> on f = name \<and> (\<exists>c. contents w = others(name \<mapsto> c))) n"
  then obtain c where c: "room w n" "on f = name" "contents w = others(name \<mapsto> c)" by (auto simp: fw)
  from Flush [OF c(1), of f c] c(2,3) obtain f' w' where "wf_Flush (env_out E) (f, w) = (Status_OK, f', w')"
    "on f' = name" "contents w' = others(name \<mapsto> c)" "room w' n" by auto
  with c show "\<exists>f'. wf_Flush (env_out E) fw = (Status_OK, f') \<and>
      (case f' of (f, w) \<Rightarrow> \<lambda>n. room w n \<and> on f = name \<and> (\<exists>c. contents w = others(name \<mapsto> c))) n \<and>
      (case f' of (f, w) \<Rightarrow> the (contents w name)) = (case fw of (f, w) \<Rightarrow> the (contents w name))"
    by (auto simp: fw intro!: exI [of _ f'] exI [of _ w'])
qed

lemma DoWriteStringToFile_ok:
  assumes "room w (length data + n)"
  shows "\<exists>w'. DoWriteStringToFile E data fname should_sync w = Some (Status_OK, w') \<and> contents w' = (contents w)(fname \<mapsto> data) \<and> room w' n"
proof -
  from NewWritableFile [OF assms] obtain f w1 where 1: "env_NewWritableFile E fname w = ((Status_OK, Some f), w1)" "on f = fname"
    "contents w1 = (contents w)(fname \<mapsto> [])" "room w1 (length data + n)" by blast
  from Append [OF 1(4), of f "[]"] 1(2,3) obtain f2 w2 where 2: "wf_Append (env_out E) data (f, w1) = (Status_OK, f2, w2)" "on f2 = fname"
    "contents w2 = (contents w)(fname \<mapsto> data)" "room w2 n" by auto
  obtain f3 w3 where 3: "(if should_sync then then_ok (wf_Sync (env_out E)) (Status_OK, f2, w2) else (Status_OK, f2, w2)) = (Status_OK, f3, w3)"
    "on f3 = fname" "contents w3 = (contents w)(fname \<mapsto> data)" "room w3 n"
    using Sync [OF 2(4), of f2 data] 2 by (cases should_sync) (auto simp: then_ok_def)
  from Close [OF 3(4), of f3 data] 3(2,3) obtain f4 w4 where 4: "wf_Close (env_out E) (f3, w3) = (Status_OK, f4, w4)"
    "contents w4 = (contents w)(fname \<mapsto> data)" "room w4 n" by auto
  have "DoWriteStringToFile E data fname should_sync w = Some (Status_OK, env_delete_file E f4 w4)"
    using 3(1) 1(1) 2(1) 4(1) unfolding DoWriteStringToFile_def by (cases should_sync) (simp_all add: then_ok_def)
  with delete_file [OF 4(3), of f4] 4(2) show ?thesis by simp
qed

lemma read_to_string_all: "good f \<Longrightarrow> read_to_string (env_in E) data f = Some (Status_OK, data @ unread f)"
proof (induction "length (unread f)" arbitrary: data f rule: less_induct)
  case less
  from Read [OF less.prems, of 8192] obtain f' where f': "sf_Read (env_in E) 8192 f = ((Status_OK, take 8192 (unread f)), f')"
    "good f'" "unread f' = drop 8192 (unread f)" by blast
  show ?case
  proof (cases "unread f = []")
    case True
    with f'(1) show ?thesis by (subst read_to_string.simps) simp
  next
    case False
    then have "length (unread f') < length (unread f)" using f'(3) by simp
    from less.hyps [OF this f'(2)] f'(1,3) False show ?thesis by (subst read_to_string.simps) simp
  qed
qed

lemma ReadFileToString_all:
  assumes "room w n" and "contents w fname = Some d"
  shows "ReadFileToString E fname w = Some (Status_OK, d)"
  using NewSequentialFile [OF assms] read_to_string_all by (auto simp: ReadFileToString_def)

text \<open>CURRENT then names the manifest.\<close>

lemma SetCurrentFile_ok:
  assumes "0 < number" and "room w (length (manifest_base number) + 1 + n)"
  shows "\<exists>w' tmp. SetCurrentFile E dbname number w = Some (Status_OK, w') \<and> TempFileName dbname number = Some tmp \<and>
    contents w' = (contents w)(tmp := None, CurrentFileName dbname \<mapsto> manifest_base number @ [10]) \<and> room w' n"
proof -
  let ?tmp = "MakeFileName dbname number (bytes_of ''dbtmp'')" and ?d = "manifest_base number @ [10]"
  have tmp: "TempFileName dbname number = Some ?tmp" using assms(1) by (simp add: TempFileName_def)
  have "rev ?tmp ! 0 \<noteq> rev (CurrentFileName dbname) ! 0" by (simp add: MakeFileName_def CurrentFileName_def)
  then have ne: "?tmp \<noteq> CurrentFileName dbname" by auto
  from DoWriteStringToFile_ok [of w ?d n ?tmp True] assms(2) obtain w1 where
    1: "DoWriteStringToFile E ?d ?tmp True w = Some (Status_OK, w1)" "contents w1 = (contents w)(?tmp \<mapsto> ?d)" "room w1 n" by auto
  from RenameFile [OF 1(3), of ?tmp ?d "CurrentFileName dbname"] 1(2) ne obtain w2 where
    2: "env_RenameFile E ?tmp (CurrentFileName dbname) w1 = (Status_OK, w2)"
      "contents w2 = (contents w)(?tmp := None, CurrentFileName dbname \<mapsto> ?d)" "room w2 n" by (auto simp: fun_upd_twist)
  have "SetCurrentFile E dbname number w = Some (Status_OK, w2)"
    using 1(1) 2(1) tmp DescriptorFileName_base [OF assms(1), of dbname]
    by (simp add: SetCurrentFile_def WriteStringToFileSync_def starts_with_prefix manifest_name_def Let_def)
  with 2 tmp show ?thesis by auto
qed

end

section \<open>The POSIX environment keeps the promises\<close>

text \<open>No operation fails, the disk has room, and the files stay below \<open>2 ^ 63\<close> bytes.\<close>

definition posix_room :: "PosixWorld \<Rightarrow> nat \<Rightarrow> bool" where
  "posix_room w n \<longleftrightarrow> px_error w = (\<lambda>_. None) \<and> px_flush_ok w \<and> px_dir_sync w = (\<lambda>_. None) \<and> n \<le> px_space w \<and> px_space w < 2 ^ 63 \<and>
     (\<forall>name d. map_of (px_files w) name = Some d \<longrightarrow> length d + px_space w < 2 ^ 63)"

lemma posix_room_update:
  assumes "posix_room w n" and "map_of (px_files w') = (map_of (px_files w))(name := x)"
    and "\<And>d. x = Some d \<Longrightarrow> length d + px_space w' < 2 ^ 63" and "px_space w' \<le> px_space w" and "m \<le> px_space w'"
    and "px_error w' = px_error w" "px_flush_ok w' = px_flush_ok w" "px_dir_sync w' = px_dir_sync w"
  shows "posix_room w' m"
  using assms unfolding posix_room_def by (fastforce split: if_splits)

lemmas posix_env_defs = PosixEnv_def PosixEnv_NewSequentialFile_def PosixEnv_NewWritableFile_def PosixEnv_NewAppendableFile_def PosixEnv_GetFileSize_def
  PosixEnv_RenameFile_def posix_env_out_def
  posix_out_def posix_append_def posix_open_out_def posix_lookup_def posix_writable_def

lemma posix_Append_room:
  assumes w: "posix_room w (length d + n)" and c: "map_of (px_files w) (pw_filename f) = Some c"
  shows "\<exists>f' w'. wf_Append (env_out PosixEnv) d (f, w) = (Status_OK, f', w') \<and> pw_filename f' = pw_filename f \<and>
    map_of (px_files w') = (map_of (px_files w))(pw_filename f \<mapsto> c @ d) \<and> posix_room w' n"
proof -
  let ?w = "w\<lparr>px_space := px_space w - length d, px_files := AList.update (pw_filename f) (c @ d) (px_files w)\<rparr>"
  have le: "length d + n \<le> px_space w" "length c + px_space w < 2 ^ 63" using w c by (auto simp: posix_room_def)
  have fs: "map_of (px_files ?w) = (map_of (px_files w))(pw_filename f \<mapsto> c @ d)" by (simp add: update_conv')
  have "posix_room ?w n"
    by (rule posix_room_update [OF w fs]) (use le in auto)
  with fs c le show ?thesis
    by (auto simp: posix_env_defs PosixWritableFile_Append_def fwrite_def Let_def min_def)
qed

lemma posix_same_room:
  assumes w: "posix_room w n" and c: "map_of (px_files w) name = Some c"
  shows "posix_append name [] (w\<lparr>px_space := px_space w\<rparr>) = w\<lparr>px_files := AList.update name c (px_files w)\<rparr>"
    and "map_of (AList.update name c (px_files w)) = map_of (px_files w)"
    and "posix_room (w\<lparr>px_files := AList.update name c (px_files w)\<rparr>) n"
  using w c by (auto simp: posix_append_def update_conv' fun_upd_idem posix_room_def)

interpretation posix_durable: durable_env PosixEnv posix_good posix_unread "\<lambda>w. map_of (px_files w)" posix_room pw_filename
proof (unfold_locales, goal_cases)
  case (1 f n)
  then show ?case using posix_Read by (simp add: PosixEnv_def posix_sequential_file_def)
next
  case (2 f m)
  then show ?case using posix_Skip by (simp add: PosixEnv_def posix_sequential_file_def)
next
  case (3 w n name d)
  then have "length d + px_space w < 2 ^ 63" unfolding posix_room_def by blast
  then have "length d < 2 ^ 63" by simp
  with 3 show ?case by (auto simp: posix_env_defs posix_room_def posix_good_def posix_unread_def)
next
  case (4 w n name)
  then have "posix_room (w\<lparr>px_files := AList.update name [] (px_files w)\<rparr>) n"
    by (intro posix_room_update [OF 4, where x = "Some []"]) (auto simp: posix_room_def update_conv')
  with 4 show ?case by (auto simp: posix_env_defs posix_room_def update_conv' split: option.splits)
next
  case (5 w n name d)
  then have "posix_room (w\<lparr>px_files := AList.update name d (px_files w)\<rparr>) n"
    by (intro posix_room_update [OF 5(1), where x = "Some d"]) (auto simp: posix_room_def update_conv')
  with 5 show ?case by (auto simp: posix_env_defs posix_room_def update_conv' fun_upd_idem)
next
  case (6 w n name d)
  then show ?case by (auto simp: posix_env_defs posix_room_def)
next
  case (7 w d n f c)
  then show ?case by (rule posix_Append_room)
next
  case (8 w n f c)
  with posix_same_room [OF 8] show ?case
    by (auto simp: posix_env_defs PosixWritableFile_Flush_def posix_room_def)
next
  case (9 w n f c)
  with posix_same_room [OF 9] show ?case
    by (auto simp: posix_env_defs PosixWritableFile_Sync_def SyncDirIfManifest_def posix_room_def split: prod.splits)
next
  case (10 w n f c)
  with posix_same_room [OF 10] show ?case
    by (auto simp: posix_env_defs PosixWritableFile_Close_def posix_room_def)
next
  case (11 w n f)
  then show ?case by (simp add: PosixEnv_def)
next
  case (12 w n src d target)
  let ?w = "w\<lparr>px_files := AList.update target d (AList.delete src (px_files w))\<rparr>"
  have m: "map_of (px_files ?w) = (map_of (px_files w))(src := None, target \<mapsto> d)" by (simp add: update_conv' delete_conv')
  have "posix_room ?w n" using 12 m unfolding posix_room_def by (auto split: if_splits)
  with 12 m show ?case by (auto simp: posix_env_defs posix_room_def)
qed

end
