(* ===== verification/Ldb_Manifest_Spec.thy ===== *)
theory Ldb_Manifest_Spec
  imports Ldb_Manifest Ldb_VersionSet_Spec Ldb_Env_Spec
begin

text \<open>
  What the manifest promises: \<open>LogAndApply\<close> makes the version that the edit describes and leaves the edit in the
  manifest that CURRENT names, and \<open>Recover\<close> makes from a manifest the version that its whole edits describe.
\<close>

section \<open>What the builder leaves alone\<close>

definition frame :: "'f VersionSet \<Rightarrow> 'f VersionSet \<Rightarrow> bool" where
  "frame vs vs' \<longleftrightarrow> vs_dbname vs' = vs_dbname vs \<and> vs_options vs' = vs_options vs \<and> vs_user vs' = vs_user vs \<and>
     vs_next_file_number vs' = vs_next_file_number vs \<and> vs_manifest_file_number vs' = vs_manifest_file_number vs \<and>
     vs_last_sequence vs' = vs_last_sequence vs \<and> vs_log_number vs' = vs_log_number vs \<and>
     vs_prev_log_number vs' = vs_prev_log_number vs \<and> vs_descriptor_log vs' = vs_descriptor_log vs"

lemma frame_refl [simp]: "frame vs vs"
  by (simp add: frame_def)

lemma frame_trans: "frame x y \<Longrightarrow> frame y z \<Longrightarrow> frame x z"
  by (simp add: frame_def)

text \<open>The pointers after an edit, and the descriptions of the files in the store.\<close>

definition set_pointers :: "VersionEdit \<Rightarrow> (nat \<Rightarrow> slice) \<Rightarrow> nat \<Rightarrow> slice" where
  "set_pointers e p = fold (\<lambda>(level, k) p. p(level := k)) (compact_pointers e) p"

definition keeps_versions :: "'f VersionSet \<Rightarrow> 'f VersionSet \<Rightarrow> bool" where
  "keeps_versions vs vs' \<longleftrightarrow> frame vs vs' \<and> vs_versions vs' = vs_versions vs \<and> vs_next_version vs' = vs_next_version vs \<and>
     vs_current vs' = vs_current vs \<and> same_info {..<vs_next_file vs} (vs_files vs) (vs_files vs') \<and> vs_next_file vs \<le> vs_next_file vs'"

lemma keeps_versions_trans: "keeps_versions x y \<Longrightarrow> keeps_versions y z \<Longrightarrow> keeps_versions x z"
  by (auto simp: keeps_versions_def frame_def same_info_def)

lemma add_new_file_frame:
  "fold add_new_file fs (vs, b) = (vs', b') \<Longrightarrow> keeps_versions vs vs' \<and> vs_compact_pointer vs' = vs_compact_pointer vs \<and> b_base b' = b_base b"
proof (induction fs arbitrary: vs b)
  case (Cons x fs)
  obtain vs1 b1 where 1: "add_new_file x (vs, b) = (vs1, b1)" by fastforce
  then have "keeps_versions vs vs1 \<and> vs_compact_pointer vs1 = vs_compact_pointer vs \<and> b_base b1 = b_base b"
    by (auto simp: add_new_file_def keeps_versions_def frame_def same_info_def on_level_def Let_def split: prod.splits)
  with Cons.IH [of vs1 b1] Cons.prems 1 show ?case by (auto intro: keeps_versions_trans)
qed (simp add: keeps_versions_def same_info_def)

lemma pointers_set:
  "fold_option (\<lambda>(level, k) p. map_option (\<lambda>k. p(level := k)) (InternalKey_Encode k)) ps p = Some q \<Longrightarrow>
     q = fold (\<lambda>(level, k) p. p(level := k)) ps p"
  by (induction ps arbitrary: p) (auto simp: InternalKey_Encode_def bind_eq_Some_conv split: if_splits)

lemma delete_numbers_base: "b_base (fold delete_number ds b) = b_base b"
  by (induction ds arbitrary: b) (simp_all add: delete_number_def on_level_def)

lemma Builder_Apply_frame:
  assumes "Builder_Apply e (vs, b) = Some (vs', b')"
  shows "keeps_versions vs vs'" and "vs_compact_pointer vs' = set_pointers e (vs_compact_pointer vs)" and "b_base b' = b_base b"
proof -
  obtain q where q: "q = set_pointers e (vs_compact_pointer vs)"
    "fold add_new_file (new_files e) (vs\<lparr>vs_compact_pointer := q\<rparr>, fold delete_number (sorted_list_of_set (deleted_files e)) b) = (vs', b')"
    using assms by (auto simp: Builder_Apply_def set_pointers_def dest: pointers_set)
  from add_new_file_frame [OF q(2)] q(1) delete_numbers_base show "keeps_versions vs vs'" "vs_compact_pointer vs' = set_pointers e (vs_compact_pointer vs)"
    "b_base b' = b_base b" by (simp_all add: keeps_versions_def frame_def)
qed

lemma change_refs_info [simp]: "info (change_refs n f h g) = info (h g)"
  by (simp add: change_refs_def info_def)

lemma same_info_trans: "same_info UNIV h h1 \<Longrightarrow> same_info UNIV h1 h2 \<Longrightarrow> same_info UNIV h h2"
  by (simp add: same_info_def)

lemma drop_files_info: "same_info UNIV h (drop_files fs h)"
  unfolding drop_files_def by (induction fs arbitrary: h) (simp_all add: same_info_def)

lemma MaybeAddFile_info: "fold_option (MaybeAddFile C deleted level) xs (h, acc) = Some (h', acc') \<Longrightarrow> same_info UNIV h h'"
proof (induction xs arbitrary: h acc)
  case (Cons x xs)
  obtain h1 acc1 where 1: "MaybeAddFile C deleted level x (h, acc) = Some (h1, acc1)"
    "fold_option (MaybeAddFile C deleted level) xs (h1, acc1) = Some (h', acc')"
    using Cons.prems by (auto simp: bind_eq_Some_conv)
  from 1(1) have "same_info UNIV h h1" by (auto simp: MaybeAddFile_def same_info_def split: if_splits)
  from same_info_trans [OF this Cons.IH [OF 1(2)]] show ?case .
qed (simp add: same_info_def)

lemma save_levels_frame:
  "fold_option (save_level C b v0) levels (h, v) = Some (h', v') \<Longrightarrow> same_info UNIV h h' \<and> v_refs v' = v_refs v"
proof (induction levels arbitrary: h v)
  case (Cons x xs)
  obtain h1 v1 where 1: "save_level C b v0 x (h, v) = Some (h1, v1)" "fold_option (save_level C b v0) xs (h1, v1) = Some (h', v')"
    using Cons.prems by (auto simp: bind_eq_Some_conv)
  from 1(1) have "same_info UNIV h h1 \<and> v_refs v1 = v_refs v" by (auto simp: save_level_def dest: MaybeAddFile_info)
  with Cons.IH [OF 1(2)] show ?case by (auto intro: same_info_trans)
qed (simp add: same_info_def)

lemma Builder_SaveTo_frame:
  assumes "Builder_SaveTo b v vs = Some (v', vs')"
  shows "keeps_versions vs vs'" and "vs_compact_pointer vs' = vs_compact_pointer vs" and "v_refs v' = v_refs v"
    and "same_info UNIV (vs_files vs) (vs_files vs')" and "vs_next_file vs' = vs_next_file vs"
  using assms save_levels_frame
  by (auto simp: Builder_SaveTo_def bind_eq_Some_conv keeps_versions_def frame_def same_info_def)


section \<open>The list of versions\<close>

text \<open>The current version is in the list, and the numbers of the list were given out.\<close>

definition current_is :: "nat \<Rightarrow> Version \<Rightarrow> 'f VersionSet \<Rightarrow> bool" where
  "current_is i v vs \<longleftrightarrow> vs_current vs = Some i \<and> version_of i vs = Some v \<and> 1 \<le> v_refs v \<and>
     dom (map_of (vs_versions vs)) \<subseteq> {..<vs_next_version vs}"

lemma current_is_kept: "current_is i v vs \<Longrightarrow> keeps_versions vs vs' \<Longrightarrow> current_is i v vs'"
  by (simp add: current_is_def keeps_versions_def version_of_def)

lemma Version_Ref_current:
  assumes "current_is i v vs"
  shows "\<exists>vs'. Version_Ref i vs = Some vs' \<and> current_is i (v\<lparr>v_refs := v_refs v + 1\<rparr>) vs' \<and> frame vs vs' \<and>
    vs_files vs' = vs_files vs \<and> vs_next_file vs' = vs_next_file vs \<and> vs_compact_pointer vs' = vs_compact_pointer vs"
  using assms by (auto simp: current_is_def Version_Ref_def version_of_def frame_def update_conv')

text \<open>Giving up a reference that is not the last.\<close>

lemma Version_Unref_kept:
  assumes "current_is i v vs" and "2 \<le> v_refs v"
  shows "\<exists>vs'. Version_Unref i vs = Some vs' \<and> current_is i (v\<lparr>v_refs := v_refs v - 1\<rparr>) vs' \<and> frame vs vs' \<and>
    vs_files vs' = vs_files vs \<and> vs_next_file vs' = vs_next_file vs \<and> vs_compact_pointer vs' = vs_compact_pointer vs"
  using assms by (auto simp: current_is_def Version_Unref_def version_of_def frame_def update_conv' Let_def)

lemma Version_Unref_ok:
  assumes "version_of i vs = Some v" and "1 \<le> v_refs v"
  shows "\<exists>vs'. Version_Unref i vs = Some vs' \<and> frame vs vs' \<and> same_info UNIV (vs_files vs) (vs_files vs') \<and>
    vs_next_file vs' = vs_next_file vs \<and> vs_compact_pointer vs' = vs_compact_pointer vs \<and> vs_next_version vs' = vs_next_version vs \<and>
    vs_current vs' = vs_current vs \<and> dom (map_of (vs_versions vs')) \<subseteq> dom (map_of (vs_versions vs)) \<and>
    (\<forall>j. j \<noteq> i \<longrightarrow> version_of j vs' = version_of j vs) \<and> (2 \<le> v_refs v \<longrightarrow> version_of i vs' = Some (v\<lparr>v_refs := v_refs v - 1\<rparr>))"
proof (cases "v_refs v = 1")
  case True
  with assms drop_files_info [of "vs_files vs"] show ?thesis
    by (auto simp: Version_Unref_def Version_delete_def version_of_def frame_def delete_conv' Let_def)
next
  case False
  with assms show ?thesis
    by (auto simp: Version_Unref_def version_of_def frame_def update_conv' same_info_def Let_def)
qed

lemma AppendVersion_ok:
  assumes "current_is i v0 vs" and "v_refs v = 0"
  shows "\<exists>vs'. AppendVersion v vs = Some vs' \<and> current_is (vs_next_version vs) (v\<lparr>v_refs := 1\<rparr>) vs' \<and> frame vs vs' \<and>
    same_info UNIV (vs_files vs) (vs_files vs') \<and> vs_next_file vs' = vs_next_file vs \<and> vs_compact_pointer vs' = vs_compact_pointer vs \<and>
    (2 \<le> v_refs v0 \<longrightarrow> version_of i vs' = Some (v0\<lparr>v_refs := v_refs v0 - 1\<rparr>))"
proof -
  from assms(1) have i: "version_of i vs = Some v0" "1 \<le> v_refs v0" "vs_current vs = Some i" "i < vs_next_version vs"
    and dom: "dom (map_of (vs_versions vs)) \<subseteq> {..<vs_next_version vs}"
    by (auto simp: current_is_def version_of_def)
  from Version_Unref_ok [OF i(1,2)] obtain vs1 where
    1: "Version_Unref i vs = Some vs1" "frame vs vs1" "same_info UNIV (vs_files vs) (vs_files vs1)"
      "vs_next_file vs1 = vs_next_file vs" "vs_compact_pointer vs1 = vs_compact_pointer vs" "vs_next_version vs1 = vs_next_version vs"
      "dom (map_of (vs_versions vs1)) \<subseteq> dom (map_of (vs_versions vs))"
      "2 \<le> v_refs v0 \<Longrightarrow> version_of i vs1 = Some (v0\<lparr>v_refs := v_refs v0 - 1\<rparr>)"
    by (elim exE conjE) blast
  let ?vs = "vs1\<lparr>vs_current := Some (vs_next_version vs), vs_next_version := vs_next_version vs + 1,
    vs_versions := vs_versions vs1 @ [(vs_next_version vs, v\<lparr>v_refs := 1\<rparr>)]\<rparr>"
  have app: "AppendVersion v vs = Some ?vs" using assms(2) i(3) 1(1,6) by (simp add: AppendVersion_def Let_def)
  have new: "map_of (vs_versions vs1) (vs_next_version vs) = None" using 1(7) dom by auto
  have "dom (map_of (vs_versions vs1)) \<subseteq> {..<vs_next_version vs + 1}" using 1(7) dom by (meson lessThan_subset_iff le_add1 subset_trans)
  then have "current_is (vs_next_version vs) (v\<lparr>v_refs := 1\<rparr>) ?vs"
    using new by (simp add: current_is_def version_of_def dom_map_add map_add_Some_iff)
  moreover have "version_of i ?vs = Some (v0\<lparr>v_refs := v_refs v0 - 1\<rparr>)" if "2 \<le> v_refs v0"
    using 1(8) [OF that] by (simp add: version_of_def)
  ultimately show ?thesis using app 1(2-5) by (intro exI [of _ ?vs]) (simp add: frame_def)
qed


section \<open>Building the version of an edit\<close>

lemma Finalize_simps [simp]: "v_files (Finalize options h v) = v_files v" "v_refs (Finalize options h v) = v_refs v"
  by (simp_all add: Finalize_def split: prod.splits)

lemma added_dropped: "same_info UNIV h (fold (\<lambda>level. drop_files (ls_added_files (b_levels b level))) levels h)"
  by (induction levels arbitrary: h) (simp_all add: same_info_def drop_files_info [unfolded same_info_def])

lemma Builder_delete_ok:
  assumes "current_is i v vs" and "2 \<le> v_refs v" and "b_base b = i"
  shows "\<exists>vs'. Builder_delete b vs = Some vs' \<and> current_is i (v\<lparr>v_refs := v_refs v - 1\<rparr>) vs' \<and> frame vs vs' \<and>
    same_info UNIV (vs_files vs) (vs_files vs') \<and> vs_next_file vs' = vs_next_file vs \<and> vs_compact_pointer vs' = vs_compact_pointer vs"
proof -
  let ?h = "fold (\<lambda>level. drop_files (ls_added_files (b_levels b level))) [0..<kNumLevels] (vs_files vs)"
  have h: "same_info UNIV (vs_files vs) ?h" by (rule added_dropped)
  have "current_is i v (vs\<lparr>vs_files := ?h\<rparr>)" using assms(1) by (simp add: current_is_def version_of_def)
  from Version_Unref_kept [OF this assms(2)] h show ?thesis unfolding Builder_delete_def assms(3) by (auto simp: frame_def)
qed

context comparator
begin

lemma files_kept:
  assumes "base_ok vs v" and "vs_user vs' = vs_user vs" and "same_info {..<vs_next_file vs} (vs_files vs) (vs_files vs')"
    and "vs_next_file vs \<le> vs_next_file vs'"
  shows "base_ok vs' v" and "l < kNumLevels \<Longrightarrow> level_set (vs_files vs') (set (v_files v l)) = level_set (vs_files vs) (set (v_files v l))"
proof -
  have i: "info (vs_files vs' f) = info (vs_files vs f)" if "l < kNumLevels" "f \<in> set (v_files v l)" for f l
    using assms(1,3) that by (auto simp: base_ok_def level_inv_def same_info_def)
  show "base_ok vs' v"
    unfolding base_ok_def
  proof (intro conjI allI impI)
    fix l
    assume l: "l < kNumLevels"
    show "level_inv C ikey (vs_files vs') (vs_next_file vs') (v_files v l) []"
      by (rule level_inv_same [OF _ assms(4)]) (use assms(1) i l in \<open>auto simp: base_ok_def same_info_def\<close>)
  qed (use assms(1,2) in \<open>simp add: base_ok_def\<close>)
  show "level_set (vs_files vs') (set (v_files v l)) = level_set (vs_files vs) (set (v_files v l))" if "l < kNumLevels"
    using i [OF that] by (simp add: level_set_def)
qed

text \<open>The current version has the files \<open>S\<close>.\<close>

definition holds :: "'f VersionSet \<Rightarrow> (nat \<Rightarrow> file_info set) \<Rightarrow> bool" where
  "holds vs S \<longleftrightarrow> (\<exists>i v. current_is i v vs \<and> base_ok vs v \<and> (\<forall>l < kNumLevels. level_set (vs_files vs) (set (v_files v l)) = S l))"

lemma base_ok_refs [simp]: "base_ok vs (v\<lparr>v_refs := n\<rparr>) = base_ok vs v" "base_ok vs (Finalize options h v) = base_ok vs v"
  by (simp_all add: base_ok_def)

lemma keeps_files: "keeps_versions vs vs' \<Longrightarrow> base_ok vs v \<Longrightarrow> base_ok vs' v \<and>
    (\<forall>l < kNumLevels. level_set (vs_files vs') (set (v_files v l)) = level_set (vs_files vs) (set (v_files v l)))"
  using files_kept [of vs v vs'] by (simp add: keeps_versions_def frame_def)

lemma build_version_ok:
  assumes vs: "holds vs S" and fresh: "numbers_fresh (\<lambda>l. fst ` S l) (new_files e)" and e: "edit_valid ikey e"
    and disj: "\<forall>l. 0 < l \<and> l < kNumLevels \<longrightarrow> disjoint_level C (edit_level e l (S l))"
  shows "\<exists>v vs'. build_version e vs = Some (v, vs') \<and> frame vs vs' \<and> holds vs' S \<and> v_refs v = 0 \<and> base_ok vs' v \<and>
    (\<forall>l < kNumLevels. level_set (vs_files vs') (set (v_files v l)) = edit_level e l (S l)) \<and>
    vs_compact_pointer vs' = set_pointers e (vs_compact_pointer vs)"
proof -
  obtain i v0 where cur: "current_is i v0 vs" and base: "base_ok vs v0"
    and S: "\<And>l. l < kNumLevels \<Longrightarrow> level_set (vs_files vs) (set (v_files v0 l)) = S l" using vs by (auto simp: holds_def)
  have i: "version_of i vs = Some v0" "vs_current vs = Some i" using cur by (simp_all add: current_is_def)
  have "numbers_fresh (\<lambda>l. fst ` level_set (vs_files vs) (set (v_files v0 l))) (concat (map new_files [e]))"
    using numbers_fresh_mono [OF fresh] S by simp
  moreover have "\<forall>l. 0 < l \<and> l < kNumLevels \<longrightarrow>
      disjoint_level C (fold (\<lambda>e. edit_level e l) [e] (level_set (vs_files vs) (set (v_files v0 l))))" using disj S by simp
  ultimately obtain b0 vs0 vs1 b v vs2 where
    b: "Builder_new i vs = Some (b0, vs0)" "Builder_Apply e (vs0, b0) = Some (vs1, b)" "Builder_SaveTo b Version_new vs1 = Some (v, vs2)"
      "base_ok vs2 v" "\<And>l. l < kNumLevels \<Longrightarrow> level_set (vs_files vs2) (set (v_files v l)) = edit_level e l (S l)"
    using Builder_result [OF i(1) base, of "[e]"] e S by (auto simp: bind_eq_Some_conv)
  let ?v0 = "v0\<lparr>v_refs := v_refs v0 + 1\<rparr>"
  from Version_Ref_current [OF cur] b(1) have 0: "current_is i ?v0 vs0" "frame vs vs0" "vs_files vs0 = vs_files vs"
    "vs_next_file vs0 = vs_next_file vs" "vs_compact_pointer vs0 = vs_compact_pointer vs" "b_base b0 = i"
    by (auto simp: Builder_new_def)
  note 1 = Builder_Apply_frame [OF b(2)] and 2 = Builder_SaveTo_frame [OF b(3)]
  have cur2: "current_is i ?v0 vs2" using current_is_kept [OF current_is_kept [OF 0(1) 1(1)] 2(1)] .
  obtain vs3 where 3: "Builder_delete b vs2 = Some vs3" "current_is i v0 vs3" "frame vs2 vs3"
    "same_info UNIV (vs_files vs2) (vs_files vs3)" "vs_next_file vs3 = vs_next_file vs2" "vs_compact_pointer vs3 = vs_compact_pointer vs2"
    using Builder_delete_ok [OF cur2, of b] cur 1(3) 0(6) by (auto simp: current_is_def)
  have keep: "base_ok vs3 u \<and> (\<forall>l < kNumLevels. level_set (vs_files vs3) (set (v_files u l)) = level_set (vs_files vs2) (set (v_files u l)))"
    if "base_ok vs2 u" for u using files_kept [OF that, of vs3] 3(3-5) by (simp add: frame_def same_info_def)
  have base0: "base_ok vs0 v0" using base 0(2-4) by (simp add: base_ok_def frame_def)
  then have "base_ok vs2 v0" "l < kNumLevels \<Longrightarrow> level_set (vs_files vs2) (set (v_files v0 l)) = S l" for l
    using keeps_files [OF 1(1)] keeps_files [OF 2(1)] S 0(3) by auto
  with keep have "holds vs3 S" using 3(2) unfolding holds_def by blast
  moreover have "frame vs vs3" using 0(2) 1(1) 2(1) 3(3) by (simp add: keeps_versions_def frame_def)
  moreover have "build_version e vs = Some (Finalize (vs_options vs3) (vs_files vs3) v, vs3)"
    using i(2) b(1-3) 3(1) by (simp add: build_version_def)
  moreover have "v_refs v = 0" using 2(3) by (simp add: Version_new_def)
  moreover have "vs_compact_pointer vs3 = set_pointers e (vs_compact_pointer vs)" using 1(2) 2(2) 3(6) 0(5) by simp
  moreover have "\<forall>l < kNumLevels. level_set (vs_files vs3) (set (v_files v l)) = edit_level e l (S l)" using keep [OF b(4)] b(5) by simp
  ultimately show ?thesis using keep [OF b(4)]
    by (intro exI [of _ "Finalize (vs_options vs3) (vs_files vs3) v"] exI [of _ vs3]) simp
qed

end


section \<open>The snapshot\<close>

definition meta_of :: "files \<Rightarrow> file_ref \<Rightarrow> FileMetaData" where
  "meta_of h f = FileMetaData_new (f_number (h f)) (f_file_size (h f)) (f_smallest (h f)) (f_largest (h f))"

lemma meta_of_info [simp]: "info (meta_of h f) = info (h f)" "f_number (meta_of h f) = f_number (h f)"
  by (simp_all add: meta_of_def info_def FileMetaData_new_def)

lemma fold_AddFile:
  "fold (\<lambda>f. AddFile l (f_number (h f)) (f_file_size (h f)) (f_smallest (h f)) (f_largest (h f))) fs e =
     e\<lparr>new_files := new_files e @ map (\<lambda>f. (l, meta_of h f)) fs\<rparr>"
  by (induction fs arbitrary: e) (simp_all add: AddFile_def meta_of_def FileMetaData_new_def)

definition level_metas :: "files \<Rightarrow> Version \<Rightarrow> nat list \<Rightarrow> (nat \<times> FileMetaData) list" where
  "level_metas h v levels = concat (map (\<lambda>l. map (\<lambda>f. (l, meta_of h f)) (v_files v l)) levels)"

definition pointer_list :: "(nat \<Rightarrow> slice) \<Rightarrow> nat list \<Rightarrow> (nat \<times> slice) list" where
  "pointer_list p levels = concat (map (\<lambda>l. if p l = [] then [] else [(l, p l)]) levels)"

lemma snapshot_edit_fields:
  assumes "current_is i v vs"
  shows "snapshot_edit vs = Some (VersionEdit_new\<lparr>has_comparator := True, e_comparator := Name (vs_user vs),
    compact_pointers := pointer_list (vs_compact_pointer vs) [0..<kNumLevels], new_files := level_metas (vs_files vs) v [0..<kNumLevels]\<rparr>)"
proof -
  have files: "fold (\<lambda>level edit. fold (\<lambda>f. AddFile level (f_number (h f)) (f_file_size (h f)) (f_smallest (h f)) (f_largest (h f)))
      (v_files v level) edit) levels e = e\<lparr>new_files := new_files e @ level_metas h v levels\<rparr>" for levels e and h :: files
    by (induction levels arbitrary: e) (simp_all add: fold_AddFile level_metas_def)
  have pointers: "fold (\<lambda>level edit. if p level = [] then edit else SetCompactPointer level (p level) edit) levels e =
      e\<lparr>compact_pointers := compact_pointers e @ pointer_list p levels\<rparr>" for levels e and p :: "nat \<Rightarrow> slice"
    by (induction levels arbitrary: e) (simp_all add: SetCompactPointer_def pointer_list_def)
  have "current_version vs = Some v" using assms by (simp add: current_is_def current_version_def)
  then show ?thesis
    by (simp add: snapshot_edit_def snapshot_files_def snapshot_pointers_def files pointers SetComparatorName_def VersionEdit_new_def)
qed

lemma numbers_fresh_levels:
  assumes "distinct levels" and "\<forall>l \<in> set levels. l < kNumLevels \<and> N l = {} \<and> distinct (map (\<lambda>f. f_number (h f)) (v_files v l))"
  shows "numbers_fresh N (level_metas h v levels)"
  using assms
proof (induction levels arbitrary: N)
  case (Cons l levels)
  have one: "numbers_fresh N (map (\<lambda>f. (l, meta_of h f)) fs)"
    if "N l \<inter> (\<lambda>f. f_number (h f)) ` set fs = {}" "distinct (map (\<lambda>f. f_number (h f)) fs)" "l < kNumLevels" for N fs
    using that by (induction fs arbitrary: N) auto
  let ?xs = "map (\<lambda>f. (l, meta_of h f)) (v_files v l)"
  have "numbers_fresh N ?xs" using Cons.prems(2) by (intro one) simp_all
  moreover have "with_numbers N ?xs k = N k" if "k \<in> set levels" for k using that Cons.prems(1) by (auto simp: with_numbers_def)
  then have "numbers_fresh (with_numbers N ?xs) (level_metas h v levels)" using Cons.prems by (intro Cons.IH) auto
  ultimately show ?case by (simp add: level_metas_def numbers_fresh_append)
qed (simp add: level_metas_def)

lemma sorted_wrt_distinct: "sorted_wrt lt xs \<Longrightarrow> \<forall>x \<in> set xs. \<not> lt x x \<Longrightarrow> distinct xs"
  by (induction xs) auto

text \<open>The keys of the files and the compaction pointers can be written down.\<close>

definition stored :: "(nat \<Rightarrow> file_info set) \<Rightarrow> bool" where
  "stored S \<longleftrightarrow> (\<forall>l < kNumLevels. \<forall>(n, z, small, large) \<in> S l. key_stored small \<and> key_stored large)"

definition pointers_stored :: "'f VersionSet \<Rightarrow> bool" where
  "pointers_stored vs \<longleftrightarrow> (\<forall>l < kNumLevels. vs_compact_pointer vs l = [] \<or> key_stored (vs_compact_pointer vs l))"

context comparator
begin

definition edit_logged :: "VersionEdit \<Rightarrow> bool" where
  "edit_logged e \<longleftrightarrow> edit_ok e \<and> edit_valid ikey e \<and> (has_comparator e \<longrightarrow> e_comparator e = Name C)"

lemma snapshot_ok:
  assumes vs: "holds vs S" and "stored S" and "pointers_stored vs" and "length (Name C) < 2 ^ 32"
  shows "\<exists>e. snapshot_edit vs = Some e \<and> edit_logged e \<and> numbers_fresh (\<lambda>_. {}) (new_files e) \<and>
    (\<forall>l < kNumLevels. edit_level e l {} = S l \<and> with_numbers (\<lambda>_. {}) (new_files e) l = fst ` S l)"
proof -
  obtain i v where cur: "current_is i v vs" and base: "base_ok vs v"
    and S: "\<And>l. l < kNumLevels \<Longrightarrow> level_set (vs_files vs) (set (v_files v l)) = S l" using vs by (auto simp: holds_def)
  let ?h = "vs_files vs" and ?ps = "pointer_list (vs_compact_pointer vs) [0..<kNumLevels]" and ?ms = "level_metas (vs_files vs) v [0..<kNumLevels]"
  let ?e = "VersionEdit_new\<lparr>has_comparator := True, e_comparator := Name (vs_user vs), compact_pointers := ?ps, new_files := ?ms\<rparr>"
  have C: "vs_user vs = C" and inv: "\<And>l. l < kNumLevels \<Longrightarrow> level_inv C ikey ?h (vs_next_file vs) (v_files v l) []"
    using base by (simp_all add: base_ok_def)
  have ps: "l < kNumLevels \<and> key_stored k" if "(l, k) \<in> set ?ps" for l k
    using that assms(3) by (auto simp: pointer_list_def pointers_stored_def split: if_splits)
  have ms: "(l, m) \<in> set ?ms \<longleftrightarrow> l < kNumLevels \<and> m \<in> meta_of ?h ` set (v_files v l)" for l m
    by (auto simp: level_metas_def)
  have good: "file_stored m \<and> meta_keys ikey m" if m: "(l, m) \<in> set ?ms" for l m
  proof -
    obtain f where f: "l < kNumLevels" "f \<in> set (v_files v l)" "m = meta_of ?h f" using m unfolding ms by blast
    then have "info (?h f) \<in> S l" using S [OF f(1)] by (auto simp: level_set_def)
    then have "key_stored (f_smallest (?h f)) \<and> key_stored (f_largest (?h f))" using assms(2) f(1) by (fastforce simp: stored_def info_def)
    moreover have "meta_keys ikey (?h f)" using inv [OF f(1)] f(2) by (simp add: level_inv_def)
    ultimately show ?thesis by (simp add: f(3) file_stored_def meta_of_def FileMetaData_new_def meta_keys_def)
  qed
  have "edit_ok ?e" using assms(4) ps good ms C by (fastforce simp: edit_ok_def VersionEdit_new_def)
  moreover have "edit_valid ikey ?e" using ps good by (fastforce simp: edit_valid_def VersionEdit_new_def key_stored_def)
  ultimately have "edit_logged ?e" using C by (simp add: edit_logged_def)
  moreover have "distinct (map (\<lambda>f. f_number (?h f)) (v_files v l))" if "l < kNumLevels" for l
  proof -
    note i = inv [OF that, unfolded level_inv_def, simplified]
    have "distinct (v_files v l)"
      using sorted_wrt_distinct i strict_onD(2) [OF smallest_strict] by blast
    then show ?thesis using i by (simp add: distinct_map)
  qed
  then have "numbers_fresh (\<lambda>_. {}) ?ms" by (intro numbers_fresh_levels) auto
  moreover have "edit_level ?e l {} = S l \<and> with_numbers (\<lambda>_. {}) ?ms l = fst ` S l" if "l < kNumLevels" for l
  proof -
    have image: "{g m | m. (l, m) \<in> set ?ms} = (\<lambda>f. g (meta_of ?h f)) ` set (v_files v l)" for g :: "FileMetaData \<Rightarrow> 'z"
      using that unfolding ms by blast
    have "edit_level ?e l {} = S l"
      using image [of info] S [OF that] by (simp add: edit_level_def level_set_def)
    moreover have "with_numbers (\<lambda>_. {}) ?ms l = fst ` S l"
      using image [of f_number] S [OF that, symmetric] by (simp add: with_numbers_def level_set_def image_image info_def)
    ultimately show ?thesis ..
  qed
  ultimately show ?thesis using snapshot_edit_fields [OF cur] by simp
qed

end


section \<open>Writing the manifest\<close>

definition logged :: "VersionEdit list \<Rightarrow> slice list" where
  "logged es = map (\<lambda>e. the (VersionEdit_EncodeTo e [])) es"

definition log_end :: "slice list \<Rightarrow> nat" where
  "log_end ss = snd (log_layout 0 ss)"

lemma log_append:
  assumes "record_layout (log_end ss) True s = (bs, off)"
  shows "log_bytes (ss @ [s]) = log_bytes ss @ bs" and "log_end (ss @ [s]) = off"
  using assms by (auto simp: log_bytes_def log_end_def log_layout_append split: prod.splits)

lemma log_end_le: "log_end ss \<le> 32768"
  unfolding log_end_def using log_layout_offset [of 0 ss] by (cases "log_layout 0 ss") simp

context durable_env
begin

text \<open>The writer of the log \<open>ss\<close> in the file \<open>name\<close>.\<close>

definition writer_at :: "byte list \<Rightarrow> slice list \<Rightarrow> 'f Writer \<Rightarrow> bool" where
  "writer_at name ss wr \<longleftrightarrow> on (dest wr) = name \<and> crc_table_ok wr \<and> block_offset wr = int (log_end ss)"

lemma env_AddRecord_ok:
  assumes wr: "writer_at name ss wr" and c: "contents w name = Some (log_bytes ss)"
    and room: "room w (length (log_bytes (ss @ [s])) - length (log_bytes ss) + n)"
  shows "\<exists>wr' w'. env_AddRecord M E s wr w = Some (Status_OK, wr', w') \<and> writer_at name (ss @ [s]) wr' \<and>
    contents w' = (contents w)(name \<mapsto> log_bytes (ss @ [s])) \<and> room w' n"
proof -
  obtain bs off where bs: "record_layout (log_end ss) True s = (bs, off)" by fastforce
  note app = log_append [OF bs]
  let ?w = "enter_world w wr"
  have ok: "crc_table_ok ?w" "block_offset ?w = int (log_end ss)" "dest ?w = (dest wr, w)"
    using wr by (simp_all add: writer_at_def enter_world_def crc_table_ok_def)
  have "contents w = (contents w)(name \<mapsto> log_bytes ss)" using c by (simp add: fun_upd_idem)
  then have "\<exists>c. contents w = (contents w)(name \<mapsto> c)" by blast
  with wr room app(1) have "(case dest ?w of (f, v) \<Rightarrow> \<lambda>n. room v n \<and> on f = name \<and> (\<exists>c. contents v = (contents w)(name \<mapsto> c))) (length bs + n)"
    unfolding ok(3) by (simp add: writer_at_def)
  from writable_file.AddRecord_appends [OF writable bs ok(1,2) log_end_le this, of M] obtain fw where
    fw: "AddRecord M (env_out E) s ?w = Some (Status_OK, ?w\<lparr>dest := fw, block_offset := int off\<rparr>)"
    "(case fw of (f, v) \<Rightarrow> \<lambda>n. room v n \<and> on f = name \<and> (\<exists>c. contents v = (contents w)(name \<mapsto> c))) n"
    "(case fw of (f, v) \<Rightarrow> the (contents v name)) = (case dest ?w of (f, v) \<Rightarrow> the (contents v name)) @ bs" by blast
  obtain f' w' where pair: "fw = (f', w')" by (cases fw)
  from fw(2,3) c obtain c' where f': "room w' n" "on f' = name" "contents w' = (contents w)(name \<mapsto> c')" "the (contents w' name) = log_bytes ss @ bs"
    unfolding ok(3) pair by auto
  let ?wr = "wr\<lparr>dest := f', block_offset := int off\<rparr>"
  have "env_AddRecord M E s wr w = Some (Status_OK, ?wr, w')"
    using fw(1) pair by (simp add: env_AddRecord_def leave_world_def enter_world_def)
  moreover have "contents w' = (contents w)(name \<mapsto> log_bytes (ss @ [s]))" using f'(3,4) app(1) by simp
  moreover have "writer_at name (ss @ [s]) ?wr" using wr f'(2) app(2) by (simp add: writer_at_def crc_table_ok_def)
  ultimately show ?thesis using f'(1) by blast
qed

text \<open>A new log.\<close>

lemma Writer_new_at:
  assumes "on f = name"
  shows "\<exists>wr. Writer_new M f 0 = Some wr \<and> writer_at name [] wr"
  using Writer_new_ok [of M f] assms by (auto simp: writer_at_def log_end_def)

end


section \<open>Logging an edit\<close>

definition log_number_ok :: "VersionEdit \<Rightarrow> 'f VersionSet \<Rightarrow> bool" where
  "log_number_ok edit vs \<longleftrightarrow>
     (has_log_number edit \<longrightarrow> vs_log_number vs \<le> e_log_number edit \<and> e_log_number edit < vs_next_file_number vs)"

text \<open>The edits that the manifest has after an edit was logged.\<close>

definition es_after :: "'f VersionSet \<Rightarrow> VersionEdit list \<Rightarrow> VersionEdit \<Rightarrow> VersionEdit list" where
  "es_after vs es edit =
     (case edit_to_log edit vs of None \<Rightarrow> es
      | Some e \<Rightarrow>
          if vs_descriptor_log vs = None then [the (snapshot_edit (snd (the (build_version e vs)))), e] else es @ [e])"

definition bytes_needed :: "'f VersionSet \<Rightarrow> VersionEdit list \<Rightarrow> VersionEdit \<Rightarrow> nat" where
  "bytes_needed vs es edit =
     length (log_bytes (logged (es_after vs es edit))) - length (log_bytes (logged es)) +
     (if vs_descriptor_log vs = None then length (manifest_base (vs_manifest_file_number vs)) + 1 else 0)"

definition numbers_in :: "VersionEdit \<Rightarrow> 'f VersionSet \<Rightarrow> bool" where
  "numbers_in e vs \<longleftrightarrow> has_log_number e \<and> e_log_number e = vs_log_number vs \<and> has_prev_log_number e \<and> e_prev_log_number e = vs_prev_log_number vs \<and>
     has_next_file_number e \<and> has_last_sequence e"

lemma edit_to_log_ok:
  assumes "log_number_ok edit vs"
  shows "\<exists>e. edit_to_log edit vs = Some e \<and> new_files e = new_files edit \<and> deleted_files e = deleted_files edit \<and>
    compact_pointers e = compact_pointers edit \<and> has_comparator e = has_comparator edit \<and> e_comparator e = e_comparator edit \<and>
    (edit_ok edit \<longrightarrow> edit_ok e) \<and> has_log_number e \<and> has_prev_log_number e \<and> has_next_file_number e \<and> has_last_sequence e \<and>
    e_next_file_number e = vs_next_file_number vs \<and> e_last_sequence e = vs_last_sequence vs"
  using assms
  by (auto simp: edit_to_log_def log_number_ok_def Let_def intro!: edit_ok_setters)
    (simp_all add: SetLogNumber_def SetPrevLogNumber_def SetNextFile_def SetLastSequence_def)

context durable_env
begin

lemma log_edit_ok:
  assumes wr: "vs_descriptor_log vs = Some wr" "writer_at name (logged es) wr" and c: "contents w name = Some (log_bytes (logged es))"
    and e: "edit_ok e" and room: "room w (length (log_bytes (logged (es @ [e]))) - length (log_bytes (logged es)) + n)"
  shows "\<exists>wr' w'. log_edit M E e vs w = Some (Status_OK, vs\<lparr>vs_descriptor_log := Some wr'\<rparr>, w') \<and> writer_at name (logged (es @ [e])) wr' \<and>
    contents w' = (contents w)(name \<mapsto> log_bytes (logged (es @ [e]))) \<and> room w' n"
proof -
  obtain s where s: "VersionEdit_EncodeTo e [] = Some s" using decode_encoded [OF e] by blast
  then have l: "logged (es @ [e]) = logged es @ [s]" by (simp add: logged_def)
  from env_AddRecord_ok [OF wr(2) c, of s n M] room l obtain wr1 w1 where
    1: "env_AddRecord M E s wr w = Some (Status_OK, wr1, w1)" "writer_at name (logged es @ [s]) wr1"
      "contents w1 = (contents w)(name \<mapsto> log_bytes (logged es @ [s]))" "room w1 n" by auto
  from Sync [OF 1(4), of "dest wr1"] 1(2,3) obtain f w2 where
    2: "wf_Sync (env_out E) (dest wr1, w1) = (Status_OK, f, w2)" "on f = name" "contents w2 = contents w1" "room w2 n"
    by (auto simp: writer_at_def)
  have "writer_at name (logged es @ [s]) (wr1\<lparr>dest := f\<rparr>)" using 1(2) 2(2) by (simp add: writer_at_def crc_table_ok_def)
  with wr(1) s 1(1,3) 2 l show ?thesis by (intro exI [of _ "wr1\<lparr>dest := f\<rparr>"] exI [of _ w2]) (simp add: log_edit_def env_Sync_def)
qed

end

context comparator
begin

lemma AppendVersion_holds:
  assumes "holds vs S" and "v_refs v = 0" and "base_ok vs v" and "\<And>l. l < kNumLevels \<Longrightarrow> level_set (vs_files vs) (set (v_files v l)) = S' l"
  shows "\<exists>vs'. AppendVersion v vs = Some vs' \<and> frame vs vs' \<and> holds vs' S' \<and> vs_compact_pointer vs' = vs_compact_pointer vs"
proof -
  obtain i v0 where "current_is i v0 vs" using assms(1) by (auto simp: holds_def)
  from AppendVersion_ok [OF this assms(2)] obtain vs' where
    vs': "AppendVersion v vs = Some vs'" "current_is (vs_next_version vs) (v\<lparr>v_refs := 1\<rparr>) vs'" "frame vs vs'"
      "same_info UNIV (vs_files vs) (vs_files vs')" "vs_next_file vs' = vs_next_file vs" "vs_compact_pointer vs' = vs_compact_pointer vs"
    by blast
  have "base_ok vs' v" "\<And>l. l < kNumLevels \<Longrightarrow> level_set (vs_files vs') (set (v_files v l)) = S' l"
    using files_kept [OF assms(3), of vs'] assms(4) vs'(3-5) by (simp_all add: frame_def same_info_def)
  then have "holds vs' S'" unfolding holds_def using vs'(2) by (intro exI [of _ "vs_next_version vs"] exI [of _ "v\<lparr>v_refs := 1\<rparr>"]) simp
  with vs' show ?thesis by blast
qed

lemma stored_after:
  assumes "stored S" and "edit_ok e"
  shows "stored (\<lambda>l. edit_level e l (S l))"
proof -
  have "key_stored small \<and> key_stored large"
    if "(n, z, small, large) \<in> edit_level e l (S l)" "l < kNumLevels" for n z small large l
    using that assms by (fastforce simp: edit_level_def stored_def edit_ok_def file_stored_def info_def)
  then show ?thesis unfolding stored_def by blast
qed

lemma pointers_after:
  assumes "pointers_stored vs" and "edit_ok e" and "vs_compact_pointer vs' = set_pointers e (vs_compact_pointer vs)"
  shows "pointers_stored vs'"
proof -
  have "\<forall>l < kNumLevels. fold (\<lambda>(level, k) p. p(level := k)) ps p l = [] \<or> key_stored (fold (\<lambda>(level, k) p. p(level := k)) ps p l)"
    if "\<forall>(level, k) \<in> set ps. key_stored k" "\<forall>l < kNumLevels. p l = [] \<or> key_stored (p l)" for ps and p :: "nat \<Rightarrow> slice"
    using that
  proof (induction ps arbitrary: p)
    case (Cons x ps)
    have "\<forall>l < kNumLevels. (p(fst x := snd x)) l = [] \<or> key_stored ((p(fst x := snd x)) l)" using Cons.prems by auto
    from Cons.IH [OF _ this] Cons.prems(1) show ?case by (simp add: case_prod_beta)
  qed simp
  moreover have "\<forall>(level, k) \<in> set (compact_pointers e). key_stored k" using assms(2) by (auto simp: edit_ok_def)
  ultimately show ?thesis using assms(1) unfolding pointers_stored_def assms(3) set_pointers_def by blast
qed

end


definition keeps_numbers :: "'f VersionSet \<Rightarrow> 'f VersionSet \<Rightarrow> bool" where
  "keeps_numbers vs vs' \<longleftrightarrow> vs_dbname vs' = vs_dbname vs \<and> vs_options vs' = vs_options vs \<and>
     vs_manifest_file_number vs' = vs_manifest_file_number vs \<and> vs_next_file_number vs' = vs_next_file_number vs \<and>
     vs_last_sequence vs' = vs_last_sequence vs"

text \<open>A database directory over an environment, with the comparator of its keys.\<close>

locale manifest_env = env: durable_env E good unread contents room on + comparator C key
  for E :: "('s, 'r, 'f, 'w) Env" and good :: "'s \<Rightarrow> bool" and unread :: "'s \<Rightarrow> byte list"
    and contents :: "'w \<Rightarrow> byte list \<Rightarrow> byte list option" and room :: "'w \<Rightarrow> nat \<Rightarrow> bool" and on :: "'f \<Rightarrow> byte list"
    and C :: Comparator and key :: "slice \<Rightarrow> bool" +
  assumes Name_short: "length (Name C) < 2 ^ 32"
begin

text \<open>The edits describe the levels, and can be applied again from nothing.\<close>

definition described :: "VersionEdit list \<Rightarrow> (nat \<Rightarrow> file_info set) \<Rightarrow> bool" where
  "described es S \<longleftrightarrow> (\<forall>e \<in> set es. edit_logged e) \<and> numbers_fresh (\<lambda>_. {}) (concat (map new_files es)) \<and>
     (\<forall>l < kNumLevels. fold (\<lambda>e. edit_level e l) es {} = S l)"

definition manifest_holds :: "'w \<Rightarrow> byte list \<Rightarrow> u64 \<Rightarrow> byte list \<Rightarrow> bool" where
  "manifest_holds w dbname n bytes \<longleftrightarrow> contents w (CurrentFileName dbname) = Some (manifest_base n @ [10]) \<and>
     contents w (manifest_name dbname n) = Some bytes"

definition manifest_inv :: "'f VersionSet \<Rightarrow> 'w \<Rightarrow> VersionEdit list \<Rightarrow> (nat \<Rightarrow> file_info set) \<Rightarrow> bool" where
  "manifest_inv vs w es S \<longleftrightarrow> holds vs S \<and> stored S \<and> pointers_stored vs \<and> 0 < vs_manifest_file_number vs \<and>
     (\<forall>l. 0 < l \<and> l < kNumLevels \<longrightarrow> disjoint_level C (S l)) \<and>
     (case vs_descriptor_log vs of None \<Rightarrow> es = []
      | Some wr \<Rightarrow> env.writer_at (manifest_name (vs_dbname vs) (vs_manifest_file_number vs)) (logged es) wr \<and>
          manifest_holds w (vs_dbname vs) (vs_manifest_file_number vs) (log_bytes (logged es)) \<and>
          described es S \<and> es \<noteq> [] \<and> numbers_in (last es) vs)"

lemma log_bytes_mono: "length (log_bytes ss) \<le> length (log_bytes (ss @ [s]))"
  using log_append(1) [of ss s] by (cases "record_layout (log_end ss) True s") auto

lemma described_append:
  assumes "described es S" and "edit_logged e" and "numbers_fresh (with_numbers (\<lambda>_. {}) (concat (map new_files es))) (new_files e)"
  shows "described (es @ [e]) (\<lambda>l. edit_level e l (S l))"
  using assms by (auto simp: described_def numbers_fresh_append)

lemma open_manifest_ok:
  assumes none: "vs_descriptor_log vs = None" and vs: "holds vs S" "stored S" "pointers_stored vs" and n: "0 < vs_manifest_file_number vs"
    and e0: "snapshot_edit vs = Some e0" and room: "room w (length (log_bytes (logged [e0])) + m)"
  shows "\<exists>wr w'. open_manifest M E vs w =
      Some (Status_OK, manifest_name (vs_dbname vs) (vs_manifest_file_number vs), vs\<lparr>vs_descriptor_log := Some wr\<rparr>, w') \<and>
    env.writer_at (manifest_name (vs_dbname vs) (vs_manifest_file_number vs)) (logged [e0]) wr \<and>
    contents w' = (contents w)(manifest_name (vs_dbname vs) (vs_manifest_file_number vs) \<mapsto> log_bytes (logged [e0])) \<and> room w' m"
proof -
  let ?name = "manifest_name (vs_dbname vs) (vs_manifest_file_number vs)"
  have "edit_ok e0" using snapshot_ok [OF vs Name_short] e0 by (auto simp: edit_logged_def)
  then obtain s where s: "VersionEdit_EncodeTo e0 [] = Some s" using decode_encoded by blast
  then have l: "logged [e0] = [s]" by (simp add: logged_def)
  from env.NewWritableFile [OF room, of ?name] obtain f w1 where
    1: "env_NewWritableFile E ?name w = ((Status_OK, Some f), w1)" "on f = ?name" "contents w1 = (contents w)(?name \<mapsto> [])"
      "room w1 (length (log_bytes (logged [e0])) + m)" by blast
  from env.Writer_new_at [OF 1(2), of M] obtain wr0 where wr0: "Writer_new M f 0 = Some wr0" "env.writer_at ?name [] wr0" by blast
  have nil: "log_bytes [] = []" by (simp add: log_bytes_def)
  from env.env_AddRecord_ok [OF wr0(2), of w1 s m M] 1(3,4) l nil obtain wr w2 where
    2: "env_AddRecord M E s wr0 w1 = Some (Status_OK, wr, w2)" "env.writer_at ?name (logged [e0]) wr"
      "contents w2 = (contents w1)(?name \<mapsto> log_bytes (logged [e0]))" "room w2 m" by auto
  have "open_manifest M E vs w = Some (Status_OK, ?name, vs\<lparr>vs_descriptor_log := Some wr\<rparr>, w2)"
    using none n 1(1) wr0(1) e0 s 2(1) by (simp add: open_manifest_def DescriptorFileName_base WriteSnapshot_def)
  with 2 1(3) show ?thesis by (intro exI [of _ wr] exI [of _ w2]) simp
qed


lemma holds_fields [simp]:
  "holds (vs\<lparr>vs_descriptor_log := x\<rparr>) S = holds vs S"
  "holds (vs\<lparr>vs_log_number := a, vs_prev_log_number := b\<rparr>) S = holds vs S"
  "base_ok (vs\<lparr>vs_descriptor_log := x\<rparr>) v = base_ok vs v"
  by (simp_all add: holds_def current_is_def version_of_def base_ok_def)

text \<open>An edit that can be logged in this state.\<close>

definition edit_fits :: "'f VersionSet \<Rightarrow> VersionEdit list \<Rightarrow> (nat \<Rightarrow> file_info set) \<Rightarrow> VersionEdit \<Rightarrow> bool" where
  "edit_fits vs es S edit \<longleftrightarrow> edit_logged edit \<and> log_number_ok edit vs \<and>
     numbers_fresh (\<lambda>l. fst ` S l \<union> with_numbers (\<lambda>_. {}) (concat (map new_files es)) l) (new_files edit) \<and>
     (\<forall>l. 0 < l \<and> l < kNumLevels \<longrightarrow> disjoint_level C (edit_level edit l (S l)))"

lemma LogAndApply_builds:
  assumes inv: "manifest_inv vs w es S" and fits: "edit_fits vs es S edit"
  obtains e v vs1 where "edit_to_log edit vs = Some e" and "build_version e vs = Some (v, vs1)" and "frame vs vs1" and "holds vs1 S"
    and "v_refs v = 0" and "base_ok vs1 v" and "\<forall>l < kNumLevels. level_set (vs_files vs1) (set (v_files v l)) = edit_level edit l (S l)"
    and "pointers_stored vs1" and "edit_logged e" and "edit_ok e" and "new_files e = new_files edit" and "\<And>l M. edit_level e l M = edit_level edit l M"
    and "has_log_number e \<and> has_prev_log_number e \<and> has_next_file_number e \<and> has_last_sequence e"
proof -
  have "log_number_ok edit vs" using fits by (simp add: edit_fits_def)
  from edit_to_log_ok [OF this] obtain e where e: "edit_to_log edit vs = Some e" "new_files e = new_files edit"
    "deleted_files e = deleted_files edit" "compact_pointers e = compact_pointers edit" "has_comparator e = has_comparator edit"
    "e_comparator e = e_comparator edit" "edit_ok edit \<longrightarrow> edit_ok e"
    "has_log_number e \<and> has_prev_log_number e \<and> has_next_file_number e \<and> has_last_sequence e" by blast
  have logged: "edit_logged e" using fits e(2-7) by (simp add: edit_fits_def edit_logged_def edit_valid_def)
  have level: "edit_level e l M = edit_level edit l M" for l M by (simp add: edit_level_def e(2,3))
  have "numbers_fresh (\<lambda>l. fst ` S l) (new_files e)"
    by (rule numbers_fresh_mono [of "\<lambda>l. fst ` S l \<union> with_numbers (\<lambda>_. {}) (concat (map new_files es)) l"])
      (use fits e(2) in \<open>simp_all add: edit_fits_def\<close>)
  moreover have "holds vs S" "pointers_stored vs" using inv by (simp_all add: manifest_inv_def)
  moreover have "\<forall>l. 0 < l \<and> l < kNumLevels \<longrightarrow> disjoint_level C (edit_level e l (S l))" using fits level by (simp add: edit_fits_def)
  moreover have "edit_ok e" "edit_valid ikey e" using logged by (simp_all add: edit_logged_def)
  ultimately obtain v vs1 where "build_version e vs = Some (v, vs1)" "frame vs vs1" "holds vs1 S" "v_refs v = 0" "base_ok vs1 v"
    "\<forall>l < kNumLevels. level_set (vs_files vs1) (set (v_files v l)) = edit_level e l (S l)" "pointers_stored vs1"
    using build_version_ok [of vs S e] pointers_after by blast
  with e logged level \<open>edit_ok e\<close> show thesis by (intro that) simp_all
qed

text \<open>The new version is installed.\<close>

lemma manifest_installed:
  assumes inv: "manifest_inv vs w es S" and fits: "edit_fits vs es S edit" and frame: "frame vs vs1" and vs1: "holds vs1 S" "v_refs v = 0" "base_ok vs1 v"
    "\<forall>l < kNumLevels. level_set (vs_files vs1) (set (v_files v l)) = edit_level edit l (S l)" "pointers_stored vs1"
    and has: "has_log_number e \<and> has_prev_log_number e \<and> has_next_file_number e \<and> has_last_sequence e" and es': "es' \<noteq> []" "last es' = e"
    and wr: "env.writer_at (manifest_name (vs_dbname vs) (vs_manifest_file_number vs)) (logged es') wr"
    and w': "manifest_holds w' (vs_dbname vs) (vs_manifest_file_number vs) (log_bytes (logged es'))"
    and desc: "described es' (\<lambda>l. edit_level edit l (S l))"
  shows "\<exists>vs'. AppendVersion v (vs1\<lparr>vs_descriptor_log := Some wr\<rparr>) = Some vs' \<and>
    manifest_inv (vs'\<lparr>vs_log_number := e_log_number e, vs_prev_log_number := e_prev_log_number e\<rparr>) w' es' (\<lambda>l. edit_level edit l (S l)) \<and> keeps_numbers vs vs'"
proof -
  let ?S = "\<lambda>l. edit_level edit l (S l)"
  obtain vs' where vs': "AppendVersion v (vs1\<lparr>vs_descriptor_log := Some wr\<rparr>) = Some vs'" "frame (vs1\<lparr>vs_descriptor_log := Some wr\<rparr>) vs'"
    "holds vs' ?S" "vs_compact_pointer vs' = vs_compact_pointer vs1"
    using AppendVersion_holds [of "vs1\<lparr>vs_descriptor_log := Some wr\<rparr>" S v ?S] vs1(1-4) by auto
  have "edit_ok edit" using fits by (simp add: edit_fits_def edit_logged_def)
  with inv have "stored ?S" by (simp add: manifest_inv_def stored_after)
  with vs' frame vs1(5) inv fits wr w' desc es' has show ?thesis
    by (simp add: manifest_inv_def edit_fits_def frame_def numbers_in_def pointers_stored_def keeps_numbers_def)
qed


lemma LogAndApply_ok:
  assumes inv: "manifest_inv vs w es S" and fits: "edit_fits vs es S edit" and room: "room w (bytes_needed vs es edit + n)"
  shows "\<exists>vs' w'. LogAndApply M E edit vs w = Some (Status_OK, vs', w') \<and>
    manifest_inv vs' w' (es_after vs es edit) (\<lambda>l. edit_level edit l (S l)) \<and> room w' n \<and> keeps_numbers vs vs'"
proof -
  let ?n = "vs_manifest_file_number vs" and ?db = "vs_dbname vs"
  let ?name = "manifest_name ?db ?n" and ?es = "es_after vs es edit" and ?S = "\<lambda>l. edit_level edit l (S l)"
  obtain e v vs1 where e: "edit_to_log edit vs = Some e" and b: "build_version e vs = Some (v, vs1)" and frame: "frame vs vs1"
    and vs1: "holds vs1 S" "v_refs v = 0" "base_ok vs1 v"
      "\<forall>l < kNumLevels. level_set (vs_files vs1) (set (v_files v l)) = edit_level edit l (S l)" "pointers_stored vs1"
    and logged: "edit_logged e" "edit_ok e" and new: "new_files e = new_files edit" "\<And>l M. edit_level e l M = edit_level edit l M"
    and has: "has_log_number e \<and> has_prev_log_number e \<and> has_next_file_number e \<and> has_last_sequence e"
    using LogAndApply_builds [OF inv fits] by blast
  have fields: "vs_dbname vs1 = ?db" "vs_manifest_file_number vs1 = ?n" "vs_descriptor_log vs1 = vs_descriptor_log vs"
    using frame by (simp_all add: frame_def)
  have n: "0 < ?n" and stored: "stored S" using inv by (simp_all add: manifest_inv_def)
  have cur: "?name \<noteq> CurrentFileName ?db" by (rule manifest_name_distinct)
  have fresh: "numbers_fresh (\<lambda>l. fst ` S l \<union> with_numbers (\<lambda>_. {}) (concat (map new_files es)) l) (new_files e)"
    using fits new(1) by (simp add: edit_fits_def)
  have es': "?es \<noteq> []" "last ?es = e" using e by (simp_all add: es_after_def)
  obtain new_manifest wr w1 es0 where
    1: "open_manifest M E vs1 w = Some (Status_OK, new_manifest, vs1\<lparr>vs_descriptor_log := Some wr\<rparr>, w1)"
    and wr: "env.writer_at ?name (logged es0) wr" and c1: "contents w1 = (contents w)(?name \<mapsto> log_bytes (logged es0))"
    and rest: "room w1 (length (log_bytes (logged (es0 @ [e]))) - length (log_bytes (logged es0)) +
      ((if new_manifest = [] then 0 else length (manifest_base ?n) + 1) + n))"
    and es0: "?es = es0 @ [e]" and desc: "described ?es ?S"
    and kind: "if new_manifest = [] then contents w (CurrentFileName ?db) = Some (manifest_base ?n @ [10]) else new_manifest = ?name"
  proof (cases "vs_descriptor_log vs")
    case (Some wr)
    then have m: "env.writer_at ?name (logged es) wr" "manifest_holds w ?db ?n (log_bytes (logged es))" "described es S"
      using inv by (simp_all add: manifest_inv_def)
    have "numbers_fresh (with_numbers (\<lambda>_. {}) (concat (map new_files es))) (new_files e)"
      by (rule numbers_fresh_mono [OF fresh]) simp
    from described_append [OF m(3) logged(1) this] have d: "described (es @ [e]) ?S" by (simp add: new(2))
    have "?es = es @ [e]" using e Some by (simp add: es_after_def)
    moreover have "open_manifest M E vs1 w = Some (Status_OK, [], vs1\<lparr>vs_descriptor_log := Some wr\<rparr>, w)"
      using Some fields(3) by (cases vs1) (simp add: open_manifest_def)
    moreover have "contents w = (contents w)(?name \<mapsto> log_bytes (logged es))" using m(2) by (simp add: manifest_holds_def fun_upd_idem)
    ultimately show thesis using that [of "[]" wr w es] m room d Some by (simp add: bytes_needed_def manifest_holds_def add.assoc)
  next
    case None
    then have none: "vs_descriptor_log vs1 = None" and es: "es = []" using fields(3) inv by (simp_all add: manifest_inv_def)
    from snapshot_ok [OF vs1(1) stored vs1(5) Name_short] obtain e0 where
      e0: "snapshot_edit vs1 = Some e0" "edit_logged e0" "numbers_fresh (\<lambda>_. {}) (new_files e0)"
        "\<forall>l < kNumLevels. edit_level e0 l {} = S l \<and> with_numbers (\<lambda>_. {}) (new_files e0) l = fst ` S l" by blast
    have "described [e0] S" using e0 by (simp add: described_def)
    moreover have "numbers_fresh (with_numbers (\<lambda>_. {}) (concat (map new_files [e0]))) (new_files e)"
      by (rule numbers_fresh_mono [OF fresh]) (simp add: e0(4))
    ultimately have d: "described ([e0] @ [e]) ?S" using described_append [OF _ logged(1), of "[e0]" S] by (simp add: new(2))
    have es2: "?es = [e0] @ [e]" using e b e0(1) None by (simp add: es_after_def)
    have L: "length (log_bytes (logged [e0])) \<le> length (log_bytes (logged ([e0] @ [e])))"
      using log_bytes_mono [of "logged [e0]"] by (simp add: logged_def)
    have nil: "log_bytes (logged []) = []" by (simp add: logged_def log_bytes_def)
    have name: "?name \<noteq> []" by (simp add: manifest_name_def)
    have "bytes_needed vs es edit + n = length (log_bytes (logged [e0])) + (length (log_bytes (logged ([e0] @ [e]))) -
        length (log_bytes (logged [e0])) + ((length (manifest_base ?n) + 1) + n))"
      using L None nil unfolding bytes_needed_def es2 unfolding es by simp
    note fits_room = room [unfolded this]
    have "0 < vs_manifest_file_number vs1" using n fields(2) by simp
    from open_manifest_ok [OF none vs1(1) stored vs1(5) this e0(1) fits_room, of M, unfolded fields(1,2)] obtain wr w1 where
      "open_manifest M E vs1 w = Some (Status_OK, ?name, vs1\<lparr>vs_descriptor_log := Some wr\<rparr>, w1)"
      "env.writer_at ?name (logged [e0]) wr" "contents w1 = (contents w)(?name \<mapsto> log_bytes (logged [e0]))"
      "room w1 (length (log_bytes (logged ([e0] @ [e]))) - length (log_bytes (logged [e0])) + ((length (manifest_base ?n) + 1) + n))"
      by (elim exE conjE)
    then show thesis using that [of ?name wr w1 "[e0]"] d es2 name by simp
  qed
  let ?vs = "vs1\<lparr>vs_descriptor_log := Some wr\<rparr>"
  have "contents w1 ?name = Some (log_bytes (logged es0))" by (simp add: c1)
  from env.log_edit_ok [OF _ wr this logged(2) rest, of ?vs M] obtain wr2 w2 where
    2: "log_edit M E e ?vs w1 = Some (Status_OK, vs1\<lparr>vs_descriptor_log := Some wr2\<rparr>, w2)" "env.writer_at ?name (logged ?es) wr2"
      "contents w2 = (contents w1)(?name \<mapsto> log_bytes (logged ?es))" "room w2 ((if new_manifest = [] then 0 else length (manifest_base ?n) + 1) + n)"
    by (auto simp: es0)
  obtain w3 where 3: "(if status_ok Status_OK \<and> new_manifest \<noteq> [] then SetCurrentFile E ?db ?n w2 else Some (Status_OK, w2)) = Some (Status_OK, w3)"
    "manifest_holds w3 ?db ?n (log_bytes (logged ?es))" "room w3 n"
  proof (cases "new_manifest = []")
    case True
    then show thesis using that [of w2] kind 2(3,4) c1 cur by (simp add: manifest_holds_def)
  next
    case False
    from env.SetCurrentFile_ok [OF n, of w2 n ?db] 2(4) False obtain w3 tmp where
      "SetCurrentFile E ?db ?n w2 = Some (Status_OK, w3)" "TempFileName ?db ?n = Some tmp"
      "contents w3 = (contents w2)(tmp := None, CurrentFileName ?db \<mapsto> manifest_base ?n @ [10])" "room w3 n" by auto
    with manifest_name_distinct [of ?db ?n] show thesis using that [of w3] False 2(3) by (simp add: manifest_holds_def)
  qed
  from manifest_installed [OF inv fits frame vs1 has es' 2(2) 3(2) desc] obtain vs2 where
    4: "AppendVersion v (vs1\<lparr>vs_descriptor_log := Some wr2\<rparr>) = Some vs2"
      "manifest_inv (vs2\<lparr>vs_log_number := e_log_number e, vs_prev_log_number := e_prev_log_number e\<rparr>) w3 ?es ?S" "keeps_numbers vs vs2" by blast
  have "LogAndApply M E edit vs w = Some (Status_OK, vs2\<lparr>vs_log_number := e_log_number e, vs_prev_log_number := e_prev_log_number e\<rparr>, w3)"
    using e b 1 2(1) 3(1) 4(1) fields by (cases "new_manifest = []") (simp_all add: LogAndApply_def)
  moreover have "keeps_numbers vs (vs2\<lparr>vs_log_number := e_log_number e, vs_prev_log_number := e_prev_log_number e\<rparr>)"
    using 4(3) by (simp add: keeps_numbers_def)
  ultimately show ?thesis using 4(2) 3(3) by blast
qed

end

end
