(* ===== verification/Ldb_Recover_Spec.thy ===== *)
theory Ldb_Recover_Spec
  imports Ldb_Manifest_Spec
begin

text \<open>
  \<open>Recover\<close> over a manifest that holds the log of some edits and may be cut off at any byte: it applies the edits
  whose records are whole.
\<close>

section \<open>Reading the edits\<close>

lemma recover_numbers_builder: "recover_numbers e (st\<lparr>rec_builder := b\<rparr>) = (recover_numbers e st)\<lparr>rec_builder := b\<rparr>"
  by (simp add: recover_numbers_def)

lemma fold_numbers_builder:
  "fold recover_numbers es (st\<lparr>rec_builder := b\<rparr>) = (fold recover_numbers es st)\<lparr>rec_builder := b\<rparr>"
  by (induction es arbitrary: st) (simp_all add: recover_numbers_builder)

lemma fold_numbers_status: "rec_status (fold recover_numbers es st) = rec_status st \<and> rec_builder (fold recover_numbers es st) = rec_builder st"
  by (induction es arbitrary: st) (simp_all add: recover_numbers_def)

definition numbers_found :: "VersionEdit \<Rightarrow> RecoverState \<Rightarrow> bool" where
  "numbers_found e st \<longleftrightarrow> rec_log_number st = Some (e_log_number e) \<and> rec_prev_log_number st = Some (e_prev_log_number e) \<and>
     rec_next_file st = Some (e_next_file_number e) \<and> rec_last_sequence st = Some (e_last_sequence e)"

definition has_numbers :: "VersionEdit \<Rightarrow> bool" where
  "has_numbers e \<longleftrightarrow> has_log_number e \<and> has_prev_log_number e \<and> has_next_file_number e \<and> has_last_sequence e"

lemma fold_numbers_found: "es \<noteq> [] \<Longrightarrow> has_numbers (last es) \<Longrightarrow> numbers_found (last es) (fold recover_numbers es st)"
  by (cases es rule: rev_cases) (simp_all add: numbers_found_def has_numbers_def recover_numbers_def found_def)

text \<open>The edit that a record of the log decodes to.\<close>

lemma recover_edit_logged:
  assumes "edit_ok e" and "VersionEdit_EncodeTo e [] = Some s" and "has_comparator e \<longrightarrow> e_comparator e = Name (vs_user vs)"
    and "Builder_Apply e (vs, rec_builder st) = Some (vs', b')"
  shows "recover_edit s (vs, st) = Some (vs', recover_numbers e (st\<lparr>rec_status := Status_OK, rec_builder := b'\<rparr>))"
proof -
  have "VersionEdit_DecodeFrom s VersionEdit_new = (Status_OK, e)"
    using decode_encoded [OF assms(1), of VersionEdit_new] assms(2) by (simp add: VersionEdit_new_def)
  with assms(3,4) show ?thesis by (auto simp: recover_edit_def Let_def)
qed

lemma recover_records_step:
  assumes "ReadRecord M F r = Some (Some s, r')" and "reporter r' = reporter r" and "status_ok (rec_status st)"
    and "recover_edit s (vs, st) = Some vst"
  shows "recover_records M F r (vs, st) = recover_records M F r' vst"
  using assms by (subst recover_records.simps) (simp add: reported_def)

lemma recover_records_end:
  assumes "ReadRecord M F r = Some (None, r')" and "reporter r' = reporter r"
  shows "recover_records M F r (vs, st) = Some (vs, st)"
  using assms by (subst recover_records.simps) (simp add: reported_def)

context sequential_file
begin

lemma recover_log:
  assumes "log_layout off (logged es) = (bs, off')" and "off \<le> 32768" and "reader_at D blk off r"
    and "drop (blk + off) D = bs @ take m cs" and "blk + off \<le> length D"
    and "record_layout off' True s = (cs, off'')" and "m < length cs"
    and "\<forall>e \<in> set es. edit_ok e \<and> (has_comparator e \<longrightarrow> e_comparator e = Name (vs_user vs))"
    and "rec_status st = Status_OK" and "fold_option Builder_Apply es (vs, rec_builder st) = Some (vs', b')"
  shows "recover_records M F r (vs, st) = Some (vs', (fold recover_numbers es st)\<lparr>rec_builder := b'\<rparr>)"
  using assms(1-5,8-10)
proof (induction es arbitrary: off bs blk r vs st)
  case Nil
  then have "record_layout off True s = (cs, off'')" "drop (blk + off) D = take m cs" using assms(6) by (simp_all add: logged_def)
  from read_torn_record [OF this(1) Nil.prems(2,3) this(2) assms(7) Nil.prems(5), of read_vars_0 M] obtain r' where
    "ReadRecord M F r = Some (None, r')" "reporter r' = reporter r"
    by (auto simp: read_vars_0_def ReadRecord_here [OF Nil.prems(3)])
  from recover_records_end [OF this] have "recover_records M F r (vs, st) = Some (vs, st)" .
  moreover have "vs' = vs" "st\<lparr>rec_builder := b'\<rparr> = st" using Nil.prems(8) by (cases st, simp)+
  ultimately show ?case by simp
next
  case (Cons e es)
  have e: "edit_ok e" "has_comparator e \<longrightarrow> e_comparator e = Name (vs_user vs)" using Cons.prems(6) by simp_all
  obtain a where a: "VersionEdit_EncodeTo e [] = Some a" using decode_encoded [OF e(1)] by blast
  obtain vs1 b1 where apply1: "Builder_Apply e (vs, rec_builder st) = Some (vs1, b1)" "fold_option Builder_Apply es (vs1, b1) = Some (vs', b')"
    using Cons.prems(8) by (auto simp: bind_eq_Some_conv)
  obtain c1 o1 where c1: "record_layout off True a = (c1, o1)" by fastforce
  obtain c2 o2 where c2: "log_layout o1 (logged es) = (c2, o2)" by fastforce
  with Cons.prems(1) c1 a have bs: "bs = c1 @ c2" "off' = o2" by (auto simp: logged_def)
  have D: "drop (blk + off) D = c1 @ (c2 @ take m cs)" using Cons.prems(4) bs by simp
  from read_record [OF c1 Cons.prems(2,3) D, of read_vars_0 M] obtain r1 blk1 where r1:
    "ReadRecord M F r = Some (Some a, r1)" "reader_at D blk1 o1 r1"
    "blk1 + o1 = blk + off + length c1" "reporter r1 = reporter r"
    by (auto simp: read_vars_0_def ReadRecord_here [OF Cons.prems(3)])
  have "drop (blk1 + o1) D = drop (length c1) (drop (blk + off) D)"
    unfolding r1(3) drop_drop by (rule arg_cong [where f = "\<lambda>n. drop n D"]) simp
  then have D1: "drop (blk1 + o1) D = c2 @ take m cs" by (simp add: D)
  have "length (drop (blk + off) D) = length c1 + length (c2 @ take m cs)" by (simp add: D)
  then have le: "blk1 + o1 \<le> length D" using r1(3) Cons.prems(5) by simp
  have user: "vs_user vs1 = vs_user vs" using Builder_Apply_frame(1) [OF apply1(1)] by (simp add: keeps_versions_def frame_def)
  let ?st = "recover_numbers e (st\<lparr>rec_status := Status_OK, rec_builder := b1\<rparr>)"
  have "recover_records M F r (vs, st) = recover_records M F r1 (vs1, ?st)"
    using recover_records_step [OF r1(1,4) _ recover_edit_logged [OF e(1) a e(2) apply1(1)]] Cons.prems(7) by simp
  also have "\<dots> = Some (vs', (fold recover_numbers es ?st)\<lparr>rec_builder := b'\<rparr>)"
    using Cons.prems(6) user record_layout_offset [OF c1] apply1(2)
    by (intro Cons.IH [OF c2 [folded bs(2)] _ r1(2) D1 le]) (auto simp: recover_numbers_def)
  also have "st\<lparr>rec_status := Status_OK, rec_builder := b1\<rparr> = st\<lparr>rec_builder := b1\<rparr>" using Cons.prems(7) by (cases st) simp
  finally show ?case by (simp add: recover_numbers_builder fold_numbers_builder)
qed

end


section \<open>Installing what was read\<close>

lemma Builder_Apply_all_frame:
  "fold_option Builder_Apply es (vs, b) = Some (vs', b') \<Longrightarrow> keeps_versions vs vs' \<and> b_base b' = b_base b"
proof (induction es arbitrary: vs b)
  case (Cons e es)
  obtain vs1 b1 where 1: "Builder_Apply e (vs, b) = Some (vs1, b1)" "fold_option Builder_Apply es (vs1, b1) = Some (vs', b')"
    using Cons.prems by (auto simp: bind_eq_Some_conv)
  from keeps_versions_trans [OF Builder_Apply_frame(1) [OF 1(1)]] Cons.IH [OF 1(2)] Builder_Apply_frame(3) [OF 1(1)] show ?case by auto
qed (simp add: keeps_versions_def same_info_def)

lemma SaveTo_number:
  "Builder_SaveTo b v vs = Some (v', vs') \<Longrightarrow>
     Builder_SaveTo b v (vs\<lparr>vs_next_file_number := n\<rparr>) = Some (v', vs'\<lparr>vs_next_file_number := n\<rparr>)"
  by (auto simp: Builder_SaveTo_def version_of_def bind_eq_Some_conv)

lemma MarkFileNumberUsed_sets: "\<exists>k. MarkFileNumberUsed n (MarkFileNumberUsed n' vs) = vs\<lparr>vs_next_file_number := k\<rparr>"
  by (cases vs) (simp add: MarkFileNumberUsed_def)

text \<open>Dropping the last reference to a version that is not the current one.\<close>

lemma Builder_delete_other:
  assumes cur: "current_is i v vs" and old: "version_of j vs = Some u" "1 \<le> v_refs u" "j \<noteq> i" and b: "b_base b = j"
  shows "\<exists>vs'. Builder_delete b vs = Some vs' \<and> current_is i v vs' \<and> frame vs vs' \<and>
    same_info UNIV (vs_files vs) (vs_files vs') \<and> vs_next_file vs' = vs_next_file vs"
proof -
  let ?h = "fold (\<lambda>level. drop_files (ls_added_files (b_levels b level))) [0..<kNumLevels] (vs_files vs)"
  let ?vs = "vs\<lparr>vs_files := ?h\<rparr>"
  have "version_of j ?vs = Some u" using old(1) by (simp add: version_of_def)
  from Version_Unref_ok [OF this old(2)] obtain vs' where
    vs': "Version_Unref j ?vs = Some vs'" "frame ?vs vs'" "same_info UNIV ?h (vs_files vs')" "vs_next_file vs' = vs_next_file vs"
      "vs_next_version vs' = vs_next_version vs" "vs_current vs' = vs_current vs"
      "dom (map_of (vs_versions vs')) \<subseteq> dom (map_of (vs_versions vs))" "\<forall>k. k \<noteq> j \<longrightarrow> version_of k vs' = version_of k ?vs"
    by auto
  have "current_is i v vs'" using cur vs'(5-8) old(3) by (auto simp: current_is_def version_of_def)
  moreover have "Builder_delete b vs = Some vs'" using vs'(1) b by (simp add: Builder_delete_def)
  moreover have "frame vs vs'" using vs'(2) by (simp add: frame_def)
  ultimately show ?thesis using same_info_trans [OF added_dropped vs'(3)] vs'(4) by blast
qed


lemma VersionSet_new_ok:
  assumes "VersionSet_new dbname options C = Some vs"
  shows "current_is 0 (Version_new\<lparr>v_refs := 1\<rparr>) vs" and "vs_dbname vs = dbname" and "vs_options vs = options" and "vs_user vs = C"
    and "vs_descriptor_log vs = None" and "vs_next_version vs = 1"
  using assms by (auto simp: VersionSet_new_def AppendVersion_def current_is_def version_of_def Version_new_def Let_def split: if_splits)

text \<open>The first \<open>k\<close> records of the log are whole in its first \<open>m\<close> bytes, and no more.\<close>

definition whole_in :: "slice list \<Rightarrow> nat \<Rightarrow> nat \<Rightarrow> bool" where
  "whole_in ss k m \<longleftrightarrow> m \<le> length (log_bytes ss) \<and> k \<le> length ss \<and> length (log_bytes (take k ss)) \<le> m \<and>
     (k < length ss \<longrightarrow> m < length (log_bytes (take (Suc k) ss)))"

context manifest_env
begin

lemma ReuseManifest_ok:
  assumes none: "vs_descriptor_log vs = None" and c: "contents w dscname = Some D" and room: "room w j"
  shows "\<exists>reused x y w'. ReuseManifest M E dscname (manifest_base n) vs w =
      Some (reused, vs\<lparr>vs_descriptor_log := x, vs_manifest_file_number := y\<rparr>, w') \<and> contents w' = contents w \<and> room w' j \<and> (reused \<longleftrightarrow> x \<noteq> None)"
proof (cases "reuse_logs (vs_options vs) \<and> \<not> scast (TargetFileSize (vs_options vs)) \<le> (of_nat (length D) :: u64)")
  case True
  from env.NewAppendableFile [OF room c] obtain f w' where
    f: "env_NewAppendableFile E dscname w = ((Status_OK, Some f), w')" "contents w' = contents w" "room w' j" by blast
  obtain wr where wr: "Writer_new M f (of_nat (length D)) = Some wr" by (simp add: Writer_new_def InitTypeCrc_value)
  have p: "ParseFileName (manifest_base n) = Some (n, kDescriptorFile)" by (simp only: manifest_base_def ParseFileName_manifest)
  show ?thesis using True none p env.GetFileSize [OF room c] f wr
    by (intro exI [of _ True] exI [of _ "Some wr"] exI [of _ n] exI [of _ w']) (simp add: ReuseManifest_def)
next
  case False
  have p: "ParseFileName (manifest_base n) = Some (n, kDescriptorFile)" by (simp only: manifest_base_def ParseFileName_manifest)
  have "vs = vs\<lparr>vs_descriptor_log := None, vs_manifest_file_number := vs_manifest_file_number vs\<rparr>" using none by (cases vs) simp
  then show ?thesis using False none p env.GetFileSize [OF room c] room
    by (intro exI [of _ False] exI [of _ None] exI [of _ "vs_manifest_file_number vs"] exI [of _ w]) (auto simp: ReuseManifest_def)
qed

lemma new_base_ok:
  assumes "vs_user vs = C"
  shows "base_ok vs (Version_new\<lparr>v_refs := 1\<rparr>)" and "level_set (vs_files vs) (set (v_files (Version_new\<lparr>v_refs := 1\<rparr>) l)) = {}"
  using assms by (simp_all add: base_ok_def level_inv_def Version_new_def level_set_def)

text \<open>The end of \<open>Recover\<close>, once the edits are in the builder.\<close>

lemma install_recovered_ok:
  assumes cur: "current_is i v0 vs" "2 \<le> v_refs v0" and b: "b_base (rec_builder st) = i"
    and v: "Builder_SaveTo (rec_builder st) Version_new vs = Some (v, vs2)" "base_ok vs2 v"
      "\<forall>l < kNumLevels. level_set (vs_files vs2) (set (v_files v l)) = S l"
    and found: "numbers_found e st" and none: "vs_descriptor_log vs = None"
    and c: "contents w dscname = Some D" and room: "room w j"
  shows "\<exists>save_manifest vs3 vs4 w'. install_recovered M E dscname (manifest_base n) st vs w = Some (save_manifest, vs3, w') \<and>
    Builder_delete (rec_builder st) vs3 = Some vs4 \<and> holds vs4 S \<and> vs_log_number vs4 = e_log_number e \<and>
    vs_prev_log_number vs4 = e_prev_log_number e \<and> vs_last_sequence vs4 = e_last_sequence e \<and>
    vs_next_file_number vs4 = e_next_file_number e + 1 \<and> (save_manifest \<longleftrightarrow> vs_descriptor_log vs4 = None) \<and>
    contents w' = contents w \<and> room w' j"
proof -
  note 1 = Builder_SaveTo_frame [OF v(1)]
  let ?v = "Finalize (vs_options vs2) (vs_files vs2) v"
  have "v_refs ?v = 0" using 1(3) by (simp add: Version_new_def)
  from AppendVersion_ok [OF current_is_kept [OF cur(1) 1(1)] this] cur(2) obtain vs3 where
    2: "AppendVersion ?v vs2 = Some vs3" "current_is (vs_next_version vs2) (?v\<lparr>v_refs := 1\<rparr>) vs3" "frame vs2 vs3"
      "same_info UNIV (vs_files vs2) (vs_files vs3)" "vs_next_file vs3 = vs_next_file vs2"
      "version_of i vs3 = Some (v0\<lparr>v_refs := v_refs v0 - 1\<rparr>)" by blast
  let ?vs = "vs3\<lparr>vs_manifest_file_number := e_next_file_number e, vs_next_file_number := e_next_file_number e + 1,
           vs_last_sequence := e_last_sequence e, vs_log_number := e_log_number e, vs_prev_log_number := e_prev_log_number e\<rparr>"
  have "vs_descriptor_log ?vs = None" using none 1(1) 2(3) by (simp add: keeps_versions_def frame_def)
  from ReuseManifest_ok [OF this c room, of M n] obtain reused x y w' where
    3: "ReuseManifest M E dscname (manifest_base n) ?vs w = Some (reused, ?vs\<lparr>vs_descriptor_log := x, vs_manifest_file_number := y\<rparr>, w')"
      "contents w' = contents w" "room w' j" "reused \<longleftrightarrow> x \<noteq> None" by blast
  let ?vs4 = "?vs\<lparr>vs_descriptor_log := x, vs_manifest_file_number := y\<rparr>"
  have cur4: "current_is (vs_next_version vs2) (?v\<lparr>v_refs := 1\<rparr>) ?vs4" "version_of i ?vs4 = Some (v0\<lparr>v_refs := v_refs v0 - 1\<rparr>)"
    using 2(2,6) by (simp_all add: current_is_def version_of_def)
  have "i < vs_next_version vs2" using current_is_kept [OF cur(1) 1(1)] by (auto simp: current_is_def version_of_def)
  then have "i \<noteq> vs_next_version vs2" by simp
  from Builder_delete_other [OF cur4 _ this b] cur(2) obtain vs5 where
    4: "Builder_delete (rec_builder st) ?vs4 = Some vs5" "current_is (vs_next_version vs2) (?v\<lparr>v_refs := 1\<rparr>) vs5" "frame ?vs4 vs5"
      "same_info UNIV (vs_files vs3) (vs_files vs5)" "vs_next_file vs5 = vs_next_file vs3" by auto
  have "vs_user vs5 = vs_user vs2" using 2(3) 4(3) by (simp add: frame_def)
  moreover have "same_info {..<vs_next_file vs2} (vs_files vs2) (vs_files vs5)" using same_info_trans [OF 2(4) 4(4)] by (simp add: same_info_def)
  ultimately have "base_ok vs5 v" "l < kNumLevels \<Longrightarrow> level_set (vs_files vs5) (set (v_files v l)) = S l" for l
    using files_kept [OF v(2), of vs5] v(3) 2(5) 4(5) by simp_all
  then have "holds vs5 S" unfolding holds_def using 4(2) by (intro exI [of _ "vs_next_version vs2"] exI [of _ "?v\<lparr>v_refs := 1\<rparr>"]) simp
  moreover have "install_recovered M E dscname (manifest_base n) st vs w = Some (\<not> reused, ?vs4, w')"
    using v(1) 2(1) 3(1) found by (simp add: install_recovered_def numbers_found_def or_zero_def)
  ultimately show ?thesis using 3(2-4) 4(1,3)
    by (intro exI [of _ "\<not> reused"] exI [of _ ?vs4] exI [of _ vs5] exI [of _ w']) (simp add: frame_def)
qed


lemma Recover_ok:
  assumes new: "VersionSet_new dbname options C = Some vs" and room: "room w j"
    and file_is: "manifest_holds w dbname n (take m (log_bytes (logged es)))" and cut: "whole_in (logged es) k m"
    and desc: "described (take k es) S" and k: "0 < k" "has_numbers (es ! (k - 1))"
    and disj: "\<forall>l. 0 < l \<and> l < kNumLevels \<longrightarrow> disjoint_level C (S l)"
  shows "\<exists>save_manifest vs' w'. Recover M E vs w = Some (Status_OK, save_manifest, vs', w') \<and> holds vs' S \<and>
    vs_log_number vs' = e_log_number (es ! (k - 1)) \<and> vs_prev_log_number vs' = e_prev_log_number (es ! (k - 1)) \<and>
    vs_last_sequence vs' = e_last_sequence (es ! (k - 1)) \<and> vs_next_file_number vs' = e_next_file_number (es ! (k - 1)) + 1 \<and>
    (save_manifest \<longleftrightarrow> vs_descriptor_log vs' = None) \<and> contents w' = contents w \<and> room w' j"
proof -
  let ?es = "take k es" and ?e = "es ! (k - 1)" and ?v0 = "Version_new\<lparr>v_refs := 1\<rparr>" and ?D = "take m (log_bytes (logged es))"
  note vs = VersionSet_new_ok [OF new] and base = new_base_ok [OF VersionSet_new_ok(4) [OF new]]
  have current: "contents w (CurrentFileName dbname) = Some (manifest_base n @ [10])"
    and manifest: "contents w (manifest_name dbname n) = Some ?D" using file_is by (simp_all add: manifest_holds_def)
  have len: "k \<le> length es" and logged_take: "take k (logged es) = logged ?es" using cut by (simp_all add: whole_in_def logged_def take_map)
  have ne: "?es \<noteq> []" using k(1) len by auto
  then have last_e: "last ?es = ?e" using last_conv_nth [OF ne] k(1) len by (simp add: min_absorb2)
  obtain bs off s cs off' p where l: "log_layout 0 (logged ?es) = (bs, off)" and cs: "record_layout off True s = (cs, off')"
    and D: "?D = bs @ take p cs" "p < length cs"
    using cut_log [of m "logged es" k] cut unfolding whole_in_def logged_take by metis
  have at: "version_of 0 vs = Some ?v0" using vs(1) by (simp add: current_is_def)
  have S: "fold (\<lambda>e. edit_level e l) ?es {} = S l" if "l < kNumLevels" for l using desc that by (simp add: described_def)
  have fresh: "numbers_fresh (\<lambda>l. fst ` level_set (vs_files vs) (set (v_files ?v0 l))) (concat (map new_files ?es))"
    unfolding base(2) using desc by (simp add: described_def)
  have valid: "\<forall>e \<in> set ?es. edit_valid ikey e" using desc by (auto simp: described_def edit_logged_def)
  have "\<forall>l. 0 < l \<and> l < kNumLevels \<longrightarrow>
      disjoint_level C (fold (\<lambda>e. edit_level e l) ?es (level_set (vs_files vs) (set (v_files ?v0 l))))"
    unfolding base(2) using disj S by simp
  from Builder_result [OF at base(1) fresh valid this, unfolded base(2)] obtain b0 vs0 vs1 b v vs2 where
    b: "Builder_new 0 vs = Some (b0, vs0)" "fold_option Builder_Apply ?es (vs0, b0) = Some (vs1, b)" "Builder_SaveTo b Version_new vs1 = Some (v, vs2)"
      "base_ok vs2 v" "\<forall>l < kNumLevels. level_set (vs_files vs2) (set (v_files v l)) = fold (\<lambda>e. edit_level e l) ?es {}"
    by (elim exE conjE) (rule that, assumption+, blast)
  from Version_Ref_current [OF vs(1)] b(1) have 0: "current_is 0 (Version_new\<lparr>v_refs := 2\<rparr>) vs0" "frame vs vs0" "b_base b0 = 0"
    by (auto simp: Builder_new_def)
  note 1 = Builder_Apply_all_frame [OF b(2)]
  have cur1: "current_is 0 (Version_new\<lparr>v_refs := 2\<rparr>) vs1" using current_is_kept [OF 0(1)] 1 by blast
  let ?st = "\<lparr>rec_status = Status_OK, rec_builder = b0, rec_log_number = None, rec_prev_log_number = None, rec_next_file = None,
            rec_last_sequence = None\<rparr>"
  define st where "st = (fold recover_numbers ?es ?st)\<lparr>rec_builder := b\<rparr>"
  from env.NewSequentialFile [OF room manifest] obtain f where
    f: "env_NewSequentialFile E (manifest_name dbname n) w = (Status_OK, Some f)" "good f" "unread f = ?D" by blast
  have read: "recover_records M (env_in E) (Reader_new f True True 0) (vs0, ?st) = Some (vs1, st)"
    unfolding st_def
    by (rule env.recover_log [OF l _ env.reader_at_new [OF f(2,3)] _ _ cs D(2)])
      (use D(1) desc b(2) vs(4) 0(2) in \<open>auto simp: described_def edit_logged_def frame_def\<close>)
  have st: "rec_status st = Status_OK" "rec_builder st = b" using fold_numbers_status [of ?es ?st] by (simp_all add: st_def)
  have found: "numbers_found ?e st"
    using fold_numbers_found [OF ne, of ?st] k(2) last_e by (simp add: st_def numbers_found_def)
  obtain q where q: "MarkFileNumberUsed (or_zero (rec_log_number st)) (MarkFileNumberUsed (or_zero (rec_prev_log_number st)) vs1) =
      vs1\<lparr>vs_next_file_number := q\<rparr>"
    using MarkFileNumberUsed_sets by blast
  let ?vs = "vs1\<lparr>vs_next_file_number := q\<rparr>"
  have "current_is 0 (Version_new\<lparr>v_refs := 2\<rparr>) ?vs" using cur1 by (simp add: current_is_def version_of_def)
  moreover have "b_base (rec_builder st) = 0" using 1 0(3) st by simp
  moreover have "Builder_SaveTo (rec_builder st) Version_new ?vs = Some (v, vs2\<lparr>vs_next_file_number := q\<rparr>)"
    unfolding st(2) by (rule SaveTo_number [OF b(3)])
  moreover have "base_ok (vs2\<lparr>vs_next_file_number := q\<rparr>) v" using b(4) by (simp add: base_ok_def)
  moreover have "\<forall>l < kNumLevels. level_set (vs_files (vs2\<lparr>vs_next_file_number := q\<rparr>)) (set (v_files v l)) = S l" using b(5) S by simp
  moreover have "vs_descriptor_log ?vs = None" using vs(5) 0(2) 1 by (simp add: keeps_versions_def frame_def)
  ultimately obtain save_manifest vs3 vs4 w' where
    2: "install_recovered M E (manifest_name dbname n) (manifest_base n) st ?vs w = Some (save_manifest, vs3, w')"
      "Builder_delete (rec_builder st) vs3 = Some vs4" and result: "holds vs4 S" "vs_log_number vs4 = e_log_number ?e"
      "vs_prev_log_number vs4 = e_prev_log_number ?e" "vs_last_sequence vs4 = e_last_sequence ?e"
      "vs_next_file_number vs4 = e_next_file_number ?e + 1" "save_manifest \<longleftrightarrow> vs_descriptor_log vs4 = None"
      "contents w' = contents w" "room w' j"
    using install_recovered_ok [OF _ _ _ _ _ _ found _ manifest room, of 0 "Version_new\<lparr>v_refs := 2\<rparr>" ?vs v "vs2\<lparr>vs_next_file_number := q\<rparr>" S M n]
    by auto
  have "check_numbers st = Status_OK" using found by (simp add: check_numbers_def numbers_found_def)
  then have "recover_manifest M E (manifest_name dbname n) (manifest_base n) f vs w = Some (Status_OK, save_manifest, vs4, w')"
    using vs(1) b(1) read st(1) q 2 by (simp add: recover_manifest_def current_is_def Let_def)
  moreover have "ReadFileToString E (CurrentFileName dbname) w = Some (Status_OK, manifest_base n @ [10])"
    by (rule env.ReadFileToString_all [OF room current])
  ultimately have "Recover M E vs w = Some (Status_OK, save_manifest, vs4, w')"
    using f(1) vs(2) by (simp add: Recover_def Let_def manifest_name_def)
  with result show ?thesis by blast
qed

end

end
