(* ===== verification/Ldb_Manifest_Props.thy ===== *)
theory Ldb_Manifest_Props
  imports Ldb_Recover_Spec Ldb_Version_Props
begin

text \<open>The properties of the manifest, on any environment that keeps its promises, and a database over the POSIX one.\<close>

interpretation posix_manifest: manifest_env PosixEnv posix_good posix_unread "\<lambda>w. map_of (px_files w)" posix_room pw_filename
    BytewiseComparator "\<lambda>_. True"
  by (intro manifest_env.intro manifest_env_axioms.intro posix_durable.durable_env_axioms bytewise.comparator_axioms)
    (simp add: BytewiseComparator_def)

lemma es_after_last:
  assumes "log_number_ok edit vs"
  shows "es_after vs es edit \<noteq> [] \<and> has_numbers (last (es_after vs es edit)) \<and>
    e_last_sequence (last (es_after vs es edit)) = vs_last_sequence vs \<and>
    e_next_file_number (last (es_after vs es edit)) = vs_next_file_number vs"
  using edit_to_log_ok [OF assms] by (cases "vs_descriptor_log vs = None") (auto simp: es_after_def has_numbers_def)

lemma whole_log: "whole_in ss (length ss) (length (log_bytes ss))"
  by (simp add: whole_in_def)

text \<open>C38: applying an edit succeeds while the files have room, makes the version whose levels the edit describes, and
  keeps the manifest's invariant: it is the log of edits that make this version from nothing. Recovering a new
  version set from the files then succeeds and gives the same levels, log numbers, last sequence, and the next file
  number after the one that was used for a manifest.\<close>

theorem applied_edit_is_recovered:
  assumes env: "manifest_env E good unread contents room on C key" and inv: "manifest_env.manifest_inv contents on C key vs w es S"
    and fits: "manifest_env.edit_fits C key vs es S edit" and room: "room w (bytes_needed vs es edit + n)"
    and new: "VersionSet_new (vs_dbname vs) options C = Some fresh"
  shows "\<exists>vs' w' save_manifest vs2 w2. LogAndApply M E edit vs w = Some (Status_OK, vs', w') \<and>
    manifest_env.manifest_inv contents on C key vs' w' (es_after vs es edit) (\<lambda>l. edit_level edit l (S l)) \<and>
    Recover M E fresh w' = Some (Status_OK, save_manifest, vs2, w2) \<and>
    comparator.holds C key vs' (\<lambda>l. edit_level edit l (S l)) \<and> comparator.holds C key vs2 (\<lambda>l. edit_level edit l (S l)) \<and>
    vs_log_number vs2 = vs_log_number vs' \<and> vs_prev_log_number vs2 = vs_prev_log_number vs' \<and>
    vs_last_sequence vs2 = vs_last_sequence vs' \<and> vs_next_file_number vs2 = vs_next_file_number vs' + 1 \<and> contents w2 = contents w'"
proof -
  let ?es = "es_after vs es edit" and ?S = "\<lambda>l. edit_level edit l (S l)"
  obtain vs' w' where 1: "LogAndApply M E edit vs w = Some (Status_OK, vs', w')"
    "manifest_env.manifest_inv contents on C key vs' w' ?es ?S" "room w' n" "keeps_numbers vs vs'"
    using manifest_env.LogAndApply_ok [OF env inv fits room] by blast
  have "log_number_ok edit vs" using fits by (simp add: manifest_env.edit_fits_def [OF env])
  note last = es_after_last [OF this, of es]
  have k: "take (length ?es) ?es = ?es" "?es ! (length ?es - 1) = last ?es" "0 < length ?es" "length (logged ?es) = length ?es"
    using last by (simp_all add: last_conv_nth logged_def)
  from 1(2) last have inv': "comparator.holds C key vs' ?S" "\<forall>l. 0 < l \<and> l < kNumLevels \<longrightarrow> disjoint_level C (?S l)"
    "manifest_env.manifest_holds contents w' (vs_dbname vs) (vs_manifest_file_number vs) (take (length (log_bytes (logged ?es))) (log_bytes (logged ?es)))"
    "manifest_env.described C key (take (length ?es) ?es) ?S" "numbers_in (last ?es) vs'"
    using 1(4) by (auto simp: manifest_env.manifest_inv_def [OF env] keeps_numbers_def split: option.splits)
  have "has_numbers (?es ! (length ?es - 1))" using last k(2) by simp
  from manifest_env.Recover_ok [OF env new 1(3) inv'(3) whole_log [of "logged ?es", unfolded k(4)] inv'(4) k(3) this inv'(2), where M = M]
  obtain s vs2 w2 where 2: "Recover M E fresh w' = Some (Status_OK, s, vs2, w2)" "comparator.holds C key vs2 ?S"
      "vs_log_number vs2 = e_log_number (last ?es)" "vs_prev_log_number vs2 = e_prev_log_number (last ?es)"
      "vs_last_sequence vs2 = e_last_sequence (last ?es)" "vs_next_file_number vs2 = e_next_file_number (last ?es) + 1" "contents w2 = contents w'"
    unfolding k(2) by (elim exE conjE) (rule that, assumption+)
  have "vs_last_sequence vs' = vs_last_sequence vs" "vs_next_file_number vs' = vs_next_file_number vs" using 1(4) by (simp_all add: keeps_numbers_def)
  with 1(1,2) 2 inv'(1,5) last show ?thesis
    by (intro exI [of _ vs'] exI [of _ w'] exI [of _ s] exI [of _ vs2] exI [of _ w2]) (simp add: numbers_in_def)
qed

text \<open>C39: however many bytes of the manifest survive a crash, recovery succeeds and gives the version of the edits
  whose records are whole, with the numbers of the last of these, provided that there is one, that it has
  the numbers, and that the levels above 0 of the version described do not overlap. What was cut off is not reported as a corruption.\<close>

theorem recovery_survives_truncation:
  assumes env: "manifest_env E good unread contents room on C key" and new: "VersionSet_new dbname options C = Some fresh"
    and room: "room w j" and manifest: "manifest_env.manifest_holds contents w dbname n (take m (log_bytes (logged es)))"
    and cut: "whole_in (logged es) k m" and desc: "manifest_env.described C key (take k es) S"
    and k: "0 < k" "has_numbers (es ! (k - 1))" and disj: "\<forall>l. 0 < l \<and> l < kNumLevels \<longrightarrow> disjoint_level C (S l)"
  shows "\<exists>save_manifest vs w'. Recover M E fresh w = Some (Status_OK, save_manifest, vs, w') \<and> comparator.holds C key vs S \<and>
    vs_log_number vs = e_log_number (es ! (k - 1)) \<and> vs_prev_log_number vs = e_prev_log_number (es ! (k - 1)) \<and>
    vs_last_sequence vs = e_last_sequence (es ! (k - 1)) \<and> vs_next_file_number vs = e_next_file_number (es ! (k - 1)) + 1 \<and>
    contents w' = contents w"
  using manifest_env.Recover_ok [OF env new room manifest cut desc k disj, where M = M]
  by (elim exE conjE) (intro exI conjI, assumption+)


text \<open>A new database with one file added to it, on an empty disk.\<close>

definition db_set :: "PosixWritableFile VersionSet" where
  "db_set = the (VersionSet_new [100] Options_new BytewiseComparator)"

lemma db_set: "VersionSet_new [100] Options_new BytewiseComparator = Some db_set"
  by (simp add: db_set_def VersionSet_new_def AppendVersion_def Version_new_def Let_def)

definition db_start :: "PosixWritableFile VersionSet" where
  "db_start = db_set\<lparr>vs_manifest_file_number := 2, vs_next_file_number := 3\<rparr>"

definition db_disk :: "(byte list \<times> byte list) list \<Rightarrow> PosixWorld" where
  "db_disk fs = \<lparr>px_files = fs, px_dirs = [[100]], px_error = (\<lambda>_. None), px_enoent = [], px_eexist = [], px_space = 4096,
     px_flush_ok = True, px_eio = [], px_einval = [], px_dir_sync = (\<lambda>_. None), px_locked_elsewhere = (\<lambda>_. None), px_locks = {}, px_mmaps = 0\<rparr>"

definition db_machine :: machine where
  "db_machine = \<lparr>little = True, addr_of = (\<lambda>_. 0)\<rparr>"

definition db_edit :: VersionEdit where
  "db_edit = AddFile 0 5 10 [97, 1, 3, 0, 0, 0, 0, 0, 0] [98, 1, 3, 0, 0, 0, 0, 0, 0] VersionEdit_new"

definition db_logged :: VersionEdit where
  "db_logged = db_edit\<lparr>has_log_number := True, has_prev_log_number := True, has_next_file_number := True, e_next_file_number := 3,
     has_last_sequence := True\<rparr>"

lemma db_edit_fields: "new_files db_edit = [(0, FileMetaData_new 5 10 [97, 1, 3, 0, 0, 0, 0, 0, 0] [98, 1, 3, 0, 0, 0, 0, 0, 0])]"
    "deleted_files db_edit = {}" "compact_pointers db_edit = []" "\<not> has_log_number db_edit" "\<not> has_comparator db_edit"
    "edit_ok db_edit" "edit_to_log db_edit db_start = Some db_logged" "edit_ok db_logged"
  by (simp_all add: db_edit_def db_logged_def db_start_def db_set_def VersionSet_new_def AppendVersion_def Version_new_def AddFile_def VersionEdit_new_def
      FileMetaData_new_def edit_ok_def file_stored_def key_stored_def kNumLevels_def edit_to_log_def SetLogNumber_def SetPrevLogNumber_def
      SetNextFile_def SetLastSequence_def Let_def)

lemma db_level: "edit_level db_edit l {} = (if l = 0 then {(5, 10, [97, 1, 3, 0, 0, 0, 0, 0, 0], [98, 1, 3, 0, 0, 0, 0, 0, 0])} else {})"
  by (auto simp: edit_level_def db_edit_fields FileMetaData_new_def info_def)

lemma db_start_inv: "posix_manifest.manifest_inv db_start (db_disk []) [] (\<lambda>_. {})"
proof -
  let ?v = "Version_new\<lparr>v_refs := 1\<rparr>"
  note vs = VersionSet_new_ok [OF db_set]
  have "current_is 0 ?v db_start" using vs(1) by (simp add: current_is_def version_of_def db_start_def)
  moreover have "vs_user db_start = BytewiseComparator" using vs(4) by (simp add: db_start_def)
  ultimately have "bytewise.holds db_start (\<lambda>_. {})"
    using posix_manifest.new_base_ok [of db_start] unfolding bytewise.holds_def by blast
  moreover have "vs_descriptor_log db_start = None" "vs_manifest_file_number db_start = 2" "vs_compact_pointer db_start = (\<lambda>_. [])"
    by (simp_all add: db_start_def db_set_def VersionSet_new_def AppendVersion_def Version_new_def Let_def)
  ultimately show ?thesis
    by (simp add: posix_manifest.manifest_inv_def stored_def pointers_stored_def disjoint_level_def)
qed

lemma db_fits: "posix_manifest.edit_fits db_start [] (\<lambda>_. {}) db_edit"
  by (auto simp: posix_manifest.edit_fits_def bytewise.edit_logged_def db_edit_fields edit_valid_def meta_keys_def FileMetaData_new_def
      bytewise.ikey_def log_number_ok_def with_numbers_def kNumLevels_def db_level disjoint_level_def)

lemma db_after: "es_after db_start [] db_edit = [SetComparatorName (Name BytewiseComparator) VersionEdit_new, db_logged]"
proof -
  have none: "vs_descriptor_log db_start = None" "vs_compact_pointer db_start = (\<lambda>_. [])"
    by (simp_all add: db_start_def db_set_def VersionSet_new_def AppendVersion_def Version_new_def Let_def)
  have logged: "new_files db_logged = new_files db_edit" "compact_pointers db_logged = []" "\<And>l M. edit_level db_logged l M = edit_level db_edit l M"
    using db_edit_fields(3) by (simp_all add: db_logged_def edit_level_def)
  have "bytewise.holds db_start (\<lambda>_. {})" using db_start_inv by (simp add: posix_manifest.manifest_inv_def)
  moreover have "numbers_fresh (\<lambda>l. fst ` {}) (new_files db_logged)" "edit_valid bytewise.ikey db_logged"
    "\<forall>l. 0 < l \<and> l < kNumLevels \<longrightarrow> disjoint_level BytewiseComparator (edit_level db_logged l {})"
    using db_fits unfolding logged(3)
    by (simp_all add: posix_manifest.edit_fits_def with_numbers_def logged(1) bytewise.edit_logged_def edit_valid_def) (simp_all add: db_logged_def)
  ultimately obtain v vs1 where 1: "build_version db_logged db_start = Some (v, vs1)" "frame db_start vs1" "bytewise.holds vs1 (\<lambda>_. {})"
    "vs_compact_pointer vs1 = set_pointers db_logged (vs_compact_pointer db_start)"
    using bytewise.build_version_ok [of db_start "\<lambda>_. {}" db_logged] by blast
  obtain i u where u: "current_is i u vs1" "\<forall>l < kNumLevels. level_set (vs_files vs1) (set (v_files u l)) = {}" "vs_user vs1 = BytewiseComparator"
    using 1(3) by (auto simp: bytewise.holds_def bytewise.base_ok_def)
  have "vs_compact_pointer vs1 = (\<lambda>_. [])" using 1(4) none(2) logged(2) by (simp add: set_pointers_def)
  then have "pointer_list (vs_compact_pointer vs1) [0..<kNumLevels] = []" "level_metas (vs_files vs1) u [0..<kNumLevels] = []"
    using u(2) by (auto simp: pointer_list_def level_metas_def level_set_def)
  then have "snapshot_edit vs1 = Some (SetComparatorName (Name BytewiseComparator) VersionEdit_new)"
    using snapshot_edit_fields [OF u(1)] u(3) by (simp add: SetComparatorName_def VersionEdit_new_def)
  with none(1) db_edit_fields(7) 1(1) show ?thesis by (simp add: es_after_def)
qed

lemma db_records:
  "VersionEdit_EncodeTo (SetComparatorName (Name BytewiseComparator) VersionEdit_new) [] = Some ([1, 26] @ bytes_of ''leveldb.BytewiseComparator'')"
  "VersionEdit_EncodeTo db_logged [] = Some [2, 0, 9, 0, 3, 3, 4, 0, 7, 0, 5, 10, 9, 97, 1, 3, 0, 0, 0, 0, 0, 0, 9, 98, 1, 3, 0, 0, 0, 0, 0, 0]"
  by (simp_all add: VersionEdit_EncodeTo_def encode_number_def encode_pointer_def encode_file_def SetComparatorName_def VersionEdit_new_def
      db_logged_def db_edit_def AddFile_def FileMetaData_new_def tags InternalKey_Encode_def PutVarint32_def PutVarint64_def
      PutLengthPrefixedSlice_def BytewiseComparator_def EncodeVarint32_def EncodeVarint64.simps [of "numeral _"] EncodeVarint64.simps [of 0] Let_def)

lemma db_bytes: "bytes_needed db_start [] db_edit \<le> 4096"
proof -
  have "vs_descriptor_log db_start = None" "vs_manifest_file_number db_start = 2"
    by (simp_all add: db_start_def db_set_def VersionSet_new_def AppendVersion_def Version_new_def Let_def)
  then show ?thesis
    by (simp add: bytes_needed_def db_after logged_def db_records log_bytes_def record_layout_short manifest_base_def decimal_6_def decimal.simps [of 2])
qed


theorem applied_edit_is_recovered_witness:
  "\<exists>vs' w' save_manifest vs2 w2. LogAndApply db_machine PosixEnv db_edit db_start (db_disk []) = Some (Status_OK, vs', w') \<and>
    Recover db_machine PosixEnv db_set w' = Some (Status_OK, save_manifest, vs2, w2) \<and>
    bytewise.holds vs2 (\<lambda>l. if l = 0 then {(5, 10, [97, 1, 3, 0, 0, 0, 0, 0, 0], [98, 1, 3, 0, 0, 0, 0, 0, 0])} else {}) \<and>
    vs_next_file_number vs2 = vs_next_file_number vs' + 1"
proof -
  have "posix_room (db_disk []) (bytes_needed db_start [] db_edit + 0)" using db_bytes by (simp add: posix_room_def db_disk_def)
  moreover have "VersionSet_new (vs_dbname db_start) Options_new BytewiseComparator = Some db_set"
    using db_set VersionSet_new_ok(2) [OF db_set] by (simp add: db_start_def)
  ultimately show ?thesis
    using applied_edit_is_recovered [OF posix_manifest.manifest_env_axioms db_start_inv db_fits, of 0 Options_new db_set db_machine]
    unfolding db_level by blast
qed

theorem recovery_survives_truncation_witness:
  "\<exists>save_manifest vs w'. Recover db_machine PosixEnv db_set
      (db_disk [(CurrentFileName [100], manifest_base 2 @ [10]),
        (manifest_name [100] 2, take (length (log_bytes (logged [db_logged])) + 5) (log_bytes (logged [db_logged, db_logged])))]) =
      Some (Status_OK, save_manifest, vs, w') \<and>
    bytewise.holds vs (\<lambda>l. if l = 0 then {(5, 10, [97, 1, 3, 0, 0, 0, 0, 0, 0], [98, 1, 3, 0, 0, 0, 0, 0, 0])} else {}) \<and>
    vs_next_file_number vs = 4"
proof -
  let ?m = "length (log_bytes (logged [db_logged])) + 5" and ?bytes = "log_bytes (logged [db_logged, db_logged])"
  let ?fs = "[(CurrentFileName [100], manifest_base 2 @ [10]), (manifest_name [100] 2, take ?m ?bytes)]"
  let ?S = "\<lambda>l :: nat. if l = 0 then {(5 :: u64, 10 :: u64, [97, 1, 3, 0, 0, 0, 0, 0, 0 :: byte], [98, 1, 3, 0, 0, 0, 0, 0, 0 :: byte])} else {}"
  have len: "length (log_bytes (logged [db_logged])) = 39" "length ?bytes = 78" 
    by (simp_all add: logged_def db_records log_bytes_def record_layout_short)
  have current: "length (manifest_base 2) = 15" by (simp add: manifest_base_def decimal_6_def decimal.simps [of 2])
  have room: "posix_room (db_disk ?fs) 0" using len current by (simp add: posix_room_def db_disk_def)
  have manifest: "posix_manifest.manifest_holds (db_disk ?fs) [100] 2 (take ?m ?bytes)"
    using manifest_name_distinct(1) [of "[100]" 2] by (simp add: posix_manifest.manifest_holds_def db_disk_def)
  have cut: "whole_in (logged [db_logged, db_logged]) 1 ?m"
    using len by (simp add: whole_in_def logged_def)
  have level: "edit_level db_logged l {} = ?S l" for l using db_level [of l] by (simp add: edit_level_def db_logged_def)
  have desc: "posix_manifest.described (take 1 [db_logged, db_logged]) ?S"
    using db_fits db_edit_fields(8) unfolding posix_manifest.described_def posix_manifest.edit_fits_def
    by (simp add: level bytewise.edit_logged_def edit_valid_def with_numbers_def) (simp add: db_logged_def)
  have num: "has_numbers ([db_logged, db_logged] ! (1 - 1))" by (simp add: has_numbers_def db_logged_def)
  have disj: "\<forall>l. 0 < l \<and> l < kNumLevels \<longrightarrow> disjoint_level BytewiseComparator (?S l)" by (simp add: disjoint_level_def)
  have "e_next_file_number ([db_logged, db_logged] ! (1 - 1)) + 1 = 4" by (simp add: db_logged_def)
  with recovery_survives_truncation [OF posix_manifest.manifest_env_axioms db_set room manifest cut desc zero_less_one num disj, of db_machine]
  show ?thesis by (elim exE conjE) (intro exI conjI, assumption+, simp)
qed

end
