(* ===== verification/Spec2Isabelle.thy ===== *)
theory Spec2Isabelle
  imports Pb_Stream_Props Pb_Message_Props Ldb_Log_Props Ldb_Base_Props Ldb_SkipList_Props Ldb_Mem_Props Ldb_Table_File_Props Ldb_Db_Props Ldb_Version_Props
    Ldb_Compaction_Props Ldb_Manifest_Props
begin

text \<open>
  \<^bold>\<open>The program.\<close> YumQuest is an iOS app. Its own code is Swift; the C and C++ that is built into it is
  the storage layer under Firebase (\<open>src/YumQuest/Pods/\<close>): \<^bold>\<open>nanopb\<close>, a protocol buffer codec that decodes
  into C structs without allocating, and \<^bold>\<open>leveldb\<close>, the key-value store of the offline database. This
  development models these two libraries. The theories are in the order of the code's own dependencies.

  \<^bold>\<open>Shared.\<close> \<open>Prelude\<close> holds the types of the target (64-bit little-endian: \<open>size_t\<close> is a 64-bit word),
  byte lists, and lemmas on them. \<open>Varint\<close> is the base-128 integer format both libraries use, with one
  round trip for both.

  \<^bold>\<open>nanopb\<close> (\<open>nanopb/pb.h\<close>, \<open>pb_common.c\<close>, \<open>pb_decode.c\<close>, \<open>pb_encode.c\<close>). A message type is an array of
  field descriptors; encoder and decoder walk it with an iterator that adds up struct offsets.
  \<^item> \<open>Pb_Types\<close>: \<open>pb_field_t\<close>, the type byte, \<open>pb_field_iter_t\<close> and \<open>pb_field_iter_begin/next/find\<close>.
    \<open>Pb_Descriptors\<close>: the \<open>PB_FIELD\<close> macros that make the arrays, with \<open>offsetof\<close> and \<open>sizeof\<close> of a struct
    as computed by a layout function. \<open>Pb_Memory\<close>: the memory of a struct, a partial map from addresses
    to bytes; an access outside it has no result (\<open>None\<close>), so a property that gives a result excludes it.
  \<^item> \<open>Pb_Istream\<close>, \<open>Pb_Input\<close>: \<open>pb_istream_t\<close>, \<open>pb_read\<close>, varints, tags, skipping, substreams.
    \<open>Pb_Ostream\<close>: \<open>pb_ostream_t\<close>, \<open>pb_write\<close>, and the encoders of integers, tags and strings. A C function
    that returns \<open>bool\<close> and changes its stream is a function from a stream to a result with the new stream;
    the stream's \<open>errmsg\<close> is kept on each failing branch.
  \<^item> \<open>Pb_Reader\<close>: the contract \<open>buffer_reader\<close> that every reading operation meets, a locale, and its
    consequences; \<open>Pb_Wire\<close>: the bytes each encoder writes and that the decoders read them back.
  \<^item> \<open>Pb_Decode\<close>, \<open>Pb_Encode\<close>, \<open>Pb_Extension\<close>: \<open>pb_decode\<close> and \<open>pb_encode\<close> with every allocation type the
    app builds, oneofs, packed arrays, defaults, required fields, submessages. Callbacks and extension
    handlers are parameters. \<open>Pb_Memory\<close> also says when a descriptor array describes a struct that can be decoded
    safely: without pointer and extension fields, and with fewer than 64 required fields and not exactly 32. \<open>Pb_Safe\<close>,
    \<open>Pb_Decode_Safe\<close>: what every decoding step promises of memory. \<open>Pb_Encode_Sizing\<close>: an encoder writes
    the same bytes on a sizing stream as on a buffer.
  \<^item> \<open>Pb_Stream_Props\<close>, \<open>Pb_Message_Props\<close>: the properties, each with a witness on a concrete message.

  Message nesting is bounded by a depth argument of the decoder and the encoder, one per level of
  submessage descriptors. The C code recurses without a bound; the depth stands for the nesting of the
  descriptor arrays, which is finite when layouts are well founded, and the properties ask for one at
  least as deep as the type. A loop with an evident measure is a function with a termination proof; one
  that a callback or the input could keep running is a \<open>partial_function (option)\<close>, for which not
  returning is \<open>None\<close>, and the properties show that it returns.

  \<^bold>\<open>leveldb\<close> (\<open>leveldb-library/\<close>). A write goes to the log, then to the memtable; a full memtable becomes
  a table file; the set of tables is recorded in the manifest, a log of version edits.
  \<^item> \<open>Ldb_Coding\<close> (\<open>util/coding\<close>, \<open>slice.h\<close>), \<open>Ldb_Crc32c\<close> (\<open>util/crc32c\<close>), \<open>Ldb_Status\<close> (\<open>util/status\<close>),
    \<open>Ldb_Filename\<close> (\<open>util/logging.cc\<close>, \<open>db/filename\<close>): the values everything is made of. A pointer and a
    limit into a buffer are the bytes between them. \<open>Ldb_Files\<close> (\<open>env.h\<close>, part of \<open>util/env_posix.cc\<close>):
    the file objects as records of functions; the operating system is a value they are given.
  \<^item> \<open>Ldb_Log\<close> (\<open>db/log_writer\<close>, \<open>db/log_reader\<close>): fragments, block trailers, resynchronisation, drop
    reports. \<open>Ldb_Log_Format\<close> describes the file that the writer makes; \<open>Ldb_Log_Props\<close> has the round trip
    for every truncation of it, and that reading arbitrary bytes ends.
  \<^item> \<open>Ldb_Comparator\<close> (\<open>util/comparator.cc\<close>) and \<open>Ldb_DbFormat\<close> (\<open>db/dbformat\<close>): the comparator as a record of
    functions and the locale \<open>comparator\<close> that says what it promises, interpreted on the bytewise order;
    internal keys, their order and their separators.
  \<^item> \<open>Ldb_Arena\<close> (\<open>util/arena\<close>, \<open>util/random.h\<close>): the arena over an allocator, with the invariant that
    allocations are disjoint. \<open>Ldb_SkipList\<close> (\<open>db/skiplist.h\<close>): nodes with their arrays of links, in an
    explicit store; \<open>_Inv\<close>, \<open>_Insert\<close>, \<open>_Ops\<close>: the invariant (each level a sublist of the one below,
    ascending) and the refinement of a sorted list of keys; \<open>_Concurrent\<close>: the writer and a reader as
    a step relation with the invariant over reachable states. The writer links one level per step, both stores of
    it at once and after a search for the predecessors that is one step; the reader makes one load per step.
  \<^item> \<open>Ldb_MemTable\<close>, \<open>Ldb_MemTable_Spec\<close> (\<open>db/memtable\<close>): entries encoded in arena memory, their order, and
    \<open>Get\<close> as the newest entry a snapshot sees. \<open>Ldb_WriteBatch\<close> (\<open>db/write_batch\<close>): building batches and
    inserting them. \<open>Ldb_Base_Props\<close>, \<open>Ldb_SkipList_Props\<close>, \<open>Ldb_Mem_Props\<close>: the properties.
  \<^item> \<open>Ldb_Iterator\<close> (\<open>iterator.h\<close>, \<open>table/iterator.cc\<close>, \<open>iterator_wrapper.h\<close>): the iterator interface as a
    record of functions, a cursor in a list of entries that a client could use instead (\<open>views\<close>), and the
    locale \<open>iterator\<close> for what an implementation promises. \<open>Ldb_Options\<close>: options and filter policies
    (\<open>util/bloom.cc\<close>, \<open>util/hash.cc\<close>), with the locale \<open>filter_policy\<close>.
  \<^item> \<open>Ldb_Block\<close> (\<open>table/block\<close>, \<open>table/block_builder\<close>): prefix-compressed blocks with restart points.
    \<open>Ldb_Block_Spec\<close>: the layout as a relation between bytes and entries, and the block's iterator as an
    \<open>iterator\<close>; \<open>Ldb_Block_Build\<close>: the builder's invariant, and that it makes this layout. \<open>Ldb_FilterBlock\<close>
    (\<open>table/filter_block\<close>): the block of filters, as groups of keys. \<open>Ldb_Format\<close> (\<open>table/format\<close>): handles, footer, blocks in a file.
  \<^item> \<open>Ldb_TwoLevel\<close>, \<open>Ldb_Merger\<close> (\<open>table/two_level_iterator\<close>, \<open>table/merger\<close>), each with a \<open>_Spec\<close>: from
    iterators that keep the contract they make one that keeps it, over the concatenation of the blocks
    an index names, and over the sorted union of the children. \<open>Ldb_Table_Props\<close>: the properties.
  \<^item> \<open>Ldb_TableBuilder\<close>, \<open>Ldb_Table\<close> (\<open>table/table_builder\<close>, \<open>table/table\<close>): writing and reading table files.
    \<open>Ldb_TableBuilder_Spec\<close>: the builder's invariant, over any file whose successful writes append
    (\<open>table_file\<close>) and any options whose comparator and filter policy keep their contracts
    (\<open>table_options\<close>); \<open>Ldb_Table_Layout\<close>: the bytes of a finished file; \<open>Ldb_Table_Spec\<close>: opening such a
    file, its iterator and lookups. \<open>Ldb_Table_File_Props\<close> puts the two together.
  \<^item> \<open>Ldb_DbIter\<close>, \<open>Ldb_DbIter_Spec\<close> (\<open>db/db_iter\<close>): the iterator of the database over one of internal keys;
    \<open>snapshot\<close> is what a sequence number sees of a list of internal entries, and the iterator is an
    \<open>iterator\<close> over that.
  \<^item> \<open>Ldb_VersionEdit\<close> (\<open>db/version_edit\<close>): the records of the manifest, their bytes and
    reading them. \<open>Ldb_Db_Props\<close>: the properties. \<open>Ldb_Snapshot\<close>: what a sequence number sees of a list of
    internal entries, shared by the database iterator and the versions.
  \<^item> \<open>Ldb_TableCache\<close> (\<open>db/table_cache\<close>): tables by file number. \<open>Ldb_Version\<close>, \<open>Ldb_VersionSet\<close>, \<open>Ldb_Compaction\<close>
    (\<open>db/version_set\<close>): the files of each level and reading them, the versions in use and the builder that
    applies edits, choosing a compaction; the objects that describe files are shared, so they are kept in a
    store. \<open>Ldb_Compaction_Run\<close>: from \<open>DoCompactionWork\<close> of \<open>db/db_impl.cc\<close>, which entries are dropped.
    \<open>Ldb_Version_Spec\<close>, \<open>Ldb_Compaction_Spec\<close>: a lookup finds the newest entry
    of all files, a compaction keeps what snapshots see, collecting its inputs ends. \<open>Ldb_VersionSet_Spec\<close>: the
    builder makes the version that the edits describe. \<open>Ldb_Env\<close> (\<open>env.h\<close>, \<open>util/env.cc\<close>, \<open>util/env_posix.cc\<close>): the
    environment as operations on a world, and the POSIX one; \<open>Ldb_Env_Spec\<close>: the locale \<open>durable_env\<close> for what
    an environment promises while nothing fails, interpreted on it. \<open>Ldb_Manifest\<close>: \<open>LogAndApply\<close> and \<open>Recover\<close>;
    \<open>Ldb_Manifest_Spec\<close>, \<open>Ldb_Recover_Spec\<close>: the manifest is the log of edits that make the current version, and any part of it
    that survives is recovered, in the locale \<open>manifest_env\<close> of an environment and a comparator; \<open>Ldb_Manifest_Props\<close>:
    the properties. \<open>Ldb_Version_Props\<close>,
    \<open>Ldb_Compaction_Props\<close>: the properties.

  The loops of the log reader, of the skip list, of blocks and of the two-level iterator are \<open>partial_function (option)\<close> too; \<open>None\<close> also stands
  for a failed assertion and an access outside an array, so that a result excludes all of these. Some assertions of leaf
  functions are left out, and these functions total: the size of an internal key in \<open>ExtractUserKey\<close>, and number and
  type in \<open>PackSequenceAndType\<close>. Sizes in the arena and \<open>bits_per_key\<close> of the Bloom filter are natural numbers.

  \<^bold>\<open>Not modelled.\<close> nanopb's \<open>PB_ENABLE_MALLOC\<close> code is not compiled into the app. Of leveldb: the LRU cache,
  recovery of the logs, repair, the rest of the database object
  (\<open>db_impl.cc\<close>) and the C interface, and the threads, the time and the
  logger of the POSIX environment, which only passes on to the operating system. The Facebook,
  Google and Bolts pods are Objective-C libraries, and Firebase comes as compiled frameworks with headers
  that declare interfaces only. The app itself is Swift.
\<close>

end
